(* ===== verification/Prelude.thy ===== *)
theory Prelude
  imports
    Main
    "HOL-Library.Word"
    "HOL-Library.Finite_Map"
    "HOL-Library.List_Lexorder"
    "HOL-Library.Char_ord"
    "HOL-Library.Product_Lexorder"
    "HOL-Library.Option_ord"
    "HOL-Library.Sublist"
begin

text \<open>
  Shared vocabulary of the development.

  Types: Rust strings and paths are byte strings (\<open>string\<close>, one \<open>char\<close> per UTF-8 byte, so the
  lexicographic order is the order of Rust's \<open>String\<close>); \<open>Vec<u8>\<close> is \<open>bytes\<close>; the fixed-width
  integers are words; a \<open>BTreeMap\<close> or \<open>HashMap\<close> is a finite map \<open>fmap\<close>, iterated in key order by
  \<open>fm_entries\<close>.

  Errors and effects: a fallible pure function returns a sum, \<open>Inl\<close> for \<open>Err\<close>; a function with
  side effects is an \<open>action\<close>, which takes the state it may write and returns the result together
  with the new state, also when the result is an error (a failed call keeps the writes made before
  the failure). \<open>act_bind\<close> is the \<open>?\<close> operator.
\<close>

section \<open>Names for the types of the model\<close>

type_synonym byte = "8 word"
type_synonym bytes = "byte list"
type_synonym u32 = "32 word"
type_synonym u64 = "64 word"
type_synonym hash = bytes

text \<open>Instants (\<open>SystemTime\<close>) and durations, in nanoseconds since the Unix epoch.\<close>

type_synonym instant = nat
type_synonym duration = nat

named_theorems act_simps \<open>unfolding rules of the action combinators\<close>
named_theorems keeps_intros \<open>introduction rules for invariants of actions\<close>

section \<open>Results and actions\<close>

definition res_bind :: "'e + 'a \<Rightarrow> ('a \<Rightarrow> 'e + 'b) \<Rightarrow> 'e + 'b" where
  "res_bind r f = (case r of Inl e \<Rightarrow> Inl e | Inr x \<Rightarrow> f x)"

definition res_of :: "'e \<Rightarrow> 'a option \<Rightarrow> 'e + 'a" where
  "res_of e x = (case x of None \<Rightarrow> Inl e | Some a \<Rightarrow> Inr a)"

text \<open>\<open>collect::<Result<Vec<_>>>\<close>: the first error, or all the values.\<close>

fun res_collect :: "('a \<Rightarrow> 'e + 'b) \<Rightarrow> 'a list \<Rightarrow> 'e + 'b list" where
  "res_collect f [] = Inr []"
| "res_collect f (x # xs) =
     (case f x of Inl e \<Rightarrow> Inl e
      | Inr y \<Rightarrow> (case res_collect f xs of Inl e \<Rightarrow> Inl e | Inr ys \<Rightarrow> Inr (y # ys)))"

type_synonym ('w, 'e, 'a) action = "'w \<Rightarrow> ('e + 'a) \<times> 'w"

definition act_ok :: "'a \<Rightarrow> ('w, 'e, 'a) action" where
  "act_ok x = (\<lambda>w. (Inr x, w))"

definition act_err :: "'e \<Rightarrow> ('w, 'e, 'a) action" where
  "act_err e = (\<lambda>w. (Inl e, w))"

definition act_res :: "'e + 'a \<Rightarrow> ('w, 'e, 'a) action" where
  "act_res r = (\<lambda>w. (r, w))"

definition act_get :: "('w \<Rightarrow> 'a) \<Rightarrow> ('w, 'e, 'a) action" where
  "act_get f = (\<lambda>w. (Inr (f w), w))"

definition act_mod :: "('w \<Rightarrow> 'w) \<Rightarrow> ('w, 'e, unit) action" where
  "act_mod f = (\<lambda>w. (Inr (), f w))"

definition act_bind :: "('w, 'e, 'a) action \<Rightarrow> ('a \<Rightarrow> ('w, 'e, 'b) action) \<Rightarrow> ('w, 'e, 'b) action" where
  "act_bind m f = (\<lambda>w. case m w of (Inl e, w') \<Rightarrow> (Inl e, w') | (Inr x, w') \<Rightarrow> f x w')"

text \<open>The result as a value: what \<open>match result { Ok .. Err .. }\<close> does without returning early.\<close>

definition act_try :: "('w, 'e, 'a) action \<Rightarrow> ('w, 'f, 'e + 'a) action" where
  "act_try m = (\<lambda>w. case m w of (r, w') \<Rightarrow> (Inr r, w'))"

fun act_each :: "('a \<Rightarrow> ('w, 'e, unit) action) \<Rightarrow> 'a list \<Rightarrow> ('w, 'e, unit) action" where
  "act_each f [] = act_ok ()"
| "act_each f (x # xs) = act_bind (f x) (\<lambda>_. act_each f xs)"

fun act_map :: "('a \<Rightarrow> ('w, 'e, 'b) action) \<Rightarrow> 'a list \<Rightarrow> ('w, 'e, 'b list) action" where
  "act_map f [] = act_ok []"
| "act_map f (x # xs) = act_bind (f x) (\<lambda>y. act_bind (act_map f xs) (\<lambda>ys. act_ok (y # ys)))"

fun act_fold :: "('a \<Rightarrow> 's \<Rightarrow> ('w, 'e, 's) action) \<Rightarrow> 'a list \<Rightarrow> 's \<Rightarrow> ('w, 'e, 's) action" where
  "act_fold f [] s = act_ok s"
| "act_fold f (x # xs) s = act_bind (f x s) (\<lambda>s'. act_fold f xs s')"

lemma act_ok_run [simp]: "act_ok x w = (Inr x, w)"
  by (simp add: act_ok_def)

lemma act_err_run [simp]: "act_err e w = (Inl e, w)"
  by (simp add: act_err_def)

lemma act_res_run [simp]: "act_res r w = (r, w)"
  by (simp add: act_res_def)

lemma act_get_run [simp]: "act_get f w = (Inr (f w), w)"
  by (simp add: act_get_def)

lemma act_mod_run [simp]: "act_mod f w = (Inr (), f w)"
  by (simp add: act_mod_def)

lemma run_pair: "fst (m w) = Inr x \<Longrightarrow> m w = (Inr x, snd (m w))"
  by (simp add: prod_eq_iff)

lemma act_bind_run [act_simps]:
  "act_bind m f w = (case m w of (Inl e, w') \<Rightarrow> (Inl e, w') | (Inr x, w') \<Rightarrow> f x w')"
  by (simp add: act_bind_def)

lemma act_bind_Inr [simp]: "m w = (Inr x, w') \<Longrightarrow> act_bind m f w = f x w'"
  by (simp add: act_bind_def)

lemma act_bind_Inl [simp]: "m w = (Inl e, w') \<Longrightarrow> act_bind m f w = (Inl e, w')"
  by (simp add: act_bind_def)

lemma act_bind_ok: "act_bind m f w = (Inr y, w2) \<longleftrightarrow>
    (\<exists>x w1. m w = (Inr x, w1) \<and> f x w1 = (Inr y, w2))"
  by (auto simp: act_bind_def split: prod.splits sum.splits)

lemma act_bind_okE:
  assumes "act_bind m f w = (Inr y, w2)"
  obtains x w1 where "m w = (Inr x, w1)" "f x w1 = (Inr y, w2)"
  using assms by (auto simp: act_bind_ok)

lemma act_try_run [act_simps]: "act_try m w = (case m w of (r, w') \<Rightarrow> (Inr r, w'))"
  by (simp add: act_try_def)

lemmas act_result_splits = sum.splits prod.splits option.splits if_splits

lemma res_bind_simps [simp]:
  "res_bind (Inl e) f = Inl e"
  "res_bind (Inr x) f = f x"
  by (simp_all add: res_bind_def)

lemma res_bind_ok: "res_bind r f = Inr y \<longleftrightarrow> (\<exists>x. r = Inr x \<and> f x = Inr y)"
  by (cases r) auto

lemma res_of_ok [simp]: "res_of e x = Inr a \<longleftrightarrow> x = Some a"
  by (cases x) (auto simp: res_of_def)

lemma res_of_simps [simp]:
  "res_of e None = Inl e"
  "res_of e (Some a) = Inr a"
  by (simp_all add: res_of_def)

lemma res_collect_ok:
  "res_collect f xs = Inr ys \<longleftrightarrow> list_all2 (\<lambda>x y. f x = Inr y) xs ys"
proof (induction xs arbitrary: ys)
  case Nil
  then show ?case by auto
next
  case (Cons x xs)
  show ?case
  proof (cases ys)
    case Nil
    then show ?thesis by (auto split: sum.splits)
  next
    case (Cons y ys')
    with Cons.IH show ?thesis by (auto split: sum.splits) (metis sum.inject(2))
  qed
qed

lemma res_collect_map: "(\<And>x. x \<in> set xs \<Longrightarrow> f x = Inr (g x)) \<Longrightarrow> res_collect f xs = Inr (map g xs)"
  by (induction xs) auto

section \<open>Invariants of actions\<close>

text \<open>\<open>act_keeps P m\<close>: whatever \<open>m\<close> returns, error or value, \<open>P\<close> still holds afterwards.\<close>

definition act_keeps :: "('w \<Rightarrow> bool) \<Rightarrow> ('w, 'e, 'a) action \<Rightarrow> bool" where
  "act_keeps P m \<longleftrightarrow> (\<forall>w. P w \<longrightarrow> P (snd (m w)))"

lemma act_keepsI: "(\<And>w. P w \<Longrightarrow> P (snd (m w))) \<Longrightarrow> act_keeps P m"
  by (simp add: act_keeps_def)

lemma act_keepsD: "act_keeps P m \<Longrightarrow> P w \<Longrightarrow> m w = (r, w') \<Longrightarrow> P w'"
  unfolding act_keeps_def by (metis snd_conv)

lemma keeps_ok [keeps_intros]: "act_keeps P (act_ok x)"
  by (simp add: act_keeps_def)

lemma keeps_err [keeps_intros]: "act_keeps P (act_err e)"
  by (simp add: act_keeps_def)

lemma keeps_res [keeps_intros]: "act_keeps P (act_res r)"
  by (simp add: act_keeps_def)

lemma keeps_get [keeps_intros]: "act_keeps P (act_get f)"
  by (simp add: act_keeps_def)

lemma keeps_mod [keeps_intros]: "(\<And>w. P w \<Longrightarrow> P (f w)) \<Longrightarrow> act_keeps P (act_mod f)"
  by (simp add: act_keeps_def)

lemma keeps_bind [keeps_intros]:
  "act_keeps P m \<Longrightarrow> (\<And>x. act_keeps P (f x)) \<Longrightarrow> act_keeps P (act_bind m f)"
  unfolding act_keeps_def act_bind_def
  by (force split: prod.splits sum.splits)

lemma keeps_try [keeps_intros]: "act_keeps P m \<Longrightarrow> act_keeps P (act_try m)"
  by (force simp: act_keeps_def act_try_def split: prod.splits)

lemma keeps_each [keeps_intros]: "(\<And>x. act_keeps P (f x)) \<Longrightarrow> act_keeps P (act_each f xs)"
  by (induction xs) (auto intro: keeps_intros)

lemma keeps_map [keeps_intros]: "(\<And>x. act_keeps P (f x)) \<Longrightarrow> act_keeps P (act_map f xs)"
  by (induction xs) (auto intro: keeps_intros)

lemma keeps_fold [keeps_intros]: "(\<And>x s. act_keeps P (f x s)) \<Longrightarrow> act_keeps P (act_fold f xs s)"
  by (induction xs arbitrary: s) (auto intro: keeps_intros)

lemma keeps_case_option [keeps_intros]:
  "act_keeps P m \<Longrightarrow> (\<And>x. act_keeps P (f x)) \<Longrightarrow> act_keeps P (case y of None \<Rightarrow> m | Some x \<Rightarrow> f x)"
  by (cases y) auto

lemma keeps_case_sum [keeps_intros]:
  "(\<And>x. act_keeps P (f x)) \<Longrightarrow> (\<And>x. act_keeps P (g x)) \<Longrightarrow>
    act_keeps P (case y of Inl x \<Rightarrow> f x | Inr x \<Rightarrow> g x)"
  by (cases y) auto

lemma keeps_if [keeps_intros]:
  "act_keeps P m \<Longrightarrow> act_keeps P n \<Longrightarrow> act_keeps P (if b then m else n)"
  by simp

section \<open>Ordered maps\<close>

text \<open>
  A \<open>BTreeMap\<close> is a finite map; its iteration order is the key order. The evaluation rule
  \<open>fm_entries_fmupd\<close> turns the entries of a map built by updates into insertions into a list, so
  closed instances compute by rewriting.
\<close>

text \<open>The library's congruence rule for \<open>fmfilter\<close> keeps the simplifier away from the filtered map.\<close>

declare fmfilter_cong [cong del]

definition fm_keys :: "('k::linorder, 'v) fmap \<Rightarrow> 'k list" where
  "fm_keys m = sorted_list_of_fset (fmdom m)"

definition fm_entries :: "('k::linorder, 'v) fmap \<Rightarrow> ('k \<times> 'v) list" where
  "fm_entries m = map (\<lambda>k. (k, the (fmlookup m k))) (fm_keys m)"

definition fm_values :: "('k::linorder, 'v) fmap \<Rightarrow> 'v list" where
  "fm_values m = map snd (fm_entries m)"

text \<open>\<open>collect::<BTreeMap<_, _>>\<close>: a later pair replaces an earlier one with the same key.\<close>

fun fm_collect_into :: "('k, 'v) fmap \<Rightarrow> ('k \<times> 'v) list \<Rightarrow> ('k, 'v) fmap" where
  "fm_collect_into m [] = m"
| "fm_collect_into m ((k, v) # ps) = fm_collect_into (fmupd k v m) ps"

definition fm_collect :: "('k \<times> 'v) list \<Rightarrow> ('k, 'v) fmap" where
  "fm_collect ps = fm_collect_into fmempty ps"

lemma set_fm_keys [simp]: "set (fm_keys m) = fset (fmdom m)"
  by (simp add: fm_keys_def)

lemma sorted_fm_keys [simp]: "sorted (fm_keys m)"
  by (simp add: fm_keys_def sorted_list_of_fset.rep_eq)

lemma distinct_fm_keys [simp]: "distinct (fm_keys m)"
  by (simp add: fm_keys_def sorted_list_of_fset.rep_eq)

lemma map_fst_fm_entries [simp]: "map fst (fm_entries m) = fm_keys m"
  by (simp add: fm_entries_def comp_def)

lemma fm_entries_iff: "(k, v) \<in> set (fm_entries m) \<longleftrightarrow> fmlookup m k = Some v"
  by (auto simp: fm_entries_def fmlookup_dom_iff)

lemma fm_values_iff: "v \<in> set (fm_values m) \<longleftrightarrow> (\<exists>k. fmlookup m k = Some v)"
proof -
  have "v \<in> set (fm_values m) \<longleftrightarrow> (\<exists>k. (k, v) \<in> set (fm_entries m))"
    unfolding fm_values_def set_map by (force simp: image_iff)
  then show ?thesis by (simp add: fm_entries_iff)
qed

lemma fm_entries_empty [simp]: "fm_entries fmempty = []"
  by (simp add: fm_entries_def fm_keys_def sorted_list_of_fset.rep_eq)

lemma fm_keys_empty [simp]: "fm_keys fmempty = []"
  by (simp add: fm_keys_def sorted_list_of_fset.rep_eq)

lemma fm_keys_fmupd: "fm_keys (fmupd k v m) = insort k (remove1 k (fm_keys m))"
  by (simp add: fm_keys_def sorted_list_of_fset.rep_eq sorted_list_of_set.sorted_key_list_of_set_insert_remove
      sorted_list_of_set.sorted_key_list_of_set_remove)

lemma map_insort_pair: "map (\<lambda>k. (k, f k)) (insort k ks) = insort_key fst (k, f k) (map (\<lambda>k. (k, f k)) ks)"
  by (induction ks) auto

lemma fm_entries_fmupd [simp]:
  "fm_entries (fmupd k v m) = insort_key fst (k, v) (filter (\<lambda>p. fst p \<noteq> k) (fm_entries m))"
proof -
  let ?f = "\<lambda>k'. the (fmlookup (fmupd k v m) k')"
  have eq: "remove1 k (fm_keys m) = filter (\<lambda>k'. k' \<noteq> k) (fm_keys m)"
    by (simp add: distinct_remove1_removeAll removeAll_filter_not_eq eq_commute)
  have "map (\<lambda>k'. (k', ?f k')) (filter (\<lambda>k'. k' \<noteq> k) (fm_keys m)) =
      filter (\<lambda>p. fst p \<noteq> k) (fm_entries m)"
    by (simp add: fm_entries_def filter_map comp_def)
  then show ?thesis
    by (simp add: fm_entries_def [of "fmupd k v m"] fm_keys_fmupd map_insort_pair eq)
qed

lemma fm_keys_fmdrop: "fm_keys (fmdrop k m) = remove1 k (fm_keys m)"
  by (simp add: fm_keys_def sorted_list_of_fset.rep_eq sorted_list_of_set.sorted_key_list_of_set_remove)

lemma fm_keys_fmfilter: "fm_keys (fmfilter P m) = filter P (fm_keys m)"
proof (rule sorted_distinct_set_unique)
  show "set (fm_keys (fmfilter P m)) = set (filter P (fm_keys m))" by auto
qed (simp_all add: sorted_wrt_filter)

lemma fm_entries_fmfilter: "fm_entries (fmfilter P m) = filter (\<lambda>(k, _). P k) (fm_entries m)"
  by (auto simp: fm_entries_def fm_keys_fmfilter filter_map comp_def intro: map_cong)

lemma fm_collect_into_lookup:
  "fmlookup (fm_collect_into m ps) k =
    (case map_of (rev ps) k of None \<Rightarrow> fmlookup m k | Some v \<Rightarrow> Some v)"
  by (induction m ps rule: fm_collect_into.induct)
    (auto simp: map_add_def split: option.splits)

lemma fm_collect_lookup: "fmlookup (fm_collect ps) k = map_of (rev ps) k"
  by (simp add: fm_collect_def fm_collect_into_lookup split: option.splits)

lemma fm_collect_entries [simp]: "fm_collect (fm_entries m) = m"
proof (rule fmap_ext)
  fix k
  have d: "distinct (map fst (rev (fm_entries m)))"
    by (simp flip: rev_map)
  show "fmlookup (fm_collect (fm_entries m)) k = fmlookup m k"
  proof (cases "fmlookup m k")
    case None
    then have "k \<notin> fst ` set (rev (fm_entries m))"
      by (force simp: fm_entries_iff)
    with None show ?thesis by (simp add: fm_collect_lookup map_of_eq_None_iff)
  next
    case (Some v)
    then have "(k, v) \<in> set (rev (fm_entries m))" by (simp add: fm_entries_iff)
    with d Some show ?thesis by (simp add: fm_collect_lookup)
  qed
qed

lemma map_of_rev_fm_entries [simp]: "map_of (rev (fm_entries m)) k = fmlookup m k"
  by (metis fm_collect_entries fm_collect_lookup)

lemma map_of_map_key: "map_of (map (\<lambda>(k, v). (k, f k v)) xs) k = map_option (f k) (map_of xs k)"
  by (induction xs) auto

lemma fm_collect_map_lookup:
  "fmlookup (fm_collect (map (\<lambda>(k, v). (k, f k v)) (fm_entries m))) k = map_option (f k) (fmlookup m k)"
  by (simp add: fm_collect_lookup map_of_map_key rev_map)

text \<open>\<open>collect::<BTreeSet<_>>\<close>, as the list of its elements in order.\<close>

definition btree_set :: "'a::linorder list \<Rightarrow> 'a list" where
  "btree_set xs = sort (remdups xs)"

lemma btree_set_simps [simp]:
  "set (btree_set xs) = set xs" "sorted (btree_set xs)" "distinct (btree_set xs)"
  by (simp_all add: btree_set_def)

lemma btree_set_strict: "sorted_wrt (<) (btree_set xs)"
  by (simp add: strict_sorted_iff)

section \<open>Decimal numbers\<close>

text \<open>\<open>format!("{}")\<close> and \<open>format!("{:0w}")\<close> of an unsigned integer, and \<open>str::parse\<close> back.\<close>

definition digit_char :: "nat \<Rightarrow> char" where
  "digit_char d = char_of (48 + d)"

fun dec :: "nat \<Rightarrow> string" where
  "dec n = (if n < 10 then [digit_char n] else dec (n div 10) @ [digit_char (n mod 10)])"

definition dec_pad :: "nat \<Rightarrow> nat \<Rightarrow> string" where
  "dec_pad w n = replicate (w - length (dec n)) (digit_char 0) @ dec n"

definition is_digit :: "char \<Rightarrow> bool" where
  "is_digit c \<longleftrightarrow> 48 \<le> (of_char c :: nat) \<and> (of_char c :: nat) \<le> 57"

definition digit_val :: "char \<Rightarrow> nat" where
  "digit_val c = of_char c - 48"

definition dec_val :: "string \<Rightarrow> nat" where
  "dec_val s = foldl (\<lambda>acc c. 10 * acc + digit_val c) 0 s"

definition parse_u64 :: "string \<Rightarrow> u64 option" where
  "parse_u64 s = (if s \<noteq> [] \<and> list_all is_digit s \<and> dec_val s < 2 ^ 64
     then Some (of_nat (dec_val s)) else None)"

declare dec.simps [simp del]

lemma of_char_digit [simp]: "d < 10 \<Longrightarrow> (of_char (digit_char d) :: nat) = 48 + d"
  by (simp add: digit_char_def)

lemma is_digit_digit [simp]: "d < 10 \<Longrightarrow> is_digit (digit_char d)"
  by (simp add: is_digit_def)

lemma digit_val_digit [simp]: "d < 10 \<Longrightarrow> digit_val (digit_char d) = d"
  by (simp add: digit_val_def)

lemma dec_val_Nil [simp]: "dec_val [] = 0"
  by (simp add: dec_val_def)

lemma dec_val_snoc [simp]: "dec_val (s @ [c]) = 10 * dec_val s + digit_val c"
  by (simp add: dec_val_def)

lemma dec_digits_val: "list_all is_digit (dec n) \<and> dec_val (dec n) = n \<and> dec n \<noteq> []"
proof (induction n rule: dec.induct)
  case (1 n)
  show ?case
  proof (cases "n < 10")
    case True
    then show ?thesis using dec_val_snoc [of "[]" "digit_char n"] by (simp add: dec.simps [of n])
  next
    case False
    with 1 show ?thesis by (simp add: dec.simps [of n])
  qed
qed

lemma dec_all_digits [simp]: "list_all is_digit (dec n)"
  and dec_val_dec [simp]: "dec_val (dec n) = n"
  and dec_not_Nil [simp]: "dec n \<noteq> []"
  using dec_digits_val by auto

lemma dec_length: "n < 10 ^ w \<Longrightarrow> 0 < w \<Longrightarrow> length (dec n) \<le> w"
proof (induction n arbitrary: w rule: dec.induct)
  case (1 n)
  show ?case
  proof (cases "n < 10")
    case True
    with "1.prems" show ?thesis by (simp add: dec.simps [of n])
  next
    case False
    then obtain v where w: "w = Suc v" "0 < v"
      using "1.prems" by (cases w; cases "w - 1") auto
    with "1.prems" have "n div 10 < 10 ^ v"
      by (simp add: less_mult_imp_div_less mult.commute)
    with "1.IH" [of v] False w show ?thesis by (simp add: dec.simps [of n])
  qed
qed

lemma dec_pad_length: "n < 10 ^ w \<Longrightarrow> 0 < w \<Longrightarrow> length (dec_pad w n) = w"
  using dec_length [of n w] by (simp add: dec_pad_def)

lemma dec_val_replicate0: "dec_val (replicate k (digit_char 0) @ s) = dec_val s"
proof (induction s rule: rev_induct)
  case Nil
  have "dec_val (replicate k (digit_char 0)) = 0"
  proof (induction k)
    case (Suc k)
    then show ?case by (simp flip: replicate_append_same)
  qed simp
  then show ?case by simp
next
  case (snoc c s)
  then show ?case by (simp flip: append_assoc)
qed

lemma dec_pad_all_digits [simp]: "list_all is_digit (dec_pad w n)"
  by (auto simp: dec_pad_def list_all_iff dest!: dec_all_digits [unfolded list_all_iff, rule_format])

lemma dec_val_dec_pad [simp]: "dec_val (dec_pad w n) = n"
  by (simp add: dec_pad_def dec_val_replicate0)

lemma dec_pad_not_Nil [simp]: "dec_pad w n \<noteq> []"
  by (simp add: dec_pad_def)

lemma parse_dec_pad: "parse_u64 (dec_pad w (unat n)) = Some n"
  using unsigned_less [of n] by (simp add: parse_u64_def)

text \<open>Strings of the same number of digits are ordered as the numbers they denote.\<close>

lemma dec_val_Cons: "dec_val (c # s) = digit_val c * 10 ^ length s + dec_val s"
proof (induction s rule: rev_induct)
  case Nil
  show ?case using dec_val_snoc [of "[]" c] by simp
next
  case (snoc d s)
  then show ?case using dec_val_snoc [of "c # s" d] by (simp add: algebra_simps)
qed

lemma digit_val_le: "is_digit c \<Longrightarrow> digit_val c \<le> 9"
  unfolding is_digit_def digit_val_def by arith

lemma dec_val_bound: "list_all is_digit s \<Longrightarrow> dec_val s < 10 ^ length s"
proof (induction s)
  case Nil
  then show ?case by simp
next
  case (Cons c s)
  have "digit_val c * 10 ^ length s \<le> 9 * 10 ^ length s"
    using Cons.prems digit_val_le by (intro mult_right_mono) auto
  moreover have "dec_val s < 10 ^ length s" using Cons by simp
  ultimately have "digit_val c * 10 ^ length s + dec_val s < 9 * 10 ^ length s + 10 ^ length s"
    by (rule add_le_less_mono)
  then show ?case by (simp add: dec_val_Cons)
qed

lemma digit_less: "is_digit c \<Longrightarrow> is_digit d \<Longrightarrow> c < d \<longleftrightarrow> digit_val c < digit_val d"
  by (auto simp: is_digit_def digit_val_def less_char_def)

lemma digit_eq: "is_digit c \<Longrightarrow> is_digit d \<Longrightarrow> digit_val c = digit_val d \<Longrightarrow> c = d"
  by (metis digit_less linorder_neqE nat_neq_iff)

lemma dec_val_less:
  assumes "length s = length t" "list_all is_digit s" "list_all is_digit t"
  shows "s < t \<longleftrightarrow> dec_val s < dec_val t"
  using assms
proof (induction s t rule: list_induct2)
  case Nil
  then show ?case by simp
next
  case (Cons c s d t)
  let ?p = "10 ^ length t :: nat"
  from Cons.prems have b: "dec_val s < ?p" "dec_val t < ?p"
    using dec_val_bound [of s] dec_val_bound [of t] Cons.hyps by auto
  have v: "dec_val (c # s) = digit_val c * ?p + dec_val s" "dec_val (d # t) = digit_val d * ?p + dec_val t"
    using Cons.hyps by (simp_all add: dec_val_Cons)
  have lt: "a * ?p + x < b * ?p + y" if "a < b" "x < ?p" for a b x y :: nat
  proof -
    have "(a + 1) * ?p \<le> b * ?p" using that(1) by (intro mult_right_mono) auto
    with that(2) show ?thesis by (simp add: algebra_simps)
  qed
  consider "digit_val c < digit_val d" | "digit_val d < digit_val c" | "c = d"
    using Cons.prems digit_eq by (metis linorder_neqE_nat list.pred_inject(2))
  then show ?case
  proof cases
    case 1
    with lt [OF 1 b(1)] v Cons.prems show ?thesis by (simp add: digit_less)
  next
    case 2
    with lt [OF 2 b(2), of "dec_val s"] v Cons.prems show ?thesis
      by (simp add: digit_less) (metis digit_less less_imp_not_less not_less_iff_gr_or_eq)
  next
    case 3
    with v Cons show ?thesis by simp
  qed
qed

lemma dec_pad_less:
  assumes "m < 10 ^ w" "n < 10 ^ w" "0 < w"
  shows "dec_pad w m < dec_pad w n \<longleftrightarrow> m < n"
  using assms by (simp add: dec_val_less dec_pad_length)

lemma sorted_wrt_last: "sorted_wrt (<) xs \<Longrightarrow> x \<in> set xs \<Longrightarrow> x \<le> last xs" for x :: "'a::linorder"
proof (induction xs)
  case (Cons a xs)
  then show ?case by (cases xs) (auto dest: last_in_set simp: less_imp_le)
qed simp

lemma act_map_length: "act_map f xs w = (Inr ys, w') \<Longrightarrow> length ys = length xs"
  by (induction xs arbitrary: ys w) (auto simp: act_bind_ok)

end
