(* ===== verification/Errors.thy ===== *)
theory Errors
  imports Prelude
begin

text \<open>
  The error enums of the two library crates: \<open>merror\<close> is \<open>mirror_core::Error\<close>
  (\<open>crates/mirror-core/src/error.rs\<close>) and \<open>berror\<close> is \<open>backup_core::Error\<close>
  (\<open>crates/backup-core/src/error.rs\<close>). A constructor carries the object the message is about (a
  path, a key, an identifier); the wording of messages is not modelled. \<open>EPanic\<close> is not in the
  enums: it stands for a Rust panic (\<open>unwrap\<close>, \<open>expect\<close>, an index out of range).
\<close>

datatype merror =
    EConfig string
  | EIo string
  | EStore string
  | EUploadGone string
  | EScan string
  | EState string
  | EHash string
  | ECrypto string
  | EFormat string
  | EDaemonNotRunning string
  | EDaemonUnresponsive string
  | EDaemonIncompatible string
  | ENoSpace string
  | EPanic string

datatype berror =
    BMirror merror
  | BDecryption string
  | BFormat string
  | BCorrupt string
  | BAlreadyInitialized string
  | BNotInitialized string
  | BRunFailed string
  | BUnknownBlob string
  | BSnapshotNotFound string
  | BIncomplete string
  | BLocked string
  | BCancelled
  | BChunkerConfig string
  | BIo string
  | BInvalid string
  | BPanic string

type_synonym 'a mresult = "merror + 'a"
type_synonym 'a bresult = "berror + 'a"

text \<open>\<open>impl From<mirror_core::Error>\<close>: what \<open>?\<close> does to a mirror error inside the backup crate.\<close>

definition from_mirror :: "merror + 'a \<Rightarrow> berror + 'a" where
  "from_mirror r = (case r of Inl e \<Rightarrow> Inl (BMirror e) | Inr x \<Rightarrow> Inr x)"

lemma from_mirror_simps [simp]:
  "from_mirror (Inl e) = Inl (BMirror e)"
  "from_mirror (Inr x) = Inr x"
  by (simp_all add: from_mirror_def)

lemma from_mirror_ok [simp]: "from_mirror r = Inr x \<longleftrightarrow> r = Inr x"
  by (cases r) auto

definition lift_mirror :: "('w, merror, 'a) action \<Rightarrow> ('w, berror, 'a) action" where
  "lift_mirror m = (\<lambda>w. case m w of (r, w') \<Rightarrow> (from_mirror r, w'))"

lemma lift_mirror_ok: "lift_mirror m w = (Inr x, w') \<longleftrightarrow> m w = (Inr x, w')"
  by (auto simp: lift_mirror_def split: prod.splits)

lemma keeps_lift_mirror [keeps_intros]: "act_keeps P m \<Longrightarrow> act_keeps P (lift_mirror m)"
  by (force simp: act_keeps_def lift_mirror_def split: prod.splits)

end
