(* ===== verification/Object_Store.thy ===== *)
theory Object_Store
  imports Errors
begin

text \<open>
  The object store. \<open>store.rs\<close> declares the trait \<open>ObjectStore\<close>; \<open>store/memory.rs\<close> implements it in
  memory, with hooks that make chosen writes fail, and that implementation is the model's store:
  the rest of the development runs over \<open>mem_store\<close>. The locale \<open>object_store\<close> is the trait: the
  operations a client calls and what every implementation promises about them, stated over the
  abstract content (\<open>view\<close>); its lemmas are what the clients rely on, and it is interpreted on the
  memory store's operations. A \<open>HashMap\<close> is iterated in key order here; the only iteration,
  \<open>list\<close>, sorts by key, so the order is not observable. The injected latency is not modelled.
\<close>

section \<open>Types of \<open>store.rs\<close>\<close>

definition NONCE_SIZE :: nat where
  "NONCE_SIZE = 19"

record object_meta =
  om_key :: string
  om_size :: u64
  om_content_hash :: "hash option"
  om_last_modified :: "instant option"

record part_record =
  pr_part_number :: int
  pr_etag :: string
  pr_checksum :: string

text \<open>The part size of a multipart upload (\<open>get_chunk_size\<close>).\<close>

definition MIN_S3_PART_SIZE :: u64 where
  "MIN_S3_PART_SIZE = 5 * 1024 * 1024"

definition MAX_S3_PARTS :: u64 where
  "MAX_S3_PARTS = 10000"

definition TARGET_PART_SIZE :: u64 where
  "TARGET_PART_SIZE = 8 * 1024 * 1024"

definition get_chunk_size :: "u64 \<Rightarrow> u64" where
  "get_chunk_size file_len =
     (if file_len \<le> MIN_S3_PART_SIZE then MIN_S3_PART_SIZE
      else let required_min_by_limit = file_len div MAX_S3_PARTS + 1
           in max TARGET_PART_SIZE (max MIN_S3_PART_SIZE required_min_by_limit))"

section \<open>The memory store\<close>

record object =
  obj_bytes :: bytes
  obj_modified :: instant

record mem_store =
  ms_entries :: "(string, object) fmap"
  ms_in_progress :: "(string, bytes) fmap"
  ms_fail_put_key :: "string option"
  ms_fail_put_prefix :: "string option"
  ms_bytes_read :: u64
  ms_fail_finish :: bool

type_synonym 'a store_action = "(mem_store, merror, 'a) action"

definition mem_new :: mem_store where
  "mem_new = \<lparr>ms_entries = fmempty, ms_in_progress = fmempty, ms_fail_put_key = None,
     ms_fail_put_prefix = None, ms_bytes_read = 0, ms_fail_finish = False\<rparr>"

subsection \<open>Test hooks\<close>

definition fail_put_for :: "string \<Rightarrow> mem_store \<Rightarrow> mem_store" where
  "fail_put_for key s = s\<lparr>ms_fail_put_key := Some key\<rparr>"

definition fail_puts_under :: "string option \<Rightarrow> mem_store \<Rightarrow> mem_store" where
  "fail_puts_under pre s = s\<lparr>ms_fail_put_prefix := pre\<rparr>"

definition fail_finish_with_upload_gone :: "mem_store \<Rightarrow> mem_store" where
  "fail_finish_with_upload_gone s = s\<lparr>ms_fail_finish := True\<rparr>"

definition set_modified_at :: "string \<Rightarrow> instant \<Rightarrow> mem_store \<Rightarrow> mem_store" where
  "set_modified_at key t s = (case fmlookup (ms_entries s) key of
      None \<Rightarrow> s
    | Some ob \<Rightarrow> s\<lparr>ms_entries := fmupd key (ob\<lparr>obj_modified := t\<rparr>) (ms_entries s)\<rparr>)"

definition count_read :: "bytes \<Rightarrow> mem_store \<Rightarrow> mem_store" where
  "count_read b s = s\<lparr>ms_bytes_read := ms_bytes_read s + of_nat (length b)\<rparr>"

definition maybe_fail_put :: "string \<Rightarrow> mem_store \<Rightarrow> unit mresult" where
  "maybe_fail_put key s =
     (if ms_fail_put_key s = Some key then Inl (EStore key)
      else case ms_fail_put_prefix s of
             Some pre \<Rightarrow> (if prefix pre key then Inl (EStore key) else Inr ())
           | None \<Rightarrow> Inr ())"

subsection \<open>Whole objects\<close>

definition mem_insert :: "instant \<Rightarrow> string \<Rightarrow> bytes \<Rightarrow> mem_store \<Rightarrow> mem_store" where
  "mem_insert now key b s =
     s\<lparr>ms_entries := fmupd key \<lparr>obj_bytes = b, obj_modified = now\<rparr> (ms_entries s)\<rparr>"

definition mem_put_bytes :: "instant \<Rightarrow> string \<Rightarrow> bytes \<Rightarrow> unit store_action" where
  "mem_put_bytes now key b = (\<lambda>s. case maybe_fail_put key s of
      Inl e \<Rightarrow> (Inl e, s)
    | Inr _ \<Rightarrow> (Inr (), mem_insert now key b s))"

text \<open>\<open>put\<close> reads the file at a local path; \<open>None\<close> is a file that can't be read.\<close>

definition mem_put :: "instant \<Rightarrow> string \<Rightarrow> bytes option \<Rightarrow> unit store_action" where
  "mem_put now key file = (\<lambda>s. case maybe_fail_put key s of
      Inl e \<Rightarrow> (Inl e, s)
    | Inr _ \<Rightarrow> (case file of
          None \<Rightarrow> (Inl (EStore key), s)
        | Some b \<Rightarrow> (Inr (), mem_insert now key b s)))"

definition mem_get :: "string \<Rightarrow> bytes store_action" where
  "mem_get key = (\<lambda>s. case fmlookup (ms_entries s) key of
      None \<Rightarrow> (Inl (EStore key), s)
    | Some ob \<Rightarrow> (Inr (obj_bytes ob), count_read (obj_bytes ob) s))"

definition mem_get_range :: "string \<Rightarrow> u64 \<Rightarrow> u64 \<Rightarrow> bytes store_action" where
  "mem_get_range key offset len = (\<lambda>s. case fmlookup (ms_entries s) key of
      None \<Rightarrow> (Inl (EStore key), s)
    | Some ob \<Rightarrow>
        (if unat offset + unat len < 2 ^ 64 \<and> unat offset + unat len \<le> length (obj_bytes ob)
         then let range = take (unat len) (drop (unat offset) (obj_bytes ob))
              in (Inr range, count_read range s)
         else (Inl (EStore key), s)))"

definition mem_meta :: "string \<Rightarrow> object \<Rightarrow> object_meta" where
  "mem_meta key ob = \<lparr>om_key = key, om_size = of_nat (length (obj_bytes ob)),
     om_content_hash = None, om_last_modified = Some (obj_modified ob)\<rparr>"

definition mem_head :: "string \<Rightarrow> object_meta option store_action" where
  "mem_head key = (\<lambda>s. (Inr (map_option (mem_meta key) (fmlookup (ms_entries s) key)), s))"

definition mem_delete :: "string \<Rightarrow> unit store_action" where
  "mem_delete key = (\<lambda>s. (Inr (), s\<lparr>ms_entries := fmdrop key (ms_entries s)\<rparr>))"

definition mem_list :: "string \<Rightarrow> string option \<Rightarrow> object_meta list store_action" where
  "mem_list pre start_after = (\<lambda>s.
     (Inr (sort_key om_key (map (\<lambda>(key, ob). mem_meta key ob)
        (filter (\<lambda>(key, ob). prefix pre key \<and>
            (case start_after of None \<Rightarrow> True | Some after \<Rightarrow> after < key))
          (fm_entries (ms_entries s))))), s))"

subsection \<open>Multipart transfers\<close>

text \<open>
  A sink (\<open>MemoryPartSink\<close>) is a value that a write replaces; its bytes are in the store's
  \<open>in_progress\<close> map, under the object's key. The upload identifier (a random UUID) is an argument.
\<close>

record part_sink =
  ps_part_number :: int
  ps_key :: string
  ps_upload_id :: string

definition mem_abort_multipart_upload :: "string \<Rightarrow> string \<Rightarrow> unit store_action" where
  "mem_abort_multipart_upload key upload_id =
     (\<lambda>s. (Inr (), s\<lparr>ms_in_progress := fmdrop key (ms_in_progress s)\<rparr>))"

definition mem_resume_put :: "string \<Rightarrow> string \<Rightarrow> int \<Rightarrow> part_sink store_action" where
  "mem_resume_put key upload_id part_number = (\<lambda>s.
     (Inr \<lparr>ps_part_number = part_number, ps_key = key, ps_upload_id = upload_id\<rparr>,
      (case fmlookup (ms_in_progress s) key of
         None \<Rightarrow> s\<lparr>ms_in_progress := fmupd key [] (ms_in_progress s)\<rparr>
       | Some _ \<Rightarrow> s)))"

definition mem_begin_put :: "string \<Rightarrow> string \<Rightarrow> part_sink store_action" where
  "mem_begin_put fresh_id key = (\<lambda>s.
     (Inr \<lparr>ps_part_number = 1, ps_key = key, ps_upload_id = fresh_id\<rparr>,
      s\<lparr>ms_in_progress := fmupd key [] (ms_in_progress s)\<rparr>))"

definition sink_write_part :: "part_sink \<Rightarrow> bytes \<Rightarrow> (part_record \<times> part_sink) store_action" where
  "sink_write_part sink b = (\<lambda>s. case fmlookup (ms_in_progress s) (ps_key sink) of
      None \<Rightarrow> (Inl (EPanic (ps_key sink)), s)
    | Some sofar \<Rightarrow>
        (let n = ps_part_number sink
         in (Inr (\<lparr>pr_part_number = n, pr_etag = ''etag-'' @ dec (nat n),
                   pr_checksum = ''checksum-'' @ dec (nat n)\<rparr>, sink\<lparr>ps_part_number := n + 1\<rparr>),
             s\<lparr>ms_in_progress := fmupd (ps_key sink) (sofar @ b) (ms_in_progress s)\<rparr>)))"

definition sink_finish :: "instant \<Rightarrow> part_sink \<Rightarrow> unit store_action" where
  "sink_finish now sink = (\<lambda>s.
     (if ms_fail_finish s then (Inl (EUploadGone (ps_key sink)), s)
      else let b = (case fmlookup (ms_in_progress s) (ps_key sink) of None \<Rightarrow> [] | Some b \<Rightarrow> b)
           in (Inr (), mem_insert now (ps_key sink) b
                 (s\<lparr>ms_in_progress := fmdrop (ps_key sink) (ms_in_progress s)\<rparr>))))"

definition sink_abort :: "part_sink \<Rightarrow> unit store_action" where
  "sink_abort sink =
     (\<lambda>s. (Inr (), s\<lparr>ms_in_progress := fmdrop (ps_key sink) (ms_in_progress s)\<rparr>))"

record part_source =
  src_nonce :: bytes
  src_body :: "bytes option"

definition mem_begin_download :: "string \<Rightarrow> part_source store_action" where
  "mem_begin_download key = (\<lambda>s. case fmlookup (ms_entries s) key of
      None \<Rightarrow> (Inl (EStore key), s)
    | Some ob \<Rightarrow>
        (if length (obj_bytes ob) < NONCE_SIZE then (Inl (EStore key), s)
         else (Inr \<lparr>src_nonce = take NONCE_SIZE (obj_bytes ob),
                    src_body = Some (drop NONCE_SIZE (obj_bytes ob))\<rparr>, s)))"

text \<open>\<open>PartSource::next\<close> hands the body out once, then reports the end.\<close>

definition source_next :: "part_source \<Rightarrow> bytes option \<times> part_source" where
  "source_next src = (src_body src, src\<lparr>src_body := None\<rparr>)"

section \<open>The trait as an interface\<close>

locale object_store =
  fixes put :: "instant \<Rightarrow> string \<Rightarrow> bytes \<Rightarrow> ('s, merror, unit) action"
    and get :: "string \<Rightarrow> ('s, merror, bytes) action"
    and get_range :: "string \<Rightarrow> u64 \<Rightarrow> u64 \<Rightarrow> ('s, merror, bytes) action"
    and head :: "string \<Rightarrow> ('s, merror, object_meta option) action"
    and delete :: "string \<Rightarrow> ('s, merror, unit) action"
    and list :: "string \<Rightarrow> string option \<Rightarrow> ('s, merror, object_meta list) action"
    and view :: "'s \<Rightarrow> (string, object) fmap"
  assumes put_ok: "put now k b s = (Inr (), s') \<Longrightarrow>
      view s' = fmupd k \<lparr>obj_bytes = b, obj_modified = now\<rparr> (view s)"
    and put_err: "put now k b s = (Inl e, s') \<Longrightarrow> view s' = view s"
    and get_ok: "get k s = (Inr b, s') \<Longrightarrow> map_option obj_bytes (fmlookup (view s) k) = Some b"
    and get_frame: "view (snd (get k s)) = view s"
    and range_ok: "get_range k i n s = (Inr b, s') \<Longrightarrow>
      \<exists>ob. fmlookup (view s) k = Some ob \<and> unat i + unat n \<le> length (obj_bytes ob) \<and>
        b = take (unat n) (drop (unat i) (obj_bytes ob))"
    and range_frame: "view (snd (get_range k i n s)) = view s"
    and head_ok: "head k s = (Inr m, s') \<Longrightarrow>
      (case fmlookup (view s) k of
         None \<Rightarrow> m = None
       | Some ob \<Rightarrow> (\<exists>x. m = Some x \<and> om_key x = k \<and> om_size x = of_nat (length (obj_bytes ob))))"
    and head_frame: "view (snd (head k s)) = view s"
    and delete_ok: "delete k s = (Inr (), s') \<Longrightarrow> view s' = fmdrop k (view s)"
    and delete_err: "delete k s = (Inl e, s') \<Longrightarrow> view s' = view s"
    and list_ok: "list pre after s = (Inr ms, s') \<Longrightarrow>
      sorted_wrt (<) (map om_key ms) \<and>
      (\<forall>k. k \<in> om_key ` set ms \<longleftrightarrow>
         k |\<in>| fmdom (view s) \<and> prefix pre k \<and> (case after of None \<Rightarrow> True | Some a \<Rightarrow> a < k))"
    and list_frame: "view (snd (list pre after s)) = view s"
begin

lemma read_after_write:
  assumes "put now k b s = (Inr (), s1)" and "get k s1 = (Inr c, s2)"
  shows "c = b"
  using get_ok [OF assms(2)] put_ok [OF assms(1)] by simp

lemma read_other:
  assumes "put now k b s = (Inr (), s1)" and "k' \<noteq> k" and "get k' s1 = (Inr c, s2)"
  shows "map_option obj_bytes (fmlookup (view s) k') = Some c"
  using get_ok [OF assms(3)] put_ok [OF assms(1)] assms(2) by simp

text \<open>A ranged read never returns fewer bytes than it was asked for.\<close>

lemma range_exact:
  assumes "get_range k i n s = (Inr b, s')"
  shows "length b = unat n"
  using range_ok [OF assms] by auto

lemma range_of_get:
  assumes "get k s = (Inr b, s1)" and "get_range k i n s = (Inr c, s2)"
  shows "c = take (unat n) (drop (unat i) b)"
  using get_ok [OF assms(1)] range_ok [OF assms(2)] by auto

lemma listed_after_put:
  assumes "put now k b s = (Inr (), s1)" and "list pre None s1 = (Inr ms, s2)" and "prefix pre k"
  shows "k \<in> om_key ` set ms"
  using list_ok [OF assms(2)] put_ok [OF assms(1)] assms(3) by auto

lemma deleted_not_listed:
  assumes "delete k s = (Inr (), s1)" and "list pre None s1 = (Inr ms, s2)"
  shows "k \<notin> om_key ` set ms"
  using list_ok [OF assms(2)] delete_ok [OF assms(1)] by auto

text \<open>The listing's last key is the greatest key under the prefix.\<close>

lemma list_last_greatest:
  assumes "list pre None s = (Inr ms, s')" and "ms \<noteq> []" and "prefix pre k" and "k |\<in>| fmdom (view s)"
  shows "k \<le> om_key (last ms)"
proof -
  from list_ok [OF assms(1)] assms have "sorted_wrt (<) (map om_key ms)" "k \<in> set (map om_key ms)"
    by auto
  then have "k \<le> last (map om_key ms)" by (rule sorted_wrt_last)
  then show ?thesis using assms(2) by (simp add: last_map)
qed

end

section \<open>The memory store implements the trait\<close>

lemma mem_list_keys:
  "map om_key (case mem_list pre after s of (Inr ms, _) \<Rightarrow> ms | _ \<Rightarrow> []) =
     filter (\<lambda>k. prefix pre k \<and> (case after of None \<Rightarrow> True | Some a \<Rightarrow> a < k)) (fm_keys (ms_entries s))"
  (is "?l = filter ?P _")
proof -
  let ?ms = "map (\<lambda>(key, ob). mem_meta key ob) (filter (\<lambda>(k, ob). ?P k) (fm_entries (ms_entries s)))"
  have k: "map om_key ?ms = filter ?P (fm_keys (ms_entries s))"
    by (simp add: fm_entries_def filter_map comp_def mem_meta_def)
  then have "sorted (map om_key ?ms)"
    by (metis sorted_fm_keys sorted_wrt_filter)
  then have "sort_key om_key ?ms = ?ms" by (rule sort_key_id_if_sorted)
  with k show ?thesis by (simp add: mem_list_def)
qed

interpretation ms: object_store mem_put_bytes mem_get mem_get_range mem_head mem_delete mem_list ms_entries
proof (unfold_locales, goal_cases)
  case (1 now k b s s')
  then show ?case
    by (auto simp: mem_put_bytes_def mem_insert_def split: sum.splits)
next
  case (2 now k b s e s')
  then show ?case by (auto simp: mem_put_bytes_def split: sum.splits)
next
  case (3 k s b s')
  then show ?case by (auto simp: mem_get_def split: option.splits)
next
  case (4 k s)
  then show ?case by (auto simp: mem_get_def count_read_def split: option.splits)
next
  case (5 k i n s b s')
  then show ?case by (auto simp: mem_get_range_def Let_def split: option.splits if_splits)
next
  case (6 k i n s)
  then show ?case by (auto simp: mem_get_range_def count_read_def Let_def split: option.splits)
next
  case (7 k s m s')
  then show ?case by (auto simp: mem_head_def mem_meta_def split: option.splits)
next
  case (8 k s)
  then show ?case by (simp add: mem_head_def)
next
  case (9 k s s')
  then show ?case by (auto simp: mem_delete_def)
next
  case (10 k s e s')
  then show ?case by (simp add: mem_delete_def)
next
  case (11 pre after s ms s')
  have "mem_list pre after s = (Inr ms, s')" by (fact 11)
  then have keys: "map om_key ms =
      filter (\<lambda>k. prefix pre k \<and> (case after of None \<Rightarrow> True | Some a \<Rightarrow> a < k)) (fm_keys (ms_entries s))"
    using mem_list_keys [of pre after s] by simp
  have "sorted_wrt (<) (map om_key ms)"
    unfolding keys by (simp add: strict_sorted_iff sorted_wrt_filter)
  moreover have "om_key ` set ms = set (map om_key ms)" by simp
  ultimately show ?case unfolding keys by auto
next
  case (12 pre after s)
  then show ?case by (simp add: mem_list_def)
qed

section \<open>Part sizes\<close>

lemma chunk_size_at_least_minimum: "MIN_S3_PART_SIZE \<le> get_chunk_size n"
  by (simp add: get_chunk_size_def Let_def MIN_S3_PART_SIZE_def TARGET_PART_SIZE_def le_max_iff_disj)

lemma chunk_size_nat:
  "unat (get_chunk_size n) = (if unat n \<le> 5242880 then 5242880 else max 8388608 (unat n div 10000 + 1))"
proof -
  have d: "unat (n div 10000 + 1) = unat n div 10000 + 1"
    using unsigned_less [of n, where 'a = nat] by (simp add: unat_div unat_word_ariths)
  have m: "unat (max a b) = max (unat a) (unat b)" for a b :: u64
    by (simp add: max_def word_le_nat_alt)
  show ?thesis
    by (simp add: get_chunk_size_def Let_def MIN_S3_PART_SIZE_def TARGET_PART_SIZE_def MAX_S3_PARTS_def
        m d word_le_nat_alt) (simp add: max_def)
qed

lemma chunk_size_covers: "unat n \<le> 10000 * unat (get_chunk_size n)"
proof -
  have "unat n < 10000 * (unat n div 10000 + 1)" by simp
  then show ?thesis by (auto simp: chunk_size_nat max_def)
qed

end
