(* ===== verification/Content_Crypto.thy ===== *)
theory Content_Crypto
  imports Object_Store
begin

text \<open>
  Content encryption (\<open>crypto/content.rs\<close>) and object names (\<open>crypto/filename.rs\<close>).

  The AEAD in STREAM mode (crates \<open>aead-stream\<close> and \<open>chacha20poly1305\<close>) is a parameter: a record of
  the two frame operations, each given the key, the 19-byte nonce, the frame's position, whether it
  is the last frame, the associated data and the frame. \<open>aead_ok\<close> is what the crates document: a
  sealed frame is 16 bytes longer, opening gives back what was sealed, and opening accepts only the
  frame that sealing its plaintext produces (the tag is a deterministic function of the frame).
  \<open>aead_seals\<close> says that sealing succeeds while the 32-bit frame counter lasts.

  An open file is the list of its unread bytes; reads of an open file do not fail in the model.
\<close>

section \<open>The AEAD parameter\<close>

type_synonym key = bytes
type_synonym frame_fun = "key \<Rightarrow> bytes \<Rightarrow> nat \<Rightarrow> bool \<Rightarrow> string \<Rightarrow> bytes \<Rightarrow> bytes option"

record aead =
  fr_seal :: frame_fun
  fr_open :: frame_fun

definition CHUNK_SIZE :: nat where
  "CHUNK_SIZE = 65536"

definition TAG_SIZE :: nat where
  "TAG_SIZE = 16"

definition aead_ok :: "aead \<Rightarrow> bool" where
  "aead_ok A \<longleftrightarrow> (\<forall>k n i l a p c. fr_seal A k n i l a p = Some c \<longleftrightarrow>
      (fr_open A k n i l a c = Some p \<and> length c = length p + TAG_SIZE)) \<and>
    (\<forall>k n i l a p c. fr_open A k n i l a c = Some p \<longrightarrow> length c = length p + TAG_SIZE)"

definition aead_seals :: "aead \<Rightarrow> bool" where
  "aead_seals A \<longleftrightarrow> (\<forall>k n i l a p. i < 2 ^ 32 \<longrightarrow> fr_seal A k n i l a p \<noteq> None)"

lemma aead_open_seal: "aead_ok A \<Longrightarrow> fr_open A k n i l a c = Some p \<longleftrightarrow> fr_seal A k n i l a p = Some c"
  by (auto simp: aead_ok_def)

lemma aead_seal_length: "aead_ok A \<Longrightarrow> fr_seal A k n i l a p = Some c \<Longrightarrow> length c = length p + TAG_SIZE"
  by (auto simp: aead_ok_def)

lemma aead_open_length: "aead_ok A \<Longrightarrow> fr_open A k n i l a c = Some p \<Longrightarrow> length c = length p + TAG_SIZE"
  by (auto simp: aead_ok_def)

lemma CHUNK_SIZE_pos [simp]: "0 < CHUNK_SIZE" "CHUNK_SIZE \<noteq> 0"
  by (simp_all add: CHUNK_SIZE_def)

section \<open>Encryption\<close>

definition ciphertext_len :: "u64 \<Rightarrow> u64" where
  "ciphertext_len plaintext_len =
     (let n = unat plaintext_len;
          frames = max (of_nat ((n + CHUNK_SIZE - 1) div CHUNK_SIZE)) 1
      in of_nat NONCE_SIZE + plaintext_len + frames * of_nat TAG_SIZE)"

record encrypted_part =
  ep_ciphertext :: bytes
  ep_plaintext_len :: nat

text \<open>
  \<open>StreamingEncryptor\<close>: \<open>se_encryptor\<close> is the position of the next frame, \<open>None\<close> once the terminal
  frame consumed the encryptor.
\<close>

record streaming_encryptor =
  se_key :: key
  se_encryptor :: "nat option"
  se_reader :: bytes
  se_input_path :: string
  se_aad :: string
  se_nonce :: bytes

type_synonym fs = "string \<Rightarrow> bytes option"

definition streaming_encryptor_new ::
    "bytes \<Rightarrow> key \<Rightarrow> fs \<Rightarrow> string \<Rightarrow> string \<Rightarrow> bytes option \<Rightarrow> streaming_encryptor mresult" where
  "streaming_encryptor_new fresh k files input_path a nonce =
     (let nonce_bytes = (case nonce of Some n \<Rightarrow> n | None \<Rightarrow> fresh)
      in case files input_path of
           None \<Rightarrow> Inl (EIo input_path)
         | Some input \<Rightarrow> Inr \<lparr>se_key = k, se_encryptor = Some 0, se_reader = input,
             se_input_path = input_path, se_aad = a, se_nonce = nonce_bytes\<rparr>)"

text \<open>The loop of \<open>encrypt_next_part\<close>; \<open>i\<close> is the position of the next frame.\<close>

function part_loop :: "aead \<Rightarrow> nat \<Rightarrow> nat \<Rightarrow> bytes \<Rightarrow> nat \<Rightarrow>
    (streaming_encryptor, merror, encrypted_part option) action" where
  "part_loop A part_size i ct plen e =
     (let chunk = take CHUNK_SIZE (se_reader e);
          rest = drop CHUNK_SIZE (se_reader e);
          e1 = e\<lparr>se_reader := rest\<rparr>;
          plen' = plen + length chunk
      in if chunk = [] \<or> rest = []
         then case fr_seal A (se_key e) (se_nonce e) i True (se_aad e) chunk of
                None \<Rightarrow> (Inl (ECrypto (se_input_path e)), e1\<lparr>se_encryptor := None\<rparr>)
              | Some frame \<Rightarrow> (Inr (Some \<lparr>ep_ciphertext = ct @ frame, ep_plaintext_len = plen'\<rparr>),
                  e1\<lparr>se_encryptor := None\<rparr>)
         else case fr_seal A (se_key e) (se_nonce e) i False (se_aad e) chunk of
                None \<Rightarrow> (Inl (ECrypto (se_input_path e)), e1)
              | Some frame \<Rightarrow>
                  (let e2 = e1\<lparr>se_encryptor := Some (i + 1)\<rparr>
                   in if part_size \<le> length (ct @ frame)
                      then (Inr (Some \<lparr>ep_ciphertext = ct @ frame, ep_plaintext_len = plen'\<rparr>), e2)
                      else part_loop A part_size (i + 1) (ct @ frame) plen' e2))"
  by pat_completeness auto
termination
  by (relation "measure (\<lambda>(A, m, i, ct, n, e). length (se_reader e))")
    (auto simp: CHUNK_SIZE_def)

definition encrypt_next_part ::
    "aead \<Rightarrow> nat \<Rightarrow> (streaming_encryptor, merror, encrypted_part option) action" where
  "encrypt_next_part A part_size e = (case se_encryptor e of
      None \<Rightarrow> (Inr None, e)
    | Some i \<Rightarrow> part_loop A part_size i [] 0 e)"

text \<open>In-memory encryption, with the loop over the chunks before the last.\<close>

fun seal_chunks :: "aead \<Rightarrow> key \<Rightarrow> bytes \<Rightarrow> string \<Rightarrow> nat \<Rightarrow> bytes list \<Rightarrow> bytes mresult" where
  "seal_chunks A k n a i [] = Inr []"
| "seal_chunks A k n a i (c # cs) = res_bind (res_of (ECrypto a) (fr_seal A k n i False a c))
     (\<lambda>frame. res_bind (seal_chunks A k n a (i + 1) cs) (\<lambda>out. Inr (frame @ out)))"

fun chunks :: "nat \<Rightarrow> 'a list \<Rightarrow> 'a list list" where
  "chunks m xs = (if xs = [] \<or> m = 0 then [] else take m xs # chunks m (drop m xs))"

declare chunks.simps [simp del]

definition last_frame_start :: "nat \<Rightarrow> nat" where
  "last_frame_start n = (n - 1) div CHUNK_SIZE * CHUNK_SIZE"

definition encrypt_bytes :: "aead \<Rightarrow> bytes \<Rightarrow> key \<Rightarrow> bytes \<Rightarrow> string \<Rightarrow> bytes mresult" where
  "encrypt_bytes A fresh k plaintext a =
     (let last_start = last_frame_start (length plaintext);
          body = chunks CHUNK_SIZE (take last_start plaintext)
      in res_bind (seal_chunks A k fresh a 0 body) (\<lambda>out.
         res_bind (res_of (ECrypto a) (fr_seal A k fresh (length body) True a (drop last_start plaintext)))
           (\<lambda>frame. Inr (fresh @ out @ frame))))"

text \<open>
  File to file. The output is created, and the nonce written, before the input is read; a failure
  leaves what was written so far. \<open>copy_frames\<close> is the loop that the two directions share: read one
  frame, look ahead, transform it as the last or as a middle frame, append it to the output.
\<close>

function copy_frames :: "nat \<Rightarrow> (nat \<Rightarrow> bool \<Rightarrow> bytes \<Rightarrow> bytes option) \<Rightarrow> nat \<Rightarrow> bytes \<Rightarrow> bytes \<Rightarrow>
    unit mresult \<times> bytes" where
  "copy_frames m f i input out =
     (let chunk = take m input; rest = drop m input
      in if chunk = [] then (Inr (), out)
         else if rest = []
         then case f i True chunk of
                None \<Rightarrow> (Inl (ECrypto []), out)
              | Some frame \<Rightarrow> (Inr (), out @ frame)
         else case f i False chunk of
                None \<Rightarrow> (Inl (ECrypto []), out)
              | Some frame \<Rightarrow> copy_frames m f (i + 1) rest (out @ frame))"
  by pat_completeness auto
termination
  by (relation "measure (\<lambda>(m, f, i, input, out). length input)") auto

declare copy_frames.simps [simp del] part_loop.simps [simp del]

definition encrypt_file :: "aead \<Rightarrow> bytes \<Rightarrow> key \<Rightarrow> string \<Rightarrow> string \<Rightarrow> string \<Rightarrow> (fs, merror, unit) action" where
  "encrypt_file A fresh k input_path output_path a = (\<lambda>files.
     case files input_path of
       None \<Rightarrow> (Inl (EIo input_path), files)
     | Some _ \<Rightarrow>
         (let created = files(output_path := Some []);
              input = the (created input_path);
              (r, out) = copy_frames CHUNK_SIZE (\<lambda>i l. fr_seal A k fresh i l a) 0 input fresh
          in (r, created(output_path := Some out))))"

definition decrypt_file :: "aead \<Rightarrow> key \<Rightarrow> string \<Rightarrow> string \<Rightarrow> string \<Rightarrow> (fs, merror, unit) action" where
  "decrypt_file A k input_path output_path a = (\<lambda>files.
     case files input_path of
       None \<Rightarrow> (Inl (EIo input_path), files)
     | Some _ \<Rightarrow>
         (let created = files(output_path := Some []);
              input = the (created input_path)
          in if length input < NONCE_SIZE then (Inl (EIo input_path), created)
             else let (r, out) = copy_frames (CHUNK_SIZE + TAG_SIZE)
                    (\<lambda>i l. fr_open A k (take NONCE_SIZE input) i l a) 0 (drop NONCE_SIZE input) []
                  in (r, created(output_path := Some out))))"

section \<open>Decryption\<close>

record streaming_decryptor =
  sd_key :: key
  sd_nonce :: bytes
  sd_position :: nat
  sd_aad :: string
  sd_buffer :: bytes

definition streaming_decryptor_new :: "key \<Rightarrow> bytes \<Rightarrow> string \<Rightarrow> streaming_decryptor" where
  "streaming_decryptor_new k n a =
     \<lparr>sd_key = k, sd_nonce = n, sd_position = 0, sd_aad = a, sd_buffer = []\<rparr>"

function feed_loop :: "aead \<Rightarrow> bytes \<Rightarrow> (streaming_decryptor, merror, bytes) action" where
  "feed_loop A plain d =
     (if CHUNK_SIZE + TAG_SIZE < length (sd_buffer d)
      then let frame = take (CHUNK_SIZE + TAG_SIZE) (sd_buffer d);
               d1 = d\<lparr>sd_buffer := drop (CHUNK_SIZE + TAG_SIZE) (sd_buffer d)\<rparr>
           in case fr_open A (sd_key d) (sd_nonce d) (sd_position d) False (sd_aad d) frame of
                None \<Rightarrow> (Inl (ECrypto (sd_aad d)), d1)
              | Some p \<Rightarrow> feed_loop A (plain @ p) (d1\<lparr>sd_position := sd_position d + 1\<rparr>)
      else (Inr plain, d))"
  by pat_completeness auto
termination
  by (relation "measure (\<lambda>(A, p, d). length (sd_buffer d))") (auto simp: CHUNK_SIZE_def)

declare feed_loop.simps [simp del]

definition feed :: "aead \<Rightarrow> bytes \<Rightarrow> (streaming_decryptor, merror, bytes) action" where
  "feed A b d = feed_loop A [] (d\<lparr>sd_buffer := sd_buffer d @ b\<rparr>)"

definition decryptor_finish :: "aead \<Rightarrow> streaming_decryptor \<Rightarrow> bytes mresult" where
  "decryptor_finish A d = res_of (ECrypto (sd_aad d))
     (fr_open A (sd_key d) (sd_nonce d) (sd_position d) True (sd_aad d) (sd_buffer d))"

definition decrypt_bytes :: "aead \<Rightarrow> key \<Rightarrow> bytes \<Rightarrow> string \<Rightarrow> bytes mresult" where
  "decrypt_bytes A k ciphertext a =
     (if length ciphertext < NONCE_SIZE then Inl (ECrypto a)
      else case feed A (drop NONCE_SIZE ciphertext)
                 (streaming_decryptor_new k (take NONCE_SIZE ciphertext) a) of
             (Inl e, d) \<Rightarrow> Inl e
           | (Inr plaintext, d) \<Rightarrow>
               res_bind (decryptor_finish A d) (\<lambda>tail. Inr (plaintext @ tail)))"

section \<open>The wire format\<close>

text \<open>
  The reference: the plaintext cut in frames of \<open>CHUNK_SIZE\<close> bytes, the last one (which holds between
  1 and \<open>CHUNK_SIZE\<close> bytes, or none for an empty plaintext) sealed as the last. Every path that
  encrypts is shown to produce \<open>stream_seal\<close>, every path that decrypts to compute \<open>stream_open\<close>.
\<close>

function stream_seal :: "aead \<Rightarrow> key \<Rightarrow> bytes \<Rightarrow> string \<Rightarrow> nat \<Rightarrow> bytes \<Rightarrow> bytes option" where
  "stream_seal A k n a i p =
     (if length p \<le> CHUNK_SIZE then fr_seal A k n i True a p
      else case fr_seal A k n i False a (take CHUNK_SIZE p) of
             None \<Rightarrow> None
           | Some frame \<Rightarrow> map_option ((@) frame) (stream_seal A k n a (i + 1) (drop CHUNK_SIZE p)))"
  by pat_completeness auto
termination
  by (relation "measure (\<lambda>(A, k, n, a, i, p). length p)") (auto simp: CHUNK_SIZE_def)

function stream_open :: "aead \<Rightarrow> key \<Rightarrow> bytes \<Rightarrow> string \<Rightarrow> nat \<Rightarrow> bytes \<Rightarrow> bytes option" where
  "stream_open A k n a i c =
     (if length c \<le> CHUNK_SIZE + TAG_SIZE then fr_open A k n i True a c
      else case fr_open A k n i False a (take (CHUNK_SIZE + TAG_SIZE) c) of
             None \<Rightarrow> None
           | Some p \<Rightarrow> map_option ((@) p)
               (stream_open A k n a (i + 1) (drop (CHUNK_SIZE + TAG_SIZE) c)))"
  by pat_completeness auto
termination
  by (relation "measure (\<lambda>(A, k, n, a, i, p). length p)") (auto simp: CHUNK_SIZE_def)

declare stream_seal.simps [simp del] stream_open.simps [simp del]

text \<open>The number of frames of a plaintext.\<close>

definition frame_count :: "nat \<Rightarrow> nat" where
  "frame_count n = max 1 ((n + CHUNK_SIZE - 1) div CHUNK_SIZE)"

lemma frame_count_last: "n \<le> CHUNK_SIZE \<Longrightarrow> frame_count n = 1"
  by (cases "n = 0") (auto simp: frame_count_def CHUNK_SIZE_def max_def div_le_mono)

lemma frame_count_step:
  assumes "CHUNK_SIZE < n" shows "frame_count n = Suc (frame_count (n - CHUNK_SIZE))"
proof -
  have "n + CHUNK_SIZE - 1 = (n - CHUNK_SIZE + CHUNK_SIZE - 1) + CHUNK_SIZE"
    using assms by simp
  then have "(n + CHUNK_SIZE - 1) div CHUNK_SIZE = Suc ((n - CHUNK_SIZE + CHUNK_SIZE - 1) div CHUNK_SIZE)"
    by (simp add: div_add_self2)
  moreover have "1 \<le> (n - CHUNK_SIZE + CHUNK_SIZE - 1) div CHUNK_SIZE"
    using assms by (simp add: CHUNK_SIZE_def)
  ultimately show ?thesis by (simp add: frame_count_def max_def)
qed

lemma frame_count_pos [simp]: "0 < frame_count n" "frame_count n \<noteq> 0"
  by (simp_all add: frame_count_def)

lemma stream_seal_last: "length p \<le> CHUNK_SIZE \<Longrightarrow> stream_seal A k n a i p = fr_seal A k n i True a p"
  by (simp add: stream_seal.simps)

lemma stream_seal_next: "CHUNK_SIZE < length p \<Longrightarrow> stream_seal A k n a i p =
    (case fr_seal A k n i False a (take CHUNK_SIZE p) of
       None \<Rightarrow> None
     | Some frame \<Rightarrow> map_option ((@) frame) (stream_seal A k n a (i + 1) (drop CHUNK_SIZE p)))"
  by (subst stream_seal.simps) simp

lemma stream_open_last: "length c \<le> CHUNK_SIZE + TAG_SIZE \<Longrightarrow>
    stream_open A k n a i c = fr_open A k n i True a c"
  by (simp add: stream_open.simps)

lemma stream_open_next: "CHUNK_SIZE + TAG_SIZE < length c \<Longrightarrow> stream_open A k n a i c =
    (case fr_open A k n i False a (take (CHUNK_SIZE + TAG_SIZE) c) of
       None \<Rightarrow> None
     | Some p \<Rightarrow> map_option ((@) p) (stream_open A k n a (i + 1) (drop (CHUNK_SIZE + TAG_SIZE) c)))"
  by (subst stream_open.simps) simp

lemma stream_seal_length:
  assumes "aead_ok A" and "stream_seal A k n a i p = Some c"
  shows "length c = length p + TAG_SIZE * frame_count (length p)"
  using assms
proof (induction A k n a i p arbitrary: c rule: stream_seal.induct)
  case (1 A k n a i p)
  show ?case
  proof (cases "length p \<le> CHUNK_SIZE")
    case True
    then have "fr_seal A k n i True a p = Some c" using "1.prems" by (simp add: stream_seal_last)
    from aead_seal_length [OF "1.prems"(1) this] True show ?thesis by (simp add: frame_count_last)
  next
    case False
    with "1.prems" obtain frame r where f: "fr_seal A k n i False a (take CHUNK_SIZE p) = Some frame"
      and r: "stream_seal A k n a (i + 1) (drop CHUNK_SIZE p) = Some r" and c: "c = frame @ r"
      by (auto simp: stream_seal_next split: option.splits)
    from "1.IH" [OF False f "1.prems"(1) r] aead_seal_length [OF "1.prems"(1) f] c False
    show ?thesis by (simp add: frame_count_step)
  qed
qed

lemma stream_open_seal:
  assumes "aead_ok A" and "stream_seal A k n a i p = Some c"
  shows "stream_open A k n a i c = Some p"
  using assms
proof (induction A k n a i p arbitrary: c rule: stream_seal.induct)
  case (1 A k n a i p)
  show ?case
  proof (cases "length p \<le> CHUNK_SIZE")
    case True
    with "1.prems" have "fr_seal A k n i True a p = Some c"
      by (simp add: stream_seal_last)
    with "1.prems" True show ?thesis
      by (simp add: stream_open_last aead_open_seal aead_seal_length)
  next
    case False
    with "1.prems" obtain frame r where f: "fr_seal A k n i False a (take CHUNK_SIZE p) = Some frame"
      and r: "stream_seal A k n a (i + 1) (drop CHUNK_SIZE p) = Some r" and c: "c = frame @ r"
      by (auto simp: stream_seal_next split: option.splits)
    have len: "length frame = CHUNK_SIZE + TAG_SIZE"
      using aead_seal_length [OF "1.prems"(1) f] False by simp
    have "length r > 0"
      using stream_seal_length [OF "1.prems"(1) r] by (simp add: TAG_SIZE_def)
    moreover have "fr_open A k n i False a frame = Some (take CHUNK_SIZE p)"
      using f "1.prems"(1) by (simp add: aead_open_seal)
    ultimately show ?thesis
      using len c "1.IH" [OF False f "1.prems"(1) r] by (simp add: stream_open_next)
  qed
qed

text \<open>A ciphertext that opens, and has the length of an encryption of what it opens to, is that encryption.\<close>

lemma stream_open_canonical:
  assumes "aead_ok A" and "stream_open A k n a i c = Some p"
    and "length c = length p + TAG_SIZE * frame_count (length p)"
  shows "stream_seal A k n a i p = Some c"
  using assms
proof (induction A k n a i c arbitrary: p rule: stream_open.induct)
  case (1 A k n a i c)
  show ?case
  proof (cases "length c \<le> CHUNK_SIZE + TAG_SIZE")
    case True
    with "1.prems" have o: "fr_open A k n i True a c = Some p"
      by (simp add: stream_open_last)
    with "1.prems" True have "length p \<le> CHUNK_SIZE" using aead_open_length by fastforce
    with o "1.prems" show ?thesis
      by (simp add: stream_seal_last aead_open_seal)
  next
    case False
    with "1.prems" obtain q r where f: "fr_open A k n i False a (take (CHUNK_SIZE + TAG_SIZE) c) = Some q"
      and r: "stream_open A k n a (i + 1) (drop (CHUNK_SIZE + TAG_SIZE) c) = Some r" and p: "p = q @ r"
      by (auto simp: stream_open_next split: option.splits)
    have q: "length q = CHUNK_SIZE"
      using aead_open_length [OF "1.prems"(1) f] False by simp
    have "r \<noteq> []"
    proof
      assume "r = []"
      with "1.prems"(3) p q False show False by (simp add: frame_count_last)
    qed
    with p q have big: "CHUNK_SIZE < length p" by simp
    have "length (drop (CHUNK_SIZE + TAG_SIZE) c) = length r + TAG_SIZE * frame_count (length r)"
      using "1.prems"(3) p q big by (simp add: frame_count_step)
    from "1.IH" [OF False f "1.prems"(1) r this]
    have "stream_seal A k n a (i + 1) r = Some (drop (CHUNK_SIZE + TAG_SIZE) c)" .
    with f p q big "1.prems"(1) show ?thesis
      by (simp add: stream_seal_next aead_open_seal)
  qed
qed

text \<open>
  The other ciphertexts that open: whole frames, none of them sealed as the last, and then an empty frame
  sealed as the last.
\<close>

function empty_ended :: "aead \<Rightarrow> key \<Rightarrow> bytes \<Rightarrow> string \<Rightarrow> nat \<Rightarrow> bytes \<Rightarrow> bytes option" where
  "empty_ended A k n a i p =
     (if p = [] then fr_seal A k n i True a []
      else case fr_seal A k n i False a (take CHUNK_SIZE p) of
             None \<Rightarrow> None
           | Some frame \<Rightarrow> map_option ((@) frame) (empty_ended A k n a (i + 1) (drop CHUNK_SIZE p)))"
  by pat_completeness auto
termination
  by (relation "measure (\<lambda>(A, k, n, a, i, p). length p)") (auto simp: CHUNK_SIZE_def)

declare empty_ended.simps [simp del]

lemma empty_ended_open:
  assumes "aead_ok A" and "empty_ended A k n a i p = Some c" and "CHUNK_SIZE dvd length p"
  shows "stream_open A k n a i c = Some p \<and> c \<noteq> []"
  using assms
proof (induction A k n a i p arbitrary: c rule: empty_ended.induct)
  case (1 A k n a i p)
  show ?case
  proof (cases "p = []")
    case True
    with "1.prems" have "fr_seal A k n i True a [] = Some c" by (simp add: empty_ended.simps)
    with aead_seal_length [OF "1.prems"(1) this] "1.prems"(1) True show ?thesis
      by (auto simp: stream_open_last aead_open_seal TAG_SIZE_def)
  next
    case False
    with "1.prems"(3) have len: "CHUNK_SIZE \<le> length p" "CHUNK_SIZE dvd length (drop CHUNK_SIZE p)"
      by (auto dest: dvd_imp_le)
    from "1.prems"(2) False obtain frame r where f: "fr_seal A k n i False a (take CHUNK_SIZE p) = Some frame"
      and r: "empty_ended A k n a (i + 1) (drop CHUNK_SIZE p) = Some r" and c: "c = frame @ r"
      by (subst (asm) empty_ended.simps) (auto split: option.splits)
    have "length frame = CHUNK_SIZE + TAG_SIZE" using aead_seal_length [OF "1.prems"(1) f] len by simp
    moreover have "fr_open A k n i False a frame = Some (take CHUNK_SIZE p)" using f "1.prems"(1) by (simp add: aead_open_seal)
    ultimately show ?thesis using c "1.IH" [OF False f "1.prems"(1) r len(2)] by (simp add: stream_open_next)
  qed
qed

lemma stream_open_exact:
  assumes "aead_ok A"
  shows "stream_open A k n a i c = Some p \<longleftrightarrow>
    stream_seal A k n a i p = Some c \<or> p \<noteq> [] \<and> CHUNK_SIZE dvd length p \<and> empty_ended A k n a i p = Some c"
proof
  assume "stream_open A k n a i c = Some p"
  then show "stream_seal A k n a i p = Some c \<or> p \<noteq> [] \<and> CHUNK_SIZE dvd length p \<and> empty_ended A k n a i p = Some c"
    using assms
  proof (induction A k n a i c arbitrary: p rule: stream_open.induct)
    case (1 A k n a i c)
    show ?case
    proof (cases "length c \<le> CHUNK_SIZE + TAG_SIZE")
      case True
      with "1.prems" have o: "fr_open A k n i True a c = Some p" by (simp add: stream_open_last)
      with "1.prems" True have "length p \<le> CHUNK_SIZE" using aead_open_length by fastforce
      with o "1.prems" show ?thesis by (simp add: stream_seal_last aead_open_seal)
    next
      case False
      with "1.prems" obtain q r where f: "fr_open A k n i False a (take (CHUNK_SIZE + TAG_SIZE) c) = Some q"
        and r: "stream_open A k n a (i + 1) (drop (CHUNK_SIZE + TAG_SIZE) c) = Some r" and p: "p = q @ r"
        by (auto simp: stream_open_next split: option.splits)
      have q: "length q = CHUNK_SIZE" using aead_open_length [OF "1.prems"(2) f] False by simp
      have s: "fr_seal A k n i False a q = Some (take (CHUNK_SIZE + TAG_SIZE) c)" using f "1.prems"(2) by (simp add: aead_open_seal)
      have e: "empty_ended A k n a i p = map_option ((@) (take (CHUNK_SIZE + TAG_SIZE) c)) (empty_ended A k n a (i + 1) r)"
        by (subst empty_ended.simps) (use q p s in \<open>auto\<close>)
      from "1.IH" [OF False f r "1.prems"(2)] show ?thesis
      proof
        assume sr: "stream_seal A k n a (i + 1) r = Some (drop (CHUNK_SIZE + TAG_SIZE) c)"
        show ?thesis
        proof (cases "r = []")
          case True
          then have "fr_seal A k n (i + 1) True a [] = Some (drop (CHUNK_SIZE + TAG_SIZE) c)" using sr by (simp add: stream_seal_last)
          then have "empty_ended A k n a i p = Some c" using e True by (simp add: empty_ended.simps)
          with True p q show ?thesis by auto
        next
          case False
          with p q have "CHUNK_SIZE < length p" by simp
          with s sr p q show ?thesis by (simp add: stream_seal_next)
        qed
      next
        assume "r \<noteq> [] \<and> CHUNK_SIZE dvd length r \<and> empty_ended A k n a (i + 1) r = Some (drop (CHUNK_SIZE + TAG_SIZE) c)"
        with e p q show ?thesis by simp
      qed
    qed
  qed
qed (use assms stream_open_seal empty_ended_open in blast)

section \<open>Every encryption path writes the wire format\<close>

lemma last_start_step:
  assumes "CHUNK_SIZE < n"
  shows "last_frame_start n = CHUNK_SIZE + last_frame_start (n - CHUNK_SIZE)"
proof -
  have "n - 1 = (n - CHUNK_SIZE - 1) + CHUNK_SIZE" using assms by simp
  then show ?thesis by (simp add: last_frame_start_def div_add_self2)
qed

lemma last_start_zero: "n \<le> CHUNK_SIZE \<Longrightarrow> last_frame_start n = 0"
  using CHUNK_SIZE_pos by (cases "n = 0") (auto simp: last_frame_start_def)

lemma seal_chunks_stream:
  "res_bind (seal_chunks A k n a i (chunks CHUNK_SIZE (take (last_frame_start (length p)) p)))
     (\<lambda>out. res_bind (res_of (ECrypto a)
        (fr_seal A k n (i + length (chunks CHUNK_SIZE (take (last_frame_start (length p)) p)))
           True a (drop (last_frame_start (length p)) p)))
        (\<lambda>frame. Inr (out @ frame))) =
   res_of (ECrypto a) (stream_seal A k n a i p)"
proof (induction A k n a i p rule: stream_seal.induct)
  case (1 A k n a i p)
  show ?case
  proof (cases "length p \<le> CHUNK_SIZE")
    case True
    then show ?thesis by (simp add: last_start_zero stream_seal_last chunks.simps res_bind_def split: sum.splits)
  next
    case False
    let ?ls = "last_frame_start (length p - CHUNK_SIZE)"
    have ls: "last_frame_start (length p) = CHUNK_SIZE + ?ls"
      using False last_start_step [of "length p"] by simp
    have ch: "chunks CHUNK_SIZE (take (CHUNK_SIZE + ?ls) p) =
        take CHUNK_SIZE p # chunks CHUNK_SIZE (take ?ls (drop CHUNK_SIZE p))"
      using False by (subst chunks.simps) (auto simp: drop_take CHUNK_SIZE_def)
    show ?thesis
    proof (cases "fr_seal A k n i False a (take CHUNK_SIZE p)")
      case None
      with False show ?thesis by (simp add: ls ch stream_seal_next)
    next
      case (Some frame)
      from "1.IH" [OF False this]
      have IH: "res_bind (seal_chunks A k n a (i + 1) (chunks CHUNK_SIZE (take ?ls (drop CHUNK_SIZE p))))
         (\<lambda>out. res_bind (res_of (ECrypto a)
            (fr_seal A k n (i + 1 + length (chunks CHUNK_SIZE (take ?ls (drop CHUNK_SIZE p))))
               True a (drop ?ls (drop CHUNK_SIZE p)))) (\<lambda>frame. Inr (out @ frame))) =
        res_of (ECrypto a) (stream_seal A k n a (i + 1) (drop CHUNK_SIZE p))" by simp
      from Some False IH show ?thesis
        by (cases "stream_seal A k n a (i + 1) (drop CHUNK_SIZE p)")
          (auto simp: ls ch stream_seal_next res_bind_def res_of_def add.commute
            split: sum.splits option.splits)
    qed
  qed
qed

lemma encrypt_bytes_stream:
  "encrypt_bytes A n k p a = res_of (ECrypto a) (map_option ((@) n) (stream_seal A k n a 0 p))"
proof -
  have "encrypt_bytes A n k p a = res_bind (res_of (ECrypto a) (stream_seal A k n a 0 p)) (\<lambda>c. Inr (n @ c))"
    unfolding seal_chunks_stream [symmetric]
    by (simp add: encrypt_bytes_def Let_def res_bind_def split: sum.splits)
  then show ?thesis by (cases "stream_seal A k n a 0 p") auto
qed

lemma copy_frames_seal:
  assumes "p \<noteq> []"
  shows "(case stream_seal A k n a i p of
      Some c \<Rightarrow> copy_frames CHUNK_SIZE (\<lambda>i l. fr_seal A k n i l a) i p out = (Inr (), out @ c)
    | None \<Rightarrow> fst (copy_frames CHUNK_SIZE (\<lambda>i l. fr_seal A k n i l a) i p out) = Inl (ECrypto []))"
  using assms
proof (induction A k n a i p arbitrary: out rule: stream_seal.induct)
  case (1 A k n a i p)
  show ?case
  proof (cases "length p \<le> CHUNK_SIZE")
    case True
    with "1.prems" show ?thesis
      by (auto simp: stream_seal_last copy_frames.simps [of _ _ i p] split: option.splits)
  next
    case False
    then have d: "drop CHUNK_SIZE p \<noteq> []" by simp
    show ?thesis
    proof (cases "fr_seal A k n i False a (take CHUNK_SIZE p)")
      case None
      with False "1.prems" show ?thesis
        by (simp add: stream_seal_next copy_frames.simps [of _ _ i p] CHUNK_SIZE_def)
    next
      case (Some frame)
      from "1.IH" [OF False this d, of "out @ frame"] Some False "1.prems" show ?thesis
        by (subst (1 2) copy_frames.simps)
          (auto simp: stream_seal_next CHUNK_SIZE_def split: option.splits)
    qed
  qed
qed

section \<open>Encryption in parts\<close>

lemma append_fun: "(@) (a @ b) = (\<lambda>x. a @ b @ x)"
  by (simp add: fun_eq_iff)

lemma map_option_append_Nil [simp]: "map_option ((@) []) x = x"
  by (cases x) auto

text \<open>What an encryptor has still to produce.\<close>

definition enc_rest :: "aead \<Rightarrow> streaming_encryptor \<Rightarrow> bytes option" where
  "enc_rest A e = (case se_encryptor e of
      None \<Rightarrow> Some []
    | Some i \<Rightarrow> stream_seal A (se_key e) (se_nonce e) (se_aad e) i (se_reader e))"

text \<open>The number of frames of a part that is not the last one.\<close>

definition part_frames :: "nat \<Rightarrow> nat" where
  "part_frames part_size = max 1 ((part_size + (CHUNK_SIZE + TAG_SIZE) - 1) div (CHUNK_SIZE + TAG_SIZE))"

lemma part_loop_rest:
  "case part_loop A m i ct plen e of
     (Inl _, _) \<Rightarrow> stream_seal A (se_key e) (se_nonce e) (se_aad e) i (se_reader e) = None
   | (Inr None, _) \<Rightarrow> False
   | (Inr (Some part), e') \<Rightarrow>
       map_option ((@) ct) (stream_seal A (se_key e) (se_nonce e) (se_aad e) i (se_reader e)) =
         map_option ((@) (ep_ciphertext part)) (enc_rest A e')"
proof (induction A m i ct plen e rule: part_loop.induct)
  case (1 A m i ct plen e)
  let ?c = "take CHUNK_SIZE (se_reader e)" and ?r = "drop CHUNK_SIZE (se_reader e)"
  show ?case
  proof (cases "?c = [] \<or> ?r = []")
    case True
    then have "length (se_reader e) \<le> CHUNK_SIZE" by auto
    then show ?thesis using True
      by (simp add: part_loop.simps [of A m i ct plen e] stream_seal_last enc_rest_def Let_def
          split: option.splits)
  next
    case False
    then have big: "CHUNK_SIZE < length (se_reader e)" by auto
    show ?thesis
    proof (cases "fr_seal A (se_key e) (se_nonce e) i False (se_aad e) ?c")
      case None
      with False big show ?thesis
        by (simp add: part_loop.simps [of A m i ct plen e] stream_seal_next Let_def)
    next
      case (Some frame)
      show ?thesis
      proof (cases "m \<le> length (ct @ frame)")
        case True
        with False Some big show ?thesis
          by (auto simp: part_loop.simps [of A m i ct plen e] stream_seal_next Let_def enc_rest_def
              option.map_comp comp_def append_fun)
      next
        case small: False
        from "1.IH" [OF refl refl refl refl False Some refl small]
        show ?thesis using False Some big small
          by (subst part_loop.simps)
            (auto simp: stream_seal_next Let_def option.map_comp comp_def append_fun
              split: sum.splits option.splits prod.splits)
      qed
    qed
  qed
qed

lemma encrypt_next_part_rest:
  "case encrypt_next_part A m e of
     (Inl _, _) \<Rightarrow> enc_rest A e = None
   | (Inr None, e') \<Rightarrow> enc_rest A e = Some [] \<and> e' = e \<and> se_encryptor e = None
   | (Inr (Some part), e') \<Rightarrow> enc_rest A e = map_option ((@) (ep_ciphertext part)) (enc_rest A e')"
proof (cases "se_encryptor e")
  case None
  then show ?thesis by (simp add: encrypt_next_part_def enc_rest_def)
next
  case (Some i)
  with part_loop_rest [where A = A and m = m and ct = "[]" and plen = 0 and e = e and i = i]
  show ?thesis
    by (simp add: encrypt_next_part_def enc_rest_def cong: sum.case_cong option.case_cong prod.case_cong)
qed

text \<open>A caller that asks for parts of the sizes \<open>ms\<close>, one after the other, until there is none.\<close>

fun encrypt_parts :: "aead \<Rightarrow> nat list \<Rightarrow> (streaming_encryptor, merror, encrypted_part list) action" where
  "encrypt_parts A [] = act_ok []"
| "encrypt_parts A (m # ms) = act_bind (encrypt_next_part A m) (\<lambda>part. case part of
      None \<Rightarrow> act_ok []
    | Some p \<Rightarrow> act_bind (encrypt_parts A ms) (\<lambda>ps. act_ok (p # ps)))"

lemma encrypt_parts_rest:
  "encrypt_parts A ms e = (Inr ps, e') \<Longrightarrow>
    enc_rest A e = map_option ((@) (concat (map ep_ciphertext ps))) (enc_rest A e')"
proof (induction ms arbitrary: ps e)
  case Nil
  then show ?case by (cases "enc_rest A e") auto
next
  case (Cons m ms)
  then obtain part e1 where n: "encrypt_next_part A m e = (Inr part, e1)"
    and t: "(case part of None \<Rightarrow> act_ok []
      | Some p \<Rightarrow> act_bind (encrypt_parts A ms) (\<lambda>ps. act_ok (p # ps))) e1 = (Inr ps, e')"
    by (auto elim!: act_bind_okE)
  show ?case
  proof (cases part)
    case None
    with n t encrypt_next_part_rest [where A = A and m = m and e = e] show ?thesis by auto
  next
    case (Some p)
    with t obtain ps' where ps: "encrypt_parts A ms e1 = (Inr ps', e')" "ps = p # ps'"
      by (auto simp: act_bind_ok)
    with n Some encrypt_next_part_rest [where A = A and m = m and e = e] Cons.IH [OF ps(1)] show ?thesis
      by (simp add: option.map_comp comp_def)
  qed
qed

subsection \<open>The size of the parts\<close>

lemma part_frames_bounds:
  assumes "j * (CHUNK_SIZE + TAG_SIZE) < m \<or> j = 0"
  shows "m \<le> (j + 1) * (CHUNK_SIZE + TAG_SIZE) \<longleftrightarrow> part_frames m = j + 1"
proof -
  let ?f = "CHUNK_SIZE + TAG_SIZE"
  have f: "0 < ?f" by simp
  show ?thesis
  proof (cases "m = 0")
    case True
    with assms show ?thesis by (auto simp: part_frames_def div_if)
  next
    case False
    have "m + ?f - 1 = (m - 1) + ?f" using False by simp
    then have eq: "(m + ?f - 1) div ?f = Suc ((m - 1) div ?f)"
      using f by (simp only: div_add_self2)
    have le: "j \<le> (m - 1) div ?f"
      using assms f False by (auto simp: less_eq_div_iff_mult_less_eq)
    have "m \<le> (j + 1) * ?f \<longleftrightarrow> (m - 1) div ?f < j + 1"
      using False f by (simp add: div_less_iff_less_mult) linarith
    with le eq show ?thesis by (auto simp: part_frames_def)
  qed
qed

lemma part_loop_size:
  assumes "aead_ok A" and "part_loop A m i ct plen e = (Inr (Some part), e')"
    and "length ct = j * (CHUNK_SIZE + TAG_SIZE)" and "length ct < m \<or> j = 0" and "j < part_frames m"
  shows "(se_encryptor e' \<noteq> None \<longrightarrow> length (ep_ciphertext part) = part_frames m * (CHUNK_SIZE + TAG_SIZE) \<and>
        se_reader e' = drop ((part_frames m - j) * CHUNK_SIZE) (se_reader e) \<and> se_reader e' \<noteq> [])
    \<and> (se_encryptor e' = None \<longrightarrow> length (se_reader e) \<le> (part_frames m - j) * CHUNK_SIZE)"
  using assms
proof (induction A m i ct plen e arbitrary: j rule: part_loop.induct)
  case (1 A m i ct plen e)
  let ?c = "take CHUNK_SIZE (se_reader e)" and ?r = "drop CHUNK_SIZE (se_reader e)"
  show ?case
  proof (cases "?c = [] \<or> ?r = []")
    case True
    then have l: "length (se_reader e) \<le> CHUNK_SIZE" by auto
    have "1 * CHUNK_SIZE \<le> (part_frames m - j) * CHUNK_SIZE"
      using "1.prems"(5) by (intro mult_right_mono) auto
    with l have "length (se_reader e) \<le> (part_frames m - j) * CHUNK_SIZE" by linarith
    with True "1.prems"(2) show ?thesis
      by (auto simp: part_loop.simps [of A m i ct plen e] Let_def split: option.splits if_splits)
  next
    case False
    then have big: "CHUNK_SIZE < length (se_reader e)" by auto
    obtain frame where f: "fr_seal A (se_key e) (se_nonce e) i False (se_aad e) ?c = Some frame"
      using "1.prems"(2) False
      by (auto simp: part_loop.simps [of A m i ct plen e] Let_def split: option.splits)
    have len: "length (ct @ frame) = (j + 1) * (CHUNK_SIZE + TAG_SIZE)"
      using aead_seal_length [OF "1.prems"(1) f] "1.prems"(3) big by simp
    show ?thesis
    proof (cases "m \<le> length (ct @ frame)")
      case True
      then have "part_frames m = j + 1"
        using part_frames_bounds [of j m] "1.prems"(3,4) len by auto
      with True False f len big "1.prems"(2) show ?thesis
        by (auto simp: part_loop.simps [of A m i ct plen e] Let_def)
    next
      case small: False
      let ?e2 = "e\<lparr>se_reader := ?r, se_encryptor := Some (i + 1)\<rparr>"
      have "part_frames m \<noteq> j + 1"
        using part_frames_bounds [of j m] "1.prems"(3,4) len small by auto
      then have j: "j + 1 < part_frames m" using "1.prems"(5) by simp
      have "part_loop A m (i + 1) (ct @ frame) (plen + length ?c) ?e2 = (Inr (Some part), e')"
        using "1.prems"(2) False f small
        by (simp add: part_loop.simps [of A m i ct plen e] Let_def)
      from "1.IH" [OF refl refl refl refl False f refl small "1.prems"(1) this len _ j] small j
      have *: "(se_encryptor e' \<noteq> None \<longrightarrow> length (ep_ciphertext part) = part_frames m * (CHUNK_SIZE + TAG_SIZE) \<and>
          se_reader e' = drop ((part_frames m - (j + 1)) * CHUNK_SIZE) ?r \<and> se_reader e' \<noteq> []) \<and>
        (se_encryptor e' = None \<longrightarrow> length ?r \<le> (part_frames m - (j + 1)) * CHUNK_SIZE)"
        by (cases "se_encryptor e'") auto
      have "(part_frames m - (j + 1)) * CHUNK_SIZE + CHUNK_SIZE = (part_frames m - j) * CHUNK_SIZE"
        using j by (metis Suc_diff_Suc Suc_eq_plus1 Suc_lessD add.commute mult_Suc)
      with * show ?thesis by (cases "se_encryptor e'") auto
    qed
  qed
qed

text \<open>The number of parts of an upload of \<open>n\<close> bytes in parts of at least \<open>m\<close> ciphertext bytes.\<close>

definition part_count :: "nat \<Rightarrow> nat \<Rightarrow> nat" where
  "part_count m n = (let k = part_frames m * CHUNK_SIZE in max 1 ((n + (k - 1)) div k))"

lemma part_frames_pos [simp]: "0 < part_frames m"
  by (simp add: part_frames_def)

lemma part_count_last: "n \<le> part_frames m * CHUNK_SIZE \<Longrightarrow> part_count m n = 1"
proof -
  let ?k = "part_frames m * CHUNK_SIZE"
  assume "n \<le> ?k"
  moreover have k: "0 < ?k" by simp
  ultimately have "n + (?k - 1) < 2 * ?k" by linarith
  then have "(n + (?k - 1)) div ?k < 2" using k by (simp only: div_less_iff_less_mult)
  then show ?thesis by (simp add: part_count_def Let_def)
qed

lemma part_count_step:
  assumes "part_frames m * CHUNK_SIZE < n"
  shows "part_count m n = Suc (part_count m (n - part_frames m * CHUNK_SIZE))"
proof -
  let ?k = "part_frames m * CHUNK_SIZE"
  have k: "0 < ?k" by simp
  have "n + (?k - 1) = (n - ?k + (?k - 1)) + ?k" using assms by simp
  then have "(n + (?k - 1)) div ?k = Suc ((n - ?k + (?k - 1)) div ?k)"
    using k by (simp only: div_add_self2)
  moreover have "1 \<le> (n - ?k + (?k - 1)) div ?k"
    using assms k by (simp add: less_eq_div_iff_mult_less_eq)
  ultimately show ?thesis by (simp add: part_count_def Let_def)
qed

lemma encrypt_next_part_size:
  assumes "aead_ok A" and "encrypt_next_part A m e = (Inr (Some part), e')"
  shows "se_encryptor e' \<noteq> None \<longrightarrow> length (ep_ciphertext part) = part_frames m * (CHUNK_SIZE + TAG_SIZE) \<and>
        se_reader e' = drop (part_frames m * CHUNK_SIZE) (se_reader e) \<and> se_reader e' \<noteq> []"
    and "se_encryptor e' = None \<longrightarrow> length (se_reader e) \<le> part_frames m * CHUNK_SIZE"
proof -
  from assms(2) obtain i where "part_loop A m i [] 0 e = (Inr (Some part), e')"
    by (auto simp: encrypt_next_part_def split: option.splits)
  from part_loop_size [OF assms(1) this, of 0]
  show "se_encryptor e' \<noteq> None \<longrightarrow> length (ep_ciphertext part) = part_frames m * (CHUNK_SIZE + TAG_SIZE) \<and>
        se_reader e' = drop (part_frames m * CHUNK_SIZE) (se_reader e) \<and> se_reader e' \<noteq> []"
    and "se_encryptor e' = None \<longrightarrow> length (se_reader e) \<le> part_frames m * CHUNK_SIZE"
    by auto
qed

lemma encrypt_parts_count:
  assumes "aead_ok A" and "encrypt_parts A (replicate N m) e = (Inr ps, e')"
    and "se_encryptor e \<noteq> None" and "se_encryptor e' = None"
  shows "length ps = part_count m (length (se_reader e))"
  using assms
proof (induction N arbitrary: e ps)
  case 0
  then show ?case by simp
next
  case (Suc N)
  obtain i where "se_encryptor e = Some i" using Suc.prems(3) by blast
  with Suc.prems(2) part_loop_rest [where A = A and m = m and ct = "[]" and plen = 0 and e = e and i = i]
  obtain part e1 ps' where n: "encrypt_next_part A m e = (Inr (Some part), e1)"
    and ps: "encrypt_parts A (replicate N m) e1 = (Inr ps', e')" "ps = part # ps'"
    by (auto simp: act_bind_ok encrypt_next_part_def split: option.splits)
  note sz = encrypt_next_part_size [OF Suc.prems(1) n]
  show ?case
  proof (cases "se_encryptor e1")
    case None
    then have "ps' = []"
      using ps(1) by (cases N) (auto simp: encrypt_next_part_def act_bind_ok)
    with ps sz(2) None show ?thesis by (simp add: part_count_last)
  next
    case (Some j)
    with sz(1) have r: "se_reader e1 = drop (part_frames m * CHUNK_SIZE) (se_reader e)" "se_reader e1 \<noteq> []"
      by auto
    then have "part_frames m * CHUNK_SIZE < length (se_reader e)" by (metis drop_all not_less)
    with Suc.IH [OF Suc.prems(1) ps(1) _ Suc.prems(4)] Some r ps(2) show ?thesis
      by (simp add: part_count_step)
  qed
qed

section \<open>Every decryption path computes \<open>stream_open\<close>\<close>

definition dec_open :: "aead \<Rightarrow> streaming_decryptor \<Rightarrow> bytes \<Rightarrow> bytes option" where
  "dec_open A d mr =
     stream_open A (sd_key d) (sd_nonce d) (sd_aad d) (sd_position d) (sd_buffer d @ mr)"

lemma feed_loop_open:
  "case feed_loop A plain d of
     (Inl _, _) \<Rightarrow> dec_open A d mr = None
   | (Inr q, d') \<Rightarrow> map_option ((@) plain) (dec_open A d mr) = map_option ((@) q) (dec_open A d' mr)
       \<and> length (sd_buffer d') \<le> CHUNK_SIZE + TAG_SIZE"
proof (induction A plain d rule: feed_loop.induct)
  case (1 A plain d)
  show ?case
  proof (cases "CHUNK_SIZE + TAG_SIZE < length (sd_buffer d)")
    case False
    then show ?thesis by (simp add: feed_loop.simps [of A plain d])
  next
    case True
    let ?f = "take (CHUNK_SIZE + TAG_SIZE) (sd_buffer d)"
    let ?d1 = "d\<lparr>sd_buffer := drop (CHUNK_SIZE + TAG_SIZE) (sd_buffer d)\<rparr>"
    show ?thesis
    proof (cases "fr_open A (sd_key d) (sd_nonce d) (sd_position d) False (sd_aad d) ?f")
      case None
      with True show ?thesis
        by (simp add: feed_loop.simps [of A plain d] dec_open_def stream_open_next Let_def)
    next
      case (Some p)
      let ?d2 = "?d1\<lparr>sd_position := sd_position d + 1\<rparr>"
      have o: "dec_open A d mr = map_option ((@) p) (dec_open A ?d2 mr)"
        using True Some by (simp add: dec_open_def stream_open_next)
      have "feed_loop A plain d = feed_loop A (plain @ p) ?d2"
        using True Some by (simp add: feed_loop.simps [of A plain d] Let_def)
      with "1.IH" [OF True refl refl Some] show ?thesis
        by (auto simp: o option.map_comp comp_def append_fun split: sum.splits prod.splits)
    qed
  qed
qed

lemma feed_open:
  "case feed A b d of
     (Inl _, _) \<Rightarrow> dec_open A d (b @ mr) = None
   | (Inr q, d') \<Rightarrow> dec_open A d (b @ mr) = map_option ((@) q) (dec_open A d' mr)
       \<and> length (sd_buffer d') \<le> CHUNK_SIZE + TAG_SIZE"
  using feed_loop_open [where A = A and plain = "[]" and d = "d\<lparr>sd_buffer := sd_buffer d @ b\<rparr>" and mr = mr]
  by (auto simp: feed_def dec_open_def split: sum.splits prod.splits)

text \<open>A download: the pieces of the body in order, then \<open>finish\<close>.\<close>

definition decrypt_pieces :: "aead \<Rightarrow> bytes list \<Rightarrow> streaming_decryptor \<Rightarrow> bytes mresult" where
  "decrypt_pieces A pieces d = (case act_map (feed A) pieces d of
      (Inl e, _) \<Rightarrow> Inl e
    | (Inr ps, d') \<Rightarrow> res_bind (decryptor_finish A d') (\<lambda>tail. Inr (concat ps @ tail)))"

lemma act_map_feed_open:
  "case act_map (feed A) pieces d of
     (Inl _, _) \<Rightarrow> dec_open A d (concat pieces) = None
   | (Inr ps, d') \<Rightarrow> dec_open A d (concat pieces) = map_option ((@) (concat ps)) (dec_open A d' [])
       \<and> (length (sd_buffer d) \<le> CHUNK_SIZE + TAG_SIZE \<longrightarrow> length (sd_buffer d') \<le> CHUNK_SIZE + TAG_SIZE)"
proof (induction pieces arbitrary: d)
  case Nil
  then show ?case by (cases "dec_open A d []") auto
next
  case (Cons b bs)
  show ?case
  proof (cases "feed A b d")
    case (Pair r d1)
    with feed_open [where A = A and b = b and d = d and mr = "concat bs"] Cons.IH [of d1] show ?thesis
      by (auto simp: act_bind_run option.map_comp comp_def append_fun split: sum.splits prod.splits)
  qed
qed

lemma decrypt_pieces_ok:
  assumes "length (sd_buffer d) \<le> CHUNK_SIZE + TAG_SIZE"
  shows "decrypt_pieces A pieces d = Inr p \<longleftrightarrow> dec_open A d (concat pieces) = Some p"
  using act_map_feed_open [where A = A and pieces = pieces and d = d] assms
  by (auto simp: decrypt_pieces_def res_bind_ok decryptor_finish_def dec_open_def stream_open_last
      split: sum.splits prod.splits)

lemma decrypt_bytes_pieces:
  "decrypt_bytes A k c a = (if length c < NONCE_SIZE then Inl (ECrypto a)
     else decrypt_pieces A [drop NONCE_SIZE c] (streaming_decryptor_new k (take NONCE_SIZE c) a))"
  by (auto simp: decrypt_bytes_def decrypt_pieces_def act_bind_run split: sum.splits prod.splits)

lemma decrypt_bytes_ok:
  "decrypt_bytes A k c a = Inr p \<longleftrightarrow> NONCE_SIZE \<le> length c \<and>
     stream_open A k (take NONCE_SIZE c) a 0 (drop NONCE_SIZE c) = Some p"
  by (auto simp: decrypt_bytes_pieces decrypt_pieces_ok dec_open_def streaming_decryptor_new_def)

lemma copy_frames_open:
  assumes "c \<noteq> []" and "stream_open A k n a i c = Some p"
  shows "copy_frames (CHUNK_SIZE + TAG_SIZE) (\<lambda>i l. fr_open A k n i l a) i c out = (Inr (), out @ p)"
  using assms
proof (induction A k n a i c arbitrary: p out rule: stream_open.induct)
  case (1 A k n a i c)
  show ?case
  proof (cases "length c \<le> CHUNK_SIZE + TAG_SIZE")
    case True
    with "1.prems" show ?thesis
      by (auto simp: stream_open_last copy_frames.simps [of _ _ i c])
  next
    case False
    then have d: "drop (CHUNK_SIZE + TAG_SIZE) c \<noteq> []" by simp
    from False "1.prems" obtain q r
      where f: "fr_open A k n i False a (take (CHUNK_SIZE + TAG_SIZE) c) = Some q"
      and r: "stream_open A k n a (i + 1) (drop (CHUNK_SIZE + TAG_SIZE) c) = Some r" and p: "p = q @ r"
      by (auto simp: stream_open_next split: option.splits)
    from "1.IH" [OF False f d r, of "out @ q"] f d p "1.prems"(1) False show ?thesis
      by (subst copy_frames.simps) (simp add: Let_def)
  qed
qed

lemma encrypt_file_ok:
  assumes "files inp = Some p" and "p \<noteq> []" and "inp \<noteq> outp"
  shows "case stream_seal A k n a 0 p of
       Some c \<Rightarrow> encrypt_file A n k inp outp a files = (Inr (), files(outp := Some (n @ c)))
     | None \<Rightarrow> fst (encrypt_file A n k inp outp a files) = Inl (ECrypto [])"
  using copy_frames_seal [OF assms(2), where A = A and k = k and n = n and a = a and i = 0 and out = n] assms
  by (auto simp: encrypt_file_def Let_def split: option.splits prod.splits)

lemma decrypt_file_ok:
  assumes "files inp = Some (n @ c)" and "length n = NONCE_SIZE" and "c \<noteq> []" and "inp \<noteq> outp"
    and "stream_open A k n a 0 c = Some p"
  shows "decrypt_file A k inp outp a files = (Inr (), files(outp := Some p))"
  using copy_frames_open [OF assms(3,5), of "[]"] assms by (simp add: decrypt_file_def Let_def)

lemma copy_frames_nothing [simp]: "copy_frames m f i [] out = (Inr (), out)"
  by (simp add: copy_frames.simps)

section \<open>An instance of the parameter, for the witnesses\<close>

text \<open>Frames are stored in the clear, followed by a tag that depends on position and finality.\<close>

definition sample_tag :: "nat \<Rightarrow> bool \<Rightarrow> bytes" where
  "sample_tag i l = replicate 15 (of_nat i) @ [if l then 1 else 0]"

definition sample_aead :: aead where
  "sample_aead = \<lparr>fr_seal = (\<lambda>k n i l a p. Some (p @ sample_tag i l)),
     fr_open = (\<lambda>k n i l a c. if 16 \<le> length c \<and> drop (length c - 16) c = sample_tag i l
        then Some (take (length c - 16) c) else None)\<rparr>"

lemma sample_aead_ok: "aead_ok sample_aead"
proof -
  have len: "length (sample_tag i l) = 16" for i l by (simp add: sample_tag_def)
  have "c = p @ sample_tag i l \<longleftrightarrow> 16 \<le> length c \<and> drop (length c - 16) c = sample_tag i l \<and>
      take (length c - 16) c = p" for c p i l
    using len [of i l] by (metis add_diff_cancel_right' append_eq_conv_conj append_take_drop_id le_add2 length_append)
  then show ?thesis
    using len by (auto simp: aead_ok_def sample_aead_def TAG_SIZE_def) (metis append_take_drop_id)
qed

lemma sample_aead_seals: "aead_seals sample_aead"
  by (simp add: aead_seals_def sample_aead_def)

lemma stream_seal_some:
  assumes "aead_seals A" and "i + frame_count (length p) \<le> 2 ^ 32"
  shows "\<exists>c. stream_seal A k n a i p = Some c"
  using assms
proof (induction A k n a i p rule: stream_seal.induct)
  case (1 A k n a i p)
  have i: "i < 2 ^ 32" using "1.prems"(2) frame_count_pos(1) [of "length p"] by linarith
  then have s: "fr_seal A k n i l a q \<noteq> None" for l q using "1.prems"(1) by (simp add: aead_seals_def)
  show ?case
  proof (cases "length p \<le> CHUNK_SIZE")
    case True
    with s show ?thesis by (auto simp: stream_seal_last)
  next
    case False
    from s obtain frame where f: "fr_seal A k n i False a (take CHUNK_SIZE p) = Some frame" by blast
    have "i + 1 + frame_count (length (drop CHUNK_SIZE p)) \<le> 2 ^ 32"
      using "1.prems"(2) False by (simp add: frame_count_step)
    from "1.IH" [OF False f "1.prems"(1) this] f False show ?thesis by (auto simp: stream_seal_next)
  qed
qed

section \<open>Properties\<close>

text \<open>
  C22: what \<open>encrypt_bytes\<close> writes, \<open>decrypt_bytes\<close> reads back, under the same key and the same
  associated data, for every plaintext (the empty one included).
\<close>

theorem content_roundtrip:
  assumes "aead_ok A" and "length n = NONCE_SIZE" and "encrypt_bytes A n k p a = Inr c"
  shows "decrypt_bytes A k c a = Inr p"
  using assms by (auto simp: encrypt_bytes_stream decrypt_bytes_ok intro: stream_open_seal)

theorem content_roundtrip_witness:
  "decrypt_bytes sample_aead [1] (replicate 19 7 @ [4, 5] @ sample_tag 0 True) ''a'' = Inr [4, 5]"
  by (rule content_roundtrip [OF sample_aead_ok, where n = "replicate 19 7"])
    (simp_all add: NONCE_SIZE_def encrypt_bytes_stream stream_seal_last CHUNK_SIZE_def sample_aead_def)

text \<open>
  C23: Decryption accepts exactly two ciphertexts of a plaintext under a nonce: its encryption, and, when
  the plaintext is a positive number of whole frames, those frames all sealed as not the last, followed
  by an empty one sealed as the last. Frames can't be altered, dropped, repeated or reordered, and a
  ciphertext of the length that \<open>ciphertext_len\<close> gives can only be the encryption.
\<close>

theorem decrypt_accepts_exactly:
  assumes "aead_ok A"
  shows "(decrypt_bytes A k c a = Inr p \<longleftrightarrow> NONCE_SIZE \<le> length c \<and>
      (encrypt_bytes A (take NONCE_SIZE c) k p a = Inr c \<or>
       p \<noteq> [] \<and> CHUNK_SIZE dvd length p \<and> empty_ended A k (take NONCE_SIZE c) a 0 p = Some (drop NONCE_SIZE c))) \<and>
    (decrypt_bytes A k c a = Inr p \<and> length c = NONCE_SIZE + length p + TAG_SIZE * frame_count (length p) \<longrightarrow>
      encrypt_bytes A (take NONCE_SIZE c) k p a = Inr c)"
proof -
  have e: "NONCE_SIZE \<le> length c \<Longrightarrow> encrypt_bytes A (take NONCE_SIZE c) k p a = Inr c \<longleftrightarrow>
      stream_seal A k (take NONCE_SIZE c) a 0 p = Some (drop NONCE_SIZE c)"
    by (auto simp: encrypt_bytes_stream split: option.splits) (metis append_eq_conv_conj append_take_drop_id)
  have "encrypt_bytes A (take NONCE_SIZE c) k p a = Inr c"
    if "decrypt_bytes A k c a = Inr p" "length c = NONCE_SIZE + length p + TAG_SIZE * frame_count (length p)"
    using that stream_open_canonical [OF assms, of k "take NONCE_SIZE c" a 0 "drop NONCE_SIZE c" p] e by (simp add: decrypt_bytes_ok)
  then show ?thesis using e stream_open_exact [OF assms] unfolding decrypt_bytes_ok by blast
qed

theorem decrypt_accepts_exactly_witness:
  "decrypt_bytes sample_aead [1] (replicate 19 7 @ [4] @ sample_tag 0 True) ''a'' = Inr [4] \<and>
   encrypt_bytes sample_aead (replicate 19 7) [1] [4] ''a'' = Inr (replicate 19 7 @ [4] @ sample_tag 0 True) \<and>
   (\<exists>c. decrypt_bytes sample_aead [1] c ''a'' = Inr (replicate CHUNK_SIZE 0) \<and>
      encrypt_bytes sample_aead (take NONCE_SIZE c) [1] (replicate CHUNK_SIZE 0) ''a'' \<noteq> Inr c)"
proof -
  let ?c = "replicate 19 7 @ [4] @ sample_tag 0 True"
  have d: "decrypt_bytes sample_aead [1] ?c ''a'' = Inr [4]"
    by (simp add: decrypt_bytes_ok stream_open_last NONCE_SIZE_def CHUNK_SIZE_def TAG_SIZE_def sample_tag_def sample_aead_def)
  have len: "length ?c = NONCE_SIZE + length [4 :: byte] + TAG_SIZE * frame_count (length [4 :: byte])"
    by (simp add: NONCE_SIZE_def TAG_SIZE_def CHUNK_SIZE_def frame_count_last sample_tag_def)
  have e: "encrypt_bytes sample_aead (replicate 19 7) [1] [4] ''a'' = Inr ?c"
    using decrypt_accepts_exactly [OF sample_aead_ok, of "[1]" ?c "''a''" "[4]"] d len by (simp add: NONCE_SIZE_def)
  let ?p = "replicate CHUNK_SIZE (0 :: byte)" and ?n = "replicate NONCE_SIZE (7 :: byte)"
  let ?d = "?n @ (?p @ sample_tag 0 False) @ sample_tag 1 True"
  have p: "?p \<noteq> []" by (simp add: CHUNK_SIZE_def)
  have eo: "empty_ended sample_aead [1] ?n ''a'' 0 ?p = Some ((?p @ sample_tag 0 False) @ sample_tag 1 True)"
    using p by (subst empty_ended.simps) (simp add: empty_ended.simps sample_aead_def)
  then have "decrypt_bytes sample_aead [1] ?d ''a'' = Inr ?p"
    using decrypt_accepts_exactly [OF sample_aead_ok, of "[1]" ?d "''a''" ?p] p by simp
  moreover have "encrypt_bytes sample_aead ?n [1] ?p ''a'' = Inr (?n @ ?p @ sample_tag 0 True)"
    by (simp add: encrypt_bytes_stream stream_seal_last sample_aead_def)
  moreover have "?n @ ?p @ sample_tag 0 True \<noteq> ?d" by (simp add: sample_tag_def)
  ultimately have "decrypt_bytes sample_aead [1] ?d ''a'' = Inr ?p \<and> encrypt_bytes sample_aead (take NONCE_SIZE ?d) [1] ?p ''a'' \<noteq> Inr ?d" by simp
  with d e show ?thesis by blast
qed

lemma ciphertext_len_nat:
  assumes "n < 2 ^ 63"
  shows "ciphertext_len (of_nat n) = of_nat (NONCE_SIZE + n + TAG_SIZE * frame_count n)"
proof -
  have n: "unat (of_nat n :: u64) = n" using assms by (simp add: unat_of_nat take_bit_nat_eq_self)
  let ?d = "(n + CHUNK_SIZE - 1) div CHUNK_SIZE"
  have "?d \<le> n + CHUNK_SIZE - 1" by simp
  then have d: "unat (of_nat ?d :: u64) = ?d"
    using assms by (simp add: unat_of_nat take_bit_nat_eq_self CHUNK_SIZE_def)
  have "max (of_nat ?d) (1 :: u64) = of_nat (frame_count n)"
    using d by (auto simp: max_def word_le_nat_alt frame_count_def)
  then show ?thesis by (simp add: ciphertext_len_def Let_def n mult.commute)
qed

text \<open>
  The stored size is predictable: \<open>ciphertext_len\<close> of the plaintext's length is exactly the
  length of what is stored, nonce included, for any plaintext below 2^63 bytes.
\<close>

theorem ciphertext_length:
  assumes "aead_ok A" and "length n = NONCE_SIZE" and "encrypt_bytes A n k p a = Inr c" and "length p < 2 ^ 63"
  shows "of_nat (length c) = ciphertext_len (of_nat (length p))"
  using assms by (auto simp: ciphertext_len_nat encrypt_bytes_stream dest!: stream_seal_length)

theorem ciphertext_length_witness:
  "of_nat (length (replicate 19 7 @ [4, 5] @ sample_tag 0 True)) = ciphertext_len (of_nat (length [4, 5 :: byte]))"
  by (rule ciphertext_length [OF sample_aead_ok, where n = "replicate 19 7" and k = "[]" and a = "[]"])
    (simp_all add: NONCE_SIZE_def encrypt_bytes_stream stream_seal_last CHUNK_SIZE_def sample_aead_def)

text \<open>
  C24: an upload in parts, of whatever part sizes and resumed or not, stores what \<open>encrypt_bytes\<close>
  would store in one piece: once the encryptor is exhausted, the nonce followed by the parts it
  returned is the encryption of the whole file under that nonce.
\<close>

theorem parts_store_the_encryption:
  assumes "streaming_encryptor_new fresh k files path a nonce = Inr e"
    and "encrypt_parts A sizes e = (Inr ps, e')" and "se_encryptor e' = None"
  shows "encrypt_bytes A (se_nonce e) k (the (files path)) a =
    Inr (se_nonce e @ concat (map ep_ciphertext ps))"
proof -
  from assms(1) have e: "enc_rest A e = stream_seal A k (se_nonce e) a 0 (the (files path))"
    by (auto simp: streaming_encryptor_new_def enc_rest_def Let_def split: option.splits)
  have "enc_rest A e = Some (concat (map ep_ciphertext ps))"
    using encrypt_parts_rest [OF assms(2)] assms(3) by (simp add: enc_rest_def [of A e'])
  with e show ?thesis by (simp add: encrypt_bytes_stream)
qed

theorem parts_store_the_encryption_witness:
  "encrypt_bytes sample_aead (replicate 19 3) [1] [8, 9] ''a'' =
     Inr (replicate 19 3 @ [8, 9] @ sample_tag 0 True)"
proof -
  have "streaming_encryptor_new (replicate 19 3) [1] (\<lambda>_. Some [8, 9]) ''p'' ''a'' None =
      Inr \<lparr>se_key = [1], se_encryptor = Some 0, se_reader = [8, 9], se_input_path = ''p'',
        se_aad = ''a'', se_nonce = replicate 19 3\<rparr>"
    by (simp add: streaming_encryptor_new_def)
  from parts_store_the_encryption [OF this, where A = sample_aead and sizes = "[100, 100]"]
  show ?thesis
    by (simp add: encrypt_next_part_def part_loop.simps CHUNK_SIZE_def sample_aead_def act_bind_run Let_def)
qed

text \<open>
  a download decrypts to the same plaintext however the transport cuts the body: feeding the
  pieces one by one and finishing succeeds with \<open>p\<close> exactly when \<open>decrypt_bytes\<close> of the whole object
  yields \<open>p\<close>.
\<close>

theorem download_pieces_irrelevant:
  assumes "length n = NONCE_SIZE"
  shows "decrypt_pieces A pieces (streaming_decryptor_new k n a) = Inr p \<longleftrightarrow>
    decrypt_bytes A k (n @ concat pieces) a = Inr p"
  using assms
  by (simp add: decrypt_bytes_ok decrypt_pieces_ok dec_open_def streaming_decryptor_new_def)

theorem download_pieces_irrelevant_witness:
  "decrypt_pieces sample_aead [[4], [5] @ sample_tag 0 True] (streaming_decryptor_new [1] (replicate 19 7) ''a'') = Inr [4, 5]"
  by (subst download_pieces_irrelevant)
    (simp_all add: NONCE_SIZE_def decrypt_bytes_ok stream_open_last CHUNK_SIZE_def TAG_SIZE_def sample_tag_def sample_aead_def)

text \<open>
  The upload's parts. Asked for parts of \<open>m\<close> bytes until the end, the encryptor returns exactly
  \<open>part_count m\<close> parts for the file's length, the first of them after at most \<open>part_frames m\<close> frames.
\<close>

theorem upload_part_count:
  assumes "aead_ok A" and "streaming_encryptor_new fresh k files path a nonce = Inr e"
    and "encrypt_parts A (replicate N m) e = (Inr ps, e')" and "se_encryptor e' = None"
  shows "length ps = part_count m (length (the (files path)))"
proof -
  from assms(2) have "se_encryptor e \<noteq> None" and "se_reader e = the (files path)"
    by (auto simp: streaming_encryptor_new_def Let_def split: option.splits)
  with encrypt_parts_count [OF assms(1,3) _ assms(4)] show ?thesis by simp
qed

theorem upload_part_count_witness: "part_count 100 (length [8, 9 :: byte]) = 1"
proof -
  have "streaming_encryptor_new (replicate 19 3) [1] (\<lambda>_. Some [8, 9]) ''p'' ''a'' None =
      Inr \<lparr>se_key = [1], se_encryptor = Some 0, se_reader = [8, 9], se_input_path = ''p'',
        se_aad = ''a'', se_nonce = replicate 19 3\<rparr>"
    by (simp add: streaming_encryptor_new_def)
  from upload_part_count [OF sample_aead_ok this, where N = 2 and m = 100]
  show ?thesis
    by (simp add: encrypt_next_part_def part_loop.simps CHUNK_SIZE_def sample_aead_def act_bind_run Let_def
        numeral_2_eq_2)
qed

text \<open>
  The part size that \<open>get_chunk_size\<close> picks does not keep every upload under S3's limit of 10,000
  parts: a part is a whole number of 65,552-byte frames, each of which holds only 65,536 bytes of the
  file, and for a file of 83,906,559,999 bytes the upload has 10,003 parts.
\<close>

theorem chunk_size_exceeds_part_limit:
  "part_count (unat (get_chunk_size 83906559999)) 83906559999 = 10003 \<and> unat MAX_S3_PARTS = 10000"
  by (simp add: chunk_size_nat part_count_def part_frames_def CHUNK_SIZE_def TAG_SIZE_def MAX_S3_PARTS_def)

text \<open>
  Encrypting a file to another and decrypting that to a third gives back its bytes, for every
  input file, the empty one included (whose encryption is the nonce alone).
\<close>

theorem file_roundtrip:
  assumes "aead_ok A" and "length n = NONCE_SIZE" and "files inp = Some p" and "distinct [inp, mid, outp]"
    and "encrypt_file A n k inp mid a files = (Inr (), files1)"
  shows "decrypt_file A k mid outp a files1 = (Inr (), files1(outp := Some p)) \<and> files1 inp = Some p"
proof (cases "p = []")
  case True
  with assms have "files1 = files(mid := Some n)"
    by (auto simp: encrypt_file_def Let_def)
  with True assms show ?thesis by (auto simp: decrypt_file_def Let_def)
next
  case False
  with assms obtain c where c: "stream_seal A k n a 0 p = Some c" "files1 = files(mid := Some (n @ c))"
    using encrypt_file_ok [where files = files and inp = inp and p = p and outp = mid and A = A and n = n and k = k and a = a] by (auto split: option.splits)
  have "c \<noteq> []" using stream_seal_length [OF assms(1) c(1)] by (auto simp: TAG_SIZE_def)
  with decrypt_file_ok [of files1 mid n c outp A k a p] c assms stream_open_seal [OF assms(1) c(1)]
  show ?thesis by auto
qed

theorem file_roundtrip_witness:
  "fst (decrypt_file sample_aead [1] ''b'' ''c'' ''a''
     (snd (encrypt_file sample_aead (replicate 19 3) [1] ''a'' ''b'' ''a'' [''a'' \<mapsto> [8, 9]]))) = Inr ()"
proof -
  have "encrypt_file sample_aead (replicate 19 3) [1] ''a'' ''b'' ''a'' [''a'' \<mapsto> [8, 9]] =
      (Inr (), snd (encrypt_file sample_aead (replicate 19 3) [1] ''a'' ''b'' ''a'' [''a'' \<mapsto> [8, 9]]))"
    by (simp add: encrypt_file_def copy_frames.simps CHUNK_SIZE_def sample_aead_def)
  from file_roundtrip [OF sample_aead_ok _ _ _ this, where p = "[8, 9]" and outp = "''c''"]
  show ?thesis by (simp add: NONCE_SIZE_def)
qed

text \<open>
  The file form and the in-memory form disagree on the empty file. \<open>encrypt\<close> of an empty file
  writes the nonce and no frame at all, and \<open>decrypt_bytes\<close> rejects that object, although its comment
  says that it reads anything \<open>encrypt\<close> produced.
\<close>

theorem empty_file_not_read_back:
  assumes "aead_ok A" and "length n = NONCE_SIZE" and "files inp = Some []" and "inp \<noteq> outp"
  shows "encrypt_file A n k inp outp a files = (Inr (), files(outp := Some n)) \<and>
    decrypt_bytes A k n a = Inl (ECrypto a)"
proof
  show "encrypt_file A n k inp outp a files = (Inr (), files(outp := Some n))"
    using assms by (simp add: encrypt_file_def)
  have "fr_open A k n 0 True a [] \<noteq> Some q" for q
    using aead_open_length [OF assms(1), of k n 0 True a "[]" q] by (auto simp: TAG_SIZE_def)
  then have "fr_open A k n 0 True a [] = None" by fastforce
  then show "decrypt_bytes A k n a = Inl (ECrypto a)"
    using assms(2) by (simp add: decrypt_bytes_def feed_def feed_loop.simps decryptor_finish_def
        streaming_decryptor_new_def)
qed

theorem empty_file_not_read_back_witness:
  "decrypt_bytes sample_aead [1] (replicate 19 3) ''a'' = Inl (ECrypto ''a'')"
  using empty_file_not_read_back [OF sample_aead_ok, where n = "replicate 19 3" and k = "[1]" and a = "''a''"
      and files = "[''a'' \<mapsto> []]" and inp = "''a''" and outp = "''b''"]
  by (simp add: NONCE_SIZE_def)

end
