(* ===== verification/State_Db.thy ===== *)
theory State_Db
  imports Errors
begin

text \<open>
  The device's state database (\<open>state.rs\<close>): one SQLite file per mirrored root. A table is a finite
  map from its primary key to its row; an SQL statement is the update it makes. Hashes are stored as
  hexadecimal text by the code and as bytes here. I/O errors of SQLite are not modelled; a constraint
  that a statement violates is (\<open>record_upload_part\<close> without its upload).
\<close>

section \<open>Tables\<close>

datatype mode = Local | OnlineOnly | Auto

datatype residency = ResLocal | ResEvicted

record file_row =
  row_size :: int
  row_mtime_ns :: int
  row_content_hash :: hash
  row_last_synced_hash :: "hash option"
  row_updated_at :: int
  row_residency :: int
  row_evicted_at :: "int option"
  row_last_hydrated_at :: "int option"
  row_synced_at :: "int option"

record upload_row =
  up_upload_id :: string
  up_part_size :: int
  up_content_hash :: hash
  up_nonce :: bytes
  up_created_at :: int

record part_row =
  part_etag :: string
  part_checksum :: string

record device_row =
  dev_id :: string
  dev_name :: "string option"
  dev_lamport :: int

record state_db =
  db_version :: nat
  db_files :: "(string, file_row) fmap"
  db_manifest_generation :: "int option"
  db_uploads :: "(string, upload_row) fmap"
  db_upload_parts :: "(string \<times> int, part_row) fmap"
  db_device :: "device_row option"
  db_pins :: "(string, int \<times> int) fmap"

type_synonym 'a db_action = "(state_db, merror, 'a) action"

text \<open>The values the queries build.\<close>

record file_record =
  f_path :: string
  f_size :: u64
  f_mtime_ns :: int
  f_content_hash :: hash
  f_last_synced_hash :: "hash option"
  f_residency :: residency
  f_synced_at :: "int option"
  f_last_hydrated_at :: "int option"

type_synonym baseline = "(string, file_record) fmap"

record completed_upload_part =
  cp_part_number :: int
  cp_etag :: string
  cp_checksum :: string

record pending_upload =
  pu_path :: string
  pu_upload_id :: string
  pu_part_size :: nat
  pu_content_hash :: hash
  pu_nonce :: bytes
  pu_completed_parts :: "completed_upload_part list"

record local_entry =
  le_path :: string
  le_size :: u64
  le_mtime_ns :: int
  le_hash :: hash

definition file_record_synced :: "string \<Rightarrow> u64 \<Rightarrow> hash \<Rightarrow> file_record" where
  "file_record_synced path sz h =
     \<lparr>f_path = path, f_size = sz, f_mtime_ns = 0, f_content_hash = h, f_last_synced_hash = Some h,
      f_residency = ResLocal, f_synced_at = None, f_last_hydrated_at = None\<rparr>"

definition is_evicted :: "file_record \<Rightarrow> bool" where
  "is_evicted r \<longleftrightarrow> f_residency r = ResEvicted"

text \<open>\<open>impl HashCache for Baseline\<close>: a hash is reused while size and modification time are unchanged.\<close>

definition baseline_cached :: "baseline \<Rightarrow> string \<Rightarrow> u64 \<Rightarrow> int \<Rightarrow> hash option" where
  "baseline_cached b path sz mtime_ns = (case fmlookup b path of
      None \<Rightarrow> None
    | Some r \<Rightarrow> if f_size r = sz \<and> f_mtime_ns r = mtime_ns then Some (f_content_hash r) else None)"

section \<open>Conversions to and from SQL integers\<close>

definition i64_max :: int where
  "i64_max = 2 ^ 63 - 1"

text \<open>\<open>i64::try_from(n).unwrap_or(i64::MAX)\<close> and \<open>u64::try_from(i).unwrap_or(0)\<close>.\<close>

definition sat_i64 :: "u64 \<Rightarrow> int" where
  "sat_i64 n = (if uint n \<le> i64_max then uint n else i64_max)"

definition u64_or_zero :: "int \<Rightarrow> u64" where
  "u64_or_zero i = (if 0 \<le> i then word_of_int i else 0)"

definition mode_to_db :: "mode \<Rightarrow> int" where
  "mode_to_db m = (case m of Local \<Rightarrow> 0 | OnlineOnly \<Rightarrow> 1 | Auto \<Rightarrow> 2)"

definition mode_from_db :: "int \<Rightarrow> mode mresult" where
  "mode_from_db v = (if v = 0 then Inr Local else if v = 1 then Inr OnlineOnly
     else if v = 2 then Inr Auto else Inl (EState ''unknown pin mode''))"

section \<open>Opening: the schema migrations\<close>

text \<open>
  Each version's batch is one transaction. Version 3 commits its new table first and inserts the
  device row in a statement of its own, so the two are separate steps.
\<close>

definition db_empty :: state_db where
  "db_empty = \<lparr>db_version = 0, db_files = fmempty, db_manifest_generation = None, db_uploads = fmempty,
     db_upload_parts = fmempty, db_device = None, db_pins = fmempty\<rparr>"

definition migrate_v1 :: "state_db \<Rightarrow> state_db" where
  "migrate_v1 db = db\<lparr>db_files := fmempty, db_manifest_generation := None, db_version := 1\<rparr>"

definition migrate_v2 :: "state_db \<Rightarrow> state_db" where
  "migrate_v2 db = db\<lparr>db_uploads := fmempty, db_upload_parts := fmempty, db_version := 2\<rparr>"

definition migrate_v3_table :: "state_db \<Rightarrow> state_db" where
  "migrate_v3_table db = db\<lparr>db_device := None, db_version := 3\<rparr>"

definition migrate_v3_device :: "string \<Rightarrow> string \<Rightarrow> state_db \<Rightarrow> state_db" where
  "migrate_v3_device device_id hostname db =
     db\<lparr>db_device := Some \<lparr>dev_id = device_id, dev_name = Some hostname, dev_lamport = 0\<rparr>\<rparr>"

definition migrate_v4 :: "state_db \<Rightarrow> state_db" where
  "migrate_v4 db = db\<lparr>db_files := fmmap (\<lambda>r. r\<lparr>row_residency := 0, row_evicted_at := None,
       row_last_hydrated_at := None, row_synced_at := None\<rparr>) (db_files db),
     db_pins := fmempty, db_version := 4\<rparr>"

definition migrate :: "string \<Rightarrow> string \<Rightarrow> state_db \<Rightarrow> state_db" where
  "migrate device_id hostname db =
     (let version = db_version db;
          db1 = (if version < 1 then migrate_v1 db else db);
          db2 = (if version < 2 then migrate_v2 db1 else db1);
          db3 = (if version < 3 then migrate_v3_device device_id hostname (migrate_v3_table db2) else db2)
      in if version < 4 then migrate_v4 db3 else db3)"

section \<open>Statements\<close>

subsection \<open>Files\<close>

definition confirm_sync :: "int \<Rightarrow> string \<Rightarrow> u64 \<Rightarrow> int \<Rightarrow> hash \<Rightarrow> unit db_action" where
  "confirm_sync now path sz mtime_ns h = act_mod (\<lambda>db. db\<lparr>db_files := fmupd path
     \<lparr>row_size = sat_i64 sz, row_mtime_ns = mtime_ns, row_content_hash = h,
      row_last_synced_hash = Some h, row_updated_at = now, row_residency = 0, row_evicted_at = None,
      row_last_hydrated_at = (case fmlookup (db_files db) path of
          None \<Rightarrow> None | Some r \<Rightarrow> row_last_hydrated_at r),
      row_synced_at = Some now\<rparr> (db_files db)\<rparr>)"

definition confirm_placeholder :: "int \<Rightarrow> string \<Rightarrow> u64 \<Rightarrow> hash \<Rightarrow> unit db_action" where
  "confirm_placeholder now path sz h = act_mod (\<lambda>db. db\<lparr>db_files := fmupd path
     (case fmlookup (db_files db) path of
        None \<Rightarrow> \<lparr>row_size = sat_i64 sz, row_mtime_ns = 0, row_content_hash = h,
          row_last_synced_hash = Some h, row_updated_at = now, row_residency = 1,
          row_evicted_at = Some now, row_last_hydrated_at = None, row_synced_at = Some now\<rparr>
      | Some r \<Rightarrow> r\<lparr>row_size := sat_i64 sz, row_content_hash := h, row_last_synced_hash := Some h,
          row_updated_at := now, row_residency := 1,
          row_evicted_at := (case row_evicted_at r of None \<Rightarrow> Some now | Some t \<Rightarrow> Some t),
          row_synced_at := Some now\<rparr>) (db_files db)\<rparr>)"

text \<open>\<open>UPDATE files SET .. WHERE path = ?1\<close>: nothing happens when there is no such row.\<close>

definition update_file :: "string \<Rightarrow> (file_row \<Rightarrow> file_row) \<Rightarrow> unit db_action" where
  "update_file path f = act_mod (\<lambda>db. case fmlookup (db_files db) path of
      None \<Rightarrow> db
    | Some r \<Rightarrow> db\<lparr>db_files := fmupd path (f r) (db_files db)\<rparr>)"

definition mark_evicted :: "int \<Rightarrow> string \<Rightarrow> unit db_action" where
  "mark_evicted now path = update_file path (\<lambda>r. r\<lparr>row_residency := 1, row_evicted_at := Some now\<rparr>)"

definition mark_local :: "string \<Rightarrow> unit db_action" where
  "mark_local path = update_file path (\<lambda>r. r\<lparr>row_residency := 0, row_evicted_at := None\<rparr>)"

definition record_hydrated :: "int \<Rightarrow> string \<Rightarrow> unit db_action" where
  "record_hydrated now path = update_file path (\<lambda>r. r\<lparr>row_last_hydrated_at := Some now\<rparr>)"

definition remove_file_row :: "string \<Rightarrow> unit db_action" where
  "remove_file_row path = act_mod (\<lambda>db. db\<lparr>db_files := fmdrop path (db_files db)\<rparr>)"

definition record_scan_row :: "int \<Rightarrow> local_entry \<Rightarrow> (string, file_row) fmap \<Rightarrow> (string, file_row) fmap" where
  "record_scan_row now e files = fmupd (le_path e)
     (case fmlookup files (le_path e) of
        None \<Rightarrow> \<lparr>row_size = sat_i64 (le_size e), row_mtime_ns = le_mtime_ns e, row_content_hash = le_hash e,
          row_last_synced_hash = None, row_updated_at = now, row_residency = 0, row_evicted_at = None,
          row_last_hydrated_at = None, row_synced_at = None\<rparr>
      | Some r \<Rightarrow> r\<lparr>row_size := sat_i64 (le_size e), row_mtime_ns := le_mtime_ns e,
          row_content_hash := le_hash e, row_updated_at := now, row_residency := 0,
          row_evicted_at := None\<rparr>) files"

definition record_scan :: "int \<Rightarrow> local_entry list \<Rightarrow> unit db_action" where
  "record_scan now entries = act_mod (\<lambda>db. db\<lparr>db_files := fold (record_scan_row now) entries (db_files db)\<rparr>)"

definition record_of_row :: "string \<Rightarrow> file_row \<Rightarrow> file_record" where
  "record_of_row path r =
     \<lparr>f_path = path, f_size = u64_or_zero (row_size r), f_mtime_ns = row_mtime_ns r,
      f_content_hash = row_content_hash r, f_last_synced_hash = row_last_synced_hash r,
      f_residency = (if row_residency r = 1 then ResEvicted else ResLocal),
      f_synced_at = row_synced_at r, f_last_hydrated_at = row_last_hydrated_at r\<rparr>"

definition db_baseline :: "state_db \<Rightarrow> baseline" where
  "db_baseline db = fm_collect (map (\<lambda>(path, r). (path, record_of_row path r)) (fm_entries (db_files db)))"

subsection \<open>Pins\<close>

definition add_pin :: "int \<Rightarrow> string \<Rightarrow> mode \<Rightarrow> unit db_action" where
  "add_pin now pattern m = act_mod (\<lambda>db. db\<lparr>db_pins := fmupd pattern
     (mode_to_db m, (case fmlookup (db_pins db) pattern of None \<Rightarrow> now | Some (_, t) \<Rightarrow> t)) (db_pins db)\<rparr>)"

definition remove_pin :: "string \<Rightarrow> bool db_action" where
  "remove_pin pattern = (\<lambda>db. (Inr (fmlookup (db_pins db) pattern \<noteq> None),
     db\<lparr>db_pins := fmdrop pattern (db_pins db)\<rparr>))"

definition pins :: "state_db \<Rightarrow> (string \<times> mode) list mresult" where
  "pins db = res_collect (\<lambda>(pattern, (m, _)). res_bind (mode_from_db m) (\<lambda>mode. Inr (pattern, mode)))
     (fm_entries (db_pins db))"

subsection \<open>Uploads in progress\<close>

definition record_upload_start :: "int \<Rightarrow> string \<Rightarrow> string \<Rightarrow> nat \<Rightarrow> hash \<Rightarrow> bytes \<Rightarrow> unit db_action" where
  "record_upload_start now path upload_id part_size h nonce = act_mod (\<lambda>db. db\<lparr>db_uploads := fmupd path
     \<lparr>up_upload_id = upload_id, up_part_size = min (int part_size) i64_max, up_content_hash = h,
      up_nonce = nonce, up_created_at = now\<rparr> (db_uploads db)\<rparr>)"

definition record_upload_part :: "string \<Rightarrow> int \<Rightarrow> string \<Rightarrow> string \<Rightarrow> unit db_action" where
  "record_upload_part path part_number etag checksum = (\<lambda>db.
     if fmlookup (db_uploads db) path = None then (Inl (EState path), db)
     else (Inr (), db\<lparr>db_upload_parts := fmupd (path, part_number)
       \<lparr>part_etag = etag, part_checksum = checksum\<rparr> (db_upload_parts db)\<rparr>))"

text \<open>Deleting an upload deletes its parts (\<open>ON DELETE CASCADE\<close>).\<close>

definition clear_upload :: "string \<Rightarrow> unit db_action" where
  "clear_upload path = act_mod (\<lambda>db. if fmlookup (db_uploads db) path = None then db
     else db\<lparr>db_uploads := fmdrop path (db_uploads db),
        db_upload_parts := fmfilter (\<lambda>(p, _). p \<noteq> path) (db_upload_parts db)\<rparr>)"

definition completed_upload_parts :: "string \<Rightarrow> state_db \<Rightarrow> completed_upload_part list" where
  "completed_upload_parts path db =
     map (\<lambda>((_, n), r). \<lparr>cp_part_number = n, cp_etag = part_etag r, cp_checksum = part_checksum r\<rparr>)
       (filter (\<lambda>((p, _), _). p = path) (fm_entries (db_upload_parts db)))"

definition pending_uploads :: "state_db \<Rightarrow> pending_upload list" where
  "pending_uploads db = map (\<lambda>(path, r).
     \<lparr>pu_path = path, pu_upload_id = up_upload_id r, pu_part_size = nat (up_part_size r),
      pu_content_hash = up_content_hash r, pu_nonce = up_nonce r,
      pu_completed_parts = completed_upload_parts path db\<rparr>) (fm_entries (db_uploads db))"

subsection \<open>Clocks and identity\<close>

definition highest_manifest_generation :: "state_db \<Rightarrow> u64" where
  "highest_manifest_generation db = (case db_manifest_generation db of None \<Rightarrow> 0 | Some v \<Rightarrow> u64_or_zero v)"

definition record_manifest_generation :: "u64 \<Rightarrow> unit db_action" where
  "record_manifest_generation g = act_mod (\<lambda>db. db\<lparr>db_manifest_generation := Some (sat_i64 g)\<rparr>)"

text \<open>When the row is missing, the \<open>INSERT\<close> takes the column defaults: a new identity, no name.\<close>

definition record_lamport :: "string \<Rightarrow> u64 \<Rightarrow> unit db_action" where
  "record_lamport fresh_id clock = act_mod (\<lambda>db. db\<lparr>db_device := Some (case db_device db of
      None \<Rightarrow> \<lparr>dev_id = fresh_id, dev_name = None, dev_lamport = sat_i64 clock\<rparr>
    | Some d \<Rightarrow> d\<lparr>dev_lamport := sat_i64 clock\<rparr>)\<rparr>)"

definition get_latest_lamport :: "state_db \<Rightarrow> u64 mresult" where
  "get_latest_lamport db = (case db_device db of
      None \<Rightarrow> Inl (EState ''failed to fetch lamport clock'')
    | Some d \<Rightarrow> Inr (u64_or_zero (dev_lamport d)))"

definition device_name :: "state_db \<Rightarrow> string mresult" where
  "device_name db = (case db_device db of
      None \<Rightarrow> Inl (EState ''failed to fetch device name'')
    | Some d \<Rightarrow> (case dev_name d of None \<Rightarrow> Inl (EState ''device_name'') | Some n \<Rightarrow> Inr n))"

definition device_id :: "state_db \<Rightarrow> string mresult" where
  "device_id db = (case db_device db of
      None \<Rightarrow> Inl (EState ''device_id'') | Some d \<Rightarrow> Inr (dev_id d))"

section \<open>Lemmas\<close>

lemma sat_i64_bounds [simp]: "0 \<le> sat_i64 n" "sat_i64 n \<le> i64_max"
  by (auto simp: sat_i64_def i64_max_def)

lemma u64_of_sat_i64:
  "u64_or_zero (sat_i64 n) = (if uint n \<le> i64_max then n else word_of_int i64_max)"
  by (simp add: sat_i64_def u64_or_zero_def) (simp add: i64_max_def)

lemma mode_db_roundtrip [simp]: "mode_from_db (mode_to_db m) = Inr m"
  by (cases m) (auto simp: mode_from_db_def mode_to_db_def)

lemma baseline_lookup: "fmlookup (db_baseline db) path =
    map_option (record_of_row path) (fmlookup (db_files db) path)"
  by (simp add: db_baseline_def fm_collect_map_lookup)

lemma record_scan_untouched:
  "path \<notin> le_path ` set entries \<Longrightarrow>
    fmlookup (fold (record_scan_row now) entries files) path = fmlookup files path"
  by (induction entries arbitrary: files) (auto simp: record_scan_row_def)

lemma record_scan_last_synced:
  "map_option row_last_synced_hash (fmlookup (fold (record_scan_row now) entries files) path) =
    (case fmlookup files path of
       Some r \<Rightarrow> Some (row_last_synced_hash r)
     | None \<Rightarrow> if path \<in> le_path ` set entries then Some None else None)"
proof (induction entries arbitrary: files)
  case (Cons e es)
  show ?case
    using Cons [of "record_scan_row now e files"]
    by (cases "le_path e = path") (auto simp: record_scan_row_def split: option.splits)
qed (auto split: option.splits)

lemma record_scan_scanned:
  "path \<in> le_path ` set entries \<Longrightarrow>
    \<exists>e r. e \<in> set entries \<and> le_path e = path \<and>
      fmlookup (fold (record_scan_row now) entries files) path = Some r \<and> row_residency r = 0 \<and>
      row_evicted_at r = None \<and>
      row_size r = sat_i64 (le_size e) \<and> row_mtime_ns r = le_mtime_ns e \<and> row_content_hash r = le_hash e"
proof (induction entries arbitrary: files rule: rev_induct)
  case (snoc e es)
  show ?case
  proof (cases "le_path e = path")
    case True
    then show ?thesis
      by (intro exI [of _ e] exI conjI) (auto simp: record_scan_row_def split: option.splits)
  next
    case False
    with snoc.prems have "path \<in> le_path ` set es" by auto
    from snoc.IH [OF this, of files] False show ?thesis by (fastforce simp: record_scan_row_def)
  qed
qed simp

lemma pending_upload_paths: "map pu_path (pending_uploads db) = fm_keys (db_uploads db)"
  by (simp add: pending_uploads_def comp_def case_prod_beta flip: map_fst_fm_entries)

section \<open>Reachable databases\<close>

text \<open>
  The statements that \<open>open\<close> runs on a database of its version. It may stop after any number of them; it
  is \<open>torn\<close> if it stops between the two of the third version.
\<close>

definition migrations :: "string \<Rightarrow> string \<Rightarrow> state_db \<Rightarrow> (state_db \<Rightarrow> state_db) list" where
  "migrations dev host db = drop (db_version db) [migrate_v1, migrate_v2, migrate_v3_table] @
     (if db_version db < 3 then [migrate_v3_device dev host] else []) @ (if db_version db < 4 then [migrate_v4] else [])"

definition open_up_to :: "nat \<Rightarrow> string \<Rightarrow> string \<Rightarrow> state_db \<Rightarrow> state_db" where
  "open_up_to k dev host db = fold (\<lambda>f. f) (take k (migrations dev host db)) db"

definition stops_torn :: "nat \<Rightarrow> state_db \<Rightarrow> bool" where
  "stops_torn k db \<longleftrightarrow> db_version db < 3 \<and> k = 3 - db_version db"

lemma versions: "(v :: nat) < 3 \<longleftrightarrow> v = 0 \<or> v = 1 \<or> v = 2" "v < 4 \<longleftrightarrow> v = 0 \<or> v = 1 \<or> v = 2 \<or> v = 3"
  by linarith+

lemma migrate_all: "migrate dev host db = open_up_to (length (migrations dev host db)) dev host db"
  by (auto simp: migrate_def Let_def open_up_to_def migrations_def versions)

text \<open>
  What becomes of a database: opens that end anywhere, and, once one has run through, any sequence of the
  module's statements. The flag is whether some open was torn.
\<close>

inductive db_reachable :: "bool \<Rightarrow> state_db \<Rightarrow> bool" where
  created: "db_reachable False db_empty"
| opened: "db_reachable torn db \<Longrightarrow> db_reachable (torn \<or> stops_torn k db) (open_up_to k dev host db)"
| confirmed: "db_reachable torn db \<Longrightarrow> db_version db = 4 \<Longrightarrow> db_reachable torn (snd (confirm_sync now path sz mt h db))"
| placeholder: "db_reachable torn db \<Longrightarrow> db_version db = 4 \<Longrightarrow> db_reachable torn (snd (confirm_placeholder now path sz h db))"
| evicted: "db_reachable torn db \<Longrightarrow> db_version db = 4 \<Longrightarrow> db_reachable torn (snd (mark_evicted now path db))"
| marked_local: "db_reachable torn db \<Longrightarrow> db_version db = 4 \<Longrightarrow> db_reachable torn (snd (mark_local path db))"
| hydrated: "db_reachable torn db \<Longrightarrow> db_version db = 4 \<Longrightarrow> db_reachable torn (snd (record_hydrated now path db))"
| removed: "db_reachable torn db \<Longrightarrow> db_version db = 4 \<Longrightarrow> db_reachable torn (snd (remove_file_row path db))"
| scanned: "db_reachable torn db \<Longrightarrow> db_version db = 4 \<Longrightarrow> db_reachable torn (snd (record_scan now es db))"
| pinned: "db_reachable torn db \<Longrightarrow> db_version db = 4 \<Longrightarrow> db_reachable torn (snd (add_pin now pattern m db))"
| unpinned: "db_reachable torn db \<Longrightarrow> db_version db = 4 \<Longrightarrow> db_reachable torn (snd (remove_pin pattern db))"
| upload_started: "db_reachable torn db \<Longrightarrow> db_version db = 4 \<Longrightarrow> db_reachable torn (snd (record_upload_start now path uid ps h nonce db))"
| upload_part: "db_reachable torn db \<Longrightarrow> db_version db = 4 \<Longrightarrow> db_reachable torn (snd (record_upload_part path n etag ck db))"
| upload_cleared: "db_reachable torn db \<Longrightarrow> db_version db = 4 \<Longrightarrow> db_reachable torn (snd (clear_upload path db))"
| generation: "db_reachable torn db \<Longrightarrow> db_version db = 4 \<Longrightarrow> db_reachable torn (snd (record_manifest_generation g db))"
| lamport: "db_reachable torn db \<Longrightarrow> db_version db = 4 \<Longrightarrow> db_reachable torn (snd (record_lamport fid clock db))"

lemma db_reachable_migrated: "db_reachable False (migrate dev host db_empty)"
proof -
  have "\<not> stops_torn (length (migrations dev host db_empty)) db_empty" by (simp add: stops_torn_def migrations_def db_empty_def)
  with db_reachable.opened [OF db_reachable.created, of "length (migrations dev host db_empty)" dev host] show ?thesis
    by (simp add: migrate_all)
qed

definition row_ok :: "file_row \<Rightarrow> bool" where
  "row_ok r \<longleftrightarrow> 0 \<le> row_size r \<and> row_size r \<le> i64_max \<and> row_residency r \<in> {0, 1} \<and>
     (row_residency r = 1 \<longleftrightarrow> row_evicted_at r \<noteq> None)"

definition device_ok :: "device_row \<Rightarrow> bool" where
  "device_ok d \<longleftrightarrow> dev_name d \<noteq> None \<and> 0 \<le> dev_lamport d \<and> dev_lamport d \<le> i64_max"

definition db_ok :: "bool \<Rightarrow> state_db \<Rightarrow> bool" where
  "db_ok torn db \<longleftrightarrow> db_version db \<le> 4 \<and>
     (db_version db < 4 \<longrightarrow> db_files db = fmempty \<and> db_uploads db = fmempty \<and> db_upload_parts db = fmempty \<and> db_pins db = fmempty \<and>
        db_manifest_generation db = None) \<and>
     (\<forall>path r. fmlookup (db_files db) path = Some r \<longrightarrow> row_ok r) \<and>
     (\<forall>path n r. fmlookup (db_upload_parts db) (path, n) = Some r \<longrightarrow> fmlookup (db_uploads db) path \<noteq> None) \<and>
     (\<forall>pattern m t. fmlookup (db_pins db) pattern = Some (m, t) \<longrightarrow> m \<in> {0, 1, 2}) \<and>
     (\<forall>v. db_manifest_generation db = Some v \<longrightarrow> 0 \<le> v \<and> v \<le> i64_max) \<and>
     (3 \<le> db_version db \<and> \<not> torn \<longrightarrow> (\<exists>d. db_device db = Some d \<and> device_ok d))"

lemma db_ok_opened:
  assumes "db_ok torn db"
  shows "db_ok (torn \<or> stops_torn k db) (open_up_to k dev host db)"
proof -
  note step = migrate_v1_def migrate_v2_def migrate_v3_table_def migrate_v3_device_def migrate_v4_def
  have v: "db_version db = 0 \<or> db_version db = 1 \<or> db_version db = 2 \<or> db_version db = 3 \<or> db_version db = 4"
    using assms by (auto simp: db_ok_def)
  have k: "k = 0 \<or> k = 1 \<or> k = 2 \<or> k = 3 \<or> k = 4 \<or> 5 \<le> k" by linarith
  show ?thesis using v
  proof (elim disjE)
    assume "db_version db = 0"
    then show ?thesis using assms k
      by (elim disjE) (simp_all add: open_up_to_def migrations_def stops_torn_def db_ok_def device_ok_def step i64_max_def
        numeral_eq_Suc)
  next
    assume "db_version db = 1"
    then show ?thesis using assms k
      by (elim disjE) (simp_all add: open_up_to_def migrations_def stops_torn_def db_ok_def device_ok_def step i64_max_def
        numeral_eq_Suc)
  next
    assume "db_version db = 2"
    then show ?thesis using assms k
      by (elim disjE) (simp_all add: open_up_to_def migrations_def stops_torn_def db_ok_def device_ok_def step i64_max_def
        numeral_eq_Suc)
  next
    assume "db_version db = 3"
    then show ?thesis using assms
      by (cases k) (auto simp: open_up_to_def migrations_def stops_torn_def db_ok_def step)
  next
    assume "db_version db = 4"
    then show ?thesis using assms by (auto simp: open_up_to_def migrations_def stops_torn_def)
  qed
qed

lemma row_ok_scan: "(\<forall>path r. fmlookup files path = Some r \<longrightarrow> row_ok r) \<Longrightarrow>
    fmlookup (fold (record_scan_row now) es files) path = Some r \<Longrightarrow> row_ok r"
proof (induction es arbitrary: files)
  case (Cons e es)
  have "\<forall>path r. fmlookup (record_scan_row now e files) path = Some r \<longrightarrow> row_ok r"
    using Cons.prems(1) by (auto simp: record_scan_row_def row_ok_def split: option.splits if_splits)
  with Cons show ?case by auto
qed auto

lemma db_ok_fmupd: "db_ok torn db \<Longrightarrow> db_version db = 4 \<Longrightarrow> row_ok r \<Longrightarrow> db_ok torn (db\<lparr>db_files := fmupd path r (db_files db)\<rparr>)"
  by (simp add: db_ok_def)

lemma db_ok_row: "db_ok torn db \<Longrightarrow> fmlookup (db_files db) path = Some r \<Longrightarrow> row_ok r"
  by (simp add: db_ok_def)

lemma db_ok_update_file:
  assumes "db_ok torn db" and "db_version db = 4" and "\<And>r. row_ok r \<Longrightarrow> row_ok (f r)"
  shows "db_ok torn (snd (update_file path f db))"
  using assms by (auto simp: db_ok_def update_file_def split: option.splits)

lemma db_reachable_ok: "db_reachable torn db \<Longrightarrow> db_ok torn db"
proof (induction rule: db_reachable.induct)
  case created
  then show ?case by (simp add: db_ok_def db_empty_def)
next
  case (opened torn db k dev host)
  then show ?case by (intro db_ok_opened)
next
  case (scanned torn db now es)
  then have "\<forall>path r. fmlookup (db_files db) path = Some r \<longrightarrow> row_ok r" by (simp add: db_ok_def)
  from row_ok_scan [OF this] scanned show ?case by (simp add: db_ok_def record_scan_def)
next
  case (evicted torn db now path)
  then show ?case by (auto simp: mark_evicted_def row_ok_def intro!: db_ok_update_file)
next
  case (marked_local torn db path)
  then show ?case by (auto simp: mark_local_def row_ok_def intro!: db_ok_update_file)
next
  case (hydrated torn db now path)
  then show ?case by (auto simp: record_hydrated_def row_ok_def intro!: db_ok_update_file)
next
  case (pinned torn db now pattern m)
  then show ?case by (auto simp: db_ok_def add_pin_def mode_to_db_def split: mode.splits)
next
  case (confirmed torn db now path sz mt h)
  then show ?case by (auto simp: confirm_sync_def row_ok_def intro!: db_ok_fmupd)
next
  case (placeholder torn db now path sz h)
  then show ?case
    by (auto simp: confirm_placeholder_def row_ok_def intro!: db_ok_fmupd split: option.splits
        dest: db_ok_row)
next
  case (upload_part torn db path n etag ck)
  then show ?case by (simp add: db_ok_def record_upload_part_def) blast
next
  case (upload_cleared torn db path)
  then show ?case by (fastforce simp: db_ok_def clear_upload_def)
qed (auto simp: db_ok_def remove_file_row_def remove_pin_def
      record_upload_start_def record_manifest_generation_def record_lamport_def device_ok_def split: option.splits if_splits)

lemma highest_generation_bound:
  assumes "db_reachable torn db" shows "uint (highest_manifest_generation db) \<le> i64_max"
proof (cases "db_manifest_generation db")
  case (Some v)
  with db_reachable_ok [OF assms] have "0 \<le> v" "v \<le> i64_max" by (auto simp: db_ok_def)
  with Some show ?thesis
    by (simp add: highest_manifest_generation_def u64_or_zero_def i64_max_def take_bit_int_eq_self unsigned_of_int)
qed (simp add: highest_manifest_generation_def i64_max_def)

lemma sat_i64_above: "uint h \<le> i64_max \<Longrightarrow> h \<le> g \<Longrightarrow> h \<le> u64_or_zero (sat_i64 g)"
  by (simp add: u64_of_sat_i64 i64_max_def word_le_def)

section \<open>Properties\<close>

text \<open>
  C25: Whatever opens, interrupted after any statement, and whatever statements after a complete one led to
  a database, a complete open of it makes its queries succeed: the pins decode, every recorded part
  belongs to a tracked upload, a row is marked evicted exactly when it has an eviction time, and the
  device has a clock and a name, unless some open stopped between the two statements of the third version.
\<close>

theorem reachable_queries_succeed:
  assumes "db_reachable torn db'" and "db = migrate dev host db'"
  shows "db_version db = 4 \<and> (\<exists>ps. pins db = Inr ps \<and> map fst ps = fm_keys (db_pins db)) \<and>
    (\<forall>path. completed_upload_parts path db \<noteq> [] \<longrightarrow> (\<exists>u \<in> set (pending_uploads db). pu_path u = path)) \<and>
    (\<forall>path r. fmlookup (db_files db) path = Some r \<longrightarrow> (row_residency r = 1 \<longleftrightarrow> row_evicted_at r \<noteq> None)) \<and>
    (\<not> torn \<longrightarrow> (\<exists>c. get_latest_lamport db = Inr c) \<and> (\<exists>n. device_name db = Inr n))"
proof -
  have "\<not> stops_torn (length (migrations dev host db')) db'" by (auto simp: stops_torn_def migrations_def)
  then have ok: "db_ok torn db"
    using db_ok_opened [OF db_reachable_ok [OF assms(1)], of "length (migrations dev host db')" dev host]
    by (simp add: assms(2) migrate_all)
  have "db_version db' \<le> 4" using db_reachable_ok [OF assms(1)] by (simp add: db_ok_def)
  then have version: "db_version db = 4" by (auto simp: assms(2) migrate_def Let_def migrate_v4_def)
  let ?g = "\<lambda>(p, (m, t)). (p, case mode_from_db m of Inr x \<Rightarrow> x | Inl _ \<Rightarrow> Auto)"
  have "pins db = Inr (map ?g (fm_entries (db_pins db)))"
    unfolding pins_def
  proof (rule res_collect_map)
    fix x
    assume x: "x \<in> set (fm_entries (db_pins db))"
    obtain p m t where "x = (p, m, t)" by (cases x)
    with x have "fmlookup (db_pins db) p = Some (m, t)" by (simp add: fm_entries_iff)
    with ok have "m \<in> {0, 1, 2}" unfolding db_ok_def by blast
    with \<open>x = (p, m, t)\<close> show "(case x of (pattern, m, _) \<Rightarrow>
        res_bind (mode_from_db m) (\<lambda>mode. Inr (pattern, mode))) = Inr (?g x)"
      by (auto simp: mode_from_db_def)
  qed
  moreover have "map fst (map ?g (fm_entries (db_pins db))) = fm_keys (db_pins db)"
    by (simp add: comp_def case_prod_beta flip: map_fst_fm_entries)
  ultimately have pins: "\<exists>ps. pins db = Inr ps \<and> map fst ps = fm_keys (db_pins db)" by blast
  have device: "(\<exists>c. get_latest_lamport db = Inr c) \<and> (\<exists>n. device_name db = Inr n)" if "\<not> torn"
    using ok that version by (auto simp: db_ok_def get_latest_lamport_def device_name_def device_ok_def)
  have parts: "\<exists>u \<in> set (pending_uploads db). pu_path u = path" if "completed_upload_parts path db \<noteq> []" for path
  proof -
    from that obtain n r where "((path, n), r) \<in> set (fm_entries (db_upload_parts db))"
      by (auto simp: completed_upload_parts_def filter_empty_conv)
    with ok obtain u where "fmlookup (db_uploads db) path = Some u"
      by (fastforce simp: db_ok_def fm_entries_iff)
    then have "(path, u) \<in> set (fm_entries (db_uploads db))" by (simp add: fm_entries_iff)
    then show ?thesis by (force simp: pending_uploads_def)
  qed
  have rows: "row_residency r = 1 \<longleftrightarrow> row_evicted_at r \<noteq> None" if "fmlookup (db_files db) path = Some r" for path r
    using db_ok_row [OF ok that] by (auto simp: row_ok_def)
  show ?thesis using version pins device parts rows by blast
qed

text \<open>An open that stops after the first version, one that runs through, and two statements.\<close>

theorem reachable_queries_succeed_witness:
  "\<exists>c. get_latest_lamport (migrate ''d'' ''h'' (snd (mark_evicted 5 ''f'' (snd (confirm_sync 1 ''f'' 3 2 [9]
     (open_up_to 9 ''d'' ''h'' (open_up_to 1 ''d'' ''h'' db_empty))))))) = Inr c"
proof -
  let ?a = "open_up_to 1 ''d'' ''h'' db_empty"
  let ?b = "open_up_to 9 ''d'' ''h'' ?a"
  have a: "?a = migrate_v1 db_empty" by (simp add: open_up_to_def migrations_def db_empty_def)
  have "db_reachable False ?a" using db_reachable.opened [OF db_reachable.created, of 1 "''d''" "''h''"] by (simp add: stops_torn_def db_empty_def)
  from db_reachable.opened [OF this, of 9 "''d''" "''h''"] have b: "db_reachable False ?b"
    unfolding a by (simp add: stops_torn_def migrate_v1_def db_empty_def)
  have v: "db_version ?b = 4"
    unfolding a by (simp add: db_empty_def open_up_to_def migrations_def migrate_v1_def migrate_v2_def migrate_v3_table_def migrate_v3_device_def migrate_v4_def)
  have "db_reachable False (snd (mark_evicted 5 ''f'' (snd (confirm_sync 1 ''f'' 3 2 [9] ?b))))"
    by (rule db_reachable.evicted [OF db_reachable.confirmed [OF b v]]) (use v in \<open>simp add: confirm_sync_def\<close>)
  from reachable_queries_succeed [OF this refl] show ?thesis by blast
qed

text \<open>
  A scan never advances the sync baseline. After \<open>record_scan\<close> every path keeps the
  \<open>last_synced_hash\<close> it had (a path seen for the first time gets none), a path outside the scan keeps
  its whole row, and a scanned path's row shows what the scan saw and is local.
\<close>

theorem record_scan_keeps_baseline:
  assumes "record_scan now entries db = (Inr (), db')"
  shows "map_option row_last_synced_hash (fmlookup (db_files db') path) =
      (case fmlookup (db_files db) path of
         Some r \<Rightarrow> Some (row_last_synced_hash r)
       | None \<Rightarrow> if path \<in> le_path ` set entries then Some None else None) \<and>
    (if path \<in> le_path ` set entries
     then \<exists>e \<in> set entries. le_path e = path \<and>
       (\<exists>r. fmlookup (db_baseline db') path = Some r \<and> f_content_hash r = le_hash e \<and> \<not> is_evicted r)
     else fmlookup (db_files db') path = fmlookup (db_files db) path)"
proof -
  have db': "db_files db' = fold (record_scan_row now) entries (db_files db)"
    using assms by (auto simp: record_scan_def)
  show ?thesis
  proof (cases "path \<in> le_path ` set entries")
    case True
    from record_scan_scanned [OF this, of now "db_files db"] obtain e r
      where "e \<in> set entries" "le_path e = path" "fmlookup (db_files db') path = Some r"
        "row_residency r = 0" "row_content_hash r = le_hash e"
      unfolding db' by blast
    moreover from this have "fmlookup (db_baseline db') path = Some (record_of_row path r)"
      by (simp add: baseline_lookup)
    moreover from calculation have "f_content_hash (record_of_row path r) = le_hash e"
      "\<not> is_evicted (record_of_row path r)"
      by (simp_all add: record_of_row_def is_evicted_def)
    ultimately have "\<exists>e \<in> set entries. le_path e = path \<and>
       (\<exists>r. fmlookup (db_baseline db') path = Some r \<and> f_content_hash r = le_hash e \<and> \<not> is_evicted r)"
      by blast
    then show ?thesis
      unfolding if_P [OF True] db' record_scan_last_synced using True by (simp split: option.splits)
  next
    case False
    then show ?thesis by (simp add: db' record_scan_untouched split: option.splits)
  qed
qed

theorem record_scan_keeps_baseline_witness:
  "map_option row_last_synced_hash (fmlookup (db_files (snd (record_scan 7
      [\<lparr>le_path = ''a'', le_size = 3, le_mtime_ns = 1, le_hash = [2]\<rparr>] db_empty))) ''a'') = Some None"
proof -
  let ?es = "[\<lparr>le_path = ''a'', le_size = 3, le_mtime_ns = 1, le_hash = [2]\<rparr>]"
  have "record_scan 7 ?es db_empty = (Inr (), snd (record_scan 7 ?es db_empty))"
    by (simp add: record_scan_def)
  from record_scan_keeps_baseline [OF this, of "''a''"] show ?thesis by (simp add: db_empty_def)
qed

text \<open>
  The Lamport clock and the manifest generation are read back as they were recorded, up to the
  largest signed 64-bit integer, at which they saturate; recording a clock keeps the device's identity.
\<close>

theorem clocks_round_trip:
  assumes "record_lamport fresh_id clock db = (Inr (), db1)" and "record_manifest_generation g db1 = (Inr (), db2)"
  shows "get_latest_lamport db2 = Inr (if uint clock \<le> i64_max then clock else word_of_int i64_max) \<and>
    highest_manifest_generation db2 = (if uint g \<le> i64_max then g else word_of_int i64_max) \<and>
    (case db_device db of
       None \<Rightarrow> device_id db2 = Inr fresh_id
     | Some d \<Rightarrow> device_id db2 = device_id db \<and> device_name db2 = device_name db)"
  using assms
  by (auto simp: record_lamport_def record_manifest_generation_def get_latest_lamport_def
      highest_manifest_generation_def u64_of_sat_i64 device_id_def device_name_def split: option.splits)

theorem clocks_round_trip_witness:
  "get_latest_lamport (snd (record_manifest_generation 3 (snd (record_lamport ''x'' 9 db_empty)))) = Inr 9"
proof -
  have "record_lamport ''x'' 9 db_empty = (Inr (), snd (record_lamport ''x'' 9 db_empty))"
    and "record_manifest_generation 3 (snd (record_lamport ''x'' 9 db_empty)) =
      (Inr (), snd (record_manifest_generation 3 (snd (record_lamport ''x'' 9 db_empty))))"
    by (simp_all add: record_lamport_def record_manifest_generation_def)
  from clocks_round_trip [OF this] show ?thesis by (simp add: i64_max_def)
qed

text \<open>
  An open that stops between the two statements of the third migration (after its table is
  committed, before the device row is inserted) leaves a database that every later open accepts and
  that never has a clock or a name: the migration is not repeated.
\<close>

theorem interrupted_migration_never_repaired:
  assumes "db_version db < 3"
  shows "get_latest_lamport (migrate dev host (migrate_v3_table db)) = Inl (EState ''failed to fetch lamport clock'') \<and>
    device_name (migrate dev host (migrate_v3_table db)) = Inl (EState ''failed to fetch device name'')"
  by (simp_all add: migrate_def migrate_v3_table_def migrate_v4_def get_latest_lamport_def device_name_def)

theorem interrupted_migration_never_repaired_witness:
  "db_version db_empty < 3 \<and> device_name (migrate ''d'' ''h'' (migrate_v3_table db_empty)) =
     Inl (EState ''failed to fetch device name'')"
  using interrupted_migration_never_repaired [of db_empty "''d''" "''h''"] by (simp add: db_empty_def)

text \<open>
  A resumed upload sees exactly the parts that were confirmed, in order of their numbers, and an
  upload that was cleared is gone with all its parts.
\<close>

theorem cleared_upload_is_gone:
  assumes "db_reachable torn db" and "clear_upload path db = (Inr (), db')"
  shows "completed_upload_parts path db' = [] \<and> path \<notin> pu_path ` set (pending_uploads db') \<and>
    (\<forall>p. p \<noteq> path \<longrightarrow> completed_upload_parts p db' = completed_upload_parts p db)"
proof -
  have ok: "db_ok torn db" using assms(1) by (rule db_reachable_ok)
  show ?thesis
  proof (cases "fmlookup (db_uploads db) path")
    case None
    then have none: "fmlookup (db_upload_parts db) (path, n) = None" for n
      using ok by (fastforce simp: db_ok_def)
    have "db' = db" using None assms(2) by (simp add: clear_upload_def)
    with none None show ?thesis
      by (auto simp: completed_upload_parts_def pending_uploads_def filter_empty_conv fm_entries_iff)
  next
    case (Some u)
    with assms(2) have db': "db_uploads db' = fmdrop path (db_uploads db)"
        "db_upload_parts db' = fmfilter (\<lambda>(p, _). p \<noteq> path) (db_upload_parts db)"
      by (auto simp: clear_upload_def)
    have "path \<notin> set (map pu_path (pending_uploads db'))"
      unfolding pending_upload_paths by (simp add: db')
    with db' show ?thesis
      by (auto simp: completed_upload_parts_def fm_entries_fmfilter filter_empty_conv
          case_prod_beta intro!: arg_cong [where f = "map _"] filter_cong)
  qed
qed

theorem cleared_upload_is_gone_witness:
  "completed_upload_parts ''f'' (snd (clear_upload ''f'' (snd (record_upload_part ''f'' 1 ''e'' ''c''
     (snd (record_upload_start 0 ''f'' ''u'' 8 [1] [2] (migrate ''d'' ''h'' db_empty))))))) = []"
proof -
  let ?db = "snd (record_upload_part ''f'' 1 ''e'' ''c''
     (snd (record_upload_start 0 ''f'' ''u'' 8 [1] [2] (migrate ''d'' ''h'' db_empty))))"
  have v: "db_version (migrate ''d'' ''h'' db_empty) = 4"
    by (simp add: migrate_def Let_def migrate_v4_def db_empty_def)
  have "db_reachable False ?db"
    by (rule db_reachable.upload_part [OF db_reachable.upload_started [OF db_reachable_migrated v]]) (simp add: record_upload_start_def v)
  moreover have "clear_upload ''f'' ?db = (Inr (), snd (clear_upload ''f'' ?db))"
    by (simp add: clear_upload_def)
  ultimately show ?thesis using cleared_upload_is_gone by blast
qed

end
