(* ===== verification/Residency.thy ===== *)
theory Residency
  imports State_Db
begin

text \<open>
  Residency policy (\<open>residency.rs\<close>): which files keep their bytes on this device. Glob matching is the
  crate \<open>globset\<close>, a parameter: whether a pattern compiles and which paths it matches.
\<close>

record globs =
  glob_ok :: "string \<Rightarrow> bool"
  glob_match :: "string \<Rightarrow> string \<Rightarrow> bool"

definition mode_name :: "mode \<Rightarrow> string" where
  "mode_name m = (case m of Local \<Rightarrow> ''local'' | OnlineOnly \<Rightarrow> ''online-only'' | Auto \<Rightarrow> ''auto'')"

definition mode_parse :: "string \<Rightarrow> mode mresult" where
  "mode_parse s = (if s = ''local'' then Inr Local else if s = ''online-only'' then Inr OnlineOnly
     else if s = ''auto'' then Inr Auto else Inl (EConfig s))"

type_synonym rule = "string \<times> mode"

definition rule_new :: "globs \<Rightarrow> string \<Rightarrow> mode \<Rightarrow> rule mresult" where
  "rule_new g pattern m = (if glob_ok g pattern then Inr (pattern, m) else Inl (EConfig pattern))"

record policy =
  pol_pins :: "rule list"
  pol_config :: "rule list"
  pol_default_online_only :: bool

definition policy_default :: policy where
  "policy_default = \<lparr>pol_pins = [], pol_config = [], pol_default_online_only = False\<rparr>"

definition policy_new ::
    "globs \<Rightarrow> (string \<times> mode) list \<Rightarrow> string list \<Rightarrow> string list \<Rightarrow> bool \<Rightarrow> policy mresult" where
  "policy_new g pin_rules local_globs online_only_globs default_online_only =
     res_bind (res_collect (\<lambda>(pattern, m). rule_new g pattern m) pin_rules) (\<lambda>ps.
     res_bind (res_collect (\<lambda>(pattern, m). rule_new g pattern m)
         (map (\<lambda>p. (p, Local)) local_globs @ map (\<lambda>p. (p, OnlineOnly)) online_only_globs)) (\<lambda>cs.
     Inr \<lparr>pol_pins = ps, pol_config = cs, pol_default_online_only = default_online_only\<rparr>))"

text \<open>\<open>Iterator::max_by_key\<close>: of several greatest elements, the last.\<close>

fun max_by_key :: "('a \<Rightarrow> 'b::linorder) \<Rightarrow> 'a list \<Rightarrow> 'a option" where
  "max_by_key f [] = None"
| "max_by_key f (x # xs) = (case max_by_key f xs of
      None \<Rightarrow> Some x
    | Some y \<Rightarrow> if f x \<le> f y then Some y else Some x)"

definition policy_mode :: "globs \<Rightarrow> policy \<Rightarrow> string \<Rightarrow> mode" where
  "policy_mode g pol path =
     (case max_by_key (\<lambda>(pattern, _). length pattern) (filter (\<lambda>(pattern, _). glob_match g pattern path) (pol_pins pol)) of
        Some (_, m) \<Rightarrow> m
      | None \<Rightarrow> (case find (\<lambda>(pattern, _). glob_match g pattern path) (pol_config pol) of
            Some (_, m) \<Rightarrow> m
          | None \<Rightarrow> Auto))"

definition arrives_online_only :: "globs \<Rightarrow> policy \<Rightarrow> string \<Rightarrow> bool" where
  "arrives_online_only g pol path = (case policy_mode g pol path of
      Local \<Rightarrow> False | OnlineOnly \<Rightarrow> True | Auto \<Rightarrow> pol_default_online_only pol)"

definition trim_end_slashes :: "string \<Rightarrow> string" where
  "trim_end_slashes s = rev (dropWhile (\<lambda>c. c = CHR ''/'') (rev s))"

definition select :: "globs \<Rightarrow> string list \<Rightarrow> string list \<Rightarrow> string list mresult" where
  "select g patterns candidates = res_bind
     (res_collect (\<lambda>p. res_bind (rule_new g p Auto) (\<lambda>_. Inr (p, trim_end_slashes p @ ''/''))) patterns)
     (\<lambda>rules. Inr (btree_set ((filter (\<lambda>path.
         list_ex (\<lambda>(exact, dir). path = exact \<or> prefix dir path \<or> glob_match g exact path) rules) candidates))))"

section \<open>Lemmas\<close>

lemma max_by_key_SomeE:
  assumes "max_by_key f xs = Some x"
  obtains "x \<in> set xs" "\<And>y. y \<in> set xs \<Longrightarrow> f y \<le> f x"
proof -
  have "x \<in> set xs \<and> (\<forall>y \<in> set xs. f y \<le> f x)"
    using assms
  proof (induction xs arbitrary: x)
    case (Cons a xs)
    show ?case
    proof (cases "max_by_key f xs")
      case None
      then have "xs = []" by (cases xs) (auto split: option.splits if_splits)
      with None Cons.prems show ?thesis by simp
    next
      case (Some y)
      with Cons.IH [OF this] Cons.prems show ?thesis by (fastforce split: if_splits)
    qed
  qed simp
  then show thesis using that by blast
qed

lemma max_by_key_None [simp]: "max_by_key f xs = None \<longleftrightarrow> xs = []"
  by (cases xs) (auto split: option.splits)

lemma mode_parse_name [simp]: "mode_parse (mode_name m) = Inr m"
  by (cases m) (simp_all add: mode_parse_def mode_name_def)

lemma policy_mode_default [simp]: "policy_mode g policy_default path = Auto"
  by (simp add: policy_mode_def policy_default_def)

lemma policy_mode_unpinned:
  assumes "\<And>pattern m. (pattern, m) \<in> set (pol_pins pol) \<Longrightarrow> \<not> glob_match g pattern path"
  shows "policy_mode g pol path = (case find (\<lambda>(pattern, _). glob_match g pattern path) (pol_config pol) of
      Some (_, m) \<Rightarrow> m | None \<Rightarrow> Auto)"
proof -
  have "filter (\<lambda>(pattern, _). glob_match g pattern path) (pol_pins pol) = []"
    using assms by (auto simp: filter_empty_conv)
  then show ?thesis by (simp add: policy_mode_def)
qed

lemma select_set:
  assumes "select g patterns candidates = Inr ps"
  shows "path \<in> set ps \<longleftrightarrow> path \<in> set candidates \<and>
      (\<exists>p \<in> set patterns. path = p \<or> prefix (trim_end_slashes p @ ''/'') path \<or> glob_match g p path)"
    and "sorted ps" and "distinct ps"
proof -
  from assms obtain rules where
    r: "list_all2 (\<lambda>x y. res_bind (rule_new g x Auto) (\<lambda>_. Inr (x, trim_end_slashes x @ ''/'')) = Inr y) patterns rules"
    and ps: "ps = btree_set ((filter (\<lambda>path.
         list_ex (\<lambda>(exact, dir). path = exact \<or> prefix dir path \<or> glob_match g exact path) rules) candidates))"
    by (auto simp: select_def res_bind_ok res_collect_ok)
  from r have "rules = map (\<lambda>p. (p, trim_end_slashes p @ ''/'')) patterns"
    by (induction rule: list_all2_induct) (auto simp: res_bind_ok)
  with ps show "path \<in> set ps \<longleftrightarrow> path \<in> set candidates \<and>
      (\<exists>p \<in> set patterns. path = p \<or> prefix (trim_end_slashes p @ ''/'') path \<or> glob_match g p path)"
    by (auto simp: list_ex_iff)
  show "sorted ps" "distinct ps"
    unfolding ps by simp_all
qed

section \<open>Properties\<close>

text \<open>
  The policy's precedence. When a pin matches, the mode is that of a matching pin whose pattern
  is the longest of those that match, whatever the configuration says; when none does, the first
  matching configured glob decides, and \<open>local\<close> globs come before \<open>online_only\<close> ones; otherwise the mode
  is \<open>Auto\<close>.
\<close>

theorem policy_precedence:
  assumes "policy_new g pin_rules local_globs online_only_globs d = Inr pol"
  shows "(if \<exists>(pattern, m) \<in> set pin_rules. glob_match g pattern path
    then \<exists>pattern. (pattern, policy_mode g pol path) \<in> set pin_rules \<and> glob_match g pattern path \<and>
      (\<forall>(q, m) \<in> set pin_rules. glob_match g q path \<longrightarrow> length q \<le> length pattern)
    else policy_mode g pol path =
      (if \<exists>q \<in> set local_globs. glob_match g q path then Local
       else if \<exists>q \<in> set online_only_globs. glob_match g q path then OnlineOnly else Auto))"
proof -
  have collect: "res_collect (\<lambda>(pattern, m). rule_new g pattern m) rs = Inr ps \<Longrightarrow> ps = rs" for rs ps
    unfolding res_collect_ok by (induction rule: list_all2_induct) (auto simp: rule_new_def split: if_splits)
  from assms have pins: "pol_pins pol = pin_rules"
    and conf: "pol_config pol = map (\<lambda>p. (p, Local)) local_globs @ map (\<lambda>p. (p, OnlineOnly)) online_only_globs"
    by (auto simp: policy_new_def res_bind_ok dest!: collect)
  let ?match = "\<lambda>(pattern, _ :: mode). glob_match g pattern path"
  show ?thesis
  proof (cases "\<exists>(pattern, m) \<in> set pin_rules. glob_match g pattern path")
    case True
    then have "filter ?match pin_rules \<noteq> []" by (auto simp: filter_empty_conv)
    then obtain pattern m where mx: "max_by_key (\<lambda>(pattern, _). length pattern) (filter ?match pin_rules) = Some (pattern, m)"
      by (metis max_by_key_None not_None_eq surj_pair)
    from max_by_key_SomeE [OF this]
    have "(pattern, m) \<in> set (filter ?match pin_rules)"
      and "\<And>q. q \<in> set (filter ?match pin_rules) \<Longrightarrow> (\<lambda>(p, _). length p) q \<le> length pattern"
      by auto
    with mx True show ?thesis by (auto simp: policy_mode_def pins intro!: exI [of _ pattern])
  next
    case False
    then have "filter ?match pin_rules = []" by (auto simp: filter_empty_conv)
    moreover have "find ?match (map (\<lambda>p. (p, m)) gs) = map_option (\<lambda>p. (p, m)) (find (\<lambda>p. glob_match g p path) gs)" for m gs
      by (induction gs) auto
    moreover have "find P (xs @ ys) = (case find P xs of None \<Rightarrow> find P ys | Some x \<Rightarrow> Some x)"
      for P and xs ys :: "rule list"
      by (induction xs) auto
    ultimately have "policy_mode g pol path =
      (if \<exists>q \<in> set local_globs. glob_match g q path then Local
       else if \<exists>q \<in> set online_only_globs. glob_match g q path then OnlineOnly else Auto)"
      by (auto simp: policy_mode_def pins conf find_None_iff find_Some_iff split: option.splits)
    with False show ?thesis by (simp only: if_False)
  qed
qed

definition sample_globs :: globs where
  "sample_globs = \<lparr>glob_ok = (\<lambda>p. p \<noteq> []), glob_match = prefix\<rparr>"

theorem policy_precedence_witness:
  "\<exists>pol. policy_new sample_globs [(''a'', Local), (''ab'', OnlineOnly)] [''a''] [] False = Inr pol \<and>
    policy_mode sample_globs pol ''abc'' = OnlineOnly"
proof -
  let ?pol = "\<lparr>pol_pins = [(''a'', Local), (''ab'', OnlineOnly)], pol_config = [(''a'', Local)],
     pol_default_online_only = False\<rparr>"
  have new: "policy_new sample_globs [(''a'', Local), (''ab'', OnlineOnly)] [''a''] [] False = Inr ?pol"
    by (simp add: policy_new_def rule_new_def sample_globs_def)
  have "policy_mode sample_globs ?pol ''abc'' = OnlineOnly"
    using policy_precedence [OF new, of "''abc''"] by (auto simp: sample_globs_def)
  with new show ?thesis by blast
qed

end
