(* ===== verification/World.thy ===== *)
theory World
  imports Content_Crypto Residency
begin

text \<open>
  The environment of the mirror. \<open>env\<close> collects the parameters: the functions of other crates (BLAKE3,
  HMAC, Base32, the JSON codecs, globs, the AEAD, random numbers, Unicode normalisation, time
  formatting) and the vault's keys. \<open>world\<close> is what the mirror's code reads and writes: the object
  store, the state database, the files under the mirrored root, the clock and the random source.

  A file under the root is named by its '/'-separated path relative to the root. Directories are not
  represented: \<open>create_dir_all\<close> does nothing, and a path that is a directory for one file and a file
  for another is not excluded by the model.
\<close>

section \<open>Data that crosses components\<close>

record delta_entry =
  d_path :: string
  d_object_key :: string
  d_plaintext_hash :: hash
  d_size :: u64
  d_mtime_utc :: u64
  d_deleted :: bool
  d_deleted_at :: u64
  d_lamport :: u64
  d_device_id :: string
  d_base_hash :: "hash option"

type_synonym manifest = "(string, delta_entry) fmap"

record stub_meta =
  st_rfm :: u32
  st_path :: string
  st_size :: u64
  st_hash :: hash
  st_object_key :: string
  st_evicted_at :: u64
  st_mtime_ns :: "int option"
  st_mode :: "u32 option"

record file_node =
  fn_bytes :: bytes
  fn_mtime_ns :: int
  fn_mode :: u32

type_synonym files = "(string, file_node) fmap"

section \<open>Parameters\<close>

record env =
  e_aead :: aead
  e_blake3 :: "bytes \<Rightarrow> hash"
  e_hmac :: "key \<Rightarrow> bytes \<Rightarrow> bytes"
  e_base32 :: "bytes \<Rightarrow> string"
  e_globs :: globs
  e_delta_json :: "delta_entry list \<Rightarrow> bytes"
  e_delta_parse :: "bytes \<Rightarrow> delta_entry list option"
  e_stub_json :: "stub_meta \<Rightarrow> bytes"
  e_stub_parse :: "bytes \<Rightarrow> stub_meta option"
  e_nonce :: "nat \<Rightarrow> bytes"
  e_uuid :: "nat \<Rightarrow> string"
  e_nfc :: "string \<Rightarrow> string"
  e_utc_format :: "instant \<Rightarrow> string"
  e_available :: "files \<Rightarrow> u64"
  e_allocated :: "file_node \<Rightarrow> u64"
  e_content_key :: key
  e_name_key :: key
  e_manifest_key :: key

text \<open>What the code relies on: the codecs round-trip, and a nonce fills its 19 bytes.\<close>

definition delta_codec_ok :: "env \<Rightarrow> bool" where
  "delta_codec_ok E \<longleftrightarrow> (\<forall>ds. e_delta_parse E (e_delta_json E ds) = Some ds)"

definition stub_codec_ok :: "env \<Rightarrow> bool" where
  "stub_codec_ok E \<longleftrightarrow> (\<forall>m. e_stub_parse E (e_stub_json E m) = Some m)"

definition nonces_ok :: "env \<Rightarrow> bool" where
  "nonces_ok E \<longleftrightarrow> (\<forall>i. length (e_nonce E i) = NONCE_SIZE)"

section \<open>The world\<close>

record world =
  w_store :: mem_store
  w_db :: state_db
  w_files :: files
  w_now :: instant
  w_random :: nat

type_synonym 'a act = "(world, merror, 'a) action"

definition on_store :: "'a store_action \<Rightarrow> 'a act" where
  "on_store m = (\<lambda>w. case m (w_store w) of (r, s) \<Rightarrow> (r, w\<lparr>w_store := s\<rparr>))"

definition on_db :: "'a db_action \<Rightarrow> 'a act" where
  "on_db m = (\<lambda>w. case m (w_db w) of (r, d) \<Rightarrow> (r, w\<lparr>w_db := d\<rparr>))"

definition put_bytes :: "string \<Rightarrow> bytes \<Rightarrow> unit act" where
  "put_bytes key b = (\<lambda>w. on_store (mem_put_bytes (w_now w) key b) w)"

definition fresh_nonce :: "env \<Rightarrow> bytes act" where
  "fresh_nonce E = (\<lambda>w. (Inr (e_nonce E (w_random w)), w\<lparr>w_random := Suc (w_random w)\<rparr>))"

definition fresh_uuid :: "env \<Rightarrow> string act" where
  "fresh_uuid E = (\<lambda>w. (Inr (e_uuid E (w_random w)), w\<lparr>w_random := Suc (w_random w)\<rparr>))"

definition read_db :: "(state_db \<Rightarrow> 'a) \<Rightarrow> 'a act" where
  "read_db f = act_get (\<lambda>w. f (w_db w))"

definition query_db :: "(state_db \<Rightarrow> 'a mresult) \<Rightarrow> 'a act" where
  "query_db f = (\<lambda>w. (f (w_db w), w))"

text \<open>\<open>now_unix\<close>: seconds since the epoch.\<close>

definition now_secs :: "world \<Rightarrow> int" where
  "now_secs w = min (int (w_now w div 10 ^ 9)) i64_max"

definition at_now :: "(int \<Rightarrow> 'a act) \<Rightarrow> 'a act" where
  "at_now f = (\<lambda>w. f (now_secs w) w)"

lemma on_store_run [act_simps]: "on_store m w = (case m (w_store w) of (r, s) \<Rightarrow> (r, w\<lparr>w_store := s\<rparr>))"
  by (simp add: on_store_def)

lemma on_db_run [act_simps]: "on_db m w = (case m (w_db w) of (r, d) \<Rightarrow> (r, w\<lparr>w_db := d\<rparr>))"
  by (simp add: on_db_def)

lemma put_bytes_ok:
  "put_bytes k b w = (Inr (), w') \<longleftrightarrow>
    maybe_fail_put k (w_store w) = Inr () \<and> w' = w\<lparr>w_store := mem_insert (w_now w) k b (w_store w)\<rparr>"
  by (cases "maybe_fail_put k (w_store w)")
    (auto simp: put_bytes_def on_store_run mem_put_bytes_def)

lemma read_db_run [simp]: "read_db f w = (Inr (f (w_db w)), w)"
  by (simp add: read_db_def)

lemma query_db_run [simp]: "query_db f w = (f (w_db w), w)"
  by (simp add: query_db_def)

lemma fresh_nonce_run [simp]:
  "fresh_nonce E w = (Inr (e_nonce E (w_random w)), w\<lparr>w_random := Suc (w_random w)\<rparr>)"
  by (simp add: fresh_nonce_def)

lemma fresh_uuid_run [simp]:
  "fresh_uuid E w = (Inr (e_uuid E (w_random w)), w\<lparr>w_random := Suc (w_random w)\<rparr>)"
  by (simp add: fresh_uuid_def)

lemma at_now_run [act_simps]: "at_now f w = f (now_secs w) w"
  by (simp add: at_now_def)

lemma keeps_on_store:
  "(\<And>w s. P w \<Longrightarrow> s = snd (m (w_store w)) \<Longrightarrow> P (w\<lparr>w_store := s\<rparr>)) \<Longrightarrow> act_keeps P (on_store m)"
  by (force simp: act_keeps_def on_store_def split: prod.splits)

lemma keeps_on_db:
  "(\<And>w d. P w \<Longrightarrow> d = snd (m (w_db w)) \<Longrightarrow> P (w\<lparr>w_db := d\<rparr>)) \<Longrightarrow> act_keeps P (on_db m)"
  by (force simp: act_keeps_def on_db_def split: prod.splits)

lemma keeps_at_now [keeps_intros]: "(\<And>n. act_keeps P (f n)) \<Longrightarrow> act_keeps P (at_now f)"
  by (auto simp: act_keeps_def at_now_def)

lemma keeps_read_db [keeps_intros]: "act_keeps P (read_db f)"
  by (simp add: act_keeps_def)

lemma keeps_query_db [keeps_intros]: "act_keeps P (query_db f)"
  by (simp add: act_keeps_def)

section \<open>Object names\<close>

text \<open>
  \<open>crypto/filename.rs\<close>: 26 characters of the Base32 of a keyed hash of path and content, in two
  directory levels.
\<close>

definition DATA_PREFIX :: string where
  "DATA_PREFIX = ''data/''"

definition bytes_of :: "string \<Rightarrow> bytes" where
  "bytes_of s = map of_char s"

definition hmac_name :: "env \<Rightarrow> key \<Rightarrow> string \<Rightarrow> hash \<Rightarrow> bytes" where
  "hmac_name E k path h = e_hmac E k (bytes_of ''rfm:v2:obj'' @ [0] @ bytes_of path @ [0] @ h)"

definition base32_name :: "env \<Rightarrow> bytes \<Rightarrow> string" where
  "base32_name E b = take 26 (e_base32 E b)"

fun shard_from :: "nat \<Rightarrow> string \<Rightarrow> string" where
  "shard_from i [] = []"
| "shard_from i (c # cs) = (if i = 2 \<or> i = 4 then CHR ''/'' # [c] else [c]) @ shard_from (i + 1) cs"

definition shard :: "string \<Rightarrow> string" where
  "shard name = shard_from 0 name"

definition object_key :: "env \<Rightarrow> string \<Rightarrow> hash \<Rightarrow> string" where
  "object_key E path h = DATA_PREFIX @ shard (base32_name E (hmac_name E (e_name_key E) path h))"

lemma shard_from_strip: "CHR ''/'' \<notin> set s \<Longrightarrow> filter (\<lambda>c. c \<noteq> CHR ''/'') (shard_from i s) = s"
  by (induction s arbitrary: i) auto

lemma shard_inj: "CHR ''/'' \<notin> set s \<Longrightarrow> CHR ''/'' \<notin> set t \<Longrightarrow> shard s = shard t \<Longrightarrow> s = t"
  unfolding shard_def by (metis shard_from_strip)

lemma object_key_under_data: "prefix DATA_PREFIX (object_key E path h)"
  by (simp add: object_key_def)

end
