(* ===== verification/Samples.thy ===== *)
theory Samples
  imports World
begin

text \<open>
  A concrete environment, for the witnesses: real codecs (self-delimiting, with their parsers), the
  sample AEAD, and small functions for the rest. It satisfies every hypothesis the development
  makes about the parameters.
\<close>

section \<open>Codecs\<close>

type_synonym 'a parser = "bytes \<Rightarrow> ('a \<times> bytes) option"

definition codec :: "('a \<Rightarrow> bytes) \<Rightarrow> 'a parser \<Rightarrow> bool" where
  "codec e d \<longleftrightarrow> (\<forall>x r. d (e x @ r) = Some (x, r))"

fun enc_nat :: "nat \<Rightarrow> bytes" where
  "enc_nat 0 = [0]"
| "enc_nat (Suc n) = 1 # enc_nat n"

lemma length_enc_nat [simp]: "length (enc_nat n) = n + 1"
  by (induction n) auto

fun dec_nat :: "nat parser" where
  "dec_nat [] = None"
| "dec_nat (b # bs) = (if b = 0 then Some (0, bs)
     else case dec_nat bs of None \<Rightarrow> None | Some (n, r) \<Rightarrow> Some (Suc n, r))"

definition enc_via :: "('a \<Rightarrow> 'b) \<Rightarrow> ('b \<Rightarrow> bytes) \<Rightarrow> 'a \<Rightarrow> bytes" where
  "enc_via f e x = e (f x)"

definition dec_via :: "('b \<Rightarrow> 'a) \<Rightarrow> 'b parser \<Rightarrow> 'a parser" where
  "dec_via g d bs = (case d bs of None \<Rightarrow> None | Some (x, r) \<Rightarrow> Some (g x, r))"

definition enc_pair :: "('a \<Rightarrow> bytes) \<Rightarrow> ('b \<Rightarrow> bytes) \<Rightarrow> 'a \<times> 'b \<Rightarrow> bytes" where
  "enc_pair e f p = e (fst p) @ f (snd p)"

definition dec_pair :: "'a parser \<Rightarrow> 'b parser \<Rightarrow> ('a \<times> 'b) parser" where
  "dec_pair d c bs = (case d bs of None \<Rightarrow> None | Some (x, r) \<Rightarrow>
     (case c r of None \<Rightarrow> None | Some (y, s) \<Rightarrow> Some ((x, y), s)))"

definition enc_list :: "('a \<Rightarrow> bytes) \<Rightarrow> 'a list \<Rightarrow> bytes" where
  "enc_list e xs = enc_nat (length xs) @ concat (map e xs)"

fun dec_many :: "'a parser \<Rightarrow> nat \<Rightarrow> 'a list parser" where
  "dec_many d 0 bs = Some ([], bs)"
| "dec_many d (Suc n) bs = (case d bs of None \<Rightarrow> None | Some (x, r) \<Rightarrow>
     (case dec_many d n r of None \<Rightarrow> None | Some (xs, s) \<Rightarrow> Some (x # xs, s)))"

definition dec_list :: "'a parser \<Rightarrow> 'a list parser" where
  "dec_list d bs = (case dec_nat bs of None \<Rightarrow> None | Some (n, r) \<Rightarrow> dec_many d n r)"

definition list_of_option :: "'a option \<Rightarrow> 'a list" where
  "list_of_option x = (case x of None \<Rightarrow> [] | Some a \<Rightarrow> [a])"

definition option_of_list :: "'a list \<Rightarrow> 'a option" where
  "option_of_list xs = (case xs of [] \<Rightarrow> None | a # _ \<Rightarrow> Some a)"

definition int_code :: "int \<Rightarrow> nat \<times> nat" where
  "int_code i = (nat i, nat (- i))"

definition int_decode :: "nat \<times> nat \<Rightarrow> int" where
  "int_decode p = int (fst p) - int (snd p)"

lemma codec_nat: "codec enc_nat dec_nat"
proof -
  have "dec_nat (enc_nat n @ r) = Some (n, r)" for n r by (induction n) auto
  then show ?thesis by (simp add: codec_def)
qed

lemma codec_via: "codec e d \<Longrightarrow> (\<And>x. g (f x) = x) \<Longrightarrow> codec (enc_via f e) (dec_via g d)"
  by (simp add: codec_def enc_via_def dec_via_def)

lemma codec_pair: "codec e d \<Longrightarrow> codec f c \<Longrightarrow> codec (enc_pair e f) (dec_pair d c)"
  by (simp add: codec_def enc_pair_def dec_pair_def)

lemma codec_list: "codec e d \<Longrightarrow> codec (enc_list e) (dec_list d)"
proof -
  assume c: "codec e d"
  have "dec_many d (length xs) (concat (map e xs) @ r) = Some (xs, r)" for xs r
    using c by (induction xs) (auto simp: codec_def)
  then show ?thesis using codec_nat by (simp add: codec_def enc_list_def dec_list_def)
qed

definition enc_word :: "'a::len word \<Rightarrow> bytes" where "enc_word = enc_via unat enc_nat"
definition dec_word :: "'a::len word parser" where "dec_word = dec_via of_nat dec_nat"
definition enc_char :: "char \<Rightarrow> bytes" where "enc_char = enc_via of_char enc_nat"
definition dec_char :: "char parser" where "dec_char = dec_via char_of dec_nat"
definition enc_bool :: "bool \<Rightarrow> bytes" where "enc_bool = enc_via of_bool enc_nat"
definition dec_bool :: "bool parser" where "dec_bool = dec_via (\<lambda>n. n = 1) dec_nat"
definition enc_int :: "int \<Rightarrow> bytes" where "enc_int = enc_via int_code (enc_pair enc_nat enc_nat)"
definition dec_int :: "int parser" where "dec_int = dec_via int_decode (dec_pair dec_nat dec_nat)"
definition enc_option :: "('a \<Rightarrow> bytes) \<Rightarrow> 'a option \<Rightarrow> bytes" where
  "enc_option e = enc_via list_of_option (enc_list e)"
definition dec_option :: "'a parser \<Rightarrow> 'a option parser" where
  "dec_option d = dec_via option_of_list (dec_list d)"

lemma codec_word: "codec enc_word dec_word"
  unfolding enc_word_def dec_word_def by (rule codec_via [OF codec_nat]) simp

lemma codec_char: "codec enc_char dec_char"
  unfolding enc_char_def dec_char_def by (rule codec_via [OF codec_nat]) simp

lemma codec_bool: "codec enc_bool dec_bool"
  unfolding enc_bool_def dec_bool_def by (rule codec_via [OF codec_nat]) simp

lemma codec_int: "codec enc_int dec_int"
  unfolding enc_int_def dec_int_def
  by (rule codec_via [OF codec_pair [OF codec_nat codec_nat]]) (simp add: int_code_def int_decode_def)

lemma codec_option: "codec e d \<Longrightarrow> codec (enc_option e) (dec_option d)"
  unfolding enc_option_def dec_option_def
  by (rule codec_via [OF codec_list]) (auto simp: list_of_option_def option_of_list_def split: option.splits)

lemmas codec_intros = codec_nat codec_word codec_char codec_bool codec_int codec_option codec_pair codec_list

section \<open>Deltas and placeholders\<close>

definition enc_delta :: "delta_entry \<Rightarrow> bytes" where
  "enc_delta = enc_via (\<lambda>d. (d_path d, d_object_key d, d_plaintext_hash d, d_size d, d_mtime_utc d,
       d_deleted d, d_deleted_at d, d_lamport d, d_device_id d, d_base_hash d))
     (enc_pair (enc_list enc_char) (enc_pair (enc_list enc_char) (enc_pair (enc_list enc_word) (enc_pair enc_word
       (enc_pair enc_word (enc_pair enc_bool (enc_pair enc_word (enc_pair enc_word (enc_pair (enc_list enc_char)
         (enc_option (enc_list enc_word)))))))))))"

definition dec_delta :: "delta_entry parser" where
  "dec_delta = dec_via (\<lambda>(p, k, h, s, m, x, y, l, i, b).
       \<lparr>d_path = p, d_object_key = k, d_plaintext_hash = h, d_size = s, d_mtime_utc = m, d_deleted = x,
        d_deleted_at = y, d_lamport = l, d_device_id = i, d_base_hash = b\<rparr>)
     (dec_pair (dec_list dec_char) (dec_pair (dec_list dec_char) (dec_pair (dec_list dec_word) (dec_pair dec_word
       (dec_pair dec_word (dec_pair dec_bool (dec_pair dec_word (dec_pair dec_word (dec_pair (dec_list dec_char)
         (dec_option (dec_list dec_word)))))))))))"

definition enc_stub :: "stub_meta \<Rightarrow> bytes" where
  "enc_stub = enc_via (\<lambda>m. (st_rfm m, st_path m, st_size m, st_hash m, st_object_key m, st_evicted_at m,
       st_mtime_ns m, st_mode m))
     (enc_pair enc_word (enc_pair (enc_list enc_char) (enc_pair enc_word (enc_pair (enc_list enc_word)
       (enc_pair (enc_list enc_char) (enc_pair enc_word (enc_pair (enc_option enc_int) (enc_option enc_word))))))))"

definition dec_stub :: "stub_meta parser" where
  "dec_stub = dec_via (\<lambda>(f, p, s, h, k, t, n, m).
       \<lparr>st_rfm = f, st_path = p, st_size = s, st_hash = h, st_object_key = k, st_evicted_at = t,
        st_mtime_ns = n, st_mode = m\<rparr>)
     (dec_pair dec_word (dec_pair (dec_list dec_char) (dec_pair dec_word (dec_pair (dec_list dec_word)
       (dec_pair (dec_list dec_char) (dec_pair dec_word (dec_pair (dec_option dec_int) (dec_option dec_word))))))))"

lemma codec_delta: "codec enc_delta dec_delta"
  unfolding enc_delta_def dec_delta_def by (rule codec_via) (intro codec_intros, simp)

lemma codec_stub: "codec enc_stub dec_stub"
  unfolding enc_stub_def dec_stub_def by (rule codec_via) (intro codec_intros, simp)

definition whole :: "'a parser \<Rightarrow> bytes \<Rightarrow> 'a option" where
  "whole d bs = (case d bs of Some (x, []) \<Rightarrow> Some x | _ \<Rightarrow> None)"

lemma whole_codec: "codec e d \<Longrightarrow> whole d (e x) = Some x"
  unfolding codec_def whole_def by (metis append_Nil2 list.simps(4) option.simps(5) prod.case)

section \<open>The environment\<close>

definition sample_env :: env where
  "sample_env = \<lparr>e_aead = sample_aead, e_blake3 = (\<lambda>b. b), e_hmac = (\<lambda>k b. b),
     e_base32 = map (\<lambda>b. char_of (65 + unat b mod 26)), e_globs = sample_globs,
     e_delta_json = enc_list enc_delta, e_delta_parse = whole (dec_list dec_delta),
     e_stub_json = enc_stub, e_stub_parse = whole dec_stub,
     e_nonce = (\<lambda>i. replicate NONCE_SIZE (of_nat i)), e_uuid = (\<lambda>i. dec i), e_nfc = (\<lambda>s. s),
     e_utc_format = (\<lambda>t. dec t), e_available = (\<lambda>_. 2 ^ 40),
     e_allocated = (\<lambda>n. of_nat (length (fn_bytes n))), e_content_key = [1], e_name_key = [2], e_manifest_key = [3]\<rparr>"

lemma sample_delta_codec: "delta_codec_ok sample_env"
  by (simp add: delta_codec_ok_def sample_env_def whole_codec codec_list codec_delta)

lemma sample_stub_codec: "stub_codec_ok sample_env"
  by (simp add: stub_codec_ok_def sample_env_def whole_codec codec_stub)

lemma sample_nonces: "nonces_ok sample_env"
  by (simp add: nonces_ok_def sample_env_def)

lemma sample_env_aead: "aead_ok (e_aead sample_env)"
  by (simp add: sample_env_def sample_aead_ok)

lemma sample_seals: "\<exists>c. stream_seal sample_aead k n a i p = Some c"
proof (induction sample_aead k n a i p rule: stream_seal.induct)
  case (1 k n a i p)
  then show ?case
    by (cases "length p \<le> CHUNK_SIZE")
      (auto simp: stream_seal_last stream_seal_next sample_aead_def)
qed

lemma sample_encrypts: "\<exists>c. encrypt_bytes (e_aead sample_env) n k p a = Inr c"
  using sample_seals [of k n a 0 p] by (auto simp: encrypt_bytes_stream sample_env_def)

definition sample_world :: world where
  "sample_world = \<lparr>w_store = mem_new, w_db = migrate ''device'' ''host'' db_empty, w_files = fmempty,
     w_now = 1000000000, w_random = 0\<rparr>"

end
