(* ===== verification/Manifest.thy ===== *)
theory Manifest
  imports Samples
begin

text \<open>
  The remote manifest (\<open>manifest.rs\<close>): a snapshot of every path's latest entry, plus the log of deltas
  that devices appended since. Devices read the snapshot and merge the log into it; compaction folds
  the log into a new snapshot, prunes what was folded and collects unreferenced content objects.
  The deltas are fetched one after the other here; the code has up to 16 fetches in flight, whose
  results it takes in the same order.
\<close>

section \<open>Merging\<close>

record remote_conflict =
  rc_winner :: delta_entry
  rc_loser :: delta_entry

record merge_result =
  mr_manifest :: manifest
  mr_conflicts :: "remote_conflict list"
  mr_remote_lamport :: u64

definition winner_key :: "delta_entry \<Rightarrow>
    u64 \<times> string \<times> hash \<times> hash option \<times> bool \<times> u64 \<times> u64 \<times> u64 \<times> string" where
  "winner_key d = (d_lamport d, d_device_id d, d_plaintext_hash d, d_base_hash d, d_deleted d,
     d_deleted_at d, d_size d, d_mtime_utc d, d_object_key d)"

definition merge_conflict :: "delta_entry \<Rightarrow> delta_entry \<Rightarrow> bool" where
  "merge_conflict delta existing \<longleftrightarrow>
     d_plaintext_hash delta \<noteq> d_plaintext_hash existing \<and>
     d_base_hash delta \<noteq> Some (d_plaintext_hash existing) \<and>
     d_base_hash existing \<noteq> Some (d_plaintext_hash delta)"

definition merge_step :: "delta_entry \<Rightarrow> merge_result \<Rightarrow> merge_result" where
  "merge_step delta m =
     (let m1 = (case fmlookup (mr_manifest m) (d_path delta) of
          None \<Rightarrow> m\<lparr>mr_manifest := fmupd (d_path delta) delta (mr_manifest m)\<rparr>
        | Some existing \<Rightarrow>
            (let delta_wins = winner_key existing < winner_key delta;
                 m2 = (if merge_conflict delta existing
                   then m\<lparr>mr_conflicts := mr_conflicts m @
                     [if delta_wins then \<lparr>rc_winner = delta, rc_loser = existing\<rparr>
                      else \<lparr>rc_winner = existing, rc_loser = delta\<rparr>]\<rparr>
                   else m)
             in if delta_wins then m2\<lparr>mr_manifest := fmupd (d_path delta) delta (mr_manifest m2)\<rparr> else m2))
      in if mr_remote_lamport m1 < d_lamport delta then m1\<lparr>mr_remote_lamport := d_lamport delta\<rparr> else m1)"

definition merge_deltas :: "manifest \<Rightarrow> delta_entry list \<Rightarrow> merge_result" where
  "merge_deltas snapshot deltas = fold merge_step deltas
     \<lparr>mr_manifest = snapshot, mr_conflicts = [],
      mr_remote_lamport = (case max_by_key d_lamport (fm_values snapshot) of None \<Rightarrow> 0 | Some d \<Rightarrow> d_lamport d)\<rparr>"

section \<open>The delta log\<close>

definition log_prefix :: "string \<Rightarrow> string" where
  "log_prefix pre = pre @ ''log/''"

definition delta_key :: "string \<Rightarrow> u64 \<Rightarrow> string \<Rightarrow> u32 \<Rightarrow> string" where
  "delta_key pre lamport device seq = log_prefix pre @ ''lamport:'' @ dec_pad 20 (unat lamport) @ ''-'' @
     device @ ''-'' @ dec_pad 4 (unat seq) @ ''.delta''"

definition log_delta :: "env \<Rightarrow> string \<Rightarrow> delta_entry list \<Rightarrow> u64 \<Rightarrow> u32 \<Rightarrow> string act" where
  "log_delta E pre log lamport seq =
     act_bind (query_db device_id) (\<lambda>device.
       (let store_key = delta_key pre lamport device seq
        in act_bind (put_bytes store_key (e_delta_json E log)) (\<lambda>_. act_ok store_key)))"

record delta_log =
  dl_deltas :: "delta_entry list"
  dl_metas :: "object_meta list"

definition from_json_bytes :: "env \<Rightarrow> bytes \<Rightarrow> delta_entry list mresult" where
  "from_json_bytes E b = res_of (EStore ''deserialize manifest'') (e_delta_parse E b)"

definition read_deltas :: "env \<Rightarrow> string \<Rightarrow> delta_log act" where
  "read_deltas E pre =
     act_bind (on_store (mem_list (log_prefix pre) None)) (\<lambda>metas.
     act_bind (act_map (\<lambda>m. on_store (mem_get (om_key m))) metas) (\<lambda>objects.
     act_bind (act_res (res_collect (from_json_bytes E) objects)) (\<lambda>deltas.
     act_ok \<lparr>dl_deltas = concat deltas, dl_metas = metas\<rparr>)))"

section \<open>Snapshots\<close>

definition snapshot_prefix :: "string \<Rightarrow> string" where
  "snapshot_prefix pre = pre @ ''snapshot''"

definition snapshot_key :: "string \<Rightarrow> u64 \<Rightarrow> string" where
  "snapshot_key pre g = pre @ ''snapshot/generation'' @ dec_pad 20 (unat g) @ ''.snap''"

text \<open>The leftmost match of the regular expression \<open>generation(\d+)\<close>, for keys with ASCII digits.\<close>

fun capture_generation :: "string \<Rightarrow> string option" where
  "capture_generation [] = None"
| "capture_generation (c # cs) =
     (if prefix ''generation'' (c # cs) \<and> takeWhile is_digit (drop 10 (c # cs)) \<noteq> []
      then Some (takeWhile is_digit (drop 10 (c # cs)))
      else capture_generation cs)"

definition extract_generation :: "string \<Rightarrow> u64 mresult" where
  "extract_generation k =
     res_bind (res_of (EStore ''capture manifest gen'') (capture_generation k)) (\<lambda>digits.
       res_of (EStore ''parse generation'') (parse_u64 digits))"

definition to_store :: "env \<Rightarrow> manifest \<Rightarrow> string \<Rightarrow> unit act" where
  "to_store E manifest pre =
     act_bind (on_store (mem_list (snapshot_prefix pre) None)) (\<lambda>metas.
     act_bind (if metas \<noteq> [] then act_res (extract_generation (om_key (last metas)))
               else read_db highest_manifest_generation) (\<lambda>highest_gen.
     (let generation = highest_gen + 1; key = snapshot_key pre generation
      in act_bind (fresh_nonce E) (\<lambda>nonce.
         act_bind (act_res (encrypt_bytes (e_aead E) nonce (e_manifest_key E)
             (e_delta_json E (fm_values manifest)) key)) (\<lambda>encrypted.
         act_bind (put_bytes key encrypted) (\<lambda>_.
         on_db (record_manifest_generation generation)))))))"

record snapshot =
  sn_manifest :: manifest
  sn_object_key :: "string option"
  sn_modified_at :: "instant option"

definition from_store :: "env \<Rightarrow> string \<Rightarrow> snapshot act" where
  "from_store E pre =
     act_bind (on_store (mem_list (snapshot_prefix pre) None)) (\<lambda>metas.
     if metas \<noteq> []
     then let meta = last metas
       in act_bind (on_store (mem_get (om_key meta))) (\<lambda>encrypted.
          act_bind (act_res (extract_generation (om_key meta))) (\<lambda>highest_remote.
          act_bind (read_db highest_manifest_generation) (\<lambda>highest_local.
          if highest_remote < highest_local then act_err (EStore (om_key meta))
          else act_bind (act_res (decrypt_bytes (e_aead E) (e_manifest_key E) encrypted (om_key meta))) (\<lambda>plain.
            act_bind (act_res (from_json_bytes E plain)) (\<lambda>entries.
            act_bind (if highest_local < highest_remote
                      then on_db (record_manifest_generation highest_remote) else act_ok ()) (\<lambda>_.
            act_ok \<lparr>sn_manifest = fm_collect (map (\<lambda>e. (d_path e, e)) entries),
              sn_object_key = Some (om_key meta), sn_modified_at = om_last_modified meta\<rparr>))))))
     else act_get (\<lambda>w. \<lparr>sn_manifest = fmempty, sn_object_key = None, sn_modified_at = Some (w_now w)\<rparr>))"

section \<open>Compaction\<close>

definition older_than_grace :: "instant \<Rightarrow> instant \<Rightarrow> duration \<Rightarrow> bool" where
  "older_than_grace now modified grace \<longleftrightarrow> modified \<le> now \<and> grace \<le> now - modified"

definition meta_expired :: "instant \<Rightarrow> duration \<Rightarrow> object_meta \<Rightarrow> bool" where
  "meta_expired now grace m = (case om_last_modified m of
      None \<Rightarrow> False | Some modified \<Rightarrow> older_than_grace now modified grace)"

definition prunable_deltas :: "instant \<Rightarrow> object_meta list \<Rightarrow> duration \<Rightarrow> nat" where
  "prunable_deltas now metas grace = length (filter (meta_expired now grace) metas)"

definition strip_prefix :: "string \<Rightarrow> string \<Rightarrow> string" where
  "strip_prefix pre s = (if prefix pre s then drop (length pre) s else s)"

definition collect_garbage :: "string \<Rightarrow> string list \<Rightarrow> duration \<Rightarrow> nat act" where
  "collect_garbage pre referenced retention =
     act_bind (on_store (mem_list (pre @ DATA_PREFIX) None)) (\<lambda>metas.
     act_fold (\<lambda>m deleted w.
       if strip_prefix pre (om_key m) \<in> set referenced \<or> \<not> meta_expired (w_now w) retention m
       then (Inr deleted, w)
       else case on_store (mem_delete (om_key m)) w of
              (Inr _, w') \<Rightarrow> (Inr (deleted + 1), w')
            | (Inl _, w') \<Rightarrow> (Inr deleted, w')) metas 0)"

definition prune_deltas :: "duration \<Rightarrow> object_meta list \<Rightarrow> nat act" where
  "prune_deltas grace metas = act_fold (\<lambda>m pruned w.
     if meta_expired (w_now w) grace m
     then act_bind (on_store (mem_delete (om_key m))) (\<lambda>_. act_ok (pruned + 1)) w
     else (Inr pruned, w)) metas 0"

definition prune_snapshot :: "duration \<Rightarrow> snapshot \<Rightarrow> unit act" where
  "prune_snapshot grace s = (\<lambda>w. case (sn_object_key s, sn_modified_at s) of
      (Some key, Some modified) \<Rightarrow>
        (if older_than_grace (w_now w) modified grace then on_store (mem_delete key) w else (Inr (), w))
    | _ \<Rightarrow> (Inr (), w))"

definition compact :: "env \<Rightarrow> string \<Rightarrow> duration \<Rightarrow> duration \<Rightarrow> nat act" where
  "compact E pre grace object_retention =
     act_bind (from_store E pre) (\<lambda>snap.
     act_bind (read_deltas E pre) (\<lambda>log.
     (let merged = merge_deltas (sn_manifest snap) (dl_deltas log)
      in act_bind (to_store E (mr_manifest merged) pre) (\<lambda>_.
         act_bind (from_store E pre) (\<lambda>latest.
         if mr_manifest merged = sn_manifest latest
         then act_bind (prune_deltas grace (dl_metas log)) (\<lambda>pruned.
              act_bind (prune_snapshot grace snap) (\<lambda>_.
              act_bind (read_deltas E pre) (\<lambda>remaining.
              act_bind (collect_garbage pre (btree_set (map d_object_key
                  (fm_values (mr_manifest merged) @ dl_deltas remaining))) object_retention) (\<lambda>_.
              act_ok pruned))))
         else act_err (EStore ''compaction failed due to manifest mis-match''))))))"

section \<open>The merge takes the greatest entry\<close>

definition wf_manifest :: "manifest \<Rightarrow> bool" where
  "wf_manifest m \<longleftrightarrow> (\<forall>p e. fmlookup m p = Some e \<longrightarrow> d_path e = p)"

definition manifest_entries :: "manifest \<Rightarrow> delta_entry set" where
  "manifest_entries m = {e. \<exists>p. fmlookup m p = Some e}"

lemma manifest_entries_values: "manifest_entries m = set (fm_values m)"
  by (auto simp: manifest_entries_def fm_values_iff)

text \<open>The entries that compete for a path, and the one that wins.\<close>

definition competing :: "manifest \<Rightarrow> delta_entry list \<Rightarrow> string \<Rightarrow> delta_entry set" where
  "competing m ds p = {e. fmlookup m p = Some e \<or> e \<in> set ds \<and> d_path e = p}"

definition is_latest :: "delta_entry \<Rightarrow> delta_entry set \<Rightarrow> bool" where
  "is_latest e S \<longleftrightarrow> e \<in> S \<and> (\<forall>x \<in> S. winner_key x \<le> winner_key e)"

lemma option_eqI: "(\<And>x. a = Some x \<longleftrightarrow> b = Some x) \<Longrightarrow> a = b"
  by (cases a; cases b) auto

lemma winner_key_inj: "d_path x = d_path y \<Longrightarrow> winner_key x = winner_key y \<Longrightarrow> x = y"
  by (cases x, cases y) (simp add: winner_key_def)

lemma is_latest_unique:
  "is_latest x S \<Longrightarrow> is_latest y S \<Longrightarrow> (\<And>e. e \<in> S \<Longrightarrow> d_path e = p) \<Longrightarrow> x = y"
  unfolding is_latest_def by (metis antisym winner_key_inj)

lemma competing_path: "wf_manifest m \<Longrightarrow> e \<in> competing m ds p \<Longrightarrow> d_path e = p"
  by (auto simp: competing_def wf_manifest_def)

lemma merge_step_manifest: "fmlookup (mr_manifest (merge_step d m)) p =
    (if p \<noteq> d_path d then fmlookup (mr_manifest m) p
     else case fmlookup (mr_manifest m) p of
            None \<Rightarrow> Some d
          | Some e \<Rightarrow> Some (if winner_key e < winner_key d then d else e))"
  by (auto simp: merge_step_def Let_def split: option.splits)

lemma merge_step_lamport: "mr_remote_lamport (merge_step d m) = max (mr_remote_lamport m) (d_lamport d)"
  by (auto simp: merge_step_def Let_def max_def split: option.splits)

lemma merge_fold_lookup:
  "case fmlookup (mr_manifest (fold merge_step ds r)) p of
     None \<Rightarrow> competing (mr_manifest r) ds p = {}
   | Some e \<Rightarrow> is_latest e (competing (mr_manifest r) ds p)"
proof (induction ds arbitrary: r)
  case Nil
  then show ?case by (auto simp: competing_def is_latest_def split: option.splits)
next
  case (Cons d ds)
  show ?case
  proof (cases "d_path d = p")
    case False
    then have "competing (mr_manifest (merge_step d r)) ds p = competing (mr_manifest r) (d # ds) p"
      by (auto simp: competing_def merge_step_manifest)
    with Cons [of "merge_step d r"] show ?thesis by (auto split: option.splits)
  next
    case True
    let ?cur = "case fmlookup (mr_manifest r) p of None \<Rightarrow> d | Some e \<Rightarrow> if winner_key e < winner_key d then d else e"
    have l: "fmlookup (mr_manifest (merge_step d r)) p = Some ?cur"
      using True by (auto simp: merge_step_manifest split: option.splits)
    have sub: "competing (mr_manifest (merge_step d r)) ds p \<subseteq> competing (mr_manifest r) (d # ds) p"
      using True by (auto simp: competing_def merge_step_manifest split: option.splits if_splits)
    have top: "\<exists>y \<in> competing (mr_manifest (merge_step d r)) ds p. winner_key x \<le> winner_key y"
      if "x \<in> competing (mr_manifest r) (d # ds) p" for x
    proof (cases "x \<in> set ds")
      case True
      with that show ?thesis unfolding competing_def wf_manifest_def
        using l \<open>d_path d = p\<close> by (auto split: option.splits if_splits)
    next
      case False
      with that have "x = d \<or> fmlookup (mr_manifest r) p = Some x" by (auto simp: competing_def)
      then have "winner_key x \<le> winner_key ?cur" by (auto split: option.splits)
      with l show ?thesis unfolding competing_def by blast
    qed
    have "?cur \<in> competing (mr_manifest (merge_step d r)) ds p" using l by (simp add: competing_def)
    then obtain e where e: "fmlookup (mr_manifest (fold merge_step (d # ds) r)) p = Some e"
      and "is_latest e (competing (mr_manifest (merge_step d r)) ds p)"
      using Cons [of "merge_step d r"] by (auto split: option.splits)
    then have "is_latest e (competing (mr_manifest r) (d # ds) p)"
      using sub top unfolding is_latest_def by (meson order_trans subsetD)
    with e show ?thesis by simp
  qed
qed

lemma merge_lookup_Some:
  assumes "wf_manifest m"
  shows "fmlookup (mr_manifest (merge_deltas m ds)) p = Some e \<longleftrightarrow> is_latest e (competing m ds p)"
  using merge_fold_lookup [of "merge_deltas m []" ds p] competing_path [OF assms]
  by (auto simp: merge_deltas_def is_latest_def [of _ "{}"] split: option.splits
      dest: is_latest_unique)

lemma merge_wf: "wf_manifest m \<Longrightarrow> wf_manifest (mr_manifest (merge_deltas m ds))"
  unfolding wf_manifest_def [of "mr_manifest _"]
  by (auto simp: merge_lookup_Some is_latest_def dest: competing_path)

lemma merge_same_competitors:
  assumes "wf_manifest m" "wf_manifest n" "\<And>p e. is_latest e (competing m ds p) \<longleftrightarrow> is_latest e (competing n es p)"
  shows "mr_manifest (merge_deltas m ds) = mr_manifest (merge_deltas n es)"
proof (rule fmap_ext)
  fix p
  show "fmlookup (mr_manifest (merge_deltas m ds)) p = fmlookup (mr_manifest (merge_deltas n es)) p"
    by (rule option_eqI) (simp add: merge_lookup_Some assms)
qed

text \<open>Deltas that were already merged change nothing when they are merged again.\<close>

lemma merge_absorbs:
  assumes "wf_manifest m" and "set es \<subseteq> set ds"
  shows "mr_manifest (merge_deltas (mr_manifest (merge_deltas m ds)) es) = mr_manifest (merge_deltas m ds)"
    (is "?l = ?r")
proof (rule fmap_ext, rule option_eqI)
  fix p e
  let ?m = "mr_manifest (merge_deltas m ds)"
  have wf: "wf_manifest ?m" using assms(1) by (rule merge_wf)
  have sub: "x \<in> competing m ds p" if "x \<in> competing ?m es p" for x
    using that assms(2) merge_lookup_Some [OF assms(1)] by (auto simp: competing_def is_latest_def)
  show "fmlookup ?l p = Some e \<longleftrightarrow> fmlookup ?r p = Some e"
  proof
    assume r: "fmlookup ?r p = Some e"
    then have "is_latest e (competing m ds p)" by (simp add: merge_lookup_Some assms(1))
    moreover have "e \<in> competing ?m es p" using r by (simp add: competing_def)
    ultimately have "is_latest e (competing ?m es p)" using sub by (simp add: is_latest_def)
    then show "fmlookup ?l p = Some e" by (simp add: merge_lookup_Some wf)
  next
    assume "fmlookup ?l p = Some e"
    then have l: "is_latest e (competing ?m es p)" by (simp add: merge_lookup_Some wf)
    then have "e \<in> competing m ds p" by (intro sub) (simp add: is_latest_def)
    then have "competing m ds p \<noteq> {}" by blast
    then obtain f where f: "fmlookup ?m p = Some f"
      using merge_fold_lookup [of "merge_deltas m []" ds p] by (auto simp: merge_deltas_def split: option.splits)
    then have lf: "is_latest f (competing m ds p)" by (simp add: merge_lookup_Some assms(1))
    have "f \<in> competing ?m es p" using f by (simp add: competing_def)
    with lf have "is_latest f (competing ?m es p)" using sub by (simp add: is_latest_def)
    from is_latest_unique [OF l this competing_path [OF wf]] have "e = f" .
    with f show "fmlookup ?r p = Some e" by simp
  qed
qed

lemma merge_lamport:
  "mr_remote_lamport (merge_deltas m ds) = Max (insert 0 (d_lamport ` (manifest_entries m \<union> set ds)))"
proof -
  have fold: "mr_remote_lamport (fold merge_step ds r) = fold max (map d_lamport ds) (mr_remote_lamport r)" for r
    by (induction ds arbitrary: r) (simp_all add: merge_step_lamport max.commute)
  note vals = manifest_entries_values [of m]
  define l0 where "l0 = (case max_by_key d_lamport (fm_values m) of None \<Rightarrow> 0 | Some d \<Rightarrow> d_lamport d)"
  have l0: "l0 = Max (insert 0 (d_lamport ` set (fm_values m)))"
  proof (cases "max_by_key d_lamport (fm_values m)")
    case None
    then have "fm_values m = []" by simp
    with None show ?thesis by (simp add: l0_def)
  next
    case (Some d)
    from max_by_key_SomeE [OF Some]
    have "d \<in> set (fm_values m)" "\<And>y. y \<in> set (fm_values m) \<Longrightarrow> d_lamport y \<le> d_lamport d"
      by auto
    then have "Max (insert 0 (d_lamport ` set (fm_values m))) = d_lamport d"
      by (intro Max_eqI) auto
    with Some show ?thesis by (simp add: l0_def)
  qed
  have "fold max (map d_lamport ds) l0 = Max (insert l0 (d_lamport ` set ds))"
    using Max.set_eq_fold [of l0 "map d_lamport ds"] by simp
  also have "\<dots> = Max (insert 0 (d_lamport ` (manifest_entries m \<union> set ds)))"
  proof (cases "ds = []")
    case True
    then show ?thesis by (simp add: l0 vals)
  next
    case False
    let ?A = "insert 0 (d_lamport ` set (fm_values m))" and ?B = "d_lamport ` set ds"
    have "Max (insert l0 ?B) = max (Max ?A) (Max ?B)" using False by (simp add: l0)
    also have "\<dots> = Max (?A \<union> ?B)" using False by (intro Max_Un [symmetric]) auto
    finally show ?thesis by (simp add: image_Un vals)
  qed
  finally show ?thesis by (simp add: merge_deltas_def fold l0_def)
qed

section \<open>Snapshot names\<close>

text \<open>The prefix of the vault must not itself look like a generation.\<close>

definition clean_prefix :: "string \<Rightarrow> bool" where
  "clean_prefix pre \<longleftrightarrow> capture_generation (snapshot_prefix pre) = None"

lemma takeWhile_append_stop: "\<not> P x \<Longrightarrow> takeWhile P (xs @ x # ys) = takeWhile P xs"
  by (induction xs) auto

lemma prefix_append_stop: "x \<notin> set w \<Longrightarrow> prefix w (xs @ x # ys) \<longleftrightarrow> prefix w xs"
proof (induction w arbitrary: xs)
  case (Cons a w)
  then show ?case by (cases xs) auto
qed simp

lemma capture_slash:
  "capture_generation (xs @ CHR ''/'' # ys) =
    (case capture_generation xs of Some g \<Rightarrow> Some g | None \<Rightarrow> capture_generation ys)"
proof (induction xs)
  case Nil
  then show ?case by simp
next
  case (Cons c xs)
  have p: "prefix ''generation'' (c # xs @ CHR ''/'' # ys) \<longleftrightarrow> prefix ''generation'' (c # xs)"
    using prefix_append_stop [of "CHR ''/''" "''generation''" "c # xs" ys] by simp
  show ?case
  proof (cases "prefix ''generation'' (c # xs)")
    case True
    then have "10 \<le> length (c # xs)" by (auto dest: prefix_length_le)
    then have "drop 10 (c # xs @ CHR ''/'' # ys) = drop 10 (c # xs) @ CHR ''/'' # ys" by simp
    moreover have "\<not> is_digit (CHR ''/'')" by (simp add: is_digit_def)
    ultimately have "takeWhile is_digit (drop 10 (c # xs @ CHR ''/'' # ys)) = takeWhile is_digit (drop 10 (c # xs))"
      by (simp add: takeWhile_append_stop)
    with p Cons show ?thesis by (simp only: append_Cons capture_generation.simps) simp
  next
    case False
    with p Cons show ?thesis by (simp only: append_Cons capture_generation.simps) simp
  qed
qed

lemma capture_word:
  assumes "list_all is_digit ds" and "ds \<noteq> []"
  shows "capture_generation (''generation'' @ ds @ ''.snap'') = Some ds"
proof -
  have "takeWhile is_digit (ds @ ''.snap'') = ds"
    using assms(1) by (simp add: takeWhile_append2 list_all_iff) (simp add: is_digit_def)
  with assms(2) show ?thesis by simp
qed

lemma extract_snapshot_key:
  assumes "clean_prefix pre"
  shows "extract_generation (snapshot_key pre g) = Inr g"
proof -
  have k: "snapshot_key pre g = snapshot_prefix pre @ CHR ''/'' # ''generation'' @ dec_pad 20 (unat g) @ ''.snap''"
    by (simp add: snapshot_key_def snapshot_prefix_def)
  have "capture_generation (snapshot_key pre g) = Some (dec_pad 20 (unat g))"
    unfolding k capture_slash using assms capture_word [of "dec_pad 20 (unat g)"]
    by (simp add: clean_prefix_def)
  then show ?thesis by (simp add: extract_generation_def parse_dec_pad)
qed

lemma append_less_same: "length xs = length ys \<Longrightarrow> xs @ zs < ys @ zs \<longleftrightarrow> xs < ys" for xs :: "'a::linorder list"
  by (induction xs ys rule: list_induct2) auto

lemma prepend_less: "ps @ xs < ps @ ys \<longleftrightarrow> xs < ys" for xs :: "'a::linorder list"
  by (induction ps) auto

lemma dec_pad_u64_length: "length (dec_pad 20 (unat (g :: u64))) = 20"
  using unsigned_less [of g, where 'a = nat] by (intro dec_pad_length) simp_all

lemma snapshot_key_less: "snapshot_key pre g < snapshot_key pre h \<longleftrightarrow> g < h"
proof -
  have b: "unat (x :: u64) < 10 ^ 20" for x using unsigned_less [of x, where 'a = nat] by simp
  have "snapshot_key pre g < snapshot_key pre h \<longleftrightarrow> dec_pad 20 (unat g) @ ''.snap'' < dec_pad 20 (unat h) @ ''.snap''"
    unfolding snapshot_key_def by (simp add: prepend_less)
  also have "\<dots> \<longleftrightarrow> dec_pad 20 (unat g) < dec_pad 20 (unat h)"
    by (rule append_less_same) (simp add: dec_pad_u64_length)
  also have "\<dots> \<longleftrightarrow> g < h"
    using dec_pad_less [OF b b, of g h] by (simp add: word_less_nat_alt)
  finally show ?thesis .
qed

lemma snapshot_key_le: "snapshot_key pre g \<le> snapshot_key pre h \<longleftrightarrow> g \<le> h"
  using snapshot_key_less [of pre h g] by (simp add: not_less [symmetric] del: not_less)

lemma snapshot_key_prefix [simp]: "prefix (snapshot_prefix pre) (snapshot_key pre g)"
  by (simp add: snapshot_prefix_def snapshot_key_def)

section \<open>Listings and reads\<close>

definition keys_under :: "string \<Rightarrow> (string, object) fmap \<Rightarrow> string list" where
  "keys_under pre m = filter (prefix pre) (fm_keys m)"

lemma keys_under_set [simp]: "set (keys_under pre m) = {k. prefix pre k \<and> k |\<in>| fmdom m}"
  by (auto simp: keys_under_def)

lemma keys_under_nonempty: "prefix pre k \<Longrightarrow> k |\<in>| fmdom m \<Longrightarrow> keys_under pre m \<noteq> []"
  by (auto simp: keys_under_def filter_empty_conv)

lemma keys_under_strict: "sorted_wrt (<) (keys_under pre m)"
  by (simp add: keys_under_def strict_sorted_iff sorted_wrt_filter)

lemma mem_list_run:
  obtains ms where "mem_list pre None s = (Inr ms, s)"
    and "map om_key ms = keys_under pre (ms_entries s)"
    and "\<And>m. m \<in> set ms \<Longrightarrow> \<exists>ob. fmlookup (ms_entries s) (om_key m) = Some ob \<and> m = mem_meta (om_key m) ob"
proof -
  obtain ms where ms: "mem_list pre None s = (Inr ms, s)" by (simp add: mem_list_def)
  have "map om_key ms = keys_under pre (ms_entries s)"
    using mem_list_keys [of pre None s] ms by (simp add: keys_under_def)
  moreover have "\<exists>ob. fmlookup (ms_entries s) (om_key m) = Some ob \<and> m = mem_meta (om_key m) ob"
    if "m \<in> set ms" for m
    using that ms by (auto simp: mem_list_def fm_entries_iff mem_meta_def)
  ultimately show thesis using ms that by blast
qed

text \<open>Two stores that differ in their read counter only.\<close>

definition same_store :: "mem_store \<Rightarrow> mem_store \<Rightarrow> bool" where
  "same_store s t \<longleftrightarrow> ms_entries s = ms_entries t \<and> ms_fail_put_key s = ms_fail_put_key t \<and>
     ms_fail_put_prefix s = ms_fail_put_prefix t"

text \<open>Two worlds that a read can turn into each other.\<close>

definition same_but_reads :: "world \<Rightarrow> world \<Rightarrow> bool" where
  "same_but_reads v w \<longleftrightarrow> same_store (w_store v) (w_store w) \<and> w_db v = w_db w \<and>
     w_files v = w_files w \<and> w_now v = w_now w \<and> w_random v = w_random w"

lemma same_but_reads_refl [simp]: "same_but_reads w w"
  by (simp add: same_but_reads_def same_store_def)

lemma same_but_reads_trans: "same_but_reads u v \<Longrightarrow> same_but_reads v w \<Longrightarrow> same_but_reads u w"
  by (simp add: same_but_reads_def same_store_def)

lemma get_reads:
  "on_store (mem_get k) w = (r, w') \<Longrightarrow> same_but_reads w' w \<and>
    (case fmlookup (ms_entries (w_store w)) k of
       None \<Rightarrow> r = Inl (EStore k) | Some ob \<Rightarrow> r = Inr (obj_bytes ob))"
  by (auto simp: on_store_run mem_get_def count_read_def same_but_reads_def same_store_def
      split: option.splits prod.splits)

lemma get_all_reads:
  assumes "\<And>m. m \<in> set ms \<Longrightarrow> om_key m |\<in>| fmdom (ms_entries (w_store w))"
  shows "\<exists>w'. act_map (\<lambda>m. on_store (mem_get (om_key m))) ms w =
      (Inr (map (\<lambda>m. obj_bytes (the (fmlookup (ms_entries (w_store w)) (om_key m)))) ms), w') \<and> same_but_reads w' w"
  using assms
proof (induction ms arbitrary: w)
  case (Cons m ms)
  obtain r w1 where g: "on_store (mem_get (om_key m)) w = (r, w1)" by fastforce
  obtain ob where ob: "fmlookup (ms_entries (w_store w)) (om_key m) = Some ob"
    using Cons.prems [of m] by (auto simp: fmlookup_dom_iff)
  with get_reads [OF g] have r: "r = Inr (obj_bytes ob)" and s: "same_but_reads w1 w" by auto
  then have e: "ms_entries (w_store w1) = ms_entries (w_store w)"
    by (simp add: same_but_reads_def same_store_def)
  obtain w' where "act_map (\<lambda>m. on_store (mem_get (om_key m))) ms w1 =
      (Inr (map (\<lambda>m. obj_bytes (the (fmlookup (ms_entries (w_store w1)) (om_key m)))) ms), w')" "same_but_reads w' w1"
    using Cons.IH [of w1] Cons.prems e by auto
  with g r s ob e show ?case
    by (auto intro: same_but_reads_trans)
qed simp

text \<open>What \<open>read_deltas\<close> returns, as a function of the store's entries.\<close>

definition log_entries :: "env \<Rightarrow> string \<Rightarrow> (string, object) fmap \<Rightarrow> delta_entry list mresult" where
  "log_entries E pre m = res_bind (res_collect (\<lambda>k. from_json_bytes E (obj_bytes (the (fmlookup m k))))
     (keys_under (log_prefix pre) m)) (\<lambda>dss. Inr (concat dss))"

lemma res_collect_map_comp: "res_collect f (map g xs) = res_collect (f \<circ> g) xs"
  by (induction xs) (auto split: sum.splits)

lemma read_deltas_run:
  obtains w' where "same_but_reads w' w"
    and "case log_entries E pre (ms_entries (w_store w)) of
        Inl e \<Rightarrow> read_deltas E pre w = (Inl e, w')
      | Inr ds \<Rightarrow> \<exists>metas. read_deltas E pre w = (Inr \<lparr>dl_deltas = ds, dl_metas = metas\<rparr>, w') \<and>
          map om_key metas = keys_under (log_prefix pre) (ms_entries (w_store w)) \<and>
          (\<forall>m \<in> set metas. \<exists>ob. fmlookup (ms_entries (w_store w)) (om_key m) = Some ob \<and> m = mem_meta (om_key m) ob)"
proof -
  let ?m = "ms_entries (w_store w)"
  obtain ms where ms: "mem_list (log_prefix pre) None (w_store w) = (Inr ms, w_store w)"
    and keys: "map om_key ms = keys_under (log_prefix pre) ?m"
    and ob: "\<And>m. m \<in> set ms \<Longrightarrow> \<exists>ob. fmlookup ?m (om_key m) = Some ob \<and> m = mem_meta (om_key m) ob"
    using mem_list_run [of "log_prefix pre" "w_store w"] by metis
  have dom: "om_key m |\<in>| fmdom ?m" if "m \<in> set ms" for m
    using ob [OF that] by (auto simp: fmdomI)
  obtain w' where get: "act_map (\<lambda>m. on_store (mem_get (om_key m))) ms w =
      (Inr (map (\<lambda>m. obj_bytes (the (fmlookup ?m (om_key m)))) ms), w')" and s: "same_but_reads w' w"
    using get_all_reads [of ms w] dom by blast
  have l: "on_store (mem_list (log_prefix pre) None) w = (Inr ms, w)"
    using ms by (simp add: on_store_run)
  have c: "res_collect (from_json_bytes E) (map (\<lambda>m. obj_bytes (the (fmlookup ?m (om_key m)))) ms) =
      res_collect (\<lambda>k. from_json_bytes E (obj_bytes (the (fmlookup ?m k)))) (keys_under (log_prefix pre) ?m)"
    by (simp add: res_collect_map_comp comp_def flip: keys)
  have "read_deltas E pre w = (case log_entries E pre ?m of Inl e \<Rightarrow> (Inl e, w')
      | Inr ds \<Rightarrow> (Inr \<lparr>dl_deltas = ds, dl_metas = ms\<rparr>, w'))"
    using l get c by (auto simp: read_deltas_def log_entries_def act_bind_run res_bind_def split: sum.splits)
  with s keys ob that show thesis by (auto split: sum.splits)
qed

lemma snapshot_key_inj: "snapshot_key pre g = snapshot_key pre h \<longleftrightarrow> g = h"
  using snapshot_key_less [of pre g h] snapshot_key_less [of pre h g] by (metis neq_iff)

text \<open>The snapshots of a vault: every key under the snapshot prefix is a generation's.\<close>

definition snapshots_ok :: "string \<Rightarrow> (string, object) fmap \<Rightarrow> bool" where
  "snapshots_ok pre m \<longleftrightarrow> clean_prefix pre \<and> (\<forall>k \<in> set (keys_under (snapshot_prefix pre) m). \<exists>g. k = snapshot_key pre g)"

definition latest_generation :: "string \<Rightarrow> (string, object) fmap \<Rightarrow> u64 option" where
  "latest_generation pre m = (case keys_under (snapshot_prefix pre) m of
      [] \<Rightarrow> None
    | ks \<Rightarrow> (case extract_generation (last ks) of Inl _ \<Rightarrow> None | Inr g \<Rightarrow> Some g))"

lemma latest_generation_Some:
  assumes "snapshots_ok pre m" and "keys_under (snapshot_prefix pre) m \<noteq> []"
  shows "\<exists>g. latest_generation pre m = Some g \<and> last (keys_under (snapshot_prefix pre) m) = snapshot_key pre g"
proof -
  from assms obtain g where "last (keys_under (snapshot_prefix pre) m) = snapshot_key pre g"
    unfolding snapshots_ok_def using last_in_set by blast
  with assms show ?thesis
    by (auto simp: latest_generation_def snapshots_ok_def extract_snapshot_key split: list.splits)
qed

lemma last_greatest:
  fixes k :: "'a::linorder"
  assumes "sorted_wrt (<) xs" and "k \<in> set xs" and "\<And>x. x \<in> set xs \<Longrightarrow> x \<le> k"
  shows "last xs = k"
  using sorted_wrt_last [OF assms(1,2)] assms(2,3) by (metis antisym empty_iff empty_set last_in_set)

lemma latest_is_greatest:
  assumes "snapshots_ok pre m" and "latest_generation pre m = Some g" and "snapshot_key pre h |\<in>| fmdom m"
  shows "h \<le> g"
proof -
  have "snapshot_key pre h \<in> set (keys_under (snapshot_prefix pre) m)" using assms(3) by simp
  moreover from this have "last (keys_under (snapshot_prefix pre) m) = snapshot_key pre g"
    using latest_generation_Some [OF assms(1) keys_under_nonempty [OF snapshot_key_prefix assms(3)]] assms(2)
    by force
  ultimately have "snapshot_key pre h \<le> snapshot_key pre g"
    using sorted_wrt_last [OF keys_under_strict] by metis
  then show ?thesis by (simp add: snapshot_key_le)
qed

lemma latest_after_put:
  assumes "snapshots_ok pre m" and "\<And>h. latest_generation pre m = Some h \<Longrightarrow> h \<le> g"
    and "fmlookup n (snapshot_key pre g) \<noteq> None"
    and "\<And>k. prefix (snapshot_prefix pre) k \<Longrightarrow> k |\<in>| fmdom n \<Longrightarrow> k = snapshot_key pre g \<or> k |\<in>| fmdom m"
  shows "snapshots_ok pre n" and "latest_generation pre n = Some g"
    and "last (keys_under (snapshot_prefix pre) n) = snapshot_key pre g"
proof -
  show ok: "snapshots_ok pre n"
    using assms(1,4) unfolding snapshots_ok_def by (auto simp: fmlookup_dom_iff)
  have le: "k \<le> snapshot_key pre g" if "k \<in> set (keys_under (snapshot_prefix pre) n)" for k
  proof (cases "k = snapshot_key pre g")
    case False
    with that assms(4) have "k \<in> set (keys_under (snapshot_prefix pre) m)" by auto
    moreover from this assms(1) obtain h where "k = snapshot_key pre h" by (auto simp: snapshots_ok_def)
    moreover obtain l where "latest_generation pre m = Some l"
      using latest_generation_Some [OF assms(1) keys_under_nonempty, of k] calculation(1) by auto
    ultimately have "h \<le> l" "l \<le> g" using latest_is_greatest [OF assms(1)] assms(2) by auto
    then show ?thesis using \<open>k = snapshot_key pre h\<close> by (simp add: snapshot_key_le)
  qed simp
  have mem: "snapshot_key pre g \<in> set (keys_under (snapshot_prefix pre) n)"
    using assms(3) by (auto simp: fmlookup_dom_iff)
  show l: "last (keys_under (snapshot_prefix pre) n) = snapshot_key pre g"
    by (rule last_greatest [OF keys_under_strict mem le])
  show "latest_generation pre n = Some g"
    using latest_generation_Some [OF ok] mem l ok
    by (metis Inr_inject empty_iff empty_set extract_snapshot_key snapshots_ok_def)
qed

lemma from_store_run:
  assumes "snapshots_ok pre (ms_entries (w_store w))" and "from_store E pre w = (Inr sn, w')"
  shows "ms_entries (w_store w') = ms_entries (w_store w) \<and> w_now w' = w_now w \<and>
    w_files w' = w_files w \<and>
    (case latest_generation pre (ms_entries (w_store w)) of
       None \<Rightarrow> sn_manifest sn = fmempty \<and> sn_object_key sn = None \<and> w' = w
     | Some g \<Rightarrow> highest_manifest_generation (w_db w) \<le> g \<and> sn_object_key sn = Some (snapshot_key pre g) \<and>
         w_db w' = (if highest_manifest_generation (w_db w) < g
           then snd (record_manifest_generation g (w_db w)) else w_db w) \<and>
         (\<exists>ob plain entries. fmlookup (ms_entries (w_store w)) (snapshot_key pre g) = Some ob \<and>
           decrypt_bytes (e_aead E) (e_manifest_key E) (obj_bytes ob) (snapshot_key pre g) = Inr plain \<and>
           e_delta_parse E plain = Some entries \<and>
           sn_manifest sn = fm_collect (map (\<lambda>e. (d_path e, e)) entries)))"
proof -
  let ?m = "ms_entries (w_store w)"
  obtain ms where ms: "mem_list (snapshot_prefix pre) None (w_store w) = (Inr ms, w_store w)"
    and keys: "map om_key ms = keys_under (snapshot_prefix pre) ?m"
    using mem_list_run [of "snapshot_prefix pre" "w_store w"] by metis
  have l: "on_store (mem_list (snapshot_prefix pre) None) w = (Inr ms, w)"
    using ms by (simp add: on_store_run)
  show ?thesis
  proof (cases "ms = []")
    case True
    with keys have "keys_under (snapshot_prefix pre) ?m = []" by simp
    with True l assms(2) show ?thesis
      by (auto simp: from_store_def latest_generation_def)
  next
    case False
    with keys have ne: "keys_under (snapshot_prefix pre) ?m \<noteq> []" by auto
    from latest_generation_Some [OF assms(1) this] obtain g where g: "latest_generation pre ?m = Some g"
      and last: "last (keys_under (snapshot_prefix pre) ?m) = snapshot_key pre g" by blast
    have lk: "om_key (last ms) = snapshot_key pre g" using last False by (simp add: last_map flip: keys)
    have x: "extract_generation (snapshot_key pre g) = Inr g"
      using assms(1) by (simp add: snapshots_ok_def extract_snapshot_key)
    obtain r w1 where get: "on_store (mem_get (snapshot_key pre g)) w = (r, w1)" by fastforce
    from assms(2) l False get lk x show ?thesis
      using get_reads [OF get]
      by (auto simp: from_store_def Let_def act_bind_ok on_db_run g from_json_bytes_def same_but_reads_def
          same_store_def record_manifest_generation_def split: if_splits option.splits)
  qed
qed

text \<open>The generation the next snapshot gets.\<close>

definition highest_known :: "string \<Rightarrow> world \<Rightarrow> u64" where
  "highest_known pre w = (case latest_generation pre (ms_entries (w_store w)) of
      Some g \<Rightarrow> g | None \<Rightarrow> highest_manifest_generation (w_db w))"

lemma to_store_run:
  assumes "snapshots_ok pre (ms_entries (w_store w))" and "to_store E M pre w = (Inr (), w')"
  defines "g \<equiv> highest_known pre w + 1"
  shows "\<exists>c. encrypt_bytes (e_aead E) (e_nonce E (w_random w)) (e_manifest_key E)
        (e_delta_json E (fm_values M)) (snapshot_key pre g) = Inr c \<and>
      ms_entries (w_store w') = fmupd (snapshot_key pre g) \<lparr>obj_bytes = c, obj_modified = w_now w\<rparr> (ms_entries (w_store w)) \<and>
      w_db w' = snd (record_manifest_generation g (w_db w)) \<and> w_now w' = w_now w \<and> w_files w' = w_files w"
proof -
  let ?m = "ms_entries (w_store w)"
  obtain ms where ms: "mem_list (snapshot_prefix pre) None (w_store w) = (Inr ms, w_store w)"
    and keys: "map om_key ms = keys_under (snapshot_prefix pre) ?m"
    using mem_list_run [of "snapshot_prefix pre" "w_store w"] by metis
  have l: "on_store (mem_list (snapshot_prefix pre) None) w = (Inr ms, w)"
    using ms by (simp add: on_store_run)
  have h: "(if ms \<noteq> [] then act_res (extract_generation (om_key (last ms)))
      else read_db highest_manifest_generation) w = (Inr (highest_known pre w), w)"
  proof (cases "ms = []")
    case True
    with keys have "keys_under (snapshot_prefix pre) ?m = []" by simp
    with True show ?thesis by (simp add: highest_known_def latest_generation_def)
  next
    case False
    with keys have ne: "keys_under (snapshot_prefix pre) ?m \<noteq> []" by auto
    from latest_generation_Some [OF assms(1) this] obtain h where "latest_generation pre ?m = Some h"
      and "last (keys_under (snapshot_prefix pre) ?m) = snapshot_key pre h" by blast
    with False assms(1) show ?thesis
      by (simp add: highest_known_def last_map snapshots_ok_def extract_snapshot_key flip: keys)
  qed
  from assms(2) l h show ?thesis
    by (auto simp: to_store_def Let_def act_bind_ok g_def put_bytes_ok on_db_run
        mem_insert_def record_manifest_generation_def)
qed

lemma fm_collect_values:
  assumes "wf_manifest M"
  shows "fm_collect (map (\<lambda>e. (d_path e, e)) (fm_values M)) = M"
proof -
  have "map (\<lambda>e. (d_path e, e)) (fm_values M) = map (\<lambda>(k, e). (d_path e, e)) (fm_entries M)"
    by (simp add: fm_values_def comp_def case_prod_beta)
  also have "\<dots> = fm_entries M"
    using assms by (intro map_idI) (auto simp: wf_manifest_def fm_entries_iff)
  finally show ?thesis by simp
qed

lemma fm_collect_paths_wf: "wf_manifest (fm_collect (map (\<lambda>e. (d_path e, e)) entries))"
  by (auto simp: wf_manifest_def fm_collect_lookup rev_map dest: map_of_SomeD)

lemma sat_i64_mono: "u64_or_zero (sat_i64 g) \<le> g"
  by (simp add: u64_of_sat_i64 i64_max_def word_le_def)

lemma highest_after_record [simp]:
  "highest_manifest_generation (snd (record_manifest_generation g db)) = u64_or_zero (sat_i64 g)"
  by (simp add: record_manifest_generation_def highest_manifest_generation_def)

text \<open>A snapshot that is the latest and holds the encryption of \<open>M\<close> is what \<open>from_store\<close> returns.\<close>

lemma from_store_latest:
  assumes "aead_ok (e_aead E)" and "delta_codec_ok E" and "nonces_ok E" and "wf_manifest M"
    and "snapshots_ok pre (ms_entries (w_store w))"
    and "latest_generation pre (ms_entries (w_store w)) = Some g"
    and "fmlookup (ms_entries (w_store w)) (snapshot_key pre g) = Some ob"
    and "encrypt_bytes (e_aead E) (e_nonce E i) (e_manifest_key E) (e_delta_json E (fm_values M))
       (snapshot_key pre g) = Inr (obj_bytes ob)"
    and "highest_manifest_generation (w_db w) \<le> g"
  shows "\<exists>sn w'. from_store E pre w = (Inr sn, w') \<and> sn_manifest sn = M"
proof -
  let ?m = "ms_entries (w_store w)"
  obtain ms where ms: "mem_list (snapshot_prefix pre) None (w_store w) = (Inr ms, w_store w)"
    and keys: "map om_key ms = keys_under (snapshot_prefix pre) ?m"
    using mem_list_run [of "snapshot_prefix pre" "w_store w"] by metis
  have l: "on_store (mem_list (snapshot_prefix pre) None) w = (Inr ms, w)"
    using ms by (simp add: on_store_run)
  have ne: "keys_under (snapshot_prefix pre) ?m \<noteq> []"
    using assms(6) by (auto simp: latest_generation_def)
  with keys have ms_ne: "ms \<noteq> []" by auto
  from latest_generation_Some [OF assms(5) ne] assms(6)
  have lk: "om_key (last ms) = snapshot_key pre g" using ms_ne by (simp add: last_map flip: keys)
  have x: "extract_generation (snapshot_key pre g) = Inr g"
    using assms(5) by (simp add: snapshots_ok_def extract_snapshot_key)
  obtain r w1 where get: "on_store (mem_get (snapshot_key pre g)) w = (r, w1)" by fastforce
  have r: "r = Inr (obj_bytes ob)" and db: "w_db w1 = w_db w"
    using get_reads [OF get] assms(7) by (auto simp: same_but_reads_def)
  have d: "decrypt_bytes (e_aead E) (e_manifest_key E) (obj_bytes ob) (snapshot_key pre g) =
      Inr (e_delta_json E (fm_values M))"
  proof -
    from assms(8) obtain z where "e_nonce E i @ z = obj_bytes ob"
      and "stream_seal (e_aead E) (e_manifest_key E) (e_nonce E i) (snapshot_key pre g) 0
        (e_delta_json E (fm_values M)) = Some z"
      by (auto simp: encrypt_bytes_stream)
    note z = this
    with assms(3) stream_open_seal [OF assms(1) z(2)] show ?thesis
      by (simp add: decrypt_bytes_ok nonces_ok_def z(1) [symmetric])
  qed
  have p: "from_json_bytes E (e_delta_json E (fm_values M)) = Inr (fm_values M)"
    using assms(2) by (simp add: from_json_bytes_def delta_codec_ok_def)
  show ?thesis
    using l ms_ne lk x get r db d p assms(9) fm_collect_values [OF assms(4)]
    by (auto simp: from_store_def Let_def act_bind_run on_db_run record_manifest_generation_def not_less)
qed

section \<open>Deletions\<close>

text \<open>Deleting the listed objects that satisfy \<open>P\<close>, whatever is counted meanwhile.\<close>

lemma delete_fold:
  assumes "\<And>m n v. w_now v = w_now w \<Longrightarrow> P m \<Longrightarrow> f m n v = (Inr (n + 1), snd (on_store (mem_delete (om_key m)) v))"
    and "\<And>m n v. w_now v = w_now w \<Longrightarrow> \<not> P m \<Longrightarrow> f m n v = (Inr n, v)"
  shows "act_fold f metas (n :: nat) w = (Inr (n + length (filter P metas)),
    w\<lparr>w_store := (w_store w)\<lparr>ms_entries :=
      fmfilter (\<lambda>k. k \<notin> om_key ` {m \<in> set metas. P m}) (ms_entries (w_store w))\<rparr>\<rparr>)"
  using assms
proof (induction metas arbitrary: n w)
  case Nil
  have "fmfilter (\<lambda>k. True) e = e" for e :: "(string, object) fmap"
    by (simp add: fmap_ext)
  then show ?case by simp
next
  case (Cons m ms)
  note f = Cons.prems
  let ?v = "w\<lparr>w_store := (w_store w)\<lparr>ms_entries := fmdrop (om_key m) (ms_entries (w_store w))\<rparr>\<rparr>"
  have v: "snd (on_store (mem_delete (om_key m)) w) = ?v"
    by (simp add: on_store_run mem_delete_def)
  show ?case
  proof (cases "P m")
    case True
    have "act_fold f ms (n + 1) ?v = (Inr (n + 1 + length (filter P ms)),
      ?v\<lparr>w_store := (w_store ?v)\<lparr>ms_entries :=
        fmfilter (\<lambda>k. k \<notin> om_key ` {m \<in> set ms. P m}) (ms_entries (w_store ?v))\<rparr>\<rparr>)"
      by (rule Cons.IH) (use f in auto)
    moreover have "ms_entries (w_store ?v) = fmdrop (om_key m) (ms_entries (w_store w))" by simp
    moreover have "fmfilter (\<lambda>k. k \<notin> om_key ` {m \<in> set ms. P m}) (fmdrop (om_key m) e) =
        fmfilter (\<lambda>k. k \<notin> om_key ` {x \<in> set (m # ms). P x}) e" for e :: "(string, object) fmap"
      by (rule fmap_ext) (use True in auto)
    ultimately show ?thesis using f(1) [OF refl True, of n] True
      by (simp only: act_fold.simps v act_bind_run prod.case sum.case) simp
  next
    case False
    have "act_fold f ms n w = (Inr (n + length (filter P ms)),
      w\<lparr>w_store := (w_store w)\<lparr>ms_entries :=
        fmfilter (\<lambda>k. k \<notin> om_key ` {m \<in> set ms. P m}) (ms_entries (w_store w))\<rparr>\<rparr>)"
      by (rule Cons.IH) (use f in auto)
    moreover have "{x \<in> set (m # ms). P x} = {x \<in> set ms. P x}" using False by auto
    ultimately show ?thesis using f(2) [OF refl False, of n] False by simp
  qed
qed

lemma meta_expired_mem_meta: "meta_expired now g (mem_meta k ob) = older_than_grace now (obj_modified ob) g"
  by (simp add: meta_expired_def mem_meta_def)

lemma prune_deltas_run:
  "prune_deltas grace metas w = (Inr (length (filter (meta_expired (w_now w) grace) metas)),
    w\<lparr>w_store := (w_store w)\<lparr>ms_entries := fmfilter
      (\<lambda>k. k \<notin> om_key ` {m \<in> set metas. meta_expired (w_now w) grace m}) (ms_entries (w_store w))\<rparr>\<rparr>)"
  unfolding prune_deltas_def
  by (subst delete_fold [where P = "meta_expired (w_now w) grace"])
    (auto simp: act_bind_run on_store_run mem_delete_def)

lemma collect_garbage_run:
  obtains metas where "collect_garbage pre referenced retention w =
    (Inr (length (filter (\<lambda>m. strip_prefix pre (om_key m) \<notin> set referenced \<and> meta_expired (w_now w) retention m) metas)),
     w\<lparr>w_store := (w_store w)\<lparr>ms_entries := fmfilter
      (\<lambda>k. k \<notin> om_key ` {m \<in> set metas. strip_prefix pre (om_key m) \<notin> set referenced \<and>
         meta_expired (w_now w) retention m}) (ms_entries (w_store w))\<rparr>\<rparr>)"
    and "map om_key metas = keys_under (pre @ DATA_PREFIX) (ms_entries (w_store w))"
    and "\<forall>m \<in> set metas. \<exists>ob. fmlookup (ms_entries (w_store w)) (om_key m) = Some ob \<and> m = mem_meta (om_key m) ob"
proof -
  obtain ms where ms: "mem_list (pre @ DATA_PREFIX) None (w_store w) = (Inr ms, w_store w)"
    and k: "map om_key ms = keys_under (pre @ DATA_PREFIX) (ms_entries (w_store w))"
    and o: "\<forall>m \<in> set ms. \<exists>ob. fmlookup (ms_entries (w_store w)) (om_key m) = Some ob \<and> m = mem_meta (om_key m) ob"
    using mem_list_run [of "pre @ DATA_PREFIX" "w_store w"] by metis
  have l: "on_store (mem_list (pre @ DATA_PREFIX) None) w = (Inr ms, w)"
    using ms by (simp add: on_store_run)
  show thesis
    by (rule that [OF _ k o], simp only: collect_garbage_def act_bind_run l prod.case sum.case,
        subst delete_fold [where P = "\<lambda>m. strip_prefix pre (om_key m) \<notin> set referenced \<and> meta_expired (w_now w) retention m"])
      (auto simp: on_store_run mem_delete_def)
qed

section \<open>Compaction keeps the view\<close>

text \<open>What a device sees of the remote: the snapshot with the log merged into it (as \<open>sync.rs\<close> reads it).\<close>

definition remote_view :: "env \<Rightarrow> string \<Rightarrow> merge_result act" where
  "remote_view E pre = act_bind (from_store E pre) (\<lambda>snap.
     act_bind (read_deltas E pre) (\<lambda>log. act_ok (merge_deltas (sn_manifest snap) (dl_deltas log))))"

lemma prefix_same_head: "prefix (p @ a # x) k \<Longrightarrow> prefix (p @ b # y) k \<Longrightarrow> a = b"
  by (auto simp: prefix_def)

lemma log_not_snapshot: "prefix (log_prefix pre) k \<Longrightarrow> \<not> prefix (snapshot_prefix pre) k"
  unfolding log_prefix_def snapshot_prefix_def by (auto dest: prefix_same_head)

lemma data_not_log: "prefix (pre @ DATA_PREFIX) k \<Longrightarrow> \<not> prefix (log_prefix pre) k"
  unfolding log_prefix_def DATA_PREFIX_def by (auto dest: prefix_same_head)

lemma data_not_snapshot: "prefix (pre @ DATA_PREFIX) k \<Longrightarrow> \<not> prefix (snapshot_prefix pre) k"
  unfolding snapshot_prefix_def DATA_PREFIX_def by (auto dest: prefix_same_head)

lemma keys_under_cong:
  assumes "\<And>k. prefix pre k \<Longrightarrow> k |\<in>| fmdom m \<longleftrightarrow> k |\<in>| fmdom n"
  shows "keys_under pre m = keys_under pre n"
proof (rule sorted_distinct_set_unique)
  show "set (keys_under pre m) = set (keys_under pre n)" using assms by auto
qed (simp_all add: keys_under_def sorted_wrt_filter)

lemma log_entries_cong:
  assumes "\<And>k. prefix (log_prefix pre) k \<Longrightarrow> fmlookup m k = fmlookup n k"
  shows "log_entries E pre m = log_entries E pre n"
proof -
  have k: "keys_under (log_prefix pre) m = keys_under (log_prefix pre) n"
    using assms by (intro keys_under_cong) (simp add: fmlookup_dom_iff)
  have "res_collect f xs = res_collect g xs" if "\<And>x. x \<in> set xs \<Longrightarrow> f x = g x"
    for f g :: "string \<Rightarrow> delta_entry list mresult" and xs
    using that by (induction xs) (auto split: sum.splits)
  then show ?thesis unfolding log_entries_def k using assms by (metis (no_types, lifting) keys_under_set mem_Collect_eq)
qed

lemma log_entries_mono:
  assumes "log_entries E pre m = Inr ds" and "log_entries E pre n = Inr es"
    and "\<And>k ob. prefix (log_prefix pre) k \<Longrightarrow> fmlookup n k = Some ob \<Longrightarrow> fmlookup m k = Some ob"
  shows "set es \<subseteq> set ds"
proof -
  let ?f = "\<lambda>m k. from_json_bytes E (obj_bytes (the (fmlookup m k)))"
  have chars: "log_entries E pre x = Inr zs \<Longrightarrow>
      set zs = {d. \<exists>k b l. prefix (log_prefix pre) k \<and> fmlookup x k = Some b \<and>
        from_json_bytes E (obj_bytes b) = Inr l \<and> d \<in> set l}" for x zs
  proof -
    assume "log_entries E pre x = Inr zs"
    then obtain zss where z: "list_all2 (\<lambda>k y. ?f x k = Inr y) (keys_under (log_prefix pre) x) zss" "zs = concat zss"
      by (auto simp: log_entries_def res_bind_ok res_collect_ok)
    have "list_all2 (\<lambda>k y. f k = Inr y) ks ys \<Longrightarrow>
      set (concat ys) = {d. \<exists>k l. k \<in> set ks \<and> f k = Inr l \<and> d \<in> set l}"
      for f :: "string \<Rightarrow> delta_entry list mresult" and ks ys
      by (induction rule: list_all2_induct) auto
    from this [OF z(1)] z(2) show ?thesis by (force simp: fmlookup_dom_iff)
  qed
  show ?thesis unfolding chars [OF assms(1)] chars [OF assms(2)] using assms(3) by blast
qed

lemma compact_steps:
  assumes "compact E pre grace retention w = (Inr n, w')"
  obtains snap w1 log w2 w3 latest w4 w5 w6 remaining w7 where
    "from_store E pre w = (Inr snap, w1)" "read_deltas E pre w1 = (Inr log, w2)"
    "to_store E (mr_manifest (merge_deltas (sn_manifest snap) (dl_deltas log))) pre w2 = (Inr (), w3)"
    "from_store E pre w3 = (Inr latest, w4)"
    "mr_manifest (merge_deltas (sn_manifest snap) (dl_deltas log)) = sn_manifest latest"
    "prune_deltas grace (dl_metas log) w4 = (Inr n, w5)"
    "prune_snapshot grace snap w5 = (Inr (), w6)"
    "read_deltas E pre w6 = (Inr remaining, w7)"
    "w' = snd (collect_garbage pre (btree_set (map d_object_key
       (fm_values (sn_manifest latest) @ dl_deltas remaining))) retention w7)"
  using assms
  by (auto simp: compact_def Let_def act_bind_ok split: if_splits)

lemma from_store_manifest_wf: "snapshots_ok pre (ms_entries (w_store w)) \<Longrightarrow> from_store E pre w = (Inr sn, w') \<Longrightarrow>
    wf_manifest (sn_manifest sn)"
  using from_store_run [of pre w E sn w'] fm_collect_paths_wf
  by (auto simp: wf_manifest_def [of fmempty] split: option.splits)

lemma read_deltas_ok:
  assumes "read_deltas E pre w = (Inr log, w')"
  shows "same_but_reads w' w \<and> log_entries E pre (ms_entries (w_store w)) = Inr (dl_deltas log) \<and>
    map om_key (dl_metas log) = keys_under (log_prefix pre) (ms_entries (w_store w))"
  using read_deltas_run [of w E pre] assms by (fastforce split: sum.splits)

lemma read_deltas_total:
  assumes "log_entries E pre (ms_entries (w_store w)) = Inr ds"
  shows "\<exists>log w'. read_deltas E pre w = (Inr log, w') \<and> dl_deltas log = ds"
  using read_deltas_run [of w E pre] assms by (fastforce split: sum.splits)

lemma prune_snapshot_run: "prune_snapshot grace s w = (Inr (), w6) \<Longrightarrow>
    w_db w6 = w_db w \<and> w_now w6 = w_now w \<and>
    (\<forall>k. sn_object_key s \<noteq> Some k \<longrightarrow> fmlookup (ms_entries (w_store w6)) k = fmlookup (ms_entries (w_store w)) k) \<and>
    (\<forall>k ob. fmlookup (ms_entries (w_store w6)) k = Some ob \<longrightarrow> fmlookup (ms_entries (w_store w)) k = Some ob)"
  by (auto simp: prune_snapshot_def on_store_run mem_delete_def split: option.splits if_splits)

lemma word_below_succ: "x < - 1 \<Longrightarrow> x < x + 1" for x :: u64
  by unat_arith

text \<open>The store after a compaction, key by key.\<close>

lemma compact_store:
  assumes "snapshots_ok pre (ms_entries (w_store w))" and "compact E pre grace retention w = (Inr n, w')"
    and "highest_known pre w < - 1"
  defines "g \<equiv> highest_known pre w + 1"
  obtains M ds es ob i where
    "wf_manifest M"
    "\<exists>snap w1 log w2. from_store E pre w = (Inr snap, w1) \<and> read_deltas E pre w1 = (Inr log, w2) \<and>
       dl_deltas log = ds \<and> M = mr_manifest (merge_deltas (sn_manifest snap) ds) \<and> wf_manifest (sn_manifest snap)"
    "encrypt_bytes (e_aead E) (e_nonce E i) (e_manifest_key E) (e_delta_json E (fm_values M)) (snapshot_key pre g) = Inr (obj_bytes ob)"
    "fmlookup (ms_entries (w_store w')) (snapshot_key pre g) = Some ob"
    "highest_manifest_generation (w_db w') \<le> g"
    "log_entries E pre (ms_entries (w_store w)) = Inr ds" "log_entries E pre (ms_entries (w_store w')) = Inr es"
    "\<And>k b. k \<noteq> snapshot_key pre g \<Longrightarrow> fmlookup (ms_entries (w_store w')) k = Some b \<Longrightarrow>
       fmlookup (ms_entries (w_store w)) k = Some b"
    "\<And>k. prefix (pre @ DATA_PREFIX) k \<Longrightarrow> strip_prefix pre k \<in> d_object_key ` (manifest_entries M \<union> set es) \<Longrightarrow>
       fmlookup (ms_entries (w_store w')) k = fmlookup (ms_entries (w_store w)) k"
proof -
  from compact_steps [OF assms(2)] obtain snap w1 log w2 w3 latest w4 w5 w6 remaining w7 where
    s1: "from_store E pre w = (Inr snap, w1)" and s2: "read_deltas E pre w1 = (Inr log, w2)"
    and s3: "to_store E (mr_manifest (merge_deltas (sn_manifest snap) (dl_deltas log))) pre w2 = (Inr (), w3)"
    and s4: "from_store E pre w3 = (Inr latest, w4)"
    and s5: "mr_manifest (merge_deltas (sn_manifest snap) (dl_deltas log)) = sn_manifest latest"
    and s6: "prune_deltas grace (dl_metas log) w4 = (Inr n, w5)"
    and s7: "prune_snapshot grace snap w5 = (Inr (), w6)"
    and s8: "read_deltas E pre w6 = (Inr remaining, w7)"
    and s9: "w' = snd (collect_garbage pre (btree_set (map d_object_key
       (fm_values (sn_manifest latest) @ dl_deltas remaining))) retention w7)"
    by blast
  let ?M = "sn_manifest latest" and ?m = "ms_entries (w_store w)" and ?k = "snapshot_key pre g"
  have e1: "ms_entries (w_store w1) = ?m" using from_store_run [OF assms(1) s1] by simp
  with read_deltas_ok [OF s2] have e2: "ms_entries (w_store w2) = ?m" and db2: "w_db w2 = w_db w1"
    and ds: "log_entries E pre ?m = Inr (dl_deltas log)"
    and metas: "map om_key (dl_metas log) = keys_under (log_prefix pre) ?m"
    by (auto simp: same_but_reads_def same_store_def)
  have hk: "highest_known pre w2 = highest_known pre w"
    using from_store_run [OF assms(1) s1] db2 by (auto simp: highest_known_def e2 split: option.splits)
  have ok2: "snapshots_ok pre (ms_entries (w_store w2))" using assms(1) e2 by simp
  from to_store_run [OF ok2 s3] obtain ob i where
    enc: "encrypt_bytes (e_aead E) (e_nonce E i) (e_manifest_key E) (e_delta_json E (fm_values ?M)) ?k = Inr (obj_bytes ob)"
    and e3: "ms_entries (w_store w3) = fmupd ?k ob ?m"
    and db3: "w_db w3 = snd (record_manifest_generation g (w_db w2))"
    unfolding hk s5 g_def [symmetric] e2 by force
  have lt: "h < g" if "latest_generation pre ?m = Some h" for h
    using assms(3) that unfolding g_def highest_known_def by (simp add: word_below_succ)
  have put3: "\<And>k. prefix (snapshot_prefix pre) k \<Longrightarrow> k |\<in>| fmdom (ms_entries (w_store w3)) \<Longrightarrow> k = ?k \<or> k |\<in>| fmdom ?m"
    by (auto simp: e3)
  have k3: "fmlookup (ms_entries (w_store w3)) ?k \<noteq> None" by (simp add: e3)
  have le: "h \<le> g" if "latest_generation pre ?m = Some h" for h using lt [OF that] by simp
  have ok3: "snapshots_ok pre (ms_entries (w_store w3))" and l3: "latest_generation pre (ms_entries (w_store w3)) = Some g"
    using latest_after_put(1,2) [OF assms(1) le k3 put3] by blast+
  have e4: "ms_entries (w_store w4) = fmupd ?k ob ?m" and db4: "highest_manifest_generation (w_db w4) \<le> g"
    and now4: "w_now w4 = w_now w3"
    using from_store_run [OF ok3 s4, unfolded l3 option.case] by (auto simp: e3 sat_i64_mono split: if_splits)
  have e5: "ms_entries (w_store w5) = fmfilter (\<lambda>k. k \<notin> om_key ` {m \<in> set (dl_metas log).
      meta_expired (w_now w4) grace m}) (fmupd ?k ob ?m)" and db5: "w_db w5 = w_db w4"
    using s6 by (auto simp: prune_deltas_run e4)
  have old: "sn_object_key snap \<noteq> Some ?k"
    using from_store_run [OF assms(1) s1] lt by (auto simp: snapshot_key_inj split: option.splits)
  have k_log: "\<not> prefix (log_prefix pre) ?k"
    using log_not_snapshot snapshot_key_prefix by blast
  have logk: "prefix (log_prefix pre) k" if "k \<in> om_key ` set (dl_metas log)" for k
    using that arg_cong [OF metas, of set] by auto
  have e6_keep: "fmlookup (ms_entries (w_store w6)) k = fmlookup (ms_entries (w_store w5)) k"
    if "sn_object_key snap \<noteq> Some k" for k
    using prune_snapshot_run [OF s7] that by blast
  have e6_sub: "fmlookup (ms_entries (w_store w5)) k = Some b" if "fmlookup (ms_entries (w_store w6)) k = Some b" for k b
    using prune_snapshot_run [OF s7] that by blast
  have db6: "w_db w6 = w_db w5" using prune_snapshot_run [OF s7] by blast
  have nonlog5: "fmlookup (ms_entries (w_store w5)) k = fmlookup (fmupd ?k ob ?m) k"
    if "\<not> prefix (log_prefix pre) k" for k
  proof -
    have "k \<notin> om_key ` {m \<in> set (dl_metas log). meta_expired (w_now w4) grace m}" using logk that by blast
    then show ?thesis by (simp add: e5)
  qed
  have k6: "fmlookup (ms_entries (w_store w6)) ?k = Some ob"
    using e6_keep [OF old] nonlog5 [OF k_log] by simp
  have sub6: "fmlookup ?m k = Some b" if "fmlookup (ms_entries (w_store w6)) k = Some b" "k \<noteq> ?k" for k b
    using e6_sub [OF that(1)] that(2) by (simp add: e5 split: if_splits)
  from read_deltas_ok [OF s8] have e7: "ms_entries (w_store w7) = ms_entries (w_store w6)" and db7: "w_db w7 = w_db w6"
    and es: "log_entries E pre (ms_entries (w_store w6)) = Inr (dl_deltas remaining)"
    by (auto simp: same_but_reads_def same_store_def)
  define ref where "ref = btree_set (map d_object_key (fm_values ?M @ dl_deltas remaining))"
  obtain ms where gc: "collect_garbage pre ref retention w7 =
    (Inr (length (filter (\<lambda>m. strip_prefix pre (om_key m) \<notin> set ref \<and> meta_expired (w_now w7) retention m) ms)),
     w7\<lparr>w_store := (w_store w7)\<lparr>ms_entries := fmfilter
      (\<lambda>k. k \<notin> om_key ` {m \<in> set ms. strip_prefix pre (om_key m) \<notin> set ref \<and>
         meta_expired (w_now w7) retention m}) (ms_entries (w_store w7))\<rparr>\<rparr>)"
    and msk: "map om_key ms = keys_under (pre @ DATA_PREFIX) (ms_entries (w_store w7))"
    by (rule collect_garbage_run [of pre ref retention w7])
  have ent': "ms_entries (w_store w') = fmfilter (\<lambda>k. k \<notin> om_key ` {m \<in> set ms.
      strip_prefix pre (om_key m) \<notin> set ref \<and> meta_expired (w_now w7) retention m}) (ms_entries (w_store w6))"
    and db': "w_db w' = w_db w7"
    unfolding s9 ref_def [symmetric] gc by (simp_all add: e7)
  have datak: "prefix (pre @ DATA_PREFIX) k" if "k \<in> om_key ` set ms" for k
    using that arg_cong [OF msk, of set] by auto
  have e': "fmlookup (ms_entries (w_store w')) k = fmlookup (ms_entries (w_store w6)) k"
    if "\<not> prefix (pre @ DATA_PREFIX) k \<or> strip_prefix pre k \<in> set ref" for k
  proof -
    have "k \<notin> om_key ` {m \<in> set ms. strip_prefix pre (om_key m) \<notin> set ref \<and> meta_expired (w_now w7) retention m}"
      using that datak by blast
    then show ?thesis by (simp add: ent')
  qed
  have sub': "fmlookup (ms_entries (w_store w6)) k = Some b" if "fmlookup (ms_entries (w_store w')) k = Some b" for k b
    using that by (simp add: ent' split: if_splits)
  have k_data: "\<not> prefix (pre @ DATA_PREFIX) ?k" using data_not_snapshot snapshot_key_prefix by blast
  show thesis
  proof (rule that [of ?M "dl_deltas log" i ob "dl_deltas remaining"])
    show "wf_manifest ?M" by (rule from_store_manifest_wf [OF ok3 s4])
    show "\<exists>snap w1 log' w2. from_store E pre w = (Inr snap, w1) \<and> read_deltas E pre w1 = (Inr log', w2) \<and>
       dl_deltas log' = dl_deltas log \<and> ?M = mr_manifest (merge_deltas (sn_manifest snap) (dl_deltas log)) \<and>
       wf_manifest (sn_manifest snap)"
      using s1 s2 s5 from_store_manifest_wf [OF assms(1) s1] by metis
    show "fmlookup (ms_entries (w_store w')) ?k = Some ob" using e' k_data k6 by simp
    show "highest_manifest_generation (w_db w') \<le> g" using db4 db5 db7 db6 by (simp add: db')
    show "log_entries E pre (ms_entries (w_store w')) = Inr (dl_deltas remaining)"
      using log_entries_cong [of pre "ms_entries (w_store w')" "ms_entries (w_store w6)" E] e' data_not_log es by metis
    show "fmlookup ?m k = Some b" if "k \<noteq> ?k" "fmlookup (ms_entries (w_store w')) k = Some b" for k b
      using sub6 sub' that by blast
    show "fmlookup (ms_entries (w_store w')) k = fmlookup ?m k"
      if d: "prefix (pre @ DATA_PREFIX) k" and r: "strip_prefix pre k \<in> d_object_key ` (manifest_entries ?M \<union> set (dl_deltas remaining))" for k
    proof -
      have "strip_prefix pre k \<in> set ref"
        using r by (auto simp: ref_def manifest_entries_values)
      then have "fmlookup (ms_entries (w_store w')) k = fmlookup (ms_entries (w_store w6)) k" using e' by blast
      also have "\<dots> = fmlookup (ms_entries (w_store w5)) k"
        using from_store_run [OF assms(1) s1] data_not_snapshot [OF d] snapshot_key_prefix
        by (intro e6_keep) (auto split: option.splits)
      also have "\<dots> = fmlookup ?m k"
        using nonlog5 [OF data_not_log [OF d]] data_not_snapshot [OF d] by auto
      finally show ?thesis .
    qed
  qed (use enc ds in auto)
qed

section \<open>Properties\<close>

text \<open>
  C16: merging is order-independent and idempotent. Two lists with the same deltas, in any order and
  with any repetitions, merge into the same manifest and the same clock.
\<close>

theorem merge_order_irrelevant:
  assumes "wf_manifest m" and "set ds = set es"
  shows "mr_manifest (merge_deltas m ds) = mr_manifest (merge_deltas m es) \<and>
    mr_remote_lamport (merge_deltas m ds) = mr_remote_lamport (merge_deltas m es)"
proof
  have "competing m ds = competing m es" using assms(2) by (simp add: competing_def fun_eq_iff)
  then show "mr_manifest (merge_deltas m ds) = mr_manifest (merge_deltas m es)"
    by (intro merge_same_competitors assms(1)) simp
  show "mr_remote_lamport (merge_deltas m ds) = mr_remote_lamport (merge_deltas m es)"
    by (simp add: merge_lamport assms(2))
qed

definition sample_delta :: delta_entry where
  "sample_delta = \<lparr>d_path = ''a'', d_object_key = ''data/x'', d_plaintext_hash = [1], d_size = 1, d_mtime_utc = 0,
     d_deleted = False, d_deleted_at = 0, d_lamport = 3, d_device_id = ''d'', d_base_hash = None\<rparr>"

definition sample_delta2 :: delta_entry where
  "sample_delta2 = sample_delta\<lparr>d_plaintext_hash := [2], d_lamport := 4\<rparr>"

theorem merge_order_irrelevant_witness:
  "mr_manifest (merge_deltas fmempty [sample_delta, sample_delta2]) =
     mr_manifest (merge_deltas fmempty [sample_delta2, sample_delta, sample_delta2])"
  using merge_order_irrelevant [of fmempty "[sample_delta, sample_delta2]" "[sample_delta2, sample_delta, sample_delta2]"]
  by (simp add: wf_manifest_def insert_commute)

text \<open>
  C17: the merge's result, path by path: an entry is in the merged manifest exactly when it is one of
  the path's entries (from the snapshot or the log) and none of them has a greater winner key, in
  which the Lamport clock comes first; the clock reported is the greatest one seen anywhere.
\<close>

theorem merge_takes_latest:
  assumes "wf_manifest m"
  shows "(fmlookup (mr_manifest (merge_deltas m ds)) p = Some e \<longleftrightarrow>
      e \<in> competing m ds p \<and> (\<forall>x \<in> competing m ds p. winner_key x \<le> winner_key e)) \<and>
    (\<forall>x \<in> manifest_entries m \<union> set ds. d_lamport x \<le> mr_remote_lamport (merge_deltas m ds))"
  using merge_lookup_Some [OF assms, of ds p e]
  by (auto simp: is_latest_def merge_lamport manifest_entries_values)

theorem merge_takes_latest_witness:
  "fmlookup (mr_manifest (merge_deltas fmempty [sample_delta2, sample_delta])) ''a'' = Some sample_delta2"
  by (subst merge_takes_latest [THEN conjunct1])
    (auto simp: wf_manifest_def competing_def winner_key_def sample_delta_def sample_delta2_def less_eq_prod_def)

lemma to_store_latest:
  assumes "snapshots_ok pre (ms_entries (w_store w))" and "to_store E M pre w = (Inr (), w')"
    and "highest_known pre w < - 1"
  shows "snapshots_ok pre (ms_entries (w_store w'))"
    and "latest_generation pre (ms_entries (w_store w')) = Some (highest_known pre w + 1)"
proof -
  let ?g = "highest_known pre w + 1"
  from to_store_run [OF assms(1,2)] obtain ob where
    e: "ms_entries (w_store w') = fmupd (snapshot_key pre ?g) ob (ms_entries (w_store w))" by blast
  have le: "h \<le> ?g" if "latest_generation pre (ms_entries (w_store w)) = Some h" for h
    using word_below_succ [OF assms(3)] that by (simp add: highest_known_def)
  have k: "fmlookup (ms_entries (w_store w')) (snapshot_key pre ?g) \<noteq> None" by (simp add: e)
  have p: "\<And>k. prefix (snapshot_prefix pre) k \<Longrightarrow> k |\<in>| fmdom (ms_entries (w_store w')) \<Longrightarrow>
      k = snapshot_key pre ?g \<or> k |\<in>| fmdom (ms_entries (w_store w))"
    by (auto simp: e)
  show "snapshots_ok pre (ms_entries (w_store w'))"
    and "latest_generation pre (ms_entries (w_store w')) = Some ?g"
    using latest_after_put(1,2) [OF assms(1) le k p] by blast+
qed

lemma to_store_from_store:
  assumes "aead_ok (e_aead E)" and "delta_codec_ok E" and "nonces_ok E" and "wf_manifest M"
    and "snapshots_ok pre (ms_entries (w_store w))" and "highest_known pre w < - 1"
    and "to_store E M pre w = (Inr (), w')"
  shows "\<exists>sn w''. from_store E pre w' = (Inr sn, w'') \<and> sn_manifest sn = M"
proof -
  from to_store_run [OF assms(5,7)] obtain c where
    "encrypt_bytes (e_aead E) (e_nonce E (w_random w)) (e_manifest_key E)
       (e_delta_json E (fm_values M)) (snapshot_key pre (highest_known pre w + 1)) = Inr c"
    and "fmlookup (ms_entries (w_store w')) (snapshot_key pre (highest_known pre w + 1)) =
       Some \<lparr>obj_bytes = c, obj_modified = w_now w\<rparr>"
    and "highest_manifest_generation (w_db w') \<le> highest_known pre w + 1"
    by (auto simp: sat_i64_mono)
  with from_store_latest [OF assms(1-4) to_store_latest [OF assms(5,7,6)]]
  show ?thesis by simp
qed

text \<open>
  C20: a snapshot reads back as it was written. After \<open>to_store\<close> the next \<open>from_store\<close> returns the same
  manifest, whatever generation the vault was at (unless the 64-bit counter is exhausted).
\<close>

theorem snapshot_roundtrip:
  assumes "aead_ok (e_aead E)" and "delta_codec_ok E" and "nonces_ok E" and "wf_manifest M"
    and "snapshots_ok pre (ms_entries (w_store w))" and "highest_known pre w < - 1"
    and "to_store E M pre w = (Inr (), w')"
  shows "\<exists>sn w''. from_store E pre w' = (Inr sn, w'') \<and> sn_manifest sn = M"
  by (rule to_store_from_store [OF assms])

lemma to_store_succeeds:
  assumes "snapshots_ok pre (ms_entries (w_store w))"
    and "\<And>n k p a. \<exists>c. encrypt_bytes (e_aead E) n k p a = Inr c"
    and "ms_fail_put_key (w_store w) = None" "ms_fail_put_prefix (w_store w) = None"
  shows "\<exists>w'. to_store E M pre w = (Inr (), w')"
proof -
  obtain ms where ms: "mem_list (snapshot_prefix pre) None (w_store w) = (Inr ms, w_store w)"
    and keys: "map om_key ms = keys_under (snapshot_prefix pre) (ms_entries (w_store w))"
    using mem_list_run [of "snapshot_prefix pre" "w_store w"] by metis
  have l: "on_store (mem_list (snapshot_prefix pre) None) w = (Inr ms, w)"
    using ms by (simp add: on_store_run)
  have "\<exists>h. (if ms \<noteq> [] then act_res (extract_generation (om_key (last ms)))
      else read_db highest_manifest_generation) w = (Inr h, w)"
  proof (cases "ms = []")
    case False
    with keys have ne: "keys_under (snapshot_prefix pre) (ms_entries (w_store w)) \<noteq> []" by auto
    from latest_generation_Some [OF assms(1) this] False assms(1) show ?thesis
      by (auto simp: last_map snapshots_ok_def extract_snapshot_key simp flip: keys)
  qed simp
  then obtain h where h: "(if ms \<noteq> [] then act_res (extract_generation (om_key (last ms)))
      else read_db highest_manifest_generation) w = (Inr h, w)" by blast
  obtain c where "encrypt_bytes (e_aead E) (e_nonce E (w_random w)) (e_manifest_key E)
      (e_delta_json E (fm_values M)) (snapshot_key pre (h + 1)) = Inr c"
    using assms(2) by blast
  with l h assms(3,4) show ?thesis
    by (simp add: to_store_def Let_def act_bind_ok act_bind_run put_bytes_ok on_db_run maybe_fail_put_def
        record_manifest_generation_def put_bytes_def on_store_run mem_put_bytes_def)
qed

lemma zero_below_max: "(0 :: u64) < - 1"
  by (simp add: word_gt_0)

lemma clean_sample: "clean_prefix ''p/''"
  by (simp add: clean_prefix_def snapshot_prefix_def)

lemma sample_snapshots_ok: "snapshots_ok ''p/'' (ms_entries (w_store sample_world))"
  by (simp add: snapshots_ok_def clean_sample sample_world_def mem_new_def)

lemma sample_highest: "highest_known ''p/'' sample_world = 0"
  by (simp add: highest_known_def latest_generation_def keys_under_def sample_world_def mem_new_def
      highest_manifest_generation_def migrate_def db_empty_def migrate_v1_def migrate_v2_def
      migrate_v3_table_def migrate_v3_device_def migrate_v4_def Let_def)

lemma sample_to_store: "\<exists>w'. to_store sample_env M ''p/'' sample_world = (Inr (), w')"
  by (rule to_store_succeeds [OF sample_snapshots_ok sample_encrypts])
    (simp_all add: sample_world_def mem_new_def)

theorem snapshot_roundtrip_witness:
  "\<exists>w' sn w''. to_store sample_env (fmupd ''a'' sample_delta fmempty) ''p/'' sample_world = (Inr (), w') \<and>
     from_store sample_env ''p/'' w' = (Inr sn, w'') \<and> sn_manifest sn = fmupd ''a'' sample_delta fmempty"
proof -
  let ?M = "fmupd ''a'' sample_delta fmempty"
  obtain w' where w': "to_store sample_env ?M ''p/'' sample_world = (Inr (), w')"
    using sample_to_store by blast
  have "wf_manifest ?M" by (simp add: wf_manifest_def sample_delta_def)
  from snapshot_roundtrip [OF sample_env_aead sample_delta_codec sample_nonces this sample_snapshots_ok _ w']
  show ?thesis using w' by (auto simp: sample_highest zero_below_max)
qed

text \<open>
  C21: a rolled-back snapshot is refused. When \<open>from_store\<close> succeeds on a vault with snapshots, the one
  it read is not older than any this device recorded, it is authentic (it decrypts under the key's own
  name, generation included, as associated data), and the recorded generation has not gone down.
\<close>

theorem rollback_refused:
  assumes "db_reachable torn (w_db w)" and "snapshots_ok pre (ms_entries (w_store w))"
    and "latest_generation pre (ms_entries (w_store w)) = Some g"
  shows "(g < highest_manifest_generation (w_db w) \<longrightarrow> (\<exists>e w'. from_store E pre w = (Inl e, w'))) \<and>
    (\<forall>sn w'. from_store E pre w = (Inr sn, w') \<longrightarrow>
      highest_manifest_generation (w_db w) \<le> highest_manifest_generation (w_db w') \<and>
      sn_object_key sn = Some (snapshot_key pre g) \<and>
      (\<exists>ob plain entries. fmlookup (ms_entries (w_store w)) (snapshot_key pre g) = Some ob \<and>
         decrypt_bytes (e_aead E) (e_manifest_key E) (obj_bytes ob) (snapshot_key pre g) = Inr plain \<and>
         e_delta_parse E plain = Some entries \<and>
         sn_manifest sn = fm_collect (map (\<lambda>e. (d_path e, e)) entries)))"
proof (intro conjI allI impI)
  assume old: "g < highest_manifest_generation (w_db w)"
  show "\<exists>e w'. from_store E pre w = (Inl e, w')"
  proof (cases "from_store E pre w")
    case (Pair r w')
    with old from_store_run [OF assms(2), of E _ w'] assms(3) show ?thesis
      by (cases r) (auto simp: not_less [symmetric])
  qed
next
  fix sn w'
  assume f: "from_store E pre w = (Inr sn, w')"
  note run = from_store_run [OF assms(2) f, unfolded assms(3) option.case]
  with sat_i64_above [OF highest_generation_bound [OF assms(1)], of g]
  show "highest_manifest_generation (w_db w) \<le> highest_manifest_generation (w_db w')"
    by (auto split: if_splits)
  show "sn_object_key sn = Some (snapshot_key pre g)"
    and "\<exists>ob plain entries. fmlookup (ms_entries (w_store w)) (snapshot_key pre g) = Some ob \<and>
         decrypt_bytes (e_aead E) (e_manifest_key E) (obj_bytes ob) (snapshot_key pre g) = Inr plain \<and>
         e_delta_parse E plain = Some entries \<and>
         sn_manifest sn = fm_collect (map (\<lambda>e. (d_path e, e)) entries)"
    using run by auto
qed

lemma sample_db_reachable: "db_reachable False (w_db sample_world)" "db_version (w_db sample_world) = 4"
  by (simp_all add: sample_world_def db_reachable_migrated) (simp add: migrate_def Let_def migrate_v4_def db_empty_def)

theorem rollback_refused_witness:
  "\<exists>w w'. to_store sample_env fmempty ''p/'' sample_world = (Inr (), w) \<and>
     (\<forall>sn. from_store sample_env ''p/'' w = (Inr sn, w') \<longrightarrow>
       highest_manifest_generation (w_db w) \<le> highest_manifest_generation (w_db w'))"
proof -
  obtain w where w: "to_store sample_env fmempty ''p/'' sample_world = (Inr (), w)"
    using sample_to_store by blast
  have "db_reachable False (w_db w)"
    using to_store_run [OF sample_snapshots_ok w] sample_db_reachable by (auto intro: db_reachable.generation)
  from rollback_refused [OF this to_store_latest [OF sample_snapshots_ok w]] w
  show ?thesis by (auto simp: sample_highest zero_below_max)
qed

text \<open>
  C19: garbage collection deletes exactly the objects under \<open>data/\<close> that nothing references and whose
  age has reached the retention; every referenced object, every younger one, and everything outside
  \<open>data/\<close> keeps its bytes. It returns the number of objects it deleted.
\<close>

theorem garbage_collection_exact:
  assumes "collect_garbage pre referenced retention w = (Inr n, w')"
  shows "fmlookup (ms_entries (w_store w')) k =
      (case fmlookup (ms_entries (w_store w)) k of
         None \<Rightarrow> None
       | Some ob \<Rightarrow> if prefix (pre @ DATA_PREFIX) k \<and> strip_prefix pre k \<notin> set referenced \<and>
             older_than_grace (w_now w) (obj_modified ob) retention
           then None else Some ob)"
proof -
  obtain ms where gc: "collect_garbage pre referenced retention w =
    (Inr (length (filter (\<lambda>m. strip_prefix pre (om_key m) \<notin> set referenced \<and> meta_expired (w_now w) retention m) ms)),
     w\<lparr>w_store := (w_store w)\<lparr>ms_entries := fmfilter
      (\<lambda>k. k \<notin> om_key ` {m \<in> set ms. strip_prefix pre (om_key m) \<notin> set referenced \<and>
         meta_expired (w_now w) retention m}) (ms_entries (w_store w))\<rparr>\<rparr>)"
    and keys: "map om_key ms = keys_under (pre @ DATA_PREFIX) (ms_entries (w_store w))"
    and obs: "\<forall>m \<in> set ms. \<exists>ob. fmlookup (ms_entries (w_store w)) (om_key m) = Some ob \<and> m = mem_meta (om_key m) ob"
    by (rule collect_garbage_run [of pre referenced retention w])
  let ?del = "om_key ` {m \<in> set ms. strip_prefix pre (om_key m) \<notin> set referenced \<and> meta_expired (w_now w) retention m}"
  have keyset: "om_key ` set ms = {k. prefix (pre @ DATA_PREFIX) k \<and> k |\<in>| fmdom (ms_entries (w_store w))}"
    using arg_cong [OF keys, of set] by simp
  show ?thesis
  proof (cases "fmlookup (ms_entries (w_store w)) k")
    case None
    with gc assms show ?thesis by simp
  next
    case (Some ob)
    have expired: "meta_expired (w_now w) retention m \<longleftrightarrow> older_than_grace (w_now w) (obj_modified ob) retention"
      if "m \<in> set ms" "om_key m = k" for m
      using bspec [OF obs that(1)] that(2) Some meta_expired_mem_meta by auto
    have "k \<in> om_key ` set ms \<longleftrightarrow> prefix (pre @ DATA_PREFIX) k"
      unfolding keyset using Some by (auto intro: fmdomI)
    with expired have "k \<in> ?del \<longleftrightarrow> prefix (pre @ DATA_PREFIX) k \<and> strip_prefix pre k \<notin> set referenced \<and>
        older_than_grace (w_now w) (obj_modified ob) retention"
      by blast
    with Some gc assms show ?thesis by auto
  qed
qed

theorem garbage_collection_exact_witness:
  "\<exists>n w'. collect_garbage ''p/'' [] 0 (snd (put_bytes ''p/data/x'' [1] sample_world)) = (Inr n, w') \<and>
     fmlookup (ms_entries (w_store w')) ''p/data/x'' = None"
proof -
  let ?w = "snd (put_bytes ''p/data/x'' [1] sample_world)"
  obtain n w' where gc: "collect_garbage ''p/'' [] 0 ?w = (Inr n, w')"
    by (rule collect_garbage_run [of "''p/''" "[]" 0 ?w], erule that)
  have "fmlookup (ms_entries (w_store w')) ''p/data/x'' = None"
    by (subst garbage_collection_exact [OF gc])
      (simp add: put_bytes_def on_store_run mem_put_bytes_def maybe_fail_put_def sample_world_def mem_new_def
        mem_insert_def DATA_PREFIX_def older_than_grace_def)
  with gc show ?thesis by blast
qed

text \<open>
  C18: compaction does not change what any device sees. If a compaction succeeds, reading the remote
  afterwards gives the manifest that reading it before gave, and every content object that this
  manifest references is untouched.
\<close>

theorem compaction_preserves_view:
  assumes "aead_ok (e_aead E)" and "delta_codec_ok E" and "nonces_ok E"
    and "snapshots_ok pre (ms_entries (w_store w))" and "highest_known pre w < - 1"
    and "compact E pre grace retention w = (Inr n, w')"
  shows "\<exists>v w1 v' w1'. remote_view E pre w = (Inr v, w1) \<and> remote_view E pre w' = (Inr v', w1') \<and>
    mr_manifest v' = mr_manifest v \<and>
    (\<forall>e \<in> manifest_entries (mr_manifest v). prefix DATA_PREFIX (d_object_key e) \<longrightarrow>
      fmlookup (ms_entries (w_store w')) (pre @ d_object_key e) =
      fmlookup (ms_entries (w_store w)) (pre @ d_object_key e))"
proof -
  let ?g = "highest_known pre w + 1"
  obtain M ds es ob i where wf: "wf_manifest M"
    and reads: "\<exists>snap w1 log w2. from_store E pre w = (Inr snap, w1) \<and> read_deltas E pre w1 = (Inr log, w2) \<and>
       dl_deltas log = ds \<and> M = mr_manifest (merge_deltas (sn_manifest snap) ds) \<and> wf_manifest (sn_manifest snap)"
    and enc: "encrypt_bytes (e_aead E) (e_nonce E i) (e_manifest_key E) (e_delta_json E (fm_values M)) (snapshot_key pre ?g) = Inr (obj_bytes ob)"
    and new: "fmlookup (ms_entries (w_store w')) (snapshot_key pre ?g) = Some ob"
    and gen: "highest_manifest_generation (w_db w') \<le> ?g"
    and log: "log_entries E pre (ms_entries (w_store w)) = Inr ds" "log_entries E pre (ms_entries (w_store w')) = Inr es"
    and sub: "\<And>k b. k \<noteq> snapshot_key pre ?g \<Longrightarrow> fmlookup (ms_entries (w_store w')) k = Some b \<Longrightarrow>
       fmlookup (ms_entries (w_store w)) k = Some b"
    and kept: "\<And>k. prefix (pre @ DATA_PREFIX) k \<Longrightarrow> strip_prefix pre k \<in> d_object_key ` (manifest_entries M \<union> set es) \<Longrightarrow>
       fmlookup (ms_entries (w_store w')) k = fmlookup (ms_entries (w_store w)) k"
    by (rule compact_store [OF assms(4,6,5)]) blast
  from reads obtain snap w1 log w2 where r: "from_store E pre w = (Inr snap, w1)" "read_deltas E pre w1 = (Inr log, w2)"
    "dl_deltas log = ds" "M = mr_manifest (merge_deltas (sn_manifest snap) ds)" "wf_manifest (sn_manifest snap)"
    by blast
  have before: "remote_view E pre w = (Inr (merge_deltas (sn_manifest snap) ds), w2)"
    using r by (simp add: remote_view_def)
  have le: "h \<le> ?g" if "latest_generation pre (ms_entries (w_store w)) = Some h" for h
    using word_below_succ [OF assms(5)] that by (simp add: highest_known_def)
  have k: "fmlookup (ms_entries (w_store w')) (snapshot_key pre ?g) \<noteq> None" using new by simp
  have p: "\<And>k. prefix (snapshot_prefix pre) k \<Longrightarrow> k |\<in>| fmdom (ms_entries (w_store w')) \<Longrightarrow>
      k = snapshot_key pre ?g \<or> k |\<in>| fmdom (ms_entries (w_store w))"
    using sub by (metis fmlookup_dom_iff)
  have ok': "snapshots_ok pre (ms_entries (w_store w'))"
    and l': "latest_generation pre (ms_entries (w_store w')) = Some ?g"
    using latest_after_put(1,2) [OF assms(4) le k p] by blast+
  from from_store_latest [OF assms(1-3) wf ok' l' new enc gen] obtain sn v1
    where f': "from_store E pre w' = (Inr sn, v1)" and sn: "sn_manifest sn = M" by blast
  have "ms_entries (w_store v1) = ms_entries (w_store w')" using from_store_run [OF ok' f'] by simp
  then obtain log' v2 where "read_deltas E pre v1 = (Inr log', v2)" "dl_deltas log' = es"
    using read_deltas_total [of E pre v1 es] log(2) by auto
  with f' sn have after: "remote_view E pre w' = (Inr (merge_deltas M es), v2)"
    by (simp add: remote_view_def)
  have "set es \<subseteq> set ds"
    using log_entries_mono [OF log] sub log_not_snapshot snapshot_key_prefix by metis
  then have "mr_manifest (merge_deltas M es) = M"
    using merge_absorbs [OF r(5)] r(4) by simp
  moreover have "fmlookup (ms_entries (w_store w')) (pre @ d_object_key e) = fmlookup (ms_entries (w_store w)) (pre @ d_object_key e)"
    if "e \<in> manifest_entries M" "prefix DATA_PREFIX (d_object_key e)" for e
    by (rule kept) (use that in \<open>auto simp: strip_prefix_def\<close>)
  ultimately show ?thesis using before after r(4) by auto
qed

lemma sample_compact: "\<exists>n w'. compact sample_env ''p/'' 0 0 sample_world = (Inr n, w')"
proof -
  let ?w = "sample_world"
  have f: "from_store sample_env ''p/'' ?w =
      (Inr \<lparr>sn_manifest = fmempty, sn_object_key = None, sn_modified_at = Some (w_now ?w)\<rparr>, ?w)"
    and r: "read_deltas sample_env ''p/'' ?w = (Inr \<lparr>dl_deltas = [], dl_metas = []\<rparr>, ?w)"
    by (simp_all add: from_store_def read_deltas_def on_store_run mem_list_def sample_world_def mem_new_def act_bind_run)
  have m: "mr_manifest (merge_deltas fmempty []) = fmempty" by (simp add: merge_deltas_def)
  obtain w3 where t: "to_store sample_env fmempty ''p/'' ?w = (Inr (), w3)" using sample_to_store by blast
  from to_store_from_store [OF sample_env_aead sample_delta_codec sample_nonces _ sample_snapshots_ok _ t]
  obtain sn w4 where f4: "from_store sample_env ''p/'' w3 = (Inr sn, w4)" "sn_manifest sn = fmempty"
    by (auto simp: wf_manifest_def sample_highest zero_below_max)
  have "ms_entries (w_store w4) = ms_entries (w_store w3)"
    using from_store_run [OF to_store_latest(1) [OF sample_snapshots_ok t] f4(1)]
    by (simp add: sample_highest zero_below_max)
  with to_store_run [OF sample_snapshots_ok t] obtain ob g where
    e4: "ms_entries (w_store w4) = fmupd (snapshot_key ''p/'' g) ob fmempty"
    by (auto simp: sample_world_def mem_new_def)
  have "keys_under (log_prefix ''p/'') (ms_entries (w_store w4)) = []"
    using log_not_snapshot [of "''p/''" "snapshot_key ''p/'' g"]
    by (auto simp: e4 keys_under_def filter_empty_conv)
  then have "log_entries sample_env ''p/'' (ms_entries (w_store w4)) = Inr []" by (simp add: log_entries_def)
  from read_deltas_total [OF this] obtain log w5 where r5: "read_deltas sample_env ''p/'' w4 = (Inr log, w5)" by blast
  obtain k v where "collect_garbage ''p/'' (btree_set (map d_object_key (fm_values (fmempty :: manifest) @ dl_deltas log))) 0 w5 = (Inr k, v)"
    by (rule collect_garbage_run [of "''p/''" "btree_set (map d_object_key (fm_values (fmempty :: manifest) @ dl_deltas log))" 0 w5], erule that)
  with f r m t f4 r5 show ?thesis
    by (simp add: compact_def Let_def prune_deltas_def prune_snapshot_def act_bind_run)
qed

theorem compaction_preserves_view_witness:
  "\<exists>n w' v w1 v' w1'. compact sample_env ''p/'' 0 0 sample_world = (Inr n, w') \<and>
     remote_view sample_env ''p/'' sample_world = (Inr v, w1) \<and> remote_view sample_env ''p/'' w' = (Inr v', w1') \<and>
     mr_manifest v' = mr_manifest v"
proof -
  obtain n w' where c: "compact sample_env ''p/'' 0 0 sample_world = (Inr n, w')" using sample_compact by blast
  have "highest_known ''p/'' sample_world < - 1" by (simp add: sample_highest zero_below_max)
  from compaction_preserves_view [OF sample_env_aead sample_delta_codec sample_nonces sample_snapshots_ok this c] c
  show ?thesis by blast
qed

text \<open>
  The delta log is stored in the clear. What \<open>log_delta\<close> puts under \<open>log/\<close> is the JSON of the
  entries itself, plaintext paths and hashes included, under a key that names the clock and the device;
  no encryption key takes part in it.
\<close>

theorem delta_log_in_clear:
  assumes "log_delta E pre log lamport seq w = (Inr k, w')"
  shows "(\<exists>device. device_id (w_db w) = Inr device \<and> k = delta_key pre lamport device seq) \<and>
    fmlookup (ms_entries (w_store w')) k = Some \<lparr>obj_bytes = e_delta_json E log, obj_modified = w_now w\<rparr>"
  using assms
  by (auto simp: log_delta_def act_bind_ok Let_def put_bytes_ok mem_insert_def)

theorem delta_log_in_clear_witness:
  "fmlookup (ms_entries (w_store (snd (log_delta sample_env ''p/'' [sample_delta] 3 0 sample_world))))
     (delta_key ''p/'' 3 ''device'' 0) = Some \<lparr>obj_bytes = enc_list enc_delta [sample_delta], obj_modified = 1000000000\<rparr>"
proof -
  have dev: "device_id (w_db sample_world) = Inr ''device''"
    by (simp add: sample_world_def device_id_def migrate_def db_empty_def migrate_v1_def migrate_v2_def
        migrate_v3_table_def migrate_v3_device_def migrate_v4_def Let_def)
  have put: "put_bytes k b sample_world = (Inr (), sample_world\<lparr>w_store := mem_insert (w_now sample_world) k b (w_store sample_world)\<rparr>)" for k b
    by (subst put_bytes_ok) (simp add: maybe_fail_put_def sample_world_def mem_new_def)
  obtain k w' where l: "log_delta sample_env ''p/'' [sample_delta] 3 0 sample_world = (Inr k, w')"
    by (simp add: log_delta_def dev act_bind_run Let_def put)
  have "w_now sample_world = 1000000000" and "e_delta_json sample_env = enc_list enc_delta"
    by (simp_all add: sample_world_def sample_env_def)
  with delta_log_in_clear [OF l] dev l show ?thesis by auto
qed

text \<open>
  A vault prefix that itself contains \<open>generation\<close> followed by digits defeats the snapshot
  numbering: every snapshot key is read back as the number in the prefix, so every snapshot is written
  under the same key and the rollback check compares with that constant.
\<close>

theorem prefix_defeats_generations:
  "extract_generation (snapshot_key (''generation7/'' @ rest) g) = Inr 7"
proof -
  have "capture_generation (snapshot_key (''generation7/'' @ rest) g) =
      (case capture_generation ''generation7'' of Some x \<Rightarrow> Some x
       | None \<Rightarrow> capture_generation (rest @ ''snapshot/generation'' @ dec_pad 20 (unat g) @ ''.snap''))"
    unfolding snapshot_key_def
    using capture_slash [of "''generation7''" "rest @ ''snapshot/generation'' @ dec_pad 20 (unat g) @ ''.snap''"]
    by simp
  moreover have "capture_generation ''generation7'' = Some ''7''" by (simp add: is_digit_def)
  ultimately have "capture_generation (snapshot_key (''generation7/'' @ rest) g) = Some ''7''" by simp
  moreover have "parse_u64 ''7'' = Some 7"
    by (simp add: parse_u64_def is_digit_def dec_val_def digit_val_def)
  ultimately show ?thesis by (simp add: extract_generation_def)
qed

end
