(* ===== verification/Engine.thy ===== *)
theory Engine
  imports Manifest
begin

text \<open>
  The reconcile engine (\<open>engine.rs\<close>): a pure function from the local scan, the baseline of the last
  sync, the remote manifest and the device's residency inputs to the plan of actions. The model is the
  code's function, case by case; the glob library is the only parameter.
\<close>

section \<open>Plans\<close>

text \<open>The order of the constructors is the order of execution (\<open>derive(Ord)\<close>).\<close>

datatype action_kind =
    Download | Hydrate | Relocate | Upload | CreatePlaceholder | UpdatePlaceholder
  | DeleteLocal | DeleteRemote | Conflict

definition kind_rank :: "action_kind \<Rightarrow> nat" where
  "kind_rank k = (case k of Download \<Rightarrow> 0 | Hydrate \<Rightarrow> 1 | Relocate \<Rightarrow> 2 | Upload \<Rightarrow> 3
     | CreatePlaceholder \<Rightarrow> 4 | UpdatePlaceholder \<Rightarrow> 5 | DeleteLocal \<Rightarrow> 6 | DeleteRemote \<Rightarrow> 7 | Conflict \<Rightarrow> 8)"

lemma kind_rank_inj: "kind_rank k = kind_rank l \<Longrightarrow> k = l"
  by (cases k; cases l) (simp_all add: kind_rank_def)

instantiation action_kind :: linorder
begin

definition less_eq_action_kind :: "action_kind \<Rightarrow> action_kind \<Rightarrow> bool" where
  "k \<le> l \<longleftrightarrow> kind_rank k \<le> kind_rank l"

definition less_action_kind :: "action_kind \<Rightarrow> action_kind \<Rightarrow> bool" where
  "k < l \<longleftrightarrow> kind_rank k < kind_rank l"

instance
  by standard (auto simp: less_eq_action_kind_def less_action_kind_def intro: kind_rank_inj)

end

record action_item =
  a_path :: string
  a_kind :: action_kind

record plan =
  pl_actions :: "action_item list"
  pl_relocations :: "(string, delta_entry) fmap"

definition plan_count :: "action_kind \<Rightarrow> plan \<Rightarrow> nat" where
  "plan_count k p = length (filter (\<lambda>a. a_kind a = k) (pl_actions p))"

definition kind_name :: "action_kind \<Rightarrow> string" where
  "kind_name k = (case k of Download \<Rightarrow> ''download'' | Hydrate \<Rightarrow> ''hydrate'' | Relocate \<Rightarrow> ''relocate''
     | Upload \<Rightarrow> ''upload'' | CreatePlaceholder \<Rightarrow> ''placeholder'' | UpdatePlaceholder \<Rightarrow> ''update-placeholder''
     | DeleteLocal \<Rightarrow> ''delete-local'' | DeleteRemote \<Rightarrow> ''delete-remote'' | Conflict \<Rightarrow> ''conflict'')"

section \<open>Decisions\<close>

datatype change = Unchanged | Created | Modified | Deleted

fun classify :: "hash option \<Rightarrow> hash option \<Rightarrow> change" where
  "classify None None = Unchanged"
| "classify None (Some _) = Deleted"
| "classify (Some _) None = Created"
| "classify (Some c) (Some b) = (if c = b then Unchanged else Modified)"

definition decide :: "change \<Rightarrow> change \<Rightarrow> hash option \<Rightarrow> hash option \<Rightarrow> action_kind option" where
  "decide here there local_hash remote_hash = (case (here, there) of
      (Unchanged, Unchanged) \<Rightarrow> None
    | (Unchanged, Created) \<Rightarrow> Some Download
    | (Unchanged, Modified) \<Rightarrow> Some Download
    | (Unchanged, Deleted) \<Rightarrow> Some DeleteLocal
    | (Created, Unchanged) \<Rightarrow> Some Upload
    | (Modified, Unchanged) \<Rightarrow> Some Upload
    | (Created, Created) \<Rightarrow> if local_hash = remote_hash then None else Some Conflict
    | (Created, Modified) \<Rightarrow> if local_hash = remote_hash then None else Some Conflict
    | (Modified, Created) \<Rightarrow> if local_hash = remote_hash then None else Some Conflict
    | (Modified, Modified) \<Rightarrow> if local_hash = remote_hash then None else Some Conflict
    | (Created, Deleted) \<Rightarrow> Some Conflict
    | (Modified, Deleted) \<Rightarrow> Some Conflict
    | (Deleted, Created) \<Rightarrow> Some Conflict
    | (Deleted, Modified) \<Rightarrow> Some Conflict
    | (Deleted, Unchanged) \<Rightarrow> Some DeleteRemote
    | (Deleted, Deleted) \<Rightarrow> None)"

record residency_view =
  rv_placeholders :: "(string, stub_meta) fmap"
  rv_policy :: policy
  rv_hydrate :: "string list"

definition live_entry :: "manifest \<Rightarrow> string \<Rightarrow> delta_entry option" where
  "live_entry remote path = (case fmlookup remote path of
      None \<Rightarrow> None | Some e \<Rightarrow> if d_deleted e then None else Some e)"

definition wants_local :: "globs \<Rightarrow> residency_view \<Rightarrow> string \<Rightarrow> bool" where
  "wants_local g view path \<longleftrightarrow> path \<in> set (rv_hydrate view) \<or> policy_mode g (rv_policy view) path = Local"

text \<open>The action for a placeholder with no real file beside it, and the relocation it needs.\<close>

definition placeholder_action :: "globs \<Rightarrow> string \<Rightarrow> stub_meta \<Rightarrow> file_record option \<Rightarrow> change \<Rightarrow> manifest \<Rightarrow>
    residency_view \<Rightarrow> action_kind option \<times> delta_entry option" where
  "placeholder_action g path meta rec there_change remote view =
     (if st_path meta \<noteq> path
      then case live_entry remote (st_path meta) of
             None \<Rightarrow> (None, None)
           | Some source \<Rightarrow> (Some Relocate, Some source)
      else let local = wants_local g view path;
               refresh = (if local then Hydrate else UpdatePlaceholder)
           in (case (Option.bind rec f_last_synced_hash, there_change) of
                 (None, Created) \<Rightarrow> Some refresh
               | (None, _) \<Rightarrow> None
               | (Some _, Unchanged) \<Rightarrow>
                   (if local then Some Hydrate
                    else if (case rec of None \<Rightarrow> False | Some r \<Rightarrow> is_evicted r) then None
                    else Some UpdatePlaceholder)
               | (Some _, Created) \<Rightarrow> Some refresh
               | (Some _, Modified) \<Rightarrow> Some refresh
               | (Some _, Deleted) \<Rightarrow> Some DeleteLocal, None))"

text \<open>An evicted file whose placeholder is gone, and a path with neither a file nor a placeholder.\<close>

definition evicted_action :: "change \<Rightarrow> action_kind option" where
  "evicted_action there_change = (case there_change of
      Unchanged \<Rightarrow> Some DeleteRemote
    | Created \<Rightarrow> Some Hydrate
    | Modified \<Rightarrow> Some Hydrate
    | Deleted \<Rightarrow> Some DeleteLocal)"

definition absent_action :: "globs \<Rightarrow> policy \<Rightarrow> string \<Rightarrow> action_kind option \<Rightarrow> action_kind option" where
  "absent_action g pol path decided =
     (if decided = Some Download \<and> arrives_online_only g pol path then Some CreatePlaceholder else decided)"

text \<open>The body of the loop over paths.\<close>

definition path_action :: "globs \<Rightarrow> (string, local_entry) fmap \<Rightarrow> baseline \<Rightarrow> manifest \<Rightarrow> residency_view \<Rightarrow> string \<Rightarrow>
    action_kind option \<times> delta_entry option" where
  "path_action g local base_line remote view path =
     (let rec = fmlookup base_line path;
          base = Option.bind rec f_last_synced_hash;
          here = map_option le_hash (fmlookup local path);
          there = map_option d_plaintext_hash (live_entry remote path);
          there_change = classify there base
      in if here \<noteq> None then (decide (classify here base) there_change here there, None)
         else case fmlookup (rv_placeholders view) path of
             Some meta \<Rightarrow> placeholder_action g path meta rec there_change remote view
           | None \<Rightarrow>
               (if (case rec of None \<Rightarrow> False | Some r \<Rightarrow> is_evicted r)
                then (evicted_action there_change, None)
                else (absent_action g (rv_policy view) path (decide (classify None base) there_change None there), None)))"

definition plan_paths :: "(string, local_entry) fmap \<Rightarrow> baseline \<Rightarrow> manifest \<Rightarrow> residency_view \<Rightarrow> string list" where
  "plan_paths local base_line remote view =
     btree_set (fm_keys local @ fm_keys base_line @ fm_keys remote @ fm_keys (rv_placeholders view))"

definition reconcile_with ::
    "globs \<Rightarrow> local_entry list \<Rightarrow> baseline \<Rightarrow> manifest \<Rightarrow> residency_view \<Rightarrow> plan" where
  "reconcile_with g local_list base_line remote view =
     (let local = fm_collect (map (\<lambda>e. (le_path e, e)) local_list);
          paths = plan_paths local base_line remote view;
          act = path_action g local base_line remote view
      in \<lparr>pl_actions = sort_key (\<lambda>a. (a_kind a, a_path a))
            (concat (map (\<lambda>p. case fst (act p) of None \<Rightarrow> [] | Some k \<Rightarrow> [\<lparr>a_path = p, a_kind = k\<rparr>]) paths)),
          pl_relocations = fm_collect
            (concat (map (\<lambda>p. case snd (act p) of None \<Rightarrow> [] | Some e \<Rightarrow> [(p, e)]) paths))\<rparr>)"

definition no_residency :: residency_view where
  "no_residency = \<lparr>rv_placeholders = fmempty, rv_policy = policy_default, rv_hydrate = []\<rparr>"

definition reconcile :: "globs \<Rightarrow> local_entry list \<Rightarrow> baseline \<Rightarrow> manifest \<Rightarrow> plan" where
  "reconcile g local base_line remote = reconcile_with g local base_line remote no_residency"

section \<open>The plan, path by path\<close>

definition local_map :: "local_entry list \<Rightarrow> (string, local_entry) fmap" where
  "local_map es = fm_collect (map (\<lambda>e. (le_path e, e)) es)"

abbreviation plan_action where
  "plan_action g es b r v p \<equiv> fst (path_action g (local_map es) b r v p)"

lemma path_action_elsewhere:
  assumes "p \<notin> set (plan_paths local b r v)"
  shows "path_action g local b r v p = (None, None)"
proof -
  have "fmlookup local p = None" "fmlookup b p = None" "fmlookup r p = None" "fmlookup (rv_placeholders v) p = None"
    using assms by (auto simp: plan_paths_def fmdom_notD)
  then show ?thesis by (simp add: path_action_def Let_def live_entry_def decide_def absent_action_def)
qed

lemma plan_action_iff:
  "\<lparr>a_path = p, a_kind = k\<rparr> \<in> set (pl_actions (reconcile_with g es b r v)) \<longleftrightarrow> plan_action g es b r v p = Some k"
proof -
  have "p \<in> set (plan_paths (local_map es) b r v)" if "plan_action g es b r v p = Some k"
    using path_action_elsewhere [of p "local_map es" b r v g] that
    by (cases "p \<in> set (plan_paths (local_map es) b r v)") simp_all
  then show ?thesis
    by (auto simp: reconcile_with_def Let_def local_map_def [symmetric] split: option.splits)
qed

lemma plan_actions_distinct: "distinct (map a_path (pl_actions (reconcile_with g es b r v)))"
proof -
  have "distinct (map a_path (concat (map (\<lambda>p. case f p of None \<Rightarrow> [] | Some k \<Rightarrow> [\<lparr>a_path = p, a_kind = k\<rparr>]) ps)))"
    if "distinct ps" for f ps
    using that by (induction ps) (auto split: option.splits)
  from this [of "plan_paths (local_map es) b r v" "\<lambda>p. plan_action g es b r v p"]
  have d: "distinct (map a_path (concat (map (\<lambda>p. case plan_action g es b r v p of None \<Rightarrow> []
      | Some k \<Rightarrow> [\<lparr>a_path = p, a_kind = k\<rparr>]) (plan_paths (local_map es) b r v))))"
    by (simp add: plan_paths_def)
  have "distinct (map f (sort_key h xs)) \<longleftrightarrow> distinct (map f xs)" for f :: "action_item \<Rightarrow> string" and h :: "action_item \<Rightarrow> action_kind \<times> string" and xs
    by (simp add: distinct_map)
  with d show ?thesis by (simp add: reconcile_with_def Let_def local_map_def)
qed

lemma plan_actions_sorted: "sorted (map (\<lambda>a. (a_kind a, a_path a)) (pl_actions (reconcile_with g es b r v)))"
  by (simp add: reconcile_with_def Let_def)

lemma relocation_lookup:
  "fmlookup (pl_relocations (reconcile_with g es b r v)) p = snd (path_action g (local_map es) b r v p)"
proof -
  let ?act = "path_action g (local_map es) b r v" and ?ps = "plan_paths (local_map es) b r v"
  have "map_of (rev (concat (map (\<lambda>p. case f p of None \<Rightarrow> [] | Some e \<Rightarrow> [(p, e)]) ps))) p =
      (if p \<in> set ps then f p else None)" if "distinct ps" for f :: "string \<Rightarrow> delta_entry option" and ps
    using that
  proof (induction ps)
    case (Cons q qs)
    have "p \<notin> set qs \<Longrightarrow> map_of (rev (concat (map (\<lambda>p. case f p of None \<Rightarrow> [] | Some e \<Rightarrow> [(p, e)]) qs))) p = None"
      by (auto simp: map_of_eq_None_iff split: option.splits)
    with Cons show ?case by (auto split: option.splits simp: map_add_def)
  qed simp
  then have "fmlookup (pl_relocations (reconcile_with g es b r v)) p = (if p \<in> set ?ps then snd (?act p) else None)"
    by (simp add: reconcile_with_def Let_def local_map_def fm_collect_lookup plan_paths_def)
  with path_action_elsewhere show ?thesis by (cases "p \<in> set ?ps") auto
qed

text \<open>\<open>decide\<close> by the hashes it is given.\<close>

lemma classify_cases:
  "classify c b = Unchanged \<longleftrightarrow> c = b"
  "classify c b = Created \<longleftrightarrow> c \<noteq> None \<and> b = None"
  "classify c b = Deleted \<longleftrightarrow> c = None \<and> b \<noteq> None"
  "classify c b = Modified \<longleftrightarrow> c \<noteq> None \<and> b \<noteq> None \<and> c \<noteq> b"
  by (cases c; cases b; auto)+

lemma decide_hashes:
  "decide (classify here base) (classify there base) here there =
    (if here = base then if there = base then None else if there = None then Some DeleteLocal else Some Download
     else if there = base then if here = None then Some DeleteRemote else Some Upload
     else if here = there then None else Some Conflict)"
  by (cases here; cases there; cases base) (auto simp: decide_def)

lemma decide_kinds: "decide x y h t \<noteq> Some Relocate" "decide x y h t \<noteq> Some Hydrate"
  "decide x y h t \<noteq> Some CreatePlaceholder" "decide x y h t \<noteq> Some UpdatePlaceholder"
  by (cases x; cases y; simp add: decide_def)+

lemma placeholder_relocates:
  "snd (placeholder_action g p m rec c r v) \<noteq> None \<longleftrightarrow> fst (placeholder_action g p m rec c r v) = Some Relocate"
  by (cases c) (auto simp: placeholder_action_def Let_def split: option.splits)

lemma evicted_relocates: "evicted_action c \<noteq> Some Relocate"
  by (cases c) (simp_all add: evicted_action_def)

lemma absent_relocates: "absent_action g pol p (decide x y h t) \<noteq> Some Relocate"
  using decide_kinds(1) [of x y h t] by (simp add: absent_action_def)

lemma path_relocates: "snd (path_action g l b r v p) \<noteq> None \<longleftrightarrow> fst (path_action g l b r v p) = Some Relocate"
proof (cases "fmlookup l p")
  case None
  show ?thesis
  proof (cases "fmlookup (rv_placeholders v) p")
    case None
    with \<open>fmlookup l p = None\<close> show ?thesis
      by (auto simp: path_action_def Let_def evicted_relocates absent_relocates)
  next
    case (Some m)
    with \<open>fmlookup l p = None\<close> placeholder_relocates show ?thesis
      by (simp add: path_action_def Let_def)
  qed
qed (simp add: path_action_def Let_def decide_kinds)

lemma plan_action_real_file:
  assumes "fmlookup (local_map es) p = Some e"
  shows "plan_action g es b r v p =
    (let here = Some (le_hash e); base = Option.bind (fmlookup b p) f_last_synced_hash;
         there = map_option d_plaintext_hash (live_entry r p)
     in decide (classify here base) (classify there base) here there)"
  using assms by (simp add: path_action_def Let_def)

section \<open>Properties\<close>

text \<open>
  The plan's shape. It has at most one action for any path, namely the one that the rules give for
  that path; its actions are in the order of their kinds, so every transfer comes before every
  deletion, and by path within a kind; and it carries a source for exactly the relocations.
\<close>

theorem plan_shape:
  shows "(\<lparr>a_path = p, a_kind = k\<rparr> \<in> set (pl_actions (reconcile_with g es b r v)) \<longleftrightarrow>
      fst (path_action g (local_map es) b r v p) = Some k) \<and>
    distinct (map a_path (pl_actions (reconcile_with g es b r v))) \<and>
    sorted (map (\<lambda>a. (a_kind a, a_path a)) (pl_actions (reconcile_with g es b r v))) \<and>
    (fmlookup (pl_relocations (reconcile_with g es b r v)) p \<noteq> None \<longleftrightarrow>
      \<lparr>a_path = p, a_kind = Relocate\<rparr> \<in> set (pl_actions (reconcile_with g es b r v)))"
  using path_relocates
  by (simp add: plan_action_iff plan_actions_distinct plan_actions_sorted relocation_lookup)

text \<open>
  C5: what the planner does with the path of a local edit. If the file on disk does not hold the content
  last synced, whatever the remote says, the only action planned for its path is a conflict (which sets
  the file aside under another name) or an upload, and an upload only if the remote did not move: no
  download, relocation or deletion is planned for that path. Actions planned for other paths, and edits
  made after the scan, are not covered.
\<close>

theorem local_edits_kept:
  assumes "fmlookup (local_map es) p = Some e"
    and "Option.bind (fmlookup b p) f_last_synced_hash \<noteq> Some (le_hash e)"
    and "\<lparr>a_path = p, a_kind = k\<rparr> \<in> set (pl_actions (reconcile_with g es b r v))"
  shows "k = Conflict \<or> k = Upload \<and>
    map_option d_plaintext_hash (live_entry r p) = Option.bind (fmlookup b p) f_last_synced_hash"
  using assms by (auto simp: plan_action_iff plan_action_real_file decide_hashes Let_def split: if_splits)

definition sample_entry :: "hash \<Rightarrow> local_entry" where
  "sample_entry h = \<lparr>le_path = ''a'', le_size = 1, le_mtime_ns = 5, le_hash = h\<rparr>"

theorem local_edits_kept_witness:
  "\<lparr>a_path = ''a'', a_kind = Conflict\<rparr> \<in> set (pl_actions (reconcile sample_globs [sample_entry [9]] fmempty (fmupd ''a'' sample_delta fmempty))) \<and>
   \<lparr>a_path = ''a'', a_kind = Download\<rparr> \<notin> set (pl_actions (reconcile sample_globs [sample_entry [9]] fmempty (fmupd ''a'' sample_delta fmempty)))"
proof -
  have l: "fmlookup (local_map [sample_entry [9]]) ''a'' = Some (sample_entry [9])"
    by (simp add: local_map_def fm_collect_def sample_entry_def)
  have c: "\<lparr>a_path = ''a'', a_kind = Conflict\<rparr> \<in> set (pl_actions (reconcile sample_globs [sample_entry [9]] fmempty (fmupd ''a'' sample_delta fmempty)))"
    unfolding reconcile_def plan_action_iff plan_action_real_file [OF l] decide_hashes Let_def
    by (simp add: sample_entry_def sample_delta_def live_entry_def)
  moreover have "\<lparr>a_path = ''a'', a_kind = Download\<rparr> \<notin> set (pl_actions (reconcile sample_globs [sample_entry [9]] fmempty (fmupd ''a'' sample_delta fmempty)))"
    using local_edits_kept [OF l, of fmempty Download] unfolding reconcile_def by auto
  ultimately show ?thesis by blast
qed



definition base_hash :: "baseline \<Rightarrow> string \<Rightarrow> hash option" where
  "base_hash b p = Option.bind (fmlookup b p) f_last_synced_hash"

definition remote_hash :: "manifest \<Rightarrow> string \<Rightarrow> hash option" where
  "remote_hash r p = map_option d_plaintext_hash (live_entry r p)"

definition record_evicted :: "baseline \<Rightarrow> string \<Rightarrow> bool" where
  "record_evicted b p = (case fmlookup b p of None \<Rightarrow> False | Some x \<Rightarrow> is_evicted x)"

lemma plan_action_absent:
  assumes "fmlookup (local_map es) p = None" and "fmlookup (rv_placeholders v) p = None"
  shows "plan_action g es b r v p =
    (if record_evicted b p then evicted_action (classify (remote_hash r p) (base_hash b p))
     else absent_action g (rv_policy v) p
       (decide (classify None (base_hash b p)) (classify (remote_hash r p) (base_hash b p)) None (remote_hash r p)))"
  using assms by (simp add: path_action_def Let_def record_evicted_def base_hash_def remote_hash_def)

lemma plan_action_stub:
  assumes "fmlookup (local_map es) p = None" and "fmlookup (rv_placeholders v) p = Some m" and "st_path m = p"
  shows "plan_action g es b r v p =
    (case (base_hash b p, classify (remote_hash r p) (base_hash b p)) of
       (None, Created) \<Rightarrow> Some (if wants_local g v p then Hydrate else UpdatePlaceholder)
     | (None, _) \<Rightarrow> None
     | (Some _, Unchanged) \<Rightarrow> if wants_local g v p then Some Hydrate
         else if record_evicted b p then None else Some UpdatePlaceholder
     | (Some _, Created) \<Rightarrow> Some (if wants_local g v p then Hydrate else UpdatePlaceholder)
     | (Some _, Modified) \<Rightarrow> Some (if wants_local g v p then Hydrate else UpdatePlaceholder)
     | (Some _, Deleted) \<Rightarrow> Some DeleteLocal)"
  using assms by (simp add: path_action_def placeholder_action_def Let_def record_evicted_def base_hash_def remote_hash_def)

lemma moved_stub_action:
  assumes "fmlookup (local_map es) p = None" and "fmlookup (rv_placeholders v) p = Some m" and "st_path m \<noteq> p"
  shows "plan_action g es b r v p \<in> {None, Some Relocate}"
  using assms by (auto simp: path_action_def placeholder_action_def Let_def split: option.splits)

text \<open>
  C7: deletions propagate only what really happened. A remote deletion is planned only for a path whose
  bytes are gone here and whose remote version is still the last synced one; a local deletion only when
  the remote version is gone and what is here is a placeholder or the last synced content.
\<close>

theorem deletions_justified:
  shows "(\<lparr>a_path = p, a_kind = DeleteRemote\<rparr> \<in> set (pl_actions (reconcile_with g es b r v)) \<longrightarrow>
      fmlookup (local_map es) p = None \<and> fmlookup (rv_placeholders v) p = None \<and> remote_hash r p = base_hash b p) \<and>
    (\<lparr>a_path = p, a_kind = DeleteLocal\<rparr> \<in> set (pl_actions (reconcile_with g es b r v)) \<longrightarrow>
      remote_hash r p = None \<and> base_hash b p \<noteq> None \<and>
      (\<forall>e. fmlookup (local_map es) p = Some e \<longrightarrow> base_hash b p = Some (le_hash e)))"
proof (cases "fmlookup (local_map es) p")
  case (Some e)
  have "plan_action g es b r v p = decide (classify (Some (le_hash e)) (base_hash b p))
      (classify (remote_hash r p) (base_hash b p)) (Some (le_hash e)) (remote_hash r p)"
    using plan_action_real_file [OF Some] by (simp add: Let_def base_hash_def remote_hash_def)
  with Some show ?thesis
    by (cases "base_hash b p"; cases "remote_hash r p") (auto simp: plan_action_iff decide_def split: if_splits)
next
  case None
  show ?thesis
  proof (cases "fmlookup (rv_placeholders v) p")
    case none: None
    show ?thesis
      using None none
      by (cases "remote_hash r p"; cases "base_hash b p")
        (auto simp: plan_action_iff plan_action_absent evicted_action_def absent_action_def decide_def split: if_splits)
  next
    case (Some m)
    show ?thesis
    proof (cases "st_path m = p")
      case True
      show ?thesis
        using None Some
        by (cases "remote_hash r p"; cases "base_hash b p")
          (auto simp: plan_action_iff plan_action_stub [OF None Some True] split: if_splits)
    next
      case False
      with moved_stub_action [OF None Some False, of g b r] show ?thesis by (auto simp: plan_action_iff)
    qed
  qed
qed

definition in_sync :: "globs \<Rightarrow> local_entry list \<Rightarrow> baseline \<Rightarrow> manifest \<Rightarrow> residency_view \<Rightarrow> string \<Rightarrow> bool" where
  "in_sync g es b r v p \<longleftrightarrow> remote_hash r p = base_hash b p \<and>
     (case fmlookup (local_map es) p of
        Some e \<Rightarrow> base_hash b p = Some (le_hash e)
      | None \<Rightarrow> (case fmlookup (rv_placeholders v) p of
            Some m \<Rightarrow> st_path m = p \<and> record_evicted b p \<and> \<not> wants_local g v p
          | None \<Rightarrow> base_hash b p = None \<and> \<not> record_evicted b p))"

theorem deletions_justified_witness:
  "\<lparr>a_path = ''a'', a_kind = DeleteRemote\<rparr> \<in> set (pl_actions (reconcile_with sample_globs []
     (fmupd ''a'' (file_record_synced ''a'' 1 [1]) fmempty) (fmupd ''a'' sample_delta fmempty) no_residency)) \<and>
   remote_hash (fmupd ''a'' sample_delta fmempty) ''a'' = base_hash (fmupd ''a'' (file_record_synced ''a'' 1 [1]) fmempty) ''a''"
proof -
  have "\<lparr>a_path = ''a'', a_kind = DeleteRemote\<rparr> \<in> set (pl_actions (reconcile_with sample_globs []
     (fmupd ''a'' (file_record_synced ''a'' 1 [1]) fmempty) (fmupd ''a'' sample_delta fmempty) no_residency))"
    by (simp add: plan_action_iff path_action_def Let_def local_map_def fm_collect_def no_residency_def
        live_entry_def sample_delta_def file_record_synced_def is_evicted_def decide_def absent_action_def)
  with deletions_justified [of "''a''" sample_globs "[]"] show ?thesis by blast
qed

text \<open>
  C15: a synchronised device plans nothing. When every file on disk and every placeholder stands for the
  version that is both the last synced and the current remote one, and nothing else is recorded or
  live, the plan is empty: the engine has a fixed point and a converged sync stays converged.
\<close>

theorem synced_plan_empty:
  assumes "\<And>p. in_sync g es b r v p"
  shows "pl_actions (reconcile_with g es b r v) = [] \<and> pl_relocations (reconcile_with g es b r v) = fmempty"
proof -
  have none: "plan_action g es b r v p = None" for p
  proof (cases "fmlookup (local_map es) p")
    case (Some e)
    with assms [of p] have "base_hash b p = Some (le_hash e)" "remote_hash r p = base_hash b p"
      by (auto simp: in_sync_def)
    with plan_action_real_file [OF Some, of g b r v] show ?thesis
      by (simp add: Let_def base_hash_def remote_hash_def decide_hashes)
  next
    case None
    show ?thesis
    proof (cases "fmlookup (rv_placeholders v) p")
      case none: None
      with assms [of p] None show ?thesis
        by (auto simp: in_sync_def plan_action_absent [OF None none] decide_hashes absent_action_def decide_def)
    next
      case (Some m)
      with assms [of p] None have m: "st_path m = p" and h: "record_evicted b p" "\<not> wants_local g v p"
        "remote_hash r p = base_hash b p" by (auto simp: in_sync_def)
      have "classify (base_hash b p) (base_hash b p) = Unchanged" by (simp add: classify_cases)
      with h show ?thesis by (simp add: plan_action_stub [OF None Some m] split: option.split)
    qed
  qed
  have "a \<notin> set (pl_actions (reconcile_with g es b r v))" for a
    using plan_action_iff [of "a_path a" "a_kind a" g es b r v] none [of "a_path a"] by (cases a) simp
  then have "pl_actions (reconcile_with g es b r v) = []" by (cases "pl_actions (reconcile_with g es b r v)") auto
  moreover have "pl_relocations (reconcile_with g es b r v) = fmempty"
  proof (rule fmap_ext)
    fix p
    show "fmlookup (pl_relocations (reconcile_with g es b r v)) p = fmlookup fmempty p"
      using path_relocates [of g "local_map es" b r v p] none [of p] by (simp add: relocation_lookup)
  qed
  ultimately show ?thesis ..
qed

theorem synced_plan_empty_witness:
  "pl_actions (reconcile_with sample_globs [sample_entry [1]] (fmupd ''a'' (file_record_synced ''a'' 1 [1]) fmempty)
     (fmupd ''a'' sample_delta fmempty) no_residency) = []"
proof -
  have "in_sync sample_globs [sample_entry [1]] (fmupd ''a'' (file_record_synced ''a'' 1 [1]) fmempty)
     (fmupd ''a'' sample_delta fmempty) no_residency p" for p
    by (simp add: in_sync_def remote_hash_def base_hash_def live_entry_def sample_delta_def file_record_synced_def
        local_map_def fm_collect_def sample_entry_def no_residency_def record_evicted_def is_evicted_def)
  from synced_plan_empty [OF this] show ?thesis by blast
qed

text \<open>
  identical content that appears on both sides never becomes a baseline. The engine plans nothing
  for it, so no transfer records it as synced; when the user then deletes the file here, the plan is
  to download it again, and when the user edits it, to set the edit aside as a conflict.
\<close>

theorem converged_creation_not_remembered:
  assumes "base_hash b p = None" and "\<not> record_evicted b p" and "remote_hash r p = Some h"
    and "\<not> arrives_online_only g (rv_policy v) p" and "fmlookup (rv_placeholders v) p = None"
  shows "(fmlookup (local_map es) p = Some e \<and> le_hash e = h \<longrightarrow> plan_action g es b r v p = None) \<and>
    (fmlookup (local_map es) p = None \<longrightarrow> plan_action g es b r v p = Some Download) \<and>
    (fmlookup (local_map es) p = Some e \<and> le_hash e \<noteq> h \<longrightarrow> plan_action g es b r v p = Some Conflict)"
proof -
  have "fmlookup (local_map es) p = Some e \<Longrightarrow> plan_action g es b r v p =
      decide (classify (Some (le_hash e)) None) (classify (Some h) None) (Some (le_hash e)) (Some h)"
    using plan_action_real_file [of es p e g b r v] assms(1,3)
    by (simp add: Let_def base_hash_def [symmetric] remote_hash_def [symmetric])
  moreover have "plan_action g es b r v p = Some Download" if "fmlookup (local_map es) p = None"
    using assms by (simp add: plan_action_absent [OF that assms(5)] decide_def absent_action_def)
  ultimately show ?thesis by (auto simp: decide_def)
qed

theorem converged_creation_not_remembered_witness:
  "plan_action sample_globs [] fmempty (fmupd ''a'' sample_delta fmempty) no_residency ''a'' = Some Download \<and>
   plan_action sample_globs [sample_entry [1]] fmempty (fmupd ''a'' sample_delta fmempty) no_residency ''a'' = None"
proof -
  have "base_hash fmempty ''a'' = None" "\<not> record_evicted fmempty ''a''"
    "remote_hash (fmupd ''a'' sample_delta fmempty) ''a'' = Some [1]"
    "\<not> arrives_online_only sample_globs (rv_policy no_residency) ''a''"
    "fmlookup (rv_placeholders no_residency) ''a'' = None"
    by (simp_all add: base_hash_def record_evicted_def remote_hash_def live_entry_def sample_delta_def
        no_residency_def arrives_online_only_def policy_default_def policy_mode_def)
  note at = converged_creation_not_remembered [OF this]
  have "fmlookup (local_map []) ''a'' = None" "fmlookup (local_map [sample_entry [1]]) ''a'' = Some (sample_entry [1])"
    by (simp_all add: local_map_def fm_collect_def sample_entry_def)
  with at [of "[]" "sample_entry [1]"] at [of "[sample_entry [1]]" "sample_entry [1]"]
  show ?thesis by (simp add: sample_entry_def)
qed

end
