(* ===== verification/Local_Files.thy ===== *)
theory Local_Files
  imports Engine
begin

unbundle bit_operations_syntax

text \<open>
  The files under the mirrored root: \<open>util/file.rs\<close> (stat, stable hashing, conflict names),
  \<open>apply.rs\<close> (\<open>safe_join\<close>), \<open>placeholder.rs\<close> and \<open>scanner.rs\<close>. The directory walk (crate \<open>ignore\<close>) is an
  argument: the list of entries it yields. Files do not change while the model's code runs, except in
  \<open>hash_stable\<close>, whose three observations of a file are arguments.
\<close>

section \<open>Paths\<close>

definition split_on :: "char \<Rightarrow> string \<Rightarrow> string list" where
  "split_on sep s = (let f = foldr (\<lambda>c (cur, acc). if c = sep then ([], cur # acc) else (c # cur, acc)) s ([], [])
     in fst f # snd f)"

definition join_with :: "string \<Rightarrow> string list \<Rightarrow> string" where
  "join_with sep parts = (case parts of [] \<Rightarrow> [] | p # ps \<Rightarrow> p @ concat (map (\<lambda>q. sep @ q) ps))"

datatype path_component = RootDir | CurDir | ParentDir | Normal string

text \<open>\<open>Path::components\<close> on Unix: empty segments and inner dots disappear.\<close>

definition segment_component :: "bool \<Rightarrow> string \<Rightarrow> path_component list" where
  "segment_component first s = (if s = [] then [] else if s = ''.'' then (if first then [CurDir] else [])
     else if s = ''..'' then [ParentDir] else [Normal s])"

definition path_components :: "string \<Rightarrow> path_component list" where
  "path_components p = (case split_on (CHR ''/'') p of
      [] \<Rightarrow> []
    | s # ss \<Rightarrow> (if prefix ''/'' p then [RootDir] else segment_component True s) @
        concat (map (segment_component False) ss))"

fun normal_parts :: "path_component list \<Rightarrow> string list option" where
  "normal_parts [] = Some []"
| "normal_parts (Normal s # cs) = map_option ((#) s) (normal_parts cs)"
| "normal_parts (_ # _) = None"

text \<open>The result stands for \<open>root.join(rel)\<close>; the segments are joined as the file system resolves them.\<close>

definition safe_join :: "string \<Rightarrow> string mresult" where
  "safe_join rel = (case normal_parts (path_components rel) of
      None \<Rightarrow> Inl (EStore rel)
    | Some parts \<Rightarrow> Inr (join_with ''/'' parts))"

definition rsplit_once :: "char \<Rightarrow> string \<Rightarrow> (string \<times> string) option" where
  "rsplit_once c s = (if c \<in> set s
     then Some (rev (tl (dropWhile (\<lambda>x. x \<noteq> c) (rev s))), rev (takeWhile (\<lambda>x. x \<noteq> c) (rev s)))
     else None)"

definition replace_name :: "string \<Rightarrow> string \<Rightarrow> string" where
  "replace_name path name = (case rsplit_once (CHR ''/'') path of
      Some (root, filename) \<Rightarrow> root @ ''/'' @ name
    | None \<Rightarrow> name)"

text \<open>The regular expression \<open>^(.*) \((\d+)\)$\<close> on a stem without line breaks.\<close>

definition match_counter :: "string \<Rightarrow> (string \<times> string) option" where
  "match_counter stem =
     (let r = rev stem in
      if prefix '')'' r then
        (let digits = takeWhile is_digit (tl r); rest = dropWhile is_digit (tl r)
         in if digits \<noteq> [] \<and> prefix ''( '' rest then Some (rev (drop 2 rest), rev digits) else None)
      else None)"

definition parse_u32 :: "string \<Rightarrow> u32 option" where
  "parse_u32 s = (if s \<noteq> [] \<and> list_all is_digit s \<and> dec_val s < 2 ^ 32 then Some (of_nat (dec_val s)) else None)"

definition bump :: "string \<Rightarrow> string" where
  "bump digits = dec (unat ((case parse_u32 digits of None \<Rightarrow> 1 | Some n \<Rightarrow> n) + 1))"

definition conflict_stem :: "string \<Rightarrow> string \<Rightarrow> string \<Rightarrow> string" where
  "conflict_stem stem timestamp device =
     (if sublist '' (conflicted copy '' stem
      then (case match_counter stem of
              Some (base, digits) \<Rightarrow> base @ '' ('' @ bump digits @ '')''
            | None \<Rightarrow> stem @ '' (2)'')
      else stem @ '' (conflicted copy '' @ timestamp @ '' from '' @ device @ '')'')"

definition conflict_name :: "string \<Rightarrow> string \<Rightarrow> string \<Rightarrow> string" where
  "conflict_name path timestamp device =
     (let name = last (split_on (CHR ''/'') path)
      in case rsplit_once (CHR ''.'') name of
           Some (stem, ext) \<Rightarrow> conflict_stem stem timestamp device @ ''.'' @ ext
         | None \<Rightarrow> conflict_stem name timestamp device)"

section \<open>Stat and stable hashing\<close>

record file_stat =
  fs_size :: u64
  fs_mtime_ns :: int

definition stat_of :: "file_node \<Rightarrow> file_stat" where
  "stat_of n = \<lparr>fs_size = of_nat (length (fn_bytes n)), fs_mtime_ns = fn_mtime_ns n\<rparr>"

text \<open>\<open>file_stat\<close> fails for a missing file, and for a time before the epoch; a late one saturates.\<close>

definition file_stat :: "files \<Rightarrow> string \<Rightarrow> file_stat mresult" where
  "file_stat fs path = (case fmlookup fs path of
      None \<Rightarrow> Inl (EIo path)
    | Some n \<Rightarrow> if fn_mtime_ns n < 0 then Inl (EScan path)
        else Inr ((stat_of n)\<lparr>fs_mtime_ns := min (fn_mtime_ns n) i64_max\<rparr>))"

definition hash_file :: "env \<Rightarrow> files \<Rightarrow> string \<Rightarrow> hash mresult" where
  "hash_file E fs path = (case fmlookup fs path of
      None \<Rightarrow> Inl (EIo path) | Some n \<Rightarrow> Inr (e_blake3 E (fn_bytes n)))"

text \<open>One attempt sees the file three times; \<open>seen i k\<close> is the file system at look \<open>k\<close> of attempt \<open>i\<close>.\<close>

definition HASH_ATTEMPTS :: nat where
  "HASH_ATTEMPTS = 3"

fun hash_attempts :: "env \<Rightarrow> (nat \<Rightarrow> nat \<Rightarrow> files) \<Rightarrow> string \<Rightarrow> nat list \<Rightarrow> (u64 \<times> int \<times> hash) option mresult" where
  "hash_attempts E seen path [] = Inr None"
| "hash_attempts E seen path (i # is) =
     res_bind (file_stat (seen i 0) path) (\<lambda>before.
     res_bind (hash_file E (seen i 1) path) (\<lambda>h.
     res_bind (file_stat (seen i 2) path) (\<lambda>after.
       if before = after then Inr (Some (fs_size before, fs_mtime_ns before, h))
       else hash_attempts E seen path is)))"

definition hash_stable :: "env \<Rightarrow> (nat \<Rightarrow> nat \<Rightarrow> files) \<Rightarrow> string \<Rightarrow> (u64 \<times> int \<times> hash) option mresult" where
  "hash_stable E seen path = hash_attempts E seen path [0..<HASH_ATTEMPTS]"

section \<open>Placeholders\<close>

definition SUFFIX :: string where
  "SUFFIX = ''.rfm''"

definition STUB_FORMAT :: u32 where
  "STUB_FORMAT = 1"

definition MAX_STUB_LEN :: nat where
  "MAX_STUB_LEN = 4096"

definition stub_new :: "string \<Rightarrow> u64 \<Rightarrow> hash \<Rightarrow> string \<Rightarrow> u64 \<Rightarrow> stub_meta" where
  "stub_new path sz h key evicted_at = \<lparr>st_rfm = STUB_FORMAT, st_path = path, st_size = sz, st_hash = h,
     st_object_key = key, st_evicted_at = evicted_at, st_mtime_ns = None, st_mode = None\<rparr>"

definition with_mtime_ns :: "int \<Rightarrow> stub_meta \<Rightarrow> stub_meta" where
  "with_mtime_ns t m = m\<lparr>st_mtime_ns := Some t\<rparr>"

definition with_mode :: "u32 \<Rightarrow> stub_meta \<Rightarrow> stub_meta" where
  "with_mode md m = m\<lparr>st_mode := Some (md AND 0xFFF)\<rparr>"

definition stub_rel :: "string \<Rightarrow> string" where
  "stub_rel path = path @ SUFFIX"

definition stub_path :: "string \<Rightarrow> string mresult" where
  "stub_path path = safe_join (stub_rel path)"

text \<open>\<open>None\<close> when there is no such file, when it is too long, or when it does not parse.\<close>

definition stub_read :: "env \<Rightarrow> files \<Rightarrow> string \<Rightarrow> stub_meta option" where
  "stub_read E fs file = (case fmlookup fs file of
      None \<Rightarrow> None
    | Some n \<Rightarrow> if MAX_STUB_LEN < length (fn_bytes n) then None
        else (case e_stub_parse E (fn_bytes n) of
            Some m \<Rightarrow> if st_rfm m = STUB_FORMAT then Some m else None
          | None \<Rightarrow> None))"

definition write_node :: "string \<Rightarrow> bytes \<Rightarrow> unit act" where
  "write_node path b = act_mod (\<lambda>w. w\<lparr>w_files := fmupd path
     \<lparr>fn_bytes = b, fn_mtime_ns = int (w_now w), fn_mode = 384\<rparr> (w_files w)\<rparr>)"

definition stub_write :: "env \<Rightarrow> stub_meta \<Rightarrow> unit act" where
  "stub_write E m = act_bind (act_res (stub_path (st_path m))) (\<lambda>target.
     write_node target (e_stub_json E m))"

text \<open>Removing a file that is not there is not an error.\<close>

definition remove_node :: "string \<Rightarrow> unit act" where
  "remove_node path = act_mod (\<lambda>w. w\<lparr>w_files := fmdrop path (w_files w)\<rparr>)"

definition stub_remove :: "string \<Rightarrow> unit act" where
  "stub_remove path = act_bind (act_res (stub_path path)) remove_node"

section \<open>The scanner\<close>

definition ALWAYS_EXCLUDE :: "string list" where
  "ALWAYS_EXCLUDE = [''.mirror'', ''.DS_Store'', ''Thumbs.db'', ''desktop.ini'']"

record walk_entry =
  we_depth :: nat
  we_is_file :: bool
  we_path :: string
  we_components :: "path_component list"

record scan_result =
  sr_entries :: "local_entry list"
  sr_placeholders :: "(string, stub_meta) fmap"
  sr_skipped :: "string list"

definition strip_suffix :: "string \<Rightarrow> string \<Rightarrow> string option" where
  "strip_suffix suf s = (if suffix suf s then Some (take (length s - length suf) s) else None)"

definition canonical_relative :: "env \<Rightarrow> walk_entry \<Rightarrow> string mresult" where
  "canonical_relative E d = (case normal_parts (we_components d) of
      None \<Rightarrow> Inl (EScan (we_path d))
    | Some parts \<Rightarrow> Inr (join_with ''/'' (map (e_nfc E) parts)))"

definition scan_entry :: "env \<Rightarrow> files \<Rightarrow> (string \<Rightarrow> nat \<Rightarrow> nat \<Rightarrow> files) \<Rightarrow> (string \<Rightarrow> u64 \<Rightarrow> int \<Rightarrow> hash option) \<Rightarrow>
    walk_entry \<Rightarrow> scan_result \<Rightarrow> scan_result mresult" where
  "scan_entry E fs seen cached d res =
     (if we_depth d = 0 \<or> \<not> we_is_file d then Inr res
      else res_bind (canonical_relative E d) (\<lambda>rel.
        case strip_suffix SUFFIX rel of
          Some original \<Rightarrow>
            (case stub_read E fs (we_path d) of
               Some m \<Rightarrow> if original \<noteq> [] then Inr (res\<lparr>sr_placeholders := fmupd original m (sr_placeholders res)\<rparr>)
                 else Inr (res\<lparr>sr_skipped := sr_skipped res @ [rel]\<rparr>)
             | None \<Rightarrow> Inr (res\<lparr>sr_skipped := sr_skipped res @ [rel]\<rparr>))
        | None \<Rightarrow>
            res_bind (file_stat fs (we_path d)) (\<lambda>stats.
            res_bind (case cached rel (fs_size stats) (fs_mtime_ns stats) of
                Some h \<Rightarrow> Inr (Some (fs_size stats, fs_mtime_ns stats, h))
              | None \<Rightarrow> hash_stable E (seen (we_path d)) (we_path d)) (\<lambda>found. case found of
                None \<Rightarrow> Inr res
              | Some (sz, mt, h) \<Rightarrow> Inr (res\<lparr>sr_entries := sr_entries res @
                  [\<lparr>le_path = rel, le_size = sz, le_mtime_ns = mt, le_hash = h\<rparr>]\<rparr>)))))"

fun scan_loop :: "env \<Rightarrow> files \<Rightarrow> (string \<Rightarrow> nat \<Rightarrow> nat \<Rightarrow> files) \<Rightarrow> (string \<Rightarrow> u64 \<Rightarrow> int \<Rightarrow> hash option) \<Rightarrow>
    walk_entry mresult list \<Rightarrow> scan_result \<Rightarrow> scan_result mresult" where
  "scan_loop E fs seen cached [] res = Inr res"
| "scan_loop E fs seen cached (d # ds) res =
     res_bind d (\<lambda>dent. res_bind (scan_entry E fs seen cached dent res) (\<lambda>res'. scan_loop E fs seen cached ds res'))"

definition scan_all :: "env \<Rightarrow> files \<Rightarrow> (string \<Rightarrow> nat \<Rightarrow> nat \<Rightarrow> files) \<Rightarrow> (string \<Rightarrow> u64 \<Rightarrow> int \<Rightarrow> hash option) \<Rightarrow>
    walk_entry mresult list \<Rightarrow> scan_result mresult" where
  "scan_all E fs seen cached walk =
     res_bind (scan_loop E fs seen cached walk \<lparr>sr_entries = [], sr_placeholders = fmempty, sr_skipped = []\<rparr>) (\<lambda>res.
       Inr (res\<lparr>sr_entries := sort_key le_path (sr_entries res), sr_skipped := sort (sr_skipped res)\<rparr>))"

section \<open>Paths stay inside the root\<close>

lemma split_on_Nil [simp]: "split_on c [] = [[]]"
  by (simp add: split_on_def)

lemma split_on_Cons [simp]: "split_on c (x # xs) =
    (if x = c then [] # split_on c xs
     else (x # hd (split_on c xs)) # tl (split_on c xs))"
  by (simp add: split_on_def Let_def split: prod.splits)

lemma split_on_not_Nil [simp]: "split_on c s \<noteq> []"
  by (simp add: split_on_def Let_def)

lemma split_on_member: "p \<in> set (split_on c s) \<Longrightarrow> c \<notin> set p"
proof (induction s arbitrary: p)
  case (Cons x xs)
  have "hd (split_on c xs) \<in> set (split_on c xs)" "set (tl (split_on c xs)) \<subseteq> set (split_on c xs)"
    by (simp_all add: list.set_sel(1) set_mono_suffix list.set_sel(2) subsetI)
  with Cons show ?case by (auto split: if_splits)
qed simp

lemma split_on_simple: "c \<notin> set s \<Longrightarrow> split_on c s = [s]"
  by (induction s) auto

lemma split_on_append: "c \<notin> set s \<Longrightarrow> split_on c (s @ c # t) = s # split_on c t"
  by (induction s) auto

lemma split_on_not_single: "c \<in> set s \<Longrightarrow> tl (split_on c s) \<noteq> []"
  by (induction s) auto

lemma last_split: "c \<notin> set t \<Longrightarrow> last (split_on c (s @ c # t)) = t"
  by (induction s) (auto simp: split_on_simple last_tl split_on_not_single)

lemma join_with_Cons: "join_with sep (p # ps) = (if ps = [] then p else p @ sep @ join_with sep ps)"
  by (cases ps) (simp_all add: join_with_def)

lemma split_join: "ps \<noteq> [] \<Longrightarrow> \<forall>p\<in>set ps. c \<notin> set p \<Longrightarrow> split_on c (join_with [c] ps) = ps"
  by (induction ps) (auto simp: join_with_Cons split_on_simple split_on_append)

definition plain_part :: "string \<Rightarrow> bool" where
  "plain_part s \<longleftrightarrow> s \<noteq> [] \<and> s \<noteq> ''.'' \<and> s \<noteq> ''..'' \<and> CHR ''/'' \<notin> set s"

lemma normal_parts_iff: "normal_parts cs = Some ps \<longleftrightarrow> cs = map Normal ps"
proof (induction cs arbitrary: ps)
  case (Cons c cs)
  then show ?case by (cases c) auto
qed auto

lemma normal_parts_map [simp]: "normal_parts (map Normal ps) = Some ps"
  by (induction ps) auto

lemma segment_component_plain: "plain_part s \<Longrightarrow> segment_component b s = [Normal s]"
  by (simp add: segment_component_def plain_part_def)

lemma concat_segments:
  "\<forall>q\<in>set qs. plain_part q \<Longrightarrow> concat (map (segment_component b) qs) = map Normal qs"
  by (induction qs) (simp_all add: segment_component_plain)

lemma segment_component_Normal: "Normal q \<in> set (segment_component b s) \<Longrightarrow> q = s \<and> s \<noteq> [] \<and> s \<noteq> ''.'' \<and> s \<noteq> ''..''"
  by (simp add: segment_component_def split: if_splits)

lemma path_components_Normal: "Normal q \<in> set (path_components p) \<Longrightarrow> plain_part q"
  using split_on_member [of q "CHR ''/''" p]
  by (cases "split_on (CHR ''/'') p")
    (auto simp: path_components_def plain_part_def dest!: segment_component_Normal split: if_splits)

lemma components_join:
  assumes "\<forall>p\<in>set ps. plain_part p"
  shows "path_components (join_with ''/'' ps) = map Normal ps"
proof (cases ps)
  case Nil
  then show ?thesis by (simp add: path_components_def join_with_def segment_component_def)
next
  case (Cons q qs)
  have split: "split_on (CHR ''/'') (join_with ''/'' ps) = ps"
    using assms Cons by (intro split_join) (auto simp: plain_part_def)
  have "\<not> prefix ''/'' (join_with ''/'' ps)"
    using assms Cons by (cases q) (auto simp: join_with_Cons plain_part_def)
  moreover have "concat (map (segment_component False) qs) = map Normal qs"
    by (rule concat_segments) (use assms Cons in simp)
  ultimately show ?thesis
    using assms Cons split by (simp add: path_components_def segment_component_plain)
qed

lemma safe_join_parts:
  "safe_join rel = Inr p \<longleftrightarrow> (\<exists>ps. path_components rel = map Normal ps \<and> p = join_with ''/'' ps)"
  unfolding safe_join_def
  by (cases "normal_parts (path_components rel)") (auto, auto simp: normal_parts_iff)

text \<open>
  C30: a path that \<open>safe_join\<close> accepts names a file below the root: none of its components is the
  root directory, \<open>.\<close> or \<open>..\<close>, and joining it again changes nothing.
\<close>

theorem safe_join_confined:
  assumes "safe_join rel = Inr p"
  shows "(\<forall>c\<in>set (path_components p). \<exists>s. c = Normal s \<and> CHR ''/'' \<notin> set s \<and> s \<noteq> ''..'' \<and> s \<noteq> ''.'' \<and> s \<noteq> []) \<and>
    path_components p = path_components rel \<and> safe_join p = Inr p"
proof -
  from assms obtain ps where ps: "path_components rel = map Normal ps" and p: "p = join_with ''/'' ps"
    by (auto simp: safe_join_parts)
  then have plain: "\<forall>q\<in>set ps. plain_part q"
    using path_components_Normal [of _ rel] by auto
  have "path_components p = map Normal ps" unfolding p by (rule components_join [OF plain])
  with plain ps p show ?thesis by (auto simp: plain_part_def safe_join_parts)
qed

theorem safe_join_confined_witness:
  "path_components ''docs/a.txt'' = path_components ''docs//./a.txt''"
  using safe_join_confined [of "''docs//./a.txt''" "''docs/a.txt''"]
  by (simp add: safe_join_def path_components_def segment_component_def join_with_def)

section \<open>Conflict names\<close>

lemma rsplit_once_join: "rsplit_once c s = Some (a, b) \<Longrightarrow> s = a @ c # b \<and> c \<notin> set b"
proof -
  assume r: "rsplit_once c s = Some (a, b)"
  then have c: "c \<in> set (rev s)" by (simp add: rsplit_once_def split: if_splits)
  then have "rev s = takeWhile (\<lambda>x. x \<noteq> c) (rev s) @ c # tl (dropWhile (\<lambda>x. x \<noteq> c) (rev s))"
    by (metis (mono_tags, lifting) dropWhile_eq_Nil_conv hd_dropWhile list.collapse takeWhile_dropWhile_id)
  then have "s = a @ c # b"
    using r by (simp add: rsplit_once_def split: if_splits) (metis append.assoc append_Cons append_Nil rev.simps(2) rev_append rev_rev_ident)
  moreover have "c \<notin> set b"
    using r by (auto simp: rsplit_once_def split: if_splits dest: set_takeWhileD)
  ultimately show ?thesis by simp
qed

lemma rsplit_once_None: "rsplit_once c s = None \<longleftrightarrow> c \<notin> set s"
  by (simp add: rsplit_once_def)

lemma match_counter_split:
  assumes "match_counter stem = Some (base, digits)"
  shows "stem = base @ '' ('' @ digits @ '')'' \<and> list_all is_digit digits \<and> digits \<noteq> []"
proof -
  let ?r = "rev stem"
  have r: "prefix '')'' ?r" and p: "prefix ''( '' (dropWhile is_digit (tl ?r))"
    and b: "base = rev (drop 2 (dropWhile is_digit (tl ?r)))" and d: "digits = rev (takeWhile is_digit (tl ?r))"
    and n: "takeWhile is_digit (tl ?r) \<noteq> []"
    using assms by (auto simp: match_counter_def Let_def split: if_splits)
  from r have 1: "?r = '')'' @ tl ?r" by (cases ?r) auto
  obtain t where t: "dropWhile is_digit (tl ?r) = ''( '' @ t" using p by (auto elim: prefixE)
  have "?r = '')'' @ takeWhile is_digit (tl ?r) @ ''( '' @ t" using 1 t by (metis takeWhile_dropWhile_id)
  then have "stem = rev ('')'' @ takeWhile is_digit (tl ?r) @ ''( '' @ t)" by (metis rev_rev_ident)
  moreover have "list_all is_digit digits" using d by (auto simp: list_all_iff dest: set_takeWhileD)
  ultimately show ?thesis using b d n t by simp
qed

lemma bump_moves:
  assumes "list_all is_digit digits"
  shows "bump digits \<noteq> digits"
proof
  let ?n = "case parse_u32 digits of None \<Rightarrow> 1 | Some n \<Rightarrow> n"
  assume "bump digits = digits"
  then have v: "dec_val digits = unat (?n + 1)" and ne: "digits \<noteq> []"
    using dec_digits_val [of "unat (?n + 1)"] by (auto simp: bump_def)
  show False
  proof (cases "parse_u32 digits")
    case None
    with ne assms v show False by (simp add: parse_u32_def split: if_splits)
  next
    case (Some n)
    then have "n = of_nat (dec_val digits)" by (simp add: parse_u32_def split: if_splits)
    moreover have "dec_val digits = unat (n + 1)" using v Some by simp
    ultimately have "n = of_nat (unat (n + 1))" by metis
    then show False by simp
  qed
qed

lemma conflict_stem_moves: "conflict_stem stem timestamp device \<noteq> stem"
proof (cases "match_counter stem")
  case (Some bd)
  then obtain b d where bd: "match_counter stem = Some (b, d)" by (cases bd) auto
  with match_counter_split [OF bd] show ?thesis by (auto simp: conflict_stem_def bump_moves)
qed (simp add: conflict_stem_def)

text \<open>
  The name a conflicted copy gets is never the name of the file itself, so setting the file aside
  moves it; the directory stays the same.
\<close>

theorem conflict_name_moves:
  "replace_name path (conflict_name path timestamp device) \<noteq> path"
proof -
  let ?name = "last (split_on (CHR ''/'') path)"
  have fresh: "conflict_name path timestamp device \<noteq> ?name"
    by (auto simp: conflict_name_def Let_def conflict_stem_moves split: option.splits dest: rsplit_once_join)
  show ?thesis
  proof (cases "rsplit_once (CHR ''/'') path")
    case None
    then have "?name = path" by (simp add: rsplit_once_None split_on_simple)
    with None fresh show ?thesis by (simp add: replace_name_def)
  next
    case (Some rf)
    then obtain r f where rf: "rsplit_once (CHR ''/'') path = Some (r, f)" by (cases rf) auto
    then have "path = r @ CHR ''/'' # f" "CHR ''/'' \<notin> set f" using rsplit_once_join by blast+
    moreover from this have "?name = f" by (simp add: last_split)
    ultimately show ?thesis using rf fresh by (simp add: replace_name_def)
  qed
qed

section \<open>Hashing a file that others write\<close>

lemma hash_attempts_result:
  "hash_attempts E seen path is = Inr (Some (sz, mt, h)) \<Longrightarrow>
    \<exists>i\<in>set is. \<exists>n. file_stat (seen i 0) path = Inr \<lparr>fs_size = sz, fs_mtime_ns = mt\<rparr> \<and>
      file_stat (seen i 2) path = Inr \<lparr>fs_size = sz, fs_mtime_ns = mt\<rparr> \<and>
      fmlookup (seen i 1) path = Some n \<and> h = e_blake3 E (fn_bytes n)"
  by (induction "is") (force simp: res_bind_ok hash_file_def split: if_splits option.splits)+

lemma hash_attempts_moving:
  "hash_attempts E seen path is = Inr None \<Longrightarrow>
    \<forall>i\<in>set is. file_stat (seen i 0) path \<noteq> file_stat (seen i 2) path"
  by (induction "is") (auto simp: res_bind_ok split: if_splits)

text \<open>
  \<open>hash_stable\<close> under concurrent writers. A size, time and hash it returns belong to one attempt
  in which the file had that size and time both before and after its bytes were read; it gives up
  (\<open>None\<close>) only when the file changed during every one of three attempts.
\<close>

theorem hash_stable_consistent:
  assumes "hash_stable E seen path = Inr r"
  shows "case r of
      Some (sz, mt, h) \<Rightarrow> (\<exists>i<3. \<exists>n. file_stat (seen i 0) path = Inr \<lparr>fs_size = sz, fs_mtime_ns = mt\<rparr> \<and>
        file_stat (seen i 2) path = Inr \<lparr>fs_size = sz, fs_mtime_ns = mt\<rparr> \<and>
        fmlookup (seen i 1) path = Some n \<and> h = e_blake3 E (fn_bytes n))
    | None \<Rightarrow> (\<forall>i<3. file_stat (seen i 0) path \<noteq> file_stat (seen i 2) path)"
proof (cases r)
  case None
  with assms hash_attempts_moving [of E seen path "[0..<3]"] show ?thesis
    by (simp add: hash_stable_def HASH_ATTEMPTS_def)
next
  case (Some t)
  obtain sz mt h where t: "t = (sz, mt, h)" by (cases t) auto
  with assms Some have "hash_attempts E seen path [0..<3] = Inr (Some (sz, mt, h))"
    by (simp add: hash_stable_def HASH_ATTEMPTS_def)
  from hash_attempts_result [OF this] Some t show ?thesis by (simp add: Bex_def)
qed

definition sample_node :: file_node where
  "sample_node = \<lparr>fn_bytes = [8, 9], fn_mtime_ns = 5, fn_mode = 420\<rparr>"

theorem hash_stable_consistent_witness:
  "\<exists>i<3::nat. file_stat (if i = 0 then fmempty else fmupd ''a'' sample_node fmempty) ''a'' \<noteq> Inl (EIo ''a'')"
proof -
  let ?seen = "\<lambda>i k. fmupd ''a'' (if i = 0 \<and> k < (2::nat) then sample_node\<lparr>fn_mtime_ns := 4\<rparr> else sample_node) fmempty"
  have "hash_stable sample_env ?seen ''a'' = Inr (Some (2, 5, [8, 9]))"
    by (simp add: hash_stable_def HASH_ATTEMPTS_def upt_rec file_stat_def hash_file_def stat_of_def
        sample_node_def i64_max_def sample_env_def)
  from hash_stable_consistent [OF this] obtain i :: nat where "i < 3"
    and "file_stat (?seen i 0) ''a'' = Inr \<lparr>fs_size = 2, fs_mtime_ns = 5\<rparr>" by auto
  then have "i < 3 \<and> i \<noteq> 0"
    by (cases "i = 0") (simp_all add: file_stat_def stat_of_def sample_node_def i64_max_def)
  then show ?thesis by (auto simp: file_stat_def sample_node_def intro!: exI [of _ i])
qed

lemma hash_stable_quiet:
  "hash_stable E (\<lambda>_ _. fs) path = (case file_stat fs path of
      Inl e \<Rightarrow> Inl e
    | Inr st \<Rightarrow> Inr (Some (fs_size st, fs_mtime_ns st, e_blake3 E (fn_bytes (the (fmlookup fs path))))))"
  by (auto simp: hash_stable_def HASH_ATTEMPTS_def upt_rec file_stat_def hash_file_def split: option.splits)

section \<open>Placeholders on disk\<close>

lemma stub_write_ok:
  "stub_write E m w = (Inr (), w') \<longleftrightarrow> (\<exists>p. stub_path (st_path m) = Inr p \<and>
     w' = w\<lparr>w_files := fmupd p \<lparr>fn_bytes = e_stub_json E m, fn_mtime_ns = int (w_now w), fn_mode = 384\<rparr> (w_files w)\<rparr>)"
  by (auto simp: stub_write_def act_bind_ok write_node_def)

lemma stub_read_written:
  assumes "stub_codec_ok E" and "st_rfm m = STUB_FORMAT" and "fmlookup fs p = Some n" and "fn_bytes n = e_stub_json E m"
  shows "stub_read E fs p = (if length (e_stub_json E m) \<le> MAX_STUB_LEN then Some m else None)"
  using assms by (simp add: stub_read_def stub_codec_ok_def)

text \<open>
  Placeholders round-trip, up to 4096 bytes. The placeholder just written is read back as it was
  if its JSON is at most \<open>MAX_STUB_LEN\<close> bytes long; a longer one is written without an error and
  never recognised again. No other file changes.
\<close>

theorem placeholder_roundtrip:
  assumes "stub_codec_ok E" and "st_rfm m = STUB_FORMAT" and "stub_write E m w = (Inr (), w')"
  shows "\<exists>p. stub_path (st_path m) = Inr p \<and>
    stub_read E (w_files w') p = (if length (e_stub_json E m) \<le> MAX_STUB_LEN then Some m else None) \<and>
    (\<forall>q. q \<noteq> p \<longrightarrow> fmlookup (w_files w') q = fmlookup (w_files w) q)"
  using assms by (auto simp: stub_write_ok stub_read_written)

theorem placeholder_roundtrip_witness:
  "stub_read sample_env (w_files (snd (stub_write sample_env (stub_new ''a'' 2 [8, 9] ''data/k'' 7) sample_world)))
     ''a.rfm'' = Some (stub_new ''a'' 2 [8, 9] ''data/k'' 7)"
proof -
  let ?m = "stub_new ''a'' 2 [8, 9] ''data/k'' 7"
  have p: "stub_path ''a'' = Inr ''a.rfm''"
    by (simp add: stub_path_def stub_rel_def SUFFIX_def safe_join_def path_components_def
        segment_component_def join_with_def)
  have r: "st_path ?m = ''a''" "st_rfm ?m = STUB_FORMAT" by (simp_all add: stub_new_def)
  obtain w' where w: "stub_write sample_env ?m sample_world = (Inr (), w')"
    using p r by (simp add: stub_write_ok)
  have "length (e_stub_json sample_env ?m) \<le> MAX_STUB_LEN"
    by (simp add: sample_env_def stub_new_def enc_stub_def enc_via_def enc_pair_def enc_list_def
        enc_word_def enc_char_def enc_option_def list_of_option_def MAX_STUB_LEN_def STUB_FORMAT_def)
  with placeholder_roundtrip [OF sample_stub_codec r(2) w] p r(1) w show ?thesis by auto
qed

section \<open>What a scan finds\<close>

definition entry_for :: "env \<Rightarrow> string \<Rightarrow> file_node \<Rightarrow> local_entry" where
  "entry_for E rel n = \<lparr>le_path = rel, le_size = of_nat (length (fn_bytes n)),
     le_mtime_ns = min (fn_mtime_ns n) i64_max, le_hash = e_blake3 E (fn_bytes n)\<rparr>"

definition walk_file :: "env \<Rightarrow> files \<Rightarrow> walk_entry \<Rightarrow> string \<Rightarrow> file_node \<Rightarrow> bool" where
  "walk_file E fs d rel n \<longleftrightarrow> we_depth d \<noteq> 0 \<and> we_is_file d \<and> canonical_relative E d = Inr rel \<and>
     fmlookup fs (we_path d) = Some n"

definition cache_honest :: "env \<Rightarrow> files \<Rightarrow> walk_entry mresult list \<Rightarrow> (string \<Rightarrow> u64 \<Rightarrow> int \<Rightarrow> hash option) \<Rightarrow> bool" where
  "cache_honest E fs walk cached \<longleftrightarrow> (\<forall>d rel n h. Inr d \<in> set walk \<longrightarrow> walk_file E fs d rel n \<longrightarrow>
     cached rel (of_nat (length (fn_bytes n))) (min (fn_mtime_ns n) i64_max) = Some h \<longrightarrow>
     h = e_blake3 E (fn_bytes n))"

lemma strip_suffix_iff: "strip_suffix suf s = Some p \<longleftrightarrow> s = p @ suf"
  by (auto simp: strip_suffix_def suffix_def)

lemma strip_suffix_append [simp]: "strip_suffix suf (p @ suf) = Some p"
  by (simp add: strip_suffix_iff)

lemma scan_entry_step:
  assumes "cache_honest E fs (Inr d # ds) cached" and "scan_entry E fs (\<lambda>_ _ _. fs) cached d res = Inr res'"
  shows "set (sr_entries res') = set (sr_entries res) \<union>
      {entry_for E rel n |rel n. walk_file E fs d rel n \<and> \<not> suffix SUFFIX rel}"
    and "fmlookup (sr_placeholders res') p = Some m \<Longrightarrow> fmlookup (sr_placeholders res) p = Some m \<or>
      (p \<noteq> [] \<and> canonical_relative E d = Inr (p @ SUFFIX) \<and> stub_read E fs (we_path d) = Some m)"
proof -
  show "set (sr_entries res') = set (sr_entries res) \<union>
      {entry_for E rel n |rel n. walk_file E fs d rel n \<and> \<not> suffix SUFFIX rel}"
  proof (cases "we_depth d = 0 \<or> \<not> we_is_file d")
    case True
    then show ?thesis using assms(2) by (auto simp: scan_entry_def walk_file_def)
  next
    case False
    then obtain rel where rel: "canonical_relative E d = Inr rel"
      using assms(2) by (auto simp: scan_entry_def res_bind_ok)
    show ?thesis
    proof (cases "strip_suffix SUFFIX rel")
      case (Some p)
      with False rel show ?thesis using assms(2)
        by (auto simp: scan_entry_def walk_file_def strip_suffix_iff suffix_def split: option.splits if_splits)
    next
      case None
      then have ns: "\<not> suffix SUFFIX rel" by (simp add: strip_suffix_def split: if_splits)
      from None False rel assms(2) obtain st where st: "file_stat fs (we_path d) = Inr st"
        by (auto simp: scan_entry_def res_bind_ok)
      then obtain n where n: "fmlookup fs (we_path d) = Some n"
        and st': "st = \<lparr>fs_size = of_nat (length (fn_bytes n)), fs_mtime_ns = min (fn_mtime_ns n) i64_max\<rparr>"
        by (auto simp: file_stat_def stat_of_def split: option.splits if_splits)
      have h: "cached rel (fs_size st) (fs_mtime_ns st) = Some h \<Longrightarrow> h = e_blake3 E (fn_bytes n)" for h
        using assms(1) False rel n st' by (auto simp: cache_honest_def walk_file_def)
      have "sr_entries res' = sr_entries res @ [entry_for E rel n]"
        using None False rel assms(2) st st' n h
        by (auto simp: scan_entry_def res_bind_ok hash_stable_quiet entry_for_def split: option.splits)
      with False rel n ns show ?thesis by (auto simp: walk_file_def)
    qed
  qed
next
  assume "fmlookup (sr_placeholders res') p = Some m"
  then show "fmlookup (sr_placeholders res) p = Some m \<or>
      (p \<noteq> [] \<and> canonical_relative E d = Inr (p @ SUFFIX) \<and> stub_read E fs (we_path d) = Some m)"
  proof (cases "we_depth d = 0 \<or> \<not> we_is_file d")
    case True
    with assms(2) \<open>fmlookup (sr_placeholders res') p = Some m\<close> show ?thesis by (auto simp: scan_entry_def)
  next
    case False
    then obtain rel where rel: "canonical_relative E d = Inr rel"
      using assms(2) by (auto simp: scan_entry_def res_bind_ok)
    show ?thesis
    proof (cases "strip_suffix SUFFIX rel")
      case None
      with False rel assms(2) have "sr_placeholders res' = sr_placeholders res"
        by (auto simp: scan_entry_def res_bind_ok split: option.splits)
      with \<open>fmlookup (sr_placeholders res') p = Some m\<close> show ?thesis by simp
    next
      case (Some q)
      then have "rel = q @ SUFFIX" by (simp add: strip_suffix_iff)
      with False rel Some assms(2) \<open>fmlookup (sr_placeholders res') p = Some m\<close> show ?thesis
        by (auto simp: scan_entry_def split: option.splits if_splits)
    qed
  qed
qed

lemma cache_honest_tl: "cache_honest E fs (d # ds) cached \<Longrightarrow> cache_honest E fs ds cached"
  by (simp add: cache_honest_def)

lemma cache_honest_hd: "cache_honest E fs (Inr d # ds) cached \<Longrightarrow> cache_honest E fs (Inr d # []) cached"
  by (simp add: cache_honest_def)

lemma scan_loop_found:
  assumes "cache_honest E fs walk cached" and "scan_loop E fs (\<lambda>_ _ _. fs) cached walk res = Inr res'"
  shows "set (sr_entries res') = set (sr_entries res) \<union>
      {entry_for E rel n |d rel n. Inr d \<in> set walk \<and> walk_file E fs d rel n \<and> \<not> suffix SUFFIX rel} \<and>
    (\<forall>p m. fmlookup (sr_placeholders res') p = Some m \<longrightarrow> fmlookup (sr_placeholders res) p = Some m \<or>
      (p \<noteq> [] \<and> (\<exists>d. Inr d \<in> set walk \<and> canonical_relative E d = Inr (p @ SUFFIX) \<and>
         stub_read E fs (we_path d) = Some m)))"
  using assms
proof (induction walk arbitrary: res)
  case (Cons x ds)
  then obtain d res1 where x: "x = Inr d" and step: "scan_entry E fs (\<lambda>_ _ _. fs) cached d res = Inr res1"
    and rest: "scan_loop E fs (\<lambda>_ _ _. fs) cached ds res1 = Inr res'"
    by (auto simp: res_bind_ok)
  note here = scan_entry_step [OF Cons.prems(1) [unfolded x] step]
  note there = Cons.IH [OF cache_honest_tl [OF Cons.prems(1)] rest]
  have "set (sr_entries res') = set (sr_entries res) \<union>
      {entry_for E rel n |d rel n. Inr d \<in> set (x # ds) \<and> walk_file E fs d rel n \<and> \<not> suffix SUFFIX rel}"
    using here(1) there x by auto
  moreover have "fmlookup (sr_placeholders res') p = Some m \<Longrightarrow> fmlookup (sr_placeholders res) p = Some m \<or>
      (p \<noteq> [] \<and> (\<exists>d. Inr d \<in> set (x # ds) \<and> canonical_relative E d = Inr (p @ SUFFIX) \<and>
         stub_read E fs (we_path d) = Some m))" for p m
    using conjunct2 [OF there, rule_format, of p m] here(2) [of p m] unfolding x by (meson list.set_intros)
  ultimately show ?case by blast
qed simp

text \<open>
  what a scan reports. Of a tree that does not change, with a cache that only returns true hashes,
  the entries are exactly the walked files whose canonical path lacks the reserved suffix, each with
  its size, time and hash, in path order; each placeholder stands for the path of a walked file
  \<open><path>.rfm\<close> that parses.
\<close>

theorem scan_reports_tree:
  assumes "scan_all E fs (\<lambda>_ _ _. fs) cached walk = Inr res" and "cache_honest E fs walk cached"
  shows "sorted (map le_path (sr_entries res)) \<and>
    set (sr_entries res) =
      {entry_for E rel n |d rel n. Inr d \<in> set walk \<and> walk_file E fs d rel n \<and> \<not> suffix SUFFIX rel} \<and>
    (\<forall>p m. fmlookup (sr_placeholders res) p = Some m \<longrightarrow> p \<noteq> [] \<and>
      (\<exists>d. Inr d \<in> set walk \<and> canonical_relative E d = Inr (p @ SUFFIX) \<and> stub_read E fs (we_path d) = Some m))"
proof -
  from assms(1) obtain r where r: "scan_loop E fs (\<lambda>_ _ _. fs) cached walk
        \<lparr>sr_entries = [], sr_placeholders = fmempty, sr_skipped = []\<rparr> = Inr r"
    and res: "res = r\<lparr>sr_entries := sort_key le_path (sr_entries r), sr_skipped := sort (sr_skipped r)\<rparr>"
    by (auto simp: scan_all_def res_bind_ok)
  from scan_loop_found [OF assms(2) r] show ?thesis by (simp add: res)
qed

definition sample_dent :: walk_entry where
  "sample_dent = \<lparr>we_depth = 1, we_is_file = True, we_path = ''a'', we_components = [Normal ''a'']\<rparr>"

theorem scan_reports_tree_witness:
  "\<exists>res. scan_all sample_env (fmupd ''a'' sample_node fmempty) (\<lambda>_ _ _. fmupd ''a'' sample_node fmempty)
      (\<lambda>_ _ _. None) [Inr sample_dent] = Inr res \<and> entry_for sample_env ''a'' sample_node \<in> set (sr_entries res)"
proof -
  let ?fs = "fmupd ''a'' sample_node fmempty"
  have rel: "canonical_relative sample_env sample_dent = Inr ''a''"
    by (simp add: canonical_relative_def sample_env_def join_with_def sample_dent_def)
  have d: "we_depth sample_dent \<noteq> 0" "we_is_file sample_dent" "we_path sample_dent = ''a''"
    by (simp_all add: sample_dent_def)
  have st: "file_stat ?fs ''a'' = Inr \<lparr>fs_size = 2, fs_mtime_ns = 5\<rparr>"
    by (simp add: file_stat_def sample_node_def stat_of_def i64_max_def)
  have ns: "strip_suffix SUFFIX ''a'' = None" by (simp add: strip_suffix_def SUFFIX_def suffix_def append_eq_Cons_conv)
  obtain res where res: "scan_all sample_env ?fs (\<lambda>_ _ _. ?fs) (\<lambda>_ _ _. None) [Inr sample_dent] = Inr res"
    by (auto simp: scan_all_def scan_entry_def rel d st ns hash_stable_quiet)
  have "walk_file sample_env ?fs sample_dent ''a'' sample_node" using rel d by (simp add: walk_file_def)
  moreover have "Inr sample_dent \<in> set [Inr sample_dent]" by simp
  moreover have "\<not> suffix SUFFIX ''a''" using ns by (simp add: strip_suffix_def split: if_splits)
  moreover have "cache_honest sample_env ?fs [Inr sample_dent] (\<lambda>_ _ _. None)" by (simp add: cache_honest_def)
  ultimately show ?thesis using scan_reports_tree [OF res] res by blast
qed

end
