(* ===== verification/Transfers.thy ===== *)
theory Transfers
  imports Local_Files
begin

text \<open>
  Transfers of one file: \<open>apply/upload.rs\<close>, \<open>apply/download.rs\<close> and \<open>apply/repair.rs\<close>. The reader of an
  encryptor sees the files as they are when it is opened (an argument of \<open>upload_file\<close>), which need not be
  what was hashed. A temporary file under \<open>.mirror/tmp\<close> is the bytes it holds. Progress reports are left
  out, and so are I/O errors of an open file.
\<close>

section \<open>Upload\<close>

definition MAX_SINGLE_SHOT_PUT_SIZE :: u64 where
  "MAX_SINGLE_SHOT_PUT_SIZE = 8 * 1024 * 1024"

record upload_result =
  ur_size :: u64
  ur_mtime_ns :: int
  ur_content_hash :: hash
  ur_object_key :: string

definition files_fs :: "files \<Rightarrow> fs" where
  "files_fs fs = (\<lambda>p. map_option fn_bytes (fmlookup fs p))"

definition check_object_len :: "string \<Rightarrow> u64 \<Rightarrow> u64 \<Rightarrow> unit mresult" where
  "check_object_len path plaintext_len object_len =
     (if object_len \<noteq> ciphertext_len plaintext_len then Inl (EStore path) else Inr ())"

definition enc_left :: "streaming_encryptor \<Rightarrow> nat" where
  "enc_left e = (if se_encryptor e = None then 0 else Suc (length (se_reader e)))"

lemma part_loop_left:
  "part_loop A m i ct plen e = (Inr (Some part), e') \<Longrightarrow>
    se_encryptor e' = None \<or> length (se_reader e') < length (se_reader e)"
proof (induction A m i ct plen e rule: part_loop.induct)
  case (1 A m i ct plen e)
  let ?chunk = "take CHUNK_SIZE (se_reader e)" and ?rest = "drop CHUNK_SIZE (se_reader e)"
  show ?case
  proof (cases "?chunk = [] \<or> ?rest = []")
    case True
    with 1(2) show ?thesis by (subst (asm) part_loop.simps) (auto simp: Let_def split: option.splits)
  next
    case False
    then have ne: "se_reader e \<noteq> []" by auto
    show ?thesis
    proof (cases "fr_seal A (se_key e) (se_nonce e) i False (se_aad e) ?chunk")
      case None
      with 1(2) False show ?thesis by (subst (asm) part_loop.simps) (auto simp: Let_def)
    next
      case (Some frame)
      note IH = 1(1) [OF refl refl refl refl _ Some refl]
      show ?thesis
      proof (cases "m \<le> length (ct @ frame)")
        case True
        with 1(2) False Some ne show ?thesis by (subst (asm) part_loop.simps) (auto simp: Let_def)
      next
        case long: False
        with 1(2) False Some have "part_loop A m (i + 1) (ct @ frame) (plen + length ?chunk)
            (e\<lparr>se_reader := ?rest, se_encryptor := Some (i + 1)\<rparr>) = (Inr (Some part), e')"
          by (subst (asm) part_loop.simps) (simp add: Let_def)
        with IH False long ne show ?thesis by (force simp: Let_def)
      qed
    qed
  qed
qed

lemma encrypt_next_part_left:
  "encrypt_next_part A m e = (Inr (Some part), e') \<Longrightarrow> enc_left e' < enc_left e"
  by (auto simp: encrypt_next_part_def enc_left_def split: option.splits dest!: part_loop_left)

text \<open>The loop of the single-shot branch.\<close>

function collect_parts :: "aead \<Rightarrow> nat \<Rightarrow> bytes \<Rightarrow> nat \<Rightarrow> streaming_encryptor \<Rightarrow> (bytes \<times> nat) mresult" where
  "collect_parts A m payload plen e = (case encrypt_next_part A m e of
      (Inl err, _) \<Rightarrow> Inl err
    | (Inr None, _) \<Rightarrow> Inr (payload, plen)
    | (Inr (Some part), e') \<Rightarrow>
        collect_parts A m (payload @ ep_ciphertext part) (plen + ep_plaintext_len part) e')"
  by pat_completeness auto
termination
  by (relation "measure (\<lambda>(A, m, p, n, e). enc_left e)") (auto dest: encrypt_next_part_left [OF sym])

declare collect_parts.simps [simp del]

text \<open>
  The loop of the multipart branch: the nonce goes in front of the first part, each part is recorded in
  the database (unless the upload cannot be resumed), and the length sent is counted.
\<close>

definition track_part :: "bool \<Rightarrow> string \<Rightarrow> part_record \<Rightarrow> unit act" where
  "track_part track path r = (if track
     then on_db (record_upload_part path (pr_part_number r) (pr_etag r) (pr_checksum r)) else act_ok ())"

definition part_bytes :: "bytes option \<Rightarrow> bytes \<Rightarrow> bytes" where
  "part_bytes nonce_prefix ct = (case nonce_prefix of Some n \<Rightarrow> n @ ct | None \<Rightarrow> ct)"

function put_parts :: "env \<Rightarrow> nat \<Rightarrow> bool \<Rightarrow> string \<Rightarrow> bytes option \<Rightarrow> u64 \<Rightarrow> part_sink \<Rightarrow>
    streaming_encryptor \<Rightarrow> (u64 \<times> part_sink) act" where
  "put_parts E m track path nonce_prefix object_len sink e =
     (case encrypt_next_part (e_aead E) m e of
        (Inl err, _) \<Rightarrow> act_err err
      | (Inr None, _) \<Rightarrow> act_ok (object_len, sink)
      | (Inr (Some part), e') \<Rightarrow>
          (let b = part_bytes nonce_prefix (ep_ciphertext part)
           in act_bind (on_store (sink_write_part sink b)) (\<lambda>(r, sink').
              act_bind (track_part track path r) (\<lambda>_.
              put_parts E m track path None (object_len + of_nat (length b)) sink' e'))))"
  by pat_completeness auto
termination
  by (relation "measure (\<lambda>(E, m, t, p, n, l, s, e). enc_left e)") (auto dest: encrypt_next_part_left [OF sym])

declare put_parts.simps [simp del]

text \<open>
  The loop of a resumed upload: parts before \<open>next\<close> are on the remote already, so they are encrypted and
  counted but not sent.
\<close>

function resume_parts :: "env \<Rightarrow> nat \<Rightarrow> string \<Rightarrow> int \<Rightarrow> int \<Rightarrow> bytes option \<Rightarrow> u64 \<Rightarrow> part_sink \<Rightarrow>
    streaming_encryptor \<Rightarrow> (u64 \<times> part_sink) act" where
  "resume_parts E m path part_number next nonce_prefix object_len sink e =
     (case encrypt_next_part (e_aead E) m e of
        (Inl err, _) \<Rightarrow> act_err err
      | (Inr None, _) \<Rightarrow> act_ok (object_len, sink)
      | (Inr (Some part), e') \<Rightarrow>
          (let len = object_len + of_nat (length (ep_ciphertext part))
           in if next \<le> part_number
              then act_bind (on_store (sink_write_part sink (part_bytes nonce_prefix (ep_ciphertext part)))) (\<lambda>(r, sink').
                   act_bind (track_part True path r) (\<lambda>_.
                   resume_parts E m path (part_number + 1) next None len sink' e'))
              else resume_parts E m path (part_number + 1) next nonce_prefix len sink e'))"
  by pat_completeness auto
termination
  by (relation "measure (\<lambda>(E, m, p, i, j, n, l, s, e). enc_left e)") (auto dest: encrypt_next_part_left [OF sym])

declare resume_parts.simps [simp del]

text \<open>
  Complete on success, abort (ignoring its errors) on failure, and clear the record of the upload
  either way.
\<close>

definition finish_upload :: "bool \<Rightarrow> string \<Rightarrow> string \<Rightarrow> u64 \<Rightarrow> part_sink \<Rightarrow> (u64 \<times> part_sink) act \<Rightarrow> unit act" where
  "finish_upload track path source sz sink parts =
     act_bind (act_try (act_bind parts (\<lambda>(len, sink').
       act_bind (act_res (check_object_len source sz len)) (\<lambda>_. act_ok sink')))) (\<lambda>result.
     act_bind (act_try (case result of
         Inr sink' \<Rightarrow> (\<lambda>w. on_store (sink_finish (w_now w) sink') w)
       | Inl e \<Rightarrow> act_bind (act_try (on_store (sink_abort sink)) :: (merror + unit) act) (\<lambda>_. act_err e))) (\<lambda>outcome.
     act_bind (if track then on_db (clear_upload path) else act_ok ()) (\<lambda>_.
     act_res outcome)))"

definition upload_file :: "env \<Rightarrow> fs \<Rightarrow> string \<Rightarrow> string \<Rightarrow> u64 \<times> int \<times> hash \<Rightarrow> string \<Rightarrow> bool \<Rightarrow> upload_result act" where
  "upload_file E src source path stats pre track =
     (case stats of (sz, mt, h) \<Rightarrow>
      let okey = object_key E path h; store_key = pre @ okey in
      act_bind (fresh_nonce E) (\<lambda>fresh.
      act_bind (act_res (streaming_encryptor_new fresh (e_content_key E) src source path None)) (\<lambda>e.
      act_bind
        (if sz \<le> MAX_SINGLE_SHOT_PUT_SIZE
         then act_bind (act_res (collect_parts (e_aead E) (unat sz) (se_nonce e) 0 e)) (\<lambda>(payload, _).
              act_bind (act_res (check_object_len source sz (of_nat (length payload)))) (\<lambda>_.
              put_bytes store_key payload))
         else act_bind (fresh_uuid E) (\<lambda>id.
              act_bind (on_store (mem_begin_put id store_key)) (\<lambda>sink.
              let m = unat (get_chunk_size sz) in
              act_bind (if track then at_now (\<lambda>now. on_db (record_upload_start now path id m h (se_nonce e)))
                        else act_ok ()) (\<lambda>_.
              finish_upload track path source sz sink
                (put_parts E m track path (Some (se_nonce e)) 0 sink e)))))
        (\<lambda>_. act_ok \<lparr>ur_size = sz, ur_mtime_ns = mt, ur_content_hash = h, ur_object_key = okey\<rparr>))))"

text \<open>\<open>seen\<close> is what \<open>hash_stable\<close> observes; the encryptor reads the current files.\<close>

definition upload :: "env \<Rightarrow> (nat \<Rightarrow> nat \<Rightarrow> files) \<Rightarrow> string \<Rightarrow> string \<Rightarrow> upload_result option act" where
  "upload E seen pre path =
     act_bind (act_res (hash_stable E seen path)) (\<lambda>found. case found of
       None \<Rightarrow> act_ok None
     | Some stats \<Rightarrow> (\<lambda>w. act_bind (upload_file E (files_fs (w_files w)) path path stats pre True) (\<lambda>r. act_ok (Some r)) w))"

definition resume_upload :: "env \<Rightarrow> pending_upload \<Rightarrow> u64 \<times> int \<times> hash \<Rightarrow> string \<Rightarrow> upload_result act" where
  "resume_upload E p stats pre = (case stats of (sz, mt, h) \<Rightarrow>
     let path = pu_path p; okey = object_key E path (pu_content_hash p); store_key = pre @ okey;
         next = Max (insert 0 (set (map cp_part_number (pu_completed_parts p)))) + 1
     in if length (pu_nonce p) \<noteq> NONCE_SIZE then act_err (EPanic path)
        else (\<lambda>w. act_bind (act_res (streaming_encryptor_new [] (e_content_key E) (files_fs (w_files w)) path path
               (Some (pu_nonce p)))) (\<lambda>e.
             act_bind (on_store (mem_resume_put store_key (pu_upload_id p) next)) (\<lambda>sink.
             act_bind (finish_upload True path path sz sink
               (resume_parts E (pu_part_size p) path 1 next (if next = 1 then Some (pu_nonce p) else None)
                  (of_nat NONCE_SIZE) sink e)) (\<lambda>_.
             act_ok \<lparr>ur_size = sz, ur_mtime_ns = mt, ur_content_hash = h, ur_object_key = okey\<rparr>))) w))"

section \<open>Download\<close>

datatype plaintext_stream =
    Whole "bytes option"
  | Parts part_source "streaming_decryptor option"

definition open_plaintext :: "env \<Rightarrow> string \<Rightarrow> string \<Rightarrow> plaintext_stream act" where
  "open_plaintext E store_key a =
     act_bind (on_store (mem_head store_key)) (\<lambda>found. case found of
       None \<Rightarrow> act_err (EStore store_key)
     | Some meta \<Rightarrow>
         if om_size meta \<le> MAX_SINGLE_SHOT_PUT_SIZE
         then act_bind (on_store (mem_get store_key)) (\<lambda>data.
              if length data < NONCE_SIZE then act_err (EStore store_key)
              else (case feed (e_aead E) (drop NONCE_SIZE data)
                      (streaming_decryptor_new (e_content_key E) (take NONCE_SIZE data) a) of
                     (Inl err, _) \<Rightarrow> act_err err
                   | (Inr plain, d) \<Rightarrow> act_bind (act_res (decryptor_finish (e_aead E) d)) (\<lambda>tail.
                       act_ok (Whole (Some (plain @ tail))))))
         else act_bind (on_store (mem_begin_download store_key)) (\<lambda>source.
              act_ok (Parts source (Some (streaming_decryptor_new (e_content_key E) (src_nonce source) a)))))"

text \<open>\<open>PlaintextStream::next\<close>; a source hands out its body, then reports its end.\<close>

function stream_parts :: "aead \<Rightarrow> part_source \<Rightarrow> streaming_decryptor \<Rightarrow>
    (bytes option \<times> plaintext_stream) mresult" where
  "stream_parts A source d = (case source_next source of
      (Some part, source') \<Rightarrow>
        (case feed A part d of
           (Inl err, _) \<Rightarrow> Inl err
         | (Inr plain, d') \<Rightarrow>
             if plain \<noteq> [] then Inr (Some plain, Parts source' (Some d')) else stream_parts A source' d')
    | (None, source') \<Rightarrow> res_bind (decryptor_finish A d) (\<lambda>last.
        Inr (if last \<noteq> [] then Some last else None, Parts source' None)))"
  by pat_completeness auto
termination
  by (relation "measure (\<lambda>(A, s, d). case src_body s of None \<Rightarrow> 0 | Some _ \<Rightarrow> 1)")
    (auto simp: source_next_def dest: sym split: option.splits)

declare stream_parts.simps [simp del]

definition stream_next :: "aead \<Rightarrow> plaintext_stream \<Rightarrow> (bytes option \<times> plaintext_stream) mresult" where
  "stream_next A s = (case s of
      Whole data \<Rightarrow> Inr (data, Whole None)
    | Parts source None \<Rightarrow> Inr (None, Parts source None)
    | Parts source (Some d) \<Rightarrow> stream_parts A source d)"

definition stream_left :: "plaintext_stream \<Rightarrow> nat" where
  "stream_left s = (case s of
      Whole None \<Rightarrow> 0 | Whole (Some _) \<Rightarrow> 1
    | Parts _ None \<Rightarrow> 0
    | Parts source (Some _) \<Rightarrow> if src_body source = None then 1 else 2)"

lemma stream_parts_done:
  "src_body source = None \<Longrightarrow> stream_parts A source d = res_bind (decryptor_finish A d) (\<lambda>last.
     Inr (if last \<noteq> [] then Some last else None, Parts source None))"
  by (cases source) (subst stream_parts.simps, simp add: source_next_def)

lemma stream_parts_body:
  "src_body source = Some part \<Longrightarrow> stream_parts A source d = (case feed A part d of
      (Inl err, _) \<Rightarrow> Inl err
    | (Inr plain, d') \<Rightarrow> if plain \<noteq> [] then Inr (Some plain, Parts (source\<lparr>src_body := None\<rparr>) (Some d'))
        else stream_parts A (source\<lparr>src_body := None\<rparr>) d')"
  by (subst stream_parts.simps) (simp add: source_next_def)

lemma stream_parts_left:
  assumes "stream_parts A source d = Inr (Some b, s')"
  shows "stream_left s' < stream_left (Parts source (Some d))"
proof (cases "src_body source")
  case None
  with assms show ?thesis
    by (auto simp: stream_parts_done stream_left_def res_bind_ok split: if_splits)
next
  case (Some part)
  with assms show ?thesis
    by (auto simp: stream_parts_body stream_parts_done stream_left_def res_bind_ok split: sum.splits prod.splits if_splits)
qed

lemma stream_next_left: "stream_next A s = Inr (Some b, s') \<Longrightarrow> stream_left s' < stream_left s"
  by (cases s) (auto simp: stream_next_def stream_left_def split: option.splits if_splits dest!: stream_parts_left)

text \<open>The loop of \<open>fetch_verified\<close>, which appends to the temporary file.\<close>

function read_stream :: "aead \<Rightarrow> bytes \<Rightarrow> plaintext_stream \<Rightarrow> bytes mresult" where
  "read_stream A tmp s = (case stream_next A s of
      Inl err \<Rightarrow> Inl err
    | Inr (None, _) \<Rightarrow> Inr tmp
    | Inr (Some b, s') \<Rightarrow> read_stream A (tmp @ b) s')"
  by pat_completeness auto
termination
  by (relation "measure (\<lambda>(A, t, s). stream_left s)") (auto dest: stream_next_left)

declare read_stream.simps [simp del]

definition fetch_verified :: "env \<Rightarrow> string \<Rightarrow> delta_entry \<Rightarrow> bytes act" where
  "fetch_verified E pre entry =
     (let store_key = pre @ d_object_key entry in
      act_bind (open_plaintext E store_key (d_path entry)) (\<lambda>plaintext.
      act_bind (act_res (read_stream (e_aead E) [] plaintext)) (\<lambda>tmp.
      if e_blake3 E tmp \<noteq> d_plaintext_hash entry then act_err (EStore store_key) else act_ok tmp)))"

record download_result =
  dr_size :: u64
  dr_mtime_ns :: int
  dr_content_hash :: hash

definition download :: "env \<Rightarrow> string \<Rightarrow> delta_entry \<Rightarrow> download_result act" where
  "download E pre entry =
     act_bind (fetch_verified E pre entry) (\<lambda>tmp.
     act_bind (act_res (safe_join (d_path entry))) (\<lambda>durable.
     act_bind (write_node durable tmp) (\<lambda>_.
     act_bind (\<lambda>w. (file_stat (w_files w) durable, w)) (\<lambda>st.
     act_ok \<lparr>dr_size = fs_size st, dr_mtime_ns = fs_mtime_ns st, dr_content_hash = d_plaintext_hash entry\<rparr>))))"

section \<open>Repair\<close>

datatype remote_problem = Missing | WrongSize u64 u64

datatype repair = Repaired | NoLocalCopy | LocalDiffers | Failed string

record bad_object =
  bo_path :: string
  bo_problem :: remote_problem
  bo_repair :: "repair option"

record verify_report =
  vr_checked :: nat
  vr_bad :: "bad_object list"

definition head_problem :: "delta_entry \<Rightarrow> object_meta option \<Rightarrow> remote_problem option" where
  "head_problem entry head =
     (let expected = ciphertext_len (d_size entry)
      in case head of
           None \<Rightarrow> Some Missing
         | Some meta \<Rightarrow> if om_size meta \<noteq> expected then Some (WrongSize (om_size meta) expected) else None)"

text \<open>The body of \<open>repair_one\<close>, whose errors become \<open>Failed\<close>. The reasons are not distinguished here.\<close>

definition repair_attempt :: "env \<Rightarrow> (nat \<Rightarrow> nat \<Rightarrow> files) \<Rightarrow> string \<Rightarrow> delta_entry \<Rightarrow> repair act" where
  "repair_attempt E seen pre entry =
     act_bind (act_res (safe_join (d_path entry))) (\<lambda>local.
     act_bind (act_get (\<lambda>w. fmlookup (w_files w) local)) (\<lambda>found.
     if found = None then act_ok NoLocalCopy
     else act_bind (act_res (hash_stable E seen local)) (\<lambda>stats. case stats of
       None \<Rightarrow> act_ok (Failed ''file kept changing while hashing'')
     | Some (sz, mt, h) \<Rightarrow>
         if h \<noteq> d_plaintext_hash entry then act_ok LocalDiffers
         else if object_key E (d_path entry) h \<noteq> d_object_key entry
         then act_ok (Failed ''manifest object key does not match path and hash'')
         else (\<lambda>w. act_bind (upload_file E (files_fs (w_files w)) local (d_path entry) (sz, mt, h) pre True) (\<lambda>_.
              act_bind (on_store (mem_head (pre @ d_object_key entry))) (\<lambda>head.
              act_ok (case head of
                  Some meta \<Rightarrow> if om_size meta = ciphertext_len (d_size entry) then Repaired
                    else Failed ''wrong size after upload''
                | None \<Rightarrow> Failed ''object missing after upload''))) w))))"

definition repair_one :: "env \<Rightarrow> (nat \<Rightarrow> nat \<Rightarrow> files) \<Rightarrow> string \<Rightarrow> delta_entry \<Rightarrow> repair act" where
  "repair_one E seen pre entry = act_bind (act_try (repair_attempt E seen pre entry)) (\<lambda>r.
     act_ok (case r of Inr x \<Rightarrow> x | Inl (_ :: merror) \<Rightarrow> Failed ''error''))"

definition verify_remote :: "env \<Rightarrow> (string \<Rightarrow> nat \<Rightarrow> nat \<Rightarrow> files) \<Rightarrow> string \<Rightarrow> bool \<Rightarrow> manifest \<Rightarrow> verify_report act" where
  "verify_remote E seen pre repairing manifest =
     (let live = filter (\<lambda>e. \<not> d_deleted e) (fm_values manifest) in
      act_bind (act_map (\<lambda>entry. act_bind (on_store (mem_head (pre @ d_object_key entry))) (\<lambda>head.
        act_ok (entry, head_problem entry head))) live) (\<lambda>heads.
      act_bind (act_map (\<lambda>(entry, problem).
          if repairing then act_bind (repair_one E (seen (d_path entry)) pre entry) (\<lambda>r.
            act_ok \<lparr>bo_path = d_path entry, bo_problem = problem, bo_repair = Some r\<rparr>)
          else act_ok \<lparr>bo_path = d_path entry, bo_problem = problem, bo_repair = None\<rparr>)
        (concat (map (\<lambda>(entry, p). case p of None \<Rightarrow> [] | Some problem \<Rightarrow> [(entry, problem)]) heads))) (\<lambda>bad.
      act_ok \<lparr>vr_checked = length live, vr_bad = bad\<rparr>)))"

section \<open>What a transfer may change\<close>

definition transfer_keeps :: "string set \<Rightarrow> world \<Rightarrow> world \<Rightarrow> bool" where
  "transfer_keeps K w v \<longleftrightarrow> w_files v = w_files w \<and> w_now v = w_now w \<and>
     (\<exists>u p. w_db v = (w_db w)\<lparr>db_uploads := u, db_upload_parts := p\<rparr>) \<and>
     (\<forall>k. k \<notin> K \<longrightarrow> fmlookup (ms_entries (w_store v)) k = fmlookup (ms_entries (w_store w)) k)"

lemma transfer_keeps_refl [simp]: "transfer_keeps K w w"
  unfolding transfer_keeps_def by (metis state_db.surjective state_db.update_convs(4,5))

lemma transfer_keeps_store:
  "transfer_keeps K w v \<Longrightarrow> \<forall>k. k \<notin> K \<longrightarrow> fmlookup (ms_entries s) k = fmlookup (ms_entries (w_store v)) k \<Longrightarrow>
    transfer_keeps K w (v\<lparr>w_store := s\<rparr>)"
  by (auto simp: transfer_keeps_def)

lemma transfer_keeps_db:
  "transfer_keeps K w v \<Longrightarrow> transfer_keeps K w (v\<lparr>w_db := (w_db v)\<lparr>db_uploads := u, db_upload_parts := p\<rparr>\<rparr>)"
  unfolding transfer_keeps_def by force

lemma transfer_keeps_random [simp]: "transfer_keeps K w (v\<lparr>w_random := n\<rparr>) = transfer_keeps K w v"
  by (simp add: transfer_keeps_def)

lemma transfer_keeps_sub: "transfer_keeps K w v \<Longrightarrow> K \<subseteq> L \<Longrightarrow> transfer_keeps L w v"
  by (auto simp: transfer_keeps_def)

lemma keeps_write_part: "act_keeps (transfer_keeps K w) (on_store (sink_write_part sink b))"
  by (rule keeps_on_store)
    (auto simp: sink_write_part_def Let_def split: option.splits intro!: transfer_keeps_store)

lemma keeps_track_part: "act_keeps (transfer_keeps K w) (track_part track path r)"
proof -
  have "transfer_keeps K w (v\<lparr>w_db := (w_db v)\<lparr>db_upload_parts := p\<rparr>\<rparr>)" if "transfer_keeps K w v" for v p
    using transfer_keeps_db [OF that, where u = "db_uploads (w_db v)" and p = p] by simp
  then show ?thesis
    unfolding track_part_def
    by (auto simp: record_upload_part_def intro!: keeps_if keeps_ok keeps_on_db)
qed

lemma keeps_put_parts: "act_keeps (transfer_keeps K w) (put_parts E m track path np len sink e)"
proof (induction E m track path np len sink e rule: put_parts.induct)
  case (1 E m track path np len sink e)
  then show ?case
    by (subst put_parts.simps)
      (auto split: prod.splits sum.splits option.splits
        intro!: keeps_err keeps_ok keeps_bind keeps_write_part keeps_track_part simp: Let_def)
qed

lemma keeps_resume_parts: "act_keeps (transfer_keeps K w) (resume_parts E m path i j np len sink e)"
proof (induction E m path i j np len sink e rule: resume_parts.induct)
  case (1 E m path i j np len sink e)
  then show ?case
    by (subst resume_parts.simps)
      (auto split: prod.splits sum.splits option.splits
        intro!: keeps_err keeps_ok keeps_bind keeps_write_part keeps_track_part simp: Let_def)
qed

section \<open>What an upload stores\<close>

lemma collect_parts_rest:
  "case collect_parts A m payload plen e of
     Inl _ \<Rightarrow> enc_rest A e = None
   | Inr (b, _) \<Rightarrow> map_option ((@) payload) (enc_rest A e) = Some b"
proof (induction A m payload plen e rule: collect_parts.induct)
  case (1 A m payload plen e)
  note step = encrypt_next_part_rest [where A = A and m = m and e = e]
  show ?case
  proof (cases "encrypt_next_part A m e")
    case (Pair r e')
    show ?thesis
    proof (cases r)
      case (Inl err)
      with Pair step show ?thesis by (subst collect_parts.simps) simp
    next
      case (Inr found)
      show ?thesis
      proof (cases found)
        case None
        with Pair Inr step show ?thesis by (subst collect_parts.simps) simp
      next
        case (Some part)
        have "case collect_parts A m (payload @ ep_ciphertext part) (plen + ep_plaintext_len part) e' of
            Inl _ \<Rightarrow> enc_rest A e' = None
          | Inr (b, _) \<Rightarrow> map_option ((@) (payload @ ep_ciphertext part)) (enc_rest A e') = Some b"
          using 1 [OF Pair [symmetric]] Inr Some by simp
        then show ?thesis
          using Pair Inr Some step
          by (subst collect_parts.simps) (auto split: sum.splits)
      qed
    qed
  qed
qed

lemma collect_parts_ok:
  "collect_parts A m payload plen e = Inr (b, n) \<Longrightarrow> \<exists>c. enc_rest A e = Some c \<and> b = payload @ c"
  using collect_parts_rest [where A = A and m = m and payload = payload and plen = plen and e = e] by auto

lemma collect_parts_total:
  "enc_rest A e = Some c \<Longrightarrow> \<exists>n. collect_parts A m payload plen e = Inr (payload @ c, n)"
  using collect_parts_rest [where A = A and m = m and payload = payload and plen = plen and e = e] by (auto split: sum.splits)

lemma track_part_ok: "track_part track path r w = (Inr (), w1) \<Longrightarrow> w_store w1 = w_store w"
  by (auto simp: track_part_def on_db_run record_upload_part_def split: if_splits prod.splits)

lemma write_part_ok:
  assumes "fmlookup (ms_in_progress (w_store w)) (ps_key sink) = Some sofar"
    and "on_store (sink_write_part sink b) w = (Inr (r, sink'), w1)"
  shows "ps_key sink' = ps_key sink \<and>
    fmlookup (ms_in_progress (w_store w1)) (ps_key sink) = Some (sofar @ b)"
  using assms by (auto simp: on_store_run sink_write_part_def Let_def)

lemma put_parts_ok:
  assumes "put_parts E m track path np len sink e w = (Inr (len', sink'), w')"
    and "fmlookup (ms_in_progress (w_store w)) (ps_key sink) = Some sofar"
  shows "\<exists>c. enc_rest (e_aead E) e = Some c \<and> ps_key sink' = ps_key sink \<and>
    (let sent = (if se_encryptor e = None then [] else part_bytes np c) in
      fmlookup (ms_in_progress (w_store w')) (ps_key sink) = Some (sofar @ sent) \<and>
      len' = len + of_nat (length sent))"
  using assms
proof (induction E m track path np len sink e arbitrary: w sofar rule: put_parts.induct)
  case (1 E m track path np len sink e)
  note step = encrypt_next_part_rest [where A = "e_aead E" and m = m and e = e]
  obtain r e' where nx: "encrypt_next_part (e_aead E) m e = (r, e')" by (cases "encrypt_next_part (e_aead E) m e")
  from "1.prems"(1) nx obtain found where r: "r = Inr found"
    by (subst (asm) put_parts.simps) (cases r; auto)
  show ?case
  proof (cases found)
    case None
    with nx r "1.prems" step show ?thesis by (subst (asm) put_parts.simps) (auto simp: Let_def)
  next
    case (Some part)
    let ?b = "part_bytes np (ep_ciphertext part)"
    have some: "se_encryptor e \<noteq> None" using nx r Some by (auto simp: encrypt_next_part_def split: option.splits)
    from "1.prems"(1) nx r Some obtain rec sink1 w1 w2 where
      wr: "on_store (sink_write_part sink ?b) w = (Inr (rec, sink1), w1)"
      and tr: "track_part track path rec w1 = (Inr (), w2)"
      and rest: "put_parts E m track path None (len + of_nat (length ?b)) sink1 e' w2 = (Inr (len', sink'), w')"
      by (subst (asm) put_parts.simps) (auto simp: Let_def act_bind_ok)
    from write_part_ok [OF "1.prems"(2) wr] track_part_ok [OF tr]
    have k: "ps_key sink1 = ps_key sink"
      and sofar: "fmlookup (ms_in_progress (w_store w2)) (ps_key sink1) = Some (sofar @ ?b)" by auto
    from "1.IH" [OF nx [symmetric] r Some refl rest sofar]
    obtain c where c: "enc_rest (e_aead E) e' = Some c" and "ps_key sink' = ps_key sink1"
      and fin: "fmlookup (ms_in_progress (w_store w')) (ps_key sink1) =
          Some (sofar @ ?b @ (if se_encryptor e' = None then [] else c))"
        "len' = len + of_nat (length ?b) + of_nat (length (if se_encryptor e' = None then [] else c))"
      by (auto simp: Let_def part_bytes_def)
    have "se_encryptor e' = None \<Longrightarrow> c = []" using c by (simp add: enc_rest_def)
    moreover have "enc_rest (e_aead E) e = Some (ep_ciphertext part @ c)" using step nx r Some c by simp
    ultimately show ?thesis
      using fin k \<open>ps_key sink' = ps_key sink1\<close> some
      by (auto simp: Let_def part_bytes_def algebra_simps split: option.splits)
  qed
qed

lemma finish_upload_ok:
  assumes "finish_upload track path source sz sink parts w = (Inr (), w')"
  shows "\<exists>len sink' w1. parts w = (Inr (len, sink'), w1) \<and> len = ciphertext_len sz \<and>
    w_now w' = w_now w1 \<and>
    w_store w' = mem_insert (w_now w1) (ps_key sink')
      (case fmlookup (ms_in_progress (w_store w1)) (ps_key sink') of None \<Rightarrow> [] | Some b \<Rightarrow> b)
      ((w_store w1)\<lparr>ms_in_progress := fmdrop (ps_key sink') (ms_in_progress (w_store w1))\<rparr>)"
proof -
  obtain pr w1 where p: "parts w = (pr, w1)" by (cases "parts w")
  show ?thesis
  proof (cases pr)
    case (Inl x)
    with p assms show ?thesis
      by (auto simp: finish_upload_def act_bind_run act_try_run on_store_run sink_abort_def on_db_run
          split: if_splits prod.splits sum.splits)
  next
    case (Inr y)
    obtain len sink' where y: "y = (len, sink')" by (cases y)
    show ?thesis
    proof (cases "len = ciphertext_len sz")
      case True
      with p Inr y assms show ?thesis
        by (auto simp: finish_upload_def act_bind_run act_try_run on_store_run sink_finish_def on_db_run
            check_object_len_def Let_def clear_upload_def split: if_splits prod.splits sum.splits)
    next
      case False
      with p Inr y assms show ?thesis
        by (auto simp: finish_upload_def act_bind_run act_try_run on_store_run sink_abort_def on_db_run
            check_object_len_def split: if_splits prod.splits sum.splits)
    qed
  qed
qed

lemma frame_count_mono: "m \<le> n \<Longrightarrow> frame_count m \<le> frame_count n"
  unfolding frame_count_def by (intro max.mono div_le_mono diff_le_mono add_le_mono) simp_all

lemma frame_count_le: "frame_count n \<le> n + 1"
proof -
  have "(n + CHUNK_SIZE - 1) div CHUNK_SIZE \<le> n + 1"
    by (rule div_le_mono [where k = CHUNK_SIZE and n = "(n + 1) * CHUNK_SIZE", THEN order_trans])
      (simp_all add: CHUNK_SIZE_def)
  then show ?thesis by (simp add: frame_count_def)
qed

lemma object_size_bound: "n < 2 ^ 59 \<Longrightarrow> NONCE_SIZE + n + TAG_SIZE * frame_count n < 2 ^ 64"
  using frame_count_le [of n] by (simp add: NONCE_SIZE_def TAG_SIZE_def)

text \<open>Below \<open>2 ^ 59\<close> bytes the stored length determines the plaintext length.\<close>

lemma ciphertext_len_inj:
  assumes "of_nat (NONCE_SIZE + n + TAG_SIZE * frame_count n) = ciphertext_len sz"
    and "n < 2 ^ 59" and "unat sz < 2 ^ 59"
  shows "n = unat sz"
proof -
  let ?f = "\<lambda>n. NONCE_SIZE + n + TAG_SIZE * frame_count n"
  have "ciphertext_len sz = of_nat (?f (unat sz))"
    using ciphertext_len_nat [of "unat sz"] assms(3) by simp
  then have "unat (of_nat (?f n) :: u64) = unat (of_nat (?f (unat sz)) :: u64)" using assms(1) by argo
  moreover have "unat (of_nat (?f x) :: u64) = ?f x" if "x < 2 ^ 59" for x
    using object_size_bound [OF that] by (simp only: unat_of_nat take_bit_nat_eq_self_iff) simp
  ultimately have eq: "?f n = ?f (unat sz)" using assms(2,3) by metis
  show ?thesis
  proof (rule ccontr)
    assume "n \<noteq> unat sz"
    then consider "n < unat sz" | "unat sz < n" by linarith
    then show False using eq frame_count_mono [of n "unat sz"] frame_count_mono [of "unat sz" n] by cases (auto simp: TAG_SIZE_def)
  qed
qed

lemma upload_file_ok:
  assumes "upload_file E src source path (sz, mt, h) pre track w = (Inr r, w')"
  shows "\<exists>b c. src source = Some b \<and>
    stream_seal (e_aead E) (e_content_key E) (e_nonce E (w_random w)) path 0 b = Some c \<and>
    fmlookup (ms_entries (w_store w')) (pre @ object_key E path h) =
      Some \<lparr>obj_bytes = e_nonce E (w_random w) @ c, obj_modified = w_now w\<rparr> \<and>
    of_nat (length (e_nonce E (w_random w) @ c)) = ciphertext_len sz \<and>
    r = \<lparr>ur_size = sz, ur_mtime_ns = mt, ur_content_hash = h, ur_object_key = object_key E path h\<rparr>"
proof -
  let ?A = "e_aead E" and ?n = "e_nonce E (w_random w)" and ?k = "pre @ object_key E path h"
  from assms obtain e where e: "streaming_encryptor_new ?n (e_content_key E) src source path None = Inr e"
    and r: "r = \<lparr>ur_size = sz, ur_mtime_ns = mt, ur_content_hash = h, ur_object_key = object_key E path h\<rparr>"
    by (auto simp: upload_file_def Let_def act_bind_ok)
  then obtain b where b: "src source = Some b" and enc: "se_encryptor e = Some 0" "se_nonce e = ?n"
    and rest: "enc_rest ?A e = stream_seal ?A (e_content_key E) ?n path 0 b"
    by (auto simp: streaming_encryptor_new_def enc_rest_def split: option.splits)
  show ?thesis
  proof (cases "sz \<le> MAX_SINGLE_SHOT_PUT_SIZE")
    case True
    with assms e obtain payload m where p: "collect_parts ?A (unat sz) (se_nonce e) 0 e = Inr (payload, m)"
      and len: "of_nat (length payload) = ciphertext_len sz"
      and w': "fmlookup (ms_entries (w_store w')) ?k = Some \<lparr>obj_bytes = payload, obj_modified = w_now w\<rparr>"
      by (auto simp: upload_file_def Let_def act_bind_ok check_object_len_def put_bytes_ok mem_insert_def
          split: if_splits)
    from collect_parts_ok [OF p] rest b r len w' enc show ?thesis by auto
  next
    case False
    define id where "id = e_uuid E (Suc (w_random w))"
    define sink where "sink = \<lparr>ps_part_number = 1, ps_key = ?k, ps_upload_id = id\<rparr>"
    from assms e False obtain w1 where
      fin: "finish_upload track path source sz sink
          (put_parts E (unat (get_chunk_size sz)) track path (Some (se_nonce e)) 0 sink e) w1 = (Inr (), w')"
      and w1: "fmlookup (ms_in_progress (w_store w1)) ?k = Some []" "w_now w1 = w_now w"
      by (auto simp: upload_file_def Let_def act_bind_ok on_store_run on_db_run at_now_run mem_begin_put_def
          record_upload_start_def id_def sink_def split: if_splits)
    from finish_upload_ok [OF fin] obtain len sink' w2 where
      put: "put_parts E (unat (get_chunk_size sz)) track path (Some (se_nonce e)) 0 sink e w1 = (Inr (len, sink'), w2)"
      and len: "len = ciphertext_len sz"
      and w': "w_store w' = mem_insert (w_now w2) (ps_key sink')
        (case fmlookup (ms_in_progress (w_store w2)) (ps_key sink') of None \<Rightarrow> [] | Some b \<Rightarrow> b)
        ((w_store w2)\<lparr>ms_in_progress := fmdrop (ps_key sink') (ms_in_progress (w_store w2))\<rparr>)"
      by blast
    have "transfer_keeps {} w1 w2"
      by (rule act_keepsD [OF keeps_put_parts _ put]) simp
    then have now: "w_now w2 = w_now w1" by (simp add: transfer_keeps_def)
    have "ps_key sink = ?k" by (simp add: sink_def)
    with put_parts_ok [OF put] w1(1) obtain c where c: "enc_rest ?A e = Some c" and k: "ps_key sink' = ?k"
      and ip: "fmlookup (ms_in_progress (w_store w2)) ?k = Some (?n @ c)" and l: "len = of_nat (length (?n @ c))"
      using enc by (auto simp: Let_def part_bytes_def)
    show ?thesis
      using b rest c r len l w' k ip now w1(2) by (auto simp: mem_insert_def)
  qed
qed

section \<open>What a download yields\<close>

lemma read_stream_Whole [simp]: "read_stream A tmp (Whole data) = Inr (tmp @ (case data of None \<Rightarrow> [] | Some b \<Rightarrow> b))"
  by (subst read_stream.simps, cases data)
    (simp_all add: stream_next_def, subst read_stream.simps, simp add: stream_next_def)

lemma read_stream_ended [simp]: "read_stream A tmp (Parts source None) = Inr tmp"
  by (subst read_stream.simps) (simp add: stream_next_def)

lemma read_stream_last:
  "src_body source = None \<Longrightarrow> read_stream A tmp (Parts source (Some d)) =
    res_bind (decryptor_finish A d) (\<lambda>last. Inr (tmp @ last))"
  by (subst read_stream.simps)
    (auto simp: stream_next_def stream_parts_done res_bind_def split: sum.splits)

lemma read_stream_body:
  "src_body source = Some part \<Longrightarrow> read_stream A tmp (Parts source (Some d)) = (case feed A part d of
      (Inl err, _) \<Rightarrow> Inl err
    | (Inr plain, d') \<Rightarrow> res_bind (decryptor_finish A d') (\<lambda>last. Inr (tmp @ plain @ last)))"
  by (subst read_stream.simps)
    (auto simp: stream_next_def stream_parts_body stream_parts_done read_stream_last res_bind_def
      split: sum.splits prod.splits)

lemma read_stream_pieces:
  "src_body source = Some part \<Longrightarrow>
    read_stream A [] (Parts source (Some d)) = decrypt_pieces A [part] d"
  by (auto simp: read_stream_body decrypt_pieces_def act_bind_run split: sum.splits prod.splits)

lemma open_read:
  "fst (act_bind (open_plaintext E k a) (\<lambda>s. act_res (read_stream (e_aead E) [] s)) w) =
     (case fmlookup (ms_entries (w_store w)) k of
        None \<Rightarrow> Inl (EStore k)
      | Some ob \<Rightarrow> if length (obj_bytes ob) < NONCE_SIZE then Inl (EStore k)
          else decrypt_bytes (e_aead E) (e_content_key E) (obj_bytes ob) a)"
proof (cases "fmlookup (ms_entries (w_store w)) k")
  case None
  then show ?thesis by (simp add: open_plaintext_def act_bind_run on_store_run mem_head_def)
next
  case (Some ob)
  let ?d = "streaming_decryptor_new (e_content_key E) (take NONCE_SIZE (obj_bytes ob)) a"
  show ?thesis
  proof (cases "(of_nat (length (obj_bytes ob)) :: u64) \<le> MAX_SINGLE_SHOT_PUT_SIZE")
    case True
    with Some show ?thesis
      by (cases "feed (e_aead E) (drop NONCE_SIZE (obj_bytes ob)) ?d")
        (auto simp: open_plaintext_def act_bind_run on_store_run mem_head_def mem_meta_def mem_get_def
          decrypt_bytes_def res_bind_def split: sum.splits prod.splits)
  next
    case False
    with Some show ?thesis
      by (auto simp: open_plaintext_def act_bind_run on_store_run mem_head_def mem_meta_def
          mem_begin_download_def decrypt_bytes_pieces read_stream_pieces split: sum.splits prod.splits)
  qed
qed

lemma open_read_frame:
  "\<exists>n. snd (open_plaintext E k a w) = w\<lparr>w_store := (w_store w)\<lparr>ms_bytes_read := n\<rparr>\<rparr>"
proof -
  have same: "\<exists>n. w = w\<lparr>w_store := (w_store w)\<lparr>ms_bytes_read := n\<rparr>\<rparr>"
    by (rule exI [of _ "ms_bytes_read (w_store w)"]) simp
  show ?thesis
    by (cases "fmlookup (ms_entries (w_store w)) k")
      (auto simp: open_plaintext_def act_bind_run on_store_run mem_head_def mem_get_def mem_begin_download_def
        count_read_def same intro: exI split: sum.splits prod.splits)
qed

lemma fetch_verified_ok:
  "fst (fetch_verified E pre entry w) = Inr tmp \<longleftrightarrow>
    (\<exists>ob. fmlookup (ms_entries (w_store w)) (pre @ d_object_key entry) = Some ob \<and>
       decrypt_bytes (e_aead E) (e_content_key E) (obj_bytes ob) (d_path entry) = Inr tmp) \<and>
    e_blake3 E tmp = d_plaintext_hash entry"
proof -
  let ?k = "pre @ d_object_key entry"
  have "fst (fetch_verified E pre entry w) = Inr tmp \<longleftrightarrow>
      fst (act_bind (open_plaintext E ?k (d_path entry)) (\<lambda>s. act_res (read_stream (e_aead E) [] s)) w) = Inr tmp \<and>
      e_blake3 E tmp = d_plaintext_hash entry"
    by (auto simp: fetch_verified_def Let_def act_bind_run split: sum.splits prod.splits)
  then show ?thesis unfolding open_read
    by (auto simp: decrypt_bytes_ok split: option.splits)
qed

lemma fetch_verified_frame:
  "\<exists>n. snd (fetch_verified E pre entry w) = w\<lparr>w_store := (w_store w)\<lparr>ms_bytes_read := n\<rparr>\<rparr>"
proof -
  have "snd (fetch_verified E pre entry w) = snd (open_plaintext E (pre @ d_object_key entry) (d_path entry) w)"
    by (auto simp: fetch_verified_def Let_def act_bind_run split: sum.splits prod.splits)
  then show ?thesis using open_read_frame by simp
qed

lemma download_run:
  assumes "download E pre entry w = (res, w')"
  shows "\<exists>n. case fst (fetch_verified E pre entry w) of
      Inl e \<Rightarrow> res = Inl e \<and> w' = w\<lparr>w_store := (w_store w)\<lparr>ms_bytes_read := n\<rparr>\<rparr>
    | Inr tmp \<Rightarrow> (case safe_join (d_path entry) of
          Inl e \<Rightarrow> res = Inl e \<and> w' = w\<lparr>w_store := (w_store w)\<lparr>ms_bytes_read := n\<rparr>\<rparr>
        | Inr p \<Rightarrow> res = Inr \<lparr>dr_size = of_nat (length tmp), dr_mtime_ns = min (int (w_now w)) i64_max,
              dr_content_hash = d_plaintext_hash entry\<rparr> \<and>
            w' = w\<lparr>w_store := (w_store w)\<lparr>ms_bytes_read := n\<rparr>, w_files := fmupd p
              \<lparr>fn_bytes = tmp, fn_mtime_ns = int (w_now w), fn_mode = 384\<rparr> (w_files w)\<rparr>)"
proof -
  obtain n where n: "snd (fetch_verified E pre entry w) = w\<lparr>w_store := (w_store w)\<lparr>ms_bytes_read := n\<rparr>\<rparr>"
    using fetch_verified_frame by blast
  show ?thesis
    using assms n
    by (intro exI [of _ n], cases "fetch_verified E pre entry w")
      (auto simp: download_def act_bind_run write_node_def file_stat_def stat_of_def split: sum.splits)
qed

text \<open>
  C28: a download replaces the file with verified content or leaves it alone. If it succeeds, the
  file holds bytes that the stored object decrypts to under the entry's path and whose hash is the
  manifest's, and the reported size and time are the file's; if it fails, no file has changed. In
  either case nothing else does: no other file, not the database, no object of the store.
\<close>

theorem download_verified:
  assumes "download E pre entry w = (res, w')"
  shows "(case res of
      Inl _ \<Rightarrow> w_files w' = w_files w
    | Inr r \<Rightarrow> \<exists>p ob n. safe_join (d_path entry) = Inr p \<and>
        fmlookup (ms_entries (w_store w)) (pre @ d_object_key entry) = Some ob \<and>
        decrypt_bytes (e_aead E) (e_content_key E) (obj_bytes ob) (d_path entry) = Inr (fn_bytes n) \<and>
        e_blake3 E (fn_bytes n) = d_plaintext_hash entry \<and>
        w_files w' = fmupd p n (w_files w) \<and> file_stat (w_files w') p = Inr \<lparr>fs_size = dr_size r, fs_mtime_ns = dr_mtime_ns r\<rparr>) \<and>
    w_db w' = w_db w \<and> ms_entries (w_store w') = ms_entries (w_store w)"
proof -
  from download_run [OF assms] obtain n where run: "case fst (fetch_verified E pre entry w) of
      Inl e \<Rightarrow> res = Inl e \<and> w' = w\<lparr>w_store := (w_store w)\<lparr>ms_bytes_read := n\<rparr>\<rparr>
    | Inr tmp \<Rightarrow> (case safe_join (d_path entry) of
          Inl e \<Rightarrow> res = Inl e \<and> w' = w\<lparr>w_store := (w_store w)\<lparr>ms_bytes_read := n\<rparr>\<rparr>
        | Inr p \<Rightarrow> res = Inr \<lparr>dr_size = of_nat (length tmp), dr_mtime_ns = min (int (w_now w)) i64_max,
              dr_content_hash = d_plaintext_hash entry\<rparr> \<and>
            w' = w\<lparr>w_store := (w_store w)\<lparr>ms_bytes_read := n\<rparr>, w_files := fmupd p
              \<lparr>fn_bytes = tmp, fn_mtime_ns = int (w_now w), fn_mode = 384\<rparr> (w_files w)\<rparr>)" by blast
  show ?thesis
  proof (cases res)
    case (Inl e)
    with run show ?thesis by (auto split: sum.splits)
  next
    case (Inr r)
    with run obtain tmp p where tmp: "fst (fetch_verified E pre entry w) = Inr tmp"
      and p: "safe_join (d_path entry) = Inr p" by (auto split: sum.splits)
    from tmp obtain ob where ob: "fmlookup (ms_entries (w_store w)) (pre @ d_object_key entry) = Some ob"
        "decrypt_bytes (e_aead E) (e_content_key E) (obj_bytes ob) (d_path entry) = Inr tmp"
      and h: "e_blake3 E tmp = d_plaintext_hash entry" by (auto simp: fetch_verified_ok)
    let ?n = "\<lparr>fn_bytes = tmp, fn_mtime_ns = int (w_now w), fn_mode = 384\<rparr>"
    have "w_files w' = fmupd p ?n (w_files w)" using run tmp p by simp
    moreover have "file_stat (w_files w') p = Inr \<lparr>fs_size = dr_size r, fs_mtime_ns = dr_mtime_ns r\<rparr>"
      using run tmp p Inr by (auto simp: file_stat_def stat_of_def)
    moreover have "w_db w' = w_db w" "ms_entries (w_store w') = ms_entries (w_store w)" using run tmp p by auto
    ultimately show ?thesis using Inr ob h p by (auto intro!: exI [of _ ?n])
  qed
qed

lemma fetch_after_upload:
  assumes "aead_ok (e_aead E)" and "nonces_ok E"
    and "upload_file E src source path (sz, mt, h) pre track w = (Inr r, w')" and "src source = Some b"
    and "ms_entries (w_store v) = ms_entries (w_store w')"
    and "d_path entry = path" and "d_object_key entry = ur_object_key r"
    and "e_blake3 E b = d_plaintext_hash entry"
  shows "fst (fetch_verified E pre entry v) = Inr b"
proof -
  from upload_file_ok [OF assms(3)] assms(4) obtain c where
    c: "stream_seal (e_aead E) (e_content_key E) (e_nonce E (w_random w)) path 0 b = Some c"
    and ob: "fmlookup (ms_entries (w_store w')) (pre @ object_key E path h) =
      Some \<lparr>obj_bytes = e_nonce E (w_random w) @ c, obj_modified = w_now w\<rparr>"
    and k: "ur_object_key r = object_key E path h" by auto
  have "length (e_nonce E (w_random w)) = NONCE_SIZE" using assms(2) by (simp add: nonces_ok_def)
  with stream_open_seal [OF assms(1) c] ob k assms(5-8) show ?thesis
    by (simp add: fetch_verified_ok decrypt_bytes_ok)
qed

text \<open>
  C26: what one device uploads, another downloads. After a successful upload of a file with bytes \<open>b\<close>
  (in one piece or in parts), every world whose store holds the same objects can download the entry
  that records it, and then holds a file with exactly these bytes; and the upload was of a file as
  long as the one that was hashed.
\<close>

theorem transfer_roundtrip:
  assumes "aead_ok (e_aead E)" and "nonces_ok E"
    and "upload_file E src source path (sz, mt, h) pre track w = (Inr r, w')" and "src source = Some b"
    and "ms_entries (w_store v) = ms_entries (w_store w')"
    and "d_path entry = path" and "d_object_key entry = ur_object_key r"
    and "d_plaintext_hash entry = ur_content_hash r" and "e_blake3 E b = h"
    and "safe_join path = Inr p" and "length b < 2 ^ 59" and "unat sz < 2 ^ 59"
  shows "\<exists>r' v'. download E pre entry v = (Inr r', v') \<and>
    map_option fn_bytes (fmlookup (w_files v') p) = Some b \<and> dr_size r' = sz"
proof -
  from upload_file_ok [OF assms(3)] assms(4) obtain c where
    c: "stream_seal (e_aead E) (e_content_key E) (e_nonce E (w_random w)) path 0 b = Some c"
    and len: "of_nat (length (e_nonce E (w_random w) @ c)) = ciphertext_len sz"
    and r: "ur_content_hash r = h" by auto
  have "of_nat (NONCE_SIZE + length b + TAG_SIZE * frame_count (length b)) = ciphertext_len sz"
    using len stream_seal_length [OF assms(1) c] assms(2) by (simp add: nonces_ok_def algebra_simps)
  from ciphertext_len_inj [OF this assms(11,12)] have sz: "of_nat (length b) = sz" by simp
  have "fst (fetch_verified E pre entry v) = Inr b"
    using fetch_after_upload [OF assms(1-7)] assms(8,9) r by simp
  moreover obtain res v' where d: "download E pre entry v = (res, v')" by (cases "download E pre entry v")
  ultimately show ?thesis using download_run [OF d] assms(6,10) sz by auto
qed

definition sample_upload_entry :: "string \<Rightarrow> delta_entry" where
  "sample_upload_entry k = \<lparr>d_path = ''a'', d_object_key = k, d_plaintext_hash = [8, 9], d_size = 2, d_mtime_utc = 0,
     d_deleted = False, d_deleted_at = 0, d_lamport = 1, d_device_id = ''device'', d_base_hash = None\<rparr>"

lemma sample_safe_join: "safe_join ''a'' = Inr ''a''"
  by (simp add: safe_join_def path_components_def segment_component_def join_with_def)

lemma sample_upload_run:
  "\<exists>r payload. upload_file sample_env (files_fs (fmupd ''a'' sample_node fmempty)) ''a'' ''a'' (2, 5, [8, 9]) ''p/'' t
      (sample_world\<lparr>w_files := fs\<rparr>) = (Inr r, sample_world\<lparr>w_files := fs, w_random := 1, w_store :=
        mem_insert (w_now sample_world) (''p/'' @ object_key sample_env ''a'' [8, 9]) payload (w_store sample_world)\<rparr>)"
proof -
  let ?A = "e_aead sample_env" and ?n = "e_nonce sample_env 0"
  let ?e = "\<lparr>se_key = e_content_key sample_env, se_encryptor = Some 0, se_reader = [8, 9], se_input_path = ''a'',
     se_aad = ''a'', se_nonce = ?n\<rparr>"
  have c: "enc_rest ?A ?e = Some ([8, 9] @ sample_tag 0 True)"
    by (simp add: enc_rest_def stream_seal_last CHUNK_SIZE_def sample_env_def sample_aead_def)
  obtain m where m: "collect_parts ?A 2 ?n 0 ?e = Inr (?n @ [8, 9] @ sample_tag 0 True, m)"
    using collect_parts_total [OF c] by blast
  have "of_nat (length (?n @ [8, 9] @ sample_tag 0 True)) = ciphertext_len 2"
    by (simp add: sample_env_def sample_tag_def ciphertext_len_def NONCE_SIZE_def TAG_SIZE_def CHUNK_SIZE_def)
  with m show ?thesis
    by (intro exI [of _ "?n @ [8, 9] @ sample_tag 0 True"] exI)
      (simp add: upload_file_def Let_def act_bind_run streaming_encryptor_new_def files_fs_def sample_node_def
        MAX_SINGLE_SHOT_PUT_SIZE_def check_object_len_def put_bytes_def on_store_run mem_put_bytes_def
        maybe_fail_put_def sample_world_def mem_new_def)
qed

lemma sample_upload:
  "\<exists>r w. upload_file sample_env (files_fs (fmupd ''a'' sample_node fmempty)) ''a'' ''a'' (2, 5, [8, 9]) ''p/'' t
      (sample_world\<lparr>w_files := fs\<rparr>) = (Inr r, w)"
  using sample_upload_run [of t fs] by blast

theorem transfer_roundtrip_witness:
  "\<exists>r w r' v. upload_file sample_env (files_fs (fmupd ''a'' sample_node fmempty)) ''a'' ''a'' (2, 5, [8, 9]) ''p/'' False
      (sample_world\<lparr>w_files := fmempty\<rparr>) = (Inr r, w) \<and> download sample_env ''p/'' (sample_upload_entry (ur_object_key r)) w = (Inr r', v) \<and>
    map_option fn_bytes (fmlookup (w_files v) ''a'') = Some [8, 9]"
proof -
  obtain r w where u: "upload_file sample_env (files_fs (fmupd ''a'' sample_node fmempty)) ''a'' ''a'' (2, 5, [8, 9])
      ''p/'' False (sample_world\<lparr>w_files := fmempty\<rparr>) = (Inr r, w)" using sample_upload by blast
  then have "ur_content_hash r = [8, 9]" using upload_file_ok [OF u] by auto
  with transfer_roundtrip [OF sample_env_aead sample_nonces u, where b = "[8, 9]" and v = w
      and entry = "sample_upload_entry (ur_object_key r)" and p = "''a''"]
  show ?thesis using u
    by (auto simp: sample_upload_entry_def sample_safe_join files_fs_def sample_node_def sample_env_def)
qed

theorem download_verified_witness:
  "w_files (snd (download sample_env ''p/'' (sample_upload_entry ''k'') sample_world)) = fmempty"
proof -
  obtain res v where d: "download sample_env ''p/'' (sample_upload_entry ''k'') sample_world = (res, v)"
    by (cases "download sample_env ''p/'' (sample_upload_entry ''k'') sample_world")
  have "fmlookup (ms_entries (w_store sample_world)) (''p/'' @ d_object_key (sample_upload_entry ''k'')) = None"
    by (simp add: sample_world_def mem_new_def)
  with download_verified [OF d] have "w_files v = w_files sample_world" by (auto split: sum.splits)
  with d show ?thesis by (simp add: sample_world_def)
qed

section \<open>Frames of the upload\<close>

lemma keeps_sink_finish:
  "ps_key sink \<in> K \<Longrightarrow> act_keeps (transfer_keeps K w) (\<lambda>v. on_store (sink_finish (w_now v) sink) v)"
  unfolding act_keeps_def
  by (auto simp: on_store_run sink_finish_def Let_def mem_insert_def intro!: transfer_keeps_store)

lemma keeps_sink_abort: "act_keeps (transfer_keeps K w) (on_store (sink_abort sink))"
  by (rule keeps_on_store) (auto simp: sink_abort_def intro!: transfer_keeps_store)

lemma keeps_clear_upload: "act_keeps (transfer_keeps K w) (on_db (clear_upload path))"
  by (rule keeps_on_db) (auto simp: clear_upload_def intro!: transfer_keeps_db)

lemma keeps_put_bytes: "key \<in> K \<Longrightarrow> act_keeps (transfer_keeps K w) (put_bytes key b)"
  unfolding act_keeps_def
  by (auto simp: put_bytes_def on_store_run mem_put_bytes_def mem_insert_def split: sum.splits
      intro!: transfer_keeps_store)

text \<open>A parts loop is well behaved if it keeps the frame and returns the sink of its key.\<close>

lemma keeps_finish_upload:
  assumes "act_keeps (transfer_keeps K w) parts" and "ps_key sink \<in> K"
    and "\<And>v len sink' v'. parts v = (Inr (len, sink'), v') \<Longrightarrow> ps_key sink' = ps_key sink"
  shows "act_keeps (transfer_keeps K w) (finish_upload track path source sz sink parts)"
proof (rule act_keepsI)
  fix v
  assume v: "transfer_keeps K w v"
  obtain pr v1 where p: "parts v = (pr, v1)" by (cases "parts v")
  with assms(1) v have v1: "transfer_keeps K w v1" by (rule act_keepsD)
  have fin: "transfer_keeps K w (snd (act_bind (act_try m) (\<lambda>outcome.
      act_bind (if track then on_db (clear_upload path) else act_ok ()) (\<lambda>_. act_res outcome)) v1))"
    if "act_keeps (transfer_keeps K w) m" for m :: "unit act"
  proof -
    have "act_keeps (transfer_keeps K w) (act_bind (act_try m) (\<lambda>outcome :: merror + unit.
      act_bind (if track then on_db (clear_upload path) else act_ok ()) (\<lambda>_. act_res outcome)))"
      by (intro keeps_bind keeps_try that keeps_if keeps_clear_upload keeps_ok keeps_res)
    with v1 show ?thesis by (simp add: act_keeps_def)
  qed
  have ab: "act_keeps (transfer_keeps K w)
      (act_bind (act_try (on_store (sink_abort sink)) :: (merror + unit) act) (\<lambda>_. act_err e :: unit act))" for e
    by (intro keeps_bind keeps_try keeps_sink_abort keeps_err)
  show "transfer_keeps K w (snd (finish_upload track path source sz sink parts v))"
  proof (cases pr)
    case (Inl e)
    with p fin [OF ab [of e]] show ?thesis
      by (simp add: finish_upload_def act_bind_run [of "act_try (act_bind parts _)"] act_try_run
          act_bind_run [of parts])
  next
    case (Inr y)
    obtain len sink' where y: "y = (len, sink')" by (cases y)
    then have "ps_key sink' \<in> K" using assms(2,3) p Inr by metis
    from fin [OF keeps_sink_finish [OF this]] fin [OF ab [of "EStore source"]] p Inr y show ?thesis
      by (simp add: finish_upload_def act_bind_run [of "act_try (act_bind parts _)"] act_try_run
          act_bind_run [of parts] check_object_len_def)
  qed
qed

lemma write_part_key: "on_store (sink_write_part sink b) v = (Inr (r, sink'), v') \<Longrightarrow> ps_key sink' = ps_key sink"
  by (auto simp: on_store_run sink_write_part_def Let_def split: option.splits)

lemma put_parts_key:
  "put_parts E m track path np len sink e v = (Inr (len', sink'), v') \<Longrightarrow> ps_key sink' = ps_key sink"
proof (induction E m track path np len sink e arbitrary: v rule: put_parts.induct)
  case (1 E m track path np len sink e)
  then show ?case
    by (subst (asm) (2) put_parts.simps)
      (fastforce simp: Let_def act_bind_ok dest: write_part_key split: prod.splits sum.splits option.splits)
qed

lemma resume_parts_key:
  "resume_parts E m path i j np len sink e v = (Inr (len', sink'), v') \<Longrightarrow> ps_key sink' = ps_key sink"
proof (induction E m path i j np len sink e arbitrary: v rule: resume_parts.induct)
  case (1 E m path i j np len sink e)
  then show ?case
    by (subst (asm) (3) resume_parts.simps)
      (fastforce simp: Let_def act_bind_ok dest: write_part_key split: prod.splits sum.splits option.splits if_splits)
qed

lemma keeps_begin_put: "act_keeps (transfer_keeps K w) (on_store (mem_begin_put uid k))"
  by (rule keeps_on_store) (auto simp: mem_begin_put_def intro!: transfer_keeps_store)

lemma begin_put_key: "on_store (mem_begin_put uid k) v = (Inr sink, v') \<Longrightarrow> ps_key sink = k"
  by (auto simp: on_store_run mem_begin_put_def)

lemma keeps_upload_start: "act_keeps (transfer_keeps K w) (at_now (\<lambda>now. on_db (record_upload_start now path uid m h n)))"
proof -
  have "transfer_keeps K w (v\<lparr>w_db := (w_db v)\<lparr>db_uploads := p\<rparr>\<rparr>)" if "transfer_keeps K w v" for v p
    using transfer_keeps_db [OF that, where p = "db_upload_parts (w_db v)" and u = p] by simp
  then show ?thesis
    by (intro keeps_at_now keeps_on_db) (auto simp: record_upload_start_def)
qed

lemma keeps_bind_val:
  "act_keeps P m \<Longrightarrow> (\<And>x v v'. m v = (Inr x, v') \<Longrightarrow> act_keeps P (f x)) \<Longrightarrow> act_keeps P (act_bind m f)"
  unfolding act_keeps_def act_bind_run by (force split: prod.splits sum.splits)

lemma keeps_upload_file:
  assumes "pre @ object_key E path (snd (snd stats)) \<in> K"
  shows "act_keeps (transfer_keeps K w) (upload_file E src source path stats pre track)"
proof -
  obtain sz mt h where st: "stats = (sz, mt, h)" by (cases stats)
  with assms have k: "pre @ object_key E path h \<in> K" by simp
  have nonce: "act_keeps (transfer_keeps K w) (fresh_nonce E)" and uuid: "act_keeps (transfer_keeps K w) (fresh_uuid E)"
    by (simp_all add: act_keeps_def)
  show ?thesis
    unfolding upload_file_def st prod.case Let_def
    by (intro keeps_bind nonce keeps_res keeps_if keeps_put_bytes k uuid keeps_ok keeps_upload_start
        keeps_bind_val [OF keeps_begin_put] keeps_finish_upload keeps_put_parts)
      (auto dest: begin_put_key put_parts_key simp: k intro!: keeps_bind keeps_res keeps_put_bytes)
qed

lemma finish_upload_clears:
  "fmlookup (db_uploads (w_db (snd (finish_upload True path source sz sink parts w)))) path = None"
  by (auto simp: finish_upload_def act_bind_run act_try_run on_db_run clear_upload_def split: prod.splits sum.splits)

lemma upload_file_clears:
  assumes "src source \<noteq> None" and "MAX_SINGLE_SHOT_PUT_SIZE < sz"
  shows "fmlookup (db_uploads (w_db (snd (upload_file E src source path (sz, mt, h) pre True w)))) path = None"
  using assms finish_upload_clears
  by (auto simp: upload_file_def Let_def act_bind_run streaming_encryptor_new_def on_store_run mem_begin_put_def
      at_now_run on_db_run record_upload_start_def split: prod.splits sum.splits)
    (metis snd_conv)+

text \<open>
  an upload in parts leaves nothing behind but its object. Whether a multipart upload of an
  existing file completes or fails, the database has no pending record of it afterwards, and no
  file, no baseline row and no other object has changed.
\<close>

theorem upload_leaves_no_pending:
  assumes "upload_file E src source path (sz, mt, h) pre True w = (res, w')"
    and "src source \<noteq> None" and "MAX_SINGLE_SHOT_PUT_SIZE < sz"
  shows "fmlookup (db_uploads (w_db w')) path = None \<and> db_files (w_db w') = db_files (w_db w) \<and>
    w_files w' = w_files w \<and>
    (\<forall>k. k \<noteq> pre @ object_key E path h \<longrightarrow>
       fmlookup (ms_entries (w_store w')) k = fmlookup (ms_entries (w_store w)) k)"
proof -
  have "transfer_keeps {pre @ object_key E path h} w w'"
    by (rule act_keepsD [OF keeps_upload_file _ assms(1)]) simp_all
  with upload_file_clears [where src = src and source = source, OF assms(2,3), of E path mt h pre w] assms(1) show ?thesis
    by (auto simp: transfer_keeps_def)
qed

theorem upload_leaves_no_pending_witness:
  "fmlookup (db_uploads (w_db (snd (upload_file sample_env (\<lambda>_. Some [8, 9]) ''a'' ''a'' (9000000, 5, [8, 9]) ''p/''
     True sample_world)))) ''a'' = None"
proof -
  obtain res w' where "upload_file sample_env (\<lambda>_. Some [8, 9]) ''a'' ''a'' (9000000, 5, [8, 9]) ''p/'' True
      sample_world = (res, w')" by (cases "upload_file sample_env (\<lambda>_. Some [8, 9]) ''a'' ''a''
      (9000000, 5, [8, 9]) ''p/'' True sample_world")
  from upload_leaves_no_pending [OF this] this show ?thesis by (simp add: MAX_SINGLE_SHOT_PUT_SIZE_def)
qed

section \<open>Resuming\<close>

lemma resume_put_parts:
  assumes "j \<le> i" and "se_encryptor e \<noteq> None \<or> np = None"
  shows "resume_parts E m path i j np len sink e =
    put_parts E m True path np (len - of_nat (length (part_bytes np []))) sink e"
  using assms
proof (induction E m path i j np len sink e rule: resume_parts.induct)
  case (1 E m path i j np len sink e)
  obtain r e' where nx: "encrypt_next_part (e_aead E) m e = (r, e')" by (cases "encrypt_next_part (e_aead E) m e")
  show ?case
  proof (cases r)
    case (Inl err)
    with nx show ?thesis by (subst resume_parts.simps, subst put_parts.simps) simp
  next
    case (Inr found)
    show ?thesis
    proof (cases found)
      case None
      with nx Inr have "se_encryptor e = None"
        using encrypt_next_part_rest [where A = "e_aead E" and m = m and e = e] by simp
      with "1.prems"(2) nx Inr None show ?thesis
        by (subst resume_parts.simps, subst put_parts.simps) (simp add: part_bytes_def)
    next
      case (Some part)
      have IH: "resume_parts E m path (i + 1) j None (len + of_nat (length (ep_ciphertext part))) s e' =
          put_parts E m True path None (len + of_nat (length (ep_ciphertext part))) s e'" for s
        using "1.IH"(1) [OF nx [symmetric] Inr Some refl "1.prems"(1)] "1.prems"(1)
        by (simp add: part_bytes_def)
      define L where "L = len - of_nat (length (part_bytes np []))"
      have "L + of_nat (length (part_bytes np (ep_ciphertext part))) = len + of_nat (length (ep_ciphertext part))"
        by (simp add: part_bytes_def L_def split: option.splits)
      with nx Inr Some "1.prems"(1) IH show ?thesis
        unfolding L_def [symmetric]
        by (subst resume_parts.simps, subst put_parts.simps) (simp add: Let_def)
    qed
  qed
qed

lemma resume_skip:
  assumes "encrypt_parts (e_aead E) (replicate k m) e = (Inr ps, e1)" and "length ps = k"
  shows "resume_parts E m path i (i + int k) np len sink e =
    resume_parts E m path (i + int k) (i + int k) np
      (len + of_nat (length (concat (map ep_ciphertext ps)))) sink e1"
  using assms
proof (induction k arbitrary: i len e ps)
  case (Suc k)
  from Suc.prems obtain part e' ps' where nx: "encrypt_next_part (e_aead E) m e = (Inr (Some part), e')"
    and rest: "encrypt_parts (e_aead E) (replicate k m) e' = (Inr ps', e1)" and ps: "ps = part # ps'"
    by (auto simp: act_bind_ok split: option.splits)
  have "resume_parts E m path i (i + int (Suc k)) np len sink e =
      resume_parts E m path (i + 1) (i + 1 + int k) np (len + of_nat (length (ep_ciphertext part))) sink e'"
    using nx by (subst resume_parts.simps) (simp add: Let_def algebra_simps)
  with Suc.IH [OF rest, of "i + 1" "len + of_nat (length (ep_ciphertext part))"] Suc.prems(2) ps show ?case
    by (simp add: algebra_simps)
qed simp

lemma next_part_number:
  assumes "map cp_part_number ps = map int [1..<Suc k]"
  shows "Max (insert 0 (set (map cp_part_number ps))) + 1 = 1 + int k"
proof -
  have "insert 0 (set (map cp_part_number ps)) = int ` {0..k}"
    unfolding assms by (auto simp: image_iff)
  moreover have "Max (int ` {0..k}) = int k" by (rule Max_eqI) auto
  ultimately show ?thesis by simp
qed

text \<open>The loop of a resumption, with the first \<open>k\<close> parts and the nonce already sent.\<close>

lemma resume_loop_ok:
  assumes "resume_parts E m path 1 (1 + int k) (if k = 0 then Some n else None) (of_nat NONCE_SIZE) sink e w1 =
      (Inr (len, sink'), w2)"
    and "encrypt_parts (e_aead E) (replicate k m) e = (Inr ps, e1)" and "length ps = k"
    and "se_encryptor e \<noteq> None" and "length n = NONCE_SIZE"
    and "fmlookup (ms_in_progress (w_store w1)) (ps_key sink) = Some (if k = 0 then [] else n @ concat (map ep_ciphertext ps))"
  shows "\<exists>c. enc_rest (e_aead E) e = Some c \<and> ps_key sink' = ps_key sink \<and>
    fmlookup (ms_in_progress (w_store w2)) (ps_key sink) = Some (n @ c) \<and> len = of_nat (length (n @ c))"
proof -
  let ?A = "e_aead E" and ?np = "if k = 0 then Some n else None"
  let ?len = "of_nat NONCE_SIZE + of_nat (length (concat (map ep_ciphertext ps))) - of_nat (length (part_bytes ?np []))"
  have e1: "se_encryptor e1 \<noteq> None \<or> ?np = None" using assms(2,4) by (cases k) auto
  have "put_parts E m True path ?np ?len sink e1 w1 = (Inr (len, sink'), w2)"
    using assms(1) resume_skip [OF assms(2,3), of path 1 ?np "of_nat NONCE_SIZE" sink]
      resume_put_parts [of "1 + int k" "1 + int k" e1 ?np, OF _ e1] by simp
  from put_parts_ok [OF this assms(6)] obtain c where c: "enc_rest ?A e1 = Some c" and k: "ps_key sink' = ps_key sink"
    and fin: "let sent = (if se_encryptor e1 = None then [] else part_bytes ?np c) in
        fmlookup (ms_in_progress (w_store w2)) (ps_key sink) =
          Some ((if k = 0 then [] else n @ concat (map ep_ciphertext ps)) @ sent) \<and>
        len = ?len + of_nat (length sent)" by blast
  have "se_encryptor e1 = None \<Longrightarrow> c = [] \<and> k \<noteq> 0" using c e1 by (auto simp: enc_rest_def split: if_splits)
  moreover have "k = 0 \<Longrightarrow> ps = []" using assms(3) by simp
  moreover have "enc_rest ?A e = Some (concat (map ep_ciphertext ps) @ c)"
    using encrypt_parts_rest [OF assms(2)] c by simp
  ultimately show ?thesis
    using fin k assms(5) by (auto simp: Let_def part_bytes_def split: if_splits)
qed

text \<open>
  C27: A resumed upload completes the interrupted one. If the store holds the nonce and exactly the parts
  that were recorded, the first \<open>k\<close> of the file's encryption, then a resumption that succeeds leaves an
  object that decrypts to the whole file, of the length expected for the hashed size, and no pending
  record. (A part that was sent but not yet recorded is sent again under its number; the in-memory store
  appends it instead of replacing it, so that case is outside the theorem.)
\<close>

theorem resume_completes_upload:
  assumes "aead_ok (e_aead E)" and "length (pu_nonce p) = NONCE_SIZE"
    and "fmlookup (w_files w) (pu_path p) = Some nd"
    and "streaming_encryptor_new [] (e_content_key E) (files_fs (w_files w)) (pu_path p) (pu_path p)
      (Some (pu_nonce p)) = Inr e"
    and "encrypt_parts (e_aead E) (replicate k (pu_part_size p)) e = (Inr ps, e1)" and "length ps = k"
    and "fmlookup (ms_in_progress (w_store w)) (pre @ object_key E (pu_path p) (pu_content_hash p)) =
      Some (if k = 0 then [] else pu_nonce p @ concat (map ep_ciphertext ps))"
    and "map cp_part_number (pu_completed_parts p) = map int [1..<Suc k]"
    and "resume_upload E p (sz, mt, h) pre w = (Inr r, w')"
  shows "\<exists>ob. fmlookup (ms_entries (w_store w')) (pre @ ur_object_key r) = Some ob \<and>
    decrypt_bytes (e_aead E) (e_content_key E) (obj_bytes ob) (pu_path p) = Inr (fn_bytes nd) \<and>
    of_nat (length (obj_bytes ob)) = ciphertext_len sz \<and>
    fmlookup (db_uploads (w_db w')) (pu_path p) = None"
proof -
  let ?A = "e_aead E" and ?n = "pu_nonce p" and ?path = "pu_path p" and ?m = "pu_part_size p"
  let ?k = "pre @ object_key E ?path (pu_content_hash p)" and ?np = "if k = 0 then Some ?n else None"
  define sink where "sink = \<lparr>ps_part_number = 1 + int k, ps_key = ?k, ps_upload_id = pu_upload_id p\<rparr>"
  have e: "enc_rest ?A e = stream_seal ?A (e_content_key E) ?n ?path 0 (fn_bytes nd)" "se_encryptor e = Some 0"
    using assms(3,4) by (auto simp: streaming_encryptor_new_def enc_rest_def files_fs_def)
  note npn = next_part_number [OF assms(8), simplified add.commute]
  obtain w1 where
    fin: "finish_upload True ?path ?path sz sink
        (resume_parts E ?m ?path 1 (1 + int k) ?np (of_nat NONCE_SIZE) sink e) w1 = (Inr (), w')"
    and w1: "ms_in_progress (w_store w1) = ms_in_progress (w_store w)"
    and r: "ur_object_key r = object_key E ?path (pu_content_hash p)"
    using assms(2,4,7,9) npn
    by (auto simp: resume_upload_def Let_def act_bind_ok on_store_run mem_resume_put_def sink_def add.commute
        split: if_splits)
  from finish_upload_ok [OF fin] obtain len sink' w2 where
    put: "resume_parts E ?m ?path 1 (1 + int k) ?np (of_nat NONCE_SIZE) sink e w1 = (Inr (len, sink'), w2)"
    and len: "len = ciphertext_len sz"
    and w': "w_store w' = mem_insert (w_now w2) (ps_key sink')
        (case fmlookup (ms_in_progress (w_store w2)) (ps_key sink') of None \<Rightarrow> [] | Some b \<Rightarrow> b)
        ((w_store w2)\<lparr>ms_in_progress := fmdrop (ps_key sink') (ms_in_progress (w_store w2))\<rparr>)"
    by blast
  have ip: "fmlookup (ms_in_progress (w_store w1)) (ps_key sink) =
      Some (if k = 0 then [] else ?n @ concat (map ep_ciphertext ps))"
    using assms(7) w1 by (simp add: sink_def)
  have "se_encryptor e \<noteq> None" using e(2) by simp
  from resume_loop_ok [OF put assms(5,6) this assms(2) ip] obtain c where c: "enc_rest ?A e = Some c"
    and key: "ps_key sink' = ?k" and obj: "fmlookup (ms_in_progress (w_store w2)) ?k = Some (?n @ c)"
    and l: "len = of_nat (length (?n @ c))" by (auto simp: sink_def)
  from c e(1) have "stream_open ?A (e_content_key E) ?n ?path 0 c = Some (fn_bytes nd)"
    using stream_open_seal [OF assms(1)] by metis
  moreover have "fmlookup (ms_entries (w_store w')) ?k = Some \<lparr>obj_bytes = ?n @ c, obj_modified = w_now w2\<rparr>"
    using w' key obj by (simp add: mem_insert_def)
  moreover have "fmlookup (db_uploads (w_db w')) ?path = None"
    using finish_upload_clears [where path = ?path and w = w1] fin by (metis snd_conv)
  ultimately show ?thesis using r l len assms(2) by (simp add: decrypt_bytes_ok)
qed

text \<open>A file of two frames, in parts of one frame; the first is on the remote.\<close>

definition long_bytes :: bytes where
  "long_bytes = replicate CHUNK_SIZE 8 @ [9]"

definition sample_pending :: pending_upload where
  "sample_pending = \<lparr>pu_path = ''a'', pu_upload_id = ''u'', pu_part_size = 1, pu_content_hash = [8, 9],
     pu_nonce = replicate 19 3, pu_completed_parts = [\<lparr>cp_part_number = 1, cp_etag = [], cp_checksum = []\<rparr>]\<rparr>"

definition first_part :: bytes where
  "first_part = replicate CHUNK_SIZE 8 @ sample_tag 0 False"

definition sample_interrupted :: world where
  "sample_interrupted = sample_world\<lparr>w_files := fmupd ''a'' (sample_node\<lparr>fn_bytes := long_bytes\<rparr>) fmempty,
     w_store := mem_new\<lparr>ms_in_progress := fmupd (''p/'' @ object_key sample_env ''a'' [8, 9]) (replicate 19 3 @ first_part) fmempty\<rparr>,
     w_db := (w_db sample_world)\<lparr>db_uploads := fmupd ''a'' \<lparr>up_upload_id = ''u'', up_part_size = 1,
       up_content_hash = [8, 9], up_nonce = replicate 19 3, up_created_at = 0\<rparr> fmempty\<rparr>\<rparr>"

theorem resume_completes_upload_witness:
  "\<exists>r w' ob. resume_upload sample_env sample_pending (65537, 5, [8, 9]) ''p/'' sample_interrupted = (Inr r, w') \<and>
    fmlookup (ms_entries (w_store w')) (''p/'' @ ur_object_key r) = Some ob \<and>
    decrypt_bytes (e_aead sample_env) (e_content_key sample_env) (obj_bytes ob) ''a'' = Inr long_bytes \<and>
    fmlookup (db_uploads (w_db w')) ''a'' = None"
proof -
  let ?e = "\<lparr>se_key = e_content_key sample_env, se_encryptor = Some 0, se_reader = long_bytes, se_input_path = ''a'',
     se_aad = ''a'', se_nonce = replicate 19 3\<rparr>"
  let ?e1 = "?e\<lparr>se_reader := [9], se_encryptor := Some 1\<rparr>" and ?e2 = "?e\<lparr>se_reader := [], se_encryptor := None\<rparr>"
  let ?p1 = "\<lparr>ep_ciphertext = first_part, ep_plaintext_len = CHUNK_SIZE\<rparr>"
  have e: "streaming_encryptor_new [] (e_content_key sample_env) (files_fs (w_files sample_interrupted)) ''a'' ''a''
      (Some (replicate 19 3)) = Inr ?e"
    by (simp add: streaming_encryptor_new_def files_fs_def sample_interrupted_def)
  have long: "take CHUNK_SIZE long_bytes = replicate CHUNK_SIZE 8" "drop CHUNK_SIZE long_bytes = [9]"
    by (simp_all add: long_bytes_def)
  have seal: "fr_seal (e_aead sample_env) k n i l a p = Some (p @ sample_tag i l)" for k n i l a p
    by (simp add: sample_env_def sample_aead_def)
  have tag: "length (sample_tag i l) = 16" for i l by (simp add: sample_tag_def)
  have enc: "encrypt_next_part (e_aead sample_env) 1 ?e = (Inr (Some ?p1), ?e1)"
    unfolding encrypt_next_part_def by (subst part_loop.simps) (simp add: Let_def long seal first_part_def tag)
  have enc1: "encrypt_next_part (e_aead sample_env) 1 ?e1 = (Inr (Some \<lparr>ep_ciphertext = [9] @ sample_tag 1 True,
      ep_plaintext_len = 1\<rparr>), ?e2)"
    unfolding encrypt_next_part_def by (subst part_loop.simps) (simp add: Let_def seal take_Cons' drop_Cons')
  have enc2: "encrypt_next_part (e_aead sample_env) 1 ?e2 = (Inr None, ?e2)"
    by (simp add: encrypt_next_part_def)
  have len: "ciphertext_len 65537 = 65588" "of_nat (length first_part) = (65552 :: u64)"
    by (simp_all add: ciphertext_len_def NONCE_SIZE_def TAG_SIZE_def CHUNK_SIZE_def first_part_def tag)
  obtain r w' where run: "resume_upload sample_env sample_pending (65537, 5, [8, 9]) ''p/'' sample_interrupted = (Inr r, w')"
    using e enc enc1 enc2
    by (simp add: resume_upload_def Let_def sample_pending_def NONCE_SIZE_def act_bind_run on_store_run
        mem_resume_put_def sample_interrupted_def finish_upload_def act_try_run resume_parts.simps
        sink_write_part_def track_part_def on_db_run record_upload_part_def check_object_len_def len
        sink_finish_def mem_new_def part_bytes_def tag clear_upload_def)
  have n: "fmlookup (w_files sample_interrupted) (pu_path sample_pending) = Some (sample_node\<lparr>fn_bytes := long_bytes\<rparr>)"
    by (simp add: sample_interrupted_def sample_pending_def)
  have parts: "encrypt_parts (e_aead sample_env) (replicate 1 (pu_part_size sample_pending)) ?e = (Inr [?p1], ?e1)"
    using enc by (simp add: sample_pending_def act_bind_run)
  have "\<exists>ob. fmlookup (ms_entries (w_store w')) (''p/'' @ ur_object_key r) = Some ob \<and>
      decrypt_bytes (e_aead sample_env) (e_content_key sample_env) (obj_bytes ob) (pu_path sample_pending) = Inr (fn_bytes (sample_node\<lparr>fn_bytes := long_bytes\<rparr>)) \<and>
      of_nat (length (obj_bytes ob)) = ciphertext_len 65537 \<and> fmlookup (db_uploads (w_db w')) (pu_path sample_pending) = None"
    by (rule resume_completes_upload [OF sample_env_aead _ n _ parts _ _ _ run])
      (use e in \<open>simp_all add: sample_pending_def NONCE_SIZE_def sample_interrupted_def\<close>)
  with run show ?thesis by (auto simp: sample_pending_def)
qed

section \<open>Checking and repairing\<close>

lemma act_map_pure:
  "(\<And>x. f x = (\<lambda>w. (Inr (g x w), w))) \<Longrightarrow> act_map f xs w = (Inr (map (\<lambda>x. g x w) xs), w)"
  by (induction xs) (simp_all add: act_bind_run)

definition entry_problem :: "mem_store \<Rightarrow> string \<Rightarrow> delta_entry \<Rightarrow> remote_problem option" where
  "entry_problem s pre entry =
     head_problem entry (map_option (mem_meta (pre @ d_object_key entry)) (fmlookup (ms_entries s) (pre @ d_object_key entry)))"

lemma heads_run:
  "act_map (\<lambda>entry. act_bind (on_store (mem_head (pre @ d_object_key entry))) (\<lambda>head.
      act_ok (entry, head_problem entry head))) live w =
    (Inr (map (\<lambda>entry. (entry, entry_problem (w_store w) pre entry)) live), w)"
  by (rule act_map_pure)
    (simp add: fun_eq_iff act_bind_run on_store_run mem_head_def entry_problem_def)

lemma entry_problem_iff:
  "entry_problem s pre e \<noteq> None \<longleftrightarrow> (case fmlookup (ms_entries s) (pre @ d_object_key e) of
     None \<Rightarrow> True | Some ob \<Rightarrow> of_nat (length (obj_bytes ob)) \<noteq> ciphertext_len (d_size e))"
  by (simp add: entry_problem_def head_problem_def Let_def mem_meta_def split: option.splits)

lemma bad_paths:
  "map bo_path (map (\<lambda>(entry, problem). \<lparr>bo_path = d_path entry, bo_problem = problem, bo_repair = None\<rparr>)
     (concat (map (\<lambda>(entry, p). case p of None \<Rightarrow> [] | Some problem \<Rightarrow> [(entry, problem)])
       (map (\<lambda>entry. (entry, f entry)) xs)))) = map d_path (filter (\<lambda>e. f e \<noteq> None) xs)"
  by (induction xs) (auto split: option.splits)

text \<open>
  A check without repair changes nothing, and reports exactly the live entries whose object is
  missing or is not as long as the encryption of the recorded size.
\<close>

theorem verify_reports_bad_objects:
  "\<exists>r. verify_remote E seen pre False manifest w = (Inr r, w) \<and>
    vr_checked r = length (filter (\<lambda>e. \<not> d_deleted e) (fm_values manifest)) \<and>
    (\<forall>path. path \<in> set (map bo_path (vr_bad r)) \<longleftrightarrow>
      (\<exists>k e. fmlookup manifest k = Some e \<and> \<not> d_deleted e \<and> d_path e = path \<and>
        (case fmlookup (ms_entries (w_store w)) (pre @ d_object_key e) of
           None \<Rightarrow> True
         | Some ob \<Rightarrow> of_nat (length (obj_bytes ob)) \<noteq> ciphertext_len (d_size e))))"
proof -
  let ?live = "filter (\<lambda>e. \<not> d_deleted e) (fm_values manifest)"
  let ?found = "concat (map (\<lambda>(entry, p). case p of None \<Rightarrow> [] | Some problem \<Rightarrow> [(entry, problem)])
    (map (\<lambda>entry. (entry, entry_problem (w_store w) pre entry)) ?live))"
  let ?r = "\<lparr>vr_checked = length ?live, vr_bad = map (\<lambda>(entry, problem).
     \<lparr>bo_path = d_path entry, bo_problem = problem, bo_repair = None\<rparr>) ?found\<rparr>"
  have "(act_map (\<lambda>(entry, problem). act_ok \<lparr>bo_path = d_path entry, bo_problem = problem, bo_repair = None\<rparr>) ?found
      :: bad_object list act) w = (Inr (vr_bad ?r), w)"
    by (subst act_map_pure [where g = "\<lambda>(entry, problem) _.
        \<lparr>bo_path = d_path entry, bo_problem = problem, bo_repair = None\<rparr>"])
      (auto simp: fun_eq_iff case_prod_beta)
  then have "verify_remote E seen pre False manifest w = (Inr ?r, w)"
    by (simp add: verify_remote_def Let_def heads_run case_prod_beta)
  moreover have "set (map bo_path (vr_bad ?r)) = d_path ` {e \<in> set ?live. entry_problem (w_store w) pre e \<noteq> None}"
    by (simp only: verify_report.simps bad_paths set_map set_filter)
  moreover have "{e \<in> set ?live. entry_problem (w_store w) pre e \<noteq> None} =
      {e. \<exists>k. fmlookup manifest k = Some e \<and> \<not> d_deleted e \<and>
        (case fmlookup (ms_entries (w_store w)) (pre @ d_object_key e) of
           None \<Rightarrow> True
         | Some ob \<Rightarrow> of_nat (length (obj_bytes ob)) \<noteq> ciphertext_len (d_size e))}"
    by (auto simp only: entry_problem_iff mem_Collect_eq set_filter fm_values_iff)
  ultimately show ?thesis by (intro exI [of _ ?r]) auto
qed

text \<open>
  C29: A repair that reports success has hashed the file to the recorded hash, and has replaced the
  entry's object by an encryption, of the expected length, of the file as it is when it is uploaded. If
  no program changed the file since it was hashed, the object decrypts to content with the recorded
  hash. (Only the length is looked at again, so a change that keeps it goes unnoticed.)
\<close>

theorem repair_restores_object:
  assumes "aead_ok (e_aead E)" and "nonces_ok E"
    and "repair_one E seen pre entry w = (Inr Repaired, w')"
  shows "\<exists>p n sz mt ob. safe_join (d_path entry) = Inr p \<and> fmlookup (w_files w) p = Some n \<and>
    hash_stable E seen p = Inr (Some (sz, mt, d_plaintext_hash entry)) \<and>
    fmlookup (ms_entries (w_store w')) (pre @ d_object_key entry) = Some ob \<and>
    decrypt_bytes (e_aead E) (e_content_key E) (obj_bytes ob) (d_path entry) = Inr (fn_bytes n) \<and>
    of_nat (length (obj_bytes ob)) = ciphertext_len (d_size entry) \<and>
    (seen = (\<lambda>_ _. w_files w) \<longrightarrow> e_blake3 E (fn_bytes n) = d_plaintext_hash entry)"
proof -
  from assms(3) obtain p n where p: "fmlookup (w_files w) p = Some n"
    and att: "repair_attempt E seen pre entry w = (Inr Repaired, w')"
    and sj: "safe_join (d_path entry) = Inr p"
    by (auto simp: repair_one_def act_bind_ok act_try_run repair_attempt_def split: prod.splits sum.splits if_splits)
  obtain sz mt where h: "hash_stable E seen p = Inr (Some (sz, mt, d_plaintext_hash entry))"
  proof (cases "hash_stable E seen p")
    case (Inl e)
    with att p sj show ?thesis by (simp add: repair_attempt_def act_bind_run)
  next
    case (Inr found)
    show ?thesis
    proof (cases found)
      case None
      with att p sj Inr show ?thesis by (simp add: repair_attempt_def act_bind_run)
    next
      case (Some x)
      obtain sz mt h0 where x: "x = (sz, mt, h0)" by (cases x)
      with att p sj Inr Some have "h0 = d_plaintext_hash entry" by (auto simp: repair_attempt_def act_bind_run split: if_splits)
      with Inr Some x that show ?thesis by blast
    qed
  qed
  with att p sj obtain u w1 where key: "object_key E (d_path entry) (d_plaintext_hash entry) = d_object_key entry"
    and up: "upload_file E (files_fs (w_files w)) p (d_path entry) (sz, mt, d_plaintext_hash entry) pre True w = (Inr u, w1)"
    and hd: "on_store (mem_head (pre @ d_object_key entry)) w1 = (Inr (map_option (mem_meta (pre @ d_object_key entry))
       (fmlookup (ms_entries (w_store w1)) (pre @ d_object_key entry))), w')"
    and size: "\<exists>ob. fmlookup (ms_entries (w_store w1)) (pre @ d_object_key entry) = Some ob \<and>
       of_nat (length (obj_bytes ob)) = ciphertext_len (d_size entry)"
    by (auto simp: repair_attempt_def act_bind_ok on_store_run mem_head_def mem_meta_def
        split: sum.splits if_splits option.splits)
  have w': "w_store w' = w_store w1" using hd by (auto simp: on_store_run mem_head_def)
  have b: "files_fs (w_files w) p = Some (fn_bytes n)" using p by (simp add: files_fs_def)
  from upload_file_ok [OF up] b key obtain c where
    c: "stream_seal (e_aead E) (e_content_key E) (e_nonce E (w_random w)) (d_path entry) 0 (fn_bytes n) = Some c"
    and ob: "fmlookup (ms_entries (w_store w1)) (pre @ d_object_key entry) =
      Some \<lparr>obj_bytes = e_nonce E (w_random w) @ c, obj_modified = w_now w\<rparr>" by auto
  have "length (e_nonce E (w_random w)) = NONCE_SIZE" using assms(2) by (simp add: nonces_ok_def)
  with stream_open_seal [OF assms(1) c]
  have "decrypt_bytes (e_aead E) (e_content_key E) (e_nonce E (w_random w) @ c) (d_path entry) = Inr (fn_bytes n)"
    by (simp add: decrypt_bytes_ok)
  moreover have "e_blake3 E (fn_bytes n) = d_plaintext_hash entry" if "seen = (\<lambda>_ _. w_files w)"
    using h p by (auto simp: that hash_stable_quiet split: sum.splits)
  ultimately show ?thesis using sj p h ob size w'
    by (intro exI [of _ p] exI [of _ n] exI [of _ sz] exI [of _ mt] exI) auto
qed

theorem repair_restores_object_witness:
  "\<exists>w w' ob. repair_one sample_env (\<lambda>_ _. w_files w) ''p/'' (sample_upload_entry (object_key sample_env ''a'' [8, 9])) w =
     (Inr Repaired, w') \<and> fmlookup (ms_entries (w_store w)) (''p/'' @ object_key sample_env ''a'' [8, 9]) = None \<and>
     fmlookup (ms_entries (w_store w')) (''p/'' @ object_key sample_env ''a'' [8, 9]) = Some ob \<and>
     decrypt_bytes (e_aead sample_env) (e_content_key sample_env) (obj_bytes ob) ''a'' = Inr [8, 9]"
proof -
  let ?fs = "fmupd ''a'' sample_node fmempty" and ?k = "object_key sample_env ''a'' [8, 9]"
  let ?w = "sample_world\<lparr>w_files := ?fs\<rparr>"
  have up: "\<exists>r v. upload_file sample_env (files_fs ?fs) ''a'' ''a'' (2, 5, [8, 9]) ''p/'' True ?w = (Inr r, v)"
    by (rule sample_upload)
  then obtain r v where v: "upload_file sample_env (files_fs ?fs) ''a'' ''a'' (2, 5, [8, 9]) ''p/'' True ?w = (Inr r, v)"
    by blast
  from upload_file_ok [OF v] obtain ob where ob: "fmlookup (ms_entries (w_store v)) (''p/'' @ ?k) = Some ob"
    "of_nat (length (obj_bytes ob)) = ciphertext_len 2" by auto
  have st: "file_stat ?fs ''a'' = Inr \<lparr>fs_size = 2, fs_mtime_ns = 5\<rparr>"
    by (simp add: file_stat_def sample_node_def stat_of_def i64_max_def)
  have h: "e_blake3 sample_env (fn_bytes sample_node) = [8, 9]" by (simp add: sample_env_def sample_node_def)
  obtain w' where run: "repair_one sample_env (\<lambda>_ _. w_files ?w) ''p/'' (sample_upload_entry ?k) ?w = (Inr Repaired, w')"
    using v ob
    by (simp add: repair_one_def act_bind_run act_try_run repair_attempt_def sample_upload_entry_def sample_safe_join
        hash_stable_quiet st h on_store_run mem_head_def mem_meta_def)
  from repair_restores_object [OF sample_env_aead sample_nonces run]
  have "\<exists>ob. fmlookup (ms_entries (w_store w')) (''p/'' @ ?k) = Some ob \<and>
      decrypt_bytes (e_aead sample_env) (e_content_key sample_env) (obj_bytes ob) ''a'' = Inr [8, 9]"
    using sample_safe_join by (auto simp: sample_upload_entry_def sample_node_def)
  moreover have "fmlookup (ms_entries (w_store ?w)) (''p/'' @ ?k) = None" by (simp add: sample_world_def mem_new_def)
  ultimately show ?thesis using run by blast
qed

end
