(* ===== verification/Evict.thy ===== *)
theory Evict
  imports Transfers
begin

text \<open>
  Eviction (\<open>apply/evict.rs\<close>): which synced files may be replaced by a placeholder, the order in which
  they are picked, and the replacement itself. Other programs write while it runs: \<open>racer\<close> is what they
  do to the files between the hashing of the file and the rename that takes it away; all steps of the
  code that touch the file lie on one side or the other. File metadata that the model's files do not have
  (access times, allocated blocks) are arguments.
\<close>

section \<open>Which files\<close>

datatype skip = NotTracked | AlreadyEvicted | NotSynced | PendingUpload | RemoteUnverified | Changed

definition skip_name :: "skip \<Rightarrow> string" where
  "skip_name s = (case s of NotTracked \<Rightarrow> ''not tracked'' | AlreadyEvicted \<Rightarrow> ''already online-only''
     | NotSynced \<Rightarrow> ''not in sync'' | PendingUpload \<Rightarrow> ''upload pending''
     | RemoteUnverified \<Rightarrow> ''remote copy unverified'' | Changed \<Rightarrow> ''changed during eviction'')"

record evict_outcome =
  eo_evicted :: "string list"
  eo_bytes_freed :: u64
  eo_skipped :: "(string \<times> skip) list"

definition eligible :: "file_record option \<Rightarrow> manifest \<Rightarrow> string list \<Rightarrow> skip + unit" where
  "eligible record manifest pending = (case record of
      None \<Rightarrow> Inl NotTracked
    | Some r \<Rightarrow>
        if is_evicted r then Inl AlreadyEvicted
        else if f_last_synced_hash r \<noteq> Some (f_content_hash r) then Inl NotSynced
        else if f_path r \<in> set pending then Inl PendingUpload
        else (case fmlookup manifest (f_path r) of
            Some e \<Rightarrow> if \<not> d_deleted e \<and> d_plaintext_hash e = f_content_hash r then Inr () else Inl NotSynced
          | None \<Rightarrow> Inl NotSynced))"

definition sat_i64_int :: "int \<Rightarrow> int" where
  "sat_i64_int i = max (- i64_max - 1) (min i64_max i)"

definition past_grace :: "file_record \<Rightarrow> nat \<Rightarrow> int \<Rightarrow> bool" where
  "past_grace r grace_secs now = (case f_synced_at r of
      None \<Rightarrow> True
    | Some synced \<Rightarrow> min (int grace_secs) i64_max \<le> sat_i64_int (now - synced))"

definition plan_policy_evictions :: "globs \<Rightarrow> baseline \<Rightarrow> manifest \<Rightarrow> string list \<Rightarrow> policy \<Rightarrow> nat \<Rightarrow> int \<Rightarrow> string list" where
  "plan_policy_evictions g b manifest pending pol grace now =
     map f_path (filter (\<lambda>r. policy_mode g pol (f_path r) = OnlineOnly \<and>
       eligible (Some r) manifest pending = Inr () \<and> past_grace r grace now) (fm_values b))"

record candidate =
  ca_path :: string
  ca_bytes :: u64
  ca_last_used :: int

fun pick_candidates :: "u64 \<Rightarrow> nat \<Rightarrow> u64 \<Rightarrow> string list \<Rightarrow> candidate list \<Rightarrow> string list" where
  "pick_candidates needed max_files freed picked [] = picked"
| "pick_candidates needed max_files freed picked (c # cs) =
     (if needed \<le> freed \<or> max_files \<le> length picked then picked
      else pick_candidates needed max_files (freed + ca_bytes c) (picked @ [ca_path c]) cs)"

definition plan_space_evictions :: "candidate list \<Rightarrow> u64 \<Rightarrow> nat \<Rightarrow> string list" where
  "plan_space_evictions candidates needed max_files =
     pick_candidates needed max_files 0 [] (sort_key (\<lambda>c. (ca_last_used c, ca_path c)) candidates)"

text \<open>\<open>meta\<close> is what \<open>metadata\<close> yields for a file: access and modification time in seconds, allocated bytes.\<close>

definition space_candidates :: "globs \<Rightarrow> (string \<Rightarrow> (int \<times> int \<times> u64) option) \<Rightarrow> baseline \<Rightarrow> manifest \<Rightarrow> string list \<Rightarrow>
    policy \<Rightarrow> nat \<Rightarrow> u64 \<Rightarrow> int \<Rightarrow> candidate list" where
  "space_candidates g meta b manifest pending pol grace min_size now =
     concat (map (\<lambda>r. case meta (f_path r) of
         None \<Rightarrow> []
       | Some (accessed, modified, bytes) \<Rightarrow>
           [\<lparr>ca_path = f_path r, ca_bytes = bytes,
             ca_last_used = max (max accessed modified) (case f_last_hydrated_at r of None \<Rightarrow> 0 | Some t \<Rightarrow> t)\<rparr>])
       (filter (\<lambda>r. policy_mode g pol (f_path r) = Auto \<and> min_size \<le> f_size r \<and>
         eligible (Some r) manifest pending = Inr () \<and> past_grace r grace now) (fm_values b)))"

definition pending_upload_paths :: "state_db \<Rightarrow> string list" where
  "pending_upload_paths db = btree_set (map pu_path (pending_uploads db))"

section \<open>Evicting one file\<close>

text \<open>\<open>rename\<close> replaces what is at the target.\<close>

definition rename_node :: "string \<Rightarrow> string \<Rightarrow> unit act" where
  "rename_node from to = (\<lambda>w. case fmlookup (w_files w) from of
      None \<Rightarrow> (Inl (EIo from), w)
    | Some n \<Rightarrow> (Inr (), w\<lparr>w_files := fmupd to n (fmdrop from (w_files w))\<rparr>))"

definition unix_timestamp :: "world \<Rightarrow> u64" where
  "unix_timestamp w = of_nat (w_now w div 10 ^ 9)"

text \<open>The placeholder that will stand for the file.\<close>

definition evict_stub :: "string \<Rightarrow> u64 \<times> int \<times> hash \<Rightarrow> string \<Rightarrow> u64 \<Rightarrow> file_node option \<Rightarrow> stub_meta" where
  "evict_stub path stats okey now node = (case stats of (sz, mt, h) \<Rightarrow>
     let stub = with_mtime_ns mt (stub_new path sz h okey now)
     in case node of Some n \<Rightarrow> with_mode (fn_mode n) stub | None \<Rightarrow> stub)"

text \<open>The file is moved aside, looked at again, and put back if it has changed.\<close>

definition take_away :: "env \<Rightarrow> string \<Rightarrow> string \<Rightarrow> u64 \<Rightarrow> int \<Rightarrow> (skip + unit) act" where
  "take_away E path local sz mt =
     act_bind (fresh_uuid E) (\<lambda>uid.
     let aside = ''.mirror/tmp/evicting-'' @ uid in
     act_bind (rename_node local aside) (\<lambda>_.
     act_bind (\<lambda>w. (file_stat (w_files w) aside, w)) (\<lambda>after.
     if fs_size after \<noteq> sz \<or> fs_mtime_ns after \<noteq> mt
     then act_bind (rename_node aside local) (\<lambda>_.
          act_bind (stub_remove path) (\<lambda>_.
          act_bind (on_db (mark_local path)) (\<lambda>_. act_ok (Inl Changed))))
     else act_bind (remove_node aside) (\<lambda>_. act_ok (Inr ())))))"

text \<open>The part of \<open>evict_one\<close> that changes anything: record, placeholder, and the file taken away.\<close>

definition swap_for_stub :: "env \<Rightarrow> (files \<Rightarrow> files) \<Rightarrow> string \<Rightarrow> string \<Rightarrow> u64 \<times> int \<times> hash \<Rightarrow> string \<Rightarrow>
    (skip + unit) act" where
  "swap_for_stub E racer path local stats okey =
     act_bind (act_get (\<lambda>w. evict_stub path stats okey (unix_timestamp w) (fmlookup (w_files w) local))) (\<lambda>stub.
     act_bind (at_now (\<lambda>now. on_db (mark_evicted now path))) (\<lambda>_.
     act_bind (stub_write E stub) (\<lambda>_.
     act_bind (act_mod (\<lambda>w. w\<lparr>w_files := racer (w_files w)\<rparr>)) (\<lambda>_.
     take_away E path local (fst stats) (fst (snd stats))))))"

text \<open>The optional full download that checks the remote copy.\<close>

definition remote_verified :: "env \<Rightarrow> bool \<Rightarrow> string \<Rightarrow> delta_entry \<Rightarrow> bool act" where
  "remote_verified E verify pre entry = (if verify
     then act_bind (act_try (fetch_verified E pre entry)) (\<lambda>r.
       act_ok (case r of Inl (_ :: merror) \<Rightarrow> False | Inr _ \<Rightarrow> True))
     else act_ok True)"

definition evict_one :: "env \<Rightarrow> (files \<Rightarrow> files) \<Rightarrow> string \<Rightarrow> bool \<Rightarrow> manifest \<Rightarrow> file_record option \<Rightarrow> string list \<Rightarrow>
    (skip + u64) act" where
  "evict_one E racer pre verify manifest record pending =
     (case eligible record manifest pending of
        Inl s \<Rightarrow> act_ok (Inl s)
      | Inr _ \<Rightarrow>
         (let path = f_path (the record); entry = the (fmlookup manifest path); store_key = pre @ d_object_key entry in
          act_bind (act_res (safe_join path)) (\<lambda>local.
          act_bind (\<lambda>w. (hash_stable E (\<lambda>_ _. w_files w) local, w)) (\<lambda>found. case found of
            None \<Rightarrow> act_ok (Inl Changed)
          | Some (sz, mt, h) \<Rightarrow>
              if h \<noteq> d_plaintext_hash entry then act_ok (Inl NotSynced)
              else act_bind (on_store (mem_head store_key)) (\<lambda>head.
                if \<not> (case head of None \<Rightarrow> False | Some m \<Rightarrow> om_size m = ciphertext_len (d_size entry))
                then act_ok (Inl RemoteUnverified)
                else act_bind (remote_verified E verify pre entry) (\<lambda>verified.
                  if \<not> verified then act_ok (Inl RemoteUnverified)
                  else act_bind (act_get (\<lambda>w. case fmlookup (w_files w) local of
                           Some n \<Rightarrow> e_allocated E n | None \<Rightarrow> sz)) (\<lambda>freed.
                       act_bind (swap_for_stub E racer path local (sz, mt, h) (d_object_key entry)) (\<lambda>r.
                       act_ok (case r of Inl s \<Rightarrow> Inl s | Inr _ \<Rightarrow> Inr freed)))))))))"

text \<open>The loop over the requested paths; \<open>racers\<close> gives the interference for each path.\<close>

definition evict :: "env \<Rightarrow> (string \<Rightarrow> files \<Rightarrow> files) \<Rightarrow> string \<Rightarrow> bool \<Rightarrow> manifest \<Rightarrow> string list \<Rightarrow> evict_outcome act" where
  "evict E racers pre verify manifest paths =
     act_bind (read_db db_baseline) (\<lambda>b.
     act_bind (read_db pending_upload_paths) (\<lambda>pending.
     act_fold (\<lambda>path out. act_bind (evict_one E (racers path) pre verify manifest (fmlookup b path) pending) (\<lambda>r.
         act_ok (case r of
             Inr freed \<Rightarrow> out\<lparr>eo_evicted := eo_evicted out @ [path], eo_bytes_freed := eo_bytes_freed out + freed\<rparr>
           | Inl s \<Rightarrow> out\<lparr>eo_skipped := eo_skipped out @ [(path, s)]\<rparr>)))
       (btree_set paths) \<lparr>eo_evicted = [], eo_bytes_freed = 0, eo_skipped = []\<rparr>))"

section \<open>The file and its placeholder\<close>

lemma join_snoc: "join_with sep (ps @ [q]) = (if ps = [] then q else join_with sep ps @ sep @ q)"
  by (induction ps) (auto simp: join_with_Cons)

lemma plain_suffix: "plain_part q \<Longrightarrow> plain_part (q @ SUFFIX)"
  by (cases q rule: rev_cases) (auto simp: plain_part_def SUFFIX_def append_eq_Cons_conv)

text \<open>A canonical path: what \<open>safe_join\<close> leaves as it is.\<close>

lemma canonical_stub_path:
  assumes "safe_join p = Inr p" and "p \<noteq> []"
  shows "stub_path p = Inr (p @ SUFFIX)"
proof -
  from assms obtain ps where ps: "path_components p = map Normal ps" and p: "p = join_with ''/'' ps"
    by (auto simp: safe_join_parts)
  then have plain: "\<forall>q\<in>set ps. plain_part q" using path_components_Normal [of _ p] by auto
  from assms(2) p obtain qs q where q: "ps = qs @ [q]" by (cases ps rule: rev_cases) (auto simp: join_with_def)
  let ?ps = "qs @ [q @ SUFFIX]"
  have "p @ SUFFIX = join_with ''/'' ?ps" unfolding p q by (simp add: join_snoc)
  moreover have "path_components (join_with ''/'' ?ps) = map Normal ?ps"
    by (rule components_join) (use plain q plain_suffix in auto)
  ultimately show ?thesis
    unfolding stub_path_def stub_rel_def safe_join_parts by (intro exI [of _ ?ps]) simp
qed

lemma aside_apart:
  assumes "\<not> prefix ''.mirror/'' p"
  shows "''.mirror/tmp/evicting-'' @ uid \<noteq> p" and "''.mirror/tmp/evicting-'' @ uid \<noteq> p @ SUFFIX"
proof -
  show "''.mirror/tmp/evicting-'' @ uid \<noteq> p" using assms by auto
  show "''.mirror/tmp/evicting-'' @ uid \<noteq> p @ SUFFIX"
  proof
    assume eq: "''.mirror/tmp/evicting-'' @ uid = p @ SUFFIX"
    have "8 \<le> length p"
      using arg_cong [OF eq, of length] by (simp add: SUFFIX_def)
    then have "take 8 p = take 8 (p @ SUFFIX)" by simp
    also have "\<dots> = ''.mirror/''" unfolding eq [symmetric] by simp
    finally show False using assms take_is_prefix [of 8 p] by simp
  qed
qed

section \<open>Nothing is lost\<close>

lemma rename_ok:
  "rename_node from to w = (Inr (), w') \<longleftrightarrow> (\<exists>n. fmlookup (w_files w) from = Some n \<and>
     w' = w\<lparr>w_files := fmupd to n (fmdrop from (w_files w))\<rparr>)"
  by (auto simp: rename_node_def split: option.splits)

lemma rename_err: "rename_node from to w = (Inl e, w') \<longleftrightarrow> fmlookup (w_files w) from = None \<and> e = EIo from \<and> w' = w"
  by (auto simp: rename_node_def split: option.splits)

text \<open>
  What the swap makes of the files \<open>F\<close> that the other programs have left when the file is taken away: the
  file goes only if it still has the size and time that were hashed; a changed one is put back, without
  the placeholder; if it cannot be looked at, it is under the name \<open>aside\<close>; nothing else changes.
\<close>

definition swap_result :: "string \<Rightarrow> string \<Rightarrow> u64 \<Rightarrow> int \<Rightarrow> files \<Rightarrow> merror + (skip + 'a) \<Rightarrow> files \<Rightarrow> bool" where
  "swap_result p aside sz mt F res fs' = (case fmlookup F p of
      None \<Rightarrow> (\<exists>e. res = Inl e) \<and> fs' = F
    | Some n \<Rightarrow> (case res of
        Inr (Inr _) \<Rightarrow> of_nat (length (fn_bytes n)) = sz \<and> min (fn_mtime_ns n) i64_max = mt \<and> fs' = fmdrop aside (fmdrop p F)
      | Inr (Inl s) \<Rightarrow> s = Changed \<and> (of_nat (length (fn_bytes n)) \<noteq> sz \<or> min (fn_mtime_ns n) i64_max \<noteq> mt) \<and>
          fs' = fmdrop (p @ SUFFIX) (fmdrop aside F)
      | Inl _ \<Rightarrow> fs' = fmupd aside n (fmdrop p F)))"

text \<open>The placeholder of the file: its size, time, hash and mode, and where its content is.\<close>

definition written_stub :: "env \<Rightarrow> string \<Rightarrow> file_node \<Rightarrow> string \<Rightarrow> world \<Rightarrow> file_node" where
  "written_stub E p n okey w = \<lparr>fn_bytes = e_stub_json E \<lparr>st_rfm = STUB_FORMAT, st_path = p, st_size = of_nat (length (fn_bytes n)),
       st_hash = e_blake3 E (fn_bytes n), st_object_key = okey, st_evicted_at = unix_timestamp w,
       st_mtime_ns = Some (min (fn_mtime_ns n) i64_max), st_mode = Some (fn_mode n AND 0xFFF)\<rparr>,
     fn_mtime_ns = int (w_now w), fn_mode = 384\<rparr>"

lemma take_away_result:
  assumes "take_away E p p sz mt w = (res, w')"
    and "stub_path p = Inr (p @ SUFFIX)" and "\<not> prefix ''.mirror/'' p"
  shows "swap_result p (''.mirror/tmp/evicting-'' @ e_uuid E (w_random w)) sz mt (w_files w) res (w_files w')"
proof -
  let ?aside = "''.mirror/tmp/evicting-'' @ e_uuid E (w_random w)"
  have ap: "?aside \<noteq> p" "?aside \<noteq> p @ SUFFIX" using aside_apart [OF assms(3)] by blast+
  have sp: "p \<noteq> p @ SUFFIX" by (simp add: SUFFIX_def)
  show ?thesis
  proof (cases "fmlookup (w_files w) p")
    case None
    then show ?thesis using assms(1)
      by (auto simp: take_away_def Let_def act_bind_run rename_node_def swap_result_def)
  next
    case (Some n)
    let ?fs = "fmupd ?aside n (fmdrop p (w_files w))"
    show ?thesis
    proof (cases "file_stat ?fs ?aside")
      case (Inl e)
      then have "res = Inl e \<and> w_files w' = ?fs" using assms(1) Some
        by (auto simp: take_away_def Let_def act_bind_run rename_node_def)
      then show ?thesis using Some by (simp add: swap_result_def)
    next
      case (Inr st)
      then have st: "st = \<lparr>fs_size = of_nat (length (fn_bytes n)), fs_mtime_ns = min (fn_mtime_ns n) i64_max\<rparr>"
        by (simp add: file_stat_def stat_of_def split: if_splits)
      show ?thesis
      proof (cases "fs_size st \<noteq> sz \<or> fs_mtime_ns st \<noteq> mt")
        case True
        then have "w_files w' = fmdrop (p @ SUFFIX) (fmupd p n (fmdrop ?aside ?fs)) \<and> res = Inr (Inl Changed)"
          using assms(1,2) Some Inr
          by (auto simp: take_away_def Let_def act_bind_run rename_node_def stub_remove_def remove_node_def
              on_db_run mark_local_def update_file_def split: option.splits)
        moreover have "fmupd p n (fmdrop ?aside ?fs) = fmdrop ?aside (w_files w)"
          using Some ap by (intro fmap_ext) auto
        ultimately show ?thesis using Some st True by (auto simp: swap_result_def)
      next
        case False
        then have "w_files w' = fmdrop ?aside ?fs \<and> res = Inr (Inr ())"
          using assms(1) Some Inr
          by (auto simp: take_away_def Let_def act_bind_run rename_node_def remove_node_def)
        moreover have "fmdrop ?aside ?fs = fmdrop ?aside (fmdrop p (w_files w))" by (intro fmap_ext) auto
        ultimately show ?thesis using Some st False by (simp add: swap_result_def)
      qed
    qed
  qed
qed

lemma evict_stub_path [simp]: "st_path (evict_stub p stats okey now node) = p"
  by (simp add: evict_stub_def Let_def with_mtime_ns_def with_mode_def stub_new_def split: option.splits prod.splits)

lemma swap_for_stub_result:
  assumes "swap_for_stub E racer p p (of_nat (length (fn_bytes n)), min (fn_mtime_ns n) i64_max, e_blake3 E (fn_bytes n)) okey w = (res, w')"
    and "stub_path p = Inr (p @ SUFFIX)" and "\<not> prefix ''.mirror/'' p" and "fmlookup (w_files w) p = Some n"
  shows "\<exists>uid. swap_result p (''.mirror/tmp/evicting-'' @ uid) (of_nat (length (fn_bytes n))) (min (fn_mtime_ns n) i64_max)
    (racer (fmupd (p @ SUFFIX) (written_stub E p n okey w) (w_files w))) res (w_files w')"
proof -
  from assms(1,2,4) obtain v where "take_away E p p (of_nat (length (fn_bytes n))) (min (fn_mtime_ns n) i64_max) v = (res, w')"
    and "w_files v = racer (fmupd (p @ SUFFIX) (written_stub E p n okey w) (w_files w))"
    by (auto simp: swap_for_stub_def act_bind_run stub_write_def write_node_def at_now_run on_db_run
        mark_evicted_def update_file_def written_stub_def evict_stub_def with_mode_def with_mtime_ns_def stub_new_def)
  with take_away_result [OF this(1) assms(2,3)] show ?thesis by auto
qed

lemma swap_result_map: "swap_result p aside sz mt F rs fs \<Longrightarrow> swap_result p aside sz mt F (map_sum id (map_sum id f) rs) fs"
proof -
  assume s: "swap_result p aside sz mt F rs fs"
  consider e where "rs = Inl e" | k where "rs = Inr (Inl k)" | u where "rs = Inr (Inr u)" by (metis obj_sumE)
  then show ?thesis using s by cases (simp_all add: swap_result_def split: option.splits)
qed

lemma eligible_ok:
  "eligible rec manifest pending = Inr u \<Longrightarrow> \<exists>r e. rec = Some r \<and> \<not> is_evicted r \<and>
     f_last_synced_hash r = Some (f_content_hash r) \<and> f_path r \<notin> set pending \<and>
     fmlookup manifest (f_path r) = Some e \<and> \<not> d_deleted e \<and> d_plaintext_hash e = f_content_hash r"
  by (auto simp: eligible_def split: option.splits if_splits)

text \<open>The checks before the swap change no file and no object.\<close>

lemma verified_frame:
  assumes "remote_verified E verify pre entry w = (r, v)"
  shows "w_files v = w_files w \<and> w_now v = w_now w \<and> ms_entries (w_store v) = ms_entries (w_store w) \<and>
    (\<exists>b. r = Inr b \<and> (b \<longrightarrow> verify \<longrightarrow> (\<exists>tmp. fst (fetch_verified E pre entry w) = Inr tmp)))"
proof -
  obtain n where "snd (fetch_verified E pre entry w) = w\<lparr>w_store := (w_store w)\<lparr>ms_bytes_read := n\<rparr>\<rparr>"
    using fetch_verified_frame by blast
  with assms show ?thesis
    by (cases "fetch_verified E pre entry w") (auto simp: remote_verified_def act_bind_run act_try_run split: if_splits sum.splits)
qed

text \<open>Either a check stops the eviction, or all checks passed and the swap ran.\<close>

lemma evict_one_cases:
  assumes "evict_one E racer pre verify manifest rec pending w = (res, w')"
    and "rec = Some r" and "f_path r = p" and "safe_join p = Inr p" and "fmlookup (w_files w) p = Some n0"
  obtains (stopped) "w_files w' = w_files w" and "case res of Inr (Inr _) \<Rightarrow> False | _ \<Rightarrow> True"
  | (swapped) e ob v rs where "fmlookup manifest p = Some e" and "\<not> d_deleted e"
      and "e_blake3 E (fn_bytes n0) = d_plaintext_hash e"
      and "fmlookup (ms_entries (w_store w)) (pre @ d_object_key e) = Some ob"
      and "of_nat (length (obj_bytes ob)) = ciphertext_len (d_size e)"
      and "verify \<longrightarrow> (\<exists>tmp. fst (fetch_verified E pre e w) = Inr tmp)"
      and "w_files v = w_files w" and "w_now v = w_now w"
      and "swap_for_stub E racer p p (of_nat (length (fn_bytes n0)), min (fn_mtime_ns n0) i64_max,
             e_blake3 E (fn_bytes n0)) (d_object_key e) v = (rs, w')"
      and "res = map_sum id (map_sum id (\<lambda>_. e_allocated E n0)) rs"
proof (cases "eligible rec manifest pending")
  case (Inl x)
  with assms(1) have "w' = w \<and> res = Inr (Inl x)" by (simp add: evict_one_def)
  then show ?thesis by (intro stopped) simp_all
next
  case (Inr u)
  from eligible_ok [OF Inr] assms(2,3) obtain e where e: "fmlookup manifest p = Some e" "\<not> d_deleted e" by auto
  let ?h = "e_blake3 E (fn_bytes n0)" and ?k = "pre @ d_object_key e"
  let ?sz = "of_nat (length (fn_bytes n0)) :: u64" and ?mt = "min (fn_mtime_ns n0) i64_max"
  show ?thesis
  proof (cases "fn_mtime_ns n0 < 0 \<or> ?h \<noteq> d_plaintext_hash e")
    case True
    with assms Inr e have "w_files w' = w_files w \<and> (case res of Inr (Inr _) \<Rightarrow> False | _ \<Rightarrow> True)"
      by (auto simp: evict_one_def Let_def act_bind_run hash_stable_quiet file_stat_def stat_of_def split: if_splits)
    then show ?thesis by (intro stopped) simp_all
  next
    case False
    then have st: "hash_stable E (\<lambda>_ _. w_files w) p = Inr (Some (?sz, ?mt, ?h))" and h: "?h = d_plaintext_hash e"
      using assms(5) by (simp_all add: hash_stable_quiet file_stat_def stat_of_def)
    show ?thesis
    proof (cases "\<exists>ob. fmlookup (ms_entries (w_store w)) ?k = Some ob \<and> of_nat (length (obj_bytes ob)) = ciphertext_len (d_size e)")
      case no: False
      with assms Inr e st h have "w_files w' = w_files w \<and> res = Inr (Inl RemoteUnverified)"
        by (auto simp: evict_one_def Let_def act_bind_run on_store_run mem_head_def mem_meta_def split: option.splits)
      then show ?thesis by (intro stopped) simp_all
    next
      case True
      then obtain ob where ob: "fmlookup (ms_entries (w_store w)) ?k = Some ob"
        "of_nat (length (obj_bytes ob)) = ciphertext_len (d_size e)" by blast
      obtain vr v where v: "remote_verified E verify pre e w = (vr, v)"
        by (cases "remote_verified E verify pre e w")
      from verified_frame [OF v] obtain b where b: "vr = Inr b" "w_files v = w_files w" "w_now v = w_now w"
        "b \<longrightarrow> verify \<longrightarrow> (\<exists>tmp. fst (fetch_verified E pre e w) = Inr tmp)" by blast
      have run: "evict_one E racer pre verify manifest rec pending w =
          (if \<not> b then (Inr (Inl RemoteUnverified), v)
           else case swap_for_stub E racer p p (?sz, ?mt, ?h) (d_object_key e) v of
             (rs, v') \<Rightarrow> (map_sum id (map_sum id (\<lambda>_. e_allocated E n0)) rs, v'))"
        using assms(2-5) Inr e st h ob v b(1,2)
        by (auto simp: evict_one_def Let_def act_bind_run on_store_run mem_head_def mem_meta_def
            split: sum.splits prod.splits)
      show ?thesis
      proof (cases b)
        case False
        with run assms(1) b(2) show ?thesis by (intro stopped) auto
      next
        case True
        obtain rs v' where sw: "swap_for_stub E racer p p (?sz, ?mt, ?h) (d_object_key e) v = (rs, v')"
          by (cases "swap_for_stub E racer p p (?sz, ?mt, ?h) (d_object_key e) v")
        with run True assms(1) have "res = map_sum id (map_sum id (\<lambda>_. e_allocated E n0)) rs" "v' = w'" by auto
        with sw e h ob b True show ?thesis by (intro swapped [of e ob v rs]) auto
      qed
    qed
  qed
qed

text \<open>
  C9: What evicting one file does to the files, whatever other programs do to them while it runs. Either
  it changes nothing and the file is not reported evicted, or a placeholder with the file's size, time,
  hash and object key is written next to it, other programs leave the files \<open>F\<close>, and then: the file is
  removed and reported evicted only if it still has the size and time it had when it was hashed; a
  changed one is kept, its placeholder removed and the file reported as skipped; if the eviction fails,
  the file is there under its own or a temporary name. No other path changes. A placeholder is only
  written for content whose hash is that of the live manifest entry, whose object is in the store with
  the length of its ciphertext and, where verification is on, decrypts to content with that hash. The
  path is canonical and not under \<open>.mirror/\<close>.
\<close>

theorem eviction_loses_nothing:
  assumes "evict_one E racer pre verify manifest rec pending w = (res, w')"
    and "rec = Some r" and "f_path r = p" and "safe_join p = Inr p" and "p \<noteq> []" and "\<not> prefix ''.mirror/'' p"
    and "fmlookup (w_files w) p = Some n"
  shows "(w_files w' = w_files w \<and> (\<forall>freed. res \<noteq> Inr (Inr freed))) \<or>
    (\<exists>e ob uid. fmlookup manifest p = Some e \<and> \<not> d_deleted e \<and> e_blake3 E (fn_bytes n) = d_plaintext_hash e \<and>
       fmlookup (ms_entries (w_store w)) (pre @ d_object_key e) = Some ob \<and> of_nat (length (obj_bytes ob)) = ciphertext_len (d_size e) \<and>
       (verify \<longrightarrow> (\<exists>b. decrypt_bytes (e_aead E) (e_content_key E) (obj_bytes ob) (d_path e) = Inr b \<and> e_blake3 E b = d_plaintext_hash e)) \<and>
       swap_result p (''.mirror/tmp/evicting-'' @ uid) (of_nat (length (fn_bytes n))) (min (fn_mtime_ns n) i64_max)
         (racer (fmupd (p @ SUFFIX) (written_stub E p n (d_object_key e) w) (w_files w))) res (w_files w'))"
  using assms(1-4,7)
proof (cases rule: evict_one_cases)
  case stopped
  then show ?thesis by (auto split: sum.splits)
next
  case (swapped e ob v rs)
  have n: "fmlookup (w_files v) p = Some n" using swapped(7) assms(7) by simp
  from swap_for_stub_result [OF swapped(9) canonical_stub_path [OF assms(4,5)] assms(6) n]
  obtain uid where "swap_result p (''.mirror/tmp/evicting-'' @ uid) (of_nat (length (fn_bytes n))) (min (fn_mtime_ns n) i64_max)
      (racer (fmupd (p @ SUFFIX) (written_stub E p n (d_object_key e) w) (w_files w))) rs (w_files w')"
    using swapped(7,8) by (auto simp: written_stub_def unix_timestamp_def)
  then have "swap_result p (''.mirror/tmp/evicting-'' @ uid) (of_nat (length (fn_bytes n))) (min (fn_mtime_ns n) i64_max)
      (racer (fmupd (p @ SUFFIX) (written_stub E p n (d_object_key e) w) (w_files w))) res (w_files w')"
    unfolding swapped(10) by (rule swap_result_map)
  moreover have "verify \<longrightarrow> (\<exists>b. decrypt_bytes (e_aead E) (e_content_key E) (obj_bytes ob) (d_path e) = Inr b \<and>
      e_blake3 E b = d_plaintext_hash e)"
    using swapped(4,6) by (auto simp: fetch_verified_ok)
  ultimately show ?thesis using swapped(1-5) by blast
qed

text \<open>A world in which \<open>a\<close> is on disk and its object in the store.\<close>

lemma sample_synced:
  "\<exists>(v :: world) ob. w_files v = fmupd ''a'' sample_node fmempty \<and>
     fmlookup (ms_entries (w_store v)) (''p/'' @ object_key sample_env ''a'' [8, 9]) = Some ob \<and> of_nat (length (obj_bytes ob)) = ciphertext_len 2 \<and>
     decrypt_bytes (e_aead sample_env) (e_content_key sample_env) (obj_bytes ob) ''a'' = Inr [8, 9]"
proof -
  let ?fs = "fmupd ''a'' sample_node fmempty"
  obtain r v where u: "upload_file sample_env (files_fs ?fs) ''a'' ''a'' (2, 5, [8, 9]) ''p/'' False
      (sample_world\<lparr>w_files := ?fs\<rparr>) = (Inr r, v)" using sample_upload by blast
  have k: "transfer_keeps UNIV (sample_world\<lparr>w_files := ?fs\<rparr>) v"
    by (rule act_keepsD [OF keeps_upload_file _ u]) simp_all
  have r: "ur_object_key r = object_key sample_env ''a'' [8, 9]" using upload_file_ok [OF u] by auto
  have src: "files_fs ?fs ''a'' = Some [8, 9]" by (simp add: files_fs_def sample_node_def)
  have "fst (fetch_verified sample_env ''p/'' (sample_upload_entry (ur_object_key r)) v) = Inr [8, 9]"
    by (rule fetch_after_upload [OF sample_env_aead sample_nonces u src])
      (simp_all add: sample_upload_entry_def sample_env_def)
  then obtain ob where ob: "fmlookup (ms_entries (w_store v)) (''p/'' @ ur_object_key r) = Some ob"
    "decrypt_bytes (e_aead sample_env) (e_content_key sample_env) (obj_bytes ob) ''a'' = Inr [8, 9]"
    by (auto simp: fetch_verified_ok sample_upload_entry_def)
  have "of_nat (length (obj_bytes ob)) = ciphertext_len 2" using upload_file_ok [OF u] ob(1) r by auto
  moreover have "w_files v = ?fs" using k by (simp add: transfer_keeps_def)
  ultimately show ?thesis using ob r by metis
qed

theorem eviction_loses_nothing_witness:
  "\<exists>v w'. evict_one sample_env (\<lambda>fs. fs) ''p/'' True
      (fmupd ''a'' (sample_upload_entry (object_key sample_env ''a'' [8, 9])) fmempty)
      (Some (file_record_synced ''a'' 2 [8, 9])) [] v = (Inr (Inr 2), w') \<and> fmlookup (w_files v) ''a'' = Some sample_node \<and>
    fmlookup (w_files w') ''a'' = None \<and>
    fmlookup (w_files w') ''a.rfm'' = Some (written_stub sample_env ''a'' sample_node (object_key sample_env ''a'' [8, 9]) v)"
proof -
  let ?k = "object_key sample_env ''a'' [8, 9]" and ?e = "sample_upload_entry (object_key sample_env ''a'' [8, 9])"
  let ?m = "fmupd ''a'' ?e fmempty" and ?r = "file_record_synced ''a'' 2 [8, 9]"
  obtain v :: world and ob where v: "w_files v = fmupd ''a'' sample_node fmempty"
    and ob: "fmlookup (ms_entries (w_store v)) (''p/'' @ ?k) = Some ob" "of_nat (length (obj_bytes ob)) = ciphertext_len 2"
      "decrypt_bytes (e_aead sample_env) (e_content_key sample_env) (obj_bytes ob) ''a'' = Inr [8, 9]"
    using sample_synced by blast
  have el: "eligible (Some ?r) ?m [] = Inr ()"
    by (simp add: eligible_def file_record_synced_def is_evicted_def sample_upload_entry_def)
  have fs: "fmlookup (w_files v) ''a'' = Some sample_node" by (simp add: v)
  have h: "e_blake3 sample_env (fn_bytes sample_node) = [8, 9]" by (simp add: sample_env_def sample_node_def)
  have hs: "hash_stable sample_env (\<lambda>_ _. w_files v) ''a'' = Inr (Some (2, 5, [8, 9]))"
    by (simp add: hash_stable_quiet file_stat_def fs stat_of_def h) (simp add: sample_node_def i64_max_def)
  have "fst (fetch_verified sample_env ''p/'' ?e v) = Inr [8, 9]"
    using ob by (auto simp: fetch_verified_ok sample_upload_entry_def sample_env_def)
  then obtain v1 where v1: "remote_verified sample_env True ''p/'' ?e v = (Inr True, v1)"
    by (cases "fetch_verified sample_env ''p/'' ?e v") (auto simp: remote_verified_def act_bind_run act_try_run)
  have v1f: "w_files v1 = w_files v" using verified_frame [OF v1] by simp
  have sp: "stub_path ''a'' = Inr ''a.rfm''"
    using canonical_stub_path [OF sample_safe_join] by (simp add: SUFFIX_def)
  have al: "e_allocated sample_env sample_node = 2" by (simp add: sample_env_def sample_node_def)
  have ta: "\<exists>w2. take_away sample_env ''a'' ''a'' 2 5 w1 = (Inr (Inr ()), w2)"
    if "fmlookup (w_files w1) ''a'' = Some sample_node" for w1
    using that
    by (simp add: take_away_def Let_def act_bind_run rename_node_def file_stat_def stat_of_def sample_node_def
        i64_max_def remove_node_def)
  have "\<exists>w2. swap_for_stub sample_env (\<lambda>fs. fs) ''a'' ''a'' (2, 5, [8, 9]) (d_object_key ?e) v1 = (Inr (Inr ()), w2)"
    by (auto simp: swap_for_stub_def act_bind_run stub_write_def sp write_node_def at_now_run on_db_run
        mark_evicted_def update_file_def v1f fs intro!: ta)
  then obtain w' where run: "evict_one sample_env (\<lambda>fs. fs) ''p/'' True ?m (Some ?r) [] v = (Inr (Inr 2), w')"
    using el hs ob v1 v1f fs al
    by (auto simp: evict_one_def Let_def act_bind_run file_record_synced_def sample_upload_entry_def sample_safe_join
        on_store_run mem_head_def mem_meta_def)
  have p: "f_path ?r = ''a''" by (simp add: file_record_synced_def)
  have a: "''.mirror/tmp/evicting-'' @ uid \<noteq> ''a.rfm''" for uid by simp
  from eviction_loses_nothing [OF run refl p sample_safe_join _ _ fs]
  have "fmlookup (w_files w') ''a'' = None \<and>
      fmlookup (w_files w') ''a.rfm'' = Some (written_stub sample_env ''a'' sample_node ?k v)"
    using a by (auto simp: swap_result_def SUFFIX_def fs sample_upload_entry_def)
  with run fs show ?thesis by blast
qed

section \<open>Making room\<close>

definition freed_by :: "candidate list \<Rightarrow> nat" where
  "freed_by cs = sum_list (map (unat \<circ> ca_bytes) cs)"

lemma freed_by_Cons [simp]: "freed_by (c # cs) = unat (ca_bytes c) + freed_by cs"
  by (simp add: freed_by_def)

lemma freed_by_Nil [simp]: "freed_by [] = 0"
  by (simp add: freed_by_def)

lemma freed_by_take: "freed_by (take k cs) \<le> freed_by cs"
proof -
  have "freed_by cs = freed_by (take k cs) + freed_by (drop k cs)"
    unfolding freed_by_def by (metis append_take_drop_id map_append sum_list_append)
  then show ?thesis by simp
qed

lemma freed_by_insort: "freed_by (insort_key f c cs) = unat (ca_bytes c) + freed_by cs"
  by (induction cs) auto

lemma freed_by_sort [simp]: "freed_by (sort_key f cs) = freed_by cs"
  by (induction cs) (simp_all add: freed_by_insort)

lemma pick_candidates_prefix:
  assumes "unat freed + freed_by cs < 2 ^ 64"
  shows "\<exists>k \<le> length cs. pick_candidates needed max_files freed picked cs = picked @ map ca_path (take k cs) \<and>
    (k < length cs \<longrightarrow> unat needed \<le> unat freed + freed_by (take k cs) \<or> max_files \<le> length picked + k) \<and>
    (\<forall>j<k. unat freed + freed_by (take j cs) < unat needed \<and> length picked + j < max_files)"
  using assms
proof (induction cs arbitrary: freed picked)
  case (Cons c cs)
  show ?case
  proof (cases "needed \<le> freed \<or> max_files \<le> length picked")
    case True
    then show ?thesis by (intro exI [of _ 0]) (auto simp: word_le_nat_alt)
  next
    case False
    have u: "unat (freed + ca_bytes c) = unat freed + unat (ca_bytes c)"
      by (rule unat_add_lem [THEN iffD1]) (use Cons.prems in simp)
    with Cons.prems have "unat (freed + ca_bytes c) + freed_by cs < 2 ^ 64" by simp
    from Cons.IH [OF this, of "picked @ [ca_path c]"] obtain k where
      k: "k \<le> length cs" "pick_candidates needed max_files (freed + ca_bytes c) (picked @ [ca_path c]) cs =
        (picked @ [ca_path c]) @ map ca_path (take k cs)"
      "k < length cs \<longrightarrow> unat needed \<le> unat (freed + ca_bytes c) + freed_by (take k cs) \<or>
        max_files \<le> length (picked @ [ca_path c]) + k"
      "\<forall>j<k. unat (freed + ca_bytes c) + freed_by (take j cs) < unat needed \<and> length (picked @ [ca_path c]) + j < max_files"
      by blast
    have "\<forall>j<Suc k. unat freed + freed_by (take j (c # cs)) < unat needed \<and> length picked + j < max_files"
    proof (intro allI impI)
      fix j
      assume "j < Suc k"
      then show "unat freed + freed_by (take j (c # cs)) < unat needed \<and> length picked + j < max_files"
        using False k(4) u by (cases j) (auto simp: word_le_nat_alt)
    qed
    with False k(1-3) u show ?thesis by (intro exI [of _ "Suc k"]) auto
  qed
qed (auto intro!: exI [of _ 0])

text \<open>
  C12: space-driven eviction takes a prefix of the least recently used candidates: no more than
  \<open>max_files\<close>, none beyond what is needed, and enough unless the candidates or the limit run out
  (as long as the sizes together fit 64 bits, where the sum would wrap).
\<close>

theorem space_evictions_least_recent:
  assumes "freed_by candidates < 2 ^ 64"
  shows "\<exists>k. plan_space_evictions candidates needed max_files =
      map ca_path (take k (sort_key (\<lambda>c. (ca_last_used c, ca_path c)) candidates)) \<and> k \<le> max_files \<and>
    (k < length candidates \<longrightarrow> k < max_files \<longrightarrow>
      unat needed \<le> freed_by (take k (sort_key (\<lambda>c. (ca_last_used c, ca_path c)) candidates))) \<and>
    (\<forall>j<k. freed_by (take j (sort_key (\<lambda>c. (ca_last_used c, ca_path c)) candidates)) < unat needed)"
proof -
  let ?cs = "sort_key (\<lambda>c. (ca_last_used c, ca_path c)) candidates"
  have "unat (0 :: u64) + freed_by ?cs < 2 ^ 64" using assms by simp
  from pick_candidates_prefix [OF this, of needed max_files "[]"] obtain k where
    k: "pick_candidates needed max_files 0 [] ?cs = map ca_path (take k ?cs)"
      "k < length ?cs \<longrightarrow> unat needed \<le> freed_by (take k ?cs) \<or> max_files \<le> k"
      "\<forall>j<k. freed_by (take j ?cs) < unat needed \<and> j < max_files" by auto
  have "k \<le> max_files" using k(3) by (metis leI less_irrefl)
  with k show ?thesis by (intro exI [of _ k]) (auto simp: plan_space_evictions_def)
qed

theorem space_evictions_least_recent_witness:
  "plan_space_evictions [\<lparr>ca_path = ''b'', ca_bytes = 7, ca_last_used = 2\<rparr>,
     \<lparr>ca_path = ''a'', ca_bytes = 5, ca_last_used = 1\<rparr>] 5 9 = [''a'']"
proof -
  let ?a = "\<lparr>ca_path = ''a'', ca_bytes = 5, ca_last_used = 1\<rparr>" and ?b = "\<lparr>ca_path = ''b'', ca_bytes = 7, ca_last_used = 2\<rparr>"
  let ?s = "sort_key (\<lambda>c. (ca_last_used c, ca_path c)) [?b, ?a]"
  have srt: "?s = [?a, ?b]" by simp
  have "freed_by [?b, ?a] < 2 ^ 64" by simp
  from space_evictions_least_recent [OF this, of 5 9] obtain k where
    k: "plan_space_evictions [?b, ?a] 5 9 = map ca_path (take k ?s)"
      "k < length [?b, ?a] \<longrightarrow> k < 9 \<longrightarrow> unat (5 :: u64) \<le> freed_by (take k ?s)"
      "\<forall>j<k. freed_by (take j ?s) < unat (5 :: u64)"
    by blast
  have "k \<noteq> 0"
    using k(2) unfolding srt by (cases k) auto
  moreover have "\<not> 1 < k" using k(3) unfolding srt by auto
  ultimately have "k = 1" by linarith
  with k(1) show ?thesis unfolding srt by simp
qed

end
