(* ===== verification/Conflicts.thy ===== *)
theory Conflicts
  imports Evict
begin

text \<open>
  Local handling of conflicts and deletions (\<open>apply/conflict.rs\<close>, \<open>apply/remote_conflict.rs\<close>,
  \<open>apply/delete_local.rs\<close>): a losing local version is renamed to a conflicted copy, which the next scan
  takes for a new file. \<open>seen\<close> is what \<open>hash_stable\<close> observes while other programs run. Time stands
  still while a list of conflicts is handled.
\<close>

section \<open>Operations\<close>

definition copy_path :: "env \<Rightarrow> instant \<Rightarrow> string \<Rightarrow> string \<Rightarrow> string" where
  "copy_path E now device path = replace_name path (conflict_name path (e_utc_format E now) device)"

text \<open>A failed rename is only logged.\<close>

definition conflict :: "env \<Rightarrow> string \<Rightarrow> unit act" where
  "conflict E path =
     act_bind (query_db device_name) (\<lambda>device.
     act_bind (act_get (\<lambda>w. copy_path E (w_now w) device path)) (\<lambda>new_path.
     act_bind (act_res (safe_join new_path)) (\<lambda>to.
     act_bind (act_try (rename_node path to) :: (merror + unit) act) (\<lambda>_.
     on_db (remove_file_row path)))))"

definition delete_local :: "string \<Rightarrow> unit act" where
  "delete_local path = act_bind (remove_node path) (\<lambda>_. stub_remove path)"

record preserved_conflicts =
  pc_renamed :: "string list"
  pc_relocations :: "(string \<times> delta_entry) list"

text \<open>The body of the loop; \<open>b\<close> is the baseline as it was before the loop.\<close>

definition preserve_loser :: "env \<Rightarrow> (string \<Rightarrow> nat \<Rightarrow> nat \<Rightarrow> files) \<Rightarrow> string \<Rightarrow> string \<Rightarrow> baseline \<Rightarrow>
    remote_conflict \<Rightarrow> preserved_conflicts \<Rightarrow> preserved_conflicts act" where
  "preserve_loser E seen me my_name b c acc =
     (let loser = rc_loser c; path = d_path loser in
      if d_device_id loser \<noteq> me then act_ok acc
      else act_bind (act_res (safe_join path)) (\<lambda>from.
           act_bind (act_get (\<lambda>w. copy_path E (w_now w) my_name path)) (\<lambda>new_path.
           act_bind (act_get (\<lambda>w. fmlookup (w_files w) from \<noteq> None)) (\<lambda>exists.
           if \<not> exists
           then act_ok (case fmlookup b path of
                  None \<Rightarrow> acc
                | Some r \<Rightarrow> if is_evicted r \<and> f_last_synced_hash r = Some (d_plaintext_hash loser)
                    then acc\<lparr>pc_relocations := pc_relocations acc @ [(new_path, loser)]\<rparr> else acc)
           else act_bind (act_res (hash_stable E (seen path) from)) (\<lambda>found. case found of
                  None \<Rightarrow> act_ok acc
                | Some (_, _, h) \<Rightarrow>
                    if h \<noteq> d_plaintext_hash loser then act_ok acc
                    else act_bind (act_res (safe_join new_path)) (\<lambda>to.
                         act_bind (rename_node from to) (\<lambda>_.
                         act_bind (on_db (remove_file_row path)) (\<lambda>_.
                         act_ok (acc\<lparr>pc_renamed := pc_renamed acc @ [new_path]\<rparr>)))))))))"

definition preserve_conflict_losers :: "env \<Rightarrow> (string \<Rightarrow> nat \<Rightarrow> nat \<Rightarrow> files) \<Rightarrow> remote_conflict list \<Rightarrow>
    preserved_conflicts act" where
  "preserve_conflict_losers E seen conflicts =
     act_bind (query_db device_id) (\<lambda>me.
     act_bind (query_db device_name) (\<lambda>my_name.
     act_bind (read_db db_baseline) (\<lambda>b.
     act_fold (preserve_loser E seen me my_name b) conflicts \<lparr>pc_renamed = [], pc_relocations = []\<rparr>)))"

section \<open>Files are only renamed\<close>

text \<open>\<open>fs'\<close> holds the files of \<open>fs\<close>, each once, under other names where \<open>f\<close> says so.\<close>

definition renamed_by :: "(string \<Rightarrow> string) \<Rightarrow> files \<Rightarrow> files \<Rightarrow> bool" where
  "renamed_by f fs fs' \<longleftrightarrow> inj_on f (fset (fmdom fs)) \<and> fset (fmdom fs') = f ` fset (fmdom fs) \<and>
     (\<forall>p. p |\<in>| fmdom fs \<longrightarrow> fmlookup fs' (f p) = fmlookup fs p)"

lemma renamed_by_refl: "renamed_by (\<lambda>p. p) fs fs"
  by (simp add: renamed_by_def)

lemma renamed_by_source:
  assumes "renamed_by f fs gs" and "fmlookup gs q = Some n"
  shows "\<exists>p. fmlookup fs p = Some n \<and> f p = q"
proof -
  have "q \<in> f ` fset (fmdom fs)" using assms by (auto simp: renamed_by_def dest: fmdomI)
  then obtain p where p: "p |\<in>| fmdom fs" "f p = q" by auto
  with assms have "fmlookup fs p = Some n" by (auto simp: renamed_by_def)
  with p show ?thesis by blast
qed

lemma renamed_by_trans:
  assumes "renamed_by f fs gs" and "renamed_by g gs hs"
  shows "renamed_by (g \<circ> f) fs hs"
  using assms unfolding renamed_by_def
  by (auto simp: comp_inj_on inj_on_def image_comp)

lemma renamed_by_rename:
  assumes "fmlookup fs from = Some n" and "fmlookup fs to = None"
  shows "renamed_by ((\<lambda>p. p)(from := to)) fs (fmupd to n (fmdrop from fs))"
proof -
  have "from |\<in>| fmdom fs" "to |\<notin>| fmdom fs" using assms by (auto intro: fmdomI fmdom_notI)
  with assms show ?thesis
    unfolding renamed_by_def by (auto simp: inj_on_def split: if_splits)
qed


section \<open>Losing versions are kept\<close>

definition copy_target :: "env \<Rightarrow> world \<Rightarrow> string \<Rightarrow> remote_conflict \<Rightarrow> string mresult" where
  "copy_target E w name c = safe_join (copy_path E (w_now w) name (d_path (rc_loser c)))"

definition loser_file :: "remote_conflict \<Rightarrow> string mresult" where
  "loser_file c = safe_join (d_path (rc_loser c))"

text \<open>The names of the copies are new, and differ for different files.\<close>

definition copies_free :: "env \<Rightarrow> world \<Rightarrow> string \<Rightarrow> remote_conflict list \<Rightarrow> bool" where
  "copies_free E w name cs \<longleftrightarrow> (\<forall>c\<in>set cs. \<forall>t. copy_target E w name c = Inr t \<longrightarrow>
     fmlookup (w_files w) t = None \<and>
     (\<forall>d\<in>set cs. loser_file d \<noteq> Inr t \<and> (copy_target E w name d = Inr t \<longrightarrow> loser_file c = loser_file d)))"

text \<open>What holds after part of the list: \<open>f\<close> says where each file went.\<close>

definition set_aside :: "env \<Rightarrow> (string \<Rightarrow> nat \<Rightarrow> nat \<Rightarrow> files) \<Rightarrow> string \<Rightarrow> string \<Rightarrow> remote_conflict list \<Rightarrow> world \<Rightarrow> world \<Rightarrow>
    (string \<Rightarrow> string) \<Rightarrow> bool" where
  "set_aside E seen me name cs w v f \<longleftrightarrow> renamed_by f (w_files w) (w_files v) \<and>
     (\<forall>p n. fmlookup (w_files w) p = Some n \<longrightarrow> f p \<noteq> p \<longrightarrow>
       (\<exists>c\<in>set cs. d_device_id (rc_loser c) = me \<and> loser_file c = Inr p \<and> copy_target E w name c = Inr (f p) \<and>
         ((\<forall>i k. fmlookup (seen (d_path (rc_loser c)) i k) p = Some n) \<longrightarrow>
           e_blake3 E (fn_bytes n) = d_plaintext_hash (rc_loser c))))"

lemma preserve_loser_step:
  assumes "preserve_loser E seen me name b c acc v = (res, v')"
  shows "w_now v' = w_now v \<and> (w_files v' = w_files v \<or>
    (\<exists>src dst n h sz mt. d_device_id (rc_loser c) = me \<and> loser_file c = Inr src \<and>
      safe_join (copy_path E (w_now v) name (d_path (rc_loser c))) = Inr dst \<and> fmlookup (w_files v) src = Some n \<and>
      hash_stable E (seen (d_path (rc_loser c))) src = Inr (Some (sz, mt, d_plaintext_hash (rc_loser c))) \<and>
      w_files v' = fmupd dst n (fmdrop src (w_files v))))"
proof (cases "d_device_id (rc_loser c) = me \<and> (\<exists>src dst n h sz mt. loser_file c = Inr src \<and>
      safe_join (copy_path E (w_now v) name (d_path (rc_loser c))) = Inr dst \<and> fmlookup (w_files v) src = Some n \<and>
      hash_stable E (seen (d_path (rc_loser c))) src = Inr (Some (sz, mt, d_plaintext_hash (rc_loser c))))")
  case True
  then obtain src dst n sz mt where t: "d_device_id (rc_loser c) = me" "loser_file c = Inr src"
    "safe_join (copy_path E (w_now v) name (d_path (rc_loser c))) = Inr dst" "fmlookup (w_files v) src = Some n"
    "hash_stable E (seen (d_path (rc_loser c))) src = Inr (Some (sz, mt, d_plaintext_hash (rc_loser c)))" by blast
  with assms have "w_files v' = fmupd dst n (fmdrop src (w_files v))" "w_now v' = w_now v"
    by (auto simp: preserve_loser_def loser_file_def Let_def act_bind_run rename_node_def on_db_run remove_file_row_def)
  with t show ?thesis by blast
next
  case False
  with assms have "w_files v' = w_files v \<and> w_now v' = w_now v"
    by (auto simp: preserve_loser_def loser_file_def Let_def act_bind_run split: sum.splits option.splits if_splits)
  then show ?thesis by blast
qed

lemma set_aside_step:
  assumes "preserve_loser E seen me name b c acc v = (res, v')" and "c \<in> set cs"
    and "copies_free E w name cs" and "set_aside E seen me name cs w v f" and "w_now v = w_now w"
  shows "w_now v' = w_now w \<and> (\<exists>g. set_aside E seen me name cs w v' g)"
proof -
  from preserve_loser_step [OF assms(1)] have now: "w_now v' = w_now w" using assms(5) by simp
  consider (same) "w_files v' = w_files v" | (moved) src dst n sz mt where "d_device_id (rc_loser c) = me"
    "loser_file c = Inr src" "copy_target E w name c = Inr dst" "fmlookup (w_files v) src = Some n"
    "hash_stable E (seen (d_path (rc_loser c))) src = Inr (Some (sz, mt, d_plaintext_hash (rc_loser c)))"
    "w_files v' = fmupd dst n (fmdrop src (w_files v))"
    using preserve_loser_step [OF assms(1)] assms(5) by (auto simp: copy_target_def)
  then show ?thesis
  proof cases
    case same
    with assms(4) now show ?thesis unfolding set_aside_def by auto
  next
    case moved
    have r: "renamed_by f (w_files w) (w_files v)" and
      m: "\<And>p n. fmlookup (w_files w) p = Some n \<Longrightarrow> f p \<noteq> p \<Longrightarrow>
        \<exists>d\<in>set cs. loser_file d = Inr p \<and> copy_target E w name d = Inr (f p)"
      using assms(4) unfolding set_aside_def by blast+
    have free: "fmlookup (w_files w) dst = None" "\<forall>d\<in>set cs. loser_file d \<noteq> Inr dst \<and>
        (copy_target E w name d = Inr dst \<longrightarrow> loser_file c = loser_file d)"
      using assms(3) [unfolded copies_free_def, rule_format, OF assms(2) moved(3)] by blast+
    have came: "\<exists>p n. fmlookup (w_files w) p = Some n \<and> f p = q \<and> fmlookup (w_files v) q = Some n"
      if "fmlookup (w_files v) q \<noteq> None" for q
      using that renamed_by_source [OF r] by blast
    obtain p where p: "fmlookup (w_files w) p = Some n" "f p = src"
      using came [of src] moved(4) by auto
    have pf: "p = src"
    proof (rule ccontr)
      assume "p \<noteq> src"
      with m [OF p(1)] p(2) obtain d where "d \<in> set cs" "copy_target E w name d = Inr src" by auto
      with assms(2,3) moved(2) show False unfolding copies_free_def by blast
    qed
    have "fmlookup (w_files v) dst = None"
    proof (rule ccontr)
      assume "fmlookup (w_files v) dst \<noteq> None"
      from came [OF this] obtain q k where q: "fmlookup (w_files w) q = Some k" "f q = dst" by blast
      with free(1) have "f q \<noteq> q" by auto
      from m [OF q(1) this] q(2) obtain d where "d \<in> set cs" "loser_file d = Inr q" "copy_target E w name d = Inr dst"
        by auto
      with free(2) moved(2) have "q = src" by fastforce
      with q(2) p(2) pf moved(2) assms(2) free(2) show False by fastforce
    qed
    from renamed_by_rename [OF moved(4) this] renamed_by_trans [OF r]
    have "renamed_by (((\<lambda>p. p)(src := dst)) \<circ> f) (w_files w) (w_files v')" by (simp add: moved(6))
    moreover have "e_blake3 E (fn_bytes n) = d_plaintext_hash (rc_loser c)"
      if "\<forall>i k. fmlookup (seen (d_path (rc_loser c)) i k) src = Some n"
      using moved(5) that by (auto simp: hash_stable_def dest!: hash_attempts_result)
    moreover have "(((\<lambda>p. p)(src := dst)) \<circ> f) q = (if q = src then dst else f q)" if "fmlookup (w_files w) q = Some k" for q k
      using that p pf r by (auto simp: renamed_by_def inj_on_def dest!: fmdomI)
    ultimately have "set_aside E seen me name cs w v' (((\<lambda>p. p)(src := dst)) \<circ> f)"
      using assms(2,4) moved(1-3) p pf unfolding set_aside_def by (auto split: if_splits)
    with now show ?thesis by blast
  qed
qed

lemma set_aside_fold:
  assumes "act_fold (preserve_loser E seen me name b) cs' acc v = (res, v')" and "set cs' \<subseteq> set cs"
    and "copies_free E w name cs" and "set_aside E seen me name cs w v f" and "w_now v = w_now w"
  shows "\<exists>g. set_aside E seen me name cs w v' g"
  using assms(1,2,4,5)
proof (induction cs' arbitrary: acc v f)
  case (Cons c cs')
  obtain r v1 where s: "preserve_loser E seen me name b c acc v = (r, v1)"
    by (cases "preserve_loser E seen me name b c acc v")
  from set_aside_step [OF s _ assms(3) Cons.prems(3,4)] Cons.prems(2)
  obtain g where g: "set_aside E seen me name cs w v1 g" "w_now v1 = w_now w" by auto
  with s Cons.prems(1,2) Cons.IH [of _ v1 g] show ?case
    by (auto simp: act_bind_run split: sum.splits)
qed auto

text \<open>
  Setting losing versions aside only renames files. As long as the names of the copies are free,
  every file is still there once, with its bytes, whether the call succeeds or fails, and whatever
  other programs showed \<open>hash_stable\<close>; a file that moved is the losing file of one of the conflicts,
  was lost by this device, moved to its copy's name, and (when nobody else wrote it) has the hash of
  the losing version.
\<close>

theorem losers_only_renamed:
  assumes "preserve_conflict_losers E seen cs w = (res, w')"
    and "\<forall>name. device_name (w_db w) = Inr name \<longrightarrow> copies_free E w name cs"
  shows "\<exists>f. renamed_by f (w_files w) (w_files w') \<and>
    (\<forall>p n. fmlookup (w_files w) p = Some n \<longrightarrow> f p \<noteq> p \<longrightarrow>
      (\<exists>c\<in>set cs. \<exists>name. device_name (w_db w) = Inr name \<and> device_id (w_db w) = Inr (d_device_id (rc_loser c)) \<and>
         loser_file c = Inr p \<and> copy_target E w name c = Inr (f p) \<and>
         ((\<forall>i k. fmlookup (seen (d_path (rc_loser c)) i k) p = Some n) \<longrightarrow>
           e_blake3 E (fn_bytes n) = d_plaintext_hash (rc_loser c))))"
proof (cases "\<exists>me name. device_id (w_db w) = Inr me \<and> device_name (w_db w) = Inr name")
  case False
  with assms(1) have "w' = w"
    by (auto simp: preserve_conflict_losers_def act_bind_run split: sum.splits)
  then show ?thesis by (intro exI [of _ "\<lambda>p. p"]) (simp add: renamed_by_refl)
next
  case True
  then obtain me name where d: "device_id (w_db w) = Inr me" "device_name (w_db w) = Inr name" by blast
  with assms(1) have run: "act_fold (preserve_loser E seen me name (db_baseline (w_db w))) cs
      \<lparr>pc_renamed = [], pc_relocations = []\<rparr> w = (res, w')"
    by (simp add: preserve_conflict_losers_def act_bind_run)
  have "set_aside E seen me name cs w w (\<lambda>p. p)" by (simp add: set_aside_def renamed_by_refl)
  from set_aside_fold [OF run _ _ this] assms(2) d obtain f where "set_aside E seen me name cs w w' f" by auto
  with d show ?thesis unfolding set_aside_def by (intro exI [of _ f]) (simp add: eq_commute [of me])
qed


lemma safe_join_plain: "plain_part q \<Longrightarrow> safe_join q = Inr q"
  using components_join [of "[q]"] by (simp add: safe_join_def join_with_Cons join_with_def)

lemma sample_copy:
  "copy_path sample_env t d ''a'' = ''a (conflicted copy '' @ dec t @ '' from '' @ d @ '')''"
proof -
  have "\<not> sublist '' (conflicted copy '' ''a''" by (auto dest!: sublist_length_le)
  then show ?thesis
    by (simp add: copy_path_def replace_name_def rsplit_once_def conflict_name_def conflict_stem_def split_on_simple
        sample_env_def)
qed

lemma sample_copy_safe:
  "CHR ''/'' \<notin> set d \<Longrightarrow> safe_join (copy_path sample_env t d ''a'') = Inr (copy_path sample_env t d ''a'')"
proof (rule safe_join_plain)
  assume d: "CHR ''/'' \<notin> set d"
  have "CHR ''/'' \<notin> set (dec t)"
    using dec_all_digits [of t] by (auto simp: list_all_iff is_digit_def)
  with d show "plain_part (copy_path sample_env t d ''a'')" by (simp add: sample_copy plain_part_def)
qed

lemma sample_device: "device_name (w_db sample_world) = Inr ''host''" "device_id (w_db sample_world) = Inr ''device''"
  by (simp_all add: sample_world_def device_name_def device_id_def migrate_def Let_def db_empty_def migrate_v1_def
      migrate_v2_def migrate_v3_table_def migrate_v3_device_def migrate_v4_def)

theorem losers_only_renamed_witness:
  "\<exists>res w' f. preserve_conflict_losers sample_env (\<lambda>_ _ _. fmupd ''a'' sample_node fmempty)
      [\<lparr>rc_winner = (sample_upload_entry [])\<lparr>d_plaintext_hash := [7]\<rparr>, rc_loser = sample_upload_entry []\<rparr>]
      (sample_world\<lparr>w_files := fmupd ''a'' sample_node fmempty\<rparr>) = (Inr res, w') \<and>
    renamed_by f (fmupd ''a'' sample_node fmempty) (w_files w') \<and> fmlookup (w_files w') ''a'' = None"
proof -
  let ?c = "\<lparr>rc_winner = (sample_upload_entry [])\<lparr>d_plaintext_hash := [7]\<rparr>, rc_loser = sample_upload_entry []\<rparr>"
  let ?fs = "fmupd ''a'' sample_node fmempty" and ?to = "copy_path sample_env (w_now sample_world) ''host'' ''a''"
  let ?w = "sample_world\<lparr>w_files := ?fs\<rparr>"
  have c: "d_path (rc_loser ?c) = ''a''" "d_device_id (rc_loser ?c) = ''device''" "d_plaintext_hash (rc_loser ?c) = [8, 9]"
    by (simp_all add: sample_upload_entry_def)
  have safe: "safe_join ?to = Inr ?to" by (rule sample_copy_safe) simp
  have new: "?to \<noteq> ''a''" by (simp add: sample_copy)
  have free: "copies_free sample_env ?w ''host'' [?c]"
    using safe new c by (simp add: copies_free_def copy_target_def loser_file_def sample_safe_join)
  have h: "hash_stable sample_env (\<lambda>_ _. ?fs) ''a'' = Inr (Some (2, 5, [8, 9]))"
    by (simp add: hash_stable_quiet file_stat_def stat_of_def) (simp add: sample_node_def i64_max_def sample_env_def)
  obtain res w' where run: "preserve_conflict_losers sample_env (\<lambda>_ _ _. ?fs) [?c] ?w = (res, w')"
    by (cases "preserve_conflict_losers sample_env (\<lambda>_ _ _. ?fs) [?c] ?w")
  then have "\<exists>x. res = Inr x" "fmlookup (w_files w') ''a'' = None"
    using c safe h new sample_device
    by (auto simp: preserve_conflict_losers_def preserve_loser_def Let_def act_bind_run sample_safe_join rename_node_def
        on_db_run remove_file_row_def)
  moreover obtain f where "renamed_by f ?fs (w_files w')"
    using losers_only_renamed [OF run] free sample_device by auto
  ultimately show ?thesis using run by blast
qed

section \<open>Conflicts at apply time\<close>

text \<open>
  What \<open>conflict\<close> does to the files. When it fails nothing has changed; otherwise the row of the
  path is gone and its file, if there is one, has the name of the copy, in place of whatever file had
  that name. A copy of a copy gets a counter without a look at the disk, so a second conflict on a
  conflicted copy destroys the copy made by the first (the witness).
\<close>

lemma conflict_sets_aside:
  assumes "conflict E path w = (res, w')"
  shows "case res of
      Inl _ \<Rightarrow> w' = w
    | Inr _ \<Rightarrow> \<exists>name to. device_name (w_db w) = Inr name \<and> safe_join (copy_path E (w_now w) name path) = Inr to \<and>
        w_db w' = (w_db w)\<lparr>db_files := fmdrop path (db_files (w_db w))\<rparr> \<and> w_store w' = w_store w \<and>
        w_files w' = (case fmlookup (w_files w) path of
            None \<Rightarrow> w_files w | Some n \<Rightarrow> fmupd to n (fmdrop path (w_files w)))"
  using assms
  by (auto simp: conflict_def act_bind_run act_try_run rename_node_def on_db_run remove_file_row_def
      split: sum.splits option.splits)

lemma conflict_copy_destroyed:
  "let first = ''x (conflicted copy 3 from host)''; second = ''x (conflicted copy 3 from host) (2)'';
       fs = fmupd first sample_node (fmupd second (sample_node\<lparr>fn_bytes := [1, 2, 3]\<rparr>) fmempty);
       w = sample_world\<lparr>w_files := fs\<rparr>
   in \<exists>w'. conflict sample_env first w = (Inr (), w') \<and>
     (\<forall>q n. fmlookup (w_files w') q = Some n \<longrightarrow> fn_bytes n = fn_bytes sample_node)"
proof -
  let ?first = "''x (conflicted copy 3 from host)''" and ?second = "''x (conflicted copy 3 from host) (2)''"
  let ?w = "sample_world\<lparr>w_files := fmupd ?first sample_node (fmupd ?second (sample_node\<lparr>fn_bytes := [1, 2, 3]\<rparr>) fmempty)\<rparr>"
  have n: "device_name (w_db ?w) = Inr ''host''" by (simp add: sample_device)
  have sub: "sublist '' (conflicted copy '' ?first"
    using sublist_appendI [of "'' (conflicted copy ''" "''x''" "''3 from host)''"] by simp
  have c: "copy_path sample_env t d ?first = ?second" for t d
    by (simp add: copy_path_def replace_name_def rsplit_once_def conflict_name_def Let_def conflict_stem_def
        sub match_counter_def is_digit_def split_on_simple del: split_on_Cons)
  have s: "safe_join ?second = Inr ?second"
    by (rule safe_join_plain) (simp add: plain_part_def)
  obtain res w' where run: "conflict sample_env ?first ?w = (res, w')" by (cases "conflict sample_env ?first ?w")
  moreover from run n c s have "res = Inr ()"
    by (auto simp: conflict_def act_bind_run act_try_run on_db_run remove_file_row_def rename_node_def)
  ultimately show ?thesis
    using conflict_sets_aside [OF run] n c s by (auto split: if_splits)
qed

end
