(* ===== verification/Apply.thy ===== *)
theory Apply
  imports Conflicts
begin

text \<open>
  Carrying out a plan (\<open>apply/execute.rs\<close>): transfers first, then placeholders and deletions, with the
  baseline updates held back until the deltas they depend on are in the log.

  The transfers of a pass run concurrently, at most eight at a time, and their results are taken in
  the order they finish. They do not write the same objects, files or rows, so the model runs each
  one whole, right before its result is taken, in an order the context chooses (\<open>cx_order\<close>). When
  \<open>apply\<close> returns early the remaining tasks are dropped; the context chooses which of them had already
  run (\<open>cx_aborted\<close>).
\<close>

section \<open>Operations\<close>

datatype action_outcome = OUpload "upload_result option" | ODownload download_result | ORelocate upload_result

datatype baseline_op =
    OpConfirm string u64 int hash
  | OpHydrated string
  | OpPlaceholder stub_meta hash
  | OpRemove string

text \<open>What the loop of \<open>apply\<close> carries along.\<close>

record batch =
  ba_manifest :: manifest
  ba_deltas :: "delta_entry list"
  ba_ops :: "baseline_op list"
  ba_seq :: u32
  ba_pinned :: "string list"
  ba_failed :: "(string \<times> merror) list"

text \<open>A transfer: its action and the entry it reads, which was cloned when the task was spawned.\<close>

type_synonym job = "action_item \<times> delta_entry option"

record pass_ctx =
  cx_env :: env
  cx_seen :: "string \<Rightarrow> nat \<Rightarrow> nat \<Rightarrow> files"
  cx_prefix :: string
  cx_order :: "job list \<Rightarrow> job list"
  cx_aborted :: "job list \<Rightarrow> job list"

definition apply_op :: "env \<Rightarrow> baseline_op \<Rightarrow> unit act" where
  "apply_op E bop = (case bop of
      OpConfirm path sz mt h \<Rightarrow> at_now (\<lambda>now. on_db (confirm_sync now path sz mt h))
    | OpHydrated path \<Rightarrow> at_now (\<lambda>now. on_db (record_hydrated now path))
    | OpPlaceholder meta h \<Rightarrow> act_bind (stub_write E meta) (\<lambda>_.
        at_now (\<lambda>now. on_db (confirm_placeholder now (st_path meta) (st_size meta) h)))
    | OpRemove path \<Rightarrow> on_db (remove_file_row path))"

definition flush :: "pass_ctx \<Rightarrow> u64 \<Rightarrow> batch \<Rightarrow> batch act" where
  "flush C lamport b =
     act_bind (if ba_deltas b \<noteq> []
       then act_bind (log_delta (cx_env C) (cx_prefix C) (ba_deltas b) lamport (ba_seq b)) (\<lambda>_.
            act_ok (b\<lparr>ba_seq := ba_seq b + 1, ba_deltas := []\<rparr>))
       else act_ok b) (\<lambda>b1.
     act_bind (act_each (apply_op (cx_env C)) (ba_ops b1)) (\<lambda>_. act_ok (b1\<lparr>ba_ops := []\<rparr>)))"

definition manifest_entry :: "manifest \<Rightarrow> string \<Rightarrow> delta_entry mresult" where
  "manifest_entry m path = res_of (EStore path) (fmlookup m path)"

definition new_delta :: "manifest \<Rightarrow> string \<Rightarrow> upload_result \<Rightarrow> u64 \<Rightarrow> delta_entry act" where
  "new_delta m path r lamport =
     act_bind (act_get unix_timestamp) (\<lambda>mtime_utc.
     act_bind (query_db device_id) (\<lambda>device.
     act_ok \<lparr>d_path = path, d_object_key = ur_object_key r, d_plaintext_hash = ur_content_hash r,
       d_size = ur_size r, d_mtime_utc = mtime_utc, d_deleted = False, d_deleted_at = 0, d_lamport = lamport,
       d_device_id = device, d_base_hash = map_option d_plaintext_hash (fmlookup m path)\<rparr>))"

definition HEADROOM :: u64 where
  "HEADROOM = 16 * 1024 * 1024"

definition sat_add :: "u64 \<Rightarrow> u64 \<Rightarrow> u64" where
  "sat_add a b = (if unat a + unat b < 2 ^ 64 then a + b else - 1)"

definition hydrate :: "env \<Rightarrow> string \<Rightarrow> delta_entry \<Rightarrow> string \<Rightarrow> download_result act" where
  "hydrate E pre entry path =
     act_bind (act_get (\<lambda>w. e_available E (w_files w))) (\<lambda>available.
     if available < sat_add (d_size entry) HEADROOM then act_err (ENoSpace path)
     else act_bind (download E pre entry) (\<lambda>r.
          act_bind (stub_remove path) (\<lambda>_. act_ok r)))"

text \<open>The source of the second upload is the temporary file with the fetched content.\<close>

definition relocate :: "env \<Rightarrow> string \<Rightarrow> delta_entry \<Rightarrow> string \<Rightarrow> upload_result act" where
  "relocate E pre source to =
     act_bind (fetch_verified E pre source) (\<lambda>tmp.
     upload_file E (\<lambda>_. Some tmp) to to (d_size source, 0, d_plaintext_hash source) pre False)"

section \<open>Transfers\<close>

definition job_of :: "plan \<Rightarrow> manifest \<Rightarrow> action_item \<Rightarrow> job option mresult" where
  "job_of p m a =
     (if a_kind a = Download \<or> a_kind a = Hydrate
      then res_bind (manifest_entry m (a_path a)) (\<lambda>e. Inr (Some (a, Some e)))
      else if a_kind a = Relocate
      then res_bind (res_of (EStore (a_path a)) (fmlookup (pl_relocations p) (a_path a))) (\<lambda>e. Inr (Some (a, Some e)))
      else if a_kind a = Upload then Inr (Some (a, None))
      else Inr None)"

definition run_job :: "pass_ctx \<Rightarrow> job \<Rightarrow> action_outcome act" where
  "run_job C j = (case j of (a, entry) \<Rightarrow>
     let E = cx_env C; pre = cx_prefix C; path = a_path a in
     (case (a_kind a, entry) of
        (Hydrate, Some e) \<Rightarrow> act_bind (hydrate E pre e path) (\<lambda>r. act_ok (ODownload r))
      | (Relocate, Some e) \<Rightarrow> act_bind (relocate E pre e path) (\<lambda>r. act_ok (ORelocate r))
      | (_, Some e) \<Rightarrow> act_bind (download E pre e) (\<lambda>r. act_ok (ODownload r))
      | (_, None) \<Rightarrow> act_bind (upload E (cx_seen C path) pre path) (\<lambda>r. act_ok (OUpload r))))"

text \<open>Early return: the tasks that had run leave their effects, their results are dropped.\<close>

definition abandon :: "pass_ctx \<Rightarrow> job list \<Rightarrow> merror \<Rightarrow> 'a act" where
  "abandon C js e = (\<lambda>w. (Inl e, fold (\<lambda>j v. snd (run_job C j v)) (cx_aborted C js) w))"

definition act_or_abandon :: "pass_ctx \<Rightarrow> job list \<Rightarrow> 'a act \<Rightarrow> 'a act" where
  "act_or_abandon C js m = act_bind (act_try m) (\<lambda>r. case r of Inl e \<Rightarrow> abandon C js e | Inr x \<Rightarrow> act_ok x)"

text \<open>The first loop of \<open>apply\<close>, which spawns the tasks.\<close>

fun spawn_jobs :: "pass_ctx \<Rightarrow> plan \<Rightarrow> manifest \<Rightarrow> job list \<Rightarrow> action_item list \<Rightarrow> job list act" where
  "spawn_jobs C p m js [] = act_ok js"
| "spawn_jobs C p m js (a # as) = act_bind (act_or_abandon C js (act_res (job_of p m a))) (\<lambda>j.
     spawn_jobs C p m (case j of None \<Rightarrow> js | Some j \<Rightarrow> js @ [j]) as)"

section \<open>Results\<close>

definition FLUSH_BATCH :: nat where
  "FLUSH_BATCH = 25"

definition flush_full :: "pass_ctx \<Rightarrow> u64 \<Rightarrow> batch \<Rightarrow> batch act" where
  "flush_full C lamport b = (if FLUSH_BATCH \<le> length (ba_ops b) then flush C lamport b else act_ok b)"

definition add_synced :: "string \<Rightarrow> delta_entry \<Rightarrow> baseline_op \<Rightarrow> batch \<Rightarrow> batch" where
  "add_synced path entry bop b = b\<lparr>ba_manifest := fmupd path entry (ba_manifest b),
     ba_deltas := ba_deltas b @ [entry], ba_ops := ba_ops b @ [bop]\<rparr>"

definition take_result :: "plan \<Rightarrow> u64 \<Rightarrow> action_item \<Rightarrow> merror + action_outcome \<Rightarrow> batch \<Rightarrow> batch act" where
  "take_result p lamport a result b = (let path = a_path a in case result of
      Inl e \<Rightarrow> act_ok (b\<lparr>ba_failed := ba_failed b @ [(path, e)],
        ba_pinned := ba_pinned b @ (case fmlookup (pl_relocations p) path of None \<Rightarrow> [] | Some s \<Rightarrow> [d_path s])\<rparr>)
    | Inr (OUpload None) \<Rightarrow> act_ok b
    | Inr (OUpload (Some r)) \<Rightarrow>
        act_bind (new_delta (ba_manifest b) path r lamport) (\<lambda>entry.
        act_ok (add_synced path entry (OpConfirm path (ur_size r) (ur_mtime_ns r) (ur_content_hash r)) b))
    | Inr (ORelocate r) \<Rightarrow>
        act_bind (new_delta (ba_manifest b) path r lamport) (\<lambda>entry.
        act_bind (act_get unix_timestamp) (\<lambda>now.
        act_ok (add_synced path entry (OpPlaceholder (with_mtime_ns (ur_mtime_ns r)
          (stub_new path (ur_size r) (ur_content_hash r) (ur_object_key r) now)) (ur_content_hash r)) b)))
    | Inr (ODownload r) \<Rightarrow>
        act_ok (b\<lparr>ba_ops := ba_ops b @ OpConfirm path (dr_size r) (dr_mtime_ns r) (dr_content_hash r) #
          (if a_kind a = Hydrate then [OpHydrated path] else [])\<rparr>))"

fun join_jobs :: "pass_ctx \<Rightarrow> plan \<Rightarrow> u64 \<Rightarrow> job list \<Rightarrow> batch \<Rightarrow> batch act" where
  "join_jobs C p lamport [] b = act_ok b"
| "join_jobs C p lamport (j # js) b =
     act_bind (act_try (run_job C j)) (\<lambda>result.
     act_bind (act_or_abandon C js (act_bind (take_result p lamport (fst j) result b) (flush_full C lamport))) (\<lambda>b1.
     join_jobs C p lamport js b1))"

section \<open>Placeholders and deletions\<close>

text \<open>\<open>i64::try_from\<close>, \<open>checked_mul\<close> and the filter on positive times.\<close>

definition entry_mtime_ns :: "delta_entry \<Rightarrow> int option" where
  "entry_mtime_ns e = (let ns = uint (d_mtime_utc e) * 10 ^ 9 in
     if uint (d_mtime_utc e) \<le> i64_max \<and> ns \<le> i64_max \<and> 0 < ns then Some ns else None)"

definition tombstone :: "string \<Rightarrow> delta_entry \<Rightarrow> u64 \<Rightarrow> u64 \<Rightarrow> string \<Rightarrow> delta_entry" where
  "tombstone path e now lamport device =
     \<lparr>d_path = path, d_object_key = d_object_key e, d_plaintext_hash = d_plaintext_hash e, d_size = d_size e,
      d_mtime_utc = d_mtime_utc e, d_deleted = True, d_deleted_at = now, d_lamport = lamport,
      d_device_id = device, d_base_hash = Some (d_plaintext_hash e)\<rparr>"

definition local_step :: "pass_ctx \<Rightarrow> u64 \<Rightarrow> action_item \<Rightarrow> batch \<Rightarrow> batch act" where
  "local_step C lamport a b = (let path = a_path a in case a_kind a of
      DeleteLocal \<Rightarrow> act_bind (delete_local path) (\<lambda>_. act_ok (b\<lparr>ba_ops := ba_ops b @ [OpRemove path]\<rparr>))
    | DeleteRemote \<Rightarrow>
        if path \<in> set (ba_pinned b) then act_ok b
        else act_bind (case fmlookup (ba_manifest b) path of
               None \<Rightarrow> act_ok b
             | Some e \<Rightarrow> act_bind (act_get unix_timestamp) (\<lambda>now. act_bind (query_db device_id) (\<lambda>device.
                 act_ok (b\<lparr>ba_deltas := ba_deltas b @ [tombstone path e now lamport device]\<rparr>)))) (\<lambda>b1.
             act_ok (b1\<lparr>ba_manifest := fmdrop path (ba_manifest b1), ba_ops := ba_ops b1 @ [OpRemove path]\<rparr>))
    | Conflict \<Rightarrow> act_bind (conflict (cx_env C) path) (\<lambda>_. act_ok b)
    | k \<Rightarrow> if k = CreatePlaceholder \<or> k = UpdatePlaceholder then
             if path \<in> set (ba_pinned b) then act_ok b
             else act_bind (act_res (manifest_entry (ba_manifest b) path)) (\<lambda>e.
                  act_bind (act_get unix_timestamp) (\<lambda>now.
                  (let meta = stub_new path (d_size e) (d_plaintext_hash e) (d_object_key e) now;
                       meta = (case entry_mtime_ns e of None \<Rightarrow> meta | Some ns \<Rightarrow> with_mtime_ns ns meta)
                   in act_ok (b\<lparr>ba_ops := ba_ops b @ [OpPlaceholder meta (d_plaintext_hash e)]\<rparr>))))
           else act_ok b)"

text \<open>The code does not flush after a pinned action; the batch is below the limit then, so \<open>flush_full\<close> does nothing.\<close>

definition local_actions :: "pass_ctx \<Rightarrow> u64 \<Rightarrow> action_item list \<Rightarrow> batch \<Rightarrow> batch act" where
  "local_actions C lamport as b = act_fold (\<lambda>a b. act_bind (local_step C lamport a b) (flush_full C lamport)) as b"

text \<open>The failed transfers are sorted by path.\<close>

definition apply_plan :: "pass_ctx \<Rightarrow> plan \<Rightarrow> manifest \<Rightarrow> u64 \<Rightarrow>
    ((string \<times> merror) list \<times> manifest) act" where
  "apply_plan C p m remote_lamport =
     act_bind (query_db get_latest_lamport) (\<lambda>local_lamport.
     (let lamport = max remote_lamport local_lamport + 1 in
     act_bind (spawn_jobs C p m [] (pl_actions p)) (\<lambda>js.
     act_bind (join_jobs C p lamport (cx_order C js)
       \<lparr>ba_manifest = m, ba_deltas = [], ba_ops = [], ba_seq = 0, ba_pinned = [], ba_failed = []\<rparr>) (\<lambda>b1.
     act_bind (local_actions C lamport (pl_actions p) b1) (\<lambda>b2.
     act_bind (flush C lamport b2) (\<lambda>b3.
     act_bind (\<lambda>w. on_db (record_lamport (e_uuid (cx_env C) (w_random w)) lamport) w) (\<lambda>_.
     act_ok (sort_key fst (ba_failed b3), ba_manifest b3))))))))"


section \<open>What transfers leave alone\<close>

text \<open>Transfers write objects under \<open>data/\<close>, files and upload records; never the log or the baseline.\<close>

definition job_frame :: "string \<Rightarrow> world \<Rightarrow> world \<Rightarrow> bool" where
  "job_frame pre w v \<longleftrightarrow> db_files (w_db v) = db_files (w_db w) \<and> db_device (w_db v) = db_device (w_db w) \<and>
     w_now v = w_now w \<and> (\<forall>k. \<not> prefix (pre @ DATA_PREFIX) k \<longrightarrow>
       fmlookup (ms_entries (w_store v)) k = fmlookup (ms_entries (w_store w)) k)"

lemma job_frame_refl [simp]: "job_frame pre w w"
  by (simp add: job_frame_def)

lemma job_frame_trans: "job_frame pre u v \<Longrightarrow> job_frame pre v w \<Longrightarrow> job_frame pre u w"
  by (auto simp: job_frame_def)

lemma job_frame_transfer: "transfer_keeps {k. prefix (pre @ DATA_PREFIX) k} w v \<Longrightarrow> job_frame pre w v"
  by (auto simp: transfer_keeps_def job_frame_def)

lemma job_frame_files [simp]: "job_frame pre w (v\<lparr>w_files := fs\<rparr>) = job_frame pre w v"
  by (simp add: job_frame_def)

lemma job_frame_upload: "upload_file E src source path stats pre track w = (r, v) \<Longrightarrow> job_frame pre w v"
  by (rule job_frame_transfer, rule act_keepsD [OF keeps_upload_file])
    (auto simp: object_key_def)

lemma job_frame_fetch: "fetch_verified E pre e w = (r, v) \<Longrightarrow> job_frame pre w v"
  using fetch_verified_frame [of E pre e w] by (auto simp: job_frame_def)

lemma job_frame_download: "download E pre e w = (r, v) \<Longrightarrow> job_frame pre w v"
  using download_run [of E pre e w r v]
  by (cases "fst (fetch_verified E pre e w)"; cases "safe_join (d_path e)") (auto simp: job_frame_def)

lemma job_frame_remove: "stub_remove path w = (r, v) \<Longrightarrow> job_frame pre w v"
  by (auto simp: stub_remove_def act_bind_run remove_node_def split: sum.splits)

lemma job_frame_run:
  assumes "run_job C j w = (r, v)"
  shows "job_frame (cx_prefix C) w v"
proof -
  obtain a e where j: "j = (a, e)" by (cases j)
  have d: "job_frame (cx_prefix C) w v'" if "download (cx_env C) (cx_prefix C) x w = (q, v')" for x q v'
    using that by (rule job_frame_download)
  have h: "job_frame (cx_prefix C) w v'" if "hydrate (cx_env C) (cx_prefix C) x p w = (q, v')" for x p q v'
    using that by (auto simp: hydrate_def act_bind_run dest: job_frame_download job_frame_remove
        intro: job_frame_trans split: if_splits sum.splits prod.splits)
  have l: "job_frame (cx_prefix C) w v'" if "relocate (cx_env C) (cx_prefix C) x p w = (q, v')" for x p q v'
    using that by (auto simp: relocate_def act_bind_run dest: job_frame_fetch job_frame_upload
        intro: job_frame_trans split: sum.splits prod.splits)
  have u: "job_frame (cx_prefix C) w v'" if "upload (cx_env C) s (cx_prefix C) p w = (q, v')" for s p q v'
    using that by (auto simp: upload_def act_bind_run dest: job_frame_upload split: sum.splits prod.splits option.splits)
  show ?thesis
    using assms unfolding j run_job_def Let_def
    by (auto simp: act_bind_run dest: d h l u split: action_kind.splits option.splits sum.splits prod.splits)
qed

lemma job_frame_abandon: "abandon C js e w = (r, v) \<Longrightarrow> job_frame (cx_prefix C) w v"
proof -
  have "job_frame (cx_prefix C) w (fold (\<lambda>j v. snd (run_job C j v)) js w)" for js w
  proof (induction js arbitrary: w)
    case (Cons j js)
    have "job_frame (cx_prefix C) w (snd (run_job C j w))" using job_frame_run [of C j w] by (metis surj_pair snd_conv)
    with Cons show ?case by (auto intro: job_frame_trans)
  qed simp
  then show "abandon C js e w = (r, v) \<Longrightarrow> job_frame (cx_prefix C) w v" by (auto simp: abandon_def)
qed


section \<open>The baseline and the log\<close>

lemma delta_key_seq: "delta_key pre l d s = delta_key pre l d t \<Longrightarrow> s = t"
proof -
  assume "delta_key pre l d s = delta_key pre l d t"
  then have "dec_pad 4 (unat s) = dec_pad 4 (unat t)" by (simp add: delta_key_def)
  from arg_cong [OF this, of dec_val] show "s = t" by (simp add: word_unat_eq_iff)
qed

lemma delta_key_not_data: "\<not> prefix (pre @ DATA_PREFIX) (delta_key pre l d s)"
  by (simp add: delta_key_def log_prefix_def DATA_PREFIX_def)

text \<open>The pass a statement is about: its context, clock, device, plan, and what it started from.\<close>

record pass =
  gh_ctx :: pass_ctx
  gh_lamport :: u64
  gh_device :: string
  gh_plan :: plan
  gh_manifest :: manifest
  gh_world :: world

text \<open>The pass has logged the delta with one of its first \<open>n\<close> flushes.\<close>

definition logged :: "pass \<Rightarrow> nat \<Rightarrow> world \<Rightarrow> delta_entry \<Rightarrow> bool" where
  "logged G n w d \<longleftrightarrow> (\<exists>i<n. \<exists>ob ds.
     fmlookup (ms_entries (w_store w)) (delta_key (cx_prefix (gh_ctx G)) (gh_lamport G) (gh_device G) (of_nat i)) = Some ob \<and>
     e_delta_parse (cx_env (gh_ctx G)) (obj_bytes ob) = Some ds \<and> d \<in> set ds)"

definition recorded :: "pass \<Rightarrow> nat \<Rightarrow> delta_entry list \<Rightarrow> world \<Rightarrow> delta_entry \<Rightarrow> bool" where
  "recorded G n ds w d \<longleftrightarrow> d \<in> set ds \<or> logged G n w d"

text \<open>The remote side knows the content \<open>h\<close> of the path.\<close>

definition known :: "pass \<Rightarrow> nat \<Rightarrow> delta_entry list \<Rightarrow> world \<Rightarrow> string \<Rightarrow> hash \<Rightarrow> bool" where
  "known G n ds w p h \<longleftrightarrow> (\<exists>e. fmlookup (gh_manifest G) p = Some e \<and> d_plaintext_hash e = h) \<or>
     (\<exists>d. recorded G n ds w d \<and> d_path d = p \<and> \<not> d_deleted d \<and> d_plaintext_hash d = h)"

text \<open>The plan accounts for the removal of the row, and a remote deletion is recorded.\<close>

definition gone_ok :: "pass \<Rightarrow> nat \<Rightarrow> delta_entry list \<Rightarrow> world \<Rightarrow> string \<Rightarrow> bool" where
  "gone_ok G n ds w p \<longleftrightarrow> (\<exists>a\<in>set (pl_actions (gh_plan G)). a_path a = p \<and>
     (a_kind a = DeleteLocal \<or> a_kind a = Conflict \<or>
      (a_kind a = DeleteRemote \<and> (fmlookup (gh_manifest G) p = None \<or>
        (\<exists>d. recorded G n ds w d \<and> d_path d = p \<and> d_deleted d)))))"

definition row_synced :: "state_db \<Rightarrow> string \<Rightarrow> hash option option" where
  "row_synced db p = map_option row_last_synced_hash (fmlookup (db_files db) p)"

definition rows_ok :: "pass \<Rightarrow> nat \<Rightarrow> world \<Rightarrow> bool" where
  "rows_ok G n w \<longleftrightarrow>
     (\<forall>p h. row_synced (w_db w) p = Some (Some h) \<longrightarrow>
        row_synced (w_db (gh_world G)) p = Some (Some h) \<or> known G n [] w p h) \<and>
     (\<forall>p. row_synced (w_db (gh_world G)) p \<noteq> None \<and> row_synced (w_db w) p = None \<longrightarrow> gone_ok G n [] w p)"

definition op_ok :: "pass \<Rightarrow> nat \<Rightarrow> delta_entry list \<Rightarrow> world \<Rightarrow> baseline_op \<Rightarrow> bool" where
  "op_ok G n ds w bop = (case bop of
      OpConfirm p sz mt h \<Rightarrow> known G n ds w p h
    | OpPlaceholder meta h \<Rightarrow> known G n ds w (st_path meta) h
    | OpHydrated p \<Rightarrow> True
    | OpRemove p \<Rightarrow> gone_ok G n ds w p)"

definition batch_ok :: "pass \<Rightarrow> batch \<Rightarrow> world \<Rightarrow> bool" where
  "batch_ok G b w \<longleftrightarrow> rows_ok G (unat (ba_seq b)) w \<and> device_id (w_db w) = Inr (gh_device G) \<and>
     (\<forall>p e. fmlookup (ba_manifest b) p = Some e \<longrightarrow> fmlookup (gh_manifest G) p = Some e \<or>
        (recorded G (unat (ba_seq b)) (ba_deltas b) w e \<and> d_path e = p \<and> \<not> d_deleted e)) \<and>
     (\<forall>p. fmlookup (gh_manifest G) p \<noteq> None \<and> fmlookup (ba_manifest b) p = None \<longrightarrow>
        (\<exists>d. recorded G (unat (ba_seq b)) (ba_deltas b) w d \<and> d_path d = p \<and> d_deleted d)) \<and>
     (\<forall>bop\<in>set (ba_ops b). op_ok G (unat (ba_seq b)) (ba_deltas b) w bop)"

text \<open>These notions only depend on the log, the baseline and the device.\<close>

definition same_log :: "pass \<Rightarrow> nat \<Rightarrow> world \<Rightarrow> world \<Rightarrow> bool" where
  "same_log G n w v \<longleftrightarrow> (\<forall>i<n. fmlookup (ms_entries (w_store v))
       (delta_key (cx_prefix (gh_ctx G)) (gh_lamport G) (gh_device G) (of_nat i)) =
     fmlookup (ms_entries (w_store w))
       (delta_key (cx_prefix (gh_ctx G)) (gh_lamport G) (gh_device G) (of_nat i)))"

lemma same_log_frame: "job_frame (cx_prefix (gh_ctx G)) w v \<Longrightarrow> same_log G n w v"
  by (simp add: same_log_def job_frame_def delta_key_not_data)

lemma logged_same: "same_log G n w v \<Longrightarrow> logged G n v d = logged G n w d"
  unfolding same_log_def logged_def by (intro ex_cong1) auto

lemma recorded_same: "same_log G n w v \<Longrightarrow> recorded G n ds v d = recorded G n ds w d"
  by (simp add: recorded_def logged_same)

lemma known_same: "same_log G n w v \<Longrightarrow> known G n ds v p h = known G n ds w p h"
  by (simp add: known_def recorded_same)

lemma gone_same: "same_log G n w v \<Longrightarrow> gone_ok G n ds v p = gone_ok G n ds w p"
  by (simp add: gone_ok_def recorded_same)

lemma op_same: "same_log G n w v \<Longrightarrow> op_ok G n ds v bop = op_ok G n ds w bop"
  by (simp add: op_ok_def known_same gone_same split: baseline_op.splits)

lemmas same_log_simps = recorded_same known_same gone_same op_same

lemma rows_same: "same_log G n w v \<Longrightarrow> db_files (w_db v) = db_files (w_db w) \<Longrightarrow> rows_ok G n v = rows_ok G n w"
  by (simp add: rows_ok_def row_synced_def known_same gone_same)

lemma batch_frame:
  assumes "job_frame (cx_prefix (gh_ctx G)) w v" and "batch_ok G b w"
  shows "batch_ok G b v"
proof -
  have s: "same_log G (unat (ba_seq b)) w v" using assms(1) by (rule same_log_frame)
  have "device_id (w_db v) = device_id (w_db w)" "db_files (w_db v) = db_files (w_db w)"
    using assms(1) by (simp_all add: job_frame_def device_id_def)
  with assms(2) show ?thesis
    unfolding batch_ok_def
    by (simp add: rows_same [OF s] recorded_same [OF s] ext [OF op_same [OF s]])
qed

lemma rows_frame: "job_frame (cx_prefix (gh_ctx G)) w v \<Longrightarrow> rows_ok G n w \<Longrightarrow> rows_ok G n v"
  using rows_same [OF same_log_frame, of G w v n] by (simp add: job_frame_def)

text \<open>What has been recorded once stays recorded: all notions are monotone in it.\<close>

definition recorded_more :: "pass \<Rightarrow> nat \<Rightarrow> delta_entry list \<Rightarrow> world \<Rightarrow> nat \<Rightarrow> delta_entry list \<Rightarrow> world \<Rightarrow> bool" where
  "recorded_more G n ds w m es v \<longleftrightarrow> (\<forall>d. recorded G n ds w d \<longrightarrow> recorded G m es v d)"

lemma logged_le: "n \<le> m \<Longrightarrow> logged G n w d \<Longrightarrow> logged G m w d"
  unfolding logged_def by (meson order_less_le_trans)

lemma recorded_moreI: "set ds \<subseteq> set es \<Longrightarrow> n \<le> m \<Longrightarrow> same_log G m w v \<Longrightarrow> recorded_more G n ds w m es v"
  using logged_same [of G m w v] logged_le [of n m G w] unfolding recorded_more_def recorded_def by blast

lemma known_mono: "recorded_more G n ds w m es v \<Longrightarrow> known G n ds w p h \<Longrightarrow> known G m es v p h"
  unfolding known_def recorded_more_def by blast

lemma gone_mono: "recorded_more G n ds w m es v \<Longrightarrow> gone_ok G n ds w p \<Longrightarrow> gone_ok G m es v p"
  unfolding gone_ok_def recorded_more_def by blast

lemma op_mono: "recorded_more G n ds w m es v \<Longrightarrow> op_ok G n ds w bop \<Longrightarrow> op_ok G m es v bop"
  by (auto simp: op_ok_def intro: known_mono gone_mono split: baseline_op.splits)

lemma rows_mono: "recorded_more G n [] w m [] v \<Longrightarrow> db_files (w_db v) = db_files (w_db w) \<Longrightarrow> rows_ok G n w \<Longrightarrow> rows_ok G m v"
  using known_mono gone_mono unfolding rows_ok_def row_synced_def by metis

section \<open>A batch is flushed\<close>

lemma apply_op_run:
  assumes "apply_op E bop w = (r, v)"
  shows "w_store v = w_store w \<and> db_device (w_db v) = db_device (w_db w) \<and> w_now v = w_now w"
  using assms
  by (auto simp: apply_op_def at_now_run on_db_run confirm_sync_def record_hydrated_def confirm_placeholder_def
      update_file_def remove_file_row_def act_bind_run stub_write_def write_node_def
      split: baseline_op.splits sum.splits option.splits)

definition op_path :: "baseline_op \<Rightarrow> string" where
  "op_path bop = (case bop of
     OpConfirm p _ _ _ \<Rightarrow> p | OpHydrated p \<Rightarrow> p | OpPlaceholder m _ \<Rightarrow> st_path m | OpRemove p \<Rightarrow> p)"

lemma apply_op_rows:
  assumes "apply_op E bop w = (r, v)"
  shows "p \<noteq> op_path bop \<Longrightarrow> fmlookup (db_files (w_db v)) p = fmlookup (db_files (w_db w)) p"
    and "row_synced (w_db v) (op_path bop) = row_synced (w_db w) (op_path bop) \<or> (case bop of
       OpConfirm p sz mt h \<Rightarrow> row_synced (w_db v) p = Some (Some h)
     | OpHydrated p \<Rightarrow> False
     | OpPlaceholder m h \<Rightarrow> row_synced (w_db v) (st_path m) = Some (Some h)
     | OpRemove p \<Rightarrow> row_synced (w_db v) p = None)"
  using assms
  by (auto simp: apply_op_def op_path_def row_synced_def at_now_run on_db_run confirm_sync_def record_hydrated_def
      confirm_placeholder_def update_file_def remove_file_row_def act_bind_run stub_write_def write_node_def
      split: baseline_op.splits sum.splits option.splits)

lemma rows_op:
  assumes "apply_op E bop w = (r, v)" and "rows_ok G n w" and "op_ok G n [] w bop"
  shows "rows_ok G n v \<and> same_log G n w v"
proof -
  have s: "same_log G n w v" using apply_op_run [OF assms(1)] by (simp add: same_log_def)
  have other: "row_synced (w_db v) p = row_synced (w_db w) p" if "p \<noteq> op_path bop" for p
    using apply_op_rows(1) [OF assms(1) that] by (simp add: row_synced_def)
  have syn: "row_synced (w_db w) p = Some (Some h) \<or> known G n [] w p h" if "row_synced (w_db v) p = Some (Some h)" for p h
    using apply_op_rows(2) [OF assms(1)] assms(3) other [of p] that
    by (cases "p = op_path bop"; cases bop) (auto simp: op_ok_def op_path_def)
  have gone: "row_synced (w_db w) p = None \<or> gone_ok G n [] w p" if "row_synced (w_db v) p = None" for p
    using apply_op_rows(2) [OF assms(1)] assms(3) other [of p] that
    by (cases "p = op_path bop"; cases bop) (auto simp: op_ok_def op_path_def)
  show ?thesis
    using assms(2) s syn gone unfolding rows_ok_def by (simp add: same_log_simps) blast
qed


lemma rows_ops:
  assumes "act_each (apply_op E) bops w = (r, v)" and "rows_ok G n w" and "\<forall>bop\<in>set bops. op_ok G n [] w bop"
  shows "rows_ok G n v \<and> same_log G n w v \<and> db_device (w_db v) = db_device (w_db w)"
  using assms
proof (induction bops arbitrary: w)
  case Nil
  then show ?case by (auto simp: same_log_def)
next
  case (Cons bop bops)
  obtain r1 v1 where s: "apply_op E bop w = (r1, v1)" by (cases "apply_op E bop w")
  have d: "db_device (w_db v1) = db_device (w_db w)" using apply_op_run [OF s] by simp
  have r1: "rows_ok G n v1" "same_log G n w v1" using rows_op [OF s] Cons.prems(2,3) by auto
  have ops: "\<forall>bop\<in>set bops. op_ok G n [] v1 bop" using Cons.prems(3) r1(2) by (simp add: op_same)
  show ?case
  proof (cases r1)
    case (Inl e)
    with Cons.prems(1) s have "v = v1" by (simp add: act_bind_run)
    with r1 d show ?thesis by simp
  next
    case (Inr u)
    with Cons.prems(1) s have "act_each (apply_op E) bops v1 = (r, v)" by (simp add: act_bind_run)
    from Cons.IH [OF this r1(1) ops] r1(2) d show ?thesis by (auto simp: same_log_def)
  qed
qed

lemma log_delta_records:
  assumes "log_delta (cx_env (gh_ctx G)) (cx_prefix (gh_ctx G)) ds (gh_lamport G) s w = (r, v)"
    and "device_id (w_db w) = Inr (gh_device G)" and "delta_codec_ok (cx_env (gh_ctx G))" and "unat s + 1 < 2 ^ 32"
  shows "w_db v = w_db w \<and> w_files v = w_files w \<and> (case r of
      Inl _ \<Rightarrow> v = w
    | Inr _ \<Rightarrow> recorded_more G (unat s) ds w (unat (s + 1)) [] v)"
proof -
  let ?k = "delta_key (cx_prefix (gh_ctx G)) (gh_lamport G) (gh_device G)"
  have run: "w_db v = w_db w \<and> w_files v = w_files w \<and> (case r of Inl _ \<Rightarrow> v = w
      | Inr _ \<Rightarrow> w_store v = mem_insert (w_now w) (?k s) (e_delta_json (cx_env (gh_ctx G)) ds) (w_store w))"
    using assms(1,2)
    by (auto simp: log_delta_def act_bind_run Let_def put_bytes_def on_store_run mem_put_bytes_def split: sum.splits)
  have u: "unat (s + 1) = unat s + 1" using assms(4) by (simp add: unat_add_lem [THEN iffD1])
  have "recorded_more G (unat s) ds w (unat (s + 1)) [] v"
    if "w_store v = mem_insert (w_now w) (?k s) (e_delta_json (cx_env (gh_ctx G)) ds) (w_store w)"
    unfolding recorded_more_def
  proof (intro allI impI)
    fix d
    assume "recorded G (unat s) ds w d"
    then consider "d \<in> set ds" | "logged G (unat s) w d" by (auto simp: recorded_def)
    then have "logged G (unat s + 1) v d"
    proof cases
      case 1
      with that assms(3) show ?thesis
        unfolding logged_def by (intro exI [of _ "unat s"]) (simp add: mem_insert_def delta_codec_ok_def)
    next
      case 2
      then obtain i ob xs where i: "i < unat s" "fmlookup (ms_entries (w_store w)) (?k (of_nat i)) = Some ob"
        "e_delta_parse (cx_env (gh_ctx G)) (obj_bytes ob) = Some xs" "d \<in> set xs" by (auto simp: logged_def)
      have "(of_nat i :: u32) \<noteq> s" 
        using i(1) assms(4) by (auto simp: word_unat_eq_iff unsigned_of_nat take_bit_nat_eq_self)
      then have "?k (of_nat i) \<noteq> ?k s" by (auto dest: delta_key_seq)
      with i that show ?thesis
        unfolding logged_def by (intro exI [of _ i]) (simp add: mem_insert_def)
    qed
    then show "recorded G (unat (s + 1)) [] v d" by (simp add: recorded_def u)
  qed
  with run show ?thesis by (auto split: sum.splits)
qed


lemma batch_mono:
  assumes "batch_ok G b w" and "recorded_more G (unat (ba_seq b)) (ba_deltas b) w (unat (ba_seq c)) (ba_deltas c) v"
    and "ba_manifest c = ba_manifest b" and "rows_ok G (unat (ba_seq c)) v" and "device_id (w_db v) = Inr (gh_device G)"
    and "\<forall>bop\<in>set (ba_ops c). op_ok G (unat (ba_seq c)) (ba_deltas c) v bop"
  shows "batch_ok G c v"
  unfolding batch_ok_def assms(3)
  using assms(1,2,4-6) unfolding batch_ok_def recorded_more_def by blast

lemma flush_ok:
  assumes "flush (gh_ctx G) (gh_lamport G) b w = (r, v)" and "batch_ok G b w"
    and "delta_codec_ok (cx_env (gh_ctx G))" and "unat (ba_seq b) + 1 < 2 ^ 32"
  shows "case r of
      Inl _ \<Rightarrow> \<exists>n. rows_ok G n v
    | Inr b' \<Rightarrow> batch_ok G b' v \<and> unat (ba_seq b') \<le> unat (ba_seq b) + 1 \<and> ba_ops b' = [] \<and> ba_deltas b' = []"
proof -
  let ?E = "cx_env (gh_ctx G)"
  define logging where "logging = (if ba_deltas b \<noteq> []
      then act_bind (log_delta ?E (cx_prefix (gh_ctx G)) (ba_deltas b) (gh_lamport G) (ba_seq b))
        (\<lambda>_. act_ok (b\<lparr>ba_seq := ba_seq b + 1, ba_deltas := []\<rparr>)) else act_ok b)"
  obtain r1 w1 where w1: "logging w = (r1, w1)" by (cases "logging w")
  have run: "(r, v) = (case r1 of Inl e \<Rightarrow> (Inl e, w1)
      | Inr b1 \<Rightarrow> act_bind (act_each (apply_op ?E) (ba_ops b1)) (\<lambda>_. act_ok (b1\<lparr>ba_ops := []\<rparr>)) w1)"
    using assms(1) w1 unfolding flush_def logging_def by (simp add: act_bind_run split: sum.splits)
  have seq: "unat (ba_seq b + 1) = unat (ba_seq b) + 1"
    using assms(4) by (simp add: unat_add_lem [THEN iffD1])
  have dev: "device_id (w_db w) = Inr (gh_device G)" using assms(2) by (simp add: batch_ok_def)
  have step: "case r1 of Inl _ \<Rightarrow> w1 = w
    | Inr b1 \<Rightarrow> w_db w1 = w_db w \<and> ba_deltas b1 = [] \<and> ba_ops b1 = ba_ops b \<and> ba_manifest b1 = ba_manifest b \<and>
        unat (ba_seq b1) \<le> unat (ba_seq b) + 1 \<and>
        recorded_more G (unat (ba_seq b)) (ba_deltas b) w (unat (ba_seq b1)) [] w1"
  proof (cases "ba_deltas b = []")
    case True
    with w1 show ?thesis by (auto simp: logging_def recorded_more_def)
  next
    case False
    obtain q u where l: "log_delta ?E (cx_prefix (gh_ctx G)) (ba_deltas b) (gh_lamport G) (ba_seq b) w = (q, u)"
      by (cases "log_delta ?E (cx_prefix (gh_ctx G)) (ba_deltas b) (gh_lamport G) (ba_seq b) w")
    from log_delta_records [OF l dev assms(3,4)] l w1 False seq show ?thesis
      by (auto simp: logging_def act_bind_run split: sum.splits)
  qed
  show ?thesis
  proof (cases r1)
    case (Inl e)
    with run step assms(2) show ?thesis by (auto simp: batch_ok_def)
  next
    case (Inr b1)
    with step have more: "recorded_more G (unat (ba_seq b)) (ba_deltas b) w (unat (ba_seq b1)) [] w1"
      and same: "w_db w1 = w_db w" "ba_deltas b1 = []" "ba_ops b1 = ba_ops b" "ba_manifest b1 = ba_manifest b"
        "unat (ba_seq b1) \<le> unat (ba_seq b) + 1" by auto
    have rows: "rows_ok G (unat (ba_seq b1)) w1"
    proof (rule rows_mono)
      show "recorded_more G (unat (ba_seq b)) [] w (unat (ba_seq b1)) [] w1"
        using more by (auto simp: recorded_more_def recorded_def)
    qed (use assms(2) same in \<open>simp_all add: batch_ok_def\<close>)
    have ops: "\<forall>bop\<in>set (ba_ops b1). op_ok G (unat (ba_seq b1)) [] w1 bop"
      using assms(2) op_mono [OF more] same(3) by (auto simp: batch_ok_def)
    obtain q u where a: "act_each (apply_op ?E) (ba_ops b1) w1 = (q, u)"
      by (cases "act_each (apply_op ?E) (ba_ops b1) w1")
    have after: "rows_ok G (unat (ba_seq b1)) u" "same_log G (unat (ba_seq b1)) w1 u"
      "device_id (w_db u) = Inr (gh_device G)"
      using rows_ops [OF a rows ops] dev same(1) by (simp_all add: device_id_def)
    have "recorded_more G (unat (ba_seq b1)) [] w1 (unat (ba_seq b1)) [] u"
      by (rule recorded_moreI) (simp_all add: after)
    then have "recorded_more G (unat (ba_seq b)) (ba_deltas b) w (unat (ba_seq b1)) [] u"
      using more by (auto simp: recorded_more_def)
    then have "batch_ok G (b1\<lparr>ba_ops := []\<rparr>) u"
      using after same(2,4) by (intro batch_mono [OF assms(2)]) simp_all
    with run a Inr after(1) same show ?thesis by (auto simp: act_bind_run split: sum.splits)
  qed
qed


text \<open>What a step of the pass guarantees: the invariant, or, when it fails, sound rows.\<close>

definition step_ok :: "pass \<Rightarrow> nat \<Rightarrow> merror + batch \<Rightarrow> world \<Rightarrow> bool" where
  "step_ok G n r v = (case r of
      Inl _ \<Rightarrow> \<exists>m. rows_ok G m v
    | Inr b \<Rightarrow> batch_ok G b v \<and> unat (ba_seq b) \<le> n)"

lemma flush_full_ok:
  assumes "flush_full (gh_ctx G) (gh_lamport G) b w = (r, v)" and "batch_ok G b w"
    and "delta_codec_ok (cx_env (gh_ctx G))" and "unat (ba_seq b) + 1 < 2 ^ 32"
  shows "step_ok G (unat (ba_seq b) + 1) r v"
proof (cases "FLUSH_BATCH \<le> length (ba_ops b)")
  case True
  with assms(1) have "flush (gh_ctx G) (gh_lamport G) b w = (r, v)" by (simp add: flush_full_def)
  from flush_ok [OF this assms(2-4)] show ?thesis by (auto simp: step_ok_def split: sum.splits)
next
  case False
  with assms(1,2) show ?thesis by (auto simp: flush_full_def step_ok_def)
qed

section \<open>The transfers of a pass\<close>

definition job_ok :: "pass \<Rightarrow> job \<Rightarrow> bool" where
  "job_ok G j = (case j of (a, e) \<Rightarrow>
     (case e of None \<Rightarrow> a_kind a = Upload
      | Some x \<Rightarrow> a_kind a = Relocate \<or>
          ((a_kind a = Download \<or> a_kind a = Hydrate) \<and> fmlookup (gh_manifest G) (a_path a) = Some x)))"

definition result_ok :: "pass \<Rightarrow> action_item \<Rightarrow> merror + action_outcome \<Rightarrow> bool" where
  "result_ok G a r \<longleftrightarrow> (\<forall>x. r = Inr (ODownload x) \<longrightarrow>
     (\<exists>e. fmlookup (gh_manifest G) (a_path a) = Some e \<and> d_plaintext_hash e = dr_content_hash x))"

lemma download_hash: "download E pre e w = (Inr x, v) \<Longrightarrow> dr_content_hash x = d_plaintext_hash e"
  using download_run [of E pre e w "Inr x" v]
  by (cases "fst (fetch_verified E pre e w)"; cases "safe_join (d_path e)") auto

lemma hydrate_download:
  "hydrate E pre e path w = (Inr x, v) \<Longrightarrow> \<exists>v1. download E pre e w = (Inr x, v1) \<and> stub_remove path v1 = (Inr (), v)"
  by (auto simp: hydrate_def act_bind_ok split: if_splits)

lemma run_job_result: "run_job C j w = (r, v) \<Longrightarrow> job_ok G j \<Longrightarrow> result_ok G (fst j) r"
  by (cases j) (auto simp: run_job_def job_ok_def result_ok_def Let_def act_bind_ok
      dest!: download_hash hydrate_download split: option.splits)

lemma job_of_ok: "job_of p (gh_manifest G) a = Inr (Some j) \<Longrightarrow> job_ok G j"
  by (auto simp: job_of_def job_ok_def manifest_entry_def res_bind_ok split: if_splits)

lemma act_or_abandon_cases:
  assumes "act_or_abandon C js m w = (r, v)"
  obtains x where "m w = (Inr x, v)" "r = Inr x" | e u where "m w = (Inl e, u)" "r = Inl e" "job_frame (cx_prefix C) u v"
proof (cases "m w")
  case (Pair q u)
  show ?thesis
  proof (cases q)
    case (Inl e)
    with Pair assms have ab: "abandon C js e u = (r, v)" by (simp add: act_or_abandon_def act_bind_run act_try_run)
    then have "r = Inl e" by (simp add: abandon_def)
    with that(2) Pair Inl job_frame_abandon [OF ab] show ?thesis by blast
  next
    case (Inr x)
    with Pair assms that(1) show ?thesis by (auto simp: act_or_abandon_def act_bind_run act_try_run)
  qed
qed

lemma spawn_jobs_ok:
  assumes "spawn_jobs C p (gh_manifest G) js as w = (r, v)" and "\<forall>j\<in>set js. job_ok G j"
  shows "job_frame (cx_prefix C) w v \<and>
    (\<forall>x. r = Inr x \<longrightarrow> (\<forall>j\<in>set x. job_ok G j) \<and> length x \<le> length js + length as \<and>
      fst ` set x \<subseteq> fst ` set js \<union> set as)"
  using assms
proof (induction as arbitrary: js w)
  case (Cons a as)
  obtain r1 v1 where s: "act_or_abandon C js (act_res (job_of p (gh_manifest G) a)) w = (r1, v1)"
    by (cases "act_or_abandon C js (act_res (job_of p (gh_manifest G) a)) w")
  from s show ?case
  proof (cases rule: act_or_abandon_cases)
    case (1 j)
    let ?js = "case j of None \<Rightarrow> js | Some j \<Rightarrow> js @ [j]"
    from 1 have v1: "v1 = w" "job_of p (gh_manifest G) a = Inr j" by auto
    have "fst j' = a" if "j = Some j'" for j'
      using v1(2) that by (auto simp: job_of_def res_bind_ok split: if_splits)
    moreover have ok: "\<forall>j\<in>set ?js. job_ok G j"
      using Cons.prems(2) v1(2) by (auto dest: job_of_ok split: option.splits)
    moreover have "spawn_jobs C p (gh_manifest G) ?js as w = (r, v)"
      using Cons.prems(1) s 1(2) v1(1) by (simp add: act_bind_run)
    from Cons.IH [OF this ok] have "job_frame (cx_prefix C) w v \<and>
      (\<forall>x. r = Inr x \<longrightarrow> (\<forall>j\<in>set x. job_ok G j) \<and> length x \<le> length ?js + length as \<and>
        fst ` set x \<subseteq> fst ` set ?js \<union> set as)" .
    ultimately show ?thesis by (auto split: option.splits)
  next
    case (2 e u)
    then have "u = w" by simp
    with 2 Cons.prems(1) s show ?thesis by (auto simp: act_bind_run)
  qed
qed auto


lemma recorded_same_world: "recorded_more G n ds w n es w" if "set ds \<subseteq> set es"
  using that by (auto simp: recorded_more_def recorded_def)

text \<open>Results that come with a delta: the entry is recorded, and its operation with it.\<close>

lemma add_synced_ok:
  assumes "batch_ok G b w" and "d_path entry = path" and "\<not> d_deleted entry"
    and "op_ok G (unat (ba_seq b)) (ba_deltas b @ [entry]) w bop"
  shows "batch_ok G (add_synced path entry bop b) w"
proof -
  have more: "recorded_more G (unat (ba_seq b)) (ba_deltas b) w (unat (ba_seq b)) (ba_deltas b @ [entry]) w"
    by (rule recorded_same_world) auto
  have new: "recorded G (unat (ba_seq b)) (ba_deltas b @ [entry]) w entry" by (simp add: recorded_def)
  have ops: "\<forall>x\<in>set (ba_ops b). op_ok G (unat (ba_seq b)) (ba_deltas b @ [entry]) w x"
    using assms(1) op_mono [OF more] by (auto simp: batch_ok_def)
  have m: "fmlookup (gh_manifest G) p = Some e \<or>
      (recorded G (unat (ba_seq b)) (ba_deltas b @ [entry]) w e \<and> d_path e = p \<and> \<not> d_deleted e)"
    if "fmlookup (fmupd path entry (ba_manifest b)) p = Some e" for p e
    using that assms(1-3) new more unfolding batch_ok_def recorded_more_def by (auto split: if_splits)
  have g: "\<exists>d. recorded G (unat (ba_seq b)) (ba_deltas b @ [entry]) w d \<and> d_path d = p \<and> d_deleted d"
    if "fmlookup (gh_manifest G) p \<noteq> None" "fmlookup (fmupd path entry (ba_manifest b)) p = None" for p
    using that assms(1) more unfolding batch_ok_def recorded_more_def by (metis fmupd_lookup option.distinct(1))
  show ?thesis
    using assms(1,4) ops m g unfolding batch_ok_def add_synced_def by simp
qed

lemma add_ops_ok:
  assumes "batch_ok G b w" and "\<forall>bop\<in>set xs. op_ok G (unat (ba_seq b)) (ba_deltas b) w bop"
  shows "batch_ok G (b\<lparr>ba_ops := ba_ops b @ xs\<rparr>) w"
  using assms unfolding batch_ok_def by auto

lemma known_entry: "d_path d = p \<Longrightarrow> \<not> d_deleted d \<Longrightarrow> d_plaintext_hash d = h \<Longrightarrow> known G n (ds @ [d]) w p h"
  by (auto simp: known_def recorded_def)

lemma take_result_ok:
  assumes "take_result p lamport a result b w = (r, v)" and "batch_ok G b w" and "result_ok G a result"
  shows "v = w \<and> step_ok G (unat (ba_seq b)) r w"
proof -
  have dev: "device_id (w_db w) = Inr (gh_device G)" and rows: "rows_ok G (unat (ba_seq b)) w"
    using assms(2) by (simp_all add: batch_ok_def)
  have stay: "batch_ok G (b\<lparr>ba_failed := f, ba_pinned := q\<rparr>) w" for f q
    using assms(2) by (simp add: batch_ok_def)
  show ?thesis
  proof (cases result)
    case (Inl e)
    with assms(1) stay show ?thesis by (auto simp: take_result_def Let_def step_ok_def)
  next
    case (Inr out)
    show ?thesis
    proof (cases out)
      case (OUpload u)
      with assms(1,2) Inr dev show ?thesis
        by (cases u) (auto simp: take_result_def Let_def new_delta_def act_bind_run step_ok_def op_ok_def add_synced_def [of _ _ _ "b"]
            intro!: known_entry add_synced_ok [unfolded add_synced_def])
    next
      case (ORelocate u)
      with assms(1,2) Inr dev show ?thesis
        by (auto simp: take_result_def Let_def new_delta_def act_bind_run step_ok_def op_ok_def with_mtime_ns_def
            stub_new_def add_synced_def intro!: known_entry add_synced_ok [unfolded add_synced_def])
    next
      case (ODownload u)
      with assms(3) Inr have "known G (unat (ba_seq b)) (ba_deltas b) w (a_path a) (dr_content_hash u)"
        by (auto simp: result_ok_def known_def)
      with assms(1,2) Inr ODownload show ?thesis
        by (auto simp: take_result_def Let_def step_ok_def op_ok_def intro!: add_ops_ok)
    qed
  qed
qed

lemma join_jobs_ok:
  assumes "join_jobs (gh_ctx G) p (gh_lamport G) js b w = (r, v)" and "batch_ok G b w" and "\<forall>j\<in>set js. job_ok G j"
    and "delta_codec_ok (cx_env (gh_ctx G))" and "unat (ba_seq b) + length js < 2 ^ 32"
  shows "step_ok G (unat (ba_seq b) + length js) r v"
  using assms
proof (induction js arbitrary: b w)
  case Nil
  then show ?case by (auto simp: step_ok_def)
next
  case (Cons j js)
  let ?C = "gh_ctx G" and ?l = "gh_lamport G"
  obtain q w1 where run: "run_job ?C j w = (q, w1)" by (cases "run_job ?C j w")
  have b1: "batch_ok G b w1" by (rule batch_frame [OF job_frame_run [OF run] Cons.prems(2)])
  have res: "result_ok G (fst j) q" using run_job_result [OF run] Cons.prems(3) by simp
  let ?m = "act_bind (take_result p ?l (fst j) q b) (flush_full ?C ?l)"
  obtain r2 w2 where s: "act_or_abandon ?C js ?m w1 = (r2, w2)" by (cases "act_or_abandon ?C js ?m w1")
  have m: "step_ok G (unat (ba_seq b) + 1) r' w'" if "?m w1 = (r', w')" for r' w'
  proof -
    obtain r3 w3 where t: "take_result p ?l (fst j) q b w1 = (r3, w3)" by (cases "take_result p ?l (fst j) q b w1")
    from take_result_ok [OF t b1 res] have w3: "w3 = w1" "step_ok G (unat (ba_seq b)) r3 w1" by auto
    show ?thesis
    proof (cases r3)
      case (Inl e)
      with that t w3 show ?thesis by (auto simp: act_bind_run step_ok_def)
    next
      case (Inr b3)
      with w3 have b3: "batch_ok G b3 w1" "unat (ba_seq b3) \<le> unat (ba_seq b)" by (auto simp: step_ok_def)
      have "flush_full ?C ?l b3 w1 = (r', w')" using that t w3 Inr by (simp add: act_bind_run)
      from flush_full_ok [OF this b3(1) Cons.prems(4)] b3(2) Cons.prems(5) show ?thesis
        by (auto simp: step_ok_def split: sum.splits)
    qed
  qed
  from s show ?case
  proof (cases rule: act_or_abandon_cases)
    case (1 b')
    from m [OF 1(1)] have b': "batch_ok G b' w2" "unat (ba_seq b') \<le> unat (ba_seq b) + 1" by (auto simp: step_ok_def)
    have "join_jobs ?C p ?l js b' w2 = (r, v)"
      using Cons.prems(1) run s 1(2) by (simp add: act_bind_run act_try_run)
    from Cons.IH [OF this b'(1) _ Cons.prems(4)] Cons.prems(3,5) b'(2) show ?thesis
      by (auto simp: step_ok_def split: sum.splits)
  next
    case (2 e u)
    from m [OF 2(1)] obtain n where "rows_ok G n u" by (auto simp: step_ok_def)
    with rows_frame [OF 2(3)] have "rows_ok G n w2" by blast
    moreover have "r = Inl e \<and> v = w2" using Cons.prems(1) run s 2(2) by (auto simp: act_bind_run act_try_run)
    ultimately show ?thesis by (auto simp: step_ok_def)
  qed
qed


section \<open>Placeholders, deletions and conflicts\<close>

lemma job_frame_delete: "delete_local path w = (r, v) \<Longrightarrow> job_frame pre w v"
  by (auto simp: delete_local_def act_bind_run remove_node_def dest!: job_frame_remove [where pre = pre]
      intro: job_frame_trans simp: job_frame_def)

lemma conflict_run:
  assumes "conflict E path w = (r, v)"
  shows "w_store v = w_store w \<and> db_device (w_db v) = db_device (w_db w) \<and>
    (case r of Inl _ \<Rightarrow> db_files (w_db v) = db_files (w_db w)
     | Inr _ \<Rightarrow> db_files (w_db v) = fmdrop path (db_files (w_db w)))"
  using assms
  by (auto simp: conflict_def act_bind_run act_try_run rename_node_def on_db_run remove_file_row_def
      split: sum.splits option.splits)

lemma rows_drop:
  assumes "rows_ok G n w" and "same_log G n w v" and "db_files (w_db v) = fmdrop path (db_files (w_db w))"
    and "gone_ok G n [] w path"
  shows "rows_ok G n v"
  using assms unfolding rows_ok_def by (auto simp: row_synced_def same_log_simps)

lemma local_step_ok:
  assumes "local_step (gh_ctx G) (gh_lamport G) a b w = (r, v)" and "batch_ok G b w"
    and "a \<in> set (pl_actions (gh_plan G))"
  shows "step_ok G (unat (ba_seq b)) r v"
proof -
  let ?C = "gh_ctx G" and ?path = "a_path a" and ?n = "unat (ba_seq b)"
  have dev: "device_id (w_db w) = Inr (gh_device G)" using assms(2) by (simp add: batch_ok_def)
  have stop: ?thesis if "r = Inl e" "job_frame (cx_prefix ?C) w v" for e
    using that assms(2) rows_frame [OF that(2)] by (auto simp: step_ok_def batch_ok_def)
  have same: ?thesis if "(r, v) = (Inr b, w)" using that assms(2) by (simp add: step_ok_def)
  have stub: ?thesis if k: "a_kind a = CreatePlaceholder \<or> a_kind a = UpdatePlaceholder"
  proof (cases "?path \<in> set (ba_pinned b) \<or> fmlookup (ba_manifest b) ?path = None")
    case True
    then have "(r, v) = (Inr b, w) \<or> (\<exists>e. r = Inl e \<and> v = w)"
      using assms(1) k by (auto simp: local_step_def Let_def act_bind_run manifest_entry_def split: if_splits)
    with same stop job_frame_refl show ?thesis by blast
  next
    case False
    then obtain e where e: "?path \<notin> set (ba_pinned b)" "fmlookup (ba_manifest b) ?path = Some e" by auto
    have "known G ?n (ba_deltas b) w ?path (d_plaintext_hash e)"
      using assms(2) e(2) unfolding batch_ok_def known_def by blast
    with assms(1,2) k e show ?thesis
      by (auto simp: local_step_def Let_def act_bind_run manifest_entry_def step_ok_def with_mtime_ns_def stub_new_def
          op_ok_def intro!: add_ops_ok split: option.splits)
  qed
  show ?thesis
  proof (cases "a_kind a")
    case DeleteLocal
    obtain q u where d: "delete_local ?path w = (q, u)" by (cases "delete_local ?path w")
    have fr: "job_frame (cx_prefix ?C) w u" using d by (rule job_frame_delete)
    show ?thesis
    proof (cases q)
      case (Inl e)
      with assms(1) d DeleteLocal fr show ?thesis by (intro stop [of e]) (auto simp: local_step_def Let_def act_bind_run)
    next
      case (Inr x)
      have "op_ok G ?n (ba_deltas b) u (OpRemove ?path)"
        using assms(3) DeleteLocal by (auto simp: op_ok_def gone_ok_def)
      with add_ops_ok [OF batch_frame [OF fr assms(2)], of "[OpRemove ?path]"] assms(1) d DeleteLocal Inr
      show ?thesis by (auto simp: local_step_def Let_def act_bind_run step_ok_def)
    qed
  next
    case DeleteRemote
    show ?thesis
    proof (cases "?path \<in> set (ba_pinned b)")
      case True
      with assms(1) DeleteRemote show ?thesis by (intro same) (simp add: local_step_def Let_def)
    next
      case False
      define ds where "ds = (case fmlookup (ba_manifest b) ?path of None \<Rightarrow> []
        | Some e \<Rightarrow> [tombstone ?path e (unix_timestamp w) (gh_lamport G) (gh_device G)])"
      let ?b = "b\<lparr>ba_deltas := ba_deltas b @ ds, ba_manifest := fmdrop ?path (ba_manifest b),
        ba_ops := ba_ops b @ [OpRemove ?path]\<rparr>"
      have run: "r = Inr ?b \<and> v = w"
        using assms(1) DeleteRemote False dev by (auto simp: local_step_def Let_def act_bind_run ds_def split: option.splits)
      have more: "recorded_more G ?n (ba_deltas b) w ?n (ba_deltas b @ ds) w"
        by (rule recorded_same_world) auto
      have tomb: "\<exists>d. recorded G ?n (ba_deltas b @ ds) w d \<and> d_path d = ?path \<and> d_deleted d"
        if "fmlookup (gh_manifest G) ?path \<noteq> None"
      proof (cases "fmlookup (ba_manifest b) ?path")
        case None
        with that assms(2) more show ?thesis unfolding batch_ok_def recorded_more_def by metis
      next
        case (Some e)
        then show ?thesis
          by (intro exI [of _ "tombstone ?path e (unix_timestamp w) (gh_lamport G) (gh_device G)"])
            (simp add: ds_def recorded_def tombstone_def)
      qed
      from tomb have "fmlookup (gh_manifest G) ?path = None \<or>
          (\<exists>d. recorded G ?n (ba_deltas b @ ds) w d \<and> d_path d = ?path \<and> d_deleted d)" by blast
      with assms(3) DeleteRemote have "gone_ok G ?n (ba_deltas b @ ds) w ?path" unfolding gone_ok_def by blast
      then have "op_ok G ?n (ba_deltas b @ ds) w (OpRemove ?path)" by (simp add: op_ok_def)
      moreover have "\<forall>x\<in>set (ba_ops b). op_ok G ?n (ba_deltas b @ ds) w x"
        using assms(2) op_mono [OF more] by (auto simp: batch_ok_def)
      moreover have "fmlookup (gh_manifest G) p = Some e \<or>
          (recorded G ?n (ba_deltas b @ ds) w e \<and> d_path e = p \<and> \<not> d_deleted e)"
        if "fmlookup (fmdrop ?path (ba_manifest b)) p = Some e" for p e
        using that assms(2) more unfolding batch_ok_def recorded_more_def by (auto split: if_splits)
      moreover have "\<exists>d. recorded G ?n (ba_deltas b @ ds) w d \<and> d_path d = p \<and> d_deleted d"
        if "fmlookup (gh_manifest G) p \<noteq> None" "fmlookup (fmdrop ?path (ba_manifest b)) p = None" for p
      proof (cases "p = ?path")
        case True
        with that tomb show ?thesis by simp
      next
        case False
        with that assms(2) more show ?thesis unfolding batch_ok_def recorded_more_def by (simp; blast)
      qed
      ultimately have "batch_ok G ?b w" using assms(2) unfolding batch_ok_def by simp
      with run show ?thesis by (simp add: step_ok_def)
    qed
  next
    case Conflict
    obtain q u where c: "conflict (cx_env ?C) ?path w = (q, u)" by (cases "conflict (cx_env ?C) ?path w")
    from conflict_run [OF c] have log: "same_log G n w u" for n by (simp add: same_log_def)
    have gone: "gone_ok G ?n [] w ?path" using assms(3) Conflict by (auto simp: gone_ok_def)
    have "db_files (w_db u) = db_files (w_db w) \<or> db_files (w_db u) = fmdrop ?path (db_files (w_db w))"
      using conflict_run [OF c] by (auto split: sum.splits)
    then have rows: "rows_ok G ?n u"
      using assms(2) rows_drop [OF _ log _ gone] rows_same [OF log] by (auto simp: batch_ok_def)
    have more: "recorded_more G ?n (ba_deltas b) w ?n (ba_deltas b) u"
      by (rule recorded_moreI) (simp_all add: log)
    have ops: "\<forall>x\<in>set (ba_ops b). op_ok G ?n (ba_deltas b) u x"
      using assms(2) op_mono [OF more] by (auto simp: batch_ok_def)
    have dev: "device_id (w_db u) = Inr (gh_device G)" using conflict_run [OF c] dev by (simp add: device_id_def)
    have "batch_ok G b u" by (rule batch_mono [OF assms(2) more refl rows dev ops])
    with rows assms(1) c Conflict show ?thesis
      by (auto simp: local_step_def Let_def act_bind_run step_ok_def split: sum.splits)
  next
    case CreatePlaceholder
    then show ?thesis by (intro stub) simp
  next
    case UpdatePlaceholder
    then show ?thesis by (intro stub) simp
  qed (use assms(1) same in \<open>simp_all add: local_step_def Let_def\<close>)
qed


lemma local_actions_ok:
  assumes "local_actions (gh_ctx G) (gh_lamport G) as b w = (r, v)" and "batch_ok G b w"
    and "set as \<subseteq> set (pl_actions (gh_plan G))"
    and "delta_codec_ok (cx_env (gh_ctx G))" and "unat (ba_seq b) + length as < 2 ^ 32"
  shows "step_ok G (unat (ba_seq b) + length as) r v"
  using assms
proof (induction as arbitrary: b w)
  case Nil
  then show ?case by (auto simp: local_actions_def step_ok_def)
next
  case (Cons a as)
  let ?C = "gh_ctx G" and ?l = "gh_lamport G"
  obtain q u where s: "local_step ?C ?l a b w = (q, u)" by (cases "local_step ?C ?l a b w")
  have q: "step_ok G (unat (ba_seq b)) q u"
    using local_step_ok [OF s Cons.prems(2)] Cons.prems(3) by simp
  show ?case
  proof (cases q)
    case (Inl e)
    with Cons.prems(1) s q show ?thesis by (auto simp: local_actions_def act_bind_run step_ok_def)
  next
    case (Inr c)
    with q have c: "batch_ok G c u" "unat (ba_seq c) \<le> unat (ba_seq b)" by (auto simp: step_ok_def)
    obtain q2 u2 where f: "flush_full ?C ?l c u = (q2, u2)" by (cases "flush_full ?C ?l c u")
    have q2: "step_ok G (unat (ba_seq c) + 1) q2 u2"
      using flush_full_ok [OF f c(1) Cons.prems(4)] c(2) Cons.prems(5) by simp
    show ?thesis
    proof (cases q2)
      case (Inl e)
      with Cons.prems(1) s f q2 Inr show ?thesis by (auto simp: local_actions_def act_bind_run step_ok_def)
    next
      case (Inr d)
      with q2 have d: "batch_ok G d u2" "unat (ba_seq d) \<le> unat (ba_seq c) + 1" by (auto simp: step_ok_def)
      have "local_actions ?C ?l as d u2 = (r, v)"
        using Cons.prems(1) s f \<open>q = Inr c\<close> Inr by (simp add: local_actions_def act_bind_run)
      from Cons.IH [OF this d(1) _ Cons.prems(4)] Cons.prems(3,5) c(2) d(2) show ?thesis
        by (auto simp: step_ok_def split: sum.splits)
    qed
  qed
qed

section \<open>The baseline is never ahead of the log\<close>

definition in_log :: "env \<Rightarrow> string \<Rightarrow> world \<Rightarrow> delta_entry \<Rightarrow> bool" where
  "in_log E pre w d \<longleftrightarrow> (\<exists>k ob ds. prefix (log_prefix pre) k \<and> fmlookup (ms_entries (w_store w)) k = Some ob \<and>
     e_delta_parse E (obj_bytes ob) = Some ds \<and> d \<in> set ds)"

text \<open>Every task is joined once.\<close>

definition joins_all :: "pass_ctx \<Rightarrow> bool" where
  "joins_all C \<longleftrightarrow> (\<forall>js. set (cx_order C js) = set js \<and> length (cx_order C js) = length js)"

lemma logged_in_log: "logged G n w d \<Longrightarrow> in_log (cx_env (gh_ctx G)) (cx_prefix (gh_ctx G)) w d"
  unfolding logged_def in_log_def by (metis delta_key_def prefixI)

lemma apply_plan_rows:
  assumes "apply_plan C p m rl w = (res, w')" and "delta_codec_ok (cx_env C)" and "joins_all C"
    and "2 * length (pl_actions p) + 1 < 2 ^ 32"
    and "get_latest_lamport (w_db w) = Inr ll" and "device_id (w_db w) = Inr dev"
  shows "\<exists>n. rows_ok \<lparr>gh_ctx = C, gh_lamport = max rl ll + 1, gh_device = dev, gh_plan = p, gh_manifest = m, gh_world = w\<rparr> n w'"
proof -
  define G where "G = \<lparr>gh_ctx = C, gh_lamport = max rl ll + 1, gh_device = dev, gh_plan = p, gh_manifest = m, gh_world = w\<rparr>"
  have G: "gh_ctx G = C" "gh_lamport G = max rl ll + 1" "gh_device G = dev" "gh_plan G = p" "gh_manifest G = m" "gh_world G = w"
    by (simp_all add: G_def)
  let ?l = "max rl ll + 1" and ?as = "pl_actions p"
  let ?b0 = "\<lparr>ba_manifest = m, ba_deltas = [], ba_ops = [], ba_seq = 0, ba_pinned = [], ba_failed = []\<rparr>"
  have b0: "batch_ok G ?b0 w" using assms(6) G by (auto simp: batch_ok_def rows_ok_def)
  obtain r1 w1 where s1: "spawn_jobs C p m [] ?as w = (r1, w1)" by (cases "spawn_jobs C p m [] ?as w")
  from spawn_jobs_ok [of C p G "[]" ?as w r1 w1] s1 G have f1: "job_frame (cx_prefix C) w w1"
    and j1: "\<And>x. r1 = Inr x \<Longrightarrow> (\<forall>j\<in>set x. job_ok G j) \<and> length x \<le> length ?as" by auto
  have b1: "batch_ok G ?b0 w1" using batch_frame [OF _ b0] f1 G by simp
  have "\<exists>n. rows_ok G n w'"
  proof (cases r1)
    case (Inl e)
    with assms(1,5) s1 have "w' = w1" by (auto simp: apply_plan_def act_bind_run Let_def)
    with b1 show ?thesis by (auto simp: batch_ok_def)
  next
    case (Inr js)
    let ?js = "cx_order C js"
    have js: "\<forall>j\<in>set ?js. job_ok G j" "length ?js \<le> length ?as" using j1 [OF Inr] assms(3) by (simp_all add: joins_all_def)
    obtain r2 w2 where s2: "join_jobs C p ?l ?js ?b0 w1 = (r2, w2)" by (cases "join_jobs C p ?l ?js ?b0 w1")
    from join_jobs_ok [of G p ?js ?b0 w1 r2 w2] s2 G b1 js assms(2,4)
    have q2: "step_ok G (length ?as) r2 w2" by (auto simp: step_ok_def split: sum.splits)
    show ?thesis
    proof (cases r2)
      case (Inl e)
      with assms(1,5) s1 s2 \<open>r1 = Inr js\<close> q2 show ?thesis by (auto simp: apply_plan_def act_bind_run Let_def step_ok_def)
    next
      case (Inr c2)
      with q2 have c2: "batch_ok G c2 w2" "unat (ba_seq c2) \<le> length ?as" by (auto simp: step_ok_def)
      obtain r3 w3 where s3: "local_actions C ?l ?as c2 w2 = (r3, w3)" by (cases "local_actions C ?l ?as c2 w2")
      from local_actions_ok [of G ?as c2 w2 r3 w3] s3 G c2 assms(2,4)
      have q3: "step_ok G (2 * length ?as) r3 w3" by (auto simp: step_ok_def split: sum.splits)
      show ?thesis
      proof (cases r3)
        case (Inl e)
        with assms(1,5) s1 s2 s3 \<open>r1 = Inr js\<close> \<open>r2 = Inr c2\<close> q3 show ?thesis
          by (auto simp: apply_plan_def act_bind_run Let_def step_ok_def)
      next
        case (Inr c3)
        with q3 have c3: "batch_ok G c3 w3" "unat (ba_seq c3) \<le> 2 * length ?as" by (auto simp: step_ok_def)
        obtain r4 w4 where s4: "flush C ?l c3 w3 = (r4, w4)" by (cases "flush C ?l c3 w3")
        from flush_ok [of G c3 w3 r4 w4] s4 G c3 assms(2,4)
        have "\<exists>n. rows_ok G n w4" by (auto simp: batch_ok_def split: sum.splits)
        then obtain n where n: "rows_ok G n w4" by blast
        have "w_store w' = w_store w4 \<and> db_files (w_db w') = db_files (w_db w4)"
          using assms(1,5) s1 s2 s3 s4 \<open>r1 = Inr js\<close> \<open>r2 = Inr c2\<close> Inr
          by (auto simp: apply_plan_def act_bind_run Let_def on_db_run record_lamport_def split: sum.splits)
        then have "rows_ok G n w' = rows_ok G n w4" by (intro rows_same) (simp_all add: same_log_def)
        with n show ?thesis by blast
      qed
    qed
  qed
  then show ?thesis by (simp add: G_def)
qed

lemma apply_plan_synced:
  assumes "apply_plan C p m rl w = (res, w')" and "delta_codec_ok (cx_env C)" and "joins_all C"
    and "2 * length (pl_actions p) + 1 < 2 ^ 32"
  shows "(\<forall>path h. row_synced (w_db w') path = Some (Some h) \<longrightarrow> row_synced (w_db w) path = Some (Some h) \<or>
      (\<exists>e. fmlookup m path = Some e \<and> d_plaintext_hash e = h) \<or>
      (\<exists>d. in_log (cx_env C) (cx_prefix C) w' d \<and> d_path d = path \<and> \<not> d_deleted d \<and> d_plaintext_hash d = h)) \<and>
    (\<forall>path. row_synced (w_db w) path \<noteq> None \<and> row_synced (w_db w') path = None \<longrightarrow>
      (\<exists>a\<in>set (pl_actions p). a_path a = path \<and> (a_kind a = DeleteLocal \<or> a_kind a = Conflict \<or>
        (a_kind a = DeleteRemote \<and> (fmlookup m path = None \<or>
          (\<exists>d. in_log (cx_env C) (cx_prefix C) w' d \<and> d_path d = path \<and> d_deleted d))))))"
proof (cases "get_latest_lamport (w_db w)")
  case (Inl e)
  with assms(1) have "w' = w" by (simp add: apply_plan_def act_bind_run)
  then show ?thesis by auto
next
  case (Inr ll)
  then obtain dev where "device_id (w_db w) = Inr dev"
    by (auto simp: get_latest_lamport_def device_id_def split: option.splits)
  from apply_plan_rows [OF assms Inr this] obtain n where
    rows: "rows_ok \<lparr>gh_ctx = C, gh_lamport = max rl ll + 1, gh_device = dev, gh_plan = p, gh_manifest = m, gh_world = w\<rparr> n w'"
    (is "rows_ok ?G n w'") by blast
  have l: "in_log (cx_env C) (cx_prefix C) w' d" if "recorded ?G n [] w' d" for d
    using that logged_in_log [of ?G n w' d] by (simp add: recorded_def)
  show ?thesis
    using rows l unfolding rows_ok_def known_def gone_ok_def by simp blast
qed


text \<open>
  C8: the baseline is never ahead of the log. However a pass ends - completed, a flush or a statement
  failed, transfers failed or were dropped half-way, in whatever order they finished - a path that is
  recorded as synced with content \<open>h\<close> was so before, or the manifest of the pass has that content for
  it, or a delta with it is in the remote log. And a path whose row is gone was removed by the plan:
  locally deleted, set aside as a conflict, or deleted remotely with its tombstone in the log (or with
  no remote entry at all).
\<close>

theorem baseline_not_ahead:
  assumes "apply_plan C p m rl w = (res, w')" and "delta_codec_ok (cx_env C)" and "joins_all C"
    and "2 * length (pl_actions p) + 1 < 2 ^ 32"
  shows "(\<forall>path h. row_synced (w_db w') path = Some (Some h) \<longrightarrow> row_synced (w_db w) path = Some (Some h) \<or>
      (\<exists>e. fmlookup m path = Some e \<and> d_plaintext_hash e = h) \<or>
      (\<exists>d. in_log (cx_env C) (cx_prefix C) w' d \<and> d_path d = path \<and> \<not> d_deleted d \<and> d_plaintext_hash d = h)) \<and>
    (\<forall>path. row_synced (w_db w) path \<noteq> None \<and> row_synced (w_db w') path = None \<longrightarrow>
      (\<exists>a\<in>set (pl_actions p). a_path a = path \<and> (a_kind a = DeleteLocal \<or> a_kind a = Conflict \<or>
        (a_kind a = DeleteRemote \<and> (fmlookup m path = None \<or>
          (\<exists>d. in_log (cx_env C) (cx_prefix C) w' d \<and> d_path d = path \<and> d_deleted d))))))"
  by (rule apply_plan_synced [OF assms])

definition sample_ctx :: pass_ctx where
  "sample_ctx = \<lparr>cx_env = sample_env, cx_seen = (\<lambda>_ _ _. fmupd ''a'' sample_node fmempty), cx_prefix = ''p/'',
     cx_order = rev, cx_aborted = (\<lambda>_. [])\<rparr>"

definition sample_disk :: world where
  "sample_disk = sample_world\<lparr>w_files := fmupd ''a'' sample_node fmempty\<rparr>"

lemma sample_clock: "get_latest_lamport (w_db sample_world) = Inr 0"
  by (simp add: sample_world_def get_latest_lamport_def migrate_def Let_def db_empty_def migrate_v1_def migrate_v2_def
      migrate_v3_table_def migrate_v3_device_def migrate_v4_def u64_or_zero_def)

lemma sample_hash: "hash_stable sample_env (\<lambda>_ _. fmupd ''a'' sample_node fmempty) ''a'' = Inr (Some (2, 5, [8, 9]))"
  by (simp add: hash_stable_quiet file_stat_def stat_of_def) (simp add: sample_node_def i64_max_def sample_env_def)

text \<open>A pass that uploads one file.\<close>

lemma sample_apply:
  "\<exists>m w. apply_plan sample_ctx \<lparr>pl_actions = [\<lparr>a_path = ''a'', a_kind = Upload\<rparr>], pl_relocations = fmempty\<rparr> fmempty 0
     sample_disk = (Inr ([], m), w) \<and> row_synced (w_db w) ''a'' = Some (Some [8, 9])"
proof -
  let ?p = "\<lparr>pl_actions = [\<lparr>a_path = ''a'', a_kind = Upload\<rparr>], pl_relocations = fmempty\<rparr>"
  obtain r payload where u: "upload_file sample_env (files_fs (fmupd ''a'' sample_node fmempty)) ''a'' ''a'' (2, 5, [8, 9]) ''p/'' True
      sample_disk = (Inr r, sample_disk\<lparr>w_random := 1, w_store :=
        mem_insert (w_now sample_world) (''p/'' @ object_key sample_env ''a'' [8, 9]) payload (w_store sample_world)\<rparr>)"
    (is "_ = (Inr r, ?w1)")
    using sample_upload_run [of True "fmupd ''a'' sample_node fmempty"] by (auto simp: sample_disk_def)
  have r: "ur_content_hash r = [8, 9]" using upload_file_ok [OF u] by auto
  have d: "device_id (w_db sample_disk) = Inr ''device''" "get_latest_lamport (w_db sample_disk) = Inr 0"
    using sample_device sample_clock by (simp_all add: sample_disk_def)
  have jobs: "run_job sample_ctx (\<lparr>a_path = ''a'', a_kind = Upload\<rparr>, None) sample_disk = (Inr (OUpload (Some r)), ?w1)"
    using u by (simp add: run_job_def sample_ctx_def upload_def act_bind_run Let_def sample_hash) (simp add: sample_disk_def)
  have put: "maybe_fail_put k (w_store ?w1) = Inr ()" for k
    by (simp add: maybe_fail_put_def mem_insert_def sample_world_def mem_new_def)
  show ?thesis
    using jobs d r put
    by (simp add: apply_plan_def act_bind_run Let_def job_of_def act_or_abandon_def act_try_run take_result_def
        new_delta_def flush_full_def FLUSH_BATCH_def add_synced_def local_actions_def local_step_def flush_def
        log_delta_def put_bytes_def on_store_run mem_put_bytes_def apply_op_def at_now_run on_db_run confirm_sync_def
        record_lamport_def row_synced_def sample_ctx_def)
qed

theorem baseline_not_ahead_witness:
  "\<exists>m w d. apply_plan sample_ctx \<lparr>pl_actions = [\<lparr>a_path = ''a'', a_kind = Upload\<rparr>], pl_relocations = fmempty\<rparr> fmempty 0
     sample_disk = (Inr ([], m), w) \<and> in_log sample_env ''p/'' w d \<and> d_path d = ''a'' \<and> d_plaintext_hash d = [8, 9]"
proof -
  obtain m w where run: "apply_plan sample_ctx \<lparr>pl_actions = [\<lparr>a_path = ''a'', a_kind = Upload\<rparr>], pl_relocations = fmempty\<rparr>
      fmempty 0 sample_disk = (Inr ([], m), w)" and row: "row_synced (w_db w) ''a'' = Some (Some [8, 9])"
    using sample_apply by blast
  have c: "delta_codec_ok (cx_env sample_ctx)" "joins_all sample_ctx"
    by (simp_all add: sample_ctx_def sample_delta_codec joins_all_def)
  have "row_synced (w_db sample_disk) ''a'' = None"
    by (simp add: row_synced_def sample_disk_def sample_world_def migrate_def Let_def db_empty_def migrate_v1_def
        migrate_v2_def migrate_v3_table_def migrate_v3_device_def migrate_v4_def)
  moreover have len: "2 * length (pl_actions \<lparr>pl_actions = [\<lparr>a_path = ''a'', a_kind = Upload\<rparr>], pl_relocations = fmempty\<rparr>) + 1 < 2 ^ 32"
    by simp
  ultimately have "\<exists>d. in_log (cx_env sample_ctx) (cx_prefix sample_ctx) w d \<and> d_path d = ''a'' \<and> \<not> d_deleted d \<and> d_plaintext_hash d = [8, 9]"
    using baseline_not_ahead [OF run c len, THEN conjunct1, rule_format, OF row] by auto
  with run show ?thesis by (auto simp: sample_ctx_def)
qed

end
