(* ===== verification/Apply_Outcome.thy ===== *)
theory Apply_Outcome
  imports Apply
begin

text \<open>
  What a completed \<open>apply\<close> has done to the baseline. Baseline updates are batched, so the rows lag
  behind; the abstraction \<open>virtual_row\<close> is the row as if every pending update had been applied at once.
  A flush does not change it, each action changes it at its own path only, and at the end, when
  nothing is pending, it is the row.
\<close>

section \<open>Rows as if nothing were pending\<close>

text \<open>What synchronising, hydrating and leaving a placeholder make of a row, at the time \<open>now\<close>.\<close>

abbreviation file_row_of :: "world \<Rightarrow> string \<Rightarrow> file_row option" where
  "file_row_of w q \<equiv> fmlookup (db_files (w_db w)) q"

definition synced_row :: "int \<Rightarrow> u64 \<Rightarrow> int \<Rightarrow> hash \<Rightarrow> file_row option \<Rightarrow> file_row option" where
  "synced_row now sz mt h s = Some \<lparr>row_size = min (uint sz) i64_max, row_mtime_ns = mt, row_content_hash = h, row_last_synced_hash = Some h,
     row_updated_at = now, row_residency = 0, row_evicted_at = None, row_last_hydrated_at = Option.bind s row_last_hydrated_at,
     row_synced_at = Some now\<rparr>"

definition hydrated_row :: "int \<Rightarrow> file_row option \<Rightarrow> file_row option" where
  "hydrated_row now s = map_option (\<lambda>r. r\<lparr>row_last_hydrated_at := Some now\<rparr>) s"

definition placeholder_row :: "int \<Rightarrow> u64 \<Rightarrow> hash \<Rightarrow> file_row option \<Rightarrow> file_row option" where
  "placeholder_row now sz h s = Some \<lparr>row_size = min (uint sz) i64_max, row_mtime_ns = (case s of None \<Rightarrow> 0 | Some r \<Rightarrow> row_mtime_ns r),
     row_content_hash = h, row_last_synced_hash = Some h, row_updated_at = now, row_residency = 1,
     row_evicted_at = Some (case Option.bind s row_evicted_at of None \<Rightarrow> now | Some t \<Rightarrow> t),
     row_last_hydrated_at = Option.bind s row_last_hydrated_at, row_synced_at = Some now\<rparr>"

definition op_effect :: "int \<Rightarrow> string \<Rightarrow> baseline_op \<Rightarrow> file_row option \<Rightarrow> file_row option" where
  "op_effect now q bop s = (if op_path bop \<noteq> q then s else case bop of
      OpConfirm _ sz mt h \<Rightarrow> synced_row now sz mt h s | OpHydrated _ \<Rightarrow> hydrated_row now s
    | OpPlaceholder meta h \<Rightarrow> placeholder_row now (st_size meta) h s | OpRemove _ \<Rightarrow> None)"

definition virtual_row :: "batch \<Rightarrow> world \<Rightarrow> string \<Rightarrow> file_row option" where
  "virtual_row b w q = fold (op_effect (now_secs w) q) (ba_ops b) (file_row_of w q)"

lemma now_secs_cong: "w_now v = w_now w \<Longrightarrow> now_secs v = now_secs w"
  by (simp add: now_secs_def)

lemma apply_op_effect:
  assumes "apply_op E bop w = (Inr (), v)"
  shows "file_row_of v q = op_effect (now_secs w) q bop (file_row_of w q) \<and> w_now v = w_now w"
proof (cases bop)
  case (OpConfirm p sz mt h)
  with assms show ?thesis
    by (auto simp: apply_op_def op_effect_def op_path_def at_now_run on_db_run confirm_sync_def synced_row_def sat_i64_def split: option.splits)
next
  case (OpHydrated p)
  with assms show ?thesis
    by (auto simp: apply_op_def op_effect_def op_path_def at_now_run on_db_run record_hydrated_def update_file_def hydrated_row_def split: option.splits)
next
  case (OpPlaceholder meta h)
  with assms obtain u where "stub_write E meta w = (Inr (), u)" "on_db (confirm_placeholder (now_secs u) (st_path meta) (st_size meta) h) u = (Inr (), v)"
    by (auto simp: apply_op_def act_bind_ok at_now_run)
  moreover from this have "w_db u = w_db w" "w_now u = w_now w"
    by (auto simp: stub_write_def act_bind_run write_node_def split: sum.splits option.splits)
  ultimately show ?thesis
    by (cases "file_row_of w (st_path meta)") (auto simp: OpPlaceholder op_effect_def op_path_def on_db_run confirm_placeholder_def placeholder_row_def
      sat_i64_def now_secs_def split: option.splits)
next
  case (OpRemove p)
  with assms show ?thesis by (auto simp: apply_op_def op_effect_def op_path_def on_db_run remove_file_row_def)
qed

lemma apply_ops_effect:
  "act_each (apply_op E) bops w = (Inr (), v) \<Longrightarrow>
    file_row_of v q = fold (op_effect (now_secs w) q) bops (file_row_of w q) \<and> w_now v = w_now w"
proof (induction bops arbitrary: w)
  case (Cons bop bops)
  then obtain u where u: "apply_op E bop w = (Inr (), u)" "act_each (apply_op E) bops u = (Inr (), v)"
    by (auto simp: act_bind_ok)
  from apply_op_effect [OF u(1), of q] Cons.IH [OF u(2)] now_secs_cong [of u w] show ?case by simp
qed simp

definition same_rest :: "batch \<Rightarrow> batch \<Rightarrow> bool" where
  "same_rest b b' \<longleftrightarrow> ba_manifest b' = ba_manifest b \<and> ba_pinned b' = ba_pinned b \<and> ba_failed b' = ba_failed b"

lemma log_delta_db: "log_delta E pre ds l s w = (r, v) \<Longrightarrow> w_db v = w_db w \<and> w_now v = w_now w"
  by (auto simp: log_delta_def act_bind_run Let_def put_bytes_def on_store_run split: sum.splits prod.splits)

lemma flush_invisible:
  assumes "flush C l b w = (Inr b', v)"
  shows "virtual_row b' v q = virtual_row b w q \<and> ba_ops b' = [] \<and> same_rest b b' \<and> w_now v = w_now w"
proof -
  from assms obtain b1 w1 where
    log: "(if ba_deltas b \<noteq> []
       then act_bind (log_delta (cx_env C) (cx_prefix C) (ba_deltas b) l (ba_seq b)) (\<lambda>_.
            act_ok (b\<lparr>ba_seq := ba_seq b + 1, ba_deltas := []\<rparr>))
       else act_ok b) w = (Inr b1, w1)"
    and ops: "act_each (apply_op (cx_env C)) (ba_ops b1) w1 = (Inr (), v)" and b': "b' = b1\<lparr>ba_ops := []\<rparr>"
    unfolding flush_def by (auto simp: act_bind_ok)
  have b1: "w_db w1 = w_db w \<and> w_now w1 = w_now w \<and> ba_ops b1 = ba_ops b \<and> same_rest b b1"
    using log by (auto simp: act_bind_ok same_rest_def dest!: log_delta_db split: if_splits)
  with apply_ops_effect [OF ops, of q] b' now_secs_cong [of w1 w] show ?thesis by (simp add: virtual_row_def same_rest_def)
qed

lemma flush_full_invisible:
  assumes "flush_full C l b w = (Inr b', v)"
  shows "virtual_row b' v q = virtual_row b w q \<and> same_rest b b' \<and> set (ba_ops b') \<subseteq> set (ba_ops b) \<and> w_now v = w_now w"
  using assms flush_invisible [of C l b w b' v q] by (auto simp: flush_full_def same_rest_def split: if_splits)

lemma virtual_row_frame: "db_files (w_db v) = db_files (w_db w) \<Longrightarrow> w_now v = w_now w \<Longrightarrow> virtual_row b v q = virtual_row b w q"
  using now_secs_cong [of v w] by (simp add: virtual_row_def)

section \<open>Transfers\<close>

text \<open>What the outcome of a transfer makes of the row.\<close>

definition outcome_row :: "int \<Rightarrow> action_kind \<Rightarrow> action_outcome \<Rightarrow> file_row option \<Rightarrow> file_row option" where
  "outcome_row now k out s = (case out of
      OUpload None \<Rightarrow> s | OUpload (Some r) \<Rightarrow> synced_row now (ur_size r) (ur_mtime_ns r) (ur_content_hash r) s
    | ORelocate r \<Rightarrow> placeholder_row now (ur_size r) (ur_content_hash r) s
    | ODownload r \<Rightarrow> (if k = Hydrate then hydrated_row now else id) (synced_row now (dr_size r) (dr_mtime_ns r) (dr_content_hash r) s))"

definition result_row :: "int \<Rightarrow> action_kind \<Rightarrow> merror + action_outcome \<Rightarrow> file_row option \<Rightarrow> file_row option" where
  "result_row now k r s = (case r of Inl _ \<Rightarrow> s | Inr out \<Rightarrow> outcome_row now k out s)"

lemma take_result_effect:
  assumes "take_result p l a result b w = (Inr b', v)"
  shows "w_db v = w_db w \<and> w_now v = w_now w \<and>
    op_path ` set (ba_ops b') \<subseteq> insert (a_path a) (op_path ` set (ba_ops b)) \<and>
    virtual_row b' v q = (if q = a_path a then result_row (now_secs w) (a_kind a) result (virtual_row b w q) else virtual_row b w q) \<and>
    (q \<noteq> a_path a \<longrightarrow> fmlookup (ba_manifest b') q = fmlookup (ba_manifest b) q) \<and>
    ba_failed b' = ba_failed b @ (case result of Inl e \<Rightarrow> [(a_path a, e)] | Inr _ \<Rightarrow> []) \<and>
    ba_pinned b' = ba_pinned b @ (case result of
       Inl _ \<Rightarrow> (case fmlookup (pl_relocations p) (a_path a) of None \<Rightarrow> [] | Some s \<Rightarrow> [d_path s]) | Inr _ \<Rightarrow> [])"
  using assms
  by (auto simp: take_result_def Let_def act_bind_run new_delta_def add_synced_def virtual_row_def op_effect_def op_path_def
      result_row_def outcome_row_def with_mtime_ns_def stub_new_def
      split: sum.splits action_outcome.splits option.splits if_splits)


abbreviation job_path :: "job \<Rightarrow> string" where
  "job_path j \<equiv> a_path (fst j)"

text \<open>The paths that failed relocations pin.\<close>

definition pins_of :: "plan \<Rightarrow> (string \<times> merror) list \<Rightarrow> string set" where
  "pins_of p fs = {d_path s |s t. t \<in> fst ` set fs \<and> fmlookup (pl_relocations p) t = Some s}"

lemma pins_of_append [simp]: "pins_of p (fs @ gs) = pins_of p fs \<union> pins_of p gs"
  by (auto simp: pins_of_def)

lemma pins_of_result:
  "pins_of p (case r of Inl e \<Rightarrow> [(t, e)] | Inr _ \<Rightarrow> []) =
    set (case r of Inl _ \<Rightarrow> (case fmlookup (pl_relocations p) t of None \<Rightarrow> [] | Some s \<Rightarrow> [d_path s]) | Inr _ \<Rightarrow> [])"
  by (auto simp: pins_of_def split: sum.splits option.splits)

definition job_done :: "pass_ctx \<Rightarrow> batch \<Rightarrow> world \<Rightarrow> batch \<Rightarrow> world \<Rightarrow> (string \<times> merror) list \<Rightarrow> job \<Rightarrow> bool" where
  "job_done C b w b' v fs j \<longleftrightarrow> (\<exists>u r u'. run_job C j u = (r, u') \<and> w_now u = w_now w \<and>
     virtual_row b' v (job_path j) = result_row (now_secs w) (a_kind (fst j)) r (virtual_row b w (job_path j)) \<and>
     (\<forall>e. (job_path j, e) \<in> set fs \<longleftrightarrow> r = Inl e))"

definition joined :: "pass_ctx \<Rightarrow> plan \<Rightarrow> job list \<Rightarrow> batch \<Rightarrow> world \<Rightarrow> batch \<Rightarrow> world \<Rightarrow> (string \<times> merror) list \<Rightarrow> bool" where
  "joined C p js b w b' v fs \<longleftrightarrow>
     (\<forall>q. q \<notin> job_path ` set js \<longrightarrow> virtual_row b' v q = virtual_row b w q \<and>
        fmlookup (ba_manifest b') q = fmlookup (ba_manifest b) q) \<and>
     w_now v = w_now w \<and> ba_failed b' = ba_failed b @ fs \<and> fst ` set fs \<subseteq> job_path ` set js \<and>
     set (ba_pinned b') = set (ba_pinned b) \<union> pins_of p fs \<and>
     op_path ` set (ba_ops b') \<subseteq> op_path ` set (ba_ops b) \<union> job_path ` set js \<and>
     (\<forall>j\<in>set js. job_done C b w b' v fs j)"

lemma join_step:
  assumes "join_jobs C p l (j # js) b w = (Inr b', v)"
  shows "\<exists>r u b1 u1. run_job C j w = (r, u) \<and> join_jobs C p l js b1 u1 = (Inr b', v) \<and>
    joined C p [j] b w b1 u1 (case r of Inl e \<Rightarrow> [(job_path j, e)] | Inr _ \<Rightarrow> [])"
proof -
  obtain r u where run: "run_job C j w = (r, u)" by (cases "run_job C j w")
  let ?m = "act_bind (take_result p l (fst j) r b) (flush_full C l)"
  obtain q u1 where s: "act_or_abandon C js ?m u = (q, u1)" by (cases "act_or_abandon C js ?m u")
  with assms run obtain b1 where q: "q = Inr b1" and rest: "join_jobs C p l js b1 u1 = (Inr b', v)"
    by (cases q) (auto simp: act_bind_run act_try_run)
  from s q have "?m u = (Inr b1, u1)" by (cases rule: act_or_abandon_cases) auto
  then obtain b0 u0 where t: "take_result p l (fst j) r b u = (Inr b0, u0)" and f: "flush_full C l b0 u0 = (Inr b1, u1)"
    by (auto simp: act_bind_ok)
  have now: "w_now u = w_now w" using job_frame_run [OF run] by (simp add: job_frame_def)
  have db: "virtual_row b u q = virtual_row b w q" for q
    using job_frame_run [OF run] by (intro virtual_row_frame) (simp_all add: job_frame_def)
  have vr: "virtual_row b1 u1 q = (if q = job_path j then result_row (now_secs w) (a_kind (fst j)) r (virtual_row b w q) else virtual_row b w q)" for q
    using take_result_effect [OF t, of q] flush_full_invisible [OF f, of q] db [of q] virtual_row_frame [of u0 u b0 q] now_secs_cong [OF now] by auto
  have now1: "w_now u1 = w_now w" using take_result_effect [OF t] flush_full_invisible [OF f] now by simp
  have "joined C p [j] b w b1 u1 (case r of Inl e \<Rightarrow> [(job_path j, e)] | Inr _ \<Rightarrow> [])"
    unfolding joined_def pins_of_result
  proof (intro conjI)
    show "op_path ` set (ba_ops b1) \<subseteq> op_path ` set (ba_ops b) \<union> job_path ` set [j]"
      using take_result_effect [OF t, of "[]"] flush_full_invisible [OF f, of "[]"] by (auto dest!: subsetD)
  qed (use vr now now1 take_result_effect [OF t] flush_full_invisible [OF f] run in
      \<open>auto simp: same_rest_def job_done_def split: sum.splits\<close>)
  with run rest show ?thesis by blast
qed

lemma join_effect:
  assumes "join_jobs C p l js b w = (Inr b', v)" and "distinct (map job_path js)"
  shows "\<exists>fs. joined C p js b w b' v fs"
  using assms
proof (induction js arbitrary: b w)
  case Nil
  then show ?case by (intro exI [of _ "[]"]) (simp add: joined_def pins_of_def)
next
  case (Cons j js)
  from join_step [OF Cons.prems(1)] obtain r u b1 u1 where run: "run_job C j w = (r, u)"
    and rest: "join_jobs C p l js b1 u1 = (Inr b', v)"
    and one: "joined C p [j] b w b1 u1 (case r of Inl e \<Rightarrow> [(job_path j, e)] | Inr _ \<Rightarrow> [])" (is "joined C p [j] b w b1 u1 ?f")
    by blast
  from Cons.IH [OF rest] Cons.prems(2) obtain fs where fs: "joined C p js b1 u1 b' v fs" by auto
  have new: "job_path j \<notin> job_path ` set js" using Cons.prems(2) by auto
  have now: "w_now u1 = w_now w" "now_secs u1 = now_secs w" using one now_secs_cong [of u1 w] by (simp_all add: joined_def)
  have at: "job_done C b w b' v (?f @ fs) i" if "i \<in> set (j # js)" for i
  proof (cases "i = j")
    case True
    then have "job_path i \<notin> fst ` set fs" using fs new by (auto simp: joined_def)
    then have no: "(job_path i, e) \<notin> set fs" for e by force
    have "virtual_row b' v (job_path i) = virtual_row b1 u1 (job_path i)" using fs new True by (simp add: joined_def)
    moreover have "job_done C b w b1 u1 ?f i" using one True by (simp add: joined_def)
    ultimately show ?thesis using no by (simp add: job_done_def)
  next
    case False
    with that have "i \<in> set js" by simp
    moreover from this have "job_path i \<in> job_path ` set js" by (rule imageI)
    ultimately have i: "i \<in> set js" "job_path i \<noteq> job_path j" using new by metis+
    then have no: "(job_path i, e) \<notin> set ?f" for e by (auto split: sum.splits)
    have "virtual_row b1 u1 (job_path i) = virtual_row b w (job_path i)" using one i(2) by (simp add: joined_def)
    moreover have "job_done C b1 u1 b' v fs i" using fs i(1) by (simp add: joined_def)
    ultimately show ?thesis using i(2) no now by (simp add: job_done_def)
  qed
  have "joined C p (j # js) b w b' v (?f @ fs)"
    unfolding joined_def
  proof (intro conjI)
    show "\<forall>i\<in>set (j # js). job_done C b w b' v (?f @ fs) i" using at by blast
    have "op_path ` set (ba_ops b1) \<subseteq> insert (job_path j) (op_path ` set (ba_ops b))"
      "op_path ` set (ba_ops b') \<subseteq> op_path ` set (ba_ops b1) \<union> job_path ` set js"
      using one fs by (simp_all add: joined_def)
    then show "op_path ` set (ba_ops b') \<subseteq> op_path ` set (ba_ops b) \<union> job_path ` set (j # js)"
      by (simp add: subset_iff) blast
  qed (use one fs in \<open>auto simp: joined_def\<close>)
  then show ?case by blast
qed

section \<open>Placeholders and deletions\<close>

text \<open>What a local action makes of the row; \<open>pinned\<close> and \<open>m\<close> are those after the transfers.\<close>

definition is_transfer :: "action_item \<Rightarrow> bool" where
  "is_transfer a \<longleftrightarrow> a_kind a = Download \<or> a_kind a = Hydrate \<or> a_kind a = Relocate \<or> a_kind a = Upload"

definition local_row :: "int \<Rightarrow> string set \<Rightarrow> manifest \<Rightarrow> action_item \<Rightarrow> file_row option \<Rightarrow> file_row option" where
  "local_row now pinned m a s = (let path = a_path a in
     if a_kind a = DeleteLocal \<or> a_kind a = Conflict then None
     else if path \<in> pinned then s
     else if a_kind a = DeleteRemote then None
     else if a_kind a = CreatePlaceholder \<or> a_kind a = UpdatePlaceholder then (case fmlookup m path of
         None \<Rightarrow> s | Some e \<Rightarrow> placeholder_row now (d_size e) (d_plaintext_hash e) s)
     else s)"

lemma local_row_cong:
  "fmlookup m (a_path a) = fmlookup n (a_path a) \<Longrightarrow> local_row now P m a s = local_row now P n a s"
  unfolding local_row_def Let_def by simp

lemma delete_local_db: "delete_local path w = (r, v) \<Longrightarrow> w_db v = w_db w \<and> w_now v = w_now w"
  by (auto simp: delete_local_def act_bind_run remove_node_def stub_remove_def split: sum.splits)

lemma local_step_effect:
  assumes "local_step C l a b w = (Inr b', v)"
  shows "w_now v = w_now w \<and> ba_pinned b' = ba_pinned b \<and> ba_failed b' = ba_failed b \<and>
    op_path ` set (ba_ops b') \<subseteq> insert (a_path a) (op_path ` set (ba_ops b)) \<and>
    (q \<noteq> a_path a \<longrightarrow> virtual_row b' v q = virtual_row b w q \<and> fmlookup (ba_manifest b') q = fmlookup (ba_manifest b) q) \<and>
    (is_transfer a \<or> a_path a \<notin> op_path ` set (ba_ops b) \<longrightarrow>
      virtual_row b' v (a_path a) = local_row (now_secs w) (set (ba_pinned b)) (ba_manifest b) a (virtual_row b w (a_path a)))"
proof (cases "a_kind a")
  case DeleteLocal
  with assms show ?thesis
    by (auto simp: local_step_def Let_def act_bind_ok local_row_def virtual_row_def op_effect_def op_path_def now_secs_def
        dest!: delete_local_db)
next
  case DeleteRemote
  with assms show ?thesis
    by (auto simp: local_step_def Let_def act_bind_run local_row_def virtual_row_def op_effect_def op_path_def
        split: if_splits option.splits sum.splits)
next
  case Conflict
  with assms have b': "b' = b" and c: "conflict (cx_env C) (a_path a) w = (Inr (), v)"
    by (auto simp: local_step_def Let_def act_bind_ok)
  from conflict_run [OF c] have f: "db_files (w_db v) = fmdrop (a_path a) (db_files (w_db w))" by simp
  have now: "w_now v = w_now w"
    using c by (auto simp: conflict_def act_bind_run act_try_run rename_node_def on_db_run remove_file_row_def split: sum.splits option.splits)
  have none: "fold (op_effect t q) bops s = s" if "q \<notin> op_path ` set bops" for t q bops s
    using that by (induction bops arbitrary: s) (auto simp: op_effect_def)
  show ?thesis
    using b' f Conflict now by (auto simp: virtual_row_def local_row_def none is_transfer_def now_secs_def)
next
  case CreatePlaceholder
  with assms show ?thesis
    by (auto simp: local_step_def Let_def act_bind_run manifest_entry_def local_row_def virtual_row_def op_effect_def
        op_path_def with_mtime_ns_def stub_new_def split: if_splits option.splits sum.splits)
next
  case UpdatePlaceholder
  with assms show ?thesis
    by (auto simp: local_step_def Let_def act_bind_run manifest_entry_def local_row_def virtual_row_def op_effect_def
        op_path_def with_mtime_ns_def stub_new_def split: if_splits option.splits sum.splits)
qed (use assms in \<open>auto simp: local_step_def Let_def local_row_def\<close>)


lemma local_actions_effect:
  assumes "local_actions C l as b w = (Inr b', v)" and "distinct (map a_path as)"
    and "\<forall>a\<in>set as. is_transfer a \<or> a_path a \<notin> op_path ` set (ba_ops b)"
  shows "ba_pinned b' = ba_pinned b \<and> ba_failed b' = ba_failed b \<and>
    (\<forall>q. q \<notin> a_path ` set as \<longrightarrow> virtual_row b' v q = virtual_row b w q) \<and>
    (\<forall>a\<in>set as. virtual_row b' v (a_path a) = local_row (now_secs w) (set (ba_pinned b)) (ba_manifest b) a (virtual_row b w (a_path a)))"
  using assms
proof (induction as arbitrary: b w)
  case Nil
  then show ?case by (simp add: local_actions_def)
next
  case (Cons a as)
  then obtain b0 u0 b1 u1 where t: "local_step C l a b w = (Inr b0, u0)" and f: "flush_full C l b0 u0 = (Inr b1, u1)"
    and rest: "local_actions C l as b1 u1 = (Inr b', v)"
    by (auto simp: local_actions_def act_bind_ok)
  have new: "a_path a \<notin> a_path ` set as" "distinct (map a_path as)" using Cons.prems(2) by auto
  have v: "virtual_row b1 u1 q = virtual_row b0 u0 q" for q using flush_full_invisible [OF f] by blast
  have b1: "ba_manifest b1 = ba_manifest b0" "ba_pinned b1 = ba_pinned b0" "ba_failed b1 = ba_failed b0"
    "set (ba_ops b1) \<subseteq> set (ba_ops b0)" using flush_full_invisible [OF f] by (auto simp: same_rest_def)
  note e = local_step_effect [OF t]
  have now: "now_secs u1 = now_secs w" using e flush_full_invisible [OF f] by (intro now_secs_cong) simp
  have "op_path ` set (ba_ops b1) \<subseteq> insert (a_path a) (op_path ` set (ba_ops b))"
    using e b1(4) by (meson image_mono order_trans)
  then have ops: "\<forall>c\<in>set as. is_transfer c \<or> a_path c \<notin> op_path ` set (ba_ops b1)"
    using Cons.prems(3) new(1) by (metis image_eqI insertE list.set_intros(2) subsetD)
  from Cons.IH [OF rest new(2) ops]
  have ih: "ba_pinned b' = ba_pinned b" "ba_failed b' = ba_failed b"
    "\<And>q. q \<notin> a_path ` set as \<Longrightarrow> virtual_row b' v q = virtual_row b0 u0 q"
    "\<And>c. c \<in> set as \<Longrightarrow> virtual_row b' v (a_path c) =
       local_row (now_secs w) (set (ba_pinned b)) (ba_manifest b0) c (virtual_row b0 u0 (a_path c))"
    using e v b1 now by auto
  have other: "local_row t P (ba_manifest b0) c s = local_row t P (ba_manifest b) c s \<and>
      virtual_row b0 u0 (a_path c) = virtual_row b w (a_path c)" if "c \<in> set as" for c t P s
  proof -
    have "a_path c \<noteq> a_path a" using that new(1) by (metis image_eqI)
    then have "fmlookup (ba_manifest b0) (a_path c) = fmlookup (ba_manifest b) (a_path c)"
      "virtual_row b0 u0 (a_path c) = virtual_row b w (a_path c)" using e by blast+
    then show ?thesis using local_row_cong by blast
  qed
  show ?case
  proof (intro conjI allI impI ballI)
    fix c
    assume c: "c \<in> set (a # as)"
    show "virtual_row b' v (a_path c) = local_row (now_secs w) (set (ba_pinned b)) (ba_manifest b) c (virtual_row b w (a_path c))"
    proof (cases "c \<in> set as")
      case True
      with ih(4) other show ?thesis by simp
    next
      case False
      with c have "c = a" by simp
      with ih(3) [OF new(1)] e Cons.prems(3) show ?thesis by simp
    qed
  qed (use ih e in auto)
qed

lemma spawn_jobs_filter:
  "spawn_jobs C p m js as w = (Inr js', v) \<Longrightarrow> v = w \<and> map fst js' = map fst js @ filter is_transfer as \<and>
    (\<forall>j\<in>set js'. j \<in> set js \<or> job_of p m (fst j) = Inr (Some j))"
proof (induction as arbitrary: js)
  case (Cons a as)
  from Cons.prems obtain j where j: "job_of p m a = Inr j"
    and rest: "spawn_jobs C p m (case j of None \<Rightarrow> js | Some j \<Rightarrow> js @ [j]) as w = (Inr js', v)"
    by (auto simp: act_bind_run act_or_abandon_def act_try_run abandon_def split: sum.splits)
  have "case j of None \<Rightarrow> \<not> is_transfer a | Some j' \<Rightarrow> is_transfer a \<and> fst j' = a"
    using j by (auto simp: job_of_def is_transfer_def res_bind_ok split: if_splits)
  with Cons.IH [OF rest] j show ?case by (auto split: option.splits)
qed auto


section \<open>What a completed pass has done\<close>

text \<open>
  The row after a transfer that did not fail, which read the clock \<open>t\<close>: an upload has the size, time and
  hash of the stable hash, a relocation those of the entry it copied, and a download the bytes it wrote.
\<close>

definition transfer_row :: "pass_ctx \<Rightarrow> plan \<Rightarrow> manifest \<Rightarrow> int \<Rightarrow> instant \<Rightarrow> action_item \<Rightarrow> file_row option \<Rightarrow> file_row option \<Rightarrow> bool" where
  "transfer_row C p m now t a s s' = (case a_kind a of
      Upload \<Rightarrow> (case hash_stable (cx_env C) (cx_seen C (a_path a)) (a_path a) of
          Inl _ \<Rightarrow> False | Inr None \<Rightarrow> s' = s | Inr (Some (sz, mt, h)) \<Rightarrow> s' = synced_row now sz mt h s)
    | Relocate \<Rightarrow> (\<exists>src. fmlookup (pl_relocations p) (a_path a) = Some src \<and> s' = placeholder_row now (d_size src) (d_plaintext_hash src) s)
    | _ \<Rightarrow> (\<exists>e b. fmlookup m (a_path a) = Some e \<and> e_blake3 (cx_env C) b = d_plaintext_hash e \<and>
        s' = (if a_kind a = Hydrate then hydrated_row now else id)
               (synced_row now (of_nat (length b)) (min (int t) i64_max) (d_plaintext_hash e) s)))"

lemma download_result:
  assumes "download E pre e w = (Inr x, v)"
  shows "\<exists>b. e_blake3 E b = d_plaintext_hash e \<and>
    x = \<lparr>dr_size = of_nat (length b), dr_mtime_ns = min (int (w_now w)) i64_max, dr_content_hash = d_plaintext_hash e\<rparr>"
  using download_run [OF assms]
  by (cases "fst (fetch_verified E pre e w)"; cases "safe_join (d_path e)") (auto simp: fetch_verified_ok)

lemma run_job_row:
  assumes "run_job C j w = (Inr out, v)" and "job_of p m (fst j) = Inr (Some j)"
  shows "transfer_row C p m now (w_now w) (fst j) s (outcome_row now (a_kind (fst j)) out s)"
proof -
  obtain a e where j: "j = (a, e)" by (cases j)
  have up: "\<exists>sz mt h. hash_stable E seen path = Inr (Some (sz, mt, h)) \<and> ur_size r = sz \<and> ur_mtime_ns r = mt \<and> ur_content_hash r = h"
    if "upload E seen pre path w = (Inr (Some r), v)" for E seen pre path r v
    using that by (auto simp: upload_def act_bind_ok split: option.splits dest!: upload_file_ok)
  have up0: "hash_stable E seen path = Inr None"
    if "upload E seen pre path w = (Inr None, v)" for E seen pre path v
  proof -
    from that obtain x u where x: "hash_stable E seen path = Inr x" and rest: "(case x of None \<Rightarrow> act_ok None
        | Some stats \<Rightarrow> (\<lambda>w. act_bind (upload_file E (files_fs (w_files w)) path path stats pre True) (\<lambda>r. act_ok (Some r)) w)) u
        = (Inr None, v)"
      by (auto simp only: upload_def act_bind_ok act_res_run prod.inject)
    from rest have "x = None" by (cases x) (auto simp: act_bind_ok)
    with x show ?thesis by simp
  qed
  have rel: "ur_size r = d_size x \<and> ur_content_hash r = d_plaintext_hash x" if "relocate E pre x path w = (Inr r, v)" for E pre x path r v
    using that by (auto simp: relocate_def act_bind_ok dest!: upload_file_ok)
  show ?thesis
  proof (cases "a_kind a = Upload")
    case True
    with assms(2) have "e = None" by (auto simp: j job_of_def)
    with assms(1) True obtain x where "out = OUpload x"
      "upload (cx_env C) (cx_seen C (a_path a)) (cx_prefix C) (a_path a) w = (Inr x, v)"
      by (auto simp: j run_job_def Let_def act_bind_ok)
    with True up [of _ _ _ _ "the x" v] up0 [of _ _ _ _ v] show ?thesis
      by (cases x) (force simp: j transfer_row_def outcome_row_def)+
  next
    case False
    then show ?thesis
      using assms unfolding j
      by (cases "a_kind a")
        (auto simp: run_job_def job_of_def Let_def transfer_row_def outcome_row_def act_bind_ok res_bind_ok manifest_entry_def
          dest!: hydrate_download download_result rel split: option.splits)
  qed
qed

lemma distinct_same_set: "distinct (map f xs) \<Longrightarrow> set ys = set xs \<Longrightarrow> length ys = length xs \<Longrightarrow> distinct (map f ys)"
  by (metis card_distinct distinct_card length_map set_map)

text \<open>
  C10: What a completed pass has done to the baseline, row by row and column by column. The rows of paths
  that the plan does not mention are as before. A transfer is either reported as failed, and then
  its row is as before, or it is not, and its row records what it moved: size, time, hash,
  synchronised now, local, with the old time of hydration or, for a hydration, now (an upload whose
  file kept changing is put off and leaves the row). Placeholders, deletions and conflicts change
  their rows as planned, except where the path is the source of a relocation that failed: then the
  row is as before. The order in which transfers finish and the batching of the updates make no
  difference. The plan has one action for a path, every task is joined, and the clock stands still.
\<close>

theorem completed_pass_rows:
  assumes "apply_plan C p m rl w = (Inr (failed, m'), w')" and "joins_all C" and "distinct (map a_path (pl_actions p))"
  shows "(\<forall>q. q \<notin> a_path ` set (pl_actions p) \<longrightarrow> fmlookup (db_files (w_db w')) q = fmlookup (db_files (w_db w)) q) \<and>
    (\<forall>a\<in>set (pl_actions p). let s = fmlookup (db_files (w_db w)) (a_path a); s' = fmlookup (db_files (w_db w')) (a_path a) in
      if is_transfer a then (if a_path a \<in> fst ` set failed then s' = s else transfer_row C p m (now_secs w) (w_now w) a s s')
      else s' = local_row (now_secs w) (pins_of p failed) m a s)"
proof -
  let ?as = "pl_actions p"
  let ?b0 = "\<lparr>ba_manifest = m, ba_deltas = [], ba_ops = [], ba_seq = 0, ba_pinned = [], ba_failed = []\<rparr>"
  from assms(1) obtain l js w1 b2 w2 b3 w3 b4 w4 where
    s1: "spawn_jobs C p m [] ?as w = (Inr js, w1)" and j1: "join_jobs C p l (cx_order C js) ?b0 w1 = (Inr b2, w2)"
    and lo: "local_actions C l ?as b2 w2 = (Inr b3, w3)" and f: "flush C l b3 w3 = (Inr b4, w4)"
    and failed: "failed = sort_key fst (ba_failed b4)" and w': "db_files (w_db w') = db_files (w_db w4)"
    by (auto simp: apply_plan_def act_bind_ok Let_def on_db_run record_lamport_def)
  from spawn_jobs_filter [OF s1] have "w1 = w" by simp
  with s1 j1 have s: "spawn_jobs C p m [] ?as w = (Inr js, w)"
    and j: "join_jobs C p l (cx_order C js) ?b0 w = (Inr b2, w2)" by simp_all
  have js: "map fst js = filter is_transfer ?as" "\<forall>j\<in>set js. job_of p m (fst j) = Inr (Some j)"
    using spawn_jobs_filter [OF s] by auto
  have set_js: "set (cx_order C js) = set js" using assms(2) by (simp add: joins_all_def)
  have paths: "job_path ` set js = a_path ` (set ?as \<inter> Collect is_transfer)"
  proof -
    have "fst ` set js = set ?as \<inter> Collect is_transfer" using arg_cong [OF js(1), of set] by auto
    then show ?thesis using image_image [of a_path fst "set js"] by simp
  qed
  have "map job_path js = map a_path (filter is_transfer ?as)" 
    using arg_cong [OF js(1), of "map a_path"] by (simp add: comp_def)
  then have "distinct (map job_path js)" using assms(3) by (simp add: distinct_map_filter)
  then have "distinct (map job_path (cx_order C js))"
    by (rule distinct_same_set) (use assms(2) in \<open>simp_all add: joins_all_def\<close>)
  from join_effect [OF j this] obtain fs where jn: "joined C p (cx_order C js) ?b0 w b2 w2 fs" by blast
  have other: "is_transfer a \<or> a_path a \<notin> job_path ` set js" if "a \<in> set ?as" for a
    using that assms(3) unfolding paths by (auto simp: distinct_map inj_on_def)
  have b2: "virtual_row b2 w2 q = file_row_of w q" "fmlookup (ba_manifest b2) q = fmlookup m q"
    if "q \<notin> job_path ` set js" for q
    using jn that set_js by (simp_all add: joined_def virtual_row_def)
  have fail: "ba_failed b2 = fs" "set (ba_pinned b2) = pins_of p fs" "op_path ` set (ba_ops b2) \<subseteq> job_path ` set js"
    "fst ` set fs \<subseteq> job_path ` set js" using jn set_js by (simp_all add: joined_def)
  have ops: "\<forall>a\<in>set ?as. is_transfer a \<or> a_path a \<notin> op_path ` set (ba_ops b2)"
    using other fail(3) by (meson subsetD)
  have now2: "now_secs w2 = now_secs w" using jn by (intro now_secs_cong) (simp add: joined_def)
  have lo': "ba_failed b3 = fs" "\<And>q. q \<notin> a_path ` set ?as \<Longrightarrow> virtual_row b3 w3 q = virtual_row b2 w2 q"
    "\<And>a. a \<in> set ?as \<Longrightarrow> virtual_row b3 w3 (a_path a) = local_row (now_secs w) (pins_of p fs) (ba_manifest b2) a (virtual_row b2 w2 (a_path a))"
    using local_actions_effect [OF lo assms(3) ops] now2 by (simp_all add: fail)
  have rows: "file_row_of w' q = virtual_row b3 w3 q" for q
    using flush_invisible [OF f, of q] w' by (auto simp: virtual_row_def)
  have fs: "set failed = set fs" using flush_invisible [OF f] lo'(1) by (simp add: failed same_rest_def)
  then have pins: "pins_of p failed = pins_of p fs" by (simp add: pins_of_def)
  have trans: "let s = file_row_of w (a_path a); s' = file_row_of w' (a_path a) in
      if a_path a \<in> fst ` set failed then s' = s else transfer_row C p m (now_secs w) (w_now w) a s s'" if a: "a \<in> set ?as" "is_transfer a" for a
  proof -
    have "a \<in> set (map fst js)" using a js(1) by simp
    then obtain j where jj: "j \<in> set js" "fst j = a" by auto
    then have "job_done C ?b0 w b2 w2 fs j" using jn set_js by (simp add: joined_def)
    then obtain u r u' where r: "run_job C j u = (r, u')" "virtual_row b2 w2 (a_path a) = result_row (now_secs w) (a_kind a) r (file_row_of w (a_path a))"
      "\<forall>e. (a_path a, e) \<in> set fs \<longleftrightarrow> r = Inl e" "w_now u = w_now w" using jj(2) by (auto simp: job_done_def virtual_row_def)
    have row: "file_row_of w' (a_path a) = virtual_row b2 w2 (a_path a)"
      using lo'(3) [OF a(1)] a(2) rows by (auto simp: local_row_def is_transfer_def Let_def)
    show ?thesis
    proof (cases r)
      case (Inl e)
      with r(3) fs have "a_path a \<in> fst ` set failed" by force
      with row r(2) Inl show ?thesis by (simp add: result_row_def)
    next
      case (Inr out)
      with r(3) fs have "a_path a \<notin> fst ` set failed" by force
      moreover have "job_of p m (fst j) = Inr (Some j)" using js(2) jj(1) by blast
      ultimately show ?thesis
        using row r(2) Inr run_job_row [of C j u out u' p m "now_secs w" "file_row_of w (a_path a)"] r(1,4) jj(2)
        by (simp add: result_row_def)
    qed
  qed
  show ?thesis
  proof (intro conjI allI impI ballI)
    fix q
    assume q: "q \<notin> a_path ` set ?as"
    then have "q \<notin> job_path ` set js" unfolding paths by auto
    with q lo'(2) b2 rows show "file_row_of w' q = file_row_of w q" by simp
  next
    fix a
    assume a: "a \<in> set ?as"
    show "let s = file_row_of w (a_path a); s' = file_row_of w' (a_path a) in
      if is_transfer a then (if a_path a \<in> fst ` set failed then s' = s else transfer_row C p m (now_secs w) (w_now w) a s s')
      else s' = local_row (now_secs w) (pins_of p failed) m a s"
    proof (cases "is_transfer a")
      case True
      with trans a show ?thesis by simp
    next
      case False
      with other [OF a] have "a_path a \<notin> job_path ` set js" by blast
      with lo'(3) [OF a] b2 [OF this] rows pins False local_row_cong [OF b2(2) [OF this]] show ?thesis by simp
    qed
  qed
qed

theorem completed_pass_rows_witness:
  "\<exists>m w. apply_plan sample_ctx \<lparr>pl_actions = [\<lparr>a_path = ''a'', a_kind = Upload\<rparr>], pl_relocations = fmempty\<rparr> fmempty 0 sample_disk =
      (Inr ([], m), w) \<and>
    fmlookup (db_files (w_db w)) ''a'' = Some \<lparr>row_size = 2, row_mtime_ns = 5, row_content_hash = [8, 9], row_last_synced_hash = Some [8, 9],
      row_updated_at = now_secs sample_disk, row_residency = 0, row_evicted_at = None, row_last_hydrated_at = None,
      row_synced_at = Some (now_secs sample_disk)\<rparr>"
proof -
  let ?p = "\<lparr>pl_actions = [\<lparr>a_path = ''a'', a_kind = Upload\<rparr>], pl_relocations = fmempty\<rparr>"
  obtain m w where run: "apply_plan sample_ctx ?p fmempty 0 sample_disk = (Inr ([], m), w)" using sample_apply by blast
  have h: "hash_stable (cx_env sample_ctx) (cx_seen sample_ctx ''a'') ''a'' = Inr (Some (2, 5, [8, 9]))"
    using sample_hash by (simp add: sample_ctx_def)
  have none: "fmlookup (db_files (w_db sample_disk)) ''a'' = None"
    by (simp add: sample_disk_def sample_world_def migrate_def Let_def db_empty_def migrate_v1_def
        migrate_v2_def migrate_v3_table_def migrate_v3_device_def migrate_v4_def)
  have "joins_all sample_ctx" by (simp add: sample_ctx_def joins_all_def)
  from completed_pass_rows [OF run this] have "fmlookup (db_files (w_db w)) ''a'' = synced_row (now_secs sample_disk) 2 5 [8, 9] None"
    by (simp add: Let_def is_transfer_def transfer_row_def h none)
  with run show ?thesis by (auto simp: synced_row_def i64_max_def)
qed

end
