(* ===== verification/Config.thy ===== *)
theory Config
  imports Residency
begin

text \<open>
  The configuration (\<open>config.rs\<close>): its records, defaults, validation, and the retention rules and
  residency policy read from it. TOML parsing is not modelled; durations are seconds. Arithmetic on
  \<open>u64\<close> wraps, as in a release build.
\<close>

section \<open>Records and defaults\<close>

record keep_policy =
  kp_last :: nat
  kp_hourly :: nat
  kp_daily :: nat
  kp_weekly :: nat
  kp_monthly :: nat
  kp_yearly :: nat

datatype offloaded_backup = OffInclude | OffSkip

record backup_config =
  bc_interval_hours :: u64
  bc_paths :: "string list"
  bc_exclude :: "string list"
  bc_mirrorignore :: bool
  bc_offloaded :: offloaded_backup
  bc_keep :: keep_policy
  bc_auto_prune :: bool
  bc_keep_awake :: bool

record remote_config =
  rm_bucket :: string
  rm_prefix :: string

record local_config =
  lc_root :: string
  lc_ignore_file :: string

record sync_config =
  sc_poll_interval_secs :: u64
  sc_debounce_secs :: u64
  sc_max_concurrent_transfers :: nat
  sc_multipart_threshold :: u64
  sc_part_size :: u64
  sc_object_retention_secs :: u64
  sc_compact_threshold :: nat

datatype default_residency = DefLocal | DefOnlineOnly

record offline_config =
  oc_default_residency :: default_residency
  oc_local :: "string list"
  oc_online_only :: "string list"
  oc_evict_min_size :: u64
  oc_evict_grace_secs :: u64
  oc_verify_before_evict :: bool
  oc_auto_evict :: bool
  oc_min_free_space :: u64
  oc_target_free_space :: u64

record config =
  cf_remote :: remote_config
  cf_local :: local_config
  cf_sync :: sync_config
  cf_offline :: offline_config
  cf_backup :: backup_config

definition keep_default :: keep_policy where
  "keep_default = \<lparr>kp_last = 0, kp_hourly = 0, kp_daily = 0, kp_weekly = 0, kp_monthly = 0, kp_yearly = 0\<rparr>"

definition keep_is_empty :: "keep_policy \<Rightarrow> bool" where
  "keep_is_empty k \<longleftrightarrow> k = keep_default"

definition backup_default :: backup_config where
  "backup_default = \<lparr>bc_interval_hours = 0, bc_paths = [], bc_exclude = [], bc_mirrorignore = True,
     bc_offloaded = OffInclude, bc_keep = keep_default, bc_auto_prune = False, bc_keep_awake = True\<rparr>"

definition MIN_PART_SIZE :: u64 where
  "MIN_PART_SIZE = 5 * 1024 * 1024"

definition DAY_SECS :: u64 where
  "DAY_SECS = 24 * 60 * 60"

definition MIN_OBJECT_RETENTION_SECS :: u64 where
  "MIN_OBJECT_RETENTION_SECS = 7 * DAY_SECS"

definition GIB :: u64 where
  "GIB = 1024 * 1024 * 1024"

definition sync_default :: sync_config where
  "sync_default = \<lparr>sc_poll_interval_secs = 60, sc_debounce_secs = 2, sc_max_concurrent_transfers = 8,
     sc_multipart_threshold = 8 * 1024 * 1024, sc_part_size = 8 * 1024 * 1024,
     sc_object_retention_secs = 30 * DAY_SECS, sc_compact_threshold = 200\<rparr>"

definition offline_default :: offline_config where
  "offline_default = \<lparr>oc_default_residency = DefLocal, oc_local = [], oc_online_only = [],
     oc_evict_min_size = 1024 * 1024, oc_evict_grace_secs = 15 * 60, oc_verify_before_evict = False,
     oc_auto_evict = False, oc_min_free_space = 20 * GIB, oc_target_free_space = 40 * GIB\<rparr>"

section \<open>Validation\<close>

definition offline_policy :: "globs \<Rightarrow> offline_config \<Rightarrow> (string \<times> mode) list \<Rightarrow> policy mresult" where
  "offline_policy g oc pin_rules = policy_new g pin_rules (oc_local oc) (oc_online_only oc)
     (oc_default_residency oc = DefOnlineOnly)"

text \<open>The checks in their order, each with the name of the setting its message is about.\<close>

definition problems :: "globs \<Rightarrow> (string \<Rightarrow> bool) \<Rightarrow> config \<Rightarrow> string list" where
  "problems g is_dir c = concat (map (\<lambda>(bad, name). if bad then [name] else [])
     [(rm_bucket (cf_remote c) = [], ''remote.bucket''),
      (\<not> suffix ''/'' (rm_prefix (cf_remote c)), ''remote.prefix''),
      (\<not> is_dir (lc_root (cf_local c)), ''local.root''),
      (sc_part_size (cf_sync c) < MIN_PART_SIZE, ''sync.part_size''),
      (sc_max_concurrent_transfers (cf_sync c) = 0, ''sync.max_concurrent_transfers''),
      (sc_poll_interval_secs (cf_sync c) = 0, ''sync.poll_interval_secs''),
      (sc_object_retention_secs (cf_sync c) < MIN_OBJECT_RETENTION_SECS, ''sync.object_retention_secs''),
      (oc_target_free_space (cf_offline c) < oc_min_free_space (cf_offline c), ''offline.target_free_space''),
      (oc_evict_grace_secs (cf_offline c) < 2 * sc_poll_interval_secs (cf_sync c), ''offline.evict_grace_secs''),
      (sc_object_retention_secs (cf_sync c) \<le> oc_evict_grace_secs (cf_offline c), ''sync.object_retention_secs''),
      (case offline_policy g (cf_offline c) [] of Inl _ \<Rightarrow> True | Inr _ \<Rightarrow> False, ''offline.globs''),
      (bc_auto_prune (cf_backup c) \<and> keep_is_empty (bc_keep (cf_backup c)), ''backup.auto_prune'')])"


definition join_strings :: "string \<Rightarrow> string list \<Rightarrow> string" where
  "join_strings sep xs = (case xs of [] \<Rightarrow> [] | x # ys \<Rightarrow> x @ concat (map (\<lambda>y. sep @ y) ys))"

definition validate :: "globs \<Rightarrow> (string \<Rightarrow> bool) \<Rightarrow> config \<Rightarrow> unit mresult" where
  "validate g is_dir c = (let ps = problems g is_dir c in
     if ps = [] then Inr () else Inl (EConfig (join_strings ''; '' ps)))"

section \<open>What a valid configuration guarantees\<close>

lemma validate_ok: "validate g is_dir c = Inr () \<longleftrightarrow> problems g is_dir c = []"
  by (simp add: validate_def Let_def)

lemma res_collect_append:
  "res_collect f (xs @ ys) = res_bind (res_collect f xs) (\<lambda>as. res_bind (res_collect f ys) (\<lambda>bs. Inr (as @ bs)))"
  by (induction xs) (auto simp: res_bind_def split: sum.splits)

lemma rules_compile: "(\<exists>rs. res_collect (\<lambda>(pattern, m). rule_new g pattern m) ps = Inr rs) \<longleftrightarrow> (\<forall>(pattern, m)\<in>set ps. glob_ok g pattern)"
  by (induction ps) (auto simp: rule_new_def res_bind_def split: sum.splits if_splits)

lemma offline_policy_ok:
  "(\<exists>pol. offline_policy g c pin_rules = Inr pol) \<longleftrightarrow>
     (\<forall>p\<in>set (oc_local c) \<union> set (oc_online_only c). glob_ok g p) \<and> (\<forall>(p, m)\<in>set pin_rules. glob_ok g p)"
proof -
  have "(\<exists>pol. offline_policy g c pin_rules = Inr pol) \<longleftrightarrow>
      (\<exists>rs. res_collect (\<lambda>(pattern, m). rule_new g pattern m) pin_rules = Inr rs) \<and>
      (\<exists>rs. res_collect (\<lambda>(pattern, m). rule_new g pattern m) (map (\<lambda>p. (p, Local)) (oc_local c) @ map (\<lambda>p. (p, OnlineOnly)) (oc_online_only c)) = Inr rs)"
    by (auto simp: offline_policy_def policy_new_def res_bind_def split: sum.splits)
  then show ?thesis unfolding rules_compile by auto
qed


definition sample_config :: config where
  "sample_config = \<lparr>cf_remote = \<lparr>rm_bucket = ''b'', rm_prefix = ''rfm/''\<rparr>,
     cf_local = \<lparr>lc_root = ''root'', lc_ignore_file = ''.mirrorignore''\<rparr>, cf_sync = sync_default,
     cf_offline = offline_default, cf_backup = backup_default\<rparr>"

text \<open>The defaults are valid.\<close>

lemma default_config_valid: "validate \<lparr>glob_ok = \<lambda>_. True, glob_match = (=)\<rparr> (\<lambda>_. True) sample_config = Inr ()"
  by (simp add: validate_ok problems_def sample_config_def sync_default_def offline_default_def backup_default_def
      MIN_PART_SIZE_def MIN_OBJECT_RETENTION_SECS_def DAY_SECS_def GIB_def offline_policy_def policy_new_def suffix_def)


end
