(* ===== verification/Sync.thy ===== *)
theory Sync
  imports Apply_Outcome Config
begin

text \<open>
  One pass of synchronisation (\<open>sync.rs\<close>): read and merge the remote log, set losing versions aside,
  scan, reconcile, finish interrupted uploads, apply the plan, record the scan, evict, compact.

  What other programs and the scheduler do is in the context: the directory walk of the files at the
  time of the scan, what \<open>hash_stable\<close> sees in each place, the interference with evictions, the order of
  transfers. Durations are in seconds, as the configuration has them.
\<close>

section \<open>Options and outcome\<close>

record sync_outcome =
  so_uploads :: nat
  so_downloads :: nat
  so_deletes_local :: nat
  so_deletes_remote :: nat
  so_conflicts :: nat
  so_hydrated :: nat
  so_placeholders :: nat
  so_relocated :: nat
  so_evicted :: nat
  so_bytes_freed :: u64
  so_compacted :: nat
  so_not_evicted :: "(string \<times> skip) list"
  so_failed :: "(string \<times> merror) list"

definition is_noop :: "sync_outcome \<Rightarrow> bool" where
  "is_noop so \<longleftrightarrow> so_uploads so = 0 \<and> so_downloads so = 0 \<and> so_deletes_local so = 0 \<and> so_deletes_remote so = 0 \<and>
     so_conflicts so = 0 \<and> so_hydrated so = 0 \<and> so_placeholders so = 0 \<and> so_relocated so = 0 \<and>
     so_evicted so = 0 \<and> so_compacted so = 0 \<and> so_failed so = []"

record space_target =
  sp_min_free :: u64
  sp_target_free :: u64

record compaction =
  cp_threshold :: nat
  cp_grace :: duration
  cp_object_retention :: duration

record sync_options =
  op_policy :: policy
  op_hydrate :: "string list"
  op_evict :: "string list"
  op_evict_grace :: nat
  op_evict_min_size :: u64
  op_verify_before_evict :: bool
  op_space :: "space_target option"
  op_compaction :: "compaction option"

text \<open>\<open>DEFAULT_COMPACTION_GRACE\<close>, one day, in nanoseconds like every instant.\<close>

definition DEFAULT_COMPACTION_GRACE :: duration where
  "DEFAULT_COMPACTION_GRACE = 24 * 60 * 60 * 10 ^ 9"

definition options_from_config :: "globs \<Rightarrow> config \<Rightarrow> state_db \<Rightarrow> sync_options mresult" where
  "options_from_config g c db =
     res_bind (pins db) (\<lambda>ps.
     res_bind (offline_policy g (cf_offline c) ps) (\<lambda>pol.
     Inr \<lparr>op_policy = pol, op_hydrate = [], op_evict = [],
       op_evict_grace = unat (oc_evict_grace_secs (cf_offline c)), op_evict_min_size = oc_evict_min_size (cf_offline c),
       op_verify_before_evict = oc_verify_before_evict (cf_offline c),
       op_space = (if oc_auto_evict (cf_offline c)
         then Some \<lparr>sp_min_free = oc_min_free_space (cf_offline c), sp_target_free = oc_target_free_space (cf_offline c)\<rparr>
         else None),
       op_compaction = (if 0 < sc_compact_threshold (cf_sync c)
         then Some \<lparr>cp_threshold = sc_compact_threshold (cf_sync c), cp_grace = DEFAULT_COMPACTION_GRACE,
           cp_object_retention = unat (sc_object_retention_secs (cf_sync c)) * 10 ^ 9\<rparr>
         else None)\<rparr>))"

record sync_ctx =
  sx_pass :: pass_ctx
  sx_walk :: "files \<Rightarrow> walk_entry mresult list"
  sx_scan_seen :: "string \<Rightarrow> nat \<Rightarrow> nat \<Rightarrow> files"
  sx_loser_seen :: "string \<Rightarrow> nat \<Rightarrow> nat \<Rightarrow> files"
  sx_resume_seen :: "string \<Rightarrow> nat \<Rightarrow> nat \<Rightarrow> files"
  sx_racers :: "string \<Rightarrow> files \<Rightarrow> files"
  sx_meta :: "files \<Rightarrow> string \<Rightarrow> (int \<times> int \<times> u64) option"

abbreviation sx_env :: "sync_ctx \<Rightarrow> env" where
  "sx_env X \<equiv> cx_env (sx_pass X)"

abbreviation sx_prefix :: "sync_ctx \<Rightarrow> string" where
  "sx_prefix X \<equiv> cx_prefix (sx_pass X)"

section \<open>Planning\<close>

record pass_plan =
  pp_plan :: plan
  pp_manifest :: manifest
  pp_scan :: scan_result
  pp_remote_lamport :: u64
  pp_deltas :: "object_meta list"

text \<open>A real file wins over its own placeholder.\<close>

definition stale_placeholders :: "scan_result \<Rightarrow> string list" where
  "stale_placeholders s = map fst (filter (\<lambda>(path, m). path \<in> le_path ` set (sr_entries s) \<and> st_path m = path)
     (fm_entries (sr_placeholders s)))"

definition drop_stale :: "scan_result \<Rightarrow> scan_result act" where
  "drop_stale scan = act_fold (\<lambda>path s. act_bind (stub_remove path) (\<lambda>_.
     act_ok (s\<lparr>sr_placeholders := fmdrop path (sr_placeholders s)\<rparr>))) (stale_placeholders scan) scan"

definition add_relocation :: "string \<times> delta_entry \<Rightarrow> plan \<Rightarrow> plan" where
  "add_relocation r p = (case r of (to, loser) \<Rightarrow>
     p\<lparr>pl_actions := map (\<lambda>a. if a_path a = d_path loser \<and> a_kind a = Hydrate then a\<lparr>a_kind := UpdatePlaceholder\<rparr> else a)
         (pl_actions p) @ [\<lparr>a_path = to, a_kind = Relocate\<rparr>],
       pl_relocations := fmupd to loser (pl_relocations p)\<rparr>)"

definition sort_actions :: "plan \<Rightarrow> plan" where
  "sort_actions p = p\<lparr>pl_actions := sort_key (\<lambda>a. (a_kind a, a_path a)) (pl_actions p)\<rparr>"

definition plan_pass :: "sync_ctx \<Rightarrow> sync_options \<Rightarrow> pass_plan act" where
  "plan_pass X opts = (let E = sx_env X; pre = sx_prefix X in
     act_bind (from_store E pre) (\<lambda>snapshot.
     act_bind (read_deltas E pre) (\<lambda>delta_log.
     (let merged = merge_deltas (sn_manifest snapshot) (dl_deltas delta_log) in
     act_bind (preserve_conflict_losers E (sx_loser_seen X) (mr_conflicts merged)) (\<lambda>preserved.
     act_bind (read_db db_baseline) (\<lambda>b.
     act_bind (\<lambda>w. (scan_all E (w_files w) (sx_scan_seen X) (baseline_cached b) (sx_walk X (w_files w)), w)) (\<lambda>scan0.
     act_bind (drop_stale scan0) (\<lambda>scan.
     (let view = \<lparr>rv_placeholders = sr_placeholders scan, rv_policy = op_policy opts, rv_hydrate = op_hydrate opts\<rparr>;
          p = reconcile_with (e_globs E) (sr_entries scan) b (mr_manifest merged) view
      in act_ok \<lparr>pp_plan = sort_actions (fold add_relocation (pc_relocations preserved) p),
           pp_manifest = mr_manifest merged, pp_scan = scan, pp_remote_lamport = mr_remote_lamport merged,
           pp_deltas = dl_metas delta_log\<rparr>)))))))))"

section \<open>Interrupted uploads\<close>

definition resumed_entry :: "manifest \<Rightarrow> string \<Rightarrow> upload_result \<Rightarrow> u64 \<Rightarrow> u64 \<Rightarrow> string \<Rightarrow> delta_entry" where
  "resumed_entry m path r mtime_utc lamport device =
     \<lparr>d_path = path, d_object_key = ur_object_key r, d_plaintext_hash = ur_content_hash r, d_size = ur_size r,
      d_mtime_utc = mtime_utc, d_deleted = False, d_deleted_at = 0, d_lamport = lamport, d_device_id = device,
      d_base_hash = map_option d_plaintext_hash (fmlookup m path)\<rparr>"

definition resume_one :: "sync_ctx \<Rightarrow> manifest \<Rightarrow> u64 \<Rightarrow> pending_upload \<Rightarrow> (delta_entry \<times> upload_result) list \<Rightarrow>
    (delta_entry \<times> upload_result) list act" where
  "resume_one X m lamport u completed = (let E = sx_env X; pre = sx_prefix X; path = pu_path u in
     case hash_stable E (sx_resume_seen X path) path of
       Inr (Some stats) \<Rightarrow>
         if snd (snd stats) = pu_content_hash u
         then act_bind (act_try (resume_upload E u stats pre)) (\<lambda>result. case result of
               Inr r \<Rightarrow> act_bind (act_get unix_timestamp) (\<lambda>mtime_utc. act_bind (query_db device_id) (\<lambda>device.
                 act_ok (completed @ [(resumed_entry m path r mtime_utc lamport device, r)])))
             | Inl (EUploadGone _) \<Rightarrow> act_ok completed
             | Inl e \<Rightarrow> act_err e)
         else act_bind (on_db (clear_upload path)) (\<lambda>_.
              act_bind (on_store (mem_abort_multipart_upload (pre @ object_key E path (pu_content_hash u)) (pu_upload_id u))) (\<lambda>_.
              act_ok completed))
     | _ \<Rightarrow> act_bind (on_db (clear_upload path)) (\<lambda>_.
            act_bind (on_store (mem_abort_multipart_upload (pre @ object_key E path (pu_content_hash u)) (pu_upload_id u))) (\<lambda>_.
            act_ok completed)))"

definition confirm_resumed :: "delta_entry \<times> upload_result \<Rightarrow> string list \<times> manifest \<Rightarrow> (string list \<times> manifest) act" where
  "confirm_resumed c acc = (case c of (entry, r) \<Rightarrow>
     act_bind (at_now (\<lambda>now. on_db (confirm_sync now (d_path entry) (ur_size r) (ur_mtime_ns r) (ur_content_hash r)))) (\<lambda>_.
     act_ok (fst acc @ [d_path entry], fmupd (d_path entry) entry (snd acc))))"

definition resume_uploads :: "sync_ctx \<Rightarrow> manifest \<Rightarrow> u64 \<Rightarrow> (string list \<times> manifest) act" where
  "resume_uploads X m remote_lamport =
     act_bind (read_db pending_uploads) (\<lambda>uploads.
     act_bind (query_db get_latest_lamport) (\<lambda>local_lamport.
     (let lamport = max remote_lamport local_lamport + 1 in
     act_bind (act_fold (resume_one X m lamport) uploads []) (\<lambda>completed.
     if completed = [] then act_ok ([], m)
     else act_bind (log_delta (sx_env X) (sx_prefix X) (map fst completed) lamport 0) (\<lambda>_.
          act_bind (\<lambda>w. on_db (record_lamport (e_uuid (sx_env X) (w_random w)) lamport) w) (\<lambda>_.
          act_fold confirm_resumed completed ([], m)))))))"

section \<open>Evictions of a pass\<close>

definition MAX_AUTO_EVICTIONS_PER_PASS :: nat where
  "MAX_AUTO_EVICTIONS_PER_PASS = 1000"

definition sat_sub :: "u64 \<Rightarrow> u64 \<Rightarrow> u64" where
  "sat_sub a b = (if b \<le> a then a - b else 0)"

definition evict_paths :: "sync_ctx \<Rightarrow> sync_options \<Rightarrow> manifest \<Rightarrow> world \<Rightarrow> string list" where
  "evict_paths X opts manifest w =
     (let g = e_globs (sx_env X); b = db_baseline (w_db w); pending = pending_upload_paths (w_db w); now = now_secs w;
          paths = op_evict opts @ plan_policy_evictions g b manifest pending (op_policy opts) (op_evict_grace opts) now;
          available = e_available (sx_env X) (w_files w)
      in case op_space opts of
           None \<Rightarrow> paths
         | Some sp \<Rightarrow> if available < sp_min_free sp
             then paths @ plan_space_evictions (filter (\<lambda>c. ca_path c \<notin> set paths)
               (space_candidates g (sx_meta X (w_files w)) b manifest pending (op_policy opts) (op_evict_grace opts)
                 (op_evict_min_size opts) now)) (sat_sub (sp_target_free sp) available) MAX_AUTO_EVICTIONS_PER_PASS
             else paths)"

definition evict_pass :: "sync_ctx \<Rightarrow> sync_options \<Rightarrow> manifest \<Rightarrow> evict_outcome act" where
  "evict_pass X opts manifest =
     act_bind (act_get (evict_paths X opts manifest)) (\<lambda>paths.
     if paths = [] then act_ok \<lparr>eo_evicted = [], eo_bytes_freed = 0, eo_skipped = []\<rparr>
     else evict (sx_env X) (sx_racers X) (sx_prefix X) (op_verify_before_evict opts) manifest paths)"


section \<open>The pass\<close>

definition without_resumed :: "string list \<Rightarrow> plan \<Rightarrow> plan" where
  "without_resumed resumed p =
     p\<lparr>pl_actions := filter (\<lambda>a. \<not> (a_kind a = Upload \<and> a_path a \<in> set resumed)) (pl_actions p)\<rparr>"

definition planned_outcome :: "plan \<Rightarrow> sync_outcome" where
  "planned_outcome p = \<lparr>so_uploads = plan_count Upload p, so_downloads = plan_count Download p,
     so_deletes_local = plan_count DeleteLocal p, so_deletes_remote = plan_count DeleteRemote p,
     so_conflicts = plan_count Conflict p, so_hydrated = plan_count Hydrate p,
     so_placeholders = plan_count CreatePlaceholder p + plan_count UpdatePlaceholder p,
     so_relocated = plan_count Relocate p, so_evicted = 0, so_bytes_freed = 0, so_compacted = 0,
     so_not_evicted = [], so_failed = []\<rparr>"

definition uncount :: "plan \<Rightarrow> string \<times> merror \<Rightarrow> sync_outcome \<Rightarrow> sync_outcome" where
  "uncount p f so = (case map_option a_kind (find (\<lambda>a. a_path a = fst f) (pl_actions p)) of
      Some Upload \<Rightarrow> so\<lparr>so_uploads := so_uploads so - 1\<rparr>
    | Some Download \<Rightarrow> so\<lparr>so_downloads := so_downloads so - 1\<rparr>
    | Some Hydrate \<Rightarrow> so\<lparr>so_hydrated := so_hydrated so - 1\<rparr>
    | Some Relocate \<Rightarrow> so\<lparr>so_relocated := so_relocated so - 1\<rparr>
    | _ \<Rightarrow> so)"

definition outcome_of :: "plan \<Rightarrow> (string \<times> merror) list \<Rightarrow> sync_outcome" where
  "outcome_of p failed = (fold (uncount p) failed (planned_outcome p))\<lparr>so_failed := failed\<rparr>"

text \<open>A failed compaction does not fail the pass.\<close>

definition compact_pass :: "sync_ctx \<Rightarrow> sync_options \<Rightarrow> object_meta list \<Rightarrow> nat act" where
  "compact_pass X opts deltas = (case op_compaction opts of
      None \<Rightarrow> act_ok 0
    | Some cp \<Rightarrow> act_bind (act_get w_now) (\<lambda>now.
        if cp_threshold cp \<le> prunable_deltas now deltas (cp_grace cp)
        then act_bind (act_try (compact (sx_env X) (sx_prefix X) (cp_grace cp) (cp_object_retention cp))) (\<lambda>r.
             act_ok (case r of Inl (_ :: merror) \<Rightarrow> 0 | Inr n \<Rightarrow> n))
        else act_ok 0))"

definition sync_once :: "sync_ctx \<Rightarrow> sync_options \<Rightarrow> sync_outcome act" where
  "sync_once X opts =
     act_bind (plan_pass X opts) (\<lambda>pp.
     act_bind (resume_uploads X (pp_manifest pp) (pp_remote_lamport pp)) (\<lambda>(resumed, m1).
     (let p = without_resumed resumed (pp_plan pp) in
     act_bind (apply_plan (sx_pass X) p m1 (pp_remote_lamport pp)) (\<lambda>(failed, m2).
     act_bind (at_now (\<lambda>now. on_db (record_scan now (sr_entries (pp_scan pp))))) (\<lambda>_.
     act_bind (evict_pass X opts m2) (\<lambda>ev.
     act_bind (compact_pass X opts (pp_deltas pp)) (\<lambda>compacted.
     act_ok ((outcome_of p failed)\<lparr>so_evicted := length (eo_evicted ev), so_bytes_freed := eo_bytes_freed ev,
       so_not_evicted := eo_skipped ev, so_compacted := compacted\<rparr>))))))))"

end
