(* ===== verification/Sync_Safety.thy ===== *)
theory Sync_Safety
  imports Sync
begin

text \<open>
  The pass as a whole: the baseline is never ahead of the remote log across all its stages, what it
  reports is what it did, and a pass with nothing to do changes nothing.
\<close>

section \<open>What the stages leave alone\<close>

text \<open>Planning only removes rows (of losing versions that were renamed).\<close>

definition rows_shrink :: "world \<Rightarrow> world \<Rightarrow> bool" where
  "rows_shrink w v \<longleftrightarrow> db_device (w_db v) = db_device (w_db w) \<and>
     (\<forall>q. row_synced (w_db v) q = row_synced (w_db w) q \<or> row_synced (w_db v) q = None)"

lemma rows_shrink_refl [simp]: "rows_shrink w w"
  by (simp add: rows_shrink_def)

lemma rows_shrink_cong:
  "db_files (w_db v) = db_files (w_db u) \<Longrightarrow> db_device (w_db v) = db_device (w_db u) \<Longrightarrow> rows_shrink w v = rows_shrink w u"
  by (simp add: rows_shrink_def row_synced_def)

lemma rows_shrink_store [simp]: "rows_shrink w (v\<lparr>w_store := s\<rparr>) = rows_shrink w v"
  by (rule rows_shrink_cong) simp_all

lemma rows_shrink_files [simp]: "rows_shrink w (v\<lparr>w_files := s\<rparr>) = rows_shrink w v"
  by (rule rows_shrink_cong) simp_all

lemma keeps_shrink_store: "act_keeps (rows_shrink w) (on_store m)"
  by (rule keeps_on_store) simp

lemma keeps_shrink_generation: "act_keeps (rows_shrink w) (on_db (record_manifest_generation g))"
  by (rule keeps_on_db) (auto simp: record_manifest_generation_def rows_shrink_def row_synced_def)

lemma keeps_shrink_remove: "act_keeps (rows_shrink w) (on_db (remove_file_row path))"
  by (rule keeps_on_db) (auto simp: remove_file_row_def rows_shrink_def row_synced_def)

lemma keeps_shrink_rename: "act_keeps (rows_shrink w) (rename_node src dst)"
  by (auto simp: act_keeps_def rename_node_def split: option.splits)

lemma keeps_shrink_remove_stub: "act_keeps (rows_shrink w) (stub_remove path)"
  unfolding stub_remove_def remove_node_def by (intro keeps_bind keeps_res keeps_mod) simp

lemma keeps_shrink_pure: "act_keeps (rows_shrink w) (\<lambda>v. (f v, v))"
  by (simp add: act_keeps_def)

lemmas shrink_intros = keeps_intros keeps_shrink_store keeps_shrink_generation keeps_shrink_remove keeps_shrink_rename
  keeps_shrink_remove_stub keeps_shrink_pure

lemma keeps_shrink_from_store: "act_keeps (rows_shrink w) (from_store E pre)"
  unfolding from_store_def Let_def by (intro shrink_intros)

lemma keeps_shrink_read_deltas: "act_keeps (rows_shrink w) (read_deltas E pre)"
  unfolding read_deltas_def by (intro shrink_intros)

lemma keeps_shrink_preserve: "act_keeps (rows_shrink w) (preserve_conflict_losers E seen cs)"
  unfolding preserve_conflict_losers_def preserve_loser_def Let_def by (intro shrink_intros) (auto intro!: shrink_intros split: option.splits prod.splits)

lemma plan_pass_shrinks:
  assumes "plan_pass X opts w = (r, v)"
  shows "rows_shrink w v"
proof -
  have "act_keeps (rows_shrink w) (plan_pass X opts)"
    unfolding plan_pass_def drop_stale_def Let_def
    by (intro shrink_intros keeps_shrink_from_store keeps_shrink_read_deltas keeps_shrink_preserve)
  from act_keepsD [OF this _ assms] show ?thesis by simp
qed


section \<open>Apply writes only its own part of the log\<close>

text \<open>The objects under \<open>log/\<close> that are not delta batches of this clock and device.\<close>

definition log_kept :: "string \<Rightarrow> u64 \<Rightarrow> string \<Rightarrow> world \<Rightarrow> world \<Rightarrow> bool" where
  "log_kept pre l dev w v \<longleftrightarrow> device_id (w_db v) = Inr dev \<and>
     (\<forall>k. \<not> prefix (pre @ DATA_PREFIX) k \<and> (\<forall>i. k \<noteq> delta_key pre l dev i) \<longrightarrow>
       fmlookup (ms_entries (w_store v)) k = fmlookup (ms_entries (w_store w)) k)"

lemma log_kept_frame: "job_frame pre u v \<Longrightarrow> log_kept pre l dev w u \<Longrightarrow> log_kept pre l dev w v"
  by (auto simp: job_frame_def log_kept_def device_id_def)

lemma log_kept_cong:
  "w_store v = w_store u \<Longrightarrow> db_device (w_db v) = db_device (w_db u) \<Longrightarrow> log_kept pre l dev w v = log_kept pre l dev w u"
  by (simp add: log_kept_def device_id_def)

lemma keeps_log_job: "act_keeps (log_kept (cx_prefix C) l dev w) (run_job C j)"
  unfolding act_keeps_def using log_kept_frame job_frame_run by (metis prod.collapse)

lemma keeps_log_delta: "act_keeps (log_kept pre l dev w) (log_delta E pre ds l i)"
  unfolding act_keeps_def
  by (auto simp: log_delta_def act_bind_run Let_def put_bytes_def on_store_run mem_put_bytes_def log_kept_def
      mem_insert_def split: sum.splits)

lemma keeps_log_op: "act_keeps (log_kept pre l dev w) (apply_op E bop)"
  unfolding act_keeps_def using apply_op_run log_kept_cong by (metis prod.collapse)

lemma keeps_log_flush: "act_keeps (log_kept (cx_prefix C) l dev w) (flush C l b)"
  unfolding flush_def by (intro keeps_intros keeps_log_delta keeps_log_op)

lemma keeps_log_flush_full: "act_keeps (log_kept (cx_prefix C) l dev w) (flush_full C l b)"
  unfolding flush_full_def by (intro keeps_intros keeps_log_flush)

lemma keeps_abandon: "act_keeps (log_kept (cx_prefix C) l dev w) (abandon C js e)"
  unfolding act_keeps_def using log_kept_frame job_frame_abandon by (metis prod.collapse)

lemma keeps_or_abandon:
  "act_keeps (log_kept (cx_prefix C) l dev w) m \<Longrightarrow> act_keeps (log_kept (cx_prefix C) l dev w) (act_or_abandon C js m)"
  unfolding act_or_abandon_def by (intro keeps_intros keeps_abandon)

lemma keeps_log_pure: "act_keeps (log_kept pre l dev w) (\<lambda>v. (f v, v))"
  by (simp add: act_keeps_def)

lemma keeps_log_take: "act_keeps (log_kept pre l dev w) (take_result p l' a r b)"
  unfolding take_result_def new_delta_def Let_def query_db_def
  by (intro keeps_intros) (auto intro!: keeps_intros keeps_log_pure split: action_outcome.splits option.splits)

lemma keeps_log_join: "act_keeps (log_kept (cx_prefix C) l dev w) (join_jobs C p l js b)"
  by (induction js arbitrary: b)
    (auto intro!: keeps_intros keeps_or_abandon keeps_log_job keeps_log_take keeps_log_flush_full)

lemma keeps_log_spawn: "act_keeps (log_kept (cx_prefix C) l dev w) (spawn_jobs C p m js as)"
  by (induction as arbitrary: js) (auto intro!: keeps_intros keeps_or_abandon)

lemma keeps_log_local: "act_keeps (log_kept (cx_prefix C) l dev w) (local_step C l' a b)"
proof -
  have d: "act_keeps (log_kept (cx_prefix C) l dev w) (delete_local path)" for path
    unfolding act_keeps_def using log_kept_frame job_frame_delete by (metis prod.collapse)
  have c: "act_keeps (log_kept (cx_prefix C) l dev w) (conflict E path)" for E path
    unfolding act_keeps_def using log_kept_cong conflict_run by (metis prod.collapse)
  show ?thesis
    unfolding local_step_def Let_def query_db_def
    by (cases "a_kind a") (auto intro!: keeps_intros keeps_log_pure d c split: option.splits)
qed

lemma apply_plan_log:
  assumes "apply_plan C p m rl w = (r, v)" and "get_latest_lamport (w_db w) = Inr ll" and "device_id (w_db w) = Inr dev"
  shows "log_kept (cx_prefix C) (max rl ll + 1) dev w v"
proof -
  let ?l = "max rl ll + 1" and ?P = "log_kept (cx_prefix C) (max rl ll + 1) dev w"
  have rec: "act_keeps ?P (\<lambda>v. on_db (record_lamport (f v) ?l) v)" for f
    by (auto simp: act_keeps_def on_db_run record_lamport_def log_kept_def device_id_def split: option.splits)
  have "act_keeps ?P (act_bind (spawn_jobs C p m [] (pl_actions p)) (\<lambda>js.
     act_bind (join_jobs C p ?l (cx_order C js)
       \<lparr>ba_manifest = m, ba_deltas = [], ba_ops = [], ba_seq = 0, ba_pinned = [], ba_failed = []\<rparr>) (\<lambda>b1.
     act_bind (local_actions C ?l (pl_actions p) b1) (\<lambda>b2.
     act_bind (flush C ?l b2) (\<lambda>b3.
     act_bind (\<lambda>w. on_db (record_lamport (e_uuid (cx_env C) (w_random w)) ?l) w) (\<lambda>_.
     act_ok (sort_key fst (ba_failed b3), ba_manifest b3)))))))" (is "act_keeps ?P ?m")
    unfolding local_actions_def
    by (intro keeps_intros keeps_log_spawn keeps_log_join keeps_log_local keeps_log_flush_full keeps_log_flush rec)
  moreover have "?P w" using assms(3) by (simp add: log_kept_def)
  moreover have "?m w = (r, v)" using assms(1,2) by (simp add: apply_plan_def act_bind_run Let_def)
  ultimately show ?thesis by (rule act_keepsD)
qed


section \<open>Resumed uploads\<close>

lemma keeps_resume_put: "act_keeps (transfer_keeps K w) (on_store (mem_resume_put k uid n))"
  by (rule keeps_on_store) (auto simp: mem_resume_put_def split: option.splits intro!: transfer_keeps_store)

lemma resume_put_key: "on_store (mem_resume_put k uid n) v = (Inr sink, v') \<Longrightarrow> ps_key sink = k"
  by (auto simp: on_store_run mem_resume_put_def split: option.splits)

lemma job_frame_resume:
  assumes "resume_upload E u stats pre w = (r, v)"
  shows "job_frame pre w v"
proof -
  obtain sz mt h where st: "stats = (sz, mt, h)" by (cases stats)
  let ?K = "{k. prefix (pre @ DATA_PREFIX) k}"
  let ?k = "pre @ object_key E (pu_path u) (pu_content_hash u)"
  have k: "?k \<in> ?K" by (simp add: object_key_def)
  have fin: "act_keeps (transfer_keeps ?K w) (finish_upload True path source sz sink
      (resume_parts E m path 1 n np len sink e))" if "ps_key sink = ?k" for path source sink m n np len e
    using that k by (intro keeps_finish_upload keeps_resume_parts) (auto dest: resume_parts_key)
  let ?m = "\<lambda>n. act_bind (act_res (streaming_encryptor_new [] (e_content_key E)
        (files_fs (w_files w)) (pu_path u) (pu_path u) (Some (pu_nonce u)))) (\<lambda>e.
     act_bind (on_store (mem_resume_put ?k (pu_upload_id u) n)) (\<lambda>sink.
     act_bind (finish_upload True (pu_path u) (pu_path u) sz sink
       (resume_parts E (pu_part_size u) (pu_path u) 1 n (if n = 1 then Some (pu_nonce u) else None)
          (of_nat NONCE_SIZE) sink e)) (\<lambda>_.
     act_ok \<lparr>ur_size = sz, ur_mtime_ns = mt, ur_content_hash = h,
       ur_object_key = object_key E (pu_path u) (pu_content_hash u)\<rparr>)))"
  have m: "act_keeps (transfer_keeps ?K w) (?m n)" for n
    by (intro keeps_bind keeps_res keeps_bind_val [OF keeps_resume_put] keeps_ok fin) (auto dest: resume_put_key)
  have "transfer_keeps ?K w v"
  proof (cases "length (pu_nonce u) = NONCE_SIZE")
    case True
    with assms have "?m (Max (insert 0 (set (map cp_part_number (pu_completed_parts u)))) + 1) w = (r, v)"
      by (simp add: resume_upload_def st Let_def)
    from act_keepsD [OF m _ this] show ?thesis by simp
  next
    case False
    with assms have "v = w" by (simp add: resume_upload_def st Let_def)
    then show ?thesis by simp
  qed
  then show ?thesis by (rule job_frame_transfer)
qed

lemma job_frame_clear:
  "act_bind (on_db (clear_upload path)) (\<lambda>_. act_bind (on_store (mem_abort_multipart_upload k uid)) (\<lambda>_. act_ok x)) w = (r, v)
    \<Longrightarrow> job_frame pre w v"
  by (auto simp: act_bind_run on_db_run on_store_run clear_upload_def mem_abort_multipart_upload_def job_frame_def)

text \<open>The completed uploads of the list: their deltas describe what was uploaded.\<close>

definition resumed_ok :: "u64 \<Rightarrow> (delta_entry \<times> upload_result) list \<Rightarrow> bool" where
  "resumed_ok l cs \<longleftrightarrow> (\<forall>(e, r)\<in>set cs. d_plaintext_hash e = ur_content_hash r \<and> \<not> d_deleted e \<and> d_lamport e = l)"

lemma resume_one_frame:
  assumes "resume_one X m l u cs w = (r, v)"
  shows "job_frame (sx_prefix X) w v \<and> (\<forall>cs'. r = Inr cs' \<longrightarrow> resumed_ok l cs \<longrightarrow> resumed_ok l cs')"
proof (cases "\<exists>stats. hash_stable (sx_env X) (sx_resume_seen X (pu_path u)) (pu_path u) = Inr (Some stats) \<and>
    snd (snd stats) = pu_content_hash u")
  case True
  then obtain sz mt h where hs: "hash_stable (sx_env X) (sx_resume_seen X (pu_path u)) (pu_path u) = Inr (Some (sz, mt, h))"
    "h = pu_content_hash u" by auto
  obtain q w1 where res: "resume_upload (sx_env X) u (sz, mt, h) (sx_prefix X) w = (q, w1)"
    by (cases "resume_upload (sx_env X) u (sz, mt, h) (sx_prefix X) w")
  from job_frame_resume [OF res] have f: "job_frame (sx_prefix X) w w1" .
  show ?thesis
  proof (cases q)
    case (Inl e)
    with assms hs res f show ?thesis
      by (cases e) (auto simp: resume_one_def Let_def act_bind_run act_try_run)
  next
    case (Inr x)
    with assms hs res f show ?thesis
      by (auto simp: resume_one_def Let_def act_bind_run act_try_run resumed_ok_def resumed_entry_def split: sum.splits)
  qed
next
  case False
  let ?m = "act_bind (on_db (clear_upload (pu_path u))) (\<lambda>_. act_bind (on_store (mem_abort_multipart_upload
      (sx_prefix X @ object_key (sx_env X) (pu_path u) (pu_content_hash u)) (pu_upload_id u))) (\<lambda>_. act_ok cs))"
  have "resume_one X m l u cs = ?m"
    using False by (auto simp: resume_one_def Let_def split: sum.splits option.splits)
  with assms have m: "?m w = (r, v)" by simp
  then have "r = Inr cs" by (auto simp: act_bind_run on_db_run on_store_run clear_upload_def mem_abort_multipart_upload_def)
  with job_frame_clear [OF m] show ?thesis by simp
qed

lemma resume_fold_frame:
  assumes "act_fold (resume_one X m l) us cs w = (r, v)" and "resumed_ok l cs"
  shows "job_frame (sx_prefix X) w v \<and> (\<forall>cs'. r = Inr cs' \<longrightarrow> resumed_ok l cs')"
  using assms
proof (induction us arbitrary: cs w)
  case (Cons u us)
  obtain q w1 where s: "resume_one X m l u cs w = (q, w1)" by (cases "resume_one X m l u cs w")
  from resume_one_frame [OF s] Cons.prems(2) have f: "job_frame (sx_prefix X) w w1" "\<And>cs'. q = Inr cs' \<Longrightarrow> resumed_ok l cs'"
    by auto
  show ?case
  proof (cases q)
    case (Inl e)
    with Cons.prems(1) s f show ?thesis by (auto simp: act_bind_run)
  next
    case (Inr cs1)
    with Cons.prems(1) s have "act_fold (resume_one X m l) us cs1 w1 = (r, v)" by (simp add: act_bind_run)
    from Cons.IH [OF this f(2) [OF Inr]] f(1) show ?thesis using job_frame_trans by blast
  qed
qed auto

lemma confirm_fold:
  assumes "act_fold confirm_resumed cs acc w = (r, v)" and "resumed_ok l cs"
  shows "w_store v = w_store w \<and> db_device (w_db v) = db_device (w_db w) \<and>
    (\<forall>q. row_synced (w_db v) q = row_synced (w_db w) q \<or>
       (\<exists>(e, u)\<in>set cs. d_path e = q \<and> row_synced (w_db v) q = Some (Some (d_plaintext_hash e)))) \<and>
    (\<exists>acc'. r = Inr acc' \<and> (\<forall>q e. fmlookup (snd acc') q = Some e \<longrightarrow>
       fmlookup (snd acc) q = Some e \<or> (\<exists>u. (e, u) \<in> set cs \<and> d_path e = q)) \<and>
       (\<forall>q. fmlookup (snd acc') q = None \<longrightarrow> fmlookup (snd acc) q = None))"
  using assms
proof (induction cs arbitrary: acc w)
  case (Cons c cs)
  obtain e u where c: "c = (e, u)" by (cases c)
  define w1 where "w1 = snd (on_db (confirm_sync (now_secs w) (d_path e) (ur_size u) (ur_mtime_ns u) (ur_content_hash u)) w)"
  have step: "confirm_resumed c acc w = (Inr (fst acc @ [d_path e], fmupd (d_path e) e (snd acc)), w1)"
    by (simp add: confirm_resumed_def c act_bind_run at_now_run on_db_run confirm_sync_def w1_def)
  have h: "d_plaintext_hash e = ur_content_hash u" using Cons.prems(2) c by (auto simp: resumed_ok_def)
  have w1: "w_store w1 = w_store w" "db_device (w_db w1) = db_device (w_db w)"
    "\<And>q. row_synced (w_db w1) q = (if q = d_path e then Some (Some (d_plaintext_hash e)) else row_synced (w_db w) q)"
    by (auto simp: w1_def on_db_run confirm_sync_def row_synced_def h)
  have rest: "act_fold confirm_resumed cs (fst acc @ [d_path e], fmupd (d_path e) e (snd acc)) w1 = (r, v)"
    using Cons.prems(1) step by (simp add: act_bind_run)
  have "resumed_ok l cs" using Cons.prems(2) by (simp add: resumed_ok_def)
  note ih = Cons.IH [OF rest this]
  have "row_synced (w_db v) q = row_synced (w_db w) q \<or>
       (\<exists>(e, u)\<in>set (c # cs). d_path e = q \<and> row_synced (w_db v) q = Some (Some (d_plaintext_hash e)))" for q
  proof -
    from ih have "row_synced (w_db v) q = row_synced (w_db w1) q \<or>
        (\<exists>(e, u)\<in>set cs. d_path e = q \<and> row_synced (w_db v) q = Some (Some (d_plaintext_hash e)))" by blast
    then show ?thesis using w1(3) [of q] c by (cases "q = d_path e") auto
  qed
  moreover from ih obtain acc' where acc': "r = Inr acc'" "\<And>q x. fmlookup (snd acc') q = Some x \<Longrightarrow>
       fmlookup (fmupd (d_path e) e (snd acc)) q = Some x \<or> (\<exists>u. (x, u) \<in> set cs \<and> d_path x = q)"
    "\<And>q. fmlookup (snd acc') q = None \<Longrightarrow> fmlookup (fmupd (d_path e) e (snd acc)) q = None" by auto
  moreover have "fmlookup (snd acc) q = Some x \<or> (\<exists>u. (x, u) \<in> set (c # cs) \<and> d_path x = q)"
    if "fmlookup (snd acc') q = Some x" for q x
    using acc'(2) [OF that] c by (auto split: if_splits)
  moreover have "fmlookup (snd acc) q = None" if "fmlookup (snd acc') q = None" for q
    using acc'(3) [OF that] by (auto split: if_splits)
  ultimately show ?case using ih w1(1,2) by auto
qed auto


text \<open>A delta in the batch that \<open>resume_uploads\<close> writes.\<close>

definition in_batch :: "env \<Rightarrow> string \<Rightarrow> u64 \<Rightarrow> string \<Rightarrow> world \<Rightarrow> delta_entry \<Rightarrow> bool" where
  "in_batch E pre l dev w d \<longleftrightarrow> (\<exists>ob ds. fmlookup (ms_entries (w_store w)) (delta_key pre l dev 0) = Some ob \<and>
     e_delta_parse E (obj_bytes ob) = Some ds \<and> d \<in> set ds)"

lemma in_batch_log: "in_batch E pre l dev w d \<Longrightarrow> in_log E pre w d"
  unfolding in_batch_def in_log_def by (metis delta_key_def prefixI)

lemma in_batch_store: "w_store v = w_store w \<Longrightarrow> in_batch E pre l dev v d = in_batch E pre l dev w d"
  by (simp add: in_batch_def)

definition resume_result :: "env \<Rightarrow> string \<Rightarrow> u64 \<Rightarrow> string \<Rightarrow> manifest \<Rightarrow> world \<Rightarrow> world \<Rightarrow> merror + string list \<times> manifest \<Rightarrow> bool" where
  "resume_result E pre l dev m w v r \<longleftrightarrow> device_id (w_db v) = Inr dev \<and>
     (\<forall>q h. row_synced (w_db v) q = Some (Some h) \<longrightarrow> row_synced (w_db w) q = Some (Some h) \<or>
        (\<exists>d. in_batch E pre l dev v d \<and> d_path d = q \<and> \<not> d_deleted d \<and> d_plaintext_hash d = h)) \<and>
     (\<forall>rs m'. r = Inr (rs, m') \<longrightarrow>
        (m' = m \<and> (\<forall>q. row_synced (w_db v) q = row_synced (w_db w) q) \<and> get_latest_lamport (w_db v) = get_latest_lamport (w_db w)) \<or>
        (get_latest_lamport (w_db v) = Inr (u64_or_zero (sat_i64 l)) \<and>
         (\<forall>q e. fmlookup m' q = Some e \<longrightarrow> fmlookup m q = Some e \<or> (in_batch E pre l dev v e \<and> d_path e = q \<and> \<not> d_deleted e))))"

lemma resume_uploads_ok:
  assumes "resume_uploads X m rl w = (r, v)" and "get_latest_lamport (w_db w) = Inr ll" and "device_id (w_db w) = Inr dev"
    and "delta_codec_ok (sx_env X)"
  shows "resume_result (sx_env X) (sx_prefix X) (max rl ll + 1) dev m w v r"
proof -
  let ?l = "max rl ll + 1" and ?E = "sx_env X" and ?pre = "sx_prefix X"
  obtain q w1 where f: "act_fold (resume_one X m ?l) (pending_uploads (w_db w)) [] w = (q, w1)"
    by (cases "act_fold (resume_one X m ?l) (pending_uploads (w_db w)) [] w")
  have "resumed_ok ?l []" by (simp add: resumed_ok_def)
  from resume_fold_frame [OF f this] have fr: "job_frame ?pre w w1" and ok: "\<And>cs. q = Inr cs \<Longrightarrow> resumed_ok ?l cs" by auto
  have same: "row_synced (w_db w1) p = row_synced (w_db w) p" "device_id (w_db w1) = Inr dev"
    "get_latest_lamport (w_db w1) = get_latest_lamport (w_db w)" for p
    using fr assms(3) by (simp_all add: job_frame_def row_synced_def device_id_def get_latest_lamport_def)
  have stopped: "resume_result ?E ?pre ?l dev m w v r"
    if "w_db v = w_db w1" "\<And>rs m'. r = Inr (rs, m') \<Longrightarrow> m' = m" for v
    using that same by (auto simp: resume_result_def)
  show ?thesis
  proof (cases q)
    case (Inl e)
    with assms(1,2) f show ?thesis by (intro stopped) (auto simp: resume_uploads_def act_bind_run Let_def)
  next
    case (Inr cs)
    show ?thesis
    proof (cases "cs = []")
      case True
      with Inr assms(1,2) f show ?thesis by (intro stopped) (auto simp: resume_uploads_def act_bind_run Let_def)
    next
      case False
      obtain q2 w2 where lg: "log_delta ?E ?pre (map fst cs) ?l 0 w1 = (q2, w2)"
        by (cases "log_delta ?E ?pre (map fst cs) ?l 0 w1")
      show ?thesis
      proof (cases q2)
        case (Inl e)
        with Inr False assms(1,2) f lg log_delta_db [OF lg] show ?thesis
          by (intro stopped) (auto simp: resume_uploads_def act_bind_run Let_def)
      next
        case (Inr k)
        define w3 where "w3 = snd (on_db (record_lamport (e_uuid ?E (w_random w2)) ?l) w2)"
        have w3: "on_db (record_lamport (e_uuid ?E (w_random w2)) ?l) w2 = (Inr (), w3)"
          by (simp add: w3_def on_db_run record_lamport_def)
        have rest: "act_fold confirm_resumed cs ([], m) w3 = (r, v)"
          using assms(1,2) f lg \<open>q = Inr cs\<close> Inr False w3 by (simp add: resume_uploads_def act_bind_run Let_def)
        have batch: "in_batch ?E ?pre ?l dev w3 d" if "d \<in> set (map fst cs)" for d
          using lg Inr same(2) that assms(4)
          by (auto simp: log_delta_def act_bind_ok Let_def put_bytes_ok w3_def on_db_run record_lamport_def in_batch_def
              mem_insert_def delta_codec_ok_def) force
        have row3: "row_synced (w_db w3) p = row_synced (w_db w) p" for p
          using log_delta_db [OF lg] same(1) by (simp add: w3_def on_db_run record_lamport_def row_synced_def)
        have dev3: "device_id (w_db w3) = Inr dev" "get_latest_lamport (w_db w3) = Inr (u64_or_zero (sat_i64 ?l))"
          using log_delta_db [OF lg] same(2)
          by (auto simp: w3_def on_db_run record_lamport_def device_id_def get_latest_lamport_def split: option.splits)
        from confirm_fold [OF rest ok [OF \<open>q = Inr cs\<close>]] obtain acc' where
          v: "w_store v = w_store w3" "db_device (w_db v) = db_device (w_db w3)" "r = Inr acc'"
          "\<And>q. row_synced (w_db v) q = row_synced (w_db w3) q \<or>
             (\<exists>(e, u)\<in>set cs. d_path e = q \<and> row_synced (w_db v) q = Some (Some (d_plaintext_hash e)))"
          "\<And>q e. fmlookup (snd acc') q = Some e \<Longrightarrow> fmlookup m q = Some e \<or> (\<exists>u. (e, u) \<in> set cs \<and> d_path e = q)"
          by auto
        have b: "in_batch ?E ?pre ?l dev v e" "\<not> d_deleted e" if "(e, u) \<in> set cs" for e u
          using batch [of e] that ok [OF \<open>q = Inr cs\<close>] in_batch_store [OF v(1)] by (force simp: resumed_ok_def)+
        have rows: "row_synced (w_db w) p = Some (Some h) \<or>
            (\<exists>d. in_batch ?E ?pre ?l dev v d \<and> d_path d = p \<and> \<not> d_deleted d \<and> d_plaintext_hash d = h)"
          if "row_synced (w_db v) p = Some (Some h)" for p h
        proof (cases "row_synced (w_db v) p = row_synced (w_db w3) p")
          case True
          with that row3 show ?thesis by simp
        next
          case False
          with v(4) [of p] obtain e u where eu: "(e, u) \<in> set cs" "d_path e = p"
            "row_synced (w_db v) p = Some (Some (d_plaintext_hash e))" by auto
          from eu(3) that have "d_plaintext_hash e = h" by simp
          with b [OF eu(1)] eu(2) show ?thesis by blast
        qed
        have man: "fmlookup m p = Some e \<or> (in_batch ?E ?pre ?l dev v e \<and> d_path e = p \<and> \<not> d_deleted e)"
          if "fmlookup (snd acc') p = Some e" for p e
          using v(5) [OF that] b by auto
        show ?thesis
          using v(2,3) dev3 rows man unfolding resume_result_def
          by (auto simp: device_id_def get_latest_lamport_def)
      qed
    qed
  qed
qed


section \<open>Evictions and the scan\<close>

definition evict_keeps :: "world \<Rightarrow> world \<Rightarrow> bool" where
  "evict_keeps w v \<longleftrightarrow> (\<forall>q. row_synced (w_db v) q = row_synced (w_db w) q) \<and>
     ms_entries (w_store v) = ms_entries (w_store w)"

lemma evict_keeps_refl [simp]: "evict_keeps w w"
  by (simp add: evict_keeps_def)

lemma evict_keeps_files [simp]: "evict_keeps w (v\<lparr>w_files := f\<rparr>) = evict_keeps w v"
  by (simp add: evict_keeps_def)

lemma keeps_evict_verified: "act_keeps (evict_keeps w) (remote_verified E verify pre e)"
proof -
  have "\<exists>n. snd (fetch_verified E pre e v) = v\<lparr>w_store := (w_store v)\<lparr>ms_bytes_read := n\<rparr>\<rparr>" for v
    by (rule fetch_verified_frame)
  then have "act_keeps (evict_keeps w) (fetch_verified E pre e)"
    unfolding act_keeps_def evict_keeps_def by (metis mem_store.select_convs(1) mem_store.surjective mem_store.update_convs(5)
      world.select_convs(1,2) world.surjective world.update_convs(1))
  then show ?thesis unfolding remote_verified_def by (intro keeps_intros)
qed

lemma keeps_evict_mark: "act_keeps (evict_keeps w) (on_db (mark_evicted now path))"
  "act_keeps (evict_keeps w) (on_db (mark_local path))"
proof -
  have "row_synced (snd (update_file path f db)) q = row_synced db q"
    if "\<And>r. row_last_synced_hash (f r) = row_last_synced_hash r" for path f q db
    using that by (auto simp: update_file_def row_synced_def split: option.splits)
  then show "act_keeps (evict_keeps w) (on_db (mark_evicted now path))" "act_keeps (evict_keeps w) (on_db (mark_local path))"
    by (auto intro!: keeps_on_db simp: evict_keeps_def mark_evicted_def mark_local_def)
qed

lemma keeps_evict_misc:
  "act_keeps (evict_keeps w) (fresh_uuid E)" "act_keeps (evict_keeps w) (rename_node a b)"
  "act_keeps (evict_keeps w) (remove_node a)" "act_keeps (evict_keeps w) (stub_remove a)"
  "act_keeps (evict_keeps w) (stub_write E s)" "act_keeps (evict_keeps w) (on_store (mem_head k))"
  by (auto simp: act_keeps_def evict_keeps_def rename_node_def remove_node_def stub_remove_def stub_write_def write_node_def
      act_bind_run on_store_run mem_head_def split: option.splits sum.splits)

lemma keeps_evict_one: "act_keeps (evict_keeps w) (evict_one E racer pre verify m rec pending)"
proof -
  have pure: "act_keeps (evict_keeps w) (\<lambda>v. (f v, v))" for f :: "world \<Rightarrow> merror + 'b" by (simp add: act_keeps_def)
  have swap: "act_keeps (evict_keeps w) (swap_for_stub E racer path local stats okey)" for path local stats okey
    unfolding swap_for_stub_def take_away_def Let_def
    by (intro keeps_intros keeps_evict_mark keeps_evict_misc pure) (simp_all add: evict_keeps_def)
  show ?thesis
    unfolding evict_one_def Let_def
    by (intro keeps_intros keeps_evict_verified keeps_evict_misc pure swap)
      (auto intro!: keeps_intros keeps_evict_verified keeps_evict_misc swap split: option.splits prod.splits)
qed

lemma evict_pass_keeps:
  assumes "evict_pass X opts m w = (r, v)"
  shows "evict_keeps w v"
proof -
  have "act_keeps (evict_keeps w) (evict_pass X opts m)"
    unfolding evict_pass_def evict_def by (intro keeps_intros keeps_evict_one)
  from act_keepsD [OF this _ assms] show ?thesis by simp
qed

lemma record_scan_rows:
  "row_synced (snd (record_scan now es db)) q =
    (case row_synced db q of Some s \<Rightarrow> Some s | None \<Rightarrow> if q \<in> le_path ` set es then Some None else None)"
  using record_scan_last_synced [of now es "db_files db" q]
  by (auto simp: record_scan_def row_synced_def split: option.splits)

section \<open>The whole pass\<close>

lemma delta_key_lamport: "delta_key pre l d s = delta_key pre l' d t \<Longrightarrow> l = l'"
  by (auto simp: delta_key_def dec_pad_u64_length dest!: arg_cong [where f = dec_val] intro: word_unat_eq_iff [THEN iffD2])

lemma clock_kept: "(l :: u64) < 2 ^ 63 \<Longrightarrow> u64_or_zero (sat_i64 l) = l"
  by (simp add: u64_of_sat_i64 i64_max_def word_less_alt)

lemma clock_steps:
  assumes "(a :: u64) < 2 ^ 62" and "r \<le> a"
  shows "a + 1 < 2 ^ 63" and "max r (a + 1) + 1 \<noteq> a + 1"
proof -
  have u: "unat a < 2 ^ 62" using assms(1) by (simp add: word_less_nat_alt)
  then have s: "unat (a + 1) = unat a + 1" "unat (a + 2) = unat a + 2" by (simp_all add: unat_word_ariths)
  from u s show "a + 1 < 2 ^ 63" by (simp add: word_less_nat_alt)
  from assms(2) s have "r \<le> a + 1" by (simp add: word_le_nat_alt)
  then have "max r (a + 1) + 1 = a + 2" by (simp add: max_def)
  with s show "max r (a + 1) + 1 \<noteq> a + 1" by auto
qed

lemma in_batch_kept:
  assumes "log_kept pre l' dev w v" and "l \<noteq> l'" and "in_batch E pre l dev w d"
  shows "in_batch E pre l dev v d"
  using assms delta_key_lamport [of pre l dev 0 l'] delta_key_not_data [of pre l dev 0]
  unfolding log_kept_def in_batch_def by metis

lemma in_log_entries: "ms_entries (w_store v) = ms_entries (w_store w) \<Longrightarrow> in_log E pre v d = in_log E pre w d"
  by (simp add: in_log_def)

text \<open>What the remote side is known to hold after a pass with the plan \<open>pp\<close>.\<close>

definition remote_knows :: "sync_ctx \<Rightarrow> pass_plan \<Rightarrow> world \<Rightarrow> string \<Rightarrow> hash \<Rightarrow> bool" where
  "remote_knows X pp w q h \<longleftrightarrow> (\<exists>e. fmlookup (pp_manifest pp) q = Some e \<and> d_plaintext_hash e = h) \<or>
     (\<exists>d. in_log (sx_env X) (sx_prefix X) w d \<and> d_path d = q \<and> \<not> d_deleted d \<and> d_plaintext_hash d = h)"

lemma resumed_then_applied:
  assumes "resume_uploads X (pp_manifest pp) (pp_remote_lamport pp) w1 = (Inr (rs, m1), w2)"
    and "apply_plan (sx_pass X) p m1 (pp_remote_lamport pp) w2 = (r, w3)"
    and "get_latest_lamport (w_db w1) = Inr ll" and "device_id (w_db w1) = Inr dev"
    and "delta_codec_ok (sx_env X)" and "joins_all (sx_pass X)" and "2 * length (pl_actions p) + 1 < 2 ^ 32"
    and "ll < 2 ^ 62" and "pp_remote_lamport pp < 2 ^ 62"
    and "row_synced (w_db w3) q = Some (Some h)"
  shows "row_synced (w_db w1) q = Some (Some h) \<or> remote_knows X pp w3 q h"
proof -
  let ?E = "sx_env X" and ?pre = "sx_prefix X" and ?rl = "pp_remote_lamport pp"
  let ?l = "max ?rl ll + 1"
  from resume_uploads_ok [OF assms(1,3,4,5)]
  have rr: "resume_result ?E ?pre ?l dev (pp_manifest pp) w1 w2 (Inr (rs, m1))" .
  from apply_plan_synced [OF assms(2,5,6,7)] assms(10)
  consider "row_synced (w_db w2) q = Some (Some h)" | e where "fmlookup m1 q = Some e" "d_plaintext_hash e = h"
    | d where "in_log ?E ?pre w3 d" "d_path d = q" "\<not> d_deleted d" "d_plaintext_hash d = h" by blast
  note from_apply = this
  have dev2: "device_id (w_db w2) = Inr dev" using rr by (simp add: resume_result_def)
  show ?thesis
  proof (cases "m1 = pp_manifest pp \<and> (\<forall>q. row_synced (w_db w2) q = row_synced (w_db w1) q)")
    case True
    then show ?thesis using from_apply by cases (auto simp: remote_knows_def)
  next
    case False
    with rr have l2: "get_latest_lamport (w_db w2) = Inr (u64_or_zero (sat_i64 ?l))"
      and m1: "\<And>q e. fmlookup m1 q = Some e \<Longrightarrow> fmlookup (pp_manifest pp) q = Some e \<or>
         (in_batch ?E ?pre ?l dev w2 e \<and> d_path e = q \<and> \<not> d_deleted e)"
      and rows: "\<And>q h. row_synced (w_db w2) q = Some (Some h) \<Longrightarrow> row_synced (w_db w1) q = Some (Some h) \<or>
         (\<exists>d. in_batch ?E ?pre ?l dev w2 d \<and> d_path d = q \<and> \<not> d_deleted d \<and> d_plaintext_hash d = h)"
      by (auto simp: resume_result_def)
    have mx: "max ?rl ll < 2 ^ 62" using assms(8,9) by simp
    have ne: "?l \<noteq> max ?rl (u64_or_zero (sat_i64 ?l)) + 1"
      using clock_steps [OF mx, of ?rl] clock_kept [of ?l] by simp
    from apply_plan_log [OF assms(2) l2 dev2]
    have kept: "log_kept ?pre (max ?rl (u64_or_zero (sat_i64 ?l)) + 1) dev w2 w3" by simp
    have b: "in_log ?E ?pre w3 d" if "in_batch ?E ?pre ?l dev w2 d" for d
      using in_batch_log [OF in_batch_kept [OF kept ne that]] .
    from from_apply show ?thesis
    proof cases
      case 1
      with rows b show ?thesis unfolding remote_knows_def by blast
    next
      case (2 e)
      with m1 [OF 2(1)] b show ?thesis unfolding remote_knows_def by blast
    next
      case 3
      then show ?thesis unfolding remote_knows_def by blast
    qed
  qed
qed

lemma record_scan_frame: "w_store (snd (on_db (record_scan now es) w)) = w_store w"
  by (simp add: on_db_run split: prod.splits)

lemma on_db_scan: "on_db (record_scan now es) w = (Inr (), w\<lparr>w_db := snd (record_scan now es (w_db w))\<rparr>)"
  by (simp add: on_db_run record_scan_def)

text \<open>
  C11: the baseline is never ahead of the remote side across a whole pass, however it ends. A path that the
  database calls synchronised with some content either was so before the pass, or the manifest the pass
  merged has that content, or a delta batch in the store records it. Planning, the renaming of losers,
  uploads resumed from an earlier run (which are logged under their own clock value before their rows
  are confirmed, and whose batch the batches of the plan do not overwrite), the plan, the scan and the
  evictions are all covered; the clocks are away from the end of their range and the pass does not
  compact the log.
\<close>

theorem sync_baseline_not_ahead:
  assumes "sync_once X opts w = (res, w')" and "plan_pass X opts w = (Inr pp, w1)" and "op_compaction opts = None"
    and "delta_codec_ok (sx_env X)" and "joins_all (sx_pass X)" and "2 * length (pl_actions (pp_plan pp)) + 1 < 2 ^ 32"
    and "get_latest_lamport (w_db w1) = Inr ll" and "ll < 2 ^ 62" and "pp_remote_lamport pp < 2 ^ 62"
    and "row_synced (w_db w') q = Some (Some h)"
  shows "row_synced (w_db w) q = Some (Some h) \<or> (\<exists>e. fmlookup (pp_manifest pp) q = Some e \<and> d_plaintext_hash e = h) \<or>
    (\<exists>d. in_log (sx_env X) (sx_prefix X) w' d \<and> d_path d = q \<and> \<not> d_deleted d \<and> d_plaintext_hash d = h)"
proof -
  have w1: "row_synced (w_db w) q = Some (Some h)" if "row_synced (w_db w1) q = Some (Some h)"
    using plan_pass_shrinks [OF assms(2)] that by (auto simp: rows_shrink_def) (metis option.distinct(1))
  obtain dev where dev: "device_id (w_db w1) = Inr dev"
    using assms(7) by (auto simp: get_latest_lamport_def device_id_def split: option.splits)
  obtain q2 w2 where r2: "resume_uploads X (pp_manifest pp) (pp_remote_lamport pp) w1 = (q2, w2)"
    by (cases "resume_uploads X (pp_manifest pp) (pp_remote_lamport pp) w1")
  have "row_synced (w_db w1) q = Some (Some h) \<or> remote_knows X pp w' q h"
  proof (cases q2)
    case (Inl e)
    with assms(1,2) r2 have "w' = w2" by (simp add: sync_once_def act_bind_run)
    with resume_uploads_ok [OF r2 assms(7) dev assms(4)] assms(10) show ?thesis
      unfolding resume_result_def remote_knows_def using in_batch_log by blast
  next
    case (Inr x)
    then obtain rs m1 where x: "q2 = Inr (rs, m1)" by (cases x) auto
    let ?p = "without_resumed rs (pp_plan pp)"
    obtain q3 w3 where r3: "apply_plan (sx_pass X) ?p m1 (pp_remote_lamport pp) w2 = (q3, w3)"
      by (cases "apply_plan (sx_pass X) ?p m1 (pp_remote_lamport pp) w2")
    have "2 * length (pl_actions ?p) + 1 \<le> 2 * length (pl_actions (pp_plan pp)) + 1"
      by (simp add: without_resumed_def)
    with assms(6) have len: "2 * length (pl_actions ?p) + 1 < 2 ^ 32" by linarith
    note step = resumed_then_applied [OF r2 [unfolded x] r3 assms(7) dev assms(4,5) len assms(8,9)]
    show ?thesis
    proof (cases q3)
      case (Inl e)
      with assms(1,2) r2 x r3 have "w' = w3" by (simp add: sync_once_def act_bind_run Let_def)
      with step assms(10) show ?thesis by simp
    next
      case (Inr y)
      then obtain fl m2 where y: "q3 = Inr (fl, m2)" by (cases y) auto
      define w4 where "w4 = w3\<lparr>w_db := snd (record_scan (now_secs w3) (sr_entries (pp_scan pp)) (w_db w3))\<rparr>"
      obtain q5 w5 where r5: "evict_pass X opts m2 w4 = (q5, w5)" by (cases "evict_pass X opts m2 w4")
      have "w' = w5"
        using assms(1,2,3) r2 x r3 y r5 by (cases q5) (simp_all add: sync_once_def act_bind_run Let_def at_now_run on_db_scan w4_def compact_pass_def)
      moreover have k: "evict_keeps w4 w5" by (rule evict_pass_keeps [OF r5])
      ultimately have "row_synced (w_db w3) q = Some (Some h)"
        using assms(10) by (auto simp: evict_keeps_def w4_def record_scan_rows split: option.splits if_splits)
      moreover have "remote_knows X pp w3 q h \<Longrightarrow> remote_knows X pp w' q h"
        using k \<open>w' = w5\<close> in_log_entries [of w5 w3 "sx_env X" "sx_prefix X"]
        by (simp add: remote_knows_def evict_keeps_def w4_def)
      ultimately show ?thesis using step by blast
    qed
  qed
  with w1 show ?thesis unfolding remote_knows_def by blast
qed

text \<open>A directory with one new file, an empty store: the pass uploads it.\<close>

definition sample_sync :: sync_ctx where
  "sample_sync = \<lparr>sx_pass = sample_ctx,
     sx_walk = (\<lambda>_. [Inr \<lparr>we_depth = 1, we_is_file = True, we_path = ''a'', we_components = [Normal ''a'']\<rparr>]),
     sx_scan_seen = (\<lambda>_ _ _. fmupd ''a'' sample_node fmempty), sx_loser_seen = (\<lambda>_ _ _. fmempty),
     sx_resume_seen = (\<lambda>_ _ _. fmempty), sx_racers = (\<lambda>_ fs. fs), sx_meta = (\<lambda>_ _. None)\<rparr>"

definition sample_options :: sync_options where
  "sample_options = \<lparr>op_policy = policy_default, op_hydrate = [], op_evict = [], op_evict_grace = 0, op_evict_min_size = 0,
     op_verify_before_evict = True, op_space = None, op_compaction = None\<rparr>"

lemma fm_keys_one: "fm_keys (fmupd k x fmempty) = [k]" "fm_keys fmempty = []"
  by (simp_all add: fm_keys_def sorted_list_of_fset.rep_eq)

lemma sample_stages:
  "from_store sample_env ''p/'' sample_disk = (Inr \<lparr>sn_manifest = fmempty, sn_object_key = None,
      sn_modified_at = Some (w_now sample_world)\<rparr>, sample_disk)"
  "read_deltas sample_env ''p/'' sample_disk = (Inr \<lparr>dl_deltas = [], dl_metas = []\<rparr>, sample_disk)"
  "db_baseline (w_db sample_disk) = fmempty"
  "merge_deltas fmempty [] = \<lparr>mr_manifest = fmempty, mr_conflicts = [], mr_remote_lamport = 0\<rparr>"
  "preserve_conflict_losers sample_env (\<lambda>_ _ _. fmempty) [] sample_disk =
      (Inr \<lparr>pc_renamed = [], pc_relocations = []\<rparr>, sample_disk)"
proof -
  have store: "from_store sample_env ''p/'' sample_disk = (Inr \<lparr>sn_manifest = fmempty, sn_object_key = None,
      sn_modified_at = Some (w_now sample_world)\<rparr>, sample_disk)"
    "read_deltas sample_env ''p/'' sample_disk = (Inr \<lparr>dl_deltas = [], dl_metas = []\<rparr>, sample_disk)"
    by (simp_all add: from_store_def read_deltas_def on_store_run mem_list_def sample_disk_def sample_world_def mem_new_def act_bind_run)
  have base: "db_baseline (w_db sample_disk) = fmempty"
    by (simp add: db_baseline_def fm_collect_def sample_disk_def sample_world_def migrate_def Let_def db_empty_def migrate_v1_def
        migrate_v2_def migrate_v3_table_def migrate_v3_device_def migrate_v4_def)
  have merged: "merge_deltas fmempty [] = \<lparr>mr_manifest = fmempty, mr_conflicts = [], mr_remote_lamport = 0\<rparr>"
    by (simp add: merge_deltas_def fm_values_def fm_entries_def fm_keys_one)
  have losers: "preserve_conflict_losers sample_env (\<lambda>_ _ _. fmempty) [] sample_disk =
      (Inr \<lparr>pc_renamed = [], pc_relocations = []\<rparr>, sample_disk)"
    using sample_device by (simp add: preserve_conflict_losers_def act_bind_run sample_disk_def)
  show "from_store sample_env ''p/'' sample_disk = (Inr \<lparr>sn_manifest = fmempty, sn_object_key = None,
      sn_modified_at = Some (w_now sample_world)\<rparr>, sample_disk)"
    "read_deltas sample_env ''p/'' sample_disk = (Inr \<lparr>dl_deltas = [], dl_metas = []\<rparr>, sample_disk)"
    "db_baseline (w_db sample_disk) = fmempty"
    "merge_deltas fmempty [] = \<lparr>mr_manifest = fmempty, mr_conflicts = [], mr_remote_lamport = 0\<rparr>"
    "preserve_conflict_losers sample_env (\<lambda>_ _ _. fmempty) [] sample_disk =
      (Inr \<lparr>pc_renamed = [], pc_relocations = []\<rparr>, sample_disk)"
    by (fact store base merged losers)+
qed

lemma reconcile_nothing [simp]:
  "reconcile_with g [] fmempty fmempty \<lparr>rv_placeholders = fmempty, rv_policy = pol, rv_hydrate = hs\<rparr> =
     \<lparr>pl_actions = [], pl_relocations = fmempty\<rparr>"
  by (simp add: reconcile_with_def Let_def plan_paths_def fm_collect_def fm_keys_one btree_set_def)

text \<open>An empty directory.\<close>

lemma sample_quiet_plan:
  "plan_pass (sample_sync\<lparr>sx_walk := \<lambda>_. []\<rparr>) sample_options sample_disk =
     (Inr \<lparr>pp_plan = \<lparr>pl_actions = [], pl_relocations = fmempty\<rparr>, pp_manifest = fmempty,
        pp_scan = \<lparr>sr_entries = [], sr_placeholders = fmempty, sr_skipped = []\<rparr>, pp_remote_lamport = 0, pp_deltas = []\<rparr>,
      sample_disk)"
  using sample_stages
  by (simp add: plan_pass_def act_bind_run sample_sync_def sample_ctx_def Let_def sample_options_def sort_actions_def scan_all_def
      drop_stale_def stale_placeholders_def fm_entries_def fm_keys_one)

lemma sample_plan:
  "plan_pass sample_sync sample_options sample_disk = (Inr \<lparr>pp_plan = \<lparr>pl_actions = [\<lparr>a_path = ''a'', a_kind = Upload\<rparr>],
     pl_relocations = fmempty\<rparr>, pp_manifest = fmempty,
     pp_scan = \<lparr>sr_entries = [\<lparr>le_path = ''a'', le_size = 2, le_mtime_ns = 5, le_hash = [8, 9]\<rparr>], sr_placeholders = fmempty,
       sr_skipped = []\<rparr>, pp_remote_lamport = 0, pp_deltas = []\<rparr>, sample_disk)"
proof -
  let ?scan = "\<lparr>sr_entries = [\<lparr>le_path = ''a'', le_size = 2, le_mtime_ns = 5, le_hash = [8, 9]\<rparr>],
      sr_placeholders = fmempty, sr_skipped = []\<rparr> :: scan_result"
  have scan: "scan_all sample_env (fmupd ''a'' sample_node fmempty) (\<lambda>_ _ _. fmupd ''a'' sample_node fmempty)
      (baseline_cached fmempty) [Inr \<lparr>we_depth = 1, we_is_file = True, we_path = ''a'', we_components = [Normal ''a'']\<rparr>]
      = Inr ?scan"
  proof -
    have "file_stat (fmupd ''a'' sample_node fmempty) ''a'' =
        Inr \<lparr>fs_size = 2, fs_mtime_ns = 5\<rparr>"
      by (simp add: file_stat_def stat_of_def sample_node_def i64_max_def)
    moreover have "e_nfc sample_env ''a'' = ''a''" "\<not> suffix ''.rfm'' ''a''" "\<not> suffix SUFFIX ''a''"
      by (simp_all add: sample_env_def suffix_def SUFFIX_def append_eq_Cons_conv)
    ultimately show ?thesis
      using sample_hash by (simp add: scan_all_def scan_entry_def canonical_relative_def join_with_def strip_suffix_def baseline_cached_def)
  qed
  have plan: "reconcile_with (e_globs sample_env) (sr_entries ?scan) fmempty fmempty
      \<lparr>rv_placeholders = fmempty, rv_policy = policy_default, rv_hydrate = []\<rparr> =
      \<lparr>pl_actions = [\<lparr>a_path = ''a'', a_kind = Upload\<rparr>], pl_relocations = fmempty\<rparr>"
  proof -
    have "btree_set [''a''] = [''a'']" by (simp add: btree_set_def)
    then show ?thesis
      by (simp add: fm_keys_one reconcile_with_def Let_def plan_paths_def path_action_def fm_collect_def live_entry_def decide_def)
  qed
  have stale: "drop_stale ?scan w = (Inr ?scan, w)" for w
    by (simp add: drop_stale_def stale_placeholders_def fm_entries_def fm_keys_one)
  show ?thesis
    using sample_stages scan plan stale
    by (simp add: plan_pass_def act_bind_run sample_sync_def sample_ctx_def Let_def sample_disk_def sample_options_def sort_actions_def)
qed

lemma sample_clean:
  "get_latest_lamport (w_db sample_disk) = Inr 0" "pending_uploads (w_db sample_disk) = []"
  "row_synced (w_db sample_disk) ''a'' = None"
  using sample_clock by (simp_all add: sample_disk_def) (simp_all add: row_synced_def pending_uploads_def sample_world_def
    migrate_def Let_def db_empty_def migrate_v1_def migrate_v2_def migrate_v3_table_def migrate_v3_device_def migrate_v4_def
    fm_keys_one fm_values_def fm_entries_def)

lemma sample_resumed: "resume_uploads X fmempty 0 sample_disk = (Inr ([], fmempty), sample_disk)"
  using sample_clean by (simp add: resume_uploads_def act_bind_run Let_def)

lemma sample_evict_paths: "evict_paths X sample_options m v = []"
  by (simp add: evict_paths_def plan_policy_evictions_def sample_options_def Let_def)

lemma sample_sync_env: "sx_pass sample_sync = sample_ctx" "sx_env sample_sync = sample_env" "sx_prefix sample_sync = ''p/''"
  by (simp_all add: sample_sync_def sample_ctx_def)

abbreviation sample_upload_plan :: plan where
  "sample_upload_plan \<equiv> \<lparr>pl_actions = [\<lparr>a_path = ''a'', a_kind = Upload\<rparr>], pl_relocations = fmempty\<rparr>"

lemma sample_sync_run:
  "\<exists>w'. sync_once sample_sync sample_options sample_disk = (Inr ((outcome_of sample_upload_plan [])\<lparr>so_evicted := 0,
     so_bytes_freed := 0, so_not_evicted := [], so_compacted := 0\<rparr>), w') \<and> row_synced (w_db w') ''a'' = Some (Some [8, 9])"
proof -
  obtain m2 w3 where ap: "apply_plan sample_ctx sample_upload_plan fmempty 0 sample_disk = (Inr ([], m2), w3)"
    and row: "row_synced (w_db w3) ''a'' = Some (Some [8, 9])" using sample_apply by blast
  have p: "without_resumed [] sample_upload_plan = sample_upload_plan" by (simp add: without_resumed_def)
  have "evict_pass sample_sync sample_options m2 w = (Inr \<lparr>eo_evicted = [], eo_bytes_freed = 0, eo_skipped = []\<rparr>, w)" for w
    by (simp add: evict_pass_def act_bind_run sample_evict_paths)
  then show ?thesis
    using sample_resumed p ap row
    by (simp add: sync_once_def act_bind_run sample_plan Let_def sample_sync_env at_now_run on_db_scan compact_pass_def)
      (simp add: sample_options_def record_scan_rows)
qed

theorem sync_baseline_not_ahead_witness:
  "\<exists>so w'. sync_once sample_sync sample_options sample_disk = (Inr so, w') \<and> so_uploads so = 1 \<and> so_failed so = [] \<and>
     (\<exists>d. in_log sample_env ''p/'' w' d \<and> d_path d = ''a'' \<and> d_plaintext_hash d = [8, 9])"
proof -
  obtain w' where w': "sync_once sample_sync sample_options sample_disk = (Inr ((outcome_of sample_upload_plan [])\<lparr>so_evicted := 0,
     so_bytes_freed := 0, so_not_evicted := [], so_compacted := 0\<rparr>), w')" "row_synced (w_db w') ''a'' = Some (Some [8, 9])"
    using sample_sync_run by blast
  have "\<exists>d. in_log sample_env ''p/'' w' d \<and> d_path d = ''a'' \<and> \<not> d_deleted d \<and> d_plaintext_hash d = [8, 9]"
    using sync_baseline_not_ahead [OF w'(1) sample_plan _ _ _ _ sample_clean(1) _ _ w'(2)] sample_clean(3)
    by (simp add: sample_options_def sample_sync_env) (use sample_delta_codec in \<open>simp add: sample_ctx_def joins_all_def\<close>)
  with w' show ?thesis by (auto simp: outcome_of_def planned_outcome_def plan_count_def)
qed

end
