(* ===== verification/Sync_Report.thy ===== *)
theory Sync_Report
  imports Sync_Safety
begin

text \<open>
  What a pass reports, a pass with nothing to do, and what happens to files that change while a pass runs:
  one that cannot be hashed is planned as deleted, one edited after the scan is deleted with the rest.
\<close>

section \<open>What the pass reports\<close>

definition failed_of :: "action_kind \<Rightarrow> plan \<Rightarrow> (string \<times> merror) list \<Rightarrow> nat" where
  "failed_of k p failed = length (filter (\<lambda>f. \<exists>a\<in>set (pl_actions p). a_path a = fst f \<and> a_kind a = k) failed)"

lemma uncount_kind:
  assumes "distinct (map a_path (pl_actions p))"
  shows "map_option a_kind (find (\<lambda>a. a_path a = q) (pl_actions p)) = Some k \<longleftrightarrow>
    (\<exists>a\<in>set (pl_actions p). a_path a = q \<and> a_kind a = k)"
proof -
  have "\<lbrakk>distinct (map a_path as)\<rbrakk> \<Longrightarrow> map_option a_kind (find (\<lambda>a. a_path a = q) as) = Some k \<longleftrightarrow>
      (\<exists>a\<in>set as. a_path a = q \<and> a_kind a = k)" for as
    by (induction as) (auto simp: image_iff)
  with assms show ?thesis by blast
qed

definition outcome_count :: "action_kind \<Rightarrow> sync_outcome \<Rightarrow> nat" where
  "outcome_count k so = (case k of Upload \<Rightarrow> so_uploads so | Download \<Rightarrow> so_downloads so | Hydrate \<Rightarrow> so_hydrated so
    | Relocate \<Rightarrow> so_relocated so | DeleteLocal \<Rightarrow> so_deletes_local so | DeleteRemote \<Rightarrow> so_deletes_remote so
    | Conflict \<Rightarrow> so_conflicts so | CreatePlaceholder \<Rightarrow> so_placeholders so | UpdatePlaceholder \<Rightarrow> so_placeholders so)"

lemma uncount_count:
  assumes "distinct (map a_path (pl_actions p))" and "k \<in> {Upload, Download, Hydrate, Relocate}"
  shows "outcome_count k (uncount p f so) = outcome_count k so - failed_of k p [f]"
proof -
  have one: "failed_of k p [f] = (if map_option a_kind (find (\<lambda>a. a_path a = fst f) (pl_actions p)) = Some k then 1 else 0)"
    using uncount_kind [OF assms(1), of "fst f" k] by (simp add: failed_of_def)
  have "outcome_count k (case s of
      Some Upload \<Rightarrow> so\<lparr>so_uploads := so_uploads so - 1\<rparr>
    | Some Download \<Rightarrow> so\<lparr>so_downloads := so_downloads so - 1\<rparr>
    | Some Hydrate \<Rightarrow> so\<lparr>so_hydrated := so_hydrated so - 1\<rparr>
    | Some Relocate \<Rightarrow> so\<lparr>so_relocated := so_relocated so - 1\<rparr>
    | _ \<Rightarrow> so) = outcome_count k so - (if s = Some k then 1 else 0)" for s
    using assms(2) by (cases s) (auto simp: outcome_count_def split: action_kind.split)
  then show ?thesis unfolding uncount_def one .
qed

lemma uncount_fold:
  assumes "distinct (map a_path (pl_actions p))" and "k \<in> {Upload, Download, Hydrate, Relocate}"
  shows "outcome_count k (fold (uncount p) failed so) = outcome_count k so - failed_of k p failed"
proof (induction failed arbitrary: so)
  case Nil
  then show ?case by (simp add: failed_of_def)
next
  case (Cons f fs)
  have "failed_of k p (f # fs) = failed_of k p [f] + failed_of k p fs" by (simp add: failed_of_def)
  then show ?case using uncount_count [OF assms] by (simp add: Cons)
qed

lemma outcome_of_count:
  assumes "distinct (map a_path (pl_actions p))" and "k \<in> {Upload, Download, Hydrate, Relocate}"
  shows "outcome_count k (outcome_of p failed) = plan_count k p - failed_of k p failed"
proof -
  have "outcome_count k (planned_outcome p) = plan_count k p"
    using assms(2) by (auto simp: outcome_count_def planned_outcome_def)
  moreover have "outcome_count k (outcome_of p failed) = outcome_count k (fold (uncount p) failed (planned_outcome p))"
    by (simp add: outcome_of_def outcome_count_def split: action_kind.split)
  ultimately show ?thesis using uncount_fold [OF assms] by simp
qed

text \<open>
  The numbers a pass reports for transfers are those of the plan it carried out less the transfers
  that failed, for each of the four kinds that can fail one by one.
\<close>

theorem outcome_counts_completed:
  assumes "sync_once X opts w = (Inr so, w')" and "plan_pass X opts w = (Inr pp, w1)"
    and "resume_uploads X (pp_manifest pp) (pp_remote_lamport pp) w1 = (Inr (rs, m1), w2)"
    and "distinct (map a_path (pl_actions (without_resumed rs (pp_plan pp))))"
    and "k = Upload \<or> k = Download \<or> k = Hydrate \<or> k = Relocate"
  shows "outcome_count k so = plan_count k (without_resumed rs (pp_plan pp)) -
    failed_of k (without_resumed rs (pp_plan pp)) (so_failed so)"
proof -
  let ?p = "without_resumed rs (pp_plan pp)"
  have k: "k \<in> {Upload, Download, Hydrate, Relocate}" using assms(5) by auto
  have frame: "outcome_count k (so\<lparr>so_evicted := a, so_bytes_freed := b, so_not_evicted := c, so_compacted := d\<rparr>) =
      outcome_count k so" for a b c d so
    by (simp add: outcome_count_def split: action_kind.split)
  obtain failed a b c d where so: "so = (outcome_of ?p failed)\<lparr>so_evicted := a, so_bytes_freed := b, so_not_evicted := c,
      so_compacted := d\<rparr>"
    using assms(1,2,3) by (auto simp: sync_once_def act_bind_run Let_def split: sum.splits prod.splits)
  have "outcome_count k so = outcome_count k (outcome_of ?p failed)" "so_failed so = failed"
    unfolding so using frame by (simp_all add: outcome_of_def)
  then show ?thesis using outcome_of_count [OF assms(4) k] by simp
qed

theorem outcome_counts_completed_witness:
  "\<exists>so w'. sync_once sample_sync sample_options sample_disk = (Inr so, w') \<and> outcome_count Upload so = 1"
proof -
  obtain w' where w': "sync_once sample_sync sample_options sample_disk = (Inr ((outcome_of sample_upload_plan [])\<lparr>so_evicted := 0,
     so_bytes_freed := 0, so_not_evicted := [], so_compacted := 0\<rparr>), w')" (is "_ = (Inr ?so, w')")
    using sample_sync_run by blast
  have failed: "so_failed ?so = []" by (simp add: outcome_of_def)
  have "outcome_count Upload ?so = plan_count Upload (without_resumed [] sample_upload_plan) -
      failed_of Upload (without_resumed [] sample_upload_plan) (so_failed ?so)"
    using outcome_counts_completed [OF w' sample_plan, of "[]" fmempty sample_disk Upload] sample_resumed
    by (simp add: without_resumed_def)
  then have "outcome_count Upload ?so = 1"
    unfolding failed by (simp add: without_resumed_def plan_count_def failed_of_def)
  with w' show ?thesis by blast
qed

section \<open>Nothing to do\<close>

text \<open>
  a pass with an empty plan, no interrupted upload, nothing to evict and no compaction reports nothing,
  leaves every file and every object alone and changes no synchronised hash: all it does is tick the
  clock and note what the scan saw.
\<close>

theorem quiet_pass_is_noop:
  assumes "plan_pass X opts w = (Inr pp, w1)" and "pl_actions (pp_plan pp) = []" and "pending_uploads (w_db w1) = []"
    and "get_latest_lamport (w_db w1) = Inr ll" and "op_compaction opts = None"
    and "\<And>v. w_files v = w_files w1 \<Longrightarrow> evict_paths X opts (pp_manifest pp) v = []"
    and "cx_order (sx_pass X) [] = []"
  shows "\<exists>so w'. sync_once X opts w = (Inr so, w') \<and> is_noop so \<and> w_files w' = w_files w1 \<and> w_store w' = w_store w1 \<and>
    (\<forall>q h. row_synced (w_db w') q = Some (Some h) \<longleftrightarrow> row_synced (w_db w1) q = Some (Some h))"
proof -
  have resumed: "resume_uploads X (pp_manifest pp) (pp_remote_lamport pp) w1 = (Inr ([], pp_manifest pp), w1)"
    using assms(3,4) by (simp add: resume_uploads_def act_bind_run Let_def)
  let ?p = "without_resumed [] (pp_plan pp)"
  have p: "pl_actions ?p = []" using assms(2) by (simp add: without_resumed_def)
  obtain w3 where ap: "apply_plan (sx_pass X) ?p (pp_manifest pp) (pp_remote_lamport pp) w1 = (Inr ([], pp_manifest pp), w3)"
    and w3: "w_files w3 = w_files w1" "w_store w3 = w_store w1" "\<And>q. row_synced (w_db w3) q = row_synced (w_db w1) q"
    using assms(4,7) p
    by (simp add: apply_plan_def act_bind_run Let_def local_actions_def flush_def on_db_run record_lamport_def row_synced_def)
  define w4 where "w4 = w3\<lparr>w_db := snd (record_scan (now_secs w3) (sr_entries (pp_scan pp)) (w_db w3))\<rparr>"
  have "evict_paths X opts (pp_manifest pp) w4 = []" by (rule assms(6)) (simp add: w4_def w3)
  then have ev: "evict_pass X opts (pp_manifest pp) w4 = (Inr \<lparr>eo_evicted = [], eo_bytes_freed = 0, eo_skipped = []\<rparr>, w4)"
    by (simp add: evict_pass_def act_bind_run)
  have "is_noop ((outcome_of ?p [])\<lparr>so_evicted := 0, so_bytes_freed := 0, so_not_evicted := [], so_compacted := 0\<rparr>)"
    using p by (simp add: is_noop_def outcome_of_def planned_outcome_def plan_count_def)
  then have run: "\<exists>so. sync_once X opts w = (Inr so, w4) \<and> is_noop so"
    using assms(1,5) resumed ap ev by (simp add: sync_once_def act_bind_run Let_def at_now_run on_db_scan w4_def compact_pass_def)
  have "row_synced (w_db w4) q = Some (Some h) \<longleftrightarrow> row_synced (w_db w1) q = Some (Some h)" for q h
    using w3(3) [of q] by (auto simp: w4_def record_scan_rows split: option.splits if_splits)
  with run w3 show ?thesis by (auto simp: w4_def)
qed

theorem quiet_pass_is_noop_witness:
  "\<exists>so w'. sync_once (sample_sync\<lparr>sx_walk := \<lambda>_. []\<rparr>) sample_options sample_disk = (Inr so, w') \<and> is_noop so"
  using quiet_pass_is_noop [OF sample_quiet_plan, of 0] sample_clean sample_evict_paths
  by (auto simp: sample_sync_def sample_ctx_def sample_options_def)

section \<open>Files that change during a pass\<close>

lemma scan_entry_entries:
  assumes "scan_entry E fs seen cached d res = Inr res'" and "e \<in> set (sr_entries res')"
  shows "e \<in> set (sr_entries res) \<or> (canonical_relative E d = Inr (le_path e) \<and>
    (\<exists>st. file_stat fs (we_path d) = Inr st \<and> (cached (le_path e) (fs_size st) (fs_mtime_ns st) \<noteq> None \<or>
      hash_stable E (seen (we_path d)) (we_path d) \<noteq> Inr None)))"
proof (cases "we_depth d = 0 \<or> \<not> we_is_file d")
  case True
  with assms show ?thesis by (auto simp: scan_entry_def)
next
  case False
  with assms(1) obtain rel where rel: "canonical_relative E d = Inr rel" by (auto simp: scan_entry_def res_bind_ok)
  show ?thesis
  proof (cases "strip_suffix SUFFIX rel")
    case (Some original)
    with assms False rel show ?thesis
      by (cases "stub_read E fs (we_path d)") (auto simp: scan_entry_def split: if_splits)
  next
    case None
    with assms(1) False rel obtain st where st: "file_stat fs (we_path d) = Inr st" by (auto simp: scan_entry_def res_bind_ok)
    with assms False rel None show ?thesis
      by (cases "cached rel (fs_size st) (fs_mtime_ns st)") (auto simp: scan_entry_def res_bind_ok split: option.splits)
  qed
qed

lemma scan_loop_entries:
  assumes "scan_loop E fs seen cached walk res = Inr res'" and "e \<in> set (sr_entries res')"
  shows "e \<in> set (sr_entries res) \<or> (\<exists>d st. Inr d \<in> set walk \<and> canonical_relative E d = Inr (le_path e) \<and>
    file_stat fs (we_path d) = Inr st \<and> (cached (le_path e) (fs_size st) (fs_mtime_ns st) \<noteq> None \<or>
      hash_stable E (seen (we_path d)) (we_path d) \<noteq> Inr None))"
  using assms
proof (induction walk arbitrary: res)
  case (Cons r ds)
  from Cons.prems(1) obtain d mid where d: "r = Inr d" "scan_entry E fs seen cached d res = Inr mid"
    "scan_loop E fs seen cached ds mid = Inr res'" by (auto simp: res_bind_ok)
  from Cons.IH [OF d(3) Cons.prems(2)] show ?case
  proof
    assume "e \<in> set (sr_entries mid)"
    from scan_entry_entries [OF d(2) this] d(1) show ?thesis by auto
  qed auto
qed simp

text \<open>
  C13: a file that keeps changing while it is hashed is not deferred but planned as deleted: it is
  missing from the scan, so when the remote still holds what this device last synchronised, the plan of
  the pass tombstones it, and the other devices then delete their copies.
\<close>

theorem unstable_file_planned_deleted:
  assumes "scan_all E fs seen cached walk = Inr s"
    and "\<And>d st. Inr d \<in> set walk \<Longrightarrow> canonical_relative E d = Inr p \<Longrightarrow> file_stat fs (we_path d) = Inr st \<Longrightarrow>
       cached p (fs_size st) (fs_mtime_ns st) = None \<and> hash_stable E (seen (we_path d)) (we_path d) = Inr None"
    and "fmlookup b p = Some rec" and "f_last_synced_hash rec = Some h" and "\<not> is_evicted rec"
    and "live_entry remote p = Some e" and "d_plaintext_hash e = h" and "fmlookup (rv_placeholders view) p = None"
  shows "\<lparr>a_path = p, a_kind = DeleteRemote\<rparr> \<in> set (pl_actions (reconcile_with g (sr_entries s) b remote view))"
proof -
  have "p \<notin> le_path ` set (sr_entries s)"
  proof
    assume "p \<in> le_path ` set (sr_entries s)"
    then obtain x where x: "x \<in> set (sr_entries s)" "le_path x = p" by auto
    from assms(1) obtain r where r: "scan_loop E fs seen cached walk \<lparr>sr_entries = [], sr_placeholders = fmempty, sr_skipped = []\<rparr> = Inr r"
      "set (sr_entries s) = set (sr_entries r)" by (auto simp: scan_all_def res_bind_ok)
    from scan_loop_entries [OF r(1), of x] x r(2) assms(2) show False by auto
  qed
  then have "fmlookup (local_map (sr_entries s)) p = None"
    by (simp add: local_map_def fm_collect_lookup map_of_eq_None_iff image_image)
  then have "plan_action g (sr_entries s) b remote view p = Some DeleteRemote"
    using assms(3-8) by (simp add: path_action_def Let_def absent_action_def decide_def)
  then show ?thesis by (simp add: plan_action_iff)
qed


text \<open>A file that is written to between the two looks of every attempt.\<close>

definition sample_busy :: "string \<Rightarrow> nat \<Rightarrow> nat \<Rightarrow> files" where
  "sample_busy _ i k = fmupd ''a'' (sample_node\<lparr>fn_mtime_ns := int (3 * i + k)\<rparr>) fmempty"

lemma sample_unstable: "hash_stable sample_env (sample_busy p) ''a'' = Inr None"
  by (simp add: hash_stable_def HASH_ATTEMPTS_def upt_rec file_stat_def hash_file_def sample_busy_def stat_of_def i64_max_def)

lemma sample_scan_busy:
  "scan_all sample_env (fmupd ''a'' sample_node fmempty) sample_busy (\<lambda>_ _ _. None)
     [Inr \<lparr>we_depth = 1, we_is_file = True, we_path = ''a'', we_components = [Normal ''a'']\<rparr>] =
   Inr \<lparr>sr_entries = [], sr_placeholders = fmempty, sr_skipped = []\<rparr>"
proof -
  have "file_stat (fmupd ''a'' sample_node fmempty) ''a'' = Inr \<lparr>fs_size = 2, fs_mtime_ns = 5\<rparr>"
    by (simp add: file_stat_def stat_of_def sample_node_def i64_max_def)
  moreover have "e_nfc sample_env ''a'' = ''a''" "\<not> suffix SUFFIX ''a''"
    by (simp_all add: sample_env_def suffix_def SUFFIX_def append_eq_Cons_conv)
  ultimately show ?thesis
    using sample_unstable by (simp add: scan_all_def scan_entry_def canonical_relative_def join_with_def strip_suffix_def)
qed

definition sample_record :: file_record where
  "sample_record = \<lparr>f_path = ''a'', f_size = 1, f_mtime_ns = 1, f_content_hash = [1], f_last_synced_hash = Some [1],
     f_residency = ResLocal, f_synced_at = Some 1, f_last_hydrated_at = None\<rparr>"

theorem unstable_file_planned_deleted_witness:
  "\<lparr>a_path = ''a'', a_kind = DeleteRemote\<rparr> \<in> set (pl_actions (reconcile_with sample_globs []
     (fmupd ''a'' sample_record fmempty) (fmupd ''a'' sample_delta fmempty) no_residency))"
proof -
  have "\<lparr>a_path = ''a'', a_kind = DeleteRemote\<rparr> \<in> set (pl_actions (reconcile_with sample_globs
      (sr_entries \<lparr>sr_entries = [], sr_placeholders = fmempty, sr_skipped = []\<rparr>)
      (fmupd ''a'' sample_record fmempty) (fmupd ''a'' sample_delta fmempty) no_residency))"
    by (rule unstable_file_planned_deleted [OF sample_scan_busy, where rec = sample_record and h = "[1]" and e = sample_delta])
      (auto simp: sample_unstable sample_record_def is_evicted_def live_entry_def sample_delta_def no_residency_def)
  then show ?thesis by simp
qed

text \<open>
  Unlike an eviction, a deletion of the plan does not look at the file again: whatever the file holds by
  then is gone, with no copy set aside.
\<close>

lemma late_edit_deleted:
  "\<exists>m v. apply_plan sample_ctx \<lparr>pl_actions = [\<lparr>a_path = ''a'', a_kind = DeleteLocal\<rparr>], pl_relocations = fmempty\<rparr> fmempty 0
     (sample_world\<lparr>w_files := fmupd ''a'' n fmempty\<rparr>) = (Inr ([], m), v) \<and> w_files v = fmempty"
  using sample_clock canonical_stub_path [OF sample_safe_join]
  by (simp add: apply_plan_def act_bind_run Let_def local_actions_def local_step_def delete_local_def remove_node_def stub_remove_def
      flush_full_def flush_def FLUSH_BATCH_def apply_op_def on_db_run record_lamport_def remove_file_row_def sample_ctx_def
      job_of_def act_or_abandon_def act_try_run fmdrop_fmupd)

end
