(* ===== verification/Backup_Crypto.thy ===== *)
theory Backup_Crypto
  imports Samples
begin

text \<open>
  Identifiers, keys and sealing of the backup repository (\<open>backup-core/src/crypto.rs\<close>) and the
  compression of blobs (\<open>compress.rs\<close>). \<open>benv\<close> collects the parameters of the backup crate: the AEAD,
  BLAKE3's keyed hash and key derivation, zstd, and random bytes. An identifier is its 32 bytes.
\<close>

section \<open>Parameters\<close>

type_synonym bid = bytes

record benv =
  b_aead :: aead
  b_keyed_hash :: "key \<Rightarrow> bytes \<Rightarrow> bytes"
  b_derive_key :: "string \<Rightarrow> key \<Rightarrow> key"
  b_zstd :: "bytes \<Rightarrow> bytes option"
  b_unzstd :: "bytes \<Rightarrow> nat \<Rightarrow> bytes option"
  b_nonce :: "nat \<Rightarrow> bytes"
  b_random_id :: "nat \<Rightarrow> bid"

text \<open>
  What the code relies on: zstd gives back what it compressed when the cap is the original length, a
  nonce and an identifier fill their bytes.
\<close>

definition zstd_ok :: "benv \<Rightarrow> bool" where
  "zstd_ok B \<longleftrightarrow> (\<forall>p c. b_zstd B p = Some c \<longrightarrow> b_unzstd B c (length p) = Some p)"

section \<open>Little-endian integers\<close>

fun le_bytes :: "nat \<Rightarrow> nat \<Rightarrow> bytes" where
  "le_bytes 0 n = []"
| "le_bytes (Suc k) n = of_nat (n mod 256) # le_bytes k (n div 256)"

fun le_nat :: "bytes \<Rightarrow> nat" where
  "le_nat [] = 0"
| "le_nat (b # bs) = unat b + 256 * le_nat bs"

lemma length_le_bytes [simp]: "length (le_bytes k n) = k"
  by (induction k arbitrary: n) auto

lemma le_nat_bytes [simp]: "le_nat (le_bytes k n) = n mod 256 ^ k"
proof (induction k arbitrary: n)
  case (Suc k)
  have "unat (of_nat (n mod 256) :: byte) = n mod 256" by (simp add: unat_of_nat)
  then show ?case using Suc by (simp add: mod_mult2_eq)
qed simp

lemma le_nat_less: "le_nat bs < 256 ^ length bs"
proof (induction bs)
  case (Cons b bs)
  have "unat b < 256" using unsigned_less [of b, where 'a = nat] by simp
  with Cons show ?case by (simp add: algebra_simps)
qed simp

lemma le_bytes_nat: "length bs = k \<Longrightarrow> le_bytes k (le_nat bs) = bs"
proof (induction bs arbitrary: k)
  case (Cons b bs)
  have b: "unat b < 256" using unsigned_less [of b, where 'a = nat] by simp
  with Cons show ?case by (auto simp: unat_of_nat)
qed simp

abbreviation u32_bytes :: "u32 \<Rightarrow> bytes" where
  "u32_bytes x \<equiv> le_bytes 4 (unat x)"

lemma u32_of_bytes [simp]: "(of_nat (le_nat (u32_bytes x)) :: u32) = x"
  using unsigned_less [of x, where 'a = nat] by simp

lemma u32_bytes_of: "length bs = 4 \<Longrightarrow> u32_bytes (of_nat (le_nat bs)) = bs"
  using le_nat_less [of bs] by (simp add: unat_of_nat le_bytes_nat)

section \<open>Identifiers\<close>

definition ID_SIZE :: nat where
  "ID_SIZE = 32"

definition hex_digits :: string where
  "hex_digits = ''0123456789abcdef''"

definition hex_char :: "nat \<Rightarrow> char" where
  "hex_char n = hex_digits ! n"

definition hex_val :: "char \<Rightarrow> nat option" where
  "hex_val c = map_option fst (find (\<lambda>(i, d). d = c) (enumerate 0 hex_digits))"

definition hex_byte :: "byte \<Rightarrow> string" where
  "hex_byte b = [hex_char (unat b div 16), hex_char (unat b mod 16)]"

definition hex :: "bytes \<Rightarrow> string" where
  "hex bs = concat (map hex_byte bs)"

fun hex_decode :: "string \<Rightarrow> bytes option" where
  "hex_decode [] = Some []"
| "hex_decode [c] = None"
| "hex_decode (c # d # cs) = (case (hex_val c, hex_val d, hex_decode cs) of
      (Some h, Some l, Some bs) \<Rightarrow> Some (of_nat (16 * h + l) # bs)
    | _ \<Rightarrow> None)"

definition id_short :: "bid \<Rightarrow> string" where
  "id_short i = hex (take 4 i)"

definition id_from_slice :: "bytes \<Rightarrow> bid bresult" where
  "id_from_slice bs = (if length bs = ID_SIZE then Inr bs else Inl (BInvalid (dec (length bs))))"

definition id_parse :: "string \<Rightarrow> bid bresult" where
  "id_parse s = (if length s \<noteq> ID_SIZE * 2 then Inl (BInvalid s)
     else case hex_decode s of None \<Rightarrow> Inl (BInvalid s) | Some bs \<Rightarrow> id_from_slice bs)"

lemma hex_val_char: "n < 16 \<Longrightarrow> hex_val (hex_char n) = Some n"
proof -
  have "\<forall>n\<in>set [0..<16]. hex_val (hex_char n) = Some n" by code_simp
  then show "n < 16 \<Longrightarrow> hex_val (hex_char n) = Some n" by simp
qed

lemma hex_val_some:
  assumes "hex_val c = Some n"
  shows "n < 16 \<and> c = hex_char n"
proof -
  from assms obtain d where "find (\<lambda>(i, d). d = c) (enumerate 0 hex_digits) = Some (n, d)" by (auto simp: hex_val_def)
  then obtain i where i: "i < length hex_digits" "enumerate 0 hex_digits ! i = (n, d)" "d = c"
    by (auto simp: find_Some_iff)
  then have "n = i" "c = hex_digits ! i" by (auto simp: nth_enumerate_eq)
  with i(1) show ?thesis by (simp add: hex_char_def) (simp add: hex_digits_def)
qed

lemma hex_decode_hex [simp]: "hex_decode (hex bs) = Some bs"
proof (induction bs)
  case (Cons b bs)
  have "unat b < 256" using unsigned_less [of b, where 'a = nat] by simp
  then have "hex_val (hex_char (unat b div 16)) = Some (unat b div 16)" "hex_val (hex_char (unat b mod 16)) = Some (unat b mod 16)"
    by (auto intro: hex_val_char)
  with Cons show ?case by (simp add: hex_def hex_byte_def)
qed (simp add: hex_def)

lemma hex_of_decode: "hex_decode s = Some bs \<Longrightarrow> s = hex bs"
proof (induction s arbitrary: bs rule: hex_decode.induct)
  case (3 c d cs)
  then obtain h l bs' where d: "hex_val c = Some h" "hex_val d = Some l" "hex_decode cs = Some bs'"
    "bs = of_nat (16 * h + l) # bs'" by (auto split: option.splits)
  with 3 have "cs = hex bs'" by auto
  moreover have hl: "h < 16" "c = hex_char h" "l < 16" "d = hex_char l" using hex_val_some d by auto
  then have "unat (of_nat (16 * h + l) :: byte) = 16 * h + l" by (subst unat_of_nat) simp
  then have "unat (of_nat (16 * h + l) :: byte) div 16 = h" "unat (of_nat (16 * h + l) :: byte) mod 16 = l" using hl by auto
  ultimately show ?case using hl d by (simp add: hex_def hex_byte_def)
qed (auto simp: hex_def)

lemma length_hex [simp]: "length (hex bs) = 2 * length bs"
  by (induction bs) (auto simp: hex_def hex_byte_def)

lemma hex_inj: "hex a = hex b \<longleftrightarrow> a = b"
  by (metis hex_decode_hex option.inject)

text \<open>An identifier is parsed back from its text, and only from it: upper-case digits are refused.\<close>

lemma id_parse_iff: "id_parse s = Inr i \<longleftrightarrow> s = hex i \<and> length i = ID_SIZE"
  by (auto simp: id_parse_def id_from_slice_def dest: hex_of_decode split: option.splits if_splits)

section \<open>Keys\<close>

datatype key_kind = KData | KMeta

record keys =
  k_id :: key
  k_data :: key
  k_meta :: key

definition CONTEXT_ID :: string where "CONTEXT_ID = ''rfm backup v1 blob id key''"
definition CONTEXT_DATA :: string where "CONTEXT_DATA = ''rfm backup v1 data key''"
definition CONTEXT_META :: string where "CONTEXT_META = ''rfm backup v1 metadata key''"

definition keys_derive :: "benv \<Rightarrow> key \<Rightarrow> keys" where
  "keys_derive B backup_key = \<lparr>k_id = b_derive_key B CONTEXT_ID backup_key, k_data = b_derive_key B CONTEXT_DATA backup_key,
     k_meta = b_derive_key B CONTEXT_META backup_key\<rparr>"

definition blob_id :: "benv \<Rightarrow> keys \<Rightarrow> bytes \<Rightarrow> bid" where
  "blob_id B ks plaintext = b_keyed_hash B (k_id ks) plaintext"

definition verify_blob_id :: "benv \<Rightarrow> keys \<Rightarrow> bid \<Rightarrow> bytes \<Rightarrow> bool" where
  "verify_blob_id B ks i plaintext \<longleftrightarrow> b_keyed_hash B (k_id ks) plaintext = i"

definition kind_key :: "keys \<Rightarrow> key_kind \<Rightarrow> key" where
  "kind_key ks kind = (case kind of KData \<Rightarrow> k_data ks | KMeta \<Rightarrow> k_meta ks)"

text \<open>The nonce that \<open>encrypt_bytes\<close> draws is an argument.\<close>

definition seal :: "benv \<Rightarrow> bytes \<Rightarrow> keys \<Rightarrow> key_kind \<Rightarrow> bytes \<Rightarrow> string \<Rightarrow> bytes bresult" where
  "seal B nonce ks kind plaintext aad = from_mirror (encrypt_bytes (b_aead B) nonce (kind_key ks kind) plaintext aad)"

definition unseal :: "benv \<Rightarrow> keys \<Rightarrow> key_kind \<Rightarrow> bytes \<Rightarrow> string \<Rightarrow> string \<Rightarrow> bytes bresult" where
  "unseal B ks kind sealed aad what = (case decrypt_bytes (b_aead B) (kind_key ks kind) sealed aad of
      Inl _ \<Rightarrow> Inl (BDecryption what) | Inr p \<Rightarrow> Inr p)"

lemma seal_ok: "seal B n ks kind p a = Inr c \<longleftrightarrow> encrypt_bytes (b_aead B) n (kind_key ks kind) p a = Inr c"
  by (simp add: seal_def)

lemma unseal_ok: "unseal B ks kind c a what = Inr p \<longleftrightarrow> decrypt_bytes (b_aead B) (kind_key ks kind) c a = Inr p"
  by (simp add: unseal_def split: sum.splits)

lemma unseal_seal:
  assumes "aead_ok (b_aead B)" and "length n = NONCE_SIZE" and "seal B n ks kind p a = Inr c"
  shows "unseal B ks kind c a what = Inr p"
  using assms by (auto simp: seal_ok unseal_ok encrypt_bytes_stream decrypt_bytes_ok intro: stream_open_seal)

lemma seal_length:
  assumes "aead_ok (b_aead B)" and "length n = NONCE_SIZE" and "seal B n ks kind p a = Inr c"
  shows "length c = NONCE_SIZE + length p + TAG_SIZE * frame_count (length p)"
  using assms by (auto simp: seal_ok encrypt_bytes_stream dest: stream_seal_length)

section \<open>Compression\<close>

datatype compression_kind = CNone | CZstd

definition compression_byte :: "compression_kind \<Rightarrow> byte" where
  "compression_byte c = (case c of CNone \<Rightarrow> 0 | CZstd \<Rightarrow> 1)"

definition compression_from_byte :: "byte \<Rightarrow> compression_kind option" where
  "compression_from_byte b = (if b = 0 then Some CNone else if b = 1 then Some CZstd else None)"

text \<open>
  The comparison with \<open>plaintext.len() as f64 * (1.0 - MIN_GAIN)\<close> is done over the rationals: below
  \<open>2 ^ 32\<close> bytes, which is all a caller passes, the rounding of the doubles does not change it.
\<close>

definition compress :: "benv \<Rightarrow> bytes \<Rightarrow> compression_kind \<Rightarrow> (bytes \<times> compression_kind) bresult" where
  "compress B plaintext want =
     (if want = CNone \<or> plaintext = [] then Inr (plaintext, CNone)
      else case b_zstd B plaintext of
             None \<Rightarrow> Inl (BIo ''zstd'')
           | Some c \<Rightarrow> if 19 * length plaintext < 20 * length c then Inr (plaintext, CNone) else Inr (c, CZstd))"

definition decompress :: "benv \<Rightarrow> bytes \<Rightarrow> compression_kind \<Rightarrow> nat \<Rightarrow> bytes bresult" where
  "decompress B stored used plain_len =
     res_bind (case used of CNone \<Rightarrow> Inr stored | CZstd \<Rightarrow> res_of (BFormat ''compressed blob'') (b_unzstd B stored plain_len)) (\<lambda>out.
     if length out \<noteq> plain_len then Inl (BFormat ''blob'') else Inr out)"

lemma compression_bytes [simp]: "compression_from_byte (compression_byte c) = Some c"
  by (cases c) (simp_all add: compression_byte_def compression_from_byte_def)

lemma compression_from_byte_some: "compression_from_byte b = Some c \<longleftrightarrow> b = compression_byte c"
  by (cases c) (auto simp: compression_byte_def compression_from_byte_def)

lemma decompress_compress:
  assumes "zstd_ok B" and "compress B p want = Inr (stored, used)"
  shows "decompress B stored used (length p) = Inr p" and "length stored \<le> length p"
  using assms by (auto simp: compress_def decompress_def zstd_ok_def split: if_splits option.splits)

lemma decompress_length: "decompress B stored used n = Inr p \<Longrightarrow> length p = n"
  by (auto simp: decompress_def res_bind_ok split: if_splits)

end
