(* ===== verification/Backup_World.thy ===== *)
theory Backup_World
  imports Backup_Crypto
begin

text \<open>
  What the backup crate reads and writes: the object store, the clock, the random source and the local
  cache of repository metadata (\<open>cache.rs\<close>), absent when the repository was opened without one. The
  cache may hold anything: nothing in the development assumes that its entries are genuine. A failed
  cache write is logged and has no effect; the model's cache writes succeed. The store's puts fail by the
  hooks of the test store; \<open>bw_deny\<close> are the keys for which it refuses to delete the object.
\<close>

datatype cache_kind = CIndex | CSnapshot | CTree

type_synonym cache = "(cache_kind \<times> bid, bytes) fmap"

record bworld =
  bw_store :: mem_store
  bw_now :: instant
  bw_random :: nat
  bw_cache :: "cache option"
  bw_deny :: "string \<Rightarrow> bool"

type_synonym 'a bact = "(bworld, berror, 'a) action"

text \<open>\<open>?\<close> on a store operation converts its error.\<close>

definition from_bstore :: "'a store_action \<Rightarrow> 'a bact" where
  "from_bstore m = (\<lambda>w. case m (bw_store w) of (r, s) \<Rightarrow> (from_mirror r, w\<lparr>bw_store := s\<rparr>))"

definition bput :: "string \<Rightarrow> bytes \<Rightarrow> unit bact" where
  "bput key b = (\<lambda>w. from_bstore (mem_put_bytes (bw_now w) key b) w)"

definition bdelete :: "string \<Rightarrow> unit bact" where
  "bdelete key = (\<lambda>w. if bw_deny w key then (Inl (BMirror (EStore key)), w) else from_bstore (mem_delete key) w)"

definition random_id :: "benv \<Rightarrow> bid bact" where
  "random_id B = (\<lambda>w. (Inr (b_random_id B (bw_random w)), w\<lparr>bw_random := Suc (bw_random w)\<rparr>))"

text \<open>Sealing draws a nonce.\<close>

definition bseal :: "benv \<Rightarrow> keys \<Rightarrow> key_kind \<Rightarrow> bytes \<Rightarrow> string \<Rightarrow> bytes bact" where
  "bseal B ks kind plaintext aad = (\<lambda>w. (seal B (b_nonce B (bw_random w)) ks kind plaintext aad,
     w\<lparr>bw_random := Suc (bw_random w)\<rparr>))"

definition brandom_ok :: "benv \<Rightarrow> bool" where
  "brandom_ok B \<longleftrightarrow> (\<forall>i. length (b_nonce B i) = NONCE_SIZE \<and> length (b_random_id B i) = ID_SIZE)"

text \<open>BLAKE3's output fills an identifier.\<close>

definition hash_ok :: "benv \<Rightarrow> bool" where
  "hash_ok B \<longleftrightarrow> (\<forall>k p. length (b_keyed_hash B k p) = ID_SIZE)"

definition bcrypto_ok :: "benv \<Rightarrow> bool" where
  "bcrypto_ok B \<longleftrightarrow> aead_ok (b_aead B) \<and> zstd_ok B \<and> brandom_ok B \<and> hash_ok B"

section \<open>The cache\<close>

definition cache_get :: "cache_kind \<Rightarrow> bid \<Rightarrow> bworld \<Rightarrow> bytes option" where
  "cache_get kind i w = Option.bind (bw_cache w) (\<lambda>c. fmlookup c (kind, i))"

definition cache_put :: "cache_kind \<Rightarrow> bid \<Rightarrow> bytes \<Rightarrow> unit bact" where
  "cache_put kind i b = act_mod (\<lambda>w. w\<lparr>bw_cache := map_option (fmupd (kind, i) b) (bw_cache w)\<rparr>)"

definition cache_remove :: "cache_kind \<Rightarrow> bid \<Rightarrow> unit bact" where
  "cache_remove kind i = act_mod (\<lambda>w. w\<lparr>bw_cache := map_option (fmdrop (kind, i)) (bw_cache w)\<rparr>)"

section \<open>Listing\<close>

text \<open>\<open>key.rsplit('/').next()\<close>\<close>

definition last_segment :: "string \<Rightarrow> string" where
  "last_segment s = rev (takeWhile (\<lambda>c. c \<noteq> CHR ''/'') (rev s))"

definition list_ids :: "string \<Rightarrow> string \<Rightarrow> (bid \<times> u64) list bact" where
  "list_ids base dir = act_bind (from_bstore (mem_list (base @ dir) None)) (\<lambda>metas.
     act_ok (sort (concat (map (\<lambda>m. case id_parse (last_segment (om_key m)) of
         Inl _ \<Rightarrow> [] | Inr i \<Rightarrow> [(i, om_size m)]) metas))))"

section \<open>Runs\<close>

lemma from_bstore_run [act_simps]:
  "from_bstore m w = (case m (bw_store w) of (r, s) \<Rightarrow> (from_mirror r, w\<lparr>bw_store := s\<rparr>))"
  by (simp add: from_bstore_def)

lemma bdelete_run: "bdelete k w = (if bw_deny w k then (Inl (BMirror (EStore k)), w)
    else (Inr (), w\<lparr>bw_store := bw_store w\<lparr>ms_entries := fmdrop k (ms_entries (bw_store w))\<rparr>\<rparr>))"
  by (simp add: bdelete_def from_bstore_run mem_delete_def)

lemma random_id_run [simp]: "random_id B w = (Inr (b_random_id B (bw_random w)), w\<lparr>bw_random := Suc (bw_random w)\<rparr>)"
  by (simp add: random_id_def)

lemma bseal_run [simp]:
  "bseal B ks kind p a w = (seal B (b_nonce B (bw_random w)) ks kind p a, w\<lparr>bw_random := Suc (bw_random w)\<rparr>)"
  by (simp add: bseal_def)

lemma bput_ok: "bput k b w = (Inr (), w') \<longleftrightarrow>
    maybe_fail_put k (bw_store w) = Inr () \<and> w' = w\<lparr>bw_store := mem_insert (bw_now w) k b (bw_store w)\<rparr>"
  by (cases "maybe_fail_put k (bw_store w)") (auto simp: bput_def from_bstore_run mem_put_bytes_def)

lemma bput_err: "bput k b w = (Inl e, w') \<Longrightarrow> w' = w"
  by (cases "maybe_fail_put k (bw_store w)") (auto simp: bput_def from_bstore_run mem_put_bytes_def)

lemma cache_put_run [simp]: "cache_put kind i b w = (Inr (), w\<lparr>bw_cache := map_option (fmupd (kind, i) b) (bw_cache w)\<rparr>)"
  by (simp add: cache_put_def)

lemma cache_remove_run [simp]: "cache_remove kind i w = (Inr (), w\<lparr>bw_cache := map_option (fmdrop (kind, i)) (bw_cache w)\<rparr>)"
  by (simp add: cache_remove_def)

text \<open>The content of the store, which reads leave alone.\<close>

abbreviation objects :: "bworld \<Rightarrow> (string, object) fmap" where
  "objects w \<equiv> ms_entries (bw_store w)"

definition stored :: "bworld \<Rightarrow> string \<Rightarrow> bytes option" where
  "stored w k = map_option obj_bytes (fmlookup (objects w) k)"

lemma stored_cong: "objects w' = objects w \<Longrightarrow> stored w' k = stored w k"
  by (simp add: stored_def)

lemma count_read_entries [simp]: "ms_entries (count_read b s) = ms_entries s"
  by (simp add: count_read_def)

lemma stored_updates [simp]:
  "stored (w\<lparr>bw_random := n\<rparr>) k = stored w k"
  "stored (w\<lparr>bw_cache := c\<rparr>) k = stored w k"
  "stored (w\<lparr>bw_store := count_read b (bw_store w)\<rparr>) k = stored w k"
  "stored (w\<lparr>bw_store := mem_insert t k' b (bw_store w)\<rparr>) k = (if k = k' then Some b else stored w k)"
  by (auto simp: stored_def mem_insert_def count_read_def)

lemma stored_lookup: "fmlookup (objects w) k = Some ob \<Longrightarrow> stored w k = Some (obj_bytes ob)"
  by (simp add: stored_def)

lemma bget_ok: "from_bstore (mem_get k) w = (Inr b, w') \<longleftrightarrow>
    stored w k = Some b \<and> w' = w\<lparr>bw_store := count_read b (bw_store w)\<rparr>"
  by (auto simp: from_bstore_run mem_get_def stored_def split: option.splits)

lemma last_segment_append:
  assumes "CHR ''/'' \<notin> set t"
  shows "last_segment (s @ CHR ''/'' # t) = t"
proof -
  have "c \<in> set (rev t) \<Longrightarrow> c \<noteq> CHR ''/''" for c using assms by auto
  then have "takeWhile (\<lambda>c. c \<noteq> CHR ''/'') (rev t @ CHR ''/'' # rev s) = rev t"
    by (subst takeWhile_append2) auto
  then show ?thesis by (simp add: last_segment_def)
qed

lemma hex_no_slash: "CHR ''/'' \<notin> set (hex bs)"
proof -
  have "CHR ''/'' \<notin> set hex_digits" by (simp add: hex_digits_def)
  moreover have "hex_char n \<in> set hex_digits" if "n < 16" for n
    using that nth_mem [of n hex_digits] by (simp add: hex_char_def hex_digits_def del: nth_mem)
  moreover have "unat b div 16 < 16" for b :: byte using unsigned_less [of b, where 'a = nat] by simp
  ultimately show ?thesis by (induction bs) (auto simp: hex_def hex_byte_def)
qed

lemma list_ids_result:
  assumes "list_ids base dir w = (r, w')"
  shows "\<exists>ids. r = Inr ids \<and> w' = w \<and> sorted ids \<and>
    (\<forall>i n. (i, n) \<in> set ids \<longleftrightarrow> (\<exists>k ob. fmlookup (objects w) k = Some ob \<and> prefix (base @ dir) k \<and>
       id_parse (last_segment k) = Inr i \<and> n = of_nat (length (obj_bytes ob))))"
proof -
  obtain metas where m: "mem_list (base @ dir) None (bw_store w) = (Inr metas, bw_store w)" by (simp add: mem_list_def)
  have set: "set metas = (\<lambda>(key, ob). mem_meta key ob) ` {(key, ob). fmlookup (objects w) key = Some ob \<and> prefix (base @ dir) key}"
    using m by (auto simp: mem_list_def fm_entries_iff image_iff) blast
  let ?ids = "sort (concat (map (\<lambda>m. case id_parse (last_segment (om_key m)) of
      Inl _ \<Rightarrow> [] | Inr i \<Rightarrow> [(i, om_size m)]) metas))"
  have "r = Inr ?ids \<and> w' = w" using assms m by (auto simp: list_ids_def act_bind_run from_bstore_run)
  moreover have "(i, n) \<in> set ?ids \<longleftrightarrow> (\<exists>k ob. fmlookup (objects w) k = Some ob \<and> prefix (base @ dir) k \<and>
       id_parse (last_segment k) = Inr i \<and> n = of_nat (length (obj_bytes ob)))" for i n
  proof -
    have "(i, n) \<in> set ?ids \<longleftrightarrow> (\<exists>m\<in>set metas. id_parse (last_segment (om_key m)) = Inr i \<and> n = om_size m)"
      by (auto split: sum.splits) force
    then show ?thesis unfolding set by (auto simp: mem_meta_def)
  qed
  ultimately show ?thesis by auto
qed

section \<open>A concrete environment\<close>

text \<open>For the witnesses: the sample AEAD, a hash that keeps the first 32 bytes, a compressor of constant runs.\<close>

definition sample_zstd :: "bytes \<Rightarrow> bytes option" where
  "sample_zstd p = Some (if p \<noteq> [] \<and> p = replicate (length p) (hd p) then [0, hd p] else 1 # p)"

definition sample_unzstd :: "bytes \<Rightarrow> nat \<Rightarrow> bytes option" where
  "sample_unzstd c n = (case c of [] \<Rightarrow> None | b # bs \<Rightarrow> if b = 0 then Some (replicate n (hd bs)) else Some bs)"

definition sample_benv :: benv where
  "sample_benv = \<lparr>b_aead = sample_aead, b_keyed_hash = (\<lambda>k p. take ID_SIZE (p @ replicate ID_SIZE 0)),
     b_derive_key = (\<lambda>c k. bytes_of c @ k), b_zstd = sample_zstd, b_unzstd = sample_unzstd,
     b_nonce = (\<lambda>n. replicate NONCE_SIZE 0), b_random_id = (\<lambda>n. le_bytes ID_SIZE n)\<rparr>"

definition sample_keys :: keys where
  "sample_keys = \<lparr>k_id = [1], k_data = [2], k_meta = [3]\<rparr>"

definition sample_bworld :: bworld where
  "sample_bworld = \<lparr>bw_store = mem_new, bw_now = 5, bw_random = 1, bw_cache = Some fmempty, bw_deny = (\<lambda>_. False)\<rparr>"

lemma sample_benv_ok: "bcrypto_ok sample_benv"
proof -
  have "zstd_ok sample_benv"
    by (auto simp: zstd_ok_def sample_benv_def sample_zstd_def sample_unzstd_def split: if_splits)
  then show ?thesis
    using sample_aead_ok by (simp add: bcrypto_ok_def brandom_ok_def hash_ok_def) (auto simp: sample_benv_def min_def)
qed

text \<open>The bytes the random source gave out are distinct identifiers as long as the counter fits.\<close>

lemma sample_seal [simp]:
  assumes "length p \<le> 65536"
  shows "seal sample_benv n ks kind p a = Inr (n @ p @ sample_tag 0 True)"
  using assms by (simp add: seal_def encrypt_bytes_stream stream_seal_last CHUNK_SIZE_def sample_benv_def)
    (simp add: sample_aead_def)

lemma sample_nonce [simp]: "b_nonce sample_benv i = replicate NONCE_SIZE 0" "b_random_id sample_benv i = le_bytes ID_SIZE i"
  by (simp_all add: sample_benv_def)

lemma sample_benv_sel: "b_zstd sample_benv = sample_zstd" "b_unzstd sample_benv = sample_unzstd"
  "b_keyed_hash sample_benv = (\<lambda>k p. take ID_SIZE (p @ replicate ID_SIZE 0))"
  by (simp_all add: sample_benv_def)

end
