(* ===== verification/Pack.thy ===== *)
theory Pack
  imports Backup_World
begin

text \<open>
  Packs (\<open>backup-core/src/pack.rs\<close>): many sealed blobs in one object, with a sealed header and a
  footer at the end. Offsets and lengths keep their 32 bits.
\<close>

section \<open>Format\<close>

definition TARGET_SIZE :: nat where "TARGET_SIZE = 16 * 2 ^ 20"
definition MAGIC :: bytes where "MAGIC = bytes_of ''RFMB''"
definition PACK_VERSION :: u32 where "PACK_VERSION = 1"
definition FOOTER_SIZE :: nat where "FOOTER_SIZE = 12"
definition ENTRY_SIZE :: nat where "ENTRY_SIZE = 2 + ID_SIZE + 12"
definition MAX_HEADER_SIZE :: u32 where "MAX_HEADER_SIZE = 64 * 2 ^ 20"
definition TAIL_READ_SIZE :: nat where "TAIL_READ_SIZE = 4 * 2 ^ 10"

definition pack_name :: "bid \<Rightarrow> string" where
  "pack_name i = ''packs/'' @ take 2 (hex i) @ ''/'' @ hex i"

datatype blob_type = BData | BTree

definition blob_type_byte :: "blob_type \<Rightarrow> byte" where
  "blob_type_byte t = (case t of BData \<Rightarrow> 1 | BTree \<Rightarrow> 2)"

definition blob_type_from_byte :: "byte \<Rightarrow> blob_type option" where
  "blob_type_from_byte b = (if b = 1 then Some BData else if b = 2 then Some BTree else None)"

definition blob_type_str :: "blob_type \<Rightarrow> string" where
  "blob_type_str t = (case t of BData \<Rightarrow> ''data'' | BTree \<Rightarrow> ''tree'')"

definition blob_key_kind :: "blob_type \<Rightarrow> key_kind" where
  "blob_key_kind t = (case t of BData \<Rightarrow> KData | BTree \<Rightarrow> KMeta)"

record pack_entry =
  pe_type :: blob_type
  pe_compression :: compression_kind
  pe_id :: bid
  pe_offset :: u32
  pe_length :: u32
  pe_plain :: u32

definition pe_end :: "pack_entry \<Rightarrow> nat" where
  "pe_end e = unat (pe_offset e) + unat (pe_length e)"

definition blob_aad :: "blob_type \<Rightarrow> bid \<Rightarrow> string" where
  "blob_aad t i = ''rfm-backup:v1:blob:'' @ blob_type_str t @ '':'' @ hex i"

definition header_aad :: "bid \<Rightarrow> string" where
  "header_aad i = ''rfm-backup:v1:pack-header:'' @ hex i"

definition encode_entry :: "pack_entry \<Rightarrow> bytes" where
  "encode_entry e = blob_type_byte (pe_type e) # compression_byte (pe_compression e) # pe_id e @
     u32_bytes (pe_offset e) @ u32_bytes (pe_length e) @ u32_bytes (pe_plain e)"

text \<open>The number of entries is cast to 32 bits.\<close>

definition encode_entries :: "pack_entry list \<Rightarrow> bytes" where
  "encode_entries es = u32_bytes (of_nat (length es)) @ concat (map encode_entry es)"

definition u32_at :: "bytes \<Rightarrow> nat \<Rightarrow> u32" where
  "u32_at raw i = of_nat (le_nat (take 4 (drop i raw)))"

definition decode_entry :: "bytes \<Rightarrow> pack_entry bresult" where
  "decode_entry raw =
     res_bind (res_of (BFormat ''entry list'') (blob_type_from_byte (raw ! 0))) (\<lambda>t.
     res_bind (res_of (BFormat ''entry list'') (compression_from_byte (raw ! 1))) (\<lambda>c.
     res_bind (id_from_slice (take ID_SIZE (drop 2 raw))) (\<lambda>i.
     Inr \<lparr>pe_type = t, pe_compression = c, pe_id = i, pe_offset = u32_at raw 34, pe_length = u32_at raw 38,
       pe_plain = u32_at raw 42\<rparr>)))"

definition decode_entries :: "bytes \<Rightarrow> (pack_entry list \<times> bytes) bresult" where
  "decode_entries data =
     (if length data < 4 then Inl (BFormat ''entry list'')
      else let count = le_nat (take 4 data); rest = drop 4 data; body_len = count * ENTRY_SIZE
           in if length rest < body_len then Inl (BFormat ''entry list'')
              else res_bind (res_collect decode_entry (chunks ENTRY_SIZE (take body_len rest))) (\<lambda>entries.
                   Inr (entries, drop body_len rest)))"

definition encode_footer :: "u32 \<Rightarrow> bytes" where
  "encode_footer header_len = u32_bytes header_len @ MAGIC @ u32_bytes PACK_VERSION"

definition decode_footer :: "bytes \<Rightarrow> u32 bresult" where
  "decode_footer footer =
     (if length footer \<noteq> FOOTER_SIZE then Inl (BFormat ''pack footer'')
      else if take 4 (drop 4 footer) \<noteq> MAGIC then Inl (BFormat ''pack'')
      else if u32_at footer 8 \<noteq> PACK_VERSION then Inl (BFormat ''pack'')
      else if MAX_HEADER_SIZE < u32_at footer 0 then Inl (BFormat ''pack'')
      else Inr (u32_at footer 0))"

section \<open>Writing\<close>

record pack_writer =
  pw_id :: bid
  pw_compression :: compression_kind
  pw_buf :: bytes
  pw_entries :: "pack_entry list"
  pw_seen :: "bid fset"

record sealed_blob =
  sb_type :: blob_type
  sb_compression :: compression_kind
  sb_id :: bid
  sb_plain :: u32
  sb_sealed :: bytes

definition seal_blob :: "benv \<Rightarrow> keys \<Rightarrow> compression_kind \<Rightarrow> blob_type \<Rightarrow> bid \<Rightarrow> bytes \<Rightarrow> sealed_blob bact" where
  "seal_blob B ks want t i plaintext =
     (if 2 ^ 32 \<le> length plaintext then act_err (BInvalid (dec (length plaintext)))
      else act_bind (act_res (compress B plaintext want)) (\<lambda>(data, used).
           act_bind (bseal B ks (blob_key_kind t) data (blob_aad t i)) (\<lambda>sealed.
           act_ok \<lparr>sb_type = t, sb_compression = used, sb_id = i, sb_plain = of_nat (length plaintext), sb_sealed = sealed\<rparr>)))"

definition blob_from_entry :: "pack_entry \<Rightarrow> bytes \<Rightarrow> sealed_blob" where
  "blob_from_entry e sealed = \<lparr>sb_type = pe_type e, sb_compression = pe_compression e, sb_id = pe_id e,
     sb_plain = pe_plain e, sb_sealed = sealed\<rparr>"

record pack =
  pk_id :: bid
  pk_data :: bytes
  pk_entries :: "pack_entry list"

definition writer_new :: "benv \<Rightarrow> compression_kind \<Rightarrow> pack_writer bact" where
  "writer_new B want = act_bind (random_id B) (\<lambda>i.
     act_ok \<lparr>pw_id = i, pw_compression = want, pw_buf = [], pw_entries = [], pw_seen = {||}\<rparr>)"

text \<open>The length of the sealed blob is cast to 32 bits, in the check of the end offset and in the entry.\<close>

definition writer_push :: "sealed_blob \<Rightarrow> pack_writer \<Rightarrow> (bool \<times> pack_writer) bresult" where
  "writer_push blob wr =
     (if sb_id blob |\<in>| pw_seen wr then Inr (False, wr)
      else let offset = length (pw_buf wr); len = of_nat (length (sb_sealed blob)) :: u32
           in if offset < 2 ^ 32 \<and> offset + unat len < 2 ^ 32
              then Inr (True, wr\<lparr>pw_buf := pw_buf wr @ sb_sealed blob,
                pw_entries := pw_entries wr @ [\<lparr>pe_type = sb_type blob, pe_compression = sb_compression blob, pe_id = sb_id blob,
                  pe_offset = of_nat offset, pe_length = len, pe_plain = sb_plain blob\<rparr>],
                pw_seen := finsert (sb_id blob) (pw_seen wr)\<rparr>)
              else Inl (BInvalid ''pack''))"

definition writer_add :: "benv \<Rightarrow> keys \<Rightarrow> blob_type \<Rightarrow> bid \<Rightarrow> bytes \<Rightarrow> pack_writer \<Rightarrow> (bool \<times> pack_writer) bact" where
  "writer_add B ks t i plaintext wr =
     (if i |\<in>| pw_seen wr then act_ok (False, wr)
      else act_bind (seal_blob B ks (pw_compression wr) t i plaintext) (\<lambda>sealed. act_res (writer_push sealed wr)))"

definition writer_finish :: "benv \<Rightarrow> keys \<Rightarrow> pack_writer \<Rightarrow> pack bact" where
  "writer_finish B ks wr =
     (if pw_entries wr = [] then act_err (BInvalid ''empty pack'')
      else act_bind (bseal B ks KMeta (encode_entries (pw_entries wr)) (header_aad (pw_id wr))) (\<lambda>header.
        if length header < 2 ^ 32 \<and> length header \<le> unat MAX_HEADER_SIZE
        then act_ok \<lparr>pk_id = pw_id wr, pk_data = pw_buf wr @ header @ encode_footer (of_nat (length header)),
               pk_entries = pw_entries wr\<rparr>
        else act_err (BInvalid ''pack header'')))"

section \<open>Reading\<close>

definition decode_header :: "benv \<Rightarrow> keys \<Rightarrow> bid \<Rightarrow> bytes \<Rightarrow> nat \<Rightarrow> pack_entry list bresult" where
  "decode_header B ks i sealed data_len =
     (let what = ''pack '' @ id_short i @ '' header'' in
      res_bind (unseal B ks KMeta sealed (header_aad i) what) (\<lambda>plaintext.
      res_bind (decode_entries plaintext) (\<lambda>(entries, rest).
      if rest \<noteq> [] then Inl (BFormat what)
      else if \<exists>e\<in>set entries. data_len < pe_end e then Inl (BFormat what)
      else Inr entries)))"

definition header_range :: "bid \<Rightarrow> bytes \<Rightarrow> nat \<Rightarrow> (nat \<times> u32) bresult" where
  "header_range i footer psize = (case decode_footer footer of
      Inl _ \<Rightarrow> Inl (BFormat (id_short i))
    | Inr header_len \<Rightarrow> if psize < FOOTER_SIZE + unat header_len then Inl (BFormat (id_short i))
        else Inr (psize - (FOOTER_SIZE + unat header_len), header_len))"

definition parse_header :: "benv \<Rightarrow> keys \<Rightarrow> bid \<Rightarrow> bytes \<Rightarrow> pack_entry list bresult" where
  "parse_header B ks i data =
     (if length data < FOOTER_SIZE then Inl (BFormat (id_short i))
      else res_bind (header_range i (drop (length data - FOOTER_SIZE) data) (length data)) (\<lambda>(start, header_len).
           decode_header B ks i (take (unat header_len) (drop start data)) start))"

text \<open>The tail must be as long as was asked for: taking its last 12 bytes panics otherwise.\<close>

definition load_header_sized :: "benv \<Rightarrow> keys \<Rightarrow> string \<Rightarrow> bid \<Rightarrow> u64 \<Rightarrow> pack_entry list bact" where
  "load_header_sized B ks okey i sz =
     (let psize = unat sz in
      if psize < FOOTER_SIZE then act_err (BFormat (id_short i))
      else let read_len = min TAIL_READ_SIZE psize in
      act_bind (from_bstore (mem_get_range okey (of_nat (psize - read_len)) (of_nat read_len))) (\<lambda>tail.
      if length tail < FOOTER_SIZE then act_err (BPanic okey)
      else act_bind (act_res (header_range i (drop (length tail - FOOTER_SIZE) tail) psize)) (\<lambda>(start, header_len).
      act_bind (if psize - read_len \<le> start
          then act_ok (take (unat header_len) (drop (start - (psize - read_len)) tail))
          else from_bstore (mem_get_range okey (of_nat start) (ucast header_len))) (\<lambda>sealed.
      act_res (decode_header B ks i sealed start)))))"

definition load_header :: "benv \<Rightarrow> keys \<Rightarrow> string \<Rightarrow> bid \<Rightarrow> pack_entry list bact" where
  "load_header B ks okey i =
     act_bind (from_bstore (mem_head okey)) (\<lambda>head. case head of
        None \<Rightarrow> act_err (BFormat (id_short i))
      | Some meta \<Rightarrow> load_header_sized B ks okey i (om_size meta))"

definition decode_blob :: "benv \<Rightarrow> keys \<Rightarrow> pack_entry \<Rightarrow> bytes \<Rightarrow> bytes bresult" where
  "decode_blob B ks e sealed =
     (let what = blob_type_str (pe_type e) @ '' blob '' @ id_short (pe_id e) in
      if length sealed \<noteq> unat (pe_length e) then Inl (BFormat what)
      else res_bind (unseal B ks (blob_key_kind (pe_type e)) sealed (blob_aad (pe_type e) (pe_id e)) what) (\<lambda>data.
           res_bind (decompress B data (pe_compression e) (unat (pe_plain e))) (\<lambda>plaintext.
           if \<not> verify_blob_id B ks (pe_id e) plaintext then Inl (BCorrupt what) else Inr plaintext)))"

definition load_pack_blob :: "benv \<Rightarrow> keys \<Rightarrow> string \<Rightarrow> pack_entry \<Rightarrow> bytes bact" where
  "load_pack_blob B ks okey e =
     act_bind (from_bstore (mem_get_range okey (ucast (pe_offset e)) (ucast (pe_length e)))) (\<lambda>sealed.
     act_res (decode_blob B ks e sealed))"


section \<open>The entry list\<close>

definition entry_ok :: "pack_entry \<Rightarrow> bool" where
  "entry_ok e \<longleftrightarrow> length (pe_id e) = ID_SIZE"

lemma blob_type_bytes [simp]: "blob_type_from_byte (blob_type_byte t) = Some t"
  by (cases t) (simp_all add: blob_type_byte_def blob_type_from_byte_def)

lemma blob_type_from_byte_some: "blob_type_from_byte b = Some t \<longleftrightarrow> b = blob_type_byte t"
  by (cases t) (auto simp: blob_type_byte_def blob_type_from_byte_def)

lemma length_encode_entry: "entry_ok e \<Longrightarrow> length (encode_entry e) = ENTRY_SIZE"
  by (simp add: encode_entry_def ENTRY_SIZE_def entry_ok_def ID_SIZE_def)

lemma decode_encode_entry: "entry_ok e \<Longrightarrow> decode_entry (encode_entry e) = Inr e"
  by (simp add: decode_entry_def encode_entry_def entry_ok_def ID_SIZE_def u32_at_def id_from_slice_def
      u32_of_bytes [unfolded le_nat_bytes, simplified] del: of_nat_mod)

lemma take_drop_cat: "i + n = j \<Longrightarrow> take n (drop i xs) @ drop j xs = drop i xs"
  by (metis append_take_drop_id drop_drop add.commute)

lemma encode_decode_entry:
  assumes "decode_entry raw = Inr e" and "length raw = ENTRY_SIZE"
  shows "raw = encode_entry e \<and> entry_ok e"
proof -
  from assms(1) obtain t c where d: "blob_type_from_byte (raw ! 0) = Some t" "compression_from_byte (raw ! 1) = Some c"
    and e: "e = \<lparr>pe_type = t, pe_compression = c, pe_id = take 32 (drop 2 raw), pe_offset = u32_at raw 34,
      pe_length = u32_at raw 38, pe_plain = u32_at raw 42\<rparr>" "length (take 32 (drop 2 raw)) = 32"
    by (auto simp: decode_entry_def res_bind_ok id_from_slice_def ID_SIZE_def split: if_splits)
  have len: "length raw = 46" using assms(2) by (simp add: ENTRY_SIZE_def ID_SIZE_def)
  then have q: "u32_bytes (u32_at raw i) = take 4 (drop i raw)" if "i + 4 \<le> 46" for i
    using that by (simp only: u32_at_def) (intro u32_bytes_of, simp)
  have last: "take 4 (drop 42 raw) = drop 42 raw" using len by simp
  have parts: "take 32 (drop 2 raw) @ take 4 (drop 34 raw) @ take 4 (drop 38 raw) @ drop 42 raw = drop 2 raw"
    by (simp add: take_drop_cat)
  obtain a b rest where raw: "raw = a # b # rest" using len by (cases raw; cases "tl raw") auto
  have "encode_entry e = raw ! 0 # raw ! 1 # drop 2 raw"
    using d e q last parts by (simp add: encode_entry_def blob_type_from_byte_some compression_from_byte_some)
  then show ?thesis using raw e by (simp add: entry_ok_def ID_SIZE_def)
qed

lemma chunks_concat:
  assumes "\<forall>x\<in>set xs. length x = m" and "0 < m"
  shows "chunks m (concat xs) = xs"
  using assms(1)
proof (induction xs)
  case Nil
  then show ?case by (simp add: chunks.simps)
next
  case (Cons x xs)
  then have "x @ concat xs \<noteq> []" using assms(2) by auto
  with Cons assms(2) show ?case by (simp add: chunks.simps [of m "x @ concat xs"])
qed

lemma concat_chunks: "0 < m \<Longrightarrow> concat (chunks m xs) = xs"
  by (induction m xs rule: chunks.induct) (subst chunks.simps, auto)

lemma chunks_step: "0 < m \<Longrightarrow> xs \<noteq> [] \<Longrightarrow> chunks m xs = take m xs # chunks m (drop m xs)"
  by (subst chunks.simps) simp

lemma chunks_lengths: "0 < m \<Longrightarrow> length xs = m * n \<Longrightarrow> (\<forall>x\<in>set (chunks m xs). length x = m) \<and> length (chunks m xs) = n"
proof (induction n arbitrary: xs)
  case 0
  then show ?case by (simp add: chunks.simps)
next
  case (Suc n)
  have xs: "xs \<noteq> []" "length (drop m xs) = m * n" "length (take m xs) = m" using Suc.prems by auto
  show ?case using Suc.IH [OF Suc.prems(1) xs(2)] xs(3) chunks_step [OF Suc.prems(1) xs(1)] by auto
qed

text \<open>
  The decoder accepts exactly what the encoder produces, and tells the list from the bytes behind it.
\<close>

lemma decode_entries_iff:
  "decode_entries data = Inr (es, rest) \<longleftrightarrow>
     data = encode_entries es @ rest \<and> (\<forall>e\<in>set es. entry_ok e) \<and> length es < 2 ^ 32"
proof
  assume d: "decode_entries data = Inr (es, rest)"
  define n where "n = le_nat (take 4 data)"
  have p: "4 \<le> length data" "n * ENTRY_SIZE \<le> length data - 4"
    "res_collect decode_entry (chunks ENTRY_SIZE (take (n * ENTRY_SIZE) (drop 4 data))) = Inr es"
    "rest = drop (n * ENTRY_SIZE) (drop 4 data)"
    using d unfolding decode_entries_def n_def Let_def by (simp_all add: res_bind_ok not_less split: if_splits)
  let ?cs = "chunks ENTRY_SIZE (take (n * ENTRY_SIZE) (drop 4 data))"
  have E: "0 < ENTRY_SIZE" by (simp add: ENTRY_SIZE_def)
  have blen: "length (take (n * ENTRY_SIZE) (drop 4 data)) = ENTRY_SIZE * n" using p(2) by (simp add: mult.commute)
  have cs: "\<forall>x\<in>set ?cs. length x = ENTRY_SIZE" "length ?cs = n"
    using chunks_lengths [OF E blen] by blast+
  have all: "list_all2 (\<lambda>x e. decode_entry x = Inr e) ?cs es" using p(3) by (simp add: res_collect_ok)
  then have les: "length es = n" using cs(2) list_all2_lengthD by fastforce
  have "?cs = map encode_entry es \<and> (\<forall>e\<in>set es. entry_ok e)"
    using all cs(1)
  proof (induction rule: list_all2_induct)
    case (Cons x xs y ys)
    then show ?case using encode_decode_entry [of x y] by auto
  qed auto
  moreover have "concat ?cs = take (n * ENTRY_SIZE) (drop 4 data)" by (rule concat_chunks [OF E])
  ultimately have body: "take (n * ENTRY_SIZE) (drop 4 data) = concat (map encode_entry es)" "\<forall>e\<in>set es. entry_ok e" by auto
  have n32: "n < 2 ^ 32" using le_nat_less [of "take 4 data"] p(1) by (simp add: n_def)
  have head: "take 4 data = u32_bytes (of_nat n)"
    using u32_bytes_of [of "take 4 data"] p(1) by (simp add: n_def)
  have "data = take 4 data @ take (n * ENTRY_SIZE) (drop 4 data) @ drop (n * ENTRY_SIZE) (drop 4 data)"
    by (metis append_take_drop_id)
  then show "data = encode_entries es @ rest \<and> (\<forall>e\<in>set es. entry_ok e) \<and> length es < 2 ^ 32"
    using head body p(4) les n32 by (simp add: encode_entries_def)
next
  assume a: "data = encode_entries es @ rest \<and> (\<forall>e\<in>set es. entry_ok e) \<and> length es < 2 ^ 32"
  then have n: "le_nat (u32_bytes (of_nat (length es))) = length es" by (simp add: unat_of_nat)
  have body: "length (concat (map encode_entry es)) = length es * ENTRY_SIZE"
    using a by (induction es arbitrary: data) (auto simp: length_encode_entry encode_entries_def)
  have "chunks ENTRY_SIZE (concat (map encode_entry es)) = map encode_entry es"
    using a by (intro chunks_concat) (auto simp: length_encode_entry ENTRY_SIZE_def)
  moreover have "res_collect decode_entry (map encode_entry es) = Inr es"
    using a by (induction es arbitrary: data) (auto simp: decode_encode_entry encode_entries_def)
  ultimately show "decode_entries data = Inr (es, rest)"
    using a n body by (simp add: decode_entries_def encode_entries_def Let_def)
qed

section \<open>Writing a pack and reading it back\<close>

definition slice :: "pack_entry \<Rightarrow> bytes \<Rightarrow> bytes" where
  "slice e data = take (unat (pe_length e)) (drop (unat (pe_offset e)) data)"

text \<open>The pack data holds the plaintext \<open>p\<close> at the place of the entry.\<close>

definition holds :: "benv \<Rightarrow> keys \<Rightarrow> pack_entry \<Rightarrow> bytes \<Rightarrow> bytes \<Rightarrow> bool" where
  "holds B ks e data p \<longleftrightarrow> pe_end e \<le> length data \<and> decode_blob B ks e (slice e data) = Inr p"

definition sealed_entry :: "sealed_blob \<Rightarrow> nat \<Rightarrow> pack_entry" where
  "sealed_entry sb offset = \<lparr>pe_type = sb_type sb, pe_compression = sb_compression sb, pe_id = sb_id sb,
     pe_offset = of_nat offset, pe_length = of_nat (length (sb_sealed sb)), pe_plain = sb_plain sb\<rparr>"

definition sealed_ok :: "benv \<Rightarrow> keys \<Rightarrow> sealed_blob \<Rightarrow> bool" where
  "sealed_ok B ks sb \<longleftrightarrow> length (sb_id sb) = ID_SIZE \<and> 35 \<le> length (sb_sealed sb) \<and> length (sb_sealed sb) < 2 ^ 32 \<and>
     (\<exists>p. decode_blob B ks (sealed_entry sb 0) (sb_sealed sb) = Inr p)"

definition writer_ok :: "benv \<Rightarrow> keys \<Rightarrow> pack_writer \<Rightarrow> bool" where
  "writer_ok B ks wr \<longleftrightarrow> (\<forall>e\<in>set (pw_entries wr). entry_ok e \<and> (\<exists>p. holds B ks e (pw_buf wr) p)) \<and>
     fset (pw_seen wr) = pe_id ` set (pw_entries wr) \<and> length (pw_buf wr) < 2 ^ 32 \<and>
     35 * length (pw_entries wr) \<le> length (pw_buf wr)"

definition pack_ok :: "benv \<Rightarrow> keys \<Rightarrow> bid \<Rightarrow> bytes \<Rightarrow> pack_entry list \<Rightarrow> bool" where
  "pack_ok B ks i data es \<longleftrightarrow> length data < 2 ^ 64 \<and> parse_header B ks i data = Inr es \<and> (\<forall>e\<in>set es. entry_ok e \<and> (\<exists>p. holds B ks e data p))"

lemma decode_blob_id: "decode_blob B ks e c = Inr p \<Longrightarrow> blob_id B ks p = pe_id e"
  by (auto simp: decode_blob_def res_bind_ok Let_def verify_blob_id_def blob_id_def split: if_splits)

lemma decode_blob_offset: "decode_blob B ks (e\<lparr>pe_offset := n\<rparr>) c = decode_blob B ks e c"
  by (simp add: decode_blob_def Let_def)

lemma holds_append: "holds B ks e data p \<Longrightarrow> holds B ks e (data @ ext) p"
  by (simp add: holds_def slice_def pe_end_def)

lemma sealed_len_bound: "n \<le> 2 ^ 31 \<Longrightarrow> NONCE_SIZE + n + TAG_SIZE * frame_count n < 2 ^ 32"
  by (simp add: NONCE_SIZE_def TAG_SIZE_def frame_count_def CHUNK_SIZE_def)

lemma seal_blob_ok:
  assumes B: "bcrypto_ok B" and p: "length p \<le> 2 ^ 31"
    and s: "seal_blob B ks want t (blob_id B ks p) p w = (Inr sb, w')"
  shows "sealed_ok B ks sb \<and> sb_id sb = blob_id B ks p \<and> (\<exists>n. w' = w\<lparr>bw_random := n\<rparr>) \<and>
    decode_blob B ks (sealed_entry sb 0) (sb_sealed sb) = Inr p"
proof -
  let ?i = "blob_id B ks p"
  from s p obtain d used c where c: "compress B p want = Inr (d, used)"
    and sl: "seal B (b_nonce B (bw_random w)) ks (blob_key_kind t) d (blob_aad t ?i) = Inr c"
    and sb: "sb = \<lparr>sb_type = t, sb_compression = used, sb_id = ?i, sb_plain = of_nat (length p), sb_sealed = c\<rparr>"
    and w': "w' = w\<lparr>bw_random := Suc (bw_random w)\<rparr>"
    by (auto simp: seal_blob_def act_bind_ok split: if_splits prod.splits)
  have n: "length (b_nonce B (bw_random w)) = NONCE_SIZE" using B by (simp add: bcrypto_ok_def brandom_ok_def)
  have a: "aead_ok (b_aead B)" "zstd_ok B" using B by (simp_all add: bcrypto_ok_def)
  have d: "decompress B d used (length p) = Inr p" "length d \<le> length p" using decompress_compress [OF a(2) c] .
  have len: "length c < 2 ^ 32" using seal_length [OF a(1) n sl] sealed_len_bound [of "length d"] d(2) p by simp
  have big: "35 \<le> length c" using seal_length [OF a(1) n sl] frame_count_pos(1) [of "length d"]
    by (simp add: NONCE_SIZE_def TAG_SIZE_def del: frame_count_pos)
  moreover have "unat (of_nat (length p) :: u32) = length p" using p by (simp add: unat_of_nat)
  ultimately have "decode_blob B ks (sealed_entry sb 0) c = Inr p"
    using unseal_seal [OF a(1) n sl] d(1) len
    by (simp add: decode_blob_def sealed_entry_def sb unat_of_nat blob_id_def verify_blob_id_def)
  moreover have "length ?i = ID_SIZE" using B by (simp add: bcrypto_ok_def hash_ok_def blob_id_def)
  ultimately show ?thesis using w' len big by (auto simp: sealed_ok_def sb)
qed

lemma writer_push_ok:
  assumes wr: "writer_ok B ks wr" and sb: "sealed_ok B ks sb" and p: "writer_push sb wr = Inr (added, wr')"
  shows "writer_ok B ks wr' \<and> pw_id wr' = pw_id wr \<and> pw_compression wr' = pw_compression wr \<and>
    (\<exists>ext. pw_buf wr' = pw_buf wr @ ext) \<and>
    fset (pw_seen wr') = insert (sb_id sb) (fset (pw_seen wr)) \<and> (added \<longleftrightarrow> sb_id sb |\<notin>| pw_seen wr) \<and>
    (added \<longrightarrow> pw_entries wr' = pw_entries wr @ [sealed_entry sb (length (pw_buf wr))] \<and>
       holds B ks (sealed_entry sb (length (pw_buf wr))) (pw_buf wr') =
         (\<lambda>q. decode_blob B ks (sealed_entry sb 0) (sb_sealed sb) = Inr q)) \<and>
    (\<not> added \<longrightarrow> wr' = wr)"
proof (cases "sb_id sb |\<in>| pw_seen wr")
  case True
  then show ?thesis using wr p by (auto simp: writer_push_def)
next
  case False
  let ?e = "sealed_entry sb (length (pw_buf wr))"
  have off: "length (pw_buf wr) < 2 ^ 32" and fit: "length (pw_buf wr) + unat (of_nat (length (sb_sealed sb)) :: u32) < 2 ^ 32"
    and wr': "wr' = wr\<lparr>pw_buf := pw_buf wr @ sb_sealed sb, pw_entries := pw_entries wr @ [?e],
      pw_seen := finsert (sb_id sb) (pw_seen wr)\<rparr>" and added: "added"
    using p False by (auto simp: writer_push_def Let_def sealed_entry_def split: if_splits)
  have len: "length (sb_sealed sb) < 2 ^ 32" using sb by (simp add: sealed_ok_def)
  have fit': "length (pw_buf wr) + length (sb_sealed sb) < 2 ^ 32" using fit len by (simp add: unat_of_nat)
  have "unat (pe_offset ?e) = length (pw_buf wr)" "unat (pe_length ?e) = length (sb_sealed sb)"
    using off len by (simp_all add: sealed_entry_def unat_of_nat)
  then have sl: "slice ?e (pw_buf wr') = sb_sealed sb" "pe_end ?e = length (pw_buf wr')"
    by (simp_all add: slice_def pe_end_def wr')
  have dec: "decode_blob B ks ?e = decode_blob B ks (sealed_entry sb 0)"
    using decode_blob_offset [where e = "sealed_entry sb 0" and n = "of_nat (length (pw_buf wr))"] by (auto simp: sealed_entry_def)
  have h: "holds B ks ?e (pw_buf wr') = (\<lambda>q. decode_blob B ks (sealed_entry sb 0) (sb_sealed sb) = Inr q)"
    using sl dec by (auto simp: holds_def)
  have e_id: "pe_id ?e = sb_id sb" by (simp add: sealed_entry_def)
  have "writer_ok B ks wr'"
    unfolding writer_ok_def
  proof (intro conjI ballI)
    fix e assume "e \<in> set (pw_entries wr')"
    then consider "e \<in> set (pw_entries wr)" | "e = ?e" by (auto simp: wr')
    then show "\<exists>p. holds B ks e (pw_buf wr') p" "entry_ok e"
      using wr sb h by (cases; force simp: writer_ok_def wr' sealed_ok_def entry_ok_def e_id intro: holds_append)+
  qed (use wr e_id fit' sb in \<open>auto simp: writer_ok_def wr' sealed_ok_def\<close>)
  then show ?thesis using added False h wr' by auto
qed

text \<open>A finished pack is read back, header and blobs.\<close>

lemma decode_encode_footer: "n \<le> MAX_HEADER_SIZE \<Longrightarrow> decode_footer (encode_footer n) = Inr n"
  by (simp add: decode_footer_def encode_footer_def FOOTER_SIZE_def MAGIC_def bytes_of_def u32_at_def not_less
      del: le_nat_bytes)

lemma length_encode_footer: "length (encode_footer n) = FOOTER_SIZE"
  by (simp add: encode_footer_def FOOTER_SIZE_def MAGIC_def bytes_of_def)

lemma length_encode_entries: "\<forall>e\<in>set es. entry_ok e \<Longrightarrow> length (encode_entries es) = 4 + ENTRY_SIZE * length es"
  by (induction es) (simp_all add: encode_entries_def length_encode_entry)

lemma writer_finish_ok:
  assumes B: "bcrypto_ok B" and wr: "writer_ok B ks wr" and f: "writer_finish B ks wr w = (Inr pk, w')"
  shows "pack_ok B ks (pk_id pk) (pk_data pk) (pk_entries pk) \<and> pk_id pk = pw_id wr \<and> pk_entries pk = pw_entries wr \<and>
    (\<exists>ext. pk_data pk = pw_buf wr @ ext) \<and> (\<exists>n. w' = w\<lparr>bw_random := n\<rparr>)"
proof -
  let ?es = "pw_entries wr" let ?n = "b_nonce B (bw_random w)"
  obtain header where s: "seal B ?n ks KMeta (encode_entries ?es) (header_aad (pw_id wr)) = Inr header"
    and len: "length header \<le> unat MAX_HEADER_SIZE"
    and pk: "pk = \<lparr>pk_id = pw_id wr, pk_data = pw_buf wr @ header @ encode_footer (of_nat (length header)), pk_entries = ?es\<rparr>"
    and w': "w' = w\<lparr>bw_random := Suc (bw_random w)\<rparr>"
    using f by (auto simp: writer_finish_def act_bind_ok split: if_splits)
  have a: "aead_ok (b_aead B)" "length ?n = NONCE_SIZE" using B by (simp_all add: bcrypto_ok_def brandom_ok_def)
  have es: "\<forall>e\<in>set ?es. entry_ok e \<and> (\<exists>p. holds B ks e (pw_buf wr) p)" using wr by (simp add: writer_ok_def)
  have "ENTRY_SIZE * length ?es \<le> length header"
    using seal_length [OF a s] length_encode_entries [of ?es] es by simp
  then have n: "length ?es < 2 ^ 32" using len by (simp add: ENTRY_SIZE_def ID_SIZE_def MAX_HEADER_SIZE_def)
  have hl: "unat (of_nat (length header) :: u32) = length header" using len by (simp add: MAX_HEADER_SIZE_def unat_of_nat)
  then have "(of_nat (length header) :: u32) \<le> MAX_HEADER_SIZE" using len by (simp add: word_le_nat_alt)
  note ft = decode_encode_footer [OF this]
  let ?d = "pk_data pk"
  have range: "header_range (pw_id wr) (drop (length ?d - FOOTER_SIZE) ?d) (length ?d) =
      Inr (length (pw_buf wr), of_nat (length header))"
    using ft hl by (simp add: pk header_range_def length_encode_footer)
  have "decode_entries (encode_entries ?es) = Inr (?es, [])" using n es by (subst decode_entries_iff) simp
  moreover have "\<forall>e\<in>set ?es. pe_end e \<le> length (pw_buf wr)" using es by (auto simp: holds_def)
  ultimately have "decode_header B ks (pw_id wr) header (length (pw_buf wr)) = Inr ?es"
    using unseal_seal [OF a s] by (force simp: decode_header_def not_less Bex_def)
  then have "parse_header B ks (pw_id wr) ?d = Inr ?es"
    unfolding parse_header_def range by (simp add: pk hl length_encode_footer)
  moreover have "\<exists>p. holds B ks e ?d p" if "e \<in> set ?es" for e
    using es that by (auto simp: pk intro: holds_append)
  moreover have "length ?d < 2 ^ 64" using wr len
    by (simp add: writer_ok_def pk length_encode_footer FOOTER_SIZE_def MAX_HEADER_SIZE_def)
  ultimately show ?thesis using es w' by (auto simp: pack_ok_def pk)
qed

section \<open>Reading the header from the store\<close>

lemma brange_run: "stored w k = Some data \<Longrightarrow> i + n \<le> length data \<Longrightarrow> length data < 2 ^ 64 \<Longrightarrow>
    from_bstore (mem_get_range k (of_nat i) (of_nat n)) w =
      (Inr (take n (drop i data)), w\<lparr>bw_store := count_read (take n (drop i data)) (bw_store w)\<rparr>)"
  by (auto simp: from_bstore_run mem_get_range_def stored_def unat_of_nat Let_def split: option.splits)

lemma load_header_sized_parse:
  assumes k: "stored w k = Some data" and len: "length data < 2 ^ 64"
  shows "fst (load_header_sized B ks k i (of_nat (length data)) w) = parse_header B ks i data"
    and "objects (snd (load_header_sized B ks k i (of_nat (length data)) w)) = objects w"
proof -
  let ?n = "length data" let ?r = "min TAIL_READ_SIZE ?n"
  let ?tail = "drop (?n - ?r) data"
  let ?w1 = "w\<lparr>bw_store := count_read ?tail (bw_store w)\<rparr>"
  have sz: "unat (of_nat ?n :: u64) = ?n" using len by (simp add: unat_of_nat)
  have T: "FOOTER_SIZE \<le> TAIL_READ_SIZE" by (simp add: FOOTER_SIZE_def TAIL_READ_SIZE_def)
  have tail: "from_bstore (mem_get_range k (of_nat (?n - ?r)) (of_nat ?r)) w = (Inr ?tail, ?w1)"
    using brange_run [OF k, of "?n - ?r" ?r] len by simp
  have foot: "drop (length ?tail - FOOTER_SIZE) ?tail = drop (?n - FOOTER_SIZE) data" if "FOOTER_SIZE \<le> ?n"
    using that T by (cases "TAIL_READ_SIZE \<le> ?n") (auto simp: min_def)
  have k1: "stored ?w1 k = Some data" using k by simp
  have read: "(if ?n - ?r \<le> start then act_ok (take (unat h) (drop (start - (?n - ?r)) ?tail))
       else from_bstore (mem_get_range k (of_nat start) (ucast h))) ?w1 = (Inr (take (unat h) (drop start data)), w2)
     \<Longrightarrow> objects w2 = objects w" for start h w2
    by (auto simp: from_bstore_run mem_get_range_def Let_def split: if_splits option.splits)
  have go: "\<exists>w2. (if ?n - ?r \<le> start then act_ok (take (unat h) (drop (start - (?n - ?r)) ?tail))
       else from_bstore (mem_get_range k (of_nat start) (ucast h))) ?w1 = (Inr (take (unat h) (drop start data)), w2)"
    if "start + unat h \<le> ?n" for start h
  proof (cases "?n - ?r \<le> start")
    case False
    have "(ucast h :: u64) = of_nat (unat h)" by (simp add: unsigned_ucast_eq)
    with False show ?thesis using brange_run [OF k1 that len] by simp
  qed simp
  have "fst (load_header_sized B ks k i (of_nat ?n) w) = parse_header B ks i data \<and>
      objects (snd (load_header_sized B ks k i (of_nat ?n) w)) = objects w"
  proof (cases "?n < FOOTER_SIZE")
    case True
    then show ?thesis by (simp add: load_header_sized_def parse_header_def sz)
  next
    case False
    then have F: "FOOTER_SIZE \<le> ?n" "\<not> length ?tail < FOOTER_SIZE" using T by auto
    show ?thesis
    proof (cases "header_range i (drop (?n - FOOTER_SIZE) data) ?n")
      case (Inl e)
      then show ?thesis using F foot by (simp add: load_header_sized_def parse_header_def sz Let_def tail del: drop_drop length_drop of_nat_diff)
    next
      case (Inr p)
      obtain start h where p: "p = (start, h)" by (cases p)
      then have "start + unat h \<le> ?n" using Inr by (auto simp: header_range_def split: sum.splits if_splits)
      from go [OF this] read obtain w2 where w2: "(if ?n - ?r \<le> start then act_ok (take (unat h) (drop (start - (?n - ?r)) ?tail))
         else from_bstore (mem_get_range k (of_nat start) (ucast h))) ?w1 = (Inr (take (unat h) (drop start data)), w2)"
        "objects w2 = objects w" by blast
      then show ?thesis using F foot Inr p
        by (simp add: load_header_sized_def parse_header_def sz Let_def tail w2 del: drop_drop length_drop of_nat_diff)
    qed
  qed
  then show "fst (load_header_sized B ks k i (of_nat ?n) w) = parse_header B ks i data"
    "objects (snd (load_header_sized B ks k i (of_nat ?n) w)) = objects w" by auto
qed

section \<open>Blobs in, blobs out\<close>

text \<open>A pack built from a list of blobs, each added under its own identifier.\<close>

fun add_blobs :: "benv \<Rightarrow> keys \<Rightarrow> (blob_type \<times> bytes) list \<Rightarrow> pack_writer \<Rightarrow> pack_writer bact" where
  "add_blobs B ks [] wr = act_ok wr"
| "add_blobs B ks ((t, p) # blobs) wr = act_bind (writer_add B ks t (blob_id B ks p) p wr) (\<lambda>(_, wr'). add_blobs B ks blobs wr')"

definition build_pack :: "benv \<Rightarrow> keys \<Rightarrow> compression_kind \<Rightarrow> (blob_type \<times> bytes) list \<Rightarrow> pack bact" where
  "build_pack B ks want blobs = act_bind (writer_new B want) (\<lambda>wr. act_bind (add_blobs B ks blobs wr) (writer_finish B ks))"

text \<open>Every entry of the writer holds one of the blobs that were added, and every blob has an entry.\<close>

definition writer_has :: "benv \<Rightarrow> keys \<Rightarrow> bytes set \<Rightarrow> pack_writer \<Rightarrow> bool" where
  "writer_has B ks ps wr \<longleftrightarrow> writer_ok B ks wr \<and> distinct (map pe_id (pw_entries wr)) \<and>
     fset (pw_seen wr) = blob_id B ks ` ps \<and> (\<forall>e\<in>set (pw_entries wr). \<exists>p\<in>ps. holds B ks e (pw_buf wr) p)"

lemma writer_add_has:
  assumes B: "bcrypto_ok B" and p: "length p \<le> 2 ^ 31" and wr: "writer_has B ks ps wr"
    and a: "writer_add B ks t (blob_id B ks p) p wr w = (Inr (added, wr'), w')"
  shows "writer_has B ks (insert p ps) wr'"
proof (cases "blob_id B ks p |\<in>| pw_seen wr")
  case True
  then show ?thesis using wr a by (auto simp: writer_add_def writer_has_def)
next
  case False
  then obtain sb w1 where s: "seal_blob B ks (pw_compression wr) t (blob_id B ks p) p w = (Inr sb, w1)"
    and push: "writer_push sb wr = Inr (added, wr')"
    using a by (auto simp: writer_add_def act_bind_ok)
  have ok: "sealed_ok B ks sb" "sb_id sb = blob_id B ks p" "decode_blob B ks (sealed_entry sb 0) (sb_sealed sb) = Inr p"
    using seal_blob_ok [OF B p s] by auto
  let ?e = "sealed_entry sb (length (pw_buf wr))"
  have wok: "writer_ok B ks wr" using wr by (simp add: writer_has_def)
  note push' = writer_push_ok [OF wok ok(1) push]
  have added using push' False ok by auto
  then have new: "pw_entries wr' = pw_entries wr @ [?e]" "holds B ks ?e (pw_buf wr') p"
    "fset (pw_seen wr') = insert (blob_id B ks p) (fset (pw_seen wr))" using push' ok by auto
  obtain ext where buf: "pw_buf wr' = pw_buf wr @ ext" using push' by auto
  have e_id: "pe_id ?e = blob_id B ks p" using ok by (simp add: sealed_entry_def)
  have "\<exists>q\<in>insert p ps. holds B ks e (pw_buf wr') q" if e_in: "e \<in> set (pw_entries wr')" for e
  proof (cases "e = ?e")
    case False
    then obtain q where "q \<in> ps" "holds B ks e (pw_buf wr) q" using e_in new(1) wr by (auto simp: writer_has_def)
    then show ?thesis using holds_append [of B ks e "pw_buf wr" q ext] buf by auto
  qed (use new(2) in auto)
  moreover have "distinct (map pe_id (pw_entries wr'))"
    using wr False new(1) e_id by (auto simp: writer_has_def writer_ok_def)
  ultimately show ?thesis using push' new(3) wr by (simp add: writer_has_def)
qed

lemma add_blobs_has:
  assumes B: "bcrypto_ok B"
  shows "\<lbrakk>\<forall>(t, p)\<in>set blobs. length p \<le> 2 ^ 31; writer_has B ks ps wr; add_blobs B ks blobs wr w = (Inr wr', w')\<rbrakk> \<Longrightarrow>
    writer_has B ks (ps \<union> snd ` set blobs) wr'"
proof (induction blobs arbitrary: ps wr w)
  case (Cons b blobs)
  obtain t p where b: "b = (t, p)" by (cases b)
  from Cons.prems(3) obtain added wr1 w1 where a: "writer_add B ks t (blob_id B ks p) p wr w = (Inr (added, wr1), w1)"
    and r: "add_blobs B ks blobs wr1 w1 = (Inr wr', w')" by (auto simp: act_bind_ok b)
  have "writer_has B ks (insert p ps) wr1" using writer_add_has [OF B _ Cons.prems(2) a] Cons.prems(1) by (simp add: b)
  from Cons.IH [OF _ this r] Cons.prems(1) show ?case by (simp add: b)
qed simp

lemma build_pack_ok:
  assumes B: "bcrypto_ok B" and len: "\<forall>(t, p)\<in>set blobs. length p \<le> 2 ^ 31"
    and b: "build_pack B ks want blobs w = (Inr pk, w')"
  shows "pack_ok B ks (pk_id pk) (pk_data pk) (pk_entries pk) \<and> distinct (map pe_id (pk_entries pk)) \<and>
    (\<forall>(t, p)\<in>set blobs. \<exists>e\<in>set (pk_entries pk). pe_id e = blob_id B ks p \<and> (\<exists>q\<in>snd ` set blobs. holds B ks e (pk_data pk) q)) \<and>
    (\<forall>e\<in>set (pk_entries pk). \<exists>q\<in>snd ` set blobs. holds B ks e (pk_data pk) q)"
proof -
  let ?new = "\<lparr>pw_id = b_random_id B (bw_random w), pw_compression = want, pw_buf = [], pw_entries = [], pw_seen = {||}\<rparr>"
  obtain wr w1 w2 where a: "add_blobs B ks blobs ?new w1 = (Inr wr, w2)" and f: "writer_finish B ks wr w2 = (Inr pk, w')"
    using b by (auto simp: build_pack_def writer_new_def act_bind_ok)
  have "writer_has B ks {} ?new" by (simp add: writer_has_def writer_ok_def)
  from add_blobs_has [OF B len this a] have wr: "writer_has B ks (snd ` set blobs) wr" by simp
  then have "writer_ok B ks wr" by (simp add: writer_has_def)
  note fin = writer_finish_ok [OF B this f]
  then obtain ext where ext: "pk_data pk = pw_buf wr @ ext" by auto
  have "\<exists>e\<in>set (pk_entries pk). pe_id e = blob_id B ks p \<and> (\<exists>q\<in>snd ` set blobs. holds B ks e (pk_data pk) q)"
    if "(t, p) \<in> set blobs" for t p
  proof -
    have "pe_id ` set (pw_entries wr) = blob_id B ks ` snd ` set blobs" using wr unfolding writer_has_def writer_ok_def by metis
    moreover have "p \<in> snd ` set blobs" using that by force
    ultimately have "blob_id B ks p \<in> pe_id ` set (pw_entries wr)" by simp
    then obtain e where e: "e \<in> set (pw_entries wr)" "pe_id e = blob_id B ks p" by auto
    have "\<exists>q\<in>snd ` set blobs. holds B ks e (pw_buf wr) q" using wr e(1) by (simp add: writer_has_def)
    then obtain q where "q \<in> snd ` set blobs" "holds B ks e (pw_buf wr) q" by blast
    then have "holds B ks e (pk_data pk) q" using ext holds_append by auto
    moreover have "e \<in> set (pk_entries pk)" using e fin by simp
    ultimately show ?thesis using e(2) \<open>q \<in> snd ` set blobs\<close> by blast
  qed
  moreover have "distinct (map pe_id (pk_entries pk))" using wr fin by (simp add: writer_has_def)
  moreover have "\<exists>q\<in>snd ` set blobs. holds B ks e (pk_data pk) q" if "e \<in> set (pk_entries pk)" for e
  proof -
    have "e \<in> set (pw_entries wr)" using that fin by simp
    then obtain q where "q \<in> snd ` set blobs" "holds B ks e (pw_buf wr) q" using wr unfolding writer_has_def by blast
    then have "holds B ks e (pk_data pk) q" using ext holds_append by auto
    then show ?thesis using \<open>q \<in> _\<close> by blast
  qed
  ultimately show ?thesis using fin by blast
qed

lemma load_pack_blob_ok:
  assumes "stored w k = Some data" and "length data < 2 ^ 64" and "holds B ks e data p"
  shows "\<exists>w'. load_pack_blob B ks k e w = (Inr p, w') \<and> objects w' = objects w"
proof -
  have "(ucast (pe_offset e) :: u64) = of_nat (unat (pe_offset e))" "(ucast (pe_length e) :: u64) = of_nat (unat (pe_length e))"
    by (simp_all add: unsigned_ucast_eq)
  then show ?thesis using brange_run [of w k data "unat (pe_offset e)" "unat (pe_length e)"] assms
    by (simp add: load_pack_blob_def holds_def slice_def pe_end_def)
qed

lemma load_pack_blob_id: "load_pack_blob B ks k e w = (Inr p, w') \<Longrightarrow> blob_id B ks p = pe_id e \<and> objects w' = objects w"
  by (auto simp: load_pack_blob_def act_bind_ok from_bstore_run mem_get_range_def Let_def dest: decode_blob_id
      split: prod.splits option.splits if_splits)

text \<open>
  C31: A pack built from any blobs that the packer accepts is read back from its bytes alone: the header
  parses to the entry list that went in, no identifier occurs twice, and the slice of each blob's entry
  decodes to that blob, up to a collision of the keyed hash among the blobs themselves.
\<close>

theorem pack_roundtrip:
  assumes "bcrypto_ok B" and "\<forall>(t, p)\<in>set blobs. length p \<le> 2 ^ 31" and "build_pack B ks want blobs w = (Inr pk, w')"
  shows "parse_header B ks (pk_id pk) (pk_data pk) = Inr (pk_entries pk) \<and> distinct (map pe_id (pk_entries pk)) \<and>
    (\<forall>(t, p)\<in>set blobs. \<exists>e\<in>set (pk_entries pk). pe_id e = blob_id B ks p \<and> pe_end e \<le> length (pk_data pk) \<and>
       (\<exists>q\<in>snd ` set blobs. blob_id B ks q = blob_id B ks p \<and>
          decode_blob B ks e (take (unat (pe_length e)) (drop (unat (pe_offset e)) (pk_data pk))) = Inr q))"
proof (intro conjI ballI, goal_cases)
  case (3 b)
  obtain t p where b: "b = (t, p)" by (cases b)
  with build_pack_ok [OF assms] 3 obtain e q where e: "e \<in> set (pk_entries pk)" "pe_id e = blob_id B ks p"
    "q \<in> snd ` set blobs" "holds B ks e (pk_data pk) q" by blast
  then have "blob_id B ks q = blob_id B ks p" by (auto simp: holds_def dest: decode_blob_id)
  with e show ?case unfolding b holds_def slice_def by blast
qed (use build_pack_ok [OF assms] in \<open>simp_all add: pack_ok_def\<close>)

definition sample_blobs :: "(blob_type \<times> bytes) list" where
  "sample_blobs = [(BData, [7, 7, 7, 7]), (BTree, [1, 2]), (BData, [1, 2])]"

lemma sample_compress: "\<exists>d used. compress sample_benv p want = Inr (d, used) \<and> length d \<le> length p"
proof -
  obtain d used where c: "compress sample_benv p want = Inr (d, used)"
  proof (cases "compress sample_benv p want")
    case (Inl e)
    then show ?thesis by (auto simp: compress_def sample_benv_sel sample_zstd_def split: if_splits)
  qed auto
  then show ?thesis using decompress_compress(2) [OF _ c] sample_benv_ok by (simp add: bcrypto_ok_def)
qed

lemma sample_add:
  assumes "length p \<le> 65536" and "length (pw_buf wr) \<le> 2 ^ 31"
  shows "\<exists>added wr' w'. writer_add sample_benv ks t i p wr w = (Inr (added, wr'), w') \<and>
    length (pw_buf wr') \<le> length (pw_buf wr) + 70000 \<and> length (pw_entries wr') \<le> length (pw_entries wr) + 1"
proof (cases "i |\<in>| pw_seen wr")
  case False
  obtain d used where c: "compress sample_benv p (pw_compression wr) = Inr (d, used)" "length d \<le> length p"
    using sample_compress by blast
  have small: "\<not> 2 ^ 32 \<le> length p" "length d \<le> 65536" using assms(1) c(2) by auto
  let ?n = "b_nonce sample_benv (bw_random w)"
  let ?c = "?n @ d @ sample_tag 0 True"
  have len: "length ?c = 35 + length d" by (simp add: NONCE_SIZE_def sample_tag_def)
  have "seal_blob sample_benv ks (pw_compression wr) t i p w =
      (Inr \<lparr>sb_type = t, sb_compression = used, sb_id = i, sb_plain = of_nat (length p), sb_sealed = ?c\<rparr>,
       w\<lparr>bw_random := Suc (bw_random w)\<rparr>)"
    using small c(1) by (simp add: seal_blob_def)
  moreover have "length (pw_buf wr) + unat (of_nat (length ?c) :: u32) < 2 ^ 32"
    unfolding len unat_of_nat using small(2) assms(2) by simp
  ultimately show ?thesis using False small(2)
    by (intro exI [of _ True]) (simp add: writer_add_def writer_push_def Let_def NONCE_SIZE_def sample_tag_def)
qed (auto simp: writer_add_def)

lemma sample_add_blobs:
  "\<lbrakk>\<forall>(t, p)\<in>set blobs. length p \<le> 65536; length (pw_buf wr) + 70000 * length blobs \<le> 2 ^ 31\<rbrakk> \<Longrightarrow>
    \<exists>wr' w'. add_blobs sample_benv ks blobs wr w = (Inr wr', w') \<and>
      length (pw_entries wr') \<le> length (pw_entries wr) + length blobs"
proof (induction blobs arbitrary: wr w)
  case (Cons b blobs)
  obtain t p where b: "b = (t, p)" by (cases b)
  have "length p \<le> 65536" "length (pw_buf wr) \<le> 2 ^ 31" using Cons.prems by (auto simp: b)
  from sample_add [OF this] obtain added wr1 w1 where a: "writer_add sample_benv ks t (blob_id sample_benv ks p) p wr w = (Inr (added, wr1), w1)"
    "length (pw_buf wr1) \<le> length (pw_buf wr) + 70000" "length (pw_entries wr1) \<le> length (pw_entries wr) + 1" by blast
  have "length (pw_buf wr1) + 70000 * length blobs \<le> 2 ^ 31" using a(2) Cons.prems(2) by simp
  with Cons.IH [of wr1 w1] Cons.prems(1) obtain wr' w' where "add_blobs sample_benv ks blobs wr1 w1 = (Inr wr', w')"
    "length (pw_entries wr') \<le> length (pw_entries wr1) + length blobs" by auto
  then show ?case using a by (simp add: b)
qed simp

lemma sample_finish:
  assumes wr: "writer_ok sample_benv ks wr" and "pw_entries wr \<noteq> []" and "length (pw_entries wr) \<le> 1000"
  shows "\<exists>pk w'. writer_finish sample_benv ks wr w = (Inr pk, w')"
proof -
  have len: "length (encode_entries (pw_entries wr)) = 4 + 46 * length (pw_entries wr)"
    using wr length_encode_entries by (simp add: writer_ok_def ENTRY_SIZE_def ID_SIZE_def)
  then have "length (encode_entries (pw_entries wr)) \<le> 65536" using assms(3) by simp
  then show ?thesis using assms len by (simp add: writer_finish_def NONCE_SIZE_def sample_tag_def MAX_HEADER_SIZE_def)
qed

lemma sample_build:
  assumes "\<forall>(t, p)\<in>set blobs. length p \<le> 65536" and "blobs \<noteq> []" and "length blobs \<le> 1000"
  shows "\<exists>pk w'. build_pack sample_benv ks want blobs w = (Inr pk, w')"
proof -
  let ?new = "\<lparr>pw_id = b_random_id sample_benv (bw_random w), pw_compression = want, pw_buf = [], pw_entries = [], pw_seen = {||}\<rparr>"
  let ?w1 = "w\<lparr>bw_random := Suc (bw_random w)\<rparr>"
  obtain wr w2 where a: "add_blobs sample_benv ks blobs ?new ?w1 = (Inr wr, w2)" "length (pw_entries wr) \<le> length blobs"
    using sample_add_blobs [of blobs ?new ks ?w1] assms by auto
  have "writer_has sample_benv ks {} ?new" by (simp add: writer_has_def writer_ok_def)
  from add_blobs_has [OF sample_benv_ok _ this a(1)] assms(1) have wr: "writer_has sample_benv ks (snd ` set blobs) wr" by force
  then have "fset (pw_seen wr) \<noteq> {}" using assms(2) by (simp add: writer_has_def)
  then have "pw_entries wr \<noteq> []" "writer_ok sample_benv ks wr" using wr by (auto simp: writer_has_def writer_ok_def)
  with sample_finish [of ks wr w2] a(2) assms(3) obtain pk w' where "writer_finish sample_benv ks wr w2 = (Inr pk, w')" by auto
  then show ?thesis using a(1) by (simp add: build_pack_def writer_new_def)
qed

theorem pack_roundtrip_witness:
  "\<exists>pk w'. build_pack sample_benv sample_keys CZstd sample_blobs sample_bworld = (Inr pk, w') \<and>
    parse_header sample_benv sample_keys (pk_id pk) (pk_data pk) = Inr (pk_entries pk) \<and> distinct (map pe_id (pk_entries pk))"
proof -
  have "\<forall>(t, p)\<in>set sample_blobs. length p \<le> 65536" "sample_blobs \<noteq> []" "length sample_blobs \<le> 1000"
    by (simp_all add: sample_blobs_def)
  from sample_build [OF this] obtain pk w' where b: "build_pack sample_benv sample_keys CZstd sample_blobs sample_bworld = (Inr pk, w')" by blast
  have "\<forall>(t, p)\<in>set sample_blobs. length p \<le> 2 ^ 31" by (simp add: sample_blobs_def)
  from pack_roundtrip [OF sample_benv_ok this b] b show ?thesis by blast
qed

text \<open>
  C32: The decoder of entry lists, which the pack header and the index share, accepts exactly the encodings:
  it returns the entries and the bytes behind them if and only if the input is the encoding of those
  entries followed by those bytes. Nothing is skipped, and no list has a second encoding.
\<close>

theorem entry_list_canonical:
  "decode_entries data = Inr (es, rest) \<longleftrightarrow>
     data = encode_entries es @ rest \<and> (\<forall>e\<in>set es. length (pe_id e) = ID_SIZE) \<and> length es < 2 ^ 32"
  unfolding decode_entries_iff by (simp add: entry_ok_def)

theorem entry_list_canonical_witness:
  "decode_entries (encode_entries [\<lparr>pe_type = BTree, pe_compression = CZstd, pe_id = le_bytes ID_SIZE 9, pe_offset = 3,
     pe_length = 4, pe_plain = 5\<rparr>] @ [6]) =
   Inr ([\<lparr>pe_type = BTree, pe_compression = CZstd, pe_id = le_bytes ID_SIZE 9, pe_offset = 3, pe_length = 4, pe_plain = 5\<rparr>], [6])"
  unfolding entry_list_canonical by simp

text \<open>
  Reading a pack's header from the store by its last 4 KiB, with a second read when the header is longer,
  gives exactly what parsing the whole object gives, result and error alike, and writes nothing.
\<close>

theorem tail_read_parses_header:
  assumes "stored w k = Some data" and "length data < 2 ^ 64"
  shows "fst (load_header B ks k i w) = parse_header B ks i data \<and> objects (snd (load_header B ks k i w)) = objects w"
proof -
  have "load_header B ks k i w = load_header_sized B ks k i (of_nat (length data)) w"
    using assms(1) by (auto simp: load_header_def act_bind_run from_bstore_run mem_head_def mem_meta_def stored_def)
  then show ?thesis using load_header_sized_parse [OF assms] by simp
qed

theorem tail_read_parses_header_witness:
  "fst (load_header sample_benv sample_keys ''k'' [] (snd (bput ''k'' [1, 2, 3] sample_bworld))) =
    parse_header sample_benv sample_keys [] [1, 2, 3]"
proof -
  have "stored (snd (bput ''k'' [1, 2, 3] sample_bworld)) ''k'' = Some [1, 2, 3]"
    by (simp add: stored_def bput_def from_bstore_run mem_put_bytes_def sample_bworld_def mem_new_def maybe_fail_put_def mem_insert_def)
  from tail_read_parses_header [OF this, of sample_benv sample_keys "[]"] show ?thesis by simp
qed

end
