(* ===== verification/Index.thy ===== *)
theory Index
  imports Pack "HOL-Library.Multiset"
begin

text \<open>
  The index (\<open>backup-core/src/index.rs\<close>): which pack and byte range hold a blob. Index objects are
  immutable and merged in listing order; the first location of a blob wins. The loads that the code
  runs concurrently are run in listing order here: \<open>buffered\<close> returns them in that order.
\<close>

section \<open>Data\<close>

definition INDEX_VERSION :: u32 where "INDEX_VERSION = 1"
definition INDEX_DIR :: string where "INDEX_DIR = ''indexes/''"
definition PACK_DIR :: string where "PACK_DIR = ''packs/''"

definition index_name :: "bid \<Rightarrow> string" where
  "index_name i = INDEX_DIR @ hex i"

definition index_aad :: "bid \<Rightarrow> string" where
  "index_aad i = ''rfm-backup:v1:index:'' @ hex i"

record location =
  lo_pack :: bid
  lo_entry :: pack_entry

record pack_entries =
  pn_pack :: bid
  pn_entries :: "pack_entry list"

record index =
  ix_blobs :: "(bid, location) fmap"
  ix_packs :: "(bid, nat) fmap"
  ix_sources :: "bid list"

definition index_new :: index where
  "index_new = \<lparr>ix_blobs = fmempty, ix_packs = fmempty, ix_sources = []\<rparr>"

fun add_entries :: "bid \<Rightarrow> pack_entry list \<Rightarrow> (bid, location) fmap \<Rightarrow> (bid, location) fmap" where
  "add_entries pack [] m = m"
| "add_entries pack (e # es) m = add_entries pack es
     (if fmlookup m (pe_id e) = None then fmupd (pe_id e) \<lparr>lo_pack = pack, lo_entry = e\<rparr> m else m)"

definition add_pack :: "bid \<Rightarrow> pack_entry list \<Rightarrow> index \<Rightarrow> index" where
  "add_pack pack es ix = ix
     \<lparr>ix_packs := fmupd pack ((case fmlookup (ix_packs ix) pack of None \<Rightarrow> 0 | Some n \<Rightarrow> n) + length es) (ix_packs ix),
      ix_blobs := add_entries pack es (ix_blobs ix)\<rparr>"

definition index_lookup :: "bid \<Rightarrow> index \<Rightarrow> location option" where
  "index_lookup i ix = fmlookup (ix_blobs ix) i"

definition index_has :: "bid \<Rightarrow> index \<Rightarrow> bool" where
  "index_has i ix \<longleftrightarrow> fmlookup (ix_blobs ix) i \<noteq> None"

definition index_pack_ids :: "index \<Rightarrow> bid list" where
  "index_pack_ids ix = fm_keys (ix_packs ix)"

definition index_locations :: "index \<Rightarrow> location list" where
  "index_locations ix = fm_values (ix_blobs ix)"

definition add_source :: "bid \<Rightarrow> index \<Rightarrow> index" where
  "add_source i ix = ix\<lparr>ix_sources := ix_sources ix @ [i]\<rparr>"

section \<open>Encoding\<close>

definition index_encode :: "pack_entries list \<Rightarrow> bytes" where
  "index_encode ps = u32_bytes INDEX_VERSION @ u32_bytes (of_nat (length ps)) @
     concat (map (\<lambda>p. pn_pack p @ encode_entries (pn_entries p)) ps)"

fun decode_packs :: "nat \<Rightarrow> bytes \<Rightarrow> (pack_entries list \<times> bytes) bresult" where
  "decode_packs 0 rest = Inr ([], rest)"
| "decode_packs (Suc n) rest =
     (if length rest < ID_SIZE then Inl (BFormat ''index object'')
      else res_bind (decode_entries (drop ID_SIZE rest)) (\<lambda>(es, after_entries).
           res_bind (decode_packs n after_entries) (\<lambda>(ps, rest').
           Inr (\<lparr>pn_pack = take ID_SIZE rest, pn_entries = es\<rparr> # ps, rest'))))"

definition index_decode :: "bytes \<Rightarrow> pack_entries list bresult" where
  "index_decode data =
     (if length data < 4 then Inl (BFormat ''index object'')
      else if of_nat (le_nat (take 4 data)) \<noteq> INDEX_VERSION then Inl (BFormat ''index object'')
      else if length (drop 4 data) < 4 then Inl (BFormat ''index object'')
      else let count = le_nat (take 4 (drop 4 data)); rest = drop 8 data
           in if length rest div (ID_SIZE + 4) < count then Inl (BFormat ''index object'')
              else res_bind (decode_packs count rest) (\<lambda>(ps, rest').
                   if rest' \<noteq> [] then Inl (BFormat ''index object'') else Inr ps))"

section \<open>Objects\<close>

definition index_save :: "benv \<Rightarrow> string \<Rightarrow> keys \<Rightarrow> pack_entries list \<Rightarrow> bid bact" where
  "index_save B base ks ps =
     (if ps = [] then act_err (BInvalid ''empty index'')
      else act_bind (random_id B) (\<lambda>i.
           act_bind (bseal B ks KMeta (index_encode ps) (index_aad i)) (\<lambda>sealed.
           act_bind (bput (base @ index_name i) sealed) (\<lambda>_.
           act_bind (cache_put CIndex i sealed) (\<lambda>_. act_ok i)))))"

definition index_open_object :: "benv \<Rightarrow> keys \<Rightarrow> bid \<Rightarrow> bytes \<Rightarrow> pack_entries list bresult" where
  "index_open_object B ks i sealed =
     res_bind (unseal B ks KMeta sealed (index_aad i) (''index '' @ id_short i)) (\<lambda>plaintext.
     case index_decode plaintext of Inl _ \<Rightarrow> Inl (BFormat (''index '' @ id_short i)) | Inr ps \<Rightarrow> Inr ps)"

definition index_fetch :: "benv \<Rightarrow> string \<Rightarrow> keys \<Rightarrow> bid \<Rightarrow> pack_entries list bact" where
  "index_fetch B base ks i =
     act_bind (from_bstore (mem_get (base @ index_name i))) (\<lambda>sealed.
     act_bind (act_res (index_open_object B ks i sealed)) (\<lambda>ps.
     act_bind (cache_put CIndex i sealed) (\<lambda>_. act_ok ps)))"

definition index_load_one :: "benv \<Rightarrow> string \<Rightarrow> keys \<Rightarrow> bid \<Rightarrow> pack_entries list bact" where
  "index_load_one B base ks i = (\<lambda>w. case cache_get CIndex i w of
      Some sealed \<Rightarrow> (case index_open_object B ks i sealed of
          Inr ps \<Rightarrow> (Inr ps, w)
        | Inl _ \<Rightarrow> index_fetch B base ks i w)
    | None \<Rightarrow> index_fetch B base ks i w)"

fun add_packs :: "pack_entries list \<Rightarrow> index \<Rightarrow> index" where
  "add_packs [] ix = ix"
| "add_packs (p # ps) ix = add_packs ps (add_pack (pn_pack p) (pn_entries p) ix)"

fun merge_sources :: "(bid \<times> pack_entries list) list \<Rightarrow> index \<Rightarrow> index" where
  "merge_sources [] ix = ix"
| "merge_sources ((i, ps) # rest) ix = merge_sources rest (add_source i (add_packs ps ix))"

definition index_load :: "benv \<Rightarrow> string \<Rightarrow> keys \<Rightarrow> index bact" where
  "index_load B base ks =
     act_bind (list_ids base INDEX_DIR) (\<lambda>ids.
     act_bind (act_map (\<lambda>(i, _). index_load_one B base ks i) ids) (\<lambda>loaded.
     act_ok (merge_sources (zip (map fst ids) loaded) index_new)))"

definition rebuild_read :: "benv \<Rightarrow> string \<Rightarrow> keys \<Rightarrow> bid \<times> u64 \<Rightarrow> pack_entry list bact" where
  "rebuild_read B base ks = (\<lambda>(i, sz).
     act_bind (act_try (load_header_sized B ks (base @ pack_name i) i sz)) (\<lambda>r. case r of
        Inl _ \<Rightarrow> act_err (BFormat (''rebuilding index from pack '' @ id_short i)) | Inr es \<Rightarrow> act_ok es))"

fun add_headers :: "(bid \<times> pack_entry list) list \<Rightarrow> index \<Rightarrow> index" where
  "add_headers [] ix = ix"
| "add_headers ((i, es) # rest) ix = add_headers rest (add_pack i es ix)"

definition index_rebuild :: "benv \<Rightarrow> string \<Rightarrow> keys \<Rightarrow> index bact" where
  "index_rebuild B base ks =
     act_bind (list_ids base PACK_DIR) (\<lambda>packs.
     act_bind (act_map (rebuild_read B base ks) packs) (\<lambda>headers.
     act_ok (add_headers (zip (map fst packs) headers) index_new)))"

section \<open>The merged view\<close>

text \<open>What the index promises: the first entry of a blob in the order of the packs given to it.\<close>

definition all_locations :: "pack_entries list \<Rightarrow> location list" where
  "all_locations ps = concat (map (\<lambda>p. map (\<lambda>e. \<lparr>lo_pack = pn_pack p, lo_entry = e\<rparr>) (pn_entries p)) ps)"

definition first_location :: "bid \<Rightarrow> pack_entries list \<Rightarrow> location option" where
  "first_location i ps = find (\<lambda>l. pe_id (lo_entry l) = i) (all_locations ps)"

lemma all_locations_simps [simp]:
  "all_locations [] = []"
  "all_locations (p # ps) = map (\<lambda>e. \<lparr>lo_pack = pn_pack p, lo_entry = e\<rparr>) (pn_entries p) @ all_locations ps"
  "all_locations (ps @ qs) = all_locations ps @ all_locations qs"
  by (simp_all add: all_locations_def)

lemma add_entries_lookup:
  "fmlookup (add_entries pack es m) i = (case fmlookup m i of Some l \<Rightarrow> Some l
     | None \<Rightarrow> find (\<lambda>l. pe_id (lo_entry l) = i) (map (\<lambda>e. \<lparr>lo_pack = pack, lo_entry = e\<rparr>) es))"
  by (induction es arbitrary: m) (auto split: option.splits)

lemma find_append: "find P (xs @ ys) = (case find P xs of Some x \<Rightarrow> Some x | None \<Rightarrow> find P ys)"
  by (induction xs) auto

lemma add_packs_lookup:
  "fmlookup (ix_blobs (add_packs ps ix)) i = (case fmlookup (ix_blobs ix) i of Some l \<Rightarrow> Some l | None \<Rightarrow> first_location i ps)"
  by (induction ps arbitrary: ix) (auto simp: first_location_def add_pack_def add_entries_lookup find_append split: option.splits)

lemma merge_sources_lookup:
  "fmlookup (ix_blobs (merge_sources ls ix)) i =
    (case fmlookup (ix_blobs ix) i of Some l \<Rightarrow> Some l | None \<Rightarrow> first_location i (concat (map snd ls)))"
  by (induction ls ix rule: merge_sources.induct)
    (auto simp: add_source_def add_packs_lookup first_location_def find_append split: option.splits)

lemma find_some: "find P xs = Some x \<Longrightarrow> x \<in> set xs \<and> P x"
  by (induction xs) (auto split: if_splits)

lemma all_locations_iff:
  "l \<in> set (all_locations ps) \<longleftrightarrow> (\<exists>p\<in>set ps. lo_pack l = pn_pack p \<and> lo_entry l \<in> set (pn_entries p))"
proof (induction ps)
  case (Cons p ps)
  have "l \<in> (\<lambda>e. \<lparr>lo_pack = pn_pack p, lo_entry = e\<rparr>) ` set (pn_entries p) \<longleftrightarrow>
      lo_pack l = pn_pack p \<and> lo_entry l \<in> set (pn_entries p)" by (cases l) auto
  then show ?case using Cons by simp
qed simp

lemma first_location_some:
  assumes "first_location i ps = Some l"
  shows "\<exists>p\<in>set ps. lo_pack l = pn_pack p \<and> lo_entry l \<in> set (pn_entries p) \<and> pe_id (lo_entry l) = i"
  using find_some [OF assms [unfolded first_location_def]] unfolding all_locations_iff by blast

lemma find_none: "find P xs = None \<longleftrightarrow> (\<forall>x\<in>set xs. \<not> P x)"
  by (induction xs) auto

lemma first_location_none: "first_location i ps = None \<longleftrightarrow> (\<forall>p\<in>set ps. \<forall>e\<in>set (pn_entries p). pe_id e \<noteq> i)"
  unfolding first_location_def find_none by (induction ps) (simp_all add: ball_Un)

section \<open>Encoding and decoding\<close>

definition packs_ok :: "pack_entries list \<Rightarrow> bool" where
  "packs_ok ps \<longleftrightarrow> (\<forall>p\<in>set ps. length (pn_pack p) = ID_SIZE \<and> (\<forall>e\<in>set (pn_entries p). entry_ok e) \<and> length (pn_entries p) < 2 ^ 32)"

lemma packs_ok_simps [simp]:
  "packs_ok []"
  "packs_ok (p # ps) \<longleftrightarrow> length (pn_pack p) = ID_SIZE \<and> (\<forall>e\<in>set (pn_entries p). entry_ok e) \<and> length (pn_entries p) < 2 ^ 32 \<and> packs_ok ps"
  by (auto simp: packs_ok_def)

lemma decode_packs_iff:
  "decode_packs n data = Inr (ps, rest) \<longleftrightarrow>
    length ps = n \<and> packs_ok ps \<and> data = concat (map (\<lambda>p. pn_pack p @ encode_entries (pn_entries p)) ps) @ rest"
proof (induction n arbitrary: data ps)
  case 0
  show ?case by auto
next
  case (Suc n)
  show ?case
  proof
    assume d: "decode_packs (Suc n) data = Inr (ps, rest)"
    then obtain es after ps' where p: "ID_SIZE \<le> length data" "decode_entries (drop ID_SIZE data) = Inr (es, after)"
      "decode_packs n after = Inr (ps', rest)" "ps = \<lparr>pn_pack = take ID_SIZE data, pn_entries = es\<rparr> # ps'"
      by (auto simp: res_bind_ok not_less split: if_splits)
    have "data = take ID_SIZE data @ drop ID_SIZE data" by simp
    with p show "length ps = Suc n \<and> packs_ok ps \<and> data = concat (map (\<lambda>p. pn_pack p @ encode_entries (pn_entries p)) ps) @ rest"
      unfolding Suc.IH decode_entries_iff by auto
  next
    assume a: "length ps = Suc n \<and> packs_ok ps \<and> data = concat (map (\<lambda>p. pn_pack p @ encode_entries (pn_entries p)) ps) @ rest"
    then obtain p ps' where ps: "ps = p # ps'" by (cases ps) auto
    let ?after = "concat (map (\<lambda>p. pn_pack p @ encode_entries (pn_entries p)) ps') @ rest"
    have "decode_packs n ?after = Inr (ps', rest)" unfolding Suc.IH using a ps by simp
    moreover have "decode_entries (encode_entries (pn_entries p) @ ?after) = Inr (pn_entries p, ?after)"
      unfolding decode_entries_iff using a ps by simp
    ultimately show "decode_packs (Suc n) data = Inr (ps, rest)" using a ps by simp
  qed
qed

lemma packs_length: "packs_ok ps \<Longrightarrow> (ID_SIZE + 4) * length ps \<le> length (concat (map (\<lambda>p. pn_pack p @ encode_entries (pn_entries p)) ps))"
  by (induction ps) (auto simp: length_encode_entries)

lemma index_decode_iff:
  "index_decode data = Inr ps \<longleftrightarrow> data = index_encode ps \<and> packs_ok ps \<and> length ps < 2 ^ 32"
proof
  assume d: "index_decode data = Inr ps"
  let ?n = "le_nat (take 4 (drop 4 data))"
  from d have p: "4 \<le> length data" "of_nat (le_nat (take 4 data)) = INDEX_VERSION" "4 \<le> length (drop 4 data)"
    by (simp_all add: index_decode_def not_less split: if_splits)
  with d have q: "decode_packs ?n (drop 8 data) = Inr (ps, [])"
    by (auto simp: index_decode_def Let_def res_bind_ok split: if_splits)
  have v: "take 4 data = u32_bytes INDEX_VERSION" using u32_bytes_of [of "take 4 data"] p by simp
  have c: "take 4 (drop 4 data) = u32_bytes (of_nat ?n)" using u32_bytes_of [of "take 4 (drop 4 data)"] p by simp
  have n: "?n < 2 ^ 32" using le_nat_less [of "take 4 (drop 4 data)"] p by simp
  have "data = take 4 data @ take 4 (drop 4 data) @ drop 8 data"
    using append_take_drop_id [of 4 data] append_take_drop_id [of 4 "drop 4 data"] by (simp del: append_take_drop_id)
  with v c n q show "data = index_encode ps \<and> packs_ok ps \<and> length ps < 2 ^ 32"
    unfolding decode_packs_iff by (simp add: index_encode_def)
next
  assume a: "data = index_encode ps \<and> packs_ok ps \<and> length ps < 2 ^ 32"
  let ?body = "concat (map (\<lambda>p. pn_pack p @ encode_entries (pn_entries p)) ps)"
  have n: "le_nat (u32_bytes (of_nat (length ps))) = length ps" using a by (simp add: unat_of_nat)
  have "length ps \<le> length ?body div (ID_SIZE + 4)" using div_le_mono [OF packs_length [of ps], of "ID_SIZE + 4"] a by simp
  moreover have "decode_packs (length ps) ?body = Inr (ps, [])" unfolding decode_packs_iff using a by simp
  ultimately show "index_decode data = Inr ps"
    using a n by (simp add: index_decode_def index_encode_def Let_def not_less del: le_nat_bytes)
qed

section \<open>Loading\<close>

text \<open>
  Names: an object under \<open>dir\<close> whose last segment is an identifier is the object of that identifier.
  This is all the writers ever store there.
\<close>

definition named :: "string \<Rightarrow> string \<Rightarrow> (bid \<Rightarrow> string) \<Rightarrow> bworld \<Rightarrow> bool" where
  "named base dir name w \<longleftrightarrow> (\<forall>k i. stored w k \<noteq> None \<and> prefix (base @ dir) k \<and> id_parse (last_segment k) = Inr i \<longrightarrow> k = base @ name i)"

lemma id_parse_segment: "prefix (base @ dir) (base @ name i) \<Longrightarrow> last_segment (base @ name i) = hex i \<Longrightarrow> length i = ID_SIZE \<Longrightarrow>
    id_parse (last_segment (base @ name i)) = Inr i"
  by (simp add: id_parse_iff)

text \<open>
  The cache may hold stale or damaged bytes, but a cached object that authenticates is the one the
  bucket has, if it has one: an identifier is sealed into its object, and used once.
\<close>

definition genuine :: "cache_kind \<Rightarrow> (bid \<Rightarrow> bytes \<Rightarrow> 'a bresult) \<Rightarrow> (bid \<Rightarrow> string) \<Rightarrow> bworld \<Rightarrow> bool" where
  "genuine kind opens key w \<longleftrightarrow> (\<forall>i c s x. cache_get kind i w = Some c \<and> opens i c = Inr x \<and> stored w (key i) = Some s \<longrightarrow> opens i s = Inr x)"

lemma list_ids_named:
  assumes "named base dir name w" and "list_ids base dir w = (Inr ids, w')"
  shows "w' = w \<and> sorted ids \<and> (\<forall>i n. (i, n) \<in> set ids \<longrightarrow> length i = ID_SIZE \<and> (\<exists>s. stored w (base @ name i) = Some s \<and> n = of_nat (length s)))"
proof -
  from list_ids_result [OF assms(2)] have w': "w' = w" "sorted ids" and ids: "\<And>i n. (i, n) \<in> set ids \<longleftrightarrow> (\<exists>k ob. fmlookup (objects w) k = Some ob \<and>
      prefix (base @ dir) k \<and> id_parse (last_segment k) = Inr i \<and> n = of_nat (length (obj_bytes ob)))" by auto
  have "length i = ID_SIZE \<and> (\<exists>s. stored w (base @ name i) = Some s \<and> n = of_nat (length s))" if "(i, n) \<in> set ids" for i n
  proof -
    from that obtain k ob where k: "fmlookup (objects w) k = Some ob" "prefix (base @ dir) k" "id_parse (last_segment k) = Inr i"
      "n = of_nat (length (obj_bytes ob))" using ids by auto
    then have "k = base @ name i" using assms(1) by (auto simp: named_def stored_lookup)
    with k show ?thesis by (auto simp: id_parse_iff stored_lookup)
  qed
  then show ?thesis using w' by auto
qed

lemma list_ids_listed:
  assumes "list_ids base dir w = (Inr ids, w')" and "stored w (base @ name i) = Some s"
    and "prefix dir (name i)" and "last_segment (base @ name i) = hex i" and "length i = ID_SIZE"
  shows "i \<in> fst ` set ids"
proof -
  from assms(2) obtain ob where "fmlookup (objects w) (base @ name i) = Some ob" by (auto simp: stored_def)
  moreover have "prefix (base @ dir) (base @ name i)" using assms(3) by simp
  moreover have "id_parse (last_segment (base @ name i)) = Inr i" using assms(4,5) by (simp add: id_parse_iff)
  ultimately have "(i, of_nat (length (obj_bytes ob))) \<in> set ids"
    using list_ids_result [OF assms(1)] by blast
  then show ?thesis by force
qed

lemma list_ids_ok: "\<exists>ids. list_ids base dir w = (Inr ids, w)"
  using list_ids_result [of base dir w] by (cases "list_ids base dir w") auto

lemma list_ids_distinct:
  assumes n: "named base dir name w" and l: "list_ids base dir w = (Inr ids, w')"
  shows "distinct (map fst ids) \<and> length ids \<le> card (fset (fmdom (objects w)))"
proof -
  let ?P = "\<lambda>(key, ob::object). prefix (base @ dir) key \<and> (case None of None \<Rightarrow> True | Some after \<Rightarrow> after < key)"
  let ?es = "filter ?P (fm_entries (objects w))"
  let ?metas = "sort_key om_key (map (\<lambda>(key, ob). mem_meta key ob) ?es)"
  let ?f = "\<lambda>m. case id_parse (last_segment (om_key m)) of Inl _ \<Rightarrow> [] | Inr i \<Rightarrow> [(i, om_size m)]"
  have ids: "ids = sort (concat (map ?f ?metas))"
    using l by (auto simp: list_ids_def act_bind_run from_bstore_run mem_list_def from_mirror_def)
  have keys: "map om_key (map (\<lambda>(key, ob). mem_meta key ob) ?es) = map fst ?es" by (auto simp: mem_meta_def)
  have "distinct (map fst ?es)" using distinct_fm_keys [of "objects w"] by (simp add: distinct_map_filter)
  then have dm: "distinct (map om_key (map (\<lambda>(key, ob). mem_meta key ob) ?es))" unfolding keys .
  have ms: "mset (map om_key ?metas) = mset (map om_key (map (\<lambda>(key, ob). mem_meta key ob) ?es))"
    unfolding mset_map mset_sort ..
  have d: "distinct (map om_key ?metas)" using mset_eq_imp_distinct_iff [OF ms] dm by blast
  have key: "om_key m = base @ name i" if "m \<in> set ?metas" "id_parse (last_segment (om_key m)) = Inr i" for m i
  proof -
    from that(1) obtain ob where "fmlookup (objects w) (om_key m) = Some ob" "prefix (base @ dir) (om_key m)"
      by (auto simp: fm_entries_iff mem_meta_def)
    then show ?thesis using n that(2) by (auto simp: named_def stored_lookup)
  qed
  have dist: "distinct (map fst (concat (map ?f ms)))" if "distinct (map om_key ms)" "set ms \<subseteq> set ?metas" for ms
    using that
  proof (induction ms)
    case (Cons m ms)
    have "i \<notin> fst ` set (concat (map ?f ms))" if i: "id_parse (last_segment (om_key m)) = Inr i" for i
    proof
      assume "i \<in> fst ` set (concat (map ?f ms))"
      then obtain m' where m': "m' \<in> set ms" "id_parse (last_segment (om_key m')) = Inr i" by (auto split: sum.splits)
      then have "om_key m' = om_key m" using key [of m' i] key [of m i] i Cons.prems(2) by auto
      then show False using Cons.prems(1) m'(1) by (auto simp: image_iff)
    qed
    then show ?case using Cons by (auto split: sum.splits)
  qed simp
  have "mset (map fst ids) = mset (map fst (concat (map ?f ?metas)))" unfolding ids mset_map mset_sort ..
  from mset_eq_imp_distinct_iff [OF this] dist [OF d order_refl] have dd: "distinct (map fst ids)" by blast
  have short: "length (concat (map ?f ms)) \<le> length ms" for ms by (induction ms) (auto split: sum.splits)
  have "length ids = length (concat (map ?f ?metas))" unfolding ids by (rule length_sort)
  then have "length ids \<le> length ?metas" using short [of ?metas] by linarith
  also have "length ?metas = length ?es" by simp
  also have "\<dots> \<le> length (fm_entries (objects w))" by (rule length_filter_le)
  also have "\<dots> = length (fm_keys (objects w))" by (simp add: fm_entries_def)
  finally have "length ids \<le> length (fm_keys (objects w))" .
  then have "length ids \<le> card (fset (fmdom (objects w)))" using distinct_card [OF distinct_fm_keys, of "objects w"] by simp
  with dd show ?thesis by blast
qed

lemma index_name_segment: "last_segment (base @ index_name i) = hex i"
  using last_segment_append [OF hex_no_slash, of "base @ ''indexes''" i] by (simp add: index_name_def INDEX_DIR_def)

lemma pack_name_segment: "last_segment (base @ pack_name i) = hex i"
  using last_segment_append [OF hex_no_slash, of "base @ ''packs/'' @ take 2 (hex i)" i] by (simp add: pack_name_def)

lemma name_prefixes [simp]: "prefix INDEX_DIR (index_name i)" "prefix PACK_DIR (pack_name i)"
  by (simp_all add: index_name_def pack_name_def PACK_DIR_def)

text \<open>A pack that is stored whole and lists at least these entries.\<close>

definition pack_stored :: "benv \<Rightarrow> string \<Rightarrow> keys \<Rightarrow> bworld \<Rightarrow> bid \<Rightarrow> pack_entry list \<Rightarrow> bool" where
  "pack_stored B base ks w i es \<longleftrightarrow> (\<exists>data hs. stored w (base @ pack_name i) = Some data \<and> pack_ok B ks i data hs \<and> set es \<subseteq> set hs)"

definition index_stored :: "benv \<Rightarrow> string \<Rightarrow> keys \<Rightarrow> bworld \<Rightarrow> bid \<Rightarrow> pack_entries list \<Rightarrow> bool" where
  "index_stored B base ks w i ps \<longleftrightarrow> (\<exists>s. stored w (base @ index_name i) = Some s \<and> index_open_object B ks i s = Inr ps)"

definition index_sound :: "benv \<Rightarrow> string \<Rightarrow> keys \<Rightarrow> bworld \<Rightarrow> index \<Rightarrow> bool" where
  "index_sound B base ks w ix \<longleftrightarrow> (\<forall>i l. index_lookup i ix = Some l \<longrightarrow>
     pe_id (lo_entry l) = i \<and> pack_stored B base ks w (lo_pack l) [lo_entry l])"

abbreviation index_genuine :: "benv \<Rightarrow> string \<Rightarrow> keys \<Rightarrow> bworld \<Rightarrow> bool" where
  "index_genuine B base ks \<equiv> genuine CIndex (index_open_object B ks) (\<lambda>i. base @ index_name i)"

lemma cache_get_updates [simp]:
  "cache_get kind i (w\<lparr>bw_store := st\<rparr>) = cache_get kind i w"
  "cache_get kind i (w\<lparr>bw_random := n\<rparr>) = cache_get kind i w"
  by (simp_all add: cache_get_def)

lemma genuineD: "genuine kind opens key w \<Longrightarrow> cache_get kind i w = Some c \<Longrightarrow> opens i c = Inr x \<Longrightarrow> stored w (key i) = Some s \<Longrightarrow> opens i s = Inr x"
  unfolding genuine_def by blast

lemma genuine_fetched:
  assumes g: "genuine kind opens key w" and s: "stored w (key i) = Some s" "opens i s = Inr x"
    and w': "objects w' = objects w" "bw_cache w' = map_option (fmupd (kind', i) s) (bw_cache w)"
  shows "genuine kind opens key w'"
  unfolding genuine_def
proof (intro allI impI, elim conjE)
  fix j c t y
  assume c: "cache_get kind j w' = Some c" and y: "opens j c = Inr y" and t: "stored w' (key j) = Some t"
  have t': "stored w (key j) = Some t" using t stored_cong [OF w'(1)] by simp
  from c w'(2) consider "j = i" "c = s" | "cache_get kind j w = Some c"
    by (cases "bw_cache w"; cases "kind = kind' \<and> j = i") (auto simp: cache_get_def)
  then show "opens j t = Inr y"
  proof cases
    case 1
    then show ?thesis using s t' y by simp
  next
    case 2
    from genuineD [OF g 2 y t'] show ?thesis .
  qed
qed

text \<open>A loop over a list whose body keeps \<open>Q\<close> and relates each element to its result.\<close>

lemma act_map_rel:
  assumes "\<And>x w y w1. x \<in> set xs \<Longrightarrow> Q w \<Longrightarrow> f x w = (Inr y, w1) \<Longrightarrow> R x y \<and> Q w1"
    and "Q w" and "act_map f xs w = (Inr ys, w')"
  shows "list_all2 R xs ys \<and> Q w'"
  using assms
proof (induction xs arbitrary: w ys)
  case (Cons x xs)
  from Cons.prems(3) obtain y w1 zs where s: "f x w = (Inr y, w1)" "act_map f xs w1 = (Inr zs, w')" "ys = y # zs"
    by (auto simp: act_bind_ok)
  have "R x y \<and> Q w1" using Cons.prems(1) [OF _ Cons.prems(2) s(1)] by simp
  with Cons.IH [of w1 zs] Cons.prems(1) s show ?case by auto
qed simp

lemma act_map_total:
  assumes "\<And>x w. x \<in> set xs \<Longrightarrow> Q w \<Longrightarrow> \<exists>y w1. f x w = (Inr y, w1) \<and> Q w1" and "Q w"
  shows "\<exists>ys w'. act_map f xs w = (Inr ys, w') \<and> Q w'"
  using assms
proof (induction xs arbitrary: w)
  case (Cons x xs)
  from Cons.prems(1) [of x w] Cons.prems(2) obtain y w1 where s: "f x w = (Inr y, w1)" "Q w1" by auto
  from Cons.IH [OF _ s(2)] Cons.prems(1) obtain ys w' where "act_map f xs w1 = (Inr ys, w')" "Q w'" by auto
  with s show ?case by simp
qed simp

definition same_objects :: "bworld \<Rightarrow> bworld \<Rightarrow> bool" where
  "same_objects w w' \<longleftrightarrow> objects w' = objects w \<and> bw_random w' = bw_random w \<and> bw_now w' = bw_now w \<and>
     (\<forall>k. maybe_fail_put k (bw_store w') = maybe_fail_put k (bw_store w))"

lemma same_objects_refl [simp]: "same_objects w w"
  by (simp add: same_objects_def)

lemma same_objects_trans: "same_objects a b \<Longrightarrow> same_objects b c \<Longrightarrow> same_objects a c"
  by (simp add: same_objects_def)

lemma same_stored: "same_objects w w' \<Longrightarrow> stored w' k = stored w k"
  by (simp add: same_objects_def stored_def)

lemma maybe_fail_count [simp]: "maybe_fail_put k (count_read b s) = maybe_fail_put k s"
  by (simp add: maybe_fail_put_def count_read_def)

lemma same_objects_read [simp]: "same_objects w (w\<lparr>bw_store := count_read b (bw_store w)\<rparr>)"
  "same_objects w (w\<lparr>bw_cache := c\<rparr>)"
  "same_objects w (w\<lparr>bw_store := count_read b (bw_store w), bw_cache := c\<rparr>)"
  by (simp_all add: same_objects_def)

lemma zip_rel: "list_all2 R xs ys \<Longrightarrow> (\<forall>(x, y)\<in>set (zip xs ys). R x y) \<and> map fst (zip xs ys) = xs"
  by (simp add: list_all2_iff case_prod_beta)

lemma zip_fst: "list_all2 (\<lambda>p y. R (fst p) y) xs ys \<Longrightarrow> (\<forall>(x, y)\<in>set (zip (map fst xs) ys). R x y) \<and> map fst (zip (map fst xs) ys) = map fst xs"
  using zip_rel [of R "map fst xs" ys] by (simp add: list_all2_map1)

section \<open>Objects read through the cache\<close>

text \<open>
  Index objects and snapshots are read the same way: an authentic cached copy, or else the object of
  the bucket, which is then cached. \<open>cached_reader\<close> is that contract: \<open>load\<close> succeeds exactly in these
  two ways. Its lemmas say that a load, and a load of everything listed, returns what the bucket has.
\<close>

locale cached_reader =
  fixes base :: string and dir :: string and name :: "bid \<Rightarrow> string" and kind :: cache_kind
    and opens :: "bid \<Rightarrow> bytes \<Rightarrow> 'a bresult" and load :: "bid \<Rightarrow> 'a bact"
  assumes name_dir: "prefix dir (name i)"
    and name_segment: "last_segment (base @ name i) = hex i"
    and load_hit: "cache_get kind i w = Some c \<Longrightarrow> opens i c = Inr x \<Longrightarrow> load i w = (Inr x, w)"
    and load_miss: "(\<And>c x. cache_get kind i w = Some c \<Longrightarrow> opens i c \<noteq> Inr x) \<Longrightarrow>
      load i w = (Inr x, w') \<longleftrightarrow> (\<exists>s. stored w (base @ name i) = Some s \<and> opens i s = Inr x \<and>
        w' = w\<lparr>bw_store := count_read s (bw_store w), bw_cache := map_option (fmupd (kind, i) s) (bw_cache w)\<rparr>)"
begin

lemma load_ok:
  assumes g: "genuine kind opens (\<lambda>i. base @ name i) w" and s: "stored w (base @ name i) = Some s" and l: "load i w = (Inr x, w')"
  shows "opens i s = Inr x \<and> same_objects w w' \<and> genuine kind opens (\<lambda>i. base @ name i) w'"
proof (cases "\<exists>c y. cache_get kind i w = Some c \<and> opens i c = Inr y")
  case True
  then obtain c y where c: "cache_get kind i w = Some c" "opens i c = Inr y" by blast
  from load_hit [OF this] l have "y = x" "w' = w" by auto
  with genuineD [OF g c s] g show ?thesis by simp
next
  case False
  then have f: "opens i s = Inr x"
    "w' = w\<lparr>bw_store := count_read s (bw_store w), bw_cache := map_option (fmupd (kind, i) s) (bw_cache w)\<rparr>"
    using load_miss [of i w x w'] l s by auto
  with genuine_fetched [OF g s f(1), of w' kind] show ?thesis by simp
qed

text \<open>A load caches nothing but objects of the bucket.\<close>

lemma load_cache:
  assumes s: "stored w (base @ name i) = Some s" and l: "load i w = (Inr x, w')"
  shows "cache_get kind' j w' = cache_get kind' j w \<or> kind' = kind \<and> stored w (base @ name j) \<noteq> None"
proof (cases "\<exists>c y. cache_get kind i w = Some c \<and> opens i c = Inr y")
  case True
  then obtain c y where c: "cache_get kind i w = Some c" "opens i c = Inr y" by blast
  from load_hit [OF this] l show ?thesis by simp
next
  case False
  then have "bw_cache w' = map_option (fmupd (kind, i) s) (bw_cache w)" using load_miss [of i w x w'] l s by auto
  then show ?thesis using s by (cases "bw_cache w") (auto simp: cache_get_def)
qed

lemma load_total:
  assumes g: "genuine kind opens (\<lambda>i. base @ name i) w" and s: "stored w (base @ name i) = Some s" "opens i s = Inr x"
  shows "\<exists>w'. load i w = (Inr x, w')"
proof (cases "\<exists>c y. cache_get kind i w = Some c \<and> opens i c = Inr y")
  case True
  then obtain c y where c: "cache_get kind i w = Some c" "opens i c = Inr y" by blast
  from load_hit [OF this] genuineD [OF g c s(1)] s(2) show ?thesis by auto
next
  case False
  then show ?thesis using load_miss [of i w x] s by auto
qed

lemma load_listed:
  assumes n: "named base dir name w" and g: "genuine kind opens (\<lambda>i. base @ name i) w"
    and ids: "list_ids base dir w = (Inr ids, w)" and m: "act_map (\<lambda>(i, _). load i) ids w = (Inr xs, w')"
  shows "(\<forall>(i, x)\<in>set (zip (map fst ids) xs). length i = ID_SIZE \<and> (\<exists>s. stored w (base @ name i) = Some s \<and> opens i s = Inr x)) \<and>
    map fst (zip (map fst ids) xs) = map fst ids \<and> sorted (map fst ids) \<and>
    (\<forall>i. length i = ID_SIZE \<and> stored w (base @ name i) \<noteq> None \<longrightarrow> i \<in> set (map fst ids)) \<and>
    same_objects w w' \<and> genuine kind opens (\<lambda>i. base @ name i) w' \<and>
    (\<forall>kind' j. cache_get kind' j w' = cache_get kind' j w \<or> kind' = kind \<and> stored w (base @ name j) \<noteq> None)"
proof -
  let ?Q = "\<lambda>v. same_objects w v \<and> genuine kind opens (\<lambda>i. base @ name i) v \<and>
    (\<forall>kind' j. cache_get kind' j v = cache_get kind' j w \<or> kind' = kind \<and> stored w (base @ name j) \<noteq> None)"
  let ?R = "\<lambda>i x. length i = ID_SIZE \<and> (\<exists>s. stored w (base @ name i) = Some s \<and> opens i s = Inr x)"
  have L: "list_all2 (\<lambda>p x. ?R (fst p) x) ids xs \<and> ?Q w'"
  proof (rule act_map_rel [OF _ _ m, where Q = ?Q], goal_cases)
    case (1 p v x v1)
    obtain i k where p: "p = (i, k)" by (cases p)
    then obtain s where s: "stored w (base @ name i) = Some s" "length i = ID_SIZE" using list_ids_named [OF n ids] 1(1) by auto
    then have sv: "stored v (base @ name i) = Some s" using 1(2) same_stored [of w v] by simp
    have l: "load i v = (Inr x, v1)" using 1(3) p by simp
    have "cache_get kind' j v1 = cache_get kind' j w \<or> kind' = kind \<and> stored w (base @ name j) \<noteq> None" for kind' j
      using load_cache [OF sv l, of kind' j] 1(2) same_stored [of w v] by metis
    with load_ok [OF _ sv l] 1(2) s p show ?case using same_objects_trans by auto
  qed (use g in simp)
  have "sorted ids" using list_ids_named [OF n ids] by simp
  then have "sorted_wrt (\<lambda>p q. fst p \<le> fst q) ids" by (rule sorted_wrt_mono_rel [rotated]) (auto simp: less_eq_prod_def)
  then have "sorted (map fst ids)" by (simp add: sorted_map)
  moreover have "i \<in> set (map fst ids)" if i: "length i = ID_SIZE" "stored w (base @ name i) \<noteq> None" for i
  proof -
    from i obtain s where "stored w (base @ name i) = Some s" by auto
    from list_ids_listed [where name = name, OF ids this name_dir name_segment i(1)] show ?thesis by simp
  qed
  ultimately show ?thesis using zip_fst [where R = ?R, OF conjunct1 [OF L]] L by blast
qed

lemma load_listed_total:
  assumes n: "named base dir name w" and g: "genuine kind opens (\<lambda>i. base @ name i) w"
    and ids: "list_ids base dir w = (Inr ids, w)"
    and all: "\<And>i s. length i = ID_SIZE \<Longrightarrow> stored w (base @ name i) = Some s \<Longrightarrow> \<exists>x. opens i s = Inr x"
  shows "\<exists>xs w'. act_map (\<lambda>(i, _). load i) ids w = (Inr xs, w')"
proof -
  let ?Q = "\<lambda>v. same_objects w v \<and> genuine kind opens (\<lambda>i. base @ name i) v"
  have "\<exists>xs w'. act_map (\<lambda>(i, _). load i) ids w = (Inr xs, w') \<and> ?Q w'"
  proof (rule act_map_total, goal_cases)
    case (1 p v)
    obtain i k where p: "p = (i, k)" by (cases p)
    then obtain s where s: "stored w (base @ name i) = Some s" "length i = ID_SIZE" using list_ids_named [OF n ids] 1(1) by auto
    then obtain x where x: "opens i s = Inr x" using all by blast
    have sv: "stored v (base @ name i) = Some s" using s(1) 1(2) same_stored [of w v] by simp
    from load_total [OF _ sv x] 1(2) obtain v1 where l: "load i v = (Inr x, v1)" by auto
    from load_ok [OF _ sv l] 1(2) l show ?case using p same_objects_trans by auto
  qed (use g in simp)
  then show ?thesis by blast
qed

end

lemma index_fetch_ok:
  "index_fetch B base ks i w = (Inr ps, w') \<longleftrightarrow> (\<exists>s. stored w (base @ index_name i) = Some s \<and> index_open_object B ks i s = Inr ps \<and>
     w' = w\<lparr>bw_store := count_read s (bw_store w), bw_cache := map_option (fmupd (CIndex, i) s) (bw_cache w)\<rparr>)"
  by (auto simp: index_fetch_def act_bind_ok bget_ok)

interpretation ixr: cached_reader base INDEX_DIR index_name CIndex "index_open_object B ks" "index_load_one B base ks" for B base ks
proof
  fix i w x w' assume "\<And>c x. cache_get CIndex i w = Some c \<Longrightarrow> index_open_object B ks i c \<noteq> Inr x"
  then have "index_load_one B base ks i w = index_fetch B base ks i w"
    by (auto simp: index_load_one_def split: option.splits sum.splits)
  then show "index_load_one B base ks i w = (Inr x, w') \<longleftrightarrow> (\<exists>s. stored w (base @ index_name i) = Some s \<and> index_open_object B ks i s = Inr x \<and>
      w' = w\<lparr>bw_store := count_read s (bw_store w), bw_cache := map_option (fmupd (CIndex, i) s) (bw_cache w)\<rparr>)"
    by (simp add: index_fetch_ok)
qed (simp_all add: index_name_segment index_load_one_def)

lemma same_index_stored: "same_objects w w' \<Longrightarrow> index_stored B base ks w' i ps = index_stored B base ks w i ps"
  by (simp add: index_stored_def same_stored)

lemma same_pack_stored: "same_objects w w' \<Longrightarrow> pack_stored B base ks w' i es = pack_stored B base ks w i es"
  by (simp add: pack_stored_def same_stored)

lemma index_load_ok:
  assumes n: "named base INDEX_DIR index_name w" and g: "index_genuine B base ks w" and l: "index_load B base ks w = (Inr ix, w')"
  shows "\<exists>ls. ix = merge_sources ls index_new \<and> (\<forall>(i, ps)\<in>set ls. index_stored B base ks w i ps) \<and> (\<forall>(i, ps)\<in>set ls. length i = ID_SIZE) \<and>
    sorted (map fst ls) \<and> distinct (map fst ls) \<and> (\<forall>i. length i = ID_SIZE \<and> stored w (base @ index_name i) \<noteq> None \<longrightarrow> i \<in> fst ` set ls) \<and>
    same_objects w w' \<and> index_genuine B base ks w' \<and>
    (\<forall>kind' j. cache_get kind' j w' = cache_get kind' j w \<or> kind' = CIndex \<and> stored w (base @ index_name j) \<noteq> None)"
proof -
  obtain ids where ids: "list_ids base INDEX_DIR w = (Inr ids, w)" using list_ids_ok by blast
  from l ids obtain loaded where m: "act_map (\<lambda>(i, _). index_load_one B base ks i) ids w = (Inr loaded, w')"
    and ix: "ix = merge_sources (zip (map fst ids) loaded) index_new" by (auto simp: index_load_def act_bind_ok)
  note r = ixr.load_listed [OF n g ids m]
  have "set (map fst ids) = fst ` set (zip (map fst ids) loaded)" using r by (metis list.set_map)
  moreover have "distinct (map fst ids)" using list_ids_distinct [OF n ids] by blast
  ultimately show ?thesis using r unfolding ix index_stored_def by (intro exI [of _ "zip (map fst ids) loaded"]) auto
qed

lemma index_load_total:
  assumes n: "named base INDEX_DIR index_name w" and g: "index_genuine B base ks w"
    and all: "\<forall>i. length i = ID_SIZE \<and> stored w (base @ index_name i) \<noteq> None \<longrightarrow> (\<exists>ps. index_stored B base ks w i ps)"
  shows "\<exists>ix w'. index_load B base ks w = (Inr ix, w')"
proof -
  obtain ids where ids: "list_ids base INDEX_DIR w = (Inr ids, w)" using list_ids_ok by blast
  have "\<exists>ps. index_open_object B ks i s = Inr ps" if "length i = ID_SIZE" "stored w (base @ index_name i) = Some s" for i s
    using all that by (auto simp: index_stored_def)
  from ixr.load_listed_total [OF n g ids this] ids show ?thesis by (auto simp: index_load_def)
qed

text \<open>Everything any index object lists, and nothing else, is in the merged index.\<close>

lemma merge_lookup: "index_lookup i (merge_sources ls index_new) = first_location i (concat (map snd ls))"
  by (simp add: index_lookup_def merge_sources_lookup index_new_def)

definition indexes_sound :: "benv \<Rightarrow> string \<Rightarrow> keys \<Rightarrow> bworld \<Rightarrow> bool" where
  "indexes_sound B base ks w \<longleftrightarrow> (\<forall>i ps. length i = ID_SIZE \<and> index_stored B base ks w i ps \<longrightarrow> (\<forall>p\<in>set ps. pack_stored B base ks w (pn_pack p) (pn_entries p)))"

lemma pack_stored_mono: "pack_stored B base ks w i es \<Longrightarrow> set es' \<subseteq> set es \<Longrightarrow> pack_stored B base ks w i es'"
  unfolding pack_stored_def by blast

lemma index_load_sound:
  assumes n: "named base INDEX_DIR index_name w" and g: "index_genuine B base ks w" and l: "index_load B base ks w = (Inr ix, w')"
    and s: "indexes_sound B base ks w"
  shows "index_sound B base ks w ix"
  unfolding index_sound_def
proof (intro allI impI)
  fix i loc assume l': "index_lookup i ix = Some loc"
  from index_load_ok [OF n g l] obtain ls where ls: "ix = merge_sources ls index_new" "\<forall>(i, ps)\<in>set ls. index_stored B base ks w i ps"
    "\<forall>(i, ps)\<in>set ls. length i = ID_SIZE" by auto
  from l' have "first_location i (concat (map snd ls)) = Some loc" by (simp add: ls(1) merge_lookup)
  from first_location_some [OF this] obtain j ps p where p: "(j, ps) \<in> set ls" "p \<in> set ps" "lo_pack loc = pn_pack p"
    "lo_entry loc \<in> set (pn_entries p)" "pe_id (lo_entry loc) = i" by auto
  have "length j = ID_SIZE \<and> index_stored B base ks w j ps" using p(1) ls(2,3) by blast
  then have "pack_stored B base ks w (pn_pack p) (pn_entries p)" using p(2) s unfolding indexes_sound_def by blast
  from pack_stored_mono [OF this, of "[lo_entry loc]"] p show "pe_id (lo_entry loc) = i \<and> pack_stored B base ks w (lo_pack loc) [lo_entry loc]"
    by simp
qed

lemma index_load_has:
  assumes n: "named base INDEX_DIR index_name w" and g: "index_genuine B base ks w" and l: "index_load B base ks w = (Inr ix, w')"
  shows "index_has i ix \<longleftrightarrow> (\<exists>j ps p e. length j = ID_SIZE \<and> index_stored B base ks w j ps \<and> p \<in> set ps \<and> e \<in> set (pn_entries p) \<and> pe_id e = i)"
proof -
  from index_load_ok [OF n g l] obtain ls where ls: "ix = merge_sources ls index_new" "\<forall>(i, ps)\<in>set ls. index_stored B base ks w i ps"
    "\<forall>i. length i = ID_SIZE \<and> stored w (base @ index_name i) \<noteq> None \<longrightarrow> i \<in> fst ` set ls"
    "\<forall>(i, ps)\<in>set ls. length i = ID_SIZE" by blast
  have i: "index_lookup i ix = first_location i (concat (map snd ls))" by (simp add: ls(1) merge_lookup)
  have "index_has i ix \<longleftrightarrow> index_lookup i ix \<noteq> None" by (simp add: index_has_def index_lookup_def)
  also have "\<dots> \<longleftrightarrow> (\<exists>p\<in>set (concat (map snd ls)). \<exists>e\<in>set (pn_entries p). pe_id e = i)"
    unfolding i first_location_none by blast
  also have "\<dots> \<longleftrightarrow> (\<exists>j ps. (j, ps) \<in> set ls \<and> (\<exists>p\<in>set ps. \<exists>e\<in>set (pn_entries p). pe_id e = i))" by force
  finally have has: "index_has i ix \<longleftrightarrow> (\<exists>j ps. (j, ps) \<in> set ls \<and> (\<exists>p\<in>set ps. \<exists>e\<in>set (pn_entries p). pe_id e = i))" .
  have "(j, ps) \<in> set ls" if "length j = ID_SIZE" "index_stored B base ks w j ps" for j ps
  proof -
    have "j \<in> fst ` set ls" using ls(3) that by (auto simp: index_stored_def)
    then obtain ps' where ps': "(j, ps') \<in> set ls" by auto
    then have "index_stored B base ks w j ps'" using ls(2) by blast
    with that(2) ps' show ?thesis by (auto simp: index_stored_def)
  qed
  then show ?thesis unfolding has using ls(2) ls(4) by blast
qed

text \<open>The index is rebuilt from the pack headers alone.\<close>

lemma add_headers_packs: "add_headers hs ix = add_packs (map (\<lambda>(i, es). \<lparr>pn_pack = i, pn_entries = es\<rparr>) hs) ix"
  by (induction hs ix rule: add_headers.induct) auto

lemma index_rebuild_ok:
  assumes n: "named base PACK_DIR pack_name w" and l: "index_rebuild B base ks w = (Inr ix, w')"
    and len: "\<forall>k s. stored w k = Some s \<longrightarrow> length s < 2 ^ 64"
  shows "\<exists>hs. ix = add_packs hs index_new \<and> objects w' = objects w \<and>
    (\<forall>p\<in>set hs. \<exists>s. stored w (base @ pack_name (pn_pack p)) = Some s \<and> parse_header B ks (pn_pack p) s = Inr (pn_entries p)) \<and>
    (\<forall>i. length i = ID_SIZE \<and> stored w (base @ pack_name i) \<noteq> None \<longrightarrow> i \<in> pn_pack ` set hs)"
proof -
  obtain ids where ids: "list_ids base PACK_DIR w = (Inr ids, w)" using list_ids_ok by blast
  from l ids obtain headers where m: "act_map (rebuild_read B base ks) ids w = (Inr headers, w')"
    and ix: "ix = add_headers (zip (map fst ids) headers) index_new" by (auto simp: index_rebuild_def act_bind_ok)
  let ?Q = "\<lambda>v. objects v = objects w"
  let ?R = "\<lambda>i es. \<exists>s. stored w (base @ pack_name i) = Some s \<and> parse_header B ks i s = Inr es"
  have L: "list_all2 (\<lambda>p es. ?R (fst p) es) ids headers \<and> ?Q w'"
  proof (rule act_map_rel [OF _ _ m, where Q = ?Q], goal_cases)
    case (1 p v es v1)
    obtain i k where p: "p = (i, k)" by (cases p)
    then obtain s where s: "stored w (base @ pack_name i) = Some s" "k = of_nat (length s)" using list_ids_named [OF n ids] 1(1) by auto
    have sv: "stored v (base @ pack_name i) = Some s" using s(1) 1(2) stored_cong [of v w] by simp
    have sl: "length s < 2 ^ 64" using len s(1) by blast
    note pl = load_header_sized_parse [OF sv sl, of B ks i]
    have "load_header_sized B ks (base @ pack_name i) i k v = (Inr es, v1)"
      using 1(3) p by (cases "load_header_sized B ks (base @ pack_name i) i k v"; cases "fst (load_header_sized B ks (base @ pack_name i) i k v)")
        (auto simp: rebuild_read_def act_bind_ok act_try_run)
    then show ?case using pl s p 1(2) by auto
  qed simp
  then have r: "(\<forall>(i, es)\<in>set (zip (map fst ids) headers). ?R i es) \<and> map fst (zip (map fst ids) headers) = map fst ids" "?Q w'"
    using zip_fst [where R = ?R, OF conjunct1 [OF L]] L by blast+
  let ?hs = "map (\<lambda>(i, es). \<lparr>pn_pack = i, pn_entries = es\<rparr>) (zip (map fst ids) headers)"
  have "i \<in> pn_pack ` set ?hs" if "length i = ID_SIZE" "stored w (base @ pack_name i) \<noteq> None" for i
  proof -
    from that obtain s where "stored w (base @ pack_name i) = Some s" by auto
    from list_ids_listed [where name = pack_name, OF ids this _ pack_name_segment that(1)] have "i \<in> set (map fst ids)" by simp
    also have "set (map fst ids) = fst ` set (zip (map fst ids) headers)" using r(1) by (metis list.set_map)
    finally show ?thesis by force
  qed
  moreover have "\<exists>s. stored w (base @ pack_name (pn_pack p)) = Some s \<and> parse_header B ks (pn_pack p) s = Inr (pn_entries p)" if "p \<in> set ?hs" for p
    using that r(1) by auto
  ultimately show ?thesis using ix r(2) unfolding add_headers_packs by blast
qed

end
