(* ===== verification/Snapshots.thy ===== *)
theory Snapshots
  imports Index "HOL-Library.Multiset"
begin

text \<open>
  Trees and snapshots (\<open>backup-core/src/snapshot.rs\<close>). The JSON codecs are parameters. A time is a
  number of nanoseconds since the epoch.
\<close>

section \<open>Nodes\<close>

definition MODE_MASK :: u32 where "MODE_MASK = 4095"

datatype node_type = NFile | NDir | NSymlink

record node =
  nd_name :: string
  nd_type :: node_type
  nd_mode :: u32
  nd_uid :: u32
  nd_gid :: u32
  nd_size :: u64
  nd_mtime :: int
  nd_ctime :: "int option"
  nd_link :: "string option"
  nd_content :: "bid list"
  nd_subtree :: "bid option"
  nd_device :: u64
  nd_inode :: u64
  nd_links :: u64
  nd_hash :: "string option"
  nd_offloaded :: bool

text \<open>\<open>stamp\<close> is chrono's \<open>timestamp_opt(..).single()\<close>, which refuses out-of-range arguments.\<close>

definition unix_time :: "(int \<Rightarrow> u32 \<Rightarrow> int option) \<Rightarrow> int \<Rightarrow> int \<Rightarrow> int option" where
  "unix_time stamp secs nanos = (if secs \<noteq> 0 \<or> nanos \<noteq> 0 then stamp secs (of_int nanos) else None)"

text \<open>The metadata of a file system entry; the type is what \<open>is_symlink\<close>, \<open>is_dir\<close> and \<open>is_file\<close> tell.\<close>

datatype file_kind = KFile | KDir | KSymlink | KOther

record file_meta =
  fm_kind :: file_kind
  fm_len :: u64
  fm_mode :: u32
  fm_uid :: u32
  fm_gid :: u32
  fm_mtime :: "int \<times> int"
  fm_ctime :: "int \<times> int"
  fm_dev :: u64
  fm_ino :: u64
  fm_nlink :: u64

text \<open>\<open>link\<close> is what \<open>read_link\<close> returns: an error, or a target that may not be UTF-8 (\<open>None\<close>).\<close>

definition node_from_metadata ::
  "(int \<Rightarrow> u32 \<Rightarrow> int option) \<Rightarrow> (berror + string option) \<Rightarrow> string \<Rightarrow> string \<Rightarrow> file_meta \<Rightarrow> node bresult" where
  "node_from_metadata stamp link path name m =
     res_bind (case fm_kind m of
         KSymlink \<Rightarrow> res_bind link (\<lambda>target. res_bind (res_of (BInvalid path) target) (\<lambda>t. Inr (NSymlink, 0, Some t)))
       | KDir \<Rightarrow> Inr (NDir, 0, None)
       | KFile \<Rightarrow> Inr (NFile, fm_len m, None)
       | KOther \<Rightarrow> Inl (BInvalid path)) (\<lambda>(ty, sz, target).
     Inr \<lparr>nd_name = name, nd_type = ty, nd_mode = and (fm_mode m) MODE_MASK, nd_uid = fm_uid m, nd_gid = fm_gid m, nd_size = sz,
       nd_mtime = (case unix_time stamp (fst (fm_mtime m)) (snd (fm_mtime m)) of None \<Rightarrow> 0 | Some t \<Rightarrow> t),
       nd_ctime = unix_time stamp (fst (fm_ctime m)) (snd (fm_ctime m)),
       nd_link = target, nd_content = [], nd_subtree = None, nd_device = fm_dev m, nd_inode = fm_ino m, nd_links = fm_nlink m,
       nd_hash = None, nd_offloaded = False\<rparr>)"

definition is_hardlink :: "node \<Rightarrow> bool" where
  "is_hardlink n \<longleftrightarrow> nd_type n = NFile \<and> 1 < nd_links n \<and> nd_inode n \<noteq> 0"

definition same_content :: "node \<Rightarrow> node \<Rightarrow> bool" where
  "same_content old cur \<longleftrightarrow> \<not> nd_offloaded old \<and> nd_type old = NFile \<and> nd_type cur = NFile \<and> nd_size old = nd_size cur \<and>
     nd_mtime old = nd_mtime cur \<and> nd_mode old = nd_mode cur \<and>
     (nd_inode old = 0 \<or> nd_inode cur = 0 \<or> nd_inode old = nd_inode cur) \<and>
     (nd_ctime old = None \<or> nd_ctime cur = None \<or> nd_ctime old = nd_ctime cur)"

section \<open>Trees\<close>

type_synonym tree = "node list"

definition tree_new :: "node list \<Rightarrow> tree" where
  "tree_new nodes = sort_key nd_name nodes"

text \<open>\<open>binary_search_by\<close>: halve the range until it is empty or the name is met.\<close>

function tree_search :: "tree \<Rightarrow> string \<Rightarrow> nat \<Rightarrow> nat \<Rightarrow> nat option" where
  "tree_search t name lo hi =
     (if hi \<le> lo then None
      else let mid = (lo + hi) div 2; n = nd_name (t ! mid)
           in if n = name then Some mid
              else if n < name then tree_search t name (mid + 1) hi else tree_search t name lo mid)"
  by pat_completeness auto
termination by (relation "measure (\<lambda>(t, name, lo, hi). hi - lo)") auto

declare tree_search.simps [simp del]

definition tree_find :: "tree \<Rightarrow> string \<Rightarrow> node option" where
  "tree_find t name = map_option (\<lambda>i. t ! i) (tree_search t name 0 (length t))"

definition bad_name :: "string \<Rightarrow> bool" where
  "bad_name name \<longleftrightarrow> name = [] \<or> name = ''.'' \<or> name = ''..'' \<or> CHR ''/'' \<in> set name \<or> CHR 0x00 \<in> set name"

text \<open>The checks of \<open>Tree::decode\<close>, with the name of the entry before.\<close>

fun tree_check :: "string option \<Rightarrow> tree \<Rightarrow> unit bresult" where
  "tree_check prev [] = Inr ()"
| "tree_check prev (n # ns) =
     (if bad_name (nd_name n) then Inl (BFormat (nd_name n))
      else if (case prev of None \<Rightarrow> False | Some p \<Rightarrow> nd_name n \<le> p) then Inl (BFormat (nd_name n))
      else if nd_type n = NDir \<and> nd_subtree n = None then Inl (BFormat (nd_name n))
      else if nd_type n = NSymlink \<and> nd_link n = None then Inl (BFormat (nd_name n))
      else tree_check (Some (nd_name n)) ns)"

section \<open>Snapshots\<close>

definition SNAPSHOT_DIR :: string where "SNAPSHOT_DIR = ''snapshots/''"

definition snapshot_name :: "bid \<Rightarrow> string" where
  "snapshot_name i = SNAPSHOT_DIR @ hex i"

definition snapshot_aad :: "bid \<Rightarrow> string" where
  "snapshot_aad i = ''rfm-backup:v1:snapshot:'' @ hex i"

record backup_stats =
  st_files_new :: u64
  st_files_changed :: u64
  st_files_unmodified :: u64
  st_dirs_processed :: u64
  st_files_skipped :: u64
  st_offloaded_reused :: u64
  st_offloaded_downloaded :: u64
  st_offloaded_bytes :: u64
  st_offloaded_skipped :: u64
  st_bytes_processed :: u64
  st_bytes_added :: u64
  st_chunks_new :: u64
  st_chunks_duplicate :: u64
  st_packs_adopted :: u64
  st_files_resumed :: u64

record backup_snapshot =
  sn_id :: bid
  sn_time :: int
  sn_hostname :: string
  sn_username :: string
  sn_paths :: "string list"
  sn_tags :: "string list"
  sn_tree :: bid
  sn_parent :: "bid option"
  sn_stats :: backup_stats

definition id_default :: bid where
  "id_default = replicate ID_SIZE 0"

text \<open>The chunker's settings (\<open>chunker.rs\<close>) and the repository's configuration (\<open>repo.rs\<close>).\<close>

record chunker_config =
  cc_min :: nat
  cc_avg :: nat
  cc_max :: nat

record repo_config =
  rc_version :: u32
  rc_id :: bid
  rc_created :: int
  rc_chunker :: chunker_config
  rc_compression :: compression_kind

text \<open>The JSON codecs. The identifier of a snapshot is not written: it is skipped, and set when read.\<close>

record codecs =
  cd_tree :: "tree \<Rightarrow> bytes"
  cd_tree_parse :: "bytes \<Rightarrow> tree option"
  cd_snapshot :: "backup_snapshot \<Rightarrow> bytes"
  cd_snapshot_parse :: "bytes \<Rightarrow> backup_snapshot option"
  cd_config :: "repo_config \<Rightarrow> bytes"
  cd_config_parse :: "bytes \<Rightarrow> repo_config option"

definition codecs_ok :: "codecs \<Rightarrow> bool" where
  "codecs_ok C \<longleftrightarrow> (\<forall>t. cd_tree_parse C (cd_tree C t) = Some t) \<and>
     (\<forall>s. cd_snapshot_parse C (cd_snapshot C s) = Some (s\<lparr>sn_id := id_default\<rparr>)) \<and>
     (\<forall>c. cd_config_parse C (cd_config C c) = Some c)"

definition tree_encode :: "codecs \<Rightarrow> tree \<Rightarrow> bytes" where
  "tree_encode C t = cd_tree C (tree_new t)"

definition tree_decode :: "codecs \<Rightarrow> bytes \<Rightarrow> tree bresult" where
  "tree_decode C data = res_bind (res_of (BFormat ''tree'') (cd_tree_parse C data)) (\<lambda>t.
     res_bind (tree_check None t) (\<lambda>_. Inr t))"

definition snapshot_validate :: "backup_snapshot \<Rightarrow> unit bresult" where
  "snapshot_validate s = (if sn_paths s = [] then Inl (BFormat ''snapshot lists no paths'')
     else if sn_tree s = id_default then Inl (BFormat ''snapshot has no root tree'') else Inr ())"

text \<open>Returns the identifier it set.\<close>

definition snapshot_save :: "benv \<Rightarrow> codecs \<Rightarrow> string \<Rightarrow> keys \<Rightarrow> backup_snapshot \<Rightarrow> backup_snapshot bact" where
  "snapshot_save B C base ks s =
     act_bind (act_res (snapshot_validate s)) (\<lambda>_.
     act_bind (random_id B) (\<lambda>i.
     act_bind (bseal B ks KMeta (cd_snapshot C s) (snapshot_aad i)) (\<lambda>sealed.
     act_bind (bput (base @ snapshot_name i) sealed) (\<lambda>_.
     act_bind (cache_put CSnapshot i sealed) (\<lambda>_. act_ok (s\<lparr>sn_id := i\<rparr>))))))"

definition snapshot_open_object :: "benv \<Rightarrow> codecs \<Rightarrow> keys \<Rightarrow> bid \<Rightarrow> bytes \<Rightarrow> backup_snapshot bresult" where
  "snapshot_open_object B C ks i sealed =
     res_bind (unseal B ks KMeta sealed (snapshot_aad i) (''snapshot '' @ id_short i)) (\<lambda>plaintext.
     res_bind (res_of (BFormat (''snapshot '' @ id_short i)) (cd_snapshot_parse C plaintext)) (\<lambda>s.
     res_bind (snapshot_validate s) (\<lambda>_. Inr (s\<lparr>sn_id := i\<rparr>))))"

definition snapshot_fetch :: "benv \<Rightarrow> codecs \<Rightarrow> string \<Rightarrow> keys \<Rightarrow> bid \<Rightarrow> backup_snapshot bact" where
  "snapshot_fetch B C base ks i =
     act_bind (from_bstore (mem_get (base @ snapshot_name i))) (\<lambda>sealed.
     act_bind (act_res (snapshot_open_object B C ks i sealed)) (\<lambda>s.
     act_bind (cache_put CSnapshot i sealed) (\<lambda>_. act_ok s)))"

definition snapshot_load :: "benv \<Rightarrow> codecs \<Rightarrow> string \<Rightarrow> keys \<Rightarrow> bid \<Rightarrow> backup_snapshot bact" where
  "snapshot_load B C base ks i = (\<lambda>w. case cache_get CSnapshot i w of
      Some sealed \<Rightarrow> (case snapshot_open_object B C ks i sealed of
          Inr s \<Rightarrow> (Inr s, w)
        | Inl _ \<Rightarrow> snapshot_fetch B C base ks i w)
    | None \<Rightarrow> snapshot_fetch B C base ks i w)"

text \<open>Newest first; snapshots of the same time by identifier.\<close>

definition newest_first :: "backup_snapshot list \<Rightarrow> backup_snapshot list" where
  "newest_first ss = sort_key (\<lambda>s. (- sn_time s, sn_id s)) ss"

definition snapshot_list :: "benv \<Rightarrow> codecs \<Rightarrow> string \<Rightarrow> keys \<Rightarrow> backup_snapshot list bact" where
  "snapshot_list B C base ks =
     act_bind (list_ids base SNAPSHOT_DIR) (\<lambda>ids.
     act_bind (act_map (\<lambda>(i, _). snapshot_load B C base ks i) ids) (\<lambda>ss. act_ok (newest_first ss)))"

definition ascii_lower :: "char \<Rightarrow> char" where
  "ascii_lower c = (if CHR ''A'' \<le> c \<and> c \<le> CHR ''Z'' then char_of (of_char c + 32 :: nat) else c)"

definition snapshot_find :: "backup_snapshot list \<Rightarrow> string \<Rightarrow> backup_snapshot bresult" where
  "snapshot_find ss reference =
     (case ss of [] \<Rightarrow> Inl (BSnapshotNotFound ''the repository has no snapshots'')
      | s # _ \<Rightarrow> if reference = [] \<or> reference = ''latest'' then Inr s
          else let r = map ascii_lower reference
               in case filter (\<lambda>s. prefix r (hex (sn_id s))) ss of
                    [] \<Rightarrow> Inl (BSnapshotNotFound reference)
                  | [only] \<Rightarrow> Inr only
                  | _ \<Rightarrow> Inl (BSnapshotNotFound reference))"

definition find_parent :: "backup_snapshot list \<Rightarrow> string \<Rightarrow> string list \<Rightarrow> backup_snapshot option" where
  "find_parent ss hostname paths = find (\<lambda>s. sn_hostname s = hostname \<and> sort (sn_paths s) = sort paths) ss"

section \<open>Trees are canonical\<close>

text \<open>What a decoded tree satisfies: every name names a child, and the names increase strictly.\<close>

definition tree_ok :: "tree \<Rightarrow> bool" where
  "tree_ok t \<longleftrightarrow> sorted_wrt (<) (map nd_name t) \<and> (\<forall>n\<in>set t. \<not> bad_name (nd_name n) \<and>
     (nd_type n = NDir \<longrightarrow> nd_subtree n \<noteq> None) \<and> (nd_type n = NSymlink \<longrightarrow> nd_link n \<noteq> None))"

lemma tree_check_ok: "tree_check prev t = Inr () \<longleftrightarrow> tree_ok t \<and> (\<forall>p. prev = Some p \<longrightarrow> (\<forall>n\<in>set t. p < nd_name n))"
proof (induction prev t rule: tree_check.induct)
  case (2 prev n ns)
  show ?case
  proof (cases "bad_name (nd_name n) \<or> (case prev of None \<Rightarrow> False | Some p \<Rightarrow> nd_name n \<le> p) \<or>
      nd_type n = NDir \<and> nd_subtree n = None \<or> nd_type n = NSymlink \<and> nd_link n = None")
    case True
    then show ?thesis by (auto simp: tree_ok_def split: option.splits)
  next
    case False
    then show ?thesis using "2.IH" by (cases prev) (auto simp: tree_ok_def not_le dest: order.strict_trans)
  qed
qed (simp add: tree_ok_def)

lemma tree_decode_ok: "tree_decode C data = Inr t \<longleftrightarrow> cd_tree_parse C data = Some t \<and> tree_ok t"
  by (auto simp: tree_decode_def res_bind_ok tree_check_ok)

lemma tree_new_id: "sorted_wrt (<) (map nd_name t) \<Longrightarrow> tree_new t = t"
  unfolding tree_new_def by (rule sort_key_id_if_sorted) (simp add: strict_sorted_iff)

lemma tree_new_perm:
  assumes "mset xs = mset ys" and "distinct (map nd_name xs)"
  shows "tree_new xs = tree_new ys"
proof (rule map_sorted_distinct_set_unique [where f = nd_name])
  have d: "distinct (map nd_name ys)" using assms by (metis distinct_map mset_eq_imp_distinct_iff mset_eq_setD mset_map)
  have "set xs = set ys" using assms(1) by (rule mset_eq_setD)
  then show "inj_on nd_name (set (tree_new xs) \<union> set (tree_new ys))" "set (tree_new xs) = set (tree_new ys)"
    using assms(2) by (simp_all add: tree_new_def distinct_map)
  have "distinct (map nd_name (tree_new zs))" if "distinct (map nd_name zs)" for zs
    using that by (simp add: tree_new_def distinct_map)
  then show "distinct (map nd_name (tree_new xs))" "distinct (map nd_name (tree_new ys))" using assms(2) d by auto
qed (simp_all add: tree_new_def)

lemma tree_new_ok:
  assumes "distinct (map nd_name t)" and "\<forall>n\<in>set t. \<not> bad_name (nd_name n) \<and>
     (nd_type n = NDir \<longrightarrow> nd_subtree n \<noteq> None) \<and> (nd_type n = NSymlink \<longrightarrow> nd_link n \<noteq> None)"
  shows "tree_ok (tree_new t)"
proof -
  have "distinct (map nd_name (tree_new t))"
    using assms(1) by (metis distinct_map distinct_sort set_sort tree_new_def)
  then show ?thesis using assms(2) by (auto simp: tree_ok_def tree_new_def strict_sorted_iff)
qed

lemma tree_search_sound: "tree_search t name lo hi = Some i \<Longrightarrow> lo \<le> i \<and> i < hi \<and> nd_name (t ! i) = name"
proof (induction t name lo hi rule: tree_search.induct)
  case (1 t name lo hi)
  let ?mid = "(lo + hi) div 2"
  show ?case
  proof (cases "hi \<le> lo \<or> nd_name (t ! ?mid) = name")
    case True
    then show ?thesis using "1.prems" by (auto simp: tree_search.simps [of t name lo hi] Let_def split: if_splits)
  next
    case False
    then have le: "\<not> hi \<le> lo" and ne: "nd_name (t ! ?mid) \<noteq> name" by auto
    note step = "1.prems" [unfolded tree_search.simps [of t name lo hi]]
    show ?thesis
    proof (cases "nd_name (t ! ?mid) < name")
      case True
      with False step have "tree_search t name (?mid + 1) hi = Some i" by (auto simp: Let_def split: if_splits)
      from "1.IH"(1) [OF le refl refl ne True this] le show ?thesis by auto
    next
      case gt: False
      with False step have "tree_search t name lo ?mid = Some i" by (auto simp: Let_def split: if_splits)
      from "1.IH"(2) [OF le refl refl ne gt this] le show ?thesis by auto
    qed
  qed
qed

lemma tree_search_complete:
  "\<lbrakk>sorted_wrt (<) (map nd_name t); hi \<le> length t; lo \<le> i; i < hi; nd_name (t ! i) = name\<rbrakk> \<Longrightarrow> tree_search t name lo hi = Some i"
proof (induction t name lo hi rule: tree_search.induct)
  case (1 t name lo hi)
  let ?mid = "(lo + hi) div 2"
  have mid: "lo \<le> ?mid" "?mid < hi" "\<not> hi \<le> lo" using "1.prems" by auto
  have mono: "nd_name (t ! a) < nd_name (t ! b)" if "a < b" "b < length t" for a b
    using "1.prems"(1) that by (simp add: sorted_wrt_iff_nth_less)
  consider "i = ?mid" | "?mid < i" | "i < ?mid" by linarith
  then show ?case
  proof cases
    case 1
    then show ?thesis using mid "1.prems"(5) by (simp add: tree_search.simps [of t name lo hi])
  next
    case 2
    then have lt: "nd_name (t ! ?mid) < name" using mono [of ?mid i] "1.prems"(2,4,5) by simp
    from "1.IH"(1) [OF mid(3) refl refl _ lt] lt "1.prems" 2 have "tree_search t name (?mid + 1) hi = Some i" by simp
    moreover have "nd_name (t ! ?mid) \<noteq> name" using lt by blast
    ultimately show ?thesis using mid lt by (simp add: tree_search.simps [of t name lo hi] Let_def)
  next
    case 3
    then have gt: "name < nd_name (t ! ?mid)" using mono [of i ?mid] mid "1.prems"(2,5) by simp
    then have "nd_name (t ! ?mid) \<noteq> name" "\<not> nd_name (t ! ?mid) < name" by auto
    from "1.IH"(2) [OF mid(3) refl refl this] "1.prems" 3 mid have "tree_search t name lo ?mid = Some i" by simp
    then show ?thesis using mid \<open>nd_name (t ! ?mid) \<noteq> name\<close> \<open>\<not> nd_name (t ! ?mid) < name\<close>
      by (simp add: tree_search.simps [of t name lo hi] Let_def)
  qed
qed

lemma tree_find_iff:
  assumes "sorted_wrt (<) (map nd_name t)"
  shows "tree_find t name = Some n \<longleftrightarrow> n \<in> set t \<and> nd_name n = name"
proof
  assume "tree_find t name = Some n"
  then obtain i where "tree_search t name 0 (length t) = Some i" "n = t ! i" by (auto simp: tree_find_def)
  from tree_search_sound [OF this(1)] this(2) show "n \<in> set t \<and> nd_name n = name" by simp
next
  assume "n \<in> set t \<and> nd_name n = name"
  then obtain i where i: "i < length t" "t ! i = n" "nd_name n = name" by (auto simp: in_set_conv_nth)
  then have "tree_search t name 0 (length t) = Some i" using tree_search_complete [OF assms, of "length t" 0 i name] by simp
  then show "tree_find t name = Some n" using i by (simp add: tree_find_def)
qed

section \<open>Snapshot objects\<close>

lemma snapshot_open_saved:
  assumes "bcrypto_ok B" and "codecs_ok C" and "snapshot_validate s = Inr ()" and "length n = NONCE_SIZE"
    and "seal B n ks KMeta (cd_snapshot C s) (snapshot_aad i) = Inr c"
  shows "snapshot_open_object B C ks i c = Inr (s\<lparr>sn_id := i\<rparr>)"
proof -
  have "unseal B ks KMeta c (snapshot_aad i) (''snapshot '' @ id_short i) = Inr (cd_snapshot C s)"
    using unseal_seal assms by (simp add: bcrypto_ok_def)
  moreover have "snapshot_validate (s\<lparr>sn_id := id_default\<rparr>) = Inr ()" using assms(3) by (simp add: snapshot_validate_def split: if_splits)
  ultimately show ?thesis using assms(2) by (simp add: snapshot_open_object_def codecs_ok_def)
qed

lemma newest_first_mset: "mset (newest_first ss) = mset ss"
  by (simp add: newest_first_def)

lemma newest_first_set [simp]: "set (newest_first ss) = set ss"
  by (simp add: newest_first_def)

lemma newest_first_sorted: "sorted_wrt (\<lambda>a b. sn_time b \<le> sn_time a) (newest_first ss)"
proof -
  have "sorted (map (\<lambda>s. (- sn_time s, sn_id s)) (newest_first ss))" by (simp add: newest_first_def)
  then show ?thesis by (auto simp: sorted_map less_eq_prod_def elim!: sorted_wrt_mono_rel [rotated])
qed

lemma find_first: "find P xs = Some x \<Longrightarrow> \<exists>ys zs. xs = ys @ x # zs \<and> P x \<and> (\<forall>y\<in>set ys. \<not> P y)"
proof (induction xs)
  case (Cons a xs)
  show ?case
  proof (cases "P a")
    case True
    then show ?thesis using Cons.prems by (intro exI [of _ "[]"] exI [of _ xs]) auto
  next
    case False
    with Cons obtain ys zs where "xs = ys @ x # zs" "P x" "\<forall>y\<in>set ys. \<not> P y" by auto
    then show ?thesis using False by (intro exI [of _ "a # ys"] exI [of _ zs]) auto
  qed
qed simp

section \<open>Listing snapshots\<close>

lemma snapshot_name_segment: "last_segment (base @ snapshot_name i) = hex i"
  using last_segment_append [OF hex_no_slash, of "base @ ''snapshots''" i] by (simp add: snapshot_name_def SNAPSHOT_DIR_def)

lemma snapshot_name_prefix [simp]: "prefix SNAPSHOT_DIR (snapshot_name i)"
  by (simp add: snapshot_name_def)

lemma snapshot_fetch_ok:
  "snapshot_fetch B C base ks i w = (Inr x, w') \<longleftrightarrow> (\<exists>s. stored w (base @ snapshot_name i) = Some s \<and> snapshot_open_object B C ks i s = Inr x \<and>
     w' = w\<lparr>bw_store := count_read s (bw_store w), bw_cache := map_option (fmupd (CSnapshot, i) s) (bw_cache w)\<rparr>)"
  by (auto simp: snapshot_fetch_def act_bind_ok bget_ok)

interpretation snr: cached_reader base SNAPSHOT_DIR snapshot_name CSnapshot "snapshot_open_object B C ks" "snapshot_load B C base ks" for B C base ks
proof
  fix i w x w' assume "\<And>c x. cache_get CSnapshot i w = Some c \<Longrightarrow> snapshot_open_object B C ks i c \<noteq> Inr x"
  then have "snapshot_load B C base ks i w = snapshot_fetch B C base ks i w"
    by (auto simp: snapshot_load_def split: option.splits sum.splits)
  then show "snapshot_load B C base ks i w = (Inr x, w') \<longleftrightarrow> (\<exists>s. stored w (base @ snapshot_name i) = Some s \<and> snapshot_open_object B C ks i s = Inr x \<and>
      w' = w\<lparr>bw_store := count_read s (bw_store w), bw_cache := map_option (fmupd (CSnapshot, i) s) (bw_cache w)\<rparr>)"
    by (simp add: snapshot_fetch_ok)
qed (simp_all add: snapshot_name_segment snapshot_load_def)

abbreviation snapshot_genuine :: "benv \<Rightarrow> codecs \<Rightarrow> string \<Rightarrow> keys \<Rightarrow> bworld \<Rightarrow> bool" where
  "snapshot_genuine B C base ks \<equiv> genuine CSnapshot (snapshot_open_object B C ks) (\<lambda>i. base @ snapshot_name i)"

definition snapshot_stored :: "benv \<Rightarrow> codecs \<Rightarrow> string \<Rightarrow> keys \<Rightarrow> bworld \<Rightarrow> bid \<Rightarrow> backup_snapshot \<Rightarrow> bool" where
  "snapshot_stored B C base ks w i s \<longleftrightarrow> (\<exists>c. stored w (base @ snapshot_name i) = Some c \<and> snapshot_open_object B C ks i c = Inr s)"

lemma snapshot_list_ok:
  assumes n: "named base SNAPSHOT_DIR snapshot_name w" and g: "snapshot_genuine B C base ks w"
    and l: "snapshot_list B C base ks w = (Inr ss, w')"
  shows "(\<forall>s. s \<in> set ss \<longleftrightarrow> (\<exists>i. length i = ID_SIZE \<and> snapshot_stored B C base ks w i s)) \<and>
    sorted_wrt (\<lambda>a b. sn_time b \<le> sn_time a) ss \<and> same_objects w w' \<and> snapshot_genuine B C base ks w'"
proof -
  obtain ids where ids: "list_ids base SNAPSHOT_DIR w = (Inr ids, w)" using list_ids_ok by blast
  from l ids obtain xs where m: "act_map (\<lambda>(i, _). snapshot_load B C base ks i) ids w = (Inr xs, w')" and ss: "ss = newest_first xs"
    by (auto simp: snapshot_list_def act_bind_ok)
  note r = snr.load_listed [OF n g ids m]
  let ?z = "zip (map fst ids) xs"
  have zs: "set xs = snd ` set ?z" using act_map_length [OF m] by (metis length_map list.set_map map_snd_zip)
  have st: "length i = ID_SIZE \<and> snapshot_stored B C base ks w i x" if "(i, x) \<in> set ?z" for i x
    using r that unfolding snapshot_stored_def by blast
  have ex: "\<exists>y. (i, y) \<in> set ?z" if "length i = ID_SIZE" "snapshot_stored B C base ks w i x" for i x
  proof -
    have "i \<in> set (map fst ?z)" using r that by (auto simp: snapshot_stored_def)
    then show ?thesis by auto
  qed
  have uniq: "x = y" if "snapshot_stored B C base ks w i x" "snapshot_stored B C base ks w i y" for i x y
    using that by (auto simp: snapshot_stored_def)
  have "x \<in> set xs \<longleftrightarrow> (\<exists>i. length i = ID_SIZE \<and> snapshot_stored B C base ks w i x)" for x
  proof
    assume "x \<in> set xs"
    then obtain i where "(i, x) \<in> set ?z" unfolding zs by auto
    then show "\<exists>i. length i = ID_SIZE \<and> snapshot_stored B C base ks w i x" using st by blast
  next
    assume "\<exists>i. length i = ID_SIZE \<and> snapshot_stored B C base ks w i x"
    then obtain i where i: "length i = ID_SIZE" "snapshot_stored B C base ks w i x" by blast
    from ex [OF this] obtain y where y: "(i, y) \<in> set ?z" by blast
    with st uniq i(2) have "y = x" by blast
    with y show "x \<in> set xs" unfolding zs by force
  qed
  then show ?thesis using r newest_first_sorted by (simp add: ss)
qed

lemma snapshot_list_total:
  assumes n: "named base SNAPSHOT_DIR snapshot_name w" and g: "snapshot_genuine B C base ks w"
    and all: "\<forall>i. length i = ID_SIZE \<and> stored w (base @ snapshot_name i) \<noteq> None \<longrightarrow> (\<exists>s. snapshot_stored B C base ks w i s)"
  shows "\<exists>ss w'. snapshot_list B C base ks w = (Inr ss, w')"
proof -
  obtain ids where ids: "list_ids base SNAPSHOT_DIR w = (Inr ids, w)" using list_ids_ok by blast
  have "\<exists>x. snapshot_open_object B C ks i s = Inr x" if "length i = ID_SIZE" "stored w (base @ snapshot_name i) = Some s" for i s
    using all that by (auto simp: snapshot_stored_def)
  from snr.load_listed_total [OF n g ids this] ids show ?thesis by (auto simp: snapshot_list_def)
qed

section \<open>Concrete codecs, for the witnesses\<close>

definition node_type_code :: "node_type \<Rightarrow> nat" where
  "node_type_code t = (case t of NFile \<Rightarrow> 0 | NDir \<Rightarrow> 1 | NSymlink \<Rightarrow> 2)"

definition node_type_decode :: "nat \<Rightarrow> node_type" where
  "node_type_decode n = (if n = 0 then NFile else if n = 1 then NDir else NSymlink)"

abbreviation enc_string :: "string \<Rightarrow> bytes" where "enc_string \<equiv> enc_list enc_char"
abbreviation dec_string :: "string parser" where "dec_string \<equiv> dec_list dec_char"
abbreviation enc_id :: "bid \<Rightarrow> bytes" where "enc_id \<equiv> enc_list enc_word"
abbreviation dec_id :: "bid parser" where "dec_id \<equiv> dec_list dec_word"

definition enc_node :: "node \<Rightarrow> bytes" where
  "enc_node = enc_via (\<lambda>n. ((nd_name n, node_type_code (nd_type n), nd_mode n, nd_uid n, nd_gid n, nd_size n, nd_mtime n, nd_ctime n),
       (nd_link n, nd_content n, nd_subtree n, nd_device n, nd_inode n, nd_links n, nd_hash n, nd_offloaded n)))
     (enc_pair (enc_pair enc_string (enc_pair enc_nat (enc_pair enc_word (enc_pair enc_word (enc_pair enc_word
        (enc_pair enc_word (enc_pair enc_int (enc_option enc_int))))))))
       (enc_pair (enc_option enc_string) (enc_pair (enc_list enc_id) (enc_pair (enc_option enc_id) (enc_pair enc_word
          (enc_pair enc_word (enc_pair enc_word (enc_pair (enc_option enc_string) enc_bool))))))))"

definition dec_node :: "node parser" where
  "dec_node = dec_via (\<lambda>((a, b, c, d, e, f, g, h), (i, j, k, l, m, n, p, q)).
       \<lparr>nd_name = a, nd_type = node_type_decode b, nd_mode = c, nd_uid = d, nd_gid = e, nd_size = f, nd_mtime = g, nd_ctime = h,
        nd_link = i, nd_content = j, nd_subtree = k, nd_device = l, nd_inode = m, nd_links = n, nd_hash = p, nd_offloaded = q\<rparr>)
     (dec_pair (dec_pair dec_string (dec_pair dec_nat (dec_pair dec_word (dec_pair dec_word (dec_pair dec_word
        (dec_pair dec_word (dec_pair dec_int (dec_option dec_int))))))))
       (dec_pair (dec_option dec_string) (dec_pair (dec_list dec_id) (dec_pair (dec_option dec_id) (dec_pair dec_word
          (dec_pair dec_word (dec_pair dec_word (dec_pair (dec_option dec_string) dec_bool))))))))"

definition stats_words :: "backup_stats \<Rightarrow> u64 list" where
  "stats_words s = [st_files_new s, st_files_changed s, st_files_unmodified s, st_dirs_processed s, st_files_skipped s,
     st_offloaded_reused s, st_offloaded_downloaded s, st_offloaded_bytes s, st_offloaded_skipped s, st_bytes_processed s,
     st_bytes_added s, st_chunks_new s, st_chunks_duplicate s, st_packs_adopted s, st_files_resumed s]"

definition stats_of_words :: "u64 list \<Rightarrow> backup_stats" where
  "stats_of_words l = \<lparr>st_files_new = l ! 0, st_files_changed = l ! 1, st_files_unmodified = l ! 2, st_dirs_processed = l ! 3,
     st_files_skipped = l ! 4, st_offloaded_reused = l ! 5, st_offloaded_downloaded = l ! 6, st_offloaded_bytes = l ! 7,
     st_offloaded_skipped = l ! 8, st_bytes_processed = l ! 9, st_bytes_added = l ! 10, st_chunks_new = l ! 11,
     st_chunks_duplicate = l ! 12, st_packs_adopted = l ! 13, st_files_resumed = l ! 14\<rparr>"

definition enc_snapshot :: "backup_snapshot \<Rightarrow> bytes" where
  "enc_snapshot = enc_via (\<lambda>s. (sn_time s, sn_hostname s, sn_username s, sn_paths s, sn_tags s, sn_tree s, sn_parent s, stats_words (sn_stats s)))
     (enc_pair enc_int (enc_pair enc_string (enc_pair enc_string (enc_pair (enc_list enc_string) (enc_pair (enc_list enc_string)
       (enc_pair enc_id (enc_pair (enc_option enc_id) (enc_list enc_word))))))))"

definition dec_snapshot :: "backup_snapshot parser" where
  "dec_snapshot = dec_via (\<lambda>(t, h, u, p, g, r, q, s). \<lparr>sn_id = id_default, sn_time = t, sn_hostname = h, sn_username = u, sn_paths = p,
       sn_tags = g, sn_tree = r, sn_parent = q, sn_stats = stats_of_words s\<rparr>)
     (dec_pair dec_int (dec_pair dec_string (dec_pair dec_string (dec_pair (dec_list dec_string) (dec_pair (dec_list dec_string)
       (dec_pair dec_id (dec_pair (dec_option dec_id) (dec_list dec_word))))))))"

definition enc_config :: "repo_config \<Rightarrow> bytes" where
  "enc_config = enc_via (\<lambda>c. (rc_version c, rc_id c, rc_created c, cc_min (rc_chunker c), cc_avg (rc_chunker c), cc_max (rc_chunker c),
       compression_byte (rc_compression c)))
     (enc_pair enc_word (enc_pair enc_id (enc_pair enc_int (enc_pair enc_nat (enc_pair enc_nat (enc_pair enc_nat enc_word))))))"

definition dec_config :: "repo_config parser" where
  "dec_config = dec_via (\<lambda>(v, i, t, a, b, c, z). \<lparr>rc_version = v, rc_id = i, rc_created = t, rc_chunker = \<lparr>cc_min = a, cc_avg = b, cc_max = c\<rparr>,
       rc_compression = (case compression_from_byte z of None \<Rightarrow> CNone | Some k \<Rightarrow> k)\<rparr>)
     (dec_pair dec_word (dec_pair dec_id (dec_pair dec_int (dec_pair dec_nat (dec_pair dec_nat (dec_pair dec_nat dec_word))))))"

lemma codec_node: "codec enc_node dec_node"
  unfolding enc_node_def dec_node_def
  by (rule codec_via) (intro codec_intros, simp add: node_type_code_def node_type_decode_def split: node_type.splits)

lemma codec_config: "codec enc_config dec_config"
  unfolding enc_config_def dec_config_def by (rule codec_via) (intro codec_intros, simp)

lemma stats_words_inv: "stats_of_words (stats_words s) = s"
  by (simp add: stats_of_words_def stats_words_def)

lemma decode_snapshot: "whole dec_snapshot (enc_snapshot s) = Some (s\<lparr>sn_id := id_default\<rparr>)"
proof -
  have "codec (enc_pair enc_int (enc_pair enc_string (enc_pair enc_string (enc_pair (enc_list enc_string) (enc_pair (enc_list enc_string)
       (enc_pair enc_id (enc_pair (enc_option enc_id) (enc_list (enc_word :: u64 \<Rightarrow> bytes)))))))))
     (dec_pair dec_int (dec_pair dec_string (dec_pair dec_string (dec_pair (dec_list dec_string) (dec_pair (dec_list dec_string)
       (dec_pair dec_id (dec_pair (dec_option dec_id) (dec_list dec_word))))))))"
    by (intro codec_intros)
  from this [unfolded codec_def, rule_format, where r = "[]"]
  show ?thesis by (simp add: whole_def enc_snapshot_def dec_snapshot_def enc_via_def dec_via_def stats_words_inv)
qed

definition sample_codecs :: codecs where
  "sample_codecs = \<lparr>cd_tree = enc_list enc_node, cd_tree_parse = whole (dec_list dec_node), cd_snapshot = enc_snapshot,
     cd_snapshot_parse = whole dec_snapshot, cd_config = enc_config, cd_config_parse = whole dec_config\<rparr>"

lemma sample_codecs_ok: "codecs_ok sample_codecs"
  by (simp add: codecs_ok_def sample_codecs_def whole_codec codec_list codec_node codec_config decode_snapshot)

definition sample_file :: "string \<Rightarrow> bid list \<Rightarrow> node" where
  "sample_file name content = \<lparr>nd_name = name, nd_type = NFile, nd_mode = 6, nd_uid = 1, nd_gid = 1, nd_size = 2, nd_mtime = 3, nd_ctime = None,
     nd_link = None, nd_content = content, nd_subtree = None, nd_device = 1, nd_inode = 2, nd_links = 1, nd_hash = None, nd_offloaded = False\<rparr>"

section \<open>Properties of trees\<close>

text \<open>
  C33: No tree that decodes, from whatever bytes, can take a reader out of the directory or give one name two
  meanings: no name is empty, dot or dot-dot or holds a slash or a NUL, names increase strictly, a
  directory has a subtree and a symlink a target.
\<close>

theorem decoded_names_confined:
  assumes "tree_decode C data = Inr t" and "n \<in> set t"
  shows "nd_name n \<noteq> [] \<and> nd_name n \<noteq> ''.'' \<and> nd_name n \<noteq> ''..'' \<and> CHR ''/'' \<notin> set (nd_name n) \<and> CHR 0x00 \<notin> set (nd_name n) \<and>
    (\<forall>m\<in>set t. nd_name m = nd_name n \<longrightarrow> m = n) \<and> (nd_type n = NDir \<longrightarrow> nd_subtree n \<noteq> None) \<and> (nd_type n = NSymlink \<longrightarrow> nd_link n \<noteq> None)"
proof -
  have ok: "tree_ok t" using assms(1) by (simp add: tree_decode_ok)
  then have "distinct (map nd_name t)" by (simp add: tree_ok_def strict_sorted_iff)
  then have "\<forall>m\<in>set t. nd_name m = nd_name n \<longrightarrow> m = n" using assms(2) by (auto simp: distinct_map inj_on_def)
  moreover have "\<not> bad_name (nd_name n)" "nd_type n = NDir \<longrightarrow> nd_subtree n \<noteq> None" "nd_type n = NSymlink \<longrightarrow> nd_link n \<noteq> None"
    using ok assms(2) by (auto simp: tree_ok_def)
  ultimately show ?thesis by (simp add: bad_name_def)
qed

theorem decoded_names_confined_witness:
  "tree_decode sample_codecs (enc_list enc_node [sample_file ''a'' []]) = Inr [sample_file ''a'' []] \<and>
    CHR ''/'' \<notin> set (nd_name (sample_file ''a'' []))"
proof -
  have d: "tree_decode sample_codecs (enc_list enc_node [sample_file ''a'' []]) = Inr [sample_file ''a'' []]"
    by (simp add: tree_decode_def sample_codecs_def whole_codec codec_list codec_node bad_name_def) (simp add: sample_file_def)
  from decoded_names_confined [OF this, of "sample_file ''a'' []"] d show ?thesis by simp
qed

text \<open>
  C34: Encoding is canonical, which deduplication of directories rests on: two listings of the same children,
  in any order, encode to the same bytes, and these decode to the children sorted by name.
\<close>

theorem tree_encoding_canonical:
  assumes "codecs_ok C" and "distinct (map nd_name xs)" and "mset ys = mset xs"
    and "\<forall>n\<in>set xs. \<not> bad_name (nd_name n) \<and> (nd_type n = NDir \<longrightarrow> nd_subtree n \<noteq> None) \<and> (nd_type n = NSymlink \<longrightarrow> nd_link n \<noteq> None)"
  shows "tree_encode C ys = tree_encode C xs \<and> tree_decode C (tree_encode C xs) = Inr (tree_new xs) \<and> set (tree_new xs) = set xs"
proof -
  have "tree_new ys = tree_new xs" using tree_new_perm [of xs ys] assms(2,3) by simp
  moreover have "tree_ok (tree_new xs)" using tree_new_ok assms(2,4) by blast
  ultimately show ?thesis using assms(1) by (simp add: tree_encode_def tree_decode_ok codecs_ok_def) (simp add: tree_new_def)
qed

theorem tree_encoding_canonical_witness:
  "tree_encode sample_codecs [sample_file ''b'' [], sample_file ''a'' []] = tree_encode sample_codecs [sample_file ''a'' [], sample_file ''b'' []]"
proof -
  have "distinct (map nd_name [sample_file ''a'' [], sample_file ''b'' []])"
    "\<forall>n\<in>set [sample_file ''a'' [], sample_file ''b'' []]. \<not> bad_name (nd_name n) \<and> (nd_type n = NDir \<longrightarrow> nd_subtree n \<noteq> None) \<and>
      (nd_type n = NSymlink \<longrightarrow> nd_link n \<noteq> None)"
    by (simp_all add: sample_file_def bad_name_def)
  from tree_encoding_canonical [OF sample_codecs_ok this(1) _ this(2), of "[sample_file ''b'' [], sample_file ''a'' []]"] show ?thesis
    by (simp add: add_mset_commute)
qed

text \<open>
  C35: The binary search by name finds exactly the child of that name, in every tree that decodes.
\<close>

theorem tree_lookup_exact:
  assumes "tree_decode C data = Inr t"
  shows "tree_find t name = find (\<lambda>n. nd_name n = name) t"
proof -
  have s: "sorted_wrt (<) (map nd_name t)" using assms by (simp add: tree_decode_ok tree_ok_def)
  then have inj: "m = n" if "m \<in> set t" "n \<in> set t" "nd_name m = nd_name n" for m n
    using that by (auto simp: strict_sorted_iff distinct_map inj_on_def)
  show ?thesis
  proof (cases "find (\<lambda>n. nd_name n = name) t")
    case None
    then have "\<forall>n. tree_find t name \<noteq> Some n" using tree_find_iff [OF s] by (simp add: find_none)
    with None show ?thesis by (cases "tree_find t name") simp_all
  next
    case (Some n)
    then show ?thesis using find_some [OF Some] tree_find_iff [OF s, of name n] by simp
  qed
qed

theorem tree_lookup_exact_witness:
  "tree_find [sample_file ''a'' []] ''a'' = Some (sample_file ''a'' [])"
proof -
  have "tree_decode sample_codecs (enc_list enc_node [sample_file ''a'' []]) = Inr [sample_file ''a'' []]"
    by (simp add: tree_decode_def sample_codecs_def whole_codec codec_list codec_node bad_name_def) (simp add: sample_file_def)
  from tree_lookup_exact [OF this, of "''a''"] show ?thesis by (simp add: sample_file_def)
qed

end
