(* ===== verification/Repository.thy ===== *)
theory Repository
  imports Snapshots
begin

text \<open>
  The backup repository (\<open>backup-core/src/repo.rs\<close>): configuration, index and pack writer tied together,
  and the chunker's configuration (\<open>chunker.rs\<close>). The state of a run is the repository handle together
  with the world; the mutex-protected \<open>WriteState\<close> is a field of the handle. The critical sections are
  definitions of their own (\<open>save_check\<close>, \<open>place_blob\<close>, \<open>uploaded_pack\<close>), so that tasks can be interleaved
  between them; \<open>save_blob\<close> runs them one after the other.
\<close>

section \<open>The chunker's configuration\<close>

text \<open>The limits are constants of the fastcdc crate.\<close>

record cdc_limits =
  cl_min_min :: nat
  cl_min_max :: nat
  cl_avg_min :: nat
  cl_avg_max :: nat
  cl_max_min :: nat
  cl_max_max :: nat

fun is_power_of_two :: "nat \<Rightarrow> bool" where
  "is_power_of_two n = (if n \<le> 1 then n = 1 else even n \<and> is_power_of_two (n div 2))"

declare is_power_of_two.simps [simp del]

definition check_chunker :: "bool \<Rightarrow> string \<Rightarrow> unit bresult" where
  "check_chunker ok msg = (if ok then Inr () else Inl (BChunkerConfig msg))"

definition chunker_validate :: "cdc_limits \<Rightarrow> chunker_config \<Rightarrow> unit bresult" where
  "chunker_validate L c =
     res_bind (check_chunker (cl_min_min L \<le> cc_min c \<and> cc_min c \<le> cl_min_max L) ''min_size'') (\<lambda>_.
     res_bind (check_chunker (cl_avg_min L \<le> cc_avg c \<and> cc_avg c \<le> cl_avg_max L) ''avg_size'') (\<lambda>_.
     res_bind (check_chunker (cl_max_min L \<le> cc_max c \<and> cc_max c \<le> cl_max_max L) ''max_size'') (\<lambda>_.
     res_bind (check_chunker (is_power_of_two (cc_avg c)) ''avg_size is not a power of two'') (\<lambda>_.
     res_bind (check_chunker (cc_min c mod 2 = 0 \<and> cc_max c mod 2 = 0) ''min_size and max_size must be even'') (\<lambda>_.
     check_chunker (cc_min c < cc_avg c \<and> cc_avg c < cc_max c) ''want min < avg < max'')))))"

definition DEFAULT_CHUNKER :: chunker_config where
  "DEFAULT_CHUNKER = \<lparr>cc_min = 256 * 1024, cc_avg = 1024 * 1024, cc_max = 4 * 1024 * 1024\<rparr>"

section \<open>The repository\<close>

definition CONFIG_VERSION :: u32 where "CONFIG_VERSION = 1"
definition CONFIG_NAME :: string where "CONFIG_NAME = ''config''"
definition CONFIG_AAD :: string where "CONFIG_AAD = ''rfm-backup:v1:config''"

definition repo_base :: "string \<Rightarrow> string" where
  "repo_base pre = pre @ ''backup/''"

record init_options =
  io_chunker :: chunker_config
  io_compression :: compression_kind

definition default_options :: init_options where
  "default_options = \<lparr>io_chunker = DEFAULT_CHUNKER, io_compression = CZstd\<rparr>"

record write_state =
  ws_writer :: "pack_writer option"
  ws_inflight :: "bid fset"
  ws_new_packs :: "pack_entries list"
  ws_failed :: "string option"

definition write_state_default :: write_state where
  "write_state_default = \<lparr>ws_writer = None, ws_inflight = {||}, ws_new_packs = [], ws_failed = None\<rparr>"

record repository =
  rp_base :: string
  rp_keys :: keys
  rp_config :: repo_config
  rp_index :: index
  rp_pack_target :: nat
  rp_state :: write_state
  rp_uploaded_packs :: u64
  rp_uploaded_bytes :: u64

definition repo_new :: "string \<Rightarrow> keys \<Rightarrow> repo_config \<Rightarrow> index \<Rightarrow> repository" where
  "repo_new base ks config ix = \<lparr>rp_base = base, rp_keys = ks, rp_config = config, rp_index = ix, rp_pack_target = TARGET_SIZE,
     rp_state = write_state_default, rp_uploaded_packs = 0, rp_uploaded_bytes = 0\<rparr>"

definition set_pack_target :: "nat \<Rightarrow> repository \<Rightarrow> repository" where
  "set_pack_target n r = r\<lparr>rp_pack_target := n\<rparr>"

text \<open>
  \<open>cache\<close> is what \<open>open_cache\<close> yields: nothing without a cache directory or when it can't be created, or
  else what the directory holds.
\<close>

definition repo_init :: "benv \<Rightarrow> codecs \<Rightarrow> cdc_limits \<Rightarrow> string \<Rightarrow> keys \<Rightarrow> init_options \<Rightarrow> (bid \<Rightarrow> cache option) \<Rightarrow> repository bact" where
  "repo_init B C L pre ks options opened =
     (let base = repo_base pre; config_key = base @ CONFIG_NAME in
      act_bind (from_bstore (mem_head config_key)) (\<lambda>head.
      if head \<noteq> None then act_err (BAlreadyInitialized base)
      else act_bind (act_res (chunker_validate L (io_chunker options))) (\<lambda>_.
           act_bind (random_id B) (\<lambda>i.
           act_bind (act_get bw_now) (\<lambda>now.
           let config = \<lparr>rc_version = CONFIG_VERSION, rc_id = i, rc_created = int now, rc_chunker = io_chunker options,
                 rc_compression = io_compression options\<rparr> in
           act_bind (bseal B ks KMeta (cd_config C config) CONFIG_AAD) (\<lambda>sealed.
           act_bind (bput config_key sealed) (\<lambda>_.
           act_bind (act_mod (\<lambda>w. w\<lparr>bw_cache := opened i\<rparr>)) (\<lambda>_.
           act_ok (repo_new base ks config index_new)))))))))"

definition open_config :: "benv \<Rightarrow> codecs \<Rightarrow> cdc_limits \<Rightarrow> keys \<Rightarrow> bytes \<Rightarrow> repo_config bresult" where
  "open_config B C L ks sealed =
     res_bind (unseal B ks KMeta sealed CONFIG_AAD ''backup repository config'') (\<lambda>plaintext.
     res_bind (res_of (BFormat ''backup repository config'') (cd_config_parse C plaintext)) (\<lambda>config.
     if rc_version config \<noteq> CONFIG_VERSION then Inl (BFormat ''backup repository format version'')
     else res_bind (chunker_validate L (rc_chunker config)) (\<lambda>_. Inr config)))"

definition repo_open :: "benv \<Rightarrow> codecs \<Rightarrow> cdc_limits \<Rightarrow> string \<Rightarrow> keys \<Rightarrow> (bid \<Rightarrow> cache option) \<Rightarrow> repository bact" where
  "repo_open B C L pre ks opened =
     (let base = repo_base pre; config_key = base @ CONFIG_NAME in
      act_bind (from_bstore (mem_head config_key)) (\<lambda>head.
      if head = None then act_err (BNotInitialized base)
      else act_bind (from_bstore (mem_get config_key)) (\<lambda>sealed.
           act_bind (act_res (open_config B C L ks sealed)) (\<lambda>config.
           act_bind (act_mod (\<lambda>w. w\<lparr>bw_cache := opened (rc_id config)\<rparr>)) (\<lambda>_.
           act_bind (index_load B base ks) (\<lambda>ix. act_ok (repo_new base ks config ix)))))))"

definition repo_open_or_init :: "benv \<Rightarrow> codecs \<Rightarrow> cdc_limits \<Rightarrow> string \<Rightarrow> keys \<Rightarrow> init_options \<Rightarrow> (bid \<Rightarrow> cache option) \<Rightarrow> repository bact" where
  "repo_open_or_init B C L pre ks options opened =
     act_bind (from_bstore (mem_head (repo_base pre @ CONFIG_NAME))) (\<lambda>head.
     if head \<noteq> None then repo_open B C L pre ks opened else repo_init B C L pre ks options opened)"

section \<open>Operations on the handle\<close>

record rworld =
  rw_repo :: repository
  rw_world :: bworld

type_synonym 'a ract = "(rworld, berror, 'a) action"

definition in_world :: "'a bact \<Rightarrow> 'a ract" where
  "in_world m = (\<lambda>v. case m (rw_world v) of (r, w) \<Rightarrow> (r, v\<lparr>rw_world := w\<rparr>))"

definition on_state :: "(write_state \<Rightarrow> write_state) \<Rightarrow> repository \<Rightarrow> repository" where
  "on_state f r = r\<lparr>rp_state := f (rp_state r)\<rparr>"

definition rmod :: "(repository \<Rightarrow> repository) \<Rightarrow> unit ract" where
  "rmod f = act_mod (\<lambda>v. v\<lparr>rw_repo := f (rw_repo v)\<rparr>)"

definition rget :: "(repository \<Rightarrow> 'a ract) \<Rightarrow> 'a ract" where
  "rget f = (\<lambda>v. f (rw_repo v) v)"

definition repo_key :: "repository \<Rightarrow> string \<Rightarrow> string" where
  "repo_key r name = rp_base r @ name"

definition is_pending :: "write_state \<Rightarrow> bid \<Rightarrow> bool" where
  "is_pending st i \<longleftrightarrow> (case ws_writer st of None \<Rightarrow> False | Some wr \<Rightarrow> i |\<in>| pw_seen wr) \<or> i |\<in>| ws_inflight st"

definition set_failed :: "string \<Rightarrow> write_state \<Rightarrow> write_state" where
  "set_failed message st = (if ws_failed st = None then st\<lparr>ws_failed := Some message\<rparr> else st)"

definition ensure_writable :: "unit ract" where
  "ensure_writable = rget (\<lambda>r. case ws_failed (rp_state r) of Some f \<Rightarrow> act_err (BRunFailed f) | None \<Rightarrow> act_ok ())"

text \<open>\<open>finish\<close> consumes the writer; the blobs of the finished pack are in flight.\<close>

definition take_finish :: "benv \<Rightarrow> pack_writer \<Rightarrow> pack ract" where
  "take_finish B wr =
     act_bind (rmod (on_state (\<lambda>st. st\<lparr>ws_writer := None\<rparr>))) (\<lambda>_.
     rget (\<lambda>r. act_bind (in_world (writer_finish B (rp_keys r) wr)) (\<lambda>pk.
     act_bind (rmod (on_state (\<lambda>st. st\<lparr>ws_inflight := ws_inflight st |\<union>| fset_of_list (map pe_id (pk_entries pk))\<rparr>))) (\<lambda>_.
     act_ok pk))))"

text \<open>The first critical section: \<open>True\<close> when the blob needs no storing.\<close>

definition save_check :: "bid \<Rightarrow> bool ract" where
  "save_check i = rget (\<lambda>r.
     if index_has i (rp_index r) then act_ok True
     else case ws_failed (rp_state r) of Some f \<Rightarrow> act_err (BRunFailed f)
          | None \<Rightarrow> act_ok (is_pending (rp_state r) i))"

text \<open>
  The second: nothing when the blob was stored meanwhile, or whether it was added and the pack that it
  filled. The writer is put in place before the push, so a failed push leaves it there.
\<close>

definition current_writer :: "benv \<Rightarrow> pack_writer ract" where
  "current_writer B = rget (\<lambda>r. case ws_writer (rp_state r) of
      Some wr \<Rightarrow> act_ok wr
    | None \<Rightarrow> act_bind (in_world (writer_new B (rc_compression (rp_config r)))) (\<lambda>wr.
        act_bind (rmod (on_state (\<lambda>st. st\<lparr>ws_writer := Some wr\<rparr>))) (\<lambda>_. act_ok wr)))"

definition place_blob :: "benv \<Rightarrow> bid \<Rightarrow> sealed_blob \<Rightarrow> (bool \<times> pack option) option ract" where
  "place_blob B i sealed = rget (\<lambda>r.
     case ws_failed (rp_state r) of Some f \<Rightarrow> act_err (BRunFailed f)
     | None \<Rightarrow>
       if index_has i (rp_index r) \<or> is_pending (rp_state r) i then act_ok None
       else act_bind (current_writer B) (\<lambda>wr.
            act_bind (act_res (writer_push sealed wr)) (\<lambda>(added, wr').
            act_bind (rmod (on_state (\<lambda>st. st\<lparr>ws_writer := Some wr'\<rparr>))) (\<lambda>_.
            if rp_pack_target r \<le> length (pw_buf wr')
            then act_bind (take_finish B wr') (\<lambda>pk. act_ok (Some (added, Some pk)))
            else act_ok (Some (added, None))))))"

text \<open>What an upload does once the bytes are stored.\<close>

definition uploaded_pack :: "pack \<Rightarrow> repository \<Rightarrow> repository" where
  "uploaded_pack pk r = on_state (\<lambda>st. st
       \<lparr>ws_inflight := ws_inflight st |-| fset_of_list (map pe_id (pk_entries pk)),
        ws_new_packs := ws_new_packs st @ [\<lparr>pn_pack = pk_id pk, pn_entries = pk_entries pk\<rparr>]\<rparr>)
     (r\<lparr>rp_uploaded_packs := rp_uploaded_packs r + 1,
        rp_uploaded_bytes := rp_uploaded_bytes r + of_nat (length (pk_data pk)),
        rp_index := add_pack (pk_id pk) (pk_entries pk) (rp_index r)\<rparr>)"

definition upload_pack :: "pack \<Rightarrow> unit ract" where
  "upload_pack pk = rget (\<lambda>r.
     act_bind (act_try (in_world (bput (repo_key r (pack_name (pk_id pk))) (pk_data pk)))) (\<lambda>res. case res of
        Inl e \<Rightarrow> (let message = ''uploading pack '' @ id_short (pk_id pk)
                  in act_bind (rmod (on_state (set_failed message))) (\<lambda>_. act_err (BRunFailed message)))
      | Inr _ \<Rightarrow> rmod (uploaded_pack pk)))"

definition save_blob :: "benv \<Rightarrow> blob_type \<Rightarrow> bytes \<Rightarrow> (bid \<times> bool) ract" where
  "save_blob B t plaintext = rget (\<lambda>r.
     let i = blob_id B (rp_keys r) plaintext in
     act_bind (save_check i) (\<lambda>known.
     if known then act_ok (i, False)
     else act_bind (in_world (seal_blob B (rp_keys r) (rc_compression (rp_config r)) t i plaintext)) (\<lambda>sealed.
          act_bind (place_blob B i sealed) (\<lambda>placed. case placed of
             None \<Rightarrow> act_ok (i, False)
           | Some (added, full) \<Rightarrow>
               act_bind (case full of None \<Rightarrow> act_ok () | Some pk \<Rightarrow> upload_pack pk) (\<lambda>_. act_ok (i, added))))))"

text \<open>\<open>flush\<close>: finish the open pack, upload it, write one index object for the packs of the run.\<close>

definition flush_open :: "benv \<Rightarrow> pack option ract" where
  "flush_open B = rget (\<lambda>r. case ws_writer (rp_state r) of
      None \<Rightarrow> act_ok None
    | Some wr \<Rightarrow>
        if pw_entries wr = []
        then act_bind (rmod (on_state (\<lambda>st. st\<lparr>ws_writer := None\<rparr>))) (\<lambda>_. act_ok None)
        else act_bind (act_try (take_finish B wr)) (\<lambda>res. case res of
               Inr pk \<Rightarrow> act_ok (Some pk)
             | Inl e \<Rightarrow> act_bind (rmod (on_state (set_failed ''finishing pack''))) (\<lambda>_. act_err (BRunFailed ''finishing pack''))))"

definition flush_index :: "benv \<Rightarrow> unit ract" where
  "flush_index B = rget (\<lambda>r. let packs = ws_new_packs (rp_state r) in
     if ws_inflight (rp_state r) \<noteq> {||} then act_err (BInvalid ''flush called while blobs are still being saved'')
     else act_bind (rmod (on_state (\<lambda>st. st\<lparr>ws_new_packs := []\<rparr>))) (\<lambda>_.
          if packs = [] then act_ok ()
          else act_bind (act_try (in_world (index_save B (rp_base r) (rp_keys r) packs))) (\<lambda>res. case res of
                 Inr _ \<Rightarrow> act_ok ()
               | Inl e \<Rightarrow> act_bind (rmod (on_state (set_failed ''writing index''))) (\<lambda>_. act_err (BRunFailed ''writing index'')))))"

definition repo_flush :: "benv \<Rightarrow> unit ract" where
  "repo_flush B = act_bind ensure_writable (\<lambda>_. act_bind (flush_open B) (\<lambda>finished.
     act_bind (case finished of None \<Rightarrow> act_ok () | Some pk \<Rightarrow> upload_pack pk) (\<lambda>_. flush_index B)))"

text \<open>
  The headers come back in the order in which the reads finish: \<open>arrange\<close> is that order. A pack that
  can't be read is skipped.
\<close>

type_synonym headers = "(bid \<times> (berror + pack_entry list)) list"

definition adopt_pack :: "bid \<Rightarrow> pack_entry list \<Rightarrow> repository \<Rightarrow> repository" where
  "adopt_pack i es r = on_state (\<lambda>st. st\<lparr>ws_new_packs := ws_new_packs st @ [\<lparr>pn_pack = i, pn_entries = es\<rparr>]\<rparr>)
     (r\<lparr>rp_index := add_pack i es (rp_index r)\<rparr>)"

fun adopt_headers :: "headers \<Rightarrow> nat \<Rightarrow> repository \<Rightarrow> nat \<times> repository" where
  "adopt_headers [] n r = (n, r)"
| "adopt_headers ((i, Inr es) # hs) n r = adopt_headers hs (n + 1) (adopt_pack i es r)"
| "adopt_headers ((i, Inl e) # hs) n r = adopt_headers hs n r"

definition adopt_orphans :: "benv \<Rightarrow> (headers \<Rightarrow> headers) \<Rightarrow> nat ract" where
  "adopt_orphans B arrange = rget (\<lambda>r.
     let indexed = index_pack_ids (rp_index r) in
     act_bind (in_world (list_ids (rp_base r) PACK_DIR)) (\<lambda>listed.
     act_bind (in_world (act_map (\<lambda>(i, sz). act_bind
         (act_try (load_header_sized B (rp_keys r) (repo_key r (pack_name i)) i sz)) (\<lambda>header. act_ok (i, header)))
         (filter (\<lambda>(i, _). i \<notin> set indexed) listed))) (\<lambda>headers.
     case adopt_headers (arrange headers) 0 r of (n, r') \<Rightarrow> act_bind (rmod (\<lambda>_. r')) (\<lambda>_. act_ok n))))"

definition load_blob :: "benv \<Rightarrow> bid \<Rightarrow> bytes ract" where
  "load_blob B i = rget (\<lambda>r. case index_lookup i (rp_index r) of
      None \<Rightarrow> act_err (BUnknownBlob (id_short i))
    | Some l \<Rightarrow> in_world (load_pack_blob B (rp_keys r) (repo_key r (pack_name (lo_pack l))) (lo_entry l)))"

definition save_tree :: "benv \<Rightarrow> codecs \<Rightarrow> tree \<Rightarrow> bid ract" where
  "save_tree B C t = (let plaintext = tree_encode C t in
     act_bind (save_blob B BTree plaintext) (\<lambda>(i, _).
     act_bind (in_world (cache_put CTree i plaintext)) (\<lambda>_. act_ok i)))"

definition fetch_tree :: "benv \<Rightarrow> codecs \<Rightarrow> bid \<Rightarrow> tree ract" where
  "fetch_tree B C i =
     act_bind (load_blob B i) (\<lambda>plaintext.
     act_bind (act_res (tree_decode C plaintext)) (\<lambda>t.
     act_bind (in_world (cache_put CTree i plaintext)) (\<lambda>_. act_ok t)))"

definition load_tree :: "benv \<Rightarrow> codecs \<Rightarrow> bid \<Rightarrow> tree ract" where
  "load_tree B C i = (\<lambda>v. case cache_get CTree i (rw_world v) of
      None \<Rightarrow> fetch_tree B C i v
    | Some plaintext \<Rightarrow>
        if verify_blob_id B (rp_keys (rw_repo v)) i plaintext then (tree_decode C plaintext, v)
        else act_bind (in_world (cache_remove CTree i)) (\<lambda>_. fetch_tree B C i) v)"

definition save_snapshot :: "benv \<Rightarrow> codecs \<Rightarrow> backup_snapshot \<Rightarrow> backup_snapshot ract" where
  "save_snapshot B C s = act_bind ensure_writable (\<lambda>_. rget (\<lambda>r.
     let st = rp_state r in
     if (case ws_writer st of None \<Rightarrow> False | Some wr \<Rightarrow> pw_entries wr \<noteq> []) \<or> ws_inflight st \<noteq> {||} \<or> ws_new_packs st \<noteq> []
     then act_err (BInvalid ''save_snapshot called before flush'')
     else in_world (snapshot_save B C (rp_base r) (rp_keys r) s)))"

definition load_snapshot :: "benv \<Rightarrow> codecs \<Rightarrow> bid \<Rightarrow> backup_snapshot ract" where
  "load_snapshot B C i = rget (\<lambda>r. in_world (snapshot_load B C (rp_base r) (rp_keys r) i))"

definition list_snapshots :: "benv \<Rightarrow> codecs \<Rightarrow> backup_snapshot list ract" where
  "list_snapshots B C = rget (\<lambda>r. in_world (snapshot_list B C (rp_base r) (rp_keys r)))"

definition find_snapshot :: "benv \<Rightarrow> codecs \<Rightarrow> string \<Rightarrow> backup_snapshot ract" where
  "find_snapshot B C reference = act_bind (list_snapshots B C) (\<lambda>ss. act_res (snapshot_find ss reference))"

section \<open>Names\<close>

lemma pack_index_names [simp]: "pack_name i \<noteq> index_name j" "index_name j \<noteq> pack_name i"
  by (simp_all add: pack_name_def index_name_def INDEX_DIR_def)

lemma pack_snapshot_names [simp]: "pack_name i \<noteq> snapshot_name j" "snapshot_name j \<noteq> pack_name i"
  by (simp_all add: pack_name_def snapshot_name_def SNAPSHOT_DIR_def)

lemma index_snapshot_names [simp]: "index_name i \<noteq> snapshot_name j" "snapshot_name j \<noteq> index_name i"
  by (simp_all add: index_name_def snapshot_name_def SNAPSHOT_DIR_def INDEX_DIR_def)

lemma pack_not_under [simp]: "\<not> prefix INDEX_DIR (pack_name i)" "\<not> prefix SNAPSHOT_DIR (pack_name i)"
  by (simp_all add: pack_name_def INDEX_DIR_def SNAPSHOT_DIR_def)

lemma index_not_under [simp]: "\<not> prefix PACK_DIR (index_name i)" "\<not> prefix SNAPSHOT_DIR (index_name i)"
  by (simp_all add: index_name_def PACK_DIR_def INDEX_DIR_def SNAPSHOT_DIR_def)

lemma snapshot_not_under [simp]: "\<not> prefix PACK_DIR (snapshot_name i)" "\<not> prefix INDEX_DIR (snapshot_name i)"
  by (simp_all add: snapshot_name_def PACK_DIR_def SNAPSHOT_DIR_def INDEX_DIR_def)

lemma names_inj [simp]:
  "index_name i = index_name j \<longleftrightarrow> i = j" "snapshot_name i = snapshot_name j \<longleftrightarrow> i = j" "pack_name i = pack_name j \<longleftrightarrow> i = j"
proof -
  have "i = j" if "pack_name i = pack_name j"
    using pack_name_segment [of "[]" i] pack_name_segment [of "[]" j] that hex_inj by metis
  then show "pack_name i = pack_name j \<longleftrightarrow> i = j" by blast
qed (simp_all add: index_name_def snapshot_name_def hex_inj)

section \<open>The store of a repository\<close>

abbreviation put_world :: "bworld \<Rightarrow> string \<Rightarrow> bytes \<Rightarrow> bworld" where
  "put_world w k s \<equiv> w\<lparr>bw_store := mem_insert (bw_now w) k s (bw_store w)\<rparr>"

definition in_packs :: "bid \<Rightarrow> pack_entries list \<Rightarrow> bool" where
  "in_packs i ps \<longleftrightarrow> (\<exists>p\<in>set ps. \<exists>e\<in>set (pn_entries p). pe_id e = i)"

text \<open>The blob is listed by an index object of the bucket.\<close>

definition listed :: "benv \<Rightarrow> string \<Rightarrow> keys \<Rightarrow> bworld \<Rightarrow> bid \<Rightarrow> bool" where
  "listed B base ks w i \<longleftrightarrow> (\<exists>j ps. length j = ID_SIZE \<and> index_stored B base ks w j ps \<and> in_packs i ps)"

text \<open>Identifiers are random: those still to be drawn, up to the \<open>N\<close>th, are new and distinct.\<close>

definition random_fresh :: "benv \<Rightarrow> string \<Rightarrow> nat \<Rightarrow> bworld \<Rightarrow> bool" where
  "random_fresh B base N w \<longleftrightarrow> inj_on (b_random_id B) {bw_random w..<N} \<and> (\<forall>n\<in>{bw_random w..<N}. let i = b_random_id B n in
     stored w (base @ pack_name i) = None \<and> stored w (base @ index_name i) = None \<and> stored w (base @ snapshot_name i) = None \<and>
     (\<forall>kind. cache_get kind i w = None))"

definition indexes_open :: "benv \<Rightarrow> string \<Rightarrow> keys \<Rightarrow> bworld \<Rightarrow> bool" where
  "indexes_open B base ks w \<longleftrightarrow> (\<forall>i. length i = ID_SIZE \<and> stored w (base @ index_name i) \<noteq> None \<longrightarrow> (\<exists>ps. index_stored B base ks w i ps))"

definition names_ok :: "string \<Rightarrow> bworld \<Rightarrow> bool" where
  "names_ok base w \<longleftrightarrow> named base PACK_DIR pack_name w \<and> named base INDEX_DIR index_name w \<and> named base SNAPSHOT_DIR snapshot_name w"

definition store_inv :: "benv \<Rightarrow> codecs \<Rightarrow> string \<Rightarrow> keys \<Rightarrow> nat \<Rightarrow> bworld \<Rightarrow> bool" where
  "store_inv B C base ks N w \<longleftrightarrow> names_ok base w \<and> indexes_sound B base ks w \<and> indexes_open B base ks w \<and>
     index_genuine B base ks w \<and> snapshot_genuine B C base ks w \<and> random_fresh B base N w"

lemma named_put:
  assumes "named base dir name w" and "\<And>i. prefix (base @ dir) k \<Longrightarrow> id_parse (last_segment k) = Inr i \<Longrightarrow> k = base @ name i"
  shows "named base dir name (put_world w k s)"
  using assms unfolding named_def by auto

lemma names_ok_put_pack:
  assumes "names_ok base w" shows "names_ok base (put_world w (base @ pack_name i) s)"
proof -
  have "id_parse (last_segment (base @ pack_name i)) = Inr j \<Longrightarrow> j = i" for j by (simp add: pack_name_segment id_parse_iff hex_inj)
  then show ?thesis using assms by (auto simp: names_ok_def intro!: named_put)
qed

lemma names_ok_put_index:
  assumes "names_ok base w" shows "names_ok base (put_world w (base @ index_name i) s)"
proof -
  have "id_parse (last_segment (base @ index_name i)) = Inr j \<Longrightarrow> j = i" for j by (simp add: index_name_segment id_parse_iff hex_inj)
  then show ?thesis using assms by (auto simp: names_ok_def intro!: named_put)
qed

lemma names_ok_put_snapshot:
  assumes "names_ok base w" shows "names_ok base (put_world w (base @ snapshot_name i) s)"
proof -
  have "id_parse (last_segment (base @ snapshot_name i)) = Inr j \<Longrightarrow> j = i" for j by (simp add: snapshot_name_segment id_parse_iff hex_inj)
  then show ?thesis using assms by (auto simp: names_ok_def intro!: named_put)
qed

lemma names_ok_cong: "(\<And>k. stored w' k = stored w k) \<Longrightarrow> names_ok base w' = names_ok base w"
  by (simp add: names_ok_def named_def)

lemma pack_stored_put: "pack_stored B base ks w i es \<Longrightarrow> stored w k = None \<Longrightarrow> pack_stored B base ks (put_world w k s) i es"
  by (force simp: pack_stored_def)

lemma index_stored_put: "k \<noteq> base @ index_name i \<Longrightarrow> index_stored B base ks (put_world w k s) i ps = index_stored B base ks w i ps"
  by (simp add: index_stored_def)

lemma listed_put: "listed B base ks w i \<Longrightarrow> stored w k = None \<Longrightarrow> listed B base ks (put_world w k s) i"
  by (force simp: listed_def index_stored_def)

text \<open>Everything that concerns the bucket alone depends on what is stored and cached.\<close>

lemma pack_stored_cong: "(\<And>k. stored w' k = stored w k) \<Longrightarrow> pack_stored B base ks w' i es = pack_stored B base ks w i es"
  by (simp add: pack_stored_def)

lemma index_stored_cong: "(\<And>k. stored w' k = stored w k) \<Longrightarrow> index_stored B base ks w' i ps = index_stored B base ks w i ps"
  by (simp add: index_stored_def)

lemma listed_cong: "(\<And>k. stored w' k = stored w k) \<Longrightarrow> listed B base ks w' i = listed B base ks w i"
  by (simp add: listed_def index_stored_def)

lemma random_fresh_mono: "random_fresh B base N w \<Longrightarrow> bw_random w \<le> n \<Longrightarrow> random_fresh B base N (w\<lparr>bw_random := n\<rparr>)"
  unfolding random_fresh_def Let_def by (auto intro: inj_on_subset)

lemma genuine_cong:
  assumes "\<And>i. stored w' (key i) = stored w (key i)" and "\<And>i. cache_get kind i w' = cache_get kind i w"
  shows "genuine kind opens key w' = genuine kind opens key w"
  unfolding genuine_def assms ..

lemma store_inv_random:
  assumes I: "store_inv B C base ks N w" and n: "bw_random w \<le> n"
  shows "store_inv B C base ks N (w\<lparr>bw_random := n\<rparr>)"
proof -
  let ?w = "w\<lparr>bw_random := n\<rparr>"
  have st: "stored ?w k = stored w k" for k by simp
  have "indexes_sound B base ks ?w = indexes_sound B base ks w" "indexes_open B base ks ?w = indexes_open B base ks w"
    by (simp_all only: indexes_sound_def indexes_open_def index_stored_cong [OF st] pack_stored_cong [OF st] st)
  moreover have "index_genuine B base ks ?w = index_genuine B base ks w" "snapshot_genuine B C base ks ?w = snapshot_genuine B C base ks w"
    by (rule genuine_cong, simp_all)+
  moreover have "names_ok base ?w = names_ok base w" by (rule names_ok_cong) simp
  moreover have "random_fresh B base N ?w" using I random_fresh_mono [OF _ n] by (simp add: store_inv_def)
  ultimately show ?thesis using I unfolding store_inv_def by blast
qed

lemma store_inv_put_pack:
  assumes I: "store_inv B C base ks N w" and f: "stored w (base @ pack_name i) = None" and n: "i \<notin> b_random_id B ` {bw_random w..<N}"
  shows "store_inv B C base ks N (put_world w (base @ pack_name i) s)"
proof -
  let ?w = "put_world w (base @ pack_name i) s"
  have "indexes_sound B base ks ?w" using I f
    by (auto simp: store_inv_def indexes_sound_def index_stored_put intro: pack_stored_put)
  moreover have "random_fresh B base N ?w" using I n by (auto simp: store_inv_def random_fresh_def Let_def)
  moreover have "indexes_open B base ks ?w" using I by (simp add: store_inv_def indexes_open_def index_stored_put)
  moreover have "index_genuine B base ks ?w = index_genuine B base ks w" "snapshot_genuine B C base ks ?w = snapshot_genuine B C base ks w"
    by (rule genuine_cong, simp_all)+
  moreover have "names_ok base ?w" using I names_ok_put_pack by (simp add: store_inv_def)
  ultimately show ?thesis using I unfolding store_inv_def by blast
qed

text \<open>A new sealed object, put and cached under a fresh identifier.\<close>

abbreviation new_object :: "bworld \<Rightarrow> cache_kind \<Rightarrow> bid \<Rightarrow> string \<Rightarrow> bytes \<Rightarrow> nat \<Rightarrow> bworld" where
  "new_object w kind i k c n \<equiv> w\<lparr>bw_store := mem_insert (bw_now w) k c (bw_store w), bw_random := n,
     bw_cache := map_option (fmupd (kind, i) c) (bw_cache w)\<rparr>"

lemma new_object_stored [simp]: "stored (new_object w kind i k c n) k' = (if k' = k then Some c else stored w k')"
  by (auto simp: stored_def mem_insert_def)

lemma random_store_swap: "w\<lparr>bw_random := n, bw_store := st\<rparr> = w\<lparr>bw_store := st, bw_random := n\<rparr>"
  by (cases w) simp

lemma new_object_cached: "cache_get kind' j (new_object w kind i k c n) =
    (if kind' = kind \<and> j = i then map_option (\<lambda>_. c) (bw_cache w) else cache_get kind' j w)"
  by (cases "bw_cache w") (auto simp: cache_get_def)

lemma genuine_new_object:
  assumes g: "genuine kind opens (\<lambda>i. base @ name i) w" and o: "opens i c = Inr x" and inj: "\<And>a b. name a = name b \<longleftrightarrow> a = b"
  shows "genuine kind opens (\<lambda>i. base @ name i) (new_object w kind i (base @ name i) c n)"
  unfolding genuine_def
proof (intro allI impI, elim conjE)
  fix j d s y
  assume c: "cache_get kind j (new_object w kind i (base @ name i) c n) = Some d" and y: "opens j d = Inr y"
    and s: "stored (new_object w kind i (base @ name i) c n) (base @ name j) = Some s"
  show "opens j s = Inr y"
  proof (cases "j = i")
    case True
    then have "d = c" "s = c" using c s unfolding new_object_cached by auto
    then show ?thesis using o y True by simp
  next
    case False
    then have "cache_get kind j w = Some d" "stored w (base @ name j) = Some s" using c s inj unfolding new_object_cached by auto
    from genuineD [OF g this(1) y this(2)] show ?thesis .
  qed
qed

lemma genuine_new_other:
  assumes "genuine kind opens key w" and "kind \<noteq> kind'" and "\<And>j. key j \<noteq> k"
  shows "genuine kind opens key (new_object w kind' i k c n)"
proof -
  have "genuine kind opens key (new_object w kind' i k c n) = genuine kind opens key w"
    by (rule genuine_cong) (use assms(2,3) in \<open>auto simp: new_object_cached\<close>)
  with assms(1) show ?thesis by simp
qed

definition fresh_id :: "benv \<Rightarrow> nat \<Rightarrow> nat \<Rightarrow> bworld \<Rightarrow> bid \<Rightarrow> bool" where
  "fresh_id B N n w i \<longleftrightarrow> i \<in> b_random_id B ` {bw_random w..<N} \<and> bw_random w \<le> n \<and> i \<notin> b_random_id B ` {n..<N}"

lemma random_fresh_new:
  assumes r: "random_fresh B base N w" and f: "fresh_id B N n w i" and k: "k = base @ index_name i \<or> k = base @ snapshot_name i"
  shows "random_fresh B base N (new_object w kind i k c n)"
proof -
  have sub: "{n..<N} \<subseteq> {bw_random w..<N}" using f by (auto simp: fresh_id_def)
  have "b_random_id B m \<noteq> i" if "m \<in> {n..<N}" for m
    using f imageI [OF that, of "b_random_id B"] by (auto simp: fresh_id_def simp del: atLeastLessThan_iff)
  moreover have "inj_on (b_random_id B) {n..<N}" using r sub by (auto simp: random_fresh_def intro: inj_on_subset)
  ultimately show ?thesis using r sub k unfolding random_fresh_def Let_def new_object_stored new_object_cached by auto
qed

lemma fresh_id_unused:
  assumes "random_fresh B base N w" and "fresh_id B N n w i"
  shows "stored w (base @ pack_name i) = None" "stored w (base @ index_name i) = None" "stored w (base @ snapshot_name i) = None"
  using assms by (auto simp: random_fresh_def fresh_id_def Let_def)

lemma fresh_id_draw: "random_fresh B base N w \<Longrightarrow> bw_random w < N \<Longrightarrow> bw_random w < n \<Longrightarrow> fresh_id B N n w (b_random_id B (bw_random w))"
proof -
  assume r: "random_fresh B base N w" and w: "bw_random w < N" "bw_random w < n"
  have "b_random_id B (bw_random w) \<noteq> b_random_id B m" if "m \<in> {n..<N}" for m
    using inj_onD [of "b_random_id B" "{bw_random w..<N}" "bw_random w" m] r w that by (auto simp: random_fresh_def)
  then have "b_random_id B (bw_random w) \<notin> b_random_id B ` {n..<N}" by blast
  with w show ?thesis by (auto simp: fresh_id_def)
qed

lemma index_stored_new: "k \<noteq> base @ index_name j \<Longrightarrow> index_stored B base ks (new_object w kind i k c n) j ps = index_stored B base ks w j ps"
  by (simp add: index_stored_def)

lemma pack_stored_new: "pack_stored B base ks w i es \<Longrightarrow> stored w k = None \<Longrightarrow> pack_stored B base ks (new_object w kind j k c n) i es"
  by (force simp: pack_stored_def)

lemma store_inv_new_index:
  assumes I: "store_inv B C base ks N w" and f: "fresh_id B N n w i"
    and o: "index_open_object B ks i c = Inr ps" and ps: "\<forall>p\<in>set ps. pack_stored B base ks w (pn_pack p) (pn_entries p)"
  shows "store_inv B C base ks N (new_object w CIndex i (base @ index_name i) c n)" (is "store_inv B C base ks N ?w")
proof -
  have r: "random_fresh B base N w" using I by (simp add: store_inv_def)
  note free = fresh_id_unused [OF r f]
  have new: "index_stored B base ks ?w j qs \<longleftrightarrow> (if j = i then qs = ps else index_stored B base ks w j qs)" for j qs
    using o by (auto simp: index_stored_def)
  have "indexes_sound B base ks ?w"
    unfolding indexes_sound_def
  proof (intro allI impI ballI)
    fix j qs p assume "length j = ID_SIZE \<and> index_stored B base ks ?w j qs" "p \<in> set qs"
    then have "pack_stored B base ks w (pn_pack p) (pn_entries p)"
      using I ps by (auto simp: new store_inv_def indexes_sound_def split: if_splits)
    then show "pack_stored B base ks ?w (pn_pack p) (pn_entries p)" using pack_stored_new free(2) by blast
  qed
  moreover have "indexes_open B base ks ?w" using I by (auto simp: store_inv_def indexes_open_def new)
  moreover have "index_genuine B base ks ?w" using I o by (intro genuine_new_object) (auto simp: store_inv_def)
  moreover have "snapshot_genuine B C base ks ?w" using I by (intro genuine_new_other) (auto simp: store_inv_def)
  moreover have "names_ok base ?w"
    using names_ok_put_index [of base w i c] I names_ok_cong [of ?w "put_world w (base @ index_name i) c" base] by (simp add: store_inv_def)
  moreover have "random_fresh B base N ?w" using random_fresh_new [OF r f] by simp
  ultimately show ?thesis by (simp add: store_inv_def)
qed

lemma store_inv_new_snapshot:
  assumes I: "store_inv B C base ks N w" and f: "fresh_id B N n w i" and o: "snapshot_open_object B C ks i c = Inr s"
  shows "store_inv B C base ks N (new_object w CSnapshot i (base @ snapshot_name i) c n)" (is "store_inv B C base ks N ?w")
proof -
  have r: "random_fresh B base N w" using I by (simp add: store_inv_def)
  note free = fresh_id_unused [OF r f]
  have same: "index_stored B base ks ?w j qs = index_stored B base ks w j qs" for j qs by (simp add: index_stored_def)
  have "indexes_sound B base ks ?w"
    using I pack_stored_new [OF _ free(3)] unfolding store_inv_def indexes_sound_def same by blast
  moreover have "indexes_open B base ks ?w" using I by (simp add: store_inv_def indexes_open_def same)
  moreover have "snapshot_genuine B C base ks ?w" using I o by (intro genuine_new_object) (auto simp: store_inv_def)
  moreover have "index_genuine B base ks ?w" using I by (intro genuine_new_other) (auto simp: store_inv_def)
  moreover have "names_ok base ?w"
    using names_ok_put_snapshot [of base w i c] I names_ok_cong [of ?w "put_world w (base @ snapshot_name i) c" base] by (simp add: store_inv_def)
  moreover have "random_fresh B base N ?w" using random_fresh_new [OF r f] by simp
  ultimately show ?thesis by (simp add: store_inv_def)
qed

section \<open>Saving an index and a snapshot\<close>

lemma index_open_saved:
  assumes "bcrypto_ok B" and "packs_ok ps" and "length ps < 2 ^ 32" and "length n = NONCE_SIZE"
    and "seal B n ks KMeta (index_encode ps) (index_aad i) = Inr c"
  shows "index_open_object B ks i c = Inr ps"
proof -
  have "unseal B ks KMeta c (index_aad i) (''index '' @ id_short i) = Inr (index_encode ps)" using unseal_seal assms by (simp add: bcrypto_ok_def)
  moreover have "index_decode (index_encode ps) = Inr ps" unfolding index_decode_iff using assms by simp
  ultimately show ?thesis by (simp add: index_open_object_def)
qed

lemma random_id_length: "bcrypto_ok B \<Longrightarrow> length (b_random_id B n) = ID_SIZE"
  by (simp add: bcrypto_ok_def brandom_ok_def)

lemma index_save_cases:
  assumes B: "bcrypto_ok B" and I: "store_inv B C base ks N w" and ok: "packs_ok ps" "length ps < 2 ^ 32"
    and ps: "\<forall>p\<in>set ps. pack_stored B base ks w (pn_pack p) (pn_entries p)"
    and s: "index_save B base ks ps w = (r, w')" and N: "bw_random w' \<le> N"
  shows "(\<exists>i c n. r = Inr i \<and> w' = new_object w CIndex i (base @ index_name i) c n \<and> fresh_id B N n w i \<and> length i = ID_SIZE \<and>
        index_open_object B ks i c = Inr ps \<and> store_inv B C base ks N w') \<or>
    (\<exists>e n. r = Inl e \<and> w' = w\<lparr>bw_random := n\<rparr> \<and> bw_random w \<le> n)"
proof (cases "ps = []")
  case True
  with s have "\<exists>e. r = Inl e \<and> w' = w\<lparr>bw_random := bw_random w\<rparr>" by (auto simp: index_save_def)
  then show ?thesis by blast
next
  case False
  let ?i = "b_random_id B (bw_random w)" let ?n = "b_nonce B (Suc (bw_random w))" let ?w1 = "w\<lparr>bw_random := Suc (Suc (bw_random w))\<rparr>"
  show ?thesis
  proof (cases "seal B ?n ks KMeta (index_encode ps) (index_aad ?i)")
    case (Inl e)
    with False s have "r = Inl e" "w' = ?w1" by (simp_all add: index_save_def act_bind_run)
    then show ?thesis by auto
  next
    case (Inr c)
    have nl: "length ?n = NONCE_SIZE" using B by (simp add: bcrypto_ok_def brandom_ok_def)
    note o = index_open_saved [OF B ok nl Inr]
    show ?thesis
    proof (cases "bput (base @ index_name ?i) c ?w1")
      case (Pair q w2)
      show ?thesis
      proof (cases q)
        case (Inl e)
        with False s \<open>seal _ _ _ _ _ _ = Inr c\<close> Pair have "r = Inl e" "w' = w2" by (simp_all add: index_save_def act_bind_run)
        moreover have "w2 = ?w1" using Pair Inl bput_err by blast
        ultimately show ?thesis by auto
      next
        case (Inr u)
        with Pair have w2: "w2 = put_world ?w1 (base @ index_name ?i) c" by (auto simp: bput_ok)
        with False s \<open>seal _ _ _ _ _ _ = Inr c\<close> Pair Inr
        have rw: "r = Inr ?i" "w' = new_object w CIndex ?i (base @ index_name ?i) c (Suc (Suc (bw_random w)))"
          by (auto simp: index_save_def act_bind_run random_store_swap)
        have "fresh_id B N (Suc (Suc (bw_random w))) w ?i" using I N rw(2) by (intro fresh_id_draw) (auto simp: store_inv_def)
        with store_inv_new_index [OF I this o ps] rw o random_id_length [OF B] show ?thesis by blast
      qed
    qed
  qed
qed

end
