(* ===== verification/Repository_Safety.thy ===== *)
theory Repository_Safety
  imports Repository
begin

text \<open>
  What the repository promises: once a snapshot is published, every blob that \<open>save_blob\<close> accepted is
  durable (listed by an index object of the bucket, and readable from there), whatever failed on the way
  and however the caller handled it. The invariant \<open>repo_inv\<close> holds through every operation.
\<close>

section \<open>The invariant\<close>

definition writer_inv :: "benv \<Rightarrow> string \<Rightarrow> keys \<Rightarrow> nat \<Rightarrow> nat \<Rightarrow> bworld \<Rightarrow> pack_writer \<Rightarrow> bool" where
  "writer_inv B base ks N target w wr \<longleftrightarrow> writer_ok B ks wr \<and> length (pw_buf wr) < target \<and> length (pw_id wr) = ID_SIZE \<and>
     stored w (base @ pack_name (pw_id wr)) = None \<and> pw_id wr \<notin> b_random_id B ` {bw_random w..<N}"

definition repo_inv :: "benv \<Rightarrow> codecs \<Rightarrow> nat \<Rightarrow> rworld \<Rightarrow> bool" where
  "repo_inv B C N v \<longleftrightarrow> (let r = rw_repo v; w = rw_world v; base = rp_base r; ks = rp_keys r; st = rp_state r in
     store_inv B C base ks N w \<and> index_sound B base ks w (rp_index r) \<and>
     (\<forall>wr. ws_writer st = Some wr \<longrightarrow> writer_inv B base ks N (rp_pack_target r) w wr) \<and>
     (\<forall>p\<in>set (ws_new_packs st). pack_stored B base ks w (pn_pack p) (pn_entries p)) \<and> packs_ok (ws_new_packs st) \<and>
     (\<forall>i. index_has i (rp_index r) \<longrightarrow> in_packs i (ws_new_packs st) \<or> listed B base ks w i \<or> ws_failed st \<noteq> None))"

text \<open>
  The blobs of \<open>S\<close> are accounted for, unless the run has failed: each is indexed, in the open pack or
  among \<open>P\<close>, the blobs of the pack that is being uploaded.
\<close>

definition accounted :: "bid set \<Rightarrow> bid set \<Rightarrow> rworld \<Rightarrow> bool" where
  "accounted P S v \<longleftrightarrow> (let r = rw_repo v; st = rp_state r in ws_failed st \<noteq> None \<or> fset (ws_inflight st) \<subseteq> P \<and>
     (\<forall>i\<in>S. index_has i (rp_index r) \<or> (\<exists>wr. ws_writer st = Some wr \<and> i |\<in>| pw_seen wr) \<or> i \<in> P))"

section \<open>Runs\<close>

lemma in_world_run [act_simps]: "in_world m v = (case m (rw_world v) of (r, w) \<Rightarrow> (r, v\<lparr>rw_world := w\<rparr>))"
  by (simp add: in_world_def)

lemma rmod_run [simp]: "rmod f v = (Inr (), v\<lparr>rw_repo := f (rw_repo v)\<rparr>)"
  by (simp add: rmod_def)

lemma rget_run [simp]: "rget f v = f (rw_repo v) v"
  by (simp add: rget_def)

lemma in_world_ok: "in_world m v = (Inr x, v') \<longleftrightarrow> (\<exists>w. m (rw_world v) = (Inr x, w) \<and> v' = v\<lparr>rw_world := w\<rparr>)"
  by (auto simp: in_world_run split: prod.splits)

lemma in_world_case: "in_world m v = (r, v') \<longleftrightarrow> (\<exists>w. m (rw_world v) = (r, w) \<and> v' = v\<lparr>rw_world := w\<rparr>)"
  by (auto simp: in_world_run split: prod.splits)

lemma on_state_simps [simp]:
  "rp_base (on_state f r) = rp_base r" "rp_keys (on_state f r) = rp_keys r" "rp_config (on_state f r) = rp_config r"
  "rp_index (on_state f r) = rp_index r" "rp_pack_target (on_state f r) = rp_pack_target r" "rp_state (on_state f r) = f (rp_state r)"
  by (simp_all add: on_state_def)

lemma set_failed_simps [simp]:
  "ws_writer (set_failed m st) = ws_writer st" "ws_inflight (set_failed m st) = ws_inflight st"
  "ws_new_packs (set_failed m st) = ws_new_packs st" "ws_failed (set_failed m st) \<noteq> None"
  "\<exists>y. ws_failed (set_failed m st) = Some y"
  by (auto simp: set_failed_def)

text \<open>The handle's constants.\<close>

definition same_handle :: "rworld \<Rightarrow> rworld \<Rightarrow> bool" where
  "same_handle v v' \<longleftrightarrow> rp_base (rw_repo v') = rp_base (rw_repo v) \<and> rp_keys (rw_repo v') = rp_keys (rw_repo v) \<and>
     rp_pack_target (rw_repo v') = rp_pack_target (rw_repo v) \<and> bw_random (rw_world v) \<le> bw_random (rw_world v')"

section \<open>Sealing and finishing succeed or change nothing but the random source\<close>

lemma seal_blob_world: "seal_blob B ks want t i p w = (r, w') \<Longrightarrow> \<exists>n. w' = w\<lparr>bw_random := n\<rparr> \<and> bw_random w \<le> n"
  by (auto simp: seal_blob_def act_bind_run split: if_splits sum.splits prod.splits) (metis bworld.surjective bworld.update_convs(3) le_refl)+

lemma writer_finish_world: "writer_finish B ks wr w = (r, w') \<Longrightarrow> \<exists>n. w' = w\<lparr>bw_random := n\<rparr> \<and> bw_random w \<le> n"
  by (auto simp: writer_finish_def act_bind_run split: if_splits sum.splits prod.splits) (metis bworld.surjective bworld.update_convs(3) le_refl)+

lemma frame_count_bound: "n \<le> 22050104 \<Longrightarrow> frame_count n \<le> 337"
  by (auto simp: frame_count_def CHUNK_SIZE_def)

lemma seal_total:
  assumes "aead_seals (b_aead B)" and "frame_count (length p) \<le> 2 ^ 32"
  shows "\<exists>c. seal B n ks kind p a = Inr c"
proof -
  obtain c where "stream_seal (b_aead B) (kind_key ks kind) n a 0 p = Some c"
    using stream_seal_some [OF assms(1), where i = 0 and p = p and k = "kind_key ks kind" and n = n and a = a] assms(2) by auto
  then have "encrypt_bytes (b_aead B) n (kind_key ks kind) p a = Inr (n @ c)" by (simp add: encrypt_bytes_stream)
  then show ?thesis by (auto simp: seal_ok)
qed

text \<open>A pack never outgrows its header: with the default target, finishing a full writer succeeds.\<close>

lemma writer_finish_total:
  assumes B: "bcrypto_ok B" "aead_seals (b_aead B)" and wr: "writer_ok B ks wr" and "pw_entries wr \<noteq> []" and n: "length (pw_entries wr) \<le> 479350"
  shows "\<exists>pk w'. writer_finish B ks wr w = (Inr pk, w')"
proof -
  let ?es = "pw_entries wr" let ?p = "encode_entries ?es" let ?n = "b_nonce B (bw_random w)"
  have len: "length ?p = 4 + 46 * length ?es" using wr length_encode_entries by (simp add: writer_ok_def ENTRY_SIZE_def ID_SIZE_def)
  then have m: "length ?p \<le> 22050104" using n by simp
  note fc = frame_count_bound [OF m]
  then have "frame_count (length ?p) \<le> 2 ^ 32" by simp
  from seal_total [OF B(2) this, of ?n ks KMeta "header_aad (pw_id wr)"] obtain c
    where c: "seal B ?n ks KMeta ?p (header_aad (pw_id wr)) = Inr c" by blast
  have a: "aead_ok (b_aead B)" "length ?n = NONCE_SIZE" using B by (simp_all add: bcrypto_ok_def brandom_ok_def)
  have "length c = 19 + length ?p + 16 * frame_count (length ?p)" using seal_length [OF a c] by (simp add: NONCE_SIZE_def TAG_SIZE_def)
  then have "length c \<le> 22055515" using m fc by linarith
  then show ?thesis using assms(4) c by (simp add: writer_finish_def MAX_HEADER_SIZE_def)
qed

section \<open>Steps\<close>

lemma same_handle_refl [simp]: "same_handle v v"
  by (simp add: same_handle_def)

lemma same_handle_trans: "same_handle a b \<Longrightarrow> same_handle b c \<Longrightarrow> same_handle a c"
  by (simp add: same_handle_def)

lemma index_sound_cong: "(\<And>k. stored w' k = stored w k) \<Longrightarrow> index_sound B base ks w' ix = index_sound B base ks w ix"
  by (simp add: index_sound_def pack_stored_def)

lemma repo_inv_random:
  assumes I: "repo_inv B C N v" and n: "bw_random (rw_world v) \<le> n"
  shows "repo_inv B C N (v\<lparr>rw_world := (rw_world v)\<lparr>bw_random := n\<rparr>\<rparr>)"
proof -
  let ?w = "rw_world v" let ?w' = "?w\<lparr>bw_random := n\<rparr>" let ?r = "rw_repo v"
  have st: "stored ?w' k = stored ?w k" for k by simp
  have "store_inv B C (rp_base ?r) (rp_keys ?r) N ?w'" using store_inv_random [OF _ n] I by (simp add: repo_inv_def Let_def)
  moreover have "writer_inv B base ks N t ?w' wr" if "writer_inv B base ks N t ?w wr" for base ks t wr
    using that n by (auto simp: writer_inv_def)
  ultimately show ?thesis using I
    by (simp add: repo_inv_def Let_def index_sound_cong [OF st] pack_stored_cong [OF st] listed_cong [OF st])
qed

lemma accounted_world [simp]: "accounted P S (v\<lparr>rw_world := w\<rparr>) = accounted P S v"
  by (simp add: accounted_def)

text \<open>The writer is opened when the first blob needs it.\<close>

lemma current_writer_step:
  assumes I: "repo_inv B C N v" and B: "bcrypto_ok B" and t: "0 < rp_pack_target (rw_repo v)" and c: "current_writer B v = (res, v')"
    and N: "bw_random (rw_world v') \<le> N"
  shows "\<exists>wr. res = Inr wr \<and> ws_writer (rp_state (rw_repo v')) = Some wr \<and> repo_inv B C N v' \<and> same_handle v v' \<and>
    rw_repo v' = on_state (\<lambda>st. st\<lparr>ws_writer := Some wr\<rparr>) (rw_repo v) \<and> (\<forall>S. accounted P S v \<longrightarrow> accounted P S v')"
proof (cases "ws_writer (rp_state (rw_repo v))")
  case (Some wr)
  then have "res = Inr wr" "v' = v" using c by (auto simp: current_writer_def)
  moreover have "rw_repo v = on_state (\<lambda>st. st\<lparr>ws_writer := Some wr\<rparr>) (rw_repo v)" using Some by (simp add: on_state_def)
  ultimately show ?thesis using I Some by simp
next
  case None
  let ?w = "rw_world v" let ?i = "b_random_id B (bw_random ?w)" let ?r = "rw_repo v"
  let ?wr = "\<lparr>pw_id = ?i, pw_compression = rc_compression (rp_config ?r), pw_buf = [], pw_entries = [], pw_seen = {||}\<rparr>"
  let ?v1 = "v\<lparr>rw_world := ?w\<lparr>bw_random := Suc (bw_random ?w)\<rparr>\<rparr>"
  have res: "res = Inr ?wr" "v' = ?v1\<lparr>rw_repo := on_state (\<lambda>st. st\<lparr>ws_writer := Some ?wr\<rparr>) ?r\<rparr>"
    using c None by (auto simp: current_writer_def act_bind_run in_world_run writer_new_def)
  have I1: "repo_inv B C N ?v1" by (rule repo_inv_random [OF I]) simp
  have r: "random_fresh B (rp_base ?r) N ?w" using I by (simp add: repo_inv_def Let_def store_inv_def)
  have f: "fresh_id B N (Suc (bw_random ?w)) ?w ?i" using N res(2) by (intro fresh_id_draw [OF r]) auto
  then have "writer_inv B (rp_base ?r) (rp_keys ?r) N (rp_pack_target ?r) (rw_world ?v1) ?wr"
    using fresh_id_unused [OF r f] t random_id_length [OF B] by (simp add: writer_inv_def writer_ok_def fresh_id_def)
  then have "repo_inv B C N v'" using I1 by (simp add: res(2) repo_inv_def Let_def)
  moreover have "accounted P S v'" if "accounted P S v" for S using that None by (auto simp: res(2) accounted_def Let_def)
  moreover have "same_handle v v'" by (simp add: res(2) same_handle_def)
  ultimately show ?thesis using res by simp
qed

text \<open>A finished pack on its way up.\<close>

definition pack_fresh :: "benv \<Rightarrow> nat \<Rightarrow> pack \<Rightarrow> rworld \<Rightarrow> bool" where
  "pack_fresh B N pk v \<longleftrightarrow> (let r = rw_repo v; w = rw_world v in pack_ok B (rp_keys r) (pk_id pk) (pk_data pk) (pk_entries pk) \<and>
     length (pk_id pk) = ID_SIZE \<and> stored w (rp_base r @ pack_name (pk_id pk)) = None \<and> pk_id pk \<notin> b_random_id B ` {bw_random w..<N})"

definition pack_ids :: "pack \<Rightarrow> bid set" where
  "pack_ids pk = pe_id ` set (pk_entries pk)"

lemma take_finish_run: "take_finish B wr v = (res, v') \<longleftrightarrow> (\<exists>q w'. writer_finish B (rp_keys (rw_repo v)) wr (rw_world v) = (q, w') \<and>
    (case q of Inl e \<Rightarrow> res = Inl e \<and> v' = \<lparr>rw_repo = on_state (\<lambda>st. st\<lparr>ws_writer := None\<rparr>) (rw_repo v), rw_world = w'\<rparr>
     | Inr pk \<Rightarrow> res = Inr pk \<and> v' = \<lparr>rw_repo = on_state (\<lambda>st. st\<lparr>ws_writer := None,
          ws_inflight := ws_inflight st |\<union>| fset_of_list (map pe_id (pk_entries pk))\<rparr>) (rw_repo v), rw_world = w'\<rparr>))"
  by (cases v) (auto simp: take_finish_def act_bind_run in_world_run on_state_def split: prod.splits sum.splits)

lemma take_finish_random: "take_finish B wr v = (res, v') \<Longrightarrow> bw_random (rw_world v) \<le> bw_random (rw_world v')"
proof -
  assume t: "take_finish B wr v = (res, v')"
  obtain q w' where q: "writer_finish B (rp_keys (rw_repo v)) wr (rw_world v) = (q, w')" using prod.exhaust by metis
  with t have "rw_world v' = w'" unfolding take_finish_run by (cases q) auto
  with writer_finish_world [OF q] show ?thesis by auto
qed

lemma repo_inv_writer:
  assumes "repo_inv B C N v" and "\<And>wr. o' = Some wr \<Longrightarrow> writer_inv B (rp_base (rw_repo v)) (rp_keys (rw_repo v)) N (rp_pack_target (rw_repo v)) (rw_world v) wr"
  shows "repo_inv B C N (v\<lparr>rw_repo := on_state (\<lambda>st. st\<lparr>ws_writer := o', ws_inflight := F st\<rparr>) (rw_repo v)\<rparr>)"
  using assms by (simp add: repo_inv_def Let_def)

lemma take_finish_step:
  assumes I: "repo_inv B C N v" and B: "bcrypto_ok B" and wr: "writer_ok B (rp_keys (rw_repo v)) wr" "length (pw_id wr) = ID_SIZE"
      "stored (rw_world v) (rp_base (rw_repo v) @ pack_name (pw_id wr)) = None" "pw_id wr \<notin> b_random_id B ` {bw_random (rw_world v)..<N}"
    and w: "\<forall>i\<in>S. index_has i (rp_index (rw_repo v)) \<or> i |\<in>| pw_seen wr" and f: "ws_failed (rp_state (rw_repo v)) = None" "ws_inflight (rp_state (rw_repo v)) = {||}"
    and t: "take_finish B wr v = (res, v')"
  shows "repo_inv B C N v' \<and> same_handle v v' \<and> ws_new_packs (rp_state (rw_repo v')) = ws_new_packs (rp_state (rw_repo v)) \<and>
    (case res of Inl e \<Rightarrow> \<exists>q w'. writer_finish B (rp_keys (rw_repo v)) wr (rw_world v) = (Inl q, w')
     | Inr pk \<Rightarrow> pack_fresh B N pk v' \<and> accounted (pack_ids pk) S v' \<and> ws_writer (rp_state (rw_repo v')) = None)"
proof -
  obtain q w' where q: "writer_finish B (rp_keys (rw_repo v)) wr (rw_world v) = (q, w')" using prod.exhaust by metis
  from writer_finish_world [OF q] obtain n where n: "w' = (rw_world v)\<lparr>bw_random := n\<rparr>" "bw_random (rw_world v) \<le> n" by blast
  let ?v1 = "v\<lparr>rw_world := w'\<rparr>"
  have I1: "repo_inv B C N ?v1" using repo_inv_random [OF I n(2)] n(1) by simp
  show ?thesis
  proof (cases q)
    case (Inl e)
    then have "res = Inl e" "v' = ?v1\<lparr>rw_repo := on_state (\<lambda>st. st\<lparr>ws_writer := None, ws_inflight := ws_inflight st\<rparr>) (rw_repo ?v1)\<rparr>"
      using t q unfolding take_finish_run by (auto simp: on_state_def)
    moreover have "repo_inv B C N (?v1\<lparr>rw_repo := on_state (\<lambda>st. st\<lparr>ws_writer := None, ws_inflight := ws_inflight st\<rparr>) (rw_repo ?v1)\<rparr>)"
      by (rule repo_inv_writer [OF I1]) simp
    ultimately show ?thesis using q Inl n by (auto simp: same_handle_def)
  next
    case (Inr pk)
    let ?F = "\<lambda>st. ws_inflight st |\<union>| fset_of_list (map pe_id (pk_entries pk))"
    have r: "res = Inr pk" "v' = ?v1\<lparr>rw_repo := on_state (\<lambda>st. st\<lparr>ws_writer := None, ws_inflight := ?F st\<rparr>) (rw_repo ?v1)\<rparr>"
      using t q Inr unfolding take_finish_run by auto
    have "repo_inv B C N v'" unfolding r(2) by (rule repo_inv_writer [OF I1]) simp
    moreover note fin = writer_finish_ok [OF B wr(1) q [unfolded Inr]]
    have "pack_fresh B N pk v'" using fin wr n by (auto simp: pack_fresh_def r(2) Let_def)
    moreover have "pack_ids pk = fset (pw_seen wr)" using fin wr(1) by (simp add: pack_ids_def writer_ok_def)
    then have "accounted (pack_ids pk) S v'"
      using w f by (auto simp: accounted_def r(2) Let_def pack_ids_def fset_of_list.rep_eq)
    ultimately show ?thesis using r n by (simp add: same_handle_def)
  qed
qed

lemma add_pack_has: "index_has i (add_pack k es ix) \<longleftrightarrow> index_has i ix \<or> (\<exists>e\<in>set es. pe_id e = i)"
proof -
  have "index_has i (add_pack k es ix) \<longleftrightarrow> fmlookup (add_entries k es (ix_blobs ix)) i \<noteq> None" by (simp add: index_has_def add_pack_def)
  also have "\<dots> \<longleftrightarrow> index_has i ix \<or> find (\<lambda>l. pe_id (lo_entry l) = i) (map (\<lambda>e. \<lparr>lo_pack = k, lo_entry = e\<rparr>) es) \<noteq> None"
    unfolding add_entries_lookup by (auto simp: index_has_def split: option.splits)
  finally show ?thesis unfolding find_none by auto
qed

lemma add_pack_lookup: "index_lookup i (add_pack k es ix) = Some l \<Longrightarrow> index_lookup i ix = Some l \<or> lo_pack l = k \<and> lo_entry l \<in> set es \<and> pe_id (lo_entry l) = i"
  unfolding index_lookup_def add_pack_def by (auto simp: add_entries_lookup split: option.splits dest!: find_some)

lemma index_sound_add:
  assumes "index_sound B base ks w ix" and "pack_stored B base ks w k es"
  shows "index_sound B base ks w (add_pack k es ix)"
  unfolding index_sound_def
proof (intro allI impI)
  fix i l assume "index_lookup i (add_pack k es ix) = Some l"
  from add_pack_lookup [OF this] show "pe_id (lo_entry l) = i \<and> pack_stored B base ks w (lo_pack l) [lo_entry l]"
  proof
    assume "index_lookup i ix = Some l"
    then show ?thesis using assms(1) by (simp add: index_sound_def)
  next
    assume "lo_pack l = k \<and> lo_entry l \<in> set es \<and> pe_id (lo_entry l) = i"
    then show ?thesis using pack_stored_mono [OF assms(2), of "[lo_entry l]"] by simp
  qed
qed

lemma parse_header_entries:
  assumes "parse_header B ks i data = Inr es"
  shows "(\<forall>e\<in>set es. entry_ok e) \<and> length es < 2 ^ 32"
proof -
  from assms obtain p where "decode_entries p = Inr (es, [])"
    by (auto simp: parse_header_def decode_header_def res_bind_ok Let_def split: if_splits prod.splits)
  then show ?thesis unfolding decode_entries_iff by simp
qed

lemma index_sound_put: "index_sound B base ks w ix \<Longrightarrow> stored w k = None \<Longrightarrow> index_sound B base ks (put_world w k s) ix"
  unfolding index_sound_def using pack_stored_put by blast

lemma uploaded_pack_simps [simp]:
  "rp_base (uploaded_pack pk r) = rp_base r" "rp_keys (uploaded_pack pk r) = rp_keys r" "rp_pack_target (uploaded_pack pk r) = rp_pack_target r"
  "rp_config (uploaded_pack pk r) = rp_config r"
  "rp_index (uploaded_pack pk r) = add_pack (pk_id pk) (pk_entries pk) (rp_index r)"
  "ws_writer (rp_state (uploaded_pack pk r)) = ws_writer (rp_state r)"
  "ws_failed (rp_state (uploaded_pack pk r)) = ws_failed (rp_state r)"
  "ws_new_packs (rp_state (uploaded_pack pk r)) = ws_new_packs (rp_state r) @ [\<lparr>pn_pack = pk_id pk, pn_entries = pk_entries pk\<rparr>]"
  "ws_inflight (rp_state (uploaded_pack pk r)) = ws_inflight (rp_state r) |-| fset_of_list (map pe_id (pk_entries pk))"
  by (simp_all add: uploaded_pack_def)

text \<open>
  An upload. Either the pack is stored and indexed, or the run is marked failed; in both cases every blob
  stays accounted for.
\<close>

definition packs_grow :: "rworld \<Rightarrow> rworld \<Rightarrow> bool" where
  "packs_grow v v' \<longleftrightarrow> length (ws_new_packs (rp_state (rw_repo v'))) \<le> length (ws_new_packs (rp_state (rw_repo v))) + 1"

lemma upload_step:
  assumes I: "repo_inv B C N v" and pk: "pack_fresh B N pk v" and acc: "accounted (pack_ids pk) S v"
    and other: "\<And>wr. ws_writer (rp_state (rw_repo v)) = Some wr \<Longrightarrow> pw_id wr \<noteq> pk_id pk"
    and u: "upload_pack pk v = (res, v')"
  shows "repo_inv B C N v' \<and> accounted {} S v' \<and> same_handle v v' \<and> packs_grow v v' \<and> (res \<noteq> Inr () \<longrightarrow> ws_failed (rp_state (rw_repo v')) \<noteq> None)"
proof -
  let ?r = "rw_repo v" let ?w = "rw_world v" let ?k = "rp_base ?r @ pack_name (pk_id pk)"
  obtain q w' where q: "bput ?k (pk_data pk) ?w = (q, w')" using prod.exhaust by metis
  show ?thesis
  proof (cases q)
    case (Inl e)
    then have "w' = ?w" using q bput_err by blast
    with Inl q have r: "\<exists>e. res = Inl e" "v' = v\<lparr>rw_repo := on_state (set_failed (''uploading pack '' @ id_short (pk_id pk))) ?r\<rparr>"
      using u by (auto simp: upload_pack_def act_bind_run act_try_run in_world_run repo_key_def Let_def)
    show ?thesis using I r by (auto simp: repo_inv_def accounted_def same_handle_def packs_grow_def Let_def)
  next
    case (Inr x)
    then have w': "w' = put_world ?w ?k (pk_data pk)" using q by (auto simp: bput_ok)
    have r: "res = Inr ()" "v' = \<lparr>rw_repo = uploaded_pack pk ?r, rw_world = w'\<rparr>"
      using u q Inr by (auto simp: upload_pack_def act_bind_run act_try_run in_world_run repo_key_def)
    have f: "stored ?w ?k = None" "length (pk_id pk) = ID_SIZE" "pack_ok B (rp_keys ?r) (pk_id pk) (pk_data pk) (pk_entries pk)"
      using pk by (auto simp: pack_fresh_def Let_def)
    have ps: "pack_stored B (rp_base ?r) (rp_keys ?r) w' (pk_id pk) (pk_entries pk)" using f by (auto simp: pack_stored_def w')
    have "store_inv B C (rp_base ?r) (rp_keys ?r) N w'" unfolding w'
      using I pk by (intro store_inv_put_pack) (auto simp: repo_inv_def pack_fresh_def Let_def)
    moreover have "index_sound B (rp_base ?r) (rp_keys ?r) w' (add_pack (pk_id pk) (pk_entries pk) (rp_index ?r))"
      using index_sound_add [OF index_sound_put ps [unfolded w']] I f(1) by (simp add: w' repo_inv_def Let_def)
    moreover have "writer_inv B (rp_base ?r) (rp_keys ?r) N (rp_pack_target ?r) w' wr" if "ws_writer (rp_state ?r) = Some wr" for wr
      using I other that by (auto simp: w' repo_inv_def Let_def writer_inv_def)
    moreover have "\<forall>p\<in>set (ws_new_packs (rp_state (uploaded_pack pk ?r))). pack_stored B (rp_base ?r) (rp_keys ?r) w' (pn_pack p) (pn_entries p)"
      using I ps f(1) pack_stored_put by (auto simp: repo_inv_def Let_def w')
    moreover have "packs_ok (ws_new_packs (rp_state (uploaded_pack pk ?r)))"
      using I f parse_header_entries [of B "rp_keys ?r" "pk_id pk" "pk_data pk"] by (auto simp: repo_inv_def Let_def packs_ok_def pack_ok_def)
    moreover have "in_packs i (ws_new_packs (rp_state (uploaded_pack pk ?r))) \<or> listed B (rp_base ?r) (rp_keys ?r) w' i \<or> ws_failed (rp_state ?r) \<noteq> None"
      if "index_has i (add_pack (pk_id pk) (pk_entries pk) (rp_index ?r))" for i
      using that I listed_put [OF _ f(1)] by (auto simp: add_pack_has repo_inv_def Let_def in_packs_def w')
    ultimately have "repo_inv B C N v'" by (simp add: r(2) repo_inv_def Let_def)
    moreover have "accounted {} S v'" using acc
      by (auto simp: accounted_def r(2) Let_def add_pack_has pack_ids_def fset_of_list.rep_eq)
    ultimately show ?thesis using r by (simp add: same_handle_def packs_grow_def w')
  qed
qed

text \<open>The branch of \<open>place_blob\<close> that stores the blob.\<close>

definition place_new :: "benv \<Rightarrow> sealed_blob \<Rightarrow> (bool \<times> pack option) option ract" where
  "place_new B sb = rget (\<lambda>r. act_bind (current_writer B) (\<lambda>wr.
     act_bind (act_res (writer_push sb wr)) (\<lambda>(added, wr').
     act_bind (rmod (on_state (\<lambda>st. st\<lparr>ws_writer := Some wr'\<rparr>))) (\<lambda>_.
     if rp_pack_target r \<le> length (pw_buf wr')
     then act_bind (take_finish B wr') (\<lambda>pk. act_ok (Some (added, Some pk)))
     else act_ok (Some (added, None))))))"

lemma place_new_step:
  assumes I: "repo_inv B C N v" and acc: "accounted {} S v" and B: "bcrypto_ok B" "aead_seals (b_aead B)"
    and t: "0 < rp_pack_target (rw_repo v)" "rp_pack_target (rw_repo v) \<le> TARGET_SIZE"
    and sb: "sealed_ok B (rp_keys (rw_repo v)) sb" "sb_id sb = i"
    and f: "ws_failed (rp_state (rw_repo v)) = None" and new: "\<not> is_pending (rp_state (rw_repo v)) i"
    and p: "place_new B sb v = (res, v')" and N: "bw_random (rw_world v') \<le> N"
  shows "repo_inv B C N v' \<and> same_handle v v' \<and> ws_new_packs (rp_state (rw_repo v')) = ws_new_packs (rp_state (rw_repo v)) \<and>
    (case res of Inl e \<Rightarrow> accounted {} S v' | Inr None \<Rightarrow> accounted {} (insert i S) v'
     | Inr (Some (added, None)) \<Rightarrow> accounted {} (insert i S) v'
     | Inr (Some (added, Some pk)) \<Rightarrow> pack_fresh B N pk v' \<and> accounted (pack_ids pk) (insert i S) v' \<and> ws_writer (rp_state (rw_repo v')) = None) \<and>
    (\<forall>e. res = Inl e \<longrightarrow> (\<exists>wr e'. length (pw_buf wr) < rp_pack_target (rw_repo v) \<and> writer_push sb wr = Inl e'))"
proof -
  obtain q v1 where c: "current_writer B v = (q, v1)" using prod.exhaust by metis
  have cw: "\<exists>wr. q = Inr wr" using c by (auto simp: current_writer_def act_bind_run in_world_run writer_new_def split: option.splits)
  then obtain wr where q: "q = Inr wr" by blast
  have N1: "bw_random (rw_world v1) \<le> bw_random (rw_world v')"
    using p c q by (auto simp: place_new_def act_bind_run split: sum.splits prod.splits if_splits dest!: take_finish_random)
  from current_writer_step [OF I B(1) t(1) c, where P = "{}"] N N1 q
  have v1: "ws_writer (rp_state (rw_repo v1)) = Some wr" "repo_inv B C N v1" "same_handle v v1"
    "rw_repo v1 = on_state (\<lambda>st. st\<lparr>ws_writer := Some wr\<rparr>) (rw_repo v)" "accounted {} S v1" using acc by auto
  let ?r = "rw_repo v1" let ?w = "rw_world v1"
  have same: "rp_keys ?r = rp_keys (rw_repo v)" "rp_pack_target ?r = rp_pack_target (rw_repo v)" "ws_failed (rp_state ?r) = None"
    "ws_new_packs (rp_state ?r) = ws_new_packs (rp_state (rw_repo v))" using v1(4) f by simp_all
  have wi: "writer_inv B (rp_base ?r) (rp_keys ?r) N (rp_pack_target ?r) ?w wr" using v1(1,2) by (simp add: repo_inv_def Let_def)
  have inf: "ws_inflight (rp_state ?r) = {||}" using v1(5) same(3) by (auto simp: accounted_def Let_def)
  show ?thesis
  proof (cases "writer_push sb wr")
    case (Inl e)
    then have "res = Inl e" "v' = v1" using p c q by (simp_all add: place_new_def act_bind_run)
    moreover have "length (pw_buf wr) < rp_pack_target (rw_repo v)" using wi same by (simp add: writer_inv_def)
    ultimately show ?thesis using v1 same Inl by auto
  next
    case (Inr ap)
    obtain added wr' where ap: "ap = (added, wr')" by (cases ap)
    have sb': "sealed_ok B (rp_keys ?r) sb" using sb same by simp
    have wok: "writer_ok B (rp_keys ?r) wr" using wi by (simp add: writer_inv_def)
    note push = writer_push_ok [OF wok sb' Inr [unfolded ap]]
    have seen: "fset (pw_seen wr') = insert i (fset (pw_seen wr))" using push sb by simp
    let ?v2 = "v1\<lparr>rw_repo := on_state (\<lambda>st. st\<lparr>ws_writer := Some wr'\<rparr>) ?r\<rparr>"
    have pw: "pw_id wr' = pw_id wr" "writer_ok B (rp_keys ?r) wr'" using push by auto
    show ?thesis
    proof (cases "rp_pack_target (rw_repo v) \<le> length (pw_buf wr')")
      case False
      then have r: "res = Inr (Some (added, None))" "v' = ?v2" using p c q Inr ap by (simp_all add: place_new_def act_bind_run)
      have "writer_inv B (rp_base ?r) (rp_keys ?r) N (rp_pack_target ?r) ?w wr'" using wi pw False same by (simp add: writer_inv_def)
      then have "repo_inv B C N ?v2" using v1(2) by (simp add: repo_inv_def Let_def)
      moreover have "accounted {} (insert i S) ?v2" using v1(1,5) same(3) seen by (auto simp: accounted_def Let_def)
      ultimately show ?thesis using r v1(3) same by (simp add: same_handle_def)
    next
      case True
      let ?v1' = "v1\<lparr>rw_repo := on_state (\<lambda>st. st\<lparr>ws_writer := None, ws_inflight := ws_inflight st\<rparr>) ?r\<rparr>"
      obtain q2 v2 where tf: "take_finish B wr' ?v2 = (q2, v2)" using prod.exhaust by metis
      have "take_finish B wr' ?v2 = take_finish B wr' v1"
        by (cases v1) (simp add: take_finish_def act_bind_run in_world_run on_state_def)
      with tf have tf1: "take_finish B wr' v1 = (q2, v2)" by simp
      have "\<forall>j\<in>insert i S. index_has j (rp_index ?r) \<or> j |\<in>| pw_seen wr'"
        using v1(1,5) same(3) seen by (auto simp: accounted_def Let_def)
      from take_finish_step [OF v1(2) B(1) pw(2) _ _ _ this same(3) inf tf1] wi pw(1)
      have st: "repo_inv B C N v2 \<and> same_handle v1 v2 \<and> ws_new_packs (rp_state (rw_repo v2)) = ws_new_packs (rp_state ?r) \<and>
         (case q2 of Inl e \<Rightarrow> \<exists>q w'. writer_finish B (rp_keys ?r) wr' ?w = (Inl q, w')
           | Inr pk \<Rightarrow> pack_fresh B N pk v2 \<and> accounted (pack_ids pk) (insert i S) v2 \<and> ws_writer (rp_state (rw_repo v2)) = None)"
        by (simp add: writer_inv_def)
      have add: added using push wi True same by (auto simp: writer_inv_def)
      then have "pw_entries wr' \<noteq> []" "length (pw_entries wr') = length (pw_entries wr) + 1" using push by auto
      moreover have "35 * length (pw_entries wr) < TARGET_SIZE" using wi wok t(2) same by (simp add: writer_inv_def writer_ok_def)
      then have "length (pw_entries wr) + 1 \<le> 479350" by (simp add: TARGET_SIZE_def)
      ultimately obtain pk w2 where "writer_finish B (rp_keys ?r) wr' ?w = (Inr pk, w2)"
        using writer_finish_total [OF B pw(2), of ?w] by auto
      with st obtain pk2 where q2: "q2 = Inr pk2" by (cases q2) auto
      have "res = Inr (Some (added, Some pk2))" "v' = v2" using p c q Inr ap True tf q2 by (simp_all add: place_new_def act_bind_run)
      then show ?thesis using st q2 same_handle_trans [OF v1(3)] same by simp
    qed
  qed
qed

lemma place_step:
  assumes I: "repo_inv B C N v" and acc: "accounted {} S v" and B: "bcrypto_ok B" "aead_seals (b_aead B)"
    and t: "0 < rp_pack_target (rw_repo v)" "rp_pack_target (rw_repo v) \<le> TARGET_SIZE"
    and sb: "sealed_ok B (rp_keys (rw_repo v)) sb" "sb_id sb = i"
    and p: "place_blob B i sb v = (res, v')" and N: "bw_random (rw_world v') \<le> N"
  shows "repo_inv B C N v' \<and> same_handle v v' \<and> ws_new_packs (rp_state (rw_repo v')) = ws_new_packs (rp_state (rw_repo v)) \<and>
    (case res of Inl e \<Rightarrow> accounted {} S v' | Inr None \<Rightarrow> accounted {} (insert i S) v'
     | Inr (Some (added, None)) \<Rightarrow> accounted {} (insert i S) v'
     | Inr (Some (added, Some pk)) \<Rightarrow> pack_fresh B N pk v' \<and> accounted (pack_ids pk) (insert i S) v' \<and> ws_writer (rp_state (rw_repo v')) = None) \<and>
    (\<forall>e. res = Inl e \<longrightarrow> ws_failed (rp_state (rw_repo v)) \<noteq> None \<or> (\<exists>wr e'. length (pw_buf wr) < rp_pack_target (rw_repo v) \<and> writer_push sb wr = Inl e'))"
proof -
  let ?st = "rp_state (rw_repo v)"
  consider (failed) m where "ws_failed ?st = Some m" | (known) "ws_failed ?st = None" "index_has i (rp_index (rw_repo v)) \<or> is_pending ?st i"
    | (new) "ws_failed ?st = None" "\<not> index_has i (rp_index (rw_repo v))" "\<not> is_pending ?st i"
    by (cases "ws_failed ?st") auto
  then show ?thesis
  proof cases
    case failed
    then have "res = Inl (BRunFailed m)" "v' = v" using p by (simp_all add: place_blob_def)
    then show ?thesis using I acc failed by simp
  next
    case known
    then have r: "res = Inr None" "v' = v" using p by (auto simp: place_blob_def)
    have "accounted {} (insert i S) v" using acc known by (auto simp: accounted_def Let_def is_pending_def split: option.splits)
    then show ?thesis using I r by simp
  next
    case new
    then have "place_new B sb v = (res, v')" using p by (simp add: place_blob_def place_new_def)
    from place_new_step [OF I acc B t sb new(1,3) this N] show ?thesis by blast
  qed
qed

lemma bput_random: "bput k b w = (r, w') \<Longrightarrow> bw_random w' = bw_random w"
  by (cases r) (auto simp: bput_ok dest: bput_err)

lemma upload_random: "upload_pack pk v = (res, v') \<Longrightarrow> bw_random (rw_world v') = bw_random (rw_world v)"
  by (auto simp: upload_pack_def act_bind_run act_try_run in_world_run Let_def split: sum.splits prod.splits dest: bput_random)

lemma save_check_ok:
  assumes "save_check i v = (r, v')" and "accounted {} S v"
  shows "v' = v \<and> (r = Inr True \<longrightarrow> accounted {} (insert i S) v) \<and> (\<exists>e. r = Inl e \<or> r = Inr True \<or> r = Inr False)"
proof -
  have v': "v' = v" using assms(1) by (auto simp: save_check_def split: if_splits option.splits)
  have "accounted {} (insert i S) v" if "r = Inr True"
    using assms that by (auto simp: save_check_def accounted_def Let_def is_pending_def split: if_splits option.splits)
  then show ?thesis using v' by (cases r) auto
qed

lemma save_blob_step:
  assumes I: "repo_inv B C N v" and acc: "accounted {} S v" and B: "bcrypto_ok B" "aead_seals (b_aead B)"
    and t: "0 < rp_pack_target (rw_repo v)" "rp_pack_target (rw_repo v) \<le> TARGET_SIZE" and p: "length p \<le> 2 ^ 31"
    and s: "save_blob B bt p v = (res, v')" and N: "bw_random (rw_world v') \<le> N"
  shows "repo_inv B C N v' \<and> same_handle v v' \<and> packs_grow v v' \<and>
    (case res of Inl e \<Rightarrow> accounted {} S v' | Inr (i, added) \<Rightarrow> i = blob_id B (rp_keys (rw_repo v)) p \<and> accounted {} (insert i S) v')"
proof -
  let ?r = "rw_repo v" let ?i = "blob_id B (rp_keys ?r) p"
  obtain k v0 where k: "save_check ?i v = (k, v0)" using prod.exhaust by metis
  note ch = save_check_ok [OF k acc]
  have v0: "v0 = v" using ch by simp
  consider (err) e where "k = Inl e" | (known) "k = Inr True" | (new) "k = Inr False" using ch by auto
  then show ?thesis
  proof cases
    case err
    then have "res = Inl e" "v' = v" using s k v0 by (auto simp: save_blob_def Let_def)
    then show ?thesis using I acc by (simp add: packs_grow_def)
  next
    case known
    then have "res = Inr (?i, False)" "v' = v" using s k v0 by (auto simp: save_blob_def Let_def)
    then show ?thesis using I ch known by (simp add: packs_grow_def)
  next
    case new
    obtain q w1 where q: "seal_blob B (rp_keys ?r) (rc_compression (rp_config ?r)) bt ?i p (rw_world v) = (q, w1)" using prod.exhaust by metis
    from seal_blob_world [OF q] obtain n where n: "w1 = (rw_world v)\<lparr>bw_random := n\<rparr>" "bw_random (rw_world v) \<le> n" by blast
    let ?v1 = "v\<lparr>rw_world := w1\<rparr>"
    have I1: "repo_inv B C N ?v1" using repo_inv_random [OF I n(2)] n(1) by simp
    have h1: "same_handle v ?v1" using n by (simp add: same_handle_def)
    have acc1: "accounted {} S ?v1" using acc by simp
    show ?thesis
    proof (cases q)
      case (Inl e)
      then have "res = Inl e" "v' = ?v1" using s k v0 new q by (simp_all add: save_blob_def Let_def act_bind_run in_world_run)
      then show ?thesis using I1 acc1 h1 by (simp add: packs_grow_def)
    next
      case (Inr sb)
      note sb = seal_blob_ok [OF B(1) p q [unfolded Inr]]
      obtain pl v2 where pl: "place_blob B ?i sb ?v1 = (pl, v2)" using prod.exhaust by metis
      have run: "(res, v') = (case pl of Inl e \<Rightarrow> (Inl e, v2) | Inr None \<Rightarrow> (Inr (?i, False), v2)
          | Inr (Some (added, None)) \<Rightarrow> (Inr (?i, added), v2)
          | Inr (Some (added, Some pk)) \<Rightarrow> act_bind (upload_pack pk) (\<lambda>_. act_ok (?i, added)) v2)"
        using s k v0 new q Inr pl by (auto simp: save_blob_def Let_def act_bind_run in_world_run split: sum.splits option.splits prod.splits)
      have N2: "bw_random (rw_world v2) \<le> N"
        using run N by (auto simp: act_bind_run split: sum.splits option.splits prod.splits dest!: upload_random)
      have t1: "0 < rp_pack_target (rw_repo ?v1)" "rp_pack_target (rw_repo ?v1) \<le> TARGET_SIZE" using t by simp_all
      have "sealed_ok B (rp_keys (rw_repo ?v1)) sb" "sb_id sb = ?i" using sb by simp_all
      note st = place_step [OF I1 acc1 B t1 this pl N2]
      have h2: "same_handle v v2" using same_handle_trans [OF h1] st by blast
      have g2: "packs_grow v v2" using st by (simp add: packs_grow_def)
      show ?thesis
      proof (cases "\<exists>added pk. pl = Inr (Some (added, Some pk))")
        case False
        then have "v' = v2" "case res of Inl e \<Rightarrow> pl = Inl e | Inr (i, a) \<Rightarrow> i = ?i \<and> (\<exists>x. pl = Inr x)"
          using run by (auto split: sum.splits option.splits)
        then show ?thesis using st h2 g2 False by (auto split: sum.splits option.splits)
      next
        case True
        then obtain added pk where pk: "pl = Inr (Some (added, Some pk))" by blast
        obtain u v3 where u: "upload_pack pk v2 = (u, v3)" using prod.exhaust by metis
        have fr: "pack_fresh B N pk v2" "accounted (pack_ids pk) (insert ?i S) v2" "repo_inv B C N v2" "ws_writer (rp_state (rw_repo v2)) = None"
          using st pk by simp_all
        have up: "repo_inv B C N v3 \<and> accounted {} (insert ?i S) v3 \<and> same_handle v2 v3 \<and> packs_grow v2 v3 \<and>
            (u \<noteq> Inr () \<longrightarrow> ws_failed (rp_state (rw_repo v3)) \<noteq> None)"
          by (rule upload_step [OF fr(3) fr(1) fr(2) _ u]) (simp add: fr(4))
        have "v' = v3 \<and> (case res of Inl e \<Rightarrow> u = Inl e | Inr (i, a) \<Rightarrow> i = ?i \<and> u = Inr ())"
          using run pk u by (auto simp: act_bind_run split: sum.splits)
        moreover have "packs_grow v v3" using up st by (simp add: packs_grow_def)
        moreover have "accounted {} S v3" using up by (auto simp: accounted_def Let_def)
        ultimately show ?thesis using up same_handle_trans [OF h2, of v3] by (auto split: sum.splits)
      qed
    qed
  qed
qed

text \<open>Writing the index makes every blob of the new packs durable.\<close>

lemma in_packs_listed: "index_stored B base ks w j ps \<Longrightarrow> length j = ID_SIZE \<Longrightarrow> in_packs i ps \<Longrightarrow> listed B base ks w i"
  by (auto simp: listed_def)

lemma ensure_writable_run:
  "ensure_writable v = (case ws_failed (rp_state (rw_repo v)) of Some f \<Rightarrow> (Inl (BRunFailed f), v) | None \<Rightarrow> (Inr (), v))"
  by (simp add: ensure_writable_def split: option.splits)

lemma listed_new: "listed B base ks w i \<Longrightarrow> stored w k = None \<Longrightarrow> listed B base ks (new_object w kind j k c n) i"
  by (force simp: listed_def index_stored_def)

lemma index_sound_new: "index_sound B base ks w ix \<Longrightarrow> stored w k = None \<Longrightarrow> index_sound B base ks (new_object w kind j k c n) ix"
  unfolding index_sound_def using pack_stored_new by blast

lemma writer_inv_new:
  assumes "writer_inv B base ks N t w wr" and "\<And>i. k \<noteq> base @ pack_name i" and "bw_random w \<le> n"
  shows "writer_inv B base ks N t (new_object w kind j k c n) wr"
  using assms by (auto simp: writer_inv_def)

lemma flush_index_step:
  assumes I: "repo_inv B C N v" and acc: "accounted {} S v" and B: "bcrypto_ok B"
    and len: "length (ws_new_packs (rp_state (rw_repo v))) < 2 ^ 32"
    and s: "flush_index B v = (res, v')" and N: "bw_random (rw_world v') \<le> N"
  shows "repo_inv B C N v' \<and> accounted {} S v' \<and> same_handle v v' \<and> packs_grow v v' \<and>
    (res = Inr () \<longrightarrow> ws_new_packs (rp_state (rw_repo v')) = [] \<and> ws_writer (rp_state (rw_repo v')) = ws_writer (rp_state (rw_repo v)))"
proof -
  let ?r = "rw_repo v" let ?w = "rw_world v" let ?ps = "ws_new_packs (rp_state ?r)"
  let ?clear = "on_state (\<lambda>st. st\<lparr>ws_new_packs := []\<rparr>)"
  have I': "store_inv B C (rp_base ?r) (rp_keys ?r) N ?w" "packs_ok ?ps"
    "\<forall>p\<in>set ?ps. pack_stored B (rp_base ?r) (rp_keys ?r) ?w (pn_pack p) (pn_entries p)" "index_sound B (rp_base ?r) (rp_keys ?r) ?w (rp_index ?r)"
    using I by (simp_all add: repo_inv_def Let_def)
  consider (busy) "ws_inflight (rp_state ?r) \<noteq> {||}" | (idle) "ws_inflight (rp_state ?r) = {||}" "?ps = []"
    | (packs) "ws_inflight (rp_state ?r) = {||}" "?ps \<noteq> []" by blast
  then show ?thesis
  proof cases
    case busy
    then have "\<exists>e. res = Inl e" "v' = v" using s by (auto simp: flush_index_def)
    then show ?thesis using I acc by (auto simp: packs_grow_def)
  next
    case idle
    then have "v' = v\<lparr>rw_repo := ?clear ?r\<rparr>" using s by (auto simp: flush_index_def act_bind_run)
    moreover have "rp_state ?r\<lparr>ws_new_packs := []\<rparr> = rp_state ?r" using idle(2) by (cases "rp_state ?r") simp
    then have "?clear ?r = ?r" by (cases ?r) (simp add: on_state_def)
    ultimately have "v' = v" by simp
    then show ?thesis using I acc idle by (simp add: packs_grow_def)
  next
    case packs
    obtain q w1 where q: "index_save B (rp_base ?r) (rp_keys ?r) ?ps ?w = (q, w1)" using prod.exhaust by metis
    have run: "v' = (case q of Inr _ \<Rightarrow> \<lparr>rw_repo = ?clear ?r, rw_world = w1\<rparr> | Inl _ \<Rightarrow> \<lparr>rw_repo = on_state (set_failed ''writing index'') (?clear ?r), rw_world = w1\<rparr>) \<and>
        (res = Inr () \<longleftrightarrow> (\<exists>i. q = Inr i))"
      using s packs q by (cases v) (auto simp: flush_index_def act_bind_run act_try_run in_world_run Let_def split: sum.splits)
    then have "bw_random w1 \<le> N" using N by (auto split: sum.splits)
    from index_save_cases [OF B I'(1,2) len I'(3) q this] show ?thesis
    proof (elim disjE exE conjE)
      fix i c n assume i: "q = Inr i" "w1 = new_object ?w CIndex i (rp_base ?r @ index_name i) c n" "fresh_id B N n ?w i" "length i = ID_SIZE"
        "index_open_object B (rp_keys ?r) i c = Inr ?ps" "store_inv B C (rp_base ?r) (rp_keys ?r) N w1"
      have free: "stored ?w (rp_base ?r @ index_name i) = None" using fresh_id_unused [OF _ i(3)] I'(1) by (simp add: store_inv_def)
      have n: "bw_random ?w \<le> n" using i(3) by (simp add: fresh_id_def)
      have v': "v' = \<lparr>rw_repo = ?clear ?r, rw_world = w1\<rparr>" "res = Inr ()" using run i(1) by auto
      have new: "index_stored B (rp_base ?r) (rp_keys ?r) w1 i ?ps" using i(5) by (simp add: index_stored_def i(2))
      have "listed B (rp_base ?r) (rp_keys ?r) w1 j \<or> ws_failed (rp_state ?r) \<noteq> None" if "index_has j (rp_index ?r)" for j
        using I that in_packs_listed [OF new i(4), of j] listed_new [OF _ free, where i = j and ks = "rp_keys ?r" and kind = CIndex and j = i and c = c and n = n]
        unfolding i(2) by (auto simp: repo_inv_def Let_def)
      moreover have "writer_inv B (rp_base ?r) (rp_keys ?r) N (rp_pack_target ?r) w1 wr" if "ws_writer (rp_state ?r) = Some wr" for wr
        unfolding i(2) using I that n by (intro writer_inv_new) (simp_all add: repo_inv_def Let_def)
      moreover have "index_sound B (rp_base ?r) (rp_keys ?r) w1 (rp_index ?r)" unfolding i(2) using index_sound_new [OF I'(4) free] .
      ultimately have "repo_inv B C N v'" using i(6) by (auto simp: v' repo_inv_def Let_def)
      moreover have "accounted {} S v'" using acc by (simp add: v' accounted_def Let_def)
      ultimately show ?thesis using v' n i(2) by (simp add: same_handle_def packs_grow_def)
    next
      fix e n assume e: "q = Inl e" "w1 = ?w\<lparr>bw_random := n\<rparr>" "bw_random ?w \<le> n"
      then have v': "v' = \<lparr>rw_repo = on_state (set_failed ''writing index'') (?clear ?r), rw_world = w1\<rparr>" "res \<noteq> Inr ()" using run by auto
      have "repo_inv B C N (v\<lparr>rw_world := w1\<rparr>)" using repo_inv_random [OF I e(3)] e(2) by simp
      then have "repo_inv B C N v'" by (simp add: v' repo_inv_def Let_def)
      then show ?thesis using v' e by (simp add: same_handle_def packs_grow_def accounted_def Let_def)
    qed
  qed
qed

lemma repo_inv_failed: "repo_inv B C N v \<Longrightarrow> repo_inv B C N (v\<lparr>rw_repo := on_state (set_failed m) (rw_repo v)\<rparr>)"
  by (simp add: repo_inv_def Let_def)

lemma flush_open_step:
  assumes I: "repo_inv B C N v" and acc: "accounted {} S v" and B: "bcrypto_ok B"
    and f: "ws_failed (rp_state (rw_repo v)) = None" and s: "flush_open B v = (res, v')"
  shows "repo_inv B C N v' \<and> same_handle v v' \<and> ws_new_packs (rp_state (rw_repo v')) = ws_new_packs (rp_state (rw_repo v)) \<and>
    (case res of Inl e \<Rightarrow> accounted {} S v' | Inr None \<Rightarrow> accounted {} S v' \<and> ws_writer (rp_state (rw_repo v')) = None
     | Inr (Some pk) \<Rightarrow> pack_fresh B N pk v' \<and> accounted (pack_ids pk) S v' \<and> ws_writer (rp_state (rw_repo v')) = None)"
proof (cases "ws_writer (rp_state (rw_repo v))")
  case None
  then have "res = Inr None" "v' = v" using s by (auto simp: flush_open_def)
  then show ?thesis using I acc None by simp
next
  case (Some wr)
  let ?r = "rw_repo v"
  have wi: "writer_inv B (rp_base ?r) (rp_keys ?r) N (rp_pack_target ?r) (rw_world v) wr" using I Some by (simp add: repo_inv_def Let_def)
  have inf: "ws_inflight (rp_state ?r) = {||}" using acc f by (auto simp: accounted_def Let_def)
  have S: "\<forall>i\<in>S. index_has i (rp_index ?r) \<or> i |\<in>| pw_seen wr" using acc f Some by (auto simp: accounted_def Let_def)
  show ?thesis
  proof (cases "pw_entries wr = []")
    case True
    then have r: "res = Inr None" "v' = v\<lparr>rw_repo := on_state (\<lambda>st. st\<lparr>ws_writer := None\<rparr>) ?r\<rparr>"
      using s Some by (auto simp: flush_open_def act_bind_run)
    have "pw_seen wr = {||}" using wi True by (auto simp: writer_inv_def writer_ok_def)
    then have "accounted {} S v'" using S inf by (auto simp: r(2) accounted_def Let_def)
    moreover have "repo_inv B C N v'" using I by (simp add: r(2) repo_inv_def Let_def)
    ultimately show ?thesis using r by (simp add: same_handle_def)
  next
    case False
    obtain q v1 where q: "take_finish B wr v = (q, v1)" using prod.exhaust by metis
    have w: "writer_ok B (rp_keys ?r) wr" "length (pw_id wr) = ID_SIZE" "stored (rw_world v) (rp_base ?r @ pack_name (pw_id wr)) = None"
      "pw_id wr \<notin> b_random_id B ` {bw_random (rw_world v)..<N}" using wi by (simp_all add: writer_inv_def)
    note st = take_finish_step [OF I B w S f inf q]
    show ?thesis
    proof (cases q)
      case (Inl e)
      then have r: "res \<noteq> Inr x" "v' = v1\<lparr>rw_repo := on_state (set_failed ''finishing pack'') (rw_repo v1)\<rparr>" for x
        using s Some False q by (auto simp: flush_open_def act_bind_run act_try_run)
      then obtain e' where "res = Inl e'" by (cases res) auto
      then show ?thesis using st repo_inv_failed [of B C N v1] by (simp add: r(2) accounted_def Let_def same_handle_def)
    next
      case (Inr pk)
      then have "res = Inr (Some pk)" "v' = v1" using s Some False q by (auto simp: flush_open_def act_bind_run act_try_run)
      then show ?thesis using st Inr by simp
    qed
  qed
qed

lemma flush_index_random: "flush_index B v = (res, v') \<Longrightarrow> bw_random (rw_world v) \<le> bw_random (rw_world v')"
proof -
  have "index_save B base ks ps w = (r, w') \<Longrightarrow> bw_random w \<le> bw_random w'" for base ks ps w r w'
    by (auto simp: index_save_def act_bind_run split: if_splits sum.splits prod.splits dest!: bput_random)
  then show "flush_index B v = (res, v') \<Longrightarrow> bw_random (rw_world v) \<le> bw_random (rw_world v')"
    by (cases v) (auto simp: flush_index_def act_bind_run act_try_run in_world_run Let_def split: if_splits sum.splits prod.splits)
qed

lemma repo_flush_step:
  assumes I: "repo_inv B C N v" and acc: "accounted {} S v" and B: "bcrypto_ok B"
    and len: "length (ws_new_packs (rp_state (rw_repo v))) + 1 < 2 ^ 32"
    and s: "repo_flush B v = (res, v')" and N: "bw_random (rw_world v') \<le> N"
  shows "repo_inv B C N v' \<and> accounted {} S v' \<and> same_handle v v' \<and> packs_grow v v' \<and>
    (res = Inr () \<longrightarrow> ws_new_packs (rp_state (rw_repo v')) = [] \<and> ws_writer (rp_state (rw_repo v')) = None)"
proof (cases "ws_failed (rp_state (rw_repo v))")
  case (Some m)
  then have "\<exists>e. res = Inl e" "v' = v" using s by (auto simp: repo_flush_def act_bind_run ensure_writable_run)
  then show ?thesis using I acc by (auto simp: packs_grow_def)
next
  case None
  obtain q v1 where q: "flush_open B v = (q, v1)" using prod.exhaust by metis
  note st = flush_open_step [OF I acc B None q]
  show ?thesis
  proof (cases q)
    case (Inl e)
    then have "res = Inl e" "v' = v1" using s None q by (simp_all add: repo_flush_def act_bind_run ensure_writable_run)
    then show ?thesis using st Inl by (simp add: packs_grow_def)
  next
    case (Inr fin)
    obtain u v2 where u: "(case fin of None \<Rightarrow> act_ok () | Some pk \<Rightarrow> upload_pack pk) v1 = (u, v2)" using prod.exhaust by metis
    have up: "repo_inv B C N v2 \<and> accounted {} S v2 \<and> same_handle v1 v2 \<and> packs_grow v1 v2 \<and> ws_writer (rp_state (rw_repo v2)) = None"
    proof (cases fin)
      case None
      then show ?thesis using st Inr u by (simp add: packs_grow_def)
    next
      case (Some pk)
      then have fr: "repo_inv B C N v1" "pack_fresh B N pk v1" "accounted (pack_ids pk) S v1" "ws_writer (rp_state (rw_repo v1)) = None"
        "upload_pack pk v1 = (u, v2)" using st Inr u by simp_all
      have "ws_writer (rp_state (rw_repo v2)) = ws_writer (rp_state (rw_repo v1))"
        using fr(5) by (auto simp: upload_pack_def act_bind_run act_try_run in_world_run Let_def split: sum.splits prod.splits)
      then show ?thesis using upload_step [OF fr(1-3) _ fr(5)] fr(4) by simp
    qed
    have h: "same_handle v v2" using st up same_handle_trans by blast
    show ?thesis
    proof (cases u)
      case (Inl e)
      then have "res = Inl e" "v' = v2" using s None q Inr u by (simp_all add: repo_flush_def act_bind_run ensure_writable_run)
      then show ?thesis using up h st by (simp add: packs_grow_def)
    next
      case (Inr x)
      then have f: "flush_index B v2 = (res, v')" using s None q \<open>q = Inr fin\<close> u by (simp add: repo_flush_def act_bind_run ensure_writable_run)
      have grow: "length (ws_new_packs (rp_state (rw_repo v2))) \<le> length (ws_new_packs (rp_state (rw_repo v))) + 1"
        using up st by (simp add: packs_grow_def)
      then have "length (ws_new_packs (rp_state (rw_repo v2))) < 2 ^ 32" using len by simp
      from flush_index_step [OF _ _ B this f N] up
      have fi: "repo_inv B C N v' \<and> accounted {} S v' \<and> same_handle v2 v' \<and> packs_grow v2 v' \<and>
        (res = Inr () \<longrightarrow> ws_new_packs (rp_state (rw_repo v')) = [] \<and> ws_writer (rp_state (rw_repo v')) = ws_writer (rp_state (rw_repo v2)))" by blast
      have "length (ws_new_packs (rp_state (rw_repo v'))) \<le> length (ws_new_packs (rp_state (rw_repo v2)))"
        using f by (cases v2) (auto simp: flush_index_def act_bind_run act_try_run in_world_run Let_def split: if_splits sum.splits prod.splits)
      then have "packs_grow v v'" using grow by (simp add: packs_grow_def)
      then show ?thesis using fi up same_handle_trans [OF h] by simp
    qed
  qed
qed

section \<open>Publishing\<close>

lemma snapshot_save_cases:
  assumes B: "bcrypto_ok B" and C: "codecs_ok C" and I: "store_inv B C base ks N w" and s: "snapshot_save B C base ks sn w = (r, w')" and N: "bw_random w' \<le> N"
  shows "(\<exists>i c n. r = Inr (sn\<lparr>sn_id := i\<rparr>) \<and> w' = new_object w CSnapshot i (base @ snapshot_name i) c n \<and> fresh_id B N n w i \<and> length i = ID_SIZE \<and>
        snapshot_stored B C base ks w' i (sn\<lparr>sn_id := i\<rparr>) \<and> store_inv B C base ks N w') \<or>
    (\<exists>e n. r = Inl e \<and> w' = w\<lparr>bw_random := n\<rparr> \<and> bw_random w \<le> n)"
proof (cases "snapshot_validate sn")
  case (Inl e)
  with s have "r = Inl e \<and> w' = w\<lparr>bw_random := bw_random w\<rparr>" by (auto simp: snapshot_save_def act_bind_run)
  then show ?thesis by blast
next
  case valid: (Inr u)
  let ?i = "b_random_id B (bw_random w)" let ?n = "b_nonce B (Suc (bw_random w))" let ?w1 = "w\<lparr>bw_random := Suc (Suc (bw_random w))\<rparr>"
  show ?thesis
  proof (cases "seal B ?n ks KMeta (cd_snapshot C sn) (snapshot_aad ?i)")
    case (Inl e)
    with valid s have "r = Inl e" "w' = ?w1" by (simp_all add: snapshot_save_def act_bind_run)
    then show ?thesis by auto
  next
    case (Inr c)
    have nl: "length ?n = NONCE_SIZE" using B by (simp add: bcrypto_ok_def brandom_ok_def)
    have v: "snapshot_validate sn = Inr ()" using valid by simp
    note o = snapshot_open_saved [OF B C v nl Inr]
    obtain q w2 where Pair: "bput (base @ snapshot_name ?i) c ?w1 = (q, w2)" using prod.exhaust by metis
    show ?thesis
    proof (cases q)
      case (Inl e)
      with valid s \<open>seal _ _ _ _ _ _ = Inr c\<close> Pair have "r = Inl e" "w' = w2" by (simp_all add: snapshot_save_def act_bind_run)
      moreover have "w2 = ?w1" using Pair Inl bput_err by blast
      ultimately show ?thesis by auto
    next
      case (Inr x)
      with Pair have w2: "w2 = put_world ?w1 (base @ snapshot_name ?i) c" by (auto simp: bput_ok)
      with valid s \<open>seal _ _ _ _ _ _ = Inr c\<close> Pair Inr
      have rw: "r = Inr (sn\<lparr>sn_id := ?i\<rparr>)" "w' = new_object w CSnapshot ?i (base @ snapshot_name ?i) c (Suc (Suc (bw_random w)))"
        by (auto simp: snapshot_save_def act_bind_run random_store_swap)
      have f: "fresh_id B N (Suc (Suc (bw_random w))) w ?i" using I N rw(2) by (intro fresh_id_draw) (auto simp: store_inv_def)
      moreover have "snapshot_stored B C base ks w' ?i (sn\<lparr>sn_id := ?i\<rparr>)" using o by (simp add: rw(2) snapshot_stored_def)
      ultimately show ?thesis using store_inv_new_snapshot [OF I f o] rw random_id_length [OF B] by blast
    qed
  qed
qed

lemma save_snapshot_step:
  assumes I: "repo_inv B C N v" and acc: "accounted {} S v" and B: "bcrypto_ok B" "codecs_ok C"
    and s: "save_snapshot B C sn v = (Inr sn', v')" and N: "bw_random (rw_world v') \<le> N"
  shows "repo_inv B C N v' \<and> accounted {} S v' \<and> same_handle v v' \<and>
    (\<forall>i\<in>S. listed B (rp_base (rw_repo v)) (rp_keys (rw_repo v)) (rw_world v') i) \<and>
    snapshot_stored B C (rp_base (rw_repo v)) (rp_keys (rw_repo v)) (rw_world v') (sn_id sn') sn' \<and> sn' = sn\<lparr>sn_id := sn_id sn'\<rparr>"
proof -
  let ?r = "rw_repo v" let ?w = "rw_world v"
  have f: "ws_failed (rp_state ?r) = None" "ws_new_packs (rp_state ?r) = []" "\<And>wr. ws_writer (rp_state ?r) = Some wr \<Longrightarrow> pw_entries wr = []"
    and sv: "\<exists>w'. snapshot_save B C (rp_base ?r) (rp_keys ?r) sn ?w = (Inr sn', w') \<and> v' = v\<lparr>rw_world := w'\<rparr>"
    using s by (auto simp: save_snapshot_def act_bind_run ensure_writable_run Let_def in_world_ok split: option.splits if_splits)
  then obtain w' where w': "snapshot_save B C (rp_base ?r) (rp_keys ?r) sn ?w = (Inr sn', w')" "v' = v\<lparr>rw_world := w'\<rparr>" by blast
  have I': "store_inv B C (rp_base ?r) (rp_keys ?r) N ?w" using I by (simp add: repo_inv_def Let_def)
  have "bw_random w' \<le> N" using N w'(2) by simp
  from snapshot_save_cases [OF B I' w'(1) this] obtain i c n where i: "sn' = sn\<lparr>sn_id := i\<rparr>" "w' = new_object ?w CSnapshot i (rp_base ?r @ snapshot_name i) c n"
    "fresh_id B N n ?w i" "snapshot_stored B C (rp_base ?r) (rp_keys ?r) w' i (sn\<lparr>sn_id := i\<rparr>)" "store_inv B C (rp_base ?r) (rp_keys ?r) N w'" by auto
  have free: "stored ?w (rp_base ?r @ snapshot_name i) = None" using fresh_id_unused [OF _ i(3)] I' by (simp add: store_inv_def)
  have n: "bw_random ?w \<le> n" using i(3) by (simp add: fresh_id_def)
  have L: "listed B (rp_base ?r) (rp_keys ?r) w' j" if "listed B (rp_base ?r) (rp_keys ?r) ?w j" for j
    unfolding i(2) using listed_new [OF that free] .
  have all: "listed B (rp_base ?r) (rp_keys ?r) ?w j" if "index_has j (rp_index ?r)" for j
    using I f that by (auto simp: repo_inv_def Let_def in_packs_def)
  have "index_has j (rp_index ?r)" if "j \<in> S" for j
  proof -
    have "\<not> (\<exists>wr. ws_writer (rp_state ?r) = Some wr \<and> j |\<in>| pw_seen wr)"
    proof
      assume "\<exists>wr. ws_writer (rp_state ?r) = Some wr \<and> j |\<in>| pw_seen wr"
      then obtain wr where wr: "ws_writer (rp_state ?r) = Some wr" "j |\<in>| pw_seen wr" by blast
      then have "writer_ok B (rp_keys ?r) wr" using I by (simp add: repo_inv_def Let_def writer_inv_def)
      then show False using wr f(3) by (auto simp: writer_ok_def)
    qed
    then show ?thesis using acc f that by (auto simp: accounted_def Let_def)
  qed
  then have "\<forall>j\<in>S. listed B (rp_base ?r) (rp_keys ?r) w' j" using all L by blast
  moreover have "writer_inv B (rp_base ?r) (rp_keys ?r) N (rp_pack_target ?r) w' wr" if "ws_writer (rp_state ?r) = Some wr" for wr
    unfolding i(2) using I that n by (intro writer_inv_new) (simp_all add: repo_inv_def Let_def)
  moreover have "index_sound B (rp_base ?r) (rp_keys ?r) w' (rp_index ?r)"
    unfolding i(2) using I by (intro index_sound_new [OF _ free]) (simp add: repo_inv_def Let_def)
  ultimately show ?thesis using i(1,4,5) all L f(1,2) acc n i(2)
    by (auto simp: w'(2) repo_inv_def Let_def same_handle_def packs_ok_def)
qed

text \<open>What the bucket lists, anyone can read: the index loads, and the blob is where it says.\<close>

lemma listed_readable:
  assumes I: "store_inv B C base ks N w"
  shows "\<exists>ix w'. index_load B base ks w = (Inr ix, w') \<and> (\<forall>i. listed B base ks w i \<longrightarrow> (\<exists>l. index_lookup i ix = Some l \<and>
    (\<forall>w1. (\<forall>k. stored w1 k = stored w k) \<longrightarrow> (\<exists>p w2. load_pack_blob B ks (base @ pack_name (lo_pack l)) (lo_entry l) w1 = (Inr p, w2) \<and> blob_id B ks p = i))))"
proof -
  have n: "named base INDEX_DIR index_name w" "index_genuine B base ks w" "indexes_sound B base ks w" "indexes_open B base ks w"
    using I by (simp_all add: store_inv_def names_ok_def)
  obtain ix w' where l: "index_load B base ks w = (Inr ix, w')" using index_load_total [OF n(1,2)] n(4) by (auto simp: indexes_open_def)
  have sound: "index_sound B base ks w ix" by (rule index_load_sound [OF n(1,2) l n(3)])
  have "\<exists>loc. index_lookup i ix = Some loc \<and> (\<forall>w1. (\<forall>k. stored w1 k = stored w k) \<longrightarrow>
      (\<exists>p w2. load_pack_blob B ks (base @ pack_name (lo_pack loc)) (lo_entry loc) w1 = (Inr p, w2) \<and> blob_id B ks p = i))" if "listed B base ks w i" for i
  proof -
    have "index_has i ix" unfolding index_load_has [OF n(1,2) l] using that by (auto simp: listed_def in_packs_def)
    then obtain loc where loc: "index_lookup i ix = Some loc" by (auto simp: index_has_def index_lookup_def)
    then have s: "pe_id (lo_entry loc) = i" "pack_stored B base ks w (lo_pack loc) [lo_entry loc]" using sound by (auto simp: index_sound_def)
    then obtain data hs p where d: "stored w (base @ pack_name (lo_pack loc)) = Some data" "length data < 2 ^ 64" "holds B ks (lo_entry loc) data p"
      by (auto simp: pack_stored_def pack_ok_def)
    have "blob_id B ks p = i" using d(3) s(1) decode_blob_id by (auto simp: holds_def)
    moreover have "\<exists>w2. load_pack_blob B ks (base @ pack_name (lo_pack loc)) (lo_entry loc) w1 = (Inr p, w2)" if "\<forall>k. stored w1 k = stored w k" for w1
    proof -
      have "stored w1 (base @ pack_name (lo_pack loc)) = Some data" using d(1) that by simp
      from load_pack_blob_ok [OF this d(2,3)] show ?thesis by blast
    qed
    ultimately show ?thesis using loc by blast
  qed
  with l show ?thesis by blast
qed

section \<open>Runs of a backup\<close>

text \<open>
  A run in which every error is swallowed: the blobs whose \<open>save_blob\<close> returned, after any sequence of
  saves and flushes.
\<close>

datatype run_op = OpSave blob_type bytes | OpFlush

fun run_ops :: "benv \<Rightarrow> run_op list \<Rightarrow> bid set \<Rightarrow> rworld \<Rightarrow> bid set \<times> rworld" where
  "run_ops B [] S v = (S, v)"
| "run_ops B (OpSave t p # ops) S v = (case save_blob B t p v of
      (Inr (i, _), v') \<Rightarrow> run_ops B ops (insert i S) v' | (Inl _, v') \<Rightarrow> run_ops B ops S v')"
| "run_ops B (OpFlush # ops) S v = (case repo_flush B v of (_, v') \<Rightarrow> run_ops B ops S v')"

fun op_small :: "run_op \<Rightarrow> bool" where
  "op_small (OpSave t p) \<longleftrightarrow> length p \<le> 2 ^ 31"
| "op_small OpFlush \<longleftrightarrow> True"

lemma current_writer_random: "current_writer B v = (res, v') \<Longrightarrow> bw_random (rw_world v) \<le> bw_random (rw_world v')"
  by (auto simp: current_writer_def act_bind_run in_world_run writer_new_def split: option.splits)

lemma place_blob_random: "place_blob B i sb v = (res, v') \<Longrightarrow> bw_random (rw_world v) \<le> bw_random (rw_world v')"
  by (auto simp: place_blob_def act_bind_run split: option.splits sum.splits prod.splits if_splits dest!: current_writer_random take_finish_random)

lemma save_blob_random: "save_blob B t p v = (res, v') \<Longrightarrow> bw_random (rw_world v) \<le> bw_random (rw_world v')"
proof -
  have sc: "save_check i v = (k, v0) \<Longrightarrow> v0 = v" for i k v0 v
    by (auto simp: save_check_def split: if_splits option.splits)
  assume "save_blob B t p v = (res, v')"
  then show ?thesis
    by (auto simp: save_blob_def Let_def act_bind_run in_world_run split: sum.splits prod.splits option.splits if_splits
        dest!: sc seal_blob_world place_blob_random upload_random)
qed

lemma flush_open_random: "flush_open B v = (res, v') \<Longrightarrow> bw_random (rw_world v) \<le> bw_random (rw_world v')"
  by (auto simp: flush_open_def act_bind_run act_try_run split: option.splits sum.splits prod.splits if_splits dest!: take_finish_random)

lemma repo_flush_random: "repo_flush B v = (res, v') \<Longrightarrow> bw_random (rw_world v) \<le> bw_random (rw_world v')"
  by (auto simp: repo_flush_def act_bind_run ensure_writable_run split: option.splits sum.splits prod.splits
      dest!: flush_open_random upload_random flush_index_random)

lemma run_ops_random: "run_ops B ops S v = (S', v') \<Longrightarrow> bw_random (rw_world v) \<le> bw_random (rw_world v')"
proof (induction B ops S v rule: run_ops.induct)
  case (2 B t p ops S v)
  obtain res v1 where s: "save_blob B t p v = (res, v1)" using prod.exhaust by metis
  show ?case
  proof (cases res)
    case (Inl e)
    then have "run_ops B ops S v1 = (S', v')" using 2(3) s by simp
    then show ?thesis using "2.IH" s Inl save_blob_random [OF s] by fastforce
  next
    case (Inr x)
    obtain i a where x: "x = (i, a)" by (cases x)
    have "run_ops B ops (insert i S) v1 = (S', v')" using 2(3) s Inr x by simp
    then show ?thesis using "2.IH" s Inr x save_blob_random [OF s] by fastforce
  qed
next
  case (3 B ops S v)
  obtain res v1 where s: "repo_flush B v = (res, v1)" using prod.exhaust by metis
  then show ?case using 3 repo_flush_random [OF s] by fastforce
qed simp

lemma run_ops_step:
  assumes B: "bcrypto_ok B" "aead_seals (b_aead B)"
  shows "\<lbrakk>repo_inv B C N v; accounted {} S v; 0 < rp_pack_target (rw_repo v); rp_pack_target (rw_repo v) \<le> TARGET_SIZE;
      \<forall>op\<in>set ops. op_small op; length (ws_new_packs (rp_state (rw_repo v))) + length ops < 2 ^ 32;
      run_ops B ops S v = (S', v'); bw_random (rw_world v') \<le> N\<rbrakk> \<Longrightarrow> repo_inv B C N v' \<and> accounted {} S' v' \<and> same_handle v v' \<and>
      length (ws_new_packs (rp_state (rw_repo v'))) \<le> length (ws_new_packs (rp_state (rw_repo v))) + length ops"
proof (induction ops arbitrary: S v)
  case (Cons op ops)
  note I = Cons.prems(1) and acc = Cons.prems(2) and t = Cons.prems(3,4)
  have goal: "repo_inv B C N v' \<and> accounted {} S' v' \<and> same_handle v v' \<and>
    length (ws_new_packs (rp_state (rw_repo v'))) \<le> length (ws_new_packs (rp_state (rw_repo v))) + length (op # ops)"
    if st: "repo_inv B C N v1 \<and> same_handle v v1 \<and> packs_grow v v1 \<and> accounted {} S1 v1" and r: "run_ops B ops S1 v1 = (S', v')" for S1 v1
  proof -
    have "rp_pack_target (rw_repo v1) = rp_pack_target (rw_repo v)" using st by (simp add: same_handle_def)
    moreover have "length (ws_new_packs (rp_state (rw_repo v1))) + length ops < 2 ^ 32" using st Cons.prems(6) by (simp add: packs_grow_def)
    ultimately have "repo_inv B C N v' \<and> accounted {} S' v' \<and> same_handle v1 v' \<and>
        length (ws_new_packs (rp_state (rw_repo v'))) \<le> length (ws_new_packs (rp_state (rw_repo v1))) + length ops"
      using Cons.IH [of v1 S1] st t r Cons.prems(5,8) by simp
    moreover have "same_handle v v1" "packs_grow v v1" using st by simp_all
    ultimately show ?thesis using same_handle_trans by (auto simp: packs_grow_def)
  qed
  show ?case
  proof (cases op)
    case (OpSave bt p)
    obtain res v1 where s: "save_blob B bt p v = (res, v1)" using prod.exhaust by metis
    have p: "length p \<le> 2 ^ 31" using Cons.prems(5) OpSave by simp
    show ?thesis
    proof (cases res)
      case (Inl e)
      then have r: "run_ops B ops S v1 = (S', v')" using Cons.prems(7) OpSave s by simp
      have N: "bw_random (rw_world v1) \<le> N" using run_ops_random [OF r] Cons.prems(8) by simp
      from save_blob_step [OF I acc B t p s N] Inl show ?thesis by (intro goal [OF _ r]) simp
    next
      case (Inr x)
      obtain i a where x: "x = (i, a)" by (cases x)
      then have r: "run_ops B ops (insert i S) v1 = (S', v')" using Cons.prems(7) OpSave s Inr by simp
      have N: "bw_random (rw_world v1) \<le> N" using run_ops_random [OF r] Cons.prems(8) by simp
      from save_blob_step [OF I acc B t p s N] Inr x show ?thesis by (intro goal [OF _ r]) auto
    qed
  next
    case OpFlush
    obtain res v1 where s: "repo_flush B v = (res, v1)" using prod.exhaust by metis
    then have r: "run_ops B ops S v1 = (S', v')" using Cons.prems(7) OpFlush by simp
    have N: "bw_random (rw_world v1) \<le> N" using run_ops_random [OF r] Cons.prems(8) by simp
    have "length (ws_new_packs (rp_state (rw_repo v))) + 1 < 2 ^ 32" using Cons.prems(6) by simp
    from repo_flush_step [OF I acc B(1) this s N] show ?thesis by (intro goal [OF _ r]) simp
  qed
qed simp

text \<open>A fresh handle satisfies the invariant: after creating a repository in an empty bucket, and after opening one.\<close>

lemma repo_new_inv:
  assumes "store_inv B C base ks N w" and "index_sound B base ks w ix" and "\<forall>i. index_has i ix \<longrightarrow> listed B base ks w i"
  shows "repo_inv B C N \<lparr>rw_repo = repo_new base ks config ix, rw_world = w\<rparr> \<and> accounted {} {} \<lparr>rw_repo = repo_new base ks config ix, rw_world = w\<rparr>"
  using assms by (simp add: repo_inv_def accounted_def repo_new_def write_state_default_def Let_def)

lemma store_inv_same:
  assumes I: "store_inv B C base ks N w" and s: "same_objects w w'" and g: "index_genuine B base ks w'" "snapshot_genuine B C base ks w'"
    and c: "\<forall>n\<in>{bw_random w..<N}. \<forall>kind. cache_get kind (b_random_id B n) w' = None"
  shows "store_inv B C base ks N w'"
proof -
  have st: "stored w' k = stored w k" for k using same_stored [OF s] .
  have "indexes_sound B base ks w' = indexes_sound B base ks w" "indexes_open B base ks w' = indexes_open B base ks w"
    by (simp_all only: indexes_sound_def indexes_open_def index_stored_cong [OF st] pack_stored_cong [OF st] st)
  moreover have "names_ok base w' = names_ok base w" by (rule names_ok_cong [OF st])
  moreover have "random_fresh B base N w'" using I s c by (simp add: store_inv_def random_fresh_def Let_def st same_objects_def)
  ultimately show ?thesis using I g unfolding store_inv_def by blast
qed

lemma config_name_other [simp]:
  "CONFIG_NAME \<noteq> pack_name i" "CONFIG_NAME \<noteq> index_name i" "CONFIG_NAME \<noteq> snapshot_name i"
  "pack_name i \<noteq> CONFIG_NAME" "index_name i \<noteq> CONFIG_NAME" "snapshot_name i \<noteq> CONFIG_NAME"
  "\<not> prefix PACK_DIR CONFIG_NAME" "\<not> prefix INDEX_DIR CONFIG_NAME" "\<not> prefix SNAPSHOT_DIR CONFIG_NAME"
  by (simp_all add: CONFIG_NAME_def pack_name_def index_name_def snapshot_name_def PACK_DIR_def INDEX_DIR_def SNAPSHOT_DIR_def)

lemma bhead_run: "from_bstore (mem_head k) w = (Inr (map_option (mem_meta k) (fmlookup (objects w) k)), w)"
  by (simp add: from_bstore_run mem_head_def)

lemma store_inv_put_config:
  assumes I: "store_inv B C base ks N w"
  shows "store_inv B C base ks N (put_world w (base @ CONFIG_NAME) s)" (is "store_inv B C base ks N ?w")
proof -
  have st: "index_stored B base ks ?w i ps = index_stored B base ks w i ps" "pack_stored B base ks ?w i es = pack_stored B base ks w i es" for i ps es
    by (simp_all add: index_stored_def pack_stored_def)
  have "indexes_sound B base ks ?w = indexes_sound B base ks w" "indexes_open B base ks ?w = indexes_open B base ks w"
    by (simp_all add: indexes_sound_def indexes_open_def st)
  moreover have "index_genuine B base ks ?w = index_genuine B base ks w" "snapshot_genuine B C base ks ?w = snapshot_genuine B C base ks w"
    by (rule genuine_cong, simp_all)+
  moreover have "names_ok base ?w" using I by (auto simp: store_inv_def names_ok_def intro!: named_put)
  moreover have "random_fresh B base N ?w" using I by (simp add: store_inv_def random_fresh_def Let_def)
  ultimately show ?thesis using I unfolding store_inv_def by blast
qed

lemma repo_init_inv:
  assumes I: "\<And>i. store_inv B C (repo_base pre) ks N (w\<lparr>bw_cache := opened i\<rparr>)" and s: "repo_init B C L pre ks options opened w = (Inr r, w')"
  shows "repo_inv B C N \<lparr>rw_repo = r, rw_world = w'\<rparr> \<and> accounted {} {} \<lparr>rw_repo = r, rw_world = w'\<rparr> \<and> rp_pack_target r = TARGET_SIZE \<and>
    rp_base r = repo_base pre \<and> rp_keys r = ks \<and> ws_new_packs (rp_state r) = []"
proof -
  let ?i = "b_random_id B (bw_random w)" let ?base = "repo_base pre"
  obtain c config where r: "r = repo_new ?base ks config index_new"
    and w': "w' = (put_world (w\<lparr>bw_random := Suc (Suc (bw_random w))\<rparr>) (?base @ CONFIG_NAME) c)\<lparr>bw_cache := opened ?i\<rparr>"
    using s by (auto simp: repo_init_def Let_def act_bind_ok from_bstore_run mem_head_def bput_ok split: if_splits)
  have "store_inv B C ?base ks N ((w\<lparr>bw_cache := opened ?i\<rparr>)\<lparr>bw_random := Suc (Suc (bw_random w))\<rparr>)"
    by (rule store_inv_random [OF I]) simp
  from store_inv_put_config [OF this, of c] have "store_inv B C ?base ks N w'" unfolding w' by (cases w) simp
  moreover have "index_sound B ?base ks w' index_new" "\<forall>i. \<not> index_has i index_new"
    by (simp_all add: index_sound_def index_new_def index_lookup_def index_has_def)
  ultimately show ?thesis using repo_new_inv [of B C ?base ks N w' index_new config] by (simp add: r) (simp add: repo_new_def write_state_default_def)
qed

lemma repo_open_inv:
  assumes I: "\<And>i. store_inv B C (repo_base pre) ks N (w\<lparr>bw_cache := opened i\<rparr>)" and s: "repo_open B C L pre ks opened w = (Inr r, w')"
  shows "repo_inv B C N \<lparr>rw_repo = r, rw_world = w'\<rparr> \<and> accounted {} {} \<lparr>rw_repo = r, rw_world = w'\<rparr> \<and> rp_pack_target r = TARGET_SIZE \<and>
    rp_base r = repo_base pre \<and> rp_keys r = ks \<and> ws_new_packs (rp_state r) = []"
proof -
  let ?base = "repo_base pre"
  obtain b config ix where r: "r = repo_new ?base ks config ix"
    and l: "index_load B ?base ks ((w\<lparr>bw_store := count_read b (bw_store w)\<rparr>)\<lparr>bw_cache := opened (rc_id config)\<rparr>) = (Inr ix, w')"
    using s by (auto simp: repo_open_def Let_def act_bind_ok bget_ok bhead_run split: if_splits)
  let ?w0 = "w\<lparr>bw_cache := opened (rc_id config)\<rparr>"
  let ?w1 = "(w\<lparr>bw_store := count_read b (bw_store w)\<rparr>)\<lparr>bw_cache := opened (rc_id config)\<rparr>"
  note I0 = I [of "rc_id config"]
  have same: "same_objects ?w0 ?w1" by (simp add: same_objects_def)
  have cg: "cache_get kind i ?w1 = cache_get kind i ?w0" for kind i by (simp add: cache_get_def)
  have "genuine k opens key ?w1 = genuine k opens key ?w0" for k key and opens :: "bid \<Rightarrow> bytes \<Rightarrow> pack_entries list bresult"
    by (rule genuine_cong) (simp_all add: same_stored [OF same] cg)
  moreover have "genuine k opens key ?w1 = genuine k opens key ?w0" for k key and opens :: "bid \<Rightarrow> bytes \<Rightarrow> backup_snapshot bresult"
    by (rule genuine_cong) (simp_all add: same_stored [OF same] cg)
  moreover have "\<forall>n\<in>{bw_random ?w0..<N}. \<forall>kind. cache_get kind (b_random_id B n) ?w1 = None" using I0 cg
    by (simp add: store_inv_def random_fresh_def Let_def)
  ultimately have I1: "store_inv B C ?base ks N ?w1" using store_inv_same [OF I0 same] I0 by (simp add: store_inv_def)
  then have n: "named ?base INDEX_DIR index_name ?w1" "index_genuine B ?base ks ?w1" "indexes_sound B ?base ks ?w1" "snapshot_genuine B C ?base ks ?w1"
    by (simp_all add: store_inv_def names_ok_def)
  from index_load_ok [OF n(1,2) l] have w': "same_objects ?w1 w'" "index_genuine B ?base ks w'"
    "\<forall>kind' j. cache_get kind' j w' = cache_get kind' j ?w1 \<or> kind' = CIndex \<and> stored ?w1 (?base @ index_name j) \<noteq> None" by blast+
  have sn: "snapshot_genuine B C ?base ks w' = snapshot_genuine B C ?base ks ?w1"
    using w'(3) by (intro genuine_cong same_stored [OF w'(1)]) auto
  have rf: "random_fresh B ?base N ?w1" using I1 by (simp add: store_inv_def)
  have "cache_get kind (b_random_id B n) w' = None" if "n\<in>{bw_random ?w1..<N}" for n kind
  proof -
    have "stored ?w1 (?base @ index_name (b_random_id B n)) = None" "cache_get kind (b_random_id B n) ?w1 = None"
      using rf that unfolding random_fresh_def Let_def by blast+
    then show ?thesis using w'(3) by metis
  qed
  then have I2: "store_inv B C ?base ks N w'" using store_inv_same [OF I1 w'(1,2)] sn n(4) by simp
  have "index_sound B ?base ks w' ix"
    using index_load_sound [OF n(1,2) l n(3)] index_sound_cong [OF same_stored [OF w'(1)]] by simp
  moreover have "listed B ?base ks w' i" if "index_has i ix" for i
  proof -
    from that have "listed B ?base ks ?w1 i" unfolding index_load_has [OF n(1,2) l] listed_def in_packs_def by blast
    then show ?thesis using listed_cong [OF same_stored [OF w'(1)]] by simp
  qed
  ultimately show ?thesis using repo_new_inv [OF I2, of ix config] by (simp add: r) (simp add: repo_new_def write_state_default_def)
qed

end
