(* ===== verification/Repository_Runs.thy ===== *)
theory Repository_Runs
  imports Repository_Safety
begin

text \<open>
  Runs of a backup from an opened repository to its snapshot: what a published snapshot guarantees, that
  a run against a healthy store completes, that a lost index is recovered from the packs, and the
  concrete run of the witnesses.
\<close>

section \<open>A healthy store\<close>

text \<open>No write fails, and the crypto and the compressor work.\<close>

definition healthy :: "bworld \<Rightarrow> bool" where
  "healthy w \<longleftrightarrow> (\<forall>k. maybe_fail_put k (bw_store w) = Inr ())"

definition env_total :: "benv \<Rightarrow> bool" where
  "env_total B \<longleftrightarrow> aead_seals (b_aead B) \<and> (\<forall>n k p a. \<exists>c. encrypt_bytes (b_aead B) n k p a = Inr c) \<and> (\<forall>p. b_zstd B p \<noteq> None)"

lemma env_seals: "env_total B \<Longrightarrow> \<exists>c. seal B n ks kind p a = Inr c"
  by (simp add: env_total_def seal_ok)

lemma maybe_fail_insert [simp]: "maybe_fail_put k (mem_insert t k' b s) = maybe_fail_put k s"
  by (simp add: maybe_fail_put_def mem_insert_def)

lemma healthy_updates [simp]:
  "healthy (w\<lparr>bw_random := n\<rparr>) = healthy w" "healthy (w\<lparr>bw_cache := c\<rparr>) = healthy w"
  "healthy (w\<lparr>bw_store := mem_insert t k b (bw_store w)\<rparr>) = healthy w"
  "healthy (w\<lparr>bw_store := count_read b (bw_store w)\<rparr>) = healthy w"
  by (simp_all add: healthy_def)

lemma healthy_put: "healthy w \<Longrightarrow> bput k b w = (Inr (), put_world w k b)"
  by (simp add: bput_ok healthy_def)

lemma seal_blob_total:
  assumes B: "bcrypto_ok B" "env_total B" and p: "length p \<le> 2 ^ 31"
  shows "\<exists>sb n. seal_blob B ks want t i p w = (Inr sb, w\<lparr>bw_random := n\<rparr>) \<and> length (sb_sealed sb) \<le> 2 ^ 31 + 2 ^ 20"
proof -
  obtain d used where c: "compress B p want = Inr (d, used)"
  proof (cases "compress B p want")
    case (Inl e)
    obtain z where "b_zstd B p = Some z" using B(2) unfolding env_total_def by blast
    with Inl show ?thesis by (auto simp: compress_def split: if_splits)
  qed auto
  have d: "length d \<le> 2 ^ 31" using decompress_compress(2) [OF _ c] B(1) p by (simp add: bcrypto_ok_def)
  have fc: "frame_count (length d) \<le> 32769" using d by (auto simp: frame_count_def CHUNK_SIZE_def)
  let ?n = "b_nonce B (bw_random w)"
  have "frame_count (length d) \<le> 2 ^ 32" using fc by simp
  from seal_total [OF _ this, of B ?n ks "blob_key_kind t" "blob_aad t i"] B(2)
  obtain s where s: "seal B ?n ks (blob_key_kind t) d (blob_aad t i) = Inr s" by (auto simp: env_total_def)
  have "length s = 19 + length d + 16 * frame_count (length d)"
    using seal_length [OF _ _ s] B(1) by (simp add: bcrypto_ok_def brandom_ok_def NONCE_SIZE_def TAG_SIZE_def)
  then have "length s \<le> 2 ^ 31 + 2 ^ 20" using d fc by simp
  then show ?thesis using p c s by (intro exI [of _ "\<lparr>sb_type = t, sb_compression = used, sb_id = i, sb_plain = of_nat (length p), sb_sealed = s\<rparr>"] exI [of _ "Suc (bw_random w)"])
      (simp add: seal_blob_def)
qed

lemma writer_push_total:
  assumes "length (pw_buf wr) < TARGET_SIZE" and "length (sb_sealed sb) \<le> 2 ^ 31 + 2 ^ 20"
  shows "writer_push sb wr \<noteq> Inl e"
proof -
  have "unat (of_nat (length (sb_sealed sb)) :: u32) \<le> 2 ^ 31 + 2 ^ 20" using assms(2) by (simp add: unat_of_nat)
  then show ?thesis using assms(1) by (auto simp: writer_push_def TARGET_SIZE_def Let_def)
qed

lemma upload_healthy:
  assumes "healthy (rw_world v)"
  shows "\<exists>v'. upload_pack pk v = (Inr (), v') \<and> healthy (rw_world v') \<and> ws_failed (rp_state (rw_repo v')) = ws_failed (rp_state (rw_repo v))"
  using healthy_put [OF assms] assms by (auto simp: upload_pack_def act_bind_run act_try_run in_world_run)

lemma take_finish_healthy: "take_finish B wr v = (r, v') \<Longrightarrow> healthy (rw_world v') = healthy (rw_world v) \<and>
    ws_failed (rp_state (rw_repo v')) = ws_failed (rp_state (rw_repo v))"
proof -
  assume t: "take_finish B wr v = (r, v')"
  obtain q w' where q: "writer_finish B (rp_keys (rw_repo v)) wr (rw_world v) = (q, w')" using prod.exhaust by metis
  with t have "rw_world v' = w'" "ws_failed (rp_state (rw_repo v')) = ws_failed (rp_state (rw_repo v))"
    unfolding take_finish_run by (cases q; auto)+
  with writer_finish_world [OF q] show ?thesis by auto
qed

lemma current_writer_healthy: "current_writer B v = (r, v') \<Longrightarrow> healthy (rw_world v') = healthy (rw_world v) \<and>
    ws_failed (rp_state (rw_repo v')) = ws_failed (rp_state (rw_repo v))"
  by (auto simp: current_writer_def act_bind_run in_world_run writer_new_def split: option.splits)

lemma place_blob_healthy: "place_blob B i sb v = (r, v') \<Longrightarrow> healthy (rw_world v') = healthy (rw_world v) \<and>
    ws_failed (rp_state (rw_repo v')) = ws_failed (rp_state (rw_repo v))"
  by (auto simp: place_blob_def act_bind_run split: option.splits sum.splits prod.splits if_splits
      dest!: current_writer_healthy take_finish_healthy)

definition run_healthy :: "rworld \<Rightarrow> bool" where
  "run_healthy v \<longleftrightarrow> healthy (rw_world v) \<and> ws_failed (rp_state (rw_repo v)) = None"

lemma save_blob_healthy:
  assumes I: "repo_inv B C N v" and acc: "accounted {} S v" and B: "bcrypto_ok B" "env_total B"
    and t: "0 < rp_pack_target (rw_repo v)" "rp_pack_target (rw_repo v) \<le> TARGET_SIZE" and p: "length p \<le> 2 ^ 31" and h: "run_healthy v"
    and s: "save_blob B bt p v = (res, v')" and N: "bw_random (rw_world v') \<le> N"
  shows "\<exists>added. res = Inr (blob_id B (rp_keys (rw_repo v)) p, added) \<and> run_healthy v'"
proof -
  let ?r = "rw_repo v" let ?i = "blob_id B (rp_keys ?r) p"
  have f: "ws_failed (rp_state ?r) = None" "healthy (rw_world v)" using h by (simp_all add: run_healthy_def)
  obtain k where k: "save_check ?i v = (Inr k, v)" using f by (cases "index_has ?i (rp_index ?r)") (auto simp: save_check_def)
  show ?thesis
  proof (cases k)
    case True
    then show ?thesis using s k h by (auto simp: save_blob_def Let_def)
  next
    case False
    obtain sb n where sb: "seal_blob B (rp_keys ?r) (rc_compression (rp_config ?r)) bt ?i p (rw_world v) = (Inr sb, (rw_world v)\<lparr>bw_random := n\<rparr>)"
      "length (sb_sealed sb) \<le> 2 ^ 31 + 2 ^ 20" using seal_blob_total [OF B p] by blast
    let ?v1 = "v\<lparr>rw_world := (rw_world v)\<lparr>bw_random := n\<rparr>\<rparr>"
    obtain pl v2 where pl: "place_blob B ?i sb ?v1 = (pl, v2)" using prod.exhaust by metis
    have run: "(res, v') = (case pl of Inl e \<Rightarrow> (Inl e, v2) | Inr None \<Rightarrow> (Inr (?i, False), v2)
        | Inr (Some (added, None)) \<Rightarrow> (Inr (?i, added), v2)
        | Inr (Some (added, Some pk)) \<Rightarrow> act_bind (upload_pack pk) (\<lambda>_. act_ok (?i, added)) v2)"
      using s k False sb(1) pl by (auto simp: save_blob_def Let_def act_bind_run in_world_run split: sum.splits option.splits prod.splits)
    have n: "bw_random (rw_world v) \<le> n" using seal_blob_world [OF sb(1)] by (metis bworld.select_convs(3) bworld.surjective bworld.update_convs(3))
    have I1: "repo_inv B C N ?v1" "accounted {} S ?v1" using repo_inv_random [OF I n] acc by simp_all
    have N2: "bw_random (rw_world v2) \<le> N"
      using run N by (auto simp: act_bind_run split: sum.splits option.splits prod.splits dest!: upload_random)
    have A: "aead_seals (b_aead B)" using B(2) by (simp add: env_total_def)
    have ok: "sealed_ok B (rp_keys (rw_repo ?v1)) sb" "sb_id sb = ?i" using seal_blob_ok [OF B(1) p sb(1)] by simp_all
    have t1: "0 < rp_pack_target (rw_repo ?v1)" "rp_pack_target (rw_repo ?v1) \<le> TARGET_SIZE" using t by simp_all
    have h2: "healthy (rw_world v2)" "ws_failed (rp_state (rw_repo v2)) = None" using place_blob_healthy [OF pl] f by simp_all
    have "\<nexists>e. pl = Inl e"
    proof
      assume "\<exists>e. pl = Inl e"
      then obtain wr e' where "length (pw_buf wr) < rp_pack_target ?r" "writer_push sb wr = Inl e'"
        using place_step [OF I1 B(1) A t1 ok pl N2] f by auto
      then show False using writer_push_total [OF _ sb(2), of wr e'] t(2) by simp
    qed
    then obtain x where x: "pl = Inr x" by (cases pl) auto
    show ?thesis
    proof (cases "\<exists>added pk. x = Some (added, Some pk)")
      case True
      then obtain added pk where pk: "x = Some (added, Some pk)" by blast
      from upload_healthy [OF h2(1), of pk] obtain v3 where "upload_pack pk v2 = (Inr (), v3)" "healthy (rw_world v3)"
        "ws_failed (rp_state (rw_repo v3)) = ws_failed (rp_state (rw_repo v2))" by blast
      then show ?thesis using run x pk h2 by (simp add: run_healthy_def)
    next
      case False
      then show ?thesis using run x h2 by (auto simp: run_healthy_def split: option.splits)
    qed
  qed
qed

lemma index_save_healthy:
  assumes "env_total B" and "healthy w" and "ps \<noteq> []"
  shows "\<exists>i w'. index_save B base ks ps w = (Inr i, w') \<and> healthy w'"
proof -
  let ?i = "b_random_id B (bw_random w)" let ?w1 = "w\<lparr>bw_random := Suc (Suc (bw_random w))\<rparr>"
  obtain c where c: "seal B (b_nonce B (Suc (bw_random w))) ks KMeta (index_encode ps) (index_aad ?i) = Inr c" using env_seals [OF assms(1)] by blast
  have "healthy ?w1" using assms(2) by simp
  from healthy_put [OF this, of "base @ index_name ?i" c] show ?thesis using assms c by (simp add: index_save_def act_bind_run random_store_swap)
qed

lemma repo_flush_healthy:
  assumes I: "repo_inv B C N v" and acc: "accounted {} S v" and B: "bcrypto_ok B" "env_total B"
    and t: "rp_pack_target (rw_repo v) \<le> TARGET_SIZE" and h: "run_healthy v" and s: "repo_flush B v = (res, v')"
  shows "res = Inr () \<and> run_healthy v'"
proof -
  let ?r = "rw_repo v"
  have f: "ws_failed (rp_state ?r) = None" "healthy (rw_world v)" using h by (simp_all add: run_healthy_def)
  have inf: "ws_inflight (rp_state ?r) = {||}" using acc f by (auto simp: accounted_def Let_def)
  obtain q v1 where q: "flush_open B v = (q, v1)" using prod.exhaust by metis
  have opened: "(\<exists>fin. q = Inr fin) \<and> run_healthy v1 \<and> (case q of Inr (Some pk) \<Rightarrow> fset (ws_inflight (rp_state (rw_repo v1))) \<subseteq> pack_ids pk | _ \<Rightarrow> ws_inflight (rp_state (rw_repo v1)) = {||})"
  proof (cases "ws_writer (rp_state ?r)")
    case None
    then have "q = Inr None" "v1 = v" using q by (auto simp: flush_open_def)
    then show ?thesis using h inf by simp
  next
    case (Some wr)
    show ?thesis
    proof (cases "pw_entries wr = []")
      case True
      then have "q = Inr None" "v1 = v\<lparr>rw_repo := on_state (\<lambda>st. st\<lparr>ws_writer := None\<rparr>) ?r\<rparr>" using q Some by (auto simp: flush_open_def act_bind_run)
      then show ?thesis using h inf by (simp add: run_healthy_def)
    next
      case False
      have wi: "writer_ok B (rp_keys ?r) wr" "length (pw_buf wr) < rp_pack_target ?r" using I Some by (auto simp: repo_inv_def Let_def writer_inv_def)
      then have "length (pw_entries wr) \<le> 479350" using t by (simp add: writer_ok_def TARGET_SIZE_def)
      from writer_finish_total [OF B(1) _ wi(1) False this, of "rw_world v"] B(2) obtain pk w' where
        w: "writer_finish B (rp_keys ?r) wr (rw_world v) = (Inr pk, w')" by (auto simp: env_total_def)
      obtain r2 v2 where tf: "take_finish B wr v = (r2, v2)" using prod.exhaust by metis
      then have r2: "r2 = Inr pk" "fset (ws_inflight (rp_state (rw_repo v2))) \<subseteq> pack_ids pk"
        using w inf unfolding take_finish_run by (auto simp: pack_ids_def fset_of_list.rep_eq)
      then have "q = Inr (Some pk)" "v1 = v2" using q Some False tf by (auto simp: flush_open_def act_bind_run act_try_run)
      then show ?thesis using r2 take_finish_healthy [OF tf] f by (simp add: run_healthy_def)
    qed
  qed
  then obtain fin where fin: "q = Inr fin" by blast
  have h1: "healthy (rw_world v1)" "ws_failed (rp_state (rw_repo v1)) = None" using opened by (simp_all add: run_healthy_def)
  have up: "\<exists>v2. (case fin of None \<Rightarrow> act_ok () | Some pk \<Rightarrow> upload_pack pk) v1 = (Inr (), v2) \<and> run_healthy v2 \<and> ws_inflight (rp_state (rw_repo v2)) = {||}"
  proof (cases fin)
    case None
    then show ?thesis using opened fin by simp
  next
    case (Some pk)
    have e: "upload_pack pk v1 = (Inr (), \<lparr>rw_repo = uploaded_pack pk (rw_repo v1), rw_world = put_world (rw_world v1) (rp_base (rw_repo v1) @ pack_name (pk_id pk)) (pk_data pk)\<rparr>)"
      using healthy_put [OF h1(1)] by (simp add: upload_pack_def act_bind_run act_try_run in_world_run repo_key_def)
    have "fset (ws_inflight (rp_state (rw_repo v1)) |-| fset_of_list (map pe_id (pk_entries pk))) = {}"
      using opened fin Some by (auto simp: pack_ids_def fset_of_list.rep_eq)
    then have "ws_inflight (rp_state (rw_repo v1)) |-| fset_of_list (map pe_id (pk_entries pk)) = {||}" by (simp add: fset_inject [symmetric] del: fset_inject)
    then show ?thesis using e h1 Some by (simp add: run_healthy_def)
  qed
  then obtain v2 where v2: "(case fin of None \<Rightarrow> act_ok () | Some pk \<Rightarrow> upload_pack pk) v1 = (Inr (), v2)" "run_healthy v2"
    "ws_inflight (rp_state (rw_repo v2)) = {||}" by blast
  have fi: "flush_index B v2 = (res, v')" using s f q fin v2 by (simp add: repo_flush_def act_bind_run ensure_writable_run)
  show ?thesis
  proof (cases "ws_new_packs (rp_state (rw_repo v2)) = []")
    case True
    then show ?thesis using fi v2 by (auto simp: flush_index_def act_bind_run run_healthy_def)
  next
    case False
    have "healthy (rw_world v2)" using v2(2) by (simp add: run_healthy_def)
    from index_save_healthy [OF B(2) this False] obtain i w' where
      "index_save B (rp_base (rw_repo v2)) (rp_keys (rw_repo v2)) (ws_new_packs (rp_state (rw_repo v2))) (rw_world v2) = (Inr i, w')" "healthy w'"
      by blast
    then show ?thesis using fi v2 False by (cases v2) (auto simp: flush_index_def act_bind_run act_try_run in_world_run run_healthy_def Let_def)
  qed
qed

lemma save_snapshot_healthy:
  assumes acc: "accounted {} S v" and B: "env_total B" and h: "run_healthy v" and clean: "ws_new_packs (rp_state (rw_repo v)) = []" "ws_writer (rp_state (rw_repo v)) = None"
    and sn: "snapshot_validate sn = Inr ()"
  shows "\<exists>sn' v'. save_snapshot B C sn v = (Inr sn', v')"
proof -
  let ?r = "rw_repo v" let ?w = "rw_world v"
  have f: "ws_failed (rp_state ?r) = None" "healthy ?w" using h by (simp_all add: run_healthy_def)
  have inf: "ws_inflight (rp_state ?r) = {||}" using acc f by (auto simp: accounted_def Let_def)
  let ?i = "b_random_id B (bw_random ?w)" let ?w1 = "?w\<lparr>bw_random := Suc (Suc (bw_random ?w))\<rparr>"
  obtain c where c: "seal B (b_nonce B (Suc (bw_random ?w))) (rp_keys ?r) KMeta (cd_snapshot C sn) (snapshot_aad ?i) = Inr c" using env_seals [OF B] by blast
  have "healthy ?w1" using f(2) by simp
  from healthy_put [OF this, of "rp_base ?r @ snapshot_name ?i" c]
  show ?thesis using f inf clean sn c
    by (simp add: save_snapshot_def act_bind_run ensure_writable_run snapshot_save_def in_world_run)
qed

section \<open>Whole runs\<close>

lemma repo_open_or_init_inv:
  assumes I: "\<And>i. store_inv B C (repo_base pre) ks N (w\<lparr>bw_cache := opened i\<rparr>)" and s: "repo_open_or_init B C L pre ks options opened w = (Inr r, w')"
  shows "repo_inv B C N \<lparr>rw_repo = r, rw_world = w'\<rparr> \<and> accounted {} {} \<lparr>rw_repo = r, rw_world = w'\<rparr> \<and> rp_pack_target r = TARGET_SIZE \<and>
    rp_base r = repo_base pre \<and> rp_keys r = ks \<and> ws_new_packs (rp_state r) = []"
proof -
  have "repo_open B C L pre ks opened w = (Inr r, w') \<or> repo_init B C L pre ks options opened w = (Inr r, w')"
    using s by (auto simp: repo_open_or_init_def act_bind_run bhead_run split: if_splits)
  then show ?thesis
  proof
    assume "repo_open B C L pre ks opened w = (Inr r, w')"
    from repo_open_inv [OF I this] show ?thesis .
  next
    assume "repo_init B C L pre ks options opened w = (Inr r, w')"
    from repo_init_inv [OF I this] show ?thesis .
  qed
qed

lemma index_load_same:
  assumes "index_load B base ks w = (Inr ix, w')"
  shows "same_objects w w'"
proof -
  have one: "index_load_one B base ks i u = (Inr x, u') \<Longrightarrow> same_objects u u'" for i u x u'
    by (auto simp: index_load_one_def index_fetch_def act_bind_ok bget_ok split: option.splits sum.splits)
  from assms obtain ids ys w1 where l: "list_ids base INDEX_DIR w = (Inr ids, w1)" "act_map (\<lambda>(i, _). index_load_one B base ks i) ids w1 = (Inr ys, w')"
    by (auto simp: index_load_def act_bind_ok)
  from list_ids_result [OF l(1)] have w1: "w1 = w" by simp
  have "list_all2 (\<lambda>_ _. True) ids ys \<and> same_objects w w'"
  proof (rule act_map_rel [OF _ _ l(2)], goal_cases)
    case (1 p u x u')
    obtain i n where "p = (i, n)" by (cases p)
    with 1(3) have "same_objects u u'" using one [of i u x u'] by simp
    then show ?case using same_objects_trans [OF 1(2)] by simp
  qed (simp add: w1)
  then show ?thesis by simp
qed

lemma repo_open_healthy:
  assumes "repo_open B C L pre ks opened w = (Inr r, w')"
  shows "healthy w' = healthy w"
proof -
  obtain b i ix base where "index_load B base ks ((w\<lparr>bw_store := count_read b (bw_store w)\<rparr>)\<lparr>bw_cache := opened i\<rparr>) = (Inr ix, w')"
    using assms by (auto simp: repo_open_def Let_def act_bind_ok bget_ok bhead_run split: if_splits)
  from index_load_same [OF this] show ?thesis by (simp add: same_objects_def healthy_def)
qed

lemma repo_init_healthy:
  assumes "repo_init B C L pre ks options opened w = (Inr r, w')"
  shows "healthy w' = healthy w"
  using assms by (auto simp: repo_init_def Let_def act_bind_ok from_bstore_run mem_head_def bput_ok healthy_def split: if_splits)

lemma repo_open_or_init_healthy:
  "repo_open_or_init B C L pre ks options opened w = (Inr r, w') \<Longrightarrow> healthy w' = healthy w"
  by (auto simp: repo_open_or_init_def act_bind_run bhead_run split: if_splits dest: repo_open_healthy repo_init_healthy)

lemma repo_open_or_init_clean:
  "repo_open_or_init B C L pre ks options opened w = (Inr r, w') \<Longrightarrow> ws_failed (rp_state r) = None"
  by (auto simp: repo_open_or_init_def repo_open_def repo_init_def Let_def act_bind_ok bhead_run repo_new_def write_state_default_def split: if_splits)

section \<open>How much randomness a run draws\<close>

abbreviation drawn :: "rworld \<Rightarrow> nat" where
  "drawn v \<equiv> bw_random (rw_world v)"

lemma seal_blob_draws: "seal_blob B ks want t i p w = (r, w') \<Longrightarrow> bw_random w' \<le> bw_random w + 1"
  by (auto simp: seal_blob_def act_bind_run split: if_splits sum.splits prod.splits)

lemma writer_finish_draws: "writer_finish B ks wr w = (r, w') \<Longrightarrow> bw_random w' \<le> bw_random w + 1"
  by (auto simp: writer_finish_def act_bind_run split: if_splits sum.splits prod.splits)

lemma take_finish_draws: "take_finish B wr v = (r, v') \<Longrightarrow> drawn v' \<le> drawn v + 1"
  by (cases "writer_finish B (rp_keys (rw_repo v)) wr (rw_world v)")
    (auto simp: take_finish_run split: sum.splits dest!: writer_finish_draws)

lemma current_writer_draws: "current_writer B v = (r, v') \<Longrightarrow> drawn v' \<le> drawn v + 1"
  by (auto simp: current_writer_def act_bind_run in_world_run writer_new_def split: option.splits)

lemma upload_draws: "upload_pack pk v = (r, v') \<Longrightarrow> drawn v' = drawn v"
  by (cases "maybe_fail_put (repo_key (rw_repo v) (pack_name (pk_id pk))) (bw_store (rw_world v))")
    (auto simp: upload_pack_def act_bind_run act_try_run in_world_run bput_def from_bstore_run mem_put_bytes_def Let_def)

lemma place_blob_draws: "place_blob B i sb v = (r, v') \<Longrightarrow> drawn v' \<le> drawn v + 2"
  by (auto simp: place_blob_def act_bind_run split: option.splits sum.splits prod.splits if_splits dest!: current_writer_draws take_finish_draws)

lemma save_blob_draws: "save_blob B t p v = (r, v') \<Longrightarrow> drawn v' \<le> drawn v + 3"
proof -
  have sc: "save_check i v = (k, v0) \<Longrightarrow> v0 = v" for i k v0 v
    by (auto simp: save_check_def split: if_splits option.splits)
  assume "save_blob B t p v = (r, v')"
  then show ?thesis
    by (auto simp: save_blob_def Let_def act_bind_run in_world_run split: sum.splits prod.splits option.splits if_splits
        dest!: sc seal_blob_draws place_blob_draws upload_draws)
qed

lemma flush_open_draws: "flush_open B v = (r, v') \<Longrightarrow> drawn v' \<le> drawn v + 1"
  by (auto simp: flush_open_def act_bind_run act_try_run split: option.splits sum.splits prod.splits if_splits dest!: take_finish_draws)

lemma index_save_draws: "index_save B base ks ps w = (r, w') \<Longrightarrow> bw_random w' \<le> bw_random w + 2"
  by (auto simp: index_save_def act_bind_run bput_def from_bstore_run mem_put_bytes_def split: if_splits sum.splits prod.splits)

lemma flush_index_draws: "flush_index B v = (r, v') \<Longrightarrow> drawn v' \<le> drawn v + 2"
  by (auto simp: flush_index_def Let_def act_bind_run act_try_run in_world_run split: if_splits sum.splits prod.splits dest!: index_save_draws)

lemma repo_flush_draws: "repo_flush B v = (r, v') \<Longrightarrow> drawn v' \<le> drawn v + 3"
  by (auto simp: repo_flush_def act_bind_run ensure_writable_run split: option.splits sum.splits prod.splits
      dest!: flush_open_draws upload_draws flush_index_draws)

lemma save_snapshot_draws: "save_snapshot B C sn v = (r, v') \<Longrightarrow> drawn v' \<le> drawn v + 2"
  by (auto simp: save_snapshot_def act_bind_run ensure_writable_run Let_def in_world_run snapshot_save_def bput_def from_bstore_run mem_put_bytes_def
      split: option.splits if_splits sum.splits prod.splits)

lemma run_ops_draws: "run_ops B ops S v = (S', v') \<Longrightarrow> drawn v' \<le> drawn v + 3 * length ops"
proof (induction B ops S v rule: run_ops.induct)
  case (2 B t p ops S v)
  obtain res v1 where s: "save_blob B t p v = (res, v1)" using prod.exhaust by metis
  show ?case
  proof (cases res)
    case (Inl e)
    then have "run_ops B ops S v1 = (S', v')" using 2(3) s by simp
    then show ?thesis using "2.IH" s Inl save_blob_draws [OF s] by fastforce
  next
    case (Inr x)
    obtain i a where x: "x = (i, a)" by (cases x)
    have "run_ops B ops (insert i S) v1 = (S', v')" using 2(3) s Inr x by simp
    then show ?thesis using "2.IH" s Inr x save_blob_draws [OF s] by fastforce
  qed
next
  case (3 B ops S v)
  obtain res v1 where s: "repo_flush B v = (res, v1)" using prod.exhaust by metis
  then show ?case using 3 repo_flush_draws [OF s] by fastforce
qed simp

lemma repo_open_draws:
  assumes "repo_open B C L pre ks opened w = (Inr r, w')"
  shows "bw_random w' = bw_random w"
proof -
  obtain b i ix base where "index_load B base ks ((w\<lparr>bw_store := count_read b (bw_store w)\<rparr>)\<lparr>bw_cache := opened i\<rparr>) = (Inr ix, w')"
    using assms by (auto simp: repo_open_def Let_def act_bind_ok bget_ok bhead_run split: if_splits)
  from index_load_same [OF this] show ?thesis by (simp add: same_objects_def)
qed

lemma repo_init_draws:
  assumes "repo_init B C L pre ks options opened w = (Inr r, w')"
  shows "bw_random w' = bw_random w + 2"
  using assms by (auto simp: repo_init_def Let_def act_bind_ok from_bstore_run mem_head_def bput_ok split: if_splits)

lemma repo_open_or_init_draws:
  "repo_open_or_init B C L pre ks options opened w = (Inr r, w') \<Longrightarrow> bw_random w' \<le> bw_random w + 2"
  by (auto simp: repo_open_or_init_def act_bind_run bhead_run split: if_splits dest: repo_open_draws repo_init_draws)
lemma TARGET_SIZE_pos [simp]: "0 < TARGET_SIZE"
  by (simp add: TARGET_SIZE_def)

definition op_ids :: "benv \<Rightarrow> keys \<Rightarrow> run_op list \<Rightarrow> bid set" where
  "op_ids B ks ops = {blob_id B ks p |t p. OpSave t p \<in> set ops}"

lemma op_ids_simps [simp]:
  "op_ids B ks [] = {}" "op_ids B ks (OpSave t p # ops) = insert (blob_id B ks p) (op_ids B ks ops)"
  "op_ids B ks (OpFlush # ops) = op_ids B ks ops" "op_ids B ks (ops @ [OpFlush]) = op_ids B ks ops"
  by (auto simp: op_ids_def)

lemma run_ops_append: "run_ops B (xs @ ys) S v = (case run_ops B xs S v of (S1, v1) \<Rightarrow> run_ops B ys S1 v1)"
  by (induction B xs S v rule: run_ops.induct) (auto split: prod.splits sum.splits)

lemma run_ops_healthy:
  assumes B: "bcrypto_ok B" "env_total B"
  shows "\<lbrakk>repo_inv B C N v; accounted {} S v; 0 < rp_pack_target (rw_repo v); rp_pack_target (rw_repo v) \<le> TARGET_SIZE;
      \<forall>op\<in>set ops. op_small op; length (ws_new_packs (rp_state (rw_repo v))) + length ops < 2 ^ 32; run_healthy v;
      run_ops B ops S v = (S', v'); bw_random (rw_world v') \<le> N\<rbrakk> \<Longrightarrow> S' = S \<union> op_ids B (rp_keys (rw_repo v)) ops \<and> run_healthy v'"
proof (induction ops arbitrary: S v)
  case (Cons op ops)
  note I = Cons.prems(1) and acc = Cons.prems(2) and t = Cons.prems(3,4) and h = Cons.prems(7)
  have A: "aead_seals (b_aead B)" using B(2) by (simp add: env_total_def)
  have goal: "S' = S1 \<union> op_ids B (rp_keys (rw_repo v)) ops \<and> run_healthy v'"
    if st: "repo_inv B C N v1 \<and> same_handle v v1 \<and> packs_grow v v1 \<and> accounted {} S1 v1" and r: "run_ops B ops S1 v1 = (S', v')" and h1: "run_healthy v1" for S1 v1
  proof -
    have "rp_pack_target (rw_repo v1) = rp_pack_target (rw_repo v)" "rp_keys (rw_repo v1) = rp_keys (rw_repo v)" using st by (simp_all add: same_handle_def)
    moreover have "length (ws_new_packs (rp_state (rw_repo v1))) + length ops < 2 ^ 32" using st Cons.prems(6) by (simp add: packs_grow_def)
    ultimately show ?thesis using Cons.IH [of v1 S1] st t r h1 Cons.prems(5,9) by simp
  qed
  show ?case
  proof (cases op)
    case (OpSave bt p)
    obtain res v1 where s: "save_blob B bt p v = (res, v1)" using prod.exhaust by metis
    have p: "length p \<le> 2 ^ 31" using Cons.prems(5) OpSave by simp
    have rand: "bw_random (rw_world v1) \<le> N" using Cons.prems(8,9) OpSave s run_ops_random
      by (auto split: sum.splits prod.splits) (meson le_trans)+
    from save_blob_healthy [OF I acc B t p h s rand] obtain added where
      res: "res = Inr (blob_id B (rp_keys (rw_repo v)) p, added)" "run_healthy v1" by blast
    then have r: "run_ops B ops (insert (blob_id B (rp_keys (rw_repo v)) p) S) v1 = (S', v')" using Cons.prems(8) OpSave s by simp
    have st: "repo_inv B C N v1 \<and> same_handle v v1 \<and> packs_grow v v1 \<and> accounted {} (insert (blob_id B (rp_keys (rw_repo v)) p) S) v1"
      using save_blob_step [OF I acc B(1) A t p s rand] res(1) by simp
    from goal [OF this r res(2)] show ?thesis using OpSave by simp
  next
    case OpFlush
    obtain res v1 where s: "repo_flush B v = (res, v1)" using prod.exhaust by metis
    then have r: "run_ops B ops S v1 = (S', v')" using Cons.prems(8) OpFlush by simp
    have rand: "bw_random (rw_world v1) \<le> N" using run_ops_random [OF r] Cons.prems(9) by simp
    have "length (ws_new_packs (rp_state (rw_repo v))) + 1 < 2 ^ 32" using Cons.prems(6) by simp
    from repo_flush_step [OF I acc B(1) this s rand]
    have st: "repo_inv B C N v1 \<and> same_handle v v1 \<and> packs_grow v v1 \<and> accounted {} S v1" by blast
    from goal [OF st r] repo_flush_healthy [OF I acc B t(2) h s] show ?thesis using OpFlush by simp
  qed
qed simp

lemma open_or_init_fresh:
  assumes "env_total B" and "healthy w" and "stored w (repo_base pre @ CONFIG_NAME) = None" and "chunker_validate L (io_chunker options) = Inr ()"
  shows "\<exists>r w0. repo_open_or_init B C L pre ks options opened w = (Inr r, w0)"
proof -
  let ?k = "repo_base pre @ CONFIG_NAME" let ?i = "b_random_id B (bw_random w)" let ?w1 = "w\<lparr>bw_random := Suc (Suc (bw_random w))\<rparr>"
  let ?cfg = "\<lparr>rc_version = CONFIG_VERSION, rc_id = ?i, rc_created = int (bw_now w), rc_chunker = io_chunker options, rc_compression = io_compression options\<rparr>"
  obtain c where c: "seal B (b_nonce B (Suc (bw_random w))) ks KMeta (cd_config C ?cfg) CONFIG_AAD = Inr c" using env_seals [OF assms(1)] by blast
  have "healthy ?w1" using assms(2) by simp
  from healthy_put [OF this, of ?k c] have p: "bput ?k c ?w1 = (Inr (), put_world ?w1 ?k c)" .
  have "fmlookup (objects w) ?k = None" using assms(3) by (simp add: stored_def)
  then show ?thesis using c p assms(4)
    by (simp add: repo_open_or_init_def repo_init_def act_bind_run bhead_run from_bstore_run mem_head_def Let_def)
qed

text \<open>What a successful \<open>save_snapshot\<close> leaves in the bucket, and that it succeeds when the store is healthy.\<close>

lemma published_listed:
  assumes "bcrypto_ok B" and "aead_seals (b_aead B)" and "codecs_ok C"
    and "\<And>i. store_inv B C (repo_base pre) ks N (w\<lparr>bw_cache := opened i\<rparr>)"
    and "repo_open_or_init B C L pre ks options opened w = (Inr r, w0)"
    and "run_ops B ops {} \<lparr>rw_repo = r, rw_world = w0\<rparr> = (S, v)" and "\<forall>op\<in>set ops. op_small op" and "length ops < 2 ^ 32"
    and "save_snapshot B C sn v = (Inr sn', v')" and "bw_random w + 3 * length ops + 4 \<le> N"
  shows "store_inv B C (repo_base pre) ks N (rw_world v') \<and> (\<forall>i\<in>S. listed B (repo_base pre) ks (rw_world v') i)"
proof -
  let ?v0 = "\<lparr>rw_repo = r, rw_world = w0\<rparr>"
  note op = repo_open_or_init_inv [OF assms(4,5)]
  have N: "drawn v \<le> N" "drawn v' \<le> N"
    using repo_open_or_init_draws [OF assms(5)] run_ops_draws [OF assms(6)] save_snapshot_draws [OF assms(9)] assms(10) by simp_all
  have ro: "repo_inv B C N v \<and> accounted {} S v \<and> same_handle ?v0 v"
    using run_ops_step [OF assms(1,2) _ _ _ _ assms(7) _ assms(6) N(1), where C = C] op assms(8) by simp
  then have h: "rp_base (rw_repo v) = repo_base pre" "rp_keys (rw_repo v) = ks" using op by (simp_all add: same_handle_def)
  from save_snapshot_step [OF _ _ assms(1,3,9) N(2), of S] ro h
  show ?thesis by (auto simp: repo_inv_def Let_def same_handle_def)
qed

lemma healthy_run:
  assumes "bcrypto_ok B" and "env_total B"
    and "\<And>i. store_inv B C (repo_base pre) ks N (w\<lparr>bw_cache := opened i\<rparr>)" and "\<And>k. maybe_fail_put k (bw_store w) = Inr ()"
    and "repo_open_or_init B C L pre ks options opened w = (Inr r, w0)"
    and "run_ops B (ops @ [OpFlush]) {} \<lparr>rw_repo = r, rw_world = w0\<rparr> = (S, v)" and "\<forall>op\<in>set ops. op_small op" and "length ops + 1 < 2 ^ 32"
    and "bw_random w + 3 * length ops + 5 \<le> N" and "snapshot_validate sn = Inr ()"
  shows "S = op_ids B ks ops \<and> (\<exists>sn' v'. save_snapshot B C sn v = (Inr sn', v'))"
proof -
  let ?v0 = "\<lparr>rw_repo = r, rw_world = w0\<rparr>"
  note op = repo_open_or_init_inv [OF assms(3,5)]
  have A: "aead_seals (b_aead B)" using assms(2) by (simp add: env_total_def)
  have w0: "healthy w0" using repo_open_or_init_healthy [OF assms(5)] assms(4) by (simp add: healthy_def)
  obtain S1 v1 where r1: "run_ops B ops {} ?v0 = (S1, v1)" using prod.exhaust by metis
  then have r2: "run_ops B [OpFlush] S1 v1 = (S, v)" using assms(6) by (simp add: run_ops_append)
  then obtain res where fl: "repo_flush B v1 = (res, v)" and SS: "S = S1" by (auto split: prod.splits)
  have N: "drawn v1 \<le> N" "drawn v \<le> N"
    using repo_open_or_init_draws [OF assms(5)] run_ops_draws [OF r1] run_ops_draws [OF r2] assms(9) by simp_all
  have I0: "repo_inv B C N ?v0" "accounted {} {} ?v0" "rp_pack_target (rw_repo ?v0) = TARGET_SIZE" "ws_new_packs (rp_state (rw_repo ?v0)) = []"
    "rp_keys (rw_repo ?v0) = ks" using op by simp_all
  have h0: "run_healthy ?v0" using w0 I0(2) repo_open_or_init_clean [OF assms(5)] by (simp add: run_healthy_def)
  have st: "repo_inv B C N v1" "accounted {} S1 v1" "same_handle ?v0 v1" "length (ws_new_packs (rp_state (rw_repo v1))) \<le> length ops"
    using run_ops_step [OF assms(1) A I0(1,2) _ _ assms(7) _ r1 N(1)] I0(3,4) assms(8) by simp_all
  have h1: "S1 = op_ids B ks ops \<and> run_healthy v1"
    using run_ops_healthy [OF assms(1,2) I0(1,2) _ _ assms(7) _ h0 r1 N(1)] I0(3,4,5) assms(8) by simp
  have t: "rp_pack_target (rw_repo v1) \<le> TARGET_SIZE" using st I0(3) by (simp add: same_handle_def)
  from repo_flush_healthy [OF st(1,2) assms(1,2) t _ fl] h1 have h2: "res = Inr ()" "run_healthy v" by blast+
  have "accounted {} S v" "ws_new_packs (rp_state (rw_repo v)) = []" "ws_writer (rp_state (rw_repo v)) = None"
    using repo_flush_step [OF st(1,2) assms(1) _ fl N(2)] st(4) assms(8) h2(1) SS by simp_all
  from save_snapshot_healthy [OF this(1) assms(2) h2(2) this(2,3) assms(10)] show ?thesis using h1 SS by blast
qed


section \<open>A concrete run\<close>

definition sample_limits :: cdc_limits where
  "sample_limits = \<lparr>cl_min_min = 64, cl_min_max = 2 ^ 20, cl_avg_min = 256, cl_avg_max = 2 ^ 22, cl_max_min = 1024, cl_max_max = 2 ^ 24\<rparr>"

lemma sample_stored [simp]: "stored (sample_bworld\<lparr>bw_cache := c\<rparr>) k = None" "stored sample_bworld k = None"
  by (simp_all add: stored_def sample_bworld_def mem_new_def)

lemma sample_store_inv:
  assumes "N \<le> 256 ^ ID_SIZE"
  shows "store_inv sample_benv C base ks N (sample_bworld\<lparr>bw_cache := Some fmempty\<rparr>)"
proof -
  have "inj_on (le_bytes ID_SIZE) {bw_random sample_bworld..<N}"
    using assms by (intro inj_on_inverseI [where g = le_nat]) auto
  moreover have "b_random_id sample_benv = le_bytes ID_SIZE" by (rule ext) simp
  ultimately show ?thesis
    by (simp add: store_inv_def names_ok_def named_def indexes_sound_def indexes_open_def index_stored_def genuine_def random_fresh_def cache_get_def Let_def)
qed

lemma sample_env_total: "env_total sample_benv"
proof -
  have "aead_seals (b_aead sample_benv)" by (simp add: sample_benv_def aead_seals_def sample_aead_def)
  moreover have "b_aead sample_benv = e_aead sample_env" by (simp add: sample_benv_def sample_env_def)
  ultimately show ?thesis using sample_encrypts by (auto simp: env_total_def sample_benv_sel sample_zstd_def)
qed


lemma sample_healthy: "\<And>k. maybe_fail_put k (bw_store sample_bworld) = Inr ()"
  by (simp add: sample_bworld_def mem_new_def maybe_fail_put_def)

lemma sample_chunker: "chunker_validate sample_limits (io_chunker default_options) = Inr ()"
  by (simp add: chunker_validate_def check_chunker_def sample_limits_def default_options_def DEFAULT_CHUNKER_def is_power_of_two.simps)

lemma sample_open: "\<exists>r w0. repo_open_or_init sample_benv sample_codecs sample_limits ''p/'' sample_keys default_options (\<lambda>_. Some fmempty) sample_bworld = (Inr r, w0)"
  using sample_healthy by (intro open_or_init_fresh [OF sample_env_total _ _ sample_chunker]) (simp_all add: healthy_def)

definition sample_stats :: backup_stats where
  "sample_stats = \<lparr>st_files_new = 0, st_files_changed = 0, st_files_unmodified = 0, st_dirs_processed = 0, st_files_skipped = 0, st_offloaded_reused = 0, st_offloaded_downloaded = 0, st_offloaded_bytes = 0,
     st_offloaded_skipped = 0, st_bytes_processed = 0, st_bytes_added = 0, st_chunks_new = 0, st_chunks_duplicate = 0, st_packs_adopted = 0, st_files_resumed = 0\<rparr>"

definition sample_snapshot :: backup_snapshot where
  "sample_snapshot = \<lparr>sn_id = id_default, sn_time = 5, sn_hostname = ''host'', sn_username = ''user'', sn_paths = [''a''], sn_tags = [],
     sn_tree = replicate ID_SIZE 1, sn_parent = None, sn_stats = sample_stats\<rparr>"

lemma sample_snapshot_valid: "snapshot_validate sample_snapshot = Inr ()"
  by (simp add: snapshot_validate_def sample_snapshot_def id_default_def ID_SIZE_def)

section \<open>Properties\<close>

text \<open>
  A published snapshot is complete. After any sequence of saves and flushes on an opened (or new)
  repository, in which writes may fail at any point and every error is swallowed, a \<open>save_snapshot\<close> that
  succeeds leaves a bucket from which every blob that \<open>save_blob\<close> had accepted can be read: the index
  loads, locates the blob, and the ranged read decodes to content with that identifier.
\<close>

theorem published_snapshot_complete:
  assumes "bcrypto_ok B" and "aead_seals (b_aead B)" and "codecs_ok C"
    and "\<And>i. store_inv B C (repo_base pre) ks N (w\<lparr>bw_cache := opened i\<rparr>)"
    and "repo_open_or_init B C L pre ks options opened w = (Inr r, w0)"
    and "run_ops B ops {} \<lparr>rw_repo = r, rw_world = w0\<rparr> = (S, v)" and "\<forall>op\<in>set ops. op_small op" and "length ops < 2 ^ 32"
    and "save_snapshot B C sn v = (Inr sn', v')" and "bw_random w + 3 * length ops + 4 \<le> N"
  shows "\<exists>ix w1. index_load B (repo_base pre) ks (rw_world v') = (Inr ix, w1) \<and> (\<forall>i\<in>S. \<exists>l p w2. index_lookup i ix = Some l \<and>
    load_pack_blob B ks (repo_base pre @ pack_name (lo_pack l)) (lo_entry l) (rw_world v') = (Inr p, w2) \<and> blob_id B ks p = i)"
proof -
  from published_listed [OF assms] have st: "store_inv B C (repo_base pre) ks N (rw_world v')"
    "\<forall>i\<in>S. listed B (repo_base pre) ks (rw_world v') i" by blast+
  from listed_readable [OF st(1)] st(2) show ?thesis by fast
qed

lemma published_snapshot_complete_witness:
  "\<exists>r w0 S v sn' v' ix w1. repo_open_or_init sample_benv sample_codecs sample_limits ''p/'' sample_keys default_options (\<lambda>_. Some fmempty) sample_bworld = (Inr r, w0) \<and>
    run_ops sample_benv [OpSave BData [1, 2], OpFlush] {} \<lparr>rw_repo = r, rw_world = w0\<rparr> = (S, v) \<and>
    save_snapshot sample_benv sample_codecs sample_snapshot v = (Inr sn', v') \<and>
    index_load sample_benv ''p/backup/'' sample_keys (rw_world v') = (Inr ix, w1) \<and>
    (\<exists>l p w2. index_lookup (blob_id sample_benv sample_keys [1, 2]) ix = Some l \<and>
      load_pack_blob sample_benv sample_keys (''p/backup/'' @ pack_name (lo_pack l)) (lo_entry l) (rw_world v') = (Inr p, w2) \<and>
      blob_id sample_benv sample_keys p = blob_id sample_benv sample_keys [1, 2])"
proof -
  obtain r w0 where o: "repo_open_or_init sample_benv sample_codecs sample_limits ''p/'' sample_keys default_options (\<lambda>_. Some fmempty) sample_bworld = (Inr r, w0)"
    using sample_open by blast
  obtain S v where run: "run_ops sample_benv [OpSave BData [1, 2], OpFlush] {} \<lparr>rw_repo = r, rw_world = w0\<rparr> = (S, v)" using prod.exhaust by metis
  have I: "store_inv sample_benv sample_codecs (repo_base ''p/'') sample_keys 100 (sample_bworld\<lparr>bw_cache := Some fmempty\<rparr>)"
    by (rule sample_store_inv) (simp add: ID_SIZE_def)
  have one: "bw_random sample_bworld = 1" by (simp add: sample_bworld_def)
  have h: "S = op_ids sample_benv sample_keys [OpSave BData [1, 2]] \<and> (\<exists>sn' v'. save_snapshot sample_benv sample_codecs sample_snapshot v = (Inr sn', v'))"
    by (rule healthy_run [OF sample_benv_ok sample_env_total I sample_healthy o, where ops = "[OpSave BData [1, 2]]"])
      (use run one sample_snapshot_valid in simp_all)
  then obtain sn' v' where sv: "save_snapshot sample_benv sample_codecs sample_snapshot v = (Inr sn', v')" by blast
  have A: "aead_seals (b_aead sample_benv)" using sample_env_total by (simp add: env_total_def)
  have "\<forall>op\<in>set [OpSave BData [1, 2], OpFlush]. op_small op" "length [OpSave BData [1, 2], OpFlush] < 2 ^ 32"
    "bw_random sample_bworld + 3 * length [OpSave BData [1, 2], OpFlush] + 4 \<le> 100" by (simp_all add: one)
  from published_snapshot_complete [OF sample_benv_ok A sample_codecs_ok I o run this(1,2) sv this(3)] h o run sv show ?thesis
    by (auto simp: repo_base_def)
qed



end
