(* ===== verification/Retention.thy ===== *)
theory Retention
  imports Snapshots Config
begin

text \<open>
  Choosing the snapshots to forget (\<open>select\<close> of \<open>backup-core/src/prune.rs\<close>). Chrono's formatting of a
  time in the caller's zone and its ISO weeks are parameters.
\<close>

section \<open>The code\<close>

record time_zone =
  tz_format :: "string \<Rightarrow> int \<Rightarrow> string"
  tz_iso_week :: "int \<Rightarrow> int \<times> nat"

record selection =
  se_keep :: "(backup_snapshot \<times> string list) list"
  se_forget :: "backup_snapshot list"

text \<open>\<open>format!("{}-{}", week.year(), week.week())\<close>\<close>

definition show_int :: "int \<Rightarrow> string" where
  "show_int i = (if i < 0 then CHR ''-'' # dec (nat (- i)) else dec (nat i))"

definition week_bucket :: "time_zone \<Rightarrow> backup_snapshot \<Rightarrow> string" where
  "week_bucket Z s = (case tz_iso_week Z (sn_time s) of (year, week) \<Rightarrow> show_int year @ ''-'' @ dec week)"

type_synonym keep_rule = "string \<times> nat \<times> (backup_snapshot \<Rightarrow> string)"

definition keep_rules :: "time_zone \<Rightarrow> keep_policy \<Rightarrow> keep_rule list" where
  "keep_rules Z p = (let bucket = (\<lambda>f s. tz_format Z f (sn_time s)) in
     [(''last'', kp_last p, \<lambda>s. hex (sn_id s)), (''hourly'', kp_hourly p, bucket ''%Y-%m-%d %H''), (''daily'', kp_daily p, bucket ''%Y-%m-%d''),
      (''weekly'', kp_weekly p, week_bucket Z), (''monthly'', kp_monthly p, bucket ''%Y-%m''), (''yearly'', kp_yearly p, bucket ''%Y'')])"

definition group_key :: "backup_snapshot \<Rightarrow> string \<times> string list" where
  "group_key s = (sn_hostname s, sort (sn_paths s))"

text \<open>The groups, in the order of the map's keys, each newest first.\<close>

definition snapshot_groups :: "backup_snapshot list \<Rightarrow> backup_snapshot list list" where
  "snapshot_groups ss = map (\<lambda>k. newest_first (filter (\<lambda>s. group_key s = k) ss)) (btree_set (map group_key ss))"

definition add_reason :: "bid \<Rightarrow> string \<Rightarrow> (bid, string list) fmap \<Rightarrow> (bid, string list) fmap" where
  "add_reason i name reasons = fmupd i ((case fmlookup reasons i of None \<Rightarrow> [] | Some why \<Rightarrow> why) @ [name]) reasons"

text \<open>One rule on one group: \<open>seen\<close> holds the buckets met so far.\<close>

fun keep_loop :: "keep_rule \<Rightarrow> string fset \<Rightarrow> backup_snapshot list \<Rightarrow> (bid, string list) fmap \<Rightarrow> (bid, string list) fmap" where
  "keep_loop rule seen [] reasons = reasons"
| "keep_loop (name, n, key) seen (s # ss) reasons =
     (if fcard seen = n then reasons
      else if key s |\<in>| seen then keep_loop (name, n, key) seen ss reasons
      else keep_loop (name, n, key) (finsert (key s) seen) ss (add_reason (sn_id s) name reasons))"

definition keep_reasons :: "keep_rule list \<Rightarrow> backup_snapshot list list \<Rightarrow> (bid, string list) fmap" where
  "keep_reasons rules groups = fold (\<lambda>gs. fold (\<lambda>rule. keep_loop rule {||} gs) rules) groups fmempty"

fun split_selection :: "backup_snapshot list \<Rightarrow> (bid, string list) fmap \<Rightarrow> selection \<Rightarrow> selection" where
  "split_selection [] reasons sel = sel"
| "split_selection (s # ss) reasons sel = (case fmlookup reasons (sn_id s) of
      Some why \<Rightarrow> split_selection ss (fmdrop (sn_id s) reasons) (sel\<lparr>se_keep := se_keep sel @ [(s, why)]\<rparr>)
    | None \<Rightarrow> split_selection ss reasons (sel\<lparr>se_forget := se_forget sel @ [s]\<rparr>))"

definition select_snapshots :: "time_zone \<Rightarrow> backup_snapshot list \<Rightarrow> keep_policy \<Rightarrow> selection bresult" where
  "select_snapshots Z ss p =
     (if keep_is_empty p then Inl (BInvalid ''no keep rules given; refusing to forget every snapshot'')
      else Inr (split_selection (newest_first ss) (keep_reasons (keep_rules Z p) (snapshot_groups ss)) \<lparr>se_keep = [], se_forget = []\<rparr>))"


section \<open>What a rule keeps\<close>

text \<open>
  The promise of the documentation: a rule keeps the newest snapshot of each of the \<open>n\<close> most recent
  buckets. \<open>gs\<close> is a group, newest first.
\<close>

definition rule_keeps :: "keep_rule \<Rightarrow> backup_snapshot list \<Rightarrow> backup_snapshot \<Rightarrow> bool" where
  "rule_keeps rule gs s = (case rule of (name, n, key) \<Rightarrow>
     \<exists>newer older. gs = newer @ s # older \<and> key s \<notin> key ` set newer \<and> card (key ` set newer) < n)"

definition kept_why :: "keep_rule list \<Rightarrow> backup_snapshot list \<Rightarrow> backup_snapshot \<Rightarrow> string list" where
  "kept_why rules gs s = map fst (filter (\<lambda>rule. rule_keeps rule gs s) rules)"

definition group_of :: "backup_snapshot list \<Rightarrow> backup_snapshot \<Rightarrow> backup_snapshot list" where
  "group_of ss s = newest_first (filter (\<lambda>t. group_key t = group_key s) ss)"

definition reasons_of :: "(bid, string list) fmap \<Rightarrow> bid \<Rightarrow> string list" where
  "reasons_of r i = (case fmlookup r i of None \<Rightarrow> [] | Some why \<Rightarrow> why)"

lemma reasons_of_add [simp]: "reasons_of (add_reason i name r) j = reasons_of r j @ (if j = i then [name] else [])"
  by (simp add: reasons_of_def add_reason_def split: option.splits)

definition loop_keeps :: "nat \<Rightarrow> (backup_snapshot \<Rightarrow> string) \<Rightarrow> string set \<Rightarrow> backup_snapshot list \<Rightarrow> bid \<Rightarrow> bool" where
  "loop_keeps n key seen ss i \<longleftrightarrow> (\<exists>newer s older. ss = newer @ s # older \<and> sn_id s = i \<and> key s \<notin> seen \<union> key ` set newer \<and>
     card (seen \<union> key ` set newer) < n)"

lemma loop_keeps_Nil [simp]: "\<not> loop_keeps n key seen [] i"
  by (simp add: loop_keeps_def)

lemma loop_keeps_Cons:
  "loop_keeps n key seen (s # ss) i \<longleftrightarrow> sn_id s = i \<and> key s \<notin> seen \<and> card seen < n \<or> loop_keeps n key (insert (key s) seen) ss i"
proof
  assume "loop_keeps n key seen (s # ss) i"
  then obtain newer t older where *: "s # ss = newer @ t # older" "sn_id t = i" "key t \<notin> seen \<union> key ` set newer" "card (seen \<union> key ` set newer) < n"
    unfolding loop_keeps_def by blast
  then show "sn_id s = i \<and> key s \<notin> seen \<and> card seen < n \<or> loop_keeps n key (insert (key s) seen) ss i"
    by (cases newer) (auto simp: loop_keeps_def intro!: exI [of _ "tl newer"])
next
  assume "sn_id s = i \<and> key s \<notin> seen \<and> card seen < n \<or> loop_keeps n key (insert (key s) seen) ss i"
  then show "loop_keeps n key seen (s # ss) i"
  proof
    assume "sn_id s = i \<and> key s \<notin> seen \<and> card seen < n"
    then show ?thesis unfolding loop_keeps_def by (intro exI [of _ "[]"] exI [of _ s] exI [of _ ss]) simp
  next
    assume "loop_keeps n key (insert (key s) seen) ss i"
    then obtain newer t older where "ss = newer @ t # older" "sn_id t = i" "key t \<notin> insert (key s) seen \<union> key ` set newer"
      "card (insert (key s) seen \<union> key ` set newer) < n" unfolding loop_keeps_def by blast
    then show ?thesis unfolding loop_keeps_def by (intro exI [of _ "s # newer"] exI [of _ t] exI [of _ older]) simp
  qed
qed

lemma loop_keeps_full: "finite seen \<Longrightarrow> n \<le> card seen \<Longrightarrow> \<not> loop_keeps n key seen ss i"
  unfolding loop_keeps_def by (metis (no_types, lifting) List.finite_set card_mono finite_UnI finite_imageI leD le_trans sup_ge1)

lemma loop_keeps_id: "loop_keeps n key seen ss i \<Longrightarrow> i \<in> sn_id ` set ss"
  by (auto simp: loop_keeps_def)

lemma keep_loop_reasons:
  "distinct (map sn_id ss) \<Longrightarrow> fcard seen \<le> n \<Longrightarrow>
    reasons_of (keep_loop (name, n, key) seen ss r) i = reasons_of r i @ (if loop_keeps n key (fset seen) ss i then [name] else [])"
proof (induction ss arbitrary: seen r)
  case (Cons s ss)
  have c: "fcard seen = card (fset seen)" by (simp add: fcard.rep_eq)
  show ?case
  proof (cases "fcard seen = n")
    case True
    then show ?thesis using loop_keeps_full [of "fset seen" n] c by simp
  next
    case lt: False
    show ?thesis
    proof (cases "key s |\<in>| seen")
      case True
      then have "insert (key s) (fset seen) = fset seen" by auto
      then show ?thesis using lt True Cons by (simp add: loop_keeps_Cons)
    next
      case False
      have "fcard (finsert (key s) seen) \<le> n" using lt False Cons.prems(2) by (simp add: fcard_finsert_disjoint)
      then have "reasons_of (keep_loop (name, n, key) (finsert (key s) seen) ss (add_reason (sn_id s) name r)) i =
          reasons_of (add_reason (sn_id s) name r) i @ (if loop_keeps n key (insert (key s) (fset seen)) ss i then [name] else [])"
        using Cons.IH Cons.prems(1) by simp
      moreover have "card (fset seen) < n" using lt Cons.prems(2) c by simp
      moreover have "\<not> (sn_id s = i \<and> loop_keeps n key (insert (key s) (fset seen)) ss i)" using loop_keeps_id Cons.prems(1) by fastforce
      ultimately show ?thesis using lt False by (auto simp: loop_keeps_Cons)
    qed
  qed
qed simp

text \<open>No reason is ever recorded as an empty list, so a snapshot has an entry exactly if it has a reason.\<close>

lemma keep_loop_nonempty: "\<forall>i. fmlookup r i \<noteq> Some [] \<Longrightarrow> \<forall>i. fmlookup (keep_loop rule seen ss r) i \<noteq> Some []"
  by (induction rule seen ss r rule: keep_loop.induct) (auto simp: add_reason_def)


definition loop_why :: "keep_rule list \<Rightarrow> backup_snapshot list \<Rightarrow> bid \<Rightarrow> string list" where
  "loop_why rules gs i = map fst (filter (\<lambda>(name, n, key). loop_keeps n key {} gs i) rules)"

lemma rules_reasons:
  assumes "distinct (map sn_id gs)"
  shows "reasons_of (fold (\<lambda>rule. keep_loop rule {||} gs) rules r) i = reasons_of r i @ loop_why rules gs i"
proof (induction rules arbitrary: r)
  case (Cons rule rules)
  obtain name n key where "rule = (name, n, key)" by (cases rule)
  then show ?case using Cons keep_loop_reasons [OF assms, of "{||}" n name key r i] by (simp add: loop_why_def fcard.rep_eq)
qed (simp add: loop_why_def)

lemma groups_reasons:
  "\<forall>gs\<in>set groups. distinct (map sn_id gs) \<Longrightarrow>
    reasons_of (fold (\<lambda>gs. fold (\<lambda>rule. keep_loop rule {||} gs) rules) groups r) i = reasons_of r i @ concat (map (\<lambda>gs. loop_why rules gs i) groups)"
  by (induction groups arbitrary: r) (simp_all add: rules_reasons)

lemma fold_nonempty:
  assumes "\<And>x r. \<forall>i. fmlookup r i \<noteq> Some [] \<Longrightarrow> \<forall>i. fmlookup (f x r) i \<noteq> Some []"
  shows "\<forall>i. fmlookup r i \<noteq> Some [] \<Longrightarrow> \<forall>i. fmlookup (fold f xs r) i \<noteq> Some []"
  by (induction xs arbitrary: r) (use assms in auto)

lemma keep_reasons_nonempty: "fmlookup (keep_reasons rules groups) i \<noteq> Some []"
proof -
  have "\<forall>i. fmlookup (fold (\<lambda>gs. fold (\<lambda>rule. keep_loop rule {||} gs) rules) groups fmempty) i \<noteq> Some []"
    by (intro fold_nonempty keep_loop_nonempty) simp_all
  then show ?thesis by (simp add: keep_reasons_def)
qed

lemma concat_single:
  assumes "distinct ks" and "k \<in> set ks" and "\<And>k'. k' \<in> set ks \<Longrightarrow> k' \<noteq> k \<Longrightarrow> f k' = []"
  shows "concat (map f ks) = f k"
  using assms
proof (induction ks)
  case (Cons a ks)
  show ?case
  proof (cases "a = k")
    case True
    then have "\<forall>k'\<in>set ks. f k' = []" using Cons.prems by auto
    then show ?thesis using True by simp
  next
    case False
    then show ?thesis using Cons by simp
  qed
qed simp

lemma distinct_group: "distinct (map sn_id ss) \<Longrightarrow> distinct (map sn_id (newest_first (filter P ss)))"
proof -
  assume "distinct (map sn_id ss)"
  then have "distinct (map sn_id (filter P ss))" by (rule distinct_map_filter)
  moreover have "mset (map sn_id (newest_first (filter P ss))) = mset (map sn_id (filter P ss))" by (simp add: newest_first_mset)
  ultimately show ?thesis by (metis mset_eq_imp_distinct_iff)
qed

lemma loop_why_keeps:
  assumes "distinct (map sn_id gs)" and "s \<in> set gs"
  shows "loop_why rules gs (sn_id s) = kept_why rules gs s"
proof -
  have "loop_keeps n key {} gs (sn_id s) \<longleftrightarrow> rule_keeps (name, n, key) gs s" for name n key
  proof -
    have "t = s" if "gs = newer @ t # older" "sn_id t = sn_id s" for newer t older
      using that assms by (auto simp: distinct_map inj_on_def)
    note eq = this
    show ?thesis
    proof
      assume "loop_keeps n key {} gs (sn_id s)"
      then obtain newer t older where *: "gs = newer @ t # older" "sn_id t = sn_id s" "key t \<notin> key ` set newer" "card (key ` set newer) < n"
        by (auto simp: loop_keeps_def)
      with eq [OF *(1,2)] show "rule_keeps (name, n, key) gs s" by (auto simp: rule_keeps_def)
    qed (auto simp: loop_keeps_def rule_keeps_def)
  qed
  then have "(case rule of (name, n, key) \<Rightarrow> loop_keeps n key {} gs (sn_id s)) = rule_keeps rule gs s" for rule by (cases rule) simp
  then show ?thesis by (simp add: loop_why_def kept_why_def case_prod_beta')
qed

lemma keep_reasons_why:
  assumes d: "distinct (map sn_id ss)" and s: "s \<in> set ss"
  shows "reasons_of (keep_reasons rules (snapshot_groups ss)) (sn_id s) = kept_why rules (group_of ss s) s"
proof -
  let ?g = "\<lambda>k. newest_first (filter (\<lambda>t. group_key t = k) ss)"
  let ?ks = "btree_set (map group_key ss)"
  have d': "\<forall>gs\<in>set (snapshot_groups ss). distinct (map sn_id gs)" using distinct_group [OF d] by (auto simp: snapshot_groups_def)
  have "reasons_of (keep_reasons rules (snapshot_groups ss)) (sn_id s) = concat (map (\<lambda>k. loop_why rules (?g k) (sn_id s)) ?ks)"
    unfolding keep_reasons_def groups_reasons [OF d'] by (simp add: reasons_of_def snapshot_groups_def comp_def)
  also have "\<dots> = loop_why rules (?g (group_key s)) (sn_id s)"
  proof (rule concat_single)
    fix k assume "k \<noteq> group_key s"
    then have "sn_id s \<notin> sn_id ` set (?g k)" using d s by (auto simp: distinct_map inj_on_def)
    then show "loop_why rules (?g k) (sn_id s) = []" using loop_keeps_id by (fastforce simp: loop_why_def filter_empty_conv)
  qed (use s in simp_all)
  also have "\<dots> = kept_why rules (group_of ss s) s" unfolding group_of_def using s by (intro loop_why_keeps distinct_group [OF d]) simp
  finally show ?thesis .
qed

lemma split_selection_result:
  "distinct (map sn_id ss) \<Longrightarrow> \<forall>i. fmlookup r i \<noteq> Some [] \<Longrightarrow> split_selection ss r sel =
    \<lparr>se_keep = se_keep sel @ map (\<lambda>s. (s, reasons_of r (sn_id s))) (filter (\<lambda>s. reasons_of r (sn_id s) \<noteq> []) ss),
     se_forget = se_forget sel @ filter (\<lambda>s. reasons_of r (sn_id s) = []) ss\<rparr>"
proof (induction ss arbitrary: r sel)
  case (Cons s ss)
  have same: "reasons_of (fmdrop (sn_id s) r) (sn_id t) = reasons_of r (sn_id t)" if "t \<in> set ss" for t
  proof -
    have "sn_id t \<noteq> sn_id s" using that Cons.prems(1) by (auto simp: image_iff)
    then show ?thesis by (simp add: reasons_of_def)
  qed
  have f: "filter (\<lambda>t. reasons_of (fmdrop (sn_id s) r) (sn_id t) \<noteq> []) ss = filter (\<lambda>t. reasons_of r (sn_id t) \<noteq> []) ss"
    "filter (\<lambda>t. reasons_of (fmdrop (sn_id s) r) (sn_id t) = []) ss = filter (\<lambda>t. reasons_of r (sn_id t) = []) ss"
    using same by (auto intro: filter_cong)
  have m: "map (\<lambda>t. (t, reasons_of (fmdrop (sn_id s) r) (sn_id t))) (filter P ss) = map (\<lambda>t. (t, reasons_of r (sn_id t))) (filter P ss)" for P
    using same by (intro map_cong) auto
  show ?case
  proof (cases "fmlookup r (sn_id s)")
    case None
    then show ?thesis using Cons by (simp add: reasons_of_def)
  next
    case (Some why)
    then have "reasons_of r (sn_id s) = why" "why \<noteq> []" using Cons.prems(2) by (auto simp: reasons_of_def)
    moreover have "\<forall>i. fmlookup (fmdrop (sn_id s) r) i \<noteq> Some []" using Cons.prems(2) by simp
    ultimately show ?thesis using Some Cons.IH [of "fmdrop (sn_id s) r"] Cons.prems(1) by (simp add: f m)
  qed
qed simp

lemma select_snapshots_result:
  assumes "distinct (map sn_id ss)" and "\<not> keep_is_empty p"
  shows "select_snapshots Z ss p = Inr
    \<lparr>se_keep = map (\<lambda>s. (s, kept_why (keep_rules Z p) (group_of ss s) s)) (filter (\<lambda>s. kept_why (keep_rules Z p) (group_of ss s) s \<noteq> []) (newest_first ss)),
     se_forget = filter (\<lambda>s. kept_why (keep_rules Z p) (group_of ss s) s = []) (newest_first ss)\<rparr>"
proof -
  let ?R = "keep_reasons (keep_rules Z p) (snapshot_groups ss)"
  have "distinct (map sn_id (newest_first ss))" using distinct_group [OF assms(1), of "\<lambda>_. True"] by simp
  then have "select_snapshots Z ss p = Inr \<lparr>se_keep = map (\<lambda>s. (s, reasons_of ?R (sn_id s))) (filter (\<lambda>s. reasons_of ?R (sn_id s) \<noteq> []) (newest_first ss)),
      se_forget = filter (\<lambda>s. reasons_of ?R (sn_id s) = []) (newest_first ss)\<rparr>"
    using split_selection_result keep_reasons_nonempty assms(2) by (simp add: select_snapshots_def)
  moreover have why: "reasons_of ?R (sn_id s) = kept_why (keep_rules Z p) (group_of ss s) s" if "s \<in> set (newest_first ss)" for s
    using keep_reasons_why [OF assms(1)] that by simp
  moreover have "filter (\<lambda>s. P (reasons_of ?R (sn_id s))) (newest_first ss) =
      filter (\<lambda>s. P (kept_why (keep_rules Z p) (group_of ss s) s)) (newest_first ss)" for P
    using why by (intro filter_cong) auto
  note this [of "\<lambda>x. x \<noteq> []"] this [of "\<lambda>x. x = []"]
  moreover have "map (\<lambda>s. (s, reasons_of ?R (sn_id s))) (filter Q (newest_first ss)) =
      map (\<lambda>s. (s, kept_why (keep_rules Z p) (group_of ss s) s)) (filter Q (newest_first ss))" for Q
    using why by (intro map_cong) auto
  ultimately show ?thesis by simp
qed


section \<open>Properties\<close>

definition sample_zone :: time_zone where
  "sample_zone = \<lparr>tz_format = (\<lambda>f t. dec (nat (t div 10))), tz_iso_week = (\<lambda>t. (t div 100, nat (t div 10)))\<rparr>"

definition sample_saved :: "nat \<Rightarrow> int \<Rightarrow> string \<Rightarrow> string list \<Rightarrow> backup_snapshot" where
  "sample_saved i t host paths = \<lparr>sn_id = le_bytes ID_SIZE i, sn_time = t, sn_hostname = host, sn_username = ''u'', sn_paths = paths, sn_tags = [],
     sn_tree = replicate ID_SIZE 1, sn_parent = None, sn_stats = stats_of_words (replicate 15 0)\<rparr>"

definition sample_history :: "backup_snapshot list" where
  "sample_history = [sample_saved 1 1 ''h'' [''a''], sample_saved 2 2 ''h'' [''a''], sample_saved 3 30 ''h'' [''a''], sample_saved 4 1 ''g'' [''a'']]"

lemma sample_ids: "distinct (map sn_id sample_history)"
proof -
  have eq: "le_bytes ID_SIZE i = le_bytes ID_SIZE j \<longleftrightarrow> i = j" if "i < 256" "j < 256" for i j
  proof
    assume "le_bytes ID_SIZE i = le_bytes ID_SIZE j"
    then have "le_nat (le_bytes ID_SIZE i) = le_nat (le_bytes ID_SIZE j)" by simp
    then show "i = j" using that by (simp add: ID_SIZE_def)
  qed simp
  show ?thesis unfolding sample_history_def sample_saved_def by (simp add: eq)
qed

text \<open>
  C36: Retention is exactly what the documentation promises: a snapshot survives if and only if some rule keeps
  it, where a rule with count \<open>n\<close> keeps the newest snapshot in each of the \<open>n\<close> most recent buckets of the
  snapshot's own host and set of paths; it is listed with exactly the rules that keep it; and every other
  snapshot, and no more, is forgotten. Both lists are newest first.
\<close>

theorem retention_exact:
  assumes "distinct (map sn_id ss)" and "\<not> keep_is_empty p"
  shows "\<exists>sel. select_snapshots Z ss p = Inr sel \<and>
    (\<forall>s why. (s, why) \<in> set (se_keep sel) \<longleftrightarrow>
       s \<in> set ss \<and> why = map fst (filter (\<lambda>rule. rule_keeps rule (group_of ss s) s) (keep_rules Z p)) \<and> why \<noteq> []) \<and>
    (\<forall>s. s \<in> set (se_forget sel) \<longleftrightarrow> s \<in> set ss \<and> (\<forall>rule\<in>set (keep_rules Z p). \<not> rule_keeps rule (group_of ss s) s)) \<and>
    sorted_wrt (\<lambda>a b. sn_time b \<le> sn_time a) (map fst (se_keep sel)) \<and> sorted_wrt (\<lambda>a b. sn_time b \<le> sn_time a) (se_forget sel)"
proof -
  have "map fst (map (\<lambda>s. (s, f s)) xs) = xs" for f :: "backup_snapshot \<Rightarrow> string list" and xs by (simp add: comp_def)
  then show ?thesis unfolding select_snapshots_result [OF assms] kept_why_def
    by (auto simp: filter_empty_conv newest_first_sorted sorted_wrt_filter)
qed

lemma retention_exact_witness:
  "\<exists>sel. select_snapshots sample_zone sample_history (keep_default\<lparr>kp_daily := 1\<rparr>) = Inr sel \<and>
    sorted_wrt (\<lambda>a b. sn_time b \<le> sn_time a) (se_forget sel) \<and>
    (sample_saved 3 30 ''h'' [''a''], [''daily'']) \<in> set (se_keep sel)"
proof -
  let ?p = "keep_default\<lparr>kp_daily := 1\<rparr>" let ?s = "sample_saved 3 30 ''h'' [''a'']"
  have p: "\<not> keep_is_empty ?p" by (simp add: keep_is_empty_def keep_default_def)
  have in_h: "?s \<in> set sample_history" by (simp add: sample_history_def)
  have g: "group_of sample_history ?s = [?s, sample_saved 2 2 ''h'' [''a''], sample_saved 1 1 ''h'' [''a'']]"
    by (simp add: group_of_def sample_history_def sample_saved_def group_key_def newest_first_def less_eq_prod_def)
  have day: "rule_keeps (''daily'', Suc 0, key) (group_of sample_history ?s) ?s" for key
    unfolding g rule_keeps_def prod.case by (intro exI [of _ "[]"] exI [of _ "tl (group_of sample_history ?s)"]) (simp add: g)
  have "\<not> rule_keeps (name, 0, key) gs s" for name key gs s by (simp add: rule_keeps_def)
  then have "map fst (filter (\<lambda>rule. rule_keeps rule (group_of sample_history ?s) ?s) (keep_rules sample_zone ?p)) = [''daily'']"
    using day by (simp add: keep_rules_def keep_default_def Let_def)
  moreover obtain sel where sel: "select_snapshots sample_zone sample_history ?p = Inr sel"
    "\<forall>s why. (s, why) \<in> set (se_keep sel) \<longleftrightarrow> s \<in> set sample_history \<and>
       why = map fst (filter (\<lambda>rule. rule_keeps rule (group_of sample_history s) s) (keep_rules sample_zone ?p)) \<and> why \<noteq> []"
    "sorted_wrt (\<lambda>a b. sn_time b \<le> sn_time a) (se_forget sel)"
    using retention_exact [OF sample_ids p, of sample_zone] by blast
  ultimately have "(?s, [''daily'']) \<in> set (se_keep sel)" using in_h by simp
  with sel(1,3) show ?thesis by blast
qed

lemma keep_rule_counts:
  "map (\<lambda>rule. fst (snd rule)) (keep_rules Z p) = [kp_last p, kp_hourly p, kp_daily p, kp_weekly p, kp_monthly p, kp_yearly p]"
  by (simp add: keep_rules_def Let_def)

text \<open>
  C37: A policy that is accepted never forgets a history: of every host and set of paths that has a snapshot,
  the newest one is kept. (The policy with no rules is refused.)
\<close>

theorem retention_keeps_newest:
  assumes "distinct (map sn_id ss)" and "select_snapshots Z ss p = Inr sel" and "s \<in> set ss"
  shows "\<exists>t why. (t, why) \<in> set (se_keep sel) \<and> sn_hostname t = sn_hostname s \<and> mset (sn_paths t) = mset (sn_paths s) \<and> sn_time s \<le> sn_time t"
proof -
  have p: "\<not> keep_is_empty p" using assms(2) by (auto simp: select_snapshots_def)
  have "set (group_of ss s) = {t \<in> set ss. group_key t = group_key s}" by (simp add: group_of_def)
  with assms(3) obtain t older where g: "group_of ss s = t # older" by (cases "group_of ss s") auto
  then have t: "t \<in> set ss" "group_key t = group_key s" using \<open>set (group_of ss s) = _\<close> by auto
  have "s \<in> set (t # older)" using \<open>set (group_of ss s) = _\<close> assms(3) g by auto
  moreover have "sorted_wrt (\<lambda>a b. sn_time b \<le> sn_time a) (t # older)" unfolding g [symmetric] group_of_def by (rule newest_first_sorted)
  ultimately have newer: "sn_time s \<le> sn_time t" by auto
  have "\<exists>n\<in>set (map (\<lambda>rule. fst (snd rule)) (keep_rules Z p)). 0 < n"
    using p unfolding keep_rule_counts by (cases p) (auto simp: keep_is_empty_def keep_default_def)
  then obtain name n key where r: "(name, n, key) \<in> set (keep_rules Z p)" "0 < n" by auto
  have "rule_keeps (name, n, key) (group_of ss t) t"
    unfolding rule_keeps_def prod.case using g r(2) t(2) by (intro exI [of _ "[]"] exI [of _ older]) (simp add: group_of_def)
  then have "kept_why (keep_rules Z p) (group_of ss t) t \<noteq> []" using r(1) by (auto simp: kept_why_def filter_empty_conv)
  then have "(t, kept_why (keep_rules Z p) (group_of ss t) t) \<in> set (se_keep sel)"
    using select_snapshots_result [OF assms(1) p, of Z] assms(2) t(1) by auto
  moreover have "sn_hostname t = sn_hostname s" "sort (sn_paths t) = sort (sn_paths s)" using t(2) by (simp_all add: group_key_def)
  moreover from this(2) have "mset (sn_paths t) = mset (sn_paths s)" by (metis mset_sort)
  ultimately show ?thesis using newer by blast
qed

lemma retention_keeps_newest_witness:
  "\<exists>sel t why. select_snapshots sample_zone sample_history (keep_default\<lparr>kp_yearly := 2\<rparr>) = Inr sel \<and>
    (t, why) \<in> set (se_keep sel) \<and> sn_hostname t = ''g'' \<and> 1 \<le> sn_time t"
proof -
  have "\<not> keep_is_empty (keep_default\<lparr>kp_yearly := 2\<rparr>)" by (simp add: keep_is_empty_def keep_default_def)
  then obtain sel where s: "select_snapshots sample_zone sample_history (keep_default\<lparr>kp_yearly := 2\<rparr>) = Inr sel" by (simp add: select_snapshots_def)
  have "sample_saved 4 1 ''g'' [''a''] \<in> set sample_history" by (simp add: sample_history_def)
  from retention_keeps_newest [OF sample_ids s this] s show ?thesis by (auto simp: sample_saved_def)
qed

end
