(* ===== verification/Lock.thy ===== *)
theory Lock
  imports Repository
begin

text \<open>
  The repository lock (\<open>backup-core/src/lock.rs\<close>): a sealed object per holder under \<open>locks/\<close>, whose age is
  told by the bucket's own times. The JSON codec, the host name and the process number are parameters. The
  refresher task is the operation it repeats; the flag it shares with the holder is a field of the lock.
\<close>

section \<open>Data\<close>

definition LOCK_DIR :: string where "LOCK_DIR = ''locks/''"

text \<open>In nanoseconds.\<close>

definition REFRESH_EVERY :: duration where "REFRESH_EVERY = 5 * 60 * 10 ^ 9"
definition STALE_AFTER :: duration where "STALE_AFTER = 30 * 60 * 10 ^ 9"

definition lock_aad :: "string \<Rightarrow> string" where
  "lock_aad i = ''rfm-backup:v1:lock:'' @ i"

record lock_info =
  li_exclusive :: bool
  li_hostname :: string
  li_pid :: u32
  li_created :: int

record lock_env =
  le_info :: "lock_info \<Rightarrow> bytes"
  le_info_parse :: "bytes \<Rightarrow> lock_info option"
  le_hostname :: string
  le_pid :: u32

definition lock_codec_ok :: "lock_env \<Rightarrow> bool" where
  "lock_codec_ok J \<longleftrightarrow> (\<forall>h. le_info_parse J (le_info J h) = Some h)"

record repo_lock =
  lk_base :: string
  lk_key :: string
  lk_acquired_at :: instant
  lk_lost :: bool

definition is_fresh :: "object_meta \<Rightarrow> instant \<Rightarrow> bool" where
  "is_fresh m now \<longleftrightarrow> (case om_last_modified m of None \<Rightarrow> True
     | Some modified \<Rightarrow> modified \<le> now \<and> now - modified < STALE_AFTER \<or> now < modified)"

section \<open>Operations\<close>

text \<open>Every failure is \<open>None\<close>.\<close>

definition read_info :: "benv \<Rightarrow> lock_env \<Rightarrow> keys \<Rightarrow> string \<Rightarrow> lock_info option bact" where
  "read_info B J ks key = act_bind (act_try (from_bstore (mem_get key))) (\<lambda>r. act_ok (case r of
      Inl _ \<Rightarrow> None
    | Inr sealed \<Rightarrow> (case unseal B ks KMeta sealed (lock_aad (last_segment key)) ''lock'' of
          Inl _ \<Rightarrow> None
        | Inr plaintext \<Rightarrow> le_info_parse J plaintext)))"

text \<open>The loop over the other fresh locks: the first that conflicts ends the attempt.\<close>

fun check_locks :: "benv \<Rightarrow> lock_env \<Rightarrow> keys \<Rightarrow> bool \<Rightarrow> string \<Rightarrow> object_meta list \<Rightarrow> unit bact" where
  "check_locks B J ks exclusive key [] = act_ok ()"
| "check_locks B J ks exclusive key (m # ms) =
     act_bind (read_info B J ks (om_key m)) (\<lambda>holder.
     let other_exclusive = (case holder of None \<Rightarrow> True | Some h \<Rightarrow> li_exclusive h) in
     if exclusive \<or> other_exclusive
     then act_bind (act_try (bdelete key)) (\<lambda>_. act_err (BLocked ''held''))
     else check_locks B J ks exclusive key ms)"

definition lock_acquire :: "benv \<Rightarrow> lock_env \<Rightarrow> string \<Rightarrow> keys \<Rightarrow> bool \<Rightarrow> repo_lock bact" where
  "lock_acquire B J base ks exclusive =
     act_bind (random_id B) (\<lambda>rid. let i = hex rid; key = base @ LOCK_DIR @ i in
     act_bind (act_get bw_now) (\<lambda>created.
     act_bind (bseal B ks KMeta (le_info J \<lparr>li_exclusive = exclusive, li_hostname = le_hostname J, li_pid = le_pid J,
         li_created = int created\<rparr>) (lock_aad i)) (\<lambda>sealed.
     act_bind (bput key sealed) (\<lambda>_.
     act_bind (from_bstore (mem_list (base @ LOCK_DIR) None)) (\<lambda>locks.
     act_bind (act_get bw_now) (\<lambda>now.
     let acquired_at = (case Option.bind (find (\<lambda>m. om_key m = key) locks) om_last_modified of None \<Rightarrow> now | Some t \<Rightarrow> t) in
     act_bind (check_locks B J ks exclusive key (filter (\<lambda>m. om_key m \<noteq> key \<and> is_fresh m acquired_at) locks)) (\<lambda>_.
     act_ok \<lparr>lk_base = base, lk_key = key, lk_acquired_at = acquired_at, lk_lost = False\<rparr>)))))))"

definition ensure_held :: "repo_lock \<Rightarrow> unit bresult" where
  "ensure_held l = (if lk_lost l then Inl (BLocked ''lost'') else Inr ())"

definition remove_stale :: "repo_lock \<Rightarrow> nat bact" where
  "remove_stale l =
     act_bind (from_bstore (mem_list (lk_base l @ LOCK_DIR) None)) (\<lambda>locks.
     act_fold (\<lambda>m removed. if om_key m \<noteq> lk_key l \<and> \<not> is_fresh m (lk_acquired_at l)
         then act_bind (bdelete (om_key m)) (\<lambda>_. act_ok (removed + 1))
         else act_ok removed) locks 0)"

definition lock_release :: "repo_lock \<Rightarrow> unit bact" where
  "lock_release l = bdelete (lk_key l)"

text \<open>One round of the refresher, which returns whether the lock turned out to be lost.\<close>

definition refresh_once :: "string \<Rightarrow> bytes \<Rightarrow> bool bact" where
  "refresh_once key sealed =
     act_bind (act_try (from_bstore (mem_head key))) (\<lambda>r. case r of
        Inr None \<Rightarrow> act_ok True
      | Inr (Some _) \<Rightarrow> act_bind (act_try (bput key sealed)) (\<lambda>_. act_ok False)
      | Inl _ \<Rightarrow> act_ok False)"

end
