(* ===== verification/Prune.thy ===== *)
theory Prune
  imports Lock
begin

text \<open>
  Reclaiming the space of forgotten snapshots (\<open>backup-core/src/prune.rs\<close>; the choice of the snapshots is
  in \<open>Retention\<close>). Hash sets and maps are finite sets and maps; where the code iterates over one, the model
  does it in the order of the keys. The comparison with \<open>REPACK_THRESHOLD * size as f64\<close> is done over the
  rationals, which for sizes below \<open>2 ^ 50\<close> the rounding of the doubles does not change.
\<close>

section \<open>Data\<close>

definition ORPHAN_GRACE :: duration where "ORPHAN_GRACE = 7 * 24 * 3600 * 10 ^ 9"

record prune_report =
  pr_dry_run :: bool
  pr_snapshots_forgotten :: nat
  pr_packs_deleted :: nat
  pr_bytes_freed :: u64
  pr_packs_repacked :: nat
  pr_bytes_repacked :: u64
  pr_packs_partly_used :: nat
  pr_bytes_unused :: u64
  pr_index_objects_replaced :: nat
  pr_stale_locks_removed :: nat
  pr_orphans_kept :: nat

definition report_default :: prune_report where
  "report_default = \<lparr>pr_dry_run = False, pr_snapshots_forgotten = 0, pr_packs_deleted = 0, pr_bytes_freed = 0, pr_packs_repacked = 0,
     pr_bytes_repacked = 0, pr_packs_partly_used = 0, pr_bytes_unused = 0, pr_index_objects_replaced = 0, pr_stale_locks_removed = 0,
     pr_orphans_kept = 0\<rparr>"

section \<open>Marking\<close>

text \<open>The nodes of a tree, read through the index.\<close>

definition read_nodes :: "benv \<Rightarrow> codecs \<Rightarrow> string \<Rightarrow> keys \<Rightarrow> index \<Rightarrow> bid \<Rightarrow> tree bact" where
  "read_nodes B C base ks ix t = (case index_lookup t ix of
      None \<Rightarrow> act_err (BIncomplete (id_short t))
    | Some l \<Rightarrow> act_bind (load_pack_blob B ks (base @ pack_name (lo_pack l)) (lo_entry l)) (\<lambda>plaintext.
        act_res (tree_decode C plaintext)))"

text \<open>
  The walk over a tree. \<open>rd\<close> reads the nodes of a tree; the fuel bounds the depth, and \<open>None\<close> is running
  out of it, which \<open>mark_returns\<close> excludes for the fuel that \<open>prune\<close> gives.
\<close>

function (sequential) mark :: "nat \<Rightarrow> (bid \<Rightarrow> tree bact) \<Rightarrow> bid \<Rightarrow> bid fset \<Rightarrow> bworld \<Rightarrow> ((berror + bid fset) \<times> bworld) option"
  and mark_nodes :: "nat \<Rightarrow> (bid \<Rightarrow> tree bact) \<Rightarrow> node list \<Rightarrow> bid fset \<Rightarrow> bworld \<Rightarrow> ((berror + bid fset) \<times> bworld) option" where
  "mark 0 rd t referenced w = None"
| "mark (Suc n) rd t referenced w =
     (if t |\<in>| referenced then Some (Inr referenced, w)
      else case rd t w of
             (Inl e, w') \<Rightarrow> Some (Inl e, w')
           | (Inr nodes, w') \<Rightarrow> mark_nodes n rd nodes (finsert t referenced) w')"
| "mark_nodes n rd [] referenced w = Some (Inr referenced, w)"
| "mark_nodes n rd (nd # nds) referenced w = (case nd_type nd of
      NDir \<Rightarrow> (case nd_subtree nd of
          None \<Rightarrow> Some (Inl (BPanic ''validated by Tree::decode''), w)
        | Some subtree \<Rightarrow> (case mark n rd subtree referenced w of
              None \<Rightarrow> None
            | Some (Inl e, w') \<Rightarrow> Some (Inl e, w')
            | Some (Inr referenced', w') \<Rightarrow> mark_nodes n rd nds referenced' w'))
    | NFile \<Rightarrow> mark_nodes n rd nds (referenced |\<union>| fset_of_list (nd_content nd)) w
    | NSymlink \<Rightarrow> mark_nodes n rd nds referenced w)"
  by pat_completeness auto
termination
  by (relation "measures [\<lambda>x. case x of Inl (n, _) \<Rightarrow> n | Inr (n, _) \<Rightarrow> n, \<lambda>x. case x of Inl _ \<Rightarrow> 0 | Inr (_, _, nds, _) \<Rightarrow> Suc (length nds)]") auto

fun mark_all :: "nat \<Rightarrow> (bid \<Rightarrow> tree bact) \<Rightarrow> bid list \<Rightarrow> bid fset \<Rightarrow> bworld \<Rightarrow> ((berror + bid fset) \<times> bworld) option" where
  "mark_all n rd [] referenced w = Some (Inr referenced, w)"
| "mark_all n rd (t # ts) referenced w = (case mark n rd t referenced w of
      None \<Rightarrow> None
    | Some (Inl e, w') \<Rightarrow> Some (Inl e, w')
    | Some (Inr referenced', w') \<Rightarrow> mark_all n rd ts referenced' w')"

definition mark_fuel :: "index \<Rightarrow> nat" where
  "mark_fuel ix = length (index_locations ix) + 2"

definition mark_remaining :: "benv \<Rightarrow> codecs \<Rightarrow> string \<Rightarrow> keys \<Rightarrow> index \<Rightarrow> backup_snapshot list \<Rightarrow> bid fset bact" where
  "mark_remaining B C base ks ix remaining = (\<lambda>w.
     case mark_all (mark_fuel ix) (read_nodes B C base ks ix) (map sn_tree remaining) {||} w of
       None \<Rightarrow> (Inl (BPanic ''fuel''), w)
     | Some (r, w') \<Rightarrow> (r, w'))"

section \<open>Planning\<close>

record prune_plan =
  pp_by_pack :: "(bid, pack_entry list) fmap"
  pp_doomed :: "bid list"
  pp_kept :: "pack_entries list"
  pp_repack :: "(bid \<times> pack_entry list) list"
  pp_report :: prune_report

definition group_by_pack :: "location list \<Rightarrow> (bid, pack_entry list) fmap" where
  "group_by_pack ls = fold (\<lambda>l m. fmupd (lo_pack l) ((case fmlookup m (lo_pack l) of None \<Rightarrow> [] | Some es \<Rightarrow> es) @ [lo_entry l]) m) ls fmempty"

definition written_at :: "object_meta list \<Rightarrow> bid \<Rightarrow> instant option" where
  "written_at metas = map_of (rev (concat (map (\<lambda>m. case id_parse (last_segment (om_key m)) of
      Inl _ \<Rightarrow> [] | Inr i \<Rightarrow> (case om_last_modified m of None \<Rightarrow> [] | Some t \<Rightarrow> [(i, t)])) metas)))"

definition total_length :: "pack_entry list \<Rightarrow> u64" where
  "total_length es = sum_list (map (\<lambda>e. ucast (pe_length e)) es)"

text \<open>What becomes of one stored pack.\<close>

definition plan_pack :: "(bid \<Rightarrow> instant option) \<Rightarrow> instant \<Rightarrow> bid fset \<Rightarrow> bid \<times> u64 \<Rightarrow> prune_plan \<Rightarrow> prune_plan" where
  "plan_pack written now referenced = (\<lambda>(i, sz) p. let r = pp_report p in case fmlookup (pp_by_pack p) i of
      None \<Rightarrow>
        if (case written i of None \<Rightarrow> True | Some t \<Rightarrow> now - t < ORPHAN_GRACE)
        then p\<lparr>pp_report := r\<lparr>pr_orphans_kept := pr_orphans_kept r + 1\<rparr>\<rparr>
        else p\<lparr>pp_doomed := pp_doomed p @ [i], pp_report := r\<lparr>pr_bytes_freed := pr_bytes_freed r + sz\<rparr>\<rparr>
    | Some es \<Rightarrow>
        let p = p\<lparr>pp_by_pack := fmdrop i (pp_by_pack p)\<rparr>;
            needed = filter (\<lambda>e. pe_id e |\<in>| referenced) es; unneeded = filter (\<lambda>e. pe_id e |\<notin>| referenced) es;
            unused = total_length unneeded; needed_bytes = total_length needed
        in if needed = []
           then p\<lparr>pp_doomed := pp_doomed p @ [i], pp_report := r\<lparr>pr_bytes_freed := pr_bytes_freed r + sz\<rparr>\<rparr>
           else if unat sz \<le> 5 * unat unused
           then p\<lparr>pp_repack := pp_repack p @ [(i, needed)], pp_report := r\<lparr>pr_packs_repacked := pr_packs_repacked r + 1,
                pr_bytes_repacked := pr_bytes_repacked r + needed_bytes, pr_bytes_freed := pr_bytes_freed r + (sz - needed_bytes)\<rparr>\<rparr>
           else p\<lparr>pp_kept := pp_kept p @ [\<lparr>pn_pack = i, pn_entries = needed @ unneeded\<rparr>],
                pp_report := (if 0 < unused then r\<lparr>pr_packs_partly_used := pr_packs_partly_used r + 1,
                  pr_bytes_unused := pr_bytes_unused r + unused\<rparr> else r)\<rparr>)"

definition plan_packs :: "(bid \<Rightarrow> instant option) \<Rightarrow> instant \<Rightarrow> bid fset \<Rightarrow> index \<Rightarrow> (bid \<times> u64) list \<Rightarrow> prune_report \<Rightarrow> prune_plan" where
  "plan_packs written now referenced ix packs r = fold (plan_pack written now referenced) packs
     \<lparr>pp_by_pack = group_by_pack (index_locations ix), pp_doomed = [], pp_kept = [], pp_repack = [], pp_report = r\<rparr>"

section \<open>Sweeping\<close>

definition prune_upload :: "benv \<Rightarrow> string \<Rightarrow> keys \<Rightarrow> pack_writer \<Rightarrow> pack_entries bact" where
  "prune_upload B base ks wr =
     act_bind (writer_finish B ks wr) (\<lambda>pk.
     act_bind (bput (base @ pack_name (pk_id pk)) (pk_data pk)) (\<lambda>_.
     act_ok \<lparr>pn_pack = pk_id pk, pn_entries = pk_entries pk\<rparr>))"

text \<open>The loop over the needed entries, with the open writer and the packs written so far.\<close>

fun copy_entries :: "benv \<Rightarrow> string \<Rightarrow> keys \<Rightarrow> compression_kind \<Rightarrow> bytes \<Rightarrow> pack_entry list \<Rightarrow> pack_writer \<times> pack_entries list \<Rightarrow>
    (pack_writer \<times> pack_entries list) bact" where
  "copy_entries B base ks want data [] s = act_ok s"
| "copy_entries B base ks want data (e # es) (wr, written) =
     (if length data < pe_end e then act_err (BFormat ''pack is shorter than its index says'')
      else let sealed = take (unat (pe_length e)) (drop (unat (pe_offset e)) data) in
           act_bind (act_res (decode_blob B ks e sealed)) (\<lambda>_.
           act_bind (act_res (writer_push (blob_from_entry e sealed) wr)) (\<lambda>(_, wr').
           if TARGET_SIZE \<le> length (pw_buf wr')
           then act_bind (writer_new B want) (\<lambda>new.
                act_bind (prune_upload B base ks wr') (\<lambda>p.
                copy_entries B base ks want data es (new, written @ [p])))
           else copy_entries B base ks want data es (wr', written))))"

definition copy_needed :: "benv \<Rightarrow> string \<Rightarrow> keys \<Rightarrow> compression_kind \<Rightarrow> bid \<times> pack_entry list \<Rightarrow> pack_entries list bact" where
  "copy_needed B base ks want = (\<lambda>(i, needed).
     act_bind (from_bstore (mem_get (base @ pack_name i))) (\<lambda>data.
     act_bind (writer_new B want) (\<lambda>wr.
     act_bind (copy_entries B base ks want data needed (wr, [])) (\<lambda>(wr', written).
     if pw_entries wr' = [] then act_ok written
     else act_bind (prune_upload B base ks wr') (\<lambda>p. act_ok (written @ [p]))))))"

definition drop_snapshot :: "string \<Rightarrow> bid \<Rightarrow> unit bact" where
  "drop_snapshot base i = act_bind (bdelete (base @ snapshot_name i)) (\<lambda>_. cache_remove CSnapshot i)"

definition drop_index :: "string \<Rightarrow> bid \<Rightarrow> unit bact" where
  "drop_index base i = act_bind (bdelete (base @ index_name i)) (\<lambda>_. cache_remove CIndex i)"

definition drop_pack :: "string \<Rightarrow> bid \<Rightarrow> unit bact" where
  "drop_pack base i = bdelete (base @ pack_name i)"

text \<open>The lock's flag, at the first check and at the second, is \<open>lost\<close>.\<close>

definition sweep :: "benv \<Rightarrow> string \<Rightarrow> keys \<Rightarrow> compression_kind \<Rightarrow> index \<Rightarrow> repo_lock \<Rightarrow> bool \<times> bool \<Rightarrow> bid list \<Rightarrow> prune_plan \<Rightarrow> prune_report bact" where
  "sweep B base ks want ix l lost forget p =
     act_bind (act_res (ensure_held (l\<lparr>lk_lost := fst lost\<rparr>))) (\<lambda>_.
     act_bind (act_each (drop_snapshot base) forget) (\<lambda>_.
     act_bind (act_fold (\<lambda>pack (kept, doomed). act_bind (copy_needed B base ks want pack) (\<lambda>written. act_ok (kept @ written, doomed @ [fst pack])))
         (pp_repack p) (pp_kept p, pp_doomed p)) (\<lambda>(kept, doomed).
     if doomed = [] then act_ok (pp_report p)
     else act_bind (if kept = [] then act_ok () else act_bind (index_save B base ks kept) (\<lambda>_. act_ok ())) (\<lambda>_.
          act_bind (act_res (ensure_held (l\<lparr>lk_lost := snd lost\<rparr>))) (\<lambda>_.
          act_bind (act_each (drop_index base) (ix_sources ix)) (\<lambda>_.
          act_bind (act_each (drop_pack base) doomed) (\<lambda>_.
          act_ok ((pp_report p)\<lparr>pr_index_objects_replaced := length (ix_sources ix)\<rparr>))))))))"

definition prune_locked :: "benv \<Rightarrow> codecs \<Rightarrow> string \<Rightarrow> keys \<Rightarrow> compression_kind \<Rightarrow> bid list \<Rightarrow> repo_lock option \<Rightarrow> bool \<times> bool \<Rightarrow> prune_report bact" where
  "prune_locked B C base ks want forget lock lost =
     act_bind (case lock of None \<Rightarrow> act_ok 0 | Some l \<Rightarrow> remove_stale l) (\<lambda>stale.
     act_bind (index_load B base ks) (\<lambda>ix.
     act_bind (snapshot_list B C base ks) (\<lambda>snapshots.
     let forget = btree_set forget in
     if \<exists>i\<in>set forget. i \<notin> set (map sn_id snapshots) then act_err (BSnapshotNotFound ''no snapshot'')
     else let remaining = filter (\<lambda>s. sn_id s \<notin> set forget) snapshots in
     act_bind (mark_remaining B C base ks ix remaining) (\<lambda>referenced.
     if \<exists>i|\<in>|referenced. \<not> index_has i ix then act_err (BIncomplete ''a remaining snapshot references a blob which no index lists'')
     else act_bind (list_ids base PACK_DIR) (\<lambda>packs.
     act_bind (from_bstore (mem_list (base @ PACK_DIR) None)) (\<lambda>metas.
     act_bind (act_get bw_now) (\<lambda>now.
     let p = plan_packs (written_at metas) now referenced ix packs
               (report_default\<lparr>pr_dry_run := (lock = None), pr_stale_locks_removed := stale, pr_snapshots_forgotten := length forget\<rparr>);
         p = p\<lparr>pp_report := (pp_report p)\<lparr>pr_packs_deleted := length (pp_doomed p) + length (pp_repack p)\<rparr>\<rparr>
     in case lock of
          None \<Rightarrow> act_ok (pp_report p)
        | Some l \<Rightarrow> sweep B base ks want ix l lost forget p)))))))"

definition prune :: "benv \<Rightarrow> lock_env \<Rightarrow> codecs \<Rightarrow> string \<Rightarrow> keys \<Rightarrow> compression_kind \<Rightarrow> bid list \<Rightarrow> bool \<Rightarrow> bool \<times> bool \<Rightarrow> prune_report bact" where
  "prune B J C base ks want forget dry_run lost =
     (if dry_run then prune_locked B C base ks want forget None lost
      else act_bind (lock_acquire B J base ks True) (\<lambda>l.
           act_bind (act_try (prune_locked B C base ks want forget (Some l) lost)) (\<lambda>result.
           act_bind (act_try (lock_release l)) (\<lambda>_. act_res result))))"

end
