(* ===== verification/Prune_Marking.thy ===== *)
theory Prune_Marking
  imports Prune
begin

text \<open>
  The walk of \<open>prune\<close> over the trees of the remaining snapshots: it ends within the fuel of the model, and
  it finds everything they reach, as long as no file's chunk is also a tree.
\<close>

section \<open>The walk\<close>

text \<open>
  What the walk needs of its reader: reading the same tree gives the same nodes for as long as the
  walk runs, and only finitely many trees can be read.
\<close>

locale node_reader =
  fixes rd :: "bid \<Rightarrow> tree bact" and view :: "bid \<Rightarrow> berror + tree" and Q :: "bworld \<Rightarrow> bool" and D :: "bid set"
  assumes reads: "Q w \<Longrightarrow> \<exists>w'. rd t w = (view t, w') \<and> Q w'"
    and readable: "finite D" "view t = Inr nodes \<Longrightarrow> t \<in> D"
begin

text \<open>Everything below a tree is in \<open>R\<close>.\<close>

definition covered :: "bid fset \<Rightarrow> node list \<Rightarrow> bool" where
  "covered R nodes \<longleftrightarrow> (\<forall>nd\<in>set nodes. (nd_type nd = NDir \<longrightarrow> (\<exists>s. nd_subtree nd = Some s \<and> s |\<in>| R)) \<and>
     (nd_type nd = NFile \<longrightarrow> set (nd_content nd) \<subseteq> fset R))"

definition walked :: "bid fset \<Rightarrow> bid \<Rightarrow> bool" where
  "walked R t \<longleftrightarrow> (\<exists>nodes. view t = Inr nodes \<and> covered R nodes)"

text \<open>The subtrees of these nodes are in \<open>T\<close>, their chunks are not.\<close>

definition apart :: "bid set \<Rightarrow> node list \<Rightarrow> bool" where
  "apart T nodes \<longleftrightarrow> (\<forall>nd\<in>set nodes. (nd_type nd = NDir \<longrightarrow> (\<forall>s. nd_subtree nd = Some s \<longrightarrow> s \<in> T)) \<and>
     (nd_type nd = NFile \<longrightarrow> set (nd_content nd) \<inter> T = {}))"

lemma covered_mono: "covered R nodes \<Longrightarrow> R |\<subseteq>| R' \<Longrightarrow> covered R' nodes"
  unfolding covered_def less_eq_fset.rep_eq by blast

lemma walked_mono: "walked R t \<Longrightarrow> R |\<subseteq>| R' \<Longrightarrow> walked R' t"
  unfolding walked_def using covered_mono by blast

definition closed :: "bid set \<Rightarrow> bool" where
  "closed T \<longleftrightarrow> (\<forall>t\<in>T. \<forall>nodes. view t = Inr nodes \<longrightarrow> apart T nodes)"

text \<open>
  How a walk with fuel \<open>n\<close> from the set \<open>R\<close> may end: out of fuel only if \<open>n\<close> or more trees were left; if
  \<open>G\<close>, everything it added of \<open>T\<close> has been walked; and it has reached what it was sent for, \<open>P\<close>.
\<close>

fun outcome :: "bid set \<Rightarrow> bool \<Rightarrow> (bid fset \<Rightarrow> bool) \<Rightarrow> nat \<Rightarrow> bid fset \<Rightarrow> ((berror + bid fset) \<times> bworld) option \<Rightarrow> bool" where
  "outcome T G P n R None \<longleftrightarrow> n \<le> card (D - fset R)"
| "outcome T G P n R (Some (Inl e, w')) \<longleftrightarrow> Q w'"
| "outcome T G P n R (Some (Inr R', w')) \<longleftrightarrow> Q w' \<and> R |\<subseteq>| R' \<and> P R' \<and> (G \<longrightarrow> (\<forall>x\<in>T. x |\<in>| R' \<and> x |\<notin>| R \<longrightarrow> walked R' x))"

lemma outcome_weaken: "outcome T G P n R r \<Longrightarrow> (G' \<longrightarrow> G) \<Longrightarrow> outcome T G' P n R r"
proof (cases r)
  case (Some p)
  assume "outcome T G P n R r" "G' \<longrightarrow> G"
  then show ?thesis using Some by (cases p; cases "fst p") auto
qed simp

lemma card_left: "R |\<subseteq>| R' \<Longrightarrow> card (D - fset R') \<le> card (D - fset R)"
  using readable(1) by (intro card_mono) (auto simp: less_eq_fset.rep_eq)

lemma outcome_trans:
  assumes "Q w1" "R |\<subseteq>| R1" "G \<longrightarrow> (\<forall>x\<in>T. x |\<in>| R1 \<and> x |\<notin>| R \<longrightarrow> walked R1 x)" and "outcome T G P' n R1 r"
    and "\<And>R'. R1 |\<subseteq>| R' \<Longrightarrow> P' R' \<Longrightarrow> P R'"
  shows "outcome T G P n R r"
proof (cases r)
  case None
  then show ?thesis using assms card_left [of R R1] by simp
next
  case (Some p)
  obtain q w' where p: "p = (q, w')" by (cases p)
  show ?thesis
  proof (cases q)
    case (Inr R')
    have o: "Q w' \<and> R1 |\<subseteq>| R' \<and> P' R' \<and> (G \<longrightarrow> (\<forall>x\<in>T. x |\<in>| R' \<and> x |\<notin>| R1 \<longrightarrow> walked R' x))" using assms(4) Some p Inr by simp
    then have "walked R' x" if "G" "x \<in> T" "x |\<in>| R'" "x |\<notin>| R" for x
      using that assms(3) walked_mono [of R1 x R'] by (cases "x |\<in>| R1") blast+
    with o assms(2,5) show ?thesis using Some p Inr by auto
  qed (use assms(4) Some p in simp)
qed

lemma walk_nodes:
  assumes "\<And>t R w. Q w \<Longrightarrow> outcome T (G \<and> t \<in> T) (\<lambda>R'. t |\<in>| R') n R (mark n rd t R w)"
    and "Q w" and "G \<longrightarrow> apart T nodes"
  shows "outcome T G (\<lambda>R'. covered R' nodes) n R (mark_nodes n rd nodes R w)"
  using assms(2,3)
proof (induction nodes arbitrary: R w)
  case (Cons nd nds)
  have rest: "G \<longrightarrow> apart T nds" and now: "G \<longrightarrow> apart T [nd]" using Cons.prems by (auto simp: apart_def)
  have step: "covered R' (nd # nds)" if "covered R' [nd]" "covered R' nds" for R' using that by (simp add: covered_def)
  show ?case
  proof (cases "nd_type nd")
    case NFile
    let ?R = "R |\<union>| fset_of_list (nd_content nd)"
    have "G \<longrightarrow> (\<forall>x\<in>T. x |\<in>| ?R \<and> x |\<notin>| R \<longrightarrow> walked ?R x)" using now NFile by (auto simp: apart_def fset_of_list_elem)
    moreover have "covered R' (nd # nds)" if "?R |\<subseteq>| R'" "covered R' nds" for R'
      using that NFile by (intro step) (auto simp: covered_def less_eq_fset.rep_eq fset_of_list.rep_eq)
    ultimately show ?thesis using outcome_trans [OF Cons.prems(1) _ _ Cons.IH [OF Cons.prems(1) rest], of R ?R "\<lambda>R'. covered R' (nd # nds)"] NFile by auto
  next
    case NSymlink
    then show ?thesis using outcome_trans [OF Cons.prems(1) _ _ Cons.IH [OF Cons.prems(1) rest], of R R "\<lambda>R'. covered R' (nd # nds)"]
      by (simp add: covered_def)
  next
    case NDir
    show ?thesis
    proof (cases "nd_subtree nd")
      case (Some s)
      have o: "outcome T (G \<and> s \<in> T) (\<lambda>R'. s |\<in>| R') n R (mark n rd s R w)" using assms(1) Cons.prems(1) .
      have "G \<longrightarrow> s \<in> T" using now NDir Some by (simp add: apart_def)
      then have G: "(G \<and> s \<in> T) = G" by blast
      show ?thesis
      proof (cases "mark n rd s R w")
        case None
        then show ?thesis using o NDir Some by simp
      next
        case m: (Some p)
        obtain q w1 where p: "p = (q, w1)" by (cases p)
        show ?thesis
        proof (cases q)
          case (Inl e)
          then show ?thesis using o NDir Some m p by simp
        next
          case (Inr R1)
          have o: "Q w1" "R |\<subseteq>| R1" "s |\<in>| R1" "G \<longrightarrow> (\<forall>x\<in>T. x |\<in>| R1 \<and> x |\<notin>| R \<longrightarrow> walked R1 x)"
            using o unfolding m p Inr G by auto
          have "covered R' (nd # nds)" if "R1 |\<subseteq>| R'" "covered R' nds" for R'
            using that NDir Some o(3) by (intro step) (auto simp: covered_def less_eq_fset.rep_eq)
          then show ?thesis using outcome_trans [OF o(1,2,4) Cons.IH [OF o(1) rest]] NDir Some m p Inr by simp
        qed
      qed
    qed (use NDir Cons.prems in simp)
  qed
qed (simp add: covered_def)

lemma walk:
  assumes "G \<longrightarrow> closed T" and "Q w"
  shows "outcome T (G \<and> t \<in> T) (\<lambda>R'. t |\<in>| R') n R (mark n rd t R w)"
  using assms(2)
proof (induction n arbitrary: t R w)
  case (Suc n)
  show ?case
  proof (cases "t |\<in>| R")
    case False
    obtain w1 where r: "rd t w = (view t, w1)" "Q w1" using reads [OF Suc.prems] by blast
    show ?thesis
    proof (cases "view t")
      case (Inr nodes)
      let ?R = "finsert t R"
      have o: "outcome T (G \<and> t \<in> T) (\<lambda>R'. covered R' nodes) n ?R (mark_nodes n rd nodes ?R w1)"
      proof (rule walk_nodes [OF _ r(2)])
        show "G \<and> t \<in> T \<longrightarrow> apart T nodes" using assms(1) Inr by (auto simp: closed_def)
        show "outcome T ((G \<and> t \<in> T) \<and> s \<in> T) (\<lambda>R'. s |\<in>| R') n R (mark n rd s R w)" if "Q w" for s R w
          by (rule outcome_weaken [OF Suc.IH [OF that]]) blast
      qed
      have m: "mark (Suc n) rd t R w = mark_nodes n rd nodes ?R w1" using False r(1) Inr by simp
      show ?thesis
      proof (cases "mark_nodes n rd nodes ?R w1")
        case None
        have "D - fset ?R = (D - fset R) - {t}" "t \<in> D - fset R" using readable(2) [OF Inr] False by auto
        then have "card (D - fset ?R) < card (D - fset R)" using readable(1) by (metis card_Diff1_less finite_Diff)
        with o None show ?thesis unfolding m by simp
      next
        case (Some p)
        then obtain q w2 where p: "p = (q, w2)" by (cases p)
        show ?thesis
        proof (cases q)
          case (Inr R')
          have "Q w2" "?R |\<subseteq>| R'" "covered R' nodes" "G \<and> t \<in> T \<longrightarrow> (\<forall>x\<in>T. x |\<in>| R' \<and> x |\<notin>| ?R \<longrightarrow> walked R' x)"
            using o unfolding Some p Inr by simp_all
          moreover from this(3) have "walked R' t" using \<open>view t = Inr nodes\<close> by (auto simp: walked_def)
          ultimately show ?thesis unfolding m Some p Inr by (auto simp: less_eq_fset.rep_eq)
        qed (use o Some p m in simp)
      qed
    qed (use r False in simp)
  qed (use Suc.prems in auto)
qed simp

lemma walk_all:
  assumes "G \<longrightarrow> closed T \<and> set ts \<subseteq> T" and "Q w"
  shows "outcome T G (\<lambda>R'. set ts \<subseteq> fset R') n R (mark_all n rd ts R w)"
  using assms
proof (induction ts arbitrary: R w)
  case (Cons t ts)
  have "(G \<and> t \<in> T) = G" using Cons.prems(1) by auto
  with walk [OF _ Cons.prems(2), of G T t n R] Cons.prems(1)
  have o: "outcome T G (\<lambda>R'. t |\<in>| R') n R (mark n rd t R w)" by simp
  show ?case
  proof (cases "mark n rd t R w")
    case None
    then show ?thesis using o by simp
  next
    case (Some p)
    obtain q w1 where p: "p = (q, w1)" by (cases p)
    show ?thesis
    proof (cases q)
      case (Inr R1)
      have o1: "Q w1" "R |\<subseteq>| R1" "t |\<in>| R1" "G \<longrightarrow> (\<forall>x\<in>T. x |\<in>| R1 \<and> x |\<notin>| R \<longrightarrow> walked R1 x)"
        using o unfolding Some p Inr by auto
      have "set (t # ts) \<subseteq> fset R'" if "R1 |\<subseteq>| R'" "set ts \<subseteq> fset R'" for R' using that o1(3) by (auto simp: less_eq_fset.rep_eq)
      moreover have "G \<longrightarrow> closed T \<and> set ts \<subseteq> T" using Cons.prems(1) by simp
      ultimately show ?thesis using outcome_trans [OF o1(1,2,4) Cons.IH [OF _ o1(1)]] Some p Inr by simp
    qed (use o Some p in simp)
  qed
qed simp

end

section \<open>The walk over the bucket\<close>

text \<open>Reading blobs changes nothing but the counters of the store.\<close>

definition same_world :: "bworld \<Rightarrow> bworld \<Rightarrow> bool" where
  "same_world w w' \<longleftrightarrow> same_objects w w' \<and> bw_cache w' = bw_cache w"

lemma same_world_refl [simp]: "same_world w w"
  by (simp add: same_world_def)

lemma read_nodes_run:
  assumes "same_world w0 w"
  shows "\<exists>w'. read_nodes B C base ks ix t w = (fst (read_nodes B C base ks ix t w0), w') \<and> same_world w0 w'"
proof (cases "index_lookup t ix")
  case (Some l)
  let ?k = "base @ pack_name (lo_pack l)"
  have o: "fmlookup (objects w) ?k = fmlookup (objects w0) ?k" using assms by (simp add: same_world_def same_objects_def)
  show ?thesis
  proof (cases "fmlookup (objects w0) ?k")
    case None
    then show ?thesis using assms o Some by (simp add: read_nodes_def load_pack_blob_def act_bind_run from_bstore_run mem_get_range_def from_mirror_def
        same_world_def same_objects_def)
  next
    case ob: (Some ob)
    then show ?thesis using assms o Some
      by (auto simp: read_nodes_def load_pack_blob_def act_bind_run from_bstore_run mem_get_range_def from_mirror_def Let_def
        same_world_def same_objects_def split: sum.splits)
  qed
qed (use assms in \<open>simp add: read_nodes_def\<close>)

interpretation pruner: node_reader "read_nodes B C base ks ix" "\<lambda>t. fst (read_nodes B C base ks ix t w0)" "same_world w0" "fset (fmdom (ix_blobs ix))"
  for B C base ks ix w0
proof
  show "t \<in> fset (fmdom (ix_blobs ix))" if "fst (read_nodes B C base ks ix t w0) = Inr nodes" for t nodes
    using that by (auto simp: read_nodes_def index_lookup_def act_bind_run split: option.splits intro: fmdomI)
qed (use read_nodes_run in auto)

lemma index_size: "card (fset (fmdom (ix_blobs ix))) = length (index_locations ix)"
  using distinct_card [OF distinct_fm_keys, of "ix_blobs ix"] by (simp add: index_locations_def fm_values_def fm_entries_def)

text \<open>What a restore of the tree \<open>t\<close> reads: the trees below it, and their files' chunks.\<close>

inductive below :: "(bid \<Rightarrow> berror + tree) \<Rightarrow> bid \<Rightarrow> bid \<Rightarrow> bool" for view t where
  self: "below view t t"
| subtree: "below view t s \<Longrightarrow> view s = Inr nodes \<Longrightarrow> nd \<in> set nodes \<Longrightarrow> nd_type nd = NDir \<Longrightarrow> nd_subtree nd = Some u \<Longrightarrow> below view t u"

definition chunk_below :: "(bid \<Rightarrow> berror + tree) \<Rightarrow> bid \<Rightarrow> bid \<Rightarrow> bool" where
  "chunk_below view t c \<longleftrightarrow> (\<exists>s nodes nd. below view t s \<and> view s = Inr nodes \<and> nd \<in> set nodes \<and> nd_type nd = NFile \<and> c \<in> set (nd_content nd))"

definition chunks_apart :: "(bid \<Rightarrow> berror + tree) \<Rightarrow> bid set \<Rightarrow> bool" where
  "chunks_apart view roots \<longleftrightarrow> (\<forall>r\<in>roots. \<forall>r'\<in>roots. \<forall>c. chunk_below view r c \<longrightarrow> \<not> below view r' c)"

lemma below_closed:
  fixes w0 :: bworld
  assumes "chunks_apart (\<lambda>t. fst (read_nodes B C base ks ix t w0)) roots"
  shows "pruner.closed B C base ks ix w0 {s. \<exists>r\<in>roots. below (\<lambda>t. fst (read_nodes B C base ks ix t w0)) r s}"
  unfolding pruner.closed_def pruner.apart_def
proof (intro ballI allI impI conjI)
  let ?view = "\<lambda>t. fst (read_nodes B C base ks ix t w0)" let ?T = "{s. \<exists>r\<in>roots. below ?view r s}"
  fix t nodes nd
  assume "t \<in> ?T" and v: "fst (read_nodes B C base ks ix t w0) = Inr nodes" and nd: "nd \<in> set nodes"
  then obtain r where r: "r \<in> roots" "below ?view r t" by blast
  show "s \<in> ?T" if "nd_type nd = NDir" "nd_subtree nd = Some s" for s
    using below.subtree [OF r(2) v nd that] r(1) by blast
  show "set (nd_content nd) \<inter> ?T = {}" if "nd_type nd = NFile"
  proof -
    have "chunk_below ?view r c" if "c \<in> set (nd_content nd)" for c
      unfolding chunk_below_def using r(2) v nd that \<open>nd_type nd = NFile\<close> by blast
    then show ?thesis using assms r(1) unfolding chunks_apart_def by blast
  qed
qed

lemma mark_remaining_complete:
  fixes w :: bworld and B C base ks ix
  defines "view \<equiv> \<lambda>t. fst (read_nodes B C base ks ix t w)"
  assumes m: "mark_remaining B C base ks ix remaining w = (Inr referenced, w')"
    and a: "chunks_apart view (sn_tree ` set remaining)" and s: "sn \<in> set remaining"
    and b: "below view (sn_tree sn) b \<or> chunk_below view (sn_tree sn) b"
  shows "b |\<in>| referenced"
proof -
  let ?roots = "sn_tree ` set remaining" let ?T = "{s. \<exists>r\<in>?roots. below view r s}"
  from m have run: "mark_all (mark_fuel ix) (read_nodes B C base ks ix) (map sn_tree remaining) {||} w = Some (Inr referenced, w')"
    by (auto simp: mark_remaining_def split: option.splits)
  have c: "pruner.closed B C base ks ix w ?T" using below_closed a unfolding view_def by blast
  have "set (map sn_tree remaining) \<subseteq> ?T" by (auto intro: below.self)
  with c have o: "pruner.outcome B C base ks ix w ?T True (\<lambda>R'. set (map sn_tree remaining) \<subseteq> fset R') (mark_fuel ix) {||}
      (Some (Inr referenced, w'))"
    using pruner.walk_all [of True B C base ks ix w ?T "map sn_tree remaining" w "mark_fuel ix" "{||}"] run by simp
  then have roots: "?roots \<subseteq> fset referenced"
    and walked: "\<And>x. x \<in> ?T \<Longrightarrow> x |\<in>| referenced \<Longrightarrow> \<exists>nodes. view x = Inr nodes \<and> pruner.covered referenced nodes"
    by (auto simp: pruner.walked_def view_def)
  have trees: "b |\<in>| referenced" if "below view (sn_tree sn) b" for b
    using that
  proof induction
    case self then show ?case using roots s by auto
  next
    case (subtree t nodes nd u)
    then have "t \<in> ?T" using s by blast
    from walked [OF this subtree.IH] subtree.hyps show ?case by (fastforce simp: pruner.covered_def)
  qed
  show ?thesis using b
  proof
    assume "chunk_below view (sn_tree sn) b"
    then obtain t nodes nd where t: "below view (sn_tree sn) t" "view t = Inr nodes" "nd \<in> set nodes" "nd_type nd = NFile" "b \<in> set (nd_content nd)"
      by (auto simp: chunk_below_def)
    then have "t \<in> ?T" using s by blast
    from walked [OF this trees [OF t(1)]] t(2-) show ?thesis by (fastforce simp: pruner.covered_def)
  qed (rule trees)
qed

lemma mark_remaining_keeps: "mark_remaining B C base ks ix remaining w = (r, w') \<Longrightarrow> same_world w w'"
proof -
  assume m: "mark_remaining B C base ks ix remaining w = (r, w')"
  have o: "pruner.outcome B C base ks ix w {} False (\<lambda>R'. set (map sn_tree remaining) \<subseteq> fset R') (mark_fuel ix) {||}
      (mark_all (mark_fuel ix) (read_nodes B C base ks ix) (map sn_tree remaining) {||} w)"
    by (rule pruner.walk_all) simp_all
  show ?thesis
  proof (cases "mark_all (mark_fuel ix) (read_nodes B C base ks ix) (map sn_tree remaining) {||} w")
    case (Some p)
    then show ?thesis using o m by (cases p; cases "fst p") (auto simp: mark_remaining_def)
  qed (use m in \<open>auto simp: mark_remaining_def\<close>)
qed

end
