(* ===== verification/Prune_Safety.thy ===== *)
theory Prune_Safety
  imports Prune_Marking Repository_Runs
begin

text \<open>
  The sweep of \<open>prune\<close>: stopped after any step, it leaves the store consistent and everything that the
  remaining snapshots reach listed and readable.
\<close>

section \<open>Deletions\<close>

definition shrinks :: "string set \<Rightarrow> bworld \<Rightarrow> bworld \<Rightarrow> bool" where
  "shrinks K w w' \<longleftrightarrow> (\<forall>k. stored w' k = (if k \<in> K then None else stored w k)) \<and>
     (\<forall>kind i. cache_get kind i w' = cache_get kind i w \<or> cache_get kind i w' = None) \<and> bw_random w' = bw_random w"

lemma shrinks_refl [simp]: "shrinks {} w w"
  by (simp add: shrinks_def)

lemma shrinks_trans: "shrinks K w w1 \<Longrightarrow> shrinks K' w1 w2 \<Longrightarrow> shrinks (K \<union> K') w w2"
  unfolding shrinks_def by (metis Un_iff)

lemma shrinks_stored: "shrinks K w w' \<Longrightarrow> stored w' k = Some c \<Longrightarrow> stored w k = Some c"
  by (auto simp: shrinks_def split: if_splits)

lemma shrinks_cache: "shrinks K w w' \<Longrightarrow> cache_get kind i w' = Some c \<Longrightarrow> cache_get kind i w = Some c"
  unfolding shrinks_def by (metis option.distinct(1))

lemma genuine_shrinks: "genuine kind opens key w \<Longrightarrow> shrinks K w w' \<Longrightarrow> genuine kind opens key w'"
  using shrinks_stored shrinks_cache unfolding genuine_def by blast

lemma named_shrinks: "named base dir nm w \<Longrightarrow> shrinks K w w' \<Longrightarrow> named base dir nm w'"
  unfolding named_def shrinks_def by auto

lemma index_stored_shrinks: "shrinks K w w' \<Longrightarrow> index_stored B base ks w' j ps \<longleftrightarrow> index_stored B base ks w j ps \<and> base @ index_name j \<notin> K"
  by (auto simp: index_stored_def shrinks_def split: if_splits)

lemma store_inv_shrinks:
  assumes I: "store_inv B C base ks N w" and s: "shrinks K w w'"
    and packs: "\<And>j ps p. length j = ID_SIZE \<Longrightarrow> index_stored B base ks w' j ps \<Longrightarrow> p \<in> set ps \<Longrightarrow> base @ pack_name (pn_pack p) \<notin> K"
  shows "store_inv B C base ks N w'"
proof -
  note st = shrinks_stored [OF s]
  have none: "stored w k = None \<Longrightarrow> stored w' k = None" for k using s by (auto simp: shrinks_def)
  have cn: "cache_get kind i w = None \<Longrightarrow> cache_get kind i w' = None" for kind i using s unfolding shrinks_def by metis
  have ix: "index_stored B base ks w' j ps \<Longrightarrow> index_stored B base ks w j ps" for j ps using index_stored_shrinks [OF s] by blast
  have "names_ok base w'" using I s named_shrinks by (auto simp: store_inv_def names_ok_def)
  moreover have "indexes_sound B base ks w'"
    unfolding indexes_sound_def
  proof (intro allI impI ballI)
    fix j ps p assume j: "length j = ID_SIZE \<and> index_stored B base ks w' j ps" and p: "p \<in> set ps"
    then have "pack_stored B base ks w (pn_pack p) (pn_entries p)" using I ix unfolding store_inv_def indexes_sound_def by blast
    moreover have "stored w' (base @ pack_name (pn_pack p)) = stored w (base @ pack_name (pn_pack p))"
      using s packs j p by (auto simp: shrinks_def)
    ultimately show "pack_stored B base ks w' (pn_pack p) (pn_entries p)" by (simp add: pack_stored_def)
  qed
  moreover have "indexes_open B base ks w'"
    unfolding indexes_open_def
  proof (intro allI impI)
    fix i assume i: "length i = ID_SIZE \<and> stored w' (base @ index_name i) \<noteq> None"
    then have "stored w (base @ index_name i) = stored w' (base @ index_name i)" using st by auto
    moreover have "\<exists>ps. index_stored B base ks w i ps" using I i calculation unfolding store_inv_def indexes_open_def by simp
    ultimately show "\<exists>ps. index_stored B base ks w' i ps" by (simp add: index_stored_def)
  qed
  moreover have "index_genuine B base ks w'" "snapshot_genuine B C base ks w'"
    using I s genuine_shrinks unfolding store_inv_def by blast+
  moreover have "random_fresh B base N w'"
    using I s none cn unfolding store_inv_def random_fresh_def shrinks_def Let_def by simp
  ultimately show ?thesis unfolding store_inv_def by blast
qed

lemma shrinks_delete: "shrinks {k} w (w\<lparr>bw_store := bw_store w\<lparr>ms_entries := fmdrop k (objects w)\<rparr>\<rparr>)"
  by (simp add: shrinks_def stored_def)

lemma shrinks_uncache: "shrinks {} w (w\<lparr>bw_cache := map_option (fmdrop x) (bw_cache w)\<rparr>)"
  by (cases "bw_cache w") (simp_all add: shrinks_def stored_def cache_get_def)

text \<open>A step that deletes, of the keys \<open>ks\<close>: all of them, or some of them and an error.\<close>

definition deletes :: "string set \<Rightarrow> bworld \<Rightarrow> (berror + unit) \<times> bworld \<Rightarrow> bool" where
  "deletes ks w out \<longleftrightarrow> (\<exists>K. K \<subseteq> ks \<and> shrinks K w (snd out) \<and> (fst out = Inr () \<longrightarrow> K = ks))"

lemma deletes_obtain:
  assumes "deletes ks w (m w)"
  obtains r w' K where "m w = (r, w')" "shrinks K w w'" "K \<subseteq> ks" "r = Inr () \<longrightarrow> K = ks"
  using assms by (cases "m w") (auto simp: deletes_def)

lemma deletes_bdelete: "deletes {k} w (bdelete k w)"
  using shrinks_delete [of k w] shrinks_refl [of w] by (auto simp: deletes_def bdelete_run)

lemma deletes_uncached: "deletes {k} w (act_bind (bdelete k) (\<lambda>_. cache_remove kind i) w)"
  using shrinks_trans [OF shrinks_delete shrinks_uncache, of k w "(kind, i)"] shrinks_refl [of w]
  by (auto simp: deletes_def bdelete_run act_bind_run)

lemma deletes_drop:
  "deletes {base @ pack_name i} w (drop_pack base i w)"
  "deletes {base @ index_name i} w (drop_index base i w)"
  "deletes {base @ snapshot_name i} w (drop_snapshot base i w)"
  by (simp_all only: drop_pack_def drop_index_def drop_snapshot_def deletes_bdelete deletes_uncached)

lemma deletes_each:
  assumes "\<And>x w. deletes {key x} w (f x w)"
  shows "deletes (key ` set xs) w (act_each f xs w)"
proof (induction xs arbitrary: w)
  case Nil
  then show ?case using shrinks_refl [of w] by (auto simp: deletes_def)
next
  case (Cons x xs)
  obtain r w1 K where w1: "f x w = (r, w1)" "shrinks K w w1" "K \<subseteq> {key x}" "r = Inr () \<longrightarrow> K = {key x}"
    by (rule deletes_obtain [where m = "f x" and w = w, OF assms])
  show ?case
  proof (cases r)
    case (Inl e)
    then show ?thesis using w1 by (auto simp: deletes_def act_bind_run)
  next
    case (Inr u)
    obtain r2 w2 K2 where w2: "act_each f xs w1 = (r2, w2)" "shrinks K2 w1 w2" "K2 \<subseteq> key ` set xs" "r2 = Inr () \<longrightarrow> K2 = key ` set xs"
      by (rule deletes_obtain [where m = "act_each f xs" and w = w1, OF Cons.IH])
    have "act_each f (x # xs) w = (r2, w2)" using w1(1) w2(1) Inr by (simp add: act_bind_run)
    then show ?thesis using shrinks_trans [OF w1(2) w2(2)] w1(3,4) w2(3,4) Inr unfolding deletes_def
      by (intro exI [of _ "K \<union> K2"]) auto
  qed
qed

lemma remove_stale_run: "\<exists>r w' K. remove_stale l w = (r, w') \<and> shrinks K w w' \<and> (\<forall>k\<in>K. prefix (lk_base l @ LOCK_DIR) k)"
proof -
  let ?f = "\<lambda>m removed. if om_key m \<noteq> lk_key l \<and> \<not> is_fresh m (lk_acquired_at l)
    then act_bind (bdelete (om_key m)) (\<lambda>_. act_ok (removed + 1)) else act_ok removed"
  have fold: "\<exists>r w' K. act_fold ?f ms n w = (r, w') \<and> shrinks K w w' \<and> K \<subseteq> om_key ` set ms" for ms and n :: nat and w
  proof (induction ms arbitrary: n w)
    case Nil
    then show ?case using shrinks_refl [of w] by (intro exI [of _ "Inr n"] exI [of _ w] exI [of _ "{}"]) simp
  next
    case (Cons m ms)
    have "\<exists>r1 w1 K. ?f m n w = (r1, w1) \<and> shrinks K w w1 \<and> K \<subseteq> {om_key m}"
      using shrinks_delete [of "om_key m" w] shrinks_refl [of w]
      by (cases "bw_deny w (om_key m)"; cases "om_key m \<noteq> lk_key l \<and> \<not> is_fresh m (lk_acquired_at l)")
        (auto simp: bdelete_run act_bind_run intro: exI [of _ "{}"])
    then obtain r1 w1 K where s: "?f m n w = (r1, w1)" "shrinks K w w1" "K \<subseteq> {om_key m}" by blast
    show ?case
    proof (cases r1)
      case (Inl e)
      then have "act_fold ?f (m # ms) n w = (Inl e, w1)" using s(1) by (simp add: act_bind_run)
      then show ?thesis using s(2,3) by (intro exI [of _ "Inl e"] exI [of _ w1] exI [of _ K]) auto
    next
      case (Inr n1)
      obtain r2 w2 K2 where r: "act_fold ?f ms n1 w1 = (r2, w2)" "shrinks K2 w1 w2" "K2 \<subseteq> om_key ` set ms" using Cons by blast
      have "act_fold ?f (m # ms) n w = (r2, w2)" using s(1) r(1) Inr by (simp add: act_bind_run)
      moreover have "K \<union> K2 \<subseteq> om_key ` set (m # ms)" using s(3) r(3) by auto
      ultimately show ?thesis using shrinks_trans [OF s(2) r(2)] by blast
    qed
  qed
  obtain metas where m: "mem_list (lk_base l @ LOCK_DIR) None (bw_store w) = (Inr metas, bw_store w)" by (simp add: mem_list_def)
  then have keys: "om_key ` set metas \<subseteq> {k. prefix (lk_base l @ LOCK_DIR) k}" by (auto simp: mem_list_def mem_meta_def)
  obtain r :: "berror + nat" and w' K where r: "act_fold ?f metas 0 w = (r, w')" "shrinks K w w'" "K \<subseteq> om_key ` set metas" using fold [of metas 0 w] by (elim exE conjE)
  have "\<forall>k\<in>K. prefix (lk_base l @ LOCK_DIR) k" using r(3) keys by blast
  moreover have "remove_stale l w = act_fold ?f metas 0 w" by (simp add: remove_stale_def act_bind_run from_bstore_run m from_mirror_def)
  ultimately show ?thesis using r(1,2) by (intro exI [of _ r] exI [of _ w'] exI [of _ K]) simp
qed

section \<open>Copying\<close>

text \<open>New packs are all that is added.\<close>

definition extends :: "string \<Rightarrow> bworld \<Rightarrow> bworld \<Rightarrow> bool" where
  "extends base w w' \<longleftrightarrow> (\<forall>k. stored w k \<noteq> None \<longrightarrow> stored w' k = stored w k) \<and>
     (\<forall>k. (\<forall>i. k \<noteq> base @ pack_name i) \<longrightarrow> stored w' k = stored w k) \<and> bw_random w \<le> bw_random w'"

lemma extends_refl [simp]: "extends base w w"
  by (simp add: extends_def)

lemma extends_trans: "extends base w w1 \<Longrightarrow> extends base w1 w2 \<Longrightarrow> extends base w w2"
  unfolding extends_def by (metis order.trans)

lemma extends_index: "extends base w w' \<Longrightarrow> index_stored B base ks w' j ps \<longleftrightarrow> index_stored B base ks w j ps"
  by (simp add: extends_def index_stored_def)

lemma extends_pack: "extends base w w' \<Longrightarrow> pack_stored B base ks w i es \<Longrightarrow> pack_stored B base ks w' i es"
  unfolding extends_def pack_stored_def by (metis option.distinct(1))

lemma extends_none: "extends base w w' \<Longrightarrow> stored w' k = None \<Longrightarrow> stored w k = None"
  unfolding extends_def by metis

text \<open>An open writer under an identifier that nothing else uses.\<close>

definition fresh_writer :: "benv \<Rightarrow> string \<Rightarrow> keys \<Rightarrow> nat \<Rightarrow> bworld \<Rightarrow> pack_writer \<Rightarrow> bool" where
  "fresh_writer B base ks N w wr \<longleftrightarrow> writer_ok B ks wr \<and> length (pw_id wr) = ID_SIZE \<and>
     stored w (base @ pack_name (pw_id wr)) = None \<and> pw_id wr \<notin> b_random_id B ` {bw_random w..<N}"

lemma writer_new_run: "writer_new B want w = (Inr \<lparr>pw_id = b_random_id B (bw_random w), pw_compression = want, pw_buf = [], pw_entries = [],
    pw_seen = {||}\<rparr>, w\<lparr>bw_random := Suc (bw_random w)\<rparr>)"
  by (simp add: writer_new_def act_bind_run)

lemma writer_new_fresh:
  assumes "bcrypto_ok B" and "store_inv B C base ks N w" and "bw_random w < N"
  shows "fresh_writer B base ks N (w\<lparr>bw_random := Suc (bw_random w)\<rparr>) \<lparr>pw_id = b_random_id B (bw_random w), pw_compression = want, pw_buf = [], pw_entries = [],
    pw_seen = {||}\<rparr>"
proof -
  have r: "random_fresh B base N w" using assms(2) by (simp add: store_inv_def)
  have f: "fresh_id B N (Suc (bw_random w)) w (b_random_id B (bw_random w))" using fresh_id_draw [OF r assms(3)] by simp
  show ?thesis using fresh_id_unused(1) [OF r f] f random_id_length [OF assms(1)]
    by (simp add: fresh_writer_def writer_ok_def fresh_id_def)
qed

lemma fresh_writer_later: "fresh_writer B base ks N w wr \<Longrightarrow> bw_random w \<le> bw_random w' \<Longrightarrow>
    stored w' (base @ pack_name (pw_id wr)) = None \<Longrightarrow> fresh_writer B base ks N w' wr"
  by (auto simp: fresh_writer_def)

text \<open>The packs \<open>ps\<close> have been written since \<open>w\<close>.\<close>

definition copied :: "benv \<Rightarrow> string \<Rightarrow> keys \<Rightarrow> bworld \<Rightarrow> bworld \<Rightarrow> pack_entries list \<Rightarrow> bool" where
  "copied B base ks w w' ps \<longleftrightarrow> packs_ok ps \<and> length ps \<le> bw_random w' - bw_random w \<and>
     (\<forall>p\<in>set ps. pack_stored B base ks w' (pn_pack p) (pn_entries p) \<and> stored w (base @ pack_name (pn_pack p)) = None)"

definition pack_list_ids :: "pack_entries list \<Rightarrow> bid set" where
  "pack_list_ids ps = (\<Union>p\<in>set ps. pe_id ` set (pn_entries p))"

lemma pack_list_ids_simps [simp]: "pack_list_ids [] = {}" "pack_list_ids (p # ps) = pe_id ` set (pn_entries p) \<union> pack_list_ids ps"
  "pack_list_ids (ps @ qs) = pack_list_ids ps \<union> pack_list_ids qs"
  by (auto simp: pack_list_ids_def)

lemma copied_trans:
  assumes "extends base w w1" "copied B base ks w w1 ps" "extends base w1 w2" "copied B base ks w1 w2 qs"
  shows "copied B base ks w w2 (ps @ qs)"
  unfolding copied_def
proof (intro conjI ballI)
  show "packs_ok (ps @ qs)" using assms(2,4) by (auto simp: copied_def packs_ok_def)
  have "length ps \<le> bw_random w1 - bw_random w" "length qs \<le> bw_random w2 - bw_random w1" "bw_random w \<le> bw_random w1" "bw_random w1 \<le> bw_random w2"
    using assms by (simp_all add: copied_def extends_def)
  then show "length (ps @ qs) \<le> bw_random w2 - bw_random w" by simp
  fix p assume p: "p \<in> set (ps @ qs)"
  show "pack_stored B base ks w2 (pn_pack p) (pn_entries p)"
  proof (cases "p \<in> set ps")
    case True
    then show ?thesis using assms(2) extends_pack [OF assms(3)] unfolding copied_def by blast
  next
    case False
    then show ?thesis using assms(4) p unfolding copied_def by simp
  qed
  show "stored w (base @ pack_name (pn_pack p)) = None"
  proof (cases "p \<in> set ps")
    case True
    then show ?thesis using assms(2) unfolding copied_def by blast
  next
    case False
    then have "stored w1 (base @ pack_name (pn_pack p)) = None" using assms(4) p unfolding copied_def by simp
    then show ?thesis by (rule extends_none [OF assms(1)])
  qed
qed

lemma prune_upload_step:
  assumes B: "bcrypto_ok B" and I: "store_inv B C base ks N w" and wr: "fresh_writer B base ks N w wr"
    and u: "prune_upload B base ks wr w = (r, w')"
  shows "store_inv B C base ks N w' \<and> extends base w w' \<and> (\<forall>p. r = Inr p \<longrightarrow> pn_entries p = pw_entries wr \<and> copied B base ks w w' [p]) \<and>
    (\<forall>wr2. fresh_writer B base ks N w wr2 \<and> pw_id wr2 \<noteq> pw_id wr \<longrightarrow> fresh_writer B base ks N w' wr2)"
proof -
  obtain q w1 where q: "writer_finish B ks wr w = (q, w1)" using prod.exhaust by metis
  obtain n where n: "w1 = w\<lparr>bw_random := n\<rparr>" "bw_random w \<le> n" using writer_finish_world [OF q] by blast
  have I1: "store_inv B C base ks N w1" unfolding n(1) by (rule store_inv_random [OF I n(2)])
  have e1: "extends base w w1" using n by (simp add: extends_def)
  have f1: "fresh_writer B base ks N w1 wr2" if "fresh_writer B base ks N w wr2" for wr2
    using fresh_writer_later [OF that, of w1] that n by (simp add: fresh_writer_def)
  show ?thesis
  proof (cases q)
    case (Inl e)
    then have "r = Inl e" "w' = w1" using u q by (simp_all add: prune_upload_def)
    then show ?thesis using I1 e1 f1 by simp
  next
    case (Inr pk)
    have ok: "pack_ok B ks (pk_id pk) (pk_data pk) (pk_entries pk)" "pk_id pk = pw_id wr" "pk_entries pk = pw_entries wr"
      using writer_finish_ok [OF B _ q [unfolded Inr]] wr unfolding fresh_writer_def by blast+
    have lt: "bw_random w < bw_random w1" using q Inr by (auto simp: writer_finish_def act_bind_ok split: if_splits)
    have f: "stored w1 (base @ pack_name (pk_id pk)) = None" "pk_id pk \<notin> b_random_id B ` {bw_random w1..<N}" "length (pk_id pk) = ID_SIZE"
      using f1 [OF wr] ok(2) by (simp_all add: fresh_writer_def)
    obtain b w2 where b: "bput (base @ pack_name (pk_id pk)) (pk_data pk) w1 = (b, w2)" using prod.exhaust by metis
    show ?thesis
    proof (cases b)
      case (Inl e)
      then have "r = Inl e" "w' = w2" "w2 = w1" using u q \<open>q = Inr pk\<close> b bput_err by (auto simp: prune_upload_def)
      then show ?thesis using I1 e1 f1 by simp
    next
      case (Inr x)
      then have w2: "w2 = put_world w1 (base @ pack_name (pk_id pk)) (pk_data pk)" using b by (auto simp: bput_ok)
      have r: "r = Inr \<lparr>pn_pack = pk_id pk, pn_entries = pk_entries pk\<rparr>" "w' = w2" using u q \<open>q = Inr pk\<close> b Inr by (simp_all add: prune_upload_def)
      have I2: "store_inv B C base ks N w2" unfolding w2 by (rule store_inv_put_pack [OF I1 f(1,2)])
      have e2: "extends base w1 w2" using f(1) by (auto simp: extends_def w2)
      have "pack_stored B base ks w2 (pk_id pk) (pk_entries pk)" using ok(1) by (auto simp: pack_stored_def w2)
      moreover have "packs_ok [\<lparr>pn_pack = pk_id pk, pn_entries = pk_entries pk\<rparr>]"
        using parse_header_entries [of B ks "pk_id pk" "pk_data pk" "pk_entries pk"] ok(1) f(3) by (simp add: pack_ok_def)
      moreover have "stored w (base @ pack_name (pk_id pk)) = None" using f(1) n by simp
      moreover have "bw_random w2 = bw_random w1" by (simp add: w2)
      ultimately have cp: "copied B base ks w w2 [\<lparr>pn_pack = pk_id pk, pn_entries = pk_entries pk\<rparr>]"
        using lt unfolding copied_def by simp
      have "fresh_writer B base ks N w2 wr2" if "fresh_writer B base ks N w wr2" "pw_id wr2 \<noteq> pw_id wr" for wr2
      proof (rule fresh_writer_later [OF f1 [OF that(1)]])
        have "stored w1 (base @ pack_name (pw_id wr2)) = None" using f1 [OF that(1)] by (simp add: fresh_writer_def)
        then show "stored w2 (base @ pack_name (pw_id wr2)) = None" using that(2) ok(2) by (simp add: w2)
      qed (simp add: w2)
      then show ?thesis using I2 extends_trans [OF e1 e2] cp ok(3) unfolding r by simp
    qed
  qed
qed

text \<open>A blob that decodes is long enough to be one, and can be pushed as it is.\<close>

lemma stream_open_length: "aead_ok A \<Longrightarrow> stream_open A k n a i c = Some p \<Longrightarrow> TAG_SIZE \<le> length c"
  using aead_open_length [of A k n i True a c p]
  by (cases "length c \<le> CHUNK_SIZE + TAG_SIZE") (simp_all add: stream_open_last)

lemma sealed_from_entry:
  assumes B: "bcrypto_ok B" and e: "entry_ok e" and d: "decode_blob B ks e sealed = Inr p"
  shows "sealed_ok B ks (blob_from_entry e sealed)"
proof -
  have len: "length sealed = unat (pe_length e)" using d by (auto simp: decode_blob_def Let_def split: if_splits)
  then have "length sealed < 2 ^ 32" using unsigned_less [of "pe_length e", where 'a = nat] by simp
  moreover have "sealed_entry (blob_from_entry e sealed) 0 = e\<lparr>pe_offset := 0\<rparr>"
    using len by (simp add: sealed_entry_def blob_from_entry_def)
  moreover obtain q a what where "unseal B ks (blob_key_kind (pe_type e)) sealed a what = Inr q"
    using d by (auto simp: decode_blob_def Let_def res_bind_ok split: if_splits)
  then have "NONCE_SIZE + TAG_SIZE \<le> length sealed"
    using stream_open_length B by (fastforce simp: unseal_ok decrypt_bytes_ok bcrypto_ok_def)
  ultimately show ?thesis using e d
    by (simp add: sealed_ok_def entry_ok_def decode_blob_offset NONCE_SIZE_def TAG_SIZE_def) (simp add: blob_from_entry_def)
qed

lemma writer_new_mono: "act_keeps (\<lambda>w. n \<le> bw_random w) (writer_new B want)"
  by (rule act_keepsI) (simp add: writer_new_run)

lemma bput_mono: "act_keeps (\<lambda>w. n \<le> bw_random w) (bput k b)"
  using bput_random by (intro act_keepsI) (metis prod.collapse)

lemma prune_upload_mono: "act_keeps (\<lambda>w. n \<le> bw_random w) (prune_upload B base ks wr)"
  unfolding prune_upload_def
proof (intro keeps_intros bput_mono)
  show "act_keeps (\<lambda>w. n \<le> bw_random w) (writer_finish B ks wr)"
    using writer_finish_world by (intro act_keepsI) (metis (no_types, lifting) bworld.select_convs(3) bworld.surjective bworld.update_convs(3) order_trans prod.collapse)
qed

lemma copy_entries_mono: "act_keeps (\<lambda>w. n \<le> bw_random w) (copy_entries B base ks want data es (wr, written))"
proof (induction es arbitrary: wr written)
  case (Cons e es)
  show ?case
    unfolding copy_entries.simps Let_def
    by (intro keeps_intros prune_upload_mono writer_new_mono Cons.IH | split prod.split | rule impI allI conjI)+
qed (auto intro: keeps_intros)

lemma push_entry:
  assumes B: "bcrypto_ok B" and e: "entry_ok e" and d: "decode_blob B ks e sealed = Inr p"
    and wr: "fresh_writer B base ks N w wr" and s: "writer_push (blob_from_entry e sealed) wr = Inr (added, wr')"
  shows "fresh_writer B base ks N w wr' \<and> fset (pw_seen wr') = insert (pe_id e) (fset (pw_seen wr))"
  using writer_push_ok [OF _ sealed_from_entry [OF B e d] s] wr
  by (simp add: fresh_writer_def blob_from_entry_def)

lemma copy_entries_step:
  assumes B: "bcrypto_ok B" and es: "\<forall>e\<in>set es. entry_ok e" and I: "store_inv B C base ks N w" and wr: "fresh_writer B base ks N w wr"
    and c: "copy_entries B base ks want data es (wr, written) w = (r, w')" and N: "bw_random w' \<le> N"
  shows "store_inv B C base ks N w' \<and> extends base w w' \<and> (\<forall>wr' out. r = Inr (wr', out) \<longrightarrow> fresh_writer B base ks N w' wr' \<and>
    (\<exists>new. out = written @ new \<and> copied B base ks w w' new \<and>
      pack_list_ids new \<union> fset (pw_seen wr') = fset (pw_seen wr) \<union> pe_id ` set es))"
  using es I wr c
proof (induction es arbitrary: w wr written)
  case Nil
  then show ?case by (auto simp: copied_def)
next
  case (Cons e es)
  let ?sealed = "take (unat (pe_length e)) (drop (unat (pe_offset e)) data)"
  note es = Cons.prems(1) and I = Cons.prems(2) and wr = Cons.prems(3) and run = Cons.prems(4)
  consider (err) x where "r = Inl x" "w' = w"
    | (push) p added wr1 where "\<not> length data < pe_end e" "decode_blob B ks e ?sealed = Inr p" "writer_push (blob_from_entry e ?sealed) wr = Inr (added, wr1)"
    using run by (cases "length data < pe_end e"; cases "decode_blob B ks e ?sealed"; cases "writer_push (blob_from_entry e ?sealed) wr") (auto simp: act_bind_run)
  then show ?case
  proof cases
    case err
    then show ?thesis using I by simp
  next
    case push
    have e: "entry_ok e" and es': "\<forall>e\<in>set es. entry_ok e" using es by simp_all
    note wr1 = push_entry [OF B e push(2) wr push(3)]
    show ?thesis
    proof (cases "TARGET_SIZE \<le> length (pw_buf wr1)")
      case False
      then have "copy_entries B base ks want data es (wr1, written) w = (r, w')" using run push by simp
      from Cons.IH [OF es' I conjunct1 [OF wr1] this] wr1 show ?thesis by (auto simp: Un_ac)
    next
      case True
      let ?w1 = "w\<lparr>bw_random := Suc (bw_random w)\<rparr>"
      let ?new = "\<lparr>pw_id = b_random_id B (bw_random w), pw_compression = want, pw_buf = [], pw_entries = [], pw_seen = {||}\<rparr>"
      obtain q w2 where q: "prune_upload B base ks wr1 ?w1 = (q, w2)" using prod.exhaust by metis
      have rest: "act_bind (prune_upload B base ks wr1) (\<lambda>p. copy_entries B base ks want data es (?new, written @ [p])) ?w1 = (r, w')"
        using run push True writer_new_run [of B want w] by simp
      have k: "act_keeps (\<lambda>v. Suc (bw_random w) \<le> bw_random v) (act_bind (prune_upload B base ks wr1) (\<lambda>p. copy_entries B base ks want data es (?new, written @ [p])))"
        by (intro keeps_intros prune_upload_mono copy_entries_mono)
      have "Suc (bw_random w) \<le> bw_random w'" by (rule act_keepsD [OF k _ rest]) simp
      then have lt: "bw_random w < N" using N by simp
      have I1: "store_inv B C base ks N ?w1" by (rule store_inv_random [OF I]) simp
      have new: "fresh_writer B base ks N ?w1 ?new" by (rule writer_new_fresh [OF B I lt])
      have f: "stored w (base @ pack_name (pw_id wr1)) = None" "pw_id wr1 \<notin> b_random_id B ` {bw_random w..<N}" using wr1 by (simp_all add: fresh_writer_def)
      have old: "fresh_writer B base ks N ?w1 wr1" using fresh_writer_later [OF conjunct1 [OF wr1], of ?w1] f(1) by simp
      have "b_random_id B (bw_random w) \<in> b_random_id B ` {bw_random w..<N}" using lt by simp
      then have ne: "pw_id ?new \<noteq> pw_id wr1" using f(2) by force
      note up = prune_upload_step [OF B I1 old q]
      have e1: "extends base w ?w1" by (simp add: extends_def)
      have e2: "extends base w w2" using up extends_trans [OF e1] by blast
      show ?thesis
      proof (cases q)
        case (Inl x)
        then have "r = Inl x" "w' = w2" using rest q by simp_all
        then show ?thesis using up e2 by simp
      next
        case (Inr p)
        then have "copy_entries B base ks want data es (?new, written @ [p]) w2 = (r, w')" using rest q by simp
        note ih = Cons.IH [OF es' conjunct1 [OF up] _ this]
        have fn: "fresh_writer B base ks N w2 ?new" using up new ne by blast
        have p: "pn_entries p = pw_entries wr1" "copied B base ks ?w1 w2 [p]" using up Inr by blast+
        have "copied B base ks w ?w1 []" by (simp add: copied_def)
        from copied_trans [OF e1 this _ p(2)] up have cp: "copied B base ks w w2 [p]" by simp
        have seen: "fset (pw_seen wr1) = pe_id ` set (pn_entries p)" using wr1 p(1) by (simp add: fresh_writer_def writer_ok_def)
        have "fresh_writer B base ks N w' wr' \<and> (\<exists>new. out = written @ new \<and> copied B base ks w w' new \<and>
            pack_list_ids new \<union> fset (pw_seen wr') = fset (pw_seen wr) \<union> pe_id ` set (e # es))" if "r = Inr (wr', out)" for wr' out
        proof -
          from ih [OF fn] that obtain new where n: "fresh_writer B base ks N w' wr'" "out = (written @ [p]) @ new" "copied B base ks w2 w' new"
            "pack_list_ids new \<union> fset (pw_seen wr') = pe_id ` set es" by auto
          have "copied B base ks w w' ([p] @ new)" using copied_trans [OF e2 cp _ n(3)] ih [OF fn] by blast
          moreover have "pack_list_ids ([p] @ new) \<union> fset (pw_seen wr') = fset (pw_seen wr1) \<union> (pack_list_ids new \<union> fset (pw_seen wr'))"
            using seen by simp blast
          ultimately show ?thesis using n(1,2,4) wr1 by (intro conjI exI [of _ "[p] @ new"]) auto
        qed
        then show ?thesis using ih [OF fn] extends_trans [OF e2] by blast
      qed
    qed
  qed
qed

lemma store_inv_world:
  assumes "store_inv B C base ks N w" and "same_world w w'"
  shows "store_inv B C base ks N w'"
proof (rule store_inv_same [OF assms(1)])
  have c: "cache_get kind i w' = cache_get kind i w" for kind i using assms(2) by (simp add: same_world_def cache_get_def)
  have st: "stored w' k = stored w k" for k using assms(2) same_stored by (auto simp: same_world_def)
  have "index_genuine B base ks w' = index_genuine B base ks w" "snapshot_genuine B C base ks w' = snapshot_genuine B C base ks w"
    by (rule genuine_cong, simp_all only: c st)+
  then show "index_genuine B base ks w'" "snapshot_genuine B C base ks w'" using assms(1) by (simp_all add: store_inv_def)
  show "\<forall>n\<in>{bw_random w..<N}. \<forall>kind. cache_get kind (b_random_id B n) w' = None"
    using assms(1) by (simp add: c store_inv_def random_fresh_def Let_def)
qed (use assms(2) in \<open>simp add: same_world_def\<close>)

lemma copy_needed_step:
  assumes B: "bcrypto_ok B" and es: "\<forall>e\<in>set es. entry_ok e" and I: "store_inv B C base ks N w"
    and c: "copy_needed B base ks want (i, es) w = (r, w')" and N: "bw_random w' \<le> N"
  shows "store_inv B C base ks N w' \<and> extends base w w' \<and> (\<forall>new. r = Inr new \<longrightarrow> copied B base ks w w' new \<and> pack_list_ids new = pe_id ` set es)"
proof (cases "fmlookup (objects w) (base @ pack_name i)")
  case None
  then have "\<exists>e. r = Inl e" "w' = w" using c by (auto simp: copy_needed_def act_bind_run from_bstore_run mem_get_def from_mirror_def)
  then show ?thesis using I by auto
next
  case (Some ob)
  let ?data = "obj_bytes ob" let ?w0 = "w\<lparr>bw_store := count_read ?data (bw_store w)\<rparr>" let ?w1 = "?w0\<lparr>bw_random := Suc (bw_random w)\<rparr>"
  let ?new = "\<lparr>pw_id = b_random_id B (bw_random w), pw_compression = want, pw_buf = [], pw_entries = [], pw_seen = {||}\<rparr>"
  have I0: "store_inv B C base ks N ?w0" by (rule store_inv_world [OF I]) (simp add: same_world_def)
  have I1: "store_inv B C base ks N ?w1" using store_inv_random [OF I0, of "Suc (bw_random w)"] by simp
  have e1: "extends base w ?w1" by (simp add: extends_def)
  let ?rest = "act_bind (copy_entries B base ks want ?data es (?new, [])) (\<lambda>(wr', written). if pw_entries wr' = [] then act_ok written
      else act_bind (prune_upload B base ks wr') (\<lambda>p. act_ok (written @ [p])))"
  have rest: "?rest ?w1 = (r, w')" using c Some writer_new_run [of B want ?w0]
    by (simp add: copy_needed_def act_bind_run from_bstore_run mem_get_def from_mirror_def)
  have k: "act_keeps (\<lambda>v. Suc (bw_random w) \<le> bw_random v) ?rest"
    by (intro keeps_intros copy_entries_mono | split prod.split | rule impI allI conjI keeps_intros prune_upload_mono)+
  have "Suc (bw_random w) \<le> bw_random w'" by (rule act_keepsD [OF k _ rest]) simp
  then have lt: "bw_random w < N" using N by simp
  have new: "fresh_writer B base ks N ?w1 ?new" using writer_new_fresh [OF B I0] lt by simp
  obtain q w2 where q: "copy_entries B base ks want ?data es (?new, []) ?w1 = (q, w2)" using prod.exhaust by metis
  have "bw_random w2 \<le> bw_random w'"
  proof (cases q)
    case (Inr x)
    obtain wr' written where x: "x = (wr', written)" by (cases x)
    let ?last = "if pw_entries wr' = [] then act_ok written else act_bind (prune_upload B base ks wr') (\<lambda>p. act_ok (written @ [p]))"
    have k: "act_keeps (\<lambda>v. bw_random w2 \<le> bw_random v) ?last" by (intro keeps_intros prune_upload_mono)
    have "?last w2 = (r, w')" using rest q Inr x by simp
    then show ?thesis by (rule act_keepsD [OF k order_refl])
  qed (use rest q in simp)
  then have N2: "bw_random w2 \<le> N" using N by simp
  note cs = copy_entries_step [OF B es I1 new q N2]
  have e2: "extends base w w2" using cs extends_trans [OF e1] by blast
  show ?thesis
  proof (cases q)
    case (Inl x)
    then have "r = Inl x" "w' = w2" using rest q by simp_all
    then show ?thesis using cs e2 by simp
  next
    case (Inr x)
    obtain wr' out where x: "x = (wr', out)" by (cases x)
    then have out: "fresh_writer B base ks N w2 wr'" "copied B base ks ?w1 w2 out" "pack_list_ids out \<union> fset (pw_seen wr') = pe_id ` set es"
      using cs Inr by auto
    have c0: "copied B base ks w ?w1 []" by (simp add: copied_def)
    have c2: "copied B base ks w w2 out" using copied_trans [OF e1 c0 _ out(2)] cs by simp
    have seen: "fset (pw_seen wr') = pe_id ` set (pw_entries wr')" using out(1) by (simp add: fresh_writer_def writer_ok_def)
    show ?thesis
    proof (cases "pw_entries wr' = []")
      case True
      then have "r = Inr out" "w' = w2" using rest q Inr x by simp_all
      then show ?thesis using cs e2 c2 out(3) seen True by simp
    next
      case False
      obtain b w3 where b: "prune_upload B base ks wr' w2 = (b, w3)" using prod.exhaust by metis
      note up = prune_upload_step [OF B conjunct1 [OF cs] out(1) b]
      have w': "w' = w3" "r = (case b of Inl e \<Rightarrow> Inl e | Inr p \<Rightarrow> Inr (out @ [p]))"
        using rest q Inr x False b by (cases b; simp)+
      have "copied B base ks w w3 (out @ [p])" "pack_list_ids (out @ [p]) = pe_id ` set es" if "b = Inr p" for p
        using copied_trans [OF e2 c2, of w3 "[p]"] up that out(3) seen by auto
      then show ?thesis using up extends_trans [OF e2] unfolding w' by (cases b) auto
    qed
  qed
qed

section \<open>The plan\<close>

definition entries_in :: "index \<Rightarrow> bid \<Rightarrow> pack_entry list" where
  "entries_in ix i = map lo_entry (filter (\<lambda>l. lo_pack l = i) (index_locations ix))"

lemma group_by_pack_lookup:
  "fmlookup (group_by_pack ls) i = (let es = map lo_entry (filter (\<lambda>l. lo_pack l = i) ls) in if es = [] then None else Some es)"
proof -
  have "fmlookup (fold (\<lambda>l m. fmupd (lo_pack l) ((case fmlookup m (lo_pack l) of None \<Rightarrow> [] | Some es \<Rightarrow> es) @ [lo_entry l]) m) ls m) i =
      (case fmlookup m i of None \<Rightarrow> if filter (\<lambda>l. lo_pack l = i) ls = [] then None else Some (map lo_entry (filter (\<lambda>l. lo_pack l = i) ls))
       | Some es \<Rightarrow> Some (es @ map lo_entry (filter (\<lambda>l. lo_pack l = i) ls)))" for m
    by (induction ls arbitrary: m) (auto split: option.splits)
  then show ?thesis by (simp add: group_by_pack_def Let_def)
qed

lemma plan_pack_cases:
  assumes "p' = plan_pack written now referenced (i, sz) p"
  obtains (orphan) "fmlookup (pp_by_pack p) i = None" "pp_doomed p' = pp_doomed p" "pp_kept p' = pp_kept p" "pp_repack p' = pp_repack p"
  | (doomed) "\<And>es. fmlookup (pp_by_pack p) i = Some es \<Longrightarrow> \<forall>e\<in>set es. pe_id e |\<notin>| referenced"
      "pp_doomed p' = pp_doomed p @ [i]" "pp_kept p' = pp_kept p" "pp_repack p' = pp_repack p"
  | (repacked) es where "fmlookup (pp_by_pack p) i = Some es" "pp_doomed p' = pp_doomed p" "pp_kept p' = pp_kept p"
      "pp_repack p' = pp_repack p @ [(i, filter (\<lambda>e. pe_id e |\<in>| referenced) es)]"
  | (kept) es where "fmlookup (pp_by_pack p) i = Some es" "pp_doomed p' = pp_doomed p" "pp_repack p' = pp_repack p"
      "pp_kept p' = pp_kept p @ [\<lparr>pn_pack = i, pn_entries = filter (\<lambda>e. pe_id e |\<in>| referenced) es @ filter (\<lambda>e. pe_id e |\<notin>| referenced) es\<rparr>]"
proof (cases "fmlookup (pp_by_pack p) i")
  case None
  then show ?thesis using assms orphan doomed by (simp add: plan_pack_def Let_def split: if_splits option.splits)
next
  case (Some es)
  show ?thesis
  proof (cases "filter (\<lambda>e. pe_id e |\<in>| referenced) es = []")
    case True
    then show ?thesis using assms Some by (intro doomed) (auto simp: plan_pack_def Let_def filter_empty_conv)
  next
    case False
    then show ?thesis using assms Some repacked [OF Some] kept [OF Some] by (simp add: plan_pack_def Let_def split: if_splits)
  qed
qed

lemma plan_pack_other: "j \<noteq> i \<Longrightarrow> fmlookup (pp_by_pack (plan_pack written now referenced (i, sz) p)) j = fmlookup (pp_by_pack p) j"
  by (simp add: plan_pack_def Let_def split: option.splits)

text \<open>The plan \<open>p\<close> for the packs \<open>ids\<close> of the bucket.\<close>

definition planned :: "index \<Rightarrow> bid fset \<Rightarrow> bid list \<Rightarrow> prune_plan \<Rightarrow> bool" where
  "planned ix R ids p \<longleftrightarrow> set (pp_doomed p) \<subseteq> set ids \<and> length (pp_kept p) \<le> length ids \<and> length (pp_repack p) \<le> length ids \<and>
     sum_list (map (\<lambda>(i, es). length es) (pp_repack p)) \<le> sum_list (map (\<lambda>i. length (entries_in ix i)) ids) \<and>
     (\<forall>q\<in>set (pp_kept p). pn_pack q \<in> set ids \<and> pn_pack q \<notin> set (pp_doomed p) \<and> pn_pack q \<notin> fst ` set (pp_repack p) \<and>
        entries_in ix (pn_pack q) \<noteq> [] \<and> mset (pn_entries q) = mset (entries_in ix (pn_pack q))) \<and>
     (\<forall>(i, es)\<in>set (pp_repack p). i \<in> set ids \<and> set es \<subseteq> set (entries_in ix i)) \<and>
     (\<forall>i\<in>set ids. \<forall>e\<in>set (entries_in ix i). pe_id e |\<in>| R \<longrightarrow>
        pe_id e \<in> pack_list_ids (pp_kept p) \<or> (\<exists>(i, es)\<in>set (pp_repack p). e \<in> set es))"

text \<open>No location is in two packs.\<close>

lemma entries_in_total: "distinct ids \<Longrightarrow> sum_list (map (\<lambda>i. length (entries_in ix i)) ids) \<le> length (index_locations ix)"
proof -
  assume d: "distinct ids"
  have "(\<Sum>i\<in>set ids. length (filter (\<lambda>l. lo_pack l = i) ls)) \<le> length ls" for ls
  proof (induction ls)
    case (Cons l ls)
    have "(\<Sum>i\<in>set ids. length (filter (\<lambda>l. lo_pack l = i) (l # ls))) =
        (\<Sum>i\<in>set ids. (if lo_pack l = i then 1 else 0) + length (filter (\<lambda>l. lo_pack l = i) ls))"
      by (rule sum.cong) auto
    also have "\<dots> \<le> 1 + (\<Sum>i\<in>set ids. length (filter (\<lambda>l. lo_pack l = i) ls))" by (simp add: sum.distrib)
    finally show ?case using Cons by simp
  qed simp
  then show ?thesis using d by (simp add: sum_list_distinct_conv_sum_set entries_in_def)
qed

lemma plan_packs_planned:
  assumes "distinct (map fst packs)"
  shows "planned ix R (map fst packs) (plan_packs written now R ix packs r)"
proof -
  let ?init = "\<lparr>pp_by_pack = group_by_pack (index_locations ix), pp_doomed = [], pp_kept = [], pp_repack = [], pp_report = r\<rparr>"
  let ?P = "\<lambda>packs. fold (plan_pack written now R) packs ?init"
  have "planned ix R (map fst packs) (?P packs) \<and> (\<forall>j. j \<notin> fst ` set packs \<longrightarrow> fmlookup (pp_by_pack (?P packs)) j = fmlookup (pp_by_pack ?init) j)"
    using assms
  proof (induction packs rule: rev_induct)
    case Nil
    then show ?case by (simp add: planned_def)
  next
    case (snoc x packs)
    obtain i sz where x: "x = (i, sz)" by (cases x)
    define q where "q = ?P packs"
    have new: "i \<notin> fst ` set packs" and "distinct (map fst packs)" using snoc.prems x by auto
    then have ih: "planned ix R (map fst packs) q" "\<And>j. j \<notin> fst ` set packs \<Longrightarrow> fmlookup (pp_by_pack q) j = fmlookup (pp_by_pack ?init) j"
      using snoc.IH unfolding q_def by blast+
    have look: "fmlookup (pp_by_pack q) i = (if entries_in ix i = [] then None else Some (entries_in ix i))"
    proof -
      have "fmlookup (pp_by_pack q) i = fmlookup (pp_by_pack ?init) i" by (rule ih(2) [OF new])
      also have "\<dots> = fmlookup (group_by_pack (index_locations ix)) i" by simp
      also have "\<dots> = (if entries_in ix i = [] then None else Some (entries_in ix i))" by (simp add: group_by_pack_lookup entries_in_def Let_def)
      finally show ?thesis .
    qed
    define p' where "p' = plan_pack written now R (i, sz) q"
    have out: "i \<notin> set (pp_doomed q)" "\<forall>q\<in>set (pp_kept q). pn_pack q \<noteq> i" "i \<notin> fst ` set (pp_repack q)"
      using ih(1) new by (auto simp: planned_def)
    have "planned ix R (map fst packs @ [i]) p'"
      using p'_def
    proof (cases rule: plan_pack_cases)
      case orphan
      then have "entries_in ix i = []" using look by (simp split: if_splits)
      then show ?thesis using ih(1) orphan unfolding planned_def by auto
    next
      case doomed
      then have "pe_id e |\<notin>| R" if "e \<in> set (entries_in ix i)" for e using look that by (auto split: if_splits)
      then show ?thesis using ih(1) doomed(2-) out unfolding planned_def by auto
    next
      case (repacked es)
      then have "es = entries_in ix i" using look by (simp split: if_splits)
      have "length (filter (\<lambda>e. pe_id e |\<in>| R) es) \<le> length (entries_in ix i)" unfolding \<open>es = _\<close> by (rule length_filter_le)
      moreover have "sum_list (map (\<lambda>(i, es). length es) (pp_repack q)) \<le> (\<Sum>i\<leftarrow>map fst packs. length (entries_in ix i))"
        using ih(1) by (simp add: planned_def)
      ultimately have "sum_list (map (\<lambda>(i, es). length es) (pp_repack p')) \<le> (\<Sum>i\<leftarrow>map fst packs @ [i]. length (entries_in ix i))"
        using repacked(4) by simp
      then show ?thesis using ih(1) repacked(2-) out \<open>es = entries_in ix i\<close> unfolding planned_def by auto
    next
      case (kept es)
      then have es: "es = entries_in ix i" and ne: "entries_in ix i \<noteq> []" using look by (simp_all split: if_splits)
      have "mset (filter (\<lambda>e. pe_id e |\<in>| R) es) + mset (filter (\<lambda>e. pe_id e |\<notin>| R) es) = mset es"
        by (simp add: mset_filter flip: multiset_partition)
      then show ?thesis using ih(1) kept(2-) out ne unfolding planned_def es by auto
    qed
    moreover have "fmlookup (pp_by_pack p') j = fmlookup (pp_by_pack ?init) j" if "j \<notin> fst ` set (packs @ [x])" for j
      using plan_pack_other [of j i written now R sz q] ih(2) [of j] that x by (auto simp: p'_def)
    ultimately show ?case by (simp add: x p'_def q_def)
  qed
  then show ?thesis by (simp add: plan_packs_def)
qed

section \<open>Listings and loads\<close>

lemma merge_sources_ids: "ix_sources (merge_sources ls ix) = ix_sources ix @ map fst ls"
proof (induction ls arbitrary: ix)
  case (Cons p ls)
  have "ix_sources (add_packs ps ix') = ix_sources ix'" for ps ix' by (induction ps arbitrary: ix') (simp_all add: add_pack_def)
  with Cons show ?case by (cases p) (simp add: add_source_def)
qed simp

lemma store_inv_load:
  assumes I: "store_inv B C base ks N w" and s: "same_objects w w'" and g: "index_genuine B base ks w'" "snapshot_genuine B C base ks w'"
    and c: "\<forall>kind' j. cache_get kind' j w' = cache_get kind' j w \<or> stored w (base @ index_name j) \<noteq> None \<or> stored w (base @ snapshot_name j) \<noteq> None"
  shows "store_inv B C base ks N w'"
proof (rule store_inv_same [OF I s g], intro ballI allI)
  fix n kind assume "n \<in> {bw_random w..<N}"
  then have "stored w (base @ index_name (b_random_id B n)) = None" "stored w (base @ snapshot_name (b_random_id B n)) = None"
    "cache_get kind (b_random_id B n) w = None"
    using I unfolding store_inv_def random_fresh_def Let_def by blast+
  then show "cache_get kind (b_random_id B n) w' = None" using c by metis
qed

lemma index_open_packs: "index_open_object B ks i s = Inr ps \<Longrightarrow> packs_ok ps"
proof -
  assume "index_open_object B ks i s = Inr ps"
  then obtain x where x: "(case index_decode x of Inl _ \<Rightarrow> Inl (BFormat (''index '' @ id_short i)) | Inr ps \<Rightarrow> Inr ps) = Inr ps"
    unfolding index_open_object_def res_bind_ok by blast
  then have "index_decode x = Inr ps" by (cases "index_decode x") simp_all
  then show ?thesis unfolding index_decode_iff by simp
qed

lemma index_load_step:
  assumes I: "store_inv B C base ks N w" and l: "index_load B base ks w = (Inr ix, w')"
  shows "store_inv B C base ks N w' \<and> same_objects w w' \<and> index_sound B base ks w' ix \<and>
    (\<forall>j. length j = ID_SIZE \<and> stored w (base @ index_name j) \<noteq> None \<longleftrightarrow> j \<in> set (ix_sources ix)) \<and>
    (\<forall>b. index_has b ix \<longleftrightarrow> listed B base ks w b) \<and> (\<forall>b l. index_lookup b ix = Some l \<longrightarrow> length (lo_pack l) = ID_SIZE)"
proof -
  have n: "named base INDEX_DIR index_name w" "index_genuine B base ks w" "indexes_sound B base ks w" "snapshot_genuine B C base ks w"
    using I by (simp_all add: store_inv_def names_ok_def)
  from index_load_ok [OF n(1,2) l] obtain ls where ls: "ix = merge_sources ls index_new" "same_objects w w'" "index_genuine B base ks w'"
    "\<forall>(i, ps)\<in>set ls. index_stored B base ks w i ps" "\<forall>(i, ps)\<in>set ls. length i = ID_SIZE"
    "\<forall>i. length i = ID_SIZE \<and> stored w (base @ index_name i) \<noteq> None \<longrightarrow> i \<in> fst ` set ls"
    "\<forall>kind' j. cache_get kind' j w' = cache_get kind' j w \<or> kind' = CIndex \<and> stored w (base @ index_name j) \<noteq> None" by blast
  have sn: "snapshot_genuine B C base ks w' = snapshot_genuine B C base ks w"
    using ls(7) by (intro genuine_cong same_stored [OF ls(2)]) auto
  have "store_inv B C base ks N w'" by (rule store_inv_load [OF I ls(2,3)]) (use sn n(4) ls(7) in blast)+
  moreover have "index_sound B base ks w' ix"
    using index_load_sound [OF n(1,2) l n(3)] index_sound_cong [OF same_stored [OF ls(2)]] by simp
  moreover have "length (lo_pack l) = ID_SIZE" if "index_lookup b ix = Some l" for b l
  proof -
    from that have "first_location b (concat (map snd ls)) = Some l" by (simp add: ls(1) merge_lookup)
    from first_location_some [OF this] obtain j ps q where q: "(j, ps) \<in> set ls" "q \<in> set ps" "lo_pack l = pn_pack q" by auto
    then have "index_stored B base ks w j ps" using ls(4) by blast
    then have "packs_ok ps" by (auto simp: index_stored_def dest: index_open_packs)
    with q show ?thesis by (simp add: packs_ok_def)
  qed
  moreover have "set (ix_sources ix) = fst ` set ls" by (simp add: ls(1) merge_sources_ids index_new_def)
  then have "length j = ID_SIZE \<and> stored w (base @ index_name j) \<noteq> None \<longleftrightarrow> j \<in> set (ix_sources ix)" for j
    using ls(4,5,6) by (fastforce simp: index_stored_def)
  moreover have "index_has b ix \<longleftrightarrow> listed B base ks w b" for b
    unfolding index_load_has [OF n(1,2) l] listed_def in_packs_def by blast
  ultimately show ?thesis using ls(2) by blast
qed

lemma snapshot_list_step:
  assumes I: "store_inv B C base ks N w" and l: "snapshot_list B C base ks w = (Inr ss, w')"
  shows "store_inv B C base ks N w' \<and> same_objects w w' \<and> (\<forall>s. s \<in> set ss \<longleftrightarrow> (\<exists>i. length i = ID_SIZE \<and> snapshot_stored B C base ks w i s))"
proof -
  have n: "named base SNAPSHOT_DIR snapshot_name w" "snapshot_genuine B C base ks w" "index_genuine B base ks w"
    using I by (simp_all add: store_inv_def names_ok_def)
  note ok = snapshot_list_ok [OF n(1,2) l]
  obtain ids where ids: "list_ids base SNAPSHOT_DIR w = (Inr ids, w)" using list_ids_ok by blast
  from l ids obtain xs where m: "act_map (\<lambda>(i, _). snapshot_load B C base ks i) ids w = (Inr xs, w')" by (auto simp: snapshot_list_def act_bind_ok)
  have c: "\<forall>kind' j. cache_get kind' j w' = cache_get kind' j w \<or> kind' = CSnapshot \<and> stored w (base @ snapshot_name j) \<noteq> None"
    using snr.load_listed [OF n(1,2) ids m] by blast
  have "same_objects w w'" using ok by blast
  then have "index_genuine B base ks w' = index_genuine B base ks w" using c by (intro genuine_cong same_stored) auto
  then have "store_inv B C base ks N w'" using ok c n(3) by (intro store_inv_load [OF I]) auto
  then show ?thesis using ok by blast
qed

section \<open>The sweep\<close>

text \<open>What a reader relies on: names, and every index object opens and lists packs that are stored whole.\<close>

definition bucket_ok :: "benv \<Rightarrow> string \<Rightarrow> keys \<Rightarrow> bworld \<Rightarrow> bool" where
  "bucket_ok B base ks w \<longleftrightarrow> names_ok base w \<and> indexes_sound B base ks w \<and> indexes_open B base ks w"

lemma store_inv_bucket: "store_inv B C base ks N w \<Longrightarrow> bucket_ok B base ks w"
  by (simp add: store_inv_def bucket_ok_def)

lemma bucket_ok_cong: "(\<And>k. stored w' k = stored w k) \<Longrightarrow> bucket_ok B base ks w' = bucket_ok B base ks w"
proof -
  assume st: "\<And>k. stored w' k = stored w k"
  have "indexes_sound B base ks w' = indexes_sound B base ks w" "indexes_open B base ks w' = indexes_open B base ks w"
    by (simp_all only: indexes_sound_def indexes_open_def index_stored_cong [OF st] pack_stored_cong [OF st] st)
  then show ?thesis unfolding bucket_ok_def using names_ok_cong [OF st] by simp
qed

lemma entries_in_stored:
  assumes s: "index_sound B base ks w ix" and ne: "entries_in ix i \<noteq> []"
  shows "pack_stored B base ks w i (entries_in ix i) \<and> distinct (entries_in ix i) \<and> (\<forall>e\<in>set (entries_in ix i). entry_ok e) \<and>
    length (entries_in ix i) < 2 ^ 32"
proof -
  have one: "pack_stored B base ks w i [e]" if "e \<in> set (entries_in ix i)" for e
    using s that by (auto simp: entries_in_def index_locations_def fm_values_iff index_sound_def index_lookup_def)
  obtain e0 where "e0 \<in> set (entries_in ix i)" using ne by (cases "entries_in ix i") auto
  from one [OF this] obtain data hs where d: "stored w (base @ pack_name i) = Some data" "pack_ok B ks i data hs" by (auto simp: pack_stored_def)
  have sub: "set (entries_in ix i) \<subseteq> set hs"
  proof
    fix e assume "e \<in> set (entries_in ix i)"
    from one [OF this] show "e \<in> set hs" using d by (auto simp: pack_stored_def pack_ok_def)
  qed
  have "map (pe_id \<circ> lo_entry) (index_locations ix) = fm_keys (ix_blobs ix)"
    unfolding index_locations_def fm_values_def fm_entries_def map_map
  proof (rule map_idI, goal_cases)
    case (1 k)
    then obtain l where "fmlookup (ix_blobs ix) k = Some l" by (auto simp: fmlookup_dom_iff)
    with s show ?case by (simp add: index_sound_def index_lookup_def)
  qed
  then have "distinct (map (pe_id \<circ> lo_entry) (index_locations ix))" by simp
  then have "distinct (map lo_entry (index_locations ix))" by (metis distinct_map map_map)
  then have "distinct (entries_in ix i)" unfolding entries_in_def by (rule distinct_map_filter)
  moreover have h: "parse_header B ks i data = Inr hs" using d(2) by (simp add: pack_ok_def)
  ultimately have "length (entries_in ix i) \<le> length hs" using sub by (metis card_length card_mono distinct_card finite_set le_trans)
  then show ?thesis using sub d parse_header_entries [OF h] \<open>distinct (entries_in ix i)\<close> by (auto simp: pack_stored_def)
qed

lemma kept_stored:
  assumes "index_sound B base ks w ix" and "planned ix R ids p" and "\<forall>i\<in>set ids. length i = ID_SIZE"
  shows "packs_ok (pp_kept p) \<and> (\<forall>q\<in>set (pp_kept p). pack_stored B base ks w (pn_pack q) (pn_entries q))"
proof -
  have "length (pn_pack q) = ID_SIZE \<and> (\<forall>e\<in>set (pn_entries q). entry_ok e) \<and> length (pn_entries q) < 2 ^ 32 \<and>
      pack_stored B base ks w (pn_pack q) (pn_entries q)" if "q \<in> set (pp_kept p)" for q
  proof -
    have q: "pn_pack q \<in> set ids" "entries_in ix (pn_pack q) \<noteq> []" "mset (pn_entries q) = mset (entries_in ix (pn_pack q))"
      using assms(2) that unfolding planned_def by blast+
    have "set (pn_entries q) = set (entries_in ix (pn_pack q))" "length (pn_entries q) = length (entries_in ix (pn_pack q))"
      using q(3) mset_eq_setD mset_eq_length by blast+
    then show ?thesis using entries_in_stored [OF assms(1) q(2)] q(1) assms(3) by (auto simp: pack_stored_def)
  qed
  then show ?thesis unfolding packs_ok_def by blast
qed

lemma copy_needed_mono: "act_keeps (\<lambda>w. n \<le> bw_random w) (copy_needed B base ks want q)"
proof -
  obtain i es where q: "q = (i, es)" by (cases q)
  have g: "act_keeps (\<lambda>w. n \<le> bw_random w) (from_bstore (mem_get k))" for k
    by (rule act_keepsI) (simp add: from_bstore_run mem_get_def split: option.splits)
  show ?thesis unfolding q copy_needed_def prod.case
    by (intro keeps_intros g writer_new_mono copy_entries_mono | split prod.split | rule impI allI conjI keeps_intros prune_upload_mono)+
qed

lemma fold_copy:
  assumes B: "bcrypto_ok B" and es: "\<forall>(i, es)\<in>set rp. \<forall>e\<in>set es. entry_ok e" and I: "store_inv B C base ks N w"
    and f: "act_fold (\<lambda>pack (kept, doomed). act_bind (copy_needed B base ks want pack) (\<lambda>written. act_ok (kept @ written, doomed @ [fst pack])))
      rp (kept, doomed) w = (r, w')" and N: "bw_random w' \<le> N"
  shows "store_inv B C base ks N w' \<and> extends base w w' \<and> (\<forall>kept' doomed'. r = Inr (kept', doomed') \<longrightarrow>
    doomed' = doomed @ map fst rp \<and> (\<exists>new. kept' = kept @ new \<and> copied B base ks w w' new \<and> pack_list_ids new = (\<Union>(i, es)\<in>set rp. pe_id ` set es)))"
  using es I f
proof (induction rp arbitrary: w kept doomed)
  case Nil
  then show ?case by (auto simp: copied_def)
next
  case (Cons q rp)
  obtain i es where q: "q = (i, es)" by (cases q)
  let ?f = "\<lambda>pack (kept, doomed). act_bind (copy_needed B base ks want pack) (\<lambda>written. act_ok (kept @ written, doomed @ [fst pack]))"
  have k: "act_keeps (\<lambda>v. n \<le> bw_random v) (act_fold ?f rp s)" for n s
    by (intro keeps_intros | split prod.split | rule impI allI conjI keeps_intros copy_needed_mono)+
  obtain c w1 where c: "copy_needed B base ks want (i, es) w = (c, w1)" using prod.exhaust by metis
  have run: "act_bind (?f q (kept, doomed)) (act_fold ?f rp) w = (r, w')" using Cons.prems(3) unfolding act_fold.simps .
  show ?case
  proof (cases c)
    case (Inl e)
    then have "r = Inl e" "w' = w1" using run q c by (simp_all add: act_bind_run)
    then show ?thesis using copy_needed_step [OF B _ Cons.prems(2) c] N Cons.prems(1) q by simp
  next
    case (Inr new)
    then have rest: "act_fold ?f rp (kept @ new, doomed @ [i]) w1 = (r, w')" using run q c by (simp add: act_bind_run)
    have "bw_random w1 \<le> bw_random w'" by (rule act_keepsD [OF k order_refl rest])
    then have st: "store_inv B C base ks N w1" "extends base w w1" "copied B base ks w w1 new" "pack_list_ids new = pe_id ` set es"
      using copy_needed_step [OF B _ Cons.prems(2) c] N Cons.prems(1) q Inr by simp_all
    from Cons.IH [OF _ st(1) rest] Cons.prems(1)
    have ih: "store_inv B C base ks N w'" "extends base w1 w'" "\<And>kept' doomed'. r = Inr (kept', doomed') \<Longrightarrow> doomed' = (doomed @ [i]) @ map fst rp \<and>
      (\<exists>new'. kept' = (kept @ new) @ new' \<and> copied B base ks w1 w' new' \<and> pack_list_ids new' = (\<Union>(i, es)\<in>set rp. pe_id ` set es))" by auto
    have "doomed' = doomed @ map fst (q # rp) \<and> (\<exists>new. kept' = kept @ new \<and> copied B base ks w w' new \<and>
        pack_list_ids new = (\<Union>(i, es)\<in>set (q # rp). pe_id ` set es))" if r: "r = Inr (kept', doomed')" for kept' doomed'
    proof -
      from ih(3) [OF r] obtain new' where n: "doomed' = (doomed @ [i]) @ map fst rp" "kept' = (kept @ new) @ new'" "copied B base ks w1 w' new'"
        "pack_list_ids new' = (\<Union>(i, es)\<in>set rp. pe_id ` set es)" by blast
      have "copied B base ks w w' (new @ new')" by (rule copied_trans [OF st(2,3) ih(2) n(3)])
      then show ?thesis using n st(4) q by (intro conjI exI [of _ "new @ new'"]) simp_all
    qed
    then show ?thesis using ih(1) extends_trans [OF st(2) ih(2)] by blast
  qed
qed

text \<open>
  The end of the sweep, once the new index object \<open>j\<close> is the only one not to be dropped: dropping the
  old index objects and then packs it does not list keeps the bucket consistent, and keeps it listed.
\<close>

lemma drop_rest:
  assumes I: "store_inv B C base ks N w"
    and ixs: "\<And>j ps. length j = ID_SIZE \<Longrightarrow> index_stored B base ks w j ps \<Longrightarrow> j \<in> set sources \<or> J j ps"
    and J: "\<And>j ps q. J j ps \<Longrightarrow> q \<in> set ps \<Longrightarrow> pn_pack q \<notin> set doomed"
    and d: "act_bind (act_each (drop_index base) sources) (\<lambda>_. act_bind (act_each (drop_pack base) doomed) (\<lambda>_. act_ok x)) w = (r, w')"
  shows "store_inv B C base ks N w' \<and>
    (\<forall>j ps. length j = ID_SIZE \<and> index_stored B base ks w j ps \<and> j \<notin> set sources \<longrightarrow> index_stored B base ks w' j ps)"
proof -
  obtain r1 w1 K1 where w1: "act_each (drop_index base) sources w = (r1, w1)" "shrinks K1 w w1" "K1 \<subseteq> (\<lambda>j. base @ index_name j) ` set sources"
    "r1 = Inr () \<longrightarrow> K1 = (\<lambda>j. base @ index_name j) ` set sources"
    by (rule deletes_obtain [where m = "act_each (drop_index base) sources" and w = w, OF deletes_each, OF deletes_drop(2)])
  have I1: "store_inv B C base ks N w1" by (rule store_inv_shrinks [OF I w1(2)]) (use w1(3) in auto)
  have keep1: "index_stored B base ks w1 j ps" if "index_stored B base ks w j ps" "j \<notin> set sources" for j ps
    using that w1(3) unfolding index_stored_shrinks [OF w1(2)] by auto
  show ?thesis
  proof (cases r1)
    case (Inl e)
    then have "w' = w1" using d w1(1) by (simp add: act_bind_run)
    then show ?thesis using I1 keep1 by blast
  next
    case (Inr u)
    obtain r2 w2 K2 where w2: "act_each (drop_pack base) doomed w1 = (r2, w2)" "shrinks K2 w1 w2" "K2 \<subseteq> (\<lambda>i. base @ pack_name i) ` set doomed"
      by (rule deletes_obtain [where m = "act_each (drop_pack base) doomed" and w = w1, OF deletes_each, OF deletes_drop(1)])
    have w': "w' = w2" using d w1(1) w2(1) Inr by (cases r2) (simp_all add: act_bind_run)
    have left: "J j ps" if "length j = ID_SIZE" "index_stored B base ks w1 j ps" for j ps
      using that ixs [OF that(1)] w1(4) Inr unfolding index_stored_shrinks [OF w1(2)] by auto
    have "store_inv B C base ks N w2"
    proof (rule store_inv_shrinks [OF I1 w2(2)])
      fix j ps q assume "length j = ID_SIZE" "index_stored B base ks w2 j ps" "q \<in> set ps"
      then have "J j ps" using left unfolding index_stored_shrinks [OF w2(2)] by blast
      then have "base @ pack_name (pn_pack q) \<notin> (\<lambda>i. base @ pack_name i) ` set doomed" using J \<open>q \<in> set ps\<close> by auto
      then show "base @ pack_name (pn_pack q) \<notin> K2" using w2(3) by blast
    qed
    moreover have "index_stored B base ks w2 j ps" if "index_stored B base ks w j ps" "j \<notin> set sources" for j ps
      using keep1 [OF that] w2(3) unfolding index_stored_shrinks [OF w2(2)] by auto
    ultimately show ?thesis unfolding w' by blast
  qed
qed

lemma drop_rest_mono: "act_keeps (\<lambda>w. n \<le> bw_random w)
    (act_bind (act_each (drop_index base) sources) (\<lambda>_. act_bind (act_each (drop_pack base) doomed) (\<lambda>_. act_ok x)))"
proof -
  have dl: "act_keeps (\<lambda>w. n \<le> bw_random w) (bdelete q)" for q by (rule act_keepsI) (simp add: bdelete_run split: if_splits)
  have cr: "act_keeps (\<lambda>w. n \<le> bw_random w) (cache_remove kind i)" for kind i by (rule act_keepsI) simp
  show ?thesis unfolding drop_index_def drop_pack_def by (intro keeps_intros dl cr)
qed

lemma index_save_mono: "act_keeps (\<lambda>w. n \<le> bw_random w) (index_save B base ks ps)"
  unfolding index_save_def by (intro keeps_intros bput_mono | rule act_keepsI; simp)+

lemma sweep_step:
  assumes B: "bcrypto_ok B" and I: "store_inv B C base ks N w" and sound: "index_sound B base ks w ix"
    and src: "\<And>j. length j = ID_SIZE \<and> stored w (base @ index_name j) \<noteq> None \<longleftrightarrow> j \<in> set (ix_sources ix)"
    and lens: "\<And>b l. index_lookup b ix = Some l \<Longrightarrow> length (lo_pack l) = ID_SIZE"
    and R: "\<And>b. b |\<in>| R \<Longrightarrow> index_has b ix" "\<And>b. index_has b ix \<Longrightarrow> listed B base ks w b"
    and pl: "planned ix R ids p" and ids: "\<And>i. length i = ID_SIZE \<and> stored w (base @ pack_name i) \<noteq> None \<longleftrightarrow> i \<in> set ids"
    and sz: "length ids + N < 2 ^ 32"
    and s: "sweep B base ks want ix l lost forget p w = (r, w')" and N: "bw_random w' \<le> N"
  shows "store_inv B C base ks N w' \<and> (\<forall>b. b |\<in>| R \<longrightarrow> listed B base ks w' b)"
proof (cases "fst lost")
  case True
  then have "w' = w" using s by (simp add: sweep_def ensure_held_def)
  then show ?thesis using I R by simp
next
  case False
  let ?copy = "\<lambda>pack (kept, doomed). act_bind (copy_needed B base ks want pack) (\<lambda>written. act_ok (kept @ written, doomed @ [fst pack]))"
  let ?save = "\<lambda>kept. if kept = [] then act_ok () else act_bind (index_save B base ks kept) (\<lambda>_. act_ok ())"
  define drop' where "drop' = (\<lambda>doomed. act_bind (act_each (drop_index base) (ix_sources ix)) (\<lambda>_. act_bind (act_each (drop_pack base) doomed) (\<lambda>_.
    act_ok ((pp_report p)\<lparr>pr_index_objects_replaced := length (ix_sources ix)\<rparr>))))"
  define rest where "rest = (\<lambda>(kept, doomed). if doomed = [] then act_ok (pp_report p)
    else act_bind (?save kept) (\<lambda>_. act_bind (act_res (ensure_held (l\<lparr>lk_lost := snd lost\<rparr>))) (\<lambda>_. drop' doomed)))"
  obtain r1 w1 K where w1: "act_each (drop_snapshot base) forget w = (r1, w1)" "shrinks K w w1" "K \<subseteq> (\<lambda>j. base @ snapshot_name j) ` set forget"
    by (rule deletes_obtain [where m = "act_each (drop_snapshot base) forget" and w = w, OF deletes_each, OF deletes_drop(3)])
  have I1: "store_inv B C base ks N w1" by (rule store_inv_shrinks [OF I w1(2)]) (use w1(3) in auto)
  have same1: "stored w1 (base @ pack_name i) = stored w (base @ pack_name i)" "stored w1 (base @ index_name i) = stored w (base @ index_name i)" for i
    using w1(2,3) by (auto simp: shrinks_def)
  have pk1: "pack_stored B base ks w1 i es = pack_stored B base ks w i es" and ix1: "index_stored B base ks w1 i ps = index_stored B base ks w i ps" for i es ps
    by (simp_all add: pack_stored_def index_stored_def same1)
  have R1: "listed B base ks w1 b" if "b |\<in>| R" for b using R that by (simp add: listed_def ix1)
  have k: "act_keeps (\<lambda>v. n \<le> bw_random v) (rest x)" for n x
    unfolding rest_def drop'_def by (cases x) (simp only: prod.case, intro keeps_intros index_save_mono drop_rest_mono)
  have h: "act_res (ensure_held (l\<lparr>lk_lost := fst lost\<rparr>)) w = (Inr (), w)" using False by (simp add: ensure_held_def)
  show ?thesis
  proof (cases r1)
    case (Inl e)
    then have "w' = w1" using s w1(1) h by (simp add: sweep_def act_bind_run)
    then show ?thesis using I1 R1 by blast
  next
  case forgot: (Inr u)
  have run: "act_bind (act_fold ?copy (pp_repack p) (pp_kept p, pp_doomed p)) rest w1 = (r, w')"
  proof -
    have h1: "act_each (drop_snapshot base) forget w = (Inr (), w1)" using w1(1) forgot by simp
    show ?thesis using s unfolding sweep_def rest_def drop'_def
      act_bind_Inr [where m = "act_res (ensure_held (l\<lparr>lk_lost := fst lost\<rparr>))" and w = w and x = "()" and w' = w, OF h]
      act_bind_Inr [where m = "act_each (drop_snapshot base) forget" and w = w and x = "()" and w' = w1, OF h1] .
  qed
  obtain q w2 where q: "act_fold ?copy (pp_repack p) (pp_kept p, pp_doomed p) w1 = (q, w2)" by (rule prod.exhaust)
  have N2: "bw_random w2 \<le> N"
  proof (cases q)
    case (Inr x)
    then have "rest x w2 = (r, w')" using run q by simp
    from act_keepsD [OF k order_refl this] N show ?thesis by simp
  qed (use run q N in simp)
  have eok: "\<forall>(i, es)\<in>set (pp_repack p). \<forall>e\<in>set es. entry_ok e"
  proof (intro ballI, clarify)
    fix i es e assume m: "(i, es) \<in> set (pp_repack p)" "e \<in> set es"
    then have "set es \<subseteq> set (entries_in ix i)" using pl unfolding planned_def by blast
    then have "e \<in> set (entries_in ix i)" using m(2) by blast
    then show "entry_ok e" using entries_in_stored [OF sound, of i] by (cases "entries_in ix i") auto
  qed
  note cp = fold_copy [OF B eok I1 q N2]
  have e2: "extends base w1 w2" using cp by blast
  have R2: "listed B base ks w2 b" if "b |\<in>| R" for b using R1 [OF that] by (simp add: listed_def extends_index [OF e2])
  show ?thesis
  proof (cases q)
    case (Inl e)
    then have "w' = w2" using run q by simp
    then show ?thesis using cp R2 by blast
  next
    case (Inr x)
    obtain kept doomed where x: "x = (kept, doomed)" by (cases x)
    from cp Inr x obtain new where new: "doomed = pp_doomed p @ map fst (pp_repack p)" "kept = pp_kept p @ new" "copied B base ks w1 w2 new"
      "pack_list_ids new = (\<Union>(i, es)\<in>set (pp_repack p). pe_id ` set es)" by blast
    have "rest (kept, doomed) w2 = (r, w')" using run q Inr x by simp
    then have fin: "(if doomed = [] then act_ok (pp_report p)
        else act_bind (?save kept) (\<lambda>_. act_bind (act_res (ensure_held (l\<lparr>lk_lost := snd lost\<rparr>))) (\<lambda>_. drop' doomed))) w2 = (r, w')"
      unfolding rest_def prod.case .
    show ?thesis
    proof (cases "doomed = []")
      case True
      then have "w' = w2" using fin by simp
      then show ?thesis using cp R2 by blast
    next
      case False
      have idl: "\<forall>i\<in>set ids. length i = ID_SIZE" using ids by blast
      note k0 = kept_stored [OF sound pl idl]
      have ok: "packs_ok kept" "\<forall>q\<in>set kept. pack_stored B base ks w2 (pn_pack q) (pn_entries q)"
        using k0 new(2,3) extends_pack [OF e2] by (auto simp: packs_ok_def copied_def pk1)
      have "length (pp_kept p) \<le> length ids" "length new \<le> bw_random w2 - bw_random w1" using pl new(3) by (simp_all add: planned_def copied_def)
      then have len: "length kept < 2 ^ 32" using sz N2 new(2) by simp
      have cover: "b \<in> pack_list_ids kept" if b: "b |\<in>| R" for b
      proof -
        obtain loc where loc: "index_lookup b ix = Some loc" using R(1) [OF b] by (auto simp: index_has_def index_lookup_def)
        then have e: "lo_entry loc \<in> set (entries_in ix (lo_pack loc))" "pe_id (lo_entry loc) = b"
          using sound by (auto simp: entries_in_def index_locations_def fm_values_iff index_lookup_def index_sound_def)
        have "stored w (base @ pack_name (lo_pack loc)) \<noteq> None" using sound loc by (auto simp: index_sound_def pack_stored_def)
        then have "lo_pack loc \<in> set ids" using ids lens [OF loc] by blast
        then have "b \<in> pack_list_ids (pp_kept p) \<or> (\<exists>(i, es)\<in>set (pp_repack p). lo_entry loc \<in> set es)"
          using pl e b unfolding planned_def by blast
        then show ?thesis using e(2) new(2,4) by auto
      qed
      have apart: "pn_pack q \<notin> set doomed" if "q \<in> set kept" for q
      proof (cases "q \<in> set (pp_kept p)")
        case True
        then show ?thesis using pl new(1) unfolding planned_def by auto
      next
        case False
        then have "stored w1 (base @ pack_name (pn_pack q)) = None" using that new(2,3) by (auto simp: copied_def)
        then have "pn_pack q \<notin> set ids" using ids same1(1) by (metis (full_types))
        moreover have "set doomed \<subseteq> set ids" using pl new(1) unfolding planned_def by fastforce
        ultimately show ?thesis by blast
      qed
      have old: "j \<in> set (ix_sources ix)" if "length j = ID_SIZE" "index_stored B base ks w2 j ps" for j ps
        using that src [of j] unfolding extends_index [OF e2] ix1 by (auto simp: index_stored_def)
      show ?thesis
      proof (cases "kept = []")
        case True
        then have none: "b |\<notin>| R" for b using cover by (metis empty_iff pack_list_ids_simps(1))
        from fin False True have "act_bind (act_res (ensure_held (l\<lparr>lk_lost := snd lost\<rparr>))) (\<lambda>_. drop' doomed) w2 = (r, w')" by simp
        then have "w' = w2 \<or> drop' doomed w2 = (r, w')" by (cases "snd lost") (simp_all add: ensure_held_def)
        then show ?thesis
        proof
          assume d: "drop' doomed w2 = (r, w')"
          have "store_inv B C base ks N w'"
            using drop_rest [OF conjunct1 [OF cp], of "ix_sources ix" "\<lambda>_ _. False" doomed, OF _ _ d [unfolded drop'_def]] old by blast
          then show ?thesis using none by blast
        qed (use cp none in blast)
      next
        case kept: False
        obtain v w3 where v: "index_save B base ks kept w2 = (v, w3)" using prod.exhaust by metis
        have N3: "bw_random w3 \<le> N"
        proof (cases v)
          case (Inr j)
          let ?tail = "act_bind (act_res (ensure_held (l\<lparr>lk_lost := snd lost\<rparr>))) (\<lambda>_. drop' doomed)"
          have "?tail w3 = (r, w')" using fin False kept v Inr by (simp add: act_bind_run)
          moreover have "act_keeps (\<lambda>x. bw_random w3 \<le> bw_random x) ?tail"
            unfolding drop'_def by (intro keeps_intros drop_rest_mono)
          ultimately show ?thesis using act_keepsD [of "\<lambda>x. bw_random w3 \<le> bw_random x" ?tail w3 r w'] N by simp
        qed (use fin False kept v N in \<open>simp add: act_bind_run\<close>)
        note sv = index_save_cases [OF B conjunct1 [OF cp] ok(1) len ok(2) v N3]
        show ?thesis
        proof (cases v)
          case (Inl e)
          then have w': "w' = w3" using fin False kept v by (simp add: act_bind_run)
          from sv Inl obtain n where n: "w3 = w2\<lparr>bw_random := n\<rparr>" "bw_random w2 \<le> n" by auto
          have "listed B base ks w3 b" if "b |\<in>| R" for b using R2 [OF that] listed_cong [of w3 w2] n(1) by simp
          then show ?thesis using store_inv_random [OF conjunct1 [OF cp] n(2)] unfolding w' n(1) by blast
        next
          case (Inr j0)
          from sv Inr obtain c n where j0: "w3 = new_object w2 CIndex j0 (base @ index_name j0) c n" "fresh_id B N n w2 j0" "length j0 = ID_SIZE"
            "index_open_object B ks j0 c = Inr kept" "store_inv B C base ks N w3" by auto
          have rf: "random_fresh B base N w2" using cp by (simp add: store_inv_def)
          have st0: "index_stored B base ks w3 j0 kept" using j0(1,4) by (simp add: index_stored_def)
          have ixs: "j \<in> set (ix_sources ix) \<or> ps = kept" if "length j = ID_SIZE" "index_stored B base ks w3 j ps" for j ps
          proof (cases "j = j0")
            case True
            then show ?thesis using that(2) st0 by (auto simp: index_stored_def)
          next
            case False
            then have "index_stored B base ks w2 j ps" using that(2) by (simp add: j0(1) index_stored_new)
            then show ?thesis using old that(1) by blast
          qed
          have "stored w2 (base @ index_name j0) = None" using fresh_id_unused(2) [OF rf j0(2)] .
          then have "stored w (base @ index_name j0) = None" using e2 same1(2) by (simp add: extends_def)
          then have new0: "j0 \<notin> set (ix_sources ix)" using src by (metis (full_types))
          have L: "listed B base ks v b" if "index_stored B base ks v j0 kept" "b |\<in>| R" for v b
            using cover [OF that(2)] that(1) j0(3) by (auto simp: listed_def in_packs_def pack_list_ids_def)
          have "act_bind (act_res (ensure_held (l\<lparr>lk_lost := snd lost\<rparr>))) (\<lambda>_. drop' doomed) w3 = (r, w')"
            using fin False kept v Inr by (simp add: act_bind_run)
          then have "w' = w3 \<or> drop' doomed w3 = (r, w')" by (cases "snd lost") (simp_all add: ensure_held_def)
          then show ?thesis
          proof
            assume "w' = w3"
            then show ?thesis using j0(5) L st0 by blast
          next
            assume d: "drop' doomed w3 = (r, w')"
            have "store_inv B C base ks N w' \<and> (\<forall>j ps. length j = ID_SIZE \<and> index_stored B base ks w3 j ps \<and> j \<notin> set (ix_sources ix) \<longrightarrow>
                index_stored B base ks w' j ps)"
              by (rule drop_rest [OF j0(5) _ _ d [unfolded drop'_def], where J = "\<lambda>_ ps. ps = kept"]) (use ixs apart in blast)+
            then show ?thesis using L j0(3) st0 new0 by blast
          qed
        qed
      qed
    qed
  qed
qed
qed

end
