(* ===== verification/Prune_Runs.thy ===== *)
theory Prune_Runs
  imports Prune_Safety
begin

text \<open>
  Whole runs of \<open>prune\<close>, with the lock around them: everything a remaining snapshot needs stays listed and
  readable wherever the run stops; the walk ends; and why it misses a directory whose tree is also a
  file's chunk.
\<close>

section \<open>What a reader sees\<close>

text \<open>The trees as a reader sees them who opens the repository now.\<close>

definition blob_view :: "benv \<Rightarrow> codecs \<Rightarrow> string \<Rightarrow> keys \<Rightarrow> bworld \<Rightarrow> bid \<Rightarrow> berror + tree" where
  "blob_view B C base ks w t = (case index_load B base ks w of
     (Inl e, _) \<Rightarrow> Inl e | (Inr ix, w') \<Rightarrow> fst (read_nodes B C base ks ix t w'))"

text \<open>The snapshots of the bucket that are not to be forgotten, and the blobs that one of them needs.\<close>

definition remains :: "benv \<Rightarrow> codecs \<Rightarrow> string \<Rightarrow> keys \<Rightarrow> bid list \<Rightarrow> bworld \<Rightarrow> backup_snapshot \<Rightarrow> bool" where
  "remains B C base ks forget w s \<longleftrightarrow> sn_id s \<notin> set forget \<and> (\<exists>i. length i = ID_SIZE \<and> snapshot_stored B C base ks w i s)"

definition needs :: "benv \<Rightarrow> codecs \<Rightarrow> string \<Rightarrow> keys \<Rightarrow> bworld \<Rightarrow> backup_snapshot \<Rightarrow> bid \<Rightarrow> bool" where
  "needs B C base ks w s b \<longleftrightarrow> below (blob_view B C base ks w) (sn_tree s) b \<or> chunk_below (blob_view B C base ks w) (sn_tree s) b"

text \<open>No file of a remaining snapshot has a chunk that is also one of their directories.\<close>

definition trees_apart :: "benv \<Rightarrow> codecs \<Rightarrow> string \<Rightarrow> keys \<Rightarrow> bid list \<Rightarrow> bworld \<Rightarrow> bool" where
  "trees_apart B C base ks forget w \<longleftrightarrow> chunks_apart (blob_view B C base ks w) (sn_tree ` {s. remains B C base ks forget w s})"

lemma read_nodes_cong:
  assumes "\<And>i. stored w' (base @ pack_name i) = stored w (base @ pack_name i)"
  shows "fst (read_nodes B C base ks ix t w') = fst (read_nodes B C base ks ix t w)"
proof (cases "index_lookup t ix")
  case (Some l)
  let ?k = "base @ pack_name (lo_pack l)"
  have "map_option obj_bytes (fmlookup (objects w') ?k) = map_option obj_bytes (fmlookup (objects w) ?k)"
    using assms [of "lo_pack l"] by (simp add: stored_def)
  then show ?thesis using Some
    by (cases "fmlookup (objects w') ?k"; cases "fmlookup (objects w) ?k")
      (auto simp: read_nodes_def load_pack_blob_def act_bind_run from_bstore_run mem_get_range_def from_mirror_def Let_def split: sum.splits)
qed (simp add: read_nodes_def)

lemma index_load_same_world:
  assumes "store_inv B C base ks N w" and "store_inv B C base ks M v"
    and "\<And>j. stored v (base @ index_name j) = stored w (base @ index_name j)"
    and l: "index_load B base ks w = (Inr ix, w')" "index_load B base ks v = (Inr ix', v')"
  shows "ix' = ix"
proof -
  have n: "named base INDEX_DIR index_name w" "index_genuine B base ks w" "named base INDEX_DIR index_name v" "index_genuine B base ks v"
    using assms(1,2) by (simp_all add: store_inv_def names_ok_def)
  obtain ls where ls: "ix = merge_sources ls index_new" "\<forall>(i, ps)\<in>set ls. index_stored B base ks w i ps" "\<forall>(i, ps)\<in>set ls. length i = ID_SIZE"
    "sorted (map fst ls)" "distinct (map fst ls)" "\<forall>i. length i = ID_SIZE \<and> stored w (base @ index_name i) \<noteq> None \<longrightarrow> i \<in> fst ` set ls"
    using index_load_ok [OF n(1,2) l(1)] by blast
  obtain ms where ms: "ix' = merge_sources ms index_new" "\<forall>(i, ps)\<in>set ms. index_stored B base ks v i ps" "\<forall>(i, ps)\<in>set ms. length i = ID_SIZE"
    "sorted (map fst ms)" "distinct (map fst ms)" "\<forall>i. length i = ID_SIZE \<and> stored v (base @ index_name i) \<noteq> None \<longrightarrow> i \<in> fst ` set ms"
    using index_load_ok [OF n(3,4) l(2)] by blast
  have st: "index_stored B base ks v i ps = index_stored B base ks w i ps" for i ps by (simp add: index_stored_def assms(3))
  have "fst ` set ls = {i. length i = ID_SIZE \<and> stored w (base @ index_name i) \<noteq> None}"
    using ls(2,3,6) by (fastforce simp: index_stored_def)
  moreover have "fst ` set ms = {i. length i = ID_SIZE \<and> stored w (base @ index_name i) \<noteq> None}"
    using ms(2,3,6) unfolding st assms(3) by (fastforce simp: index_stored_def)
  ultimately have "set (map fst ms) = set (map fst ls)" by simp
  then have ids: "map fst ms = map fst ls" using sorted_distinct_set_unique [OF ms(4,5) ls(4,5)] by blast
  have "map snd ms = map snd ls"
  proof (rule nth_equalityI)
    show len: "length (map snd ms) = length (map snd ls)" using ids map_eq_imp_length_eq by fastforce
    fix n assume "n < length (map snd ms)"
    then have n: "n < length ms" "n < length ls" using len by simp_all
    then have "fst (ms ! n) = fst (ls ! n)" using ids by (metis nth_map)
    moreover have "index_stored B base ks w (fst (ms ! n)) (snd (ms ! n))" "index_stored B base ks w (fst (ls ! n)) (snd (ls ! n))"
      using ms(2) ls(2) n unfolding st by (metis case_prod_beta nth_mem)+
    ultimately show "map snd ms ! n = map snd ls ! n" using n by (simp add: index_stored_def) force
  qed
  with ids have "ms = ls" by (metis zip_map_fst_snd)
  then show ?thesis by (simp add: ls(1) ms(1))
qed

lemma blob_view_same:
  assumes "store_inv B C base ks N w" and "store_inv B C base ks M v"
    and "\<And>j. stored v (base @ index_name j) = stored w (base @ index_name j)" "\<And>j. stored v (base @ pack_name j) = stored w (base @ pack_name j)"
    and l: "index_load B base ks w = (Inr ix, w')"
  shows "blob_view B C base ks v t = fst (read_nodes B C base ks ix t w)"
proof -
  have n: "named base INDEX_DIR index_name v" "index_genuine B base ks v" "indexes_open B base ks v"
    using assms(2) by (simp_all add: store_inv_def names_ok_def)
  obtain ix' v' where v: "index_load B base ks v = (Inr ix', v')" using index_load_total [OF n(1,2)] n(3) by (auto simp: indexes_open_def)
  have "ix' = ix" by (rule index_load_same_world [OF assms(1,2,3) l v])
  moreover have "same_objects v v'" using index_load_step [OF assms(2) v] by blast
  then have "stored v' (base @ pack_name i) = stored w (base @ pack_name i)" for i using assms(4) same_stored by metis
  ultimately show ?thesis using read_nodes_cong [where w = w and w' = v'] by (simp add: blob_view_def v)
qed

section \<open>The lock\<close>

definition off_locks :: "string \<Rightarrow> bworld \<Rightarrow> bworld \<Rightarrow> bool" where
  "off_locks base w w' \<longleftrightarrow> (\<forall>k. \<not> prefix (base @ LOCK_DIR) k \<longrightarrow> stored w' k = stored w k)"

lemma off_locks_names:
  assumes "off_locks base w w'"
  shows "stored w' (base @ pack_name i) = stored w (base @ pack_name i)" "stored w' (base @ index_name i) = stored w (base @ index_name i)"
    "stored w' (base @ snapshot_name i) = stored w (base @ snapshot_name i)"
  using assms by (simp_all add: off_locks_def pack_name_def index_name_def snapshot_name_def LOCK_DIR_def INDEX_DIR_def SNAPSHOT_DIR_def)

lemma off_locks_named:
  assumes "off_locks base w w'" and "dir \<in> {PACK_DIR, INDEX_DIR, SNAPSHOT_DIR}" and "named base dir nm w"
  shows "named base dir nm w'"
proof -
  have "\<not> prefix (base @ LOCK_DIR) k" if "prefix (base @ dir) k" for k
    using that assms(2) by (auto simp: prefix_def LOCK_DIR_def PACK_DIR_def INDEX_DIR_def SNAPSHOT_DIR_def)
  then show ?thesis using assms(1,3) unfolding named_def off_locks_def by metis
qed

lemma off_locks_bucket:
  assumes o: "off_locks base w w'"
  shows "bucket_ok B base ks w \<Longrightarrow> bucket_ok B base ks w'" "listed B base ks w' b = listed B base ks w b"
proof -
  note st = off_locks_names [OF o]
  have ix: "index_stored B base ks w' j ps = index_stored B base ks w j ps" for j ps by (simp add: index_stored_def st)
  have pk: "pack_stored B base ks w' j es = pack_stored B base ks w j es" for j es by (simp add: pack_stored_def st)
  show "bucket_ok B base ks w'" if "bucket_ok B base ks w"
    using that off_locks_named [OF o] by (simp add: bucket_ok_def names_ok_def indexes_sound_def indexes_open_def ix pk st)
  show "listed B base ks w' b = listed B base ks w b" by (simp add: listed_def ix)
qed

lemma store_inv_locks:
  assumes I: "store_inv B C base ks N w" and o: "off_locks base w w'" and c: "bw_cache w' = bw_cache w" and n: "bw_random w \<le> bw_random w'"
  shows "store_inv B C base ks N w'"
proof -
  note st = off_locks_names [OF o]
  have cg: "cache_get kind i w' = cache_get kind i w" for kind i by (simp add: cache_get_def c)
  have "bucket_ok B base ks w'" using off_locks_bucket(1) [OF o] store_inv_bucket [OF I] .
  moreover have "index_genuine B base ks w' = index_genuine B base ks w" "snapshot_genuine B C base ks w' = snapshot_genuine B C base ks w"
    by (rule genuine_cong, simp_all add: st cg)+
  moreover have "random_fresh B base N w'"
    using I n unfolding store_inv_def random_fresh_def Let_def st cg by (auto intro: inj_on_subset)
  ultimately show ?thesis using I by (simp add: store_inv_def bucket_ok_def)
qed

text \<open>Taking the lock touches nothing but lock objects, and draws from the random source.\<close>

definition locks_only :: "string \<Rightarrow> bworld \<Rightarrow> bworld \<Rightarrow> bool" where
  "locks_only base w w' \<longleftrightarrow> off_locks base w w' \<and> bw_cache w' = bw_cache w \<and> bw_random w \<le> bw_random w'"

lemma locks_only_refl [simp]: "locks_only base w w"
  by (simp add: locks_only_def off_locks_def)

lemma locks_only_trans: "locks_only base w v \<Longrightarrow> locks_only base v u \<Longrightarrow> locks_only base w u"
  by (auto simp: locks_only_def off_locks_def)

lemma locks_only_keeps:
  assumes "\<And>v r v'. m v = (r, v') \<Longrightarrow> locks_only base v v'"
  shows "act_keeps (locks_only base w) m"
  by (rule act_keepsI) (metis assms locks_only_trans prod.collapse)

lemma locks_only_delete: "prefix (base @ LOCK_DIR) k \<Longrightarrow> act_keeps (locks_only base w) (bdelete k)"
  by (rule locks_only_keeps) (auto simp: bdelete_run locks_only_def off_locks_def stored_def split: if_splits)

lemma locks_only_get: "act_keeps (locks_only base w) (from_bstore (mem_get k))"
  by (rule locks_only_keeps) (auto simp: from_bstore_run mem_get_def locks_only_def off_locks_def stored_def split: option.splits)

lemma check_locks_keeps:
  assumes "prefix (base @ LOCK_DIR) key"
  shows "act_keeps (locks_only base w) (check_locks B J ks exclusive key ms)"
proof (induction ms)
  case (Cons m ms)
  show ?case unfolding check_locks.simps read_info_def Let_def
    by (intro keeps_intros locks_only_delete assms locks_only_get Cons.IH)
qed (simp only: check_locks.simps, rule keeps_ok)

lemma lock_acquire_step:
  assumes a: "lock_acquire B J base ks exclusive w = (r, w')"
  shows "locks_only base w w' \<and> (\<forall>l. r = Inr l \<longrightarrow> lk_base l = base \<and> prefix (base @ LOCK_DIR) (lk_key l))"
proof
  have pre: "prefix (base @ LOCK_DIR) (base @ LOCK_DIR @ i)" for i by simp
  have put: "act_keeps (locks_only base w) (bput (base @ LOCK_DIR @ i) c)" for i c
  proof (rule locks_only_keeps)
    fix v q v' assume b: "bput (base @ LOCK_DIR @ i) c v = (q, v')"
    show "locks_only base v v'"
    proof (cases q)
      case (Inr x)
      then have "v' = put_world v (base @ LOCK_DIR @ i) c" using b by (auto simp: bput_ok)
      then show ?thesis by (auto simp: locks_only_def off_locks_def)
    qed (use b bput_err in fastforce)
  qed
  have ls: "act_keeps (locks_only base w) (from_bstore (mem_list k None))" for k
    by (rule locks_only_keeps) (auto simp: from_bstore_run mem_list_def locks_only_def off_locks_def)
  have rnd: "act_keeps (locks_only base w) (random_id B)" "act_keeps (locks_only base w) (bseal B ks kind p x)" for kind p x
    by (rule locks_only_keeps; auto simp: locks_only_def off_locks_def)+
  have "act_keeps (locks_only base w) (lock_acquire B J base ks exclusive)"
    unfolding lock_acquire_def Let_def by (intro keeps_intros rnd put ls check_locks_keeps pre)
  from act_keepsD [OF this locks_only_refl a] show "locks_only base w w'" .
  show "\<forall>l. r = Inr l \<longrightarrow> lk_base l = base \<and> prefix (base @ LOCK_DIR) (lk_key l)"
    using a by (auto simp: lock_acquire_def act_bind_ok Let_def)
qed

section \<open>Pruning under the lock\<close>

lemma reads_same:
  "act_keeps (same_objects w) (index_load B base ks)" "act_keeps (same_objects w) (snapshot_list B C base ks)"
proof -
  have k': "act_keeps (same_objects w) m" if "\<And>v r v'. m v = (r, v') \<Longrightarrow> same_objects v v'" for m :: "bytes bact"
    by (rule act_keepsI) (metis that same_objects_trans prod.collapse)
  have get: "act_keeps (same_objects w) (from_bstore (mem_get k))" for k
    by (rule k') (auto simp: from_bstore_run mem_get_def split: option.splits)
  have put: "act_keeps (same_objects w) (cache_put kind i c)" for kind i c
    by (rule act_keepsI) (simp add: same_objects_def)
  have ids: "act_keeps (same_objects w) (list_ids base dir)" for dir
    using list_ids_ok [of base dir] by (intro act_keepsI) (metis snd_conv)
  have f: "act_keeps (same_objects w) (index_fetch B base ks i)" "act_keeps (same_objects w) (snapshot_fetch B C base ks i)" for i
    unfolding index_fetch_def snapshot_fetch_def by (intro keeps_intros get put)+
  have one: "act_keeps (same_objects w) (index_load_one B base ks i)" "act_keeps (same_objects w) (snapshot_load B C base ks i)" for i
    by (rule act_keepsI; use f [of i] in \<open>auto simp: index_load_one_def snapshot_load_def act_keeps_def split: option.splits sum.splits\<close>)+
  show "act_keeps (same_objects w) (index_load B base ks)" "act_keeps (same_objects w) (snapshot_list B C base ks)"
    unfolding index_load_def snapshot_list_def by (intro keeps_intros ids | split prod.split | rule impI allI conjI one)+
qed

lemma act_bind_cases:
  assumes "act_bind m f w = (r, w')"
  obtains (err) e where "m w = (Inl e, w')" "r = Inl e" | (ok) x w1 where "m w = (Inr x, w1)" "f x w1 = (r, w')"
  using assms by (cases "m w"; cases "fst (m w)") (auto simp: act_bind_run)

text \<open>How many identifiers and nonces a step draws.\<close>

definition draws :: "nat \<Rightarrow> 'a bact \<Rightarrow> bool" where
  "draws n m \<longleftrightarrow> (\<forall>w. bw_random (snd (m w)) \<le> bw_random w + n)"

lemma drawsD: "draws n m \<Longrightarrow> m w = (r, w') \<Longrightarrow> bw_random w' \<le> bw_random w + n"
  unfolding draws_def by (metis snd_conv)

lemma drawsI: "(\<And>w r w'. m w = (r, w') \<Longrightarrow> bw_random w' \<le> bw_random w + n) \<Longrightarrow> draws n m"
  unfolding draws_def by (metis prod.collapse)

lemma draws_none: "(\<And>w. bw_random (snd (m w)) = bw_random w) \<Longrightarrow> draws n m"
  by (simp add: draws_def)

lemma draws_bind: "draws a m \<Longrightarrow> (\<And>x. draws b (f x)) \<Longrightarrow> a + b \<le> n \<Longrightarrow> draws n (act_bind m f)"
proof (rule drawsI)
  fix w r w' assume a: "draws a m" "\<And>x. draws b (f x)" "a + b \<le> n" and m: "act_bind m f w = (r, w')"
  from m show "bw_random w' \<le> bw_random w + n"
  proof (cases rule: act_bind_cases)
    case (err e)
    then show ?thesis using drawsD [OF a(1) err(1)] a(3) by simp
  next
    case (ok x w1)
    then show ?thesis using drawsD [OF a(1) ok(1)] drawsD [OF a(2) ok(2)] a(3) by simp
  qed
qed

lemma draws_res [simp]: "draws n (act_ok x)" "draws n (act_err e)" "draws n (act_res q)"
  by (simp_all add: draws_def)

lemma writer_new_draws: "draws 1 (writer_new B want)"
  by (rule drawsI) (simp add: writer_new_run)

lemma prune_upload_draws: "draws 1 (prune_upload B base ks wr)"
  unfolding prune_upload_def
proof (rule draws_bind)
  show "draws 1 (writer_finish B ks wr)" using writer_finish_draws by (rule drawsI)
  show "draws 0 (act_bind (bput (base @ pack_name (pk_id pk)) (pk_data pk)) (\<lambda>_. act_ok \<lparr>pn_pack = pk_id pk, pn_entries = pk_entries pk\<rparr>))" for pk
    by (rule draws_bind [where a = 0 and b = 0]) (use bput_random in \<open>auto intro!: drawsI\<close>)
qed simp

lemma copy_entries_draws: "draws (2 * length es) (copy_entries B base ks want data es (wr, written))"
proof (induction es arbitrary: wr written)
  case (Cons e es)
  have "draws (2 * length (e # es)) (if TARGET_SIZE \<le> length (pw_buf wr')
      then act_bind (writer_new B want) (\<lambda>new. act_bind (prune_upload B base ks wr') (\<lambda>p. copy_entries B base ks want data es (new, written @ [p])))
      else copy_entries B base ks want data es (wr', written))" for wr'
  proof (cases "TARGET_SIZE \<le> length (pw_buf wr')")
    case True
    have "draws (2 * length es + 1) (act_bind (prune_upload B base ks wr') (\<lambda>p. copy_entries B base ks want data es (new, written @ [p])))" for new
      by (rule draws_bind [OF prune_upload_draws Cons.IH]) simp
    from draws_bind [OF writer_new_draws this] True show ?thesis by simp
  next
    case False
    then show ?thesis using Cons.IH [of wr' written] by (simp add: draws_def) (meson le_SucI trans_le_add1 le_trans)
  qed
  then show ?case
    unfolding copy_entries.simps Let_def
    by (auto intro!: draws_bind [where a = 0 and b = "2 * length (e # es)"] split: prod.split)
qed simp

lemma copy_needed_draws: "draws (2 * length es + 2) (copy_needed B base ks want (i, es))"
proof -
  have g: "draws 0 (from_bstore (mem_get k))" for k
    by (rule draws_none) (simp add: from_bstore_run mem_get_def split: option.splits)
  have l: "draws 1 (case s of (wr', written) \<Rightarrow> if pw_entries wr' = [] then act_ok written
      else act_bind (prune_upload B base ks wr') (\<lambda>p. act_ok (written @ [p])))" for s
    by (cases s) (auto intro!: draws_bind [OF prune_upload_draws, where b = 0])
  have "draws (2 * length es + 1) (act_bind (copy_entries B base ks want data es (wr, [])) (\<lambda>(wr', written).
      if pw_entries wr' = [] then act_ok written else act_bind (prune_upload B base ks wr') (\<lambda>p. act_ok (written @ [p]))))" for data wr
    by (rule draws_bind [OF copy_entries_draws l]) simp
  from draws_bind [OF writer_new_draws this] have "draws (2 * length es + 2) (act_bind (writer_new B want) (\<lambda>wr.
      act_bind (copy_entries B base ks want data es (wr, [])) (\<lambda>(wr', written).
      if pw_entries wr' = [] then act_ok written else act_bind (prune_upload B base ks wr') (\<lambda>p. act_ok (written @ [p])))))" for data by simp
  from draws_bind [OF g this] show ?thesis by (simp add: copy_needed_def)
qed

lemma fold_copy_draws:
  "draws (2 * sum_list (map (\<lambda>(i, es). length es) rp) + 2 * length rp)
     (act_fold (\<lambda>pack (kept, doomed). act_bind (copy_needed B base ks want pack) (\<lambda>written. act_ok (kept @ written, doomed @ [fst pack]))) rp s)"
proof (induction rp arbitrary: s)
  case (Cons q rp)
  obtain i es kept doomed where q: "q = (i, es)" "s = (kept, doomed)" by (cases q; cases s)
  have "draws (2 * length es + 2) (act_bind (copy_needed B base ks want (i, es)) (\<lambda>written. act_ok (kept @ written, doomed @ [i])))"
    by (rule draws_bind [OF copy_needed_draws, where b = 0]) simp_all
  then show ?case unfolding act_fold.simps q prod.case fst_conv by (rule draws_bind [OF _ Cons.IH]) simp
qed (simp only: act_fold.simps draws_res)

lemma sweep_draws:
  "draws (2 * sum_list (map (\<lambda>(i, es). length es) (pp_repack p)) + 2 * length (pp_repack p) + 2) (sweep B base ks want ix l lost forget p)"
proof -
  have z: "draws 0 (act_each f xs)" if "\<And>x. draws 0 (f x)" for f :: "bid \<Rightarrow> unit bact" and xs
  proof (induction xs)
    case (Cons x xs)
    show ?case unfolding act_each.simps by (rule draws_bind [OF that Cons.IH]) simp
  qed (simp only: act_each.simps draws_res)
  have dl: "draws 0 (bdelete k)" "draws 0 (cache_remove kind i)" for k kind i
    by (rule draws_none; simp add: bdelete_run)+
  have drops: "draws 0 (drop_snapshot base i)" "draws 0 (drop_index base i)" "draws 0 (drop_pack base i)" for i
    unfolding drop_snapshot_def drop_index_def drop_pack_def by (auto intro: draws_bind [OF dl(1) dl(2)] dl)
  have sv: "draws 2 (index_save B base ks kept)" for kept using index_save_draws by (rule drawsI)
  have en: "draws 2 (if kept = [] then act_ok () else act_bind (index_save B base ks kept) (\<lambda>_. act_ok ()))" for kept
    by (auto intro: draws_bind [OF sv, where b = 0])
  have tail: "draws 0 (act_bind (act_res q) (\<lambda>_. act_bind (act_each (drop_index base) (ix_sources ix)) (\<lambda>_. act_bind (act_each (drop_pack base) doomed) (\<lambda>_.
      act_ok x))))" for q :: "unit bresult" and doomed and x :: prune_report
    by (intro draws_bind [where a = 0 and b = 0] z drops draws_res) simp_all
  have rest: "draws 2 (case s of (kept, doomed) \<Rightarrow> if doomed = [] then act_ok (pp_report p)
      else act_bind (if kept = [] then act_ok () else act_bind (index_save B base ks kept) (\<lambda>_. act_ok ())) (\<lambda>_.
        act_bind (act_res (ensure_held (l\<lparr>lk_lost := snd lost\<rparr>))) (\<lambda>_. act_bind (act_each (drop_index base) (ix_sources ix)) (\<lambda>_.
        act_bind (act_each (drop_pack base) doomed) (\<lambda>_. act_ok ((pp_report p)\<lparr>pr_index_objects_replaced := length (ix_sources ix)\<rparr>))))))" for s
  proof (cases s)
    case (Pair kept doomed)
    show ?thesis
    proof (cases "doomed = []")
      case False
      show ?thesis unfolding Pair prod.case if_not_P [OF False] by (rule draws_bind [OF en tail]) simp
    qed (simp add: Pair draws_none)
  qed
  let ?n = "2 * sum_list (map (\<lambda>(i, es). length es) (pp_repack p)) + 2 * length (pp_repack p) + 2"
  show ?thesis
    unfolding sweep_def
  proof (rule draws_bind [where a = 0 and b = ?n, OF draws_res(3)], rule draws_bind [where a = 0 and b = ?n, OF z [OF drops(1)]])
  qed (rule draws_bind [OF fold_copy_draws rest], simp_all)
qed

definition pack_count :: "string \<Rightarrow> bworld \<Rightarrow> nat" where
  "pack_count base w = card {i. length i = ID_SIZE \<and> stored w (base @ pack_name i) \<noteq> None}"

definition blob_count :: "benv \<Rightarrow> string \<Rightarrow> keys \<Rightarrow> bworld \<Rightarrow> nat" where
  "blob_count B base ks w = card {b. listed B base ks w b}"

lemma planned_report [simp]: "planned ix R ids (p\<lparr>pp_report := r\<rparr>) = planned ix R ids p"
  by (simp add: planned_def)

lemma prune_locked_step:
  assumes B: "bcrypto_ok B" and I: "store_inv B C base ks N w" and sz: "pack_count base w + N < 2 ^ 32"
    and lk: "\<And>l. lock = Some l \<Longrightarrow> lk_base l = base"
    and run: "prune_locked B C base ks want forget lock lost w = (r, w')"
    and N: "bw_random w + 2 * blob_count B base ks w + 2 * pack_count base w + 2 \<le> N"
    and apart: "trees_apart B C base ks forget w" and s: "remains B C base ks forget w s" and need: "needs B C base ks w s b"
    and b: "listed B base ks w b"
  shows "bucket_ok B base ks w' \<and> listed B base ks w' b"
proof -
  let ?G = "\<lambda>v. bucket_ok B base ks v \<and> listed B base ks v b"
  have G: "?G v" if "\<And>k. stored v k = stored u k" "?G u" for u v
    using that bucket_ok_cong [of v u] listed_cong [of v u] by simp
  have Gs: "?G v" if "same_objects u v" "?G u" for u v using G [of v u] that same_stored by blast
  obtain q1 w1 where w1: "(case lock of None \<Rightarrow> act_ok 0 | Some l \<Rightarrow> remove_stale l) w = (q1, w1)" "off_locks base w w1"
    "store_inv B C base ks N w1" "bw_random w1 = bw_random w"
  proof (cases lock)
    case (Some l)
    obtain q v K where v: "remove_stale l w = (q, v)" "shrinks K w v" "\<forall>k\<in>K. prefix (lk_base l @ LOCK_DIR) k"
      using remove_stale_run by blast
    have K: "\<forall>k\<in>K. prefix (base @ LOCK_DIR) k" using v(3) lk [OF Some] by simp
    have "off_locks base w v" using v(2) K by (auto simp: off_locks_def shrinks_def)
    moreover have "base @ pack_name i \<notin> K" for i using K by (auto simp: pack_name_def LOCK_DIR_def)
    then have "store_inv B C base ks N v" by (intro store_inv_shrinks [OF I v(2)]) blast
    moreover have "bw_random v = bw_random w" using v(2) by (simp add: shrinks_def)
    ultimately show ?thesis using that v(1) Some by simp
  qed (use that I in \<open>simp add: off_locks_def\<close>)
  note st1 = off_locks_names [OF w1(2)]
  have G1: "?G w1" using off_locks_bucket [OF w1(2)] store_inv_bucket [OF I] b by simp
  from run [unfolded prune_locked_def] show ?thesis
  proof (cases rule: act_bind_cases)
    case (err e)
    then show ?thesis using w1(1) G1 by simp
  next
    case (ok x v)
    then have v: "v = w1" using w1(1) by simp
    from ok(2) [unfolded v] show ?thesis
    proof (cases rule: act_bind_cases)
      case (err e)
      then show ?thesis using act_keepsD [OF reads_same(1) same_objects_refl] Gs G1 by blast
    next
      case (ok ix w2)
      note ld = index_load_step [OF w1(3) ok(1)]
      have G2: "?G w2" using Gs ld G1 by blast
      from ok(2) show ?thesis
      proof (cases rule: act_bind_cases)
        case (err e)
        then show ?thesis using act_keepsD [OF reads_same(2) same_objects_refl] Gs G2 by blast
      next
        case (ok snaps w3)
        have I2: "store_inv B C base ks N w2" using ld by blast
        note sl = snapshot_list_step [OF I2 ok(1)]
        have G3: "?G w3" using Gs sl G2 by blast
        have s23: "stored w3 k = stored w1 k" for k using ld sl same_stored [of w1 w2] same_stored [of w2 w3] by simp
        have s13: "stored w3 (base @ pack_name i) = stored w (base @ pack_name i)" "stored w3 (base @ index_name i) = stored w (base @ index_name i)" for i
          using s23 st1 by simp_all
        show ?thesis
        proof (cases "\<exists>i\<in>set (btree_set forget). i \<notin> set (map sn_id snaps)")
          case True
          then have "w' = w3" using ok(2) by (simp add: Let_def)
          then show ?thesis using G3 by simp
        next
          case False
          let ?rem = "filter (\<lambda>s. sn_id s \<notin> set (btree_set forget)) snaps"
          have rem: "s' \<in> set ?rem \<longleftrightarrow> remains B C base ks forget w s'" for s'
            using sl ld same_stored [of w1 w2] st1 by (auto simp: remains_def snapshot_stored_def)
          have "act_bind (mark_remaining B C base ks ix ?rem) (\<lambda>referenced.
             if \<exists>i|\<in>|referenced. \<not> index_has i ix then act_err (BIncomplete ''a remaining snapshot references a blob which no index lists'')
             else act_bind (list_ids base PACK_DIR) (\<lambda>packs.
             act_bind (from_bstore (mem_list (base @ PACK_DIR) None)) (\<lambda>metas.
             act_bind (act_get bw_now) (\<lambda>now.
             let p = plan_packs (written_at metas) now referenced ix packs
                       (report_default\<lparr>pr_dry_run := (lock = None), pr_stale_locks_removed := x, pr_snapshots_forgotten := length (btree_set forget)\<rparr>);
                 p = p\<lparr>pp_report := (pp_report p)\<lparr>pr_packs_deleted := length (pp_doomed p) + length (pp_repack p)\<rparr>\<rparr>
             in case lock of
                  None \<Rightarrow> act_ok (pp_report p)
                | Some l \<Rightarrow> sweep B base ks want ix l lost (btree_set forget) p)))) w3 = (r, w')"
            using ok(2) False by (simp only: Let_def if_False)
          then show ?thesis
          proof (cases rule: act_bind_cases)
            case (err e)
            then show ?thesis using mark_remaining_keeps Gs G3 unfolding same_world_def by blast
          next
            case (ok R w4)
            have sw: "same_world w3 w4" using mark_remaining_keeps ok(1) by blast
            have I4: "store_inv B C base ks N w4" using store_inv_world [OF _ sw] sl by blast
            have G4: "?G w4" using Gs sw G3 unfolding same_world_def by blast
            have s4: "stored w4 k = stored w3 k" for k using sw same_stored [of w3 w4] by (simp add: same_world_def)
            have s41: "stored w4 k = stored w1 k" for k using s4 s23 by simp
            have ix41: "index_stored B base ks w4 j ps = index_stored B base ks w1 j ps" for j ps by (simp add: index_stored_def s41)
            have "blob_view B C base ks w t = fst (read_nodes B C base ks ix t w3)" for t
              using blob_view_same [OF w1(3) I st1(2)[symmetric] st1(1)[symmetric] \<open>index_load B base ks w1 = _\<close>, of t]
                read_nodes_cong [where w = w1 and w' = w3] s23 by simp
            then have view: "blob_view B C base ks w = (\<lambda>t. fst (read_nodes B C base ks ix t w3))" by (rule ext)
            have roots: "sn_tree ` set ?rem = sn_tree ` {s. remains B C base ks forget w s}" using rem by blast
            have R: "b |\<in>| R"
              by (rule mark_remaining_complete [OF ok(1)])
                (use apart need s rem in \<open>simp_all only: trees_apart_def needs_def roots view\<close>)
            show ?thesis
            proof (cases "\<exists>i|\<in>|R. \<not> index_has i ix")
              case True
              then have "w' = w4" using ok(2) by simp
              then show ?thesis using G4 by simp
            next
              case False
              obtain packs where packs: "list_ids base PACK_DIR w4 = (Inr packs, w4)" using list_ids_ok by blast
              obtain metas where metas: "from_bstore (mem_list (base @ PACK_DIR) None) w4 = (Inr metas, w4)"
                by (simp add: from_bstore_run mem_list_def from_mirror_def)
              let ?p0 = "plan_packs (written_at metas) (bw_now w4) R ix packs
                (report_default\<lparr>pr_dry_run := (lock = None), pr_stale_locks_removed := x, pr_snapshots_forgotten := length (btree_set forget)\<rparr>)"
              let ?plan = "?p0\<lparr>pp_report := (pp_report ?p0)\<lparr>pr_packs_deleted := length (pp_doomed ?p0) + length (pp_repack ?p0)\<rparr>\<rparr>"
              have fin: "(case lock of None \<Rightarrow> act_ok (pp_report ?plan) | Some l \<Rightarrow> sweep B base ks want ix l lost (btree_set forget) ?plan) w4 = (r, w')"
                using ok(2) False packs metas by (simp add: Let_def)
              show ?thesis
              proof (cases lock)
                case None
                then have "w' = w4" using fin by simp
                then show ?thesis using G4 by simp
              next
                case (Some l)
                have nm: "named base PACK_DIR pack_name w4" using I4 by (simp add: store_inv_def names_ok_def)
                note d = list_ids_distinct [OF nm packs]
                have ids: "length i = ID_SIZE \<and> stored w4 (base @ pack_name i) \<noteq> None \<longleftrightarrow> i \<in> set (map fst packs)" for i
                proof
                  assume i: "length i = ID_SIZE \<and> stored w4 (base @ pack_name i) \<noteq> None"
                  then obtain c where "stored w4 (base @ pack_name i) = Some c" by auto
                  from list_ids_listed [where name = pack_name, OF packs this _ pack_name_segment] i show "i \<in> set (map fst packs)" by simp
                next
                  assume "i \<in> set (map fst packs)"
                  then obtain sz where "(i, sz) \<in> set packs" by auto
                  then have "length i = ID_SIZE" "\<exists>c. stored w4 (base @ pack_name i) = Some c" using list_ids_named [OF nm packs] by blast+
                  then show "length i = ID_SIZE \<and> stored w4 (base @ pack_name i) \<noteq> None" by auto
                qed
                have sound: "index_sound B base ks w4 ix"
                proof -
                  have "stored w4 k = stored w2 k" for k using s41 ld same_stored [of w1 w2] by simp
                  from index_sound_cong [of w4 w2, OF this] ld show ?thesis by simp
                qed
                have "{i. length i = ID_SIZE \<and> stored w (base @ pack_name i) \<noteq> None} = set (map fst packs)"
                  using ids by (simp add: s41 st1 set_eq_iff)
                then have pc: "length (map fst packs) = pack_count base w" using d distinct_card [of "map fst packs"] by (simp add: pack_count_def)
                then have len: "length (map fst packs) + N < 2 ^ 32" using sz by simp
                have "{b. listed B base ks w b} = fset (fmdom (ix_blobs ix))"
                  using ld off_locks_bucket(2) [OF w1(2)] by (auto simp: index_has_def fmlookup_dom_iff)
                then have bc: "length (index_locations ix) = blob_count B base ks w" using index_size [of ix] by (simp add: blob_count_def)
                have pl: "planned ix R (map fst packs) ?plan" using plan_packs_planned d by simp
                then have few: "sum_list (map (\<lambda>(i, es). length es) (pp_repack ?plan)) \<le> blob_count B base ks w" "length (pp_repack ?plan) \<le> pack_count base w"
                  using entries_in_total [of "map fst packs" ix] d bc pc unfolding planned_def by linarith+
                have sweep: "sweep B base ks want ix l lost (btree_set forget) ?plan w4 = (r, w')" using fin Some by simp
                have r41: "bw_random w4 = bw_random w" using w1(4) ld sl sw by (simp add: same_world_def same_objects_def)
                have N: "bw_random w' \<le> N" using drawsD [OF sweep_draws sweep] few N r41 by linarith
                have "store_inv B C base ks N w' \<and> (\<forall>b. b |\<in>| R \<longrightarrow> listed B base ks w' b)"
                proof (rule sweep_step [OF B I4 sound _ _ _ _ pl ids len sweep N])
                  show "length j = ID_SIZE \<and> stored w4 (base @ index_name j) \<noteq> None \<longleftrightarrow> j \<in> set (ix_sources ix)" for j
                    using ld by (simp add: s41)
                  show "length (lo_pack loc) = ID_SIZE" if "index_lookup b' ix = Some loc" for b' loc using ld that by blast
                  show "index_has b' ix" if "b' |\<in>| R" for b' using that False by blast
                  show "listed B base ks w4 b'" if "index_has b' ix" for b' using ld that by (simp add: listed_def ix41)
                qed
                then show ?thesis using R store_inv_bucket by blast
              qed
            qed
          qed
        qed
      qed
    qed
  qed
qed

lemma lock_acquire_draws: "draws 2 (lock_acquire B J base ks exclusive)"
proof -
  have one: "draws 1 (random_id B)" "draws 1 (bseal B ks kind p x)" for kind p x by (rule drawsI; simp)+
  have z: "draws 0 (bput k c)" "draws 0 (from_bstore (mem_list k None))" "draws 0 (act_get f)" "draws 0 (from_bstore (mem_get k))"
      "draws 0 (act_try (from_bstore (mem_get k)) :: (berror + bytes) bact)" "draws 0 (act_try (bdelete k) :: (berror + unit) bact)"
    for k c and f :: "bworld \<Rightarrow> instant"
    using bput_random by (auto intro!: drawsI simp: from_bstore_run mem_list_def mem_get_def bdelete_run act_try_run split: option.splits if_splits)
  have c: "draws 0 (check_locks B J ks exclusive key ms)" for key ms
  proof (induction ms)
    case (Cons m ms)
    have r: "draws 0 (read_info B J ks k)" for k unfolding read_info_def by (rule draws_bind [OF z(5), where b = 0]) simp_all
    have d: "draws 0 (act_bind (act_try (bdelete key)) (\<lambda>_. act_err (BLocked ''held'')) :: unit bact)"
      by (rule draws_bind [OF z(6), where b = 0]) simp_all
    show ?case unfolding check_locks.simps Let_def
      by (rule draws_bind [OF r, where b = 0]) (use d Cons.IH in \<open>auto split: if_splits\<close>)
  qed (simp only: check_locks.simps draws_res)
  show ?thesis unfolding lock_acquire_def Let_def
    by (rule draws_bind [OF one(1), where b = 1], rule draws_bind [OF z(3), where b = 1], rule draws_bind [OF one(2), where b = 0],
        rule draws_bind [OF z(1), where b = 0], rule draws_bind [OF z(2), where b = 0], rule draws_bind [OF z(3), where b = 0],
        rule draws_bind [OF c, where b = 0]) simp_all
qed

lemma off_locks_same:
  assumes o: "off_locks base w v" and I: "store_inv B C base ks N w" "store_inv B C base ks M v"
  shows "blob_view B C base ks v = blob_view B C base ks w" "remains B C base ks forget v = remains B C base ks forget w"
    "pack_count base v = pack_count base w" "blob_count B base ks v = blob_count B base ks w"
proof -
  note st = off_locks_names [OF o]
  have n: "named base INDEX_DIR index_name w" "index_genuine B base ks w" "indexes_open B base ks w"
    using I(1) by (simp_all add: store_inv_def names_ok_def)
  obtain ix w' where l: "index_load B base ks w = (Inr ix, w')" using index_load_total [OF n(1,2)] n(3) by (auto simp: indexes_open_def)
  show "blob_view B C base ks v = blob_view B C base ks w"
    using blob_view_same [OF I(1,2) st(2) st(1) l] blob_view_same [OF I(1) I(1) refl refl l] by (intro ext) simp
  show "remains B C base ks forget v = remains B C base ks forget w" by (rule ext) (simp add: remains_def snapshot_stored_def st)
  show "pack_count base v = pack_count base w" by (simp add: pack_count_def st)
  show "blob_count B base ks v = blob_count B base ks w" using off_locks_bucket(2) [OF o] by (simp add: blob_count_def)
qed

section \<open>A concrete bucket\<close>

text \<open>One pack with a tree and the chunk of its only file, one index object, one snapshot.\<close>

definition sample_tree :: tree where
  "sample_tree = [sample_file ''f'' [blob_id sample_benv sample_keys [9]]]"

definition tree_blobs :: "(blob_type \<times> bytes) list" where
  "tree_blobs = [(BTree, tree_encode sample_codecs sample_tree), (BData, [9])]"

abbreviation sample_tree_id :: bid where
  "sample_tree_id \<equiv> blob_id sample_benv sample_keys (tree_encode sample_codecs sample_tree)"

abbreviation sample_chunk_id :: bid where
  "sample_chunk_id \<equiv> blob_id sample_benv sample_keys [9]"

lemma sample_tree_new: "tree_new sample_tree = sample_tree"
  by (rule tree_new_id) (simp add: sample_tree_def)

lemma sample_tree_hd: "hd sample_tree_id = 1"
proof -
  have "hd (tree_encode sample_codecs sample_tree) = 1" "tree_encode sample_codecs sample_tree \<noteq> []"
    by (simp_all add: tree_encode_def sample_tree_new) (simp_all add: sample_codecs_def sample_tree_def enc_list_def)
  then show ?thesis by (cases "tree_encode sample_codecs sample_tree") (simp_all add: blob_id_def sample_benv_sel ID_SIZE_def)
qed

lemma sample_tree_ids: "sample_tree_id \<noteq> sample_chunk_id"
proof -
  have "hd sample_chunk_id = 9" by (simp add: blob_id_def sample_benv_sel ID_SIZE_def)
  then show ?thesis using sample_tree_hd by auto
qed

lemma sample_tree_decodes: "tree_decode sample_codecs (tree_encode sample_codecs sample_tree) = Inr sample_tree"
proof -
  have "cd_tree_parse sample_codecs (cd_tree sample_codecs sample_tree) = Some sample_tree" using sample_codecs_ok by (simp add: codecs_ok_def)
  moreover have "tree_ok sample_tree" by (simp add: tree_ok_def sample_tree_def sample_file_def bad_name_def)
  ultimately show ?thesis by (simp add: tree_decode_ok tree_encode_def sample_tree_new)
qed

lemma sample_tree_length: "length (tree_encode sample_codecs sample_tree) \<le> 65536"
proof -
  have c: "sample_chunk_id = 9 # replicate 31 0" by (simp add: blob_id_def sample_benv_sel ID_SIZE_def)
  show ?thesis
    by (simp add: tree_encode_def sample_tree_new) (simp add: c sample_codecs_def sample_tree_def sample_file_def enc_list_def enc_node_def enc_via_def
      enc_pair_def enc_word_def enc_char_def enc_option_def enc_int_def enc_bool_def list_of_option_def int_code_def node_type_code_def
      length_concat sum_list_replicate map_replicate)
qed

lemma writer_add_world: "writer_add B ks t i p wr w = (r, w') \<Longrightarrow> \<exists>n. w' = w\<lparr>bw_random := n\<rparr> \<and> bw_random w \<le> n \<and> n \<le> bw_random w + 1"
proof -
  assume a: "writer_add B ks t i p wr w = (r, w')"
  have u: "w = w\<lparr>bw_random := bw_random w\<rparr>" by simp
  show ?thesis
  proof (cases "i |\<in>| pw_seen wr")
    case True
    then show ?thesis using a u by (intro exI [of _ "bw_random w"]) (simp add: writer_add_def)
  next
    case False
    obtain q w1 where q: "seal_blob B ks (pw_compression wr) t i p w = (q, w1)" using prod.exhaust by metis
    then have "w' = w1" using a False by (cases q) (simp_all add: writer_add_def)
    with seal_blob_world [OF q] seal_blob_draws [OF q] show ?thesis by auto
  qed
qed

lemma add_blobs_world: "add_blobs B ks blobs wr w = (r, w') \<Longrightarrow> \<exists>n. w' = w\<lparr>bw_random := n\<rparr> \<and> bw_random w \<le> n \<and> n \<le> bw_random w + length blobs"
proof (induction blobs arbitrary: wr w)
  case Nil
  then show ?case by (intro exI [of _ "bw_random w"]) simp
next
  case (Cons b blobs)
  obtain t p where b: "b = (t, p)" by (cases b)
  obtain q w1 where q: "writer_add B ks t (blob_id B ks p) p wr w = (q, w1)" using prod.exhaust by metis
  obtain n where n: "w1 = w\<lparr>bw_random := n\<rparr>" "bw_random w \<le> n" "n \<le> bw_random w + 1" using writer_add_world [OF q] by blast
  show ?case
  proof (cases q)
    case (Inl e)
    then have "w' = w1" using Cons.prems q b by simp
    then show ?thesis using n by (intro exI [of _ n]) simp
  next
    case (Inr x)
    then have "add_blobs B ks blobs (snd x) w1 = (r, w')" using Cons.prems q b by (simp add: case_prod_beta)
    from Cons.IH [OF this] n show ?thesis by auto
  qed
qed

lemma build_pack_world:
  assumes "build_pack B ks want blobs w = (r, w')"
  shows "\<exists>n. w' = w\<lparr>bw_random := n\<rparr> \<and> bw_random w < n \<and> n \<le> bw_random w + length blobs + 2"
proof -
  let ?new = "\<lparr>pw_id = b_random_id B (bw_random w), pw_compression = want, pw_buf = [], pw_entries = [], pw_seen = {||}\<rparr>"
  let ?w1 = "w\<lparr>bw_random := Suc (bw_random w)\<rparr>"
  obtain q w2 where q: "add_blobs B ks blobs ?new ?w1 = (q, w2)" using prod.exhaust by metis
  obtain n where n: "w2 = w\<lparr>bw_random := n\<rparr>" "bw_random w < n" "n \<le> bw_random w + 1 + length blobs" using add_blobs_world [OF q] by auto
  have rest: "act_bind (add_blobs B ks blobs ?new) (writer_finish B ks) ?w1 = (r, w')"
    using assms by (simp add: build_pack_def writer_new_run)
  show ?thesis
  proof (cases q)
    case (Inl e)
    then show ?thesis using rest q n by (intro exI [of _ n]) simp
  next
    case (Inr wr)
    then have f: "writer_finish B ks wr w2 = (r, w')" using rest q by simp
    from writer_finish_world [OF f] writer_finish_draws [OF f] n show ?thesis by auto
  qed
qed

lemma build_pack_id: "build_pack B ks want blobs w = (Inr pk, w') \<Longrightarrow> pk_id pk = b_random_id B (bw_random w)"
proof -
  assume b: "build_pack B ks want blobs w = (Inr pk, w')"
  have "pw_id wr' = pw_id wr" if "add_blobs B ks blobs wr v = (Inr wr', v')" for blobs wr wr' v v'
    using that
  proof (induction blobs arbitrary: wr v)
    case (Cons b blobs)
    obtain t p where "b = (t, p)" by (cases b)
    with Cons.prems obtain added wr1 v1 where a: "writer_add B ks t (blob_id B ks p) p wr v = (Inr (added, wr1), v1)"
      "add_blobs B ks blobs wr1 v1 = (Inr wr', v')" by (auto simp: act_bind_ok)
    then have "pw_id wr1 = pw_id wr" by (auto simp: writer_add_def writer_push_def act_bind_ok Let_def split: if_splits)
    with Cons.IH [OF a(2)] show ?case by simp
  qed simp
  with b show ?thesis by (auto simp: build_pack_def writer_new_run act_bind_ok writer_finish_def split: if_splits)
qed

lemma sample_bucket:
  "\<exists>w s. store_inv sample_benv sample_codecs base sample_keys 1000 w \<and> trees_apart sample_benv sample_codecs base sample_keys [] w \<and>
    remains sample_benv sample_codecs base sample_keys [] w s \<and> needs sample_benv sample_codecs base sample_keys w s sample_chunk_id \<and>
    listed sample_benv base sample_keys w sample_chunk_id \<and> pack_count base w = 1 \<and> blob_count sample_benv base sample_keys w = 2 \<and> bw_random w \<le> 10"
proof -
  let ?B = sample_benv let ?C = sample_codecs let ?K = sample_keys let ?b = base
  let ?bl = tree_blobs
  have len: "\<forall>(t, p)\<in>set ?bl. length p \<le> 65536" using sample_tree_length by (simp add: tree_blobs_def)
  obtain pk w1 where b: "build_pack ?B ?K CZstd ?bl sample_bworld = (Inr pk, w1)"
    using sample_build [OF len, of ?K CZstd sample_bworld] by (auto simp: tree_blobs_def)
  have len': "\<forall>(t, p)\<in>set ?bl. length p \<le> 2 ^ 31" using len by fastforce
  note pk = build_pack_ok [OF sample_benv_ok len' b]
  obtain n where n: "w1 = sample_bworld\<lparr>bw_random := n\<rparr>" "n \<le> 5" "2 \<le> n" using build_pack_world [OF b] by (auto simp: tree_blobs_def sample_bworld_def)
  note n1 = n(3)
  have pid: "pk_id pk = le_bytes ID_SIZE 1" using build_pack_id [OF b] by (simp add: sample_bworld_def)
  have inj: "inj_on (le_bytes ID_SIZE) {1..<1000}" by (rule inj_on_inverseI [where g = le_nat]) (simp add: ID_SIZE_def)
  have I0: "store_inv ?B ?C ?b ?K 1000 sample_bworld"
    using sample_store_inv [of 1000 ?C ?b ?K] by (simp add: ID_SIZE_def sample_bworld_def)
  have I1: "store_inv ?B ?C ?b ?K 1000 w1" unfolding n(1) using I0 n1 by (intro store_inv_random) (simp_all add: sample_bworld_def)
  let ?w2 = "put_world w1 (?b @ pack_name (pk_id pk)) (pk_data pk)"
  have "pk_id pk \<notin> b_random_id ?B ` {bw_random w1..<1000}"
  proof
    assume "pk_id pk \<in> b_random_id ?B ` {bw_random w1..<1000}"
    then obtain m where "m \<in> {n..<1000}" "le_bytes ID_SIZE 1 = le_bytes ID_SIZE m" using n(1) pid by auto
    then show False using inj_onD [OF inj, of 1 m] n1 by auto
  qed
  then have I2: "store_inv ?B ?C ?b ?K 1000 ?w2" using n(1) by (intro store_inv_put_pack [OF I1]) simp_all
  let ?ps = "[\<lparr>pn_pack = pk_id pk, pn_entries = pk_entries pk\<rparr>]" let ?i = "le_bytes ID_SIZE n" let ?j = "le_bytes ID_SIZE (n + 1)"
  have pst: "pack_stored ?B ?b ?K ?w2 (pk_id pk) (pk_entries pk)" using pk by (auto simp: pack_stored_def)
  have pok: "packs_ok ?ps" using pk pid parse_header_entries [of ?B ?K "pk_id pk" "pk_data pk"] by (simp add: pack_ok_def ID_SIZE_def)
  have nl: "length (replicate NONCE_SIZE (0::byte)) = NONCE_SIZE" by simp
  obtain c where c: "seal ?B (replicate NONCE_SIZE 0) ?K KMeta (index_encode ?ps) (index_aad ?i) = Inr c"
    using env_seals [OF sample_env_total] by blast
  have oc: "index_open_object ?B ?K ?i c = Inr ?ps" by (rule index_open_saved [OF sample_benv_ok pok _ nl c]) simp
  let ?w3 = "new_object ?w2 CIndex ?i (?b @ index_name ?i) c (n + 1)"
  have f3: "fresh_id ?B 1000 (n + 1) ?w2 ?i"
    using fresh_id_draw [of ?B ?b 1000 ?w2 "n + 1"] I2 n by (simp add: store_inv_def)
  have I3: "store_inv ?B ?C ?b ?K 1000 ?w3" by (rule store_inv_new_index [OF I2 f3 oc]) (use pst in simp)
  let ?s = "sample_snapshot\<lparr>sn_tree := sample_tree_id\<rparr>"
  obtain d where d: "seal ?B (replicate NONCE_SIZE 0) ?K KMeta (cd_snapshot ?C ?s) (snapshot_aad ?j) = Inr d"
    using env_seals [OF sample_env_total] by blast
  have v: "snapshot_validate ?s = Inr ()" using sample_tree_hd by (auto simp: snapshot_validate_def sample_snapshot_def id_default_def ID_SIZE_def)
  note od = snapshot_open_saved [OF sample_benv_ok sample_codecs_ok v nl d]
  let ?w4 = "new_object ?w3 CSnapshot ?j (?b @ snapshot_name ?j) d (n + 2)"
  have f4: "fresh_id ?B 1000 (n + 2) ?w3 ?j"
    using fresh_id_draw [of ?B ?b 1000 ?w3 "n + 2"] I3 n by (simp add: store_inv_def)
  have I4: "store_inv ?B ?C ?b ?K 1000 ?w4" by (rule store_inv_new_snapshot [OF I3 f4 od])
  define W where "W = ?w4"
  have st: "stored W k = (if k = ?b @ snapshot_name ?j then Some d else if k = ?b @ index_name ?i then Some c
      else if k = ?b @ pack_name (pk_id pk) then Some (pk_data pk) else None)" for k
  proof -
    have "stored w1 k = None" by (simp add: n(1))
    then have "stored ?w2 k = (if k = ?b @ pack_name (pk_id pk) then Some (pk_data pk) else None)" by (simp del: append.simps)
    then show ?thesis unfolding W_def new_object_stored by simp
  qed
  have ix: "index_stored ?B ?b ?K W j ps \<longleftrightarrow> j = ?i \<and> ps = ?ps" for j ps using oc by (auto simp: index_stored_def st)
  have ids: "blob_id ?B ?K q = sample_tree_id \<or> blob_id ?B ?K q = sample_chunk_id" if "q \<in> snd ` set ?bl" for q
    using that by (auto simp: tree_blobs_def)
  have entry: "\<exists>q\<in>snd ` set ?bl. holds ?B ?K e (pk_data pk) q \<and> blob_id ?B ?K q = pe_id e" if "e \<in> set (pk_entries pk)" for e
    using pk that decode_blob_id unfolding holds_def by blast
  have has: "\<exists>e\<in>set (pk_entries pk). pe_id e = blob_id ?B ?K p" if "(t, p) \<in> set ?bl" for t p using pk that by blast
  have listed: "listed ?B ?b ?K W i \<longleftrightarrow> i = sample_tree_id \<or> i = sample_chunk_id" for i
  proof
    assume "listed ?B ?b ?K W i"
    then obtain e where "e \<in> set (pk_entries pk)" "pe_id e = i" by (auto simp: listed_def in_packs_def ix)
    with entry ids show "i = sample_tree_id \<or> i = sample_chunk_id" by metis
  next
    assume "i = sample_tree_id \<or> i = sample_chunk_id"
    then obtain e where "e \<in> set (pk_entries pk)" "pe_id e = i" using has [of BTree] has [of BData] by (auto simp: tree_blobs_def)
    then show "listed ?B ?b ?K W i" by (auto simp: listed_def in_packs_def ix ID_SIZE_def)
  qed
  have nm: "named ?b INDEX_DIR index_name W" "index_genuine ?B ?b ?K W" "indexes_open ?B ?b ?K W"
    using I4 by (simp_all add: store_inv_def names_ok_def W_def)
  obtain x w5 where l: "index_load ?B ?b ?K W = (Inr x, w5)" using index_load_total [OF nm(1,2)] nm(3) by (auto simp: indexes_open_def)
  note ld = index_load_step [OF I4 [folded W_def] l]
  have s5: "stored w5 k = stored W k" for k using ld same_stored by blast
  have view: "blob_view ?B ?C ?b ?K W sample_tree_id = Inr sample_tree"
  proof -
    have "index_has sample_tree_id x" using ld listed by blast
    then obtain lo where lo: "index_lookup sample_tree_id x = Some lo" by (auto simp: index_has_def index_lookup_def)
    then have e: "pe_id (lo_entry lo) = sample_tree_id" "pack_stored ?B ?b ?K w5 (lo_pack lo) [lo_entry lo]" using ld by (auto simp: index_sound_def)
    then obtain hs dt where dt: "stored w5 (?b @ pack_name (lo_pack lo)) = Some dt" "pack_ok ?B ?K (lo_pack lo) dt hs" "lo_entry lo \<in> set hs"
      by (auto simp: pack_stored_def)
    then have p: "lo_pack lo = pk_id pk" "dt = pk_data pk" by (auto simp: s5 st split: if_splits)
    then have "lo_entry lo \<in> set (pk_entries pk)" using dt(2,3) pk by (auto simp: pack_ok_def)
    from entry [OF this] e(1) obtain q where q: "q \<in> snd ` set ?bl" "holds ?B ?K (lo_entry lo) (pk_data pk) q" "blob_id ?B ?K q = sample_tree_id" by auto
    then have "q = tree_encode ?C sample_tree" using sample_tree_ids by (auto simp: tree_blobs_def)
    moreover have "length (pk_data pk) < 2 ^ 64" using pk by (simp add: pack_ok_def)
    ultimately obtain w6 where "load_pack_blob ?B ?K (?b @ pack_name (lo_pack lo)) (lo_entry lo) w5 = (Inr (tree_encode ?C sample_tree), w6)"
      using load_pack_blob_ok [of w5 "?b @ pack_name (lo_pack lo)" "pk_data pk"] dt(1) q(2) p(2) by blast
    then show ?thesis using l lo sample_tree_decodes by (simp add: blob_view_def read_nodes_def act_bind_run)
  qed
  have below: "t = sample_tree_id" if "below (blob_view ?B ?C ?b ?K W) sample_tree_id t" for t
    using that
  proof induction
    case (subtree t nodes nd u)
    then show ?case using view by (simp add: sample_tree_def sample_file_def)
  qed simp
  have chunk: "chunk_below (blob_view ?B ?C ?b ?K W) sample_tree_id i \<longleftrightarrow> i = sample_chunk_id" for i
  proof
    assume "chunk_below (blob_view ?B ?C ?b ?K W) sample_tree_id i"
    then show "i = sample_chunk_id" using below view by (fastforce simp: chunk_below_def sample_tree_def sample_file_def)
  next
    assume i: "i = sample_chunk_id"
    let ?nd = "sample_file ''f'' [sample_chunk_id]"
    have "?nd \<in> set sample_tree" "nd_type ?nd = NFile" "i \<in> set (nd_content ?nd)" by (simp_all add: i sample_tree_def sample_file_def)
    then show "chunk_below (blob_view ?B ?C ?b ?K W) sample_tree_id i" unfolding chunk_below_def using below.self view by blast
  qed
  have sn: "snapshot_stored ?B ?C ?b ?K W i s \<longleftrightarrow> i = ?j \<and> s = ?s\<lparr>sn_id := ?j\<rparr>" for i s using od by (auto simp: snapshot_stored_def st)
  have rem: "remains ?B ?C ?b ?K [] W s \<longleftrightarrow> s = ?s\<lparr>sn_id := ?j\<rparr>" for s by (auto simp: remains_def sn ID_SIZE_def)
  have "trees_apart ?B ?C ?b ?K [] W"
  proof -
    have "\<not> below (blob_view ?B ?C ?b ?K W) sample_tree_id sample_chunk_id" using below [of sample_chunk_id] sample_tree_ids by metis
    then show ?thesis unfolding trees_apart_def chunks_apart_def rem by (simp add: chunk)
  qed
  moreover have "needs ?B ?C ?b ?K W (?s\<lparr>sn_id := ?j\<rparr>) sample_chunk_id" by (simp add: needs_def chunk)
  moreover have "{i. length i = ID_SIZE \<and> stored W (?b @ pack_name i) \<noteq> None} = {pk_id pk}" using pid by (auto simp: st)
  then have "pack_count ?b W = 1" by (simp add: pack_count_def)
  moreover have "blob_count ?B ?b ?K W = 2"
  proof -
    have "{i. listed ?B ?b ?K W i} = {sample_tree_id, sample_chunk_id}" using listed by blast
    then show ?thesis using sample_tree_ids by (simp add: blob_count_def)
  qed
  moreover have "listed ?B ?b ?K W sample_chunk_id" using listed by blast
  moreover have "bw_random W \<le> 10" using n(2) by (simp add: W_def)
  ultimately show ?thesis using I4 [folded W_def] rem by (intro exI [of _ W] exI [of _ "?s\<lparr>sn_id := ?j\<rparr>"]) blast
qed

section \<open>Properties\<close>

text \<open>
  C2: Pruning keeps every remaining snapshot whole. Wherever a prune stops, with whatever error, with the lock
  lost before the sweep or in the middle of it, every blob that a snapshot not to be forgotten needs and
  that was listed is still listed, every index object opens, and every pack an index object lists is
  stored with everything the index says of it. The hypothesis \<open>trees_apart\<close> is that no file of these
  snapshots has a chunk that is also one of their directories; the one on \<open>N\<close> is that the identifiers
  the prune draws are new.
\<close>

theorem prune_keeps_snapshots:
  assumes "bcrypto_ok B" and "store_inv B C base ks N w" and "pack_count base w + N < 2 ^ 32"
    and "bw_random w + 2 * blob_count B base ks w + 2 * pack_count base w + 4 \<le> N"
    and "prune B J C base ks want forget dry_run lost w = (r, w')"
    and "trees_apart B C base ks forget w" and "remains B C base ks forget w s" and "needs B C base ks w s b" and "listed B base ks w b"
  shows "bucket_ok B base ks w' \<and> listed B base ks w' b"
proof (cases dry_run)
  case True
  then have run: "prune_locked B C base ks want forget None lost w = (r, w')" using assms(5) by (simp add: prune_def)
  show ?thesis by (rule prune_locked_step [OF assms(1-3) _ run _ assms(6-9)]) (use assms(4) in simp_all)
next
  case False
  have run: "act_bind (lock_acquire B J base ks True) (\<lambda>l. act_bind (act_try (prune_locked B C base ks want forget (Some l) lost)) (\<lambda>result.
      act_bind (act_try (lock_release l)) (\<lambda>_. act_res result))) w = (r, w')" using assms(5) False by (simp add: prune_def)
  have keep: "bucket_ok B base ks v \<and> listed B base ks v b" if "off_locks base u v" "bucket_ok B base ks u \<and> listed B base ks u b" for u v
    using that off_locks_bucket by blast
  have G: "bucket_ok B base ks w \<and> listed B base ks w b" using assms(9) store_inv_bucket [OF assms(2)] by simp
  from run show ?thesis
  proof (cases rule: act_bind_cases)
    case (err e)
    then show ?thesis using lock_acquire_step [OF err(1)] keep G unfolding locks_only_def by blast
  next
    case (ok l w1)
    note lk = lock_acquire_step [OF ok(1)]
    have o: "off_locks base w w1" "bw_cache w1 = bw_cache w" "bw_random w \<le> bw_random w1" using lk by (simp_all add: locks_only_def)
    have I1: "store_inv B C base ks N w1" by (rule store_inv_locks [OF assms(2) o])
    note same = off_locks_same [OF o(1) assms(2) I1]
    obtain q w2 where q: "prune_locked B C base ks want forget (Some l) lost w1 = (q, w2)" using prod.exhaust by metis
    have "bucket_ok B base ks w2 \<and> listed B base ks w2 b"
    proof (rule prune_locked_step [OF assms(1) I1 _ _ q, where s = s])
      show "bw_random w1 + 2 * blob_count B base ks w1 + 2 * pack_count base w1 + 2 \<le> N"
        using drawsD [OF lock_acquire_draws ok(1)] assms(4) unfolding same by simp
    qed (use assms(3,6-9) lk same off_locks_bucket(2) [OF o(1)] in \<open>auto simp: trees_apart_def needs_def\<close>)
    moreover have "off_locks base w2 w'"
    proof -
      have "w' = w2\<lparr>bw_store := bw_store w2\<lparr>ms_entries := fmdrop (lk_key l) (objects w2)\<rparr>\<rparr> \<or> w' = w2"
        using ok(2) q by (auto simp: act_bind_run act_try_run lock_release_def bdelete_run split: if_splits)
      then show ?thesis using lk by (auto simp: off_locks_def stored_def)
    qed
    ultimately show ?thesis using keep by blast
  qed
qed

definition sample_lock_env :: lock_env where
  "sample_lock_env = \<lparr>le_info = (\<lambda>_. [1]), le_info_parse = (\<lambda>_. None), le_hostname = ''host'', le_pid = 1\<rparr>"

theorem prune_keeps_snapshots_witness:
  "\<exists>w s r w'. remains sample_benv sample_codecs ''p/'' sample_keys [] w s \<and> needs sample_benv sample_codecs ''p/'' sample_keys w s sample_chunk_id \<and>
    prune sample_benv sample_lock_env sample_codecs ''p/'' sample_keys CZstd [] False (False, False) w = (r, w') \<and>
    bucket_ok sample_benv ''p/'' sample_keys w' \<and> listed sample_benv ''p/'' sample_keys w' sample_chunk_id"
proof -
  obtain w s where w: "store_inv sample_benv sample_codecs ''p/'' sample_keys 1000 w" "trees_apart sample_benv sample_codecs ''p/'' sample_keys [] w"
    "remains sample_benv sample_codecs ''p/'' sample_keys [] w s" "needs sample_benv sample_codecs ''p/'' sample_keys w s sample_chunk_id"
    "listed sample_benv ''p/'' sample_keys w sample_chunk_id" "pack_count ''p/'' w = 1" "blob_count sample_benv ''p/'' sample_keys w = 2" "bw_random w \<le> 10"
    using sample_bucket by blast
  obtain r w' where run: "prune sample_benv sample_lock_env sample_codecs ''p/'' sample_keys CZstd [] False (False, False) w = (r, w')"
    using prod.exhaust by metis
  from prune_keeps_snapshots [OF sample_benv_ok w(1) _ _ run w(2-5)] w(3,4,6-8) run show ?thesis by auto
qed

text \<open>
  C4: The walk over the trees always ends, on every bucket and index, whatever the objects hold: the fuel of
  the model, two more than the entries of the index, is never used up, because a tree is only walked if
  the index has it and it was not marked before.
\<close>

theorem mark_returns:
  "mark_all (mark_fuel ix) (read_nodes B C base ks ix) roots referenced w \<noteq> None"
proof -
  have o: "pruner.outcome B C base ks ix w {} False (\<lambda>R'. set roots \<subseteq> fset R') (mark_fuel ix) referenced
      (mark_all (mark_fuel ix) (read_nodes B C base ks ix) roots referenced w)"
    by (rule pruner.walk_all) simp_all
  have "card (fset (fmdom (ix_blobs ix)) - fset referenced) \<le> card (fset (fmdom (ix_blobs ix)))" by (simp add: card_Diff_subset_Int)
  then have "card (fset (fmdom (ix_blobs ix)) - fset referenced) < mark_fuel ix" by (simp add: index_size mark_fuel_def)
  with o show ?thesis by (cases "mark_all (mark_fuel ix) (read_nodes B C base ks ix) roots referenced w") simp_all
qed

section \<open>A chunk that is also a tree\<close>

text \<open>
  Why \<open>trees_apart\<close> is there. Trees and chunks share one set of referenced blobs: if a file's chunk is
  also the tree of a directory that comes after it, that directory is not walked, so nothing that only
  its tree names is marked, and the sweep may drop it.
\<close>

lemma shared_chunk_not_walked:
  assumes "read_nodes B C base ks ix root w = (Inr [f, d], w')"
    and "nd_type f = NFile" "t \<in> set (nd_content f)" "nd_type d = NDir" "nd_subtree d = Some t"
  shows "mark (Suc (Suc n)) (read_nodes B C base ks ix) root {||} w = Some (Inr (finsert root (fset_of_list (nd_content f))), w')"
  using assms by (auto simp: fset_of_list_elem)

end
