(* ===== verification/Unix_Fs.thy ===== *)
theory Unix_Fs
  imports Local_Files
begin

text \<open>
  The part of a POSIX file system that the restore side uses through \<open>std::fs\<close> (\<open>restorer.rs\<close>): directories,
  symbolic links, and files with inodes of their own, so that two names can share one content. A path is
  the list of its segments from the root; following it follows the links in it, at most \<open>MAX_LINKS\<close>.
  Nothing else touches the file system while an operation of the model runs. \<open>uf_denied\<close> says which
  entries the system refuses to change (permissions, a full disk), \<open>uf_owner\<close> whether the process may give
  files away.
\<close>

section \<open>State\<close>

type_synonym upath = "string list"

datatype io_error = IoNotFound | IoExists | IoOther string

type_synonym 'a io = "io_error + 'a"

record uattr =
  ua_mode :: u32
  ua_owner :: "u32 \<times> u32"
  ua_times :: "int \<times> int"

datatype unode = UDir uattr | UFile nat | ULink string

record uinode =
  in_bytes :: bytes
  in_attr :: uattr

record unix_fs =
  uf_nodes :: "(upath, unode) fmap"
  uf_inodes :: "(nat, uinode) fmap"
  uf_next :: nat
  uf_denied :: "upath \<Rightarrow> bool"
  uf_owner :: bool

type_synonym 'a fact = "(unix_fs, io_error, 'a) action"

definition MAX_LINKS :: nat where "MAX_LINKS = 40"

text \<open>The attributes of a new directory and a new file, before they are set.\<close>

definition fresh_dir :: uattr where
  "fresh_dir = \<lparr>ua_mode = 493, ua_owner = (0, 0), ua_times = (0, 0)\<rparr>"

definition fresh_file :: "u32 \<Rightarrow> uattr" where
  "fresh_file mode = \<lparr>ua_mode = mode, ua_owner = (0, 0), ua_times = (0, 0)\<rparr>"

definition is_udir :: "unode option \<Rightarrow> bool" where
  "is_udir n = (case n of Some (UDir _) \<Rightarrow> True | _ \<Rightarrow> False)"

section \<open>Paths\<close>

definition path_segments :: "string \<Rightarrow> upath" where
  "path_segments s = filter (\<lambda>seg. seg \<noteq> [] \<and> seg \<noteq> ''.'') (split_on (CHR ''/'') s)"

text \<open>Follow the segments from the directory \<open>cur\<close>; \<open>n\<close> links may still be followed.\<close>

fun walk :: "unix_fs \<Rightarrow> nat \<Rightarrow> upath \<Rightarrow> upath \<Rightarrow> upath io" where
  "walk fs n cur [] = Inr cur"
| "walk fs n cur (c # cs) =
     (if \<not> is_udir (fmlookup (uf_nodes fs) cur) then Inl (IoOther ''not a directory'')
      else if c = ''..'' then walk fs n (butlast cur) cs
      else case fmlookup (uf_nodes fs) (cur @ [c]) of
        None \<Rightarrow> Inl IoNotFound
      | Some (ULink t) \<Rightarrow> (case n of
            0 \<Rightarrow> Inl (IoOther ''too many links'')
          | Suc m \<Rightarrow> walk fs m (if prefix ''/'' t then [] else cur) (path_segments t @ cs))
      | Some _ \<Rightarrow> walk fs n (cur @ [c]) cs)"

text \<open>The place of an entry: its directory is followed, its own name is not.\<close>

definition locate :: "unix_fs \<Rightarrow> upath \<Rightarrow> upath io" where
  "locate fs p = (if p = [] then Inr []
     else res_bind (walk fs MAX_LINKS [] (butlast p)) (\<lambda>d.
       if \<not> is_udir (fmlookup (uf_nodes fs) d) then Inl (IoOther ''not a directory'')
       else Inr (if last p = ''..'' then butlast d else d @ [last p])))"

definition node_at :: "unix_fs \<Rightarrow> upath \<Rightarrow> unode io" where
  "node_at fs q = res_of IoNotFound (fmlookup (uf_nodes fs) q)"

text \<open>\<open>fs::symlink_metadata\<close>, \<open>fs::canonicalize\<close> and \<open>Path::is_dir\<close>.\<close>

definition symlink_metadata :: "unix_fs \<Rightarrow> upath \<Rightarrow> unode io" where
  "symlink_metadata fs p = res_bind (locate fs p) (node_at fs)"

definition canonicalize :: "unix_fs \<Rightarrow> upath \<Rightarrow> upath io" where
  "canonicalize fs p = res_bind (walk fs MAX_LINKS [] p) (\<lambda>q. res_bind (node_at fs q) (\<lambda>_. Inr q))"

definition is_dir :: "unix_fs \<Rightarrow> upath \<Rightarrow> bool" where
  "is_dir fs p = (case canonicalize fs p of Inl _ \<Rightarrow> False | Inr q \<Rightarrow> is_udir (fmlookup (uf_nodes fs) q))"

section \<open>Changes\<close>

definition set_node :: "upath \<Rightarrow> unode \<Rightarrow> unix_fs \<Rightarrow> unix_fs" where
  "set_node q n fs = fs\<lparr>uf_nodes := fmupd q n (uf_nodes fs)\<rparr>"

definition set_inode :: "nat \<Rightarrow> uinode \<Rightarrow> unix_fs \<Rightarrow> unix_fs" where
  "set_inode i n fs = fs\<lparr>uf_inodes := fmupd i n (uf_inodes fs)\<rparr>"

definition add_file :: "upath \<Rightarrow> uinode \<Rightarrow> unix_fs \<Rightarrow> unix_fs" where
  "add_file q n fs = (set_node q (UFile (uf_next fs)) (set_inode (uf_next fs) n fs))\<lparr>uf_next := Suc (uf_next fs)\<rparr>"

text \<open>The place at which a call may change an entry.\<close>

definition place_for :: "upath \<Rightarrow> upath fact" where
  "place_for p = (\<lambda>fs. (res_bind (locate fs p) (\<lambda>q. if uf_denied fs q then Inl (IoOther ''denied'') else Inr q), fs))"

text \<open>A new entry, which must not exist.\<close>

definition new_entry :: "upath \<Rightarrow> (upath \<Rightarrow> unix_fs \<Rightarrow> unix_fs) \<Rightarrow> unit fact" where
  "new_entry p f = act_bind (place_for p) (\<lambda>q. \<lambda>fs. case fmlookup (uf_nodes fs) q of
     Some _ \<Rightarrow> (Inl IoExists, fs) | None \<Rightarrow> (Inr (), f q fs))"

definition create_dir :: "upath \<Rightarrow> unit fact" where
  "create_dir p = new_entry p (\<lambda>q. set_node q (UDir fresh_dir))"

definition symlink :: "string \<Rightarrow> upath \<Rightarrow> unit fact" where
  "symlink t p = new_entry p (\<lambda>q. set_node q (ULink t))"

definition hard_link :: "upath \<Rightarrow> upath \<Rightarrow> unit fact" where
  "hard_link existing p = (\<lambda>fs. case symlink_metadata fs existing of
     Inl e \<Rightarrow> (Inl e, fs)
   | Inr (UDir _) \<Rightarrow> (Inl (IoOther ''is a directory''), fs)
   | Inr n \<Rightarrow> new_entry p (\<lambda>q. set_node q n) fs)"

definition remove_file :: "upath \<Rightarrow> unit fact" where
  "remove_file p = act_bind (place_for p) (\<lambda>q. \<lambda>fs. case fmlookup (uf_nodes fs) q of
     None \<Rightarrow> (Inl IoNotFound, fs)
   | Some (UDir _) \<Rightarrow> (Inl (IoOther ''is a directory''), fs)
   | Some _ \<Rightarrow> (Inr (), fs\<lparr>uf_nodes := fmdrop q (uf_nodes fs)\<rparr>))"

text \<open>\<open>fs::remove_dir_all\<close> removes the entries beneath as well, the links among them as links.\<close>

definition remove_dir_all :: "upath \<Rightarrow> unit fact" where
  "remove_dir_all p = act_bind (place_for p) (\<lambda>q. \<lambda>fs. case fmlookup (uf_nodes fs) q of
     None \<Rightarrow> (Inl IoNotFound, fs)
   | Some (UDir _) \<Rightarrow> (Inr (), fs\<lparr>uf_nodes := fmfilter (\<lambda>p. \<not> prefix q p) (uf_nodes fs)\<rparr>)
   | Some _ \<Rightarrow> (Inl (IoOther ''not a directory''), fs))"

text \<open>\<open>fs::create_dir_all\<close>, on the reversed path: try, create the parents, try again.\<close>

definition create_or_exists :: "upath \<Rightarrow> bool fact" where
  "create_or_exists p = (\<lambda>fs. case create_dir p fs of
     (Inr _, fs') \<Rightarrow> (Inr True, fs')
   | (Inl IoNotFound, fs') \<Rightarrow> (Inr False, fs')
   | (Inl e, fs') \<Rightarrow> if is_dir fs' p then (Inr True, fs') else (Inl e, fs'))"

fun create_dirs :: "upath \<Rightarrow> unit fact" where
  "create_dirs [] = act_ok ()"
| "create_dirs (c # cs) = act_bind (create_or_exists (rev (c # cs))) (\<lambda>made.
     if made then act_ok ()
     else act_bind (create_dirs cs) (\<lambda>_. act_bind (create_or_exists (rev (c # cs))) (\<lambda>made.
       if made then act_ok () else act_err IoNotFound)))"

definition create_dir_all :: "upath \<Rightarrow> unit fact" where
  "create_dir_all p = create_dirs (rev p)"

section \<open>Open files\<close>

text \<open>
  \<open>OpenOptions\<close> with \<open>O_NOFOLLOW\<close>: for writing, with or without creating (and truncating) the file, and for
  reading. The result is the inode; a directory can only be opened for reading.
\<close>

datatype open_mode = OpenCreateNew | OpenCreateTruncate | OpenWrite

definition open_write :: "open_mode \<Rightarrow> u32 \<Rightarrow> upath \<Rightarrow> nat fact" where
  "open_write how mode p = act_bind (place_for p) (\<lambda>q. \<lambda>fs. case fmlookup (uf_nodes fs) q of
     None \<Rightarrow> (if how = OpenWrite then (Inl IoNotFound, fs)
       else (Inr (uf_next fs), add_file q \<lparr>in_bytes = [], in_attr = fresh_file mode\<rparr> fs))
   | Some n \<Rightarrow> if how = OpenCreateNew then (Inl IoExists, fs)
       else (case n of
           UDir _ \<Rightarrow> (Inl (IoOther ''is a directory''), fs)
         | ULink _ \<Rightarrow> (Inl (IoOther ''too many links''), fs)
         | UFile i \<Rightarrow> (case fmlookup (uf_inodes fs) i of
               None \<Rightarrow> (Inl (IoOther ''stale''), fs)
             | Some nd \<Rightarrow> (Inr i, if how = OpenCreateTruncate then set_inode i (nd\<lparr>in_bytes := []\<rparr>) fs else fs))))"

text \<open>Lengths and offsets are signed 64-bit numbers for the system.\<close>

definition resize :: "nat \<Rightarrow> bytes \<Rightarrow> bytes" where
  "resize n b = take n b @ replicate (n - length b) 0"

definition set_len :: "nat \<Rightarrow> u64 \<Rightarrow> unit fact" where
  "set_len i n = (\<lambda>fs. case fmlookup (uf_inodes fs) i of
     None \<Rightarrow> (Inl (IoOther ''stale''), fs)
   | Some nd \<Rightarrow> if 2 ^ 63 \<le> unat n then (Inl (IoOther ''invalid length''), fs)
       else (Inr (), set_inode i (nd\<lparr>in_bytes := resize (unat n) (in_bytes nd)\<rparr>) fs))"

definition splice :: "nat \<Rightarrow> bytes \<Rightarrow> bytes \<Rightarrow> bytes" where
  "splice offset data b = (if data = [] then b
     else resize offset b @ data @ drop (offset + length data) b)"

definition write_all_at :: "nat \<Rightarrow> bytes \<Rightarrow> u64 \<Rightarrow> unit fact" where
  "write_all_at i data offset = (\<lambda>fs. case fmlookup (uf_inodes fs) i of
     None \<Rightarrow> (Inl (IoOther ''stale''), fs)
   | Some nd \<Rightarrow> if data \<noteq> [] \<and> 2 ^ 63 \<le> unat offset + length data then (Inl (IoOther ''invalid offset''), fs)
       else (Inr (), set_inode i (nd\<lparr>in_bytes := splice (unat offset) data (in_bytes nd)\<rparr>) fs))"

text \<open>The attributes of an entry opened for reading without following a link.\<close>

definition set_attr :: "upath \<Rightarrow> (uattr \<Rightarrow> uattr) \<Rightarrow> unit fact" where
  "set_attr p f = act_bind (place_for p) (\<lambda>q. \<lambda>fs. case fmlookup (uf_nodes fs) q of
     None \<Rightarrow> (Inl IoNotFound, fs)
   | Some (ULink _) \<Rightarrow> (Inl (IoOther ''too many links''), fs)
   | Some (UDir a) \<Rightarrow> (Inr (), set_node q (UDir (f a)) fs)
   | Some (UFile i) \<Rightarrow> (case fmlookup (uf_inodes fs) i of
         None \<Rightarrow> (Inl (IoOther ''stale''), fs)
       | Some nd \<Rightarrow> (Inr (), set_inode i (nd\<lparr>in_attr := f (in_attr nd)\<rparr>) fs)))"

end
