(* ===== verification/Restore.thy ===== *)
theory Restore
  imports Unix_Fs Repository
begin

text \<open>
  The restore side (\<open>backup-core/src/restorer.rs\<close>): from a snapshot to files. Plan what to restore, make
  the directories and links, fetch the chunks pack by pack with merged reads, write them at their
  offsets, set the metadata. The matching of globs (crate \<open>globset\<close>) is a parameter. Progress reports have
  no effect on the state and are left out.
\<close>

section \<open>Which paths\<close>

text \<open>Whether a pattern compiles, and whether a compiled one matches.\<close>

record glob_env =
  ge_valid :: "string \<Rightarrow> bool"
  ge_match :: "string \<Rightarrow> string \<Rightarrow> bool"

record path_matcher =
  pm_globs :: "string list"
  pm_literals :: "string list"

definition trim_slashes :: "string \<Rightarrow> string" where
  "trim_slashes s = rev (dropWhile (\<lambda>c. c = CHR ''/'') (rev (dropWhile (\<lambda>c. c = CHR ''/'') s)))"

fun matcher_build :: "glob_env \<Rightarrow> string list \<Rightarrow> path_matcher \<Rightarrow> path_matcher bresult" where
  "matcher_build G [] m = Inr m"
| "matcher_build G (p # ps) m =
     (let pattern = trim_slashes p
      in if \<not> ge_valid G pattern then Inl (BInvalid pattern)
         else matcher_build G ps (m\<lparr>pm_globs := pm_globs m @ [pattern], pm_literals := pm_literals m @ [pattern]\<rparr>))"

definition matcher_new :: "glob_env \<Rightarrow> string list \<Rightarrow> path_matcher bresult" where
  "matcher_new G patterns = matcher_build G patterns \<lparr>pm_globs = [], pm_literals = []\<rparr>"

definition matcher_empty :: "path_matcher \<Rightarrow> bool" where
  "matcher_empty m \<longleftrightarrow> pm_literals m = []"

definition matcher_matches :: "glob_env \<Rightarrow> path_matcher \<Rightarrow> string \<Rightarrow> bool" where
  "matcher_matches G m path \<longleftrightarrow> (\<exists>g\<in>set (pm_globs m). ge_match G g path) \<or>
     (\<exists>g\<in>set (pm_globs m). ge_match G g (last_segment path)) \<or>
     (\<exists>l\<in>set (pm_literals m). path = l \<or> prefix l path \<and> prefix ''/'' (drop (length l) path))"

section \<open>The plan\<close>

record restore_plan =
  pl_dirs :: "(string \<times> node \<times> bool) list"
  pl_symlinks :: "(string \<times> node) list"
  pl_files :: "(string \<times> node) list"

definition plan_default :: restore_plan where
  "plan_default = \<lparr>pl_dirs = [], pl_symlinks = [], pl_files = []\<rparr>"

definition child_path :: "string \<Rightarrow> string \<Rightarrow> string" where
  "child_path parent name = (if parent = [] then name else parent @ ''/'' @ name)"

text \<open>The recursion follows the trees of the store; \<open>n\<close> bounds its depth.\<close>

fun plan_tree :: "nat \<Rightarrow> benv \<Rightarrow> codecs \<Rightarrow> glob_env \<Rightarrow> path_matcher \<Rightarrow> path_matcher \<Rightarrow> bid \<Rightarrow> string \<Rightarrow> bool \<Rightarrow>
    restore_plan \<Rightarrow> restore_plan ract" where
  "plan_tree 0 B C G inc exc t dir included plan = act_err (BPanic ''recursion'')"
| "plan_tree (Suc n) B C G inc exc t dir included plan =
     act_bind (load_tree B C t) (\<lambda>nodes. act_fold (\<lambda>nd plan.
       let rel = child_path dir (nd_name nd) in
       if matcher_matches G exc rel then act_ok plan
       else let selected = included \<or> matcher_matches G inc rel in
       (case nd_type nd of
           NDir \<Rightarrow> (case nd_subtree nd of
               None \<Rightarrow> act_err (BPanic rel)
             | Some subtree \<Rightarrow> plan_tree n B C G inc exc subtree rel selected
                 (plan\<lparr>pl_dirs := pl_dirs plan @ [(rel, nd, selected)]\<rparr>))
         | NSymlink \<Rightarrow> act_ok (if selected then plan\<lparr>pl_symlinks := pl_symlinks plan @ [(rel, nd)]\<rparr> else plan)
         | NFile \<Rightarrow> act_ok (if selected then plan\<lparr>pl_files := pl_files plan @ [(rel, nd)]\<rparr> else plan))) nodes plan)"

text \<open>The \<open>while let\<close> loop over \<open>rsplit_once('/')\<close>: the directories above a path.\<close>

lemma rsplit_once_shorter: "rsplit_once c s = Some (a, b) \<Longrightarrow> length a < length s"
  by (drule rsplit_once_join) simp

function parents :: "string \<Rightarrow> string list" where
  "parents path = (case rsplit_once (CHR ''/'') path of None \<Rightarrow> [] | Some (parent, _) \<Rightarrow> parent # parents parent)"
  by pat_completeness auto
termination by (relation "measure length") (auto dest: rsplit_once_shorter)

declare parents.simps [simp del]

definition prune_dirs :: "restore_plan \<Rightarrow> restore_plan" where
  "prune_dirs plan =
     (let selected_dirs = map fst (filter (\<lambda>(_, _, selected). selected) (pl_dirs plan));
          needed = concat (map parents (map fst (pl_files plan) @ map fst (pl_symlinks plan) @ selected_dirs))
      in plan\<lparr>pl_dirs := filter (\<lambda>(rel, _, selected). selected \<or> rel \<in> set needed) (pl_dirs plan)\<rparr>)"

section \<open>The restorer\<close>

record restore_stats =
  rs_files :: u64
  rs_dirs :: u64
  rs_symlinks :: u64
  rs_hardlinks :: u64
  rs_bytes :: u64

definition stats_default :: restore_stats where
  "stats_default = \<lparr>rs_files = 0, rs_dirs = 0, rs_symlinks = 0, rs_hardlinks = 0, rs_bytes = 0\<rparr>"

record restorer =
  rt_target :: upath
  rt_resolved :: upath
  rt_overwrite :: bool

text \<open>The repository and the file system that a restore runs on.\<close>

record xworld =
  xw_run :: rworld
  xw_fs :: unix_fs
  xw_stats :: restore_stats

type_synonym 'a xact = "(xworld, berror, 'a) action"

definition on_fs :: "(io_error \<Rightarrow> berror) \<Rightarrow> 'a fact \<Rightarrow> 'a xact" where
  "on_fs e m = (\<lambda>x. case m (xw_fs x) of
     (Inl err, fs) \<Rightarrow> (Inl (e err), x\<lparr>xw_fs := fs\<rparr>) | (Inr y, fs) \<Rightarrow> (Inr y, x\<lparr>xw_fs := fs\<rparr>))"

definition on_run :: "'a ract \<Rightarrow> 'a xact" where
  "on_run m = (\<lambda>x. case m (xw_run x) of (r, v) \<Rightarrow> (r, x\<lparr>xw_run := v\<rparr>))"

definition io_failed :: "io_error \<Rightarrow> berror" where
  "io_failed e = (case e of IoNotFound \<Rightarrow> BIo ''not found'' | IoExists \<Rightarrow> BIo ''exists'' | IoOther s \<Rightarrow> BIo s)"

definition invalid :: "upath \<Rightarrow> io_error \<Rightarrow> berror" where
  "invalid p = (\<lambda>_. BInvalid (join_with ''/'' p))"

definition look :: "(unix_fs \<Rightarrow> 'a io) \<Rightarrow> 'a fact" where
  "look f = (\<lambda>fs. (f fs, fs))"

definition add_stats :: "(restore_stats \<Rightarrow> restore_stats) \<Rightarrow> unit xact" where
  "add_stats f = act_mod (\<lambda>x. x\<lparr>xw_stats := f (xw_stats x)\<rparr>)"

text \<open>\<open>target.join(rel)\<close>\<close>

definition rt_path :: "restorer \<Rightarrow> string \<Rightarrow> upath" where
  "rt_path r rel = rt_target r @ path_segments rel"

definition check_contained :: "restorer \<Rightarrow> upath \<Rightarrow> unit xact" where
  "check_contained r dir = act_bind (on_fs io_failed (look (\<lambda>fs. canonicalize fs dir))) (\<lambda>resolved.
     if prefix (rt_resolved r) resolved then act_ok () else act_err (BInvalid (join_with ''/'' dir)))"

definition clear :: "restorer \<Rightarrow> upath \<Rightarrow> unit xact" where
  "clear r path = (\<lambda>x. case symlink_metadata (xw_fs x) path of
     Inl IoNotFound \<Rightarrow> (Inr (), x)
   | Inl e \<Rightarrow> (Inl (io_failed e), x)
   | Inr n \<Rightarrow> if \<not> rt_overwrite r then (Inl (BInvalid (join_with ''/'' path)), x)
       else if is_udir (Some n) then on_fs io_failed (remove_dir_all path) x
       else on_fs io_failed (remove_file path) x)"

definition make_dir :: "restorer \<Rightarrow> string \<Rightarrow> unit xact" where
  "make_dir r rel = (let path = rt_path r rel in
     act_bind (\<lambda>x. case symlink_metadata (xw_fs x) path of
         Inr n \<Rightarrow> if is_udir (Some n) then (Inr (), x)
           else act_bind (clear r path) (\<lambda>_. on_fs io_failed (create_dir path)) x
       | Inl IoNotFound \<Rightarrow> on_fs io_failed (create_dir path) x
       | Inl e \<Rightarrow> (Inl (io_failed e), x)) (\<lambda>_.
     act_bind (check_contained r path) (\<lambda>_.
     add_stats (\<lambda>s. s\<lparr>rs_dirs := rs_dirs s + 1\<rparr>))))"

definition make_symlink :: "restorer \<Rightarrow> string \<Rightarrow> node \<Rightarrow> unit xact" where
  "make_symlink r rel nd = (let path = rt_path r rel in
     act_bind (check_contained r (butlast path)) (\<lambda>_.
     act_bind (clear r path) (\<lambda>_.
     case nd_link nd of
       None \<Rightarrow> act_err (BPanic rel)
     | Some t \<Rightarrow> act_bind (on_fs io_failed (symlink t path)) (\<lambda>_.
         add_stats (\<lambda>s. s\<lparr>rs_symlinks := rs_symlinks s + 1\<rparr>)))))"

definition create_file :: "restorer \<Rightarrow> upath \<Rightarrow> u64 \<Rightarrow> unit xact" where
  "create_file r path sz =
     act_bind (check_contained r (butlast path)) (\<lambda>_.
     act_bind (\<lambda>x. case symlink_metadata (xw_fs x) path of
         Inr (UFile _) \<Rightarrow> (Inr (), x) | Inr _ \<Rightarrow> clear r path x | Inl _ \<Rightarrow> (Inr (), x)) (\<lambda>_.
     act_bind (on_fs (invalid path)
         (open_write (if rt_overwrite r then OpenCreateTruncate else OpenCreateNew) 384 path)) (\<lambda>i.
     on_fs io_failed (set_len i sz))))"

definition write_at :: "upath \<Rightarrow> bytes \<Rightarrow> u64 \<Rightarrow> unit xact" where
  "write_at path data offset =
     act_bind (on_fs (invalid path) (open_write OpenWrite 438 path)) (\<lambda>i.
     on_fs (invalid path) (write_all_at i data offset))"

text \<open>Giving the file away is best effort.\<close>

definition node_attr :: "bool \<Rightarrow> node \<Rightarrow> uattr \<Rightarrow> uattr" where
  "node_attr may_chown nd a = \<lparr>ua_mode = and (nd_mode nd) MODE_MASK,
     ua_owner = (if may_chown then (nd_uid nd, nd_gid nd) else ua_owner a), ua_times = (nd_mtime nd, nd_mtime nd)\<rparr>"

definition apply_metadata :: "upath \<Rightarrow> node \<Rightarrow> unit xact" where
  "apply_metadata path nd = (if nd_type nd = NSymlink then act_ok ()
     else on_fs (invalid path) (\<lambda>fs. set_attr path (node_attr (uf_owner fs) nd) fs))"

section \<open>Reading the packs\<close>

definition MERGE_GAP :: nat where "MERGE_GAP = 64 * 1024"

record blob_read =
  br_entry :: pack_entry
  br_destinations :: "(nat \<times> u64) list"

type_synonym reads_by_pack = "(bid, (bid, blob_read) fmap) fmap"

text \<open>Files that were hard links: the first of an inode is written, the others are linked to it.\<close>

fun split_links :: "restorer \<Rightarrow> (string \<times> node) list \<Rightarrow> (u64 \<times> u64, upath) fmap \<Rightarrow> (upath \<times> node) list \<Rightarrow> (upath \<times> upath) list \<Rightarrow>
    (upath \<times> node) list \<times> (upath \<times> upath) list" where
  "split_links r [] seen to_write links = (to_write, links)"
| "split_links r ((rel, nd) # fs) seen to_write links =
     (let path = rt_path r rel in
      if is_hardlink nd then
        (case fmlookup seen (nd_device nd, nd_inode nd) of
           Some existing \<Rightarrow> split_links r fs seen to_write (links @ [(existing, path)])
         | None \<Rightarrow> split_links r fs (fmupd (nd_device nd, nd_inode nd) path seen) (to_write @ [(path, nd)]) links)
      else split_links r fs seen (to_write @ [(path, nd)]) links)"

definition add_read :: "nat \<Rightarrow> bid \<Rightarrow> location \<Rightarrow> u64 \<Rightarrow> reads_by_pack \<Rightarrow> reads_by_pack" where
  "add_read file chunk l offset m =
     (let blobs = (case fmlookup m (lo_pack l) of None \<Rightarrow> fmempty | Some b \<Rightarrow> b);
          rd = (case fmlookup blobs chunk of None \<Rightarrow> \<lparr>br_entry = lo_entry l, br_destinations = []\<rparr> | Some rd \<Rightarrow> rd)
      in fmupd (lo_pack l) (fmupd chunk (rd\<lparr>br_destinations := br_destinations rd @ [(file, offset)]\<rparr>) blobs) m)"

fun plan_chunks :: "index \<Rightarrow> nat \<Rightarrow> bid list \<Rightarrow> u64 \<Rightarrow> reads_by_pack \<Rightarrow> (u64 \<times> reads_by_pack) bresult" where
  "plan_chunks ix file [] offset m = Inr (offset, m)"
| "plan_chunks ix file (c # cs) offset m = (case index_lookup c ix of
     None \<Rightarrow> Inl (BIncomplete (id_short c))
   | Some l \<Rightarrow> plan_chunks ix file cs (offset + ucast (pe_plain (lo_entry l))) (add_read file c l offset m))"

fun plan_reads :: "index \<Rightarrow> nat \<Rightarrow> (upath \<times> node) list \<Rightarrow> reads_by_pack \<Rightarrow> reads_by_pack bresult" where
  "plan_reads ix file [] m = Inr m"
| "plan_reads ix file ((path, nd) # fs) m = res_bind (plan_chunks ix file (nd_content nd) 0 m) (\<lambda>(offset, m').
     if offset \<noteq> nd_size nd then Inl (BFormat (join_with ''/'' path)) else plan_reads ix (file + 1) fs m')"

text \<open>Offset-sorted reads within \<open>MERGE_GAP\<close> of each other share a group.\<close>

fun group_loop :: "blob_read list \<Rightarrow> nat \<Rightarrow> blob_read list list \<Rightarrow> blob_read list list" where
  "group_loop [] end_at groups = groups"
| "group_loop (rd # rds) end_at groups =
     (if groups \<noteq> [] \<and> unat (pe_offset (br_entry rd)) \<le> end_at + MERGE_GAP
      then group_loop rds (max end_at (pe_end (br_entry rd))) (butlast groups @ [last groups @ [rd]])
      else group_loop rds (pe_end (br_entry rd)) (groups @ [[rd]]))"

definition group_reads :: "blob_read list \<Rightarrow> blob_read list list" where
  "group_reads reads = group_loop reads 0 []"

definition group_start :: "blob_read list \<Rightarrow> nat" where
  "group_start g = unat (pe_offset (br_entry (hd g)))"

definition group_end :: "blob_read list \<Rightarrow> nat" where
  "group_end g = fold max (map (\<lambda>rd. pe_end (br_entry rd)) g) 0"

text \<open>A panic of the blocking task, as from a range out of bounds, fails the restore.\<close>

fun write_destinations :: "upath list \<Rightarrow> bytes \<Rightarrow> (nat \<times> u64) list \<Rightarrow> unit xact" where
  "write_destinations paths data [] = act_ok ()"
| "write_destinations paths data ((file, offset) # ds) =
     (if length paths \<le> file then act_err (BInvalid ''restore task failed'')
      else act_bind (write_at (paths ! file) data offset) (\<lambda>_. write_destinations paths data ds))"

definition write_read :: "benv \<Rightarrow> keys \<Rightarrow> upath list \<Rightarrow> nat \<Rightarrow> bytes \<Rightarrow> blob_read \<Rightarrow> unit xact" where
  "write_read B ks paths start data rd =
     (let at = unat (pe_offset (br_entry rd)) - start; len = unat (pe_length (br_entry rd)) in
      if unat (pe_offset (br_entry rd)) < start \<or> length data < at + len then act_err (BInvalid ''restore task failed'')
      else act_bind (act_res (decode_blob B ks (br_entry rd) (take len (drop at data)))) (\<lambda>plaintext.
           write_destinations paths plaintext (br_destinations rd)))"

definition read_pack :: "benv \<Rightarrow> upath list \<Rightarrow> bid \<times> (bid, blob_read) fmap \<Rightarrow> unit xact" where
  "read_pack B paths = (\<lambda>(pack_id, blobs) x.
     let r = rw_repo (xw_run x);
         reads = sort_key (\<lambda>rd. pe_offset (br_entry rd)) (fm_values blobs) in
     act_each (\<lambda>g. act_bind (on_run (in_world (from_bstore (mem_get_range (repo_key r (pack_name pack_id))
         (of_nat (group_start g)) (of_nat (group_end g - group_start g)))))) (\<lambda>data.
       act_each (write_read B (rp_keys r) paths (group_start g) data) g)) (group_reads reads) x)"

section \<open>Restoring\<close>

definition finish_file :: "upath \<times> node \<Rightarrow> unit xact" where
  "finish_file = (\<lambda>(path, nd). act_bind (apply_metadata path nd) (\<lambda>_.
     add_stats (\<lambda>s. s\<lparr>rs_files := rs_files s + 1, rs_bytes := rs_bytes s + nd_size nd\<rparr>)))"

definition make_link :: "restorer \<Rightarrow> upath \<times> upath \<Rightarrow> unit xact" where
  "make_link r = (\<lambda>(existing, path).
     act_bind (check_contained r (butlast path)) (\<lambda>_.
     act_bind (clear r path) (\<lambda>_.
     act_bind (on_fs io_failed (hard_link existing path)) (\<lambda>_.
     add_stats (\<lambda>s. s\<lparr>rs_hardlinks := rs_hardlinks s + 1\<rparr>)))))"

text \<open>The packs are read concurrently; \<open>arrange\<close> is the order in which they come.\<close>

type_synonym pack_order = "(bid \<times> (bid, blob_read) fmap) list \<Rightarrow> (bid \<times> (bid, blob_read) fmap) list"

definition restore_files :: "benv \<Rightarrow> restorer \<Rightarrow> pack_order \<Rightarrow> (string \<times> node) list \<Rightarrow> unit xact" where
  "restore_files B r arrange files =
     (case split_links r files fmempty [] [] of (to_write, links) \<Rightarrow>
      act_bind (act_each (\<lambda>(path, nd). create_file r path (nd_size nd)) to_write) (\<lambda>_.
      act_bind (\<lambda>x. (plan_reads (rp_index (rw_repo (xw_run x))) 0 to_write fmempty, x)) (\<lambda>by_pack.
      act_bind (act_each (read_pack B (map fst to_write)) (arrange (fm_entries by_pack))) (\<lambda>_.
      act_bind (act_each finish_file to_write) (\<lambda>_.
      act_each (make_link r) links)))))"

definition run_plan :: "benv \<Rightarrow> restorer \<Rightarrow> pack_order \<Rightarrow> restore_plan \<Rightarrow> unit xact" where
  "run_plan B r arrange plan =
     act_bind (act_each (\<lambda>(rel, _, _). make_dir r rel) (pl_dirs plan)) (\<lambda>_.
     act_bind (act_each (\<lambda>(rel, nd). make_symlink r rel nd) (pl_symlinks plan)) (\<lambda>_.
     act_bind (restore_files B r arrange (pl_files plan)) (\<lambda>_.
     act_each (\<lambda>(rel, nd, _). apply_metadata (rt_path r rel) nd) (rev (pl_dirs plan)))))"

record restore_options =
  ro_include :: "string list"
  ro_exclude :: "string list"
  ro_overwrite :: bool

definition restore :: "nat \<Rightarrow> benv \<Rightarrow> codecs \<Rightarrow> glob_env \<Rightarrow> pack_order \<Rightarrow> backup_snapshot \<Rightarrow> upath \<Rightarrow> restore_options \<Rightarrow>
    restore_stats xact" where
  "restore n B C G arrange sn target opts =
     act_bind (act_res (matcher_new G (ro_include opts))) (\<lambda>inc.
     act_bind (act_res (matcher_new G (ro_exclude opts))) (\<lambda>exc.
     act_bind (on_fs io_failed (create_dir_all target)) (\<lambda>_.
     act_bind (on_fs io_failed (look (\<lambda>fs. canonicalize fs target))) (\<lambda>resolved.
     let r = \<lparr>rt_target = target, rt_resolved = resolved, rt_overwrite = ro_overwrite opts\<rparr> in
     act_bind (add_stats (\<lambda>_. stats_default)) (\<lambda>_.
     act_bind (on_run (plan_tree n B C G inc exc (sn_tree sn) [] (matcher_empty inc) plan_default)) (\<lambda>plan.
     act_bind (run_plan B r arrange (prune_dirs plan)) (\<lambda>_.
     act_get xw_stats)))))))"

end
