(* ===== verification/Restore_Plan.thy ===== *)
theory Restore_Plan
  imports Restore
begin

text \<open>
  What the plan of a restore looks like: its paths are joined from plain names, no two entries share a
  path, a directory comes after its parent, and the directory of every entry that is kept is kept too.
\<close>

section \<open>Paths\<close>

definition joined :: "upath \<Rightarrow> string" where
  "joined ps = join_with ''/'' ps"

lemma plain_name: "\<not> bad_name n \<Longrightarrow> plain_part n"
  by (auto simp: bad_name_def plain_part_def)

lemma joined_simps [simp]: "joined [] = []" "joined [p] = p"
  by (simp_all add: joined_def join_with_def)

lemma joined_Cons: "ps \<noteq> [] \<Longrightarrow> joined (p # ps) = p @ CHR ''/'' # joined ps"
  by (simp add: joined_def join_with_Cons)

lemma joined_snoc: "ps \<noteq> [] \<Longrightarrow> joined (ps @ [p]) = joined ps @ CHR ''/'' # p"
proof (induction ps)
  case (Cons a ps)
  then show ?case by (cases "ps = []") (auto simp: joined_Cons)
qed simp

lemma joined_empty: "list_all plain_part ps \<Longrightarrow> joined ps = [] \<longleftrightarrow> ps = []"
  by (cases ps; cases "tl ps") (auto simp: joined_Cons plain_part_def)

lemma segments_joined [simp]: "list_all plain_part ps \<Longrightarrow> path_segments (joined ps) = ps"
proof (cases "ps = []")
  case False
  assume p: "list_all plain_part ps"
  have "split_on (CHR ''/'') (joined ps) = ps"
    unfolding joined_def using False p by (intro split_join) (auto simp: list_all_iff plain_part_def)
  moreover have "filter (\<lambda>seg. seg \<noteq> [] \<and> seg \<noteq> ''.'') ps = ps" using p by (auto simp: list_all_iff plain_part_def)
  ultimately show ?thesis by (simp add: path_segments_def)
qed (simp add: path_segments_def)

lemma child_joined: "list_all plain_part ps \<Longrightarrow> child_path (joined ps) n = joined (ps @ [n])"
  by (cases "ps = []") (auto simp: child_path_def joined_snoc joined_empty)

lemma joined_inj: "list_all plain_part ps \<Longrightarrow> list_all plain_part qs \<Longrightarrow> joined ps = joined qs \<longleftrightarrow> ps = qs"
  by (metis segments_joined)

lemma rsplit_last:
  assumes "c \<notin> set t"
  shows "rsplit_once c (s @ c # t) = Some (s, t)"
proof -
  have n: "x \<in> set (rev t) \<Longrightarrow> x \<noteq> c" for x using assms by auto
  have "takeWhile (\<lambda>x. x \<noteq> c) (rev t @ c # rev s) = rev t" using n by (subst takeWhile_append2) auto
  moreover have "dropWhile (\<lambda>x. x \<noteq> c) (rev t @ c # rev s) = c # rev s" using n by (subst dropWhile_append2) auto
  ultimately show ?thesis by (simp add: rsplit_once_def)
qed

lemma parents_joined:
  "list_all plain_part ps \<Longrightarrow> set (parents (joined ps)) = {joined qs | qs. strict_prefix qs ps \<and> qs \<noteq> []}"
proof (induction ps rule: rev_induct)
  case (snoc p ps)
  from snoc.prems have p: "CHR ''/'' \<notin> set p" "list_all plain_part ps" by (auto simp: plain_part_def [of p])
  have sp: "strict_prefix qs (ps @ [p]) \<longleftrightarrow> prefix qs ps" for qs
    by (metis prefix_order.less_le prefix_snoc prefix_order.le_less same_prefix_nil not_Cons_self2 prefix_order.dual_order.strict_trans strict_prefixI')
  show ?case
  proof (cases "ps = []")
    case True
    have "parents p = []" using p(1) by (subst parents.simps) (simp add: rsplit_once_None [THEN iffD2])
    then show ?thesis unfolding sp using True by auto
  next
    case False
    then have "parents (joined (ps @ [p])) = joined ps # parents (joined ps)"
      by (subst parents.simps) (simp add: joined_snoc rsplit_last p(1))
    then have "set (parents (joined (ps @ [p]))) = insert (joined ps) {joined qs | qs. strict_prefix qs ps \<and> qs \<noteq> []}"
      using snoc.IH [OF p(2)] by simp
    also have "\<dots> = {joined qs | qs. strict_prefix qs (ps @ [p]) \<and> qs \<noteq> []}"
      unfolding sp using False by (auto simp: prefix_order.le_less)
    finally show ?thesis .
  qed
qed (simp add: parents.simps [of "[]"] rsplit_once_None [THEN iffD2])

section \<open>Well-formed plans\<close>

text \<open>
  The paths added beneath \<open>base\<close> whose next name is in \<open>K\<close>: directories \<open>D\<close> in order, and entries \<open>E\<close> of
  the other kinds.
\<close>

definition planned_below :: "upath \<Rightarrow> string set \<Rightarrow> upath list \<Rightarrow> upath list \<Rightarrow> bool" where
  "planned_below base K D E \<longleftrightarrow>
     (\<forall>p\<in>set (D @ E). list_all plain_part p \<and> (\<exists>n\<in>K. prefix (base @ [n]) p)) \<and> distinct (D @ E) \<and>
     (\<forall>i<length D. butlast (D ! i) = base \<or> butlast (D ! i) \<in> set (take i D)) \<and>
     (\<forall>p\<in>set E. butlast p = base \<or> butlast p \<in> set D)"

lemma planned_none [simp]: "planned_below base K [] []"
  by (simp add: planned_below_def)

lemma planned_one: "list_all plain_part base \<Longrightarrow> plain_part n \<Longrightarrow> planned_below base {n} [] [base @ [n]]"
  by (simp add: planned_below_def)

lemma planned_apart:
  assumes "\<forall>p\<in>A. \<exists>n\<in>K. prefix (base @ [n]) p" and "\<forall>p\<in>B. \<exists>n\<in>L. prefix (base @ [n]) p" and "K \<inter> L = {}"
  shows "A \<inter> B = {}"
proof (rule ccontr)
  assume "A \<inter> B \<noteq> {}"
  then obtain p n m where "n \<in> K" "m \<in> L" "prefix (base @ [n]) p" "prefix (base @ [m]) p" using assms(1,2) by blast
  then have "n = m" by (auto simp: prefix_def)
  with \<open>n \<in> K\<close> \<open>m \<in> L\<close> assms(3) show False by auto
qed

lemma planned_append:
  assumes a: "planned_below base K D E" and b: "planned_below base L D' E'" and "K \<inter> L = {}"
  shows "planned_below base (K \<union> L) (D @ D') (E @ E')"
proof -
  have "set (D @ E) \<inter> set (D' @ E') = {}"
    using a b by (intro planned_apart [of _ K base _ L]) (auto simp: planned_below_def assms(3))
  moreover have "butlast ((D @ D') ! i) = base \<or> butlast ((D @ D') ! i) \<in> set (take i (D @ D'))" if "i < length (D @ D')" for i
  proof (cases "i < length D")
    case True
    with a have "butlast (D ! i) = base \<or> butlast (D ! i) \<in> set (take i D)" by (simp add: planned_below_def)
    with True show ?thesis by (simp add: nth_append)
  next
    case False
    then have "i - length D < length D'" using that by auto
    with b have "butlast (D' ! (i - length D)) = base \<or> butlast (D' ! (i - length D)) \<in> set (take (i - length D) D')"
      unfolding planned_below_def by blast
    with False show ?thesis by (auto simp: nth_append)
  qed
  ultimately show ?thesis using a b unfolding planned_below_def by auto
qed

lemma planned_dir:
  assumes "planned_below (base @ [n]) K D E" and n: "list_all plain_part base" "plain_part n"
  shows "planned_below base {n} ((base @ [n]) # D) E"
proof -
  have "\<forall>p\<in>set (D @ E). \<exists>m\<in>K. prefix ((base @ [n]) @ [m]) p" using assms(1) by (simp add: planned_below_def)
  moreover have "\<not> prefix ((base @ [n]) @ [m]) (base @ [n])" for m by (auto dest: prefix_length_le)
  ultimately have "base @ [n] \<notin> set (D @ E)" by metis
  moreover have "prefix (base @ [n]) p" if "p \<in> set (D @ E)" for p
    using assms(1) that unfolding planned_below_def by (meson append_prefixD)
  moreover have "butlast (((base @ [n]) # D) ! i) = base \<or> butlast (((base @ [n]) # D) ! i) \<in> set (take i ((base @ [n]) # D))"
    if "i < length ((base @ [n]) # D)" for i
    using assms(1) that by (cases i) (auto simp: planned_below_def)
  ultimately show ?thesis using assms unfolding planned_below_def by (auto simp del: list.set_map)
qed

lemma planned_perm: "planned_below base K D E \<Longrightarrow> mset E = mset E' \<Longrightarrow> planned_below base K D E'"
  unfolding planned_below_def
  by (metis (no_types, lifting) distinct_append mset_eq_imp_distinct_iff mset_eq_setD set_append)

text \<open>What planning adds to a plan: directories, links and files of their kinds.\<close>

definition adds :: "upath \<Rightarrow> string set \<Rightarrow> restore_plan \<Rightarrow> restore_plan \<Rightarrow> bool" where
  "adds base K p q \<longleftrightarrow> (\<exists>ds ss fs D S F. q = p\<lparr>pl_dirs := pl_dirs p @ ds, pl_symlinks := pl_symlinks p @ ss, pl_files := pl_files p @ fs\<rparr> \<and>
     map fst ds = map joined D \<and> map fst ss = map joined S \<and> map fst fs = map joined F \<and> planned_below base K D (S @ F) \<and>
     (\<forall>e\<in>set ds. nd_type (fst (snd e)) = NDir) \<and> (\<forall>e\<in>set ss. nd_type (snd e) = NSymlink) \<and> (\<forall>e\<in>set fs. nd_type (snd e) = NFile))"

lemma adds_none [simp]: "adds base K p p"
  by (auto simp: adds_def intro!: exI [of _ "[]"])

lemma adds_trans:
  assumes "adds base K p q" and "adds base L q r" and "K \<inter> L = {}"
  shows "adds base (K \<union> L) p r"
proof -
  from assms(1) obtain ds ss fs D S F where 1: "q = p\<lparr>pl_dirs := pl_dirs p @ ds, pl_symlinks := pl_symlinks p @ ss, pl_files := pl_files p @ fs\<rparr>"
    "map fst ds = map joined D" "map fst ss = map joined S" "map fst fs = map joined F" "planned_below base K D (S @ F)"
    "\<forall>e\<in>set ds. nd_type (fst (snd e)) = NDir" "\<forall>e\<in>set ss. nd_type (snd e) = NSymlink" "\<forall>e\<in>set fs. nd_type (snd e) = NFile"
    unfolding adds_def by blast
  from assms(2) obtain ds' ss' fs' D' S' F' where 2: "r = q\<lparr>pl_dirs := pl_dirs q @ ds', pl_symlinks := pl_symlinks q @ ss', pl_files := pl_files q @ fs'\<rparr>"
    "map fst ds' = map joined D'" "map fst ss' = map joined S'" "map fst fs' = map joined F'" "planned_below base L D' (S' @ F')"
    "\<forall>e\<in>set ds'. nd_type (fst (snd e)) = NDir" "\<forall>e\<in>set ss'. nd_type (snd e) = NSymlink" "\<forall>e\<in>set fs'. nd_type (snd e) = NFile"
    unfolding adds_def by blast
  have "planned_below base (K \<union> L) (D @ D') ((S @ S') @ (F @ F'))"
    by (rule planned_perm [OF planned_append [OF 1(5) 2(5) assms(3)]]) simp
  moreover have "r = p\<lparr>pl_dirs := pl_dirs p @ (ds @ ds'), pl_symlinks := pl_symlinks p @ (ss @ ss'), pl_files := pl_files p @ (fs @ fs')\<rparr>"
    by (simp add: 1(1) 2(1))
  moreover have "map fst (ds @ ds') = map joined (D @ D')" "map fst (ss @ ss') = map joined (S @ S')" "map fst (fs @ fs') = map joined (F @ F')"
    by (simp_all add: 1(2-4) 2(2-4))
  moreover have "\<forall>e\<in>set (ds @ ds'). nd_type (fst (snd e)) = NDir" "\<forall>e\<in>set (ss @ ss'). nd_type (snd e) = NSymlink"
    "\<forall>e\<in>set (fs @ fs'). nd_type (snd e) = NFile"
    unfolding set_append ball_Un using 1(6-8) 2(6-8) by blast+
  ultimately show ?thesis unfolding adds_def by blast
qed

lemma adds_entry:
  assumes "list_all plain_part base" and "plain_part n"
  shows "nd_type nd = NSymlink \<Longrightarrow> adds base {n} p (p\<lparr>pl_symlinks := pl_symlinks p @ [(joined (base @ [n]), nd)]\<rparr>)"
    and "nd_type nd = NFile \<Longrightarrow> adds base {n} p (p\<lparr>pl_files := pl_files p @ [(joined (base @ [n]), nd)]\<rparr>)"
  using planned_one [OF assms] unfolding adds_def
  by (intro exI [of _ "[]"] exI [of _ "[(joined (base @ [n]), nd)]"] exI [of _ "[base @ [n]]"]; simp)+

lemma adds_dir:
  assumes "adds (base @ [n]) K (p\<lparr>pl_dirs := pl_dirs p @ [(joined (base @ [n]), nd, sel)]\<rparr>) q" and "nd_type nd = NDir"
    and "list_all plain_part base" "plain_part n"
  shows "adds base {n} p q"
proof -
  from assms(1) obtain ds ss fs D S F where 1: "q = p\<lparr>pl_dirs := (pl_dirs p @ [(joined (base @ [n]), nd, sel)]) @ ds, pl_symlinks := pl_symlinks p @ ss, pl_files := pl_files p @ fs\<rparr>"
    "map fst ds = map joined D" "map fst ss = map joined S" "map fst fs = map joined F" "planned_below (base @ [n]) K D (S @ F)"
    "\<forall>e\<in>set ds. nd_type (fst (snd e)) = NDir" "\<forall>e\<in>set ss. nd_type (snd e) = NSymlink" "\<forall>e\<in>set fs. nd_type (snd e) = NFile"
    unfolding adds_def by auto
  then show ?thesis unfolding adds_def using planned_dir [OF 1(5) assms(3,4)] assms(2)
    by (intro exI [of _ "(joined (base @ [n]), nd, sel) # ds"] exI [of _ "ss"] exI [of _ "fs"] exI [of _ "(base @ [n]) # D"] exI [of _ S] exI [of _ F]) auto
qed

lemma load_tree_ok: "load_tree B C t v = (Inr nodes, v') \<Longrightarrow> tree_ok nodes"
  by (auto simp: load_tree_def fetch_tree_def act_bind_ok tree_decode_ok split: option.splits if_splits)

lemma plan_tree_adds:
  "list_all plain_part base \<Longrightarrow> plan_tree n B C G inc exc t (joined base) included plan v = (Inr plan', v') \<Longrightarrow> \<exists>K. adds base K plan plan'"
proof (induction n arbitrary: t base included plan v plan' v')
  case (Suc n)
  from Suc.prems(2) obtain nodes v1 where l: "load_tree B C t v = (Inr nodes, v1)"
    and f: "act_fold (\<lambda>nd plan.
       let rel = child_path (joined base) (nd_name nd) in
       if matcher_matches G exc rel then act_ok plan
       else let selected = included \<or> matcher_matches G inc rel in
       (case nd_type nd of
           NDir \<Rightarrow> (case nd_subtree nd of
               None \<Rightarrow> act_err (BPanic rel)
             | Some subtree \<Rightarrow> plan_tree n B C G inc exc subtree rel selected
                 (plan\<lparr>pl_dirs := pl_dirs plan @ [(rel, nd, selected)]\<rparr>))
         | NSymlink \<Rightarrow> act_ok (if selected then plan\<lparr>pl_symlinks := pl_symlinks plan @ [(rel, nd)]\<rparr> else plan)
         | NFile \<Rightarrow> act_ok (if selected then plan\<lparr>pl_files := pl_files plan @ [(rel, nd)]\<rparr> else plan))) nodes plan v1 = (Inr plan', v')"
    (is "act_fold ?f _ _ _ = _")
    by (auto simp: act_bind_ok)
  have step: "adds base {nd_name nd} p q" if "?f nd p u = (Inr q, u')" "\<not> bad_name (nd_name nd)" for nd p q u u'
  proof -
    note pl = plain_name [OF that(2)]
    have c: "child_path (joined base) (nd_name nd) = joined (base @ [nd_name nd])" by (rule child_joined [OF Suc.prems(1)])
    have b: "list_all plain_part (base @ [nd_name nd])" using Suc.prems(1) pl by simp
    show ?thesis
    proof (cases "matcher_matches G exc (joined (base @ [nd_name nd]))")
      case True
      with that(1) show ?thesis by (simp add: c)
    next
      case False
      show ?thesis
      proof (cases "nd_type nd")
        case NDir
        with that(1) False obtain s where "plan_tree n B C G inc exc s (joined (base @ [nd_name nd]))
            (included \<or> matcher_matches G inc (joined (base @ [nd_name nd])))
            (p\<lparr>pl_dirs := pl_dirs p @ [(joined (base @ [nd_name nd]), nd, included \<or> matcher_matches G inc (joined (base @ [nd_name nd])))]\<rparr>) u = (Inr q, u')"
          by (auto simp: c Let_def split: option.splits)
        from Suc.IH [OF b this] adds_dir [OF _ NDir Suc.prems(1) pl] show ?thesis by blast
      qed (use that(1) False adds_entry [OF Suc.prems(1) pl] in \<open>auto simp: c Let_def\<close>)
    qed
  qed
  have "adds base (nd_name ` set ns) p q" if "act_fold ?f ns p u = (Inr q, u')" "distinct (map nd_name ns)" "\<forall>nd\<in>set ns. \<not> bad_name (nd_name nd)" for ns p q u u'
    using that
  proof (induction ns arbitrary: p u)
    case (Cons nd ns)
    from Cons.prems(1) obtain p1 u1 where 1: "?f nd p u = (Inr p1, u1)" "act_fold ?f ns p1 u1 = (Inr q, u')"
      by (auto simp only: act_fold.simps act_bind_ok)
    have "adds base ({nd_name nd} \<union> nd_name ` set ns) p q"
      using step [OF 1(1)] Cons.IH [OF 1(2)] Cons.prems(2,3) by (intro adds_trans [of base _ p p1]) auto
    then show ?case by simp
  qed simp
  from this [OF f] load_tree_ok [OF l] show ?case by (auto simp: tree_ok_def strict_sorted_iff)
qed simp

section \<open>Directories that are kept\<close>

text \<open>Every directory after its parent.\<close>

fun dirs_ordered :: "upath set \<Rightarrow> upath list \<Rightarrow> bool" where
  "dirs_ordered seen [] = True"
| "dirs_ordered seen (d # ds) = ((butlast d = [] \<or> butlast d \<in> seen) \<and> dirs_ordered (insert d seen) ds)"

lemma dirs_orderedI:
  "(\<And>i. i < length D \<Longrightarrow> butlast (D ! i) = [] \<or> butlast (D ! i) \<in> seen \<union> set (take i D)) \<Longrightarrow> dirs_ordered seen D"
proof (induction D arbitrary: seen)
  case (Cons d D)
  have "butlast (D ! i) = [] \<or> butlast (D ! i) \<in> insert d seen \<union> set (take i D)" if "i < length D" for i
    using Cons.prems [of "Suc i"] that by auto
  with Cons.IH Cons.prems [of 0] show ?case by simp
qed simp

lemma dirs_ordered_mono: "dirs_ordered A D \<Longrightarrow> A \<subseteq> B \<Longrightarrow> dirs_ordered B D"
  by (induction D arbitrary: A B) (auto simp: subset_iff)

text \<open>So the directories above one of them are among them.\<close>

lemma dirs_closed:
  "dirs_ordered seen D \<Longrightarrow> \<forall>d\<in>seen. \<forall>p. prefix p d \<and> p \<noteq> [] \<longrightarrow> p \<in> seen \<Longrightarrow> d \<in> seen \<union> set D \<Longrightarrow> prefix p d \<Longrightarrow> p \<noteq> [] \<Longrightarrow>
    p \<in> seen \<union> set D"
proof (induction D arbitrary: seen)
  case (Cons e D)
  have "q \<in> insert e seen" if "prefix q e" "q \<noteq> []" for q
  proof (cases "q = e")
    case False
    then have "prefix q (butlast e)" using that(1) by (cases e rule: rev_cases) (auto simp: prefix_snoc)
    with that(2) Cons.prems(1,2) show ?thesis by auto
  qed simp
  with Cons.prems(2) have closed: "\<forall>d\<in>insert e seen. \<forall>p. prefix p d \<and> p \<noteq> [] \<longrightarrow> p \<in> insert e seen" by blast
  have "p \<in> insert e seen \<union> set D" by (rule Cons.IH [OF _ closed _ Cons.prems(4,5)]) (use Cons.prems(1,3) in auto)
  then show ?case by simp
next
  case Nil
  then show ?case by (simp; blast)
qed

lemma dirs_ordered_filter:
  assumes "dirs_ordered seen (map f ds)" and "\<And>x. x \<in> set ds \<Longrightarrow> P x \<Longrightarrow> butlast (f x) = [] \<or> butlast (f x) \<in> Q"
    and "\<And>x. x \<in> set ds \<Longrightarrow> f x \<in> Q \<Longrightarrow> P x"
  shows "dirs_ordered (seen \<inter> Q) (map f (filter P ds))"
  using assms
proof (induction ds arbitrary: seen)
  case (Cons d ds)
  have r: "dirs_ordered (insert (f d) seen \<inter> Q) (map f (filter P ds))" using Cons by simp
  show ?case
  proof (cases "P d")
    case True
    have "dirs_ordered (insert (f d) (seen \<inter> Q)) (map f (filter P ds))" by (rule dirs_ordered_mono [OF r]) auto
    with True Cons.prems show ?thesis by auto
  next
    case False
    then have "f d \<notin> Q" using Cons.prems(3) by auto
    then have "insert (f d) seen \<inter> Q = seen \<inter> Q" by auto
    with r False show ?thesis by simp
  qed
qed simp

definition plan_ok :: "restore_plan \<Rightarrow> upath list \<Rightarrow> upath list \<Rightarrow> upath list \<Rightarrow> bool" where
  "plan_ok q D S F \<longleftrightarrow> map fst (pl_dirs q) = map joined D \<and> map fst (pl_symlinks q) = map joined S \<and> map fst (pl_files q) = map joined F \<and>
     (\<forall>p\<in>set (D @ S @ F). list_all plain_part p \<and> p \<noteq> []) \<and> distinct (D @ S @ F) \<and> dirs_ordered {} D \<and>
     (\<forall>p\<in>set (S @ F). butlast p = [] \<or> butlast p \<in> set D) \<and>
     (\<forall>e\<in>set (pl_dirs q). nd_type (fst (snd e)) = NDir) \<and> (\<forall>e\<in>set (pl_symlinks q). nd_type (snd e) = NSymlink) \<and>
     (\<forall>e\<in>set (pl_files q). nd_type (snd e) = NFile)"

lemma parent_joined:
  assumes "list_all plain_part p" and "butlast p \<noteq> []"
  shows "joined (butlast p) \<in> set (parents (joined p))"
proof -
  have "p = butlast p @ [last p]" using assms(2) by (cases p rule: rev_cases) auto
  then have "strict_prefix (butlast p) p" by (metis strict_prefixI')
  then show ?thesis using assms by (auto simp: parents_joined)
qed

lemma parent_of_parent:
  assumes "list_all plain_part p" and "list_all plain_part q" and "joined q \<in> set (parents (joined p))" and "butlast q \<noteq> []"
  shows "joined (butlast q) \<in> set (parents (joined p))"
proof -
  from assms(3) parents_joined [OF assms(1)] obtain qs where qs: "joined q = joined qs" "strict_prefix qs p" by auto
  have "list_all plain_part qs" using qs(2) assms(1) by (auto simp: strict_prefix_def prefix_def)
  then have "qs = q" using qs(1) assms(2) joined_inj by metis
  then have "strict_prefix (butlast q) p" using qs(2) by (metis prefixeq_butlast prefix_order.le_less_trans)
  then show ?thesis using assms(1,4) by (auto simp: parents_joined)
qed

lemma planned_facts:
  assumes "planned_below [] K D E"
  shows "\<forall>p\<in>set (D @ E). list_all plain_part p \<and> p \<noteq> []" and "distinct (D @ E)" and "dirs_ordered {} D"
    and "\<forall>p\<in>set E. butlast p = [] \<or> butlast p \<in> set D"
proof -
  show "\<forall>p\<in>set (D @ E). list_all plain_part p \<and> p \<noteq> []"
    using assms unfolding planned_below_def by (metis append_Nil not_Cons_self2 prefix_Nil)
  show "dirs_ordered {} D" by (rule dirs_orderedI) (use assms in \<open>auto simp: planned_below_def\<close>)
qed (use assms in \<open>auto simp: planned_below_def\<close>)

lemma prune_dirs_ok:
  assumes "adds [] K plan_default plan"
  shows "\<exists>D S F. plan_ok (prune_dirs plan) D S F"
proof -
  from assms obtain ds ss fs D S F where 1: "plan = plan_default\<lparr>pl_dirs := pl_dirs plan_default @ ds,
      pl_symlinks := pl_symlinks plan_default @ ss, pl_files := pl_files plan_default @ fs\<rparr>"
    "map fst ds = map joined D" "map fst ss = map joined S" "map fst fs = map joined F" "planned_below [] K D (S @ F)"
    "\<forall>e\<in>set ds. nd_type (fst (snd e)) = NDir" "\<forall>e\<in>set ss. nd_type (snd e) = NSymlink" "\<forall>e\<in>set fs. nd_type (snd e) = NFile"
    unfolding adds_def by blast
  note pl = planned_facts [OF 1(5)]
  define f where "f = (\<lambda>e :: string \<times> node \<times> bool. path_segments (fst e))"
  define needed where "needed = set (concat (map parents (map fst fs @ map fst ss @ map fst (filter (\<lambda>(_, _, selected). selected) ds))))"
  define keep where "keep = (\<lambda>(rel, _ :: node, selected). selected \<or> rel \<in> needed)"
  let ?q = "prune_dirs plan"
  have q: "pl_dirs ?q = filter keep ds" "pl_symlinks ?q = ss" "pl_files ?q = fs"
    by (simp_all add: prune_dirs_def Let_def 1(1) plan_default_def needed_def keep_def)
  have D: "map f ds = D"
  proof -
    have "map f ds = map path_segments (map fst ds)" by (simp add: f_def)
    also have "\<dots> = map (\<lambda>p. path_segments (joined p)) D" by (simp add: 1(2))
    also have "\<dots> = D" using pl(1) by (intro map_idI) simp
    finally show ?thesis .
  qed
  have e: "fst e = joined (f e) \<and> list_all plain_part (f e) \<and> f e \<in> set D" if "e \<in> set ds" for e
  proof -
    have "fst e \<in> set (map joined D)" using that 1(2) by (metis image_eqI list.set_map)
    then show ?thesis using pl(1) by (auto simp: f_def)
  qed
  have sf: "p \<in> needed" if "x \<in> set (S @ F)" "p \<in> set (parents (joined x))" for x p
  proof -
    have "joined x \<in> set (map fst ss @ map fst fs)" using that(1) by (auto simp: 1(3,4))
    then have "joined x \<in> set (map fst fs @ map fst ss @ map fst (filter (\<lambda>(_, _, selected). selected) ds))" by auto
    with that(2) show ?thesis unfolding needed_def set_concat set_map by blast
  qed
  have up: "butlast (f e) = [] \<or> joined (butlast (f e)) \<in> needed" if k: "e \<in> set ds" "keep e" for e
  proof (cases "butlast (f e) = []")
    case False
    from k(2) consider "snd (snd e)" | "joined (f e) \<in> needed" using e [OF k(1)] by (auto simp: keep_def split: prod.splits)
    then show ?thesis
    proof cases
      case 1
      then have "fst e \<in> fst ` set (filter (\<lambda>(_, _, selected). selected) ds)" using k(1) by (intro imageI) (auto split: prod.splits)
      then have "set (parents (fst e)) \<subseteq> needed" unfolding needed_def set_concat set_map set_append by blast
      with parent_joined [of "f e"] e [OF k(1)] False show ?thesis by auto
    next
      case 2
      then obtain x where x: "joined (f e) \<in> set (parents (joined x))" "list_all plain_part x" "set (parents (joined x)) \<subseteq> needed"
      proof -
        from 2 obtain r where r: "r \<in> set (map fst fs @ map fst ss @ map fst (filter (\<lambda>(_, _, selected). selected) ds))"
          "joined (f e) \<in> set (parents r)" unfolding needed_def set_concat set_map by blast
        have "r \<in> set (map fst fs) \<union> set (map fst ss) \<union> set (map fst ds)" using r(1) by auto
        then have "r \<in> joined ` set (D @ S @ F)" unfolding 1(2-4) by auto
        then obtain x where "r = joined x" "x \<in> set (D @ S @ F)" by auto
        moreover have "set (parents r) \<subseteq> needed" using r(1) unfolding needed_def set_concat set_map by blast
        ultimately show ?thesis using that r(2) pl(1) by auto
      qed
      from parent_of_parent [OF x(2) _ x(1) False] e [OF k(1)] x(3) show ?thesis by auto
    qed
  qed simp
  define Q where "Q = {d. joined d \<in> needed} \<union> f ` {e \<in> set ds. keep e}"
  have inj: "inj_on f (set ds)" using pl(2) D by (metis distinct_append distinct_map)
  have closed: "keep e'" if k: "e' \<in> set ds" "f e' \<in> Q" for e'
  proof (cases "joined (f e') \<in> needed")
    case True
    with e [OF k(1)] show ?thesis by (auto simp: keep_def split: prod.splits)
  next
    case False
    with k(2) obtain e2 where "e2 \<in> set ds" "keep e2" "f e' = f e2" unfolding Q_def by blast
    with inj_onD [OF inj _ k(1)] show ?thesis by metis
  qed
  have "dirs_ordered ({} \<inter> Q) (map f (filter keep ds))"
    by (rule dirs_ordered_filter) (use pl(3) D up closed in \<open>auto simp: Q_def\<close>)
  moreover have "map fst (filter keep ds) = map joined (map f (filter keep ds))" using e by simp
  moreover have "butlast p = [] \<or> butlast p \<in> set (map f (filter keep ds))" if "p \<in> set (S @ F)" for p
  proof (cases "butlast p = []")
    case False
    then have "butlast p \<in> set D" using pl(4) that by auto
    then obtain e' where e': "e' \<in> set ds" "f e' = butlast p" using D by (metis (no_types, lifting) image_iff list.set_map)
    have "joined (butlast p) \<in> needed" using sf [OF that] parent_joined [OF _ False] pl(1) that by auto
    then have "keep e'" using closed [OF e'(1)] by (simp add: Q_def e'(2))
    then have "f e' \<in> f ` set (filter keep ds)" using e'(1) by auto
    with e'(2) show ?thesis by simp
  qed simp
  moreover have "distinct (map f (filter keep ds) @ S @ F)"
  proof -
    have "set (map f (filter keep ds)) \<subseteq> set D" using D by auto
    moreover have "distinct (map f (filter keep ds))" using pl(2) D by (metis distinct_append distinct_map_filter)
    ultimately show ?thesis using pl(2) by auto
  qed
  ultimately have "plan_ok ?q (map f (filter keep ds)) S F"
    using pl(1) e 1(3,4,6-8) unfolding plan_ok_def q by auto
  then show ?thesis by blast
qed

end
