(* ===== verification/Restore_Safety.thy ===== *)
theory Restore_Safety
  imports Restore_Plan Repository_Runs
begin

text \<open>
  Containment: whatever a snapshot names and whatever links lie in the target, a restore changes no entry
  outside the resolved target. The invariant also says that every directory made so far is a real
  directory at its own place, so that a path below the target leads where its segments say.
\<close>

section \<open>The invariant\<close>

text \<open>The files that have a name beneath the target.\<close>

definition inodes_in :: "upath \<Rightarrow> unix_fs \<Rightarrow> nat set" where
  "inodes_in T fs = {i. \<exists>p. strict_prefix T p \<and> fmlookup (uf_nodes fs) p = Some (UFile i)}"

text \<open>Outside the target nothing changed: no entry, and no file without a name in the target.\<close>

definition kept_outside :: "upath \<Rightarrow> unix_fs \<Rightarrow> unix_fs \<Rightarrow> bool" where
  "kept_outside T fs fs' \<longleftrightarrow> (\<forall>p. \<not> strict_prefix T p \<longrightarrow> fmlookup (uf_nodes fs') p = fmlookup (uf_nodes fs) p) \<and>
     (\<forall>i. i \<notin> inodes_in T fs \<and> i < uf_next fs \<longrightarrow> fmlookup (uf_inodes fs') i = fmlookup (uf_inodes fs) i)"

definition kept :: "upath \<Rightarrow> unix_fs \<Rightarrow> unix_fs \<Rightarrow> bool" where
  "kept T fs fs' \<longleftrightarrow> kept_outside T fs fs' \<and> uf_next fs \<le> uf_next fs' \<and>
     (\<forall>i\<in>inodes_in T fs'. i \<in> inodes_in T fs \<or> uf_next fs \<le> i)"

text \<open>Resolving the target never looks beneath it.\<close>

definition steady :: "upath \<Rightarrow> upath \<Rightarrow> unix_fs \<Rightarrow> bool" where
  "steady target T fs \<longleftrightarrow> (\<forall>fs'. (\<forall>p. \<not> strict_prefix T p \<longrightarrow> fmlookup (uf_nodes fs') p = fmlookup (uf_nodes fs) p) \<longrightarrow>
     walk fs' MAX_LINKS [] target = Inr T)"

definition real_dirs :: "unix_fs \<Rightarrow> upath \<Rightarrow> upath \<Rightarrow> bool" where
  "real_dirs fs T d \<longleftrightarrow> (\<forall>ks. prefix ks d \<longrightarrow> is_udir (fmlookup (uf_nodes fs) (T @ ks)))"

definition restoring :: "upath \<Rightarrow> upath \<Rightarrow> unix_fs \<Rightarrow> upath set \<Rightarrow> unix_fs \<Rightarrow> bool" where
  "restoring target T fs0 D fs \<longleftrightarrow> steady target T fs0 \<and> kept T fs0 fs \<and> [] \<in> D \<and> (\<forall>d\<in>D. real_dirs fs T d)"

section \<open>Resolving\<close>

lemma is_udir_simps [simp]: "is_udir (Some (UDir a))" "\<not> is_udir (Some (UFile i))" "\<not> is_udir (Some (ULink t))" "\<not> is_udir None"
  by (simp_all add: is_udir_def)

lemma is_udirE: "is_udir n \<Longrightarrow> (\<And>a. n = Some (UDir a) \<Longrightarrow> thesis) \<Longrightarrow> thesis"
  by (auto simp: is_udir_def split: option.splits unode.splits)

lemma walk_dirs: "real_dirs fs cur ps \<Longrightarrow> list_all plain_part ps \<Longrightarrow> walk fs n cur ps = Inr (cur @ ps)"
proof (induction ps arbitrary: cur)
  case (Cons p ps)
  from Cons.prems have "is_udir (fmlookup (uf_nodes fs) cur)" "is_udir (fmlookup (uf_nodes fs) (cur @ [p]))"
    unfolding real_dirs_def by (metis append_Nil2 Nil_prefix, simp)
  moreover have "real_dirs fs (cur @ [p]) ps" using Cons.prems by (simp add: real_dirs_def)
  ultimately show ?case using Cons.IH Cons.prems(2) by (auto elim!: is_udirE simp: plain_part_def)
qed simp

lemma walk_append:
  "walk fs n cur xs = Inr q \<Longrightarrow> real_dirs fs q ps \<Longrightarrow> list_all plain_part ps \<Longrightarrow> walk fs n cur (xs @ ps) = Inr (q @ ps)"
proof (induction fs n cur xs rule: walk.induct)
  case (1 fs n cur)
  then show ?case by (simp add: walk_dirs)
next
  case (2 fs n cur c cs)
  show ?case
  proof (cases "\<not> is_udir (fmlookup (uf_nodes fs) cur) \<or> c = ''..''")
    case True
    with 2 show ?thesis by (auto split: if_splits)
  next
    case False
    with 2 show ?thesis by (auto split: option.splits unode.splits nat.splits split del: if_split)
  qed
qed

lemma real_dirs_butlast: "real_dirs fs T d \<Longrightarrow> real_dirs fs T (butlast d)"
  unfolding real_dirs_def by (meson prefix_order.trans prefixeq_butlast)

lemma real_dirs_snoc: "real_dirs fs T (d @ [n]) \<longleftrightarrow> real_dirs fs T d \<and> is_udir (fmlookup (uf_nodes fs) (T @ d @ [n]))"
  by (auto simp: real_dirs_def)

lemma restoring_walk: "restoring target T fs0 D fs \<Longrightarrow> walk fs MAX_LINKS [] target = Inr T"
  by (auto simp: restoring_def steady_def kept_def kept_outside_def)

lemma restoring_dir: "restoring target T fs0 D fs \<Longrightarrow> d \<in> D \<Longrightarrow> real_dirs fs T d"
  by (simp add: restoring_def)

text \<open>An entry in a directory that was made is where its path says.\<close>

lemma restoring_locate:
  assumes "restoring target T fs0 D fs" and "butlast ps \<in> D" and "ps \<noteq> []" and "list_all plain_part ps"
  shows "locate fs (target @ ps) = Inr (T @ ps)"
proof -
  have d: "real_dirs fs T (butlast ps)" by (rule restoring_dir [OF assms(1,2)])
  have p: "list_all plain_part (butlast ps)" "plain_part (last ps)" using assms(3,4) by (auto simp: list_all_iff dest: in_set_butlastD)
  have "walk fs MAX_LINKS [] (target @ butlast ps) = Inr (T @ butlast ps)"
    by (rule walk_append [OF restoring_walk [OF assms(1)] d p(1)])
  moreover have "is_udir (fmlookup (uf_nodes fs) (T @ butlast ps))" using d by (simp add: real_dirs_def)
  ultimately show ?thesis using assms(3) p(2) by (simp add: locate_def butlast_append plain_part_def)
qed

lemma restoring_canonical:
  assumes "restoring target T fs0 D fs" and "d \<in> D" and "list_all plain_part d"
  shows "canonicalize fs (target @ d) = Inr (T @ d)"
proof -
  have d: "real_dirs fs T d" by (rule restoring_dir [OF assms(1,2)])
  then have "is_udir (fmlookup (uf_nodes fs) (T @ d))" by (simp add: real_dirs_def)
  then show ?thesis using walk_append [OF restoring_walk [OF assms(1)] d assms(3)]
    by (auto simp: canonicalize_def node_at_def elim!: is_udirE)
qed

section \<open>Changes beneath the target\<close>

lemma restoring_mono: "restoring target T fs0 D fs \<Longrightarrow> [] \<in> D' \<Longrightarrow> D' \<subseteq> D \<Longrightarrow> restoring target T fs0 D' fs"
  by (auto simp: restoring_def)

text \<open>A new value for one entry: a directory stays one, and a file is a new one or one of the target.\<close>

lemma restoring_set_node:
  assumes r: "restoring target T fs0 D fs" and ps: "ps \<noteq> []" and d: "is_udir (Some n) \<or> (\<forall>d\<in>D. \<not> prefix ps d)"
    and i: "\<And>i. n = UFile i \<Longrightarrow> i \<in> inodes_in T fs0 \<or> uf_next fs0 \<le> i"
  shows "restoring target T fs0 D (set_node (T @ ps) n fs)"
proof -
  have "strict_prefix T (T @ ps)" using ps by (simp add: strict_prefix_def)
  then have "kept T fs0 (set_node (T @ ps) n fs)"
    using r i unfolding restoring_def kept_def kept_outside_def inodes_in_def set_node_def by (auto split: if_splits)
  moreover have "real_dirs (set_node (T @ ps) n fs) T dd" if "dd \<in> D" for dd
    using restoring_dir [OF r that] d that unfolding real_dirs_def set_node_def by auto
  ultimately show ?thesis using r by (simp add: restoring_def)
qed

lemma restoring_set_inode:
  assumes r: "restoring target T fs0 D fs" and i: "i \<in> inodes_in T fs0 \<or> uf_next fs0 \<le> i"
  shows "restoring target T fs0 D (set_inode i nd fs)"
  using r i unfolding restoring_def kept_def kept_outside_def inodes_in_def real_dirs_def set_inode_def by auto

lemma restoring_inode:
  assumes "restoring target T fs0 D fs" and "fmlookup (uf_nodes fs) (T @ ps) = Some (UFile i)" and "ps \<noteq> []"
  shows "i \<in> inodes_in T fs0 \<or> uf_next fs0 \<le> i"
proof -
  have "strict_prefix T (T @ ps)" using assms(3) by (simp add: strict_prefix_def)
  then have "i \<in> inodes_in T fs" using assms(2) by (auto simp: inodes_in_def)
  then show ?thesis using assms(1) by (auto simp: restoring_def kept_def)
qed

lemma restoring_next:
  assumes "restoring target T fs0 D fs"
  shows "restoring target T fs0 D (fs\<lparr>uf_next := Suc (uf_next fs)\<rparr>)" and "uf_next fs0 \<le> uf_next fs"
  using assms unfolding restoring_def kept_def kept_outside_def inodes_in_def real_dirs_def by auto

lemma restoring_remove:
  assumes r: "restoring target T fs0 D fs" and "ps \<noteq> []" and "\<forall>d\<in>D. \<not> prefix ps d"
  shows "restoring target T fs0 D (fs\<lparr>uf_nodes := fmdrop (T @ ps) (uf_nodes fs)\<rparr>)"
    and "restoring target T fs0 D (fs\<lparr>uf_nodes := fmfilter (\<lambda>p. \<not> prefix (T @ ps) p) (uf_nodes fs)\<rparr>)"
proof -
  have sp: "strict_prefix T (T @ ps)" using assms(2) by (simp add: strict_prefix_def)
  then have "strict_prefix T p" if "prefix (T @ ps) p" for p using that by (metis prefix_order.less_le_trans)
  then have "kept T fs0 (fs\<lparr>uf_nodes := fmdrop (T @ ps) (uf_nodes fs)\<rparr>)"
    "kept T fs0 (fs\<lparr>uf_nodes := fmfilter (\<lambda>p. \<not> prefix (T @ ps) p) (uf_nodes fs)\<rparr>)"
    using r sp unfolding restoring_def kept_def kept_outside_def inodes_in_def by (auto split: if_splits)
  moreover have "real_dirs (fs\<lparr>uf_nodes := fmdrop (T @ ps) (uf_nodes fs)\<rparr>) T dd \<and>
      real_dirs (fs\<lparr>uf_nodes := fmfilter (\<lambda>p. \<not> prefix (T @ ps) p) (uf_nodes fs)\<rparr>) T dd" if "dd \<in> D" for dd
    using restoring_dir [OF r that] assms(3) that unfolding real_dirs_def by (auto dest: prefix_order.trans)
  ultimately show "restoring target T fs0 D (fs\<lparr>uf_nodes := fmdrop (T @ ps) (uf_nodes fs)\<rparr>)"
    "restoring target T fs0 D (fs\<lparr>uf_nodes := fmfilter (\<lambda>p. \<not> prefix (T @ ps) p) (uf_nodes fs)\<rparr>)"
    using r by (simp_all add: restoring_def)
qed

text \<open>What is no directory is above none of those made.\<close>

lemma restoring_no_dir:
  assumes "restoring target T fs0 D fs" and "\<not> is_udir (fmlookup (uf_nodes fs) (T @ ps))"
  shows "\<forall>d\<in>D. \<not> prefix ps d"
  using assms by (auto simp: restoring_def real_dirs_def)

section \<open>Calls on the file system\<close>

text \<open>The path of an entry whose directory was made.\<close>

definition reachable_entry :: "upath set \<Rightarrow> upath \<Rightarrow> bool" where
  "reachable_entry D ps \<longleftrightarrow> butlast ps \<in> D \<and> ps \<noteq> [] \<and> list_all plain_part ps"

lemma entry_locate: "restoring target T fs0 D fs \<Longrightarrow> reachable_entry D ps \<Longrightarrow> locate fs (target @ ps) = Inr (T @ ps)"
  by (rule restoring_locate) (auto simp: reachable_entry_def)

lemma entry_metadata: "restoring target T fs0 D fs \<Longrightarrow> reachable_entry D ps \<Longrightarrow>
    symlink_metadata fs (target @ ps) = res_of IoNotFound (fmlookup (uf_nodes fs) (T @ ps))"
  by (simp add: symlink_metadata_def entry_locate node_at_def)

lemma entry_place:
  assumes "restoring target T fs0 D fs" and "reachable_entry D ps"
  shows "place_for (target @ ps) fs = (if uf_denied fs (T @ ps) then Inl (IoOther ''denied'') else Inr (T @ ps), fs)"
  by (simp add: place_for_def entry_locate [OF assms])

lemma new_entry_run:
  assumes "restoring target T fs0 D fs" and "reachable_entry D ps"
  shows "new_entry (target @ ps) f fs = (if uf_denied fs (T @ ps) then (Inl (IoOther ''denied''), fs)
    else if fmlookup (uf_nodes fs) (T @ ps) = None then (Inr (), f (T @ ps) fs) else (Inl IoExists, fs))"
  by (auto simp: new_entry_def act_bind_run entry_place [OF assms] split: option.splits)

lemma restoring_new_entry:
  assumes r: "restoring target T fs0 D fs" and e: "reachable_entry D ps"
    and i: "\<And>i. n = UFile i \<Longrightarrow> i \<in> inodes_in T fs0 \<or> uf_next fs0 \<le> i"
  shows "restoring target T fs0 D (snd (new_entry (target @ ps) (\<lambda>q. set_node q n) fs))"
  using restoring_set_node [OF r _ _ i] restoring_no_dir [OF r, of ps] r e
  by (auto simp: new_entry_run [OF r e] reachable_entry_def)

lemma restoring_create_dir:
  assumes r: "restoring target T fs0 D fs" and e: "reachable_entry D ps" and c: "create_dir (target @ ps) fs = (res, fs')"
  shows "restoring target T fs0 D fs' \<and> (res = Inr () \<longrightarrow> is_udir (fmlookup (uf_nodes fs') (T @ ps)))"
proof -
  have "restoring target T fs0 D (snd (create_dir (target @ ps) fs))"
    unfolding create_dir_def by (rule restoring_new_entry [OF r e]) simp
  moreover have "res = Inr () \<longrightarrow> is_udir (fmlookup (uf_nodes fs') (T @ ps))"
    using c by (auto simp: create_dir_def new_entry_run [OF r e] set_node_def split: if_splits)
  ultimately show ?thesis using c by simp
qed

lemma restoring_symlink:
  assumes "restoring target T fs0 D fs" and "reachable_entry D ps"
  shows "restoring target T fs0 D (snd (symlink t (target @ ps) fs))"
  unfolding symlink_def by (rule restoring_new_entry [OF assms]) simp

lemma restoring_hard_link:
  assumes r: "restoring target T fs0 D fs" and q: "reachable_entry D qs" and e: "reachable_entry D ps"
  shows "restoring target T fs0 D (snd (hard_link (target @ qs) (target @ ps) fs))"
proof (cases "fmlookup (uf_nodes fs) (T @ qs)")
  case None
  then show ?thesis using r by (simp add: hard_link_def entry_metadata [OF r q])
next
  case (Some n)
  have "i \<in> inodes_in T fs0 \<or> uf_next fs0 \<le> i" if "n = UFile i" for i
    using restoring_inode [OF r] Some that q by (auto simp: reachable_entry_def)
  from restoring_new_entry [OF r e this] show ?thesis using r Some
    by (cases n) (auto simp: hard_link_def entry_metadata [OF r q])
qed

lemma restoring_remove_file:
  assumes r: "restoring target T fs0 D fs" and e: "reachable_entry D ps"
  shows "restoring target T fs0 D (snd (remove_file (target @ ps) fs))"
proof -
  have "restoring target T fs0 D (fs\<lparr>uf_nodes := fmdrop (T @ ps) (uf_nodes fs)\<rparr>)"
    if "\<not> is_udir (fmlookup (uf_nodes fs) (T @ ps))"
    using restoring_remove(1) [OF r _ restoring_no_dir [OF r that]] e by (simp add: reachable_entry_def)
  then show ?thesis using r
    by (auto simp: remove_file_def act_bind_run entry_place [OF r e] split: option.splits unode.splits)
qed

lemma restoring_remove_dir_all:
  assumes r: "restoring target T fs0 D fs" and e: "reachable_entry D ps" and "\<forall>d\<in>D. \<not> prefix ps d"
  shows "restoring target T fs0 D (snd (remove_dir_all (target @ ps) fs))"
  using restoring_remove(2) [OF r _ assms(3)] r e
  by (auto simp: remove_dir_all_def act_bind_run entry_place [OF r e] reachable_entry_def split: option.splits unode.splits)

lemma restoring_add_file:
  assumes r: "restoring target T fs0 D fs" and e: "reachable_entry D ps" and n: "fmlookup (uf_nodes fs) (T @ ps) = None"
  shows "restoring target T fs0 D (add_file (T @ ps) nd fs)"
proof -
  have i: "restoring target T fs0 D (set_inode (uf_next fs) nd fs)"
    by (rule restoring_set_inode [OF r]) (use restoring_next(2) [OF r] in simp)
  have "restoring target T fs0 D (set_node (T @ ps) (UFile (uf_next fs)) (set_inode (uf_next fs) nd fs))"
    using restoring_no_dir [OF r, of ps] n e restoring_next(2) [OF r]
    by (intro restoring_set_node [OF i]) (auto simp: reachable_entry_def)
  from restoring_next(1) [OF this] show ?thesis by (simp add: add_file_def set_node_def set_inode_def)
qed

lemma restoring_open_write:
  assumes r: "restoring target T fs0 D fs" and e: "reachable_entry D ps" and o: "open_write how mode (target @ ps) fs = (res, fs')"
  shows "restoring target T fs0 D fs' \<and> (\<forall>i. res = Inr i \<longrightarrow> i \<in> inodes_in T fs0 \<or> uf_next fs0 \<le> i)"
proof (cases "fmlookup (uf_nodes fs) (T @ ps)")
  case None
  with o r restoring_add_file [OF r e None] restoring_next(2) [OF r] show ?thesis
    by (auto simp: open_write_def act_bind_run entry_place [OF r e] split: if_splits)
next
  case (Some n)
  have "i \<in> inodes_in T fs0 \<or> uf_next fs0 \<le> i" if "n = UFile i" for i
    using restoring_inode [OF r] Some that e by (auto simp: reachable_entry_def)
  with o r Some restoring_set_inode [OF r] show ?thesis
    by (auto simp: open_write_def act_bind_run entry_place [OF r e] split: if_splits unode.splits option.splits)
qed

lemma restoring_file_changes:
  assumes r: "restoring target T fs0 D fs" and i: "i \<in> inodes_in T fs0 \<or> uf_next fs0 \<le> i"
  shows "restoring target T fs0 D (snd (set_len i n fs))" and "restoring target T fs0 D (snd (write_all_at i b offset fs))"
  using r restoring_set_inode [OF r i] by (auto simp: set_len_def write_all_at_def split: option.splits)

lemma restoring_set_attr:
  assumes r: "restoring target T fs0 D fs" and e: "reachable_entry D ps"
  shows "restoring target T fs0 D (snd (set_attr (target @ ps) f fs))"
proof -
  have "restoring target T fs0 D (set_node (T @ ps) (UDir a) fs)" for a
    using e by (intro restoring_set_node [OF r]) (auto simp: reachable_entry_def)
  moreover have "restoring target T fs0 D (set_inode i nd fs)" if "fmlookup (uf_nodes fs) (T @ ps) = Some (UFile i)" for i nd
    using restoring_set_inode [OF r restoring_inode [OF r that]] e by (auto simp: reachable_entry_def)
  ultimately show ?thesis using r
    by (auto simp: set_attr_def act_bind_run entry_place [OF r e] split: option.splits unode.splits)
qed

section \<open>The restorer's operations\<close>

text \<open>The invariant of a restore whose directories \<open>D\<close> were made.\<close>

definition inside :: "upath \<Rightarrow> upath \<Rightarrow> unix_fs \<Rightarrow> upath set \<Rightarrow> xworld \<Rightarrow> bool" where
  "inside target T fs0 D x \<longleftrightarrow> restoring target T fs0 D (xw_fs x)"

lemma inside_updates [simp]:
  "inside target T fs0 D (x\<lparr>xw_run := v\<rparr>) = inside target T fs0 D x"
  "inside target T fs0 D (x\<lparr>xw_stats := s\<rparr>) = inside target T fs0 D x"
  "inside target T fs0 D (x\<lparr>xw_fs := fs\<rparr>) = restoring target T fs0 D fs"
  by (simp_all add: inside_def)

lemma on_fs_run: "on_fs e m x = (case m (xw_fs x) of (r, fs) \<Rightarrow> (case r of Inl err \<Rightarrow> Inl (e err) | Inr y \<Rightarrow> Inr y, x\<lparr>xw_fs := fs\<rparr>))"
  by (simp add: on_fs_def split: prod.splits sum.splits)

lemma inside_on_fs:
  "(\<And>fs. restoring target T fs0 D fs \<Longrightarrow> restoring target T fs0 D (snd (m fs))) \<Longrightarrow> act_keeps (inside target T fs0 D) (on_fs e m)"
  by (intro act_keepsI) (simp add: on_fs_run inside_def split: prod.splits, metis snd_conv)

lemma inside_look: "act_keeps (inside target T fs0 D) (on_fs e (look f))"
  by (rule inside_on_fs) (simp add: look_def)

lemma inside_on_run: "act_keeps (inside target T fs0 D) (on_run m)"
  by (rule act_keepsI) (simp add: on_run_def split: prod.splits)

lemma inside_add_stats: "act_keeps (inside target T fs0 D) (add_stats f)"
  unfolding add_stats_def by (rule keeps_mod) simp

lemma inside_check: "act_keeps (inside target T fs0 D) (check_contained r dir)"
  unfolding check_contained_def by (intro keeps_intros inside_look)

lemmas inside_intros = keeps_intros inside_on_run inside_add_stats inside_check inside_look inside_on_fs

text \<open>A path that is no directory of the plan may be cleared, whatever is there.\<close>

lemma inside_clear:
  assumes e: "reachable_entry D ps" and n: "\<forall>d\<in>D. \<not> prefix ps d"
  shows "act_keeps (inside target T fs0 D) (clear r (target @ ps))"
proof (rule act_keepsI)
  fix x assume "inside target T fs0 D x"
  moreover have "act_keeps (inside target T fs0 D) (on_fs io_failed (remove_dir_all (target @ ps)))"
    by (intro inside_on_fs restoring_remove_dir_all e n)
  moreover have "act_keeps (inside target T fs0 D) (on_fs io_failed (remove_file (target @ ps)))"
    by (intro inside_on_fs restoring_remove_file e)
  ultimately show "inside target T fs0 D (snd (clear r (target @ ps) x))"
    by (auto simp: clear_def act_keeps_def split: sum.splits io_error.splits)
qed

lemma inside_symlink:
  assumes "reachable_entry D ps" and "\<forall>d\<in>D. \<not> prefix ps d" and "rt_path r rel = target @ ps"
  shows "act_keeps (inside target T fs0 D) (make_symlink r rel nd)"
  unfolding make_symlink_def Let_def assms(3)
  by (intro inside_intros inside_clear restoring_symlink assms)

lemma inside_open:
  assumes "reachable_entry D ps" and "\<And>i. i \<in> inodes_in T fs0 \<or> uf_next fs0 \<le> i \<Longrightarrow> act_keeps (inside target T fs0 D) (f i)"
  shows "act_keeps (inside target T fs0 D) (act_bind (on_fs e (open_write how mode (target @ ps))) f)"
proof (rule act_keepsI)
  fix x assume i: "inside target T fs0 D x"
  obtain res fs where o: "open_write how mode (target @ ps) (xw_fs x) = (res, fs)" by (rule prod.exhaust)
  from restoring_open_write [OF i [unfolded inside_def] assms(1) o] assms(2)
  show "inside target T fs0 D (snd (act_bind (on_fs e (open_write how mode (target @ ps))) f x))"
    by (auto simp: act_bind_run on_fs_run o act_keeps_def split: sum.splits)
qed

lemma inside_create_file:
  assumes "reachable_entry D ps" and "\<forall>d\<in>D. \<not> prefix ps d"
  shows "act_keeps (inside target T fs0 D) (create_file r (target @ ps) sz)"
proof -
  have "act_keeps (inside target T fs0 D) (\<lambda>x. case symlink_metadata (xw_fs x) (target @ ps) of
      Inr (UFile _) \<Rightarrow> (Inr (), x) | Inr _ \<Rightarrow> clear r (target @ ps) x | Inl _ \<Rightarrow> (Inr (), x))"
    using inside_clear [OF assms] unfolding act_keeps_def by (auto split: sum.splits unode.splits)
  then show ?thesis unfolding create_file_def
    by (intro inside_intros inside_open restoring_file_changes assms)
qed

lemma inside_write_at:
  assumes "reachable_entry D ps"
  shows "act_keeps (inside target T fs0 D) (write_at (target @ ps) data offset)"
  unfolding write_at_def by (intro inside_open inside_on_fs restoring_file_changes assms)

lemma inside_metadata:
  assumes "reachable_entry D ps"
  shows "act_keeps (inside target T fs0 D) (apply_metadata (target @ ps) nd)"
  unfolding apply_metadata_def by (intro inside_intros restoring_set_attr assms)

lemma inside_link:
  assumes "reachable_entry D qs" "reachable_entry D ps" and "\<forall>d\<in>D. \<not> prefix ps d"
  shows "act_keeps (inside target T fs0 D) (make_link r (target @ qs, target @ ps))"
  unfolding make_link_def prod.case by (intro inside_intros inside_clear restoring_hard_link assms)

text \<open>Making a directory adds it to those made.\<close>

lemma inside_make_dir:
  assumes x: "inside target T fs0 D x" and e: "reachable_entry D ps" and p: "rt_path r rel = target @ ps"
    and m: "make_dir r rel x = (res, x')"
  shows "inside target T fs0 D x' \<and> (res = Inr () \<longrightarrow> inside target T fs0 (insert ps D) x')"
proof -
  define first where "first = (\<lambda>x. case symlink_metadata (xw_fs x) (target @ ps) of
         Inr n \<Rightarrow> if is_udir (Some n) then (Inr (), x)
           else act_bind (clear r (target @ ps)) (\<lambda>_. on_fs io_failed (create_dir (target @ ps))) x
       | Inl IoNotFound \<Rightarrow> on_fs io_failed (create_dir (target @ ps)) x
       | Inl e \<Rightarrow> (Inl (io_failed e), x))"
  have made: "inside target T fs0 D y' \<and> (q = Inr () \<longrightarrow> is_udir (fmlookup (uf_nodes (xw_fs y')) (T @ ps)))"
    if "inside target T fs0 D y" "on_fs io_failed (create_dir (target @ ps)) y = (q, y')" for y q y'
    using restoring_create_dir [OF that(1) [unfolded inside_def] e] that(2)
    by (fastforce simp: on_fs_run inside_def split: prod.splits sum.splits)
  have first: "inside target T fs0 D y \<and> (q = Inr () \<longrightarrow> is_udir (fmlookup (uf_nodes (xw_fs y)) (T @ ps)))" if f: "first x = (q, y)" for q y
  proof (cases "fmlookup (uf_nodes (xw_fs x)) (T @ ps)")
    case None
    with f made [OF x] show ?thesis by (simp add: first_def entry_metadata [OF x [unfolded inside_def] e])
  next
    case (Some n)
    show ?thesis
    proof (cases "is_udir (Some n)")
      case True
      with f x Some show ?thesis by (simp add: first_def entry_metadata [OF x [unfolded inside_def] e])
    next
      case False
      then have "\<forall>d\<in>D. \<not> prefix ps d" using restoring_no_dir [OF x [unfolded inside_def], of ps] Some by simp
      note c = inside_clear [OF e this, of target T fs0 r]
      from f Some False have "act_bind (clear r (target @ ps)) (\<lambda>_. on_fs io_failed (create_dir (target @ ps))) x = (q, y)"
        by (simp add: first_def entry_metadata [OF x [unfolded inside_def] e])
      then show ?thesis using act_keepsD [OF c x] made
        by (auto simp: act_bind_run split: prod.splits sum.splits)
    qed
  qed
  define rest :: "unit xact" where "rest = act_bind (check_contained r (target @ ps)) (\<lambda>_. add_stats (\<lambda>s. s\<lparr>rs_dirs := rs_dirs s + 1\<rparr>))"
  have made_dir: "make_dir r rel = act_bind first (\<lambda>_. rest)"
    by (simp add: make_dir_def Let_def p first_def rest_def)
  have rest: "act_keeps (inside target T fs0 D) rest" for D
    unfolding rest_def by (intro inside_intros)
  have grow: "inside target T fs0 (insert ps D) y" if y: "inside target T fs0 D y" "is_udir (fmlookup (uf_nodes (xw_fs y)) (T @ ps))" for y
  proof -
    have l: "butlast ps @ [last ps] = ps" using e by (simp add: reachable_entry_def)
    have "real_dirs (xw_fs y) T (butlast ps)" using y(1) e by (simp add: inside_def restoring_def reachable_entry_def)
    then have "real_dirs (xw_fs y) T ps" using y(2) real_dirs_snoc [of "xw_fs y" T "butlast ps" "last ps"] by (simp add: l)
    then show ?thesis using y(1) by (simp add: inside_def restoring_def)
  qed
  obtain q y where f: "first x = (q, y)" by (rule prod.exhaust)
  show ?thesis
  proof (cases q)
    case (Inl err)
    with m f first [OF f] show ?thesis by (auto simp: made_dir)
  next
    case (Inr u)
    with m f have "rest y = (res, x')" by (simp add: made_dir)
    moreover have "inside target T fs0 D y" "inside target T fs0 (insert ps D) y" using first [OF f] grow Inr by simp_all
    ultimately show ?thesis using act_keepsD [OF rest] by blast
  qed
qed

section \<open>The whole restore\<close>

lemma inside_make_dirs:
  assumes "inside target T fs0 D x" and "dirs_ordered seen Ds" and "seen \<subseteq> D" and "\<forall>p\<in>set Ds. list_all plain_part p \<and> p \<noteq> []"
    and "map fst ds = map joined Ds" and "rt_target r = target" and "[] \<in> D"
    and "act_each (\<lambda>e. make_dir r (fst e)) ds x = (res, x')"
  shows "inside target T fs0 D x' \<and> (res = Inr () \<longrightarrow> inside target T fs0 (D \<union> set Ds) x')"
  using assms
proof (induction ds arbitrary: Ds D seen x)
  case (Cons e ds)
  from Cons.prems(5) obtain ps Ds' where Ds: "Ds = ps # Ds'" "fst e = joined ps" "map fst ds = map joined Ds'" by (cases Ds) auto
  have r: "reachable_entry D ps" using Cons.prems(2,3,4,7) by (auto simp: Ds reachable_entry_def)
  have p: "rt_path r (joined ps) = target @ ps" using Cons.prems(4,6) by (simp add: Ds rt_path_def)
  obtain q y where y: "make_dir r (joined ps) x = (q, y)" by (rule prod.exhaust)
  note step = inside_make_dir [OF Cons.prems(1) r p y]
  show ?case
  proof (cases q)
    case (Inl err)
    with step y Cons.prems(8) Ds(2) show ?thesis by auto
  next
    case (Inr u)
    with step have i: "inside target T fs0 (insert ps D) y" by simp
    have "act_each (\<lambda>e. make_dir r (fst e)) ds y = (res, x')"
      using Cons.prems(8) y Inr Ds(2) by simp
    then have "inside target T fs0 (insert ps D) x' \<and> (res = Inr () \<longrightarrow> inside target T fs0 (insert ps D \<union> set Ds') x')"
      using Cons.prems(2-4,6,7) Ds(1) by (intro Cons.IH [OF i, of "insert ps seen" Ds']) (auto simp: Ds(3))
    then show ?thesis using restoring_mono [of target T fs0 "insert ps D" "xw_fs x'" D] Cons.prems(7) by (auto simp: Ds(1) inside_def)
  qed
qed auto

lemma fmupd_values: "fmran' (fmupd k v m) \<subseteq> insert v (fmran' m)"
  by (auto elim!: fmran'E split: if_splits intro: fmran'I)

lemma insert_moves:
  "A \<subseteq> B \<union> {p} \<union> X \<Longrightarrow> A \<subseteq> B \<union> insert p X"
  "A \<subseteq> B \<union> X \<Longrightarrow> A \<subseteq> B \<union> insert p X"
  "A \<subseteq> B \<union> M' \<union> X \<Longrightarrow> M' \<subseteq> insert p M \<Longrightarrow> A \<subseteq> B \<union> M \<union> insert p X"
  "A \<subseteq> B \<union> {e} \<union> M \<union> X \<Longrightarrow> e \<in> M \<Longrightarrow> A \<subseteq> B \<union> M \<union> insert p X"
  by blast+

lemma split_links_sub:
  "split_links r fs seen tw ls = (tw', ls') \<Longrightarrow>
    fst ` set tw' \<subseteq> fst ` set tw \<union> rt_path r ` fst ` set fs \<and> snd ` set ls' \<subseteq> snd ` set ls \<union> rt_path r ` fst ` set fs \<and>
    fst ` set ls' \<subseteq> fst ` set ls \<union> fmran' seen \<union> rt_path r ` fst ` set fs"
proof (induction r fs seen tw ls rule: split_links.induct)
  case (2 r rel nd fs seen tw ls)
  define k where "k = (nd_device nd, nd_inode nd)"
  define p where "p = rt_path r rel"
  define X where "X = rt_path r ` fst ` set fs"
  note IH = "2.IH" [of p, folded k_def X_def, OF p_def]
  have X': "rt_path r ` fst ` set ((rel, nd) # fs) = insert p X" by (simp add: p_def X_def)
  show ?case
  proof (cases "is_hardlink nd")
    case False
    then have "split_links r fs seen (tw @ [(p, nd)]) ls = (tw', ls')" using "2.prems" by (simp add: Let_def p_def)
    from IH(3) [OF False this] show ?thesis unfolding X' unfolding set_append image_Un list.set image_insert fst_conv image_empty
      using insert_moves(1-2) by metis
  next
    case True
    show ?thesis
    proof (cases "fmlookup seen k")
      case None
      then have "split_links r fs (fmupd k p seen) (tw @ [(p, nd)]) ls = (tw', ls')"
        using "2.prems" True by (simp add: Let_def p_def k_def)
      from IH(1) [OF True None this]
      show ?thesis unfolding X' unfolding set_append image_Un list.set image_insert fst_conv image_empty
        using insert_moves(1-2) insert_moves(3) [OF _ fmupd_values] by metis
    next
      case (Some ex)
      then have "split_links r fs seen tw (ls @ [(ex, p)]) = (tw', ls')" using "2.prems" True by (simp add: Let_def p_def k_def)
      from IH(2) [OF True Some this] 
      show ?thesis unfolding X' unfolding set_append image_Un list.set image_insert fst_conv snd_conv image_empty
        using insert_moves(1-2) insert_moves(4) [OF _ fmran'I [OF Some]] by metis
    qed
  qed
qed auto

text \<open>The paths at which files are written, each in a directory that was made and none a directory itself.\<close>

definition file_paths :: "upath \<Rightarrow> upath set \<Rightarrow> upath set \<Rightarrow> bool" where
  "file_paths target D P \<longleftrightarrow> (\<forall>p\<in>P. \<exists>ps. p = target @ ps \<and> reachable_entry D ps \<and> (\<forall>d\<in>D. \<not> prefix ps d))"

lemma file_pathsE:
  assumes "file_paths target D P" and "p \<in> P"
  obtains ps where "p = target @ ps" "reachable_entry D ps" "\<forall>d\<in>D. \<not> prefix ps d"
  using assms unfolding file_paths_def by blast

lemma inside_each: "(\<And>a. a \<in> set as \<Longrightarrow> act_keeps P (f a)) \<Longrightarrow> act_keeps P (act_each f as)"
  by (induction as) (auto intro!: keeps_intros)

lemma inside_destinations:
  assumes "file_paths target D (set paths)"
  shows "act_keeps (inside target T fs0 D) (write_destinations paths data ds)"
proof (induction ds)
  case (Cons e ds)
  obtain f offset where e: "e = (f, offset)" by (rule prod.exhaust)
  show ?case
  proof (cases "length paths \<le> f")
    case False
    then have "paths ! f \<in> set paths" by simp
    from file_pathsE [OF assms this] obtain ps where "paths ! f = target @ ps" "reachable_entry D ps" by metis
    with False Cons inside_write_at show ?thesis by (auto simp: e intro!: keeps_intros)
  qed (simp add: e act_keeps_def)
qed (simp add: act_keeps_def)

lemma inside_read_pack:
  assumes "file_paths target D (set paths)"
  shows "act_keeps (inside target T fs0 D) (read_pack B paths p)"
proof -
  have "act_keeps (inside target T fs0 D) (write_read B ks paths start data rd)" for ks start data rd
    unfolding write_read_def Let_def by (intro inside_intros inside_destinations assms)
  then have "act_keeps (inside target T fs0 D) (act_each (\<lambda>g. act_bind (on_run (m g)) (\<lambda>data. act_each (write_read B ks paths (group_start g) data) g)) gs)"
    for m :: "blob_read list \<Rightarrow> bytes ract" and ks gs
    by (intro inside_intros)
  then show ?thesis unfolding act_keeps_def read_pack_def Let_def by (auto split: prod.splits)
qed

lemma inside_restore_files:
  assumes "file_paths target D (rt_path r ` fst ` set files)"
  shows "act_keeps (inside target T fs0 D) (restore_files B r arrange files)"
proof -
  obtain tw ls where sp: "split_links r files fmempty [] [] = (tw, ls)" by (rule prod.exhaust)
  have sub: "fst ` set tw \<subseteq> rt_path r ` fst ` set files" "snd ` set ls \<subseteq> rt_path r ` fst ` set files" "fst ` set ls \<subseteq> rt_path r ` fst ` set files"
    using split_links_sub [OF sp] by (simp_all add: fmran'_alt_def)
  have fp: "file_paths target D (set (map fst tw))" using assms sub(1) unfolding file_paths_def set_map by (meson subsetD)
  have path: "act_keeps (inside target T fs0 D) (f p)" if "p \<in> rt_path r ` fst ` set files"
      "\<And>ps. reachable_entry D ps \<Longrightarrow> \<forall>d\<in>D. \<not> prefix ps d \<Longrightarrow> act_keeps (inside target T fs0 D) (f (target @ ps))" for p and f :: "upath \<Rightarrow> unit xact"
    using file_pathsE [OF assms that(1)] that(2) by metis
  have c: "act_keeps (inside target T fs0 D) (case e of (p, nd) \<Rightarrow> create_file r p (nd_size nd))" if "e \<in> set tw" for e
  proof (cases e)
    case (Pair p nd)
    then have "p \<in> rt_path r ` fst ` set files" using that sub(1) by (metis fst_conv image_eqI subsetD)
    from path [OF this, of "\<lambda>p. create_file r p (nd_size nd)"] inside_create_file show ?thesis by (simp add: Pair)
  qed
  have f: "act_keeps (inside target T fs0 D) (finish_file e)" if "e \<in> set tw" for e
  proof (cases e)
    case (Pair p nd)
    then have "p \<in> rt_path r ` fst ` set files" using that sub(1) by (metis fst_conv image_eqI subsetD)
    from path [OF this, of "\<lambda>p. apply_metadata p nd"] inside_metadata show ?thesis
      by (simp add: Pair finish_file_def inside_intros)
  qed
  have l: "act_keeps (inside target T fs0 D) (make_link r e)" if "e \<in> set ls" for e
  proof -
    obtain a b where e: "e = (a, b)" by (rule prod.exhaust)
    have "a \<in> rt_path r ` fst ` set files" "b \<in> rt_path r ` fst ` set files" using that sub(2,3) unfolding e
      by (metis fst_conv image_eqI subsetD, metis snd_conv image_eqI subsetD)
    from file_pathsE [OF assms this(1)] file_pathsE [OF assms this(2)] inside_link show ?thesis unfolding e by metis
  qed
  have pr: "act_keeps (inside target T fs0 D) (\<lambda>x. (g x, x))" for g :: "xworld \<Rightarrow> 'a bresult" by (rule act_keepsI) simp
  show ?thesis unfolding restore_files_def sp prod.case
    by (intro keeps_intros inside_each c f l pr inside_read_pack fp)
qed

lemma inside_run_plan:
  assumes "inside target T fs0 {[]} x" and "plan_ok plan D S F" and "rt_target r = target" and "run_plan B r arrange plan x = (res, x')"
  shows "inside target T fs0 {[]} x'"
proof -
  let ?D = "insert [] (set D)"
  note pl = assms(2) [unfolded plan_ok_def]
  have dirs: "(\<lambda>(rel, _, _). make_dir r rel) = (\<lambda>e. make_dir r (fst e))" by (auto simp: fun_eq_iff)
  have each: "inside target T fs0 {[]} y \<and> (q = Inr () \<longrightarrow> inside target T fs0 ({[]} \<union> set D) y)"
    if "act_each (\<lambda>(rel, _, _). make_dir r rel) (pl_dirs plan) x = (q, y)" for q y
    using that pl unfolding dirs by (intro inside_make_dirs [OF assms(1), of "{}" D "pl_dirs plan"]) (auto simp: assms(3))
  define after :: "unit xact" where "after = act_bind (act_each (\<lambda>(rel, nd). make_symlink r rel nd) (pl_symlinks plan)) (\<lambda>_.
     act_bind (restore_files B r arrange (pl_files plan)) (\<lambda>_.
     act_each (\<lambda>(rel, nd, _). apply_metadata (rt_path r rel) nd) (rev (pl_dirs plan))))"
  have run: "run_plan B r arrange plan = act_bind (act_each (\<lambda>(rel, _, _). make_dir r rel) (pl_dirs plan)) (\<lambda>_. after)"
    by (simp add: run_plan_def after_def)
  have path: "rt_path r (joined p) = target @ p" if "p \<in> set (D @ S @ F)" for p
    using pl that by (simp add: rt_path_def assms(3))
  have entry: "reachable_entry ?D p \<and> (\<forall>d\<in>?D. \<not> prefix p d)" if "p \<in> set (S @ F)" for p
  proof -
    have n: "p \<noteq> []" "list_all plain_part p" "butlast p \<in> ?D" "p \<notin> set D" using pl that by auto
    have "\<not> prefix p d" if "d \<in> set D" for d
    proof
      assume "prefix p d"
      from dirs_closed [OF _ _ _ this n(1), of "{}" D] that pl have "p \<in> set D" by simp
      with n(4) show False by simp
    qed
    with n show ?thesis by (auto simp: reachable_entry_def)
  qed
  have links: "act_keeps (inside target T fs0 ?D) (case e of (rel, nd) \<Rightarrow> make_symlink r rel nd)" if "e \<in> set (pl_symlinks plan)" for e
  proof -
    have "fst e \<in> joined ` set S" using that pl by (metis image_eqI list.set_map)
    then obtain p where p: "fst e = joined p" "p \<in> set S" by auto
    then show ?thesis using inside_symlink [of ?D p r "joined p"] entry [of p] path [of p] by (cases e) simp
  qed
  have files: "file_paths target ?D (rt_path r ` fst ` set (pl_files plan))"
  proof -
    have "fst ` set (pl_files plan) = joined ` set F" using pl by (metis list.set_map)
    then show ?thesis using entry path unfolding file_paths_def by auto
  qed
  have metas: "act_keeps (inside target T fs0 ?D) (case e of (rel, nd, _) \<Rightarrow> apply_metadata (rt_path r rel) nd)" if "e \<in> set (rev (pl_dirs plan))" for e
  proof -
    have "fst e \<in> joined ` set D" using that pl by (metis image_eqI list.set_map set_rev)
    then obtain p where p: "fst e = joined p" "p \<in> set D" by auto
    have "list_all plain_part p \<and> p \<noteq> []" using pl p(2) by simp
    moreover have "butlast p \<in> ?D"
    proof (cases "butlast p = []")
      case False
      from dirs_closed [of "{}" D p "butlast p"] pl p(2) False show ?thesis by (simp add: prefixeq_butlast)
    qed simp
    ultimately have "reachable_entry ?D p" by (simp add: reachable_entry_def)
    then show ?thesis using inside_metadata path [of p] p by (cases e) simp
  qed
  have after: "act_keeps (inside target T fs0 ?D) after"
    unfolding after_def by (intro keeps_intros inside_each links metas inside_restore_files files)
  obtain q y where y: "act_each (\<lambda>(rel, _, _). make_dir r rel) (pl_dirs plan) x = (q, y)" by (rule prod.exhaust)
  show ?thesis
  proof (cases q)
    case (Inl err)
    with y each [OF y] assms(4) show ?thesis by (auto simp: run)
  next
    case (Inr u)
    with y assms(4) have "after y = (res, x')" by (simp add: run)
    moreover have "inside target T fs0 ?D y" using each [OF y] Inr by simp
    ultimately have "inside target T fs0 ?D x'" using act_keepsD [OF after] by blast
    then show ?thesis unfolding inside_def by (rule restoring_mono) auto
  qed
qed

section \<open>The directories above the target\<close>

text \<open>Making the target adds directories and changes nothing that exists.\<close>

definition only_dirs_added :: "unix_fs \<Rightarrow> unix_fs \<Rightarrow> bool" where
  "only_dirs_added fs fs' \<longleftrightarrow> uf_inodes fs' = uf_inodes fs \<and> uf_next fs' = uf_next fs \<and>
     (\<forall>p. fmlookup (uf_nodes fs') p = fmlookup (uf_nodes fs) p \<or> fmlookup (uf_nodes fs) p = None \<and> is_udir (fmlookup (uf_nodes fs') p))"

lemma only_dirs_trans: "only_dirs_added a b \<Longrightarrow> only_dirs_added b c \<Longrightarrow> only_dirs_added a c"
  unfolding only_dirs_added_def by (metis is_udir_simps(4))

lemma create_dir_adds: "only_dirs_added fs (snd (create_dir p fs))"
  by (auto simp: create_dir_def new_entry_def act_bind_run place_for_def set_node_def only_dirs_added_def split: sum.splits option.splits)

lemma create_or_exists_adds: "only_dirs_added fs (snd (create_or_exists p fs))"
  using create_dir_adds [of fs p] by (auto simp: create_or_exists_def split: prod.splits sum.splits io_error.splits)

lemma create_dirs_adds: "only_dirs_added fs (snd (create_dirs p fs))"
proof -
  have refl: "only_dirs_added fs0 fs0" for fs0 by (simp add: only_dirs_added_def)
  have step: "act_keeps (only_dirs_added fs) (create_or_exists q)" for q
    using create_or_exists_adds only_dirs_trans unfolding act_keeps_def by blast
  have "act_keeps (only_dirs_added fs) (create_dirs p)"
  proof (induction p)
    case Nil
    show ?case by (simp add: act_keeps_def)
  next
    case (Cons c cs)
    then show ?case unfolding create_dirs.simps by (intro keeps_intros step)
  qed
  then show ?thesis using refl by (simp add: act_keeps_def)
qed

section \<open>Containment\<close>

lemma steady_target:
  assumes "steady target T fs0" and "is_udir (fmlookup (uf_nodes fs0) T)"
  shows "restoring target T fs0 {[]} fs0"
  using assms by (simp add: restoring_def kept_def kept_outside_def real_dirs_def)

text \<open>What every restore keeps, wherever it stops; \<open>restore_contained\<close> rests on it.\<close>

lemma restore_inside:
  assumes "create_dir_all target (xw_fs x) = (Inr (), fs0)" and "is_udir (fmlookup (uf_nodes fs0) T)" and "steady target T fs0"
    and run: "restore n B C G arrange sn target opts x = (res, x')"
  shows "only_dirs_added (xw_fs x) fs0 \<and> (xw_fs x' = xw_fs x \<or> kept_outside T fs0 (xw_fs x'))"
proof -
  have "only_dirs_added (xw_fs x) fs0" using create_dirs_adds [of "xw_fs x" "rev target"] assms(1) by (simp add: create_dir_all_def)
  moreover have "xw_fs x' = xw_fs x \<or> inside target T fs0 {[]} x'"
  proof (cases "matcher_new G (ro_include opts)")
    case (Inr inc)
    show ?thesis
    proof (cases "matcher_new G (ro_exclude opts)")
      case exc: (Inr exc)
      have i: "inside target T fs0 {[]} (x\<lparr>xw_fs := fs0\<rparr>)" using steady_target [OF assms(3,2)] by simp
      have canon: "canonicalize fs0 target = Inr T"
        using restoring_canonical [OF steady_target [OF assms(3,2)], of "[]"] by simp
      let ?r = "\<lparr>rt_target = target, rt_resolved = T, rt_overwrite = ro_overwrite opts\<rparr>"
      define planned where "planned = on_run (plan_tree n B C G inc exc (sn_tree sn) [] (matcher_empty inc) plan_default)"
      define x1 where "x1 = x\<lparr>xw_fs := fs0, xw_stats := stats_default\<rparr>"
      have i1: "inside target T fs0 {[]} x1" using i by (simp add: x1_def)
      have run1: "act_bind planned (\<lambda>plan. act_bind (run_plan B ?r arrange (prune_dirs plan)) (\<lambda>_. act_get xw_stats)) x1 = (res, x')"
        using run by (simp add: restore_def act_bind_run Inr exc on_fs_run assms(1) look_def canon add_stats_def planned_def x1_def Let_def)
      obtain q x2 where x2: "planned x1 = (q, x2)" by (rule prod.exhaust)
      have i2: "inside target T fs0 {[]} x2" using act_keepsD [OF inside_on_run i1] x2 by (simp add: planned_def)
      show ?thesis
      proof (cases q)
        case (Inl err)
        with run1 x2 i2 show ?thesis by (auto simp: act_bind_run)
      next
        case plan: (Inr plan)
        then obtain v v' where "plan_tree n B C G inc exc (sn_tree sn) (joined []) (matcher_empty inc) plan_default v = (Inr plan, v')"
          using x2 by (auto simp: planned_def on_run_def split: prod.splits)
        from plan_tree_adds [OF _ this] obtain K where "adds [] K plan_default plan" by auto
        from prune_dirs_ok [OF this] obtain D S F where ok: "plan_ok (prune_dirs plan) D S F" by blast
        obtain q3 x3 where x3: "run_plan B ?r arrange (prune_dirs plan) x2 = (q3, x3)" by (rule prod.exhaust)
        have "inside target T fs0 {[]} x3" by (rule inside_run_plan [OF i2 ok _ x3]) simp
        moreover have "x' = x3" using run1 x2 plan x3 by (auto simp: act_bind_run split: sum.splits)
        ultimately show ?thesis by simp
      qed
    qed (use run Inr in \<open>auto simp: restore_def act_bind_run\<close>)
  qed (use run in \<open>auto simp: restore_def act_bind_run\<close>)
  ultimately show ?thesis by (auto simp: inside_def restoring_def kept_def)
qed

text \<open>A target whose only entry is a link out of it.\<close>

definition sample_fs :: unix_fs where
  "sample_fs = \<lparr>uf_nodes = fmap_of_list [([], UDir fresh_dir), ([''etc''], UDir fresh_dir), ([''etc'', ''passwd''], UFile 0),
       ([''t''], UDir fresh_dir), ([''t'', ''home''], ULink ''/etc'')],
     uf_inodes = fmap_of_list [(0, \<lparr>in_bytes = [1, 2, 3], in_attr = fresh_file 420\<rparr>)], uf_next = 1, uf_denied = (\<lambda>_. False), uf_owner = False\<rparr>"

definition sample_globs :: glob_env where
  "sample_globs = \<lparr>ge_valid = (\<lambda>_. True), ge_match = (=)\<rparr>"

lemma sample_target: "create_dir_all [''t''] sample_fs = (Inr (), sample_fs)"
  by (simp add: create_dir_all_def create_or_exists_def create_dir_def new_entry_def act_bind_run place_for_def locate_def
    is_dir_def canonicalize_def node_at_def MAX_LINKS_def sample_fs_def is_udir_def fmlookup_of_list)

lemma sample_steady: "steady [''t''] [''t''] sample_fs"
proof -
  have "walk fs MAX_LINKS [] [''t''] = Inr [''t'']"
    if "\<forall>p. \<not> strict_prefix [''t''] p \<longrightarrow> fmlookup (uf_nodes fs) p = fmlookup (uf_nodes sample_fs) p" for fs
    using that [rule_format, of "[]"] that [rule_format, of "[''t'']"] by (simp add: sample_fs_def fmlookup_of_list)
  then show ?thesis by (simp add: steady_def)
qed

lemma sample_dir: "is_udir (fmlookup (uf_nodes sample_fs) [''t''])" "fmlookup (uf_nodes sample_fs) [''etc''] = Some (UDir fresh_dir)"
  by (simp_all add: sample_fs_def fmlookup_of_list)

end
