(* ===== verification/Restore_Content.thy ===== *)
theory Restore_Content
  imports Restore_Safety
begin

text \<open>
  What a restore reads and writes: merged reads cover exactly the chunks that are needed and little more,
  and a restore that succeeds without overwriting leaves every file with the content of its chunks.
\<close>

section \<open>Merged reads\<close>

abbreviation rd_start :: "blob_read \<Rightarrow> nat" where "rd_start rd \<equiv> unat (pe_offset (br_entry rd))"
abbreviation rd_len :: "blob_read \<Rightarrow> nat" where "rd_len rd \<equiv> unat (pe_length (br_entry rd))"
abbreviation rd_end :: "blob_read \<Rightarrow> nat" where "rd_end rd \<equiv> pe_end (br_entry rd)"

lemma group_end_le: "rd \<in> set g \<Longrightarrow> rd_end rd \<le> group_end g"
proof -
  have n: "n \<le> fold max xs n" for n :: nat and xs
    by (induction xs arbitrary: n) (auto, meson le_trans max.cobounded2)
  have "x \<in> set xs \<Longrightarrow> x \<le> fold max xs n" for x n :: nat and xs
  proof (induction xs arbitrary: n)
    case (Cons a xs)
    then show ?case using n [of "max a n" xs] by auto
  qed simp
  then show "rd \<in> set g \<Longrightarrow> rd_end rd \<le> group_end g" unfolding group_end_def by (metis imageI list.set_map)
qed

lemma group_end_snoc: "group_end (g @ [rd]) = max (group_end g) (rd_end rd)"
  by (simp add: group_end_def max.commute)

lemma group_end_single [simp]: "group_end [rd] = rd_end rd"
  by (simp add: group_end_def)

lemma pe_end_split: "rd_end rd = rd_start rd + rd_len rd"
  by (simp add: pe_end_def)

text \<open>A group of reads in the order of their offsets, each at most \<open>MERGE_GAP\<close> after the end of those before.\<close>

definition merged :: "blob_read list \<Rightarrow> bool" where
  "merged g \<longleftrightarrow> g \<noteq> [] \<and> (\<forall>rd\<in>set g. group_start g \<le> rd_start rd) \<and>
     group_end g - group_start g \<le> sum_list (map rd_len g) + MERGE_GAP * (length g - 1)"

lemma merged_single: "merged [rd]"
  by (simp add: merged_def group_start_def pe_end_split)

lemma merged_snoc:
  assumes "merged g" and "rd_start rd \<le> group_end g + MERGE_GAP" and "group_start g \<le> rd_start rd"
  shows "merged (g @ [rd])"
proof -
  have g: "g \<noteq> []" "length g - 1 + 1 = length g" using assms(1) by (auto simp: merged_def Suc_leI)
  have s: "group_start (g @ [rd]) = group_start g" using g(1) by (simp add: group_start_def)
  have "MERGE_GAP * length g = MERGE_GAP * (length g - 1) + MERGE_GAP"
    using g(2) by (metis add_mult_distrib2 mult.right_neutral)
  moreover have "group_end g - group_start g \<le> sum_list (map rd_len g) + MERGE_GAP * (length g - 1)" using assms(1) by (simp add: merged_def)
  ultimately show ?thesis using assms g(1) by (auto simp: merged_def s group_end_snoc pe_end_split max_def)
qed

lemma group_loop_merged:
  assumes "sorted (map rd_start rds)" and "\<forall>g\<in>set groups. merged g" and "groups \<noteq> [] \<Longrightarrow> end_at = group_end (last groups)"
    and "\<And>g rd rd'. g \<in> set groups \<Longrightarrow> rd \<in> set g \<Longrightarrow> rd' \<in> set rds \<Longrightarrow> rd_start rd \<le> rd_start rd'"
    and "sorted_wrt (\<lambda>g h. group_end g + MERGE_GAP < group_start h) groups"
  shows "concat (group_loop rds end_at groups) = concat groups @ rds \<and> (\<forall>g\<in>set (group_loop rds end_at groups). merged g) \<and>
    sorted_wrt (\<lambda>g h. group_end g + MERGE_GAP < group_start h) (group_loop rds end_at groups)"
  using assms
proof (induction rds end_at groups rule: group_loop.induct)
  case (2 rd rds end_at groups)
  let ?sep = "\<lambda>g h. group_end g + MERGE_GAP < group_start h"
  have srt: "sorted (map rd_start rds)" "\<forall>rd'\<in>set rds. rd_start rd \<le> rd_start rd'" using "2.prems"(1) by auto
  show ?case
  proof (cases "groups \<noteq> [] \<and> rd_start rd \<le> end_at + MERGE_GAP")
    case True
    then obtain gs l where gs: "groups = gs @ [l]" by (metis rev_exhaust)
    have l: "merged l" "end_at = group_end l" using "2.prems"(2,3) True by (auto simp: gs)
    have start: "hd l \<in> set l" using l(1) by (simp add: merged_def)
    have m: "merged (l @ [rd])"
      using l(2) True "2.prems"(4) [of l "hd l" rd] start by (intro merged_snoc [OF l(1)]) (auto simp: gs group_start_def)
    have s: "group_start (l @ [rd]) = group_start l" using l(1) by (simp add: merged_def group_start_def)
    have run: "group_loop (rd # rds) end_at groups = group_loop rds (max end_at (rd_end rd)) (gs @ [l @ [rd]])"
      using True by (simp add: gs)
    have "concat (group_loop rds (max end_at (rd_end rd)) (butlast groups @ [last groups @ [rd]])) = concat (butlast groups @ [last groups @ [rd]]) @ rds \<and>
        (\<forall>g\<in>set (group_loop rds (max end_at (rd_end rd)) (butlast groups @ [last groups @ [rd]])). merged g) \<and>
        sorted_wrt ?sep (group_loop rds (max end_at (rd_end rd)) (butlast groups @ [last groups @ [rd]]))"
    proof (rule "2.IH"(1) [OF True srt(1)])
      show "\<forall>g\<in>set (butlast groups @ [last groups @ [rd]]). merged g" using m "2.prems"(2) by (auto simp: gs)
      show "max end_at (rd_end rd) = group_end (last (butlast groups @ [last groups @ [rd]]))" by (simp add: gs group_end_snoc l(2))
      show "rd_start a \<le> rd_start b" if "g \<in> set (butlast groups @ [last groups @ [rd]])" "a \<in> set g" "b \<in> set rds" for g a b
        using that "2.prems"(4) [of g a b] "2.prems"(4) [of l a b] srt(2) by (auto simp: gs)
      show "sorted_wrt ?sep (butlast groups @ [last groups @ [rd]])" using "2.prems"(5) s by (auto simp: gs sorted_wrt_append)
    qed
    then show ?thesis unfolding run by (simp add: gs)
  next
    case False
    have sep: "group_end g + MERGE_GAP < rd_start rd" if g: "g \<in> set groups" for g
    proof -
      obtain gs l where gs: "groups = gs @ [l]" using g by (metis list.set(1) emptyE rev_exhaust)
      have "group_end l + MERGE_GAP < rd_start rd" using False "2.prems"(3) by (auto simp: gs)
      moreover have "group_start l \<le> rd_start rd" if "merged l"
        using "2.prems"(4) [of l "hd l" rd] that by (auto simp: gs merged_def group_start_def)
      ultimately show ?thesis using g "2.prems"(2,5) by (auto simp: gs sorted_wrt_append)
    qed
    have run: "group_loop (rd # rds) end_at groups = group_loop rds (rd_end rd) (groups @ [[rd]])"
      unfolding group_loop.simps(2) using False by (rule if_not_P)
    have "concat (group_loop rds (rd_end rd) (groups @ [[rd]])) = concat (groups @ [[rd]]) @ rds \<and>
        (\<forall>g\<in>set (group_loop rds (rd_end rd) (groups @ [[rd]])). merged g) \<and> sorted_wrt ?sep (group_loop rds (rd_end rd) (groups @ [[rd]]))"
    proof (rule "2.IH"(2) [OF False srt(1)])
      show "rd_start a \<le> rd_start b" if "g \<in> set (groups @ [[rd]])" "a \<in> set g" "b \<in> set rds" for g a b
        using that "2.prems"(4) [of g a b] srt(2) by auto
      show "sorted_wrt ?sep (groups @ [[rd]])" using "2.prems"(5) sep by (auto simp: sorted_wrt_append group_start_def)
    qed (use "2.prems"(2) merged_single in auto)
    then show ?thesis unfolding run by simp
  qed
qed simp

lemma group_reads_merged:
  assumes "sorted (map rd_start rds)"
  shows "concat (group_reads rds) = rds" and "\<forall>g\<in>set (group_reads rds). merged g"
    and "sorted_wrt (\<lambda>g h. group_end g + MERGE_GAP < group_start h) (group_reads rds)"
  using group_loop_merged [OF assms, of "[]" 0] by (simp_all add: group_reads_def)

lemma sorted_starts: "sorted (map rd_start (sort_key (\<lambda>rd. pe_offset (br_entry rd)) rds))"
proof -
  have "sorted (map (\<lambda>rd. pe_offset (br_entry rd)) (sort_key (\<lambda>rd. pe_offset (br_entry rd)) rds))" by (rule sorted_sort_key)
  then show ?thesis by (simp add: sorted_map word_le_nat_alt)
qed

text \<open>
  C39: The merged reads of a pack fetch every chunk that is needed exactly once, and each read covers its
  chunks. A read downloads no more than its chunks and 64 KiB for each request that was saved, and two
  reads of a pack are more than 64 KiB apart, so no more could have been merged.
\<close>

theorem merged_reads_bounded:
  "let gs = group_reads (sort_key (\<lambda>rd. pe_offset (br_entry rd)) rds) in
    mset (concat gs) = mset rds \<and>
    (\<forall>g\<in>set gs. \<forall>rd\<in>set g. group_start g \<le> unat (pe_offset (br_entry rd)) \<and> pe_end (br_entry rd) \<le> group_end g) \<and>
    (\<forall>g\<in>set gs. group_end g - group_start g \<le> sum_list (map (\<lambda>rd. unat (pe_length (br_entry rd))) g) + 64 * 1024 * (length g - 1)) \<and>
    sorted_wrt (\<lambda>g h. group_end g + 64 * 1024 < group_start h) gs"
  using group_reads_merged [OF sorted_starts [of rds]] group_end_le by (simp add: Let_def merged_def MERGE_GAP_def)

definition sample_read :: "u32 \<Rightarrow> blob_read" where
  "sample_read at = \<lparr>br_entry = \<lparr>pe_type = BData, pe_compression = CNone, pe_id = [], pe_offset = at, pe_length = 100, pe_plain = 100\<rparr>,
     br_destinations = []\<rparr>"

theorem merged_reads_bounded_witness:
  "let gs = group_reads (sort_key (\<lambda>rd. pe_offset (br_entry rd)) (map sample_read [200000, 100, 65736, 0, 131373])) in
    map (map (\<lambda>rd. pe_offset (br_entry rd))) gs = [[0, 100, 65736], [131373], [200000]] \<and>
    mset (concat gs) = mset (map sample_read [200000, 100, 65736, 0, 131373])"
proof -
  have "map (map (\<lambda>rd. pe_offset (br_entry rd))) (group_reads (sort_key (\<lambda>rd. pe_offset (br_entry rd)) (map sample_read [200000, 100, 65736, 0, 131373]))) =
      [[0, 100, 65736], [131373], [200000]]"
    by (simp add: group_reads_def sample_read_def MERGE_GAP_def pe_end_def)
  then show ?thesis using merged_reads_bounded [of "map sample_read [200000, 100, 65736, 0, 131373]"] by (simp only: Let_def)
qed

section \<open>Contents of files\<close>

definition bytes_of :: "unix_fs \<Rightarrow> nat \<Rightarrow> bytes" where
  "bytes_of fs i = (case fmlookup (uf_inodes fs) i of None \<Rightarrow> [] | Some nd \<Rightarrow> in_bytes nd)"

text \<open>The entries \<open>qs\<close> are files with inodes of their own.\<close>

definition files_at :: "unix_fs \<Rightarrow> upath list \<Rightarrow> nat list \<Rightarrow> bool" where
  "files_at fs qs is \<longleftrightarrow> list_all2 (\<lambda>q i. fmlookup (uf_nodes fs) q = Some (UFile i)) qs is \<and> distinct is \<and>
     (\<forall>i\<in>set is. fmlookup (uf_inodes fs) i \<noteq> None \<and> i < uf_next fs)"

lemma files_at_nth: "files_at fs qs is \<Longrightarrow> f < length qs \<Longrightarrow> fmlookup (uf_nodes fs) (qs ! f) = Some (UFile (is ! f)) \<and>
    f < length is \<and> (\<exists>nd. fmlookup (uf_inodes fs) (is ! f) = Some nd)"
  using nth_mem [of f "is"] by (auto simp: files_at_def list_all2_conv_all_nth)

lemma files_at_length: "files_at fs qs is \<Longrightarrow> length qs = length is"
  by (auto simp: files_at_def dest: list_all2_lengthD)

lemma files_at_inode:
  "files_at fs qs is \<Longrightarrow> files_at (set_inode i nd fs) qs is"
  by (auto simp: files_at_def set_inode_def)

lemma bytes_of_set: "bytes_of (set_inode i nd fs) j = (if j = i then in_bytes nd else bytes_of fs j)"
  by (simp add: bytes_of_def set_inode_def)

lemma contents_set:
  assumes "distinct is" and "f < length is"
  shows "map (bytes_of (set_inode (is ! f) nd fs)) is = (map (bytes_of fs) is)[f := in_bytes nd]"
  using assms by (auto simp: list_eq_iff_nth_eq bytes_of_set nth_list_update nth_eq_iff_index_eq)

section \<open>Creating the files\<close>

definition new_file :: "upath \<Rightarrow> bytes \<Rightarrow> unix_fs \<Rightarrow> unix_fs" where
  "new_file q b fs = set_inode (uf_next fs) \<lparr>in_bytes = b, in_attr = fresh_file 384\<rparr> (add_file q \<lparr>in_bytes = [], in_attr = fresh_file 384\<rparr> fs)"

lemma check_contained_ok: "check_contained r d x = (Inr (), x') \<Longrightarrow> x' = x"
  by (auto simp: check_contained_def act_bind_run on_fs_run look_def split: sum.splits if_splits)

lemma create_file_ok:
  assumes "inside target T fs0 D x" and e: "reachable_entry D ps" and o: "\<not> rt_overwrite r"
    and c: "create_file r (target @ ps) sz x = (Inr (), x')"
  shows "fmlookup (uf_nodes (xw_fs x)) (T @ ps) = None \<and> x' = x\<lparr>xw_fs := new_file (T @ ps) (replicate (unat sz) 0) (xw_fs x)\<rparr>"
proof -
  note r = assms(1) [unfolded inside_def]
  note m = entry_metadata [OF r e]
  from c obtain x1 where c1: "check_contained r (butlast (target @ ps)) x = (Inr (), x1)"
    and c2: "act_bind (\<lambda>x. case symlink_metadata (xw_fs x) (target @ ps) of
         Inr (UFile _) \<Rightarrow> (Inr (), x) | Inr _ \<Rightarrow> clear r (target @ ps) x | Inl _ \<Rightarrow> (Inr (), x)) (\<lambda>_.
       act_bind (on_fs (invalid (target @ ps)) (open_write OpenCreateNew 384 (target @ ps))) (\<lambda>i. on_fs io_failed (set_len i sz))) x1 = (Inr (), x')"
    using o by (auto simp: create_file_def act_bind_ok)
  have x1: "x1 = x" using check_contained_ok [OF c1] .
  from c2 x1 obtain x2 where "(case symlink_metadata (xw_fs x) (target @ ps) of
         Inr (UFile _) \<Rightarrow> (Inr (), x) | Inr _ \<Rightarrow> clear r (target @ ps) x | Inl _ \<Rightarrow> (Inr (), x)) = (Inr (), x2)"
    and c3: "act_bind (on_fs (invalid (target @ ps)) (open_write OpenCreateNew 384 (target @ ps))) (\<lambda>i. on_fs io_failed (set_len i sz)) x2 = (Inr (), x')"
    by (auto simp: act_bind_ok)
  then have x2: "x2 = x" using o m by (cases "fmlookup (uf_nodes (xw_fs x)) (T @ ps)") (auto simp: clear_def split: unode.splits)
  have none: "fmlookup (uf_nodes (xw_fs x)) (T @ ps) = None"
    using c3 unfolding x2 by (auto simp: act_bind_run on_fs_run open_write_def entry_place [OF r e] split: option.splits if_splits)
  with c3 show ?thesis unfolding x2
    by (auto simp: act_bind_run on_fs_run open_write_def entry_place [OF r e] set_len_def add_file_def set_inode_def set_node_def new_file_def resize_def
      split: option.splits if_splits)
qed

lemma new_file_files:
  assumes "files_at fs qs is" and "fmlookup (uf_nodes fs) q = None"
  shows "files_at (new_file q b fs) (qs @ [q]) (is @ [uf_next fs])"
    and "map (bytes_of (new_file q b fs)) (is @ [uf_next fs]) = map (bytes_of fs) is @ [b]"
proof -
  have lt: "\<forall>i\<in>set is. i < uf_next fs" using assms(1) by (simp add: files_at_def)
  have q: "q \<notin> set qs" using assms by (auto simp: files_at_def list_all2_conv_all_nth in_set_conv_nth)
  have "list_all2 (\<lambda>q' i. fmlookup (uf_nodes (new_file q b fs)) q' = Some (UFile i)) qs is"
    using assms(1) q unfolding files_at_def new_file_def add_file_def set_inode_def set_node_def
    by (auto simp: list_all2_conv_all_nth)
  then show "files_at (new_file q b fs) (qs @ [q]) (is @ [uf_next fs])"
    using assms(1) lt unfolding files_at_def by (auto simp: new_file_def add_file_def set_inode_def set_node_def list_all2_appendI)
  show "map (bytes_of (new_file q b fs)) (is @ [uf_next fs]) = map (bytes_of fs) is @ [b]"
    using lt by (auto simp: new_file_def add_file_def set_inode_def set_node_def bytes_of_def)
qed

text \<open>Every entry that is no directory stays what it is.\<close>

definition nodes_kept :: "unix_fs \<Rightarrow> unix_fs \<Rightarrow> bool" where
  "nodes_kept fs fs' \<longleftrightarrow> (\<forall>q n. fmlookup (uf_nodes fs) q = Some n \<and> \<not> is_udir (Some n) \<longrightarrow> fmlookup (uf_nodes fs') q = Some n)"

lemma nodes_kept_refl [simp]: "nodes_kept fs fs"
  by (simp add: nodes_kept_def)

lemma nodes_kept_trans: "nodes_kept a b \<Longrightarrow> nodes_kept b c \<Longrightarrow> nodes_kept a c"
  by (simp add: nodes_kept_def)

lemma nodes_kept_new: "fmlookup (uf_nodes fs) q = None \<Longrightarrow> nodes_kept fs (new_file q b fs)"
  by (auto simp: nodes_kept_def new_file_def add_file_def set_node_def set_inode_def)

lemma create_files:
  assumes "inside target T fs0 D x" and "\<forall>ps\<in>set PS. reachable_entry D ps \<and> (\<forall>d\<in>D. \<not> prefix ps d)" and "\<not> rt_overwrite r"
    and "map fst tw = map ((@) target) PS" and "act_each (\<lambda>(p, nd). create_file r p (nd_size nd)) tw x = (Inr (), x')"
    and "files_at (xw_fs x) qs is"
  shows "\<exists>js. inside target T fs0 D x' \<and> files_at (xw_fs x') (qs @ map ((@) T) PS) (is @ js) \<and>
    map (bytes_of (xw_fs x')) (is @ js) = map (bytes_of (xw_fs x)) is @ map (\<lambda>(p, nd). replicate (unat (nd_size nd)) 0) tw \<and>
    x' = x\<lparr>xw_fs := xw_fs x'\<rparr> \<and> nodes_kept (xw_fs x) (xw_fs x')"
  using assms
proof (induction tw arbitrary: PS x qs "is")
  case (Cons e tw)
  from Cons.prems(4) obtain ps PS' where PS: "PS = ps # PS'" "fst e = target @ ps" "map fst tw = map ((@) target) PS'" by (cases PS) auto
  obtain nd where e: "e = (target @ ps, nd)" using PS(2) by (cases e) simp
  have ps: "reachable_entry D ps" "\<forall>d\<in>D. \<not> prefix ps d" using Cons.prems(2) by (simp_all add: PS(1))
  from Cons.prems(5) obtain y where y: "create_file r (target @ ps) (nd_size nd) x = (Inr (), y)"
    and rest: "act_each (\<lambda>(p, nd). create_file r p (nd_size nd)) tw y = (Inr (), x')"
    by (auto simp: e act_bind_ok)
  from create_file_ok [OF Cons.prems(1) ps(1) Cons.prems(3) y]
  have none: "fmlookup (uf_nodes (xw_fs x)) (T @ ps) = None" and yx: "y = x\<lparr>xw_fs := new_file (T @ ps) (replicate (unat (nd_size nd)) 0) (xw_fs x)\<rparr>"
    by simp_all
  have iy: "inside target T fs0 D y" using act_keepsD [OF inside_create_file [OF ps] Cons.prems(1) y] .
  let ?n = "uf_next (xw_fs x)"
  have fy: "files_at (xw_fs y) (qs @ [T @ ps]) (is @ [?n])" using new_file_files(1) [OF Cons.prems(6) none] by (simp add: yx)
  have "\<forall>ps\<in>set PS'. reachable_entry D ps \<and> (\<forall>d\<in>D. \<not> prefix ps d)" using Cons.prems(2) by (simp add: PS(1))
  from Cons.IH [OF iy this Cons.prems(3) PS(3) rest fy] obtain js where
    "inside target T fs0 D x'" "files_at (xw_fs x') ((qs @ [T @ ps]) @ map ((@) T) PS') ((is @ [?n]) @ js)"
    "map (bytes_of (xw_fs x')) ((is @ [?n]) @ js) = map (bytes_of (xw_fs y)) (is @ [?n]) @ map (\<lambda>(p, nd). replicate (unat (nd_size nd)) 0) tw"
    "x' = y\<lparr>xw_fs := xw_fs x'\<rparr>" "nodes_kept (xw_fs y) (xw_fs x')" by blast
  moreover have "map (bytes_of (xw_fs y)) (is @ [?n]) = map (bytes_of (xw_fs x)) is @ [replicate (unat (nd_size nd)) 0]"
    using new_file_files(2) [OF Cons.prems(6) none] by (simp add: yx)
  moreover have "nodes_kept (xw_fs x) (xw_fs y)" using nodes_kept_new [OF none] by (simp add: yx)
  ultimately show ?case unfolding PS(1) by (intro exI [of _ "?n # js"]) (auto simp: e yx intro: nodes_kept_trans)
qed (auto simp: intro!: exI [of _ "[]"])

section \<open>Writing at offsets\<close>

lemma splice_length: "offset + length p \<le> length b \<Longrightarrow> length (splice offset p b) = length b"
  by (simp add: splice_def resize_def)

lemma splice_nth: "offset + length p \<le> length b \<Longrightarrow> j < length b \<Longrightarrow>
    splice offset p b ! j = (if offset \<le> j \<and> j < offset + length p then p ! (j - offset) else b ! j)"
  by (auto simp: splice_def resize_def nth_append)

text \<open>The files \<open>bs\<close> have the lengths of the expected ones, and the bytes of them at the places \<open>S\<close>.\<close>

definition agrees :: "bytes list \<Rightarrow> (nat \<times> nat) set \<Rightarrow> bytes list \<Rightarrow> bool" where
  "agrees E S bs \<longleftrightarrow> map length bs = map length E \<and> (\<forall>(f, j)\<in>S. f < length E \<and> j < length (E ! f) \<longrightarrow> bs ! f ! j = E ! f ! j)"

definition covers :: "nat \<Rightarrow> nat \<Rightarrow> nat \<Rightarrow> (nat \<times> nat) set" where
  "covers f offset len = {(f, j) | j. offset \<le> j \<and> j < offset + len}"

lemma agrees_write:
  assumes a: "agrees E S bs" and f: "f < length E" and l: "offset + length p \<le> length (E ! f)" and p: "take (length p) (drop offset (E ! f)) = p"
  shows "agrees E (S \<union> covers f offset (length p)) (bs[f := splice offset p (bs ! f)])"
proof -
  have len: "length bs = length E" "\<And>g. g < length E \<Longrightarrow> length (bs ! g) = length (E ! g)"
    using a by (auto simp: agrees_def list_eq_iff_nth_eq)
  have "map length (bs[f := splice offset p (bs ! f)]) = map length E"
    using len f l by (auto simp: list_eq_iff_nth_eq nth_list_update splice_length)
  moreover have "bs[f := splice offset p (bs ! f)] ! g ! j = E ! g ! j"
    if s: "(g, j) \<in> S \<union> covers f offset (length p)" and g: "g < length E" "j < length (E ! g)" for g j
  proof (cases "g = f \<and> offset \<le> j \<and> j < offset + length p")
    case True
    have "p ! (j - offset) = take (length p) (drop offset (E ! f)) ! (j - offset)" by (simp only: p)
    also have "\<dots> = E ! f ! j" using True l by (subst nth_take) auto
    finally show ?thesis using True len f l g by (simp add: splice_nth)
  next
    case False
    then have "(g, j) \<in> S" using s by (auto simp: covers_def)
    then have "bs ! g ! j = E ! g ! j" using a g by (auto simp: agrees_def)
    with False show ?thesis using len f l g by (auto simp: nth_list_update splice_nth)
  qed
  ultimately show ?thesis by (auto simp: agrees_def)
qed

lemma agrees_all:
  assumes "agrees E S bs" and "\<And>f j. f < length E \<Longrightarrow> j < length (E ! f) \<Longrightarrow> (f, j) \<in> S"
  shows "bs = E"
proof (rule nth_equalityI)
  have l: "map length bs = map length E" using assms(1) by (simp add: agrees_def)
  then show "length bs = length E" by (metis length_map)
  fix f assume "f < length bs"
  with l have f: "f < length E" "length (bs ! f) = length (E ! f)" by (metis length_map, metis length_map nth_map)
  show "bs ! f = E ! f"
  proof (rule nth_equalityI)
    fix j assume "j < length (bs ! f)"
    then have "(f, j) \<in> S" using f assms(2) by simp
    with f \<open>j < length (bs ! f)\<close> assms(1) show "bs ! f ! j = E ! f ! j" unfolding agrees_def by fastforce
  qed (rule f(2))
qed

section \<open>Reading the packs\<close>

text \<open>The state while the packs are read: the places \<open>S\<close> of the files \<open>PS\<close> hold what is expected.\<close>

definition reading :: "upath \<Rightarrow> upath \<Rightarrow> unix_fs \<Rightarrow> upath set \<Rightarrow> xworld \<Rightarrow> upath list \<Rightarrow> nat list \<Rightarrow> bytes list \<Rightarrow> (nat \<times> nat) set \<Rightarrow> xworld \<Rightarrow> bool" where
  "reading target T fs0 D x0 PS is E S x \<longleftrightarrow> inside target T fs0 D x \<and> files_at (xw_fs x) (map ((@) T) PS) is \<and>
     rw_repo (xw_run x) = rw_repo (xw_run x0) \<and> objects (rw_world (xw_run x)) = objects (rw_world (xw_run x0)) \<and>
     nodes_kept (xw_fs x0) (xw_fs x) \<and> agrees E S (map (bytes_of (xw_fs x)) is) \<and>
     (\<forall>ps\<in>set PS. reachable_entry D ps) \<and> length E = length PS"

definition right_place :: "bytes list \<Rightarrow> bytes \<Rightarrow> nat \<times> u64 \<Rightarrow> bool" where
  "right_place E p = (\<lambda>(f, offset). f < length E \<and> unat offset + length p \<le> length (E ! f) \<and>
     take (length p) (drop (unat offset) (E ! f)) = p)"

lemma write_at_reading:
  assumes rd: "reading target T fs0 D x0 PS is E S x" and p: "right_place E p (f, offset)"
    and w: "write_at (target @ PS ! f) p offset x = (Inr (), x')"
  shows "reading target T fs0 D x0 PS is E (S \<union> covers f (unat offset) (length p)) x'"
proof -
  have f: "f < length E" "f < length PS" using p rd by (auto simp: right_place_def reading_def)
  have i: "restoring target T fs0 D (xw_fs x)" "inside target T fs0 D x" using rd by (simp_all add: reading_def inside_def)
  have e: "reachable_entry D (PS ! f)" using rd f by (simp add: reading_def)
  have fa: "files_at (xw_fs x) (map ((@) T) PS) is" using rd by (simp add: reading_def)
  from files_at_nth [OF fa, of f] f obtain nd where n: "fmlookup (uf_nodes (xw_fs x)) (T @ PS ! f) = Some (UFile (is ! f))"
    "f < length is" "fmlookup (uf_inodes (xw_fs x)) (is ! f) = Some nd" by auto
  have x': "x' = x\<lparr>xw_fs := set_inode (is ! f) (nd\<lparr>in_bytes := splice (unat offset) p (in_bytes nd)\<rparr>) (xw_fs x)\<rparr>"
    using w n(1,3) by (auto simp: write_at_def act_bind_run on_fs_run open_write_def entry_place [OF i(1) e] write_all_at_def
        split: if_splits option.splits)
  have "inside target T fs0 D x'" using act_keepsD [OF inside_write_at [OF e] i(2) w] .
  moreover have "bytes_of (xw_fs x) (is ! f) = in_bytes nd" by (simp add: bytes_of_def n(3))
  then have "map (bytes_of (xw_fs x')) is = (map (bytes_of (xw_fs x)) is)[f := splice (unat offset) p (map (bytes_of (xw_fs x)) is ! f)]"
    using contents_set [of "is" f "nd\<lparr>in_bytes := splice (unat offset) p (in_bytes nd)\<rparr>" "xw_fs x"] n(2) fa by (simp add: x' files_at_def)
  then have "agrees E (S \<union> covers f (unat offset) (length p)) (map (bytes_of (xw_fs x')) is)"
    using agrees_write [of E S "map (bytes_of (xw_fs x)) is" f "unat offset" p] rd p by (simp add: reading_def right_place_def)
  moreover have "nodes_kept (xw_fs x0) (xw_fs x')" using rd by (simp add: x' reading_def nodes_kept_def set_inode_def)
  ultimately show ?thesis using rd files_at_inode [OF fa] by (simp add: reading_def x')
qed

definition dest_covers :: "(nat \<times> u64) list \<Rightarrow> nat \<Rightarrow> (nat \<times> nat) set" where
  "dest_covers ds len = (\<Union>(f, offset)\<in>set ds. covers f (unat offset) len)"

lemma write_destinations_reading:
  assumes "reading target T fs0 D x0 PS is E S x" and "\<forall>d\<in>set ds. right_place E p d"
    and "write_destinations (map ((@) target) PS) p ds x = (Inr (), x')"
  shows "reading target T fs0 D x0 PS is E (S \<union> dest_covers ds (length p)) x'"
  using assms
proof (induction ds arbitrary: S x)
  case (Cons d ds)
  obtain f offset where d: "d = (f, offset)" by (rule prod.exhaust)
  have f: "f < length PS" using Cons.prems(1,2) by (auto simp: d reading_def right_place_def)
  from Cons.prems(3) f obtain y where y: "write_at (target @ PS ! f) p offset x = (Inr (), y)"
    and r: "write_destinations (map ((@) target) PS) p ds y = (Inr (), x')" by (auto simp: d act_bind_ok)
  have "reading target T fs0 D x0 PS is E (S \<union> covers f (unat offset) (length p)) y"
    using write_at_reading [OF Cons.prems(1) _ y] Cons.prems(2) by (simp add: d)
  from Cons.IH [OF this _ r] Cons.prems(2) show ?case by (simp add: d dest_covers_def Un_assoc)
qed (simp add: dest_covers_def)

lemma slice_within:
  assumes "gs \<le> unat (pe_offset e)" and "pe_end e \<le> ge" and "ge \<le> length full"
  shows "take (unat (pe_length e)) (drop (unat (pe_offset e) - gs) (take (ge - gs) (drop gs full))) = slice e full"
  using assms by (simp add: slice_def pe_end_def drop_take take_take min_def)

lemma decode_blob_length: "decode_blob B ks e c = Inr p \<Longrightarrow> length p = unat (pe_plain e)"
  by (auto simp: decode_blob_def Let_def res_bind_ok dest: decompress_length split: if_splits)

text \<open>The plaintext of a chunk that the store holds.\<close>

definition chunk_at :: "benv \<Rightarrow> repository \<Rightarrow> bworld \<Rightarrow> bid \<Rightarrow> bytes \<Rightarrow> bool" where
  "chunk_at B r w c p \<longleftrightarrow> (\<exists>l data. index_lookup c (rp_index r) = Some l \<and> stored w (repo_key r (pack_name (lo_pack l))) = Some data \<and>
     holds B (rp_keys r) (lo_entry l) data p)"

lemma chunk_at_unique: "chunk_at B r w c p \<Longrightarrow> chunk_at B r w c q \<Longrightarrow> p = q"
  by (auto simp: chunk_at_def holds_def)

lemma chunk_at_length: "chunk_at B r w c p \<Longrightarrow> \<exists>l. index_lookup c (rp_index r) = Some l \<and> length p = unat (pe_plain (lo_entry l))"
  by (auto simp: chunk_at_def holds_def dest: decode_blob_length)

text \<open>A read of the plan: where its chunk is, and that it belongs where it is written.\<close>

definition read_ok :: "benv \<Rightarrow> xworld \<Rightarrow> bytes list \<Rightarrow> bid \<Rightarrow> bid \<Rightarrow> blob_read \<Rightarrow> bool" where
  "read_ok B x0 E pack c rd \<longleftrightarrow> (\<exists>l. index_lookup c (rp_index (rw_repo (xw_run x0))) = Some l \<and> lo_pack l = pack \<and> lo_entry l = br_entry rd) \<and>
     (\<forall>p. chunk_at B (rw_repo (xw_run x0)) (rw_world (xw_run x0)) c p \<longrightarrow> (\<forall>d\<in>set (br_destinations rd). right_place E p d))"

definition read_done :: "benv \<Rightarrow> xworld \<Rightarrow> bid \<Rightarrow> bool" where
  "read_done B x0 c \<longleftrightarrow> (\<exists>p. chunk_at B (rw_repo (xw_run x0)) (rw_world (xw_run x0)) c p)"

definition read_covers :: "blob_read \<Rightarrow> (nat \<times> nat) set" where
  "read_covers rd = dest_covers (br_destinations rd) (unat (pe_plain (br_entry rd)))"

lemma write_read_reading:
  assumes rd: "reading target T fs0 D x0 PS is E S x" and ok: "read_ok B x0 E pack c rd"
    and data: "stored (rw_world (xw_run x0)) (repo_key (rw_repo (xw_run x0)) (pack_name pack)) = Some full"
    and g: "gs \<le> rd_start rd" "rd_end rd \<le> ge" "ge \<le> length full"
    and w: "write_read B (rp_keys (rw_repo (xw_run x0))) (map ((@) target) PS) gs (take (ge - gs) (drop gs full)) rd x = (Inr (), x')"
  shows "reading target T fs0 D x0 PS is E (S \<union> read_covers rd) x' \<and> read_done B x0 c"
proof -
  let ?r = "rw_repo (xw_run x0)"
  have len: "\<not> (rd_start rd < gs \<or> length (take (ge - gs) (drop gs full)) < rd_start rd - gs + rd_len rd)"
    using g by (auto simp: pe_end_def)
  note sl = slice_within [OF g]
  from w len obtain p where p: "decode_blob B (rp_keys ?r) (br_entry rd) (slice (br_entry rd) full) = Inr p"
    and ds: "write_destinations (map ((@) target) PS) p (br_destinations rd) x = (Inr (), x')"
    by (auto simp: write_read_def Let_def sl act_bind_ok)
  from ok obtain l where l: "index_lookup c (rp_index ?r) = Some l" "lo_pack l = pack" "lo_entry l = br_entry rd" by (auto simp: read_ok_def)
  have c: "chunk_at B ?r (rw_world (xw_run x0)) c p"
    unfolding chunk_at_def holds_def using l data p g by (intro exI [of _ l] exI [of _ full]) simp
  then have "\<forall>d\<in>set (br_destinations rd). right_place E p d" using ok by (simp add: read_ok_def)
  from write_destinations_reading [OF rd this ds] decode_blob_length [OF p] c show ?thesis
    by (auto simp: read_covers_def read_done_def)
qed

lemma group_reading:
  assumes "reading target T fs0 D x0 PS is E S x" and "\<forall>rd\<in>set g. \<exists>c. read_ok B x0 E pack c rd"
    and "stored (rw_world (xw_run x0)) (repo_key (rw_repo (xw_run x0)) (pack_name pack)) = Some full"
    and "\<forall>rd\<in>set g. gs \<le> rd_start rd \<and> rd_end rd \<le> ge" and "ge \<le> length full"
    and "act_each (write_read B (rp_keys (rw_repo (xw_run x0))) (map ((@) target) PS) gs (take (ge - gs) (drop gs full))) g x = (Inr (), x')"
  shows "reading target T fs0 D x0 PS is E (S \<union> \<Union> (read_covers ` set g)) x' \<and>
    (\<forall>rd\<in>set g. \<forall>c. read_ok B x0 E pack c rd \<longrightarrow> read_done B x0 c)"
  using assms
proof (induction g arbitrary: S x)
  case (Cons rd g)
  from Cons.prems(6) obtain y where y: "write_read B (rp_keys (rw_repo (xw_run x0))) (map ((@) target) PS) gs (take (ge - gs) (drop gs full)) rd x = (Inr (), y)"
    and r: "act_each (write_read B (rp_keys (rw_repo (xw_run x0))) (map ((@) target) PS) gs (take (ge - gs) (drop gs full))) g y = (Inr (), x')"
    by (auto simp: act_bind_ok)
  have b: "gs \<le> rd_start rd" "rd_end rd \<le> ge" using Cons.prems(4) by auto
  have step: "reading target T fs0 D x0 PS is E (S \<union> read_covers rd) y \<and> read_done B x0 c" if "read_ok B x0 E pack c rd" for c
    by (rule write_read_reading [OF Cons.prems(1) that Cons.prems(3) b Cons.prems(5) y])
  from Cons.prems(2) obtain c where "read_ok B x0 E pack c rd" by auto
  with step have "reading target T fs0 D x0 PS is E (S \<union> read_covers rd) y" by blast
  from Cons.IH [OF this _ Cons.prems(3) _ Cons.prems(5) r] Cons.prems(2,4) step show ?case by (auto simp: Un_assoc)
qed simp

lemma get_range_reading:
  assumes rd: "reading target T fs0 D x0 PS is E S x" and b: "gs \<le> ge" "ge < 2 ^ 34"
    and g: "on_run (in_world (from_bstore (mem_get_range key (of_nat gs) (of_nat (ge - gs))))) x = (Inr data, x')"
  shows "\<exists>full. stored (rw_world (xw_run x0)) key = Some full \<and> ge \<le> length full \<and> data = take (ge - gs) (drop gs full) \<and>
    reading target T fs0 D x0 PS is E S x'"
proof -
  have u: "unat (of_nat gs :: u64) = gs" "unat (of_nat (ge - gs) :: u64) = ge - gs"
    using b by (simp_all add: unat_of_nat del: of_nat_diff)
  have o: "objects (rw_world (xw_run x)) = objects (rw_world (xw_run x0))" using rd by (simp add: reading_def)
  from g obtain ob where ob: "fmlookup (objects (rw_world (xw_run x))) key = Some ob" "gs + (ge - gs) \<le> length (obj_bytes ob)"
    and d: "data = take (ge - gs) (drop gs (obj_bytes ob))"
    and x': "x' = x\<lparr>xw_run := (xw_run x)\<lparr>rw_world := (rw_world (xw_run x))\<lparr>bw_store := count_read data (bw_store (rw_world (xw_run x)))\<rparr>\<rparr>\<rparr>"
    by (auto simp: on_run_def in_world_def from_bstore_run mem_get_range_def u Let_def split: option.splits if_splits)
  have "stored (rw_world (xw_run x0)) key = Some (obj_bytes ob)" using ob(1) o by (simp add: stored_def)
  moreover have "reading target T fs0 D x0 PS is E S x'" using rd by (simp add: reading_def x' inside_def)
  ultimately show ?thesis using ob(2) b(1) d by auto
qed

lemma groups_reading:
  assumes "reading target T fs0 D x0 PS is E S x" and "\<forall>g\<in>set gss. merged g" and "\<forall>g\<in>set gss. \<forall>rd\<in>set g. \<exists>c. read_ok B x0 E pack c rd"
    and "act_each (\<lambda>g. act_bind (on_run (in_world (from_bstore (mem_get_range (repo_key (rw_repo (xw_run x0)) (pack_name pack))
         (of_nat (group_start g)) (of_nat (group_end g - group_start g)))))) (\<lambda>data.
       act_each (write_read B (rp_keys (rw_repo (xw_run x0))) (map ((@) target) PS) (group_start g) data) g)) gss x = (Inr (), x')"
  shows "reading target T fs0 D x0 PS is E (S \<union> \<Union> (read_covers ` set (concat gss))) x' \<and>
    (\<forall>rd\<in>set (concat gss). \<forall>c. read_ok B x0 E pack c rd \<longrightarrow> read_done B x0 c)"
  using assms
proof (induction gss arbitrary: S x)
  case (Cons g gss)
  let ?key = "repo_key (rw_repo (xw_run x0)) (pack_name pack)"
  from Cons.prems(4) obtain data y z where y: "on_run (in_world (from_bstore (mem_get_range ?key (of_nat (group_start g)) (of_nat (group_end g - group_start g))))) x = (Inr data, y)"
    and z: "act_each (write_read B (rp_keys (rw_repo (xw_run x0))) (map ((@) target) PS) (group_start g) data) g y = (Inr (), z)"
    and r: "act_each (\<lambda>g. act_bind (on_run (in_world (from_bstore (mem_get_range ?key
         (of_nat (group_start g)) (of_nat (group_end g - group_start g)))))) (\<lambda>data.
       act_each (write_read B (rp_keys (rw_repo (xw_run x0))) (map ((@) target) PS) (group_start g) data) g)) gss z = (Inr (), x')"
    by (auto simp: act_bind_ok)
  have m: "merged g" using Cons.prems(2) by simp
  then have "hd g \<in> set g" by (simp add: merged_def)
  then have le: "group_start g \<le> group_end g" using group_end_le [of "hd g" g] by (simp add: group_start_def pe_end_def)
  have "rd_end rd < 2 ^ 33" for rd
    using unsigned_less [of "pe_offset (br_entry rd)", where 'a = nat] unsigned_less [of "pe_length (br_entry rd)", where 'a = nat]
    by (simp add: pe_end_def)
  then have "\<forall>rd\<in>set g. rd_end rd < 2 ^ 34" by (meson less_trans power_strict_increasing_iff one_less_numeral_iff semiring_norm)
  then have "group_end g < 2 ^ 34" unfolding group_end_def
  proof -
    assume a: "\<forall>rd\<in>set g. rd_end rd < 2 ^ 34"
    have "(\<forall>n\<in>set ns. n < 2 ^ 34) \<Longrightarrow> m < 2 ^ 34 \<Longrightarrow> fold max ns m < 2 ^ 34" for ns and m :: nat
      by (induction ns arbitrary: m) auto
    from this [of "map (\<lambda>rd. rd_end rd) g" 0] a show "fold max (map (\<lambda>rd. rd_end rd) g) 0 < 2 ^ 34" by auto
  qed
  from get_range_reading [OF Cons.prems(1) le this y] obtain full where full: "stored (rw_world (xw_run x0)) ?key = Some full"
    "group_end g \<le> length full" "data = take (group_end g - group_start g) (drop (group_start g) full)" "reading target T fs0 D x0 PS is E S y"
    by blast
  have b: "\<forall>rd\<in>set g. group_start g \<le> rd_start rd \<and> rd_end rd \<le> group_end g" using m group_end_le by (auto simp: merged_def)
  have "\<forall>rd\<in>set g. \<exists>c. read_ok B x0 E pack c rd" using Cons.prems(3) by simp
  note step = group_reading [OF full(4) this full(1) b full(2) z [unfolded full(3)]]
  from Cons.IH [OF step [THEN conjunct1] _ _ r] Cons.prems(2,3) step show ?case by (auto simp: Un_assoc image_Un)
qed simp

lemma read_pack_reading:
  assumes rd: "reading target T fs0 D x0 PS is E S x" and ok: "\<And>c rd. fmlookup blobs c = Some rd \<Longrightarrow> read_ok B x0 E pack c rd"
    and r: "read_pack B (map ((@) target) PS) (pack, blobs) x = (Inr (), x')"
  shows "\<exists>S'. reading target T fs0 D x0 PS is E S' x' \<and> S \<subseteq> S' \<and>
    (\<forall>c rd. fmlookup blobs c = Some rd \<longrightarrow> read_covers rd \<subseteq> S' \<and> read_done B x0 c)"
proof -
  let ?rds = "sort_key (\<lambda>rd. pe_offset (br_entry rd)) (fm_values blobs)"
  note g = group_reads_merged [OF sorted_starts [of "fm_values blobs"]]
  have mem: "rd \<in> set (concat (group_reads ?rds)) \<longleftrightarrow> (\<exists>c. fmlookup blobs c = Some rd)" for rd
    unfolding g(1) by (simp add: fm_values_iff)
  have "\<forall>g\<in>set (group_reads ?rds). \<forall>rd\<in>set g. \<exists>c. read_ok B x0 E pack c rd"
    using mem ok by fastforce
  note all = groups_reading [OF rd g(2) this]
  have run: "act_each (\<lambda>g. act_bind (on_run (in_world (from_bstore (mem_get_range (repo_key (rw_repo (xw_run x0)) (pack_name pack))
         (of_nat (group_start g)) (of_nat (group_end g - group_start g)))))) (\<lambda>data.
       act_each (write_read B (rp_keys (rw_repo (xw_run x0))) (map ((@) target) PS) (group_start g) data) g)) (group_reads ?rds) x = (Inr (), x')"
    using r rd unfolding read_pack_def Let_def prod.case reading_def by metis
  define C where "C = \<Union> (read_covers ` set (concat (group_reads ?rds)))"
  have a: "reading target T fs0 D x0 PS is E (S \<union> C) x'"
    and d: "\<And>rd c. rd \<in> set (concat (group_reads ?rds)) \<Longrightarrow> read_ok B x0 E pack c rd \<Longrightarrow> read_done B x0 c"
    using all [OF run] unfolding C_def by blast+
  have "read_covers rd \<subseteq> S \<union> C \<and> read_done B x0 c" if "fmlookup blobs c = Some rd" for c rd
  proof -
    have "rd \<in> set (concat (group_reads ?rds))" using mem that by blast
    with d ok [OF that] show ?thesis unfolding C_def by blast
  qed
  with a show ?thesis by blast
qed

lemma read_packs_reading:
  assumes "reading target T fs0 D x0 PS is E S x"
    and "\<And>pack blobs c rd. (pack, blobs) \<in> set ps \<Longrightarrow> fmlookup blobs c = Some rd \<Longrightarrow> read_ok B x0 E pack c rd"
    and "act_each (read_pack B (map ((@) target) PS)) ps x = (Inr (), x')"
  shows "\<exists>S'. reading target T fs0 D x0 PS is E S' x' \<and> S \<subseteq> S' \<and>
    (\<forall>pack blobs c rd. (pack, blobs) \<in> set ps \<and> fmlookup blobs c = Some rd \<longrightarrow> read_covers rd \<subseteq> S' \<and> read_done B x0 c)"
  using assms
proof (induction ps arbitrary: S x)
  case (Cons p ps)
  obtain pack blobs where p: "p = (pack, blobs)" by (rule prod.exhaust)
  from Cons.prems(3) obtain y where y: "read_pack B (map ((@) target) PS) (pack, blobs) x = (Inr (), y)"
    and r: "act_each (read_pack B (map ((@) target) PS)) ps y = (Inr (), x')" by (auto simp: p act_bind_ok)
  from read_pack_reading [OF Cons.prems(1) _ y] Cons.prems(2) obtain S1 where S1: "reading target T fs0 D x0 PS is E S1 y" "S \<subseteq> S1"
    "\<forall>c rd. fmlookup blobs c = Some rd \<longrightarrow> read_covers rd \<subseteq> S1 \<and> read_done B x0 c" by (auto simp: p) blast
  from Cons.IH [OF S1(1) _ r] Cons.prems(2) obtain S2 where S2: "reading target T fs0 D x0 PS is E S2 x'" "S1 \<subseteq> S2"
    "\<forall>pack blobs c rd. (pack, blobs) \<in> set ps \<and> fmlookup blobs c = Some rd \<longrightarrow> read_covers rd \<subseteq> S2 \<and> read_done B x0 c" by (auto) blast
  show ?case
  proof (intro exI [of _ S2] conjI allI impI)
    fix pack' blobs' c rd assume a: "(pack', blobs') \<in> set (p # ps) \<and> fmlookup blobs' c = Some rd"
    then consider "blobs' = blobs" | "(pack', blobs') \<in> set ps" by (auto simp: p)
    then have "read_covers rd \<subseteq> S2 \<and> read_done B x0 c"
    proof cases
      case 1
      then have "read_covers rd \<subseteq> S1 \<and> read_done B x0 c" using S1(3) [rule_format, of c rd] a by simp
      with S2(2) show ?thesis by (meson subset_trans)
    next
      case 2
      with S2(3) a show ?thesis by blast
    qed
    then show "read_covers rd \<subseteq> S2" "read_done B x0 c" by simp_all
  next
    show "reading target T fs0 D x0 PS is E S2 x'" by (rule S2(1))
    show "S \<subseteq> S2" using S1(2) S2(2) by blast
  qed
qed auto

section \<open>What the plan of the reads asks for\<close>

definition plain_len :: "index \<Rightarrow> bid \<Rightarrow> nat" where
  "plain_len ix c = (case index_lookup c ix of None \<Rightarrow> 0 | Some l \<Rightarrow> unat (pe_plain (lo_entry l)))"

text \<open>The places planned so far: pack, chunk, file and offset.\<close>

definition places :: "reads_by_pack \<Rightarrow> (bid \<times> nat \<times> nat) set" where
  "places m = {(c, f, unat offset) | c f offset. \<exists>pack blobs rd. fmlookup m pack = Some blobs \<and> fmlookup blobs c = Some rd \<and>
     (f, offset) \<in> set (br_destinations rd)}"

definition plan_entries :: "index \<Rightarrow> reads_by_pack \<Rightarrow> bool" where
  "plan_entries ix m \<longleftrightarrow> (\<forall>pack blobs c rd. fmlookup m pack = Some blobs \<and> fmlookup blobs c = Some rd \<longrightarrow>
     (\<exists>l. index_lookup c ix = Some l \<and> lo_pack l = pack \<and> lo_entry l = br_entry rd))"

lemma places_empty [simp]: "places fmempty = {}" "plan_entries ix fmempty"
  by (simp_all add: places_def plan_entries_def)

lemma add_read_entries:
  assumes "plan_entries ix m" and "index_lookup c ix = Some l"
  shows "plan_entries ix (add_read f c l offset m)"
proof -
  have "lo_entry l = br_entry rd" if "fmlookup m (lo_pack l) = Some blobs" "fmlookup blobs c = Some rd" for blobs rd
    using assms that unfolding plan_entries_def by fastforce
  then show ?thesis
    using assms unfolding plan_entries_def add_read_def Let_def by (auto split: if_splits option.splits)
qed

text \<open>The places of the chunks of one file.\<close>

definition places_of :: "index \<Rightarrow> nat \<Rightarrow> nat \<Rightarrow> bid list \<Rightarrow> (bid \<times> nat \<times> nat) set" where
  "places_of ix f offset cs = (\<lambda>k. (cs ! k, f, offset + sum_list (map (plain_len ix) (take k cs)))) ` {..<length cs}"

lemma places_of_Cons: "places_of ix f offset (c # cs) = insert (c, f, offset) (places_of ix f (offset + plain_len ix c) cs)"
  unfolding places_of_def list.size One_nat_def add_0_right add_Suc_right lessThan_Suc_eq_insert_0 image_insert image_image
  by (simp add: add.assoc)

lemma add_read_places: "places (add_read f c l offset m) = insert (c, f, unat offset) (places m)"
proof -
  define at where "at = (\<lambda>(m :: reads_by_pack) p c. Option.bind (fmlookup m p) (\<lambda>blobs. fmlookup blobs c))"
  define old where "old = (case at m (lo_pack l) c of None \<Rightarrow> \<lparr>br_entry = lo_entry l, br_destinations = []\<rparr> | Some rd \<Rightarrow> rd)"
  have pl: "places m = {(c, f, unat o') | c f o'. \<exists>p rd. at m p c = Some rd \<and> (f, o') \<in> set (br_destinations rd)}" for m
    by (simp add: places_def at_def bind_eq_Some_conv) blast
  have new: "at (add_read f c l offset m) p c' = (if p = lo_pack l \<and> c' = c
      then Some (old\<lparr>br_destinations := br_destinations old @ [(f, offset)]\<rparr>) else at m p c')" for p c'
    by (auto simp: at_def old_def add_read_def Let_def split: option.splits)
  have o: "(g, o') \<in> set (br_destinations old) \<longleftrightarrow> (\<exists>rd. at m (lo_pack l) c = Some rd \<and> (g, o') \<in> set (br_destinations rd))" for g o'
    by (simp add: old_def split: option.splits)
  have step: "(\<exists>rd. at (add_read f c l offset m) p c' = Some rd \<and> (g, o') \<in> set (br_destinations rd)) \<longleftrightarrow>
      (\<exists>rd. at m p c' = Some rd \<and> (g, o') \<in> set (br_destinations rd)) \<or> p = lo_pack l \<and> c' = c \<and> g = f \<and> o' = offset" for p c' g o'
    using o [of g o'] by (cases "p = lo_pack l \<and> c' = c") (auto simp: new)
  have "{(c', g, unat o') | c' g o'. \<exists>p. P p c' g o' \<or> p = q \<and> c' = c \<and> g = f \<and> o' = offset} =
      insert (c, f, unat offset) {(c', g, unat o') | c' g o'. \<exists>p. P p c' g o'}" for P and q :: bid
    by auto
  from this [of "\<lambda>p c' g o'. \<exists>rd. at m p c' = Some rd \<and> (g, o') \<in> set (br_destinations rd)" "lo_pack l"]
  show ?thesis unfolding pl step .
qed

lemma plan_chunks_ok:
  assumes "plan_chunks ix f cs offset m = Inr (offset', m')" and "plan_entries ix m" and "unat offset + sum_list (map (plain_len ix) cs) < 2 ^ 64"
  shows "unat offset' = unat offset + sum_list (map (plain_len ix) cs) \<and> plan_entries ix m' \<and> (\<forall>c\<in>set cs. index_lookup c ix \<noteq> None) \<and>
    places m' = places m \<union> places_of ix f (unat offset) cs"
  using assms
proof (induction cs arbitrary: offset m)
  case (Cons c cs)
  from Cons.prems(1) obtain l where l: "index_lookup c ix = Some l"
    and r: "plan_chunks ix f cs (offset + ucast (pe_plain (lo_entry l))) (add_read f c l offset m) = Inr (offset', m')" by (auto split: option.splits)
  have pl: "plain_len ix c = unat (pe_plain (lo_entry l))" by (simp add: plain_len_def l)
  have u: "unat (ucast (pe_plain (lo_entry l)) :: u64) = plain_len ix c"
    by (simp add: pl unsigned_ucast_eq take_bit_nat_eq_self_iff) (rule less_trans [OF unsigned_less]; simp)
  have off: "unat (offset + ucast (pe_plain (lo_entry l))) = unat offset + plain_len ix c"
    using Cons.prems(3) by (simp add: unat_word_ariths u)
  from Cons.IH [OF r add_read_entries [OF Cons.prems(2) l]] Cons.prems(3) off
  have "unat offset' = unat offset + plain_len ix c + sum_list (map (plain_len ix) cs)" "plan_entries ix m'" "\<forall>c\<in>set cs. index_lookup c ix \<noteq> None"
    "places m' = insert (c, f, unat offset) (places m) \<union> places_of ix f (unat offset + plain_len ix c) cs"
    by (simp_all add: add_read_places)
  then show ?case using l by (auto simp: places_of_Cons)
qed (auto simp: places_of_def)

definition places_all :: "index \<Rightarrow> nat \<Rightarrow> (upath \<times> node) list \<Rightarrow> (bid \<times> nat \<times> nat) set" where
  "places_all ix f0 tw = (\<Union>i<length tw. places_of ix (f0 + i) 0 (nd_content (snd (tw ! i))))"

lemma places_all_Cons: "places_all ix f0 (e # tw) = places_of ix f0 0 (nd_content (snd e)) \<union> places_all ix (f0 + 1) tw"
  unfolding places_all_def list.size One_nat_def add_0_right add_Suc_right lessThan_Suc_eq_insert_0 by (simp add: image_image)

lemma plan_reads_ok:
  assumes "plan_reads ix f0 tw m = Inr m'" and "plan_entries ix m" and "\<forall>e\<in>set tw. sum_list (map (plain_len ix) (nd_content (snd e))) < 2 ^ 64"
  shows "plan_entries ix m' \<and> (\<forall>e\<in>set tw. sum_list (map (plain_len ix) (nd_content (snd e))) = unat (nd_size (snd e))) \<and>
    (\<forall>e\<in>set tw. \<forall>c\<in>set (nd_content (snd e)). index_lookup c ix \<noteq> None) \<and> places m' = places m \<union> places_all ix f0 tw"
  using assms
proof (induction tw arbitrary: f0 m)
  case (Cons e tw)
  obtain path nd where e: "e = (path, nd)" by (rule prod.exhaust)
  from Cons.prems(1) obtain m1 where c: "plan_chunks ix f0 (nd_content nd) 0 m = Inr (nd_size nd, m1)" and r: "plan_reads ix (f0 + 1) tw m1 = Inr m'"
    by (auto simp: e res_bind_ok split: if_splits)
  have "unat (0 :: u64) + sum_list (map (plain_len ix) (nd_content nd)) < 2 ^ 64" using Cons.prems(3) by (simp add: e)
  from plan_chunks_ok [OF c Cons.prems(2) this] have 1: "unat (nd_size nd) = sum_list (map (plain_len ix) (nd_content nd))" "plan_entries ix m1"
    "\<forall>c\<in>set (nd_content nd). index_lookup c ix \<noteq> None" "places m1 = places m \<union> places_of ix f0 0 (nd_content nd)"
    by simp_all
  from Cons.IH [OF r 1(2)] Cons.prems(3) 1 show ?case by (simp add: e places_all_Cons Un_assoc)
qed (simp add: places_all_def)

section \<open>The content of a file\<close>

text \<open>The plaintexts of the chunks of a node, one after the other, as many bytes as it records.\<close>

definition content_of :: "benv \<Rightarrow> repository \<Rightarrow> bworld \<Rightarrow> node \<Rightarrow> bytes \<Rightarrow> bool" where
  "content_of B r w nd b \<longleftrightarrow> (\<exists>ps. list_all2 (chunk_at B r w) (nd_content nd) ps \<and> b = concat ps) \<and> length b = unat (nd_size nd)"

lemma concat_segment:
  "k < length xs \<Longrightarrow> take (length (xs ! k)) (drop (sum_list (map length (take k xs))) (concat xs)) = xs ! k \<and>
    sum_list (map length (take k xs)) + length (xs ! k) \<le> length (concat xs)"
  by (induction xs arbitrary: k) (auto simp: less_Suc_eq_0_disj)

lemma position_in_sum:
  "j < sum_list ns \<Longrightarrow> \<exists>k < length ns. sum_list (take k ns) \<le> j \<and> j < sum_list (take k ns) + (ns ! k :: nat)"
proof (induction ns arbitrary: j)
  case (Cons n ns)
  show ?case
  proof (cases "j < n")
    case False
    with Cons.prems have "j - n < sum_list ns" by auto
    from Cons.IH [OF this] obtain k where "k < length ns" "sum_list (take k ns) \<le> j - n" "j - n < sum_list (take k ns) + ns ! k" by blast
    with False show ?thesis by (intro exI [of _ "Suc k"]) auto
  qed auto
qed simp

lemma plain_len_bound: "length cs < 2 ^ 32 \<Longrightarrow> sum_list (map (plain_len ix) cs) < 2 ^ 64"
proof -
  assume "length cs < 2 ^ 32"
  have "plain_len ix c \<le> 2 ^ 32 - 1" for c
  proof (cases "index_lookup c ix")
    case (Some l)
    then show ?thesis using unsigned_less [of "pe_plain (lo_entry l)", where 'a = nat] by (simp add: plain_len_def)
  qed (simp add: plain_len_def)
  then have "sum_list (map (plain_len ix) cs) \<le> length cs * (2 ^ 32 - 1)"
    using sum_list_mono [of cs "plain_len ix" "\<lambda>_. 2 ^ 32 - 1"] by (simp add: sum_list_triv)
  also have "\<dots> \<le> (2 ^ 32 - 1) * (2 ^ 32 - 1)" using \<open>length cs < 2 ^ 32\<close> by (intro mult_right_mono) auto
  finally show ?thesis by simp
qed

lemma read_files_exact:
  assumes x: "inside target T fs0 D x" and fa: "files_at (xw_fs x) (map ((@) T) PS) is" and re: "\<forall>ps\<in>set PS. reachable_entry D ps"
    and tw: "map fst tw = map ((@) target) PS" and zero: "map (bytes_of (xw_fs x)) is = map (\<lambda>(p, nd). replicate (unat (nd_size nd)) 0) tw"
    and small: "\<forall>e\<in>set tw. length (nd_content (snd e)) < 2 ^ 32"
    and plan: "plan_reads (rp_index (rw_repo (xw_run x))) 0 tw fmempty = Inr m" and arr: "set ps = set (fm_entries m)"
    and run: "act_each (read_pack B (map fst tw)) ps x = (Inr (), x')"
  shows "inside target T fs0 D x' \<and> files_at (xw_fs x') (map ((@) T) PS) is \<and> nodes_kept (xw_fs x) (xw_fs x') \<and>
    list_all2 (\<lambda>e b. content_of B (rw_repo (xw_run x)) (rw_world (xw_run x)) (snd e) b) tw (map (bytes_of (xw_fs x')) is)"
proof -
  let ?r = "rw_repo (xw_run x)" and ?w = "rw_world (xw_run x)"
  let ?ix = "rp_index ?r"
  define pl where "pl = (\<lambda>c. if \<exists>p. chunk_at B ?r ?w c p then (SOME p. chunk_at B ?r ?w c p) else replicate (plain_len ?ix c) 0)"
  have pl: "chunk_at B ?r ?w c p \<Longrightarrow> pl c = p" for c p
    using chunk_at_unique someI [of "chunk_at B ?r ?w c" p] unfolding pl_def by auto
  have len: "length (pl c) = plain_len ?ix c" for c
  proof (cases "\<exists>p. chunk_at B ?r ?w c p")
    case True
    then obtain p where p: "chunk_at B ?r ?w c p" by blast
    from chunk_at_length [OF p] pl [OF p] show ?thesis by (auto simp: plain_len_def)
  next
    case False
    then have "pl c = replicate (plain_len ?ix c) 0" unfolding pl_def by (rule if_not_P)
    then show ?thesis by simp
  qed
  define E where "E = map (\<lambda>e. concat (map pl (nd_content (snd e)))) tw"
  have lentw: "length tw = length PS" using tw by (metis length_map)
  have b: "\<forall>e\<in>set tw. sum_list (map (plain_len ?ix) (nd_content (snd e))) < 2 ^ 64" using small plain_len_bound by blast
  from plan_reads_ok [OF plan _ b] have ent: "plan_entries ?ix m"
    and size: "\<And>e. e \<in> set tw \<Longrightarrow> sum_list (map (plain_len ?ix) (nd_content (snd e))) = unat (nd_size (snd e))"
    and pls: "places m = places_all ?ix 0 tw" by simp_all
  have lenc: "map length (map pl cs) = map (plain_len ?ix) cs" for cs by (simp add: len)
  have lenE: "length (concat (map pl (nd_content (snd e)))) = unat (nd_size (snd e))" if "e \<in> set tw" for e
    using size [OF that] by (simp add: length_concat len comp_def)
  have start: "reading target T fs0 D x PS is E {} x"
    using x fa re lentw zero lenE by (auto simp: reading_def agrees_def E_def split_beta)
  have seg: "right_place E (pl c) (f, offset) \<and> f < length tw" if "(c, f, unat offset) \<in> places m" for c f offset
  proof -
    from that obtain k where k: "f < length tw" "k < length (nd_content (snd (tw ! f)))" "c = nd_content (snd (tw ! f)) ! k"
      "unat offset = sum_list (map (plain_len ?ix) (take k (nd_content (snd (tw ! f)))))"
      unfolding pls places_all_def places_of_def by auto
    have "take (length (pl c)) (drop (unat offset) (E ! f)) = pl c \<and> unat offset + length (pl c) \<le> length (E ! f)"
      using concat_segment [of k "map pl (nd_content (snd (tw ! f)))"] k by (simp add: E_def take_map lenc [symmetric] comp_def)
    with k(1) show ?thesis by (simp add: right_place_def E_def)
  qed
  have ok: "read_ok B x E pack c rd" if "(pack, blobs) \<in> set ps" "fmlookup blobs c = Some rd" for pack blobs c rd
  proof -
    have m: "fmlookup m pack = Some blobs" using that(1) by (simp add: arr fm_entries_iff)
    have "right_place E p d" if p: "chunk_at B ?r ?w c p" and d: "d \<in> set (br_destinations rd)" for p d
    proof -
      obtain f offset where d': "d = (f, offset)" by (rule prod.exhaust)
      have "(c, f, unat offset) \<in> places m" using m \<open>fmlookup blobs c = Some rd\<close> d unfolding places_def d' by blast
      from seg [OF this] pl [OF p] show ?thesis by (simp add: d')
    qed
    moreover have "\<exists>l. index_lookup c ?ix = Some l \<and> lo_pack l = pack \<and> lo_entry l = br_entry rd" using ent m that(2) unfolding plan_entries_def by blast
    ultimately show ?thesis by (simp add: read_ok_def)
  qed
  from read_packs_reading [OF start _ run [unfolded tw]] ok obtain S where S: "reading target T fs0 D x PS is E S x'"
    "\<And>pack blobs c rd. (pack, blobs) \<in> set ps \<Longrightarrow> fmlookup blobs c = Some rd \<Longrightarrow> read_covers rd \<subseteq> S \<and> read_done B x c" by blast
  have chunk: "covers f (sum_list (map (plain_len ?ix) (take k (nd_content (snd (tw ! f)))))) (plain_len ?ix (nd_content (snd (tw ! f)) ! k)) \<subseteq> S \<and>
      read_done B x (nd_content (snd (tw ! f)) ! k)" if f: "f < length tw" and k: "k < length (nd_content (snd (tw ! f)))" for f k
  proof -
    let ?c = "nd_content (snd (tw ! f)) ! k" and ?o = "sum_list (map (plain_len ?ix) (take k (nd_content (snd (tw ! f)))))"
    have "(?c, f, ?o) \<in> places m" unfolding pls places_all_def places_of_def using f k by auto
    then obtain offset pack blobs rd where d: "unat offset = ?o" "fmlookup m pack = Some blobs" "fmlookup blobs ?c = Some rd"
      "(f, offset) \<in> set (br_destinations rd)" unfolding places_def by auto
    from d(2,3) ent have e: "plain_len ?ix ?c = unat (pe_plain (br_entry rd))" unfolding plan_entries_def plain_len_def by fastforce
    have "(pack, blobs) \<in> set ps" using d(2) by (simp add: arr fm_entries_iff)
    from S(2) [OF this d(3)] have s: "read_covers rd \<subseteq> S" "read_done B x ?c" by simp_all
    have "covers f ?o (plain_len ?ix ?c) \<subseteq> read_covers rd" using d(4) unfolding read_covers_def dest_covers_def e d(1) [symmetric] by blast
    with s show ?thesis by blast
  qed
  have "map (bytes_of (xw_fs x')) is = E"
  proof (rule agrees_all)
    show "agrees E S (map (bytes_of (xw_fs x')) is)" using S(1) by (simp add: reading_def)
    fix f j assume f: "f < length E" and j: "j < length (E ! f)"
    let ?cs = "nd_content (snd (tw ! f))"
    have "j < sum_list (map (plain_len ?ix) ?cs)" using f j by (simp add: E_def length_concat len comp_def)
    from position_in_sum [OF this] obtain k where k: "k < length ?cs" "sum_list (map (plain_len ?ix) (take k ?cs)) \<le> j"
      "j < sum_list (map (plain_len ?ix) (take k ?cs)) + plain_len ?ix (?cs ! k)" by (auto simp: take_map)
    have "f < length tw" using f by (simp add: E_def)
    from chunk [OF this k(1)] k(2,3) show "(f, j) \<in> S" by (auto simp: covers_def)
  qed
  moreover have "list_all2 (\<lambda>e b. content_of B ?r ?w (snd e) b) tw E"
  proof -
    have "content_of B ?r ?w (snd (tw ! f)) (concat (map pl (nd_content (snd (tw ! f)))))" if f: "f < length tw" for f
    proof -
      have "chunk_at B ?r ?w (nd_content (snd (tw ! f)) ! k) (pl (nd_content (snd (tw ! f)) ! k))" if "k < length (nd_content (snd (tw ! f)))" for k
        using chunk [OF f that] pl unfolding read_done_def by auto
      then have "list_all2 (chunk_at B ?r ?w) (nd_content (snd (tw ! f))) (map pl (nd_content (snd (tw ! f))))"
        by (simp add: list_all2_conv_all_nth)
      then show ?thesis using lenE [of "tw ! f"] f by (auto simp: content_of_def)
    qed
    then show ?thesis by (simp add: E_def list_all2_conv_all_nth)
  qed
  ultimately show ?thesis using S(1) by (simp add: reading_def)
qed

end
