(* ===== verification/Restore_Exact.thy ===== *)
theory Restore_Exact
  imports Restore_Content
begin

text \<open>
  A restore that succeeds without overwriting puts back what the snapshot recorded: every file of the plan
  with the content of its chunks, hard links as names of one file, symbolic links with their targets, and
  every directory.
\<close>

section \<open>The steps after the packs are read\<close>

text \<open>No entry changes its kind, no file its content.\<close>

definition quiet :: "unix_fs \<Rightarrow> unix_fs \<Rightarrow> bool" where
  "quiet fs fs' \<longleftrightarrow> nodes_kept fs fs' \<and> uf_next fs \<le> uf_next fs' \<and> (\<forall>i. bytes_of fs' i = bytes_of fs i) \<and>
     (\<forall>i. fmlookup (uf_inodes fs) i \<noteq> None \<longrightarrow> fmlookup (uf_inodes fs') i \<noteq> None) \<and>
     (\<forall>q. is_udir (fmlookup (uf_nodes fs) q) \<longrightarrow> is_udir (fmlookup (uf_nodes fs') q))"

lemma quiet_refl [simp]: "quiet fs fs"
  by (simp add: quiet_def)

lemma quiet_trans: "quiet a b \<Longrightarrow> quiet b c \<Longrightarrow> quiet a c"
  unfolding quiet_def by (metis nodes_kept_trans order_trans)

lemma quiet_files: "quiet fs fs' \<Longrightarrow> files_at fs qs is \<Longrightarrow> files_at fs' qs is"
  unfolding quiet_def files_at_def nodes_kept_def
  by (auto simp: list_all2_conv_all_nth intro: less_le_trans)

lemma quiet_set_attr: "quiet fs (snd (set_attr p f fs))"
  by (auto simp: set_attr_def act_bind_run place_for_def quiet_def nodes_kept_def set_node_def set_inode_def bytes_of_def
    split: sum.splits option.splits unode.splits)

lemma quiet_new_entry: "quiet fs (snd (new_entry p (\<lambda>q. set_node q n) fs))"
  by (auto simp: new_entry_def act_bind_run place_for_def quiet_def nodes_kept_def set_node_def bytes_of_def split: sum.splits option.splits)

lemma quiet_create_dir: "quiet fs (snd (create_dir p fs))"
  unfolding create_dir_def by (rule quiet_new_entry)

lemma quiet_hard_link: "quiet fs (snd (hard_link a b fs))"
  using quiet_new_entry by (auto simp: hard_link_def split: sum.splits unode.splits)

definition quiet_from :: "unix_fs \<Rightarrow> xworld \<Rightarrow> bool" where
  "quiet_from fs x \<longleftrightarrow> quiet fs (xw_fs x)"

lemma quiet_on_fs: "(\<And>fs'. quiet fs' (snd (m fs'))) \<Longrightarrow> act_keeps (quiet_from fs) (on_fs e m)"
  unfolding act_keeps_def quiet_from_def on_fs_run by (auto split: prod.splits) (metis quiet_trans snd_conv)

lemma quiet_add_stats: "act_keeps (quiet_from fs) (add_stats f)"
  unfolding add_stats_def by (rule keeps_mod) (simp add: quiet_from_def)

lemma quiet_check: "act_keeps (quiet_from fs) (check_contained r d)"
  unfolding check_contained_def by (intro keeps_intros quiet_on_fs) (simp add: look_def)

lemma clear_unwilling: "\<not> rt_overwrite r \<Longrightarrow> snd (clear r p x) = x"
  by (auto simp: clear_def split: sum.splits io_error.splits)

lemma quiet_clear: "\<not> rt_overwrite r \<Longrightarrow> act_keeps (quiet_from fs) (clear r p)"
  by (simp add: act_keeps_def clear_unwilling)

lemmas quiet_intros = keeps_intros quiet_add_stats quiet_check quiet_clear quiet_on_fs

lemma quiet_metadata: "act_keeps (quiet_from fs) (apply_metadata p nd)"
  unfolding apply_metadata_def by (intro keeps_if quiet_intros quiet_set_attr)

lemma quiet_link: "\<not> rt_overwrite r \<Longrightarrow> act_keeps (quiet_from fs) (make_link r e)"
  unfolding make_link_def by (cases e) (simp, intro quiet_intros quiet_hard_link)

lemma quiet_make_symlink: "\<not> rt_overwrite r \<Longrightarrow> act_keeps (quiet_from fs) (make_symlink r rel nd)"
  unfolding make_symlink_def Let_def symlink_def by (intro quiet_intros quiet_new_entry)

lemma quiet_make_dir:
  assumes "\<not> rt_overwrite r"
  shows "act_keeps (quiet_from fs) (make_dir r rel)"
proof -
  have "act_keeps (quiet_from fs) (\<lambda>x. case symlink_metadata (xw_fs x) p of
      Inr n \<Rightarrow> if is_udir (Some n) then (Inr (), x) else act_bind (clear r p) (\<lambda>_. on_fs io_failed (create_dir p)) x
    | Inl IoNotFound \<Rightarrow> on_fs io_failed (create_dir p) x
    | Inl e \<Rightarrow> (Inl (io_failed e), x))" for p
  proof -
    have c: "act_keeps (quiet_from fs) (act_bind (clear r p) (\<lambda>_. on_fs io_failed (create_dir p)))"
      by (intro quiet_intros quiet_create_dir assms)
    have d: "act_keeps (quiet_from fs) (on_fs io_failed (create_dir p))" by (intro quiet_intros quiet_create_dir)
    show ?thesis using c d unfolding act_keeps_def by (auto split: sum.splits io_error.splits)
  qed
  then show ?thesis unfolding make_dir_def Let_def by (intro quiet_intros)
qed

lemma make_symlink_ok:
  assumes "inside target T fs0 D x" and e: "reachable_entry D ps" and p: "rt_path r rel = target @ ps" and o: "\<not> rt_overwrite r"
    and m: "make_symlink r rel nd x = (Inr (), x')"
  shows "\<exists>t. nd_link nd = Some t \<and> fmlookup (uf_nodes (xw_fs x')) (T @ ps) = Some (ULink t)"
proof -
  note r = assms(1) [unfolded inside_def]
  from m obtain y z where y: "check_contained r (butlast (target @ ps)) x = (Inr (), y)" and z: "clear r (target @ ps) y = (Inr (), z)"
    and w: "(case nd_link nd of None \<Rightarrow> act_err (BPanic rel) | Some t \<Rightarrow> act_bind (on_fs io_failed (symlink t (target @ ps))) (\<lambda>_.
      add_stats (\<lambda>s. s\<lparr>rs_symlinks := rs_symlinks s + 1\<rparr>))) z = (Inr (), x')"
    by (auto simp: make_symlink_def Let_def p act_bind_ok)
  have "z = x" using check_contained_ok [OF y] clear_unwilling [OF o, of "target @ ps" y] z by simp
  with w show ?thesis
    by (auto simp: act_bind_run on_fs_run symlink_def new_entry_run [OF r e] add_stats_def set_node_def split: option.splits if_splits)
qed

lemma make_link_ok:
  assumes "inside target T fs0 D x" and q: "reachable_entry D qs" and e: "reachable_entry D ps" and o: "\<not> rt_overwrite r"
    and n: "fmlookup (uf_nodes (xw_fs x)) (T @ qs) = Some (UFile i)" and m: "make_link r (target @ qs, target @ ps) x = (Inr (), x')"
  shows "fmlookup (uf_nodes (xw_fs x')) (T @ ps) = Some (UFile i)"
proof -
  note r = assms(1) [unfolded inside_def]
  from m obtain y z where y: "check_contained r (butlast (target @ ps)) x = (Inr (), y)" and z: "clear r (target @ ps) y = (Inr (), z)"
    and w: "act_bind (on_fs io_failed (hard_link (target @ qs) (target @ ps))) (\<lambda>_. add_stats (\<lambda>s. s\<lparr>rs_hardlinks := rs_hardlinks s + 1\<rparr>)) z = (Inr (), x')"
    by (auto simp: make_link_def act_bind_ok)
  have "z = x" using check_contained_ok [OF y] clear_unwilling [OF o, of "target @ ps" y] z by simp
  with w show ?thesis
    by (auto simp: act_bind_run on_fs_run hard_link_def entry_metadata [OF r q] n new_entry_run [OF r e] add_stats_def set_node_def split: if_splits)
qed

text \<open>A list of calls that keep an invariant: what one of them established is still there at the end.\<close>

lemma each_established:
  assumes "\<And>e. e \<in> set es \<Longrightarrow> act_keeps P (f e)" and "\<And>e y z. e \<in> set es \<Longrightarrow> P y \<Longrightarrow> f e y = (Inr (), z) \<Longrightarrow> Q e z"
    and "\<And>e e' y. e \<in> set es \<Longrightarrow> e' \<in> set es \<Longrightarrow> Q e' y \<Longrightarrow> Q e' (snd (f e y))"
    and "P x" and "act_each f es x = (Inr (), x')"
  shows "P x' \<and> (\<forall>e\<in>set es. Q e x')"
proof -
  have "P x' \<and> (\<forall>e\<in>set es'. Q e x') \<and> (\<forall>e\<in>set es. Q e x \<longrightarrow> Q e x')"
    if "P x" "act_each f es' x = (Inr (), x')" "set es' \<subseteq> set es" for es' x
    using that
  proof (induction es' arbitrary: x)
    case (Cons e es')
    from Cons.prems(2) obtain y where y: "f e x = (Inr (), y)" "act_each f es' y = (Inr (), x')" by (auto simp: act_bind_ok)
    have "P y" using act_keepsD [OF assms(1) Cons.prems(1) y(1)] Cons.prems(3) by simp
    moreover have "Q e y" using assms(2) [OF _ Cons.prems(1) y(1)] Cons.prems(3) by simp
    moreover have "\<forall>e'\<in>set es. Q e' x \<longrightarrow> Q e' y" using assms(3) [of e _ x] Cons.prems(3) y(1) by auto
    ultimately show ?case using Cons.IH [OF _ y(2)] Cons.prems(3) by auto
  qed auto
  from this [of x es] assms(4,5) show ?thesis by simp
qed

section \<open>Hard links\<close>

definition same_inode :: "node \<Rightarrow> node \<Rightarrow> bool" where
  "same_inode a b \<longleftrightarrow> is_hardlink a \<and> is_hardlink b \<and> nd_device a = nd_device b \<and> nd_inode a = nd_inode b"

text \<open>Every file is written, or linked to one that is written and had its inode.\<close>

lemma split_links_all:
  assumes "split_links r fs seen tw ls = (tw', ls')"
    and "\<And>k p. fmlookup seen k = Some p \<Longrightarrow> \<exists>e. (p, e) \<in> set tw \<and> is_hardlink e \<and> k = (nd_device e, nd_inode e)"
  shows "set tw \<subseteq> set tw' \<and> set ls \<subseteq> set ls' \<and>
    (\<forall>(rel, nd)\<in>set fs. (rt_path r rel, nd) \<in> set tw' \<or> (\<exists>p e. (p, rt_path r rel) \<in> set ls' \<and> (p, e) \<in> set tw' \<and> same_inode e nd))"
  using assms
proof (induction r fs seen tw ls rule: split_links.induct)
  case (2 r rel nd fs seen tw ls)
  define k where "k = (nd_device nd, nd_inode nd)"
  define p where "p = rt_path r rel"
  note IH = "2.IH" [of p, folded k_def, OF p_def]
  show ?case
  proof (cases "is_hardlink nd")
    case False
    then have "split_links r fs seen (tw @ [(p, nd)]) ls = (tw', ls')" using "2.prems"(1) by (simp add: Let_def p_def)
    from IH(3) [OF False this] "2.prems"(2) show ?thesis by (fastforce simp: p_def)
  next
    case True
    show ?thesis
    proof (cases "fmlookup seen k")
      case None
      then have "split_links r fs (fmupd k p seen) (tw @ [(p, nd)]) ls = (tw', ls')"
        using "2.prems"(1) True by (simp add: Let_def p_def k_def)
      moreover have "\<exists>e. (q, e) \<in> set (tw @ [(p, nd)]) \<and> is_hardlink e \<and> k' = (nd_device e, nd_inode e)" if "fmlookup (fmupd k p seen) k' = Some q" for k' q
        using that "2.prems"(2) [of k' q] True by (auto simp: k_def split: if_splits)
      ultimately show ?thesis using IH(1) [OF True None] by (fastforce simp: p_def)
    next
      case (Some ex)
      then have "split_links r fs seen tw (ls @ [(ex, p)]) = (tw', ls')" using "2.prems"(1) True by (simp add: Let_def p_def k_def)
      from IH(2) [OF True Some this] "2.prems"(2) have ih: "set tw \<subseteq> set tw'" "set (ls @ [(ex, p)]) \<subseteq> set ls'"
        "\<forall>(rel, nd)\<in>set fs. (rt_path r rel, nd) \<in> set tw' \<or> (\<exists>p e. (p, rt_path r rel) \<in> set ls' \<and> (p, e) \<in> set tw' \<and> same_inode e nd)" by blast+
      obtain e where "(ex, e) \<in> set tw" "is_hardlink e" "k = (nd_device e, nd_inode e)" using "2.prems"(2) [OF Some] by blast
      then have "(ex, p) \<in> set ls' \<and> (ex, e) \<in> set tw' \<and> same_inode e nd" using ih(1,2) True by (auto simp: same_inode_def k_def)
      with ih show ?thesis unfolding p_def by (auto simp del: split_paired_Ex)
    qed
  qed
qed auto

lemma split_links_keeps: "split_links r fs seen tw ls = (tw', ls') \<Longrightarrow> set tw \<subseteq> set tw'"
proof (induction r fs seen tw ls rule: split_links.induct)
  case (2 r rel nd fs seen tw ls)
  show ?case
  proof (cases "is_hardlink nd")
    case False
    with "2.IH"(3) [OF refl False] "2.prems" show ?thesis by (auto simp: Let_def)
  next
    case True
    with "2.IH"(1,2) [OF refl True] "2.prems" show ?thesis by (auto simp: Let_def split: option.splits)
  qed
qed auto

lemma split_links_written:
  "split_links r fs seen tw ls = (tw', ls') \<Longrightarrow> e \<in> set tw' \<Longrightarrow> e \<in> set tw \<or> (\<exists>f\<in>set fs. e = (rt_path r (fst f), snd f))"
proof (induction r fs seen tw ls rule: split_links.induct)
  case (2 r rel nd fs seen tw ls)
  show ?case
  proof (cases "is_hardlink nd")
    case False
    with "2.IH"(3) [OF refl False] "2.prems" show ?thesis by (auto simp: Let_def)
  next
    case True
    with "2.IH"(1,2) [OF refl True] "2.prems" show ?thesis by (auto simp: Let_def split: option.splits)
  qed
qed auto

lemma split_links_first:
  "split_links r fs seen tw ls = (tw', ls') \<Longrightarrow> (\<And>k p. fmlookup seen k = Some p \<Longrightarrow> p \<in> fst ` set tw) \<Longrightarrow> e \<in> set ls' \<Longrightarrow>
    e \<in> set ls \<or> fst e \<in> fst ` set tw'"
proof (induction r fs seen tw ls rule: split_links.induct)
  case (2 r rel nd fs seen tw ls)
  define k where "k = (nd_device nd, nd_inode nd)"
  define p where "p = rt_path r rel"
  note IH = "2.IH" [of p, folded k_def, OF p_def]
  show ?case
  proof (cases "is_hardlink nd")
    case False
    then have "split_links r fs seen (tw @ [(p, nd)]) ls = (tw', ls')" using "2.prems"(1) by (simp add: Let_def p_def)
    from IH(3) [OF False this _ "2.prems"(3)] "2.prems"(2) show ?thesis by auto
  next
    case True
    show ?thesis
    proof (cases "fmlookup seen k")
      case None
      then have r': "split_links r fs (fmupd k p seen) (tw @ [(p, nd)]) ls = (tw', ls')"
        using "2.prems"(1) True by (simp add: Let_def p_def k_def)
      have mem: "q \<in> fst ` set (tw @ [(p, nd)])" if "fmlookup (fmupd k p seen) k' = Some q" for k' q
        using that "2.prems"(2) [of k' q] by (auto split: if_splits)
      show ?thesis using IH(1) [OF True None r' _ "2.prems"(3)] mem by blast
    next
      case (Some ex)
      then have r': "split_links r fs seen tw (ls @ [(ex, p)]) = (tw', ls')" using "2.prems"(1) True by (simp add: Let_def p_def k_def)
      have "ex \<in> fst ` set tw" by (rule "2.prems"(2) [OF Some])
      moreover have "set tw \<subseteq> set tw'"
        using split_links_keeps [OF r'] .
      ultimately have "ex \<in> fst ` set tw'" by (meson image_mono subsetD)
      moreover have "e \<in> set (ls @ [(ex, p)]) \<or> fst e \<in> fst ` set tw'"
        using IH(2) [OF True Some r' _ "2.prems"(3)] "2.prems"(2) by blast
      ultimately show ?thesis by (cases "e = (ex, p)") simp_all
    qed
  qed
qed auto

section \<open>Loading the trees only reads\<close>

definition same_repo :: "rworld \<Rightarrow> rworld \<Rightarrow> bool" where
  "same_repo v v' \<longleftrightarrow> rw_repo v' = rw_repo v \<and> objects (rw_world v') = objects (rw_world v)"

lemma same_in_world:
  "act_keeps (\<lambda>w. objects w = obs) m \<Longrightarrow> act_keeps (\<lambda>v. rw_repo v = r \<and> objects (rw_world v) = obs) (in_world m)"
  by (auto simp: act_keeps_def in_world_run split: prod.splits)

lemma load_pack_blob_reads: "act_keeps (\<lambda>w. objects w = obs) (load_pack_blob B ks k e)"
  by (auto simp: act_keeps_def load_pack_blob_def act_bind_run from_bstore_run mem_get_range_def Let_def split: option.splits sum.splits)

lemma plan_tree_reads:
  "act_keeps (\<lambda>v. rw_repo v = r \<and> objects (rw_world v) = obs) (plan_tree n B C G inc exc t dir included plan)"
proof (induction n arbitrary: t dir included plan)
  case 0
  then show ?case by (simp add: act_keeps_def)
next
  case (Suc n)
  let ?P = "\<lambda>v. rw_repo v = r \<and> objects (rw_world v) = obs"
  have blob: "act_keeps ?P (load_blob B t)" unfolding load_blob_def
    using same_in_world [OF load_pack_blob_reads] by (auto simp: act_keeps_def split: option.splits)
  have cache: "act_keeps ?P (in_world (cache_put CTree t p))" "act_keeps ?P (in_world (cache_remove CTree t))" for p
    by (intro same_in_world; simp add: act_keeps_def)+
  have fetch: "act_keeps ?P (fetch_tree B C t)" unfolding fetch_tree_def by (intro keeps_intros blob cache)
  have remove: "act_keeps ?P (act_bind (in_world (cache_remove CTree t)) (\<lambda>_. fetch_tree B C t))" by (intro keeps_intros fetch cache)
  have "act_keeps ?P (load_tree B C t)"
    using fetch remove unfolding act_keeps_def load_tree_def by (auto split: option.splits)
  then show ?case unfolding plan_tree.simps Let_def
    by (intro keeps_bind keeps_fold) (auto split: node_type.splits option.splits intro!: Suc keeps_ok keeps_err)
qed

section \<open>The files\<close>

text \<open>The entry of a file holds the content of its node, or is one file with an entry of the same inode and holds that one's.\<close>

definition file_restored :: "benv \<Rightarrow> repository \<Rightarrow> bworld \<Rightarrow> (string \<times> node) list \<Rightarrow> upath \<Rightarrow> unix_fs \<Rightarrow> string \<Rightarrow> node \<Rightarrow> bool" where
  "file_restored B r w files T fs rel nd \<longleftrightarrow> (\<exists>i e rel'. fmlookup (uf_nodes fs) (T @ path_segments rel) = Some (UFile i) \<and>
     content_of B r w e (bytes_of fs i) \<and>
     (e = nd \<or> (rel', e) \<in> set files \<and> same_inode e nd \<and> fmlookup (uf_nodes fs) (T @ path_segments rel') = Some (UFile i)))"

lemma links_made:
  assumes x: "inside target T fs0 D x" and o: "\<not> rt_overwrite r" and q: "quiet fs2 (xw_fs x)"
    and ls: "\<And>a b. (a, b) \<in> set ls \<Longrightarrow> \<exists>qs ps i. a = target @ qs \<and> b = target @ ps \<and> reachable_entry D qs \<and> reachable_entry D ps \<and> (\<forall>d\<in>D. \<not> prefix ps d) \<and>
      fmlookup (uf_nodes fs2) (T @ qs) = Some (UFile i)"
    and run: "act_each (make_link r) ls x = (Inr (), x')"
  shows "inside target T fs0 D x' \<and> quiet fs2 (xw_fs x') \<and>
    (\<forall>qs ps. (target @ qs, target @ ps) \<in> set ls \<longrightarrow> fmlookup (uf_nodes (xw_fs x')) (T @ ps) = fmlookup (uf_nodes fs2) (T @ qs))"
proof -
  define P where "P = (\<lambda>x. inside target T fs0 D x \<and> quiet_from fs2 x)"
  define Q where "Q = (\<lambda>(a, b) (x :: xworld). \<forall>qs ps. a = target @ qs \<and> b = target @ ps \<longrightarrow> fmlookup (uf_nodes (xw_fs x)) (T @ ps) = fmlookup (uf_nodes fs2) (T @ qs))"
  have entry: "\<exists>qs ps i. e = (target @ qs, target @ ps) \<and> reachable_entry D qs \<and> reachable_entry D ps \<and> (\<forall>d\<in>D. \<not> prefix ps d) \<and>
      fmlookup (uf_nodes fs2) (T @ qs) = Some (UFile i)" if "e \<in> set ls" for e
    using ls [of "fst e" "snd e"] that by (cases e) auto
  have kP: "act_keeps P (make_link r e)" if e: "e \<in> set ls" for e
  proof -
    from entry [OF e] obtain qs ps where "e = (target @ qs, target @ ps)" "reachable_entry D qs" "reachable_entry D ps" "\<forall>d\<in>D. \<not> prefix ps d" by blast
    then have "act_keeps (inside target T fs0 D) (make_link r e)" using inside_link by blast
    with quiet_link [OF o, of fs2 e] show ?thesis unfolding act_keeps_def P_def by blast
  qed
  have est: "Q e z" if e: "e \<in> set ls" and y: "P y" and m: "make_link r e y = (Inr (), z)" for e y z
  proof -
    from entry [OF e] obtain qs ps i where en: "e = (target @ qs, target @ ps)" "reachable_entry D qs" "reachable_entry D ps"
      "fmlookup (uf_nodes fs2) (T @ qs) = Some (UFile i)" by blast
    have "fmlookup (uf_nodes (xw_fs y)) (T @ qs) = Some (UFile i)" using y en(4) by (simp add: P_def quiet_from_def quiet_def nodes_kept_def)
    from make_link_ok [OF _ en(2,3) o this] y m en show ?thesis by (auto simp: P_def Q_def)
  qed
  have keep: "Q e' (snd (make_link r e y))" if "e' \<in> set ls" "Q e' y" for e e' y
  proof -
    from entry [OF that(1)] obtain qs ps i where en: "e' = (target @ qs, target @ ps)" "fmlookup (uf_nodes fs2) (T @ qs) = Some (UFile i)" by blast
    have "quiet (xw_fs y) (xw_fs (snd (make_link r e y)))"
      using quiet_link [OF o, of "xw_fs y" e] unfolding act_keeps_def quiet_from_def by (meson quiet_refl)
    then show ?thesis using that(2) en by (simp add: Q_def quiet_def nodes_kept_def)
  qed
  have "P x" using x q by (simp add: P_def quiet_from_def)
  have "P x' \<and> (\<forall>e\<in>set ls. Q e x')"
    by (rule each_established [of ls P "make_link r" Q, OF kP est _ \<open>P x\<close> run]) (use keep in auto)
  then show ?thesis unfolding P_def Q_def quiet_from_def by fastforce
qed

lemma restore_files_exact:
  assumes x: "inside target T fs0 D x" and r: "rt_target r = target" "\<not> rt_overwrite r" and arr: "\<And>ps. set (arrange ps) = set ps"
    and F: "map fst files = map joined F" "\<forall>p\<in>set F. list_all plain_part p \<and> reachable_entry D p \<and> (\<forall>d\<in>D. \<not> prefix p d)"
    and small: "\<forall>e\<in>set files. length (nd_content (snd e)) < 2 ^ 32"
    and run: "restore_files B r arrange files x = (Inr (), x')"
  shows "inside target T fs0 D x' \<and> nodes_kept (xw_fs x) (xw_fs x') \<and>
    (\<forall>(rel, nd)\<in>set files. file_restored B (rw_repo (xw_run x)) (rw_world (xw_run x)) files T (xw_fs x') rel nd)"
proof -
  obtain tw ls where sp: "split_links r files fmempty [] [] = (tw, ls)" by (rule prod.exhaust)
  have path: "rt_path r ` fst ` set files = (\<lambda>p. target @ p) ` set F"
  proof -
    have "fst ` set files = joined ` set F" using F(1) by (metis list.set_map)
    then show ?thesis using F(2) by (auto simp: rt_path_def r(1) image_iff)
  qed
  note sub = split_links_sub [OF sp, simplified, unfolded path]
  note all = split_links_all [OF sp, simplified]
  define PS where "PS = map (\<lambda>e. drop (length target) (fst e)) tw"
  have PS: "map fst tw = map ((@) target) PS" "set PS \<subseteq> set F"
    using sub by (auto simp: PS_def image_iff subset_iff)
  from run obtain x1 m x2 x3 where
    c: "act_each (\<lambda>(path, nd). create_file r path (nd_size nd)) tw x = (Inr (), x1)"
    and pl: "plan_reads (rp_index (rw_repo (xw_run x1))) 0 tw fmempty = Inr m"
    and rp: "act_each (read_pack B (map fst tw)) (arrange (fm_entries m)) x1 = (Inr (), x2)"
    and fin: "act_each finish_file tw x2 = (Inr (), x3)" and ln: "act_each (make_link r) ls x3 = (Inr (), x')"
    by (auto simp: restore_files_def sp act_bind_ok)
  have re: "\<forall>ps\<in>set PS. reachable_entry D ps \<and> (\<forall>d\<in>D. \<not> prefix ps d)" using PS(2) F(2) by blast
  have nil: "files_at (xw_fs x) [] []" by (simp add: files_at_def)
  from create_files [OF x re r(2) PS(1) c nil] obtain js where
    1: "inside target T fs0 D x1" "files_at (xw_fs x1) (map ((@) T) PS) js" "nodes_kept (xw_fs x) (xw_fs x1)"
    "map (bytes_of (xw_fs x1)) js = map (\<lambda>(p, nd). replicate (unat (nd_size nd)) 0) tw" and "x1 = x\<lparr>xw_fs := xw_fs x1\<rparr>" by auto
  then have x1: "xw_run x1 = xw_run x" by (metis xworld.select_convs(1) xworld.surjective xworld.update_convs(2))
  have sm: "\<forall>e\<in>set tw. length (nd_content (snd e)) < 2 ^ 32"
    using split_links_written [OF sp] small by fastforce
  have "\<forall>ps\<in>set PS. reachable_entry D ps" using re by blast
  from read_files_exact [OF 1(1,2) this PS(1) 1(4) sm pl arr rp]
  have 2: "inside target T fs0 D x2" "files_at (xw_fs x2) (map ((@) T) PS) js" "nodes_kept (xw_fs x1) (xw_fs x2)"
    "list_all2 (\<lambda>e b. content_of B (rw_repo (xw_run x)) (rw_world (xw_run x)) (snd e) b) tw (map (bytes_of (xw_fs x2)) js)" by (simp_all add: x1)
  let ?P = "\<lambda>x. inside target T fs0 D x \<and> quiet_from (xw_fs x2) x"
  have fk: "act_keeps ?P (finish_file e)" if "e \<in> set tw" for e
  proof -
    obtain p nd where e: "e = (p, nd)" by (rule prod.exhaust)
    have "p \<in> set (map fst tw)" using that unfolding e set_map by (metis fst_conv image_eqI)
    then obtain ps where ps: "p = target @ ps" "reachable_entry D ps" using PS(1) re by auto
    have "act_keeps (inside target T fs0 D) (finish_file e)" "act_keeps (quiet_from (xw_fs x2)) (finish_file e)"
      unfolding finish_file_def e prod.case ps(1) by (intro inside_intros inside_metadata ps, intro quiet_intros quiet_metadata)
    then show ?thesis unfolding act_keeps_def by blast
  qed
  have 3: "inside target T fs0 D x3" "quiet (xw_fs x2) (xw_fs x3)"
    using act_keepsD [OF inside_each [OF fk] _ fin] 2(1) by (auto simp: quiet_from_def)
  have node: "fmlookup (uf_nodes (xw_fs x2)) (T @ ps) = Some (UFile (js ! f)) \<and> f < length js"
    if "f < length tw" "fst (tw ! f) = target @ ps" for f ps
  proof -
    have "length tw = length PS" using PS(1) by (metis length_map)
    moreover have "fst (tw ! f) = target @ PS ! f" using that(1) PS(1) calculation by (metis nth_map)
    ultimately show ?thesis using files_at_nth [OF 2(2), of f] that by simp
  qed
  have ls: "\<exists>qs ps i. a = target @ qs \<and> b = target @ ps \<and> reachable_entry D qs \<and> reachable_entry D ps \<and> (\<forall>d\<in>D. \<not> prefix ps d) \<and>
      fmlookup (uf_nodes (xw_fs x2)) (T @ qs) = Some (UFile i)" if "(a, b) \<in> set ls" for a b
  proof -
    have "a \<in> fst ` set tw" using split_links_first [OF sp _ that] by simp
    then obtain f where f: "f < length tw" "fst (tw ! f) = a" by (auto simp: in_set_conv_nth)
    have "a \<in> set (map fst tw)" using \<open>a \<in> fst ` set tw\<close> by simp
    then obtain qs where qs: "a = target @ qs" "reachable_entry D qs" using PS(1) re by auto
    have "b \<in> (\<lambda>p. target @ p) ` set F" using sub that by (metis image_eqI snd_conv subsetD)
    then obtain ps where "b = target @ ps" "ps \<in> set F" by auto
    with qs F(2) node [OF f(1), of qs] f(2) show ?thesis by auto
  qed
  from links_made [OF 3(1) r(2) 3(2) ls ln] have 4: "inside target T fs0 D x'" "quiet (xw_fs x2) (xw_fs x')"
    "\<And>qs ps. (target @ qs, target @ ps) \<in> set ls \<Longrightarrow> fmlookup (uf_nodes (xw_fs x')) (T @ ps) = fmlookup (uf_nodes (xw_fs x2)) (T @ qs)" by blast+
  have kept: "nodes_kept (xw_fs x) (xw_fs x')"
    using 1(3) 2(3) 4(2) nodes_kept_trans unfolding quiet_def by blast
  have written: "\<exists>i. fmlookup (uf_nodes (xw_fs x2)) (T @ ps) = Some (UFile i) \<and>
      content_of B (rw_repo (xw_run x)) (rw_world (xw_run x)) nd (bytes_of (xw_fs x') i)" if "(target @ ps, nd) \<in> set tw" for ps nd
  proof -
    from that obtain f where f: "f < length tw" "tw ! f = (target @ ps, nd)" by (auto simp: in_set_conv_nth)
    from node [OF f(1), of ps] f(2) have n: "fmlookup (uf_nodes (xw_fs x2)) (T @ ps) = Some (UFile (js ! f))" "f < length js" by simp_all
    have "content_of B (rw_repo (xw_run x)) (rw_world (xw_run x)) nd (bytes_of (xw_fs x2) (js ! f))"
      using list_all2_nthD [OF 2(4) f(1)] f(2) n(2) by simp
    moreover have "bytes_of (xw_fs x') (js ! f) = bytes_of (xw_fs x2) (js ! f)" using 4(2) by (simp add: quiet_def)
    ultimately show ?thesis using n(1) by auto
  qed
  have later: "fmlookup (uf_nodes (xw_fs x')) q = Some (UFile i)" if "fmlookup (uf_nodes (xw_fs x2)) q = Some (UFile i)" for q i
    using 4(2) that by (simp add: quiet_def nodes_kept_def)
  have "file_restored B (rw_repo (xw_run x)) (rw_world (xw_run x)) files T (xw_fs x') rel nd" if f: "(rel, nd) \<in> set files" for rel nd
  proof -
    have "rel \<in> set (map joined F)" using f F(1) by (metis image_eqI fst_conv list.set_map)
    then obtain ps where ps: "rel = joined ps" "ps \<in> set F" by auto
    then have pp: "path_segments rel = ps" "rt_path r rel = target @ ps" using F(2) by (simp_all add: rt_path_def r(1))
    from all f consider "(target @ ps, nd) \<in> set tw" | p e where "(p, target @ ps) \<in> set ls" "(p, e) \<in> set tw" "same_inode e nd"
      using pp(2) by fastforce
    then show ?thesis
    proof cases
      case 1
      from written [OF this] later show ?thesis unfolding file_restored_def pp(1) by blast
    next
      case (2 p e)
      then obtain qs where qs: "p = target @ qs" using PS(1) by (metis (no_types, lifting) fst_conv image_iff list.set_map)
      from written [of qs e] 2(2) obtain i where i: "fmlookup (uf_nodes (xw_fs x2)) (T @ qs) = Some (UFile i)"
        "content_of B (rw_repo (xw_run x)) (rw_world (xw_run x)) e (bytes_of (xw_fs x') i)" unfolding qs by blast
      have "fmlookup (uf_nodes (xw_fs x')) (T @ ps) = Some (UFile i)" using 4(3) [of qs ps] 2(1) i(1) by (simp add: qs)
      from split_links_written [OF sp 2(2)] obtain rel' where rel': "(rel', e) \<in> set files" "p = rt_path r rel'" by auto
      then have "rel' \<in> set (map joined F)" using F(1) by (metis image_eqI fst_conv list.set_map)
      then have "path_segments rel' = qs" using F(2) rel'(2) qs by (auto simp: rt_path_def r(1))
      with rel'(1) later [OF i(1)] i(2) 2(3) \<open>fmlookup (uf_nodes (xw_fs x')) (T @ ps) = Some (UFile i)\<close> show ?thesis
        unfolding file_restored_def pp(1) by blast
    qed
  qed
  with 4(1) kept show ?thesis by blast
qed

section \<open>The whole restore\<close>

lemma plan_entry:
  assumes "plan_ok plan D S F" and "p \<in> set (S @ F)"
  shows "list_all plain_part p \<and> reachable_entry (insert [] (set D)) p \<and> (\<forall>d\<in>insert [] (set D). \<not> prefix p d)"
proof -
  note pl = assms(1) [unfolded plan_ok_def]
  have n: "p \<noteq> []" "list_all plain_part p" "butlast p \<in> insert [] (set D)" "p \<notin> set D" using pl assms(2) by auto
  have "\<not> prefix p d" if "d \<in> set D" for d
    using dirs_closed [of "{}" D d p] pl that n(1,4) by auto
  with n show ?thesis by (auto simp: reachable_entry_def)
qed

definition link_restored :: "upath \<Rightarrow> unix_fs \<Rightarrow> string \<Rightarrow> node \<Rightarrow> bool" where
  "link_restored T fs rel nd \<longleftrightarrow> (\<exists>t. nd_link nd = Some t \<and> fmlookup (uf_nodes fs) (T @ path_segments rel) = Some (ULink t))"

lemma links_restored:
  assumes x: "inside target T fs0 D x" and o: "\<not> rt_overwrite r" and r: "rt_target r = target"
    and S: "map fst ss = map joined S" "\<forall>p\<in>set S. list_all plain_part p \<and> reachable_entry D p \<and> (\<forall>d\<in>D. \<not> prefix p d)"
    and run: "act_each (\<lambda>(rel, nd). make_symlink r rel nd) ss x = (Inr (), x')"
  shows "inside target T fs0 D x' \<and> (\<forall>(rel, nd)\<in>set ss. link_restored T (xw_fs x') rel nd)"
proof -
  let ?f = "\<lambda>(rel, nd). make_symlink r rel nd"
  have entry: "\<exists>p. fst e = joined p \<and> list_all plain_part p \<and> reachable_entry D p \<and> (\<forall>d\<in>D. \<not> prefix p d) \<and> rt_path r (fst e) = target @ p"
    if "e \<in> set ss" for e
  proof -
    have "fst e \<in> set (map joined S)" using that S(1) by (metis image_eqI list.set_map)
    then show ?thesis using S(2) by (auto simp: rt_path_def r)
  qed
  have "inside target T fs0 D x' \<and> (\<forall>e\<in>set ss. link_restored T (xw_fs x') (fst e) (snd e))"
  proof (rule each_established [of ss "inside target T fs0 D" ?f "\<lambda>e y. link_restored T (xw_fs y) (fst e) (snd e)", OF _ _ _ x run])
    fix e assume e: "e \<in> set ss"
    from entry [OF e] obtain p where p: "fst e = joined p" "list_all plain_part p" "reachable_entry D p" "\<forall>d\<in>D. \<not> prefix p d"
      "rt_path r (fst e) = target @ p" by blast
    show "act_keeps (inside target T fs0 D) (?f e)" using inside_symlink [OF p(3,4,5)] by (cases e) simp
    fix y z assume y: "inside target T fs0 D y" and m: "?f e y = (Inr (), z)"
    from m have "make_symlink r (fst e) (snd e) y = (Inr (), z)" by (cases e) simp
    from make_symlink_ok [OF y p(3,5) o this] p(1,2) show "link_restored T (xw_fs z) (fst e) (snd e)" by (simp add: link_restored_def)
  next
    fix e e' and y :: xworld assume "link_restored T (xw_fs y) (fst e') (snd e')"
    moreover have "quiet (xw_fs y) (xw_fs (snd (?f e y)))"
      using quiet_make_symlink [OF o, of "xw_fs y" "fst e" "snd e"] unfolding act_keeps_def quiet_from_def by (auto simp: split_beta)
    ultimately show "link_restored T (xw_fs (snd (?f e y))) (fst e') (snd e')"
      by (auto simp: link_restored_def quiet_def nodes_kept_def)
  qed
  then show ?thesis by auto
qed

lemma run_on_fs: "act_keeps (\<lambda>x. xw_run x = v) (on_fs e m)"
  by (simp add: act_keeps_def on_fs_run split: prod.splits)

lemma run_add_stats: "act_keeps (\<lambda>x. xw_run x = v) (add_stats f)"
  unfolding add_stats_def by (rule keeps_mod) simp

lemma run_check: "act_keeps (\<lambda>x. xw_run x = v) (check_contained r d)"
  unfolding check_contained_def by (intro keeps_intros run_on_fs)

lemma run_clear: "\<not> rt_overwrite r \<Longrightarrow> act_keeps (\<lambda>x. xw_run x = v) (clear r p)"
  by (simp add: act_keeps_def clear_unwilling)

lemma run_make_dir:
  assumes "\<not> rt_overwrite r"
  shows "act_keeps (\<lambda>x. xw_run x = v) (make_dir r rel)"
proof -
  have c: "act_keeps (\<lambda>x. xw_run x = v) (act_bind (clear r p) (\<lambda>_. on_fs io_failed (create_dir p)))" for p
    by (intro keeps_intros run_clear run_on_fs assms)
  have d: "act_keeps (\<lambda>x. xw_run x = v) (on_fs io_failed (create_dir p))" for p by (rule run_on_fs)
  have "act_keeps (\<lambda>x. xw_run x = v) (\<lambda>x. case symlink_metadata (xw_fs x) p of
      Inr n \<Rightarrow> if is_udir (Some n) then (Inr (), x) else act_bind (clear r p) (\<lambda>_. on_fs io_failed (create_dir p)) x
    | Inl IoNotFound \<Rightarrow> on_fs io_failed (create_dir p) x
    | Inl e \<Rightarrow> (Inl (io_failed e), x))" for p
    using c d unfolding act_keeps_def by (auto split: sum.splits io_error.splits)
  then show ?thesis unfolding make_dir_def Let_def by (intro keeps_intros run_check run_add_stats)
qed

lemma run_make_symlink: "\<not> rt_overwrite r \<Longrightarrow> act_keeps (\<lambda>x. xw_run x = v) (make_symlink r rel nd)"
  unfolding make_symlink_def Let_def by (intro keeps_intros run_check run_clear run_on_fs run_add_stats)

lemma run_plan_exact:
  assumes x: "inside target T fs0 {[]} x" and ok: "plan_ok plan D S F" and r: "rt_target r = target" "\<not> rt_overwrite r"
    and arr: "\<And>ps. set (arrange ps) = set ps" and small: "\<forall>e\<in>set (pl_files plan). length (nd_content (snd e)) < 2 ^ 32"
    and run: "run_plan B r arrange plan x = (Inr (), x')"
  shows "(\<forall>(rel, nd)\<in>set (pl_files plan). file_restored B (rw_repo (xw_run x)) (rw_world (xw_run x)) (pl_files plan) T (xw_fs x') rel nd) \<and>
    (\<forall>(rel, nd)\<in>set (pl_symlinks plan). link_restored T (xw_fs x') rel nd) \<and>
    (\<forall>(rel, nd, sel)\<in>set (pl_dirs plan). is_udir (fmlookup (uf_nodes (xw_fs x')) (T @ path_segments rel)))"
proof -
  let ?D = "insert [] (set D)" and ?v = "xw_run x"
  note pl = ok [unfolded plan_ok_def]
  from run obtain x1 x2 x3 where d: "act_each (\<lambda>(rel, _, _). make_dir r rel) (pl_dirs plan) x = (Inr (), x1)"
    and s: "act_each (\<lambda>(rel, nd). make_symlink r rel nd) (pl_symlinks plan) x1 = (Inr (), x2)"
    and f: "restore_files B r arrange (pl_files plan) x2 = (Inr (), x3)"
    and m: "act_each (\<lambda>(rel, nd, _). apply_metadata (rt_path r rel) nd) (rev (pl_dirs plan)) x3 = (Inr (), x')"
    by (auto simp: run_plan_def act_bind_ok)
  have dirs: "(\<lambda>(rel, _, _). make_dir r rel) = (\<lambda>e. make_dir r (fst e))" by (auto simp: fun_eq_iff)
  have "inside target T fs0 {[]} x1 \<and> (Inr () = (Inr () :: berror + unit) \<longrightarrow> inside target T fs0 ({[]} \<union> set D) x1)"
    by (rule inside_make_dirs [OF x, where seen = "{}" and Ds = D and ds = "pl_dirs plan" and r = r]) (use d pl r(1) in \<open>auto simp: dirs\<close>)
  then have 1: "inside target T fs0 ?D x1" by simp
  have "act_keeps (\<lambda>x. xw_run x = ?v) (make_dir r (fst e))" for e :: "string \<times> node \<times> bool"
    by (rule run_make_dir [OF r(2)])
  from act_keepsD [OF inside_each [OF this] _ d [unfolded dirs]] have v1: "xw_run x1 = ?v" by simp
  have entry: "list_all plain_part p \<and> reachable_entry ?D p \<and> (\<forall>d\<in>?D. \<not> prefix p d)" if "p \<in> set (S @ F)" for p
    by (rule plan_entry [OF ok that])
  have S: "map fst (pl_symlinks plan) = map joined S" "\<forall>p\<in>set S. list_all plain_part p \<and> reachable_entry ?D p \<and> (\<forall>d\<in>?D. \<not> prefix p d)"
    and F: "map fst (pl_files plan) = map joined F" "\<forall>p\<in>set F. list_all plain_part p \<and> reachable_entry ?D p \<and> (\<forall>d\<in>?D. \<not> prefix p d)"
    using pl entry by auto
  from links_restored [OF 1 r(2,1) S s] have 2: "inside target T fs0 ?D x2"
    "\<forall>(rel, nd)\<in>set (pl_symlinks plan). link_restored T (xw_fs x2) rel nd" by blast+
  have "act_keeps (\<lambda>x. xw_run x = ?v) (case e of (rel, nd) \<Rightarrow> make_symlink r rel nd)" for e :: "string \<times> node"
    using run_make_symlink [OF r(2)] by (cases e) simp
  from act_keepsD [OF inside_each [OF this] v1 s] have v2: "xw_run x2 = ?v" .
  from restore_files_exact [OF 2(1) r arr F small f] have 3: "inside target T fs0 ?D x3" "nodes_kept (xw_fs x2) (xw_fs x3)"
    "\<forall>(rel, nd)\<in>set (pl_files plan). file_restored B (rw_repo ?v) (rw_world ?v) (pl_files plan) T (xw_fs x3) rel nd" by (simp_all add: v2)
  have "act_keeps (quiet_from (xw_fs x3)) (case e of (rel, nd, _) \<Rightarrow> apply_metadata (rt_path r rel) nd)" for e :: "string \<times> node \<times> bool"
    using quiet_metadata by (cases e) simp
  from act_keepsD [OF inside_each [OF this] _ m] have q: "quiet (xw_fs x3) (xw_fs x')" by (simp add: quiet_from_def)
  have keep: "fmlookup (uf_nodes (xw_fs x')) p = Some (UFile i)" if "fmlookup (uf_nodes (xw_fs x3)) p = Some (UFile i)" for p i
    using q that by (simp add: quiet_def nodes_kept_def)
  have bytes: "bytes_of (xw_fs x') i = bytes_of (xw_fs x3) i" for i using q by (simp add: quiet_def)
  have "file_restored B (rw_repo ?v) (rw_world ?v) (pl_files plan) T (xw_fs x') rel nd" if "file_restored B (rw_repo ?v) (rw_world ?v) (pl_files plan) T (xw_fs x3) rel nd" for rel nd
    using that keep bytes unfolding file_restored_def by (metis)
  moreover have "link_restored T (xw_fs x') rel nd" if "link_restored T (xw_fs x2) rel nd" for rel nd
    using that q 3(2) unfolding link_restored_def quiet_def nodes_kept_def by auto
  moreover have "is_udir (fmlookup (uf_nodes (xw_fs x')) (T @ path_segments rel))" if "(rel, nd, sel) \<in> set (pl_dirs plan)" for rel nd sel
  proof -
    have "rel \<in> set (map joined D)" using that pl by (metis fst_conv image_eqI list.set_map)
    then obtain p where p: "rel = joined p" "p \<in> set D" by auto
    then have "real_dirs (xw_fs x3) T p" using 3(1) by (simp add: inside_def restoring_def)
    then have "is_udir (fmlookup (uf_nodes (xw_fs x3)) (T @ p))" by (simp add: real_dirs_def)
    then show ?thesis using q p pl by (simp add: quiet_def)
  qed
  ultimately show ?thesis using 2(2) 3(3) by blast
qed

end
