(* ===== verification/Restore_Runs.thy ===== *)
theory Restore_Runs
  imports Restore_Exact
begin

text \<open>
  Whole restores: what a successful one put back, and what none may change. Without overwriting, no file
  that existed is touched, wherever the restore stops.
\<close>

section \<open>Files that existed\<close>

text \<open>Every entry that is no directory and every file of \<open>fs\<close> is in \<open>fs'\<close> as it was.\<close>

definition spared :: "unix_fs \<Rightarrow> unix_fs \<Rightarrow> bool" where
  "spared fs fs' \<longleftrightarrow> nodes_kept fs fs' \<and> uf_next fs \<le> uf_next fs' \<and>
     (\<forall>i. i < uf_next fs \<longrightarrow> fmlookup (uf_inodes fs') i = fmlookup (uf_inodes fs) i)"

lemma spared_refl [simp]: "spared fs fs"
  by (simp add: spared_def)

lemma spared_trans: "spared a b \<Longrightarrow> spared b c \<Longrightarrow> spared a c"
  unfolding spared_def by (metis nodes_kept_trans order_less_le_trans order_trans)

lemma spared_set_inode: "spared fs fs' \<Longrightarrow> uf_next fs \<le> i \<Longrightarrow> spared fs (set_inode i nd fs')"
  by (auto simp: spared_def nodes_kept_def set_inode_def)

lemma spared_new_entry: "spared fs (snd (new_entry p (\<lambda>q. set_node q n) fs))"
  by (auto simp: new_entry_def act_bind_run place_for_def spared_def nodes_kept_def set_node_def split: sum.splits option.splits)

lemma spared_create_dir: "spared fs (snd (create_dir p fs))"
  unfolding create_dir_def by (rule spared_new_entry)

lemma spared_hard_link: "spared fs (snd (hard_link a b fs))"
  using spared_new_entry by (auto simp: hard_link_def split: sum.splits unode.splits)

lemma spared_open_new:
  assumes "open_write OpenCreateNew mode p fs = (res, fs')"
  shows "spared fs fs' \<and> (\<forall>i. res = Inr i \<longrightarrow> i = uf_next fs)"
  using assms by (auto simp: open_write_def act_bind_run place_for_def spared_def nodes_kept_def add_file_def set_node_def set_inode_def
      split: sum.splits option.splits)

lemma keeps_both: "act_keeps P m \<Longrightarrow> act_keeps Q m \<Longrightarrow> act_keeps (\<lambda>x. P x \<and> Q x) m"
  by (simp add: act_keeps_def)

definition spared_from :: "unix_fs \<Rightarrow> xworld \<Rightarrow> bool" where
  "spared_from fs x \<longleftrightarrow> spared fs (xw_fs x)"

lemma spared_on_fs: "(\<And>fs'. spared fs' (snd (m fs'))) \<Longrightarrow> act_keeps (spared_from fs) (on_fs e m)"
  unfolding act_keeps_def spared_from_def on_fs_run by (auto split: prod.splits) (metis spared_trans snd_conv)

lemma spared_add_stats: "act_keeps (spared_from fs) (add_stats f)"
  unfolding add_stats_def by (rule keeps_mod) (simp add: spared_from_def)

lemma spared_on_run: "act_keeps (spared_from fs) (on_run m)"
  by (auto simp: act_keeps_def on_run_def spared_from_def split: prod.splits)

lemma spared_check: "act_keeps (spared_from fs) (check_contained r d)"
  unfolding check_contained_def by (intro keeps_intros spared_on_fs) (simp add: look_def)

lemma spared_clear: "\<not> rt_overwrite r \<Longrightarrow> act_keeps (spared_from fs) (clear r p)"
  by (simp add: act_keeps_def clear_unwilling)

lemmas spared_intros = keeps_intros spared_add_stats spared_check spared_clear spared_on_run spared_on_fs

lemma spared_link: "\<not> rt_overwrite r \<Longrightarrow> act_keeps (spared_from fs) (make_link r e)"
  unfolding make_link_def by (cases e) (simp, intro spared_intros spared_hard_link)

lemma spared_make_symlink: "\<not> rt_overwrite r \<Longrightarrow> act_keeps (spared_from fs) (make_symlink r rel nd)"
  unfolding make_symlink_def Let_def symlink_def by (intro spared_intros spared_new_entry)

lemma spared_make_dir:
  assumes "\<not> rt_overwrite r"
  shows "act_keeps (spared_from fs) (make_dir r rel)"
proof -
  have "act_keeps (spared_from fs) (\<lambda>x. case symlink_metadata (xw_fs x) p of
      Inr n \<Rightarrow> if is_udir (Some n) then (Inr (), x) else act_bind (clear r p) (\<lambda>_. on_fs io_failed (create_dir p)) x
    | Inl IoNotFound \<Rightarrow> on_fs io_failed (create_dir p) x
    | Inl e \<Rightarrow> (Inl (io_failed e), x))" for p
  proof -
    have c: "act_keeps (spared_from fs) (act_bind (clear r p) (\<lambda>_. on_fs io_failed (create_dir p)))"
      by (intro spared_intros spared_create_dir assms)
    have d: "act_keeps (spared_from fs) (on_fs io_failed (create_dir p))" by (intro spared_intros spared_create_dir)
    show ?thesis using c d unfolding act_keeps_def by (auto split: sum.splits io_error.splits)
  qed
  then show ?thesis unfolding make_dir_def Let_def by (intro spared_intros)
qed

lemma spared_create_file:
  assumes o: "\<not> rt_overwrite r"
  shows "act_keeps (spared_from fs) (create_file r p sz)"
proof -
  have opened: "act_keeps (spared_from fs) (act_bind (on_fs (invalid p) (open_write OpenCreateNew 384 p)) (\<lambda>i. on_fs io_failed (set_len i sz)))"
  proof (rule act_keepsI)
    fix x assume x: "spared_from fs x"
    obtain res fs' where f: "open_write OpenCreateNew 384 p (xw_fs x) = (res, fs')" by (rule prod.exhaust)
    have s: "spared fs fs'" using x spared_open_new [OF f] spared_trans unfolding spared_from_def by blast
    have "uf_next fs \<le> i" if "res = Inr i" for i using x spared_open_new [OF f] that by (simp add: spared_from_def spared_def)
    with s spared_set_inode [OF s]
    show "spared_from fs (snd (act_bind (on_fs (invalid p) (open_write OpenCreateNew 384 p)) (\<lambda>i. on_fs io_failed (set_len i sz)) x))"
      by (cases res) (auto simp: act_bind_run on_fs_run f set_len_def spared_from_def split: option.splits)
  qed
  have cleared: "act_keeps (spared_from fs) (\<lambda>x. case symlink_metadata (xw_fs x) p of
      Inr (UFile _) \<Rightarrow> (Inr (), x) | Inr _ \<Rightarrow> clear r p x | Inl _ \<Rightarrow> (Inr (), x))"
    using spared_clear [OF o, of fs p] unfolding act_keeps_def by (auto split: sum.splits unode.splits)
  have how: "(if rt_overwrite r then OpenCreateTruncate else OpenCreateNew) = OpenCreateNew" using o by simp
  show ?thesis unfolding create_file_def how by (intro keeps_bind spared_check cleared opened)
qed

section \<open>The files of the restore\<close>

text \<open>The entries of \<open>P\<close> are files made since \<open>fs0\<close>.\<close>

definition own_files :: "upath \<Rightarrow> upath \<Rightarrow> unix_fs \<Rightarrow> upath set \<Rightarrow> upath set \<Rightarrow> xworld \<Rightarrow> bool" where
  "own_files target T fs0 D P x \<longleftrightarrow> inside target T fs0 D x \<and> spared_from fs0 x \<and>
     (\<forall>p\<in>P. \<exists>ps i. p = target @ ps \<and> reachable_entry D ps \<and> fmlookup (uf_nodes (xw_fs x)) (T @ ps) = Some (UFile i) \<and> uf_next fs0 \<le> i)"

lemma own_filesI:
  assumes "act_keeps (inside target T fs0 D) m" and "\<And>fs. act_keeps (spared_from fs) m"
  shows "act_keeps (own_files target T fs0 D P) m"
proof (rule act_keepsI)
  fix x assume x: "own_files target T fs0 D P x"
  have "inside target T fs0 D (snd (m x))" "spared_from fs0 (snd (m x))" using x assms by (simp_all add: own_files_def act_keeps_def)
  moreover have "spared (xw_fs x) (xw_fs (snd (m x)))" using assms(2) [of "xw_fs x"] by (simp add: act_keeps_def spared_from_def)
  then have "fmlookup (uf_nodes (xw_fs (snd (m x)))) q = Some (UFile i)" if "fmlookup (uf_nodes (xw_fs x)) q = Some (UFile i)" for q i
    using that by (simp add: spared_def nodes_kept_def)
  ultimately show "own_files target T fs0 D P (snd (m x))" using x unfolding own_files_def by blast
qed

lemma own_files_set:
  assumes "own_files target T fs0 D P x" and "fs' = set_inode i nd (xw_fs x)" and "uf_next fs0 \<le> i" and "inside target T fs0 D (x\<lparr>xw_fs := fs'\<rparr>)"
  shows "own_files target T fs0 D P (x\<lparr>xw_fs := fs'\<rparr>)"
  using assms spared_set_inode by (simp add: own_files_def spared_from_def) (auto simp: set_inode_def)

lemma own_write_at:
  assumes p: "p \<in> P"
  shows "act_keeps (own_files target T fs0 D P) (write_at p data offset)"
proof (rule act_keepsI)
  fix x assume x: "own_files target T fs0 D P x"
  then obtain ps i where ps: "p = target @ ps" "reachable_entry D ps" "fmlookup (uf_nodes (xw_fs x)) (T @ ps) = Some (UFile i)" "uf_next fs0 \<le> i"
    using p unfolding own_files_def by blast
  have r: "restoring target T fs0 D (xw_fs x)" using x by (simp add: own_files_def inside_def)
  have i: "inside target T fs0 D (snd (write_at p data offset x))"
    using inside_write_at [OF ps(2), of target T fs0 data offset] x unfolding ps(1) act_keeps_def own_files_def by blast
  have "snd (write_at p data offset x) = x \<or> (\<exists>nd. snd (write_at p data offset x) = x\<lparr>xw_fs := set_inode i nd (xw_fs x)\<rparr>)"
    by (auto simp: write_at_def act_bind_run on_fs_run ps(1,3) open_write_def entry_place [OF r ps(2)] write_all_at_def split: option.splits)
  then show "own_files target T fs0 D P (snd (write_at p data offset x))"
    using own_files_set [OF x refl ps(4)] i x by auto
qed

lemma own_metadata:
  assumes p: "p \<in> P"
  shows "act_keeps (own_files target T fs0 D P) (apply_metadata p nd)"
proof (rule act_keepsI)
  fix x assume x: "own_files target T fs0 D P x"
  then obtain ps i where ps: "p = target @ ps" "reachable_entry D ps" "fmlookup (uf_nodes (xw_fs x)) (T @ ps) = Some (UFile i)" "uf_next fs0 \<le> i"
    using p unfolding own_files_def by blast
  have r: "restoring target T fs0 D (xw_fs x)" using x by (simp add: own_files_def inside_def)
  have i: "inside target T fs0 D (snd (apply_metadata p nd x))"
    using inside_metadata [OF ps(2), of target T fs0 nd] x unfolding ps(1) act_keeps_def own_files_def by blast
  have "snd (apply_metadata p nd x) = x \<or> (\<exists>nd'. snd (apply_metadata p nd x) = x\<lparr>xw_fs := set_inode i nd' (xw_fs x)\<rparr>)"
    by (auto simp: apply_metadata_def act_bind_run on_fs_run ps(1,3) set_attr_def entry_place [OF r ps(2)] split: option.splits)
  then show "own_files target T fs0 D P (snd (apply_metadata p nd x))"
    using own_files_set [OF x refl ps(4)] i x by auto
qed

lemma own_add_stats: "act_keeps (own_files target T fs0 D P) (add_stats f)"
  by (intro own_filesI inside_add_stats spared_add_stats)

lemma own_on_run: "act_keeps (own_files target T fs0 D P) (on_run m)"
  by (intro own_filesI inside_on_run spared_on_run)

lemma own_read_pack: "act_keeps (own_files target T fs0 D (set paths)) (read_pack B paths p)"
proof -
  have d: "act_keeps (own_files target T fs0 D (set paths)) (write_destinations paths data ds)" for data ds
  proof (induction ds)
    case (Cons e ds)
    obtain f offset where e: "e = (f, offset)" by (rule prod.exhaust)
    show ?case
    proof (cases "length paths \<le> f")
      case False
      then have "paths ! f \<in> set paths" by simp
      with False Cons own_write_at show ?thesis by (auto simp: e intro!: keeps_intros)
    qed (simp add: e act_keeps_def)
  qed (simp add: act_keeps_def)
  have "act_keeps (own_files target T fs0 D (set paths)) (write_read B ks paths start data rd)" for ks start data rd
    unfolding write_read_def Let_def by (intro keeps_intros d)
  then have "act_keeps (own_files target T fs0 D (set paths)) (act_each (\<lambda>g. act_bind (on_run (m g)) (\<lambda>data. act_each (write_read B ks paths (group_start g) data) g)) gs)"
    for m :: "blob_read list \<Rightarrow> bytes ract" and ks gs
    by (intro keeps_intros own_on_run)
  then show ?thesis unfolding act_keeps_def read_pack_def Let_def by (auto split: prod.splits)
qed

lemma own_finish_file:
  assumes "e \<in> set tw"
  shows "act_keeps (own_files target T fs0 D (fst ` set tw)) (finish_file e)"
proof (cases e)
  case (Pair p nd)
  then have "p \<in> fst ` set tw" using assms by force
  then show ?thesis unfolding Pair finish_file_def prod.case by (intro keeps_bind own_metadata own_add_stats)
qed

lemma spared_restore_files:
  assumes x: "inside target T fs0 D x" "spared_from fs0 x" and o: "\<not> rt_overwrite r" and files: "file_paths target D (rt_path r ` fst ` set files)"
    and run: "restore_files B r arrange files x = (res, x')"
  shows "spared_from fs0 x'"
proof -
  obtain tw ls where sp: "split_links r files fmempty [] [] = (tw, ls)" by (rule prod.exhaust)
  have sub: "fst ` set tw \<subseteq> rt_path r ` fst ` set files" "snd ` set ls \<subseteq> rt_path r ` fst ` set files" "fst ` set ls \<subseteq> rt_path r ` fst ` set files"
    using split_links_sub [OF sp] by (simp_all add: fmran'_alt_def)
  have entry: "\<exists>ps. p = target @ ps \<and> reachable_entry D ps \<and> (\<forall>d\<in>D. \<not> prefix ps d)" if "p \<in> rt_path r ` fst ` set files" for p
    using files that unfolding file_paths_def by blast
  let ?create = "\<lambda>(path, nd). create_file r path (nd_size nd)" and ?P = "fst ` set tw"
  define after :: "unit xact" where "after = act_bind (\<lambda>x. (plan_reads (rp_index (rw_repo (xw_run x))) 0 tw fmempty, x)) (\<lambda>by_pack.
      act_bind (act_each (read_pack B (map fst tw)) (arrange (fm_entries by_pack))) (\<lambda>_.
      act_bind (act_each finish_file tw) (\<lambda>_. act_each (make_link r) ls)))"
  have rn: "act_bind (act_each ?create tw) (\<lambda>_. after) x = (res, x')" using run by (simp add: restore_files_def sp after_def)
  have sc: "act_keeps (spared_from fs) (?create e)" for fs e using spared_create_file [OF o] by (cases e) simp
  obtain q x1 where q: "act_each ?create tw x = (q, x1)" by (rule prod.exhaust)
  have s1: "spared_from fs0 x1" using act_keepsD [OF inside_each [OF sc] x(2) q] .
  show ?thesis
  proof (cases q)
    case (Inl e)
    then show ?thesis using rn q s1 by simp
  next
    case (Inr u)
    define Q where "Q = (\<lambda>(e :: upath \<times> node) (y :: xworld). \<exists>ps i. fst e = target @ ps \<and> reachable_entry D ps \<and>
      fmlookup (uf_nodes (xw_fs y)) (T @ ps) = Some (UFile i) \<and> uf_next fs0 \<le> i)"
    let ?I = "\<lambda>y. inside target T fs0 D y \<and> spared_from fs0 y"
    have "?I x1 \<and> (\<forall>e\<in>set tw. Q e x1)"
    proof (rule each_established [of tw ?I ?create Q])
      fix e assume e: "e \<in> set tw"
      then have "fst e \<in> rt_path r ` fst ` set files" using sub(1) by auto
      from entry [OF this] obtain ps where ps: "fst e = target @ ps" "reachable_entry D ps" "\<forall>d\<in>D. \<not> prefix ps d" by (elim exE conjE)
      show "act_keeps ?I (?create e)"
        using keeps_both [OF inside_create_file [OF ps(2,3), of target T fs0 r "nd_size (snd e)"] spared_create_file [OF o, of fs0]]
        unfolding ps(1) [symmetric] split_beta .
      fix y z assume y: "?I y" and c: "?create e y = (Inr (), z)"
      then have "create_file r (target @ ps) (nd_size (snd e)) y = (Inr (), z)" using ps(1) by (cases e) simp
      from create_file_ok [of target T fs0 D y, OF _ ps(2) o this] y have "z = y\<lparr>xw_fs := new_file (T @ ps) (replicate (unat (nd_size (snd e))) 0) (xw_fs y)\<rparr>" by simp
      then have "fmlookup (uf_nodes (xw_fs z)) (T @ ps) = Some (UFile (uf_next (xw_fs y)))"
        by (simp add: new_file_def add_file_def set_node_def set_inode_def)
      moreover have "uf_next fs0 \<le> uf_next (xw_fs y)" using y by (simp add: spared_from_def spared_def)
      ultimately show "Q e z" using ps unfolding Q_def by blast
    next
      fix e e' y assume "Q e' y"
      moreover have "spared (xw_fs y) (xw_fs (snd (?create e y)))" using sc [of "xw_fs y" e] by (simp add: act_keeps_def spared_from_def)
      ultimately show "Q e' (snd (?create e y))" unfolding Q_def spared_def nodes_kept_def by fastforce
    qed (use x q Inr in simp_all)
    then have own: "own_files target T fs0 D ?P x1" unfolding own_files_def Q_def by fastforce
    have l: "act_keeps (own_files target T fs0 D ?P) (make_link r e)" if e: "e \<in> set ls" for e
    proof -
      have "fst e \<in> rt_path r ` fst ` set files" "snd e \<in> rt_path r ` fst ` set files" using e sub(2,3) by auto
      from entry [OF this(1)] entry [OF this(2)] obtain qs ps where
        "fst e = target @ qs" "reachable_entry D qs" "snd e = target @ ps" "reachable_entry D ps" "\<forall>d\<in>D. \<not> prefix ps d"
        by (elim exE conjE)
      then have "act_keeps (inside target T fs0 D) (make_link r e)" using inside_link by (metis prod.collapse)
      then show ?thesis by (intro own_filesI spared_link o)
    qed
    have pr: "act_keeps (own_files target T fs0 D ?P) (\<lambda>x. (g x, x))" for g :: "xworld \<Rightarrow> 'a bresult" by (rule act_keepsI) simp
    have rp: "act_keeps (own_files target T fs0 D ?P) (read_pack B (map fst tw) p)" for p
      using own_read_pack [of target T fs0 D "map fst tw"] by simp
    have "act_keeps (own_files target T fs0 D ?P) after"
      unfolding after_def by (intro keeps_intros inside_each pr rp own_finish_file l)
    moreover note own
    moreover have "after x1 = (res, x')" using rn q Inr by simp
    ultimately have "own_files target T fs0 D ?P x'" by (rule act_keepsD [of "own_files target T fs0 D ?P"])
    then show ?thesis by (simp add: own_files_def)
  qed
qed

lemma spared_dir_metadata:
  assumes d: "d \<in> D" and e: "reachable_entry D d"
  shows "act_keeps (\<lambda>x. inside target T fs0 D x \<and> spared_from fs0 x) (apply_metadata (target @ d) nd)"
proof (rule act_keepsI)
  fix x assume x: "inside target T fs0 D x \<and> spared_from fs0 x"
  have r: "restoring target T fs0 D (xw_fs x)" using x by (simp add: inside_def)
  have i: "inside target T fs0 D (snd (apply_metadata (target @ d) nd x))"
    using inside_metadata [OF e, of target T fs0 nd] x by (simp add: act_keeps_def)
  obtain a where "fmlookup (uf_nodes (xw_fs x)) (T @ d) = Some (UDir a)"
    using restoring_dir [OF r d] by (auto simp: real_dirs_def elim!: is_udirE)
  then have "spared (xw_fs x) (xw_fs (snd (apply_metadata (target @ d) nd x)))"
    by (auto simp: apply_metadata_def on_fs_run set_attr_def act_bind_run entry_place [OF r e] spared_def nodes_kept_def set_node_def)
  then show "inside target T fs0 D (snd (apply_metadata (target @ d) nd x)) \<and> spared_from fs0 (snd (apply_metadata (target @ d) nd x))"
    using i x spared_trans unfolding spared_from_def by blast
qed

lemma spared_run_plan:
  assumes x: "inside target T fs0 {[]} x" "spared_from fs0 x" and ok: "plan_ok plan D S F" and r: "rt_target r = target" "\<not> rt_overwrite r"
    and run: "run_plan B r arrange plan x = (res, x')"
  shows "spared_from fs0 x'"
proof -
  let ?D = "insert [] (set D)" let ?I = "\<lambda>x. inside target T fs0 ?D x \<and> spared_from fs0 x"
  note pl = ok [unfolded plan_ok_def]
  have dirs: "(\<lambda>(rel, _, _). make_dir r rel) = (\<lambda>e. make_dir r (fst e))" by (auto simp: fun_eq_iff)
  define metas :: "unit xact" where "metas = act_each (\<lambda>(rel, nd, _). apply_metadata (rt_path r rel) nd) (rev (pl_dirs plan))"
  define links where "links = act_each (\<lambda>(rel, nd). make_symlink r rel nd) (pl_symlinks plan)"
  have run1: "act_bind (act_each (\<lambda>e. make_dir r (fst e)) (pl_dirs plan)) (\<lambda>_. act_bind links (\<lambda>_.
      act_bind (restore_files B r arrange (pl_files plan)) (\<lambda>_. metas))) x = (res, x')"
    using run by (simp add: run_plan_def dirs links_def metas_def)
  obtain q x1 where q: "act_each (\<lambda>e. make_dir r (fst e)) (pl_dirs plan) x = (q, x1)" by (rule prod.exhaust)
  have s1: "spared_from fs0 x1" using act_keepsD [OF inside_each [OF spared_make_dir [OF r(2)]] x(2) q] .
  have i1: "q = Inr () \<longrightarrow> inside target T fs0 ({[]} \<union> set D) x1"
    using inside_make_dirs [OF x(1), of "{}" D "pl_dirs plan" r q x1] q pl r(1) by auto
  show ?thesis
  proof (cases q)
    case (Inl e)
    then show ?thesis using run1 q s1 by simp
  next
    case (Inr u)
    have entry: "list_all plain_part p \<and> reachable_entry ?D p \<and> (\<forall>d\<in>?D. \<not> prefix p d)" if "p \<in> set (S @ F)" for p
      by (rule plan_entry [OF ok that])
    have path: "rt_path r (joined p) = target @ p" if "p \<in> set (D @ S @ F)" for p using pl that by (simp add: rt_path_def r(1))
    have "act_keeps ?I (case e of (rel, nd) \<Rightarrow> make_symlink r rel nd)" if "e \<in> set (pl_symlinks plan)" for e
    proof -
      have "fst e \<in> joined ` set S" using that pl by (metis image_eqI list.set_map)
      then obtain p where p: "fst e = joined p" "p \<in> set S" by auto
      have "act_keeps (inside target T fs0 ?D) (make_symlink r (fst e) (snd e))"
        unfolding p(1) by (rule inside_symlink [of ?D p]) (use entry [of p] path [of p] p(2) in auto)
      from keeps_both [OF this spared_make_symlink [OF r(2), of fs0]] show ?thesis unfolding split_beta .
    qed
    then have links: "act_keeps ?I links" unfolding links_def by (rule inside_each)
    have files: "file_paths target ?D (rt_path r ` fst ` set (pl_files plan))"
    proof -
      have "fst ` set (pl_files plan) = joined ` set F" using pl by (metis list.set_map)
      then show ?thesis using entry path unfolding file_paths_def by auto
    qed
    have rf: "act_keeps ?I (restore_files B r arrange (pl_files plan))"
      using inside_restore_files [OF files, of T fs0 B arrange] spared_restore_files [OF _ _ r(2) files]
      unfolding act_keeps_def by (metis prod.collapse)
    have "act_keeps ?I (case e of (rel, nd, _) \<Rightarrow> apply_metadata (rt_path r rel) nd)" if "e \<in> set (rev (pl_dirs plan))" for e
    proof -
      have "fst e \<in> joined ` set D" using that pl by (metis image_eqI list.set_map set_rev)
      then obtain p where p: "fst e = joined p" "p \<in> set D" by auto
      have "butlast p \<in> ?D"
      proof (cases "butlast p = []")
        case False
        from dirs_closed [of "{}" D p "butlast p"] pl p(2) False show ?thesis by (simp add: prefixeq_butlast)
      qed simp
      then have "reachable_entry ?D p" using pl p(2) by (simp add: reachable_entry_def)
      from spared_dir_metadata [OF _ this, of target T fs0 "fst (snd e)"] p(2) path [of p] p(1) show ?thesis by (cases e) simp
    qed
    then have metas: "act_keeps ?I metas" unfolding metas_def by (rule inside_each)
    let ?rest = "act_bind links (\<lambda>_. act_bind (restore_files B r arrange (pl_files plan)) (\<lambda>_. metas))"
    have "act_keeps ?I ?rest" by (intro keeps_intros links rf metas)
    moreover have "?I x1" using s1 i1 Inr by simp
    moreover have "?rest x1 = (res, x')" using run1 q Inr by simp
    ultimately have "?I x'" by (rule act_keepsD [of ?I])
    then show ?thesis by simp
  qed
qed

section \<open>A concrete restore\<close>

text \<open>
  For the witnesses: a snapshot of two names of one file and a symbolic link, whose tree is cached and whose
  only chunk is in a pack, restored into a directory that already holds a link out of it.
\<close>

definition linked_chunk :: bid where "linked_chunk = blob_id sample_benv sample_keys [9]"

definition linked :: "string \<Rightarrow> node" where
  "linked name = (sample_file name [linked_chunk])\<lparr>nd_size := 1, nd_links := 2\<rparr>"

definition link_to :: "string \<Rightarrow> string \<Rightarrow> node" where
  "link_to name t = (sample_file name [])\<lparr>nd_type := NSymlink, nd_link := Some t\<rparr>"

definition linked_tree :: tree where
  "linked_tree = [linked ''f'', linked ''g'', link_to ''l'' ''f'']"

definition linked_codecs :: codecs where
  "linked_codecs = sample_codecs\<lparr>cd_tree_parse := (\<lambda>b. if b = [1] then Some linked_tree else None)\<rparr>"

definition linked_entry :: pack_entry where
  "linked_entry = \<lparr>pe_type = BData, pe_compression = CNone, pe_id = linked_chunk, pe_offset = 0, pe_length = 36, pe_plain = 1\<rparr>"

definition linked_pack :: bytes where
  "linked_pack = replicate NONCE_SIZE 0 @ [9] @ sample_tag 0 True"

definition linked_repo :: repository where
  "linked_repo = repo_new ''p/'' sample_keys
     \<lparr>rc_version = 1, rc_id = id_default, rc_created = 0, rc_chunker = DEFAULT_CHUNKER, rc_compression = CNone\<rparr>
     (add_pack [7] [linked_entry] index_new)"

definition linked_world :: xworld where
  "linked_world = \<lparr>xw_run = \<lparr>rw_repo = linked_repo, rw_world = sample_bworld\<lparr>
       bw_store := mem_insert 5 (repo_key linked_repo (pack_name [7])) linked_pack mem_new,
       bw_cache := Some (fmap_of_list [((CTree, blob_id sample_benv sample_keys [1]), [1])])\<rparr>\<rparr>,
     xw_fs = sample_fs, xw_stats = stats_default\<rparr>"

definition linked_plan :: restore_plan where
  "linked_plan = \<lparr>pl_dirs = [], pl_symlinks = [(''l'', link_to ''l'' ''f'')], pl_files = [(''f'', linked ''f''), (''g'', linked ''g'')]\<rparr>"

lemma linked_load: "load_tree sample_benv linked_codecs (blob_id sample_benv sample_keys [1]) (xw_run linked_world) = (Inr linked_tree, xw_run linked_world)"
proof -
  have "tree_decode linked_codecs [1] = Inr linked_tree"
    by (simp add: tree_decode_def linked_codecs_def linked_tree_def linked_def link_to_def sample_file_def bad_name_def)
  then show ?thesis
    by (simp add: load_tree_def linked_world_def cache_get_def verify_blob_id_def blob_id_def linked_repo_def repo_new_def)
qed

lemma linked_planned: "plan_tree 5 sample_benv linked_codecs sample_globs (\<lparr>pm_globs = [], pm_literals = []\<rparr>) (\<lparr>pm_globs = [], pm_literals = []\<rparr>)
    (blob_id sample_benv sample_keys [1]) [] True plan_default (xw_run linked_world) = (Inr linked_plan, xw_run linked_world)"
  by (simp add: eval_nat_numeral linked_load act_bind_run linked_tree_def linked_def link_to_def sample_file_def child_path_def matcher_matches_def
      plan_default_def linked_plan_def)

lemma linked_pruned: "prune_dirs linked_plan = linked_plan"
  by (simp add: prune_dirs_def linked_plan_def)

lemma linked_decode: "decode_blob sample_benv sample_keys linked_entry linked_pack = Inr [9]"
proof -
  have "seal sample_benv (replicate NONCE_SIZE 0) sample_keys KData [9] a = Inr linked_pack" for a
    by (simp add: sample_seal linked_pack_def)
  from unseal_seal [OF _ _ this] sample_benv_ok
  have "unseal sample_benv sample_keys KData linked_pack a what = Inr [9]" for a what by (simp add: bcrypto_ok_def)
  moreover have "length linked_pack = 36" by (simp add: linked_pack_def NONCE_SIZE_def sample_tag_def)
  ultimately show ?thesis
    by (simp add: decode_blob_def linked_entry_def linked_chunk_def verify_blob_id_def decompress_def blob_key_kind_def blob_id_def Let_def)
qed

abbreviation linked_restorer :: restorer where
  "linked_restorer \<equiv> \<lparr>rt_target = [''t''], rt_resolved = [''t''], rt_overwrite = False\<rparr>"

text \<open>The paths of the run lie directly in the target.\<close>

definition in_target :: "unix_fs \<Rightarrow> bool" where
  "in_target fs \<longleftrightarrow> restoring [''t''] [''t''] sample_fs {[]} fs \<and> \<not> (\<exists>q. uf_denied fs q)"

lemma linked_entry_ok: "n \<noteq> [] \<Longrightarrow> plain_part n \<Longrightarrow> reachable_entry {[]} [n]"
  by (simp add: reachable_entry_def)

lemma linked_place: "in_target fs \<Longrightarrow> plain_part n \<Longrightarrow> place_for [''t'', n] fs = (Inr [''t'', n], fs)"
  using entry_place [of "[''t'']" "[''t'']" sample_fs "{[]}" fs "[n]"] by (simp add: in_target_def reachable_entry_def)

lemma linked_metadata: "in_target fs \<Longrightarrow> plain_part n \<Longrightarrow> symlink_metadata fs [''t'', n] = res_of IoNotFound (fmlookup (uf_nodes fs) [''t'', n])"
  using entry_metadata [of "[''t'']" "[''t'']" sample_fs "{[]}" fs "[n]"] by (simp add: in_target_def reachable_entry_def)

lemma linked_contained: "in_target (xw_fs x) \<Longrightarrow> check_contained linked_restorer [''t''] x = (Inr (), x)"
  using restoring_canonical [of "[''t'']" "[''t'']" sample_fs "{[]}" "xw_fs x" "[]"]
  by (simp add: in_target_def check_contained_def act_bind_run on_fs_run look_def)

lemma linked_parts: "plain_part ''f''" "plain_part ''g''" "plain_part ''l''"
  by (simp_all add: plain_part_def)

lemma in_target_start: "in_target sample_fs"
  using steady_target [OF sample_steady sample_dir(1)] by (simp add: in_target_def) (simp add: sample_fs_def)

lemma in_target_node: "in_target fs \<Longrightarrow> (\<And>i. nd = UFile i \<Longrightarrow> 1 \<le> i) \<Longrightarrow> in_target (set_node [''t'', n] nd fs)"
  using restoring_set_node [of "[''t'']" "[''t'']" sample_fs "{[]}" fs "[n]" nd]
  by (auto simp: in_target_def set_node_def sample_fs_def)

lemma in_target_inode: "in_target fs \<Longrightarrow> 1 \<le> i \<Longrightarrow> in_target (set_inode i nd fs)"
  using restoring_set_inode [of "[''t'']" "[''t'']" sample_fs "{[]}" fs i nd]
  by (auto simp: in_target_def set_inode_def sample_fs_def)

lemma in_target_next: "in_target fs \<Longrightarrow> in_target (fs\<lparr>uf_next := Suc (uf_next fs)\<rparr>)"
  using restoring_next(1) by (auto simp: in_target_def)

definition fs1 :: unix_fs where "fs1 = set_node [''t'', ''l''] (ULink ''f'') sample_fs"
definition fs2 :: unix_fs where "fs2 = new_file [''t'', ''f''] [0] fs1"
definition fs3 :: unix_fs where "fs3 = set_inode 1 \<lparr>in_bytes = [9], in_attr = fresh_file 384\<rparr> fs2"
definition fs4 :: unix_fs where "fs4 = set_inode 1 \<lparr>in_bytes = [9], in_attr = node_attr False (linked ''f'') (fresh_file 384)\<rparr> fs3"
definition fs5 :: unix_fs where "fs5 = set_node [''t'', ''g''] (UFile 1) fs4"

lemma next1: "uf_next fs1 = 1" "uf_denied fs1 q = False" by (simp_all add: fs1_def set_node_def sample_fs_def)

lemma linked_fs: "in_target fs1" "in_target fs2" "in_target fs3" "in_target fs4"
proof -
  show 1: "in_target fs1" unfolding fs1_def by (intro in_target_node in_target_start) simp
  have "in_target (set_node [''t'', ''f''] (UFile 1) (set_inode 1 \<lparr>in_bytes = [], in_attr = fresh_file 384\<rparr> fs1))"
    by (intro in_target_node in_target_inode 1) simp_all
  from in_target_next [OF this] have "in_target (add_file [''t'', ''f''] \<lparr>in_bytes = [], in_attr = fresh_file 384\<rparr> fs1)"
    by (simp add: add_file_def next1 set_node_def set_inode_def)
  from in_target_inode [OF this] show 2: "in_target fs2" by (simp add: fs2_def new_file_def next1)
  show 3: "in_target fs3" unfolding fs3_def by (intro in_target_inode 2) simp
  show "in_target fs4" unfolding fs4_def by (intro in_target_inode 3) simp
qed

lemmas linked_nodes = fs1_def fs2_def fs3_def fs4_def fs5_def new_file_def add_file_def set_node_def set_inode_def sample_fs_def

lemma linked_lookups:
  "fmlookup (uf_nodes sample_fs) [''t'', ''l''] = None" "fmlookup (uf_nodes fs1) [''t'', ''f''] = None"
  "fmlookup (uf_nodes fs2) [''t'', ''f''] = Some (UFile 1)" "fmlookup (uf_nodes fs3) [''t'', ''f''] = Some (UFile 1)"
  "fmlookup (uf_nodes fs4) [''t'', ''f''] = Some (UFile 1)" "fmlookup (uf_nodes fs4) [''t'', ''g''] = None"
  "fmlookup (uf_inodes fs2) 1 = Some \<lparr>in_bytes = [0], in_attr = fresh_file 384\<rparr>"
  "fmlookup (uf_inodes fs3) 1 = Some \<lparr>in_bytes = [9], in_attr = fresh_file 384\<rparr>"
  "uf_owner fs3 = False"
  by (simp_all add: linked_nodes)

lemma linked_steps:
  shows "\<exists>s'. make_symlink linked_restorer ''l'' (link_to ''l'' ''f'') \<lparr>xw_run = v, xw_fs = sample_fs, xw_stats = s\<rparr> = (Inr (), \<lparr>xw_run = v, xw_fs = fs1, xw_stats = s'\<rparr>)"
    and "create_file linked_restorer [''t'', ''f''] 1 \<lparr>xw_run = v, xw_fs = fs1, xw_stats = s\<rparr> = (Inr (), \<lparr>xw_run = v, xw_fs = fs2, xw_stats = s\<rparr>)"
    and "write_at [''t'', ''f''] [9] 0 \<lparr>xw_run = v, xw_fs = fs2, xw_stats = s\<rparr> = (Inr (), \<lparr>xw_run = v, xw_fs = fs3, xw_stats = s\<rparr>)"
    and "\<exists>s'. finish_file ([''t'', ''f''], linked ''f'') \<lparr>xw_run = v, xw_fs = fs3, xw_stats = s\<rparr> = (Inr (), \<lparr>xw_run = v, xw_fs = fs4, xw_stats = s'\<rparr>)"
    and "\<exists>s'. make_link linked_restorer ([''t'', ''f''], [''t'', ''g'']) \<lparr>xw_run = v, xw_fs = fs4, xw_stats = s\<rparr> = (Inr (), \<lparr>xw_run = v, xw_fs = fs5, xw_stats = s'\<rparr>)"
proof -
  have one: "replicate 1 (0 :: byte) = [0]" by simp
  note ev = Let_def act_bind_run on_fs_run linked_contained linked_metadata linked_place linked_parts linked_lookups in_target_start linked_fs add_stats_def
  show "\<exists>s'. make_symlink linked_restorer ''l'' (link_to ''l'' ''f'') \<lparr>xw_run = v, xw_fs = sample_fs, xw_stats = s\<rparr> = (Inr (), \<lparr>xw_run = v, xw_fs = fs1, xw_stats = s'\<rparr>)"
    by (simp del: One_nat_def add: ev make_symlink_def rt_path_def path_segments_def clear_def symlink_def new_entry_def link_to_def fs1_def)
  show "create_file linked_restorer [''t'', ''f''] 1 \<lparr>xw_run = v, xw_fs = fs1, xw_stats = s\<rparr> = (Inr (), \<lparr>xw_run = v, xw_fs = fs2, xw_stats = s\<rparr>)"
    by (simp del: One_nat_def add: ev create_file_def open_write_def set_len_def fs2_def new_file_def add_file_def set_inode_def set_node_def next1 resize_def one)
  show "write_at [''t'', ''f''] [9] 0 \<lparr>xw_run = v, xw_fs = fs2, xw_stats = s\<rparr> = (Inr (), \<lparr>xw_run = v, xw_fs = fs3, xw_stats = s\<rparr>)"
    by (simp del: One_nat_def add: ev write_at_def open_write_def write_all_at_def fs3_def splice_def resize_def)
  show "\<exists>s'. finish_file ([''t'', ''f''], linked ''f'') \<lparr>xw_run = v, xw_fs = fs3, xw_stats = s\<rparr> = (Inr (), \<lparr>xw_run = v, xw_fs = fs4, xw_stats = s'\<rparr>)"
    by (simp del: One_nat_def add: ev finish_file_def apply_metadata_def set_attr_def fs4_def linked_def sample_file_def)
  show "\<exists>s'. make_link linked_restorer ([''t'', ''f''], [''t'', ''g'']) \<lparr>xw_run = v, xw_fs = fs4, xw_stats = s\<rparr> = (Inr (), \<lparr>xw_run = v, xw_fs = fs5, xw_stats = s'\<rparr>)"
    by (simp del: One_nat_def add: ev make_link_def clear_def hard_link_def new_entry_def fs5_def)
qed

definition linked_read :: blob_read where
  "linked_read = \<lparr>br_entry = linked_entry, br_destinations = [(0, 0)]\<rparr>"

lemma linked_lookup: "index_lookup linked_chunk (rp_index linked_repo) = Some \<lparr>lo_pack = [7], lo_entry = linked_entry\<rparr>"
  by (simp add: linked_repo_def repo_new_def index_lookup_def add_pack_def index_new_def linked_entry_def)

lemma linked_reads: "plan_reads (rp_index linked_repo) 0 [([''t'', ''f''], linked ''f'')] fmempty = Inr (fmupd [7] (fmupd linked_chunk linked_read fmempty) fmempty)"
proof -
  have "nd_content (linked ''f'') = [linked_chunk]" "nd_size (linked ''f'') = 1" by (simp_all add: linked_def sample_file_def)
  then show ?thesis by (simp add: linked_lookup add_read_def linked_read_def) (simp add: linked_entry_def)
qed

lemma linked_split: "split_links linked_restorer (pl_files linked_plan) fmempty [] [] = ([([''t'', ''f''], linked ''f'')], [([''t'', ''f''], [''t'', ''g''])])"
  by (simp add: linked_plan_def rt_path_def path_segments_def is_hardlink_def linked_def sample_file_def Let_def)

lemma linked_range:
  "\<exists>v. on_run (in_world (from_bstore (mem_get_range (repo_key linked_repo (pack_name [7])) 0 36))) \<lparr>xw_run = xw_run linked_world, xw_fs = fs, xw_stats = s\<rparr> =
     (Inr linked_pack, \<lparr>xw_run = v, xw_fs = fs, xw_stats = s\<rparr>)"
  by (simp add: on_run_def in_world_run from_bstore_run mem_get_range_def linked_world_def mem_insert_def Let_def linked_pack_def sample_tag_def NONCE_SIZE_def)

lemma linked_read_pack:
  "\<exists>v. read_pack sample_benv [[''t'', ''f'']] ([7], fmupd linked_chunk linked_read fmempty) \<lparr>xw_run = xw_run linked_world, xw_fs = fs2, xw_stats = s\<rparr> =
     (Inr (), \<lparr>xw_run = v, xw_fs = fs3, xw_stats = s\<rparr>)"
proof -
  have g: "fm_values (fmupd linked_chunk linked_read fmempty) = [linked_read]"
    by (simp add: fm_values_def fm_entries_def fm_keys_def sorted_list_of_fset.rep_eq)
  have e: "unat (pe_offset (br_entry linked_read)) = 0" "pe_end (br_entry linked_read) = 36" "unat (pe_length (br_entry linked_read)) = 36"
    "br_destinations linked_read = [(0, 0)]" "br_entry linked_read = linked_entry"
    "pe_offset linked_entry = 0" "pe_end linked_entry = 36" "unat (pe_length linked_entry) = 36"
    by (simp_all add: linked_read_def linked_entry_def pe_end_def)
  have k: "rp_keys linked_repo = sample_keys" "rw_repo (xw_run linked_world) = linked_repo" "length linked_pack = 36"
    by (simp_all add: linked_repo_def repo_new_def linked_world_def linked_pack_def sample_tag_def NONCE_SIZE_def)
  obtain v where "on_run (in_world (from_bstore (mem_get_range (repo_key linked_repo (pack_name [7])) 0 36))) \<lparr>xw_run = xw_run linked_world, xw_fs = fs2, xw_stats = s\<rparr> =
     (Inr linked_pack, \<lparr>xw_run = v, xw_fs = fs2, xw_stats = s\<rparr>)" using linked_range by blast
  moreover have "write_at [''t'', ''f''] [9] 0 (\<lparr>xw_run = v, xw_fs = fs2, xw_stats = s\<rparr>) = (Inr (), \<lparr>xw_run = v, xw_fs = fs3, xw_stats = s\<rparr>)"
    by (rule linked_steps(3))
  ultimately show ?thesis
    by (simp add: read_pack_def g k group_reads_def group_start_def group_end_def e act_bind_run write_read_def Let_def linked_decode)
qed

lemma linked_run:
  "\<exists>x'. restore 5 sample_benv linked_codecs sample_globs id (sample_snapshot\<lparr>sn_tree := blob_id sample_benv sample_keys [1]\<rparr>) [''t'']
     \<lparr>ro_include = [], ro_exclude = [], ro_overwrite = False\<rparr> linked_world = (Inr (xw_stats x'), x') \<and> xw_fs x' = fs5"
proof -
  let ?C = "blob_id sample_benv sample_keys [1]"
  let ?tw = "[([''t'', ''f''], linked ''f'')]" and ?ls = "[([''t'', ''f''], [''t'', ''g''])]"
  define x0 where "x0 = \<lparr>xw_run = xw_run linked_world, xw_fs = sample_fs, xw_stats = stats_default\<rparr>"
  obtain s1 where 1: "make_symlink linked_restorer ''l'' (link_to ''l'' ''f'') x0 = (Inr (), \<lparr>xw_run = xw_run linked_world, xw_fs = fs1, xw_stats = s1\<rparr>)"
    using linked_steps(1) unfolding x0_def by blast
  have 2: "create_file linked_restorer [''t'', ''f''] 1 \<lparr>xw_run = xw_run linked_world, xw_fs = fs1, xw_stats = s1\<rparr> = (Inr (), \<lparr>xw_run = xw_run linked_world, xw_fs = fs2, xw_stats = s1\<rparr>)"
    by (rule linked_steps(2))
  obtain v where 3: "read_pack sample_benv [[''t'', ''f'']] ([7], fmupd linked_chunk linked_read fmempty) \<lparr>xw_run = xw_run linked_world, xw_fs = fs2, xw_stats = s1\<rparr> =
     (Inr (), \<lparr>xw_run = v, xw_fs = fs3, xw_stats = s1\<rparr>)" using linked_read_pack by blast
  obtain s4 where 4: "finish_file ([''t'', ''f''], linked ''f'') (\<lparr>xw_run = v, xw_fs = fs3, xw_stats = s1\<rparr>) =
     (Inr (), \<lparr>xw_run = v, xw_fs = fs4, xw_stats = s4\<rparr>)"
    using linked_steps(4) by blast
  obtain s5 where 5: "make_link linked_restorer ([''t'', ''f''], [''t'', ''g'']) (\<lparr>xw_run = v, xw_fs = fs4, xw_stats = s4\<rparr>) =
     (Inr (), \<lparr>xw_run = v, xw_fs = fs5, xw_stats = s5\<rparr>)"
    using linked_steps(5) by blast
  have g: "fm_entries (fmupd [7] (fmupd linked_chunk linked_read fmempty) fmempty) = [([7 :: byte], fmupd linked_chunk linked_read fmempty)]"
    by (simp add: fm_entries_def fm_keys_def sorted_list_of_fset.rep_eq)
  have sz: "nd_size (linked ''f'') = 1" by (simp add: linked_def)
  have "restore_files sample_benv linked_restorer id (pl_files linked_plan) \<lparr>xw_run = xw_run linked_world, xw_fs = fs1, xw_stats = s1\<rparr> =
     (Inr (), \<lparr>xw_run = v, xw_fs = fs5, xw_stats = s5\<rparr>)"
  proof -
    have r: "rw_repo (xw_run linked_world) = linked_repo" by (simp add: linked_world_def)
    show ?thesis unfolding restore_files_def linked_split prod.case
      by (simp add: act_bind_run sz 2 r linked_reads g 3 4 5 del: plan_reads.simps)
  qed
  then have "run_plan sample_benv linked_restorer id linked_plan x0 = (Inr (), \<lparr>xw_run = v, xw_fs = fs5, xw_stats = s5\<rparr>)"
    unfolding run_plan_def by (simp add: linked_plan_def act_bind_run 1)
  moreover have "canonicalize sample_fs [''t''] = Inr [''t'']"
    using restoring_canonical [OF steady_target [OF sample_steady sample_dir(1)], of "[]"] by simp
  moreover have "xw_fs linked_world = sample_fs" by (simp add: linked_world_def)
  moreover have "on_run (plan_tree 5 sample_benv linked_codecs sample_globs \<lparr>pm_globs = [], pm_literals = []\<rparr> \<lparr>pm_globs = [], pm_literals = []\<rparr> ?C [] True plan_default) x0 =
      (Inr linked_plan, x0)"
    using linked_planned by (simp add: on_run_def x0_def)
  moreover have x0: "linked_world\<lparr>xw_fs := sample_fs, xw_stats := stats_default\<rparr> = x0" by (simp add: x0_def)
  ultimately show ?thesis
    by (intro exI [of _ "\<lparr>xw_run = v, xw_fs = fs5, xw_stats = s5\<rparr>"])
      (simp add: restore_def act_bind_run matcher_new_def matcher_empty_def on_fs_run sample_target look_def add_stats_def linked_pruned Let_def x0)
qed

section \<open>Properties\<close>

text \<open>
  C3: A restore changes nothing outside its target, whatever the snapshot names, whatever links and entries
  are there already, with or without overwriting, and however far it gets. First the directories of the
  target path that are missing are made, and nothing else changes; from then on every entry that does not
  lie beneath the resolved target is as it was, and so is every file that has no name beneath it.
  Without overwriting, moreover, every file and every link that existed is as it was, beneath the target
  too. With overwriting, a file beneath the target that is in the way is written in place, so its other
  names see the new content, also outside the target (\<open>overwrite_writes_through\<close>). The condition is that
  resolving the target path does not itself lead through the inside of the target.
\<close>

theorem restore_contained:
  assumes "create_dir_all target (xw_fs x) = (Inr (), fs0)" and "is_udir (fmlookup (uf_nodes fs0) T)" and "steady target T fs0"
    and run: "restore n B C G arrange sn target opts x = (res, x')"
  shows "only_dirs_added (xw_fs x) fs0 \<and> (xw_fs x' = xw_fs x \<or> kept_outside T fs0 (xw_fs x') \<and> (\<not> ro_overwrite opts \<longrightarrow> spared fs0 (xw_fs x')))"
proof -
  have in_target: "only_dirs_added (xw_fs x) fs0 \<and> (xw_fs x' = xw_fs x \<or> kept_outside T fs0 (xw_fs x'))" by (rule restore_inside [OF assms])
  have "xw_fs x' = xw_fs x \<or> spared fs0 (xw_fs x')" if o: "\<not> ro_overwrite opts"
  proof (cases "\<exists>inc exc. matcher_new G (ro_include opts) = Inr inc \<and> matcher_new G (ro_exclude opts) = Inr exc")
    case True
    then obtain inc exc where m: "matcher_new G (ro_include opts) = Inr inc" "matcher_new G (ro_exclude opts) = Inr exc" by blast
    have canon: "canonicalize fs0 target = Inr T"
      using restoring_canonical [OF steady_target [OF assms(3,2)], of "[]"] by simp
    let ?r = "\<lparr>rt_target = target, rt_resolved = T, rt_overwrite = ro_overwrite opts\<rparr>"
    define x1 where "x1 = x\<lparr>xw_fs := fs0, xw_stats := stats_default\<rparr>"
    define planned where "planned = on_run (plan_tree n B C G inc exc (sn_tree sn) [] (matcher_empty inc) plan_default)"
    have run1: "act_bind planned (\<lambda>plan. act_bind (run_plan B ?r arrange (prune_dirs plan)) (\<lambda>_. act_get xw_stats)) x1 = (res, x')"
      using run by (simp add: restore_def act_bind_run m on_fs_run assms(1) look_def canon add_stats_def planned_def x1_def Let_def)
    obtain q x2 where x2: "planned x1 = (q, x2)" by (rule prod.exhaust)
    have fs2: "xw_fs x2 = fs0" using x2 by (auto simp: planned_def on_run_def x1_def split: prod.splits)
    have i2: "inside target T fs0 {[]} x2" "spared_from fs0 x2"
      using steady_target [OF assms(3,2)] by (simp_all add: inside_def spared_from_def fs2)
    show ?thesis
    proof (cases q)
      case (Inl err)
      with run1 x2 i2 show ?thesis by (auto simp: act_bind_run spared_from_def)
    next
      case plan: (Inr plan)
      then obtain v v' where "plan_tree n B C G inc exc (sn_tree sn) (joined []) (matcher_empty inc) plan_default v = (Inr plan, v')"
        using x2 by (auto simp: planned_def on_run_def split: prod.splits)
      from plan_tree_adds [OF _ this] obtain K where "adds [] K plan_default plan" by auto
      from prune_dirs_ok [OF this] obtain D S F where ok: "plan_ok (prune_dirs plan) D S F" by blast
      obtain q3 x3 where x3: "run_plan B ?r arrange (prune_dirs plan) x2 = (q3, x3)" by (rule prod.exhaust)
      have "spared_from fs0 x3" by (rule spared_run_plan [OF i2 ok _ _ x3]) (simp_all add: o)
      moreover have "x' = x3" using run1 x2 plan x3 by (auto simp: act_bind_run split: sum.splits)
      ultimately show ?thesis by (simp add: spared_from_def)
    qed
  qed (use run in \<open>auto simp: restore_def act_bind_run split: sum.splits\<close>)
  with in_target show ?thesis by blast
qed

theorem restore_contained_witness:
  "\<exists>x'. restore 5 sample_benv linked_codecs sample_globs id (sample_snapshot\<lparr>sn_tree := blob_id sample_benv sample_keys [1]\<rparr>) [''t'']
     \<lparr>ro_include = [], ro_exclude = [], ro_overwrite = False\<rparr> linked_world = (Inr (xw_stats x'), x') \<and>
     fmlookup (uf_nodes (xw_fs x')) [''t'', ''g''] = Some (UFile 1) \<and> fmlookup (uf_nodes (xw_fs x')) [''t'', ''home''] = Some (ULink ''/etc'') \<and>
     fmlookup (uf_nodes (xw_fs x')) [''etc'', ''passwd''] = Some (UFile 0) \<and> bytes_of (xw_fs x') 0 = [1, 2, 3]"
proof -
  obtain x' where run: "restore 5 sample_benv linked_codecs sample_globs id (sample_snapshot\<lparr>sn_tree := blob_id sample_benv sample_keys [1]\<rparr>) [''t'']
     \<lparr>ro_include = [], ro_exclude = [], ro_overwrite = False\<rparr> linked_world = (Inr (xw_stats x'), x')" "xw_fs x' = fs5" using linked_run by blast
  have fs: "create_dir_all [''t''] (xw_fs linked_world) = (Inr (), sample_fs)" by (simp add: linked_world_def sample_target)
  have start: "fmlookup (uf_nodes sample_fs) [''t'', ''home''] = Some (ULink ''/etc'')" "fmlookup (uf_nodes sample_fs) [''etc'', ''passwd''] = Some (UFile 0)"
    "uf_next sample_fs = 1" "xw_fs linked_world = sample_fs" "map_option in_bytes (fmlookup (uf_inodes sample_fs) 0) = Some [1, 2, 3]"
    by (simp_all add: sample_fs_def linked_world_def fmlookup_of_list)
  have g: "fmlookup (uf_nodes (xw_fs x')) [''t'', ''g''] = Some (UFile 1)" by (simp add: run(2) fs5_def set_node_def)
  moreover have "xw_fs x' \<noteq> xw_fs linked_world" using g by (auto simp: start(4) sample_fs_def fmlookup_of_list)
  with restore_contained [OF fs sample_dir(1) sample_steady run(1)]
  have "kept_outside [''t''] sample_fs (xw_fs x')" "spared sample_fs (xw_fs x')" by simp_all
  then have "fmlookup (uf_nodes (xw_fs x')) [''etc'', ''passwd''] = Some (UFile 0)" "fmlookup (uf_nodes (xw_fs x')) [''t'', ''home''] = Some (ULink ''/etc'')"
    "bytes_of (xw_fs x') 0 = [1, 2, 3]"
    using start by (auto simp: kept_outside_def spared_def nodes_kept_def bytes_of_def strict_prefix_def)
  with run(1) g show ?thesis by blast
qed

text \<open>Overwriting a regular file keeps its inode: every other name of it, wherever it is, sees the change.\<close>

lemma overwrite_writes_through:
  assumes "rt_overwrite r" and "check_contained r (butlast path) x = (Inr (), x)" and "symlink_metadata (xw_fs x) path = Inr (UFile i)"
    and "place_for path (xw_fs x) = (Inr q, xw_fs x)" and "fmlookup (uf_nodes (xw_fs x)) q = Some (UFile i)"
    and "fmlookup (uf_inodes (xw_fs x)) i = Some nd" and "unat sz < 2 ^ 63"
  shows "\<exists>x'. create_file r path sz x = (Inr (), x') \<and> uf_nodes (xw_fs x') = uf_nodes (xw_fs x) \<and> bytes_of (xw_fs x') i = replicate (unat sz) 0"
  using assms by (simp add: create_file_def act_bind_run on_fs_run open_write_def set_len_def set_inode_def bytes_of_def resize_def)



end
