(* ===== verification/Spec2Isabelle.thy ===== *)
theory Spec2Isabelle
  imports Prelude Errors Object_Store Content_Crypto State_Db Residency World Samples Manifest Engine
    Local_Files Transfers Evict Conflicts Apply Apply_Outcome Config Sync Sync_Safety Sync_Report
    Backup_Crypto Backup_World Pack Index Snapshots Repository Repository_Safety Repository_Runs Retention Lock Prune Prune_Marking Prune_Safety Prune_Runs Unix_Fs Restore Restore_Plan Restore_Safety Restore_Content Restore_Exact Restore_Runs
begin

text \<open>
  A verification of \<open>rust-file-mirror\<close>: an encrypted mirror of a local folder in an S3 bucket
  (\<open>crates/mirror-core\<close>) and a deduplicating backup of it (\<open>crates/backup-core\<close>).

  \<^bold>\<open>The program.\<close> The mirror keeps three views of every path: the scan of the folder, the
  baseline (the rows of the state database, what was last agreed), and the remote manifest, which is a
  snapshot object plus a log of deltas that every device appends to. A pass (\<open>sync.rs\<close>) merges the log,
  sets losing versions of remote conflicts aside, lets the engine compare the three views, and applies
  the resulting plan: uploads and downloads, placeholders, deletions, conflicts, deltas, rows. Evictions
  replace synced files by placeholders; compaction folds the log into the next snapshot. The backup
  splits files into chunks, seals them into packs, lists the packs in index objects, and publishes a
  snapshot that names a tree of trees and chunks; prune deletes what no snapshot reaches; a lock object
  keeps the two apart.

  \<^bold>\<open>Theories of the mirror\<close> (sources under \<open>crates/mirror-core/src\<close>).
  \<^item> \<open>Prelude\<close>: types, byte strings, the result and action monads, lemmas on lists and maps. \<open>Errors\<close>:
    \<open>error.rs\<close> of both crates.
  \<^item> \<open>Object_Store\<close>: \<open>store.rs\<close> as a locale, \<open>store/memory.rs\<close> as its interpretation, failure injection
    included. It is the store of every other theory.
  \<^item> \<open>Content_Crypto\<close>: \<open>crypto/content.rs\<close> (frames, parts, streaming), \<open>crypto/filename.rs\<close>. The AEAD is a
    parameter with its documented laws; round trips hold for every split of the stream.
  \<^item> \<open>State_Db\<close>: \<open>state.rs\<close>, tables as finite maps, an open as the statements of the migration, which may be cut off
    between any two of them.
  \<^item> \<open>Residency\<close>, \<open>Config\<close>: \<open>residency.rs\<close>, \<open>config.rs\<close>.
  \<^item> \<open>Manifest\<close>: \<open>manifest.rs\<close>; merge as a join (order does not matter, the latest wins), compaction
    preserves the merged view, garbage collection removes exactly what no entry names, rollbacks of
    the snapshot are refused.
  \<^item> \<open>Engine\<close>: \<open>engine.rs\<close>; no edit of either side is planned away, each deletion has its cause.
  \<^item> \<open>World\<close>, \<open>Samples\<close>: the environment (parameters and mutable world) and a concrete one.
  \<^item> \<open>Local_Files\<close>: \<open>util/file.rs\<close>, \<open>placeholder.rs\<close>, \<open>scanner.rs\<close>, \<open>safe_join\<close> of \<open>apply.rs\<close>.
  \<^item> \<open>Transfers\<close>: \<open>apply/upload.rs\<close>, \<open>download.rs\<close>, \<open>repair.rs\<close>. \<open>Evict\<close>: \<open>evict.rs\<close>. \<open>Conflicts\<close>:
    \<open>conflict.rs\<close>, \<open>remote_conflict.rs\<close>, \<open>delete_local.rs\<close>.
  \<^item> \<open>Apply\<close>, \<open>Apply_Outcome\<close>: \<open>apply/execute.rs\<close>; rows are written after the deltas that justify them.
  \<^item> \<open>Sync\<close>, \<open>Sync_Safety\<close>, \<open>Sync_Report\<close>: \<open>sync.rs\<close>; the same for the whole pass, after any error in it.

  \<^bold>\<open>Theories of the backup\<close> (sources under \<open>crates/backup-core/src\<close>).
  \<^item> \<open>Backup_Crypto\<close>: \<open>crypto.rs\<close>, \<open>compress.rs\<close>. \<open>Backup_World\<close>: store, clock, random source, \<open>cache.rs\<close>.
  \<^item> \<open>Pack\<close>: \<open>pack.rs\<close>. \<open>Index\<close>: \<open>index.rs\<close>. \<open>Snapshots\<close>: \<open>snapshot.rs\<close>.
  \<^item> \<open>Repository\<close>: \<open>repo.rs\<close>; \<open>Repository_Safety\<close>: the invariant of the store; \<open>Repository_Runs\<close>: runs.
  \<^item> \<open>Retention\<close>, \<open>Prune\<close>: \<open>prune.rs\<close>; \<open>Prune_Marking\<close>: what the walk over the trees marks, and that it ends
    within \<open>mark_fuel\<close>; \<open>Prune_Safety\<close>, \<open>Prune_Runs\<close>: what a prune may delete, wherever it stops.
  \<^item> \<open>Lock\<close>: \<open>lock.rs\<close>.
  \<^item> \<open>Unix_Fs\<close>: the calls of \<open>std::fs\<close> that the restore side makes, on directories, links and inodes.
    \<open>Restore\<close>: \<open>restorer.rs\<close>. \<open>Restore_Plan\<close>: the plan names each path once, below directories that are
    made first. \<open>Restore_Safety\<close>: no entry outside the target changes. \<open>Restore_Content\<close>: merged reads,
    and what is written where. \<open>Restore_Exact\<close>, \<open>Restore_Runs\<close>: a restore that succeeds put back what
    it planned; without overwriting no existing file is touched. The depth of the trees that a restore
    follows is bounded by its first argument.

  \<^bold>\<open>Conventions.\<close> A fallible operation is an action: world in, error or result and world out, so the
  state after an error is part of the model. Integers have the width of the source wherever they can
  wrap. Writes of the store fail by the hooks of the source's own test store; of the backup's store the
  deletes may fail as well, by key. What is not under \<open>src/\<close> (BLAKE3, the AEAD, zstd, JSON codecs, Argon2, globs, chrono, the
  random source) is a parameter; its laws are named hypotheses such as \<open>aead_ok\<close>, and a concrete instance
  in \<open>Samples\<close> and in \<open>Repository_Runs\<close> satisfies all of them together. The random source is a stream,
  and the hypothesis \<open>random_fresh N\<close> says that its next \<open>N\<close> draws differ from each other and from the
  names in the store; each theorem states the \<open>N\<close> it uses.

  \<^bold>\<open>Not modelled.\<close> The AWS client (\<open>store/s3.rs\<close>), which only calls the SDK; key derivation and the vault
  header; the control socket, unit files and process handling; progress reports, the command line, the
  watcher, the terminal interface and the tray icon, which start the operations modelled here or show
  their results; of the backup the walk over live files (\<open>archiver.rs\<close>, \<open>filter.rs\<close>, \<open>journal.rs\<close>), whose
  calls on the repository are covered as arbitrary runs, and \<open>verify.rs\<close>.
\<close>

end
